(* ===== verification/Prelude.thy ===== *)
theory Prelude
  imports Main "HOL-Library.Word" "HOL-Library.Monad_Syntax"
begin

text \<open>
  The prelude of the development: the machine types of the C code, big-endian and
  little-endian readings of byte strings, writes into a block of memory, and the word
  lemmas that the component theories share.  Every C shift-and-or loop of the program is
  related to the two readings \<open>be_val\<close> and \<open>le_val\<close> once, here.
\<close>

unbundle bit_operations_syntax

section \<open>Machine types\<close>

type_synonym u8 = "8 word"
type_synonym u16 = "16 word"
type_synonym u32 = "32 word"
type_synonym u64 = "64 word"
type_synonym bytes = "u8 list"

text \<open>\<open>size_t\<close> values are natural numbers below \<open>SIZE_LIMIT\<close>; wherever the C code could
  overflow, the wrap-around is written out with \<open>szadd\<close> and \<open>szmul\<close>.\<close>

definition SIZE_LIMIT :: nat where
  "SIZE_LIMIT = 18446744073709551616"

definition szadd :: "nat \<Rightarrow> nat \<Rightarrow> nat" where
  "szadd a b = (a + b) mod SIZE_LIMIT"

definition szmul :: "nat \<Rightarrow> nat \<Rightarrow> nat" where
  "szmul a b = (a * b) mod SIZE_LIMIT"

named_theorems size_simps \<open>facts about \<open>size_t\<close> arithmetic without overflow\<close>
named_theorems eval_simps \<open>equations for evaluating definitions on numerals\<close>
named_theorems byte_simps \<open>readings of byte strings as numbers\<close>
named_theorems mem_simps \<open>writes into a block of memory\<close>

lemma SIZE_LIMIT_pos [simp]: "0 < SIZE_LIMIT"
  by (simp add: SIZE_LIMIT_def)

lemma SIZE_LIMIT_pow: "SIZE_LIMIT = 2 ^ 64"
  by (simp add: SIZE_LIMIT_def)

lemma szadd_exact [size_simps]: "a + b < SIZE_LIMIT \<Longrightarrow> szadd a b = a + b"
  by (simp add: szadd_def)

lemma szmul_exact [size_simps]: "a * b < SIZE_LIMIT \<Longrightarrow> szmul a b = a * b"
  by (simp add: szmul_def)

lemma szadd_wrap:
  "a < SIZE_LIMIT \<Longrightarrow> b < SIZE_LIMIT \<Longrightarrow> SIZE_LIMIT \<le> a + b \<Longrightarrow> szadd a b = a + b - SIZE_LIMIT"
  by (simp add: szadd_def mod_if)

text \<open>The overflow test \<open>a + b < a\<close> of the C code detects exactly the overflows.\<close>

lemma szadd_overflow_iff:
  assumes "a < SIZE_LIMIT" and "b < SIZE_LIMIT"
  shows "szadd a b < a \<longleftrightarrow> SIZE_LIMIT \<le> a + b"
proof (cases "a + b < SIZE_LIMIT")
  case True
  then show ?thesis by (simp add: szadd_def)
next
  case False
  with assms have "szadd a b = a + b - SIZE_LIMIT"
    by (simp add: szadd_wrap)
  with False assms show ?thesis by simp
qed

text \<open>Conversions between \<open>int\<close>, \<open>long\<close> and \<open>size_t\<close> as a C cast makes them.\<close>

definition INT_MAX :: nat where
  "INT_MAX = 2147483647"

definition size_of_int :: "int \<Rightarrow> nat" where
  "size_of_int i = nat (i mod 18446744073709551616)"

definition int_of_size :: "nat \<Rightarrow> int" where
  "int_of_size n = signed_take_bit 31 (int n)"

definition long_of_size :: "nat \<Rightarrow> int" where
  "long_of_size n = signed_take_bit 63 (int n)"

lemma size_of_int_exact [size_simps]: "0 \<le> i \<Longrightarrow> i < 18446744073709551616 \<Longrightarrow> size_of_int i = nat i"
  by (simp add: size_of_int_def)

lemma int_of_size_exact [size_simps]: "n \<le> INT_MAX \<Longrightarrow> int_of_size n = int n"
  unfolding int_of_size_def by (rule signed_take_bit_int_eq_self) (simp_all add: INT_MAX_def)

lemma long_of_size_exact [size_simps]: "n < 2 ^ 63 \<Longrightarrow> long_of_size n = int n"
  unfolding long_of_size_def by (rule signed_take_bit_int_eq_self) simp_all

section \<open>Byte strings as numbers\<close>

definition be_val :: "bytes \<Rightarrow> nat" where
  "be_val bs = foldl (\<lambda>n b. n * 256 + unat b) 0 bs"

fun be_bytes :: "nat \<Rightarrow> nat \<Rightarrow> bytes" where
  "be_bytes 0 v = []"
| "be_bytes (Suc n) v = be_bytes n (v div 256) @ [word_of_nat v]"

fun le_val :: "bytes \<Rightarrow> nat" where
  "le_val [] = 0"
| "le_val (b # bs) = unat b + 256 * le_val bs"

fun le_bytes :: "nat \<Rightarrow> nat \<Rightarrow> bytes" where
  "le_bytes 0 v = []"
| "le_bytes (Suc n) v = word_of_nat v # le_bytes n (v div 256)"

lemma unat_byte_less [simp]: "unat (b :: u8) < 256"
  using unsigned_less [where ?w = b] by simp

lemma unat_byte_of_nat [simp]: "unat (word_of_nat v :: u8) = v mod 256"
  by (simp add: unat_of_nat)

lemma byte_of_nat_unat [simp]: "(word_of_nat (unat b) :: u8) = b"
  by simp

lemma byte_of_nat_mult256 [simp]: "(word_of_nat (unat b + 256 * k) :: u8) = b"
proof -
  have "unat (word_of_nat (unat b + 256 * k) :: u8) = unat b"
    by (simp only: unat_byte_of_nat) simp
  then show ?thesis by (simp only: word_unat_eq_iff)
qed

lemma word_of_unat: "unat w = n \<Longrightarrow> w = word_of_nat n"
  by auto

lemma nat_high_bit: "128 \<le> n \<Longrightarrow> n < 256 \<Longrightarrow> n = 128 + n mod (128 :: nat)"
proof -
  assume n: "128 \<le> n" "n < 256"
  then have "n mod 128 = (n - 128) mod 128" by (intro le_mod_geq)
  also have "\<dots> = n - 128" using n by (intro mod_less) linarith
  finally show ?thesis using n by linarith
qed

lemma length_be_bytes [simp]: "length (be_bytes n v) = n"
  by (induction n arbitrary: v) auto

lemma length_le_bytes [simp]: "length (le_bytes n v) = n"
  by (induction n arbitrary: v) auto

lemma be_val_Nil [simp]: "be_val [] = 0"
  by (simp add: be_val_def)

lemma be_val_snoc [simp]: "be_val (bs @ [b]) = be_val bs * 256 + unat b"
  by (simp add: be_val_def)

lemma be_val_append: "be_val (xs @ ys) = be_val xs * 256 ^ length ys + be_val ys"
proof (induction ys rule: rev_induct)
  case (snoc y ys)
  then show ?case
    by (simp flip: append_assoc add: algebra_simps)
qed simp

lemma be_val_Cons: "be_val (b # bs) = unat b * 256 ^ length bs + be_val bs"
  using be_val_append [of "[b]" bs] be_val_snoc [of "[]" b] by simp

lemma be_val_single [simp]: "be_val [b] = unat b"
  using be_val_snoc [of "[]" b] by simp

lemma le_val_append: "le_val (xs @ ys) = le_val xs + 256 ^ length xs * le_val ys"
  by (induction xs) (auto simp: algebra_simps)

lemma be_val_rev: "be_val (rev bs) = le_val bs"
  by (induction bs) (simp_all add: algebra_simps)

lemma rev_be_bytes: "rev (be_bytes n v) = le_bytes n v"
  by (induction n arbitrary: v) auto

lemma be_val_less: "be_val bs < 256 ^ length bs"
proof (induction bs rule: rev_induct)
  case (snoc b bs)
  have "be_val bs * 256 + unat b < be_val bs * 256 + 256" by simp
  also have "\<dots> \<le> 256 ^ length bs * 256"
    using snoc by (metis Suc_leI add.commute mult_Suc mult_le_mono1)
  finally show ?case by simp
qed simp

lemma le_val_less: "le_val bs < 256 ^ length bs"
  using be_val_less [of "rev bs"] by (simp add: be_val_rev)

lemma be_val_be_bytes [byte_simps]: "be_val (be_bytes n v) = v mod 256 ^ n"
proof (induction n arbitrary: v)
  case (Suc n)
  have "v div 256 mod 256 ^ n * 256 + v mod 256 = v mod (256 * 256 ^ n)"
    by (simp add: mod_mult2_eq)
  with Suc show ?case by simp
qed simp

lemma be_bytes_be_val [byte_simps]: "be_bytes (length bs) (be_val bs) = bs"
proof (induction bs rule: rev_induct)
  case (snoc b bs)
  have "(be_val bs * 256 + unat b) div 256 = be_val bs"
    by (simp add: div_mult_self3)
  moreover have "(word_of_nat (be_val bs * 256 + unat b) :: u8) = b"
    using byte_of_nat_mult256 [of b "be_val bs"] by (simp only: ac_simps)
  ultimately show ?case using snoc by (simp del: of_nat_add of_nat_mult)
qed simp

lemma le_val_le_bytes [byte_simps]: "le_val (le_bytes n v) = v mod 256 ^ n"
  by (metis be_val_be_bytes be_val_rev rev_be_bytes rev_rev_ident)

lemma le_bytes_le_val [byte_simps]: "le_bytes (length bs) (le_val bs) = bs"
  by (metis be_bytes_be_val be_val_rev length_rev rev_be_bytes rev_rev_ident)

lemma be_val_inj: "length xs = length ys \<Longrightarrow> be_val xs = be_val ys \<Longrightarrow> xs = ys"
  by (metis be_bytes_be_val)

lemma be_bytes_mod: "be_bytes n (v mod 256 ^ n) = be_bytes n v"
  using be_bytes_be_val [of "be_bytes n v"] by (simp add: be_val_be_bytes)

lemma be_bytes_1 [simp]: "be_bytes (Suc 0) v = [word_of_nat v]"
  by simp

lemma le_bytes_numeral [eval_simps]:
  "le_bytes (numeral k) v = word_of_nat v # le_bytes (pred_numeral k) (v div 256)"
  by (simp only: numeral_eq_Suc le_bytes.simps)

lemma be_bytes_numeral [eval_simps]:
  "be_bytes (numeral k) v = be_bytes (pred_numeral k) (v div 256) @ [word_of_nat v]"
  by (simp only: numeral_eq_Suc be_bytes.simps)

section \<open>Shift-and-or as arithmetic\<close>

lemma push_or_eq_plus:
  fixes x y :: "'a::len word"
  assumes "unat y < 2 ^ n"
  shows "push_bit n x OR y = push_bit n x + y"
proof -
  have "unat (take_bit n y) = unat y"
    using assms by (simp add: unsigned_take_bit_eq take_bit_nat_eq_self)
  then have "take_bit n y = y"
    by (simp only: word_unat_eq_iff)
  then have "\<not> bit y k" if "n \<le> k" for k
    using that by (metis bit_take_bit_iff leD)
  then show ?thesis
    by (intro disjunctive_add_eq_or [symmetric]) (auto simp: bit_eq_iff bit_simps)
qed

lemma unat_push_or:
  fixes x y :: "'a::len word"
  assumes y: "unat y < 2 ^ n" and x: "unat x < 2 ^ (LENGTH('a) - n)" and n: "n \<le> LENGTH('a)"
  shows "unat (push_bit n x OR y) = unat x * 2 ^ n + unat y"
proof -
  have pow: "2 ^ (LENGTH('a) - n) * 2 ^ n = (2::nat) ^ LENGTH('a)"
    using n by (simp flip: power_add)
  have "unat x * 2 ^ n + unat y < Suc (unat x) * 2 ^ n" using y by simp
  also have "\<dots> \<le> 2 ^ (LENGTH('a) - n) * 2 ^ n"
    using x by (intro mult_le_mono1) simp
  finally have lt: "unat x * 2 ^ n + unat y < 2 ^ LENGTH('a)" by (simp add: pow)
  have "push_bit n x OR y = word_of_nat (unat x * 2 ^ n + unat y)"
    by (simp add: push_or_eq_plus [OF y]) (simp add: push_bit_eq_mult)
  then show ?thesis
    using lt by (simp add: unat_of_nat del: of_nat_add of_nat_mult)
qed


lemma unat_ucast_byte:
  assumes "8 \<le> LENGTH('a::len)"
  shows "unat (ucast (b :: u8) :: 'a word) = unat b"
proof -
  have "(2::nat) ^ 8 \<le> 2 ^ LENGTH('a)" using assms by (intro power_increasing) auto
  then have "unat b < 2 ^ LENGTH('a)" using unat_byte_less [of b] by (simp del: unat_byte_less)
  then show ?thesis
    by (simp only: unsigned_ucast_eq take_bit_nat_eq_self)
qed


lemma push_or_of_nat:
  fixes b :: u8
  assumes "8 \<le> LENGTH('a::len)"
  shows "push_bit 8 (word_of_nat r) OR ucast b = (word_of_nat (r * 256 + unat b) :: 'a word)"
proof -
  have b: "unat (ucast b :: 'a word) = unat b" by (rule unat_ucast_byte [OF assms])
  then have "ucast b = (word_of_nat (unat b) :: 'a word)" by (metis of_nat_unat)
  moreover have "push_bit 8 (word_of_nat r) OR ucast b = push_bit 8 (word_of_nat r) + (ucast b :: 'a word)"
    using b unat_byte_less [of b] by (intro push_or_eq_plus) simp
  ultimately show ?thesis
    by (simp add: push_bit_eq_mult)
qed


lemma foldl_push_or:
  assumes "8 \<le> LENGTH('a::len)"
  shows "foldl (\<lambda>r b. push_bit 8 r OR ucast b) (0 :: 'a word) bs = word_of_nat (be_val bs)"
proof (induction bs rule: rev_induct)
  case (snoc b bs)
  then show ?case using push_or_of_nat [OF assms] by (simp del: of_nat_add of_nat_mult)
qed simp


lemma unat_and_mask: "unat (x AND mask n :: 'a::len word) = unat x mod 2 ^ n"
  by (simp add: unsigned_take_bit_eq take_bit_nat_def flip: take_bit_eq_mask)


lemma unat_and_not_mask: "unat (x AND NOT (mask n) :: 'a::len word) = unat x div 2 ^ n * 2 ^ n"
proof -
  have "unat x div 2 ^ n * 2 ^ n < 2 ^ LENGTH('a)"
    using div_times_less_eq_dividend [of "unat x" "2 ^ n"] unsigned_less [of x]
    by (metis le_less_trans of_nat_less_iff)
  moreover have "x AND NOT (mask n) = push_bit n (drop_bit n x)"
    by (auto simp: bit_eq_iff bit_simps)
  ultimately show ?thesis
    by (simp add: unsigned_push_bit_eq unat_drop_bit_eq drop_bit_nat_def push_bit_nat_def take_bit_nat_def)
qed


lemma unat_u64_less: "unat (v :: u64) < 2 ^ 64"
  using unsigned_less [of v] by simp

lemma unat_u32_less: "unat (v :: u32) < 2 ^ 32"
  using unsigned_less [of v] by simp

lemma unat_drop: "unat (drop_bit n x) = unat x div 2^n"
  by (simp add: unat_drop_bit_eq drop_bit_nat_def)


lemma bit_byte_7: "bit (b :: u8) 7 \<longleftrightarrow> 128 \<le> unat b"
proof -
  have "bit b 7 = bit (unat b) 7" by (simp add: bit_unsigned_iff)
  also have "\<dots> = odd (unat b div 128)" by (simp add: bit_iff_odd)
  also have "\<dots> \<longleftrightarrow> 128 \<le> unat b" using unat_byte_less [of b]
    by (cases "unat b < 128") (simp_all add: div_if del: unat_byte_less)
  finally show ?thesis .
qed

lemma byte_and_128 [simp]: "(b :: u8) AND 128 = 0 \<longleftrightarrow> unat b < 128"
  using and_exp_eq_0_iff_not_bit [of b 7] by (simp add: bit_byte_7 not_le)

section \<open>Writes into a block of memory\<close>

text \<open>\<open>mem_write m off bs\<close> is the block \<open>m\<close> after \<open>memcpy (m + off, bs)\<close>; every use is within
  bounds (\<open>off + length bs \<le> length m\<close>).\<close>

definition mem_write :: "'a list \<Rightarrow> nat \<Rightarrow> 'a list \<Rightarrow> 'a list" where
  "mem_write m off bs = take off m @ bs @ drop (off + length bs) m"

lemma length_mem_write [mem_simps]:
  "off + length bs \<le> length m \<Longrightarrow> length (mem_write m off bs) = length m"
  by (simp add: mem_write_def)

lemma take_mem_write_before [mem_simps]:
  "k \<le> off \<Longrightarrow> off \<le> length m \<Longrightarrow> take k (mem_write m off bs) = take k m"
  by (simp add: mem_write_def min_def)

lemma take_mem_write_end [mem_simps]:
  "off \<le> length m \<Longrightarrow> take (off + length bs) (mem_write m off bs) = take off m @ bs"
  by (simp add: mem_write_def)

lemma drop_mem_write_after [mem_simps]:
  "off + length bs \<le> length m \<Longrightarrow> drop (off + length bs) (mem_write m off bs) = drop (off + length bs) m"
  by (simp add: mem_write_def)

lemma mem_write_0 [mem_simps]: "mem_write m 0 bs = bs @ drop (length bs) m"
  by (simp add: mem_write_def)

section \<open>Operations that may have no value\<close>

text \<open>Operations that the C standard leaves undefined, and assertions that fail, have the value \<open>None\<close> in
  the theories that model memory by blocks.\<close>

definition check :: "bool \<Rightarrow> unit option" where
  "check b = (if b then Some () else None)"

lemma check_bind [simp]: "(check b \<bind> f) = (if b then f () else None)"
  by (simp add: check_def)

lemma bind_eq_Some: "(m \<bind> f) = Some y \<longleftrightarrow> (\<exists>x. m = Some x \<and> f x = Some y)"
  by (cases m) auto

end
