(* ===== verification/Comparator.thy ===== *)
theory Comparator
  imports Prelude "HOL-Library.Multiset"
begin

text \<open>
  The contract of the comparison callbacks the C code hands to \<open>qsort\<close> and to its binary
  searches: the sign of the result orders the arguments as a total preorder.  The locale
  proves once what every client needs: sorting gives an ordered permutation, and in an
  ordered list the elements equal to a key form one contiguous range.  \<open>qsort\<close> is the
  C library's function; it is modelled by insertion.
\<close>

fun insert_by :: "('a \<Rightarrow> 'a \<Rightarrow> int) \<Rightarrow> 'a \<Rightarrow> 'a list \<Rightarrow> 'a list" where
  "insert_by cmp x [] = [x]"
| "insert_by cmp x (y # ys) = (if cmp x y \<le> 0 then x # y # ys else y # insert_by cmp x ys)"

fun qsort :: "('a \<Rightarrow> 'a \<Rightarrow> int) \<Rightarrow> 'a list \<Rightarrow> 'a list" where
  "qsort cmp [] = []"
| "qsort cmp (x # xs) = insert_by cmp x (qsort cmp xs)"

definition ordered :: "('a \<Rightarrow> 'a \<Rightarrow> int) \<Rightarrow> 'a list \<Rightarrow> bool" where
  "ordered cmp xs = sorted_wrt (\<lambda>x y. cmp x y \<le> 0) xs"

lemma mset_insert_by [simp]: "mset (insert_by cmp x xs) = add_mset x (mset xs)"
  by (induction xs) auto

lemma mset_qsort [simp]: "mset (qsort cmp xs) = mset xs"
  by (induction xs) auto

lemma set_insert_by [simp]: "set (insert_by cmp x xs) = insert x (set xs)"
  by (induction xs) auto

lemma set_qsort [simp]: "set (qsort cmp xs) = set xs"
  by (induction xs) auto

lemma length_qsort [simp]: "length (qsort cmp xs) = length xs"
  by (metis mset_qsort size_mset)

locale comparator =
  fixes cmp :: "'a \<Rightarrow> 'a \<Rightarrow> int"
  assumes cmp_swap: "sgn (cmp y x) = - sgn (cmp x y)"
    and cmp_trans: "cmp x y \<le> 0 \<Longrightarrow> cmp y z \<le> 0 \<Longrightarrow> cmp x z \<le> 0"
begin

lemma cmp_refl: "cmp x x = 0"
  using cmp_swap [of x x] by (auto simp: sgn_if split: if_splits)

lemma cmp_less_swap: "cmp y x < 0 \<longleftrightarrow> 0 < cmp x y"
  using cmp_swap [of y x] by (auto simp: sgn_if split: if_splits)

lemma cmp_eq_swap: "cmp y x = 0 \<longleftrightarrow> cmp x y = 0"
  using cmp_swap [of y x] by (auto simp: sgn_if split: if_splits)

lemma cmp_le_swap: "cmp y x \<le> 0 \<longleftrightarrow> 0 \<le> cmp x y"
  using cmp_less_swap [of y x] cmp_eq_swap [of y x] by linarith

lemma cmp_total: "cmp x y \<le> 0 \<or> cmp y x \<le> 0"
  using cmp_le_swap by fastforce

lemma cmp_less_trans:
  assumes "cmp x y \<le> 0" and "cmp y z < 0"
  shows "cmp x z < 0"
proof (rule ccontr)
  assume "\<not> cmp x z < 0"
  then have "cmp z x \<le> 0" using cmp_le_swap by simp
  with assms(1) have "cmp z y \<le> 0" using cmp_trans by blast
  with assms(2) show False using cmp_le_swap [of z y] by simp
qed

lemma cmp_less_trans':
  assumes "cmp x y < 0" and "cmp y z \<le> 0"
  shows "cmp x z < 0"
proof (rule ccontr)
  assume "\<not> cmp x z < 0"
  then have "cmp z x \<le> 0" using cmp_le_swap by simp
  with assms(2) have "cmp y x \<le> 0" using cmp_trans by blast
  with assms(1) show False using cmp_le_swap [of y x] by simp
qed

lemma ordered_insert_by: "ordered cmp xs \<Longrightarrow> ordered cmp (insert_by cmp x xs)"
proof (induction xs)
  case (Cons y ys)
  have total: "cmp x y \<le> 0 \<or> cmp y x \<le> 0" by (rule cmp_total)
  from Cons total show ?case
    by (auto simp: ordered_def intro: cmp_trans)
qed (simp add: ordered_def)

lemma ordered_qsort: "ordered cmp (qsort cmp xs)"
proof (induction xs)
  case (Cons x xs)
  then show ?case by (simp add: ordered_insert_by)
qed (simp add: ordered_def)

lemma ordered_nthD:
  "ordered cmp xs \<Longrightarrow> i \<le> j \<Longrightarrow> j < length xs \<Longrightarrow> cmp (xs ! i) (xs ! j) \<le> 0"
  by (cases "i = j") (auto simp: ordered_def sorted_wrt_iff_nth_less cmp_refl)

text \<open>A probe of an ordered list at \<open>mid\<close> decides which side can hold a match.\<close>

lemma probe_above:
  assumes "ordered cmp xs" and "0 < cmp p (xs ! mid)" and "i \<le> mid" and "mid < length xs"
  shows "0 < cmp p (xs ! i)"
proof -
  have "cmp (xs ! i) (xs ! mid) \<le> 0" using assms by (simp add: ordered_nthD)
  moreover have "cmp (xs ! mid) p < 0" using assms(2) cmp_less_swap by blast
  ultimately have "cmp (xs ! i) p < 0" by (rule cmp_less_trans)
  then show ?thesis using cmp_less_swap by blast
qed

lemma probe_below:
  assumes "ordered cmp xs" and "cmp p (xs ! mid) < 0" and "mid \<le> i" and "i < length xs"
  shows "cmp p (xs ! i) < 0"
proof -
  have "cmp (xs ! mid) (xs ! i) \<le> 0" using assms by (simp add: ordered_nthD)
  with assms(2) show ?thesis by (rule cmp_less_trans')
qed

lemma ordered_unique_if_strict:
  assumes "\<And>x y. cmp x y = 0 \<Longrightarrow> x = y"
    and "ordered cmp xs" and "ordered cmp ys" and "mset xs = mset ys"
  shows "xs = ys"
  using assms(2-4)
proof (induction xs arbitrary: ys)
  case (Cons x xs)
  then obtain y zs where ys: "ys = y # zs" by (cases ys) auto
  have "y \<in> set (x # xs)" and "x \<in> set (y # zs)"
    using Cons.prems(3) ys by (metis list.set_intros(1) set_mset_mset)+
  with Cons.prems ys have "cmp x y \<le> 0 \<and> cmp y x \<le> 0"
    using cmp_refl by (fastforce simp: ordered_def)
  then have "cmp x y = 0" using cmp_le_swap [of x y] cmp_le_swap [of y x] by simp
  then have "x = y" by (rule assms(1))
  with Cons ys show ?case by (simp add: ordered_def)
qed simp

end

end
