(* ===== verification/Mem.thy ===== *)
theory Mem
  imports Comparator
begin

text \<open>
  The memory and string helpers of \<open>crypto/mem.c\<close>.  A heap block is the list of its bytes
  with the eight-byte size header in front, as \<open>OPENSSL_malloc\<close> lays it out; a C string is the
  list of its bytes up to the terminator, so that reading at its length gives the terminator.
  The system's \<open>malloc\<close> either fails or returns a block of the requested size with
  arbitrary contents.
\<close>

section \<open>The allocator\<close>

record heap_env =
  heap_ok :: "nat \<Rightarrow> bool"
  heap_junk :: "nat \<Rightarrow> u8"

definition sys_malloc :: "heap_env \<Rightarrow> nat \<Rightarrow> bytes option" where
  "sys_malloc env n = (if heap_ok env n then Some (map (heap_junk env) [0..<n]) else None)"

datatype alloc_result = Null | Ptr bytes | OutOfBounds

definition OPENSSL_MALLOC_PREFIX :: nat where
  "OPENSSL_MALLOC_PREFIX = 8"

text \<open>The size header is written without a check of the block's size: where the addition wraps
  around, the write is outside the block.\<close>

definition OPENSSL_malloc :: "heap_env \<Rightarrow> nat \<Rightarrow> alloc_result" where
  "OPENSSL_malloc env sz =
     (case sys_malloc env (szadd sz OPENSSL_MALLOC_PREFIX) of
        None \<Rightarrow> Null
      | Some blk \<Rightarrow>
          if length blk < OPENSSL_MALLOC_PREFIX then OutOfBounds
          else Ptr (mem_write blk 0 (le_bytes 8 sz)))"

definition block_size :: "bytes \<Rightarrow> nat" where
  "block_size blk = le_val (take 8 blk)"

definition payload :: "bytes \<Rightarrow> bytes" where
  "payload blk = drop OPENSSL_MALLOC_PREFIX blk"

definition OPENSSL_cleanse :: "bytes \<Rightarrow> nat \<Rightarrow> bytes" where
  "OPENSSL_cleanse m len = mem_write m 0 (replicate len 0)"

text \<open>What \<open>OPENSSL_free\<close> hands back to the system: the wiped block, nothing for NULL.\<close>

definition OPENSSL_free :: "bytes option \<Rightarrow> bytes option" where
  "OPENSSL_free p =
     (case p of
        None \<Rightarrow> None
      | Some blk \<Rightarrow>
          Some (OPENSSL_cleanse blk (szadd (block_size blk) OPENSSL_MALLOC_PREFIX)))"

text \<open>\<open>OPENSSL_realloc\<close> returns the new block and the block it gave back to the system.\<close>

definition OPENSSL_realloc ::
    "heap_env \<Rightarrow> bytes option \<Rightarrow> nat \<Rightarrow> alloc_result \<times> bytes option" where
  "OPENSSL_realloc env orig new_size =
     (case orig of
        None \<Rightarrow> (OPENSSL_malloc env new_size, None)
      | Some old \<Rightarrow>
          let old_size = block_size old in
          (case OPENSSL_malloc env new_size of
             Null \<Rightarrow> (Null, None)
           | OutOfBounds \<Rightarrow> (OutOfBounds, None)
           | Ptr ret \<Rightarrow>
               let to_copy = (if old_size < new_size then old_size else new_size) in
               (Ptr (mem_write ret OPENSSL_MALLOC_PREFIX (take to_copy (payload old))),
                OPENSSL_free (Some old))))"

definition OPENSSL_memdup :: "heap_env \<Rightarrow> bytes \<Rightarrow> alloc_result" where
  "OPENSSL_memdup env data =
     (if length data = 0 then Null
      else (case OPENSSL_malloc env (length data) of
              Ptr ret \<Rightarrow> Ptr (mem_write ret OPENSSL_MALLOC_PREFIX data)
            | r \<Rightarrow> r))"

text \<open>A block whose header records the size of its payload.\<close>

definition block_ok :: "bytes \<Rightarrow> bool" where
  "block_ok blk \<longleftrightarrow> length blk = block_size blk + OPENSSL_MALLOC_PREFIX \<and> length blk < SIZE_LIMIT"

lemmas mem_defs = OPENSSL_malloc_def sys_malloc_def OPENSSL_MALLOC_PREFIX_def payload_def
  block_size_def block_ok_def

lemma OPENSSL_malloc_cases:
  assumes "sz < SIZE_LIMIT"
  shows "OPENSSL_malloc env sz = Null \<or>
    (\<exists>blk. OPENSSL_malloc env sz = Ptr blk \<and> block_ok blk \<and> block_size blk = sz
       \<and> length (payload blk) = sz \<and> sz + 8 < SIZE_LIMIT) \<or>
    (OPENSSL_malloc env sz = OutOfBounds \<and> SIZE_LIMIT \<le> sz + 8)"
proof (cases "sz + 8 < SIZE_LIMIT")
  case True
  moreover have "sz < 256 ^ 8" using assms by (simp add: SIZE_LIMIT_def)
  ultimately show ?thesis
    by (auto simp: mem_defs szadd_exact mem_simps byte_simps)
next
  case False
  with assms have "szadd sz 8 < 8"
    using szadd_wrap [of sz 8] by (simp add: SIZE_LIMIT_def)
  with False show ?thesis
    by (auto simp: mem_defs)
qed

lemma OPENSSL_malloc_Ptr:
  assumes "OPENSSL_malloc env sz = Ptr blk" and "sz < SIZE_LIMIT"
  shows "block_ok blk" and "block_size blk = sz" and "length (payload blk) = sz"
  using OPENSSL_malloc_cases [OF assms(2), of env] assms(1) by auto

lemma OPENSSL_free_wipes_block:
  "block_ok blk \<Longrightarrow> OPENSSL_free (Some blk) = Some (replicate (length blk) 0)"
  by (simp add: OPENSSL_free_def OPENSSL_cleanse_def block_ok_def szadd_exact mem_simps)

lemma block_size_mem_write:
  "8 \<le> off \<Longrightarrow> off \<le> length blk \<Longrightarrow> block_size (mem_write blk off bs) = block_size blk"
  by (simp add: block_size_def mem_simps)

section \<open>Comparing, hashing and copying bytes\<close>

definition CRYPTO_memcmp :: "bytes \<Rightarrow> bytes \<Rightarrow> nat \<Rightarrow> u8" where
  "CRYPTO_memcmp a b len = foldl (\<lambda>x i. x OR (a ! i XOR b ! i)) 0 [0..<len]"

fun memcmp :: "bytes \<Rightarrow> bytes \<Rightarrow> nat \<Rightarrow> int" where
  "memcmp a b 0 = 0"
| "memcmp (x # a) (y # b) (Suc n) = (if x = y then memcmp a b n else uint x - uint y)"
| "memcmp a b n = 0"

definition OPENSSL_memcmp :: "bytes \<Rightarrow> bytes \<Rightarrow> nat \<Rightarrow> int" where
  "OPENSSL_memcmp a b n = (if n = 0 then 0 else memcmp a b n)"

definition OPENSSL_hash32 :: "bytes \<Rightarrow> u32" where
  "OPENSSL_hash32 inp = foldl (\<lambda>h b. (h XOR ucast b) * 16777619) 2166136261 inp"

fun OPENSSL_strnlen :: "bytes \<Rightarrow> nat \<Rightarrow> nat" where
  "OPENSSL_strnlen s 0 = 0"
| "OPENSSL_strnlen [] (Suc n) = 0"
| "OPENSSL_strnlen (c # s) (Suc n) = (if c = 0 then 0 else Suc (OPENSSL_strnlen s n))"

definition OPENSSL_strndup :: "heap_env \<Rightarrow> bytes \<Rightarrow> nat \<Rightarrow> alloc_result" where
  "OPENSSL_strndup env str n =
     (let n' = OPENSSL_strnlen str n; alloc_size = szadd n' 1 in
      if alloc_size < n' then Null
      else (case OPENSSL_malloc env alloc_size of
              Ptr ret \<Rightarrow> Ptr (mem_write ret OPENSSL_MALLOC_PREFIX (take n' str @ [0]))
            | r \<Rightarrow> r))"

text \<open>A \<open>char\<close> is signed on the platforms of the app, so characters compare as \<open>sint\<close>.\<close>

definition OPENSSL_tolower :: "int \<Rightarrow> int" where
  "OPENSSL_tolower c = (if 65 \<le> c \<and> c \<le> 90 then c + 32 else c)"

definition char_at :: "bytes \<Rightarrow> int" where
  "char_at s = (case s of [] \<Rightarrow> 0 | c # _ \<Rightarrow> sint c)"

function OPENSSL_strcasecmp :: "bytes \<Rightarrow> bytes \<Rightarrow> int" where
  "OPENSSL_strcasecmp a b =
     (let aa = OPENSSL_tolower (char_at a); bb = OPENSSL_tolower (char_at b) in
      if aa < bb then -1
      else if aa > bb then 1
      else if aa = 0 then 0
      else OPENSSL_strcasecmp (tl a) (tl b))"
  by pat_completeness auto
termination
  by (relation "measure (\<lambda>(a, b). length a)")
     (auto simp: char_at_def OPENSSL_tolower_def split: list.splits)

fun OPENSSL_strncasecmp :: "bytes \<Rightarrow> bytes \<Rightarrow> nat \<Rightarrow> int" where
  "OPENSSL_strncasecmp a b 0 = 0"
| "OPENSSL_strncasecmp a b (Suc n) =
     (let aa = OPENSSL_tolower (char_at a); bb = OPENSSL_tolower (char_at b) in
      if aa < bb then -1
      else if aa > bb then 1
      else if aa = 0 then 0
      else OPENSSL_strncasecmp (tl a) (tl b) n)"

text \<open>\<open>OPENSSL_strlcpy\<close> writes into the block \<open>dst\<close> and returns it with the source's length.
  The loop copies while more than one byte of room is left.\<close>

fun strlcpy_loop :: "bytes \<Rightarrow> nat \<Rightarrow> bytes \<times> nat \<times> bytes" where
  "strlcpy_loop [] d = ([], d, [])"
| "strlcpy_loop (c # src) d =
     (if d > 1 then (let (w, d', rest) = strlcpy_loop src (d - 1) in (c # w, d', rest))
      else ([], d, c # src))"

definition OPENSSL_strlcpy :: "bytes \<Rightarrow> bytes \<Rightarrow> nat \<Rightarrow> bytes \<times> nat" where
  "OPENSSL_strlcpy dst src dst_size =
     (let (w, d, rest) = strlcpy_loop src dst_size;
          dst' = mem_write dst 0 (if d \<noteq> 0 then w @ [0] else w)
      in (dst', length w + length rest))"

definition OPENSSL_strlcat :: "bytes \<Rightarrow> bytes \<Rightarrow> nat \<Rightarrow> bytes \<times> nat" where
  "OPENSSL_strlcat dst src dst_size =
     (let l = OPENSSL_strnlen dst dst_size;
          (tail', n) = OPENSSL_strlcpy (drop l dst) src (dst_size - l)
      in (take l dst @ tail', l + n))"

lemma or_eq_0_iff_word: "(x :: 'a::len word) OR y = 0 \<longleftrightarrow> x = 0 \<and> y = 0"
  by (auto simp: bit_eq_iff bit_simps)

lemma foldl_or_eq_0:
  "foldl (\<lambda>x i. x OR f i) (a :: 'a::len word) is = 0 \<longleftrightarrow> a = 0 \<and> (\<forall>i\<in>set is. f i = 0)"
  by (induction "is" arbitrary: a) (auto simp: or_eq_0_iff_word)

lemma xor_eq_0_iff_word: "(x :: 'a::len word) XOR y = 0 \<longleftrightarrow> x = y"
  by (auto simp: bit_eq_iff bit_simps)

lemma CRYPTO_memcmp_eq_0:
  "length a = len \<Longrightarrow> length b = len \<Longrightarrow> CRYPTO_memcmp a b len = 0 \<longleftrightarrow> a = b"
  by (auto simp: CRYPTO_memcmp_def foldl_or_eq_0 xor_eq_0_iff_word intro: nth_equalityI)

lemma OPENSSL_strnlen_le: "OPENSSL_strnlen s n \<le> n \<and> OPENSSL_strnlen s n \<le> length s"
  by (induction s n rule: OPENSSL_strnlen.induct) auto

lemma strlcpy_loop_eq:
  "strlcpy_loop src (Suc e) = (take e src, Suc e - min e (length src), drop e src)"
proof (induction src arbitrary: e)
  case (Cons c src)
  then show ?case by (cases e) auto
qed simp

lemma tolower_char_at_0: "OPENSSL_tolower (char_at []) = 0"
  by (simp add: OPENSSL_tolower_def char_at_def)

declare OPENSSL_strcasecmp.simps [simp del]

lemma strcasecmp_unfold:
  "OPENSSL_strcasecmp a b =
     (if OPENSSL_tolower (char_at a) < OPENSSL_tolower (char_at b) then -1
      else if OPENSSL_tolower (char_at b) < OPENSSL_tolower (char_at a) then 1
      else if OPENSSL_tolower (char_at a) = 0 then 0
      else OPENSSL_strcasecmp (tl a) (tl b))"
  by (subst OPENSSL_strcasecmp.simps) (simp add: Let_def)

lemma strcasecmp_swap: "OPENSSL_strcasecmp b a = - OPENSSL_strcasecmp a b"
proof (induction a b rule: OPENSSL_strcasecmp.induct)
  case (1 a b)
  from "1" [OF refl refl] show ?case
    by (subst (1 2) strcasecmp_unfold) (simp split: if_splits)
qed

lemma strcasecmp_trans:
  "OPENSSL_strcasecmp a b \<le> 0 \<Longrightarrow> OPENSSL_strcasecmp b c \<le> 0 \<Longrightarrow> OPENSSL_strcasecmp a c \<le> 0"
proof (induction a b arbitrary: c rule: OPENSSL_strcasecmp.induct)
  case (1 a b)
  note IH = "1.IH" [OF refl refl]
  from "1.prems" show ?case
    by (subst (asm) (1 2) strcasecmp_unfold, subst strcasecmp_unfold)
       (auto intro: IH split: if_splits)
qed

interpretation strcase: comparator OPENSSL_strcasecmp
proof
  show "sgn (OPENSSL_strcasecmp y x) = - sgn (OPENSSL_strcasecmp x y)" for x y
    by (subst strcasecmp_swap) (rule sgn_minus)
qed (rule strcasecmp_trans)

text \<open>A non-empty destination always ends up as a terminated, possibly truncated copy, and the
  result is the length of the whole source, which tells the caller about a truncation.\<close>

lemma OPENSSL_strlcpy_spec:
  assumes "0 < dst_size" and "dst_size \<le> length dst"
  shows "OPENSSL_strlcpy dst src dst_size =
    (take (dst_size - 1) src @ [0] @ drop (Suc (min (dst_size - 1) (length src))) dst, length src)"
proof -
  obtain e where e: "dst_size = Suc e" using assms(1) by (cases dst_size) auto
  then show ?thesis
    by (auto simp: OPENSSL_strlcpy_def strlcpy_loop_eq mem_simps min_def)
qed

text \<open>C30. \<open>OPENSSL_malloc\<close> either fails or returns a block whose payload has exactly the size
  recorded in its header; the one exception is a request within eight bytes of the end of the
  address space, where the unchecked addition of the header's size wraps around and the header
  is written outside the block the system returned.\<close>

theorem OPENSSL_malloc_outcomes:
  assumes "sz < SIZE_LIMIT"
  shows "OPENSSL_malloc env sz = Null \<or>
    (\<exists>blk. OPENSSL_malloc env sz = Ptr blk \<and> block_ok blk \<and> block_size blk = sz
       \<and> length (payload blk) = sz \<and> sz + 8 < SIZE_LIMIT) \<or>
    (OPENSSL_malloc env sz = OutOfBounds \<and> SIZE_LIMIT \<le> sz + 8)"
  using assms by (rule OPENSSL_malloc_cases)

definition generous_env :: heap_env where
  "generous_env = \<lparr>heap_ok = (\<lambda>_. True), heap_junk = (\<lambda>_. 170)\<rparr>"

theorem OPENSSL_malloc_outcomes_witness:
  "OPENSSL_malloc generous_env (SIZE_LIMIT - 1) = OutOfBounds"
proof -
  have "SIZE_LIMIT - 1 < SIZE_LIMIT" by simp
  from OPENSSL_malloc_outcomes [OF this, of generous_env] show ?thesis
    by (auto simp: SIZE_LIMIT_def mem_defs generous_env_def szadd_def)
qed

lemma OPENSSL_realloc_block:
  assumes "block_ok old" and "new_size < SIZE_LIMIT"
    and "OPENSSL_realloc env (Some old) new_size = (Ptr blk, freed)"
  shows "block_ok blk \<and> length (payload blk) = new_size
    \<and> take (min (block_size old) new_size) (payload blk) = take new_size (payload old)
    \<and> freed = Some (replicate (length old) 0)"
proof -
  let ?copy = "take (min (block_size old) new_size) (payload old)"
  have len_old: "length (payload old) = block_size old" "block_size old + 8 = length old"
    using assms(1) by (auto simp: block_ok_def payload_def OPENSSL_MALLOC_PREFIX_def)
  obtain ret where ret: "OPENSSL_malloc env new_size = Ptr ret"
    and blk: "blk = mem_write ret 8 ?copy"
    and freed: "freed = OPENSSL_free (Some old)"
    using assms(3)
    by (auto simp: OPENSSL_realloc_def Let_def OPENSSL_MALLOC_PREFIX_def min_def
        split: alloc_result.splits if_splits)
  note r = OPENSSL_malloc_Ptr [OF ret assms(2)]
  have "length ret = new_size + 8"
    using r by (simp add: block_ok_def OPENSSL_MALLOC_PREFIX_def)
  moreover from this have "length blk = length ret" "length (payload blk) = new_size"
    "take (min (block_size old) new_size) (payload blk) = ?copy"
    using len_old by (auto simp: blk payload_def OPENSSL_MALLOC_PREFIX_def mem_write_def)
  moreover have "block_size blk = new_size"
    using r(2) calculation(1) by (simp add: blk block_size_mem_write)
  ultimately show ?thesis
    using r len_old freed OPENSSL_free_wipes_block [OF assms(1)]
    by (auto simp: block_ok_def min_def)
qed

section \<open>Blocks as their clients see them\<close>

text \<open>Clients of the allocator know a block by its payload; the header is put back when the block is
  handed to \<open>OPENSSL_realloc\<close>.  To them a request within eight bytes of the end of the address space, for which the addition of the header's size
  wraps around and \<open>OPENSSL_malloc\<close> writes out of bounds as shown above, is a failed one: the clients modelled here
  bound what they ask for, or the theorems about them do.\<close>

definition block_of :: "bytes \<Rightarrow> bytes" where
  "block_of b = le_bytes 8 (length b) @ b"

definition heap_new :: "heap_env \<Rightarrow> nat \<Rightarrow> bytes option" where
  "heap_new env n = (case OPENSSL_malloc env n of Ptr blk \<Rightarrow> Some (payload blk) | _ \<Rightarrow> None)"

definition heap_resize :: "heap_env \<Rightarrow> bytes \<Rightarrow> nat \<Rightarrow> bytes option" where
  "heap_resize env b n =
     (case fst (OPENSSL_realloc env (Some (block_of b)) n) of Ptr blk \<Rightarrow> Some (payload blk) | _ \<Rightarrow> None)"

lemma block_of_ok:
  assumes "length b + 8 < SIZE_LIMIT"
  shows "block_ok (block_of b)" "block_size (block_of b) = length b" "payload (block_of b) = b"
  using assms by (auto simp: mem_defs block_of_def byte_simps SIZE_LIMIT_def)

lemma heap_resize_Some:
  assumes "heap_resize env b n = Some b'" "length b + 8 < SIZE_LIMIT" "n < SIZE_LIMIT" "length b \<le> n"
  shows "length b' = n" "take (length b) b' = b" "n + 8 < SIZE_LIMIT"
proof -
  from assms(1) obtain blk f where r: "OPENSSL_realloc env (Some (block_of b)) n = (Ptr blk, f)" and b': "b' = payload blk"
    by (auto simp: heap_resize_def split: alloc_result.splits prod.splits) (metis prod.collapse)
  have c: "block_ok blk" "length (payload blk) = n" "take (min (length b) n) (payload blk) = take n b"
    using OPENSSL_realloc_block [OF block_of_ok(1) assms(3) r] assms(2) block_of_ok by auto
  with b' assms(4) show "length b' = n" "take (length b) b' = b" by (auto simp: min_def)
  show "n + 8 < SIZE_LIMIT" using c by (auto simp: block_ok_def payload_def OPENSSL_MALLOC_PREFIX_def)
qed

lemma heap_resize_succeeds:
  assumes "\<forall>n. heap_ok env n" "n + 8 < SIZE_LIMIT"
  shows "\<exists>b'. heap_resize env b n = Some b'"
  using assms by (simp add: heap_resize_def OPENSSL_realloc_def Let_def OPENSSL_malloc_def sys_malloc_def
      szadd_exact OPENSSL_MALLOC_PREFIX_def block_of_def)

lemma heap_new_Some: "heap_new env n = Some b \<Longrightarrow> n < SIZE_LIMIT \<Longrightarrow> length b = n \<and> n + 8 < SIZE_LIMIT"
  using OPENSSL_malloc_cases [of n env] by (auto simp: heap_new_def split: alloc_result.splits)

lemma heap_new_succeeds: "\<forall>n. heap_ok env n \<Longrightarrow> n + 8 < SIZE_LIMIT \<Longrightarrow> \<exists>b. heap_new env n = Some b"
  by (simp add: heap_new_def OPENSSL_malloc_def sys_malloc_def szadd_exact OPENSSL_MALLOC_PREFIX_def)

text \<open>\<open>OPENSSL_realloc\<close> keeps the contents: the new payload starts with as much of the old
  one as fits, has the requested size, and the old block goes back wiped.\<close>

theorem OPENSSL_realloc_keeps:
  assumes "block_ok old" and "new_size < SIZE_LIMIT"
    and "OPENSSL_realloc env (Some old) new_size = (Ptr blk, freed)"
  shows "block_ok blk \<and> length (payload blk) = new_size
    \<and> take (min (block_size old) new_size) (payload blk) = take new_size (payload old)
    \<and> freed = Some (replicate (length old) 0)"
  using assms by (rule OPENSSL_realloc_block)

theorem OPENSSL_realloc_keeps_witness:
  "fst (OPENSSL_realloc generous_env (Some (le_bytes 8 2 @ [7, 9])) 3) =
     Ptr (le_bytes 8 3 @ [7, 9, 170])
   \<and> take 2 (payload (le_bytes 8 3 @ [7, 9, 170])) = [7, 9]"
proof -
  have r: "OPENSSL_realloc generous_env (Some (le_bytes 8 2 @ [7, 9])) 3 =
      (Ptr (le_bytes 8 3 @ [7, 9, 170]), Some (replicate 10 0))"
    by (simp add: OPENSSL_realloc_def OPENSSL_free_def OPENSSL_cleanse_def mem_defs generous_env_def
        szadd_def SIZE_LIMIT_def mem_write_def eval_simps upt_rec)
  have ok: "block_ok (le_bytes 8 2 @ [7, 9])"
    by (simp add: mem_defs SIZE_LIMIT_def eval_simps)
  have "(3 :: nat) < SIZE_LIMIT" by (simp add: SIZE_LIMIT_def)
  from OPENSSL_realloc_keeps [OF ok this r] r show ?thesis
    by (simp add: block_size_def payload_def OPENSSL_MALLOC_PREFIX_def byte_simps)
qed

text \<open>Whatever \<open>OPENSSL_free\<close> returns to the system allocator has been wiped: every byte of
  the block, the size header included, is zero.\<close>

theorem OPENSSL_free_wipes:
  assumes "block_ok blk"
  shows "OPENSSL_free (Some blk) = Some (replicate (length blk) 0)"
  using assms by (rule OPENSSL_free_wipes_block)

theorem OPENSSL_free_wipes_witness:
  "OPENSSL_free (Some (le_bytes 8 2 @ [7, 9])) = Some (replicate 10 0)"
  using OPENSSL_free_wipes [of "le_bytes 8 2 @ [7, 9]"]
  by (simp add: block_ok_def block_size_def OPENSSL_MALLOC_PREFIX_def byte_simps SIZE_LIMIT_def)

end
