(* ===== verification/ConstTime.thy ===== *)
theory ConstTime
  imports Mem
begin

text \<open>
  The branch-free comparisons and selections of \<open>crypto/internal.h\<close> and \<open>base64.c\<close>, and what
  they compute: masks that are all ones when the comparison holds.  \<open>crypto_word_t\<close> has
  64 bits; the value barriers are compiler hints and return their argument.
\<close>

definition constant_time_msb_w :: "u64 \<Rightarrow> u64" where
  "constant_time_msb_w a = 0 - drop_bit 63 a"

definition constant_time_lt_w :: "u64 \<Rightarrow> u64 \<Rightarrow> u64" where
  "constant_time_lt_w a b = constant_time_msb_w (a XOR ((a XOR b) OR ((a - b) XOR a)))"

definition constant_time_lt_8 :: "u64 \<Rightarrow> u64 \<Rightarrow> u8" where
  "constant_time_lt_8 a b = ucast (constant_time_lt_w a b)"

definition constant_time_ge_w :: "u64 \<Rightarrow> u64 \<Rightarrow> u64" where
  "constant_time_ge_w a b = NOT (constant_time_lt_w a b)"

definition constant_time_ge_8 :: "u64 \<Rightarrow> u64 \<Rightarrow> u8" where
  "constant_time_ge_8 a b = ucast (constant_time_ge_w a b)"

definition constant_time_is_zero_w :: "u64 \<Rightarrow> u64" where
  "constant_time_is_zero_w a = constant_time_msb_w (NOT a AND (a - 1))"

definition constant_time_is_zero_8 :: "u64 \<Rightarrow> u8" where
  "constant_time_is_zero_8 a = ucast (constant_time_is_zero_w a)"

definition constant_time_eq_w :: "u64 \<Rightarrow> u64 \<Rightarrow> u64" where
  "constant_time_eq_w a b = constant_time_is_zero_w (a XOR b)"

definition constant_time_eq_8 :: "u64 \<Rightarrow> u64 \<Rightarrow> u8" where
  "constant_time_eq_8 a b = ucast (constant_time_eq_w a b)"

definition constant_time_select_w :: "u64 \<Rightarrow> u64 \<Rightarrow> u64 \<Rightarrow> u64" where
  "constant_time_select_w m a b = (m AND a) OR (NOT m AND b)"

definition constant_time_select_8 :: "u8 \<Rightarrow> u8 \<Rightarrow> u8 \<Rightarrow> u8" where
  "constant_time_select_8 m a b = ucast (constant_time_select_w (ucast m) (ucast a) (ucast b))"

definition constant_time_lt_args_8 :: "u8 \<Rightarrow> u8 \<Rightarrow> u8" where
  "constant_time_lt_args_8 a b = ucast (constant_time_msb_w (ucast a - ucast b))"

definition constant_time_in_range_8 :: "u8 \<Rightarrow> u8 \<Rightarrow> u8 \<Rightarrow> u8" where
  "constant_time_in_range_8 a mn mx = (let a = a - mn in constant_time_lt_args_8 a (mx - mn + 1))"

lemma bit_63: "bit (w :: u64) 63 \<longleftrightarrow> 2 ^ 63 \<le> unat w"
proof -
  have "unat w div 2 ^ 63 < 2" using unat_u64_less [of w] by (simp add: less_mult_imp_div_less)
  then have "odd (unat w div 2 ^ 63) \<longleftrightarrow> unat w div 2 ^ 63 = 1" by (auto simp: numeral_2_eq_2 less_Suc_eq)
  also have "\<dots> \<longleftrightarrow> 2 ^ 63 \<le> unat w"
    using unat_u64_less [of w] by (auto simp: div_eq_dividend_iff) 
  finally have "bit (unat w) 63 \<longleftrightarrow> 2 ^ 63 \<le> unat w" by (simp add: bit_iff_odd)
  then show ?thesis by (simp add: bit_unsigned_iff)
qed

lemma msb_w: "constant_time_msb_w a = (if bit a 63 then - 1 else 0)"
proof -
  have "unat (drop_bit 63 a) = (if 2 ^ 63 \<le> unat a then 1 else 0)"
    using unat_u64_less [of a] by (auto simp: unat_drop div_nat_eqI)
  then have "drop_bit 63 a = (if bit a 63 then 1 else 0)" by (auto simp: bit_63 word_unat_eq_iff)
  then show ?thesis by (simp add: constant_time_msb_w_def)
qed

lemma bit_63_diff:
  "bit (a - b :: u64) 63 \<longleftrightarrow> (if unat b \<le> unat a then 2 ^ 63 \<le> unat a - unat b else unat b - unat a \<le> 2 ^ 63)"
  using unat_u64_less [of a] unat_u64_less [of b] by (auto simp: bit_63 unat_sub_if')

lemma lt_w: "constant_time_lt_w a b = (if a < b then - 1 else 0)"
proof -
  have "bit (a XOR ((a XOR b) OR ((a - b) XOR a))) 63 \<longleftrightarrow> unat a < unat b"
    using unat_u64_less [of a] unat_u64_less [of b]
    by (simp add: bit_or_iff bit_xor_iff bit_63_diff) (auto simp: bit_63)
  then show ?thesis by (simp add: constant_time_lt_w_def msb_w word_less_nat_alt)
qed

lemma ucast_all_ones: "ucast (- 1 :: u64) = (- 1 :: u8)"
  by (rule bit_word_eqI) (simp add: bit_simps)

lemma lt_8: "constant_time_lt_8 a b = (if a < b then - 1 else 0)"
  by (simp add: constant_time_lt_8_def lt_w ucast_all_ones)

lemma ge_w: "constant_time_ge_w a b = (if b \<le> a then - 1 else 0)"
  by (auto simp: constant_time_ge_w_def lt_w not_less)

lemma ge_8: "constant_time_ge_8 a b = (if b \<le> a then - 1 else 0)"
  by (simp add: constant_time_ge_8_def ge_w ucast_all_ones)

lemma is_zero_w: "constant_time_is_zero_w a = (if a = 0 then - 1 else 0)"
proof -
  have "bit (NOT a AND (a - 1)) 63 \<longleftrightarrow> a = 0"
    using unat_u64_less [of a]
    by (simp add: bit_and_iff bit_not_iff bit_63_diff) (auto simp: bit_63 word_unat_eq_iff)
  then show ?thesis by (simp add: constant_time_is_zero_w_def msb_w)
qed

lemma is_zero_8: "constant_time_is_zero_8 a = (if a = 0 then - 1 else 0)"
  by (simp add: constant_time_is_zero_8_def is_zero_w ucast_all_ones)

lemma eq_w: "constant_time_eq_w a b = (if a = b then - 1 else 0)"
  by (auto simp: constant_time_eq_w_def is_zero_w xor_eq_0_iff_word)

lemma eq_8: "constant_time_eq_8 a b = (if a = b then - 1 else 0)"
  by (simp add: constant_time_eq_8_def eq_w ucast_all_ones)

lemma select_w: "constant_time_select_w (if c then - 1 else 0) a b = (if c then a else b)"
  by (simp add: constant_time_select_w_def)

lemma select_8: "constant_time_select_8 (if c then - 1 else 0) a b = (if c then a else b)"
  by (rule bit_word_eqI) (auto simp: constant_time_select_8_def constant_time_select_w_def bit_simps)

lemma lt_args_8: "constant_time_lt_args_8 a b = (if a < b then - 1 else 0)"
proof -
  have "unat (ucast a :: u64) = unat a" "unat (ucast b :: u64) = unat b" by (simp_all add: unat_ucast_byte)
  then have "bit (ucast a - ucast b :: u64) 63 \<longleftrightarrow> unat a < unat b"
    using unat_byte_less [of a] unat_byte_less [of b] by (auto simp: bit_63_diff simp del: unat_byte_less)
  then show ?thesis by (simp add: constant_time_lt_args_8_def msb_w word_less_nat_alt ucast_all_ones)
qed

lemma in_range_8:
  assumes "mn \<le> mx" and "mx - mn < 0xff"
  shows "constant_time_in_range_8 a mn mx = (if mn \<le> a \<and> a \<le> mx then - 1 else 0)"
proof -
  have le: "unat mn \<le> unat mx" using assms(1) by (simp add: word_le_nat_alt)
  then have d: "unat (mx - mn) = unat mx - unat mn" by (simp add: unat_sub_if')
  moreover have "unat (mx - mn) < 255" using assms(2) by (simp add: word_less_nat_alt)
  ultimately have "unat (mx - mn + 1) = unat mx - unat mn + 1" by (simp add: unat_word_ariths)
  moreover have "unat (a - mn) = (if unat mn \<le> unat a then unat a - unat mn else unat a + 256 - unat mn)"
    by (simp add: unat_sub_if')
  moreover have "unat mx < 256" by simp
  ultimately have "a - mn < mx - mn + 1 \<longleftrightarrow> mn \<le> a \<and> a \<le> mx"
    using le by (auto simp: word_less_nat_alt word_le_nat_alt simp del: unat_byte_less)
  then show ?thesis by (simp add: constant_time_in_range_8_def Let_def lt_args_8)
qed


text \<open>C35. The branch-free helpers compute what their names say, for all operands: the masks of the
  comparisons are all ones or zero, and selection by such a mask picks one operand.\<close>

theorem constant_time_correct:
  "constant_time_lt_w a b = (if a < b then - 1 else 0) \<and> constant_time_ge_w a b = (if b \<le> a then - 1 else 0) \<and>
   constant_time_is_zero_w a = (if a = 0 then - 1 else 0) \<and> constant_time_eq_8 a b = (if a = b then - 1 else 0) \<and>
   constant_time_lt_args_8 x y = (if x < y then - 1 else 0) \<and>
   constant_time_select_w (if c then - 1 else 0) a b = (if c then a else b) \<and>
   constant_time_select_8 (if c then - 1 else 0) x y = (if c then x else y)"
  by (intro conjI lt_w ge_w is_zero_w eq_8 lt_args_8 select_w select_8)

end
