(* ===== verification/Cbs.thy ===== *)
theory Cbs
  imports Mem
begin

text \<open>
  The byte string reader \<open>CBS\<close> of \<open>crypto/bytestring/cbs.c\<close>.  A \<open>CBS\<close> (a pointer and a
  length into memory that nobody writes) is the list of the bytes it still covers.  Every
  reader returns its output, \<open>None\<close> when the C function returns zero, together with the
  \<open>CBS\<close> it leaves behind: on failure, too, since several readers fail after consuming input.
\<close>

type_synonym cbs = bytes
type_synonym 'a reader = "cbs \<Rightarrow> 'a option \<times> cbs"

section \<open>Bytes and fixed-width integers\<close>

definition CBS_init :: "bytes \<Rightarrow> nat \<Rightarrow> cbs" where
  "CBS_init data len = take len data"

definition cbs_get :: "nat \<Rightarrow> bytes reader" where
  "cbs_get n cbs = (if length cbs < n then (None, cbs) else (Some (take n cbs), drop n cbs))"

definition CBS_skip :: "nat \<Rightarrow> unit reader" where
  "CBS_skip len cbs =
     (case cbs_get len cbs of (None, cbs') \<Rightarrow> (None, cbs') | (Some _, cbs') \<Rightarrow> (Some (), cbs'))"

definition CBS_stow :: "heap_env \<Rightarrow> cbs \<Rightarrow> (bytes option \<times> nat) option" where
  "CBS_stow env cbs =
     (if length cbs = 0 then Some (None, 0)
      else (case OPENSSL_memdup env cbs of
              Ptr blk \<Rightarrow> Some (Some blk, length cbs)
            | _ \<Rightarrow> None))"

definition CBS_strdup :: "heap_env \<Rightarrow> cbs \<Rightarrow> bytes option" where
  "CBS_strdup env cbs =
     (case OPENSSL_strndup env cbs (length cbs) of Ptr blk \<Rightarrow> Some blk | _ \<Rightarrow> None)"

definition CBS_contains_zero_byte :: "cbs \<Rightarrow> bool" where
  "CBS_contains_zero_byte cbs = list_ex (\<lambda>b. b = 0) cbs"

definition CBS_mem_equal :: "cbs \<Rightarrow> bytes \<Rightarrow> bool" where
  "CBS_mem_equal cbs data =
     (if length data \<noteq> length cbs then False else CRYPTO_memcmp cbs data (length data) = 0)"

definition cbs_get_u :: "nat \<Rightarrow> u64 reader" where
  "cbs_get_u len cbs =
     (case cbs_get len cbs of
        (None, cbs') \<Rightarrow> (None, cbs')
      | (Some data, cbs') \<Rightarrow> (Some (foldl (\<lambda>r b. push_bit 8 r OR ucast b) 0 data), cbs'))"

definition CBS_get_u8 :: "u8 reader" where
  "CBS_get_u8 cbs =
     (case cbs_get 1 cbs of (None, cbs') \<Rightarrow> (None, cbs') | (Some v, cbs') \<Rightarrow> (Some (v ! 0), cbs'))"

definition CBS_get_u16 :: "u16 reader" where
  "CBS_get_u16 cbs =
     (case cbs_get_u 2 cbs of (None, cbs') \<Rightarrow> (None, cbs') | (Some v, cbs') \<Rightarrow> (Some (ucast v), cbs'))"

definition CRYPTO_bswap2 :: "u16 \<Rightarrow> u16" where
  "CRYPTO_bswap2 x = drop_bit 8 x OR push_bit 8 x"

definition CRYPTO_bswap4 :: "u32 \<Rightarrow> u32" where
  "CRYPTO_bswap4 x0 =
     (let x = drop_bit 16 x0 OR push_bit 16 x0
      in drop_bit 8 (x AND 0xff00ff00) OR push_bit 8 (x AND 0x00ff00ff))"

definition CRYPTO_bswap8 :: "u64 \<Rightarrow> u64" where
  "CRYPTO_bswap8 x =
     push_bit 32 (ucast (CRYPTO_bswap4 (ucast x))) OR ucast (CRYPTO_bswap4 (ucast (drop_bit 32 x)))"

definition CBS_get_u16le :: "u16 reader" where
  "CBS_get_u16le cbs =
     (case CBS_get_u16 cbs of (None, cbs') \<Rightarrow> (None, cbs')
      | (Some v, cbs') \<Rightarrow> (Some (CRYPTO_bswap2 v), cbs'))"

definition CBS_get_u24 :: "u32 reader" where
  "CBS_get_u24 cbs =
     (case cbs_get_u 3 cbs of (None, cbs') \<Rightarrow> (None, cbs') | (Some v, cbs') \<Rightarrow> (Some (ucast v), cbs'))"

definition CBS_get_u32 :: "u32 reader" where
  "CBS_get_u32 cbs =
     (case cbs_get_u 4 cbs of (None, cbs') \<Rightarrow> (None, cbs') | (Some v, cbs') \<Rightarrow> (Some (ucast v), cbs'))"

definition CBS_get_u32le :: "u32 reader" where
  "CBS_get_u32le cbs =
     (case CBS_get_u32 cbs of (None, cbs') \<Rightarrow> (None, cbs')
      | (Some v, cbs') \<Rightarrow> (Some (CRYPTO_bswap4 v), cbs'))"

definition CBS_get_u64 :: "u64 reader" where
  "CBS_get_u64 cbs = cbs_get_u 8 cbs"

definition CBS_get_u64le :: "u64 reader" where
  "CBS_get_u64le cbs =
     (case cbs_get_u 8 cbs of (None, cbs') \<Rightarrow> (None, cbs')
      | (Some v, cbs') \<Rightarrow> (Some (CRYPTO_bswap8 v), cbs'))"

definition CBS_get_last_u8 :: "u8 reader" where
  "CBS_get_last_u8 cbs =
     (if length cbs = 0 then (None, cbs)
      else (Some (cbs ! (length cbs - 1)), take (length cbs - 1) cbs))"

definition CBS_get_bytes :: "nat \<Rightarrow> cbs reader" where
  "CBS_get_bytes len cbs =
     (case cbs_get len cbs of (None, cbs') \<Rightarrow> (None, cbs') | (Some v, cbs') \<Rightarrow> (Some (CBS_init v len), cbs'))"

definition CBS_copy_bytes :: "bytes \<Rightarrow> nat \<Rightarrow> bytes reader" where
  "CBS_copy_bytes out len cbs =
     (case cbs_get len cbs of (None, cbs') \<Rightarrow> (None, cbs') | (Some v, cbs') \<Rightarrow> (Some (mem_write out 0 v), cbs'))"

definition cbs_get_length_prefixed :: "nat \<Rightarrow> cbs reader" where
  "cbs_get_length_prefixed len_len cbs =
     (case cbs_get_u len_len cbs of
        (None, cbs') \<Rightarrow> (None, cbs')
      | (Some len, cbs') \<Rightarrow> CBS_get_bytes (unat len) cbs')"

definition CBS_get_u8_length_prefixed :: "cbs reader" where
  "CBS_get_u8_length_prefixed cbs = cbs_get_length_prefixed 1 cbs"

definition CBS_get_u16_length_prefixed :: "cbs reader" where
  "CBS_get_u16_length_prefixed cbs = cbs_get_length_prefixed 2 cbs"

definition CBS_get_u24_length_prefixed :: "cbs reader" where
  "CBS_get_u24_length_prefixed cbs = cbs_get_length_prefixed 3 cbs"

end
