(* ===== verification/Codec.thy ===== *)
theory Codec
  imports Prelude
begin

text \<open>
  The contract between a writer and the reader of its format.  A \<open>codec\<close> reader takes back
  what the writer wrote and leaves the rest; a \<open>canonical_codec\<close> reader accepts nothing
  else, so that every value has exactly one encoding.  The locales prove once what the
  clients of a format rely on: no encoding is a proper prefix of another, sequences decode
  uniquely, and the loop \<open>while (CBS_len(&cbs) != 0)\<close> reads a whole concatenation.
\<close>

function read_all :: "(bytes \<Rightarrow> 'a option \<times> bytes) \<Rightarrow> bytes \<Rightarrow> 'a list option" where
  "read_all dec bs =
     (if bs = [] then Some []
      else (case dec bs of
              (None, r) \<Rightarrow> None
            | (Some x, r) \<Rightarrow>
                if length r < length bs then map_option ((#) x) (read_all dec r) else None))"
  by pat_completeness auto
termination
  by (relation "measure (\<lambda>(dec, bs). length bs)") auto

declare read_all.simps [simp del]

lemma read_all_Nil [simp]: "read_all dec [] = Some []"
  by (simp add: read_all.simps)

locale codec =
  fixes enc :: "'a \<Rightarrow> bytes"
    and dec :: "bytes \<Rightarrow> 'a option \<times> bytes"
    and ok :: "'a \<Rightarrow> bool"
  assumes dec_enc: "ok x \<Longrightarrow> dec (enc x @ r) = (Some x, r)"
begin

lemma enc_unique: "ok x \<Longrightarrow> ok y \<Longrightarrow> enc x @ r = enc y @ s \<Longrightarrow> x = y \<and> r = s"
  by (metis Pair_inject dec_enc option.inject)

lemma enc_inj: "ok x \<Longrightarrow> ok y \<Longrightarrow> enc x = enc y \<Longrightarrow> x = y"
  using enc_unique [of x y "[]" "[]"] by simp

lemma dec_enc_nil: "ok x \<Longrightarrow> dec (enc x) = (Some x, [])"
  using dec_enc [of x "[]"] by simp

lemma enc_seq_unique:
  assumes "\<forall>x\<in>set xs. ok x" and "\<forall>y\<in>set ys. ok y" and "length xs = length ys"
    and "concat (map enc xs) @ r = concat (map enc ys) @ s"
  shows "xs = ys \<and> r = s"
  using assms(3,1,2,4)
proof (induction xs ys rule: list_induct2)
  case (Cons x xs y ys)
  from Cons.prems have "enc x @ (concat (map enc xs) @ r) = enc y @ (concat (map enc ys) @ s)"
    and ok: "ok x" "ok y" "\<forall>x\<in>set xs. ok x" "\<forall>y\<in>set ys. ok y" by auto
  then have eq: "x = y \<and> concat (map enc xs) @ r = concat (map enc ys) @ s"
    by (intro enc_unique)
  then have "xs = ys \<and> r = s" using Cons.IH ok by blast
  with eq show ?case by blast
qed simp

lemma read_all_enc:
  assumes "\<And>x. ok x \<Longrightarrow> enc x \<noteq> []" and "\<forall>x\<in>set xs. ok x"
  shows "read_all dec (concat (map enc xs)) = Some xs"
  using assms(2)
proof (induction xs)
  case (Cons x xs)
  then have "enc x \<noteq> []" using assms(1) by simp
  with Cons show ?case
    by (subst read_all.simps) (simp add: dec_enc)
qed simp

end

locale canonical_codec = codec +
  assumes enc_dec: "dec bs = (Some x, r) \<Longrightarrow> ok x \<and> bs = enc x @ r"
begin

lemma dec_iff: "dec bs = (Some x, r) \<longleftrightarrow> ok x \<and> bs = enc x @ r"
  using enc_dec dec_enc by blast

lemma read_all_iff:
  assumes "\<And>x. ok x \<Longrightarrow> enc x \<noteq> []"
  shows "read_all dec bs = Some xs \<longleftrightarrow> (\<forall>x\<in>set xs. ok x) \<and> bs = concat (map enc xs)"
proof
  show "read_all dec bs = Some xs \<Longrightarrow> (\<forall>x\<in>set xs. ok x) \<and> bs = concat (map enc xs)"
  proof (induction bs arbitrary: xs rule: measure_induct_rule [of length])
    case (less bs)
    show ?case
    proof (cases "bs = []")
      case False
      with less.prems obtain x r ys where "dec bs = (Some x, r)" "length r < length bs"
        "read_all dec r = Some ys" "xs = x # ys"
        by (subst (asm) read_all.simps) (auto split: prod.splits option.splits if_splits)
      with less.IH [of r ys] show ?thesis by (simp add: dec_iff)
    qed (use less.prems in simp)
  qed
next
  assume "(\<forall>x\<in>set xs. ok x) \<and> bs = concat (map enc xs)"
  then show "read_all dec bs = Some xs" using read_all_enc [OF assms] by simp
qed

end

end
