(* ===== verification/CbsAsn1.thy ===== *)
theory CbsAsn1
  imports Cbs Codec
begin

text \<open>
  The ASN.1 readers of \<open>crypto/bytestring/cbs.c\<close>: identifiers, definite and indefinite
  lengths, INTEGER, BOOLEAN, optional elements and BIT STRINGs.
\<close>

section \<open>Tags\<close>

definition CBS_ASN1_TAG_SHIFT :: nat where
  "CBS_ASN1_TAG_SHIFT = 24"

definition CBS_ASN1_CONSTRUCTED :: u32 where
  "CBS_ASN1_CONSTRUCTED = push_bit CBS_ASN1_TAG_SHIFT 0x20"

definition CBS_ASN1_TAG_NUMBER_MASK :: u32 where
  "CBS_ASN1_TAG_NUMBER_MASK = push_bit (5 + CBS_ASN1_TAG_SHIFT) 1 - 1"

abbreviation "CBS_ASN1_BOOLEAN \<equiv> 1 :: u32"
abbreviation "CBS_ASN1_INTEGER \<equiv> 2 :: u32"
abbreviation "CBS_ASN1_BITSTRING \<equiv> 3 :: u32"
abbreviation "CBS_ASN1_OCTETSTRING \<equiv> 4 :: u32"

text \<open>The loop of \<open>parse_base128_integer\<close>, from the value \<open>v\<close> read so far.\<close>

fun parse_base128_loop :: "u64 \<Rightarrow> u64 reader" where
  "parse_base128_loop v [] = (None, [])"
| "parse_base128_loop v (b # cbs) =
     (if drop_bit (64 - 7) v \<noteq> 0 then (None, cbs)
      else if v = 0 \<and> b = 0x80 then (None, cbs)
      else let v' = push_bit 7 v OR (ucast b AND 0x7f) in
           if b AND 0x80 \<noteq> 0 then parse_base128_loop v' cbs else (Some v', cbs))"

definition parse_base128_integer :: "u64 reader" where
  "parse_base128_integer cbs = parse_base128_loop 0 cbs"

definition parse_asn1_tag :: "u32 reader" where
  "parse_asn1_tag cbs =
     (case CBS_get_u8 cbs of
        (None, cbs') \<Rightarrow> (None, cbs')
      | (Some tag_byte, cbs') \<Rightarrow>
          let tag = push_bit CBS_ASN1_TAG_SHIFT (ucast tag_byte AND 0xe0) :: u32;
              tag_number = ucast tag_byte AND 0x1f :: u32
          in if tag_number = 0x1f then
               (case parse_base128_integer cbs' of
                  (None, cbs'') \<Rightarrow> (None, cbs'')
                | (Some v, cbs'') \<Rightarrow>
                    if v > ucast CBS_ASN1_TAG_NUMBER_MASK \<or> v < 0x1f then (None, cbs'')
                    else (Some (tag OR ucast v), cbs''))
             else (Some (tag OR tag_number), cbs'))"

section \<open>Elements\<close>

text \<open>An element as the C function reports it: all its bytes, its tag and the header's length.\<close>

record asn1_element =
  el_bytes :: cbs
  el_tag :: u32
  el_header_len :: nat

definition get_element_bytes :: "nat \<Rightarrow> u32 \<Rightarrow> nat \<Rightarrow> asn1_element reader" where
  "get_element_bytes len tag header_len cbs =
     (case CBS_get_bytes len cbs of
        (None, cbs') \<Rightarrow> (None, cbs')
      | (Some out, cbs') \<Rightarrow>
          (Some \<lparr>el_bytes = out, el_tag = tag, el_header_len = header_len\<rparr>, cbs'))"

definition cbs_get_any_asn1_element :: "bool \<Rightarrow> asn1_element reader" where
  "cbs_get_any_asn1_element ber_ok cbs =
     (case parse_asn1_tag cbs of
        (None, _) \<Rightarrow> (None, cbs)
      | (Some tag, header1) \<Rightarrow>
     (case CBS_get_u8 header1 of
        (None, _) \<Rightarrow> (None, cbs)
      | (Some length_byte, header) \<Rightarrow>
          let header_len = length cbs - length header in
          if length_byte AND 0x80 = 0 then
            get_element_bytes (unat length_byte + header_len) tag header_len cbs
          else
            let num_bytes = unat (length_byte AND 0x7f) in
            if ber_ok \<and> tag AND CBS_ASN1_CONSTRUCTED \<noteq> 0 \<and> num_bytes = 0 then
              get_element_bytes header_len tag header_len cbs
            else if num_bytes = 0 \<or> num_bytes > 4 then (None, cbs)
            else (case cbs_get_u num_bytes header of
                    (None, _) \<Rightarrow> (None, cbs)
                  | (Some len64, _) \<Rightarrow>
                      if len64 < 128 then (None, cbs)
                      else if drop_bit ((num_bytes - 1) * 8) len64 = 0 then (None, cbs)
                      else let len = unat len64 in
                           if szadd (szadd len header_len) num_bytes < len then (None, cbs)
                           else get_element_bytes (szadd len (szadd header_len num_bytes))
                                  tag (header_len + num_bytes) cbs)))"

definition CBS_get_any_asn1_element :: "asn1_element reader" where
  "CBS_get_any_asn1_element cbs = cbs_get_any_asn1_element False cbs"

definition CBS_get_any_ber_asn1_element :: "asn1_element reader" where
  "CBS_get_any_ber_asn1_element cbs = cbs_get_any_asn1_element True cbs"

definition CBS_get_any_asn1 :: "(cbs \<times> u32) reader" where
  "CBS_get_any_asn1 cbs =
     (case CBS_get_any_asn1_element cbs of
        (None, cbs') \<Rightarrow> (None, cbs')
      | (Some e, cbs') \<Rightarrow>
          (case CBS_skip (el_header_len e) (el_bytes e) of
             (None, _) \<Rightarrow> (None, cbs')
           | (Some _, out) \<Rightarrow> (Some (out, el_tag e), cbs')))"

text \<open>A wrong tag makes \<open>cbs_get_asn1\<close> fail after the element has been consumed.\<close>

definition cbs_get_asn1 :: "u32 \<Rightarrow> bool \<Rightarrow> cbs reader" where
  "cbs_get_asn1 tag_value skip_header cbs =
     (case CBS_get_any_asn1_element cbs of
        (None, cbs') \<Rightarrow> (None, cbs')
      | (Some e, cbs') \<Rightarrow>
          if el_tag e \<noteq> tag_value then (None, cbs')
          else if skip_header then
            (case CBS_skip (el_header_len e) (el_bytes e) of
               (None, _) \<Rightarrow> (None, cbs')
             | (Some _, out) \<Rightarrow> (Some out, cbs'))
          else (Some (el_bytes e), cbs'))"

definition CBS_get_asn1 :: "u32 \<Rightarrow> cbs reader" where
  "CBS_get_asn1 tag_value cbs = cbs_get_asn1 tag_value True cbs"

definition CBS_get_asn1_element :: "u32 \<Rightarrow> cbs reader" where
  "CBS_get_asn1_element tag_value cbs = cbs_get_asn1 tag_value False cbs"

definition CBS_peek_asn1_tag :: "cbs \<Rightarrow> u32 \<Rightarrow> bool" where
  "CBS_peek_asn1_tag cbs tag_value =
     (if length cbs < 1 then False
      else (case parse_asn1_tag cbs of
              (None, _) \<Rightarrow> False
            | (Some actual_tag, _) \<Rightarrow> tag_value = actual_tag))"

section \<open>INTEGER and BOOLEAN\<close>

fun asn1_uint64_loop :: "u64 \<Rightarrow> bytes \<Rightarrow> u64 option" where
  "asn1_uint64_loop out [] = Some out"
| "asn1_uint64_loop out (d # data) =
     (if drop_bit 56 out \<noteq> 0 then None
      else asn1_uint64_loop (push_bit 8 out OR ucast d) data)"

definition CBS_get_asn1_uint64 :: "u64 reader" where
  "CBS_get_asn1_uint64 cbs =
     (case CBS_get_asn1 CBS_ASN1_INTEGER cbs of
        (None, cbs') \<Rightarrow> (None, cbs')
      | (Some data, cbs') \<Rightarrow>
          let len = length data in
          if len = 0 then (None, cbs')
          else if data ! 0 AND 0x80 \<noteq> 0 then (None, cbs')
          else if data ! 0 = 0 \<and> len > 1 \<and> data ! 1 AND 0x80 = 0 then (None, cbs')
          else (asn1_uint64_loop 0 data, cbs'))"

text \<open>The union of \<open>CBS_get_asn1_int64\<close> is read back on a little-endian machine.\<close>

definition CBS_get_asn1_int64 :: "u64 reader" where
  "CBS_get_asn1_int64 cbs =
     (case CBS_get_asn1 CBS_ASN1_INTEGER cbs of
        (None, cbs') \<Rightarrow> (None, cbs')
      | (Some data, cbs') \<Rightarrow>
          let len = length data in
          if len = 0 \<or> len > 8 then (None, cbs')
          else if len > 1 \<and> data ! 0 = 0 \<and> data ! 1 AND 0x80 = 0 then (None, cbs')
          else if len > 1 \<and> data ! 0 = 0xff \<and> data ! 1 AND 0x80 \<noteq> 0 then (None, cbs')
          else let is_negative = (data ! 0 AND 0x80 \<noteq> 0);
                   u = replicate 8 (if is_negative then 0xff else 0);
                   u' = mem_write u 0 (rev data)
               in (Some (word_of_nat (le_val u')), cbs'))"

definition CBS_get_asn1_bool :: "bool reader" where
  "CBS_get_asn1_bool cbs =
     (case CBS_get_asn1 CBS_ASN1_BOOLEAN cbs of
        (None, cbs') \<Rightarrow> (None, cbs')
      | (Some data, cbs') \<Rightarrow>
          if length data \<noteq> 1 then (None, cbs')
          else let v = data ! 0 in
               if v \<noteq> 0 \<and> v \<noteq> 0xff then (None, cbs') else (Some (v \<noteq> 0), cbs'))"

section \<open>Optional elements\<close>

definition CBS_get_optional_asn1 :: "u32 \<Rightarrow> cbs option reader" where
  "CBS_get_optional_asn1 tag cbs =
     (if CBS_peek_asn1_tag cbs tag then
        (case CBS_get_asn1 tag cbs of
           (None, cbs') \<Rightarrow> (None, cbs')
         | (Some out, cbs') \<Rightarrow> (Some (Some out), cbs'))
      else (Some None, cbs))"

definition CBS_get_optional_asn1_octet_string :: "u32 \<Rightarrow> (cbs \<times> bool) reader" where
  "CBS_get_optional_asn1_octet_string tag cbs =
     (case CBS_get_optional_asn1 tag cbs of
        (None, cbs') \<Rightarrow> (None, cbs')
      | (Some (Some child), cbs') \<Rightarrow>
          (case CBS_get_asn1 CBS_ASN1_OCTETSTRING child of
             (None, _) \<Rightarrow> (None, cbs')
           | (Some out, child') \<Rightarrow>
               if length child' \<noteq> 0 then (None, cbs') else (Some (out, True), cbs'))
      | (Some None, cbs') \<Rightarrow> (Some ([], False), cbs'))"

definition CBS_get_optional_asn1_uint64 :: "u32 \<Rightarrow> u64 \<Rightarrow> u64 reader" where
  "CBS_get_optional_asn1_uint64 tag default_value cbs =
     (case CBS_get_optional_asn1 tag cbs of
        (None, cbs') \<Rightarrow> (None, cbs')
      | (Some (Some child), cbs') \<Rightarrow>
          (case CBS_get_asn1_uint64 child of
             (None, _) \<Rightarrow> (None, cbs')
           | (Some out, child') \<Rightarrow>
               if length child' \<noteq> 0 then (None, cbs') else (Some out, cbs'))
      | (Some None, cbs') \<Rightarrow> (Some default_value, cbs'))"

definition CBS_get_optional_asn1_bool :: "u32 \<Rightarrow> int \<Rightarrow> int reader" where
  "CBS_get_optional_asn1_bool tag default_value cbs =
     (case CBS_get_optional_asn1 tag cbs of
        (None, cbs') \<Rightarrow> (None, cbs')
      | (Some (Some child), cbs') \<Rightarrow>
          (case CBS_get_asn1 CBS_ASN1_BOOLEAN child of
             (None, _) \<Rightarrow> (None, cbs')
           | (Some child2, child') \<Rightarrow>
               if length child2 \<noteq> 1 \<or> length child' \<noteq> 0 then (None, cbs')
               else let boolean = child2 ! 0 in
                    if boolean = 0 then (Some 0, cbs')
                    else if boolean = 0xff then (Some 1, cbs')
                    else (None, cbs'))
      | (Some None, cbs') \<Rightarrow> (Some default_value, cbs'))"

section \<open>BIT STRING\<close>

definition CBS_is_valid_asn1_bitstring :: "cbs \<Rightarrow> bool" where
  "CBS_is_valid_asn1_bitstring cbs =
     (case CBS_get_u8 cbs of
        (None, _) \<Rightarrow> False
      | (Some num_unused_bits, inp) \<Rightarrow>
          if num_unused_bits > 7 then False
          else if num_unused_bits = 0 then True
          else (case CBS_get_last_u8 inp of
                  (None, _) \<Rightarrow> False
                | (Some last_byte, _) \<Rightarrow> last_byte AND (push_bit (unat num_unused_bits) 1 - 1) = 0))"

definition CBS_asn1_bitstring_has_bit :: "cbs \<Rightarrow> u32 \<Rightarrow> bool" where
  "CBS_asn1_bitstring_has_bit cbs b =
     (if \<not> CBS_is_valid_asn1_bitstring cbs then False
      else let byte_num = drop_bit 3 b + 1; bit_num = 7 - (b AND 7) in
           unat byte_num < length cbs
             \<and> cbs ! unat byte_num AND push_bit (unat bit_num) 1 \<noteq> 0)"

end
