(* ===== verification/Der.thy ===== *)
theory Der
  imports CbsAsn1
begin

text \<open>
  DER as a specification, and the proof that the readers of \<open>CbsAsn1\<close> accept exactly DER.
  \<open>der_tag\<close>, \<open>der_len\<close> and \<open>der_tlv\<close> say what the encoding of an identifier, of a length and of
  an element is, over natural numbers; the lemmas read the machine words of the code as
  numbers and show reader and specification equal in both directions.
\<close>

function b128_hi :: "nat \<Rightarrow> bytes" where
  "b128_hi v = (if v = 0 then [] else b128_hi (v div 128) @ [word_of_nat (128 + v mod 128)])"
  by pat_completeness auto
termination by (relation "measure id") auto

declare b128_hi.simps [simp del]

definition b128 :: "nat \<Rightarrow> bytes" where
  "b128 v = b128_hi (v div 128) @ [word_of_nat (v mod 128)]"

definition der_tag :: "u32 \<Rightarrow> bytes" where
  "der_tag tag =
     (let cls = unat tag div 2 ^ 29; num = unat tag mod 2 ^ 29 in
      if num < 31 then [word_of_nat (cls * 32 + num)]
      else word_of_nat (cls * 32 + 31) # b128 num)"

definition der_len :: "nat \<Rightarrow> bytes" where
  "der_len n =
     (if n < 128 then [word_of_nat n]
      else let k = (if n < 2 ^ 8 then 1 else if n < 2 ^ 16 then 2 else if n < 2 ^ 24 then 3 else 4)
           in word_of_nat (128 + k) # be_bytes k n)"

definition der_tlv :: "u32 \<Rightarrow> bytes \<Rightarrow> bytes" where
  "der_tlv tag c = der_tag tag @ der_len (length c) @ c"

lemma b128_hi_0 [simp]: "b128_hi 0 = []"
  by (simp add: b128_hi.simps)

lemma b128_hi_step: "0 < v \<Longrightarrow> b128_hi v = b128_hi (v div 128) @ [word_of_nat (128 + v mod 128)]"
  by (subst b128_hi.simps) simp

lemma unat_b128_acc:
  assumes "unat (v :: u64) < 2 ^ 57"
  shows "unat (push_bit 7 v OR (ucast (b :: u8) AND 0x7f)) = unat v * 128 + unat b mod 128"
proof -
  have m: "unat (ucast b AND 0x7f :: u64) = unat b mod 128"
    using unat_and_mask [of "ucast b :: u64" 7] by (simp add: unat_ucast_byte mask_eq_exp_minus_1)
  have "unat (push_bit 7 v OR (ucast b AND 0x7f)) = unat v * 2 ^ 7 + unat (ucast b AND 0x7f :: u64)"
    using assms m by (intro unat_push_or) auto
  with m show ?thesis by simp
qed

lemma drop57: "drop_bit 57 (v :: u64) = 0 \<longleftrightarrow> unat v < 2 ^ 57"
  using unat_drop [of 57 v] by (auto simp: word_unat_eq_iff div_eq_0_iff)

lemma parse_base128_loop_Cons:
  "parse_base128_loop v (b # cbs) =
     (if 2 ^ 57 \<le> unat v \<or> (unat v = 0 \<and> unat b = 128) then (None, cbs)
      else if 128 \<le> unat b then
        parse_base128_loop (word_of_nat (unat v * 128 + unat b mod 128)) cbs
      else (Some (word_of_nat (unat v * 128 + unat b mod 128)), cbs))"
proof -
  have e1: "drop_bit (64 - 7) v \<noteq> 0 \<longleftrightarrow> 2 ^ 57 \<le> unat v"
    using drop57 [of v] by (simp add: not_less)
  have e2: "v = 0 \<and> b = 0x80 \<longleftrightarrow> unat v = 0 \<and> unat b = 128"
    by (simp add: word_unat_eq_iff)
  have e3: "b AND 0x80 \<noteq> 0 \<longleftrightarrow> 128 \<le> unat b"
    by (simp add: not_less)
  show ?thesis
  proof (cases "2 ^ 57 \<le> unat v")
    case True
    then show ?thesis by (simp only: parse_base128_loop.simps e1 if_True simp_thms)
  next
    case False
    then have "unat v < 2 ^ 57" by linarith
    from unat_b128_acc [OF this, of b]
    have "push_bit 7 v OR (ucast b AND 0x7f) = (word_of_nat (unat v * 128 + unat b mod 128) :: u64)"
      by (rule word_of_unat)
    then show ?thesis
      by (simp only: parse_base128_loop.simps Let_def e1 e2 e3 False simp_thms if_False)
  qed
qed

declare parse_base128_loop.simps(2) [simp del]

lemma parse_base128_hi:
  "n < 2 ^ 64 \<Longrightarrow> parse_base128_loop 0 (b128_hi n @ r) = parse_base128_loop (word_of_nat n) r"
proof (induction n arbitrary: r rule: b128_hi.induct)
  case (1 n)
  show ?case
  proof (cases "n = 0")
    case False
    have d: "n div 128 < 2 ^ 57" using "1.prems" by (simp add: less_mult_imp_div_less)
    have u: "unat (word_of_nat (n div 128) :: u64) = n div 128"
      using d by (simp add: unat_of_nat)
    have "(128 + n mod 128) mod 256 = 128 + n mod 128"
      by (intro mod_less) (use mod_less_divisor [of 128 n] in linarith)
    then have b: "unat (word_of_nat (128 + n mod 128) :: u8) = 128 + n mod 128"
      by (simp only: unat_byte_of_nat)
    have "parse_base128_loop 0 (b128_hi n @ r) =
        parse_base128_loop (word_of_nat (n div 128)) (word_of_nat (128 + n mod 128) # r)"
      using False "1.IH" [OF False] d by (simp add: b128_hi_step)
    also have "\<dots> = parse_base128_loop (word_of_nat n) r"
      using d False by (subst parse_base128_loop_Cons)
        (auto simp add: b u simp del: of_nat_add of_nat_mult)
    finally show ?thesis .
  qed simp
qed

lemma parse_b128:
  assumes "n < 2 ^ 64"
  shows "parse_base128_integer (b128 n @ r) = (Some (word_of_nat n), r)"
proof -
  have d: "n div 128 < 2 ^ 57" using assms by (simp add: less_mult_imp_div_less)
  then have u: "unat (word_of_nat (n div 128) :: u64) = n div 128" by (simp add: unat_of_nat)
  have "n mod 128 < 128" by simp
  then have b: "unat (word_of_nat (n mod 128) :: u8) = n mod 128"
    by (simp add: less_trans [of _ 128])
  show ?thesis
    unfolding parse_base128_integer_def b128_def
    using d by (simp add: parse_base128_hi, subst parse_base128_loop_Cons)
      (auto simp add: u b simp del: of_nat_mult of_nat_add)
qed

lemma parse_base128_loop_Some:
  "parse_base128_loop v cbs = (Some w, r) \<Longrightarrow> b128_hi (unat v) @ cbs = b128 (unat w) @ r"
proof (induction v cbs rule: parse_base128_loop.induct)
  case (2 v b cbs)
  let ?n = "unat v * 128 + unat b mod 128"
  have ok: "unat v < 2 ^ 57" "\<not> (unat v = 0 \<and> unat b = 128)"
    using "2.prems" by (auto simp: parse_base128_loop_Cons split: if_splits)
  have "unat v * 128 + unat b mod 128 < 2 ^ 57 * 128"
    using ok(1) mod_less_divisor [of 128 "unat b"] by linarith
  then have n: "unat (word_of_nat ?n :: u64) = ?n" by (simp add: unat_of_nat del: of_nat_add of_nat_mult)
  have n_div: "?n div 128 = unat v" and n_mod: "?n mod 128 = unat b mod 128" by simp_all
  show ?case
  proof (cases "128 \<le> unat b")
    case True
    then have bm: "unat b = 128 + unat b mod 128"
      using unat_byte_less [of b] by (rule nat_high_bit)
    then have "0 < ?n" using ok(2) by linarith
    then have "b128_hi ?n = b128_hi (unat v) @ [word_of_nat (unat b)]"
      using b128_hi_step [of ?n] n_div n_mod bm by metis
    moreover have "parse_base128_loop (word_of_nat ?n) cbs = (Some w, r)"
      using "2.prems" True ok by (simp add: parse_base128_loop_Cons del: of_nat_add of_nat_mult)
    moreover have "push_bit 7 v OR (ucast b AND 0x7f) = (word_of_nat ?n :: u64)"
      using unat_b128_acc [OF ok(1), of b] by (rule word_of_unat)
    moreover have "\<not> (v = 0 \<and> b = 128)" using ok(2) by (simp add: word_unat_eq_iff)
    ultimately show ?thesis
      using "2.IH" [OF _ _ refl] True ok n drop57 [of v]
      by (auto simp del: of_nat_add of_nat_mult)
  next
    case False
    then have w: "w = word_of_nat ?n" and r: "r = cbs"
      using "2.prems" ok by (auto simp add: parse_base128_loop_Cons simp del: of_nat_add of_nat_mult split: if_splits)
    have uw: "unat w = ?n" unfolding w by (rule n)
    have "b128 (unat w) = b128_hi (unat v) @ [word_of_nat (unat b mod 128)]"
      unfolding b128_def uw n_div n_mod by (rule refl)
    moreover have "unat b mod 128 = unat b" using False by (intro mod_less) linarith
    ultimately show ?thesis unfolding r by simp
  qed
qed simp

lemma parse_base128_iff:
  "parse_base128_integer cbs = (Some w, r) \<longleftrightarrow> cbs = b128 (unat w) @ r"
  using parse_base128_loop_Some [of 0 cbs w r] parse_b128 [of "unat w" r] unsigned_less [of w]
  by (auto simp: parse_base128_integer_def)

lemma cbs_get_u_eq:
  "cbs_get_u n cbs =
     (if length cbs < n then (None, cbs) else (Some (word_of_nat (be_val (take n cbs))), drop n cbs))"
  by (simp add: cbs_get_u_def cbs_get_def foldl_push_or)

lemma CBS_get_u8_simps [simp]:
  "CBS_get_u8 [] = (None, [])"
  "CBS_get_u8 (b # cbs) = (Some b, cbs)"
  by (simp_all add: CBS_get_u8_def cbs_get_def)

lemma word_224: "(224 :: u8) = - 32"
  by simp

lemma tag_bits_word: "push_bit 24 (ucast (b :: u8) AND 0xe0 :: u32) = push_bit 29 (word_of_nat (unat b div 32))"
proof -
  have m: "unat (b AND 0xe0) = unat b div 32 * 32"
    using unat_and_not_mask [of b 5] by (simp add: mask_eq_exp_minus_1 word_224)
  have "(ucast b AND 0xe0 :: u32) = ucast (b AND 0xe0)" by (simp add: unsigned_and_eq)
  then have "unat (ucast b AND 0xe0 :: u32) = unat b div 32 * 32"
    by (simp only: unat_ucast_byte m) (simp add: unat_ucast_byte m)
  then have "(ucast b AND 0xe0 :: u32) = push_bit 5 (word_of_nat (unat b div 32))"
    by (subst word_of_unat) (auto simp: push_bit_eq_mult)
  then show ?thesis by (simp only: push_bit_push_bit)  simp
qed

lemma tag_word:
  assumes "unat (v :: u32) < 2 ^ 29"
  shows "push_bit 24 (ucast (b :: u8) AND 0xe0) OR v = word_of_nat (unat b div 32 * 2 ^ 29 + unat v)"
proof -
  have "unat b div 32 < 8" using unat_byte_less [of b] by (simp add: less_mult_imp_div_less)
  then have "unat (push_bit 29 (word_of_nat (unat b div 32)) OR v) = unat (word_of_nat (unat b div 32) :: u32) * 2 ^ 29 + unat v"
    using assms by (intro unat_push_or) (auto simp: unat_of_nat)
  also have "unat (word_of_nat (unat b div 32) :: u32) = unat b div 32"
    using \<open>unat b div 32 < 8\<close> by (simp add: unat_of_nat)
  finally show ?thesis unfolding tag_bits_word by (rule word_of_unat)
qed

lemma parse_asn1_tag_Cons:
  "parse_asn1_tag (b # cbs) =
     (if unat b mod 32 = 31 then
        (case parse_base128_integer cbs of
           (None, r) \<Rightarrow> (None, r)
         | (Some v, r) \<Rightarrow>
             if 2 ^ 29 \<le> unat v \<or> unat v < 31 then (None, r)
             else (Some (word_of_nat (unat b div 32 * 2 ^ 29 + unat v)), r))
      else (Some (word_of_nat (unat b div 32 * 2 ^ 29 + unat b mod 32)), cbs))"
proof -
  have n: "unat (ucast b AND 0x1f :: u32) = unat b mod 32"
    using unat_and_mask [of "ucast b :: u32" 5] by (simp add: unat_ucast_byte mask_eq_exp_minus_1)
  have low: "ucast b AND 0x1f = (0x1f :: u32) \<longleftrightarrow> unat b mod 32 = 31"
    using n by (simp add: word_unat_eq_iff)
  have "unat b mod 32 < 32" by simp
  then have tag: "push_bit 24 (ucast b AND 0xe0) OR (ucast b AND 0x1f) = (word_of_nat (unat b div 32 * 2 ^ 29 + unat b mod 32) :: u32)"
    using tag_word [of "ucast b AND 0x1f" b] n by simp
  have mask: "unat (ucast CBS_ASN1_TAG_NUMBER_MASK :: u64) = 2 ^ 29 - 1"
    by (simp add: CBS_ASN1_TAG_NUMBER_MASK_def CBS_ASN1_TAG_SHIFT_def)
  have big: "v > ucast CBS_ASN1_TAG_NUMBER_MASK \<or> v < 0x1f \<longleftrightarrow> 2 ^ 29 \<le> unat v \<or> unat v < 31" for v :: u64
    using mask by (auto simp: word_less_nat_alt)
  have tag': "push_bit 24 (ucast b AND 0xe0) OR ucast v = (word_of_nat (unat b div 32 * 2 ^ 29 + unat v) :: u32)"
    if "unat (v :: u64) < 2 ^ 29" for v
  proof -
    have "unat (ucast v :: u32) = unat v" using that by (simp add: unsigned_ucast_eq take_bit_nat_eq_self)
    with tag_word [of "ucast v" b] that show ?thesis by simp
  qed
  show ?thesis
    unfolding parse_asn1_tag_def CBS_ASN1_TAG_SHIFT_def Let_def CBS_get_u8_simps prod.case option.case low big tag
    by (auto simp: tag' not_le simp del: push_bit_and of_nat_add of_nat_mult
        split: prod.splits option.splits)
qed

lemma der_tag_parts:
  fixes t :: u32
  defines "cls \<equiv> unat t div 2 ^ 29" and "num \<equiv> unat t mod 2 ^ 29"
  shows "cls < 8" and "num < 2 ^ 29" and "t = word_of_nat (cls * 2 ^ 29 + num)"
proof -
  have "unat t < 2 ^ 32" using unsigned_less [of t] by simp
  then show "cls < 8" unfolding cls_def by (simp add: less_mult_imp_div_less)
  show "num < 2 ^ 29" unfolding num_def by simp
  show "t = word_of_nat (cls * 2 ^ 29 + num)"
    unfolding cls_def num_def by (simp only: div_mult_mod_eq of_nat_unat ucast_id)
qed

lemma der_first_byte:
  "cls < 8 \<Longrightarrow> n < 32 \<Longrightarrow>
    unat (word_of_nat (cls * 32 + n) :: u8) div 32 = cls \<and> unat (word_of_nat (cls * 32 + n) :: u8) mod 32 = n"
proof -
  assume "cls < 8" and n: "n < (32 :: nat)"
  then have "cls * 32 + n < 256" by linarith
  then show ?thesis using n by (simp del: of_nat_add of_nat_mult)
qed

lemma parse_der_tag: "parse_asn1_tag (der_tag t @ r) = (Some t, r)"
proof -
  let ?cls = "unat t div 2 ^ 29" and ?num = "unat t mod 2 ^ 29"
  note parts = der_tag_parts [of t]
  show ?thesis
  proof (cases "?num < 31")
    case True
    then have "parse_asn1_tag (der_tag t @ r) = (Some (word_of_nat (?cls * 2 ^ 29 + ?num)), r)"
      using der_first_byte [OF parts(1), of ?num]
      by (simp add: der_tag_def Let_def parse_asn1_tag_Cons del: of_nat_add of_nat_mult)
    with parts(3) show ?thesis by simp
  next
    case False
    have "parse_base128_integer (b128 ?num @ r) = (Some (word_of_nat ?num), r)"
      using parts(2) by (intro parse_b128) simp
    moreover have "unat (word_of_nat ?num :: u64) = ?num"
      using parts(2) by (simp add: unat_of_nat)
    ultimately have "parse_asn1_tag (der_tag t @ r) = (Some (word_of_nat (?cls * 2 ^ 29 + ?num)), r)"
      using False parts(2) der_first_byte [OF parts(1), of 31]
      by (simp add: der_tag_def Let_def parse_asn1_tag_Cons del: of_nat_add of_nat_mult)
    with parts(3) show ?thesis by simp
  qed
qed

lemma der_tag_of_parts:
  assumes "cls < 8" and "num < 2 ^ 29"
  shows "der_tag (word_of_nat (cls * 2 ^ 29 + num)) =
    (if num < 31 then [word_of_nat (cls * 32 + num)] else word_of_nat (cls * 32 + 31) # b128 num)"
proof -
  have "cls * 2 ^ 29 + num < 2 ^ 32" using assms by simp
  then have "unat (word_of_nat (cls * 2 ^ 29 + num) :: u32) = cls * 2 ^ 29 + num"
    by (simp add: unat_of_nat del: of_nat_add of_nat_mult)
  moreover have "(cls * 2 ^ 29 + num) div 2 ^ 29 = cls" "(cls * 2 ^ 29 + num) mod 2 ^ 29 = num"
    using assms by auto
  ultimately show ?thesis by (simp only: der_tag_def Let_def)
qed

lemma parse_asn1_tag_Some:
  assumes "parse_asn1_tag cbs = (Some t, r)"
  shows "cbs = der_tag t @ r"
proof (cases cbs)
  case Nil
  with assms show ?thesis by (simp add: parse_asn1_tag_def)
next
  case (Cons b rest)
  have cls: "unat b div 32 < 8" using unat_byte_less [of b] by (simp add: less_mult_imp_div_less)
  have b: "word_of_nat (unat b div 32 * 32 + unat b mod 32) = b" by (simp only: div_mult_mod_eq of_nat_unat ucast_id)
  show ?thesis
  proof (cases "unat b mod 32 = 31")
    case True
    then obtain v where "parse_base128_integer rest = (Some v, r)" and v: "unat v < 2 ^ 29" "31 \<le> unat v"
      and t: "t = word_of_nat (unat b div 32 * 2 ^ 29 + unat v)"
      using assms Cons by (auto simp add: parse_asn1_tag_Cons not_le simp del: of_nat_add of_nat_mult
          split: prod.splits option.splits if_splits)
    then have "rest = b128 (unat v) @ r" by (simp add: parse_base128_iff)
    then show ?thesis
      using v b True unfolding t der_tag_of_parts [OF cls v(1)] Cons by simp
  next
    case False
    have "unat b mod 32 < 31" using False mod_less_divisor [of 32 "unat b"] by linarith
    moreover from this have "unat b mod 32 < 2 ^ 29" by simp
    moreover have "t = word_of_nat (unat b div 32 * 2 ^ 29 + unat b mod 32)" "r = rest"
      using assms Cons False by (auto simp add: parse_asn1_tag_Cons simp del: of_nat_add of_nat_mult)
    ultimately show ?thesis
      using b der_tag_of_parts [OF cls, of "unat b mod 32"] by (simp only: Cons if_True append.simps)
  qed
qed

lemma parse_asn1_tag_iff:
  "parse_asn1_tag cbs = (Some t, r) \<longleftrightarrow> cbs = der_tag t @ r"
  using parse_asn1_tag_Some parse_der_tag by blast
lemma length_b128_hi: "n < 128 ^ k \<Longrightarrow> length (b128_hi n) \<le> k"
proof (induction k arbitrary: n)
  case (Suc k)
  show ?case
  proof (cases "n = 0")
    case False
    have "n div 128 < 128 ^ k" using Suc.prems by (simp add: less_mult_imp_div_less mult.commute)
    with Suc.IH False show ?thesis by (simp add: b128_hi_step)
  qed simp
qed simp

lemma length_der_tag: "length (der_tag t) \<le> 6"
proof -
  have "unat t mod 2 ^ 29 div 128 < 128 ^ 4"
    using der_tag_parts(2) [of t] by (simp add: less_mult_imp_div_less)
  then show ?thesis
    using length_b128_hi by (auto simp: der_tag_def Let_def b128_def)
qed

lemma der_tag_not_Nil [simp]: "der_tag t \<noteq> []"
  by (simp add: der_tag_def Let_def)

lemma get_element_bytes_eq:
  "get_element_bytes len t h cbs =
     (if length cbs < len then (None, cbs)
      else (Some \<lparr>el_bytes = take len cbs, el_tag = t, el_header_len = h\<rparr>, drop len cbs))"
  by (simp add: get_element_bytes_def CBS_get_bytes_def cbs_get_def CBS_init_def)

text \<open>The reader after a correct tag, with the machine words read as numbers.\<close>

lemma any_element_after_tag:
  fixes t :: u32 and L :: u8 and rest :: bytes
  defines "cbs \<equiv> der_tag t @ L # rest" and "h \<equiv> length (der_tag t) + 1" and "k \<equiv> unat L - 128"
  shows "cbs_get_any_asn1_element ber_ok cbs =
    (if unat L < 128 then get_element_bytes (unat L + h) t h cbs
     else if ber_ok \<and> t AND CBS_ASN1_CONSTRUCTED \<noteq> 0 \<and> k = 0 then get_element_bytes h t h cbs
     else if k = 0 \<or> 4 < k \<or> length rest < k then (None, cbs)
     else let n = be_val (take k rest) in
          if n < 128 \<or> n div 256 ^ (k - 1) = 0 then (None, cbs)
          else get_element_bytes (n + h + k) t (h + k) cbs)"
proof -
  have hd: "parse_asn1_tag cbs = (Some t, L # rest)" by (simp add: cbs_def parse_der_tag)
  have hl: "length cbs - length rest = h" by (simp add: cbs_def h_def)
  show ?thesis
  proof (cases "unat L < 128")
    case True
    then show ?thesis using hd hl
      by (simp add: cbs_get_any_asn1_element_def Let_def)
  next
    case False
    have nb: "unat (L AND 0x7f) = k"
    proof -
      have "unat (L AND 0x7f) = unat L mod 128"
        using unat_and_mask [of L 7] by (simp add: mask_eq_exp_minus_1)
      also have "\<dots> = k" using False nat_high_bit [of "unat L"] by (simp add: k_def)
      finally show ?thesis .
    qed
    let ?n = "be_val (take k rest)" and ?w = "word_of_nat (be_val (take k rest)) :: u64"
    have word: "unat ?w = ?n \<and> (?w < 128 \<longleftrightarrow> ?n < 128) \<and>
        (drop_bit ((k - 1) * 8) ?w = 0 \<longleftrightarrow> ?n div 256 ^ (k - 1) = 0) \<and>
        szadd (szadd ?n h) k = ?n + h + k \<and> szadd ?n (szadd h k) = ?n + h + k"
      if "0 < k" "k \<le> 4" "k \<le> length rest"
    proof -
      have "(256::nat) ^ k \<le> 256 ^ 4" using that by (intro power_increasing) auto
      then have n: "?n < 2 ^ 32" using be_val_less [of "take k rest"] that by simp
      then have u: "unat ?w = ?n" by (simp add: unat_of_nat)
      have "drop_bit ((k - 1) * 8) ?w = 0 \<longleftrightarrow> ?n div 2 ^ ((k - 1) * 8) = 0"
        using unat_drop [of "(k - 1) * 8" ?w] u by (auto simp: word_unat_eq_iff)
      moreover have "(2::nat) ^ ((k - 1) * 8) = 256 ^ (k - 1)"
        by (simp add: power_mult mult.commute [of _ 8])
      moreover have "?n + h + k < SIZE_LIMIT"
        using n that length_der_tag [of t] by (simp add: h_def SIZE_LIMIT_def)
      ultimately show ?thesis using u by (simp add: word_less_nat_alt szadd_exact add.assoc)
    qed
    show ?thesis
    proof (cases "(ber_ok \<and> t AND CBS_ASN1_CONSTRUCTED \<noteq> 0 \<and> k = 0) \<or> k = 0 \<or> 4 < k \<or> length rest < k")
      case True
      then show ?thesis using hd hl False nb
        by (auto simp: cbs_get_any_asn1_element_def Let_def cbs_get_u_eq)
    next
      case False': False
      then show ?thesis using hd hl False nb word
        by (simp add: cbs_get_any_asn1_element_def Let_def cbs_get_u_eq not_less)
    qed
  qed
qed

lemma any_element_fail:
  "(\<nexists>t L rest. cbs = der_tag t @ L # rest) \<Longrightarrow> cbs_get_any_asn1_element ber_ok cbs = (None, cbs)"
proof -
  assume no: "\<nexists>t L rest. cbs = der_tag t @ L # rest"
  show ?thesis
  proof (cases "parse_asn1_tag cbs")
    case (Pair o' r)
    show ?thesis
    proof (cases o')
      case None
      with Pair show ?thesis by (simp add: cbs_get_any_asn1_element_def)
    next
      case (Some t)
      with Pair have "cbs = der_tag t @ r" by (simp add: parse_asn1_tag_iff)
      with no have "r = []" by (cases r) auto
      with Pair Some show ?thesis by (simp add: cbs_get_any_asn1_element_def)
    qed
  qed
qed

lemma length_der_len: "length (der_len n) \<le> 5"
  by (simp add: der_len_def Let_def)

definition el_of :: "u32 \<Rightarrow> bytes \<Rightarrow> asn1_element" where
  "el_of t c = \<lparr>el_bytes = der_tlv t c, el_tag = t, el_header_len = length (der_tag t @ der_len (length c))\<rparr>"

lemma der_len_long:
  assumes "128 \<le> n" and "n < 2 ^ 32"
  obtains k :: nat where "k \<noteq> 0" "k \<le> 4" "n < 256 ^ k" "n div 256 ^ (k - 1) \<noteq> 0"
    "der_len n = word_of_nat (128 + k) # be_bytes k n"
proof -
  define k :: nat where
    "k = (if n < 2 ^ 8 then 1 else if n < 2 ^ 16 then 2 else if n < 2 ^ 24 then 3 else 4)"
  have "n < 256 ^ k" "n div 256 ^ (k - 1) \<noteq> 0"
    using assms by (auto simp: k_def div_eq_0_iff)
  moreover have "der_len n = word_of_nat (128 + k) # be_bytes k n"
    using assms(1) by (simp add: der_len_def k_def Let_def)
  ultimately show thesis using that [of k] by (auto simp: k_def)
qed

lemma der_len_of_octets:
  assumes "128 \<le> n" "k \<noteq> 0" "k \<le> 4" "n < 256 ^ k" "n div 256 ^ (k - 1) \<noteq> 0"
  shows "der_len n = word_of_nat (128 + k) # be_bytes k n" and "n < 2 ^ 32"
proof -
  have "k = 1 \<or> k = 2 \<or> k = 3 \<or> k = 4" using assms(2,3) by auto
  then show "der_len n = word_of_nat (128 + k) # be_bytes k n" and "n < 2 ^ 32"
    using assms(1,4,5) by (auto simp: der_len_def Let_def div_eq_0_iff)
qed

lemma any_element_der:
  assumes "length c < 2 ^ 32"
  shows "cbs_get_any_asn1_element ber_ok (der_tlv t c @ r) = (Some (el_of t c), r)"
proof (cases "length c < 128")
  case True
  then have "unat (word_of_nat (length c) :: u8) = length c" by simp
  with True show ?thesis
    by (simp add: der_tlv_def der_len_def any_element_after_tag get_element_bytes_eq el_of_def)
next
  case False
  let ?n = "length c"
  obtain k where k: "k \<noteq> 0" "k \<le> 4" "?n < 256 ^ k" "?n div 256 ^ (k - 1) \<noteq> 0"
    and der0: "der_len ?n = word_of_nat (128 + k) # be_bytes k ?n"
    using False assms by (metis der_len_long not_less)
  have "128 + k < 256" using k(2) by simp
  then obtain L where L: "unat (L :: u8) = 128 + k" and der: "der_len ?n = L # be_bytes k ?n"
    using der0 by (metis mod_less unat_byte_of_nat)
  have v: "be_val (be_bytes k ?n) = ?n" using k(3) by (simp add: be_val_be_bytes)
  have eq: "der_tlv t c @ r = der_tag t @ L # (be_bytes k ?n @ c @ r)"
    by (simp add: der_tlv_def der)
  have "cbs_get_any_asn1_element ber_ok (der_tlv t c @ r) =
      get_element_bytes (?n + (length (der_tag t) + 1) + k) t (length (der_tag t) + 1 + k) (der_tlv t c @ r)"
    using k v False by (simp add: eq any_element_after_tag L Let_def)
  also have "\<dots> = (Some (el_of t c), r)"
  proof -
    have "?n + (length (der_tag t) + 1) + k = length (der_tlv t c)" by (simp add: der_tlv_def der)
    then show ?thesis by (simp add: get_element_bytes_eq el_of_def der)
  qed
  finally show ?thesis .
qed

lemma any_element_Some:
  assumes "cbs_get_any_asn1_element False cbs = (Some e, r)"
  obtains t c where "e = el_of t c" "cbs = der_tlv t c @ r" "length c < 2 ^ 32"
proof -
  obtain t L rest where cbs: "cbs = der_tag t @ L # rest"
    using any_element_fail [of cbs False] assms by fastforce
  let ?h = "length (der_tag t) + 1"
  show thesis
  proof (cases "unat L < 128")
    case True
    let ?c = "take (unat L) rest"
    from True assms have g: "get_element_bytes (unat L + ?h) t ?h cbs = (Some e, r)"
      by (simp add: cbs any_element_after_tag)
    then have len: "length ?c = unat L" and r: "r = drop (unat L) rest"
      by (auto simp: get_element_bytes_eq cbs split: if_splits)
    from True have tlv: "der_tlv t ?c = der_tag t @ L # ?c"
      by (simp add: der_tlv_def der_len_def len del: length_take)
    show thesis
    proof (rule that [of t ?c])
      show "e = el_of t ?c" using g True
        by (auto simp: get_element_bytes_eq cbs el_of_def tlv der_len_def len simp del: length_take split: if_splits)
      show "cbs = der_tlv t ?c @ r" by (simp only: tlv cbs r append_assoc append.simps append_take_drop_id)
      show "length ?c < 2 ^ 32" using True len by simp
    qed
  next
    case False
    then obtain k where L: "unat L = 128 + k" by (metis le_Suc_ex not_less)
    let ?n = "be_val (take k rest)"
    let ?c = "take ?n (drop k rest)"
    have k: "k \<noteq> 0" "k \<le> 4" "k \<le> length rest" "128 \<le> ?n" "?n div 256 ^ (k - 1) \<noteq> 0"
      and g: "get_element_bytes (?n + ?h + k) t (?h + k) cbs = (Some e, r)"
      using assms by (auto simp: cbs any_element_after_tag L Let_def not_le not_less split: if_splits)
    then have len: "length ?c = ?n" and r: "r = drop ?n (drop k rest)"
      by (auto simp: get_element_bytes_eq cbs add.commute split: if_splits)
    have "?n < 256 ^ k" using be_val_less [of "take k rest"] k(3) by simp
    note l = der_len_of_octets [OF k(4,1,2) this k(5)]
    have "word_of_nat (128 + k) = L" using word_of_unat [OF L] by simp
    moreover have "be_bytes k ?n = take k rest"
      using be_bytes_be_val [of "take k rest"] k(3) by simp
    ultimately have dl: "der_len ?n = L # take k rest" using l(1) by simp
    have tlv: "der_tlv t ?c = der_tag t @ L # take k rest @ ?c"
      by (simp only: der_tlv_def len dl append.simps)
    have cbs': "cbs = der_tlv t ?c @ r"
      by (simp only: tlv cbs r append_assoc append.simps append_take_drop_id)
    show thesis
    proof (rule that [of t ?c])
      have "?n + ?h + k = length (der_tlv t ?c)" using len k(3) by (simp add: tlv)
      moreover have "length (take k rest) = k" using k(3) by simp
      ultimately show "e = el_of t ?c" using g k(3)
        by (auto simp: get_element_bytes_eq cbs' el_of_def len dl simp del: length_take split: if_splits)
    qed (use cbs' l(2) len in auto)
  qed
qed

text \<open>DER elements: the reader accepts exactly the encodings.\<close>

theorem any_asn1_element_iff:
  "CBS_get_any_asn1_element cbs = (Some e, r) \<longleftrightarrow>
     (\<exists>t c. length c < 2 ^ 32 \<and> e = el_of t c \<and> cbs = der_tlv t c @ r)"
  unfolding CBS_get_any_asn1_element_def
  by (metis any_element_Some any_element_der)

lemma any_element_fail_same: "cbs_get_any_asn1_element ber_ok cbs = (None, cbs') \<Longrightarrow> cbs' = cbs"
proof -
  assume *: "cbs_get_any_asn1_element ber_ok cbs = (None, cbs')"
  show ?thesis
  proof (cases "\<exists>t L rest. cbs = der_tag t @ L # rest")
    case True
    with * show ?thesis
      by (auto simp: any_element_after_tag get_element_bytes_eq Let_def split: if_splits)
  next
    case False
    with any_element_fail * show ?thesis by fastforce
  qed
qed

lemma skip_header: "CBS_skip (el_header_len (el_of t c)) (el_bytes (el_of t c)) = (Some (), c)"
  by (simp add: CBS_skip_def cbs_get_def el_of_def der_tlv_def)

lemma CBS_get_any_asn1_iff:
  "CBS_get_any_asn1 cbs = (Some (c, t), r) \<longleftrightarrow> length c < 2 ^ 32 \<and> cbs = der_tlv t c @ r"
proof
  assume "length c < 2 ^ 32 \<and> cbs = der_tlv t c @ r"
  then have "CBS_get_any_asn1_element cbs = (Some (el_of t c), r)"
    using any_asn1_element_iff by blast
  then show "CBS_get_any_asn1 cbs = (Some (c, t), r)"
    by (simp add: CBS_get_any_asn1_def skip_header) (simp add: el_of_def)
next
  assume "CBS_get_any_asn1 cbs = (Some (c, t), r)"
  then obtain e where e: "CBS_get_any_asn1_element cbs = (Some e, r)"
    and sk: "CBS_skip (el_header_len e) (el_bytes e) = (Some (), c)" and t: "t = el_tag e"
    by (auto simp: CBS_get_any_asn1_def split: prod.splits option.splits)
  from e obtain t' c' where "length c' < 2 ^ 32" and e': "e = el_of t' c'" and "cbs = der_tlv t' c' @ r"
    using any_asn1_element_iff by blast
  with sk skip_header [of t' c'] t show "length c < 2 ^ 32 \<and> cbs = der_tlv t c @ r"
    by (simp add: e') (simp add: el_of_def)
qed

interpretation der: canonical_codec "\<lambda>(c, t). der_tlv t c" CBS_get_any_asn1 "\<lambda>(c, t). length c < 2 ^ 32"
  by unfold_locales (auto simp: CBS_get_any_asn1_iff)

lemma CBS_get_asn1_cases:
  "CBS_get_asn1 t cbs =
    (case CBS_get_any_asn1 cbs of
       (None, r) \<Rightarrow> (None, r)
     | (Some (c, t'), r) \<Rightarrow> if t' = t then (Some c, r) else (None, r))"
proof (cases "CBS_get_any_asn1_element cbs")
  case (Pair o' r)
  show ?thesis
  proof (cases o')
    case None
    with Pair show ?thesis
      by (simp add: CBS_get_asn1_def cbs_get_asn1_def CBS_get_any_asn1_def)
  next
    case (Some e)
    with Pair obtain t' c where e: "e = el_of t' c" using any_asn1_element_iff by blast
    have tag: "el_tag (el_of t' c) = t'" by (simp add: el_of_def)
    show ?thesis using Pair Some
      by (simp add: CBS_get_asn1_def cbs_get_asn1_def CBS_get_any_asn1_def e skip_header tag)
  qed
qed

lemma CBS_get_asn1_iff:
  "CBS_get_asn1 t cbs = (Some c, r) \<longleftrightarrow> length c < 2 ^ 32 \<and> cbs = der_tlv t c @ r"
proof -
  have "CBS_get_asn1 t cbs = (Some c, r) \<longleftrightarrow> CBS_get_any_asn1 cbs = (Some (c, t), r)"
    unfolding CBS_get_asn1_cases by (auto split: prod.splits option.splits if_splits)
  then show ?thesis by (simp add: CBS_get_any_asn1_iff)
qed

lemma CBS_get_asn1_der [simp]:
  "length c < 2 ^ 32 \<Longrightarrow> CBS_get_asn1 t (der_tlv t c @ r) = (Some c, r)"
  by (simp add: CBS_get_asn1_iff)

lemma CBS_peek_asn1_tag_iff: "CBS_peek_asn1_tag cbs t \<longleftrightarrow> (\<exists>r. cbs = der_tag t @ r)"
proof
  assume "CBS_peek_asn1_tag cbs t"
  then show "\<exists>r. cbs = der_tag t @ r"
    by (auto simp: CBS_peek_asn1_tag_def parse_asn1_tag_iff split: prod.splits option.splits if_splits)
next
  assume "\<exists>r. cbs = der_tag t @ r"
  then show "CBS_peek_asn1_tag cbs t"
    by (auto simp: CBS_peek_asn1_tag_def parse_der_tag Suc_le_eq)
qed

text \<open>C1. In DER mode \<open>cbs_get_any_asn1_element\<close> succeeds exactly on inputs that start with
  the DER encoding of some tag and contents shorter than \<open>2^32\<close>: it reports that encoding, the
  tag and the length of its header, and leaves the rest.\<close>

theorem any_asn1_element_exact:
  "CBS_get_any_asn1_element cbs = (Some e, r) \<longleftrightarrow>
     (\<exists>t c. length c < 2 ^ 32 \<and> cbs = der_tlv t c @ r
        \<and> el_bytes e = der_tlv t c \<and> el_tag e = t
        \<and> el_header_len e = length (der_tlv t c) - length c)"
proof -
  have "e = el_of t c \<longleftrightarrow> el_bytes e = der_tlv t c \<and> el_tag e = t
      \<and> el_header_len e = length (der_tlv t c) - length c" for t c
    by (cases e) (auto simp: el_of_def der_tlv_def)
  then show ?thesis by (simp add: any_asn1_element_iff conj_commute conj_left_commute)
qed

text \<open>\<open>CBS_get_asn1\<close> with the wrong tag fails, but only after consuming the whole element:
  the caller's \<open>CBS\<close> is left behind it.\<close>

theorem wrong_tag_consumes:
  assumes "t' \<noteq> t" and "length c < 2 ^ 32"
  shows "CBS_get_asn1 t' (der_tlv t c @ r) = (None, r)"
  using assms CBS_get_any_asn1_iff [of "der_tlv t c @ r" c t r] by (simp add: CBS_get_asn1_cases)

theorem wrong_tag_consumes_witness:
  "CBS_get_asn1 CBS_ASN1_OCTETSTRING [2, 1, 5, 9] = (None, [9])"
  using wrong_tag_consumes [of CBS_ASN1_OCTETSTRING CBS_ASN1_INTEGER "[5]" "[9]"]
  by (simp add: der_tlv_def der_tag_def der_len_def Let_def)

text \<open>Sequences of DER elements have one reading only: a list of elements that fills a
  string exactly is the list \<open>read_all\<close> returns, and conversely.\<close>

theorem der_elements_unique:
  "read_all CBS_get_any_asn1 bs = Some xs \<longleftrightarrow>
     (\<forall>(c, t)\<in>set xs. length c < 2 ^ 32) \<and> bs = concat (map (\<lambda>(c, t). der_tlv t c) xs)"
  using der.read_all_iff [of bs xs] by (auto simp: der_tlv_def)

theorem der_elements_unique_witness:
  "read_all CBS_get_any_asn1 [5, 0, 2, 1, 7] = Some [([], 5), ([7], 2)]"
  unfolding der_elements_unique
  by (simp add: der_tlv_def der_tag_def der_len_def Let_def)

end
