(* ===== verification/CbsInt.thy ===== *)
theory CbsInt
  imports Der
begin

text \<open>
  The fixed-width integers, the length-prefixed strings and the ASN.1 INTEGERs of the reader
  against their specifications; each reader is interpreted as a canonical codec.
\<close>

section \<open>Byte swaps\<close>

lemma bit_bswap2: "bit (CRYPTO_bswap2 x) n \<longleftrightarrow> n < 16 \<and> bit x (if n < 8 then n + 8 else n - 8)"
  unfolding CRYPTO_bswap2_def
  by (auto simp: bit_simps add.commute dest: bit_imp_le_length)

lemma masks32: "(0xff00ff00 :: u32) = push_bit 24 (mask 8) OR push_bit 8 (mask 8)"
  "(0x00ff00ff :: u32) = push_bit 16 (mask 8) OR mask 8"
  by (simp_all add: mask_eq_exp_minus_1)

lemma bit_bswap4: "bit (CRYPTO_bswap4 x) n \<longleftrightarrow> n < 32 \<and>
    bit x (if n < 8 then n + 24 else if n < 16 then n + 8 else if n < 24 then n - 8 else n - 24)"
proof -
  have l: "bit x k \<Longrightarrow> k < 32" for k using bit_imp_le_length [of x k] by simp
  consider "n < 8" | "8 \<le> n" "n < 16" | "16 \<le> n" "n < 24" | "24 \<le> n" "n < 32" | "32 \<le> n" by linarith
  then show ?thesis
  unfolding CRYPTO_bswap4_def Let_def masks32
  by cases (auto simp: bit_simps ac_simps dest: l)
qed

lemma be_word_bytes:
  "8 \<le> LENGTH('a::len) \<Longrightarrow> (word_of_nat (be_val bs) :: 'a word) = foldl (\<lambda>r b. push_bit 8 r OR ucast b) 0 bs"
  by (simp add: foldl_push_or)

lemma bswap2_bytes: "CRYPTO_bswap2 (word_of_nat (be_val [a, b])) = word_of_nat (be_val [b, a])"
  by (rule bit_word_eqI) (auto simp: be_word_bytes bit_bswap2 bit_simps dest: bit_imp_le_length)

lemma bswap4_bytes: "CRYPTO_bswap4 (word_of_nat (be_val [a, b, c, d])) = word_of_nat (be_val [d, c, b, a])"
proof (rule bit_word_eqI)
  fix n assume "n < LENGTH(32)"
  then consider "n < 8" | "8 \<le> n" "n < 16" | "16 \<le> n" "n < 24" | "24 \<le> n" "n < 32"
    by (simp, linarith)
  then show "bit (CRYPTO_bswap4 (word_of_nat (be_val [a, b, c, d]))) n = bit (word_of_nat (be_val [d, c, b, a]) :: u32) n"
    by cases (auto simp: be_word_bytes bit_bswap4 bit_simps dest: bit_imp_le_length)
qed

lemma bswap8_bytes:
  "CRYPTO_bswap8 (word_of_nat (be_val [a, b, c, d, e, f, g, h])) = word_of_nat (be_val [h, g, f, e, d, c, b, a])"
proof -
  let ?hi = "be_val [a, b, c, d]" and ?lo = "be_val [e, f, g, h]"
  let ?hi' = "be_val [h, g, f, e]" and ?lo' = "be_val [d, c, b, a]"
  have lt: "be_val [w, x, y, z] < 2 ^ 32" for w x y z
    using be_val_less [of "[w, x, y, z]"] by simp
  have x: "be_val [a, b, c, d, e, f, g, h] = ?hi * 2 ^ 32 + ?lo"
    "be_val [h, g, f, e, d, c, b, a] = ?hi' * 2 ^ 32 + ?lo'"
    using be_val_append [of "[a, b, c, d]" "[e, f, g, h]"] be_val_append [of "[h, g, f, e]" "[d, c, b, a]"]
    by simp_all
  let ?x = "word_of_nat (?hi * 2 ^ 32 + ?lo) :: u64"
  have "?hi * 2 ^ 32 + ?lo < 2 ^ 64" using lt [of a b c d] lt [of e f g h] by simp
  then have u: "unat ?x = ?hi * 2 ^ 32 + ?lo" by (simp add: unat_of_nat del: of_nat_add of_nat_mult)
  have "unat (ucast ?x :: u32) = ?lo" using lt [of e f g h]
    by (simp only: unsigned_ucast_eq u take_bit_nat_def) simp
  then have l: "(ucast ?x :: u32) = word_of_nat ?lo" by (rule word_of_unat)
  have "unat (drop_bit 32 ?x) = ?hi" using lt [of e f g h]
    by (simp only: unat_drop u) simp
  then have "unat (ucast (drop_bit 32 ?x) :: u32) = ?hi" using lt [of a b c d]
    by (simp add: unsigned_ucast_eq take_bit_nat_eq_self)
  then have r: "(ucast (drop_bit 32 ?x) :: u32) = word_of_nat ?hi" by (rule word_of_unat)
  have up: "unat (ucast (word_of_nat (be_val [w, y, z, v]) :: u32) :: u64) = be_val [w, y, z, v]" for w y z v
    using lt [of w y z v] by (simp add: unsigned_ucast_eq unat_of_nat take_bit_nat_eq_self)
  have "unat (CRYPTO_bswap8 ?x) = ?hi' * 2 ^ 32 + ?lo'"
    unfolding CRYPTO_bswap8_def l r bswap4_bytes
    using lt [of h g f e] lt [of d c b a] by (subst unat_push_or) (auto simp: up)
  then show ?thesis unfolding x by (rule word_of_unat)
qed

section \<open>Fixed-width integers\<close>

lemma ucast_of_nat:
  assumes "n < 2 ^ LENGTH('b::len)"
  shows "(ucast (word_of_nat n :: 'b word) :: 'a::len word) = word_of_nat n"
proof -
  have "unat (word_of_nat n :: 'b word) = n"
    using assms by (simp add: unat_of_nat)
  then show ?thesis by (metis of_nat_unat unsigned_of_nat word_of_nat_eq_iff)
qed

lemma cbs_get_u_small:
  assumes "k \<le> 8"
  shows "cbs_get_u k cbs =
    (if length cbs < k then (None, cbs) else (Some (word_of_nat (be_val (take k cbs))), drop k cbs))"
    and "be_val (take k cbs) < 2 ^ 64"
proof -
  have "be_val (take k cbs) < 256 ^ length (take k cbs)" by (rule be_val_less)
  also have "\<dots> \<le> 256 ^ 8" using assms by (intro power_increasing) auto
  finally show "be_val (take k cbs) < 2 ^ 64" by simp
qed (rule cbs_get_u_eq)

lemma be_reader_codec:
  assumes "\<And>cbs. dec cbs = (if length cbs < k then (None, cbs)
      else (Some (word_of_nat (be_val (take k cbs)) :: 'a::len word), drop k cbs))"
    and "256 ^ k \<le> (2 :: nat) ^ LENGTH('a)"
  shows "canonical_codec (\<lambda>v. be_bytes k (unat v)) dec (\<lambda>v. unat v < 256 ^ k)"
proof
  fix x :: "'a word" and r assume "unat x < 256 ^ k"
  then show "dec (be_bytes k (unat x) @ r) = (Some x, r)"
    by (simp add: assms(1) be_val_be_bytes)
next
  fix bs r and x :: "'a word" assume "dec bs = (Some x, r)"
  then have k: "k \<le> length bs" and x: "x = word_of_nat (be_val (take k bs))" and r: "r = drop k bs"
    by (auto simp: assms(1) split: if_splits)
  have lt: "be_val (take k bs) < 256 ^ k" using be_val_less [of "take k bs"] k by simp
  with assms(2) have u: "unat x = be_val (take k bs)" by (simp add: x unat_of_nat)
  with lt k be_bytes_be_val [of "take k bs"] show "unat x < 256 ^ k \<and> bs = be_bytes k (unat x) @ r"
    by (simp add: r)
qed

lemma get_u_word:
  assumes "k \<le> 8"
  shows "(case cbs_get_u k cbs of (None, cbs') \<Rightarrow> (None, cbs') | (Some v, cbs') \<Rightarrow> (Some (ucast v), cbs')) =
    (if length cbs < k then (None, cbs)
     else (Some (word_of_nat (be_val (take k cbs)) :: 'a::len word), drop k cbs))"
  using cbs_get_u_small [OF assms, of cbs] by (simp add: ucast_of_nat)

lemma get_u_values:
  "CBS_get_u16 cbs = (if length cbs < 2 then (None, cbs) else (Some (word_of_nat (be_val (take 2 cbs))), drop 2 cbs))"
  "CBS_get_u24 cbs = (if length cbs < 3 then (None, cbs) else (Some (word_of_nat (be_val (take 3 cbs))), drop 3 cbs))"
  "CBS_get_u32 cbs = (if length cbs < 4 then (None, cbs) else (Some (word_of_nat (be_val (take 4 cbs))), drop 4 cbs))"
  "CBS_get_u64 cbs = (if length cbs < 8 then (None, cbs) else (Some (word_of_nat (be_val (take 8 cbs))), drop 8 cbs))"
  by (simp_all add: CBS_get_u16_def CBS_get_u24_def CBS_get_u32_def get_u_word)
     (simp add: CBS_get_u64_def cbs_get_u_eq)

interpretation u8: canonical_codec "\<lambda>v. [v]" CBS_get_u8 "\<lambda>_. True"
  by unfold_locales (auto simp: CBS_get_u8_def cbs_get_def neq_Nil_conv Suc_le_eq split: if_splits list.splits)

interpretation u16: canonical_codec "\<lambda>v. be_bytes 2 (unat v)" CBS_get_u16 "\<lambda>v. unat v < 256 ^ 2"
  by (rule be_reader_codec) (simp_all add: get_u_values)

interpretation u24: canonical_codec "\<lambda>v. be_bytes 3 (unat v)" CBS_get_u24 "\<lambda>v. unat v < 256 ^ 3"
  by (rule be_reader_codec) (simp_all add: get_u_values)

interpretation u32: canonical_codec "\<lambda>v. be_bytes 4 (unat v)" CBS_get_u32 "\<lambda>v. unat v < 256 ^ 4"
  by (rule be_reader_codec) (simp_all add: get_u_values)

interpretation u64: canonical_codec "\<lambda>v. be_bytes 8 (unat v)" CBS_get_u64 "\<lambda>v. unat v < 256 ^ 8"
  by (rule be_reader_codec) (simp_all add: get_u_values)

section \<open>Little-endian integers\<close>

lemma le_reader_codec:
  assumes "\<And>cbs. dec cbs = (if length cbs < k then (None, cbs)
      else (Some (word_of_nat (le_val (take k cbs)) :: 'a::len word), drop k cbs))"
    and "256 ^ k = (2 :: nat) ^ LENGTH('a)"
  shows "canonical_codec (\<lambda>v. le_bytes k (unat v)) dec (\<lambda>_. True)"
proof
  fix x :: "'a word" and r
  have "unat x < 256 ^ k" using assms(2) unsigned_less [of x] by simp
  then show "dec (le_bytes k (unat x) @ r) = (Some x, r)"
    by (simp add: assms(1) le_val_le_bytes)
next
  fix bs r and x :: "'a word" assume "dec bs = (Some x, r)"
  then have k: "k \<le> length bs" and x: "x = word_of_nat (le_val (take k bs))" and r: "r = drop k bs"
    by (auto simp: assms(1) split: if_splits)
  have "le_val (take k bs) < 256 ^ k" using le_val_less [of "take k bs"] k by simp
  with assms(2) have "unat x = le_val (take k bs)" by (simp add: x unat_of_nat)
  with k le_bytes_le_val [of "take k bs"] show "True \<and> bs = le_bytes k (unat x) @ r"
    by (simp add: r)
qed

lemma take_2: "2 \<le> length cbs \<Longrightarrow> \<exists>a b. take 2 cbs = [a, b]"
  by (auto simp: numeral_eq_Suc Suc_le_length_iff)

lemma take_4: "4 \<le> length cbs \<Longrightarrow> \<exists>a b c d. take 4 cbs = [a, b, c, d]"
  by (auto simp: numeral_eq_Suc Suc_le_length_iff)

lemma take_8: "8 \<le> length cbs \<Longrightarrow> \<exists>a b c d e f g h. take 8 cbs = [a, b, c, d, e, f, g, h]"
  by (auto simp: numeral_eq_Suc Suc_le_length_iff)

lemma get_ule_values:
  "CBS_get_u16le cbs = (if length cbs < 2 then (None, cbs) else (Some (word_of_nat (le_val (take 2 cbs))), drop 2 cbs))"
  "CBS_get_u32le cbs = (if length cbs < 4 then (None, cbs) else (Some (word_of_nat (le_val (take 4 cbs))), drop 4 cbs))"
  "CBS_get_u64le cbs = (if length cbs < 8 then (None, cbs) else (Some (word_of_nat (le_val (take 8 cbs))), drop 8 cbs))"
proof -
  show "CBS_get_u16le cbs = (if length cbs < 2 then (None, cbs) else (Some (word_of_nat (le_val (take 2 cbs))), drop 2 cbs))"
    using take_2 [of cbs] bswap2_bytes be_val_rev [of "take 2 cbs"]
    by (auto simp: CBS_get_u16le_def get_u_values not_less simp del: of_nat_add of_nat_mult le_val.simps)
  show "CBS_get_u32le cbs = (if length cbs < 4 then (None, cbs) else (Some (word_of_nat (le_val (take 4 cbs))), drop 4 cbs))"
    using take_4 [of cbs] bswap4_bytes be_val_rev [of "take 4 cbs"]
    by (auto simp: CBS_get_u32le_def get_u_values not_less simp del: of_nat_add of_nat_mult le_val.simps)
  show "CBS_get_u64le cbs = (if length cbs < 8 then (None, cbs) else (Some (word_of_nat (le_val (take 8 cbs))), drop 8 cbs))"
    using take_8 [of cbs] bswap8_bytes be_val_rev [of "take 8 cbs"] get_u_values(4) [of cbs]
    by (auto simp: CBS_get_u64le_def CBS_get_u64_def not_less simp del: of_nat_add of_nat_mult le_val.simps)
qed

interpretation u16le: canonical_codec "\<lambda>v. le_bytes 2 (unat v)" CBS_get_u16le "\<lambda>_. True"
  by (rule le_reader_codec) (simp_all add: get_ule_values)

interpretation u32le: canonical_codec "\<lambda>v. le_bytes 4 (unat v)" CBS_get_u32le "\<lambda>_. True"
  by (rule le_reader_codec) (simp_all add: get_ule_values)

interpretation u64le: canonical_codec "\<lambda>v. le_bytes 8 (unat v)" CBS_get_u64le "\<lambda>_. True"
  by (rule le_reader_codec) (simp_all add: get_ule_values)

section \<open>Length-prefixed strings\<close>

lemma length_prefixed_codec:
  assumes "k \<le> 3"
  shows "canonical_codec (\<lambda>c. be_bytes k (length c) @ c) (cbs_get_length_prefixed k) (\<lambda>c. length c < 256 ^ k)"
proof
  have pow: "(256 :: nat) ^ k \<le> 256 ^ 3" using assms by (intro power_increasing) auto
  fix c :: bytes and r assume c: "length c < 256 ^ k"
  then have "length c < 2 ^ 64" using pow by simp
  then have "unat (word_of_nat (length c) :: u64) = length c" by (simp add: unat_of_nat)
  with c show "cbs_get_length_prefixed k ((be_bytes k (length c) @ c) @ r) = (Some c, r)"
    by (simp add: cbs_get_length_prefixed_def cbs_get_u_eq be_val_be_bytes CBS_get_bytes_def cbs_get_def CBS_init_def)
next
  fix bs c r assume d: "cbs_get_length_prefixed k bs = (Some c, r)"
  let ?n = "be_val (take k bs)"
  from d have k: "k \<le> length bs" by (auto simp: cbs_get_length_prefixed_def cbs_get_u_eq split: if_splits)
  have "unat (word_of_nat ?n :: u64) = ?n"
    using cbs_get_u_small(2) [of k bs] assms by (simp add: unat_of_nat)
  with d k have n: "?n \<le> length (drop k bs)" and c: "c = take ?n (drop k bs)" and r: "r = drop ?n (drop k bs)"
    by (auto simp: cbs_get_length_prefixed_def cbs_get_u_eq CBS_get_bytes_def cbs_get_def CBS_init_def split: if_splits)
  have "length c = ?n" using n c by simp
  moreover have "?n < 256 ^ k" using be_val_less [of "take k bs"] k by simp
  moreover have "be_bytes k ?n = take k bs" using be_bytes_be_val [of "take k bs"] k by simp
  ultimately show "length c < 256 ^ k \<and> bs = (be_bytes k (length c) @ c) @ r"
    by (simp add: c r del: drop_drop)
qed

interpretation len8: canonical_codec "\<lambda>c. be_bytes 1 (length c) @ c" CBS_get_u8_length_prefixed "\<lambda>c. length c < 256 ^ 1"
  using length_prefixed_codec [of 1] by (simp add: CBS_get_u8_length_prefixed_def [abs_def])

interpretation len16: canonical_codec "\<lambda>c. be_bytes 2 (length c) @ c" CBS_get_u16_length_prefixed "\<lambda>c. length c < 256 ^ 2"
  using length_prefixed_codec [of 2] by (simp add: CBS_get_u16_length_prefixed_def [abs_def])

interpretation len24: canonical_codec "\<lambda>c. be_bytes 3 (length c) @ c" CBS_get_u24_length_prefixed "\<lambda>c. length c < 256 ^ 3"
  using length_prefixed_codec [of 3] by (simp add: CBS_get_u24_length_prefixed_def [abs_def])

end
