(* ===== verification/Asn1Int.thy ===== *)
theory Asn1Int
  imports CbsInt
begin

text \<open>
  ASN.1 INTEGER, BOOLEAN, optional elements and BIT STRINGs: what the readers of
  \<open>cbs.c\<close> accept, as canonical codecs of \<open>uint64_t\<close>, \<open>int64_t\<close> and \<open>bool\<close>.
\<close>

section \<open>INTEGER as \<open>uint64_t\<close>\<close>

lemma asn1_uint64_loop_eq:
  "asn1_uint64_loop out data =
     (if unat out * 256 ^ length data + be_val data < 2 ^ 64
      then Some (word_of_nat (unat out * 256 ^ length data + be_val data)) else None)"
proof (induction data arbitrary: out)
  case Nil
  then show ?case using unsigned_less [of out] by simp
next
  case (Cons d data)
  let ?P = "256 ^ length data :: nat"
  have d56: "drop_bit 56 out = 0 \<longleftrightarrow> unat out < 2 ^ 56"
    using unat_drop [of 56 out] by (auto simp: word_unat_eq_iff div_eq_0_iff)
  have val: "unat out * 256 ^ length (d # data) + be_val (d # data) =
      (unat out * 256 + unat d) * ?P + be_val data"
    by (simp add: be_val_Cons algebra_simps)
  show ?case
  proof (cases "unat out < 2 ^ 56")
    case True
    have "unat (push_bit 8 out OR ucast d) = unat out * 2 ^ 8 + unat (ucast d :: u64)"
      using True by (intro unat_push_or) (auto simp: unat_ucast_byte)
    then have u: "unat (push_bit 8 out OR ucast d) = unat out * 256 + unat d"
      by (simp add: unat_ucast_byte)
    show ?thesis using True d56 unfolding val
      by (simp only: asn1_uint64_loop.simps Cons.IH u) simp
  next
    case False
    have "2 ^ 64 \<le> unat out * 256" using False by simp
    also have "\<dots> \<le> (unat out * 256 + unat d) * ?P"
      using mult_le_mono [of "unat out * 256" "unat out * 256 + unat d" 1 ?P] by simp
    finally have "\<not> (unat out * 256 + unat d) * ?P + be_val data < 2 ^ 64" by linarith
    then show ?thesis using False d56 unfolding val by (simp only: asn1_uint64_loop.simps) simp
  qed
qed

text \<open>The shortest big-endian octets of an unsigned number, with a zero octet in front where the
  first bit would read as a sign.\<close>

function min_octets :: "nat \<Rightarrow> bytes" where
  "min_octets n = (if n = 0 then [] else min_octets (n div 256) @ [word_of_nat n])"
  by pat_completeness auto
termination by (relation "measure id") auto

declare min_octets.simps [simp del]

definition uint_octets :: "nat \<Rightarrow> bytes" where
  "uint_octets n =
     (case min_octets n of [] \<Rightarrow> [0] | b # bs \<Rightarrow> if 128 \<le> unat b then 0 # b # bs else b # bs)"

lemma min_octets_0 [simp]: "min_octets 0 = []"
  by (simp add: min_octets.simps)

lemma be_val_min_octets [simp]: "be_val (min_octets n) = n"
proof (induction n rule: min_octets.induct)
  case (1 n)
  then show ?case by (subst min_octets.simps) auto
qed

lemma hd_min_octets: "0 < n \<Longrightarrow> min_octets n \<noteq> [] \<and> hd (min_octets n) \<noteq> 0"
proof (induction n rule: min_octets.induct)
  case (1 n)
  show ?case
  proof (cases "n div 256 = 0")
    case True
    then have "n < 256" by (simp add: div_eq_0_iff)
    with 1 have "(word_of_nat n :: u8) \<noteq> 0" by (simp add: word_unat_eq_iff)
    with True 1 show ?thesis by (subst (1 2) min_octets.simps) simp
  next
    case False
    with 1 have "min_octets (n div 256) \<noteq> [] \<and> hd (min_octets (n div 256)) \<noteq> 0" by simp
    with 1 show ?thesis by (subst (1 2) min_octets.simps) simp
  qed
qed

lemma min_octets_unique: "bs = [] \<or> hd bs \<noteq> 0 \<Longrightarrow> min_octets (be_val bs) = bs"
proof (induction bs rule: rev_induct)
  case (snoc b bs)
  show ?case
  proof (cases "bs = []")
    case True
    with snoc.prems have "b \<noteq> 0" by simp
    then have "unat b \<noteq> 0" by (simp add: word_unat_eq_iff)
    with True show ?thesis by (subst min_octets.simps) (simp add: unat_0_iff)
  next
    case False
    with snoc have IH: "min_octets (be_val bs) = bs" and hd: "hd bs \<noteq> 0" by simp_all
    obtain a as where bs: "bs = a # as" using False by (cases bs) auto
    have "unat a \<noteq> 0" using hd bs by (simp add: word_unat_eq_iff)
    then have "0 < be_val bs" by (simp add: bs be_val_Cons)
    then have "min_octets (be_val bs * 256 + unat b) =
        min_octets ((be_val bs * 256 + unat b) div 256) @ [word_of_nat (be_val bs * 256 + unat b)]"
      by (subst min_octets.simps) simp
    also have "\<dots> = bs @ [b]"
      using IH byte_of_nat_mult256 [of b "be_val bs"] by (simp add: ac_simps del: of_nat_add of_nat_mult)
    finally show ?thesis by simp
  qed
qed simp

definition uint_minimal :: "bytes \<Rightarrow> bool" where
  "uint_minimal data \<longleftrightarrow> data \<noteq> [] \<and> unat (data ! 0) < 128 \<and>
     \<not> (data ! 0 = 0 \<and> 1 < length data \<and> unat (data ! 1) < 128)"

lemma uint_octets_unique:
  assumes "uint_minimal data"
  shows "uint_octets (be_val data) = data"
proof -
  obtain d ds where data: "data = d # ds" using assms by (cases data) (auto simp: uint_minimal_def)
  have d: "unat d < 128" using assms by (simp add: uint_minimal_def data)
  show ?thesis
  proof (cases "d = 0")
    case False
    then have "min_octets (be_val data) = data" by (intro min_octets_unique) (simp add: data)
    with d show ?thesis by (simp add: uint_octets_def data)
  next
    case True
    show ?thesis
    proof (cases ds)
      case Nil
      with True show ?thesis by (simp add: data uint_octets_def)
    next
      case (Cons e es)
      then have e: "128 \<le> unat e" using assms True by (simp add: uint_minimal_def data)
      then have "e \<noteq> 0" by auto
      then have "min_octets (be_val ds) = ds" by (intro min_octets_unique) (simp add: Cons)
      with e True Cons show ?thesis by (simp add: data uint_octets_def be_val_Cons)
    qed
  qed
qed

lemma uint_octets_minimal: "uint_minimal (uint_octets n)"
proof (cases "n = 0")
  case False
  then have "min_octets n \<noteq> [] \<and> hd (min_octets n) \<noteq> 0" by (simp add: hd_min_octets)
  then show ?thesis by (cases "min_octets n") (auto simp: uint_octets_def uint_minimal_def)
qed (simp add: uint_octets_def uint_minimal_def)

lemma be_val_uint_octets [simp]: "be_val (uint_octets n) = n"
  using be_val_min_octets [of n]
  by (cases "min_octets n") (simp_all add: uint_octets_def be_val_Cons del: be_val_min_octets)

lemma length_min_octets: "n < 256 ^ k \<Longrightarrow> length (min_octets n) \<le> k"
proof (induction k arbitrary: n)
  case (Suc k)
  have "n div 256 < 256 ^ k" using Suc.prems by (simp add: less_mult_imp_div_less mult.commute)
  with Suc.IH show ?case by (subst min_octets.simps) simp
qed simp

lemma length_uint_octets: "n < 256 ^ 8 \<Longrightarrow> length (uint_octets n) \<le> 9"
  using length_min_octets [of n 8] by (auto simp: uint_octets_def split: list.splits)

lemma get_asn1_uint64_contents:
  "CBS_get_asn1_uint64 cbs =
    (case CBS_get_asn1 CBS_ASN1_INTEGER cbs of
       (None, r) \<Rightarrow> (None, r)
     | (Some data, r) \<Rightarrow>
         if uint_minimal data \<and> be_val data < 2 ^ 64 then (Some (word_of_nat (be_val data)), r) else (None, r))"
  by (auto simp: CBS_get_asn1_uint64_def Let_def uint_minimal_def asn1_uint64_loop_eq not_less
      split: prod.splits option.splits)

lemma CBS_get_asn1_uint64_iff:
  "CBS_get_asn1_uint64 cbs = (Some v, r) \<longleftrightarrow> cbs = der_tlv CBS_ASN1_INTEGER (uint_octets (unat v)) @ r"
proof
  assume "CBS_get_asn1_uint64 cbs = (Some v, r)"
  then obtain data where "CBS_get_asn1 CBS_ASN1_INTEGER cbs = (Some data, r)" and m: "uint_minimal data"
    and lt: "be_val data < 2 ^ 64" and v: "v = word_of_nat (be_val data)"
    by (auto simp: get_asn1_uint64_contents split: prod.splits option.splits if_splits)
  then have "cbs = der_tlv CBS_ASN1_INTEGER data @ r" by (simp add: CBS_get_asn1_iff)
  moreover have "unat v = be_val data" using lt by (simp add: v unat_of_nat)
  ultimately show "cbs = der_tlv CBS_ASN1_INTEGER (uint_octets (unat v)) @ r"
    using uint_octets_unique [OF m] by simp
next
  assume cbs: "cbs = der_tlv CBS_ASN1_INTEGER (uint_octets (unat v)) @ r"
  have lt: "unat v < 2 ^ 64" using unsigned_less [of v] by simp
  then have "length (uint_octets (unat v)) \<le> 9" by (intro length_uint_octets) simp
  then show "CBS_get_asn1_uint64 cbs = (Some v, r)"
    using uint_octets_minimal [of "unat v"] lt by (simp add: get_asn1_uint64_contents cbs)
qed

text \<open>\<open>CBS_get_asn1_uint64\<close> accepts exactly the DER INTEGERs of 64-bit unsigned numbers:
  the shortest big-endian octets of the value with a clear top bit.  Every other INTEGER
  (negative, padded, empty or too large) is refused.\<close>

theorem CBS_get_asn1_uint64_exact:
  "CBS_get_asn1_uint64 cbs = (Some v, r) \<longleftrightarrow>
     (\<exists>c. uint_minimal c \<and> be_val c = unat v \<and> cbs = der_tlv CBS_ASN1_INTEGER c @ r)"
  unfolding CBS_get_asn1_uint64_iff
  using uint_octets_unique [symmetric] uint_octets_minimal [of "unat v"] be_val_uint_octets [of "unat v"] by metis

section \<open>INTEGER as \<open>int64_t\<close>\<close>

text \<open>The two's complement octets of a 64-bit value without the redundant leading ones.\<close>

fun strip_sign :: "bytes \<Rightarrow> bytes" where
  "strip_sign (a # b # bs) =
     (if (a = 0 \<and> unat b < 128) \<or> (a = 0xff \<and> 128 \<le> unat b) then strip_sign (b # bs) else a # b # bs)"
| "strip_sign bs = bs"

definition int_octets :: "u64 \<Rightarrow> bytes" where
  "int_octets v = strip_sign (be_bytes 8 (unat v))"

definition int_minimal :: "bytes \<Rightarrow> bool" where
  "int_minimal data \<longleftrightarrow> data \<noteq> [] \<and>
     \<not> (1 < length data \<and> data ! 0 = 0 \<and> unat (data ! 1) < 128) \<and>
     \<not> (1 < length data \<and> data ! 0 = 0xff \<and> 128 \<le> unat (data ! 1))"

definition sign_octet :: "bytes \<Rightarrow> u8" where
  "sign_octet data = (if 128 \<le> unat (data ! 0) then 0xff else 0)"

definition tc_val :: "bytes \<Rightarrow> int" where
  "tc_val data = int (be_val data) - (if 128 \<le> unat (data ! 0) then 256 ^ length data else 0)"

lemma strip_sign_minimal: "int_minimal data \<Longrightarrow> strip_sign data = data"
  by (cases data rule: strip_sign.cases) (auto simp: int_minimal_def)

lemma int_minimal_strip_sign: "data \<noteq> [] \<Longrightarrow> int_minimal (strip_sign data)"
  by (induction data rule: strip_sign.induct) (auto simp: int_minimal_def)

lemma strip_sign_extended:
  "data \<noteq> [] \<Longrightarrow> strip_sign (replicate k (sign_octet data) @ data) = strip_sign data"
proof (induction k)
  case (Suc k)
  obtain b bs where b: "replicate k (sign_octet data) @ data = b # bs" using Suc.prems by (cases k; cases data) auto
  have "(sign_octet data = 0 \<and> unat b < 128) \<or> (sign_octet data = 0xff \<and> 128 \<le> unat b)"
    using b Suc.prems by (cases k; cases data) (auto simp: sign_octet_def split: if_splits)
  then have "strip_sign (sign_octet data # b # bs) = strip_sign (b # bs)" by auto
  with Suc b show ?case by simp
qed simp

lemma strip_sign_extends:
  "data \<noteq> [] \<Longrightarrow> \<exists>k. data = replicate k (sign_octet (strip_sign data)) @ strip_sign data"
proof (induction data rule: strip_sign.induct)
  case (1 a b bs)
  show ?case
  proof (cases "(a = 0 \<and> unat b < 128) \<or> (a = 0xff \<and> 128 \<le> unat b)")
    case True
    then obtain k where k: "b # bs = replicate k (sign_octet (strip_sign (b # bs))) @ strip_sign (b # bs)"
      using "1.IH" by blast
    let ?s = "strip_sign (b # bs)"
    have "?s \<noteq> []" using int_minimal_strip_sign [of "b # bs"] by (auto simp: int_minimal_def)
    then have "unat b < 128 \<longleftrightarrow> unat (?s ! 0) < 128"
      using k by (cases k; cases ?s) (auto simp: sign_octet_def split: if_splits)
    then have "a = sign_octet ?s" using True by (auto simp: sign_octet_def)
    then have "a # b # bs = replicate (Suc k) (sign_octet ?s) @ ?s" using k by simp
    with True show ?thesis by (metis strip_sign.simps(1))
  next
    case False
    then show ?thesis by (intro exI [of _ 0]) auto
  qed
qed (auto intro: exI [of _ 0])

lemma strip_sign_of_extended:
  assumes "int_minimal data" and "length data \<le> 8"
  shows "int_octets (word_of_nat (be_val (replicate (8 - length data) (sign_octet data) @ data))) = data"
proof -
  let ?x = "replicate (8 - length data) (sign_octet data) @ data"
  have len: "length ?x = 8" using assms(2) by simp
  then have "be_val ?x < 256 ^ 8" using be_val_less [of ?x] by simp
  then have "be_bytes 8 (unat (word_of_nat (be_val ?x) :: u64)) = ?x"
    using be_bytes_be_val [of ?x] len by (simp add: unat_of_nat)
  moreover have "data \<noteq> []" using assms(1) by (simp add: int_minimal_def)
  ultimately show ?thesis
    using assms(1) by (simp add: int_octets_def strip_sign_extended strip_sign_minimal)
qed

lemma int_octets_extended:
  defines "x v \<equiv> replicate (8 - length (int_octets v)) (sign_octet (int_octets v)) @ int_octets v"
  shows "int_minimal (int_octets v)" and "length (int_octets v) \<le> 8" and "be_bytes 8 (unat v) = x v"
    and "word_of_nat (be_val (x v)) = v"
proof -
  have ne: "be_bytes 8 (unat v) \<noteq> []" by (metis length_be_bytes list.size(3) zero_neq_numeral)
  then obtain k where k: "be_bytes 8 (unat v) = replicate k (sign_octet (int_octets v)) @ int_octets v"
    using strip_sign_extends by (auto simp: int_octets_def)
  then have "k + length (int_octets v) = 8" by (metis length_append length_be_bytes length_replicate)
  with k show "length (int_octets v) \<le> 8" and x: "be_bytes 8 (unat v) = x v" by (auto simp: x_def)
  show "int_minimal (int_octets v)" using ne by (simp add: int_octets_def int_minimal_strip_sign)
  have "unat v < 256 ^ 8" using unsigned_less [of v] by simp
  then show "word_of_nat (be_val (x v)) = v"
    by (simp flip: x add: be_val_be_bytes)
qed

lemma get_asn1_int64_contents:
  "CBS_get_asn1_int64 cbs =
    (case CBS_get_asn1 CBS_ASN1_INTEGER cbs of
       (None, r) \<Rightarrow> (None, r)
     | (Some data, r) \<Rightarrow>
         if int_minimal data \<and> length data \<le> 8
         then (Some (word_of_nat (be_val (replicate (8 - length data) (sign_octet data) @ data))), r)
         else (None, r))"
proof -
  have "le_val (mem_write (replicate 8 s) 0 (rev data)) = be_val (replicate (8 - length data) s @ data)"
    if "length data \<le> 8" for s and data :: bytes
    using that be_val_rev [of "rev data @ replicate (8 - length data) s"] by (simp add: mem_simps)
  then show ?thesis
    by (auto simp: CBS_get_asn1_int64_def Let_def int_minimal_def sign_octet_def not_less not_le
        split: prod.splits option.splits)
qed

lemma CBS_get_asn1_int64_iff:
  "CBS_get_asn1_int64 cbs = (Some v, r) \<longleftrightarrow> cbs = der_tlv CBS_ASN1_INTEGER (int_octets v) @ r"
proof
  assume "CBS_get_asn1_int64 cbs = (Some v, r)"
  then obtain data where "CBS_get_asn1 CBS_ASN1_INTEGER cbs = (Some data, r)" and m: "int_minimal data" "length data \<le> 8"
    and v: "v = word_of_nat (be_val (replicate (8 - length data) (sign_octet data) @ data))"
    by (auto simp: get_asn1_int64_contents split: prod.splits option.splits if_splits)
  then show "cbs = der_tlv CBS_ASN1_INTEGER (int_octets v) @ r"
    using strip_sign_of_extended [OF m] by (simp add: CBS_get_asn1_iff)
next
  assume cbs: "cbs = der_tlv CBS_ASN1_INTEGER (int_octets v) @ r"
  note x = int_octets_extended [of v]
  then have "length (int_octets v) < 2 ^ 32" by simp
  then show "CBS_get_asn1_int64 cbs = (Some v, r)"
    using x by (simp add: get_asn1_int64_contents cbs)
qed

lemma sint_word64: "sint (v :: u64) = int (unat v) - (if 2 ^ 63 \<le> unat v then 2 ^ 64 else 0)"
proof -
  have l: "uint v < 2 ^ 64" "0 \<le> uint v" using uint_lt2p [of v] by simp_all
  have u: "uint v = int (unat v)" by (rule of_nat_unat [symmetric])
  have le: "2 ^ 63 \<le> unat v \<longleftrightarrow> 2 ^ 63 \<le> uint v" using of_nat_le_iff [of "2 ^ 63" "unat v", where ?'a = int] by (simp add: u del: of_nat_le_iff of_nat_unat)
  have s: "sint v = (uint v + 2 ^ 63) mod 2 ^ 64 - 2 ^ 63"
    by (simp add: sint_uint signed_take_bit_eq_take_bit_shift take_bit_eq_mod)
  show ?thesis
  proof (cases "2 ^ 63 \<le> uint v")
    case True
    have "(uint v + 2 ^ 63) mod 2 ^ 64 = (uint v + 2 ^ 63 - 2 ^ 64) mod 2 ^ 64"
      by (rule minus_mod_self2 [symmetric])
    also have "\<dots> = uint v + 2 ^ 63 - 2 ^ 64"
      using l True by (intro mod_pos_pos_trivial) simp_all
    finally show ?thesis using True s le by (simp del: of_nat_unat add: u)
  next
    case False
    then have "(uint v + 2 ^ 63) mod 2 ^ 64 = uint v + 2 ^ 63" using l by (intro mod_pos_pos_trivial) simp_all
    with False show ?thesis using s le by (simp del: of_nat_unat add: u)
  qed
qed

lemma tc_val_extend:
  assumes "s \<noteq> []"
  shows "tc_val (sign_octet s # s) = tc_val s"
proof (cases "128 \<le> unat (s ! 0)")
  case True
  then have "sign_octet s = 0xff" by (simp add: sign_octet_def)
  with True show ?thesis by (simp add: tc_val_def be_val_Cons)
next
  case False
  then have "sign_octet s = 0" by (simp add: sign_octet_def)
  with False show ?thesis by (simp add: tc_val_def be_val_Cons)
qed

lemma tc_val_extend_replicate: "s \<noteq> [] \<Longrightarrow> tc_val (replicate k (sign_octet s) @ s) = tc_val s"
proof (induction k)
  case (Suc k)
  let ?t = "replicate k (sign_octet s) @ s"
  have "sign_octet ?t = sign_octet s"
    by (cases k) (auto simp: sign_octet_def)
  with Suc show ?case using tc_val_extend [of ?t] by simp
qed simp

lemma tc_val_be_bytes8: "tc_val (be_bytes 8 (unat v)) = sint (v :: u64)"
proof -
  obtain x xs where x: "be_bytes 8 (unat v) = x # xs" "length xs = 7"
    using length_be_bytes [of 8 "unat v"] by (cases "be_bytes 8 (unat v)") auto
  have v: "be_val (x # xs) = unat v"
    using unsigned_less [where ?'b = 64 and ?'a = nat, of v] by (simp flip: x add: be_val_be_bytes)
  then have "unat v = unat x * 256 ^ 7 + be_val xs" "be_val xs < 256 ^ 7"
    using x(2) be_val_less [of xs] by (auto simp: be_val_Cons)
  then have "128 \<le> unat x \<longleftrightarrow> 2 ^ 63 \<le> unat v" by auto
  with x v show ?thesis by (simp add: tc_val_def sint_word64)
qed

lemma tc_val_int_octets: "tc_val (int_octets v) = sint v"
  using int_octets_extended(1) [of v] int_octets_extended(3) [of v] tc_val_extend_replicate [of "int_octets v"]
    tc_val_be_bytes8 [of v] by (auto simp: int_minimal_def)

lemma int_octets_unique:
  assumes "int_minimal c" and "length c \<le> 8" and "tc_val c = sint v"
  shows "int_octets v = c"
proof -
  obtain w where w: "int_octets w = c" using strip_sign_of_extended [OF assms(1,2)] by blast
  then have "sint w = sint v" using tc_val_int_octets [of w] assms(3) by simp
  then show ?thesis using w signed_word_eqI by blast
qed

text \<open>C22. \<open>CBS_get_asn1_int64\<close> accepts exactly the DER INTEGERs of 64-bit signed numbers: the
  shortest two's complement octets whose value is that of the result read as signed.\<close>

theorem CBS_get_asn1_int64_exact:
  "CBS_get_asn1_int64 cbs = (Some v, r) \<longleftrightarrow>
     (\<exists>c. int_minimal c \<and> length c \<le> 8 \<and> tc_val c = sint v \<and> cbs = der_tlv CBS_ASN1_INTEGER c @ r)"
proof
  assume "CBS_get_asn1_int64 cbs = (Some v, r)"
  then show "\<exists>c. int_minimal c \<and> length c \<le> 8 \<and> tc_val c = sint v \<and> cbs = der_tlv CBS_ASN1_INTEGER c @ r"
    using int_octets_extended(1,2) [of v] tc_val_int_octets [of v] by (auto simp: CBS_get_asn1_int64_iff)
next
  assume "\<exists>c. int_minimal c \<and> length c \<le> 8 \<and> tc_val c = sint v \<and> cbs = der_tlv CBS_ASN1_INTEGER c @ r"
  then show "CBS_get_asn1_int64 cbs = (Some v, r)"
    using int_octets_unique by (auto simp: CBS_get_asn1_int64_iff)
qed

interpretation asn1_uint64: canonical_codec "\<lambda>v. der_tlv CBS_ASN1_INTEGER (uint_octets (unat v))" CBS_get_asn1_uint64 "\<lambda>_. True"
  by unfold_locales (simp_all add: CBS_get_asn1_uint64_iff)

interpretation asn1_int64: canonical_codec "\<lambda>v. der_tlv CBS_ASN1_INTEGER (int_octets v)" CBS_get_asn1_int64 "\<lambda>_. True"
  by unfold_locales (simp_all add: CBS_get_asn1_int64_iff)

lemma CBS_get_asn1_bool_iff:
  "CBS_get_asn1_bool cbs = (Some b, r) \<longleftrightarrow> cbs = der_tlv CBS_ASN1_BOOLEAN [if b then 0xff else 0] @ r"
proof
  assume "CBS_get_asn1_bool cbs = (Some b, r)"
  then show "cbs = der_tlv CBS_ASN1_BOOLEAN [if b then 0xff else 0] @ r"
    by (auto simp: CBS_get_asn1_bool_def CBS_get_asn1_iff Let_def length_Suc_conv split: prod.splits option.splits if_splits)
next
  assume "cbs = der_tlv CBS_ASN1_BOOLEAN [if b then 0xff else 0] @ r"
  then show "CBS_get_asn1_bool cbs = (Some b, r)"
    by (simp add: CBS_get_asn1_bool_def)
qed

interpretation asn1_bool: canonical_codec "\<lambda>b. der_tlv CBS_ASN1_BOOLEAN [if b then 0xff else 0]" CBS_get_asn1_bool "\<lambda>_. True"
  by unfold_locales (simp_all add: CBS_get_asn1_bool_iff)

section \<open>Optional elements\<close>

lemma peek_der_tlv [simp]: "CBS_peek_asn1_tag (der_tlv t c @ r) t"
  by (auto simp: CBS_peek_asn1_tag_iff der_tlv_def Let_def)

lemma CBS_get_optional_asn1_iff:
  "CBS_get_optional_asn1 t cbs = (Some x, r) \<longleftrightarrow>
     (if CBS_peek_asn1_tag cbs t then \<exists>c. x = Some c \<and> CBS_get_asn1 t cbs = (Some c, r) else x = None \<and> r = cbs)"
  by (auto simp: CBS_get_optional_asn1_def split: option.splits prod.splits)

lemma uint_tlv_short: "length (der_tlv CBS_ASN1_INTEGER (uint_octets (unat (v :: u64)))) < 2 ^ 32"
proof -
  have "length (uint_octets (unat v)) \<le> 9"
    by (rule length_uint_octets) (use unsigned_less [of v] in simp)
  then show ?thesis by (simp add: der_tlv_def der_tag_def der_len_def Let_def)
qed

text \<open>\<open>CBS_get_optional_asn1_uint64\<close> yields the default and reads nothing when the next
  element does not carry the tag; when it does, the element must hold exactly one canonical
  INTEGER and nothing after it.\<close>

theorem optional_uint64_exact:
  "CBS_get_optional_asn1_uint64 t d cbs = (Some v, r) \<longleftrightarrow>
     (if CBS_peek_asn1_tag cbs t
      then cbs = der_tlv t (der_tlv CBS_ASN1_INTEGER (uint_octets (unat v))) @ r
      else v = d \<and> r = cbs)"
proof (cases "CBS_peek_asn1_tag cbs t")
  case True
  show ?thesis
  proof
    assume "CBS_get_optional_asn1_uint64 t d cbs = (Some v, r)"
    with True obtain c where "CBS_get_asn1 t cbs = (Some c, r)" "CBS_get_asn1_uint64 c = (Some v, [])"
      by (auto simp: CBS_get_optional_asn1_uint64_def CBS_get_optional_asn1_def split: option.splits prod.splits if_splits)
    with True show "if CBS_peek_asn1_tag cbs t
      then cbs = der_tlv t (der_tlv CBS_ASN1_INTEGER (uint_octets (unat v))) @ r else v = d \<and> r = cbs"
      by (simp add: CBS_get_asn1_iff CBS_get_asn1_uint64_iff)
  next
    assume "if CBS_peek_asn1_tag cbs t
      then cbs = der_tlv t (der_tlv CBS_ASN1_INTEGER (uint_octets (unat v))) @ r else v = d \<and> r = cbs"
    with True show "CBS_get_optional_asn1_uint64 t d cbs = (Some v, r)"
      using uint_tlv_short [of v] asn1_uint64.dec_enc_nil [of v]
      by (simp add: CBS_get_optional_asn1_uint64_def CBS_get_optional_asn1_def)
  qed
next
  case False
  then show ?thesis by (auto simp: CBS_get_optional_asn1_uint64_def CBS_get_optional_asn1_def)
qed

section \<open>BIT STRING\<close>

text \<open>The bits of a string, most significant first, and the bits a BIT STRING's contents denote:
  all of them but the unused ones of its last octet.\<close>

definition bits_msb :: "bytes \<Rightarrow> bool list" where
  "bits_msb bs = concat (map (\<lambda>b. map (\<lambda>i. bit b (7 - i)) [0..<8]) bs)"

definition bitstring_bits :: "bytes \<Rightarrow> bool list" where
  "bitstring_bits c = (let bs = bits_msb (tl c) in take (length bs - unat (c ! 0)) bs)"

lemma length_bits_msb [simp]: "length (bits_msb bs) = 8 * length bs"
  by (induction bs) (auto simp: bits_msb_def)

lemma nth_bits_msb: "i < 8 * length bs \<Longrightarrow> bits_msb bs ! i = bit (bs ! (i div 8)) (7 - i mod 8)"
proof (induction bs arbitrary: i)
  case (Cons b bs)
  have eq: "bits_msb (b # bs) = map (\<lambda>i. bit b (7 - i)) [0..<8] @ bits_msb bs" by (simp add: bits_msb_def)
  show ?case
  proof (cases "i < 8")
    case False
    then obtain j where j: "i = j + 8" by (metis le_add_diff_inverse2 not_less)
    then have "i div 8 = Suc (j div 8)" by simp
    with Cons j show ?thesis by (simp add: eq nth_append)
  qed (simp add: eq nth_append)
qed simp


lemma and_low_bits_eq_0: "b AND (2 ^ u - 1) = 0 \<longleftrightarrow> (\<forall>i<u. \<not> bit (b :: u8) i)"
proof -
  have "2 ^ u - 1 = (mask u :: u8)" by (simp add: mask_eq_exp_minus_1)
  then have "b AND (2 ^ u - 1) = take_bit u b" by (simp add: take_bit_eq_mask)
  moreover have "take_bit u b = 0 \<longleftrightarrow> (\<forall>i<u. \<not> bit b i)"
    using bit_imp_le_length [of b] by (auto simp: bit_eq_iff bit_take_bit_iff)
  ultimately show ?thesis by simp
qed

lemma is_valid_bitstring_iff:
  "CBS_is_valid_asn1_bitstring cbs \<longleftrightarrow>
     (\<exists>u bs. cbs = u # bs \<and> unat u \<le> 7 \<and> (0 < unat u \<longrightarrow> bs \<noteq> [] \<and> (\<forall>i<unat u. \<not> bit (last bs) i)))"
  by (cases cbs)
    (auto simp: CBS_is_valid_asn1_bitstring_def get_u_values CBS_get_last_u8_def last_conv_nth and_low_bits_eq_0
      word_less_nat_alt word_le_nat_alt unat_gt_0 split: if_splits)

lemma and_bit_nonzero: "b AND push_bit k 1 \<noteq> 0 \<longleftrightarrow> bit (b :: u8) k"
  by (simp only: bit_iff_and_push_bit_not_eq_0)

lemma bit_position: "unat (drop_bit 3 b + 1 :: u32) = unat b div 8 + 1" "unat (7 - (b AND 7) :: u32) = 7 - unat b mod 8"
proof -
  have lt: "unat b < 2 ^ 32" using unsigned_less [of b] by simp
  then have "unat (drop_bit 3 b) + 1 < 2 ^ 32" by (simp add: unat_drop)
  then show "unat (drop_bit 3 b + 1 :: u32) = unat b div 8 + 1"
    by (simp add: unat_word_ariths unat_drop)
  have "unat (b AND 7) = unat b mod 8" using unat_and_mask [of b 3] by (simp add: mask_eq_exp_minus_1)
  moreover from this have "b AND 7 \<le> 7" by (simp add: word_le_nat_alt)
  ultimately show "unat (7 - (b AND 7) :: u32) = 7 - unat b mod 8" by (simp add: unat_sub)
qed

text \<open>On a valid BIT STRING, \<open>CBS_asn1_bitstring_has_bit\<close> is the membership test in the list of
  bits the contents denote, most significant bit of the first octet first: bits past the
  end, and the unused bits of the last octet, count as zero.\<close>

theorem bitstring_has_bit_spec:
  assumes "CBS_is_valid_asn1_bitstring cbs"
  shows "CBS_asn1_bitstring_has_bit cbs b \<longleftrightarrow>
     unat b < length (bitstring_bits cbs) \<and> bitstring_bits cbs ! unat b"
proof -
  let ?n = "unat b"
  from assms obtain u bs where cbs: "cbs = u # bs" "unat u \<le> 7"
    and u: "0 < unat u \<Longrightarrow> bs \<noteq> [] \<and> (\<forall>i<unat u. \<not> bit (last bs) i)"
    unfolding is_valid_bitstring_iff by metis
  have has: "CBS_asn1_bitstring_has_bit cbs b \<longleftrightarrow> ?n < 8 * length bs \<and> bit (bs ! (?n div 8)) (7 - ?n mod 8)"
  proof -
    have "?n div 8 + 1 < length cbs \<longleftrightarrow> ?n < 8 * length bs" using cbs(1) by (simp add: div_less_iff_less_mult mult.commute)
    then show ?thesis
      using assms unfolding CBS_asn1_bitstring_has_bit_def Let_def bit_position and_bit_nonzero
      by (simp add: cbs(1) cong: conj_cong)
  qed
  have "\<not> bit (bs ! (?n div 8)) (7 - ?n mod 8)" if "8 * length bs - unat u \<le> ?n" "?n < 8 * length bs"
  proof -
    obtain q r where q: "?n = 8 * q + r" "r < 8" by (metis mod_less_divisor mult_div_mod_eq zero_less_numeral)
    have "q = length bs - 1" using that cbs(2) q by simp
    moreover have "?n div 8 = q" "?n mod 8 = r" using q by simp_all
    ultimately have "?n div 8 = length bs - 1" "7 - ?n mod 8 < unat u" "0 < unat u"
      using that cbs(2) q by linarith+
    moreover have "last bs = bs ! (length bs - 1)" using that by (intro last_conv_nth) auto
    ultimately show ?thesis using u by simp
  qed
  then show ?thesis
    unfolding has by (cases "?n < 8 * length bs - unat u") (auto simp: bitstring_bits_def Let_def cbs nth_bits_msb)
qed

theorem bitstring_has_bit_spec_witness:
  "CBS_asn1_bitstring_has_bit [4, 0xb0] 3 \<and> \<not> CBS_asn1_bitstring_has_bit [4, 0xb0] 1"
proof -
  have "CBS_is_valid_asn1_bitstring [4, 0xb0]"
    unfolding CBS_is_valid_asn1_bitstring_def get_u_values CBS_get_last_u8_def by simp
  from bitstring_has_bit_spec [OF this] show ?thesis
    by (simp add: bitstring_bits_def bits_msb_def)
qed

end
