(* ===== verification/Cbb.thy ===== *)
theory Cbb
  imports Asn1Int
begin

text \<open>
  The byte builder of \<open>crypto/bytestring/cbb.c\<close>.  All the CBBs of a family share one
  \<open>cbb_buffer_st\<close>; each has at most one open child, so a family is a chain, kept here as the
  list of its nodes from the root inwards, and a \<open>CBB *\<close> is a position in the chain.  A
  handle past the end of the chain is one whose \<open>base\<close> the code has set to NULL.
  Every operation returns the C result and the family it leaves behind.
\<close>

section \<open>The buffer\<close>

record cbb_buffer =
  buf :: bytes
  blen :: nat
  cap :: nat
  can_resize :: bool
  error :: bool

record cbb_node =
  offset :: nat
  pending_len_len :: nat
  pending_is_asn1 :: bool

record cbb =
  base :: cbb_buffer
  chain :: "cbb_node list"

definition root_node :: cbb_node where
  "root_node = \<lparr>offset = 0, pending_len_len = 0, pending_is_asn1 = False\<rparr>"

definition cbb_init :: "heap_env \<Rightarrow> bytes \<Rightarrow> nat \<Rightarrow> cbb option" where
  "cbb_init env b n =
     (case heap_new env 40 of
        None \<Rightarrow> None
      | Some _ \<Rightarrow>
          Some \<lparr>base = \<lparr>buf = b, blen = 0, cap = n, can_resize = True, error = False\<rparr>, chain = [root_node]\<rparr>)"

definition CBB_init :: "heap_env \<Rightarrow> nat \<Rightarrow> cbb option" where
  "CBB_init env initial_capacity =
     (case heap_new env initial_capacity of
        None \<Rightarrow> if initial_capacity > 0 then None else cbb_init env [] 0
      | Some b \<Rightarrow> cbb_init env b initial_capacity)"

definition CBB_init_fixed :: "heap_env \<Rightarrow> bytes \<Rightarrow> cbb option" where
  "CBB_init_fixed env b =
     (case cbb_init env b (length b) of
        None \<Rightarrow> None
      | Some c \<Rightarrow> Some (c\<lparr>base := (base c)\<lparr>can_resize := False\<rparr>\<rparr>))"

definition cbb_buffer_reserve :: "heap_env \<Rightarrow> cbb_buffer \<Rightarrow> nat \<Rightarrow> bool \<times> cbb_buffer" where
  "cbb_buffer_reserve env b len =
     (let newlen = szadd (blen b) len in
      if newlen < blen b then (False, b\<lparr>error := True\<rparr>)
      else if newlen > cap b then
        (let newcap0 = szmul (cap b) 2 in
         if \<not> can_resize b then (False, b\<lparr>error := True\<rparr>)
         else
           let newcap = (if newcap0 < cap b \<or> newcap0 < newlen then newlen else newcap0) in
           (case heap_resize env (buf b) newcap of
              None \<Rightarrow> (False, b\<lparr>error := True\<rparr>)
            | Some newbuf \<Rightarrow> (True, b\<lparr>buf := newbuf, cap := newcap\<rparr>)))
      else (True, b))"

definition cbb_buffer_add :: "heap_env \<Rightarrow> cbb_buffer \<Rightarrow> nat \<Rightarrow> bool \<times> cbb_buffer" where
  "cbb_buffer_add env b len =
     (case cbb_buffer_reserve env b len of
        (False, b') \<Rightarrow> (False, b')
      | (True, b') \<Rightarrow> (True, b'\<lparr>blen := blen b' + len\<rparr>))"

text \<open>The descending loop that stores the low \<open>n\<close> bytes of a number big-endian at \<open>off\<close>, and what
  is left of the number.\<close>

fun store_be :: "nat \<Rightarrow> bytes \<Rightarrow> nat \<Rightarrow> nat \<Rightarrow> bytes \<times> nat" where
  "store_be 0 b off v = (b, v)"
| "store_be (Suc n) b off v = store_be n (b[off + n := word_of_nat v]) off (v div 256)"

definition cbb_buffer_add_u :: "heap_env \<Rightarrow> cbb_buffer \<Rightarrow> u64 \<Rightarrow> nat \<Rightarrow> bool \<times> cbb_buffer" where
  "cbb_buffer_add_u env b v len_len =
     (if len_len = 0 then (True, b)
      else
        let off = blen b in
        (case cbb_buffer_add env b len_len of
           (False, b') \<Rightarrow> (False, b')
         | (True, b') \<Rightarrow>
             (case store_be len_len (buf b') off (unat v) of
                (m, v') \<Rightarrow>
                  if v' \<noteq> 0 then (False, b'\<lparr>buf := m, error := True\<rparr>)
                  else (True, b'\<lparr>buf := m\<rparr>))))"

section \<open>Writing the pending length prefixes\<close>

text \<open>The loop at the end of \<open>CBB_flush\<close>, which fills in a child's pending bytes; the child is
  closed unless its contents are too long for them.\<close>

definition cbb_write_pending :: "cbb_buffer \<Rightarrow> cbb_node \<Rightarrow> cbb_node list \<Rightarrow> nat \<Rightarrow> bool \<times> cbb_buffer \<times> cbb_node list" where
  "cbb_write_pending b child cs len =
     (case store_be (pending_len_len child) (buf b) (offset child) len of
        (m, rest) \<Rightarrow>
          if rest \<noteq> 0 then (False, b\<lparr>buf := m, error := True\<rparr>, child # cs)
          else (True, b\<lparr>buf := m\<rparr>, []))"

text \<open>The number of length bytes, the first of them, and what the loop still has to write.\<close>

definition asn1_len_form :: "nat \<Rightarrow> nat \<times> u8 \<times> nat" where
  "asn1_len_form len =
     (if len > 0xffffff then (5, 0x80 OR 4, len)
      else if len > 0xffff then (4, 0x80 OR 3, len)
      else if len > 0xff then (3, 0x80 OR 2, len)
      else if len > 0x7f then (2, 0x80 OR 1, len)
      else (1, word_of_nat len, 0))"

text \<open>An ASN.1 length was given a single byte; a longer one moves the contents along.\<close>

definition cbb_make_space :: "heap_env \<Rightarrow> cbb_buffer \<Rightarrow> nat \<Rightarrow> nat \<Rightarrow> nat \<Rightarrow> bool \<times> cbb_buffer" where
  "cbb_make_space env b child_start len_len len =
     (if len_len \<noteq> 1 then
        let extra_bytes = len_len - 1 in
        (case cbb_buffer_add env b extra_bytes of
           (False, b) \<Rightarrow> (False, b)
         | (True, b) \<Rightarrow>
             (True, b\<lparr>buf := mem_write (buf b) (child_start + extra_bytes) (take len (drop child_start (buf b)))\<rparr>))
      else (True, b))"

definition cbb_write_asn1_length ::
    "heap_env \<Rightarrow> cbb_buffer \<Rightarrow> cbb_node \<Rightarrow> cbb_node list \<Rightarrow> nat \<Rightarrow> nat \<Rightarrow> bool \<times> cbb_buffer \<times> cbb_node list" where
  "cbb_write_asn1_length env b child cs child_start len0 =
     (if len0 > 0xfffffffe then (False, b\<lparr>error := True\<rparr>, child # cs)
      else case asn1_len_form len0 of (len_len, initial_length_byte, len) \<Rightarrow>
        (case cbb_make_space env b child_start len_len len of
           (False, b) \<Rightarrow> (False, b\<lparr>error := True\<rparr>, child # cs)
         | (True, b) \<Rightarrow>
             cbb_write_pending (b\<lparr>buf := (buf b)[offset child := initial_length_byte]\<rparr>)
               (child\<lparr>offset := offset child + 1, pending_len_len := len_len - 1\<rparr>) cs len))"

text \<open>\<open>cbb_flush_chain env b cs\<close> is \<open>CBB_flush\<close> on a CBB whose children, from the outside in,
  are \<open>cs\<close>; the nodes that stay open are returned.\<close>

fun cbb_flush_chain :: "heap_env \<Rightarrow> cbb_buffer \<Rightarrow> cbb_node list \<Rightarrow> bool \<times> cbb_buffer \<times> cbb_node list" where
  "cbb_flush_chain env b [] = (if error b then (False, b, []) else (True, b, []))"
| "cbb_flush_chain env b (child # cs) =
     (if error b then (False, b, child # cs)
      else if pending_len_len child = 0 then (True, b, child # cs)
      else
        let child_start = szadd (offset child) (pending_len_len child) in
        case cbb_flush_chain env b cs of (ok, b, cs) \<Rightarrow>
        if \<not> ok \<or> child_start < offset child \<or> blen b < child_start
        then (False, b\<lparr>error := True\<rparr>, child # cs)
        else
          let len = blen b - child_start in
          if pending_is_asn1 child then cbb_write_asn1_length env b child cs child_start len
          else cbb_write_pending b child cs len)"

type_synonym cbb_op = "cbb \<Rightarrow> bool \<times> cbb"

definition CBB_flush :: "heap_env \<Rightarrow> nat \<Rightarrow> cbb_op" where
  "CBB_flush env h c =
     (if length (chain c) \<le> h then (False, c)
      else case cbb_flush_chain env (base c) (drop (Suc h) (chain c)) of
        (ok, b, cs) \<Rightarrow> (ok, \<lparr>base = b, chain = take (Suc h) (chain c) @ cs\<rparr>))"

text \<open>\<open>a && b\<close> on operations: the second runs on the state the first one left, if it succeeded.\<close>

definition cbb_then :: "cbb_op \<Rightarrow> cbb_op \<Rightarrow> cbb_op" where
  "cbb_then f g c = (case f c of (False, c') \<Rightarrow> (False, c') | (True, c') \<Rightarrow> g c')"

definition on_base :: "(cbb_buffer \<Rightarrow> bool \<times> cbb_buffer) \<Rightarrow> cbb_op" where
  "on_base f c = (case f (base c) of (ok, b) \<Rightarrow> (ok, c\<lparr>base := b\<rparr>))"

text \<open>\<open>CBB_finish\<close> gives the contents away and leaves a family without handles.\<close>

definition CBB_cleanup :: "cbb \<Rightarrow> cbb" where
  "CBB_cleanup c = c\<lparr>base := (base c)\<lparr>buf := [], cap := 0, blen := 0\<rparr>, chain := []\<rparr>"

definition CBB_finish :: "heap_env \<Rightarrow> nat \<Rightarrow> cbb \<Rightarrow> bytes option \<times> cbb" where
  "CBB_finish env h c =
     (if h \<noteq> 0 then (None, c)
      else case CBB_flush env h c of
        (False, c') \<Rightarrow> (None, c')
      | (True, c') \<Rightarrow> (Some (take (blen (base c')) (buf (base c'))), CBB_cleanup c'))"

definition CBB_len :: "nat \<Rightarrow> cbb \<Rightarrow> nat" where
  "CBB_len h c = blen (base c) - offset (chain c ! h) - pending_len_len (chain c ! h)"

definition CBB_data :: "nat \<Rightarrow> cbb \<Rightarrow> bytes" where
  "CBB_data h c =
     take (CBB_len h c) (drop (offset (chain c ! h) + pending_len_len (chain c ! h)) (buf (base c)))"

section \<open>Opening children\<close>

definition open_child :: "nat \<Rightarrow> cbb_node \<Rightarrow> cbb_op" where
  "open_child h node c = (True, c\<lparr>chain := take (Suc h) (chain c) @ [node]\<rparr>)"

definition cbb_add_length_prefixed :: "heap_env \<Rightarrow> nat \<Rightarrow> nat \<Rightarrow> cbb_op" where
  "cbb_add_length_prefixed env h len_len =
     cbb_then (CBB_flush env h) (\<lambda>c.
       let off = blen (base c) in
       cbb_then (on_base (\<lambda>b. cbb_buffer_add env b len_len))
         (cbb_then (\<lambda>c. (True, c\<lparr>base := (base c)\<lparr>buf := mem_write (buf (base c)) off (replicate len_len 0)\<rparr>\<rparr>))
            (open_child h \<lparr>offset = off, pending_len_len = len_len, pending_is_asn1 = False\<rparr>)) c)"

definition CBB_add_u8_length_prefixed :: "heap_env \<Rightarrow> nat \<Rightarrow> cbb_op" where
  "CBB_add_u8_length_prefixed env h = cbb_add_length_prefixed env h 1"

definition CBB_add_u16_length_prefixed :: "heap_env \<Rightarrow> nat \<Rightarrow> cbb_op" where
  "CBB_add_u16_length_prefixed env h = cbb_add_length_prefixed env h 2"

definition CBB_add_u24_length_prefixed :: "heap_env \<Rightarrow> nat \<Rightarrow> cbb_op" where
  "CBB_add_u24_length_prefixed env h = cbb_add_length_prefixed env h 3"

section \<open>Appending bytes and integers\<close>

definition CBB_add_bytes :: "heap_env \<Rightarrow> nat \<Rightarrow> bytes \<Rightarrow> cbb_op" where
  "CBB_add_bytes env h data =
     cbb_then (CBB_flush env h) (\<lambda>c.
       let off = blen (base c) in
       cbb_then (on_base (\<lambda>b. cbb_buffer_add env b (length data)))
         (\<lambda>c. (True, c\<lparr>base := (base c)\<lparr>buf := mem_write (buf (base c)) off data\<rparr>\<rparr>)) c)"

definition CBB_add_space :: "heap_env \<Rightarrow> nat \<Rightarrow> nat \<Rightarrow> cbb_op" where
  "CBB_add_space env h len = cbb_then (CBB_flush env h) (on_base (\<lambda>b. cbb_buffer_add env b len))"

definition CBB_reserve :: "heap_env \<Rightarrow> nat \<Rightarrow> nat \<Rightarrow> cbb_op" where
  "CBB_reserve env h len = cbb_then (CBB_flush env h) (on_base (\<lambda>b. cbb_buffer_reserve env b len))"

definition CBB_did_write :: "nat \<Rightarrow> nat \<Rightarrow> cbb_op" where
  "CBB_did_write h len c =
     (let newlen = szadd (blen (base c)) len in
      if length (chain c) \<noteq> Suc h \<or> newlen < blen (base c) \<or> newlen > cap (base c) then (False, c)
      else (True, c\<lparr>base := (base c)\<lparr>blen := newlen\<rparr>\<rparr>))"

definition cbb_add_u :: "heap_env \<Rightarrow> nat \<Rightarrow> u64 \<Rightarrow> nat \<Rightarrow> cbb_op" where
  "cbb_add_u env h v n = cbb_then (CBB_flush env h) (on_base (\<lambda>b. cbb_buffer_add_u env b v n))"

definition CBB_add_u8 :: "heap_env \<Rightarrow> nat \<Rightarrow> u8 \<Rightarrow> cbb_op" where
  "CBB_add_u8 env h v = cbb_add_u env h (ucast v) 1"

definition CBB_add_u16 :: "heap_env \<Rightarrow> nat \<Rightarrow> u16 \<Rightarrow> cbb_op" where
  "CBB_add_u16 env h v = cbb_add_u env h (ucast v) 2"

definition CBB_add_u16le :: "heap_env \<Rightarrow> nat \<Rightarrow> u16 \<Rightarrow> cbb_op" where
  "CBB_add_u16le env h v = CBB_add_u16 env h (CRYPTO_bswap2 v)"

definition CBB_add_u24 :: "heap_env \<Rightarrow> nat \<Rightarrow> u32 \<Rightarrow> cbb_op" where
  "CBB_add_u24 env h v = cbb_add_u env h (ucast v) 3"

definition CBB_add_u32 :: "heap_env \<Rightarrow> nat \<Rightarrow> u32 \<Rightarrow> cbb_op" where
  "CBB_add_u32 env h v = cbb_add_u env h (ucast v) 4"

definition CBB_add_u32le :: "heap_env \<Rightarrow> nat \<Rightarrow> u32 \<Rightarrow> cbb_op" where
  "CBB_add_u32le env h v = CBB_add_u32 env h (CRYPTO_bswap4 v)"

definition CBB_add_u64 :: "heap_env \<Rightarrow> nat \<Rightarrow> u64 \<Rightarrow> cbb_op" where
  "CBB_add_u64 env h v = cbb_add_u env h v 8"

definition CBB_add_u64le :: "heap_env \<Rightarrow> nat \<Rightarrow> u64 \<Rightarrow> cbb_op" where
  "CBB_add_u64le env h v = CBB_add_u64 env h (CRYPTO_bswap8 v)"

definition CBB_discard_child :: "nat \<Rightarrow> cbb \<Rightarrow> cbb" where
  "CBB_discard_child h c =
     (if length (chain c) \<le> Suc h then c
      else \<lparr>base = (base c)\<lparr>blen := offset (chain c ! Suc h)\<rparr>, chain = take (Suc h) (chain c)\<rparr>)"

section \<open>ASN.1\<close>

function base128_len :: "u64 \<Rightarrow> nat" where
  "base128_len copy = (if copy > 0 then Suc (base128_len (drop_bit 7 copy)) else 0)"
  by pat_completeness auto
termination
  by (relation "measure unat") (auto simp: unat_drop word_less_nat_alt)

fun base128_loop :: "heap_env \<Rightarrow> nat \<Rightarrow> u64 \<Rightarrow> nat \<Rightarrow> cbb_op" where
  "base128_loop env h v 0 c = (True, c)"
| "base128_loop env h v (Suc i) c =
     (let b7 = ucast (drop_bit (7 * i) v) AND 0x7f;
          byte = (if i \<noteq> 0 then b7 OR 0x80 else b7) in
      cbb_then (CBB_add_u8 env h byte) (base128_loop env h v i) c)"

definition add_base128_integer :: "heap_env \<Rightarrow> nat \<Rightarrow> u64 \<Rightarrow> cbb_op" where
  "add_base128_integer env h v =
     (let len_len = base128_len v in base128_loop env h v (if len_len = 0 then 1 else len_len))"

definition CBB_add_asn1 :: "heap_env \<Rightarrow> nat \<Rightarrow> u32 \<Rightarrow> cbb_op" where
  "CBB_add_asn1 env h tag =
     (let tag_bits = ucast (drop_bit CBS_ASN1_TAG_SHIFT tag) AND 0xe0 :: u8;
          tag_number = tag AND CBS_ASN1_TAG_NUMBER_MASK in
      cbb_then (CBB_flush env h)
       (cbb_then
         (if tag_number \<ge> 0x1f
          then cbb_then (CBB_add_u8 env h (tag_bits OR 0x1f)) (add_base128_integer env h (ucast tag_number))
          else CBB_add_u8 env h (tag_bits OR ucast tag_number))
         (\<lambda>c. let off = blen (base c) in
            cbb_then (CBB_add_u8 env h 0)
              (open_child h \<lparr>offset = off, pending_len_len = 1, pending_is_asn1 = True\<rparr>) c)))"

fun asn1_uint64_bytes :: "heap_env \<Rightarrow> nat \<Rightarrow> u64 \<Rightarrow> nat \<Rightarrow> bool \<Rightarrow> cbb_op" where
  "asn1_uint64_bytes env h v 0 started c = (if started then (True, c) else CBB_add_u8 env h 0 c)"
| "asn1_uint64_bytes env h v (Suc i) started c =
     (let byte = ucast (drop_bit (8 * i) v) :: u8 in
      if \<not> started \<and> byte = 0 then asn1_uint64_bytes env h v i False c
      else
        cbb_then (if \<not> started \<and> byte AND 0x80 \<noteq> 0 then CBB_add_u8 env h 0 else (\<lambda>c. (True, c)))
         (cbb_then (CBB_add_u8 env h byte) (asn1_uint64_bytes env h v i True)) c)"

definition CBB_add_asn1_uint64 :: "heap_env \<Rightarrow> nat \<Rightarrow> u64 \<Rightarrow> cbb_op" where
  "CBB_add_asn1_uint64 env h v =
     cbb_then (CBB_add_asn1 env h CBS_ASN1_INTEGER)
      (cbb_then (asn1_uint64_bytes env (Suc h) v 8 False) (CBB_flush env h))"

text \<open>The octets of the union of \<open>CBB_add_asn1_int64\<close>, least significant first.\<close>

fun int64_start :: "bytes \<Rightarrow> nat \<Rightarrow> nat" where
  "int64_start u 0 = 0"
| "int64_start u (Suc s) =
     (if u ! Suc s = 0xff \<and> u ! s AND 0x80 \<noteq> 0 then int64_start u s else Suc s)"

fun add_bytes_down :: "heap_env \<Rightarrow> nat \<Rightarrow> bytes \<Rightarrow> nat \<Rightarrow> cbb_op" where
  "add_bytes_down env h u 0 c = (True, c)"
| "add_bytes_down env h u (Suc i) c = cbb_then (CBB_add_u8 env h (u ! i)) (add_bytes_down env h u i) c"

definition CBB_add_asn1_int64 :: "heap_env \<Rightarrow> nat \<Rightarrow> u64 \<Rightarrow> cbb_op" where
  "CBB_add_asn1_int64 env h v =
     (if sint v \<ge> 0 then CBB_add_asn1_uint64 env h v
      else
        let u = le_bytes 8 (unat v); start = int64_start u 7 in
        cbb_then (CBB_add_asn1 env h CBS_ASN1_INTEGER)
         (cbb_then (add_bytes_down env (Suc h) u (start + 1)) (CBB_flush env h)))"

definition CBB_add_asn1_octet_string :: "heap_env \<Rightarrow> nat \<Rightarrow> bytes \<Rightarrow> cbb_op" where
  "CBB_add_asn1_octet_string env h data =
     cbb_then (CBB_add_asn1 env h CBS_ASN1_OCTETSTRING)
      (cbb_then (CBB_add_bytes env (Suc h) data) (CBB_flush env h))"

definition CBB_add_asn1_bool :: "heap_env \<Rightarrow> nat \<Rightarrow> int \<Rightarrow> cbb_op" where
  "CBB_add_asn1_bool env h value =
     cbb_then (CBB_add_asn1 env h CBS_ASN1_BOOLEAN)
      (cbb_then (CBB_add_u8 env (Suc h) (if value \<noteq> 0 then 0xff else 0)) (CBB_flush env h))"

end
