(* ===== verification/CbbSpec.thy ===== *)
theory CbbSpec
  imports Cbb
begin

text \<open>
  What the byte builder promises, and that \<open>Cbb\<close> keeps it.  The abstract state of a family is
  a list of frames, one per open CBB: the width of its pending length, whether it is an ASN.1
  length, and the contents written so far.  Closing a frame puts the header in front of the
  contents.  Every operation either succeeds and does to the frames what its specification
  says, or fails and leaves the sticky \<open>error\<close> flag set; it fails only where memory or a
  length field is too small.
\<close>

section \<open>The buffer holds its contents\<close>

definition buf_ok :: "cbb_buffer \<Rightarrow> bool" where
  "buf_ok b \<longleftrightarrow> length (buf b) = cap b \<and> blen b \<le> cap b \<and> cap b < SIZE_LIMIT \<and>
     (can_resize b \<longrightarrow> cap b + 8 < SIZE_LIMIT) \<and> \<not> error b"

definition holds :: "cbb_buffer \<Rightarrow> bytes \<Rightarrow> bool" where
  "holds b x \<longleftrightarrow> buf_ok b \<and> blen b = length x \<and> take (blen b) (buf b) = x"

text \<open>Memory for \<open>m\<close> bytes in all: either the buffer is that large already, or it can grow.\<close>

definition roomy :: "heap_env \<Rightarrow> nat \<Rightarrow> cbb_buffer \<Rightarrow> bool" where
  "roomy env m b \<longleftrightarrow> m \<le> cap b \<or>
     can_resize b \<and> (\<forall>n. heap_ok env n) \<and> m \<le> 2 ^ 62 \<and> cap b \<le> 2 ^ 63"

lemma cbb_buffer_reserve_outcome:
  assumes b: "holds b x" and n: "length x + n \<le> m" "n < SIZE_LIMIT"
  shows "case cbb_buffer_reserve env b n of
     (True, b') \<Rightarrow> holds b' x \<and> length x + n \<le> cap b' \<and> (roomy env m b \<longrightarrow> roomy env m b')
   | (False, b') \<Rightarrow> error b' \<and> \<not> roomy env m b"
proof -
  have bl: "blen b = length x" "blen b \<le> cap b" "cap b < SIZE_LIMIT" "length (buf b) = cap b"
      "take (blen b) (buf b) = x" "\<not> error b"
    using b by (auto simp: holds_def buf_ok_def)
  have rm: "length x + n < SIZE_LIMIT" if "roomy env m b"
    using that n(1) bl(3) by (auto simp: roomy_def SIZE_LIMIT_def)
  show ?thesis
  proof (cases "szadd (blen b) n < blen b")
    case True
    then have "SIZE_LIMIT \<le> length x + n" using bl n(2) by (simp add: szadd_overflow_iff)
    with rm True show ?thesis by (auto simp: cbb_buffer_reserve_def Let_def)
  next
    case False
    then have lt: "length x + n < SIZE_LIMIT" using bl n(2) by (simp add: szadd_overflow_iff)
    then have new: "szadd (blen b) n = length x + n" using bl(1) by (simp add: szadd_exact)
    show ?thesis
    proof (cases "length x + n \<le> cap b")
      case True
      with b new bl show ?thesis by (simp add: cbb_buffer_reserve_def Let_def)
    next
      case grow: False
      show ?thesis
      proof (cases "can_resize b")
        case False
        with grow new n(1) show ?thesis by (auto simp: cbb_buffer_reserve_def Let_def bl(1) roomy_def)
      next
        case True
        define newcap where "newcap = (if szmul (cap b) 2 < cap b \<or> szmul (cap b) 2 < length x + n
          then length x + n else szmul (cap b) 2)"
        have nc: "newcap < SIZE_LIMIT" "length x + n \<le> newcap" "cap b \<le> newcap"
          using lt grow by (auto simp: newcap_def szmul_def)
        have eq: "cbb_buffer_reserve env b n = (case heap_resize env (buf b) newcap of
              None \<Rightarrow> (False, b\<lparr>error := True\<rparr>) | Some newbuf \<Rightarrow> (True, b\<lparr>buf := newbuf, cap := newcap\<rparr>))"
          using grow True new bl(1) by (auto simp: cbb_buffer_reserve_def Let_def newcap_def split: option.splits)
        have cap8: "cap b + 8 < SIZE_LIMIT" using b True by (simp add: holds_def buf_ok_def)
        have small: "newcap \<le> 2 ^ 63" if "roomy env m b"
        proof -
          have "length x + n \<le> 2 ^ 62" using that grow n(1) by (auto simp: roomy_def)
          then have "szmul (cap b) 2 = cap b * 2" using grow by (simp add: szmul_exact SIZE_LIMIT_def)
          with \<open>length x + n \<le> 2 ^ 62\<close> grow show ?thesis by (auto simp: newcap_def)
        qed
        show ?thesis
        proof (cases "heap_resize env (buf b) newcap")
          case None
          have "\<not> roomy env m b"
          proof
            assume r: "roomy env m b"
            then have "\<forall>n. heap_ok env n" using grow n(1) by (auto simp: roomy_def)
            moreover have "newcap + 8 < SIZE_LIMIT" using small [OF r] by (simp add: SIZE_LIMIT_def)
            ultimately show False using heap_resize_succeeds [of env newcap "buf b"] None by simp
          qed
          with None eq show ?thesis by simp
        next
          case (Some b')
          note h = heap_resize_Some [OF Some]
          have "length b' = newcap" "take (cap b) b' = buf b" "newcap + 8 < SIZE_LIMIT"
            using h cap8 nc bl(4) by auto
          moreover from this have "take (blen b) b' = x"
            using bl(2,5) by (metis min.absorb1 take_take)
          ultimately have "holds (b\<lparr>buf := b', cap := newcap\<rparr>) x"
            using bl nc by (auto simp: holds_def buf_ok_def)
          moreover have "roomy env m b \<longrightarrow> roomy env m (b\<lparr>buf := b', cap := newcap\<rparr>)"
            using small grow n(1) by (auto simp: roomy_def)
          ultimately show ?thesis using Some eq nc by simp
        qed
      qed
    qed
  qed
qed

lemma cbb_buffer_add_outcome:
  assumes b: "holds b x" and n: "length x + n \<le> m" "n < SIZE_LIMIT"
  shows "case cbb_buffer_add env b n of
     (True, b') \<Rightarrow> (\<exists>y. length y = n \<and> holds b' (x @ y)) \<and> (roomy env m b \<longrightarrow> roomy env m b')
   | (False, b') \<Rightarrow> error b' \<and> \<not> roomy env m b"
proof (cases "cbb_buffer_reserve env b n")
  case (Pair ok b')
  note o = cbb_buffer_reserve_outcome [OF assms, of env]
  show ?thesis
  proof (cases ok)
    case True
    then have h: "holds b' x" "length x + n \<le> cap b'" and r: "roomy env m b \<longrightarrow> roomy env m b'" using o Pair by auto
    let ?y = "take n (drop (length x) (buf b'))"
    have "holds (b'\<lparr>blen := blen b' + n\<rparr>) (x @ ?y)"
      using h by (auto simp: holds_def buf_ok_def take_add min_def)
    moreover have "length ?y = n" using h by (auto simp: holds_def buf_ok_def)
    ultimately show ?thesis
      using r True Pair by (auto simp: cbb_buffer_add_def roomy_def intro!: exI [of _ ?y])
  qed (use o Pair in \<open>auto simp: cbb_buffer_add_def\<close>)
qed

lemma mem_write_snoc:
  assumes "off + length bs < length m"
  shows "mem_write (m[off + length bs := b]) off bs = mem_write m off (bs @ [b])"
proof -
  have "drop (off + length bs) (m[off + length bs := b]) = b # drop (Suc (off + length bs)) m"
    using assms by (subst Cons_nth_drop_Suc [symmetric]) auto
  then show ?thesis by (simp add: mem_write_def)
qed

lemma store_be_eq:
  "off + n \<le> length m \<Longrightarrow> store_be n m off v = (mem_write m off (be_bytes n v), v div 256 ^ n)"
proof (induction n arbitrary: m v)
  case (Suc n)
  then show ?case
    using mem_write_snoc [of off "be_bytes n (v div 256)" m "word_of_nat v"] by (simp add: div_mult2_eq)
qed (simp add: mem_write_def)

lemma holds_write:
  assumes "holds b (x @ y @ z)" and "length y' = length y" and "k = length x"
  shows "holds (b\<lparr>buf := mem_write (buf b) k y'\<rparr>) (x @ y' @ z)"
proof -
  have "blen b = length (x @ y @ z)" "blen b \<le> length (buf b)" "take (blen b) (buf b) = x @ y @ z"
    using assms(1) by (auto simp: holds_def buf_ok_def)
  then obtain w where "buf b = (x @ y @ z) @ w" by (metis append_take_drop_id)
  then show ?thesis using assms by (auto simp: holds_def buf_ok_def mem_write_def)
qed


section \<open>Frames\<close>

type_synonym frame = "nat \<times> bool \<times> bytes"

definition hdr :: "nat \<Rightarrow> bool \<Rightarrow> nat \<Rightarrow> bytes" where
  "hdr n a len = (if a then der_len len else be_bytes n len)"

definition fits :: "nat \<Rightarrow> bool \<Rightarrow> nat \<Rightarrow> bool" where
  "fits n a len \<longleftrightarrow> (if a then len \<le> 0xfffffffe else len < 256 ^ n)"

fun closed :: "frame list \<Rightarrow> bytes" where
  "closed [] = []"
| "closed ((n, a, c) # fs) = (let body = c @ closed fs in hdr n a (length body) @ body)"

fun all_fit :: "frame list \<Rightarrow> bool" where
  "all_fit [] = True"
| "all_fit ((n, a, c) # fs) \<longleftrightarrow> all_fit fs \<and> fits n a (length (c @ closed fs))"

definition flat :: "frame list \<Rightarrow> bytes" where
  "flat fs = concat (map (\<lambda>(n, a, c). replicate n 0 @ c) fs)"

fun nodes :: "nat \<Rightarrow> frame list \<Rightarrow> cbb_node list" where
  "nodes off [] = []"
| "nodes off ((n, a, c) # fs) =
     \<lparr>offset = off, pending_len_len = n, pending_is_asn1 = a\<rparr> # nodes (off + n + length c) fs"

definition child_ok :: "frame \<Rightarrow> bool" where
  "child_ok f = (case f of (n, a, c) \<Rightarrow> 1 \<le> n \<and> n \<le> 3 \<and> (a \<longrightarrow> n = 1))"

lemma flat_simps [simp]:
  "flat [] = []" "flat ((n, a, c) # fs) = replicate n 0 @ c @ flat fs" "flat (fs @ gs) = flat fs @ flat gs"
  by (simp_all add: flat_def)

lemma nodes_append: "nodes off (fs @ gs) = nodes off fs @ nodes (off + length (flat fs)) gs"
  by (induction fs arbitrary: off) (auto simp: add.assoc)

lemma length_nodes [simp]: "length (nodes off fs) = length fs"
  by (induction fs arbitrary: off) auto

lemma length_hdr: "child_ok (n, a, c) \<Longrightarrow> n \<le> length (hdr n a len)"
  by (auto simp: hdr_def child_ok_def der_len_def Let_def)

lemma length_flat_closed: "\<forall>f\<in>set fs. child_ok f \<Longrightarrow> length (flat fs) \<le> length (closed fs)"
proof (induction fs rule: closed.induct)
  case (2 n a c fs)
  then show ?case using length_hdr [of n a c "length (c @ closed fs)"] by (auto simp: Let_def)
qed simp

lemma roomy_buf [simp]:
  "roomy env m (b\<lparr>buf := x\<rparr>) = roomy env m b" "roomy env m (b\<lparr>error := e\<rparr>) = roomy env m b"
  by (simp_all add: roomy_def)

lemma holds_set_byte:
  "holds b (x @ [y] @ z) \<Longrightarrow> holds (b\<lparr>buf := (buf b)[length x := y']\<rparr>) (x @ [y'] @ z)"
proof -
  assume h: "holds b (x @ [y] @ z)"
  then have "length x < length (buf b)" by (auto simp: holds_def buf_ok_def)
  then have "(buf b)[length x := y'] = mem_write (buf b) (length x) [y']"
    by (simp add: mem_write_def upd_conv_take_nth_drop)
  with holds_write [OF h, of "[y']" "length x"] show ?thesis by simp
qed

lemma holds_take_drop:
  assumes "holds b (x @ y @ z)" "k = length x" "n = length y"
  shows "take n (drop k (buf b)) = y"
proof -
  have "take (length (x @ y @ z)) (buf b) = x @ y @ z" using assms(1) by (auto simp: holds_def)
  then obtain w where "buf b = (x @ y @ z) @ w" by (metis append_take_drop_id)
  then show ?thesis using assms by simp
qed

text \<open>Writing an ASN.1 length longer than one byte: the contents move up, then the length goes in.\<close>

lemma holds_insert_length:
  fixes byte :: u8
  assumes h: "holds b (x @ [z] @ body @ y)" and y: "length y = k" and st: "st = length x + 1"
  defines "b1 \<equiv> b\<lparr>buf := mem_write (buf b) (st + k) (take (length body) (drop st (buf b)))\<rparr>"
  defines "m \<equiv> (buf b1)[length x := byte]"
  shows "store_be k m (length x + 1) len = (mem_write m (length x + 1) (be_bytes k len), len div 256 ^ k)"
    and "holds (b1\<lparr>buf := mem_write m (length x + 1) (be_bytes k len)\<rparr>) (x @ (byte # be_bytes k len) @ body)"
proof -
  define p where "p = take k (body @ y)"
  define q where "q = drop k (body @ y)"
  have pq: "body @ y = p @ q" unfolding p_def q_def by (rule append_take_drop_id [symmetric])
  have len: "length p = k" "length q = length body" using y by (simp_all add: p_def q_def)
  note pq = pq len
  have "take (length body) (drop st (buf b)) = body"
    using h by (intro holds_take_drop [of b "x @ [z]" body y]) (auto simp: st)
  moreover have "holds b ((x @ [z] @ p) @ q @ [])" using h pq(1) by simp
  ultimately have "holds b1 ((x @ [z] @ p) @ body @ [])"
    using holds_write [of b "x @ [z] @ p" q "[]" body "st + k"] pq by (simp add: b1_def st)
  then have m: "holds (b1\<lparr>buf := m\<rparr>) ((x @ [byte]) @ p @ body)"
    using holds_set_byte [of b1 x z "p @ body" byte] by (simp add: m_def)
  then show "holds (b1\<lparr>buf := mem_write m (length x + 1) (be_bytes k len)\<rparr>) (x @ (byte # be_bytes k len) @ body)"
    using holds_write [OF m, of "be_bytes k len" "length x + 1"] pq by simp
  have "length x + 1 + k \<le> length m" using m pq by (auto simp: holds_def buf_ok_def)
  then show "store_be k m (length x + 1) len = (mem_write m (length x + 1) (be_bytes k len), len div 256 ^ k)"
    by (rule store_be_eq)
qed


definition flushed :: "heap_env \<Rightarrow> nat \<Rightarrow> cbb_buffer \<Rightarrow> bytes \<Rightarrow> frame list \<Rightarrow> bool \<times> cbb_buffer \<times> cbb_node list \<Rightarrow> bool" where
  "flushed env m b x fs res \<longleftrightarrow>
     (case res of (ok, b', cs) \<Rightarrow>
        if ok then cs = [] \<and> holds b' (x @ closed fs) \<and> all_fit fs \<and> (roomy env m b \<longrightarrow> roomy env m b')
        else error b' \<and> \<not> (roomy env m b \<and> all_fit fs))"

lemma flush_short_step:
  assumes h: "holds b (x @ replicate n 0 @ body)" and n: "n \<le> 3"
  shows "store_be n (buf b) (length x) len = (mem_write (buf b) (length x) (be_bytes n len), len div 256 ^ n)"
    and "holds (b\<lparr>buf := mem_write (buf b) (length x) (be_bytes n len)\<rparr>) (x @ be_bytes n len @ body)"
proof -
  have "length x + n \<le> length (buf b)" using h by (auto simp: holds_def buf_ok_def)
  then show "store_be n (buf b) (length x) len = (mem_write (buf b) (length x) (be_bytes n len), len div 256 ^ n)"
    by (rule store_be_eq)
  show "holds (b\<lparr>buf := mem_write (buf b) (length x) (be_bytes n len)\<rparr>) (x @ be_bytes n len @ body)"
    by (rule holds_write [OF h]) simp_all
qed

lemma der_len_octets:
  assumes "k = 1 \<and> 0x7f < n \<and> n \<le> 0xff \<or> k = 2 \<and> 0xff < n \<and> n \<le> 0xffff \<or>
      k = 3 \<and> 0xffff < n \<and> n \<le> 0xffffff \<or> k = 4 \<and> 0xffffff < n \<and> n \<le> 0xfffffffe"
  shows "der_len n = word_of_nat (128 + k) # be_bytes k n" and "n div 256 ^ k = 0"
  using assms by (auto simp: der_len_def Let_def)

lemma asn1_len_form_long:
  assumes "k = 1 \<and> 0x7f < n \<and> n \<le> 0xff \<or> k = 2 \<and> 0xff < n \<and> n \<le> 0xffff \<or>
      k = 3 \<and> 0xffff < n \<and> n \<le> 0xffffff \<or> k = 4 \<and> 0xffffff < n \<and> n \<le> 0xfffffffe"
  shows "asn1_len_form n = (k + 1, word_of_nat (128 + k), n)"
  using assms by (auto simp: asn1_len_form_def)

lemma flush_asn1_step:
  assumes h: "holds b (x @ [0] @ body)" and m: "length (x @ hdr 1 True (length body) @ body) \<le> m"
    and off: "offset child = length x" and st: "st = length x + 1"
  shows "flushed env m b x [(1, True, body)] (cbb_write_asn1_length env b child cs st (length body))"
proof -
  let ?n = "length body"
  have "0xfffffffe < ?n \<or> ?n \<le> 0x7f \<or> (0x7f < ?n \<and> ?n \<le> 0xff) \<or> (0xff < ?n \<and> ?n \<le> 0xffff) \<or>
      (0xffff < ?n \<and> ?n \<le> 0xffffff) \<or> (0xffffff < ?n \<and> ?n \<le> 0xfffffffe)"
    by linarith
  then consider (huge) "0xfffffffe < ?n" | (short) "?n \<le> 0x7f"
    | (long) k :: nat where "k = 1 \<and> 0x7f < ?n \<and> ?n \<le> 0xff \<or> k = 2 \<and> 0xff < ?n \<and> ?n \<le> 0xffff \<or>
      k = 3 \<and> 0xffff < ?n \<and> ?n \<le> 0xffffff \<or> k = 4 \<and> 0xffffff < ?n \<and> ?n \<le> 0xfffffffe"
    by metis
  then show ?thesis
  proof cases
    case huge
    then show ?thesis by (simp add: flushed_def fits_def cbb_write_asn1_length_def)
  next
    case short
    then have "der_len ?n = [word_of_nat ?n]" "asn1_len_form ?n = (1, word_of_nat ?n, 0)"
      by (simp_all add: der_len_def asn1_len_form_def)
    with short holds_set_byte [OF h, of "word_of_nat ?n"] show ?thesis
      by (simp add: flushed_def fits_def off hdr_def cbb_write_asn1_length_def cbb_make_space_def cbb_write_pending_def)
  next
    case (long k)
    note dl = der_len_octets [OF long] and form = asn1_len_form_long [OF long]
    have k: "k < SIZE_LIMIT" "k \<noteq> 0" "\<not> 0xfffffffe < ?n" using long by (auto simp: SIZE_LIMIT_def)
    have "length (x @ [0] @ body) + k \<le> m" using m by (simp add: dl hdr_def)
    note o = cbb_buffer_add_outcome [OF h this k(1), of env]
    show ?thesis
    proof (cases "cbb_buffer_add env b k")
      case (Pair ok b2)
      show ?thesis
      proof (cases ok)
        case True
        with o Pair obtain y where y: "length y = k" "holds b2 (x @ [0] @ body @ y)" by auto
        note i = holds_insert_length [OF y(2,1) st, of "word_of_nat (128 + k)" ?n]
        show ?thesis using o True Pair i dl k(2,3)
          by (simp add: flushed_def fits_def cbb_write_asn1_length_def form cbb_make_space_def cbb_write_pending_def hdr_def off)
      qed (use o Pair k(2,3) in \<open>simp add: flushed_def cbb_write_asn1_length_def form cbb_make_space_def\<close>)
    qed
  qed
qed

lemma flush_fixed_step:
  assumes h: "holds b (x @ replicate n 0 @ body)" and n: "n \<le> 3"
    and off: "offset child = length x" "pending_len_len child = n"
  shows "flushed env m b x [(n, False, body)] (cbb_write_pending b child cs (length body))"
proof -
  note s = flush_short_step [OF h n, of "length body"]
  show ?thesis
    by (auto simp: flushed_def cbb_write_pending_def off s fits_def hdr_def div_eq_0_iff)
qed


lemma holds_not_error: "holds b x \<Longrightarrow> \<not> error b"
  by (simp add: holds_def buf_ok_def)

text \<open>\<open>CBB_flush\<close> closes the open frames from the inside out.\<close>

lemma cbb_flush_chain_flushed:
  assumes "holds b (x @ flat fs)" and "\<forall>f\<in>set fs. child_ok f" and "length (x @ closed fs) \<le> m"
  shows "flushed env m b x fs (cbb_flush_chain env b (nodes (length x) fs))"
  using assms
proof (induction fs arbitrary: b x rule: closed.induct)
  case 1
  then show ?case by (simp add: flushed_def holds_not_error)
next
  case (2 n a c fs)
  let ?body = "c @ closed fs" and ?x = "x @ replicate n 0 @ c"
  let ?child = "\<lparr>offset = length x, pending_len_len = n, pending_is_asn1 = a\<rparr>"
  have n: "1 \<le> n" "n \<le> 3" "a \<Longrightarrow> n = 1" using "2.prems"(2) by (auto simp: child_ok_def)
  have h0: "holds b (?x @ flat fs)" using "2.prems"(1) by simp
  have hd: "n \<le> length (hdr n a (length ?body))" using "2.prems"(2) by (intro length_hdr [of n a c]) simp
  have m: "length (x @ hdr n a (length ?body) @ ?body) \<le> m" using "2.prems"(3) by (simp add: Let_def)
  then have "length (?x @ closed fs) \<le> m" using hd by simp
  then have IH: "flushed env m b ?x fs (cbb_flush_chain env b (nodes (length x + n + length c) fs))"
    using "2.IH" [OF h0] "2.prems"(2) by (simp add: add.assoc)
  obtain ok b1 cs where r: "cbb_flush_chain env b (nodes (length x + n + length c) fs) = (ok, b1, cs)"
    by (metis prod_cases3)
  have ne: "\<not> error b" "n \<noteq> 0" using h0 n by (auto simp: holds_not_error)
  have lim: "length x + n < SIZE_LIMIT" using h0 by (auto simp: holds_def buf_ok_def)
  show ?case
  proof (cases ok)
    case False
    with IH r ne show ?thesis by (auto simp: flushed_def Let_def)
  next
    case True
    with IH r have h1: "holds b1 (x @ replicate n 0 @ ?body)" and rm: "all_fit fs" "roomy env m b \<longrightarrow> roomy env m b1" and "cs = []"
      by (auto simp: flushed_def)
    have bl: "blen b1 = length x + n + length ?body" using h1 by (simp add: holds_def)
    have eq: "cbb_flush_chain env b (nodes (length x) ((n, a, c) # fs)) =
       (if a then cbb_write_asn1_length env b1 ?child cs (length x + n) (length ?body)
        else cbb_write_pending b1 ?child cs (length ?body))"
      using ne r True lim by (simp add: Let_def szadd_exact bl)
    have step: "flushed env m b1 x [(n, a, ?body)] (cbb_flush_chain env b (nodes (length x) ((n, a, c) # fs)))"
    proof (cases a)
      case True
      then have "n = 1" using n by simp
      then show ?thesis using flush_asn1_step [of b1 x ?body m ?child] h1 m True unfolding eq by simp
    next
      case False
      then show ?thesis using flush_fixed_step [OF h1 n(2), of ?child] unfolding eq by simp
    qed
    then show ?thesis using rm by (auto simp: flushed_def Let_def split: prod.splits if_splits)
  qed
qed

section \<open>Families of CBBs\<close>

definition root_ok :: "frame list \<Rightarrow> bool" where
  "root_ok fs \<longleftrightarrow>
     (case map (\<lambda>(n, a, c). (n, a, [])) fs of
        [] \<Rightarrow> False
      | (n, a, c) # gs \<Rightarrow> n = 0 \<and> \<not> a \<and> (\<forall>f\<in>set gs. child_ok f))"

definition represents :: "cbb \<Rightarrow> frame list \<Rightarrow> bool" where
  "represents c fs \<longleftrightarrow> holds (base c) (flat fs) \<and> chain c = nodes 0 fs \<and> root_ok fs"

definition app :: "bytes \<Rightarrow> frame list \<Rightarrow> frame list" where
  "app d fs = (case last fs of (n, a, c) \<Rightarrow> butlast fs @ [(n, a, c @ d)])"

definition close_at :: "nat \<Rightarrow> frame list \<Rightarrow> frame list" where
  "close_at h fs = app (closed (drop (Suc h) fs)) (take (Suc h) fs)"

lemma app_snoc [simp]: "app d (fs @ [(n, a, c)]) = fs @ [(n, a, c @ d)]"
  by (simp add: app_def)

lemma flat_app [simp]: "fs \<noteq> [] \<Longrightarrow> flat (app d fs) = flat fs @ d"
  by (cases fs rule: rev_cases) auto

lemma nodes_app [simp]: "fs \<noteq> [] \<Longrightarrow> nodes off (app d fs) = nodes off fs"
  by (cases fs rule: rev_cases) (auto simp: nodes_append)

lemma length_app [simp]: "fs \<noteq> [] \<Longrightarrow> length (app d fs) = length fs"
  by (cases fs rule: rev_cases) auto

lemma app_not_Nil [simp]: "app d fs \<noteq> []"
  by (auto simp: app_def split: prod.splits)

lemma app_Nil [simp]: "fs \<noteq> [] \<Longrightarrow> app [] fs = fs"
  by (cases fs rule: rev_cases) auto

lemma app_app [simp]: "fs \<noteq> [] \<Longrightarrow> app e (app d fs) = app (d @ e) fs"
  by (cases fs rule: rev_cases) auto

lemma root_ok_app [simp]: "fs \<noteq> [] \<Longrightarrow> root_ok (app d fs) = root_ok fs"
proof (cases fs rule: rev_cases)
  case (snoc gs f)
  then show ?thesis by (cases f) (simp add: root_ok_def)
qed simp

lemma root_ok_take: "root_ok fs \<Longrightarrow> root_ok (take (Suc h) fs)"
  by (cases fs) (auto simp: root_ok_def dest: in_set_takeD)

lemma root_ok_not_Nil: "root_ok fs \<Longrightarrow> fs \<noteq> []"
  by (auto simp: root_ok_def)

lemma root_ok_drop: "root_ok fs \<Longrightarrow> \<forall>f\<in>set (drop (Suc h) fs). child_ok f"
  by (cases fs) (auto simp: root_ok_def child_ok_def dest: in_set_dropD split: prod.splits)

lemma take_Suc_not_Nil: "h < length fs \<Longrightarrow> take (Suc h) fs \<noteq> []"
  by auto

lemma close_at_closed: "length fs = Suc h \<Longrightarrow> close_at h fs = fs"
  using app_Nil [of fs] by (cases "fs = []") (auto simp: close_at_def)

lemma close_at_open:
  "length fs = Suc h \<Longrightarrow> close_at h (fs @ [(n, a, c)]) = app (hdr n a (length c) @ c) fs"
  by (simp add: close_at_def)

lemma length_close_at [simp]: "h < length fs \<Longrightarrow> length (close_at h fs) = Suc h"
  using length_app [OF take_Suc_not_Nil] by (simp add: close_at_def)

lemma flat_close_at: "h < length fs \<Longrightarrow> flat (close_at h fs) = flat (take (Suc h) fs) @ closed (drop (Suc h) fs)"
  using flat_app [OF take_Suc_not_Nil] by (simp add: close_at_def)

section \<open>Operations refine their specifications\<close>

text \<open>\<open>refines env m h op good f\<close>: on a family that represents frames with a CBB at \<open>h\<close>, \<open>op\<close> does
  \<open>f\<close>; it can fail only if there is no room for \<open>m\<close> bytes or the frames are not \<open>good\<close>, and
  then the error is recorded.\<close>

definition refines :: "heap_env \<Rightarrow> nat \<Rightarrow> nat \<Rightarrow> cbb_op \<Rightarrow> (frame list \<Rightarrow> bool) \<Rightarrow> (frame list \<Rightarrow> frame list) \<Rightarrow> bool" where
  "refines env m h op good f \<longleftrightarrow>
     (\<forall>c fs. represents c fs \<and> h < length fs \<and> length (flat (f fs)) \<le> m \<longrightarrow>
        (case op c of
           (True, c') \<Rightarrow> represents c' (f fs) \<and> good fs \<and> (roomy env m (base c) \<longrightarrow> roomy env m (base c'))
         | (False, c') \<Rightarrow> error (base c') \<and> \<not> (roomy env m (base c) \<and> good fs)))"

definition closable :: "nat \<Rightarrow> frame list \<Rightarrow> bool" where
  "closable h fs \<longleftrightarrow> all_fit (drop (Suc h) fs)"

lemma refines_flush: "refines env m h (CBB_flush env h) (closable h) (close_at h)"
  unfolding refines_def
proof (intro allI impI, elim conjE)
  fix c fs assume rep: "represents c fs" and h: "h < length fs" and m: "length (flat (close_at h fs)) \<le> m"
  let ?a = "take (Suc h) fs" and ?z = "drop (Suc h) fs"
  have fl: "flat fs = flat ?a @ flat ?z" by (metis append_take_drop_id flat_simps(3))
  have ch: "chain c = nodes 0 ?a @ nodes (length (flat ?a)) ?z"
    using rep nodes_append [of 0 ?a ?z] by (simp add: represents_def)
  have len: "length (nodes 0 ?a) = Suc h" using h by simp
  have "flushed env m (base c) (flat ?a) ?z (cbb_flush_chain env (base c) (nodes (length (flat ?a)) ?z))"
    using rep m root_ok_drop [of fs h] by (intro cbb_flush_chain_flushed) (auto simp: represents_def fl flat_close_at [OF h])
  moreover have "root_ok (close_at h fs)" "nodes 0 (close_at h fs) = nodes 0 ?a"
    using rep take_Suc_not_Nil [OF h] root_ok_take [of fs h] by (auto simp: represents_def close_at_def)
  ultimately show "case CBB_flush env h c of
        (True, c') \<Rightarrow> represents c' (close_at h fs) \<and> closable h fs \<and> (roomy env m (base c) \<longrightarrow> roomy env m (base c'))
      | (False, c') \<Rightarrow> error (base c') \<and> \<not> (roomy env m (base c) \<and> closable h fs)"
    using h len ch
    by (auto simp: CBB_flush_def flushed_def represents_def closable_def flat_close_at split: prod.splits if_splits bool.splits)
qed

lemma refines_then:
  assumes f: "refines env m h op1 good1 f1" and g: "refines env m k op2 good2 f2"
    and len: "\<And>fs. h < length fs \<Longrightarrow> k < length (f1 fs)"
    and mono: "\<And>fs. h < length fs \<Longrightarrow> root_ok fs \<Longrightarrow> length (flat (f1 fs)) \<le> length (flat (f2 (f1 fs)))"
  shows "refines env m h (cbb_then op1 op2) (\<lambda>fs. good1 fs \<and> good2 (f1 fs)) (\<lambda>fs. f2 (f1 fs))"
  unfolding refines_def
proof (intro allI impI, elim conjE)
  fix c fs assume rep: "represents c fs" and h: "h < length fs" and m: "length (flat (f2 (f1 fs))) \<le> m"
  then have m1: "length (flat (f1 fs)) \<le> m" using mono [OF h] rep by (simp add: represents_def)
  note o1 = f [unfolded refines_def, rule_format, of c fs]
  show "case cbb_then op1 op2 c of
        (True, c') \<Rightarrow> represents c' (f2 (f1 fs)) \<and> (good1 fs \<and> good2 (f1 fs)) \<and> (roomy env m (base c) \<longrightarrow> roomy env m (base c'))
      | (False, c') \<Rightarrow> error (base c') \<and> \<not> (roomy env m (base c) \<and> good1 fs \<and> good2 (f1 fs))"
  proof (cases "op1 c")
    case (Pair ok c1)
    show ?thesis
    proof (cases ok)
      case True
      with Pair o1 rep h m1 have r: "represents c1 (f1 fs)" "good1 fs" "roomy env m (base c) \<longrightarrow> roomy env m (base c1)" by auto
      with g [unfolded refines_def, rule_format, of c1 "f1 fs"] len [OF h] m
      show ?thesis using True Pair by (auto simp: cbb_then_def split: prod.splits bool.splits)
    qed (use Pair o1 rep h m1 in \<open>auto simp: cbb_then_def\<close>)
  qed
qed


lemma refines_flush_then:
  assumes G: "\<And>c fs. \<lbrakk> represents c fs; length fs = Suc h; length (flat (f fs)) \<le> m \<rbrakk> \<Longrightarrow>
      case G c of
        (True, c') \<Rightarrow> represents c' (f fs) \<and> good \<and> (roomy env m (base c) \<longrightarrow> roomy env m (base c'))
      | (False, c') \<Rightarrow> error (base c') \<and> \<not> (roomy env m (base c) \<and> good)"
    and mono: "\<And>fs. length fs = Suc h \<Longrightarrow> length (flat fs) \<le> length (flat (f fs))"
  shows "refines env m h (cbb_then (CBB_flush env h) G) (\<lambda>fs. closable h fs \<and> good) (\<lambda>fs. f (close_at h fs))"
  unfolding refines_def
proof (intro allI impI, elim conjE)
  fix c fs assume rep: "represents c fs" and h: "h < length fs" and m: "length (flat (f (close_at h fs))) \<le> m"
  note len = length_close_at [OF h]
  have m1: "length (flat (close_at h fs)) \<le> m" using mono [OF len] m by simp
  note o1 = refines_flush [of env m h, unfolded refines_def, rule_format, of c fs]
  show "case cbb_then (CBB_flush env h) G c of
        (True, c') \<Rightarrow> represents c' (f (close_at h fs)) \<and> (closable h fs \<and> good) \<and> (roomy env m (base c) \<longrightarrow> roomy env m (base c'))
      | (False, c') \<Rightarrow> error (base c') \<and> \<not> (roomy env m (base c) \<and> closable h fs \<and> good)"
  proof (cases "CBB_flush env h c")
    case (Pair ok c1)
    show ?thesis
    proof (cases ok)
      case True
      with Pair o1 rep h m1 have r: "represents c1 (close_at h fs)" "closable h fs" "roomy env m (base c) \<longrightarrow> roomy env m (base c1)" by auto
      with G [OF r(1) len m] show ?thesis using True Pair by (auto simp: cbb_then_def split: prod.splits bool.splits)
    qed (use Pair o1 rep h m1 in \<open>auto simp: cbb_then_def\<close>)
  qed
qed

lemma represents_app:
  "represents c fs \<Longrightarrow> holds b (flat fs @ d) \<Longrightarrow> represents (c\<lparr>base := b\<rparr>) (app d fs)"
  using root_ok_not_Nil [of fs] by (simp add: represents_def)

lemma represents_open:
  assumes "represents c fs" "holds b (flat fs @ replicate n 0)" "child_ok (n, a, [])" "length fs = Suc h"
  shows "represents (c\<lparr>base := b, chain := take (Suc h) (chain c) @
      [\<lparr>offset = length (flat fs), pending_len_len = n, pending_is_asn1 = a\<rparr>]\<rparr>) (fs @ [(n, a, [])])"
proof -
  have "root_ok (fs @ [(n, a, [])])"
    using assms(1,3) by (cases fs) (auto simp: represents_def root_ok_def)
  then show ?thesis using assms by (simp add: represents_def nodes_append)
qed

lemma refines_add_bytes:
  assumes "length data < SIZE_LIMIT"
  shows "refines env m h (CBB_add_bytes env h data) (closable h) (\<lambda>fs. app data (close_at h fs))"
proof -
  have "refines env m h (CBB_add_bytes env h data) (\<lambda>fs. closable h fs \<and> True) (\<lambda>fs. app data (close_at h fs))"
    unfolding CBB_add_bytes_def
  proof (rule refines_flush_then)
    fix c fs assume rep: "represents c fs" and len: "length fs = Suc h" and m: "length (flat (app data fs)) \<le> m"
    have ne: "fs \<noteq> []" using len by auto
    have h: "holds (base c) (flat fs)" using rep by (simp add: represents_def)
    have "length (flat fs) + length data \<le> m" using m ne by simp
    note o = cbb_buffer_add_outcome [OF h this assms, of env]
    have off: "blen (base c) = length (flat fs)" using h by (simp add: holds_def)
    show "case let off = blen (base c) in
         cbb_then (on_base (\<lambda>b. cbb_buffer_add env b (length data)))
          (\<lambda>c. (True, c\<lparr>base := (base c)\<lparr>buf := mem_write (buf (base c)) off data\<rparr>\<rparr>)) c of
        (True, c') \<Rightarrow> represents c' (app data fs) \<and> True \<and> (roomy env m (base c) \<longrightarrow> roomy env m (base c'))
      | (False, c') \<Rightarrow> error (base c') \<and> \<not> (roomy env m (base c) \<and> True)"
    proof (cases "cbb_buffer_add env (base c) (length data)")
      case (Pair ok b)
      show ?thesis
      proof (cases ok)
        case True
        with o Pair obtain y where y: "length y = length data" "holds b (flat fs @ y @ [])"
          and r: "roomy env m (base c) \<longrightarrow> roomy env m b" by auto
        have "holds (b\<lparr>buf := mem_write (buf b) (length (flat fs)) data\<rparr>) (flat fs @ data)"
          using holds_write [OF y(2), of data] y(1) by simp
        from represents_app [OF rep this] show ?thesis
          using True Pair r by (simp add: cbb_then_def on_base_def off)
      qed (use o Pair in \<open>simp add: cbb_then_def on_base_def\<close>)
    qed
  next
    show "length (flat fs) \<le> length (flat (app data fs))" if "length fs = Suc h" for fs
      using that by (cases fs rule: rev_cases) auto
  qed
  then show ?thesis by simp
qed

lemma refines_add_u:
  assumes n: "0 < n" "n \<le> 8"
  shows "refines env m h (cbb_add_u env h v n) (\<lambda>fs. closable h fs \<and> unat v < 256 ^ n) (\<lambda>fs. app (be_bytes n (unat v)) (close_at h fs))"
  unfolding cbb_add_u_def
proof (rule refines_flush_then)
  fix c fs assume rep: "represents c fs" and len: "length fs = Suc h" and m: "length (flat (app (be_bytes n (unat v)) fs)) \<le> m"
  have ne: "fs \<noteq> []" using len by auto
  have h: "holds (base c) (flat fs)" using rep by (simp add: represents_def)
  have "length (flat fs) + n \<le> m" "n < SIZE_LIMIT" using m ne n by (auto simp: SIZE_LIMIT_def)
  note o = cbb_buffer_add_outcome [OF h this, of env]
  have off: "blen (base c) = length (flat fs)" using h by (simp add: holds_def)
  show "case on_base (\<lambda>b. cbb_buffer_add_u env b v n) c of
      (True, c') \<Rightarrow> represents c' (app (be_bytes n (unat v)) fs) \<and> unat v < 256 ^ n \<and> (roomy env m (base c) \<longrightarrow> roomy env m (base c'))
    | (False, c') \<Rightarrow> error (base c') \<and> \<not> (roomy env m (base c) \<and> unat v < 256 ^ n)"
  proof (cases "cbb_buffer_add env (base c) n")
    case (Pair ok b)
    show ?thesis
    proof (cases ok)
      case True
      with o Pair obtain y where y: "length y = n" "holds b (flat fs @ y @ [])"
        and r: "roomy env m (base c) \<longrightarrow> roomy env m b" by auto
      let ?m = "mem_write (buf b) (length (flat fs)) (be_bytes n (unat v))"
      have w: "holds (b\<lparr>buf := ?m\<rparr>) (flat fs @ be_bytes n (unat v))"
        using holds_write [OF y(2), of "be_bytes n (unat v)"] y(1) by simp
      have "length (flat fs) + n \<le> length (buf b)" using y by (auto simp: holds_def buf_ok_def)
      then have "store_be n (buf b) (length (flat fs)) (unat v) = (?m, unat v div 256 ^ n)"
        by (rule store_be_eq)
      with represents_app [OF rep w] show ?thesis
        using True Pair r n by (auto simp: on_base_def off cbb_buffer_add_u_def Let_def div_eq_0_iff)
    qed (use o Pair n in \<open>simp add: on_base_def cbb_buffer_add_u_def Let_def\<close>)
  qed
next
  show "length (flat fs) \<le> length (flat (app (be_bytes n (unat v)) fs))" if "length fs = Suc h" for fs
    using that by (cases fs rule: rev_cases) auto
qed


lemma refines_weaken:
  assumes "refines env m h op good f"
    and "\<And>fs. h < length fs \<Longrightarrow> good' fs \<longleftrightarrow> good fs" and "\<And>fs. h < length fs \<Longrightarrow> f' fs = f fs"
  shows "refines env m h op good' f'"
  using assms by (auto simp: refines_def split: prod.splits bool.splits) metis+

text \<open>Two common shapes: an operation that closes the children of \<open>h\<close> and appends \<open>d\<close>, and one
  that in addition opens a new child.\<close>

definition adds :: "heap_env \<Rightarrow> nat \<Rightarrow> nat \<Rightarrow> cbb_op \<Rightarrow> bool \<Rightarrow> bytes \<Rightarrow> bool" where
  "adds env m h op good d \<longleftrightarrow> refines env m h op (\<lambda>fs. closable h fs \<and> good) (\<lambda>fs. app d (close_at h fs))"

definition opens :: "heap_env \<Rightarrow> nat \<Rightarrow> nat \<Rightarrow> cbb_op \<Rightarrow> bytes \<Rightarrow> nat \<Rightarrow> bool \<Rightarrow> bool" where
  "opens env m h op d n a \<longleftrightarrow> refines env m h op (closable h) (\<lambda>fs. app d (close_at h fs) @ [(n, a, [])])"

lemma close_at_app_close_at [simp]: "h < length fs \<Longrightarrow> close_at h (app d (close_at h fs)) = app d (close_at h fs)"
  using length_close_at [of h fs] by (intro close_at_closed) (metis length_app list.size(3) nat.simps(3))

lemma closable_closed: "length fs = Suc h \<Longrightarrow> closable h fs"
  by (simp add: closable_def)

lemma closable_app_close_at [simp]: "h < length fs \<Longrightarrow> closable h (app d (close_at h fs))"
  using length_app [of "close_at h fs" d] by (intro closable_closed) (metis length_close_at list.size(3) nat.distinct(1))

lemma close_at_not_Nil: "h < length fs \<Longrightarrow> close_at h fs \<noteq> []"
  using length_close_at [of h fs] by (metis list.size(3) nat.distinct(1))

lemma length_app_close_at [simp]: "h < length fs \<Longrightarrow> length (app d (close_at h fs)) = Suc h"
  using length_close_at [of h fs] close_at_not_Nil [of h fs] by simp

lemma flat_app_close_at [simp]: "h < length fs \<Longrightarrow> flat (app d (close_at h fs)) = flat (close_at h fs) @ d"
  using close_at_not_Nil by simp

lemma adds_then:
  assumes "adds env m h op1 g1 d1" and "adds env m h op2 g2 d2"
  shows "adds env m h (cbb_then op1 op2) (g1 \<and> g2) (d1 @ d2)"
  unfolding adds_def
  by (rule refines_weaken [OF refines_then [OF assms [unfolded adds_def]]])
    (auto simp: closable_closed close_at_not_Nil)

lemma opens_then:
  assumes "adds env m h op1 True d1" and "opens env m h op2 d2 n a"
  shows "opens env m h (cbb_then op1 op2) (d1 @ d2) n a"
  unfolding opens_def
  by (rule refines_weaken [OF refines_then [OF assms [unfolded adds_def opens_def]]])
    (auto simp: closable_closed close_at_not_Nil)

text \<open>A child opened, filled and closed again.\<close>

lemma adds_element:
  assumes "opens env m h op1 d n a" and "adds env m (Suc h) op2 g c" and "child_ok (n, a, [])"
  shows "adds env m h (cbb_then op1 (cbb_then op2 (CBB_flush env h))) (g \<and> fits n a (length c))
    (d @ hdr n a (length c) @ c)"
proof -
  have eq: "close_at (Suc h) (app d (close_at h fs) @ [(n, a, [])]) = app d (close_at h fs) @ [(n, a, [])]" if "h < length fs" for fs
    using that by (intro close_at_closed) simp
  have cl: "closable h (app d (close_at h fs) @ [(n, a, c)]) \<longleftrightarrow> fits n a (length c)" if "h < length fs" for fs
    using that by (simp add: closable_def)
  have close: "close_at h (app d (close_at h fs) @ [(n, a, c)]) = app (d @ hdr n a (length c) @ c) (close_at h fs)" if "h < length fs" for fs
    using that close_at_open [of "app d (close_at h fs)" h n a c] by (simp add: close_at_not_Nil)
  have mono: "length (flat (app c (close_at (Suc h) fs))) \<le> length (flat (close_at h (app c (close_at (Suc h) fs))))"
    if "Suc h < length fs" "root_ok fs" for fs
  proof -
    let ?f = "app c (close_at (Suc h) fs)"
    have len: "h < length ?f" using that by simp
    have "root_ok ?f" using that root_ok_take [OF that(2), of "Suc h"]
        root_ok_app [OF take_Suc_not_Nil, of "Suc h" fs] by (simp add: close_at_not_Nil) (simp add: close_at_def)
    then have "length (flat (drop (Suc h) ?f)) \<le> length (closed (drop (Suc h) ?f))"
      by (intro length_flat_closed root_ok_drop)
    moreover have "flat ?f = flat (take (Suc h) ?f) @ flat (drop (Suc h) ?f)"
      by (metis append_take_drop_id flat_simps(3))
    ultimately show ?thesis by (simp only: flat_close_at [OF len]) simp
  qed
  have r2: "refines env m (Suc h) (cbb_then op2 (CBB_flush env h))
      (\<lambda>fs. (closable (Suc h) fs \<and> g) \<and> closable h (app c (close_at (Suc h) fs)))
      (\<lambda>fs. close_at h (app c (close_at (Suc h) fs)))"
  proof (rule refines_then [OF assms(2) [unfolded adds_def] refines_flush])
    show "h < length (app c (close_at (Suc h) fs))" if "Suc h < length fs" for fs using that by simp
  qed (rule mono)
  show ?thesis
    unfolding adds_def using length_hdr [OF assms(3), of "length c"]
    by (intro refines_weaken [OF refines_then [OF assms(1) [unfolded opens_def] r2]])
      (simp_all add: eq cl close closable_closed close_at_not_Nil)
qed


section \<open>Integers and length prefixes\<close>

lemma adds_u:
  "0 < n \<Longrightarrow> n \<le> 8 \<Longrightarrow> adds env m h (cbb_add_u env h v n) (unat v < 256 ^ n) (be_bytes n (unat v))"
  by (simp add: adds_def refines_add_u)

lemma adds_weaken: "adds env m h op g d \<Longrightarrow> g' = g \<Longrightarrow> d' = d \<Longrightarrow> adds env m h op g' d'"
  unfolding adds_def by (erule refines_weaken) auto

lemma adds_bytes: "length d < SIZE_LIMIT \<Longrightarrow> adds env m h (CBB_add_bytes env h d) True d"
  by (simp add: adds_def refines_add_bytes)

lemma unat_ucast_small: "LENGTH('b::len) \<le> 64 \<Longrightarrow> unat (ucast (v :: 'b word) :: u64) = unat v"
proof -
  assume "LENGTH('b) \<le> 64"
  then have "unat v < 2 ^ 64" using unsigned_less [of v] by (meson less_le_trans one_le_numeral power_increasing)
  then show ?thesis by (simp add: unsigned_ucast_eq take_bit_nat_eq_self_iff)
qed

lemma adds_u8: "adds env m h (CBB_add_u8 env h v) True [v]"
  using adds_u [of 1 env m h "ucast v"] unsigned_less [of v]
  by (auto simp: CBB_add_u8_def unat_ucast_small elim!: adds_weaken)

lemma adds_u16: "adds env m h (CBB_add_u16 env h v) True (be_bytes 2 (unat v))"
  using adds_u [of 2 env m h "ucast v"] unsigned_less [of v]
  by (auto simp: CBB_add_u16_def unat_ucast_small elim!: adds_weaken)

lemma adds_u24: "adds env m h (CBB_add_u24 env h v) (unat v < 2 ^ 24) (be_bytes 3 (unat v))"
  using adds_u [of 3 env m h "ucast v"] by (auto simp: CBB_add_u24_def unat_ucast_small elim!: adds_weaken)

lemma adds_u32: "adds env m h (CBB_add_u32 env h v) True (be_bytes 4 (unat v))"
  using adds_u [of 4 env m h "ucast v"] unsigned_less [of v]
  by (auto simp: CBB_add_u32_def unat_ucast_small elim!: adds_weaken)

lemma adds_u64: "adds env m h (CBB_add_u64 env h v) True (be_bytes 8 (unat v))"
  using adds_u [of 8 env m h v] unsigned_less [of v] by (auto simp: CBB_add_u64_def elim!: adds_weaken)

lemma opens_length_prefixed:
  assumes n: "1 \<le> n" "n \<le> 3"
  shows "opens env m h (cbb_add_length_prefixed env h n) [] n False"
proof -
  let ?f = "\<lambda>fs. fs @ [(n, False, [])]"
  have "refines env m h (cbb_add_length_prefixed env h n) (\<lambda>fs. closable h fs \<and> True) (\<lambda>fs. ?f (close_at h fs))"
    unfolding cbb_add_length_prefixed_def
  proof (rule refines_flush_then)
    fix c fs assume rep: "represents c fs" and len: "length fs = Suc h" and m: "length (flat (?f fs)) \<le> m"
    have h: "holds (base c) (flat fs)" using rep by (simp add: represents_def)
    have "length (flat fs) + n \<le> m" "n < SIZE_LIMIT" using m n by (auto simp: SIZE_LIMIT_def)
    note o = cbb_buffer_add_outcome [OF h this, of env]
    have off: "blen (base c) = length (flat fs)" using h by (simp add: holds_def)
    have ok: "child_ok (n, False, [])" using n by (simp add: child_ok_def)
    show "case let off = blen (base c) in
         cbb_then (on_base (\<lambda>b. cbb_buffer_add env b n))
         (cbb_then (\<lambda>c. (True, c\<lparr>base := (base c)\<lparr>buf := mem_write (buf (base c)) off (replicate n 0)\<rparr>\<rparr>))
            (open_child h \<lparr>offset = off, pending_len_len = n, pending_is_asn1 = False\<rparr>)) c of
        (True, c') \<Rightarrow> represents c' (?f fs) \<and> True \<and> (roomy env m (base c) \<longrightarrow> roomy env m (base c'))
      | (False, c') \<Rightarrow> error (base c') \<and> \<not> (roomy env m (base c) \<and> True)"
    proof (cases "cbb_buffer_add env (base c) n")
      case (Pair k b)
      show ?thesis
      proof (cases k)
        case True
        with o Pair obtain y where y: "length y = n" "holds b (flat fs @ y @ [])"
          and r: "roomy env m (base c) \<longrightarrow> roomy env m b" by auto
        have "holds (b\<lparr>buf := mem_write (buf b) (length (flat fs)) (replicate n 0)\<rparr>) (flat fs @ replicate n 0)"
          using holds_write [OF y(2), of "replicate n 0"] y(1) by simp
        from represents_open [OF rep this ok len] show ?thesis
          using True Pair r by (simp add: cbb_then_def on_base_def open_child_def off Let_def)
      qed (use o Pair in \<open>simp add: cbb_then_def on_base_def\<close>)
    qed
  qed simp
  then show ?thesis unfolding opens_def
    by (rule refines_weaken) (auto simp: close_at_not_Nil)
qed


section \<open>ASN.1 elements\<close>

lemma opens_asn1_length:
  assumes "adds env m h op True d"
  shows "opens env m h (cbb_then op (\<lambda>c. let off = blen (base c) in
       cbb_then (CBB_add_u8 env h 0) (open_child h \<lparr>offset = off, pending_len_len = 1, pending_is_asn1 = True\<rparr>) c)) d 1 True"
    (is "opens env m h (cbb_then op ?op2) d 1 True")
  unfolding opens_def refines_def
proof (intro allI impI, elim conjE)
  fix c fs assume rep: "represents c fs" and h: "h < length fs"
    and m: "length (flat (app d (close_at h fs) @ [(1, True, [])])) \<le> m"
  let ?fs = "app d (close_at h fs)"
  have m1: "length (flat ?fs) \<le> m" "length (flat (app [0] ?fs)) \<le> m" using m h by auto
  note o1 = assms [unfolded adds_def refines_def, rule_format, of c fs]
  show "case cbb_then op ?op2 c of
        (True, c') \<Rightarrow> represents c' (?fs @ [(1, True, [])]) \<and> closable h fs \<and> (roomy env m (base c) \<longrightarrow> roomy env m (base c'))
      | (False, c') \<Rightarrow> error (base c') \<and> \<not> (roomy env m (base c) \<and> closable h fs)"
  proof (cases "op c")
    case (Pair ok c1)
    show ?thesis
    proof (cases ok)
      case True
      with Pair o1 rep h m1 have r1: "represents c1 ?fs" "roomy env m (base c) \<longrightarrow> roomy env m (base c1)" "closable h fs" by auto
      have len: "length ?fs = Suc h" using h by simp
      have off: "blen (base c1) = length (flat ?fs)" using r1 by (simp add: represents_def holds_def)
      have "adds env m h (CBB_add_u8 env h 0) True [0]" by (rule adds_u8)
      from this [unfolded adds_def refines_def, rule_format, of c1 ?fs] r1 len m1(2) h
      have o2: "case CBB_add_u8 env h 0 c1 of
          (True, c') \<Rightarrow> represents c' (app [0] ?fs) \<and> True \<and> (roomy env m (base c1) \<longrightarrow> roomy env m (base c'))
        | (False, c') \<Rightarrow> error (base c') \<and> \<not> (roomy env m (base c1) \<and> True)"
        by (auto simp: closable_closed simp del: app_app split: prod.splits bool.splits)
      show ?thesis
      proof (cases "CBB_add_u8 env h 0 c1")
        case p2: (Pair ok2 c2)
        show ?thesis
        proof (cases ok2)
          case True2: True
          with o2 p2 have r2: "represents c2 (app [0] ?fs)" "roomy env m (base c1) \<longrightarrow> roomy env m (base c2)" by auto
          then have "holds (base c2) (flat ?fs @ replicate 1 0)" "chain c2 = chain c1"
            using r1 h by (auto simp: represents_def close_at_not_Nil)
          moreover have "child_ok (1, True, [])" by (simp add: child_ok_def)
          ultimately have "represents (c1\<lparr>base := base c2, chain := take (Suc h) (chain c2) @
              [\<lparr>offset = length (flat ?fs), pending_len_len = 1, pending_is_asn1 = True\<rparr>]\<rparr>) (?fs @ [(1, True, [])])"
            using represents_open [OF r1(1)] len by simp
          moreover have "c1\<lparr>base := base c2, chain := x\<rparr> = c2\<lparr>chain := x\<rparr>" for x
            by (cases c1; cases c2) simp
          ultimately show ?thesis using True True2 Pair p2 r1 r2
            by (simp add: cbb_then_def open_child_def Let_def off)
        qed (use Pair True p2 o2 r1 in \<open>simp add: cbb_then_def Let_def\<close>)
      qed
    qed (use Pair o1 rep h m1 in \<open>auto simp: cbb_then_def\<close>)
  qed
qed

declare base128_len.simps [simp del]

fun b128_digits :: "nat \<Rightarrow> nat \<Rightarrow> bytes" where
  "b128_digits 0 n = []"
| "b128_digits (Suc i) n = word_of_nat (n div 128 ^ i mod 128 + (if i \<noteq> 0 then 128 else 0)) # b128_digits i n"

lemma unat_low7: "unat (b AND 0x7f :: u8) = unat b mod 128"
  using unat_and_mask [of b 7] by (simp add: mask_eq_exp_minus_1)

lemma base128_byte:
  "(let b7 = ucast (drop_bit (7 * i) v) AND 0x7f in if i \<noteq> 0 then b7 OR 0x80 else b7 :: u8) =
     word_of_nat (unat (v :: u64) div 128 ^ i mod 128 + (if i \<noteq> 0 then 128 else 0))"
proof -
  let ?b7 = "ucast (drop_bit (7 * i) v) AND 0x7f :: u8"
  have "(2 :: nat) ^ (7 * i) = 128 ^ i" by (simp add: power_mult)
  then have "unat ?b7 = unat v div 128 ^ i mod 256 mod 128"
    by (simp add: unat_low7 unsigned_ucast_eq take_bit_nat_def unat_drop)
  then have b: "unat ?b7 = unat v div 128 ^ i mod 128" by (simp add: mod_mod_cancel)
  have "push_bit 7 1 OR ?b7 = push_bit 7 1 + ?b7" by (rule push_or_eq_plus) (simp add: b)
  then have "?b7 OR 0x80 = 128 + ?b7" by (simp add: or.commute)
  moreover have "?b7 = word_of_nat (unat v div 128 ^ i mod 128)" by (metis b word_of_unat)
  ultimately show ?thesis by (simp add: Let_def add.commute)
qed

lemma adds_base128_loop: "adds env m h (base128_loop env h v (Suc i)) True (b128_digits (Suc i) (unat v))"
proof (induction i)
  case 0
  have "base128_loop env h v (Suc 0) = CBB_add_u8 env h (word_of_nat (unat v mod 128))"
    using base128_byte [of 0 v] by (auto simp: fun_eq_iff cbb_then_def Let_def split: prod.splits bool.splits)
  then show ?case using adds_u8 by (simp del: base128_loop.simps)
next
  case (Suc i)
  have "base128_loop env h v (Suc (Suc i)) =
      cbb_then (CBB_add_u8 env h (word_of_nat (unat v div 128 ^ Suc i mod 128 + 128))) (base128_loop env h v (Suc i))"
    using base128_byte [of "Suc i" v] by (auto simp: fun_eq_iff Let_def simp del: power_Suc mult_Suc_right)
  with adds_then [OF adds_u8 Suc] show ?case
    by (simp del: base128_loop.simps power_Suc)
qed

definition hi_digits :: "nat \<Rightarrow> nat \<Rightarrow> bytes" where
  "hi_digits k n = map (\<lambda>i. word_of_nat (128 + n div 128 ^ i mod 128)) (rev [0..<k])"

lemma b128_digits_Suc: "b128_digits (Suc k) n = hi_digits k (n div 128) @ [word_of_nat (n mod 128)]"
proof (induction k)
  case (Suc k)
  have "b128_digits (Suc (Suc k)) n = word_of_nat (n div 128 ^ Suc k mod 128 + 128) # b128_digits (Suc k) n" by simp
  with Suc show ?case by (simp add: hi_digits_def div_mult2_eq add.commute)
qed (simp add: hi_digits_def)

lemma hi_digits_Suc: "hi_digits (Suc k) n = hi_digits k (n div 128) @ [word_of_nat (128 + n mod 128)]"
proof -
  have "[0..<Suc k] = 0 # map Suc [0..<k]" by (metis map_Suc_upt upt_conv_Cons zero_less_Suc)
  then show ?thesis by (simp add: hi_digits_def rev_map comp_def div_mult2_eq del: upt_Suc)
qed

lemma hi_digits_len: "hi_digits (base128_len v) (unat v) = b128_hi (unat v)"
proof (induction v rule: base128_len.induct)
  case (1 v)
  show ?case
  proof (cases "v = 0")
    case True
    then show ?thesis by (simp add: base128_len.simps [of 0] hi_digits_def)
  next
    case False
    then have "0 < unat v" "v > 0" by (simp_all add: unat_gt_0 word_neq_0_conv)
    with 1 show ?thesis
      by (subst base128_len.simps) (simp add: hi_digits_Suc b128_hi_step [of "unat v"] unat_drop)
  qed
qed

lemma adds_base128_integer: "adds env m h (add_base128_integer env h v) True (b128 (unat v))"
proof -
  let ?k = "if base128_len v = 0 then 1 else base128_len v"
  obtain j where j: "?k = Suc j" by (cases ?k) (auto split: if_splits)
  have "b128 (unat v) = b128_digits (Suc j) (unat v)"
  proof (cases "v = 0")
    case True
    then show ?thesis using j by (simp add: base128_len.simps [of 0] b128_def b128_digits_Suc hi_digits_def del: b128_digits.simps)
  next
    case False
    then have "v > 0" by (simp add: word_neq_0_conv)
    then have "base128_len v = Suc (base128_len (drop_bit 7 v))" by (subst base128_len.simps) simp
    then show ?thesis using j hi_digits_len [of "drop_bit 7 v"]
      by (simp add: b128_def b128_digits_Suc unat_drop del: b128_digits.simps)
  qed
  then show ?thesis
    using adds_base128_loop [of env m h v j] by (simp only: add_base128_integer_def Let_def j)
qed

lemma tag_bits_eq:
  assumes "n < 32"
  shows "(ucast (drop_bit CBS_ASN1_TAG_SHIFT tag) AND 0xe0) OR word_of_nat n = (word_of_nat (unat (tag :: u32) div 2 ^ 29 * 32 + n) :: u8)"
proof -
  let ?t = "ucast (drop_bit CBS_ASN1_TAG_SHIFT tag) AND 0xe0 :: u8"
  have lt: "unat tag < 2 ^ 32" using unsigned_less [of tag] by simp
  have "(0xe0 :: u8) = NOT (mask 5)" by (simp add: mask_eq_exp_minus_1)
  then have "unat ?t = unat tag div 2 ^ 24 mod 256 div 2 ^ 5 * 2 ^ 5"
    by (simp only: unat_and_not_mask) (simp add: CBS_ASN1_TAG_SHIFT_def unsigned_ucast_eq take_bit_nat_def unat_drop)
  moreover have "unat tag div 2 ^ 24 < 256" using lt by (simp add: less_mult_imp_div_less)
  ultimately have t: "unat ?t = unat tag div 2 ^ 29 * 32" by (simp add: div_mult2_eq [symmetric])
  have c: "unat tag div 2 ^ 29 < 8" using lt by (simp add: less_mult_imp_div_less)
  then have p: "?t = push_bit 5 (word_of_nat (unat tag div 2 ^ 29))"
    by (simp add: word_unat_eq_iff t push_bit_eq_mult unat_word_ariths unat_of_nat)
  have "unat (?t OR word_of_nat n) = unat tag div 2 ^ 29 * 32 + n"
    unfolding p using c assms by (subst unat_push_or) (simp_all add: unat_of_nat)
  then show ?thesis by (metis word_of_unat)
qed

lemma adds_flush: "adds env m h (CBB_flush env h) True []"
  unfolding adds_def by (rule refines_weaken [OF refines_flush]) (auto simp: close_at_not_Nil)

lemma adds_after_flush: "adds env m h op g d \<Longrightarrow> adds env m h (cbb_then (CBB_flush env h) op) g d"
  using adds_then [OF adds_flush] by fastforce

lemma opens_after_flush:
  assumes "opens env m h op d n a"
  shows "opens env m h (cbb_then (CBB_flush env h) op) d n a"
  using opens_then [OF adds_flush assms] by simp

lemma opens_asn1: "opens env m h (CBB_add_asn1 env h tag) (der_tag tag) 1 True"
proof -
  let ?num = "tag AND CBS_ASN1_TAG_NUMBER_MASK"
  have "CBS_ASN1_TAG_NUMBER_MASK = mask 29" by (simp add: CBS_ASN1_TAG_NUMBER_MASK_def CBS_ASN1_TAG_SHIFT_def mask_eq_exp_minus_1)
  then have num: "unat ?num = unat tag mod 2 ^ 29" using unat_and_mask [of tag 29] by simp
  let ?bits = "ucast (drop_bit CBS_ASN1_TAG_SHIFT tag) AND 0xe0 :: u8"
  let ?put = "if 0x1f \<le> ?num then cbb_then (CBB_add_u8 env h (?bits OR 0x1f)) (add_base128_integer env h (ucast ?num))
      else CBB_add_u8 env h (?bits OR ucast ?num)"
  have "adds env m h ?put True (der_tag tag)"
  proof (cases "0x1f \<le> ?num")
    case True
    then have "31 \<le> unat tag mod 2 ^ 29" using num by (simp add: word_le_nat_alt)
    then have "der_tag tag = [?bits OR 0x1f] @ b128 (unat (ucast ?num :: u64))"
      using tag_bits_eq [of 31 tag] by (simp add: der_tag_def Let_def unat_ucast_small num)
    then show ?thesis using True adds_then [OF adds_u8 adds_base128_integer, of env m h "?bits OR 0x1f" "ucast ?num"] by simp
  next
    case False
    then have lt: "unat tag mod 2 ^ 29 < 31" using num by (simp add: word_le_nat_alt)
    then have "(ucast ?num :: u8) = word_of_nat (unat tag mod 2 ^ 29)"
      by (simp add: num word_unat_eq_iff unsigned_ucast_eq take_bit_nat_def unat_of_nat)
    then have "der_tag tag = [?bits OR ucast ?num]"
      using tag_bits_eq [of "unat tag mod 2 ^ 29" tag] lt by (simp add: der_tag_def Let_def)
    then show ?thesis using False adds_u8 [of env m h "?bits OR ucast ?num"] by simp
  qed
  from opens_asn1_length [OF this] show ?thesis
    unfolding CBB_add_asn1_def Let_def by (rule opens_after_flush)
qed


lemma adds_asn1:
  assumes "adds env m (Suc h) op g c"
  shows "adds env m h (cbb_then (CBB_add_asn1 env h t) (cbb_then op (CBB_flush env h)))
    (g \<and> length c \<le> 0xfffffffe) (der_tlv t c)"
  using adds_element [OF opens_asn1 assms, of t]
  by (simp add: child_ok_def fits_def hdr_def der_tlv_def)

lemma adds_octet_string:
  assumes "length data < SIZE_LIMIT"
  shows "adds env m h (CBB_add_asn1_octet_string env h data) (length data \<le> 0xfffffffe) (der_tlv CBS_ASN1_OCTETSTRING data)"
  using adds_asn1 [OF adds_bytes [OF assms]] by (simp add: CBB_add_asn1_octet_string_def)

lemma adds_bool:
  "adds env m h (CBB_add_asn1_bool env h value) True (der_tlv CBS_ASN1_BOOLEAN [if value \<noteq> 0 then 0xff else 0])"
  using adds_asn1 [OF adds_u8] by (simp add: CBB_add_asn1_bool_def)

lemma adds_return: "adds env m h op g d \<Longrightarrow> adds env m h (cbb_then op (\<lambda>c. (True, c))) g d"
  by (rule subst [of op "cbb_then op (\<lambda>c. (True, c))"]) (auto simp: cbb_then_def fun_eq_iff split: prod.splits bool.splits)

lemma cbb_then_return: "cbb_then (\<lambda>c. (True, c)) op = op"
  by (simp add: cbb_then_def fun_eq_iff)

lemma be_bytes_Suc_Cons: "be_bytes (Suc i) n = word_of_nat (n div 256 ^ i) # be_bytes i n"
  by (induction i arbitrary: n) (auto simp: div_mult2_eq)

lemma adds_uint64_started:
  "adds env m h (cbb_then op (asn1_uint64_bytes env h v i True)) g (d @ be_bytes i (unat v))"
  if "adds env m h op g d"
  using that
proof (induction i arbitrary: op d)
  case 0
  have "asn1_uint64_bytes env h v 0 True = (\<lambda>c. (True, c))" by (simp add: fun_eq_iff)
  with adds_return [OF 0] show ?case by simp
next
  case (Suc i)
  let ?b = "ucast (drop_bit (8 * i) v) :: u8"
  have b: "?b = word_of_nat (unat v div 256 ^ i)"
  proof -
    have "(2 :: nat) ^ (8 * i) = 256 ^ i" by (simp add: power_mult)
    then show ?thesis by (simp add: word_unat_eq_iff unsigned_ucast_eq take_bit_nat_def unat_drop unat_of_nat)
  qed
  have eq: "cbb_then op (asn1_uint64_bytes env h v (Suc i) True) =
      cbb_then (cbb_then op (CBB_add_u8 env h ?b)) (asn1_uint64_bytes env h v i True)"
    by (simp add: fun_eq_iff cbb_then_def Let_def split: prod.splits bool.splits)
  have "adds env m h (cbb_then op (CBB_add_u8 env h ?b)) g (d @ [?b])"
    using adds_then [OF Suc.prems adds_u8] by simp
  from Suc.IH [OF this] show ?case
    unfolding eq by (simp add: be_bytes_Suc_Cons b del: be_bytes.simps)
qed

lemma min_octets_Suc:
  assumes "n < 256 ^ Suc i" and "256 ^ i \<le> n"
  shows "min_octets n = be_bytes (Suc i) n"
proof -
  have "unat (word_of_nat (n div 256 ^ i) :: u8) = n div 256 ^ i"
    using assms(1) by (simp add: unat_of_nat less_mult_imp_div_less mult.commute)
  moreover have "0 < n div 256 ^ i" using assms(2) by (simp add: div_greater_zero_iff)
  ultimately have "hd (be_bytes (Suc i) n) \<noteq> 0"
    by (simp only: be_bytes_Suc_Cons list.sel word_unat_eq_iff) simp
  then have "min_octets (be_val (be_bytes (Suc i) n)) = be_bytes (Suc i) n" by (intro min_octets_unique) simp
  then show ?thesis using assms(1) by (simp add: be_val_be_bytes del: be_bytes.simps)
qed

lemma adds_uint64_bytes:
  assumes "unat v < 256 ^ i"
  shows "adds env m h (asn1_uint64_bytes env h v i False) True (uint_octets (unat v))"
  using assms
proof (induction i)
  case 0
  then show ?case using adds_u8 [of env m h 0] by (simp add: uint_octets_def asn1_uint64_bytes.simps(1) [abs_def])
next
  case (Suc i)
  let ?b = "ucast (drop_bit (8 * i) v) :: u8"
  have p: "(2 :: nat) ^ (8 * i) = 256 ^ i" by (simp add: power_mult)
  have "unat v div 256 ^ i < 256" using Suc.prems by (simp add: less_mult_imp_div_less mult.commute)
  then have b: "unat ?b = unat v div 256 ^ i"
    by (simp add: p unsigned_ucast_eq take_bit_nat_def unat_drop)
  show ?case
  proof (cases "?b = 0")
    case True
    then have "unat v < 256 ^ i" using b by (simp add: div_eq_0_iff)
    moreover have "asn1_uint64_bytes env h v (Suc i) False = asn1_uint64_bytes env h v i False"
      using True by (simp add: fun_eq_iff Let_def)
    ultimately show ?thesis using Suc.IH by simp
  next
    case False
    let ?pad = "if ?b AND 0x80 \<noteq> 0 then CBB_add_u8 env h 0 else (\<lambda>c. (True, c))"
    have eq: "asn1_uint64_bytes env h v (Suc i) False =
        cbb_then (cbb_then ?pad (CBB_add_u8 env h ?b)) (asn1_uint64_bytes env h v i True)"
      using False by (simp add: fun_eq_iff cbb_then_def Let_def split: prod.splits bool.splits)
    have "256 ^ i \<le> unat v" using b False by (simp add: word_unat_eq_iff div_eq_0_iff)
    then have mo: "min_octets (unat v) = ?b # be_bytes i (unat v)"
      using min_octets_Suc [OF Suc.prems] b by (simp only: be_bytes_Suc_Cons) (metis word_of_unat)
    have "adds env m h (cbb_then ?pad (CBB_add_u8 env h ?b)) True (if 128 \<le> unat ?b then [0, ?b] else [?b])"
      using adds_then [OF adds_u8 adds_u8, of env m h 0 ?b] adds_u8 [of env m h ?b] by (simp add: cbb_then_return)
    from adds_uint64_started [OF this] show ?thesis
      unfolding eq using mo by (auto simp: uint_octets_def split: if_splits)
  qed
qed

lemma adds_uint64: "adds env m h (CBB_add_asn1_uint64 env h v) True (der_tlv CBS_ASN1_INTEGER (uint_octets (unat v)))"
proof -
  have lt: "unat v < 256 ^ 8" using unsigned_less [of v] by simp
  then have "length (uint_octets (unat v)) \<le> 0xfffffffe" using length_uint_octets by fastforce
  then show ?thesis
    using adds_asn1 [OF adds_uint64_bytes [OF lt], of env m h CBS_ASN1_INTEGER] by (simp add: CBB_add_asn1_uint64_def)
qed


lemma uint_octets_int_octets:
  assumes "0 \<le> sint v"
  shows "uint_octets (unat v) = int_octets v"
proof (rule int_octets_unique [symmetric])
  have lt: "unat v < 2 ^ 63" using assms sint_word64 [of v] unat_u64_less [of v] of_nat_less_iff [where ?'a = int, of "unat v" "2 ^ 64"] by (auto split: if_splits simp del: of_nat_less_iff)
  note um = uint_octets_minimal [of "unat v"]
  then show "int_minimal (uint_octets (unat v))" by (auto simp: uint_minimal_def int_minimal_def)
  show "tc_val (uint_octets (unat v)) = sint v"
    using um lt sint_word64 [of v] by (simp add: tc_val_def uint_minimal_def)
  show "length (uint_octets (unat v)) \<le> 8"
  proof (rule ccontr)
    assume long: "\<not> length (uint_octets (unat v)) \<le> 8"
    have "length (min_octets (unat v)) \<le> 8" using lt by (intro length_min_octets) simp
    then obtain b bs where mo: "min_octets (unat v) = b # bs" "128 \<le> unat b" "7 \<le> length bs"
      using long by (auto simp: uint_octets_def split: list.splits if_splits)
    have "(256 :: nat) ^ 7 \<le> 256 ^ length bs" using mo(3) by (intro power_increasing) auto
    then have "128 * 256 ^ 7 \<le> unat b * 256 ^ length bs" using mo(2) by (intro mult_le_mono)
    also have "\<dots> \<le> unat v" using be_val_min_octets [of "unat v"] mo(1) by (simp add: be_val_Cons)
    finally show False using lt by simp
  qed
qed

lemma adds_bytes_down:
  assumes "n \<le> length u" "0 < n"
  shows "adds env m h (add_bytes_down env h u n) True (rev (take n u))"
  using assms
proof (induction n)
  case (Suc n)
  show ?case
  proof (cases "n = 0")
    case True
    then have "add_bytes_down env h u (Suc n) = CBB_add_u8 env h (u ! 0)"
      by (auto simp: fun_eq_iff cbb_then_def split: prod.splits bool.splits)
    then show ?thesis using Suc.prems True adds_u8 by (cases u) auto
  next
    case False
    have "add_bytes_down env h u (Suc n) = cbb_then (CBB_add_u8 env h (u ! n)) (add_bytes_down env h u n)"
      by (simp add: fun_eq_iff)
    then show ?thesis using Suc False adds_then [OF adds_u8 Suc.IH, of "u ! n"]
      by (simp add: take_Suc_conv_app_nth)
  qed
qed simp

lemma rev_take_int64_start:
  assumes "s < length u" and "128 \<le> unat (u ! s)"
  shows "rev (take (int64_start u s + 1) u) = strip_sign (rev (take (Suc s) u)) \<and> int64_start u s \<le> s"
  using assms
proof (induction s)
  case 0
  then show ?case by (cases u) auto
next
  case (Suc s)
  have rev: "rev (take (Suc (Suc s)) u) = u ! Suc s # u ! s # rev (take s u)" "rev (take (Suc s) u) = u ! s # rev (take s u)"
    using Suc.prems by (simp_all add: take_Suc_conv_app_nth)
  have "u ! Suc s \<noteq> 0" using Suc.prems by auto
  then show ?case
  proof (cases "u ! Suc s = 0xff \<and> 128 \<le> unat (u ! s)")
    case True
    then show ?thesis using Suc rev by simp
  next
    case False
    then have "int64_start u (Suc s) = Suc s" by auto
    with False rev \<open>u ! Suc s \<noteq> 0\<close> show ?thesis by auto
  qed
qed

lemma adds_int64: "adds env m h (CBB_add_asn1_int64 env h v) True (der_tlv CBS_ASN1_INTEGER (int_octets v))"
proof (cases "0 \<le> sint v")
  case True
  then show ?thesis using adds_uint64 [of env m h v] by (simp add: CBB_add_asn1_int64_def uint_octets_int_octets)
next
  case False
  let ?u = "le_bytes 8 (unat v)"
  have "2 ^ 63 \<le> unat v" using False sint_word64 [of v] by (auto split: if_splits)
  moreover have "be_bytes 8 (unat v) = word_of_nat (unat v div 256 ^ 7) # be_bytes 7 (unat v)"
    using be_bytes_Suc_Cons [of 7 "unat v"] by simp
  then have "?u = rev (be_bytes 7 (unat v)) @ [word_of_nat (unat v div 256 ^ 7)]"
    by (metis rev.simps(2) rev_be_bytes)
  then have "?u ! 7 = word_of_nat (unat v div 256 ^ 7)" by (simp add: nth_append)
  moreover have "128 \<le> unat v div 256 ^ 7" using div_le_mono [of "2 ^ 63" "unat v" "256 ^ 7"] calculation(1) by simp
  moreover have "unat v div 256 ^ 7 < 256" using unat_u64_less [of v] by (simp add: less_mult_imp_div_less)
  ultimately have "128 \<le> unat (?u ! 7)" by (simp only: unat_of_nat) simp
  from rev_take_int64_start [OF _ this] have r: "rev (take (int64_start ?u 7 + 1) ?u) = int_octets v" "int64_start ?u 7 \<le> 7"
    by (auto simp: int_octets_def rev_be_bytes [symmetric])
  have "adds env m (Suc h) (add_bytes_down env (Suc h) ?u (int64_start ?u 7 + 1)) True (int_octets v)"
    using adds_bytes_down [of "int64_start ?u 7 + 1" ?u env m "Suc h"] r by simp
  from adds_asn1 [OF this] show ?thesis
    using False int_octets_extended(2) [of v] by (simp add: CBB_add_asn1_int64_def Let_def)
qed


section \<open>From \<open>CBB_init\<close> to \<open>CBB_finish\<close>\<close>

definition fresh :: "frame list" where
  "fresh = [(0, False, [])]"

lemma CBB_init_represents:
  assumes "CBB_init env n = Some c" and "n < SIZE_LIMIT"
  shows "represents c fresh" and "can_resize (base c) \<and> cap (base c) = n"
  using assms heap_new_Some [of env n]
  by (auto simp: CBB_init_def cbb_init_def represents_def fresh_def holds_def buf_ok_def root_node_def root_ok_def
      SIZE_LIMIT_def split: option.splits if_splits)

lemma CBB_init_succeeds: "\<forall>n. heap_ok env n \<Longrightarrow> n + 8 < SIZE_LIMIT \<Longrightarrow> \<exists>c. CBB_init env n = Some c"
  using heap_new_succeeds [of env n] heap_new_succeeds [of env 40]
  by (auto simp: CBB_init_def cbb_init_def SIZE_LIMIT_def split: option.splits)

lemma CBB_init_fixed_represents:
  assumes "CBB_init_fixed env b = Some c" and "length b < SIZE_LIMIT"
  shows "represents c fresh" and "cap (base c) = length b"
  using assms
  by (auto simp: CBB_init_fixed_def cbb_init_def represents_def fresh_def holds_def buf_ok_def root_node_def root_ok_def
      split: option.splits)

text \<open>What a client gets that opens a growing builder, runs \<open>op\<close> on it and finishes.\<close>

definition run_writer :: "heap_env \<Rightarrow> nat \<Rightarrow> cbb_op \<Rightarrow> bytes option" where
  "run_writer env n op =
     (case CBB_init env n of
        None \<Rightarrow> None
      | Some c \<Rightarrow> (case op c of (False, _) \<Rightarrow> None | (True, c') \<Rightarrow> fst (CBB_finish env 0 c')))"

lemma close_at_fresh [simp]: "close_at 0 fresh = fresh" "closable 0 fresh" "flat fresh = []" "length fresh = Suc 0"
  by (simp_all add: fresh_def close_at_def closable_def)

lemma run_writer_adds:
  assumes a: "\<And>m. adds env m 0 op g d" and n: "n \<le> 2 ^ 62"
  shows "run_writer env n op = Some out \<Longrightarrow> g \<and> out = d"
    and "g \<Longrightarrow> \<forall>n. heap_ok env n \<Longrightarrow> length d \<le> 2 ^ 62 \<Longrightarrow> run_writer env n op = Some d"
proof -
  have n': "n < SIZE_LIMIT" "n + 8 < SIZE_LIMIT" using n by (auto simp: SIZE_LIMIT_def)
  let ?f = "app d fresh"
  have f: "?f = [(0, False, d)]" "close_at 0 ?f = ?f" "closable 0 ?f"
    by (simp_all add: fresh_def app_def close_at_def closable_def)
  have o1: "case op c of (True, c') \<Rightarrow> represents c' ?f \<and> g \<and> (roomy env m (base c) \<longrightarrow> roomy env m (base c'))
      | (False, c') \<Rightarrow> \<not> (roomy env m (base c) \<and> g)" if "represents c fresh" "length d \<le> m" for c m
    using a [of m, unfolded adds_def refines_def, rule_format, of c fresh] that f by (auto split: prod.splits bool.splits)
  have o2: "case CBB_finish env 0 c of (None, _) \<Rightarrow> \<not> roomy env m (base c) | (Some out, _) \<Rightarrow> out = d"
    if "represents c ?f" "length d \<le> m" for c m
    using refines_flush [of env m 0, unfolded refines_def, rule_format, of c ?f] that f
    by (auto simp: CBB_finish_def represents_def holds_def split: prod.splits bool.splits)
  show "g \<and> out = d" if "run_writer env n op = Some out"
  proof -
    from that obtain c c' c'' where "CBB_init env n = Some c" "op c = (True, c')" "CBB_finish env 0 c' = (Some out, c'')"
      by (auto simp: run_writer_def split: option.splits prod.splits bool.splits) (metis prod.collapse)
    with CBB_init_represents [OF this(1) n'(1)] o1 [of c "length d"] o2 [of c' "length d"] show ?thesis by auto
  qed
  show "run_writer env n op = Some d" if g and ok: "\<forall>n. heap_ok env n" and d: "length d \<le> 2 ^ 62"
  proof -
    obtain c where c: "CBB_init env n = Some c" using CBB_init_succeeds [OF ok n'(2)] by blast
    note r = CBB_init_represents [OF c n'(1)]
    have "roomy env (2 ^ 62) (base c)" using r(2) n ok by (auto simp: roomy_def)
    with o1 [OF r(1) d] \<open>g\<close> obtain c' where c': "op c = (True, c')" "represents c' ?f" "roomy env (2 ^ 62) (base c')"
      by (cases "op c") (auto split: bool.splits)
    with o2 [OF c'(2) d] c show ?thesis
      by (cases "CBB_finish env 0 c'") (auto simp: run_writer_def split: option.splits)
  qed
qed

text \<open>C2. \<open>CBB_flush\<close> refines closing the open frames: whatever is open below the CBB gets its
  length prefix, written over the placeholder and, for ASN.1, moved up to make space; it fails
  only where a length does not fit or memory runs out, and then the error is recorded.\<close>

theorem CBB_flush_refines:
  assumes "represents c fs" and "h < length fs" and "length (flat (close_at h fs)) \<le> m"
  shows "case CBB_flush env h c of
     (True, c') \<Rightarrow> represents c' (close_at h fs) \<and> closable h fs
   | (False, c') \<Rightarrow> error (base c') \<and> \<not> (roomy env m (base c) \<and> closable h fs)"
  using refines_flush [of env m h, unfolded refines_def, rule_format, of c fs] assms
  by (auto split: prod.splits bool.splits)

theorem CBB_flush_refines_witness:
  "case CBB_flush generous_env 0 (the (CBB_init generous_env 4)) of
     (True, c') \<Rightarrow> represents c' (close_at 0 fresh) \<and> closable 0 fresh
   | (False, c') \<Rightarrow> error (base c') \<and> \<not> (roomy generous_env 9 (base (the (CBB_init generous_env 4))) \<and> closable 0 fresh)"
proof -
  have "\<exists>c. CBB_init generous_env 4 = Some c" by (rule CBB_init_succeeds) (simp_all add: generous_env_def SIZE_LIMIT_def)
  then have "represents (the (CBB_init generous_env 4)) fresh"
    using CBB_init_represents(1) [of generous_env 4] by (auto simp: SIZE_LIMIT_def)
  then show ?thesis by (rule CBB_flush_refines) simp_all
qed

lemma length_der_tlv: "length (der_tlv t c) \<le> 11 + length c"
  using length_der_tag [of t] length_der_len [of "length c"] by (simp add: der_tlv_def)

text \<open>What a writer produces, a reader of the same format takes back.\<close>

lemma run_writer_read:
  assumes a: "\<And>m. adds env m 0 op g d" and n: "n \<le> 2 ^ 62"
    and len: "g \<Longrightarrow> length d \<le> 2 ^ 62" and dec: "g \<Longrightarrow> dec d = (Some x, [])"
  shows "(run_writer env n op = Some out \<longrightarrow> g \<and> dec out = (Some x, [])) \<and>
    (g \<and> (\<forall>n. heap_ok env n) \<longrightarrow> (\<exists>out. run_writer env n op = Some out))"
proof (intro conjI impI)
  show "dec out = (Some x, [])" "g" if "run_writer env n op = Some out"
    using run_writer_adds(1) [OF a n that] dec by simp_all
  show "\<exists>out. run_writer env n op = Some out" if "g \<and> (\<forall>n. heap_ok env n)"
    using run_writer_adds(2) [OF a n] that len by blast
qed

lemma generous_env_ok: "\<forall>n. heap_ok generous_env n"
  by (simp add: generous_env_def)

text \<open>C23. A number written with \<open>CBB_add_asn1_int64\<close> is read back by \<open>CBS_get_asn1_int64\<close>, with
  nothing left over, and with memory available the writer does produce it.\<close>

theorem int64_written_is_read:
  assumes "n \<le> 2 ^ 62"
  shows "(run_writer env n (CBB_add_asn1_int64 env 0 v) = Some out \<longrightarrow> CBS_get_asn1_int64 out = (Some v, [])) \<and>
    ((\<forall>n. heap_ok env n) \<longrightarrow> (\<exists>out. run_writer env n (CBB_add_asn1_int64 env 0 v) = Some out))"
proof -
  have "length (der_tlv CBS_ASN1_INTEGER (int_octets v)) \<le> 2 ^ 62"
    using length_der_tlv [of CBS_ASN1_INTEGER "int_octets v"] int_octets_extended(2) [of v] by simp
  then show ?thesis
    using run_writer_read [OF adds_int64 assms, of v CBS_get_asn1_int64 v env out] asn1_int64.dec_enc_nil [of v] by simp
qed

theorem int64_written_is_read_witness:
  "\<exists>out. run_writer generous_env 1 (CBB_add_asn1_int64 generous_env 0 (- 129)) = Some out
     \<and> CBS_get_asn1_int64 out = (Some (- 129), [])"
proof -
  have "1 \<le> (2 :: nat) ^ 62" by simp
  note w = int64_written_is_read [OF this, of generous_env "- 129"]
  obtain out where "run_writer generous_env 1 (CBB_add_asn1_int64 generous_env 0 (- 129)) = Some out"
    using w generous_env_ok by blast
  with w [of out] show ?thesis by blast
qed

text \<open>A string written under a 16-bit length prefix is read back by
  \<open>CBS_get_u16_length_prefixed\<close>; a string too long for the prefix makes the writer fail instead
  of truncating the length.\<close>

theorem u16_prefixed_written_is_read:
  assumes "n \<le> 2 ^ 62" and "length data < SIZE_LIMIT"
    and "op = cbb_then (CBB_add_u16_length_prefixed env 0) (cbb_then (CBB_add_bytes env 1 data) (CBB_flush env 0))"
  shows "(run_writer env n op = Some out \<longrightarrow>
        length data < 65536 \<and> CBS_get_u16_length_prefixed out = (Some data, [])) \<and>
    (length data < 65536 \<and> (\<forall>n. heap_ok env n) \<longrightarrow> (\<exists>out. run_writer env n op = Some out))"
proof -
  have op: "adds env m 0 op (length data < 65536) (be_bytes 2 (length data) @ data)" for m
    using adds_element [OF opens_length_prefixed adds_bytes, of 2 data env m 0] assms(2,3)
    by (simp add: child_ok_def fits_def hdr_def CBB_add_u16_length_prefixed_def)
  have "length data < 256 ^ 2 \<Longrightarrow> CBS_get_u16_length_prefixed (be_bytes 2 (length data) @ data) = (Some data, [])"
    by (rule len16.dec_enc_nil)
  then show ?thesis by (intro run_writer_read [OF op assms(1)]) simp_all
qed

theorem u16_prefixed_written_is_read_witness:
  "\<exists>out. run_writer generous_env 0 (cbb_then (CBB_add_u16_length_prefixed generous_env 0)
      (cbb_then (CBB_add_bytes generous_env 1 [1, 2, 3]) (CBB_flush generous_env 0))) = Some out
     \<and> CBS_get_u16_length_prefixed out = (Some [1, 2, 3], [])"
    (is "\<exists>out. ?run = Some out \<and> _")
proof -
  have "0 \<le> (2 :: nat) ^ 62" "length [1, 2, 3 :: u8] < SIZE_LIMIT" by (simp_all add: SIZE_LIMIT_def)
  note w = u16_prefixed_written_is_read [OF this refl, of generous_env]
  have "length [1, 2, 3 :: u8] < 65536" by simp
  then obtain out where "?run = Some out" using w generous_env_ok by blast
  with w [of out] show ?thesis by blast
qed

text \<open>C29. \<open>CBB_add_asn1\<close> composes: if writing to the child appends \<open>c\<close> to it, then opening the child,
  writing, and flushing the parent appends exactly the DER element with that tag and
  contents, long lengths included, in every state of the family.\<close>

theorem asn1_element_written:
  assumes "adds env m (Suc h) op g c"
  shows "adds env m h (cbb_then (CBB_add_asn1 env h t) (cbb_then op (CBB_flush env h)))
    (g \<and> length c \<le> 0xfffffffe) (der_tlv t c)"
  using assms by (rule adds_asn1)

theorem asn1_element_written_witness:
  "adds generous_env 100 0 (cbb_then (CBB_add_asn1 generous_env 0 CBS_ASN1_INTEGER)
      (cbb_then (CBB_add_u8 generous_env 1 5) (CBB_flush generous_env 0))) True [2, 1, 5]"
proof -
  have "adds generous_env 100 (Suc 0) (CBB_add_u8 generous_env (Suc 0) 5) True [5]" by (rule adds_u8)
  from asn1_element_written [OF this, of CBS_ASN1_INTEGER] show ?thesis
    by (simp add: der_tlv_def der_tag_def der_len_def Let_def)
qed

lemma flush_error:
  assumes "error (base c)"
  shows "\<exists>c'. CBB_flush env h c = (False, c')"
proof -
  have "fst (cbb_flush_chain env (base c) cs) = False" for cs using assms by (cases cs) auto
  then show ?thesis
    by (auto simp: CBB_flush_def split: prod.splits) (metis fst_conv)
qed

text \<open>The error flag is sticky: once set, flushing, adding bytes, integers or elements, and
  finishing all fail, so a client may check the last call only.\<close>

theorem cbb_error_sticky:
  assumes "error (base c)"
  shows "\<not> fst (CBB_flush env h c) \<and> \<not> fst (CBB_add_bytes env h data c) \<and> \<not> fst (CBB_add_u64 env h v c) \<and>
    \<not> fst (CBB_add_asn1 env h t c) \<and> \<not> fst (CBB_add_u24_length_prefixed env h c) \<and> fst (CBB_finish env h c) = None"
proof -
  obtain c1 c2 where "CBB_flush env h c = (False, c1)" "CBB_flush env 0 c = (False, c2)"
    using flush_error [OF assms] by metis
  then show ?thesis
    by (simp add: CBB_add_bytes_def CBB_add_u64_def cbb_add_u_def CBB_add_asn1_def Let_def CBB_finish_def
        CBB_add_u24_length_prefixed_def cbb_add_length_prefixed_def cbb_then_def)
qed

theorem cbb_error_sticky_witness:
  "fst (CBB_finish generous_env 0
     \<lparr>base = \<lparr>buf = [], blen = 0, cap = 0, can_resize = False, error = True\<rparr>, chain = [root_node]\<rparr>) = None"
  using cbb_error_sticky [of "\<lparr>base = \<lparr>buf = [], blen = 0, cap = 0, can_resize = False, error = True\<rparr>, chain = [root_node]\<rparr>"]
  by simp

end
