(* ===== verification/Oid.thy ===== *)
theory Oid
  imports CbbSpec
begin

text \<open>
  Object identifiers between their DER contents and dotted decimal text:
  \<open>CBB_add_asn1_oid_from_text\<close> of \<open>crypto/bytestring/cbb.c\<close> and \<open>CBS_asn1_oid_to_text\<close> of
  \<open>crypto/bytestring/cbs.c\<close>, and the round trip between the two.
\<close>

section \<open>Decimal numbers\<close>

text \<open>One dotted component: the loop stops at the end of the string or at a dot that is not
  the last character, which it consumes.\<close>

fun parse_dotted_loop :: "u64 \<Rightarrow> bool \<Rightarrow> u64 reader" where
  "parse_dotted_loop out seen_digit [] = ((if seen_digit then Some out else None), [])"
| "parse_dotted_loop out seen_digit (u # cbs) =
     (if u = 46 \<and> length cbs > 0 then ((if seen_digit then Some out else None), cbs)
      else if u < 48 \<or> u > 57 \<or> (seen_digit \<and> out = 0) \<or> out > (- 1) div 10 \<or>
              out * 10 > (- 1) - (ucast u - 48)
      then (None, cbs)
      else parse_dotted_loop (out * 10 + (ucast u - 48)) True cbs)"

definition parse_dotted_decimal :: "u64 reader" where
  "parse_dotted_decimal cbs = parse_dotted_loop 0 False cbs"

text \<open>What \<open>printf\<close> writes for an unsigned number.\<close>

function dec_hi :: "nat \<Rightarrow> bytes" where
  "dec_hi n = (if n = 0 then [] else dec_hi (n div 10) @ [word_of_nat (48 + n mod 10)])"
  by pat_completeness auto
termination by (relation "measure id") auto

declare dec_hi.simps [simp del]

definition decimal :: "nat \<Rightarrow> bytes" where
  "decimal n = (if n = 0 then [48] else dec_hi n)"

lemma parse_dotted_loop_shorter:
  "parse_dotted_loop out seen cbs = (Some v, r) \<Longrightarrow> length r < length cbs \<or> cbs = []"
  by (induction out seen cbs rule: parse_dotted_loop.induct) (auto split: if_splits)

lemma parse_dotted_shorter:
  "parse_dotted_decimal cbs = (Some v, r) \<Longrightarrow> length r < length cbs"
  using parse_dotted_loop_shorter [of 0 False cbs v r] by (auto simp: parse_dotted_decimal_def)

section \<open>Text to DER\<close>

function oid_components :: "heap_env \<Rightarrow> nat \<Rightarrow> cbs \<Rightarrow> cbb_op" where
  "oid_components env h cbs c =
     (if length cbs > 0 then
        (case parse_dotted_decimal cbs of
           (None, _) \<Rightarrow> (False, c)
         | (Some a, cbs') \<Rightarrow>
             (case add_base128_integer env h a c of
                (False, c') \<Rightarrow> (False, c')
              | (True, c') \<Rightarrow> oid_components env h cbs' c'))
      else (True, c))"
  by pat_completeness auto
termination
  by (relation "measure (\<lambda>(env, h, cbs, c). length cbs)") (auto dest: parse_dotted_shorter [OF sym])

declare oid_components.simps [simp del]

definition CBB_add_asn1_oid_from_text :: "heap_env \<Rightarrow> nat \<Rightarrow> bytes \<Rightarrow> cbb_op" where
  "CBB_add_asn1_oid_from_text env h txt =
     cbb_then (CBB_flush env h) (\<lambda>c.
       (case parse_dotted_decimal txt of
          (None, _) \<Rightarrow> (False, c)
        | (Some a, cbs) \<Rightarrow>
            (case parse_dotted_decimal cbs of
               (None, _) \<Rightarrow> (False, c)
             | (Some b, cbs) \<Rightarrow>
                 if a > 2 \<or> (a < 2 \<and> b > 39) \<or> b > (- 1) - 80 then (False, c)
                 else cbb_then (add_base128_integer env h (40 * a + b)) (oid_components env h cbs) c)))"

section \<open>DER to text\<close>

definition add_decimal :: "heap_env \<Rightarrow> nat \<Rightarrow> u64 \<Rightarrow> cbb_op" where
  "add_decimal env h v = CBB_add_bytes env h (decimal (unat v))"

lemma parse_base128_shorter: "parse_base128_integer cbs = (Some v, r) \<Longrightarrow> length r < length cbs"
  by (auto simp: parse_base128_iff b128_def)

function oid_text_rest :: "heap_env \<Rightarrow> cbs \<Rightarrow> cbb_op" where
  "oid_text_rest env cbs c =
     (if length cbs \<noteq> 0 then
        (case parse_base128_integer cbs of
           (None, _) \<Rightarrow> (False, c)
         | (Some v, cbs') \<Rightarrow>
             (case cbb_then (CBB_add_u8 env 0 46) (add_decimal env 0 v) c of
                (False, c') \<Rightarrow> (False, c')
              | (True, c') \<Rightarrow> oid_text_rest env cbs' c'))
      else (True, c))"
  by pat_completeness auto
termination
  by (relation "measure (\<lambda>(env, cbs, c). length cbs)") (auto dest: parse_base128_shorter [OF sym])

declare oid_text_rest.simps [simp del]

definition CBS_asn1_oid_to_text :: "heap_env \<Rightarrow> cbs \<Rightarrow> bytes option" where
  "CBS_asn1_oid_to_text env cbs =
     (case CBB_init env 32 of
        None \<Rightarrow> None
      | Some cbb \<Rightarrow>
          (case parse_base128_integer cbs of
             (None, _) \<Rightarrow> None
           | (Some v, copy) \<Rightarrow>
               (case cbb_then
                       (if v \<ge> 80 then cbb_then (CBB_add_bytes env 0 [50, 46]) (add_decimal env 0 (v - 80))
                        else cbb_then (add_decimal env 0 (v div 40))
                               (cbb_then (CBB_add_u8 env 0 46) (add_decimal env 0 (v mod 40))))
                       (cbb_then (oid_text_rest env copy) (CBB_add_u8 env 0 0)) cbb of
                  (False, _) \<Rightarrow> None
                | (True, cbb') \<Rightarrow> fst (CBB_finish env 0 cbb'))))"

section \<open>Parsing and printing components\<close>

definition sep :: "bytes \<Rightarrow> bytes" where
  "sep r = (if r = [] then [] else 46 # r)"

lemma sep_Nil [simp]: "sep [] = []" "sep (a # r) = 46 # a # r"
  by (simp_all add: sep_def)

lemma dec_hi_0 [simp]: "dec_hi 0 = []"
  by (simp add: dec_hi.simps)

lemma dec_hi_step: "0 < n \<Longrightarrow> dec_hi n = dec_hi (n div 10) @ [word_of_nat (48 + n mod 10)]"
  by (subst dec_hi.simps) simp

text \<open>One step of the loop over natural numbers.\<close>

lemma digit_word:
  assumes "48 \<le> unat u" "unat u \<le> 57"
  shows "unat (ucast (u :: u8) - 48 :: u64) = unat u - 48"
proof -
  have "unat (ucast u :: u64) = unat u" by (simp add: unat_ucast_byte)
  then show ?thesis using assms by (subst unat_sub) (simp_all add: word_le_nat_alt)
qed

lemma unat_max: "unat (- 1 :: u64) = 2 ^ 64 - 1"
  by (simp add: unsigned_minus_1_eq_mask mask_eq_exp_minus_1)

lemma overflow_check:
  fixes out d :: u64
  assumes d: "unat d \<le> 9"
  shows "out > (- 1) div 10 \<or> out * 10 > (- 1) - d \<longleftrightarrow> 2 ^ 64 \<le> unat out * 10 + unat d"
    and "out * 10 + d = word_of_nat (unat out * 10 + unat d)"
proof -
  show "out * 10 + d = word_of_nat (unat out * 10 + unat d)" by simp
  have q: "unat ((- 1 :: u64) div 10) = 1844674407370955161" by (simp add: unat_div unat_max)
  show "out > (- 1) div 10 \<or> out * 10 > (- 1) - d \<longleftrightarrow> 2 ^ 64 \<le> unat out * 10 + unat d"
  proof (cases "unat out \<le> 1844674407370955161")
    case True
    then have "unat (out * 10) = unat out * 10" by (simp add: unat_word_ariths)
    moreover have "unat ((- 1) - d) = 2 ^ 64 - 1 - unat d"
      using d by (subst unat_sub) (simp_all add: unat_max word_le_nat_alt)
    ultimately show ?thesis using True d unfolding word_less_nat_alt q by auto
  next
    case False
    then show ?thesis unfolding word_less_nat_alt q by auto
  qed
qed

text \<open>One step of the loop over natural numbers.\<close>

lemma parse_dotted_step:
  "parse_dotted_loop out seen (u # cbs) =
     (if u = 46 \<and> cbs \<noteq> [] then ((if seen then Some out else None), cbs)
      else if 48 \<le> unat u \<and> unat u \<le> 57 \<and> \<not> (seen \<and> out = 0) \<and> unat out * 10 + (unat u - 48) < 2 ^ 64
      then parse_dotted_loop (word_of_nat (unat out * 10 + (unat u - 48))) True cbs
      else (None, cbs))"
proof (cases "48 \<le> unat u \<and> unat u \<le> 57")
  case True
  let ?d = "ucast u - 48 :: u64"
  have d: "unat ?d = unat u - 48" using True by (intro digit_word) auto
  have d9: "unat ?d \<le> 9" using True d by linarith
  note o = overflow_check [OF d9, of out]
  have eq: "parse_dotted_loop out seen (u # cbs) =
     (if u = 46 \<and> cbs \<noteq> [] then ((if seen then Some out else None), cbs)
      else if (seen \<and> out = 0) \<or> (out > (- 1) div 10 \<or> out * 10 > (- 1) - ?d) then (None, cbs)
      else parse_dotted_loop (out * 10 + ?d) True cbs)"
    using True by (auto simp: word_less_nat_alt)
  show ?thesis unfolding eq o using True by (auto simp: d not_less)
next
  case False
  then have "u < 48 \<or> u > 57" by (auto simp: word_less_nat_alt)
  with False show ?thesis by auto
qed

declare parse_dotted_loop.simps(2) [simp del]

lemma parse_dotted_Some:
  assumes "parse_dotted_loop out True cbs = (Some v, r)" and "out \<noteq> 0"
  shows "dec_hi (unat out) @ cbs = dec_hi (unat v) @ sep r \<and> v \<noteq> 0"
  using assms
proof (induction cbs arbitrary: out)
  case (Cons u cbs)
  show ?case
  proof (cases "u = 46 \<and> cbs \<noteq> []")
    case True
    with Cons.prems show ?thesis by (cases cbs) (auto simp: parse_dotted_step)
  next
    case False
    let ?n = "unat out * 10 + (unat u - 48)"
    from Cons.prems False have u: "48 \<le> unat u" "unat u \<le> 57" and n: "?n < 2 ^ 64"
      and p: "parse_dotted_loop (word_of_nat ?n) True cbs = (Some v, r)"
      by (auto simp: parse_dotted_step simp del: of_nat_add of_nat_mult of_nat_diff split: if_splits)
    have un: "unat (word_of_nat ?n :: u64) = ?n" using n by (simp add: unat_of_nat del: of_nat_add of_nat_mult of_nat_diff)
    have pos: "0 < unat out" using Cons.prems(2) by (simp add: unat_gt_0)
    then have "word_of_nat ?n \<noteq> (0 :: u64)" using un by (metis add_is_0 mult_is_0 not_gr0 unsigned_0 zero_neq_numeral)
    from Cons.IH [OF p this] un have "dec_hi ?n @ cbs = dec_hi (unat v) @ sep r \<and> v \<noteq> 0" by simp
    moreover have "dec_hi ?n = dec_hi (unat out) @ [u]"
    proof -
      obtain e where "unat u = 48 + e" "e < 10" using u by (auto dest: le_Suc_ex)
      then have "?n div 10 = unat out" "?n mod 10 = unat u - 48" by simp_all
      moreover have "(word_of_nat (48 + (unat u - 48)) :: u8) = u" using u by (simp add: word_of_unat)
      ultimately show ?thesis using pos dec_hi_step [of ?n] by simp
    qed
    ultimately show ?thesis by simp
  qed
qed simp

lemma parse_dec_hi:
  assumes "0 < n" "n < 2 ^ 64"
  shows "parse_dotted_loop 0 False (dec_hi n @ t) = parse_dotted_loop (word_of_nat n) True t"
  using assms
proof (induction n arbitrary: t rule: dec_hi.induct)
  case (1 n)
  let ?m = "n div 10" and ?u = "word_of_nat (48 + n mod 10) :: u8"
  have u: "unat ?u = 48 + n mod 10" by (simp add: unat_of_nat del: of_nat_add)
  have "n mod 10 < 10" by simp
  then have u57: "unat ?u \<le> 57" using u by linarith
  have u46: "?u \<noteq> 46" using u by (auto simp: word_unat_eq_iff)
  have n: "?m * 10 + n mod 10 = n" by simp
  have m: "?m < 2 ^ 64" using 1 by auto
  have um: "unat (word_of_nat ?m :: u64) = ?m" using m by (simp add: unat_of_nat)
  show ?case
  proof (cases "?m = 0")
    case True
    then have "parse_dotted_loop 0 False (dec_hi n @ t) = parse_dotted_loop 0 False (?u # t)"
      using 1 dec_hi_step [of n] by simp
    then show ?thesis using True u u57 u46 n 1 by (simp add: parse_dotted_step)
  next
    case False
    have "parse_dotted_loop 0 False (dec_hi n @ t) = parse_dotted_loop (word_of_nat ?m) True (?u # t)"
      using 1 False m dec_hi_step [of n] by simp
    moreover have "word_of_nat ?m \<noteq> (0 :: u64)" using False um by (metis unsigned_0)
    ultimately show ?thesis using u u57 u46 n 1 um by (simp add: parse_dotted_step)
  qed
qed

lemma parse_dotted_end: "parse_dotted_loop v True (sep r) = (Some v, r)"
  by (cases r) (simp_all add: parse_dotted_step)

lemma parse_dotted_iff:
  "parse_dotted_decimal cbs = (Some v, r) \<longleftrightarrow> cbs = decimal (unat v) @ sep r"
proof
  assume p: "parse_dotted_decimal cbs = (Some v, r)"
  then obtain u cbs' where cbs: "cbs = u # cbs'" by (cases cbs) (auto simp: parse_dotted_decimal_def)
  let ?d = "unat u - 48"
  from p have u: "48 \<le> unat u" "unat u \<le> 57" and q: "parse_dotted_loop (word_of_nat ?d) True cbs' = (Some v, r)"
    by (auto simp: parse_dotted_decimal_def cbs parse_dotted_step split: if_splits)
  have uw: "u = word_of_nat (48 + ?d)" using u by (simp add: word_of_unat)
  show "cbs = decimal (unat v) @ sep r"
  proof (cases "?d = 0")
    case True
    then have "cbs' = sep r \<and> v = 0" using q by (cases cbs') (auto simp: parse_dotted_step sep_def split: if_splits)
    with True uw cbs show ?thesis by (simp add: decimal_def)
  next
    case False
    have d: "unat (word_of_nat ?d :: u64) = ?d" using u by (simp add: unat_of_nat del: of_nat_diff)
    then have "word_of_nat ?d \<noteq> (0 :: u64)" using False by (metis unsigned_0)
    from parse_dotted_Some [OF q this] d have "dec_hi ?d @ cbs' = dec_hi (unat v) @ sep r" "v \<noteq> 0" by auto
    moreover have "dec_hi ?d = [u]" using dec_hi_step [of ?d] False u uw by simp
    ultimately show ?thesis using cbs by (simp add: decimal_def unat_eq_0)
  qed
next
  assume cbs: "cbs = decimal (unat v) @ sep r"
  show "parse_dotted_decimal cbs = (Some v, r)"
  proof (cases "v = 0")
    case True
    then show ?thesis by (simp add: cbs decimal_def parse_dotted_decimal_def parse_dotted_step parse_dotted_end)
  next
    case False
    then have "0 < unat v" by (simp add: unat_gt_0)
    then show ?thesis using parse_dec_hi [of "unat v" "sep r"] unat_u64_less [of v]
      by (simp add: cbs decimal_def parse_dotted_decimal_def parse_dotted_end)
  qed
qed


section \<open>The text and the contents of an identifier\<close>

fun dots :: "u64 list \<Rightarrow> bytes" where
  "dots [] = []"
| "dots (v # vs) = decimal (unat v) @ sep (dots vs)"

definition oid_der :: "u64 list \<Rightarrow> bytes" where
  "oid_der vs = concat (map (\<lambda>v. b128 (unat v)) vs)"

definition arcs_ok :: "u64 \<Rightarrow> u64 \<Rightarrow> bool" where
  "arcs_ok a b \<longleftrightarrow> unat a \<le> 2 \<and> (unat a < 2 \<longrightarrow> unat b \<le> 39) \<and> unat b < 2 ^ 64 - 80"

definition first_value :: "u64 \<Rightarrow> u64 \<Rightarrow> u64" where
  "first_value a b = 40 * a + b"

lemma dec_hi_not_Nil: "0 < n \<Longrightarrow> dec_hi n \<noteq> []"
  by (simp add: dec_hi_step)

lemma decimal_not_Nil [simp]: "decimal n \<noteq> []"
  by (simp add: decimal_def dec_hi_not_Nil)

lemma dots_not_Nil [simp]: "dots (v # vs) \<noteq> []"
  by simp

lemma length_dec_hi: "n < 10 ^ k \<Longrightarrow> length (dec_hi n) \<le> k"
proof (induction k arbitrary: n)
  case (Suc k)
  then have "n div 10 < 10 ^ k" by (simp add: less_mult_imp_div_less mult.commute)
  with Suc.IH show ?case by (cases "n = 0") (simp_all add: dec_hi_step)
qed simp

lemma length_decimal: "length (decimal (unat (v :: u64))) \<le> 20"
  using unat_u64_less [of v] length_dec_hi [of "unat v" 20] by (simp add: decimal_def)

lemma length_decimal_size: "length (decimal (unat (v :: u64))) < SIZE_LIMIT"
  using length_decimal [of v] by (simp add: SIZE_LIMIT_def)

lemma parse_dots: "parse_dotted_decimal (dots (v # vs)) = (Some v, dots vs)"
  by (simp add: parse_dotted_iff)

lemma arcs_check:
  "\<not> (a > 2 \<or> (a < 2 \<and> b > 39) \<or> b > (- 1) - 80) \<longleftrightarrow> arcs_ok a b"
proof -
  have "unat ((- 1 :: u64) - 80) = 2 ^ 64 - 1 - 80" by (subst unat_sub) (simp_all add: unat_max word_le_nat_alt)
  then show ?thesis by (auto simp: arcs_ok_def word_less_nat_alt)
qed

lemma adds_oid_components:
  "adds env m h op g d \<Longrightarrow> adds env m h (cbb_then op (oid_components env h (dots vs))) g (d @ oid_der vs)"
proof (induction vs arbitrary: op d)
  case Nil
  have "oid_components env h (dots []) = (\<lambda>c. (True, c))" by (simp add: fun_eq_iff oid_components.simps)
  with adds_return [OF Nil] show ?case by (simp add: oid_der_def)
next
  case (Cons v vs)
  have "oid_components env h (dots (v # vs)) = cbb_then (add_base128_integer env h v) (oid_components env h (dots vs))"
    by (subst oid_components.simps [abs_def]) (simp add: fun_eq_iff parse_dots cbb_then_def del: dots.simps)
  moreover have "cbb_then op (cbb_then f g) = cbb_then (cbb_then op f) g" for f g
    by (simp add: fun_eq_iff cbb_then_def split: prod.splits bool.splits)
  moreover have "adds env m h (cbb_then op (add_base128_integer env h v)) g (d @ b128 (unat v))"
    using adds_then [OF Cons.prems adds_base128_integer, of v] by simp
  ultimately show ?case using Cons.IH by (fastforce simp: oid_der_def)
qed

lemma oid_components_fails: "fst (oid_components env h cbs c) \<Longrightarrow> \<exists>vs. cbs = dots vs"
proof (induction env h cbs c rule: oid_components.induct)
  case (1 env h cbs c)
  show ?case
  proof (cases cbs)
    case (Cons u us)
    from "1.prems" Cons obtain a cbs' c' where p: "parse_dotted_decimal cbs = (Some a, cbs')"
      and c': "add_base128_integer env h a c = (True, c')" and "fst (oid_components env h cbs' c')"
      by (subst (asm) oid_components.simps) (auto split: option.splits prod.splits bool.splits)
    then obtain vs where "cbs' = dots vs" using "1.IH" Cons by fastforce
    then have "cbs = dots (a # vs)" using p by (simp add: parse_dotted_iff)
    then show ?thesis ..
  qed (auto intro: exI [of _ "[]"])
qed

lemma adds_oid_from_text:
  assumes "arcs_ok a b"
  shows "adds env m h (CBB_add_asn1_oid_from_text env h (dots (a # b # vs))) True (oid_der (first_value a b # vs))"
proof -
  have "adds env m h (cbb_then (CBB_flush env h) (cbb_then (add_base128_integer env h (first_value a b)) (oid_components env h (dots vs))))
      True (oid_der (first_value a b # vs))"
    using adds_after_flush [OF adds_oid_components [OF adds_base128_integer, of env m h "first_value a b" vs]]
    by (simp add: oid_der_def)
  moreover have "(a > 2 \<or> (a < 2 \<and> b > 39) \<or> b > (- 1) - 80) = False" using assms arcs_check by blast
  ultimately show ?thesis
    by (simp only: CBB_add_asn1_oid_from_text_def parse_dots first_value_def option.case prod.case if_False)
qed

lemma oid_from_text_ok:
  assumes "fst (CBB_add_asn1_oid_from_text env h txt c)"
  shows "\<exists>a b vs. txt = dots (a # b # vs) \<and> arcs_ok a b"
proof -
  from assms obtain a b r1 r2 c1 c2 where a: "parse_dotted_decimal txt = (Some a, r1)"
    and b: "parse_dotted_decimal r1 = (Some b, r2)" and ok: "\<not> (a > 2 \<or> (a < 2 \<and> b > 39) \<or> b > (- 1) - 80)"
    and r: "fst (oid_components env h r2 c2)"
    unfolding CBB_add_asn1_oid_from_text_def cbb_then_def
    by (fastforce split: option.splits prod.splits bool.splits if_splits)
  from oid_components_fails [OF r] obtain vs where "r2 = dots vs" ..
  with a b have "txt = dots (a # b # vs)" by (simp add: parse_dotted_iff)
  with ok arcs_check show ?thesis by blast
qed

section \<open>Printing\<close>

definition oid_text :: "u64 \<Rightarrow> u64 list \<Rightarrow> bytes" where
  "oid_text v vs = (if 80 \<le> unat v then dots (2 # (v - 80) # vs) else dots ((v div 40) # (v mod 40) # vs))"

interpretation base128: canonical_codec "\<lambda>v. b128 (unat v)" parse_base128_integer "\<lambda>_. True"
  by unfold_locales (simp_all add: parse_base128_iff)

lemma adds_decimal: "adds env m h (add_decimal env h v) True (decimal (unat v))"
  unfolding add_decimal_def by (rule adds_bytes [OF length_decimal_size])

lemma sep_dots: "46 # decimal (unat v) @ sep (dots vs) = sep (dots (v # vs))"
  by (simp add: sep_def)

lemma adds_oid_text_rest:
  "adds env m 0 op g d \<Longrightarrow> adds env m 0 (cbb_then op (oid_text_rest env (oid_der vs))) g (d @ sep (dots vs))"
proof (induction vs arbitrary: op d)
  case Nil
  have "oid_text_rest env (oid_der []) = (\<lambda>c. (True, c))" by (simp add: fun_eq_iff oid_text_rest.simps oid_der_def)
  with adds_return [OF Nil] show ?case by simp
next
  case (Cons v vs)
  let ?put = "cbb_then (CBB_add_u8 env 0 46) (add_decimal env 0 v)"
  have "parse_base128_integer (oid_der (v # vs)) = (Some v, oid_der vs)" "oid_der (v # vs) \<noteq> []"
    by (simp_all add: oid_der_def parse_base128_iff b128_def)
  then have "oid_text_rest env (oid_der (v # vs)) = cbb_then ?put (oid_text_rest env (oid_der vs))"
    by (subst oid_text_rest.simps [abs_def]) (simp add: fun_eq_iff cbb_then_def)
  moreover have "cbb_then op (cbb_then f g) = cbb_then (cbb_then op f) g" for f g
    by (simp add: fun_eq_iff cbb_then_def split: prod.splits bool.splits)
  moreover have "adds env m 0 (cbb_then op ?put) g (d @ [46] @ decimal (unat v))"
    using adds_then [OF Cons.prems adds_then [OF adds_u8 adds_decimal], of 46 v] by simp
  from Cons.IH [OF this] have "adds env m 0 (cbb_then (cbb_then op ?put) (oid_text_rest env (oid_der vs))) g (d @ sep (dots (v # vs)))"
    by (simp del: dots.simps add: sep_dots)
  ultimately show ?case by simp
qed

lemma oid_text_rest_ok: "fst (oid_text_rest env cbs c) \<Longrightarrow> \<exists>vs. cbs = oid_der vs"
proof (induction env cbs c rule: oid_text_rest.induct)
  case (1 env cbs c)
  show ?case
  proof (cases cbs)
    case (Cons u us)
    from "1.prems" Cons obtain a cbs' c' where p: "parse_base128_integer cbs = (Some a, cbs')"
      and c': "cbb_then (CBB_add_u8 env 0 46) (add_decimal env 0 a) c = (True, c')" and "fst (oid_text_rest env cbs' c')"
      by (subst (asm) oid_text_rest.simps) (auto split: option.splits prod.splits bool.splits)
    then obtain vs where "cbs' = oid_der vs" using "1.IH" Cons by fastforce
    then have "cbs = oid_der (a # vs)" using p by (simp add: parse_base128_iff oid_der_def)
    then show ?thesis ..
  qed (auto simp: oid_der_def intro: exI [of _ "[]"])
qed


definition text_op :: "heap_env \<Rightarrow> u64 \<Rightarrow> cbs \<Rightarrow> cbb_op" where
  "text_op env v copy =
     cbb_then
       (if v \<ge> 80 then cbb_then (CBB_add_bytes env 0 [50, 46]) (add_decimal env 0 (v - 80))
        else cbb_then (add_decimal env 0 (v div 40))
               (cbb_then (CBB_add_u8 env 0 46) (add_decimal env 0 (v mod 40))))
       (cbb_then (oid_text_rest env copy) (CBB_add_u8 env 0 0))"

lemma to_text_run:
  "CBS_asn1_oid_to_text env cbs =
     (case parse_base128_integer cbs of (None, _) \<Rightarrow> None | (Some v, copy) \<Rightarrow> run_writer env 32 (text_op env v copy))"
  by (auto simp: CBS_asn1_oid_to_text_def run_writer_def text_op_def split: option.splits prod.splits)

lemma adds_text_op: "adds env m 0 (text_op env v (oid_der vs)) True (oid_text v vs @ [0])"
proof -
  let ?p = "if v \<ge> 80 then cbb_then (CBB_add_bytes env 0 [50, 46]) (add_decimal env 0 (v - 80))
        else cbb_then (add_decimal env 0 (v div 40))
               (cbb_then (CBB_add_u8 env 0 46) (add_decimal env 0 (v mod 40)))"
  let ?d = "if 80 \<le> unat v then [50, 46] @ decimal (unat (v - 80))
    else decimal (unat (v div 40)) @ [46] @ decimal (unat (v mod 40))"
  have "length [50, 46 :: u8] < SIZE_LIMIT" by (simp add: SIZE_LIMIT_def)
  then have "adds env m 0 (cbb_then (CBB_add_bytes env 0 [50, 46]) (add_decimal env 0 (v - 80))) True ([50, 46] @ decimal (unat (v - 80)))"
    using adds_then [OF adds_bytes adds_decimal] by fastforce
  moreover have "adds env m 0 (cbb_then (add_decimal env 0 (v div 40)) (cbb_then (CBB_add_u8 env 0 46) (add_decimal env 0 (v mod 40)))) True
     (decimal (unat (v div 40)) @ [46] @ decimal (unat (v mod 40)))"
    using adds_then [OF adds_decimal adds_then [OF adds_u8 adds_decimal]] by fastforce
  ultimately have "adds env m 0 ?p True ?d" by (simp add: word_le_nat_alt)
  from adds_then [OF adds_oid_text_rest [OF this] adds_u8, of vs 0]
  have "adds env m 0 (cbb_then (cbb_then ?p (oid_text_rest env (oid_der vs))) (CBB_add_u8 env 0 0)) True (?d @ sep (dots vs) @ [0])"
    by simp
  moreover have "cbb_then (cbb_then f g) k = cbb_then f (cbb_then g k)" for f g k
    by (simp add: fun_eq_iff cbb_then_def split: prod.splits bool.splits)
  moreover have "?d @ sep (dots vs) = oid_text v vs"
    by (simp add: oid_text_def sep_def decimal_def dec_hi_step)
  ultimately show ?thesis unfolding text_op_def by (metis append_assoc)
qed

lemma to_text_Some:
  assumes "CBS_asn1_oid_to_text env cbs = Some out"
  shows "\<exists>v vs. cbs = oid_der (v # vs) \<and> out = oid_text v vs @ [0]"
proof -
  from assms obtain v copy where p: "parse_base128_integer cbs = (Some v, copy)"
    and r: "run_writer env 32 (text_op env v copy) = Some out"
    by (auto simp: to_text_run split: option.splits prod.splits)
  then obtain c where "fst (oid_text_rest env copy c)"
    by (auto simp: run_writer_def text_op_def cbb_then_def split: option.splits prod.splits bool.splits) (metis fst_conv)+
  then obtain vs where vs: "copy = oid_der vs" using oid_text_rest_ok by blast
  have "(32 :: nat) \<le> 2 ^ 62" by simp
  from run_writer_adds(1) [OF adds_text_op this r [unfolded vs]] have "out = oid_text v vs @ [0]" by simp
  moreover have "cbs = oid_der (v # vs)" using p vs by (simp add: parse_base128_iff oid_der_def)
  ultimately show ?thesis by blast
qed

lemma length_dots: "length (dots vs) \<le> 21 * length vs"
proof (induction vs)
  case (Cons v vs)
  have "length (sep (dots vs)) \<le> Suc (length (dots vs))" by (simp add: sep_def)
  with Cons length_decimal [of v] show ?case by simp
qed simp

lemma length_oid_der: "length vs \<le> length (oid_der vs)"
  by (induction vs) (auto simp: oid_der_def b128_def)

lemma to_text_der:
  assumes "\<forall>n. heap_ok env n" and "length (oid_der (v # vs)) \<le> 2 ^ 56"
  shows "CBS_asn1_oid_to_text env (oid_der (v # vs)) = Some (oid_text v vs @ [0])"
proof -
  have p: "parse_base128_integer (oid_der (v # vs)) = (Some v, oid_der vs)"
    by (simp add: oid_der_def parse_base128_iff)
  have "length (oid_text v vs) \<le> 21 * (length vs + 2)"
    using length_dots [of "2 # (v - 80) # vs"] length_dots [of "(v div 40) # (v mod 40) # vs"]
    by (simp add: oid_text_def del: dots.simps)
  moreover have "Suc (length vs) \<le> 2 ^ 56" using assms(2) length_oid_der [of "v # vs"] by simp
  ultimately have "length (oid_text v vs @ [0]) \<le> 2 ^ 62" by simp
  then show ?thesis
    using run_writer_adds(2) [OF adds_text_op _ TrueI assms(1), of 32 v vs] by (simp add: to_text_run p)
qed

lemma oid_text_first_value:
  assumes "arcs_ok a b"
  shows "oid_text (first_value a b) vs = dots (a # b # vs)"
proof -
  have a: "unat a \<le> 2" "unat a < 2 \<longrightarrow> unat b \<le> 39" "unat b < 2 ^ 64 - 80" using assms by (auto simp: arcs_ok_def)
  then have v: "unat (first_value a b) = 40 * unat a + unat b"
    by (simp add: first_value_def unat_word_ariths)
  show ?thesis
  proof (cases "unat a = 2")
    case True
    then have "a = 2" by (simp add: word_unat_eq_iff)
    with v show ?thesis by (simp add: oid_text_def first_value_def)
  next
    case False
    then have "unat a < 2" "unat b \<le> 39" using a by auto
    then have "first_value a b div 40 = a" "first_value a b mod 40 = b"
      by (simp_all add: word_unat_eq_iff unat_div unat_mod v)
    with v \<open>unat a < 2\<close> \<open>unat b \<le> 39\<close> show ?thesis by (simp add: oid_text_def)
  qed
qed

lemma oid_text_arcs: "\<exists>a b. arcs_ok a b \<and> first_value a b = v"
proof (cases "80 \<le> unat v")
  case True
  then have "unat (v - 80) = unat v - 80" by (subst unat_sub) (simp_all add: word_le_nat_alt)
  then have "arcs_ok 2 (v - 80)" using unat_u64_less [of v] True by (simp add: arcs_ok_def)
  moreover have "first_value 2 (v - 80) = v" by (simp add: first_value_def)
  ultimately show ?thesis by blast
next
  case False
  then have "unat (v div 40) < 2" "unat (v mod 40) < 40" by (simp_all add: unat_div unat_mod less_mult_imp_div_less)
  then have "arcs_ok (v div 40) (v mod 40)" by (simp add: arcs_ok_def)
  moreover have "first_value (v div 40) (v mod 40) = v"
    using unat_u64_less [of v] by (simp add: first_value_def word_unat_eq_iff unat_word_ariths unat_div unat_mod)
  ultimately show ?thesis by blast
qed

text \<open>C4. Printing an object identifier and parsing the text gives back the contents octets: for
  every identifier \<open>CBS_asn1_oid_to_text\<close> prints, the text ends in its terminator and
  \<open>CBB_add_asn1_oid_from_text\<close> on the text appends exactly the octets that were printed.\<close>

theorem oid_print_parse:
  assumes "CBS_asn1_oid_to_text env cbs = Some out"
  shows "\<exists>txt. out = txt @ [0] \<and> adds env m h (CBB_add_asn1_oid_from_text env h txt) True cbs"
proof -
  obtain v vs where v: "cbs = oid_der (v # vs)" "out = oid_text v vs @ [0]" using to_text_Some [OF assms] by blast
  obtain a b where "arcs_ok a b" "first_value a b = v" using oid_text_arcs by blast
  with v adds_oid_from_text [of a b env m h vs] oid_text_first_value [of a b vs] show ?thesis by auto
qed

theorem oid_print_parse_witness:
  "\<exists>txt. CBS_asn1_oid_to_text generous_env [42, 134, 72] = Some (txt @ [0]) \<and>
     adds generous_env 99 0 (CBB_add_asn1_oid_from_text generous_env 0 txt) True [42, 134, 72]"
proof -
  have der: "oid_der [42, 840] = [42, 134, 72]"
    by (simp add: oid_der_def b128_def b128_hi_step)
  have "length (oid_der [42, 840]) \<le> 2 ^ 56" unfolding der by simp
  from to_text_der [OF generous_env_ok this]
  have p: "CBS_asn1_oid_to_text generous_env [42, 134, 72] = Some (oid_text 42 [840] @ [0])" by (simp only: der)
  from oid_print_parse [OF p, of 99 0] p show ?thesis by auto
qed

text \<open>C31. Parsing the text of an object identifier and printing the octets gives back the text: the
  parser accepts only the canonical spelling (no leading zeros, no empty components, first
  arcs in range, no overflow), so nothing is lost.\<close>

theorem oid_parse_print:
  assumes "run_writer env n (CBB_add_asn1_oid_from_text env 0 txt) = Some der"
    and "n \<le> 2 ^ 62" and "\<forall>n. heap_ok env n" and "length der \<le> 2 ^ 56"
  shows "CBS_asn1_oid_to_text env der = Some (txt @ [0])"
proof -
  from assms(1) obtain c where "fst (CBB_add_asn1_oid_from_text env 0 txt c)"
    by (auto simp: run_writer_def split: option.splits prod.splits bool.splits) (metis fst_conv)
  then obtain a b vs where t: "txt = dots (a # b # vs)" and ab: "arcs_ok a b" using oid_from_text_ok by blast
  have "der = oid_der (first_value a b # vs)"
    using run_writer_adds(1) [OF adds_oid_from_text [OF ab] assms(2)] assms(1) t by blast
  then show ?thesis using to_text_der [OF assms(3)] assms(4) oid_text_first_value [OF ab] t by simp
qed


theorem oid_parse_print_witness:
  "\<exists>der. run_writer generous_env 8 (CBB_add_asn1_oid_from_text generous_env 0 [49, 46, 50]) = Some der \<and>
     CBS_asn1_oid_to_text generous_env der = Some ([49, 46, 50] @ [0])"
proof -
  have d12: "dots (1 # 2 # []) = [49, 46, 50]" by (simp add: decimal_def dec_hi_step)
  have ok: "arcs_ok 1 2" by (simp add: arcs_ok_def)
  have len: "length (oid_der [first_value 1 2]) \<le> 2 ^ 56"
    by (simp add: oid_der_def first_value_def b128_def b128_hi_step)
  have n: "(8 :: nat) \<le> 2 ^ 62" by simp
  have r: "run_writer generous_env 8 (CBB_add_asn1_oid_from_text generous_env 0 [49, 46, 50]) = Some (oid_der [first_value 1 2])"
    using run_writer_adds(2) [OF adds_oid_from_text [OF ok] n TrueI generous_env_ok, of "[]"] len unfolding d12 by simp
  from oid_parse_print [OF r n generous_env_ok len] r show ?thesis by blast
qed

end
