(* ===== verification/SetOf.thy ===== *)
theory SetOf
  imports CbbSpec
begin

text \<open>
  \<open>CBB_flush_asn1_set_of\<close> of \<open>crypto/bytestring/cbb.c\<close>: the elements written to a CBB are put
  in the order DER asks of a SET OF.
\<close>

definition compare_set_of_element :: "cbs \<Rightarrow> cbs \<Rightarrow> int" where
  "compare_set_of_element a b =
     (let a_len = length a; b_len = length b;
          min_len = (if a_len < b_len then a_len else b_len);
          ret = memcmp a b min_len in
      if ret \<noteq> 0 then ret
      else if a_len = b_len then 0
      else if a_len < b_len then - 1 else 1)"

fun read_n :: "nat \<Rightarrow> (cbs \<Rightarrow> 'a option \<times> cbs) \<Rightarrow> cbs \<Rightarrow> 'a list option" where
  "read_n 0 dec cbs = Some []"
| "read_n (Suc n) dec cbs =
     (case dec cbs of (None, _) \<Rightarrow> None | (Some x, r) \<Rightarrow> map_option ((#) x) (read_n n dec r))"

fun add_all :: "heap_env \<Rightarrow> nat \<Rightarrow> cbs list \<Rightarrow> cbb_op" where
  "add_all env h [] c = (True, c)"
| "add_all env h (x # xs) c = cbb_then (CBB_add_bytes env h x) (add_all env h xs) c"

definition CBB_flush_asn1_set_of :: "heap_env \<Rightarrow> nat \<Rightarrow> cbb_op" where
  "CBB_flush_asn1_set_of env h =
     cbb_then (CBB_flush env h) (\<lambda>c.
       (case read_all CBS_get_any_asn1_element (CBB_data h c) of
          None \<Rightarrow> (False, c)
        | Some elements \<Rightarrow>
            let num_children = length elements in
            if num_children < 2 then (True, c)
            else if num_children > (SIZE_LIMIT - 1) div 16 then (False, c)
            else
              (case OPENSSL_memdup env (CBB_data h c) of
                 Ptr blk \<Rightarrow>
                   (case heap_new env (num_children * 16) of
                      None \<Rightarrow> (False, c)
                    | Some _ \<Rightarrow>
                        (case read_n num_children CBS_get_any_asn1_element (payload blk) of
                           None \<Rightarrow> (False, c)
                         | Some children \<Rightarrow>
                             let children' = qsort compare_set_of_element (map el_bytes children);
                                 c' = c\<lparr>base := (base c)\<lparr>blen := offset (chain c ! h) + pending_len_len (chain c ! h)\<rparr>\<rparr>
                             in add_all env h children' c'))
               | _ \<Rightarrow> (False, c))))"

section \<open>The order of the elements\<close>

fun lex_cmp :: "bytes \<Rightarrow> bytes \<Rightarrow> int" where
  "lex_cmp [] [] = 0"
| "lex_cmp [] (y # b) = - 1"
| "lex_cmp (x # a) [] = 1"
| "lex_cmp (x # a) (y # b) = (if x = y then lex_cmp a b else uint x - uint y)"

lemma compare_set_of_element_lex: "compare_set_of_element a b = lex_cmp a b"
  by (induction a b rule: lex_cmp.induct) (auto simp: compare_set_of_element_def Let_def word_uint_eq_iff)

lemma lex_cmp_swap: "lex_cmp b a = - lex_cmp a b"
  by (induction a b rule: lex_cmp.induct) auto

lemma lex_cmp_trans: "lex_cmp a b \<le> 0 \<Longrightarrow> lex_cmp b c \<le> 0 \<Longrightarrow> lex_cmp a c \<le> 0"
proof (induction a b arbitrary: c rule: lex_cmp.induct)
  case (2 y b)
  then show ?case by (cases c) auto
next
  case (4 x a y b)
  then show ?case by (cases c) (auto simp: word_uint_eq_iff split: if_splits)
qed auto

lemma lex_cmp_0: "lex_cmp a b = 0 \<Longrightarrow> a = b"
  by (induction a b rule: lex_cmp.induct) (auto simp: word_uint_eq_iff split: if_splits)

text \<open>The order of X.690, 11.6, apart from the comparison in C: the first octet in which two encodings differ decides, and a
  proper prefix comes first.\<close>

definition octets_le :: "bytes \<Rightarrow> bytes \<Rightarrow> bool" where
  "octets_le a b \<longleftrightarrow> a = b \<or> (a, b) \<in> lexord {(x, y). x < y}"

lemma lex_cmp_le: "lex_cmp a b \<le> 0 \<longleftrightarrow> octets_le a b"
  by (induction a b rule: lex_cmp.induct) (auto simp: octets_le_def word_uint_eq_iff word_less_def)

lemma ordered_octets: "ordered compare_set_of_element ys \<longleftrightarrow> sorted_wrt octets_le ys"
  by (simp add: ordered_def compare_set_of_element_lex lex_cmp_le)

interpretation set_of: comparator compare_set_of_element
proof
  show "sgn (compare_set_of_element y x) = - sgn (compare_set_of_element x y)" for x y
    using lex_cmp_swap [of y x] by (simp add: compare_set_of_element_lex sgn_minus)
  show "compare_set_of_element x y \<le> 0 \<Longrightarrow> compare_set_of_element y z \<le> 0 \<Longrightarrow> compare_set_of_element x z \<le> 0" for x y z
    unfolding compare_set_of_element_lex by (rule lex_cmp_trans)
qed

section \<open>Reading the elements\<close>

lemma el_bytes_el_of [simp]: "el_bytes (el_of t c) = der_tlv t c"
  by (simp add: el_of_def)

interpretation der_el: canonical_codec el_bytes CBS_get_any_asn1_element "\<lambda>e. \<exists>t c. e = el_of t c \<and> length c < 2 ^ 32"
proof
  show "CBS_get_any_asn1_element (el_bytes x @ r) = (Some x, r)" if "\<exists>t c. x = el_of t c \<and> length c < 2 ^ 32" for x r
    using that by (auto simp: CBS_get_any_asn1_element_def any_element_der)
  fix bs x r assume "CBS_get_any_asn1_element bs = (Some x, r)"
  then have "cbs_get_any_asn1_element False bs = (Some x, r)" by (simp add: CBS_get_any_asn1_element_def)
  then obtain t c where "x = el_of t c" "bs = der_tlv t c @ r" "length c < 2 ^ 32" by (rule any_element_Some)
  then show "(\<exists>t c. x = el_of t c \<and> length c < 2 ^ 32) \<and> bs = el_bytes x @ r" by auto
qed

lemma read_n_all: "read_all dec bs = Some xs \<Longrightarrow> read_n (length xs) dec bs = Some xs"
proof (induction xs arbitrary: bs)
  case (Cons x xs)
  have "bs \<noteq> []" using Cons.prems by (metis list.discI option.inject read_all_Nil)
  then have "\<exists>r. dec bs = (Some x, r) \<and> read_all dec r = Some xs"
    using Cons.prems [unfolded read_all.simps [of dec bs]] by (auto split: prod.splits option.splits if_splits)
  then obtain r where "dec bs = (Some x, r)" "read_all dec r = Some xs" by blast
  with Cons.IH show ?case by simp
qed simp

lemma read_elements_iff:
  "read_all CBS_get_any_asn1_element bs = Some es \<longleftrightarrow>
     (\<forall>e\<in>set es. \<exists>t c. e = el_of t c \<and> length c < 2 ^ 32) \<and> bs = concat (map el_bytes es)"
proof (rule der_el.read_all_iff)
  show "el_bytes e \<noteq> []" if "\<exists>t c. e = el_of t c \<and> length c < 2 ^ 32" for e
    using that by (auto simp: der_tlv_def)
qed

section \<open>Writing them back\<close>

lemma add_all_outcome:
  assumes "represents c fs" and "length fs = Suc h" and "length (flat fs @ concat xs) \<le> m"
    and "\<forall>x\<in>set xs. length x < SIZE_LIMIT"
  shows "case add_all env h xs c of
     (True, c') \<Rightarrow> represents c' (app (concat xs) fs) \<and> (roomy env m (base c) \<longrightarrow> roomy env m (base c'))
   | (False, c') \<Rightarrow> \<not> roomy env m (base c)"
  using assms
proof (induction xs arbitrary: c fs)
  case Nil
  then have "fs \<noteq> []" by auto
  with Nil show ?case by simp
next
  case (Cons x xs)
  have ne: "fs \<noteq> []" using Cons.prems(2) by auto
  have "refines env m h (CBB_add_bytes env h x) (closable h) (\<lambda>fs. app x (close_at h fs))"
    using Cons.prems by (intro refines_add_bytes) simp
  from this [unfolded refines_def, rule_format, of c fs] Cons.prems ne
  have o: "case CBB_add_bytes env h x c of
     (True, c') \<Rightarrow> represents c' (app x fs) \<and> (roomy env m (base c) \<longrightarrow> roomy env m (base c'))
   | (False, c') \<Rightarrow> \<not> roomy env m (base c)"
    by (auto simp: close_at_closed closable_closed split: prod.splits bool.splits)
  show ?case
  proof (cases "CBB_add_bytes env h x c")
    case (Pair ok c1)
    show ?thesis
    proof (cases ok)
      case True
      with o Pair have r: "represents c1 (app x fs)" "roomy env m (base c) \<longrightarrow> roomy env m (base c1)" by auto
      from Cons.IH [OF r(1)] Cons.prems ne r(2) show ?thesis
        by (auto simp: cbb_then_def Pair True split: prod.splits bool.splits)
    qed (use o Pair in \<open>auto simp: cbb_then_def\<close>)
  qed
qed

text \<open>Moving the end of the buffer back to the start of the innermost CBB's contents.\<close>

lemma represents_rewind:
  assumes "represents c (gs @ [(n, a, d)])" and "h = length gs"
  shows "represents (c\<lparr>base := (base c)\<lparr>blen := offset (chain c ! h) + pending_len_len (chain c ! h)\<rparr>\<rparr>) (gs @ [(n, a, [])])"
    and "CBB_data h c = d"
proof -
  have ch: "chain c ! h = \<lparr>offset = length (flat gs), pending_len_len = n, pending_is_asn1 = a\<rparr>"
    using assms by (simp add: represents_def nodes_append nth_append)
  have h: "holds (base c) (flat gs @ replicate n 0 @ d)" using assms(1) by (simp add: represents_def)
  then have "take (length (flat gs) + n) (buf (base c)) = flat gs @ replicate n 0"
    using holds_take_drop [of "base c" "[]" "flat gs @ replicate n 0" d 0] by simp
  moreover have "root_ok (gs @ [(n, a, [])])"
    using assms(1) root_ok_app [of "gs @ [(n, a, [])]" d] by (simp add: represents_def)
  ultimately show "represents (c\<lparr>base := (base c)\<lparr>blen := offset (chain c ! h) + pending_len_len (chain c ! h)\<rparr>\<rparr>) (gs @ [(n, a, [])])"
    using assms(1) h ch by (auto simp: represents_def holds_def buf_ok_def nodes_append)
  have "CBB_len h c = length d" using h ch by (simp add: CBB_len_def holds_def)
  moreover have "take (length d) (drop (length (flat gs) + n) (buf (base c))) = d"
    by (rule holds_take_drop [of _ "flat gs @ replicate n 0" d "[]"]) (use h in simp_all)
  ultimately show "CBB_data h c = d" by (simp add: CBB_data_def ch)
qed


lemma memdup_payload:
  assumes "OPENSSL_memdup env data = Ptr blk" and "length data < SIZE_LIMIT"
  shows "payload blk = data"
proof -
  obtain ret where ret: "OPENSSL_malloc env (length data) = Ptr ret" and blk: "blk = mem_write ret 8 data"
    using assms(1) by (auto simp: OPENSSL_memdup_def OPENSSL_MALLOC_PREFIX_def split: alloc_result.splits if_splits)
  have "length ret = length data + 8"
    using OPENSSL_malloc_Ptr [OF ret assms(2)] by (simp add: block_ok_def OPENSSL_MALLOC_PREFIX_def)
  then show ?thesis by (simp add: blk payload_def OPENSSL_MALLOC_PREFIX_def mem_write_def)
qed

lemma memdup_succeeds:
  assumes "\<forall>n. heap_ok env n" and "data \<noteq> []" and "length data + 8 < SIZE_LIMIT"
  shows "\<exists>blk. OPENSSL_memdup env data = Ptr blk"
  using assms by (simp add: OPENSSL_memdup_def OPENSSL_malloc_def sys_malloc_def szadd_exact OPENSSL_MALLOC_PREFIX_def)

lemma length_in_concat: "x \<in> set xs \<Longrightarrow> length x \<le> length (concat xs)"
  by (induction xs) auto

lemma length_elements: "\<forall>e\<in>set es. \<exists>t c. e = el_of t c \<Longrightarrow> length es \<le> length (concat (map el_bytes es))"
proof (induction es)
  case (Cons e es)
  then obtain t c where "e = el_of t c" by auto
  then have "1 \<le> length (el_bytes e)" by (simp add: der_tlv_def Suc_le_eq)
  with Cons show ?case by simp
qed simp

lemma represents_short: "represents c (gs @ [(n, a, d)]) \<Longrightarrow> length d < SIZE_LIMIT"
  by (auto simp: represents_def holds_def buf_ok_def)

text \<open>The part after the initial flush, on the contents \<open>d\<close> of the CBB.\<close>

lemma set_of_after_flush:
  assumes f: "CBB_flush env h c = (True, c1)" and r1: "represents c1 (gs @ [(n, a, d)])" and hg: "h = length gs"
  defines "c2 \<equiv> c1\<lparr>base := (base c1)\<lparr>blen := offset (chain c1 ! h) + pending_len_len (chain c1 ! h)\<rparr>\<rparr>"
  shows "CBB_flush_asn1_set_of env h c =
    (case read_all CBS_get_any_asn1_element d of
       None \<Rightarrow> (False, c1)
     | Some es \<Rightarrow>
         if length es < 2 then (True, c1)
         else if length es > (SIZE_LIMIT - 1) div 16 then (False, c1)
         else (case OPENSSL_memdup env d of
            Ptr blk \<Rightarrow>
              (case heap_new env (length es * 16) of
                 None \<Rightarrow> (False, c1)
               | Some _ \<Rightarrow> add_all env h (qsort compare_set_of_element (map el_bytes es)) c2)
          | _ \<Rightarrow> (False, c1)))"
proof -
  have "payload blk = d" if "OPENSSL_memdup env d = Ptr blk" for blk
    using memdup_payload [OF that] represents_short [OF r1] by simp
  moreover have "read_n (length es) CBS_get_any_asn1_element d = Some es" if "read_all CBS_get_any_asn1_element d = Some es" for es
    using read_n_all [OF that] .
  ultimately show ?thesis
    using represents_rewind(2) [OF r1 hg]
    by (auto simp: CBB_flush_asn1_set_of_def cbb_then_def f Let_def c2_def
        split: alloc_result.splits option.splits)
qed

lemma sorted_elements_written:
  assumes r1: "represents c1 (gs @ [(n, a, d)])" and hg: "h = length gs"
    and es: "read_all CBS_get_any_asn1_element d = Some es"
  defines "c2 \<equiv> c1\<lparr>base := (base c1)\<lparr>blen := offset (chain c1 ! h) + pending_len_len (chain c1 ! h)\<rparr>\<rparr>"
  shows "\<exists>c'. add_all env h (qsort compare_set_of_element (map el_bytes es)) c2 = (True, c') \<and>
    represents c' (gs @ [(n, a, concat (qsort compare_set_of_element (map el_bytes es)))])"
proof -
  let ?ys = "qsort compare_set_of_element (map el_bytes es)" and ?m = "length (flat gs) + n + length d"
  note rw = represents_rewind(1) [OF r1 hg, folded c2_def]
  have d: "d = concat (map el_bytes es)" using es read_elements_iff by blast
  have "mset (map length ?ys) = mset (map length (map el_bytes es))" by (simp only: mset_map mset_qsort)
  then have len: "length (concat ?ys) = length d"
    unfolding length_concat d by (metis sum_mset_sum_list)
  have small: "\<forall>x\<in>set ?ys. length x < SIZE_LIMIT"
    using represents_short [OF r1] len length_in_concat [of _ ?ys] by fastforce
  have "blen (base c1) = ?m" "blen (base c1) \<le> cap (base c1)" using r1 by (auto simp: represents_def holds_def buf_ok_def)
  then have "roomy env ?m (base c2)" by (simp add: c2_def roomy_def)
  moreover have "length (gs @ [(n, a, [])]) = Suc h" "length (flat (gs @ [(n, a, [])]) @ concat ?ys) \<le> ?m"
    using hg len by simp_all
  ultimately show ?thesis
    using add_all_outcome [OF rw _ _ small, of h ?m env] by (cases "add_all env h ?ys c2") (auto split: bool.splits)
qed

text \<open>C3. \<open>CBB_flush_asn1_set_of\<close> sorts a SET OF: it succeeds only if the contents are a sequence of
  DER elements, and then the contents become the same elements, each as often as before, in
  ascending lexicographic order of their encodings (\<open>octets_le\<close>); that list is the only such one.\<close>

theorem set_of_sorted:
  assumes rep: "represents c fs" and h: "h < length fs"
    and cl: "close_at h fs = gs @ [(n, a, d)]"
    and ok: "CBB_flush_asn1_set_of env h c = (True, c')"
  shows "\<exists>es. read_all CBS_get_any_asn1_element d = Some es \<and>
     (\<exists>ys. mset ys = mset (map el_bytes es) \<and> sorted_wrt octets_le ys \<and>
        represents c' (gs @ [(n, a, concat ys)]) \<and>
        (\<forall>zs. mset zs = mset ys \<and> sorted_wrt octets_le zs \<longrightarrow> zs = ys))"
proof -
  have hg: "h = length gs" using length_close_at [OF h] cl by simp
  from ok obtain c1 where f: "CBB_flush env h c = (True, c1)"
    by (auto simp: CBB_flush_asn1_set_of_def cbb_then_def split: prod.splits bool.splits)
  from refines_flush [of env "length (flat (close_at h fs))" h, unfolded refines_def, rule_format, of c fs] rep h f
  have r1: "represents c1 (gs @ [(n, a, d)])" by (simp add: cl)
  note run = set_of_after_flush [OF f r1 hg]
  obtain es where es: "read_all CBS_get_any_asn1_element d = Some es"
    using ok unfolding run by (cases "read_all CBS_get_any_asn1_element d") auto
  let ?ys = "qsort compare_set_of_element (map el_bytes es)"
  have d: "d = concat (map el_bytes es)" using es read_elements_iff by blast
  have uniq: "zs = ?ys" if "mset zs = mset ?ys" "ordered compare_set_of_element zs" for zs
    using set_of.ordered_unique_if_strict [of zs ?ys] that lex_cmp_0 set_of.ordered_qsort
    by (simp add: compare_set_of_element_lex)
  have "represents c' (gs @ [(n, a, concat ?ys)])"
  proof (cases "length es < 2")
    case True
    then have "c' = c1" using ok by (simp add: run es)
    moreover have "?ys = map el_bytes es" using True by (cases es) auto
    ultimately show ?thesis using r1 d by simp
  next
    case False
    then show ?thesis
      using ok sorted_elements_written [OF r1 hg es, of env]
      by (auto simp: run es split: alloc_result.splits option.splits if_splits)
  qed
  then show ?thesis using es uniq set_of.ordered_qsort [of "map el_bytes es"]
    unfolding ordered_octets by (intro exI [of _ es] conjI exI [of _ ?ys]) auto
qed

lemma set_of_succeeds:
  assumes f: "CBB_flush env h c = (True, c1)" and r1: "represents c1 (gs @ [(n, a, d)])" and hg: "h = length gs"
    and es: "read_all CBS_get_any_asn1_element d = Some es" and ok: "\<forall>n. heap_ok env n" and len: "length d < 2 ^ 59"
  shows "\<exists>c'. CBB_flush_asn1_set_of env h c = (True, c')"
proof -
  have d: "d = concat (map el_bytes es)" "\<forall>e\<in>set es. \<exists>t c. e = el_of t c" using es read_elements_iff by blast+
  then have n: "length es < 2 ^ 59" using len length_elements [of es] by simp
  show ?thesis
  proof (cases "length es < 2")
    case False
    then have "d \<noteq> []" using length_elements [OF d(2)] by (auto simp: d(1) simp del: concat_eq_Nil_conv)
    then obtain blk where "OPENSSL_memdup env d = Ptr blk"
      using memdup_succeeds [OF ok, of d] len by (auto simp: SIZE_LIMIT_def)
    moreover obtain b where "heap_new env (length es * 16) = Some b"
      using heap_new_succeeds [OF ok, of "length es * 16"] n by (auto simp: SIZE_LIMIT_def)
    moreover have "\<not> (SIZE_LIMIT - 1) div 16 < length es" using n by (simp add: SIZE_LIMIT_def)
    ultimately show ?thesis
      using False sorted_elements_written [OF r1 hg es, of env]
      by (auto simp: set_of_after_flush [OF f r1 hg] es)
  qed (simp add: set_of_after_flush [OF f r1 hg] es)
qed


definition two_integers :: cbb where
  "two_integers = \<lparr>base = \<lparr>buf = [2, 1, 7, 2, 1, 3], blen = 6, cap = 6, can_resize = False, error = False\<rparr>, chain = [root_node]\<rparr>"

theorem set_of_sorted_witness:
  "\<exists>c'. CBB_flush_asn1_set_of generous_env 0 two_integers = (True, c') \<and>
     represents c' [(0, False, [2, 1, 3, 2, 1, 7])]"
proof -
  let ?d = "[2, 1, 7, 2, 1, 3] :: bytes"
  have rep: "represents two_integers [(0, False, ?d)]"
    by (simp add: two_integers_def represents_def holds_def buf_ok_def root_ok_def root_node_def SIZE_LIMIT_def)
  have f: "CBB_flush generous_env 0 two_integers = (True, two_integers)" by (simp add: two_integers_def CBB_flush_def)
  have es: "read_all CBS_get_any_asn1_element ?d = Some [el_of 2 [7], el_of 2 [3]]"
    unfolding read_elements_iff
  proof
    have "length [b :: u8] < 2 ^ 32" for b by simp
    then show "\<forall>e\<in>set [el_of CBS_ASN1_INTEGER [7], el_of CBS_ASN1_INTEGER [3]]. \<exists>t c. e = el_of t c \<and> length c < 2 ^ 32"
      by (metis empty_iff empty_set set_ConsD)
  qed (simp add: der_tlv_def der_tag_def der_len_def Let_def)
  have b: "[el_bytes (el_of 2 [7]), el_bytes (el_of 2 [3])] = [[2, 1, 7], [2, 1, 3]]"
    by (simp add: der_tlv_def der_tag_def der_len_def Let_def)
  obtain c' where r: "CBB_flush_asn1_set_of generous_env 0 two_integers = (True, c')"
    using set_of_succeeds [of generous_env 0 two_integers two_integers "[]" 0 False ?d, OF f _ _ es generous_env_ok] rep by auto
  have cl: "close_at 0 [(0, False, ?d)] = [] @ [(0, False, ?d)]" by (simp add: close_at_def)
  have "0 < length [(0 :: nat, False, ?d)]" by simp
  from set_of_sorted [OF rep this cl r] obtain es' ys where ys: "read_all CBS_get_any_asn1_element ?d = Some es'"
      "mset ys = mset (map el_bytes es')" "represents c' ([] @ [(0, False, concat ys)])"
      "\<forall>zs. mset zs = mset ys \<and> sorted_wrt octets_le zs \<longrightarrow> zs = ys"
    by blast
  have "map el_bytes es' = [[2, 1, 7], [2, 1, 3]]" using ys(1) es b by auto
  then have m: "mset ys = mset [[2, 1, 7], [2, 1, 3]]" using ys(2) by (simp only:)
  have "sorted_wrt octets_le [[2, 1, 3], [2, 1, 7 :: u8]]" by (simp add: octets_le_def)
  moreover have "mset [[2, 1, 3], [2, 1, 7]] = mset ys" unfolding m by (simp add: add_mset_commute)
  ultimately have "ys = [[2, 1, 3], [2, 1, 7]]" using ys(4) [THEN spec, of "[[2, 1, 3], [2, 1, 7]]"] by simp
  then show ?thesis using r ys(3) by simp
qed

end
