(* ===== verification/Unicode.thy ===== *)
theory Unicode
  imports CbbSpec
begin

text \<open>
  The character codecs of \<open>crypto/bytestring/unicode.c\<close>: UTF-8, Latin-1, UCS-2 and UTF-32.  Each
  reader is shown to accept exactly the encodings of the code points the matching writer
  takes, so that overlong forms, surrogates and reserved code points have no encoding.
\<close>

section \<open>The code\<close>

definition is_valid_code_point :: "u32 \<Rightarrow> bool" where
  "is_valid_code_point v =
     (if v > 0x10ffff \<or> v AND 0xfffe = 0xfffe \<or> (v \<ge> 0xfdd0 \<and> v \<le> 0xfdef) \<or> (v \<ge> 0xd800 \<and> v \<le> 0xdfff)
      then False else True)"

definition BOTTOM_BITS :: "nat \<Rightarrow> u8" where
  "BOTTOM_BITS n = push_bit n 1 - 1"

definition TOP_BITS :: "nat \<Rightarrow> u8" where
  "TOP_BITS n = NOT (BOTTOM_BITS (8 - n))"

fun utf8_continuation :: "nat \<Rightarrow> u32 \<Rightarrow> u32 reader" where
  "utf8_continuation 0 v cbs = (Some v, cbs)"
| "utf8_continuation (Suc i) v cbs =
     (case CBS_get_u8 cbs of
        (None, cbs') \<Rightarrow> (None, cbs')
      | (Some c, cbs') \<Rightarrow>
          if c AND TOP_BITS 2 \<noteq> TOP_BITS 1 then (None, cbs')
          else utf8_continuation i (push_bit 6 v OR ucast (c AND BOTTOM_BITS 6)) cbs')"

definition cbs_get_utf8 :: "u32 reader" where
  "cbs_get_utf8 cbs =
     (case CBS_get_u8 cbs of
        (None, cbs') \<Rightarrow> (None, cbs')
      | (Some c, cbs') \<Rightarrow>
          if c \<le> 0x7f then (Some (ucast c), cbs')
          else
            (case (if c AND TOP_BITS 3 = TOP_BITS 2 then Some (c AND BOTTOM_BITS 5, 1 :: nat, 0x80 :: u32)
                   else if c AND TOP_BITS 4 = TOP_BITS 3 then Some (c AND BOTTOM_BITS 4, 2, 0x800)
                   else if c AND TOP_BITS 5 = TOP_BITS 4 then Some (c AND BOTTOM_BITS 3, 3, 0x10000)
                   else None) of
               None \<Rightarrow> (None, cbs')
             | Some (v, len, lower_bound) \<Rightarrow>
                 (case utf8_continuation len (ucast v) cbs' of
                    (None, cbs'') \<Rightarrow> (None, cbs'')
                  | (Some v, cbs'') \<Rightarrow>
                      if \<not> is_valid_code_point v \<or> v < lower_bound then (None, cbs'') else (Some v, cbs''))))"

definition cbs_get_latin1 :: "u32 reader" where
  "cbs_get_latin1 cbs =
     (case CBS_get_u8 cbs of (None, cbs') \<Rightarrow> (None, cbs') | (Some c, cbs') \<Rightarrow> (Some (ucast c), cbs'))"

definition cbs_get_ucs2_be :: "u32 reader" where
  "cbs_get_ucs2_be cbs =
     (case CBS_get_u16 cbs of
        (None, cbs') \<Rightarrow> (None, cbs')
      | (Some c, cbs') \<Rightarrow> if \<not> is_valid_code_point (ucast c) then (None, cbs') else (Some (ucast c), cbs'))"

definition cbs_get_utf32_be :: "u32 reader" where
  "cbs_get_utf32_be cbs =
     (case CBS_get_u32 cbs of
        (None, cbs') \<Rightarrow> (None, cbs')
      | (Some c, cbs') \<Rightarrow> if is_valid_code_point c then (Some c, cbs') else (None, cbs'))"

definition cbb_get_utf8_len :: "u32 \<Rightarrow> nat" where
  "cbb_get_utf8_len u = (if u \<le> 0x7f then 1 else if u \<le> 0x7ff then 2 else if u \<le> 0xffff then 3 else 4)"

definition cbb_add_utf8 :: "heap_env \<Rightarrow> nat \<Rightarrow> u32 \<Rightarrow> cbb_op" where
  "cbb_add_utf8 env h u =
     (if \<not> is_valid_code_point u then (\<lambda>c. (False, c))
      else if u \<le> 0x7f then CBB_add_u8 env h (ucast u)
      else if u \<le> 0x7ff then
        cbb_then (CBB_add_u8 env h (TOP_BITS 2 OR ucast (drop_bit 6 u)))
          (CBB_add_u8 env h (TOP_BITS 1 OR ucast u AND BOTTOM_BITS 6))
      else if u \<le> 0xffff then
        cbb_then (CBB_add_u8 env h (TOP_BITS 3 OR ucast (drop_bit 12 u)))
          (cbb_then (CBB_add_u8 env h (TOP_BITS 1 OR ucast (drop_bit 6 u) AND BOTTOM_BITS 6))
             (CBB_add_u8 env h (TOP_BITS 1 OR ucast u AND BOTTOM_BITS 6)))
      else if u \<le> 0x10ffff then
        cbb_then (CBB_add_u8 env h (TOP_BITS 4 OR ucast (drop_bit 18 u)))
          (cbb_then (CBB_add_u8 env h (TOP_BITS 1 OR ucast (drop_bit 12 u) AND BOTTOM_BITS 6))
             (cbb_then (CBB_add_u8 env h (TOP_BITS 1 OR ucast (drop_bit 6 u) AND BOTTOM_BITS 6))
                (CBB_add_u8 env h (TOP_BITS 1 OR ucast u AND BOTTOM_BITS 6))))
      else (\<lambda>c. (False, c)))"

definition cbb_add_latin1 :: "heap_env \<Rightarrow> nat \<Rightarrow> u32 \<Rightarrow> cbb_op" where
  "cbb_add_latin1 env h u = (if u \<le> 0xff then CBB_add_u8 env h (ucast u) else (\<lambda>c. (False, c)))"

definition cbb_add_ucs2_be :: "heap_env \<Rightarrow> nat \<Rightarrow> u32 \<Rightarrow> cbb_op" where
  "cbb_add_ucs2_be env h u =
     (if u \<le> 0xffff \<and> is_valid_code_point u then CBB_add_u16 env h (ucast u) else (\<lambda>c. (False, c)))"

definition cbb_add_utf32_be :: "heap_env \<Rightarrow> nat \<Rightarrow> u32 \<Rightarrow> cbb_op" where
  "cbb_add_utf32_be env h u = (if is_valid_code_point u then CBB_add_u32 env h u else (\<lambda>c. (False, c)))"

section \<open>UTF-8 over numbers\<close>

definition utf8_bytes :: "nat \<Rightarrow> bytes" where
  "utf8_bytes n =
     (if n < 0x80 then [word_of_nat n]
      else if n < 0x800 then [word_of_nat (192 + n div 64), word_of_nat (128 + n mod 64)]
      else if n < 0x10000 then [word_of_nat (224 + n div 4096), word_of_nat (128 + n div 64 mod 64), word_of_nat (128 + n mod 64)]
      else [word_of_nat (240 + n div 262144), word_of_nat (128 + n div 4096 mod 64), word_of_nat (128 + n div 64 mod 64),
            word_of_nat (128 + n mod 64)])"

lemma div_range: "0 < n \<Longrightarrow> x div n = q \<longleftrightarrow> q * n \<le> x \<and> x < Suc q * (n :: nat)"
  using div_nat_eqI [of n q x] dividend_less_div_times [of n x] div_times_less_eq_dividend [of x n]
  by (auto simp: mult.commute)

lemma top_bits:
  "c AND TOP_BITS 2 = TOP_BITS 1 \<longleftrightarrow> 128 \<le> unat c \<and> unat c < 192"
  "c AND TOP_BITS 3 = TOP_BITS 2 \<longleftrightarrow> 192 \<le> unat c \<and> unat c < 224"
  "c AND TOP_BITS 4 = TOP_BITS 3 \<longleftrightarrow> 224 \<le> unat c \<and> unat c < 240"
  "c AND TOP_BITS 5 = TOP_BITS 4 \<longleftrightarrow> 240 \<le> unat c \<and> unat c < 248"
proof -
  have t: "TOP_BITS n = NOT (mask (8 - n))" for n
    by (simp add: TOP_BITS_def BOTTOM_BITS_def mask_eq_exp_minus_1)
  have v: "unat (c AND TOP_BITS n) = unat c div 2 ^ (8 - n) * 2 ^ (8 - n)" for n
    unfolding t by (rule unat_and_not_mask)
  have n: "TOP_BITS 1 = 128" "TOP_BITS 2 = 192" "TOP_BITS 3 = 224" "TOP_BITS 4 = 240"
    by (simp_all add: TOP_BITS_def BOTTOM_BITS_def)
  note n = n(1) [unfolded One_nat_def] n
  have d: "x div 64 * 64 = 128 \<longleftrightarrow> 128 \<le> x \<and> x < 192" "x div 32 * 32 = 192 \<longleftrightarrow> 192 \<le> x \<and> x < 224"
    "x div 16 * 16 = 224 \<longleftrightarrow> 224 \<le> x \<and> x < 240" "x div 8 * 8 = 240 \<longleftrightarrow> 240 \<le> x \<and> x < 248" for x :: nat
    using div_range [of 64 x 2] div_range [of 32 x 6] div_range [of 16 x 14] div_range [of 8 x 30] by auto
  show "c AND TOP_BITS 2 = TOP_BITS 1 \<longleftrightarrow> 128 \<le> unat c \<and> unat c < 192"
    "c AND TOP_BITS 3 = TOP_BITS 2 \<longleftrightarrow> 192 \<le> unat c \<and> unat c < 224"
    "c AND TOP_BITS 4 = TOP_BITS 3 \<longleftrightarrow> 224 \<le> unat c \<and> unat c < 240"
    "c AND TOP_BITS 5 = TOP_BITS 4 \<longleftrightarrow> 240 \<le> unat c \<and> unat c < 248"
    unfolding word_unat_eq_iff v using d [of "unat c"] by (simp_all add: n)
qed

lemma bottom_bits: "unat (c AND BOTTOM_BITS n) = unat c mod 2 ^ n"
  using unat_and_mask [of c n] by (simp add: BOTTOM_BITS_def mask_eq_exp_minus_1)


lemma unat_shift6:
  assumes "unat v < 2 ^ 26"
  shows "unat (push_bit 6 v OR ucast (c AND BOTTOM_BITS 6) :: u32) = unat v * 64 + unat c mod 64"
proof -
  have "unat (ucast (c AND BOTTOM_BITS 6) :: u32) = unat c mod 64"
    using bottom_bits [of c 6] by (simp add: unat_ucast_byte)
  then show ?thesis using assms by (subst unat_push_or) simp_all
qed

lemma utf8_continuation_step:
  "utf8_continuation (Suc i) v cbs =
     (case cbs of
        [] \<Rightarrow> (None, [])
      | c # r \<Rightarrow> if 128 \<le> unat c \<and> unat c < 192 then utf8_continuation i (push_bit 6 v OR ucast (c AND BOTTOM_BITS 6)) r
                 else (None, r))"
  by (cases cbs) (simp_all add: get_u_values top_bits del: One_nat_def)

declare utf8_continuation.simps(2) [simp del]

text \<open>The value of continuation bytes after a first part.\<close>

definition cont_val :: "nat \<Rightarrow> bytes \<Rightarrow> nat" where
  "cont_val v cs = foldl (\<lambda>x c. x * 64 + (unat c - 128)) v cs"

definition conts :: "bytes \<Rightarrow> bool" where
  "conts cs \<longleftrightarrow> (\<forall>c\<in>set cs. 128 \<le> unat c \<and> unat c < 192)"

lemma unat_sub_mod: "k * 2 ^ n \<le> x \<Longrightarrow> x < k * 2 ^ n + 2 ^ n \<Longrightarrow> x mod 2 ^ n = x - k * 2 ^ n" for x :: nat
  by (metis add_diff_cancel_left' le_add_diff_inverse mod_less mod_mult_self3 nat_add_left_cancel_less)

lemma cont_step:
  assumes "Suc (unat v) * 64 ^ Suc i \<le> 2 ^ 32" and "128 \<le> unat c" "unat c < 192"
  defines "v' \<equiv> push_bit 6 v OR ucast (c AND BOTTOM_BITS 6) :: u32"
  shows "unat v' = unat v * 64 + (unat c - 128)" and "Suc (unat v') * 64 ^ i \<le> 2 ^ 32"
proof -
  have "Suc (unat v) * 64 * 1 \<le> Suc (unat v) * 64 * 64 ^ i" by (intro mult_le_mono2) simp
  then have v: "Suc (unat v) * 64 \<le> 2 ^ 32" using assms(1) by (simp only: power_Suc mult.assoc [symmetric])
  obtain y where y: "unat c = 128 + y" "y < 64" using assms(2,3) by (auto dest: le_Suc_ex)
  then show v': "unat v' = unat v * 64 + (unat c - 128)" using v unat_sub_mod [of 2 6 "unat c"] by (simp add: v'_def unat_shift6)
  then have "Suc (unat v') * 64 ^ i \<le> (Suc (unat v) * 64) * 64 ^ i" using y by (intro mult_le_mono1) simp
  then show "Suc (unat v') * 64 ^ i \<le> 2 ^ 32" using assms(1) by (simp only: power_Suc mult.assoc [symmetric])
qed

lemma utf8_continuation_iff:
  assumes "Suc (unat v) * 64 ^ i \<le> 2 ^ 32"
  shows "utf8_continuation i v cbs = (Some w, r) \<longleftrightarrow>
    (\<exists>cs. cbs = cs @ r \<and> length cs = i \<and> conts cs \<and> unat w = cont_val (unat v) cs)"
  using assms
proof (induction i arbitrary: v cbs)
  case 0
  then show ?case by (auto simp: conts_def cont_val_def word_unat_eq_iff)
next
  case (Suc i)
  show ?case
  proof (cases cbs)
    case Nil
    then show ?thesis by (simp add: utf8_continuation_step)
  next
    case (Cons c rest)
    show ?thesis
    proof (cases "128 \<le> unat c \<and> unat c < 192")
      case True
      note st = cont_step [OF Suc.prems True [THEN conjunct1] True [THEN conjunct2]]
      let ?v = "push_bit 6 v OR ucast (c AND BOTTOM_BITS 6) :: u32"
      have "utf8_continuation (Suc i) v cbs = (Some w, r) \<longleftrightarrow>
          (\<exists>cs. rest = cs @ r \<and> length cs = i \<and> conts cs \<and> unat w = cont_val (unat ?v) cs)"
        using True Suc.IH [OF st(2), of rest] by (simp add: Cons utf8_continuation_step)
      also have "\<dots> \<longleftrightarrow> (\<exists>cs. cbs = cs @ r \<and> length cs = Suc i \<and> conts cs \<and> unat w = cont_val (unat v) cs)"
        using True by (auto simp: Cons length_Suc_conv conts_def cont_val_def st(1) Cons_eq_append_conv)
      finally show ?thesis .
    next
      case False
      then show ?thesis
        by (auto simp: Cons utf8_continuation_step conts_def length_Suc_conv)
    qed
  qed
qed

text \<open>The reader over numbers, by the range of the first byte.\<close>

definition utf8_finish :: "nat \<Rightarrow> nat \<Rightarrow> u8 \<Rightarrow> nat \<Rightarrow> cbs \<Rightarrow> u32 \<Rightarrow> cbs \<Rightarrow> bool" where
  "utf8_finish len lb c sub rest w r \<longleftrightarrow>
     (\<exists>cs. rest = cs @ r \<and> length cs = len \<and> conts cs \<and> unat w = cont_val (unat c - sub) cs \<and>
        is_valid_code_point w \<and> lb \<le> unat w)"

lemma utf8_finish_iff:
  assumes "unat v = unat c - sub" and "Suc (unat v) * 64 ^ len \<le> 2 ^ 32"
  shows "(case utf8_continuation len v rest of
            (None, cbs'') \<Rightarrow> (None, cbs'')
          | (Some v, cbs'') \<Rightarrow>
              if \<not> is_valid_code_point v \<or> v < lb then (None, cbs'') else (Some v, cbs'')) = (Some w, r) \<longleftrightarrow>
    utf8_finish len (unat lb) c sub rest w r"
proof -
  have "utf8_finish len (unat lb) c sub rest w r \<longleftrightarrow>
      utf8_continuation len v rest = (Some w, r) \<and> is_valid_code_point w \<and> \<not> w < lb"
    unfolding utf8_finish_def utf8_continuation_iff [OF assms(2)] by (auto simp: assms(1) word_less_nat_alt not_less)
  then show ?thesis by (auto split: prod.splits option.splits if_splits)
qed

lemma cbs_get_utf8_Nil: "cbs_get_utf8 [] = (None, [])"
  by (simp add: cbs_get_utf8_def get_u_values)

lemma cbs_get_utf8_Cons:
  "cbs_get_utf8 (c # rest) = (Some w, r) \<longleftrightarrow>
     (if unat c < 128 then unat w = unat c \<and> r = rest
      else if 192 \<le> unat c \<and> unat c < 224 then utf8_finish 1 0x80 c 192 rest w r
      else if 224 \<le> unat c \<and> unat c < 240 then utf8_finish 2 0x800 c 224 rest w r
      else if 240 \<le> unat c \<and> unat c < 248 then utf8_finish 3 0x10000 c 240 rest w r
      else False)"
proof -
  have u: "unat (ucast x :: u32) = unat x" for x :: u8 by (rule unat_ucast_byte) simp
  consider "unat c < 128" | "128 \<le> unat c" "unat c < 192" | "192 \<le> unat c" "unat c < 224" | "224 \<le> unat c" "unat c < 240"
    | "240 \<le> unat c" "unat c < 248" | "248 \<le> unat c" by linarith
  then show ?thesis
  proof cases
    case 1
    then have "c \<le> 0x7f" by (simp add: word_le_nat_alt)
    with 1 show ?thesis by (auto simp: cbs_get_utf8_def get_u_values word_unat_eq_iff u)
  next
    case 3
    then have "\<not> c \<le> 0x7f" "unat (ucast (c AND BOTTOM_BITS 5) :: u32) = unat c - 192"
      using unat_sub_mod [of 6 5 "unat c"] by (auto simp: word_le_nat_alt u bottom_bits)
    with 3 utf8_finish_iff [of "ucast (c AND BOTTOM_BITS 5)" c 192 1 "0x80" rest w r] show ?thesis
      by (simp add: cbs_get_utf8_def get_u_values top_bits)
  next
    case 4
    then have "\<not> c \<le> 0x7f" "unat (ucast (c AND BOTTOM_BITS 4) :: u32) = unat c - 224"
      using unat_sub_mod [of 14 4 "unat c"] by (auto simp: word_le_nat_alt u bottom_bits)
    with 4 utf8_finish_iff [of "ucast (c AND BOTTOM_BITS 4)" c 224 2 "0x800" rest w r] show ?thesis
      by (simp add: cbs_get_utf8_def get_u_values top_bits)
  next
    case 5
    then have "\<not> c \<le> 0x7f" "unat (ucast (c AND BOTTOM_BITS 3) :: u32) = unat c - 240"
      using unat_sub_mod [of 30 3 "unat c"] by (auto simp: word_le_nat_alt u bottom_bits)
    with 5 utf8_finish_iff [of "ucast (c AND BOTTOM_BITS 3)" c 240 3 "0x10000" rest w r] show ?thesis
      by (simp add: cbs_get_utf8_def get_u_values top_bits)
  qed (auto simp: cbs_get_utf8_def get_u_values top_bits word_le_nat_alt)
qed


section \<open>The codecs\<close>

lemma digit64: "w = u * 64 + z \<Longrightarrow> z < 64 \<Longrightarrow> w div 64 = u \<and> w mod 64 = (z :: nat)"
  by simp

lemma div_64_64: "w div 4096 = w div 64 div 64" "w div 262144 = w div 64 div 64 div 64" for w :: nat
  using div_mult2_eq [of w 64 64] div_mult2_eq [of w 64 4096] div_mult2_eq [of "w div 64" 64 64] by simp_all

lemma cont_byte: "128 \<le> unat c \<Longrightarrow> unat c < 192 \<Longrightarrow> \<exists>y < 64. unat c = 128 + y \<and> c = word_of_nat (128 + y)"
  by (rule exI [of _ "unat c - 128"]) (auto simp: word_of_unat simp del: of_nat_add of_nat_diff)

lemma lead_byte: "k \<le> unat c \<Longrightarrow> \<exists>x. unat c = k + x \<and> c = word_of_nat (k + x)"
  by (rule exI [of _ "unat c - k"]) (auto simp: word_of_unat simp del: of_nat_add of_nat_diff)

lemma utf8_2:
  assumes "utf8_finish 1 0x80 c 192 rest w r" and c: "192 \<le> unat c" "unat c < 224"
  shows "is_valid_code_point w \<and> c # rest = utf8_bytes (unat w) @ r"
proof -
  from assms(1) obtain c1 where "rest = c1 # r" "128 \<le> unat c1" "unat c1 < 192" and w: "unat w = cont_val (unat c - 192) [c1]"
    "is_valid_code_point w" "0x80 \<le> unat w"
    by (auto simp: utf8_finish_def conts_def length_Suc_conv)
  with lead_byte [OF c(1)] cont_byte [of c1] obtain x y where b: "c = word_of_nat (192 + x)" "rest = word_of_nat (128 + y) # r" "y < 64"
    and w': "unat w = x * 64 + y" and "x < 32" using c(2) by (auto simp: cont_val_def)
  then have "unat w < 0x800" by simp
  then have "utf8_bytes (unat w) = [word_of_nat (192 + unat w div 64), word_of_nat (128 + unat w mod 64)]"
    using w(3) by (simp add: utf8_bytes_def)
  with b w(2) digit64 [OF w' b(3)] show ?thesis by simp
qed

lemma utf8_3:
  assumes "utf8_finish 2 0x800 c 224 rest w r" and c: "224 \<le> unat c" "unat c < 240"
  shows "is_valid_code_point w \<and> c # rest = utf8_bytes (unat w) @ r"
proof -
  from assms(1) obtain c1 c2 where "rest = c1 # c2 # r" "128 \<le> unat c1" "unat c1 < 192" "128 \<le> unat c2" "unat c2 < 192"
    and w: "unat w = cont_val (unat c - 224) [c1, c2]" "is_valid_code_point w" "0x800 \<le> unat w"
    by (auto simp: utf8_finish_def conts_def length_Suc_conv numeral_2_eq_2)
  with lead_byte [OF c(1)] cont_byte [of c1] cont_byte [of c2] obtain x y z where
    b: "c = word_of_nat (224 + x)" "rest = word_of_nat (128 + y) # word_of_nat (128 + z) # r" "y < 64" "z < 64"
    and w': "unat w = (x * 64 + y) * 64 + z" and x: "x < 16" using c(2) by (auto simp: cont_val_def)
  then have "unat w < 0x10000" by simp
  then have "utf8_bytes (unat w) = [word_of_nat (224 + unat w div 64 div 64), word_of_nat (128 + unat w div 64 mod 64),
      word_of_nat (128 + unat w mod 64)]"
    using w(3) by (simp add: utf8_bytes_def div_64_64)
  with b w(2) digit64 [OF w' b(4)] digit64 [OF refl b(3), of x] show ?thesis by simp
qed

lemma utf8_4:
  assumes "utf8_finish 3 0x10000 c 240 rest w r" and c: "240 \<le> unat c" "unat c < 248"
  shows "is_valid_code_point w \<and> c # rest = utf8_bytes (unat w) @ r"
proof -
  from assms(1) obtain c1 c2 c3 where "rest = c1 # c2 # c3 # r" "128 \<le> unat c1" "unat c1 < 192" "128 \<le> unat c2" "unat c2 < 192"
      "128 \<le> unat c3" "unat c3 < 192"
    and w: "unat w = cont_val (unat c - 240) [c1, c2, c3]" "is_valid_code_point w" "0x10000 \<le> unat w"
    by (auto simp: utf8_finish_def conts_def length_Suc_conv numeral_3_eq_3)
  with lead_byte [OF c(1)] cont_byte [of c1] cont_byte [of c2] cont_byte [of c3] obtain x y z u where
    b: "c = word_of_nat (240 + x)" "rest = word_of_nat (128 + y) # word_of_nat (128 + z) # word_of_nat (128 + u) # r"
      "y < 64" "z < 64" "u < 64"
    and w': "unat w = ((x * 64 + y) * 64 + z) * 64 + u" by (auto simp: cont_val_def)
  have "utf8_bytes (unat w) = [word_of_nat (240 + unat w div 64 div 64 div 64), word_of_nat (128 + unat w div 64 div 64 mod 64),
      word_of_nat (128 + unat w div 64 mod 64), word_of_nat (128 + unat w mod 64)]"
    using w(3) by (simp add: utf8_bytes_def div_64_64)
  with b w(2) digit64 [OF w' b(5)] digit64 [OF refl b(4), of "x * 64 + y"] digit64 [OF refl b(3), of x] show ?thesis by simp
qed

lemma valid_range: "is_valid_code_point w \<Longrightarrow> unat w \<le> 0x10ffff"
  by (auto simp: is_valid_code_point_def word_less_nat_alt split: if_splits)

lemma ascii_valid: "unat w < 128 \<Longrightarrow> is_valid_code_point w"
proof -
  assume w: "unat w < 128"
  have "w AND 0xfffe \<noteq> 0xfffe"
  proof
    assume "w AND 0xfffe = 0xfffe"
    then have "0xfffe \<le> w" by (metis word_and_le2)
    with w show False by (simp add: word_le_nat_alt)
  qed
  with w show ?thesis by (simp add: is_valid_code_point_def word_less_nat_alt word_le_nat_alt)
qed

lemma unat_byte_small: "n < 256 \<Longrightarrow> unat (word_of_nat n :: u8) = n"
  by (simp add: unat_of_nat)

lemma unat_cont: "unat (word_of_nat (128 + n mod 64) :: u8) = 128 + n mod 64"
proof -
  have "n mod 64 < 64" by simp
  then show ?thesis by (intro unat_byte_small) linarith
qed

lemma utf8_written_finish:
  assumes v: "is_valid_code_point w" and n: "n = unat w"
  shows "0x80 \<le> n \<Longrightarrow> n < 0x800 \<Longrightarrow> utf8_finish 1 0x80 (word_of_nat (192 + n div 64)) 192 (word_of_nat (128 + n mod 64) # r) w r"
    and "0x800 \<le> n \<Longrightarrow> n < 0x10000 \<Longrightarrow> utf8_finish 2 0x800 (word_of_nat (224 + n div 64 div 64)) 224
       (word_of_nat (128 + n div 64 mod 64) # word_of_nat (128 + n mod 64) # r) w r"
    and "0x10000 \<le> n \<Longrightarrow> utf8_finish 3 0x10000 (word_of_nat (240 + n div 64 div 64 div 64)) 240
       (word_of_nat (128 + n div 64 div 64 mod 64) # word_of_nat (128 + n div 64 mod 64) # word_of_nat (128 + n mod 64) # r) w r"
proof -
  have c: "128 \<le> unat (word_of_nat (128 + k mod 64) :: u8) \<and> unat (word_of_nat (128 + k mod 64) :: u8) < 192" for k
    using mod_less_divisor [of 64 k] unfolding unat_cont by linarith
  have e: "n div 64 * 64 + n mod 64 = n" "n div 64 div 64 * 64 + n div 64 mod 64 = n div 64"
    "n div 64 div 64 div 64 * 64 + n div 64 div 64 mod 64 = n div 64 div 64" by simp_all
  show "utf8_finish 1 0x80 (word_of_nat (192 + n div 64)) 192 (word_of_nat (128 + n mod 64) # r) w r"
    if "0x80 \<le> n" "n < 0x800"
  proof -
    have "unat (word_of_nat (192 + n div 64) :: u8) = 192 + n div 64" using that by (intro unat_byte_small) linarith
    then show ?thesis unfolding utf8_finish_def using v that c
      by (intro exI [of _ "[word_of_nat (128 + n mod 64)]"]) (simp add: n [symmetric] conts_def cont_val_def unat_cont del: of_nat_add)
  qed
  show "utf8_finish 2 0x800 (word_of_nat (224 + n div 64 div 64)) 224
       (word_of_nat (128 + n div 64 mod 64) # word_of_nat (128 + n mod 64) # r) w r"
    if "0x800 \<le> n" "n < 0x10000"
  proof -
    have "unat (word_of_nat (224 + n div 64 div 64) :: u8) = 224 + n div 64 div 64"
      using that by (intro unat_byte_small) linarith
    then show ?thesis unfolding utf8_finish_def using v that c e
      by (intro exI [of _ "[word_of_nat (128 + n div 64 mod 64), word_of_nat (128 + n mod 64)]"])
        (simp add: n [symmetric] conts_def cont_val_def unat_cont del: of_nat_add)
  qed
  show "utf8_finish 3 0x10000 (word_of_nat (240 + n div 64 div 64 div 64)) 240
       (word_of_nat (128 + n div 64 div 64 mod 64) # word_of_nat (128 + n div 64 mod 64) # word_of_nat (128 + n mod 64) # r) w r"
    if "0x10000 \<le> n"
  proof -
    have "unat (word_of_nat (240 + n div 64 div 64 div 64) :: u8) = 240 + n div 64 div 64 div 64"
      using valid_range [OF v] n by (intro unat_byte_small) linarith
    note lead = this
    define q a b d where "q = n div 64 div 64 div 64" "a = n div 64 div 64 mod 64" "b = n div 64 mod 64" "d = n mod 64"
    have u: "unat (word_of_nat (128 + a) :: u8) = 128 + a" "unat (word_of_nat (128 + b) :: u8) = 128 + b"
        "unat (word_of_nat (128 + d) :: u8) = 128 + d"
      unfolding q_a_b_d_def by (rule unat_cont)+
    have n': "n = ((q * 64 + a) * 64 + b) * 64 + d" unfolding q_a_b_d_def by simp
    have small: "a < 64" "b < 64" "d < 64" by (simp_all add: q_a_b_d_def)
    have lead': "unat (word_of_nat (240 + q) :: u8) = 240 + q" using lead by (simp only: q_a_b_d_def)
    have "conts [word_of_nat (128 + a), word_of_nat (128 + b), word_of_nat (128 + d)]"
      using u small by (simp add: conts_def del: of_nat_add)
    moreover have "cont_val q [word_of_nat (128 + a), word_of_nat (128 + b), word_of_nat (128 + d)] = n"
      unfolding n' using u by (simp add: cont_val_def del: of_nat_add)
    ultimately have "utf8_finish 3 0x10000 (word_of_nat (240 + q)) 240 (word_of_nat (128 + a) # word_of_nat (128 + b) # word_of_nat (128 + d) # r) w r"
      unfolding utf8_finish_def using v that n lead'
      by (intro exI [of _ "[word_of_nat (128 + a), word_of_nat (128 + b), word_of_nat (128 + d)]"]) (simp del: of_nat_add)
    then show ?thesis by (simp only: q_a_b_d_def)
  qed
qed

lemma cbs_get_utf8_iff:
  "cbs_get_utf8 cbs = (Some w, r) \<longleftrightarrow> is_valid_code_point w \<and> cbs = utf8_bytes (unat w) @ r"
proof
  assume g: "cbs_get_utf8 cbs = (Some w, r)"
  then obtain c rest where cbs: "cbs = c # rest" by (cases cbs) (auto simp: cbs_get_utf8_Nil)
  show "is_valid_code_point w \<and> cbs = utf8_bytes (unat w) @ r"
  proof (cases "unat c < 128")
    case True
    then have "unat w = unat c" "r = rest" using g by (auto simp: cbs cbs_get_utf8_Cons)
    with True show ?thesis by (simp add: cbs utf8_bytes_def ascii_valid)
  next
    case False
    then show ?thesis using g utf8_2 [of c rest w r] utf8_3 [of c rest w r] utf8_4 [of c rest w r]
      unfolding cbs cbs_get_utf8_Cons by (auto split: if_splits)
  qed
next
  assume w: "is_valid_code_point w \<and> cbs = utf8_bytes (unat w) @ r"
  define n where "n = unat w"
  note f = utf8_written_finish [OF conjunct1 [OF w] n_def, of r]
  have b: "n div 64 < 32 \<Longrightarrow> unat (word_of_nat (192 + n div 64) :: u8) = 192 + n div 64"
    "n div 64 div 64 < 16 \<Longrightarrow> unat (word_of_nat (224 + n div 64 div 64) :: u8) = 224 + n div 64 div 64"
    "n div 64 div 64 div 64 < 8 \<Longrightarrow> unat (word_of_nat (240 + n div 64 div 64 div 64) :: u8) = 240 + n div 64 div 64 div 64"
    by (intro unat_byte_small; linarith)+
  have top: "n div 64 div 64 div 64 < 8" using valid_range [OF conjunct1 [OF w]] by (simp add: n_def [symmetric] div_64_64 [symmetric] div_less_iff_less_mult)
  consider "n < 0x80" | "0x80 \<le> n" "n < 0x800" | "0x800 \<le> n" "n < 0x10000" | "0x10000 \<le> n" by linarith
  then show "cbs_get_utf8 cbs = (Some w, r)"
  proof cases
    case 1
    then show ?thesis using w by (simp add: n_def [symmetric] utf8_bytes_def cbs_get_utf8_Cons unat_byte_small)
  next
    case 2
    then have "n div 64 < 32" by linarith
    with 2 show ?thesis using w f(1) b(1) by (simp add: n_def [symmetric] utf8_bytes_def cbs_get_utf8_Cons del: of_nat_add)
  next
    case 3
    then have "n div 64 div 64 < 16" by linarith
    with 3 show ?thesis using w f(2) b(2) by (simp add: n_def [symmetric] utf8_bytes_def cbs_get_utf8_Cons div_64_64 del: of_nat_add)
  next
    case 4
    with top show ?thesis using w f(3) b(3) by (simp add: n_def [symmetric] utf8_bytes_def cbs_get_utf8_Cons div_64_64 del: of_nat_add)
  qed
qed

interpretation utf8: canonical_codec "\<lambda>u. utf8_bytes (unat u)" cbs_get_utf8 is_valid_code_point
  by unfold_locales (simp_all add: cbs_get_utf8_iff)


lemma or_top:
  "x < 32 \<Longrightarrow> TOP_BITS 2 OR word_of_nat x = word_of_nat (192 + x)"
  "x < 16 \<Longrightarrow> TOP_BITS 3 OR word_of_nat x = word_of_nat (224 + x)"
  "x < 8 \<Longrightarrow> TOP_BITS 4 OR word_of_nat x = word_of_nat (240 + x)"
  "x < 64 \<Longrightarrow> TOP_BITS 1 OR word_of_nat x = word_of_nat (128 + x)"
proof -
  have t: "TOP_BITS 2 = push_bit 6 3" "TOP_BITS 3 = push_bit 5 7" "TOP_BITS 4 = push_bit 4 15" "TOP_BITS 1 = push_bit 7 1"
    by (simp_all add: TOP_BITS_def BOTTOM_BITS_def)
  show "x < 32 \<Longrightarrow> TOP_BITS 2 OR word_of_nat x = word_of_nat (192 + x)"
    unfolding t by (subst push_or_eq_plus) (simp_all add: unat_of_nat)
  show "x < 16 \<Longrightarrow> TOP_BITS 3 OR word_of_nat x = word_of_nat (224 + x)"
    unfolding t by (subst push_or_eq_plus) (simp_all add: unat_of_nat)
  show "x < 8 \<Longrightarrow> TOP_BITS 4 OR word_of_nat x = word_of_nat (240 + x)"
    unfolding t by (subst push_or_eq_plus) (simp_all add: unat_of_nat)
  show "x < 64 \<Longrightarrow> TOP_BITS 1 OR word_of_nat x = word_of_nat (128 + x)"
    unfolding t by (subst push_or_eq_plus) (simp_all add: unat_of_nat)
qed

lemma ucast_drop: "ucast (drop_bit k (u :: u32)) = (word_of_nat (unat u div 2 ^ k) :: u8)"
  by (simp add: word_unat_eq_iff unsigned_ucast_eq take_bit_nat_def unat_drop unat_of_nat)

lemma low6: "(ucast (x :: u32) :: u8) AND BOTTOM_BITS 6 = word_of_nat (unat x mod 64)"
proof -
  have "unat ((ucast x :: u8) AND BOTTOM_BITS 6) = unat x mod 64"
    by (simp add: bottom_bits unsigned_ucast_eq take_bit_nat_def mod_mod_cancel)
  then show ?thesis by (metis word_of_unat)
qed

lemma adds_utf8:
  assumes "is_valid_code_point u"
  shows "adds env m h (cbb_add_utf8 env h u) True (utf8_bytes (unat u))"
proof -
  define n where "n = unat u"
  have r: "n \<le> 0x10ffff" using valid_range [OF assms] by (simp add: n_def)
  have m64: "k mod 64 < 64" for k :: nat by simp
  have c: "TOP_BITS 1 OR ucast (drop_bit k u) AND BOTTOM_BITS 6 = word_of_nat (128 + n div 2 ^ k mod 64)"
      "TOP_BITS 1 OR ucast u AND BOTTOM_BITS 6 = word_of_nat (128 + n mod 64)" for k
    using or_top(4) [OF m64] by (simp_all only: low6 n_def unat_drop)
  have c1: "TOP_BITS 1 OR word_of_nat (n div 2 ^ k) AND BOTTOM_BITS 6 = word_of_nat (128 + n div 2 ^ k mod 64)" for k
    using c(1) [of k] by (simp only: ucast_drop n_def)
  have "TOP_BITS (Suc 0) OR word_of_nat (n div 64) AND BOTTOM_BITS 6 = word_of_nat (128 + n div 64 mod 64)"
    "TOP_BITS (Suc 0) OR word_of_nat (n div 4096) AND BOTTOM_BITS 6 = word_of_nat (128 + n div 4096 mod 64)"
    using c1 [of 6] c1 [of 12] by (simp_all del: of_nat_add)
  note c = c [unfolded One_nat_def] c this
  have le: "u \<le> 0x7f \<longleftrightarrow> n < 0x80" "u \<le> 0x7ff \<longleftrightarrow> n < 0x800" "u \<le> 0xffff \<longleftrightarrow> n < 0x10000" "u \<le> 0x10ffff"
    using r by (auto simp: word_le_nat_alt n_def)
  let ?u8 = "CBB_add_u8 env h"
  have add2: "adds env m h (cbb_then (?u8 a) (?u8 b)) True [a, b]" for a b
    using adds_then [OF adds_u8 adds_u8] by fastforce
  have add3: "adds env m h (cbb_then (?u8 a) (cbb_then (?u8 b) (?u8 d))) True [a, b, d]" for a b d
    using adds_then [OF adds_u8 add2] by fastforce
  have add4: "adds env m h (cbb_then (?u8 a) (cbb_then (?u8 b) (cbb_then (?u8 d) (?u8 e)))) True [a, b, d, e]" for a b d e
    using adds_then [OF adds_u8 add3] by fastforce
  consider "n < 0x80" | "0x80 \<le> n" "n < 0x800" | "0x800 \<le> n" "n < 0x10000" | "0x10000 \<le> n" by linarith
  then have "adds env m h (cbb_add_utf8 env h u) True (utf8_bytes n)"
  proof cases
    case 1
    have "(ucast u :: u8) = word_of_nat n" using ucast_drop [of 0 u] by (simp add: n_def)
    with 1 adds_u8 [of env m h "ucast u"] show ?thesis using assms by (simp add: cbb_add_utf8_def le utf8_bytes_def)
  next
    case 2
    then have "n div 64 < 32" by linarith
    from or_top(1) [OF this] 2 add2 show ?thesis using assms
      by (simp add: cbb_add_utf8_def le utf8_bytes_def ucast_drop n_def [symmetric] c del: of_nat_add)
  next
    case 3
    then have "n div 4096 < 16" by linarith
    from or_top(2) [OF this] 3 add3 show ?thesis using assms
      by (simp add: cbb_add_utf8_def le utf8_bytes_def ucast_drop n_def [symmetric] c del: of_nat_add)
  next
    case 4
    then have "n div 262144 < 8" using r by linarith
    from or_top(3) [OF this] 4 add4 show ?thesis using assms
      by (simp add: cbb_add_utf8_def le utf8_bytes_def ucast_drop n_def [symmetric] c del: of_nat_add)
  qed
  then show ?thesis by (simp only: n_def)
qed

text \<open>C5. UTF-8 is canonical: \<open>cbs_get_utf8\<close> accepts exactly the encodings of valid code points
  (no overlong forms, surrogates, reserved or out-of-range values), one encoding each, and
  it is the encoding \<open>cbb_add_utf8\<close> appends; the writer refuses every other code point.\<close>

theorem utf8_canonical:
  "(cbs_get_utf8 cbs = (Some u, r) \<longleftrightarrow> is_valid_code_point u \<and> cbs = utf8_bytes (unat u) @ r) \<and>
   (if is_valid_code_point u then adds env m h (cbb_add_utf8 env h u) True (utf8_bytes (unat u))
    else cbb_add_utf8 env h u c = (False, c))"
  using cbs_get_utf8_iff [of cbs u r] adds_utf8 [of u env m h] by (simp add: cbb_add_utf8_def)

lemma length_utf8_bytes: "is_valid_code_point u \<Longrightarrow> length (utf8_bytes (unat u)) = cbb_get_utf8_len u"
  by (auto simp: utf8_bytes_def cbb_get_utf8_len_def word_le_nat_alt)

lemma unat_ucast_mod: "unat (ucast (x :: 'a::len word) :: 'b::len word) = unat x mod 2 ^ LENGTH('b)"
  by (metis take_bit_nat_def unsigned_ucast_eq take_bit_word_eq_self unsigned_take_bit_eq nle_le)

lemma ucast_inverse: "unat (u :: u32) < 2 ^ LENGTH('b::len) \<Longrightarrow> ucast (ucast u :: 'b word) = u \<and> unat (ucast u :: 'b word) = unat u"
  using unat_u32_less [of u] by (simp add: word_unat_eq_iff unat_ucast_mod)

lemma ucast_u8_inverse: "ucast (ucast (c :: u8) :: u32) = c"
  using unat_byte_less [of c] by (simp add: word_unat_eq_iff unat_ucast_mod del: unat_byte_less)

lemma unat_ucast_u16: "unat (ucast (c :: u16) :: u32) = unat c"
  using unsigned_less [of c, where ?'a = nat] by (simp add: unat_ucast_mod)

interpretation latin1: canonical_codec "\<lambda>u. [ucast u]" cbs_get_latin1 "\<lambda>u. unat u < 256"
proof
  show "cbs_get_latin1 ([ucast x] @ r) = (Some x, r)" if "unat x < 256" for x r
    using ucast_inverse [of x, where 'b = 8] that by (simp add: cbs_get_latin1_def get_u_values)
  show "unat x < 256 \<and> bs = [ucast x] @ r" if "cbs_get_latin1 bs = (Some x, r)" for bs x r
    using that by (cases bs) (auto simp: cbs_get_latin1_def get_u_values unat_ucast_byte ucast_u8_inverse)
qed

interpretation ucs2: canonical_codec "\<lambda>u. be_bytes 2 (unat u)" cbs_get_ucs2_be "\<lambda>u. unat u < 65536 \<and> is_valid_code_point u"
proof
  fix x r assume "unat x < 65536 \<and> is_valid_code_point x"
  then show "cbs_get_ucs2_be (be_bytes 2 (unat x) @ r) = (Some x, r)"
    using ucast_inverse [of x, where 'b = 16] u16.dec_enc [of "ucast x" r] by (simp add: cbs_get_ucs2_be_def)
next
  fix bs x r assume "cbs_get_ucs2_be bs = (Some x, r)"
  then obtain c where "CBS_get_u16 bs = (Some c, r)" "is_valid_code_point (ucast c)" "x = ucast c"
    by (auto simp: cbs_get_ucs2_be_def split: prod.splits option.splits if_splits)
  then show "(unat x < 65536 \<and> is_valid_code_point x) \<and> bs = be_bytes 2 (unat x) @ r"
    by (simp add: u16.dec_iff unat_ucast_u16)
qed

interpretation utf32: canonical_codec "\<lambda>u. be_bytes 4 (unat u)" cbs_get_utf32_be is_valid_code_point
proof
  show "cbs_get_utf32_be (be_bytes 4 (unat x) @ r) = (Some x, r)" if "is_valid_code_point x" for x r
    using that u32.dec_enc [of x r] unat_u32_less [of x] by (simp add: cbs_get_utf32_be_def)
  show "is_valid_code_point x \<and> bs = be_bytes 4 (unat x) @ r" if "cbs_get_utf32_be bs = (Some x, r)" for bs x r
    using that by (auto simp: cbs_get_utf32_be_def u32.dec_iff split: prod.splits option.splits if_splits)
qed

end
