(* ===== verification/Ber.thy ===== *)
theory Ber
  imports CbbSpec
begin

text \<open>
  BER to DER conversion (\<open>crypto/bytestring/ber.c\<close>): the walk that decides whether a conversion is
  needed, the conversion, and implicitly tagged strings.  A length of the input is the measure of
  every loop; in the conversion loop the recursive call decides how much of the input is left, and
  a comparison makes it total, which \<open>convert_consumes\<close> shows to be always true.
\<close>

section \<open>Reading an element\<close>

text \<open>What the reader accepts, indefinite lengths included.\<close>

lemma any_element_ber_Some:
  assumes "cbs_get_any_asn1_element True cbs = (Some e, r)"
  shows "(\<exists>t c. e = el_of t c \<and> cbs = der_tlv t c @ r \<and> length c < 2 ^ 32) \<or>
    (\<exists>t. t AND CBS_ASN1_CONSTRUCTED \<noteq> 0 \<and> cbs = der_tag t @ 0x80 # r \<and>
       e = \<lparr>el_bytes = der_tag t @ [0x80], el_tag = t, el_header_len = length (der_tag t) + 1\<rparr>)"
proof -
  obtain t L rest where cbs: "cbs = der_tag t @ L # rest"
    using any_element_fail [of cbs True] assms by fastforce
  show ?thesis
  proof (cases "unat L = 128 \<and> t AND CBS_ASN1_CONSTRUCTED \<noteq> 0")
    case True
    then have L: "L = 0x80" by (simp add: word_unat_eq_iff)
    show ?thesis using assms True
      by (intro disjI2 exI [of _ t]) (simp add: cbs any_element_after_tag get_element_bytes_eq L)
  next
    case False
    then have "cbs_get_any_asn1_element False cbs = cbs_get_any_asn1_element True cbs"
      by (auto simp: cbs any_element_after_tag Let_def)
    with assms have "cbs_get_any_asn1_element False cbs = (Some e, r)" by simp
    then show ?thesis using any_element_Some by metis
  qed
qed

lemma any_element_indefinite:
  "t AND CBS_ASN1_CONSTRUCTED \<noteq> 0 \<Longrightarrow> cbs_get_any_asn1_element True (der_tag t @ 0x80 # r) =
    (Some \<lparr>el_bytes = der_tag t @ [0x80], el_tag = t, el_header_len = length (der_tag t) + 1\<rparr>, r)"
  by (simp add: any_element_after_tag get_element_bytes_eq)

lemma ber_element_length:
  assumes "CBS_get_any_ber_asn1_element cbs = (Some e, r)"
  shows "length r < length cbs" and "length (drop (el_header_len e) (el_bytes e)) < length cbs"
proof -
  have "length r < length cbs \<and> length (drop (el_header_len e) (el_bytes e)) < length cbs"
    using any_element_ber_Some [OF assms [unfolded CBS_get_any_ber_asn1_element_def]]
    by (auto simp: el_of_def der_tlv_def)
  then show "length r < length cbs" and "length (drop (el_header_len e) (el_bytes e)) < length cbs" by simp_all
qed

lemma CBS_skip_Some: "CBS_skip n cbs = (Some u, r) \<Longrightarrow> r = drop n cbs"
  by (auto simp: CBS_skip_def cbs_get_def split: if_splits)

lemma ber_rest_shorter: "(Some e, r) = CBS_get_any_ber_asn1_element cbs \<Longrightarrow> length r < length cbs"
  using ber_element_length(1) by metis

lemma ber_contents_shorter:
  "(Some e, r) = CBS_get_any_ber_asn1_element cbs \<Longrightarrow> (Some u, y) = CBS_skip (el_header_len e) (el_bytes e) \<Longrightarrow>
   length y < length cbs"
  using ber_element_length(2) CBS_skip_Some by metis

lemma asn1_rest_shorter: "(Some c, r) = CBS_get_asn1 t cbs \<Longrightarrow> length r < length cbs"
  by (drule sym) (simp add: CBS_get_asn1_iff der_tlv_def)

section \<open>The functions of the file\<close>

definition kMaxDepth :: nat where
  "kMaxDepth = 2048"

definition is_string_type :: "u32 \<Rightarrow> bool" where
  "is_string_type tag \<longleftrightarrow>
    tag AND NOT CBS_ASN1_CONSTRUCTED \<in> {3, 4, 0xc, 0x12, 0x13, 0x14, 0x15, 0x16, 0x19, 0x1a, 0x1b, 0x1c, 0x1e}"

definition is_indefinite :: "asn1_element \<Rightarrow> bool" where
  "is_indefinite e \<longleftrightarrow> length (el_bytes e) = el_header_len e \<and> 0 < el_header_len e \<and>
     el_bytes e ! (el_header_len e - 1) = 0x80"

text \<open>The loop of \<open>cbs_find_ber\<close>; \<open>found\<close> is \<open>*ber_found\<close>, which a recursive call sets to zero.\<close>

function find_ber_loop :: "nat \<Rightarrow> bool \<Rightarrow> cbs \<Rightarrow> bool option" where
  "find_ber_loop depth found inp =
    (if inp = [] then Some found
     else case CBS_get_any_ber_asn1_element inp of
       (None, _) \<Rightarrow> None
     | (Some e, inp) \<Rightarrow>
         if is_indefinite e then Some True
         else if el_tag e AND CBS_ASN1_CONSTRUCTED \<noteq> 0 then
           if is_string_type (el_tag e) then Some True
           else case CBS_skip (el_header_len e) (el_bytes e) of
             (None, _) \<Rightarrow> None
           | (Some _, contents) \<Rightarrow>
               if kMaxDepth < depth + 1 then None
               else case find_ber_loop (depth + 1) False contents of
                 None \<Rightarrow> None
               | Some found \<Rightarrow> find_ber_loop depth found inp
         else find_ber_loop depth found inp)"
  by pat_completeness auto
termination
  by (relation "measure (\<lambda>(depth, found, inp). length inp)")
    (auto intro: ber_rest_shorter ber_contents_shorter)

declare find_ber_loop.simps [simp del]

definition cbs_find_ber :: "cbs \<Rightarrow> nat \<Rightarrow> bool option" where
  "cbs_find_ber orig_in depth = (if kMaxDepth < depth then None else find_ber_loop depth False orig_in)"

definition is_eoc :: "nat \<Rightarrow> bytes \<Rightarrow> bool" where
  "is_eoc header_len contents \<longleftrightarrow> header_len = 2 \<and> length contents = 2 \<and> OPENSSL_memcmp contents [0, 0] 2 = 0"

text \<open>\<open>cbs_convert_ber\<close> writes to the CBB at \<open>h\<close>; the element's contents go to the same CBB when it
  is part of a constructed string, and otherwise to a new child.  The result comes with the rest
  of the input.\<close>

function cbs_convert_ber :: "heap_env \<Rightarrow> nat \<Rightarrow> u32 \<Rightarrow> bool \<Rightarrow> nat \<Rightarrow> cbs \<Rightarrow> cbb \<Rightarrow> bool \<times> cbs \<times> cbb" where
  "cbs_convert_ber env h string_tag looking_for_eoc depth inp out =
    (if kMaxDepth < depth then (False, inp, out)
     else if inp = [] then (\<not> looking_for_eoc, inp, out)
     else case CBS_get_any_ber_asn1_element inp of
       (None, rest) \<Rightarrow> (False, rest, out)
     | (Some e, rest) \<Rightarrow>
         if is_eoc (el_header_len e) (el_bytes e) then (looking_for_eoc, rest, out)
         else if string_tag \<noteq> 0 \<and> el_tag e AND NOT CBS_ASN1_CONSTRUCTED \<noteq> string_tag then (False, rest, out)
         else let
           concatenate = (el_tag e AND CBS_ASN1_CONSTRUCTED \<noteq> 0 \<and> is_string_type (el_tag e));
           out_tag = (if concatenate then el_tag e AND NOT CBS_ASN1_CONSTRUCTED else el_tag e);
           child_string_tag = (if string_tag = 0 \<and> concatenate then out_tag else string_tag);
           child = (if string_tag \<noteq> 0 then h else Suc h)
         in case (if string_tag \<noteq> 0 then (True, out) else CBB_add_asn1 env h out_tag out) of
           (False, out) \<Rightarrow> (False, rest, out)
         | (True, out) \<Rightarrow>
             case (if is_indefinite e then cbs_convert_ber env child child_string_tag True (depth + 1) rest out
                   else case CBS_skip (el_header_len e) (el_bytes e) of
                     (None, _) \<Rightarrow> (False, rest, out)
                   | (Some _, contents) \<Rightarrow>
                       if el_tag e AND CBS_ASN1_CONSTRUCTED \<noteq> 0 then
                         case cbs_convert_ber env child child_string_tag False (depth + 1) contents out of
                           (ok, _, out) \<Rightarrow> (ok, rest, out)
                       else case CBB_add_bytes env child contents out of (ok, out) \<Rightarrow> (ok, rest, out)) of
               (False, rest, out) \<Rightarrow> (False, rest, out)
             | (True, rest, out) \<Rightarrow>
                 case CBB_flush env h out of
                   (False, out) \<Rightarrow> (False, rest, out)
                 | (True, out) \<Rightarrow>
                     if length rest < length inp then
                       cbs_convert_ber env h string_tag looking_for_eoc depth rest out
                     else (False, rest, out))"
  by pat_completeness auto
termination
  by (relation "measures [\<lambda>(env, h, st, l, depth, inp, out). kMaxDepth + 1 - depth, \<lambda>(env, h, st, l, depth, inp, out). length inp]") auto

declare cbs_convert_ber.simps [simp del]

text \<open>The result of \<open>CBS_asn1_ber_to_der\<close>: what is left of \<open>in\<close>, \<open>out\<close>, and whether it was allocated.\<close>

definition CBS_asn1_ber_to_der :: "heap_env \<Rightarrow> cbs \<Rightarrow> (cbs \<times> bool) option \<times> cbs" where
  "CBS_asn1_ber_to_der env inp =
    (case cbs_find_ber inp 0 of
       None \<Rightarrow> (None, inp)
     | Some False \<Rightarrow>
         (case CBS_get_any_asn1_element inp of
            (None, rest) \<Rightarrow> (None, rest)
          | (Some e, rest) \<Rightarrow> (Some (el_bytes e, False), rest))
     | Some True \<Rightarrow>
         (case CBB_init env (length inp) of
            None \<Rightarrow> (None, inp)
          | Some cbb \<Rightarrow>
              (case cbs_convert_ber env 0 0 False 0 inp cbb of
                 (False, rest, _) \<Rightarrow> (None, rest)
               | (True, rest, cbb) \<Rightarrow>
                   (case CBB_finish env 0 cbb of
                      (None, _) \<Rightarrow> (None, rest)
                    | (Some der, _) \<Rightarrow> (Some (der, True), rest)))))"

function implicit_chunks :: "heap_env \<Rightarrow> u32 \<Rightarrow> cbs \<Rightarrow> cbb_op" where
  "implicit_chunks env inner_tag child result =
    (if child = [] then (True, result)
     else case CBS_get_asn1 inner_tag child of
       (None, _) \<Rightarrow> (False, result)
     | (Some chunk, child) \<Rightarrow>
         (case CBB_add_bytes env 0 chunk result of
            (False, result) \<Rightarrow> (False, result)
          | (True, result) \<Rightarrow> implicit_chunks env inner_tag child result))"
  by pat_completeness auto
termination
  by (relation "measure (\<lambda>(env, t, child, result). length child)") (auto intro: asn1_rest_shorter)

declare implicit_chunks.simps [simp del]

text \<open>The code asserts that both tags are primitive and the inner one is that of a string, which is for the caller to see to; the
  definition is what it computes for any tags.\<close>

definition CBS_get_asn1_implicit_string :: "heap_env \<Rightarrow> cbs \<Rightarrow> u32 \<Rightarrow> u32 \<Rightarrow> (cbs \<times> bool) option \<times> cbs" where
  "CBS_get_asn1_implicit_string env inp outer_tag inner_tag =
    (if CBS_peek_asn1_tag inp outer_tag then
       (case CBS_get_asn1 outer_tag inp of
          (None, rest) \<Rightarrow> (None, rest)
        | (Some out, rest) \<Rightarrow> (Some (out, False), rest))
     else case CBB_init env (length inp) of
       None \<Rightarrow> (None, inp)
     | Some result \<Rightarrow>
         (case CBS_get_asn1 (outer_tag OR CBS_ASN1_CONSTRUCTED) inp of
            (None, rest) \<Rightarrow> (None, rest)
          | (Some child, rest) \<Rightarrow>
              (case implicit_chunks env inner_tag child result of
                 (False, _) \<Rightarrow> (None, rest)
               | (True, result) \<Rightarrow>
                   (case CBB_finish env 0 result of
                      (None, _) \<Rightarrow> (None, rest)
                    | (Some data, _) \<Rightarrow> (Some (data, True), rest)))))"

section \<open>BER values\<close>

text \<open>A BER value: a primitive one with its contents, or a constructed one with its parts, in
  definite or indefinite form.\<close>

datatype ber = Primitive u32 bytes | Constructed u32 bool "ber list"

fun ber_octets :: "ber \<Rightarrow> bytes" where
  "ber_octets (Primitive t c) = der_tlv t c"
| "ber_octets (Constructed t indef vs) =
    (if indef then der_tag t @ 0x80 # concat (map ber_octets vs) @ [0, 0] else der_tlv t (concat (map ber_octets vs)))"

text \<open>The fragments of a string, put together.\<close>

fun ber_body :: "ber \<Rightarrow> bytes" where
  "ber_body (Primitive t c) = c"
| "ber_body (Constructed t indef vs) = concat (map ber_body vs)"

text \<open>The nesting the code allows for a value at depth \<open>d\<close>.\<close>

fun ber_fits :: "nat \<Rightarrow> ber \<Rightarrow> bool" where
  "ber_fits d (Primitive t c) \<longleftrightarrow> d \<le> kMaxDepth"
| "ber_fits d (Constructed t indef vs) \<longleftrightarrow> Suc d \<le> kMaxDepth \<and> (\<forall>v\<in>set vs. ber_fits (Suc d) v)"

text \<open>The value in DER: no indefinite lengths, no constructed strings.\<close>

fun ber_norm :: "ber \<Rightarrow> ber" where
  "ber_norm (Primitive t c) = Primitive t c"
| "ber_norm (Constructed t indef vs) =
    (if is_string_type t then Primitive (t AND NOT CBS_ASN1_CONSTRUCTED) (concat (map ber_body vs))
     else Constructed t False (map ber_norm vs))"

fun ber_ok :: "ber \<Rightarrow> bool" where
  "ber_ok (Primitive t c) \<longleftrightarrow> t AND CBS_ASN1_CONSTRUCTED = 0 \<and> length c < 2 ^ 32 \<and> (t = 0 \<longrightarrow> c \<noteq> [])"
| "ber_ok (Constructed t indef vs) \<longleftrightarrow> t AND CBS_ASN1_CONSTRUCTED \<noteq> 0 \<and> (\<forall>v\<in>set vs. ber_ok v) \<and>
    (\<not> indef \<longrightarrow> length (concat (map ber_octets vs)) < 2 ^ 32)"

text \<open>All fragments have the string's tag.\<close>

fun ber_fragment :: "u32 \<Rightarrow> ber \<Rightarrow> bool" where
  "ber_fragment s (Primitive t c) \<longleftrightarrow> t AND NOT CBS_ASN1_CONSTRUCTED = s"
| "ber_fragment s (Constructed t indef vs) \<longleftrightarrow> t AND NOT CBS_ASN1_CONSTRUCTED = s \<and> (\<forall>v\<in>set vs. ber_fragment s v)"

fun ber_strings :: "ber \<Rightarrow> bool" where
  "ber_strings (Primitive t c) \<longleftrightarrow> True"
| "ber_strings (Constructed t indef vs) \<longleftrightarrow>
    (if is_string_type t then \<forall>v\<in>set vs. ber_fragment (t AND NOT CBS_ASN1_CONSTRUCTED) v
     else \<forall>v\<in>set vs. ber_strings v)"

definition part_ok :: "u32 \<Rightarrow> ber \<Rightarrow> bool" where
  "part_ok s v \<longleftrightarrow> ber_ok v \<and> (if s = 0 then ber_strings v else ber_fragment s v)"

definition part_octets :: "u32 \<Rightarrow> ber \<Rightarrow> bytes" where
  "part_octets s v = (if s = 0 then ber_octets (ber_norm v) else ber_body v)"

text \<open>Lengths that \<open>CBB_flush\<close> can write.\<close>

fun ber_short :: "ber \<Rightarrow> bool" where
  "ber_short (Primitive t c) \<longleftrightarrow> length c \<le> 0xfffffffe"
| "ber_short (Constructed t indef vs) \<longleftrightarrow> (\<forall>v\<in>set vs. ber_short v) \<and> length (concat (map ber_octets vs)) \<le> 0xfffffffe"

section \<open>One element of the conversion\<close>

lemma der_tag_0: "der_tag t = [0] \<longleftrightarrow> t = 0"
proof
  assume "der_tag t = [0]"
  then have "parse_asn1_tag [0] = (Some t, [])" using parse_der_tag [of t "[]"] by simp
  moreover have "parse_asn1_tag [0] = (Some 0, [])" by code_simp
  ultimately show "t = 0" by simp
qed (simp add: der_tag_def b128_def Let_def)

lemma der_len_0: "der_len 0 = [0]"
  by (simp add: der_len_def)

lemma eoc_bytes: "length bs = 2 \<Longrightarrow> OPENSSL_memcmp bs [0, 0] 2 = 0 \<longleftrightarrow> bs = [0, 0]"
  by (auto simp: OPENSSL_memcmp_def numeral_2_eq_2 length_Suc_conv word_uint_eq_iff split: if_splits)

lemma is_eoc_el: "is_eoc (el_header_len (el_of t c)) (el_bytes (el_of t c)) \<longleftrightarrow> t = 0 \<and> c = []"
proof
  assume e: "is_eoc (el_header_len (el_of t c)) (el_bytes (el_of t c))"
  then have "length (der_tag t) + length (der_len (length c)) = 2"
    "length (der_tag t) + (length (der_len (length c)) + length c) = 2"
    by (auto simp: is_eoc_def el_of_def der_tlv_def)
  then have "length c = 0" by linarith
  then have "c = []" by simp
  then have "der_tag t @ [0] = [0, 0]" using e eoc_bytes by (auto simp: is_eoc_def el_of_def der_tlv_def der_len_0)
  then have "der_tag t = [0]" by (metis append_Cons append_Nil append_same_eq)
  then show "t = 0 \<and> c = []" using \<open>c = []\<close> der_tag_0 by simp
next
  assume "t = 0 \<and> c = []"
  moreover have "der_tag 0 = [0]" using der_tag_0 by blast
  ultimately show "is_eoc (el_header_len (el_of t c)) (el_bytes (el_of t c))"
    by (simp add: is_eoc_def el_of_def der_tlv_def der_len_0 eoc_bytes)
qed

lemma is_indefinite_el: "\<not> is_indefinite (el_of t c)"
proof
  assume i: "is_indefinite (el_of t c)"
  then have "c = []" by (auto simp: is_indefinite_def el_of_def der_tlv_def)
  then show False using i by (simp add: is_indefinite_def el_of_def der_tlv_def der_len_0 nth_append)
qed

definition open_element :: "heap_env \<Rightarrow> nat \<Rightarrow> u32 \<Rightarrow> u32 \<Rightarrow> cbb_op" where
  "open_element env h st t = (if st \<noteq> 0 then (\<lambda>c. (True, c)) else CBB_add_asn1 env h t)"

definition joins :: "u32 \<Rightarrow> bool" where
  "joins t \<longleftrightarrow> t AND CBS_ASN1_CONSTRUCTED \<noteq> 0 \<and> is_string_type t"

definition out_tag :: "u32 \<Rightarrow> u32" where
  "out_tag t = (if joins t then t AND NOT CBS_ASN1_CONSTRUCTED else t)"

definition child_tag :: "u32 \<Rightarrow> u32 \<Rightarrow> u32" where
  "child_tag st t = (if st = 0 \<and> joins t then out_tag t else st)"

definition child_at :: "u32 \<Rightarrow> nat \<Rightarrow> nat" where
  "child_at st h = (if st \<noteq> 0 then h else Suc h)"

text \<open>The conversion as an operation of the writer.\<close>

definition conv_op :: "heap_env \<Rightarrow> nat \<Rightarrow> u32 \<Rightarrow> bool \<Rightarrow> nat \<Rightarrow> cbs \<Rightarrow> cbb_op" where
  "conv_op env h st l d inp out = (case cbs_convert_ber env h st l d inp out of (ok, _, out) \<Rightarrow> (ok, out))"

definition leaves :: "heap_env \<Rightarrow> nat \<Rightarrow> u32 \<Rightarrow> bool \<Rightarrow> nat \<Rightarrow> cbs \<Rightarrow> cbs \<Rightarrow> bool" where
  "leaves env h st l d inp rest \<longleftrightarrow> (\<forall>out r out'. cbs_convert_ber env h st l d inp out = (True, r, out') \<longrightarrow> r = rest)"

lemma convert_end: "d \<le> kMaxDepth \<Longrightarrow> cbs_convert_ber env h st l d [] out = (\<not> l, [], out)"
  by (simp add: cbs_convert_ber.simps)

lemma read_definite: "length c < 2 ^ 32 \<Longrightarrow> CBS_get_any_ber_asn1_element (der_tlv t c @ r) = (Some (el_of t c), r)"
  by (simp add: CBS_get_any_ber_asn1_element_def any_element_der)

lemma convert_eoc: "d \<le> kMaxDepth \<Longrightarrow> cbs_convert_ber env h st l d (0 # 0 # r) out = (l, r, out)"
proof -
  assume d: "d \<le> kMaxDepth"
  have "der_tag 0 = [0]" using der_tag_0 by blast
  then have e: "0 # 0 # r = der_tlv 0 [] @ r" by (simp add: der_tlv_def der_len_0)
  show ?thesis
    unfolding e cbs_convert_ber.simps [of env h st l d "der_tlv 0 [] @ r"]
    using d e by (auto simp: read_definite is_eoc_el)
qed

lemma el_of_tag [simp]: "el_tag (el_of t c) = t"
  by (simp add: el_of_def)

lemma with_rest:
  "length r < n \<Longrightarrow>
   (case X of (False, out) \<Rightarrow> (False, r, out) | (True, out) \<Rightarrow>
     (case (if b then (case A out of (ok, _, out) \<Rightarrow> (ok, r, out)) else (case B out of (ok, out) \<Rightarrow> (ok, r, out))) of
        (False, r, out) \<Rightarrow> (False, r, out)
      | (True, r, out) \<Rightarrow> (case F out of (False, out) \<Rightarrow> (False, r, out)
          | (True, out) \<Rightarrow> if length r < n then K r out else (False, r, out)))) =
   (case X of (False, out) \<Rightarrow> (False, r, out) | (True, out) \<Rightarrow>
     (case (if b then (case A out of (ok, _, out) \<Rightarrow> (ok, out)) else B out) of
        (False, out) \<Rightarrow> (False, r, out)
      | (True, out) \<Rightarrow> (case F out of (False, out) \<Rightarrow> (False, r, out) | (True, out) \<Rightarrow> K r out)))"
  by (cases X; cases b) (auto split: prod.splits bool.splits)

lemma convert_definite:
  assumes "d \<le> kMaxDepth" and "length c < 2 ^ 32" and "t = 0 \<longrightarrow> c \<noteq> []"
  shows "cbs_convert_ber env h st l d (der_tlv t c @ r) out =
    (if st \<noteq> 0 \<and> t AND NOT CBS_ASN1_CONSTRUCTED \<noteq> st then (False, r, out)
     else case open_element env h st (out_tag t) out of
       (False, out) \<Rightarrow> (False, r, out)
     | (True, out) \<Rightarrow>
         (case (if t AND CBS_ASN1_CONSTRUCTED \<noteq> 0 then conv_op env (child_at st h) (child_tag st t) False (d + 1) c out
                else CBB_add_bytes env (child_at st h) c out) of
            (False, out) \<Rightarrow> (False, r, out)
          | (True, out) \<Rightarrow>
              (case CBB_flush env h out of
                 (False, out) \<Rightarrow> (False, r, out)
               | (True, out) \<Rightarrow> cbs_convert_ber env h st l d r out)))"
proof -
  have ne: "der_tlv t c @ r \<noteq> []" "length r < length (der_tlv t c @ r)" by (simp_all add: der_tlv_def)
  have eoc: "is_eoc (el_header_len (el_of t c)) (el_bytes (el_of t c)) = False" using assms(3) is_eoc_el by blast
  have ind: "is_indefinite (el_of t c) = False" using is_indefinite_el by blast
  have cd: "(kMaxDepth < d) = False" "(der_tlv t c @ r = []) = False" "(length r < length (der_tlv t c @ r)) = True"
    using assms(1) ne by auto
  let ?child = "child_at st h" and ?st' = "child_tag st t"
  have step: "cbs_convert_ber env h st l d (der_tlv t c @ r) out =
    (if st \<noteq> 0 \<and> t AND NOT CBS_ASN1_CONSTRUCTED \<noteq> st then (False, r, out)
     else case (if st \<noteq> 0 then (True, out) else CBB_add_asn1 env h (out_tag t) out) of
       (False, out) \<Rightarrow> (False, r, out)
     | (True, out) \<Rightarrow>
         (case (if t AND CBS_ASN1_CONSTRUCTED \<noteq> 0 then
                  (case cbs_convert_ber env ?child ?st' False (d + 1) c out of (ok, _, out) \<Rightarrow> (ok, r, out))
                else (case CBB_add_bytes env ?child c out of (ok, out) \<Rightarrow> (ok, r, out))) of
            (False, r, out) \<Rightarrow> (False, r, out)
          | (True, r, out) \<Rightarrow>
              (case CBB_flush env h out of
                 (False, out) \<Rightarrow> (False, r, out)
               | (True, out) \<Rightarrow> if length r < length (der_tlv t c @ r') then cbs_convert_ber env h st l d r out else (False, r, out))))"
    if "r' = r" for r'
    unfolding cbs_convert_ber.simps [of env h st l d "der_tlv t c @ r"] cd read_definite [OF assms(2)] option.case prod.case
      eoc ind skip_header if_False if_True Let_def el_of_tag joins_def out_tag_def child_tag_def child_at_def that by (rule refl)
  have eq: "(if st \<noteq> 0 then (True, out) else CBB_add_asn1 env h (out_tag t) out) = open_element env h st (out_tag t) out"
    by (simp add: open_element_def)
  show ?thesis
    unfolding step [OF refl] eq with_rest [OF ne(2)] conv_op_def by (rule refl)
qed

lemma der_tag_eoc: "is_eoc (length (der_tag t) + 1) (der_tag t @ [0x80]) = False"
proof -
  have "last (der_tag t @ [0x80]) \<noteq> last [0, 0]" by simp
  then have "der_tag t @ [0x80] \<noteq> [0, 0]" by metis
  then show ?thesis using eoc_bytes [of "der_tag t @ [0x80]"] by (auto simp: is_eoc_def)
qed

lemma convert_indefinite:
  assumes "d \<le> kMaxDepth" and "t AND CBS_ASN1_CONSTRUCTED \<noteq> 0"
  shows "cbs_convert_ber env h st l d (der_tag t @ 0x80 # inp) out =
    (if st \<noteq> 0 \<and> t AND NOT CBS_ASN1_CONSTRUCTED \<noteq> st then (False, inp, out)
     else case open_element env h st (out_tag t) out of
       (False, out) \<Rightarrow> (False, inp, out)
     | (True, out) \<Rightarrow>
         (case cbs_convert_ber env (child_at st h) (child_tag st t) True (d + 1) inp out of
            (False, rest, out) \<Rightarrow> (False, rest, out)
          | (True, rest, out) \<Rightarrow>
              (case CBB_flush env h out of
                 (False, out) \<Rightarrow> (False, rest, out)
               | (True, out) \<Rightarrow>
                   if length rest < length (der_tag t @ 0x80 # inp) then cbs_convert_ber env h st l d rest out
                   else (False, rest, out))))"
proof -
  let ?e = "\<lparr>el_bytes = der_tag t @ [0x80], el_tag = t, el_header_len = length (der_tag t) + 1\<rparr>"
  have cd: "(kMaxDepth < d) = False" "(der_tag t @ 0x80 # inp = []) = False" using assms(1) by auto
  have rd: "CBS_get_any_ber_asn1_element (der_tag t @ 0x80 # inp) = (Some ?e, inp)"
    using any_element_indefinite [OF assms(2)] by (simp add: CBS_get_any_ber_asn1_element_def)
  have ind: "is_indefinite ?e = True" by (simp add: is_indefinite_def nth_append)
  have eq: "(if st \<noteq> 0 then (True, out) else CBB_add_asn1 env h t' out) = open_element env h st t' out" for t'
    by (simp add: open_element_def)
  have tag: "el_tag ?e = t" "el_bytes ?e = der_tag t @ [0x80]" "el_header_len ?e = length (der_tag t) + 1" by simp_all
  show ?thesis
    unfolding cbs_convert_ber.simps [of env h st l d "der_tag t @ 0x80 # inp"] cd rd option.case prod.case ind if_True if_False
      tag der_tag_eoc Let_def eq [symmetric] joins_def out_tag_def child_tag_def child_at_def by (rule refl)
qed

section \<open>What the conversion reads\<close>

lemma and_not_of_and_0: "x AND y = 0 \<Longrightarrow> x AND NOT y = (x :: u32)"
proof (rule bit_word_eqI)
  fix n assume "x AND y = 0" "n < LENGTH(32)"
  then have "\<not> (bit x n \<and> bit y n)" by (simp flip: bit_and_iff)
  then show "bit (x AND NOT y) n = bit x n" using \<open>n < LENGTH(32)\<close> by (auto simp: bit_and_iff bit_not_iff)
qed

lemma string_type_not_0: "is_string_type t \<Longrightarrow> t AND NOT CBS_ASN1_CONSTRUCTED \<noteq> 0"
  by (auto simp: is_string_type_def)

lemma part_ok_Cons:
  assumes "t AND CBS_ASN1_CONSTRUCTED \<noteq> 0" and "st \<noteq> 0 \<longrightarrow> t AND NOT CBS_ASN1_CONSTRUCTED = st"
    and "\<not> indef \<longrightarrow> length (concat (map ber_octets vs)) < 2 ^ 32"
  shows "part_ok st (Constructed t indef vs) \<longleftrightarrow> (\<forall>v\<in>set vs. part_ok (child_tag st t) v)"
  using assms string_type_not_0 [of t]
  by (cases "is_string_type t") (auto simp: part_ok_def child_tag_def out_tag_def joins_def)

lemma convert_reads:
  assumes "cbs_convert_ber env h st l d inp out = (True, rest, out')"
  shows "\<exists>vs. inp = concat (map ber_octets vs) @ (if l then 0 # 0 # rest else rest) \<and> (\<not> l \<longrightarrow> rest = []) \<and>
    (\<forall>v\<in>set vs. part_ok st v \<and> ber_fits d v)"
  using assms
proof (induction inp arbitrary: h st l d out rest out' rule: measure_induct_rule [of length])
  case (less inp)
  have d: "d \<le> kMaxDepth" using less.prems by (subst (asm) cbs_convert_ber.simps) (auto split: if_splits)
  show ?case
  proof (cases "inp = []")
    case True
    then show ?thesis using less.prems d by (intro exI [of _ "[]"]) (simp add: convert_end)
  next
    case ne: False
    then obtain e r where rd: "CBS_get_any_ber_asn1_element inp = (Some e, r)"
      using less.prems d by (subst (asm) cbs_convert_ber.simps) (auto split: prod.splits option.splits)
    have eoc_tlv: "der_tlv 0 [] = [0, 0]" using der_tag_0 [of 0] by (simp add: der_tlv_def der_len_0)
    from any_element_ber_Some [OF rd [unfolded CBS_get_any_ber_asn1_element_def]]
    consider (eoc) "inp = 0 # 0 # r"
      | (definite) t c where "inp = der_tlv t c @ r" "length c < 2 ^ 32" "t = 0 \<longrightarrow> c \<noteq> []"
      | (indefinite) t where "t AND CBS_ASN1_CONSTRUCTED \<noteq> 0" "inp = der_tag t @ 0x80 # r"
    proof (elim disjE exE conjE)
      fix t c
      assume "inp = der_tlv t c @ r" "length c < 2 ^ 32"
      then show thesis using that(1) that(2) [of t c] eoc_tlv by (cases "t = 0 \<and> c = []") auto
    qed (rule that(3))
    then show ?thesis
    proof cases
      case eoc
      then show ?thesis using less.prems d by (intro exI [of _ "[]"]) (simp add: convert_eoc)
    next
      case (definite t c)
      note run = less.prems [unfolded definite(1) convert_definite [OF d definite(2,3)]]
      have st: "st \<noteq> 0 \<longrightarrow> t AND NOT CBS_ASN1_CONSTRUCTED = st" using run by (auto split: if_splits)
      obtain o1 o2 o3 where o: "if t AND CBS_ASN1_CONSTRUCTED \<noteq> 0
          then conv_op env (child_at st h) (child_tag st t) False (d + 1) c o1 = (True, o2)
          else CBB_add_bytes env (child_at st h) c o1 = (True, o2)"
        and tail: "cbs_convert_ber env h st l d r o3 = (True, rest, out')"
        using run by (auto split: if_splits prod.splits bool.splits)
      have "length r < length inp" using definite(1) by (simp add: der_tlv_def)
      from less.IH [OF this tail] obtain vs where
        vs: "r = concat (map ber_octets vs) @ (if l then 0 # 0 # rest else rest)" "\<not> l \<longrightarrow> rest = []"
          "\<forall>v\<in>set vs. part_ok st v \<and> ber_fits d v" by blast
      show ?thesis
      proof (cases "t AND CBS_ASN1_CONSTRUCTED = 0")
        case True
        have "t AND NOT CBS_ASN1_CONSTRUCTED = t" using True
          by (rule and_not_of_and_0)
        then have "part_ok st (Primitive t c)" using True definite st by (auto simp: part_ok_def)
        then show ?thesis using vs d definite(1) by (intro exI [of _ "Primitive t c # vs"]) auto
      next
        case False
        obtain x where "cbs_convert_ber env (child_at st h) (child_tag st t) False (d + 1) c o1 = (True, x, o2)"
          using o False by (auto simp: conv_op_def split: prod.splits)
        moreover have "length c < length inp" using definite(1) by (simp add: der_tlv_def)
        ultimately obtain ws where ws: "c = concat (map ber_octets ws)"
            "\<forall>v\<in>set ws. part_ok (child_tag st t) v \<and> ber_fits (d + 1) v"
          using less.IH by fastforce
        have "d + 1 \<le> kMaxDepth"
          using \<open>cbs_convert_ber env _ _ False (d + 1) c o1 = _\<close> by (subst (asm) cbs_convert_ber.simps) (auto split: if_splits)
        then have "part_ok st (Constructed t False ws) \<and> ber_fits d (Constructed t False ws)"
          using part_ok_Cons [OF False st, of False ws] ws definite(2) by auto
        then show ?thesis using vs ws definite(1) by (intro exI [of _ "Constructed t False ws # vs"]) auto
      qed
    next
      case (indefinite t)
      note run = less.prems [unfolded indefinite(2) convert_indefinite [OF d indefinite(1)]]
      have st: "st \<noteq> 0 \<longrightarrow> t AND NOT CBS_ASN1_CONSTRUCTED = st" using run by (auto split: if_splits)
      obtain o1 o2 o3 r' where o: "cbs_convert_ber env (child_at st h) (child_tag st t) True (d + 1) r o1 = (True, r', o2)"
        and len: "length r' < length inp" and tail: "cbs_convert_ber env h st l d r' o3 = (True, rest, out')"
        using run indefinite(2) by (auto split: if_splits prod.splits bool.splits)
      have "length r < length inp" using indefinite(2) by simp
      from less.IH [OF this o] obtain ws where ws: "r = concat (map ber_octets ws) @ 0 # 0 # r'"
          "\<forall>v\<in>set ws. part_ok (child_tag st t) v \<and> ber_fits (d + 1) v" by auto
      from less.IH [OF len tail] obtain vs where
        vs: "r' = concat (map ber_octets vs) @ (if l then 0 # 0 # rest else rest)" "\<not> l \<longrightarrow> rest = []"
          "\<forall>v\<in>set vs. part_ok st v \<and> ber_fits d v" by blast
      have "d + 1 \<le> kMaxDepth" using o by (subst (asm) cbs_convert_ber.simps) (auto split: if_splits)
      then have "part_ok st (Constructed t True ws) \<and> ber_fits d (Constructed t True ws)"
        using part_ok_Cons [OF indefinite(1) st, of True ws] ws by auto
      then show ?thesis using vs ws indefinite(2) by (intro exI [of _ "Constructed t True ws # vs"]) auto
    qed
  qed
qed

lemma convert_consumes:
  "cbs_convert_ber env h st l d inp out = (True, rest, out') \<Longrightarrow> length rest \<le> length inp"
  using convert_reads [of env h st l d inp out rest out'] by auto

section \<open>What the conversion writes\<close>

text \<open>An operation that appends \<open>d\<close> to a CBB without open children.\<close>

definition appends :: "heap_env \<Rightarrow> nat \<Rightarrow> nat \<Rightarrow> cbb_op \<Rightarrow> bool \<Rightarrow> bytes \<Rightarrow> bool" where
  "appends env m h op good d \<longleftrightarrow> (\<forall>c fs. represents c fs \<and> length fs = Suc h \<and> length (flat fs @ d) \<le> m \<longrightarrow>
     (case op c of
        (True, c') \<Rightarrow> represents c' (app d fs) \<and> good \<and> (roomy env m (base c) \<longrightarrow> roomy env m (base c'))
      | (False, c') \<Rightarrow> error (base c') \<and> \<not> (roomy env m (base c) \<and> good)))"

lemma appends_id: "appends env m h (\<lambda>c. (True, c)) True []"
  unfolding appends_def
proof (intro allI impI, elim conjE)
  fix c fs assume r: "represents c fs" and l: "length fs = Suc h"
  then have "app [] fs = fs" by (intro app_Nil) auto
  then show "case (True, c) of
        (True, c') \<Rightarrow> represents c' (app [] fs) \<and> True \<and> (roomy env m (base c) \<longrightarrow> roomy env m (base c'))
      | (False, c') \<Rightarrow> error (base c') \<and> \<not> (roomy env m (base c) \<and> True)"
    using r by simp
qed

lemma adds_appends: "adds env m h op g d \<Longrightarrow> appends env m h op g d"
  unfolding appends_def
proof (intro allI impI, elim conjE)
  fix c fs assume a: "adds env m h op g d" and r: "represents c fs" and l: "length fs = Suc h" and m: "length (flat fs @ d) \<le> m"
  then have "fs \<noteq> []" "close_at h fs = fs" "closable h fs" by (auto simp: close_at_closed closable_closed)
  then show "case op c of
        (True, c') \<Rightarrow> represents c' (app d fs) \<and> g \<and> (roomy env m (base c) \<longrightarrow> roomy env m (base c'))
      | (False, c') \<Rightarrow> error (base c') \<and> \<not> (roomy env m (base c) \<and> g)"
    using a [unfolded adds_def refines_def, rule_format, of c fs] r l m by (auto split: prod.splits bool.splits)
qed

lemma appends_then:
  assumes "appends env m h f g1 d1" and "appends env m h k g2 d2"
  shows "appends env m h (cbb_then f k) (g1 \<and> g2) (d1 @ d2)"
  unfolding appends_def
proof (intro allI impI, elim conjE)
  fix c fs assume r: "represents c fs" and l: "length fs = Suc h" and m: "length (flat fs @ d1 @ d2) \<le> m"
  have ne: "fs \<noteq> []" using l by auto
  note 1 = assms(1) [unfolded appends_def, rule_format, of c fs]
  show "case cbb_then f k c of
        (True, c') \<Rightarrow> represents c' (app (d1 @ d2) fs) \<and> (g1 \<and> g2) \<and> (roomy env m (base c) \<longrightarrow> roomy env m (base c'))
      | (False, c') \<Rightarrow> error (base c') \<and> \<not> (roomy env m (base c) \<and> g1 \<and> g2)"
  proof (cases "f c")
    case (Pair ok c1)
    show ?thesis
    proof (cases ok)
      case True
      then have "represents c1 (app d1 fs)" "g1" "roomy env m (base c) \<longrightarrow> roomy env m (base c1)"
        using 1 r l m Pair by auto
      with assms(2) [unfolded appends_def, rule_format, of c1 "app d1 fs"] l m ne
      show ?thesis using True Pair by (auto simp: cbb_then_def split: prod.splits bool.splits)
    qed (use 1 r l m Pair in \<open>auto simp: cbb_then_def\<close>)
  qed
qed

lemma appends_element:
  assumes o: "opens env m h f d n a" and k: "appends env m (Suc h) k g c" and "child_ok (n, a, [])"
  shows "adds env m h (cbb_then f (cbb_then k (CBB_flush env h))) (g \<and> fits n a (length c)) (d @ hdr n a (length c) @ c)"
proof -
  have "adds env m (Suc h) (cbb_then (CBB_flush env (Suc h)) k) g c"
    unfolding adds_def
  proof (rule refines_flush_then)
    fix b fs assume "represents b fs" "length fs = Suc (Suc h)" "length (flat (app c fs)) \<le> m"
    moreover from this have "fs \<noteq> []" by auto
    ultimately show "case k b of
        (True, c') \<Rightarrow> represents c' (app c fs) \<and> g \<and> (roomy env m (base b) \<longrightarrow> roomy env m (base c'))
      | (False, c') \<Rightarrow> error (base c') \<and> \<not> (roomy env m (base b) \<and> g)"
      using k unfolding appends_def by simp
  qed (metis flat_app le_add1 length_append list.size(3) nat.distinct(1))
  note whole = adds_element [OF o this assms(3)]
  show ?thesis
    unfolding adds_def refines_def
  proof (intro allI impI, elim conjE)
    fix b fs assume r: "represents b fs" and h: "h < length fs"
      and m: "length (flat (app (d @ hdr n a (length c) @ c) (close_at h fs))) \<le> m"
    have w: "case cbb_then f (cbb_then (cbb_then (CBB_flush env (Suc h)) k) (CBB_flush env h)) b of
        (True, c') \<Rightarrow> represents c' (app (d @ hdr n a (length c) @ c) (close_at h fs)) \<and>
          (closable h fs \<and> g \<and> fits n a (length c)) \<and> (roomy env m (base b) \<longrightarrow> roomy env m (base c'))
      | (False, c') \<Rightarrow> error (base c') \<and> \<not> (roomy env m (base b) \<and> closable h fs \<and> g \<and> fits n a (length c))"
      using whole [unfolded adds_def refines_def, rule_format, of b fs] r h m by simp
    have flush: "CBB_flush env (Suc h) b' = (True, b')" if "f b = (True, b')" for b'
    proof -
      have "length (flat (app d (close_at h fs) @ [(n, a, [])])) \<le> m"
        using m h length_hdr [OF assms(3), of "length c"] close_at_not_Nil [OF h] by simp
      then have "represents b' (app d (close_at h fs) @ [(n, a, [])])"
        using o r h that unfolding opens_def refines_def by fastforce
      then have "length (chain b') = Suc (Suc h)" "\<not> error (base b')"
        using h holds_not_error by (auto simp: represents_def)
      then show ?thesis by (simp add: CBB_flush_def)
    qed
    have "cbb_then f (cbb_then k (CBB_flush env h)) b =
        cbb_then f (cbb_then (cbb_then (CBB_flush env (Suc h)) k) (CBB_flush env h)) b"
      using flush by (auto simp: cbb_then_def split: prod.splits bool.splits)
    then show "case cbb_then f (cbb_then k (CBB_flush env h)) b of
        (True, c') \<Rightarrow> represents c' (app (d @ hdr n a (length c) @ c) (close_at h fs)) \<and>
          (closable h fs \<and> g \<and> fits n a (length c)) \<and> (roomy env m (base b) \<longrightarrow> roomy env m (base c'))
      | (False, c') \<Rightarrow> error (base c') \<and> \<not> (roomy env m (base b) \<and> closable h fs \<and> g \<and> fits n a (length c))"
      using w by simp
  qed
qed

text \<open>Lengths that \<open>CBB_flush\<close> can write.\<close>

definition part_short :: "u32 \<Rightarrow> ber \<Rightarrow> bool" where
  "part_short st v \<longleftrightarrow> st \<noteq> 0 \<or> ber_short (ber_norm v)"

lemma cbb_then_assoc: "cbb_then f (cbb_then g k) = cbb_then (cbb_then f g) k"
  by (rule ext) (simp add: cbb_then_def split: prod.splits bool.splits)

lemma appends_part:
  assumes k: "appends env m (child_at st h) k g body" and rest: "appends env m h tail g' d"
  shows "appends env m h (cbb_then (open_element env h st t) (cbb_then k (cbb_then (CBB_flush env h) tail)))
    ((g \<and> (st = 0 \<longrightarrow> length body \<le> 0xfffffffe)) \<and> g') ((if st = 0 then der_tlv t body else body) @ d)"
proof (cases "st = 0")
  case True
  then have "adds env m h (cbb_then (CBB_add_asn1 env h t) (cbb_then k (CBB_flush env h))) (g \<and> length body \<le> 0xfffffffe) (der_tlv t body)"
    using appends_element [OF opens_asn1, of env m h k g body t] k
    by (simp add: child_at_def child_ok_def fits_def hdr_def der_tlv_def)
  from appends_then [OF adds_appends [OF this] rest] True show ?thesis
    by (simp add: open_element_def cbb_then_assoc)
next
  case False
  have "appends env m h (cbb_then k (cbb_then (CBB_flush env h) tail)) (g \<and> True \<and> g') (body @ [] @ d)"
    using False k by (intro appends_then adds_appends [OF adds_flush] rest) (simp_all add: child_at_def)
  with False show ?thesis by (simp add: open_element_def cbb_then_return)
qed

definition converts :: "heap_env \<Rightarrow> nat \<Rightarrow> u32 \<Rightarrow> bool \<Rightarrow> nat \<Rightarrow> cbs \<Rightarrow> cbs \<Rightarrow> bool \<Rightarrow> bytes \<Rightarrow> bool" where
  "converts env h st l d inp rest g bs \<longleftrightarrow>
    leaves env h st l d inp rest \<and> (\<forall>m. appends env m h (conv_op env h st l d inp) g bs)"

lemma ber_octets_definite: "der_tlv t (concat (map ber_octets vs)) = ber_octets (Constructed t False vs)"
  by simp

lemma ber_body_norm: "part_octets st v = (if st = 0 then ber_octets (ber_norm v) else ber_body v)"
  by (simp add: part_octets_def)

lemma drop_rest:
  "(case (case X of (False, out) \<Rightarrow> (False, r, out) | (True, out) \<Rightarrow>
     (case K out of (False, out) \<Rightarrow> (False, r, out) | (True, out) \<Rightarrow>
       (case F out of (False, out) \<Rightarrow> (False, r, out) | (True, out) \<Rightarrow> T out))) of (ok, _, out) \<Rightarrow> (ok, out)) =
   (case X of (False, out) \<Rightarrow> (False, out) | (True, out) \<Rightarrow>
     (case K out of (False, out) \<Rightarrow> (False, out) | (True, out) \<Rightarrow>
       (case F out of (False, out) \<Rightarrow> (False, out) | (True, out) \<Rightarrow> (case T out of (ok, _, out) \<Rightarrow> (ok, out)))))"
  by (auto split: prod.splits bool.splits)

lemma rest_of_step:
  assumes "(case X of (False, out) \<Rightarrow> (False, r, out) | (True, out) \<Rightarrow>
     (case K out of (False, out) \<Rightarrow> (False, r, out) | (True, out) \<Rightarrow>
       (case F out of (False, out) \<Rightarrow> (False, r, out) | (True, out) \<Rightarrow> T out))) = (True, r', out')"
  shows "\<exists>o3. T o3 = (True, r', out')"
  using assms by (auto split: prod.splits bool.splits)

lemma converts_definite:
  assumes d: "d \<le> kMaxDepth" and c: "length c < 2 ^ 32" "t = 0 \<longrightarrow> c \<noteq> []"
    and st: "st \<noteq> 0 \<longrightarrow> t AND NOT CBS_ASN1_CONSTRUCTED = st"
    and k: "\<And>m. appends env m (child_at st h)
      (if t AND CBS_ASN1_CONSTRUCTED \<noteq> 0 then conv_op env (child_at st h) (child_tag st t) False (d + 1) c
       else CBB_add_bytes env (child_at st h) c) g body"
    and tail: "converts env h st l d inp rest g' bs"
  shows "converts env h st l d (der_tlv t c @ inp) rest ((g \<and> (st = 0 \<longrightarrow> length body \<le> 0xfffffffe)) \<and> g')
    ((if st = 0 then der_tlv (out_tag t) body else body) @ bs)"
proof -
  let ?k = "if t AND CBS_ASN1_CONSTRUCTED \<noteq> 0 then conv_op env (child_at st h) (child_tag st t) False (d + 1) c
       else CBB_add_bytes env (child_at st h) c"
  note eq = convert_definite [OF d c, of env h st l inp]
  have "conv_op env h st l d (der_tlv t c @ inp) =
      cbb_then (open_element env h st (out_tag t)) (cbb_then ?k (cbb_then (CBB_flush env h) (conv_op env h st l d inp)))"
  proof (rule ext)
    fix out
    have "(st \<noteq> 0 \<and> t AND NOT CBS_ASN1_CONSTRUCTED \<noteq> st) = False" using st by blast
    note e = eq [of out, unfolded this if_False]
    have split: "(if b then f x else g x) = (if b then f else g) x" for b x and f g :: cbb_op by simp
    show "conv_op env h st l d (der_tlv t c @ inp) out =
        cbb_then (open_element env h st (out_tag t)) (cbb_then ?k (cbb_then (CBB_flush env h) (conv_op env h st l d inp))) out"
      unfolding conv_op_def [of env h st l d "der_tlv t c @ inp"] e drop_rest cbb_then_def split
        conv_op_def [of env h st l d inp] by (rule refl)
  qed
  moreover have "leaves env h st l d (der_tlv t c @ inp) rest"
    unfolding leaves_def
  proof (intro allI impI)
    fix out r out' assume "cbs_convert_ber env h st l d (der_tlv t c @ inp) out = (True, r, out')"
    then have "\<exists>o3. cbs_convert_ber env h st l d inp o3 = (True, r, out')"
      unfolding eq by (split if_splits) (auto dest: rest_of_step)
    then show "r = rest" using tail by (auto simp: converts_def leaves_def)
  qed
  ultimately show ?thesis
    using appends_part [OF k, where tail = "conv_op env h st l d inp" and g' = g' and d = bs and t = "out_tag t"] tail by (simp add: converts_def)
qed

lemma drop_rest_nested:
  assumes "\<And>o1 r o2. A o1 = (True, r, o2) \<Longrightarrow> r = r'" and "length r' < n"
  shows "(case (case X of (False, out) \<Rightarrow> (False, i, out) | (True, out) \<Rightarrow>
     (case A out of (False, r, out) \<Rightarrow> (False, r, out) | (True, r, out) \<Rightarrow>
       (case F out of (False, out) \<Rightarrow> (False, r, out) | (True, out) \<Rightarrow>
         if length r < n then T r out else (False, r, out)))) of (ok, _, out) \<Rightarrow> (ok, out)) =
   (case X of (False, out) \<Rightarrow> (False, out) | (True, out) \<Rightarrow>
     (case (case A out of (ok, _, out) \<Rightarrow> (ok, out)) of (False, out) \<Rightarrow> (False, out) | (True, out) \<Rightarrow>
       (case F out of (False, out) \<Rightarrow> (False, out) | (True, out) \<Rightarrow> (case T r' out of (ok, _, out) \<Rightarrow> (ok, out)))))"
  using assms by (auto split: prod.splits bool.splits)

lemma rest_of_step_nested:
  assumes "(case X of (False, out) \<Rightarrow> (False, i, out) | (True, out) \<Rightarrow>
     (case A out of (False, r, out) \<Rightarrow> (False, r, out) | (True, r, out) \<Rightarrow>
       (case F out of (False, out) \<Rightarrow> (False, r, out) | (True, out) \<Rightarrow>
         if length r < n then T r out else (False, r, out)))) = (True, r'', out')"
  shows "\<exists>o1 r o2 o3. A o1 = (True, r, o2) \<and> T r o3 = (True, r'', out')"
  using assms by (auto split: prod.splits bool.splits if_splits)

lemma converts_indefinite:
  assumes d: "d \<le> kMaxDepth" and t: "t AND CBS_ASN1_CONSTRUCTED \<noteq> 0"
    and st: "st \<noteq> 0 \<longrightarrow> t AND NOT CBS_ASN1_CONSTRUCTED = st" and len: "length inp' \<le> length inp"
    and k: "converts env (child_at st h) (child_tag st t) True (d + 1) inp inp' g body"
    and tail: "converts env h st l d inp' rest g' bs"
  shows "converts env h st l d (der_tag t @ 0x80 # inp) rest ((g \<and> (st = 0 \<longrightarrow> length body \<le> 0xfffffffe)) \<and> g')
    ((if st = 0 then der_tlv (out_tag t) body else body) @ bs)"
proof -
  let ?k = "conv_op env (child_at st h) (child_tag st t) True (d + 1) inp"
  note eq = convert_indefinite [OF d t, of env h st l inp]
  have leaf: "r = inp'" if "cbs_convert_ber env (child_at st h) (child_tag st t) True (d + 1) inp o1 = (True, r, o2)" for o1 r o2
    using k that by (auto simp: converts_def leaves_def)
  have lt: "length inp' < length (der_tag t @ 0x80 # inp)" using len by simp
  have "conv_op env h st l d (der_tag t @ 0x80 # inp) =
      cbb_then (open_element env h st (out_tag t)) (cbb_then ?k (cbb_then (CBB_flush env h) (conv_op env h st l d inp')))"
  proof (rule ext)
    fix out
    have "(st \<noteq> 0 \<and> t AND NOT CBS_ASN1_CONSTRUCTED \<noteq> st) = False" using st by blast
    note e = eq [of out, unfolded this if_False]
    show "conv_op env h st l d (der_tag t @ 0x80 # inp) out =
        cbb_then (open_element env h st (out_tag t)) (cbb_then ?k (cbb_then (CBB_flush env h) (conv_op env h st l d inp'))) out"
      unfolding conv_op_def [of env h st l d "der_tag t @ 0x80 # inp"] e cbb_then_def
        conv_op_def [of env h st l d inp'] conv_op_def [of env "child_at st h"]
      by (rule drop_rest_nested [OF leaf lt])
  qed
  moreover have "leaves env h st l d (der_tag t @ 0x80 # inp) rest"
    unfolding leaves_def
  proof (intro allI impI)
    fix out r out' assume run: "cbs_convert_ber env h st l d (der_tag t @ 0x80 # inp) out = (True, r, out')"
    have "(st \<noteq> 0 \<and> t AND NOT CBS_ASN1_CONSTRUCTED \<noteq> st) = False" using st by blast
    from rest_of_step_nested [OF run [unfolded eq this if_False]]
    obtain o1 r1 o2 o3 where "cbs_convert_ber env (child_at st h) (child_tag st t) True (d + 1) inp o1 = (True, r1, o2)"
        and after: "cbs_convert_ber env h st l d r1 o3 = (True, r, out')" by blast
    then have "r1 = inp'" by (intro leaf)
    then show "r = rest" using tail after unfolding converts_def leaves_def by blast
  qed
  ultimately show ?thesis
    using appends_part [where k = ?k and tail = "conv_op env h st l d inp'" and g' = g' and d = bs and t = "out_tag t"] k tail
    by (simp add: converts_def)
qed

lemma converts_end: "d \<le> kMaxDepth \<Longrightarrow> converts env h st False d [] [] True []"
  using appends_id by (simp add: converts_def leaves_def convert_end conv_op_def [abs_def])

lemma converts_eoc: "d \<le> kMaxDepth \<Longrightarrow> converts env h st True d (0 # 0 # r) r True []"
  using appends_id by (simp add: converts_def leaves_def convert_eoc conv_op_def [abs_def])

lemma part_octets_0: "part_octets 0 v = ber_octets (ber_norm v)"
  by (simp add: part_octets_def)

lemma part_octets_string: "s \<noteq> 0 \<Longrightarrow> part_octets s = ber_body"
  by (rule ext) (simp add: part_octets_def)

lemma part_octets_Prim: "part_octets st (Primitive t c) = (if st = 0 then der_tlv t c else c)"
  by (simp add: part_octets_def)

lemma part_octets_Cons:
  assumes "t AND CBS_ASN1_CONSTRUCTED \<noteq> 0"
  shows "part_octets st (Constructed t indef ws) =
   (if st = 0 then der_tlv (out_tag t) (concat (map (part_octets (child_tag st t)) ws))
    else concat (map (part_octets (child_tag st t)) ws))"
proof (cases "st = 0 \<and> \<not> is_string_type t")
  case True
  have "map (part_octets 0) ws = map ber_octets (map ber_norm ws)" by (simp add: part_octets_0)
  then show ?thesis using True by (simp add: part_octets_0 child_tag_def out_tag_def joins_def del: map_map)
next
  case False
  then show ?thesis using assms string_type_not_0 [of t]
    by (auto simp: part_octets_0 part_octets_string child_tag_def out_tag_def joins_def)
qed

lemma part_short_Cons:
  assumes "t AND CBS_ASN1_CONSTRUCTED \<noteq> 0"
  shows "part_short st (Constructed t indef ws) \<longleftrightarrow>
   (\<forall>v\<in>set ws. part_short (child_tag st t) v) \<and> (st = 0 \<longrightarrow> length (concat (map (part_octets (child_tag st t)) ws)) \<le> 0xfffffffe)"
proof (cases "st = 0 \<and> \<not> is_string_type t")
  case True
  have "map (part_octets 0) ws = map ber_octets (map ber_norm ws)" by (simp add: part_octets_0)
  then show ?thesis using True by (simp add: part_short_def child_tag_def joins_def del: map_map length_concat)
next
  case False
  then show ?thesis using assms string_type_not_0 [of t]
    by (auto simp: part_short_def part_octets_string child_tag_def out_tag_def joins_def simp del: length_concat)
qed

lemma converts_cong:
  "converts env h st l d inp rest g bs \<Longrightarrow> inp' = inp \<Longrightarrow> g' = g \<Longrightarrow> bs' = bs \<Longrightarrow> converts env h st l d inp' rest g' bs'"
  by simp

lemma converts_parts:
  assumes "\<forall>v\<in>set vs. part_ok st v \<and> ber_fits d v" and "d \<le> kMaxDepth"
    and "if l then inp = 0 # 0 # rest else inp = [] \<and> rest = []"
  shows "converts env h st l d (concat (map ber_octets vs) @ inp) rest (\<forall>v\<in>set vs. part_short st v)
    (concat (map (part_octets st) vs))"
  using assms
proof (induction vs arbitrary: h st l d inp rest rule: measure_induct_rule [of "size_list size"])
  case (less vs)
  show ?case
  proof (cases vs)
    case Nil
    then show ?thesis using less.prems converts_end converts_eoc by (cases l) auto
  next
    case (Cons v vs')
    have "size_list size vs' < size_list size vs" using Cons by simp
    from less.IH [OF this, of st d l inp rest h] less.prems Cons
    have tail: "converts env h st l d (concat (map ber_octets vs') @ inp) rest (\<forall>v\<in>set vs'. part_short st v)
        (concat (map (part_octets st) vs'))" by simp
    have v: "part_ok st v" "ber_fits d v" using less.prems(1) Cons by auto
    show ?thesis
    proof (cases v)
      case (Primitive t c)
      then have t: "t AND CBS_ASN1_CONSTRUCTED = 0" "length c < 2 ^ 32" "t = 0 \<longrightarrow> c \<noteq> []"
        using v by (auto simp: part_ok_def)
      have st: "st \<noteq> 0 \<longrightarrow> t AND NOT CBS_ASN1_CONSTRUCTED = st" using v Primitive by (auto simp: part_ok_def)
      have "length c < SIZE_LIMIT" using t(2) by (simp add: SIZE_LIMIT_def)
      then have k: "appends env m (child_at st h) (CBB_add_bytes env (child_at st h) c) True c" for m
        by (intro adds_appends adds_bytes)
      show ?thesis
      proof (rule converts_cong [OF converts_definite [OF less.prems(2) t(2,3) st _ tail]])
        show "appends env m (child_at st h) (if t AND CBS_ASN1_CONSTRUCTED \<noteq> 0
            then conv_op env (child_at st h) (child_tag st t) False (d + 1) c else CBB_add_bytes env (child_at st h) c) True c" for m
          using k t(1) by simp
      qed (use Primitive Cons t(1) in \<open>auto simp: part_short_def part_octets_Prim out_tag_def joins_def\<close>)
    next
      case (Constructed t indef ws)
      then have t: "t AND CBS_ASN1_CONSTRUCTED \<noteq> 0" and st: "st \<noteq> 0 \<longrightarrow> t AND NOT CBS_ASN1_CONSTRUCTED = st"
        and short: "\<not> indef \<longrightarrow> length (concat (map ber_octets ws)) < 2 ^ 32"
        using v by (auto simp: part_ok_def split: if_splits)
      have ws: "\<forall>w\<in>set ws. part_ok (child_tag st t) w \<and> ber_fits (d + 1) w" and d: "d + 1 \<le> kMaxDepth"
        using v part_ok_Cons [OF t st short] Constructed by auto
      have size: "size_list size ws < size_list size vs" using \<open>vs = v # vs'\<close> Constructed by simp
      let ?body = "concat (map (part_octets (child_tag st t)) ws)" and ?g = "\<forall>w\<in>set ws. part_short (child_tag st t) w"
      let ?after = "concat (map ber_octets vs') @ inp"
      have eqs: "concat (map ber_octets vs) @ inp = ber_octets (Constructed t indef ws) @ ?after"
        "(\<forall>v\<in>set vs. part_short st v) \<longleftrightarrow> (?g \<and> (st = 0 \<longrightarrow> length ?body \<le> 0xfffffffe)) \<and> (\<forall>v\<in>set vs'. part_short st v)"
        "concat (map (part_octets st) vs) =
          (if st = 0 then der_tlv (out_tag t) ?body else ?body) @ concat (map (part_octets st) vs')"
        using \<open>vs = v # vs'\<close> Constructed part_octets_Cons [OF t, of st indef ws] part_short_Cons [OF t, of st indef ws]
        by (auto simp del: length_concat)
      show ?thesis
      proof (cases indef)
        case True
        have len: "length ?after \<le> length (concat (map ber_octets ws) @ 0 # 0 # ?after)" by simp
        have "converts env (child_at st h) (child_tag st t) True (d + 1) (concat (map ber_octets ws) @ 0 # 0 # ?after) ?after ?g ?body"
          using less.IH [OF size, of "child_tag st t" "d + 1" True "0 # 0 # ?after" ?after] ws d by simp
        from converts_indefinite [OF less.prems(2) t st len this tail]
        show ?thesis unfolding eqs(2,3) by (rule converts_cong) (use eqs(1) True in \<open>simp_all\<close>)
      next
        case False
        have "converts env (child_at st h) (child_tag st t) False (d + 1) (concat (map ber_octets ws)) [] ?g ?body"
          using less.IH [OF size, of "child_tag st t" "d + 1" False "[]" "[]"] ws d by simp
        then have k: "appends env m (child_at st h) (if t AND CBS_ASN1_CONSTRUCTED \<noteq> 0
            then conv_op env (child_at st h) (child_tag st t) False (d + 1) (concat (map ber_octets ws))
            else CBB_add_bytes env (child_at st h) (concat (map ber_octets ws))) ?g ?body" for m
          using t by (simp add: converts_def)
        have nz: "t = 0 \<longrightarrow> concat (map ber_octets ws) \<noteq> []" using t by auto
        from converts_definite [OF less.prems(2) short [rule_format, OF False] nz st k tail]
        show ?thesis unfolding eqs(2,3) by (rule converts_cong) (use eqs(1) False in \<open>simp_all\<close>)
      qed
    qed
  qed
qed

section \<open>The whole conversion\<close>

lemma appends_adds_flush:
  assumes "appends env m h op g d"
  shows "adds env m h (cbb_then (CBB_flush env h) op) g d"
  unfolding adds_def
proof (rule refines_flush_then)
  fix b fs assume "represents b fs" "length fs = Suc h" "length (flat (app d fs)) \<le> m"
  moreover from this have "fs \<noteq> []" by auto
  ultimately show "case op b of
      (True, c') \<Rightarrow> represents c' (app d fs) \<and> g \<and> (roomy env m (base b) \<longrightarrow> roomy env m (base c'))
    | (False, c') \<Rightarrow> error (base c') \<and> \<not> (roomy env m (base b) \<and> g)"
    using assms unfolding appends_def by simp
next
  fix fs :: "frame list" assume "length fs = Suc h"
  then have "fs \<noteq> []" by auto
  then show "length (flat fs) \<le> length (flat (app d fs))" by simp
qed

lemma CBB_flush_init: "CBB_init env n = Some c \<Longrightarrow> CBB_flush env 0 c = (True, c)"
  by (auto simp: CBB_init_def cbb_init_def CBB_flush_def root_node_def split: option.splits if_splits)

lemma run_writer_flush: "run_writer env n (cbb_then (CBB_flush env 0) op) = run_writer env n op"
  by (auto simp: run_writer_def cbb_then_def CBB_flush_init split: option.splits)

lemma run_writer_appends:
  assumes "\<And>m. appends env m 0 op g d" and "n \<le> 2 ^ 62"
  shows "run_writer env n op = Some out \<Longrightarrow> g \<and> out = d"
    and "g \<Longrightarrow> \<forall>n. heap_ok env n \<Longrightarrow> length d \<le> 2 ^ 62 \<Longrightarrow> run_writer env n op = Some d"
proof -
  have a: "adds env m 0 (cbb_then (CBB_flush env 0) op) g d" for m by (rule appends_adds_flush [OF assms(1)])
  show "run_writer env n op = Some out \<Longrightarrow> g \<and> out = d"
    using run_writer_adds(1) [OF a assms(2)] unfolding run_writer_flush by blast
  show "g \<Longrightarrow> \<forall>n. heap_ok env n \<Longrightarrow> length d \<le> 2 ^ 62 \<Longrightarrow> run_writer env n op = Some d"
    using run_writer_adds(2) [OF a assms(2)] unfolding run_writer_flush by blast
qed

definition ber_valid :: "ber \<Rightarrow> bool" where
  "ber_valid v \<longleftrightarrow> ber_ok v \<and> ber_strings v \<and> ber_fits 0 v"

lemma part_ok_0: "part_ok 0 v \<and> ber_fits 0 v \<longleftrightarrow> ber_valid v"
  by (auto simp: part_ok_def ber_valid_def)

lemma ber_to_der_converting:
  assumes "cbs_find_ber inp 0 = Some True" and "length inp \<le> 2 ^ 62"
  shows "CBS_asn1_ber_to_der env inp = (Some (der, alloc), rest) \<Longrightarrow>
      alloc \<and> rest = [] \<and> (\<exists>vs. (\<forall>v\<in>set vs. ber_valid v \<and> ber_short (ber_norm v)) \<and> inp = concat (map ber_octets vs) \<and>
        der = concat (map (\<lambda>v. ber_octets (ber_norm v)) vs))"
    and "\<forall>v\<in>set vs. ber_valid v \<and> ber_short (ber_norm v) \<Longrightarrow> inp = concat (map ber_octets vs) \<Longrightarrow>
      \<forall>n. heap_ok env n \<Longrightarrow> length (concat (map (\<lambda>v. ber_octets (ber_norm v)) vs)) \<le> 2 ^ 62 \<Longrightarrow>
      CBS_asn1_ber_to_der env inp = (Some (concat (map (\<lambda>v. ber_octets (ber_norm v)) vs), True), [])"
proof -
  have parts: "converts env 0 0 False 0 (concat (map ber_octets vs)) [] (\<forall>v\<in>set vs. part_short 0 v) (concat (map (part_octets 0) vs))"
    if "\<forall>v\<in>set vs. ber_valid v" for vs
    using converts_parts [of vs 0 0 False "[]" "[]" env 0] that part_ok_0 by (simp add: kMaxDepth_def)
  have norm: "concat (map (part_octets 0) vs) = concat (map (\<lambda>v. ber_octets (ber_norm v)) vs)" for vs
    by (simp add: part_octets_0 [abs_def])
  have short: "part_short 0 v \<longleftrightarrow> ber_short (ber_norm v)" for v by (simp add: part_short_def)
  let ?op = "conv_op env 0 0 False 0 inp"
  show "alloc \<and> rest = [] \<and> (\<exists>vs. (\<forall>v\<in>set vs. ber_valid v \<and> ber_short (ber_norm v)) \<and> inp = concat (map ber_octets vs) \<and>
        der = concat (map (\<lambda>v. ber_octets (ber_norm v)) vs))"
    if run: "CBS_asn1_ber_to_der env inp = (Some (der, alloc), rest)"
  proof -
    obtain cbb cbb' cbb'' where c: "CBB_init env (length inp) = Some cbb" "cbs_convert_ber env 0 0 False 0 inp cbb = (True, rest, cbb')"
        "CBB_finish env 0 cbb' = (Some der, cbb'')" and alloc
      using run assms(1) by (auto simp: CBS_asn1_ber_to_der_def split: option.splits prod.splits bool.splits)
    obtain vs where vs: "inp = concat (map ber_octets vs)" "rest = []" "\<forall>v\<in>set vs. ber_valid v"
      using convert_reads [OF c(2)] part_ok_0 by auto
    have "run_writer env (length inp) ?op = Some der"
      using c by (simp add: run_writer_def conv_op_def)
    then have "(\<forall>v\<in>set vs. part_short 0 v) \<and> der = concat (map (part_octets 0) vs)"
      using run_writer_appends(1) [OF _ assms(2)] parts [OF vs(3)] vs(1) unfolding converts_def by blast
    then show ?thesis using vs \<open>alloc\<close> norm short by blast
  qed
  show "CBS_asn1_ber_to_der env inp = (Some (concat (map (\<lambda>v. ber_octets (ber_norm v)) vs), True), [])"
    if vs: "\<forall>v\<in>set vs. ber_valid v \<and> ber_short (ber_norm v)" "inp = concat (map ber_octets vs)"
      and ok: "\<forall>n. heap_ok env n" "length (concat (map (\<lambda>v. ber_octets (ber_norm v)) vs)) \<le> 2 ^ 62"
  proof -
    have p: "leaves env 0 0 False 0 inp []" "\<And>m. appends env m 0 ?op (\<forall>v\<in>set vs. part_short 0 v) (concat (map (part_octets 0) vs))"
      using parts [of vs] vs by (auto simp: converts_def)
    have "run_writer env (length inp) ?op = Some (concat (map (part_octets 0) vs))"
      using run_writer_appends(2) [OF p(2) assms(2)] ok vs short unfolding norm by blast
    then obtain cbb rest cbb' where c: "CBB_init env (length inp) = Some cbb" "cbs_convert_ber env 0 0 False 0 inp cbb = (True, rest, cbb')"
        "fst (CBB_finish env 0 cbb') = Some (concat (map (part_octets 0) vs))"
      by (auto simp: run_writer_def conv_op_def split: option.splits prod.splits bool.splits)
    have "rest = []" using p(1) c(2) unfolding leaves_def by blast
    then show ?thesis using assms(1) c norm
      by (cases "CBB_finish env 0 cbb'") (auto simp: CBS_asn1_ber_to_der_def)
  qed
qed

text \<open>DER values: definite lengths and no constructed strings.\<close>

fun is_der :: "ber \<Rightarrow> bool" where
  "is_der (Primitive t c) \<longleftrightarrow> t AND CBS_ASN1_CONSTRUCTED = 0 \<and> length c < 2 ^ 32"
| "is_der (Constructed t indef vs) \<longleftrightarrow> \<not> indef \<and> t AND CBS_ASN1_CONSTRUCTED \<noteq> 0 \<and> \<not> is_string_type t \<and>
     length (concat (map ber_octets vs)) < 2 ^ 32 \<and> (\<forall>v\<in>set vs. is_der v)"

lemma and_not_and: "(t AND NOT y) AND y = (0 :: u32)"
  by (metis and.assoc and.commute and_zero_eq bit.conj_cancel_right)

lemma ber_norm_der: "ber_ok v \<Longrightarrow> ber_short (ber_norm v) \<Longrightarrow> is_der (ber_norm v)"
proof (induction v)
  case (Primitive t c)
  then show ?case by simp
next
  case (Constructed t indef vs)
  then show ?case
  proof (cases "is_string_type t")
    case True
    then show ?thesis using Constructed by (simp add: and_not_and)
  next
    case False
    then have "\<forall>v\<in>set vs. is_der (ber_norm v)" using Constructed by simp
    moreover have "length (concat (map ber_octets (map ber_norm vs))) < 2 ^ 32"
      using Constructed.prems(2) False by (simp del: map_map length_concat)
    ultimately show ?thesis using Constructed.prems(1) False by (simp del: map_map length_concat)
  qed
qed

lemma ber_fits_norm: "ber_fits d v \<Longrightarrow> ber_fits d (ber_norm v)"
  by (induction v arbitrary: d) auto

lemma find_ber_definite:
  assumes "length c < 2 ^ 32"
  shows "find_ber_loop d found (der_tlv t c @ r) =
    (if t AND CBS_ASN1_CONSTRUCTED = 0 then find_ber_loop d found r
     else if is_string_type t then Some True
     else if kMaxDepth < d + 1 then None
     else case find_ber_loop (d + 1) False c of None \<Rightarrow> None | Some found \<Rightarrow> find_ber_loop d found r)"
proof -
  have "der_tlv t c \<noteq> []" by (simp add: der_tlv_def)
  then show ?thesis
    by (subst find_ber_loop.simps) (simp add: read_definite [OF assms] is_indefinite_el skip_header)
qed

lemma find_ber_der:
  "\<forall>v\<in>set vs. is_der v \<and> ber_fits d v \<Longrightarrow> find_ber_loop d False (concat (map ber_octets vs)) = Some False"
proof (induction vs arbitrary: d rule: measure_induct_rule [of "size_list size"])
  case (less vs)
  show ?case
  proof (cases vs)
    case Nil
    then show ?thesis by (simp add: find_ber_loop.simps)
  next
    case (Cons v vs')
    have tail: "find_ber_loop d False (concat (map ber_octets vs')) = Some False"
      using less.IH [of vs' d] less.prems Cons by simp
    show ?thesis
    proof (cases v)
      case (Primitive t c)
      then show ?thesis using Cons less.prems tail by (simp add: find_ber_definite)
    next
      case (Constructed t indef ws)
      then have ws: "\<forall>w\<in>set ws. is_der w \<and> ber_fits (d + 1) w" "d + 1 \<le> kMaxDepth"
        using less.prems \<open>vs = v # vs'\<close> by auto
      then have "find_ber_loop (d + 1) False (concat (map ber_octets ws)) = Some False"
        using less.IH [of ws "d + 1"] \<open>vs = v # vs'\<close> Constructed by simp
      then show ?thesis using Constructed \<open>vs = v # vs'\<close> less.prems tail ws(2)
        by (simp add: find_ber_definite del: length_concat)
    qed
  qed
qed

text \<open>What the walk reports on a sequence of values: an indefinite length or a constructed string on its own level stops
  it; otherwise the parts of the last constructed value decide, whatever was found before.\<close>

function ber_walk :: "bool \<Rightarrow> ber list \<Rightarrow> bool" where
  "ber_walk found [] = found"
| "ber_walk found (Primitive t c # vs) = ber_walk found vs"
| "ber_walk found (Constructed t indef ws # vs) = (indef \<or> is_string_type t \<or> ber_walk (ber_walk False ws) vs)"
  by pat_completeness auto
termination by (relation "measure (\<lambda>(found, vs). size_list size vs)") auto

fun needs_conversion :: "ber \<Rightarrow> bool" where
  "needs_conversion (Primitive t c) \<longleftrightarrow> False"
| "needs_conversion (Constructed t indef vs) \<longleftrightarrow> indef \<or> is_string_type t"

lemma find_ber_walk:
  "\<forall>v\<in>set vs. ber_ok v \<and> ber_fits d v \<Longrightarrow> find_ber_loop d found (concat (map ber_octets vs)) = Some (ber_walk found vs)"
proof (induction found vs arbitrary: d rule: ber_walk.induct)
  case (1 found)
  then show ?case by (simp add: find_ber_loop.simps)
next
  case (2 found t c vs)
  then show ?case by (simp add: find_ber_definite)
next
  case (3 found t indef ws vs)
  show ?case
  proof (cases indef)
    case True
    let ?r = "concat (map ber_octets ws) @ [0, 0] @ concat (map ber_octets vs)"
    let ?e = "\<lparr>el_bytes = der_tag t @ [0x80], el_tag = t, el_header_len = length (der_tag t) + 1\<rparr>"
    have "CBS_get_any_ber_asn1_element (der_tag t @ 0x80 # ?r) = (Some ?e, ?r)"
      unfolding CBS_get_any_ber_asn1_element_def by (rule any_element_indefinite) (use 3(3) in simp)
    moreover have "is_indefinite ?e" by (simp add: is_indefinite_def)
    ultimately show ?thesis using True by (subst find_ber_loop.simps) simp
  next
    case False
    have ws: "\<forall>v\<in>set ws. ber_ok v \<and> ber_fits (d + 1) v" "d + 1 \<le> kMaxDepth" "length (concat (map ber_octets ws)) < 2 ^ 32"
        "t AND CBS_ASN1_CONSTRUCTED \<noteq> 0"
      using 3(3) False by simp_all
    have "find_ber_loop (d + 1) False (concat (map ber_octets ws)) = Some (ber_walk False ws)" by (rule 3(1) [OF ws(1)])
    moreover have "find_ber_loop d f (concat (map ber_octets vs)) = Some (ber_walk f vs)" if "f = ber_walk False ws" for f
      using 3(2) [of d] 3(3) that by simp
    ultimately show ?thesis using False ws by (simp add: find_ber_definite del: length_concat)
  qed
qed

lemma ber_walk_append: "\<forall>v\<in>set vs. \<not> needs_conversion v \<Longrightarrow> ber_walk found (vs @ us) = ber_walk (ber_walk found vs) us"
  by (induction found vs rule: ber_walk.induct) auto

lemma ber_walk_der: "\<forall>v\<in>set vs. is_der v \<Longrightarrow> \<not> ber_walk False vs"
proof -
  have "\<forall>v\<in>set vs. is_der v \<Longrightarrow> \<not> found \<Longrightarrow> \<not> ber_walk found vs" for found
    by (induction found vs rule: ber_walk.induct) auto
  then show "\<forall>v\<in>set vs. is_der v \<Longrightarrow> \<not> ber_walk False vs" by blast
qed

section \<open>Implicitly tagged strings\<close>

lemma chunks_read:
  "implicit_chunks env t child c = (True, c') \<Longrightarrow>
   \<exists>cs. child = concat (map (der_tlv t) cs) \<and> (\<forall>x\<in>set cs. length x < 2 ^ 32)"
proof (induction env t child c rule: implicit_chunks.induct)
  case (1 env t child c)
  show ?case
  proof (cases "child = []")
    case True
    then show ?thesis by (intro exI [of _ "[]"]) simp
  next
    case False
    then obtain x r c1 where x: "CBS_get_asn1 t child = (Some x, r)" "CBB_add_bytes env 0 x c = (True, c1)"
        "implicit_chunks env t r c1 = (True, c')"
      using 1(2) by (subst (asm) implicit_chunks.simps) (auto split: option.splits prod.splits bool.splits)
    obtain cs where cs: "r = concat (map (der_tlv t) cs)" "\<forall>y\<in>set cs. length y < 2 ^ 32"
      using 1(1) [OF False x(1) [symmetric] refl x(2) [symmetric] _ x(3)] by blast
    have "length x < 2 ^ 32 \<and> child = der_tlv t x @ r" using x(1) by (simp only: CBS_get_asn1_iff)
    then show ?thesis using cs by (intro exI [of _ "x # cs"]) simp
  qed
qed

lemma chunks_appends:
  "\<forall>x\<in>set cs. length x < 2 ^ 32 \<Longrightarrow> appends env m 0 (implicit_chunks env t (concat (map (der_tlv t) cs))) True (concat cs)"
proof (induction cs)
  case Nil
  have "implicit_chunks env t [] = (\<lambda>c. (True, c))" by (rule ext) (simp add: implicit_chunks.simps)
  then show ?case using appends_id by simp
next
  case (Cons x cs)
  let ?r = "concat (map (der_tlv t) cs)"
  have x: "length x < SIZE_LIMIT" "length x < 2 ^ 32" using Cons.prems by (simp_all add: SIZE_LIMIT_def)
  have "der_tlv t x \<noteq> []" by (simp add: der_tlv_def)
  then have "implicit_chunks env t (der_tlv t x @ ?r) = cbb_then (CBB_add_bytes env 0 x) (implicit_chunks env t ?r)"
    using x by (intro ext) (simp add: implicit_chunks.simps [of env t "der_tlv t x @ ?r"] cbb_then_def)
  then show ?case using appends_then [OF adds_appends [OF adds_bytes [OF x(1)]] Cons.IH] Cons.prems by simp
qed

section \<open>Properties\<close>

text \<open>C6. When the walk finds something to convert (\<open>cbs_find_ber\<close> reports it), \<open>CBS_asn1_ber_to_der\<close> succeeds only on a sequence
  of BER values, in which the fragments of every constructed string have the string's tag; it
  consumes all of them and yields the DER form of each, in which all lengths are definite and all
  strings are primitive; and with memory available it does so on every such sequence.  On which sequences the
  walk reports something is \<open>ber_walk\<close>.\<close>

theorem ber_to_der_normalises:
  assumes "cbs_find_ber inp 0 = Some True" and "length inp \<le> 2 ^ 62"
  shows "(\<forall>der alloc rest. CBS_asn1_ber_to_der env inp = (Some (der, alloc), rest) \<longrightarrow>
      alloc \<and> rest = [] \<and> cbs_find_ber der 0 = Some False \<and>
      (\<exists>vs. (\<forall>v\<in>set vs. ber_valid v \<and> ber_short (ber_norm v)) \<and> inp = concat (map ber_octets vs) \<and>
        der = concat (map (\<lambda>v. ber_octets (ber_norm v)) vs))) \<and>
    (\<forall>vs. (\<forall>v\<in>set vs. ber_valid v \<and> ber_short (ber_norm v)) \<and> inp = concat (map ber_octets vs) \<and>
      (\<forall>n. heap_ok env n) \<and> length (concat (map (\<lambda>v. ber_octets (ber_norm v)) vs)) \<le> 2 ^ 62 \<longrightarrow>
      CBS_asn1_ber_to_der env inp = (Some (concat (map (\<lambda>v. ber_octets (ber_norm v)) vs), True), [])) \<and>
    (\<forall>vs. (\<forall>v\<in>set vs. ber_valid v) \<longrightarrow> cbs_find_ber (concat (map ber_octets vs)) 0 = Some (ber_walk False vs))"
proof -
  have walk: "cbs_find_ber (concat (map ber_octets vs)) 0 = Some (ber_walk False vs)" if "\<forall>v\<in>set vs. ber_valid v" for vs
    using find_ber_walk [of vs 0 False] that by (simp add: cbs_find_ber_def ber_valid_def)
  have stays: "cbs_find_ber (concat (map (\<lambda>v. ber_octets (ber_norm v)) vs)) 0 = Some False"
    if "\<forall>v\<in>set vs. ber_valid v \<and> ber_short (ber_norm v)" for vs
  proof -
    have "\<forall>w\<in>set (map ber_norm vs). is_der w \<and> ber_fits 0 w"
      using that ber_norm_der ber_fits_norm by (auto simp: ber_valid_def)
    from find_ber_der [OF this] show ?thesis by (simp add: cbs_find_ber_def comp_def)
  qed
  show ?thesis
    using ber_to_der_converting(1) [OF assms] ber_to_der_converting(2) [OF assms] stays walk by blast
qed

lemma ber_to_der_normalises_witness:
  "CBS_asn1_ber_to_der generous_env [0x30, 0x80, 0x24, 4, 4, 2, 7, 9, 0, 0] = (Some ([0x30, 4, 4, 2, 7, 9], True), [])"
proof -
  let ?v = "Constructed 0x20000010 True [Constructed 0x20000004 False [Primitive 4 [7, 9]]]"
  have f: "cbs_find_ber [0x30, 0x80, 0x24, 4, 4, 2, 7, 9, 0, 0] 0 = Some True" by code_simp
  have tags: "is_string_type 0x20000004" "\<not> is_string_type 0x20000010" "0x20000004 AND NOT CBS_ASN1_CONSTRUCTED = (4 :: u32)"
      "0x20000010 AND CBS_ASN1_CONSTRUCTED \<noteq> (0 :: u32)" "0x20000004 AND CBS_ASN1_CONSTRUCTED \<noteq> (0 :: u32)" "4 AND CBS_ASN1_CONSTRUCTED = (0 :: u32)"
      "4 AND NOT CBS_ASN1_CONSTRUCTED = (4 :: u32)"
    by code_simp+
  have "ber_octets ?v = [0x30, 0x80, 0x24, 4, 4, 2, 7, 9, 0, 0]" by (simp add: der_tlv_def der_tag_def der_len_def)
  moreover have "ber_octets (ber_norm ?v) = [0x30, 4, 4, 2, 7, 9]" 
    using tags by (simp add: der_tlv_def der_tag_def der_len_def)
  moreover have "ber_valid ?v" using tags by (simp add: ber_valid_def kMaxDepth_def der_tlv_def der_tag_def der_len_def)
  moreover have "ber_short (ber_norm ?v)" using tags by (simp add: der_tlv_def der_tag_def der_len_def)
  ultimately show ?thesis
    using ber_to_der_normalises [OF f, of generous_env, THEN conjunct2, THEN conjunct1, THEN spec, of "[?v]"] by (simp add: generous_env_def)
qed

text \<open>C39. \<open>*ber_found\<close> is reset by every recursive call: when the last constructed part \<open>w\<close> of an element is plain
  DER, anything found inside the parts \<open>vs\<close> before it is forgotten.  \<open>CBS_asn1_ber_to_der\<close> then hands out the whole element as it is,
  although it is DER only if these parts are; it looks no deeper than whether one of them is itself a
  constructed string or of indefinite length.\<close>

theorem find_ber_forgets:
  assumes v: "v = Constructed t False (vs @ Constructed u False ws # ps)" "ber_ok v" "ber_fits 0 v"
    and tags: "\<not> is_string_type t" "\<not> is_string_type u"
    and parts: "\<forall>x\<in>set vs. \<not> needs_conversion x" "\<forall>w\<in>set ws. is_der w" "\<forall>p\<in>set ps. \<exists>k c. p = Primitive k c"
  shows "CBS_asn1_ber_to_der env (ber_octets v) = (Some (ber_octets v, False), []) \<and> (is_der v \<longleftrightarrow> (\<forall>x\<in>set vs. is_der x))"
proof -
  have prims: "ber_walk f ps = f" for f using parts(3) by (induction ps) auto
  have "ber_walk False [v] = False" using ber_walk_der [OF parts(2)] tags prims by (simp add: v(1) ber_walk_append [OF parts(1)])
  then have find: "cbs_find_ber (ber_octets v) 0 = Some False"
    using find_ber_walk [of "[v]" 0 False] v(2,3) by (simp add: cbs_find_ber_def)
  let ?c = "concat (map ber_octets (vs @ Constructed u False ws # ps))"
  have o: "ber_octets v = der_tlv t ?c" and len: "length ?c < 2 ^ 32" using v(2) unfolding v(1) by (simp_all del: length_concat)
  have "CBS_get_any_asn1_element (der_tlv t ?c @ []) = (Some (el_of t ?c), [])"
    using len unfolding CBS_get_any_asn1_element_def by (simp only: any_element_der)
  then have "CBS_asn1_ber_to_der env (ber_octets v) = (Some (ber_octets v, False), [])"
    using find unfolding o by (simp add: CBS_asn1_ber_to_der_def el_of_def del: map_append concat_append)
  moreover have "is_der p" if mem: "p \<in> set ps" for p
  proof -
    obtain k c where p: "p = Primitive k c" using mem parts(3) by blast
    have "ber_ok p" using mem v(2) unfolding v(1) by simp
    then show ?thesis by (simp add: p)
  qed
  then have "is_der v \<longleftrightarrow> (\<forall>x\<in>set vs. is_der x)"
    using v(2) tags parts(2) len unfolding v(1) by (auto simp del: length_concat)
  ultimately show ?thesis ..
qed

lemma find_ber_forgets_witness:
  "CBS_asn1_ber_to_der generous_env [0x30, 8, 0x30, 4, 0x24, 2, 4, 0, 0x30, 0] =
     (Some ([0x30, 8, 0x30, 4, 0x24, 2, 4, 0, 0x30, 0], False), []) \<and>
   \<not> is_der (Constructed 0x20000010 False [Constructed 0x20000010 False [Constructed 0x20000004 False [Primitive 4 []]], Constructed 0x20000010 False []])"
proof -
  let ?v = "Constructed 0x20000010 False ([Constructed 0x20000010 False [Constructed 0x20000004 False [Primitive 4 []]]] @ Constructed 0x20000010 False [] # [])"
  have tags: "is_string_type 0x20000004" "\<not> is_string_type 0x20000010" "0x20000010 AND CBS_ASN1_CONSTRUCTED \<noteq> (0 :: u32)"
      "0x20000004 AND CBS_ASN1_CONSTRUCTED \<noteq> (0 :: u32)" "4 AND CBS_ASN1_CONSTRUCTED = (0 :: u32)"
    by code_simp+
  have o: "ber_octets ?v = [0x30, 8, 0x30, 4, 0x24, 2, 4, 0, 0x30, 0]" by (simp add: der_tlv_def der_tag_def der_len_def)
  have "ber_ok ?v" using tags by (simp add: der_tlv_def der_tag_def der_len_def)
  moreover have "ber_fits 0 ?v" by (simp add: kMaxDepth_def)
  ultimately have "CBS_asn1_ber_to_der generous_env (ber_octets ?v) = (Some (ber_octets ?v, False), []) \<and>
      (is_der ?v \<longleftrightarrow> (\<forall>x\<in>set [Constructed 0x20000010 False [Constructed 0x20000004 False [Primitive 4 []]]]. is_der x))"
    by (intro find_ber_forgets [OF refl]) (use tags in simp_all)
  then show ?thesis unfolding o using tags by simp
qed

lemma der_tag_append_eq: "der_tag t @ r = der_tag t' @ r' \<longleftrightarrow> t = t' \<and> r = r'"
  by (metis parse_der_tag option.sel prod.inject)

lemma run_writer_chunks:
  assumes "length child \<le> 2 ^ 62" and "n \<le> 2 ^ 62" and "\<forall>n. heap_ok env n"
  shows "run_writer env n (implicit_chunks env t child) = Some out \<longleftrightarrow>
    (\<exists>cs. child = concat (map (der_tlv t) cs) \<and> (\<forall>x\<in>set cs. length x < 2 ^ 32) \<and> out = concat cs)"
proof
  assume run: "run_writer env n (implicit_chunks env t child) = Some out"
  then obtain c c' where "implicit_chunks env t child c = (True, c')"
    by (auto simp: run_writer_def split: option.splits prod.splits bool.splits)
  from chunks_read [OF this] obtain cs where cs: "child = concat (map (der_tlv t) cs)" "\<forall>x\<in>set cs. length x < 2 ^ 32" by blast
  moreover have "out = concat cs"
    using run_writer_appends(1) [OF chunks_appends [OF cs(2)] assms(2)] run unfolding cs(1) by blast
  ultimately show "\<exists>cs. child = concat (map (der_tlv t) cs) \<and> (\<forall>x\<in>set cs. length x < 2 ^ 32) \<and> out = concat cs" by blast
next
  assume "\<exists>cs. child = concat (map (der_tlv t) cs) \<and> (\<forall>x\<in>set cs. length x < 2 ^ 32) \<and> out = concat cs"
  then obtain cs where cs: "child = concat (map (der_tlv t) cs)" "\<forall>x\<in>set cs. length x < 2 ^ 32" "out = concat cs" by blast
  have "length (concat cs) \<le> length (concat (map (der_tlv t) cs))"
    by (induction cs) (simp_all add: der_tlv_def)
  then have "length (concat cs) \<le> 2 ^ 62" using assms(1) cs(1) by simp
  then show "run_writer env n (implicit_chunks env t child) = Some out"
    using run_writer_appends(2) [OF chunks_appends [OF cs(2)] assms(2) _ assms(3)] cs by blast
qed

lemma implicit_string_eq:
  "CBS_get_asn1_implicit_string env inp outer inner = (Some (out, alloc), rest) \<longleftrightarrow>
    (if CBS_peek_asn1_tag inp outer then \<not> alloc \<and> CBS_get_asn1 outer inp = (Some out, rest)
     else \<exists>child. CBS_get_asn1 (outer OR CBS_ASN1_CONSTRUCTED) inp = (Some child, rest) \<and> alloc \<and>
       run_writer env (length inp) (implicit_chunks env inner child) = Some out)"
proof (cases "CBS_peek_asn1_tag inp outer")
  case True
  then show ?thesis by (auto simp: CBS_get_asn1_implicit_string_def split: prod.splits option.splits)
next
  case False
  obtain co r where g: "CBS_get_asn1 (outer OR CBS_ASN1_CONSTRUCTED) inp = (co, r)" by fastforce
  show ?thesis
  proof (cases "CBB_init env (length inp)")
    case (Some c)
    show ?thesis
    proof (cases co)
      case child: (Some child)
      obtain ok c' where i: "implicit_chunks env inner child c = (ok, c')" by fastforce
      obtain d c'' where f: "CBB_finish env 0 c' = (d, c'')" by fastforce
      show ?thesis using False Some g child i f
        by (cases ok; cases d) (auto simp: CBS_get_asn1_implicit_string_def run_writer_def)
    qed (use False Some g in \<open>simp add: CBS_get_asn1_implicit_string_def\<close>)
  qed (use False g in \<open>simp add: CBS_get_asn1_implicit_string_def run_writer_def\<close>)
qed

text \<open>C28. \<open>CBS_get_asn1_implicit_string\<close> accepts exactly a primitive element with the outer tag, whose
  contents it returns in place, and a constructed one that consists of primitive chunks with the
  inner tag, whose contents it puts together in a buffer of its own.\<close>

theorem implicit_string_exact:
  assumes "outer AND CBS_ASN1_CONSTRUCTED = 0" and "length inp \<le> 2 ^ 62" and "\<forall>n. heap_ok env n"
  shows "CBS_get_asn1_implicit_string env inp outer inner = (Some (out, alloc), rest) \<longleftrightarrow>
    (if alloc then \<exists>cs. (\<forall>x\<in>set cs. length x < 2 ^ 32) \<and> out = concat cs \<and> length (concat (map (der_tlv inner) cs)) < 2 ^ 32 \<and>
       inp = der_tlv (outer OR CBS_ASN1_CONSTRUCTED) (concat (map (der_tlv inner) cs)) @ rest
     else length out < 2 ^ 32 \<and> inp = der_tlv outer out @ rest)"
proof (cases "CBS_peek_asn1_tag inp outer")
  case True
  have "outer OR CBS_ASN1_CONSTRUCTED \<noteq> outer"
  proof
    assume "outer OR CBS_ASN1_CONSTRUCTED = outer"
    then have "outer AND CBS_ASN1_CONSTRUCTED = CBS_ASN1_CONSTRUCTED" by (metis and.commute word_ao_absorbs(1))
    then show False using assms(1) by (simp add: CBS_ASN1_CONSTRUCTED_def CBS_ASN1_TAG_SHIFT_def)
  qed
  then have "inp \<noteq> der_tlv (outer OR CBS_ASN1_CONSTRUCTED) c @ r" for c r
    using True by (auto simp: CBS_peek_asn1_tag_iff der_tlv_def der_tag_append_eq)
  then show ?thesis using True by (auto simp: implicit_string_eq CBS_get_asn1_iff)
next
  case False
  then have no: "inp \<noteq> der_tlv outer c @ r" for c r by (auto simp: CBS_peek_asn1_tag_iff der_tlv_def)
  have "length child \<le> 2 ^ 62" if "inp = der_tlv t child @ rest" for t child
    using that assms(2) by (simp add: der_tlv_def)
  then have "inp = der_tlv t child @ rest \<Longrightarrow> run_writer env (length inp) (implicit_chunks env inner child) = Some out \<longleftrightarrow>
      (\<exists>cs. child = concat (map (der_tlv inner) cs) \<and> (\<forall>x\<in>set cs. length x < 2 ^ 32) \<and> out = concat cs)" for t child
    using run_writer_chunks [OF _ assms(2,3)] by blast
  then have "CBS_get_asn1_implicit_string env inp outer inner = (Some (out, alloc), rest) \<longleftrightarrow>
      (\<exists>child. length child < 2 ^ 32 \<and> inp = der_tlv (outer OR CBS_ASN1_CONSTRUCTED) child @ rest \<and> alloc \<and>
        (\<exists>cs. child = concat (map (der_tlv inner) cs) \<and> (\<forall>x\<in>set cs. length x < 2 ^ 32) \<and> out = concat cs))"
    using False by (simp only: implicit_string_eq if_False CBS_get_asn1_iff) blast
  then show ?thesis using no by (cases alloc) (auto simp del: length_concat)
qed

lemma implicit_string_exact_witness:
  "CBS_get_asn1_implicit_string generous_env [0xa1, 5, 4, 1, 7, 4, 0, 9] 0x80000001 4 = (Some ([7], True), [9])"
proof -
  have "0x80000001 OR CBS_ASN1_CONSTRUCTED = (0xa0000001 :: u32)" by code_simp
  then have tlv: "der_tlv (0x80000001 OR CBS_ASN1_CONSTRUCTED) (concat (map (der_tlv 4) [[7], []])) = [0xa1, 5, 4, 1, 7, 4, 0]"
    by (simp add: der_tlv_def der_tag_def der_len_def)
  have "0x80000001 AND CBS_ASN1_CONSTRUCTED = 0" by code_simp
  note exact = implicit_string_exact [OF this, of "[0xa1, 5, 4, 1, 7, 4, 0, 9]" generous_env 4 "[7]" True "[9]"]
  have "\<exists>cs. (\<forall>x\<in>set cs. length x < 2 ^ 32) \<and> [7] = concat cs \<and> length (concat (map (der_tlv 4) cs)) < 2 ^ 32 \<and>
      [0xa1, 5, 4, 1, 7, 4, 0, 9] = der_tlv (0x80000001 OR CBS_ASN1_CONSTRUCTED) (concat (map (der_tlv 4) cs)) @ [9]"
    by (rule exI [of _ "[[7], []]"], unfold tlv) (simp add: der_tlv_def der_tag_def der_len_def)
  with exact show ?thesis by (simp add: generous_env_ok)
qed

end
