(* ===== verification/Chunked.thy ===== *)
theory Chunked
  imports Prelude
begin

text \<open>
  The interface of the streaming operations of the program: an \<open>update\<close> function that is fed
  the input in pieces and keeps unprocessed bytes in its context.  A provider shows that one
  call is a step of a function on an abstract state that splits over append; a client then knows
  that the pieces do not matter.
\<close>

section \<open>Splitting functions\<close>

locale splitting =
  fixes spec :: "'p \<Rightarrow> 'a list \<Rightarrow> 'p \<times> 'b list"
  assumes spec_Nil: "spec p [] = (p, [])"
    and spec_append: "spec p (xs @ ys) =
      (case spec p xs of (q, out) \<Rightarrow> case spec q ys of (r, out') \<Rightarrow> (r, out @ out'))"

fun feed :: "('s \<Rightarrow> 'a list \<Rightarrow> 's \<times> 'b list) \<Rightarrow> 's \<Rightarrow> 'a list list \<Rightarrow> 's \<times> 'b list" where
  "feed update s [] = (s, [])"
| "feed update s (xs # xss) = (case update s xs of (s1, out) \<Rightarrow>
     case feed update s1 xss of (s2, out') \<Rightarrow> (s2, out @ out'))"

context splitting begin

lemma feed_spec: "feed spec p xss = spec p (concat xss)"
  by (induction xss arbitrary: p) (simp_all add: spec_Nil spec_append split: prod.splits)

end

section \<open>Streaming operations\<close>

locale chunked = splitting spec for spec :: "'p \<Rightarrow> 'a list \<Rightarrow> 'p \<times> 'b list" +
  fixes update :: "'s \<Rightarrow> 'a list \<Rightarrow> 's \<times> 'b list" and inv :: "'s \<Rightarrow> bool"
    and view :: "'s \<Rightarrow> 'p" and limit :: nat
  assumes update_step: "inv s \<Longrightarrow> length xs < limit \<Longrightarrow> update s xs = (s', out) \<Longrightarrow>
    inv s' \<and> spec (view s) xs = (view s', out)"

context chunked begin

lemma feed_update:
  assumes "inv s" and "\<forall>xs\<in>set xss. length xs < limit" and "feed update s xss = (s', out)"
  shows "inv s' \<and> spec (view s) (concat xss) = (view s', out)"
  using assms
proof (induction xss arbitrary: s out)
  case Nil
  then show ?case by (simp add: spec_Nil)
next
  case (Cons xs xss)
  obtain s1 o1 where s1: "update s xs = (s1, o1)" by fastforce
  obtain o2 where s2: "feed update s1 xss = (s', o2)" and out: "out = o1 @ o2"
    using Cons.prems(3) s1 by (auto split: prod.splits)
  have one: "inv s1" "spec (view s) xs = (view s1, o1)"
    using update_step [OF Cons.prems(1) _ s1] Cons.prems(2) by auto
  have "inv s' \<and> spec (view s1) (concat xss) = (view s', o2)"
    using Cons.IH [OF one(1) _ s2] Cons.prems(2) by auto
  then show ?case using one out by (simp add: spec_append)
qed

text \<open>Two ways of cutting the same input into pieces leave equivalent contexts and write the
  same output.\<close>

lemma pieces_irrelevant:
  assumes "inv s" and "\<forall>xs\<in>set xss. length xs < limit" and "\<forall>xs\<in>set yss. length xs < limit"
    and "concat xss = concat yss"
    and "feed update s xss = (s1, o1)" and "feed update s yss = (s2, o2)"
  shows "view s1 = view s2 \<and> o1 = o2"
  using feed_update [OF assms(1,2,5)] feed_update [OF assms(1,3,6)] assms(4) by simp

end

end
