(* ===== verification/Base64.thy ===== *)
theory Base64
  imports ConstTime Chunked
begin

text \<open>
  Base64 (\<open>crypto/base64/base64.c\<close>): the one-shot encoder and decoder, and the streaming pair
  on a context that buffers up to a line of 48 bytes (encoding) or a group of four characters
  (decoding).  A call's output buffer is the list of the bytes it writes, the terminating NUL
  included; \<open>*out_len\<close> is returned beside it.
\<close>

section \<open>Encoding\<close>

definition conv_bin2ascii :: "u8 \<Rightarrow> u8" where
  "conv_bin2ascii a = (let
     a = a AND 0x3f;
     ret = constant_time_select_8 (constant_time_eq_8 (ucast a) 62) 43 47;
     ret = constant_time_select_8 (constant_time_lt_args_8 a 62) (a - 52 + 48) ret;
     ret = constant_time_select_8 (constant_time_lt_args_8 a 52) (a - 26 + 97) ret;
     ret = constant_time_select_8 (constant_time_lt_args_8 a 26) (a + 65) ret
   in ret)"

definition EVP_EncodedLength :: "nat \<Rightarrow> nat option" where
  "EVP_EncodedLength len =
    (if szadd len 2 < len then None
     else let len = szadd len 2 div 3 in
       if szmul len 4 div 4 \<noteq> len then None
       else let len = szmul len 4 in
         if szadd len 1 < len then None else Some (szadd len 1))"

text \<open>The loop of \<open>EVP_EncodeBlock\<close>, three bytes at a time.\<close>

fun encode_groups :: "bytes \<Rightarrow> bytes" where
  "encode_groups (a # b # c # src) = (let l = push_bit 16 (ucast a :: u32) OR push_bit 8 (ucast b) OR ucast c in
     [conv_bin2ascii (ucast (drop_bit 18 l)), conv_bin2ascii (ucast (drop_bit 12 l)),
      conv_bin2ascii (ucast (drop_bit 6 l)), conv_bin2ascii (ucast l)] @ encode_groups src)"
| "encode_groups [a, b] = (let l = push_bit 16 (ucast a :: u32) OR push_bit 8 (ucast b) in
     [conv_bin2ascii (ucast (drop_bit 18 l)), conv_bin2ascii (ucast (drop_bit 12 l)),
      conv_bin2ascii (ucast (drop_bit 6 l)), 61])"
| "encode_groups [a] = (let l = push_bit 16 (ucast a :: u32) in
     [conv_bin2ascii (ucast (drop_bit 18 l)), conv_bin2ascii (ucast (drop_bit 12 l)), 61, 61])"
| "encode_groups [] = []"

definition EVP_EncodeBlock :: "bytes \<Rightarrow> bytes \<times> nat" where
  "EVP_EncodeBlock src = (encode_groups src @ [0], length (encode_groups src))"

record evp_encode_ctx =
  data_used :: nat
  ctx_data :: bytes
  eof_seen :: bool
  error_encountered :: bool

definition EVP_EncodeInit :: evp_encode_ctx where
  "EVP_EncodeInit = \<lparr> data_used = 0, ctx_data = replicate 48 0, eof_seen = False, error_encountered = False \<rparr>"

text \<open>The loop over full lines: the bytes written (without the NUL that the next write covers),
  the running total, the input that is left, and whether the total wrapped around.\<close>

function encode_lines :: "nat \<Rightarrow> bytes \<Rightarrow> bytes \<times> nat \<times> bytes \<times> bool" where
  "encode_lines tot inp =
    (if length inp < 48 then ([], tot, inp, False)
     else let (text, encoded) = EVP_EncodeBlock (take 48 inp); line = take encoded text @ [10] in
       if szadd tot (encoded + 1) < tot then (line, tot, drop 48 inp, True)
       else let (out, tot', rest, overflow) = encode_lines (szadd tot (encoded + 1)) (drop 48 inp)
         in (line @ out, tot', rest, overflow))"
  by auto
termination by (relation "measure (length \<circ> snd)") auto

declare encode_lines.simps [simp del]

definition EVP_EncodeUpdate :: "evp_encode_ctx \<Rightarrow> bytes \<Rightarrow> evp_encode_ctx \<times> bytes \<times> nat" where
  "EVP_EncodeUpdate ctx inp =
    (if inp = [] then (ctx, [], 0)
     else if length inp < 48 - data_used ctx then
       (ctx\<lparr> ctx_data := mem_write (ctx_data ctx) (data_used ctx) inp, data_used := data_used ctx + length inp \<rparr>, [], 0)
     else let
       (ctx, written, tot, inp) =
         (if data_used ctx \<noteq> 0 then let
            todo = 48 - data_used ctx;
            ctx = ctx\<lparr> ctx_data := mem_write (ctx_data ctx) (data_used ctx) (take todo inp) \<rparr>;
            (text, encoded) = EVP_EncodeBlock (ctx_data ctx)
          in (ctx\<lparr> data_used := 0 \<rparr>, take encoded text @ [10], encoded + 1, drop todo inp)
          else (ctx, [], 0, inp));
       (lines, tot, rest, overflow) = encode_lines tot inp
     in if overflow then (ctx, written @ lines @ [0], 0)
        else (ctx\<lparr> ctx_data := mem_write (ctx_data ctx) 0 rest, data_used := length rest \<rparr>,
              written @ lines @ [0], if INT_MAX < tot then 0 else tot))"

definition EVP_EncodeFinal :: "evp_encode_ctx \<Rightarrow> evp_encode_ctx \<times> bytes \<times> nat" where
  "EVP_EncodeFinal ctx =
    (if data_used ctx = 0 then (ctx, [], 0)
     else let (text, encoded) = EVP_EncodeBlock (take (data_used ctx) (ctx_data ctx)) in
       (ctx\<lparr> data_used := 0 \<rparr>, take encoded text @ [10, 0], encoded + 1))"

section \<open>Decoding\<close>

definition EVP_DecodedLength :: "nat \<Rightarrow> nat option" where
  "EVP_DecodedLength len = (if len mod 4 \<noteq> 0 then None else Some (len div 4 * 3))"

definition EVP_DecodeInit :: evp_encode_ctx where
  "EVP_DecodeInit = \<lparr> data_used = 0, ctx_data = replicate 48 0, eof_seen = False, error_encountered = False \<rparr>"

definition base64_ascii_to_bin :: "u8 \<Rightarrow> u8" where
  "base64_ascii_to_bin a = (let
     is_upper = constant_time_in_range_8 a 65 90;
     is_lower = constant_time_in_range_8 a 97 122;
     is_digit = constant_time_in_range_8 a 48 57;
     is_plus = constant_time_eq_8 (ucast a) 43;
     is_slash = constant_time_eq_8 (ucast a) 47;
     is_equals = constant_time_eq_8 (ucast a) 61;
     ret = 0xff;
     ret = constant_time_select_8 is_upper (a - 65) ret;
     ret = constant_time_select_8 is_lower (a - 97 + 26) ret;
     ret = constant_time_select_8 is_digit (a - 48 + 52) ret;
     ret = constant_time_select_8 is_plus 62 ret;
     ret = constant_time_select_8 is_slash 63 ret;
     ret = constant_time_select_8 is_equals 0 ret
   in ret)"

text \<open>The four characters are one group of the input; the result is what is written.\<close>

definition base64_decode_quad :: "u8 \<Rightarrow> u8 \<Rightarrow> u8 \<Rightarrow> u8 \<Rightarrow> bytes option" where
  "base64_decode_quad in0 in1 in2 in3 = (let
     a = base64_ascii_to_bin in0; b = base64_ascii_to_bin in1;
     c = base64_ascii_to_bin in2; d = base64_ascii_to_bin in3
   in if a = 0xff \<or> b = 0xff \<or> c = 0xff \<or> d = 0xff then None
     else let
       v = push_bit 18 (ucast a :: u32) OR push_bit 12 (ucast b) OR push_bit 6 (ucast c) OR ucast d;
       padding_pattern = (if in0 = 61 then 8 else 0) + (if in1 = 61 then 4 else 0)
         + (if in2 = 61 then 2 else 0) + (if in3 = 61 then 1 else 0 :: nat)
     in if padding_pattern = 0 then Some [ucast (drop_bit 16 v), ucast (drop_bit 8 v), ucast v]
        else if padding_pattern = 1 then Some [ucast (drop_bit 16 v), ucast (drop_bit 8 v)]
        else if padding_pattern = 3 then Some [ucast (drop_bit 16 v)]
        else None)"

definition is_base64_space :: "u8 \<Rightarrow> bool" where
  "is_base64_space c \<longleftrightarrow> c = 32 \<or> c = 9 \<or> c = 13 \<or> c = 10"

text \<open>The loop of \<open>EVP_DecodeUpdate\<close>.  It stops at an error, which it records in the context.\<close>

fun decode_chars :: "evp_encode_ctx \<Rightarrow> bytes \<Rightarrow> evp_encode_ctx \<times> bytes" where
  "decode_chars ctx [] = (ctx, [])"
| "decode_chars ctx (c # cs) =
    (if is_base64_space c then decode_chars ctx cs
     else if eof_seen ctx then (ctx\<lparr> error_encountered := True \<rparr>, [])
     else let ctx = ctx\<lparr> ctx_data := (ctx_data ctx)[data_used ctx := c], data_used := data_used ctx + 1 \<rparr>;
            q = ctx_data ctx
       in if data_used ctx = 4 then
            case base64_decode_quad (q ! 0) (q ! 1) (q ! 2) (q ! 3) of
              None \<Rightarrow> (ctx\<lparr> error_encountered := True \<rparr>, [])
            | Some out \<Rightarrow> let
                ctx = ctx\<lparr> data_used := 0 \<rparr>;
                ctx = (if length out < 3 then ctx\<lparr> eof_seen := True \<rparr> else ctx);
                (ctx', out') = decode_chars ctx cs
              in (ctx', out @ out')
          else decode_chars ctx cs)"

definition EVP_DecodeUpdate :: "evp_encode_ctx \<Rightarrow> bytes \<Rightarrow> evp_encode_ctx \<times> int \<times> bytes \<times> nat" where
  "EVP_DecodeUpdate ctx inp =
    (if error_encountered ctx then (ctx, - 1, [], 0)
     else let (ctx, out) = decode_chars ctx inp in
       if error_encountered ctx then (ctx, - 1, out, 0)
       else if INT_MAX < length out then (ctx\<lparr> error_encountered := True \<rparr>, - 1, out, 0)
       else (ctx, if eof_seen ctx then 0 else 1, out, length out))"

definition EVP_DecodeFinal :: "evp_encode_ctx \<Rightarrow> int \<times> nat" where
  "EVP_DecodeFinal ctx = (if error_encountered ctx \<or> data_used ctx \<noteq> 0 then (- 1, 0) else (1, 0))"

text \<open>The loop of \<open>EVP_DecodeBase64\<close>; a group that is cut short must be the last one.\<close>

fun decode_quads :: "bytes \<Rightarrow> bytes option" where
  "decode_quads (a # b # c # d # inp) =
    (case base64_decode_quad a b c d of
       None \<Rightarrow> None
     | Some out \<Rightarrow>
         if length out \<noteq> 3 \<and> inp \<noteq> [] then None
         else (case decode_quads inp of None \<Rightarrow> None | Some out' \<Rightarrow> Some (out @ out')))"
| "decode_quads inp = Some []"

definition EVP_DecodeBase64 :: "nat \<Rightarrow> bytes \<Rightarrow> bytes option" where
  "EVP_DecodeBase64 max_out inp =
    (if length inp mod 4 \<noteq> 0 then None
     else case EVP_DecodedLength (length inp) of
       None \<Rightarrow> None
     | Some max_len \<Rightarrow> if max_out < max_len then None else decode_quads inp)"

definition EVP_DecodeBlock :: "bytes \<Rightarrow> bytes option" where
  "EVP_DecodeBlock src = (let
     src = dropWhile (\<lambda>c. c = 32 \<or> c = 9) src;
     src = rev (dropWhile is_base64_space (rev src))
   in case EVP_DecodedLength (length src) of
       None \<Rightarrow> None
     | Some dst_len \<Rightarrow>
         if INT_MAX < dst_len then None
         else case EVP_DecodeBase64 dst_len src of
           None \<Rightarrow> None
         | Some dst \<Rightarrow> Some (dst @ replicate ((3 - length dst mod 3) mod 3) 0))"


section \<open>One group\<close>

lemma ucast_byte_eq: "ucast a = (ucast b :: u64) \<longleftrightarrow> a = (b :: u8)"
proof
  assume "ucast a = (ucast b :: u64)"
  then have "unat (ucast a :: u64) = unat (ucast b :: u64)" by simp
  then show "a = b" by (simp add: unat_ucast_byte word_unat_eq_iff)
qed simp

lemma ucast_byte_eq_numeral:
  "ucast a = (62 :: u64) \<longleftrightarrow> a = (62 :: u8)" "ucast a = (43 :: u64) \<longleftrightarrow> a = (43 :: u8)"
  "ucast a = (47 :: u64) \<longleftrightarrow> a = (47 :: u8)" "ucast a = (61 :: u64) \<longleftrightarrow> a = (61 :: u8)"
  using ucast_byte_eq [of a 62] ucast_byte_eq [of a 43] ucast_byte_eq [of a 47] ucast_byte_eq [of a 61]
  by simp_all

lemma conv_bin2ascii_eq:
  "conv_bin2ascii w = (let a = w AND 63 in
     if a < 26 then a + 65 else if a < 52 then a - 26 + 97 else if a < 62 then a - 52 + 48
     else if a = 62 then 43 else 47)"
  by (simp only: conv_bin2ascii_def Let_def eq_8 ucast_byte_eq_numeral lt_args_8 select_8)

lemma ranges: "(65 :: u8) \<le> 90" "(90 :: u8) - 65 < 0xff" "(97 :: u8) \<le> 122" "(122 :: u8) - 97 < 0xff"
    "(48 :: u8) \<le> 57" "(57 :: u8) - 48 < 0xff"
  by simp_all

lemma base64_ascii_to_bin_eq:
  "base64_ascii_to_bin a =
    (if a = 61 then 0 else if a = 47 then 63 else if a = 43 then 62
     else if 48 \<le> a \<and> a \<le> 57 then a - 48 + 52
     else if 97 \<le> a \<and> a \<le> 122 then a - 97 + 26
     else if 65 \<le> a \<and> a \<le> 90 then a - 65 else 0xff)"
  by (simp only: base64_ascii_to_bin_def Let_def eq_8 ucast_byte_eq_numeral ranges in_range_8 select_8)

lemma ascii_to_bin_conv_of_nat:
  "\<forall>n\<in>set [0..<64]. base64_ascii_to_bin (conv_bin2ascii (word_of_nat n)) = word_of_nat n
     \<and> conv_bin2ascii (word_of_nat n) \<noteq> 61 \<and> \<not> is_base64_space (conv_bin2ascii (word_of_nat n))"
  by (simp add: upt_rec conv_bin2ascii_eq base64_ascii_to_bin_eq is_base64_space_def)

lemma ascii_to_bin_conv:
  "base64_ascii_to_bin (conv_bin2ascii w) = w AND 63 \<and> conv_bin2ascii w \<noteq> 61 \<and>
   \<not> is_base64_space (conv_bin2ascii w)"
proof -
  have m: "w AND 63 = w AND mask 6" by (simp add: mask_eq_decr_exp)
  then have "unat (w AND 63) < 64" by (simp only: unat_and_mask) simp
  moreover have "conv_bin2ascii (w AND 63) = conv_bin2ascii w" by (simp add: conv_bin2ascii_eq and.assoc)
  ultimately show ?thesis
    using ascii_to_bin_conv_of_nat [THEN bspec, of "unat (w AND 63)"] by simp
qed


lemma sextet: "(w :: u8) AND 63 = 0xff \<longleftrightarrow> False"
proof
  assume *: "w AND 63 = 0xff"
  have "unat (w AND mask 6) < 64" by (simp only: unat_and_mask) simp
  with * show False by (simp add: mask_eq_decr_exp)
qed simp

lemma decode_encoded_3:
  "base64_decode_quad (conv_bin2ascii w0) (conv_bin2ascii w1) (conv_bin2ascii w2) (conv_bin2ascii w3) =
    (let v = push_bit 18 (ucast (w0 AND 63) :: u32) OR push_bit 12 (ucast (w1 AND 63)) OR
       push_bit 6 (ucast (w2 AND 63)) OR ucast (w3 AND 63)
     in Some [ucast (drop_bit 16 v), ucast (drop_bit 8 v), ucast v])"
  using ascii_to_bin_conv [of w0] ascii_to_bin_conv [of w1] ascii_to_bin_conv [of w2] ascii_to_bin_conv [of w3]
  by (simp add: base64_decode_quad_def Let_def sextet del: One_nat_def)

lemma decode_encoded_2:
  "base64_decode_quad (conv_bin2ascii w0) (conv_bin2ascii w1) (conv_bin2ascii w2) 61 =
    (let v = push_bit 18 (ucast (w0 AND 63) :: u32) OR push_bit 12 (ucast (w1 AND 63)) OR
       push_bit 6 (ucast (w2 AND 63))
     in Some [ucast (drop_bit 16 v), ucast (drop_bit 8 v)])"
  using ascii_to_bin_conv [of w0] ascii_to_bin_conv [of w1] ascii_to_bin_conv [of w2]
  by (simp add: base64_decode_quad_def base64_ascii_to_bin_eq [of 61] Let_def sextet)

lemma decode_encoded_1:
  "base64_decode_quad (conv_bin2ascii w0) (conv_bin2ascii w1) 61 61 =
    (let v = push_bit 18 (ucast (w0 AND 63) :: u32) OR push_bit 12 (ucast (w1 AND 63))
     in Some [ucast (drop_bit 16 v)])"
  using ascii_to_bin_conv [of w0] ascii_to_bin_conv [of w1]
  by (simp add: base64_decode_quad_def base64_ascii_to_bin_eq [of 61] Let_def sextet)

lemma byte_eqI:
  fixes x y :: u8
  assumes "bit x 0 = bit y 0" "bit x 1 = bit y 1" "bit x 2 = bit y 2" "bit x 3 = bit y 3"
    "bit x 4 = bit y 4" "bit x 5 = bit y 5" "bit x 6 = bit y 6" "bit x 7 = bit y 7"
  shows "x = y"
proof (rule bit_word_eqI)
  fix n assume "n < LENGTH(8)"
  then have "n = 0 \<or> n = 1 \<or> n = 2 \<or> n = 3 \<or> n = 4 \<or> n = 5 \<or> n = 6 \<or> n = 7" by auto
  then show "bit x n = bit y n" using assms by blast
qed

lemma mask_63: "(63 :: u8) = mask 6"
  by (simp add: mask_eq_decr_exp)

lemma bit_byte_beyond: "8 \<le> n \<Longrightarrow> bit (b :: u8) n \<longleftrightarrow> False"
  using bit_imp_le_length [of b n] by auto

lemma three_bytes:
  fixes a b c :: u8
  defines "l \<equiv> push_bit 16 (ucast a :: u32) OR push_bit 8 (ucast b) OR ucast c"
  defines "v \<equiv> push_bit 18 (ucast (ucast (drop_bit 18 l) AND 63 :: u8) :: u32) OR
    push_bit 12 (ucast (ucast (drop_bit 12 l) AND 63 :: u8)) OR
    push_bit 6 (ucast (ucast (drop_bit 6 l) AND 63 :: u8)) OR ucast (ucast l AND 63 :: u8)"
  shows "ucast (drop_bit 16 v) = a" "ucast (drop_bit 8 v) = b" "ucast v = c"
  by (rule byte_eqI; simp only: v_def l_def bit_simps bit_mask_iff mask_63; simp add: bit_byte_beyond bit_simps)+


lemma two_bytes:
  fixes a b :: u8
  defines "l \<equiv> push_bit 16 (ucast a :: u32) OR push_bit 8 (ucast b)"
  defines "v \<equiv> push_bit 18 (ucast (ucast (drop_bit 18 l) AND 63 :: u8) :: u32) OR
    push_bit 12 (ucast (ucast (drop_bit 12 l) AND 63 :: u8)) OR
    push_bit 6 (ucast (ucast (drop_bit 6 l) AND 63 :: u8))"
  shows "ucast (drop_bit 16 v) = a" "ucast (drop_bit 8 v) = b"
  by (rule byte_eqI; simp only: v_def l_def bit_simps bit_mask_iff mask_63; simp add: bit_byte_beyond bit_simps)+

lemma one_byte:
  fixes a :: u8
  defines "l \<equiv> push_bit 16 (ucast a :: u32)"
  defines "v \<equiv> push_bit 18 (ucast (ucast (drop_bit 18 l) AND 63 :: u8) :: u32) OR
    push_bit 12 (ucast (ucast (drop_bit 12 l) AND 63 :: u8))"
  shows "ucast (drop_bit 16 v) = a"
  by (rule byte_eqI; simp only: v_def l_def bit_simps bit_mask_iff mask_63; simp add: bit_byte_beyond bit_simps)

section \<open>One-shot operations\<close>

lemmas decode_group =
  decode_encoded_3 decode_encoded_2 decode_encoded_1 three_bytes two_bytes one_byte

lemma decode_encode_groups: "decode_quads (encode_groups src) = Some src"
  by (induction src rule: encode_groups.induct;
      simp only: encode_groups.simps Let_def append.simps decode_quads.simps decode_group option.case; simp)

lemma length_encode_groups: "length (encode_groups src) = (length src + 2) div 3 * 4"
proof (induction src rule: encode_groups.induct)
  case (1 a b c src)
  have "length (encode_groups (a # b # c # src)) = length (encode_groups src) + 4" by (simp add: Let_def)
  also have "\<dots> = ((length src + 2) div 3 + 1) * 4" using 1 by simp
  also have "(length src + 2) div 3 + 1 = (length src + 5) div 3" by simp
  finally show ?case by (simp add: add.commute)
qed (simp_all add: Let_def)

lemma szmul_4_exact: "szmul n 4 div 4 = n \<longleftrightarrow> n * 4 < SIZE_LIMIT"
proof
  assume *: "szmul n 4 div 4 = n"
  have "n * 4 \<le> szmul n 4" using * div_times_less_eq_dividend [of "szmul n 4" 4] by simp
  also have "szmul n 4 < SIZE_LIMIT" by (simp add: szmul_def)
  finally show "n * 4 < SIZE_LIMIT" .
qed (simp add: size_simps)

lemma EVP_EncodedLength_eq:
  assumes "n < SIZE_LIMIT"
  shows "EVP_EncodedLength n =
    (if n + 2 < SIZE_LIMIT \<and> (n + 2) div 3 * 4 + 1 < SIZE_LIMIT then Some ((n + 2) div 3 * 4 + 1) else None)"
proof (cases "n + 2 < SIZE_LIMIT")
  case n: True
  let ?l = "(n + 2) div 3"
  have 2: "szadd n 2 = n + 2" using n by (simp add: size_simps)
  show ?thesis
  proof (cases "?l * 4 < SIZE_LIMIT")
    case True
    then have "szmul ?l 4 = ?l * 4" by (simp add: size_simps)
    moreover have "szadd (?l * 4) 1 < ?l * 4 \<longleftrightarrow> SIZE_LIMIT \<le> ?l * 4 + 1"
      using True by (intro szadd_overflow_iff) (simp_all add: SIZE_LIMIT_def)
    ultimately show ?thesis using n
      by (simp only: EVP_EncodedLength_def 2 Let_def) (auto simp: size_simps not_le)
  next
    case False
    then show ?thesis using n by (simp only: EVP_EncodedLength_def 2 Let_def szmul_4_exact) simp
  qed
next
  case False
  moreover have "szadd n 2 < n \<longleftrightarrow> SIZE_LIMIT \<le> n + 2"
    using assms by (intro szadd_overflow_iff) (simp_all add: SIZE_LIMIT_def)
  ultimately show ?thesis by (simp add: EVP_EncodedLength_def)
qed

text \<open>C36. One-shot base64: \<open>EVP_EncodedLength\<close> reports the bytes \<open>EVP_EncodeBlock\<close> writes, NUL
  included, or fails exactly when that number overflows a \<open>size_t\<close>; and
  \<open>EVP_DecodeBase64\<close>, given room for the length \<open>EVP_DecodedLength\<close> reports, returns the bytes
  that were encoded.\<close>

theorem base64_roundtrip:
  assumes "length src < SIZE_LIMIT"
  shows "EVP_EncodedLength (length src) =
      (let n = length (fst (EVP_EncodeBlock src)) in
        if length src + 2 < SIZE_LIMIT \<and> n < SIZE_LIMIT then Some n else None) \<and>
    (let text = take (snd (EVP_EncodeBlock src)) (fst (EVP_EncodeBlock src)) in
      \<forall>n. EVP_DecodeBase64 n text =
        (if the (EVP_DecodedLength (length text)) \<le> n then Some src else None))"
  using assms
  by (simp add: EVP_EncodedLength_eq EVP_EncodeBlock_def length_encode_groups EVP_DecodeBase64_def
     EVP_DecodedLength_def decode_encode_groups Let_def not_less)

lemma base64_roundtrip_witness:
  "EVP_EncodedLength (length [1, 2 :: u8]) = Some 5 \<and> EVP_DecodeBase64 3 (take 4 (fst (EVP_EncodeBlock [1, 2]))) = Some [1, 2]"
  using base64_roundtrip [of "[1, 2]"]
  by (simp add: SIZE_LIMIT_def EVP_EncodeBlock_def Let_def EVP_DecodedLength_def)


section \<open>Streaming encoding\<close>

text \<open>What the streaming encoder writes: full lines as soon as they are complete.\<close>

definition base64_line :: "bytes \<Rightarrow> bytes" where
  "base64_line bs = encode_groups bs @ [10]"

function emit_lines :: "bytes \<Rightarrow> bytes \<times> bytes" where
  "emit_lines bs =
    (if length bs < 48 then (bs, [])
     else case emit_lines (drop 48 bs) of (rest, out) \<Rightarrow> (rest, base64_line (take 48 bs) @ out))"
  by auto
termination by (relation "measure length") auto

declare emit_lines.simps [simp del]

lemma emit_lines_short: "length bs < 48 \<Longrightarrow> emit_lines bs = (bs, [])"
  by (simp add: emit_lines.simps [of bs])

lemma emit_lines_full: "length l = 48 \<Longrightarrow>
    emit_lines (l @ bs) = (case emit_lines bs of (rest, out) \<Rightarrow> (rest, base64_line l @ out))"
  by (simp add: emit_lines.simps [of "l @ bs"])

lemma emit_lines_rest: "emit_lines bs = (rest, out) \<Longrightarrow> length rest < 48"
  by (induction bs arbitrary: out rule: emit_lines.induct)
    (subst (asm) (2) emit_lines.simps, auto split: if_splits prod.splits)

lemma emit_lines_append:
  "emit_lines (xs @ ys) = (case emit_lines xs of (q, out) \<Rightarrow> case emit_lines (q @ ys) of (r, out') \<Rightarrow> (r, out @ out'))"
proof (induction xs rule: emit_lines.induct)
  case (1 bs)
  show ?case
  proof (cases "length bs < 48")
    case True
    then show ?thesis by (simp add: emit_lines_short split: prod.splits)
  next
    case False
    obtain q o1 where e: "emit_lines (drop 48 bs) = (q, o1)" by fastforce
    have l: "length (take 48 bs) = 48" using False by simp
    have "emit_lines (take 48 bs @ (drop 48 bs @ ys)) =
        (case emit_lines (q @ ys) of (r, o2) \<Rightarrow> (r, base64_line (take 48 bs) @ o1 @ o2))"
      using 1 [OF False] by (simp add: emit_lines_full [OF l] e split: prod.splits)
    moreover have "emit_lines bs = (q, base64_line (take 48 bs) @ o1)"
      using emit_lines_full [OF l, of "drop 48 bs"] by (simp add: e)
    ultimately show ?thesis by (simp add: append_assoc [symmetric] split: prod.splits del: append_assoc)
  qed
qed

definition encode_spec :: "bytes \<Rightarrow> bytes \<Rightarrow> bytes \<times> bytes" where
  "encode_spec p xs = (if xs = [] then (p, []) else emit_lines (p @ xs))"

lemma splitting_encode: "splitting encode_spec"
proof
  fix p xs ys
  show "encode_spec p (xs @ ys) =
      (case encode_spec p xs of (q, out) \<Rightarrow> case encode_spec q ys of (r, out') \<Rightarrow> (r, out @ out'))"
    using emit_lines_append [of "p @ xs" ys] by (auto simp: encode_spec_def split: prod.splits)
qed (simp add: encode_spec_def)

text \<open>The context refines the bytes still to be encoded.\<close>

definition encode_ctx_ok :: "evp_encode_ctx \<Rightarrow> bool" where
  "encode_ctx_ok ctx \<longleftrightarrow> data_used ctx < 48 \<and> length (ctx_data ctx) = 48"

definition ctx_pending :: "evp_encode_ctx \<Rightarrow> bytes" where
  "ctx_pending ctx = take (data_used ctx) (ctx_data ctx)"

lemma length_line: "length l = 48 \<Longrightarrow> length (encode_groups l) = 64"
  by (simp add: length_encode_groups)

lemma encode_lines_eq:
  assumes "tot + 2 * length inp < SIZE_LIMIT"
  shows "encode_lines tot inp = (case emit_lines inp of (rest, out) \<Rightarrow> (out, tot + length out, rest, False))"
  using assms
proof (induction tot inp rule: encode_lines.induct)
  case (1 tot inp)
  show ?case
  proof (cases "length inp < 48")
    case True
    then show ?thesis by (simp add: emit_lines_short encode_lines.simps [of tot inp])
  next
    case False
    have l: "length (take 48 inp) = 48" using False by simp
    have 65: "szadd tot 65 = tot + 65" using 1(2) False by (intro szadd_exact) simp
    obtain rest out where e: "emit_lines (drop 48 inp) = (rest, out)" by fastforce
    then have "encode_lines (tot + 65) (drop 48 inp) = (out, tot + 65 + length out, rest, False)"
      using 1 False l by (simp add: EVP_EncodeBlock_def length_line 65)
    moreover have "emit_lines inp = (rest, base64_line (take 48 inp) @ out)"
      using emit_lines_full [OF l, of "drop 48 inp"] by (simp add: e)
    ultimately show ?thesis using False l
      by (simp add: encode_lines.simps [of tot inp] EVP_EncodeBlock_def length_line 65 base64_line_def)
  qed
qed


lemma emit_lines_length: "emit_lines bs = (rest, out) \<Longrightarrow> length out \<le> 2 * length bs"
proof (induction bs arbitrary: out rule: emit_lines.induct)
  case (1 bs)
  show ?case
  proof (cases "length bs < 48")
    case True
    then show ?thesis using 1(2) by (simp add: emit_lines_short)
  next
    case False
    then have l: "length (take 48 bs) = 48" by simp
    obtain o1 where e: "emit_lines (drop 48 bs) = (rest, o1)" and out: "out = base64_line (take 48 bs) @ o1"
      using 1(2) False by (auto simp: emit_lines.simps [of bs] split: prod.splits)
    show ?thesis using 1(1) [OF False e] False l by (simp add: out base64_line_def length_line)
  qed
qed

definition encode_update :: "evp_encode_ctx \<Rightarrow> bytes \<Rightarrow> evp_encode_ctx \<times> bytes" where
  "encode_update ctx inp = (case EVP_EncodeUpdate ctx inp of (ctx', out, n) \<Rightarrow> (ctx', take n out))"

lemma encode_update_step:
  assumes ok: "encode_ctx_ok ctx" and len: "length xs < 1000000000"
    and upd: "encode_update ctx xs = (ctx', out)"
  shows "encode_ctx_ok ctx' \<and> encode_spec (ctx_pending ctx) xs = (ctx_pending ctx', out)"
proof -
  let ?u = "data_used ctx" and ?p = "ctx_pending ctx"
  have u: "?u < 48" "length (ctx_data ctx) = 48" "length ?p = ?u"
    using ok by (auto simp: encode_ctx_ok_def ctx_pending_def)
  consider "xs = []" | "xs \<noteq> []" "length xs < 48 - ?u" | "xs \<noteq> []" "\<not> length xs < 48 - ?u" "?u = 0"
    | "xs \<noteq> []" "\<not> length xs < 48 - ?u" "?u \<noteq> 0" by fastforce
  then show ?thesis
  proof cases
    case 1
    then show ?thesis using upd ok by (auto simp: encode_update_def EVP_EncodeUpdate_def encode_spec_def)
  next
    case 2
    then have "ctx' = ctx\<lparr> ctx_data := mem_write (ctx_data ctx) ?u xs, data_used := ?u + length xs \<rparr>" "out = []"
      using upd by (auto simp: encode_update_def EVP_EncodeUpdate_def)
    then show ?thesis using 2 u
      by (simp add: encode_ctx_ok_def encode_spec_def ctx_pending_def emit_lines_short mem_simps)
  next
    case 3
    obtain rest lines where e: "emit_lines xs = (rest, lines)" by fastforce
    have r: "length rest < 48" "length lines \<le> 2 * length xs"
      using emit_lines_rest [OF e] emit_lines_length [OF e] by auto
    have "encode_lines 0 xs = (lines, length lines, rest, False)"
      using len by (simp add: encode_lines_eq SIZE_LIMIT_def e)
    then have "ctx' = ctx\<lparr> ctx_data := mem_write (ctx_data ctx) 0 rest, data_used := length rest \<rparr>" "out = lines"
      using upd 3 r len by (auto simp: encode_update_def EVP_EncodeUpdate_def INT_MAX_def)
    then show ?thesis using 3 u r
      by (simp add: encode_ctx_ok_def encode_spec_def ctx_pending_def e mem_simps)
  next
    case 4
    let ?t = "48 - ?u" and ?d = "mem_write (ctx_data ctx) ?u (take (48 - ?u) xs)"
    have d: "?d = ?p @ take ?t xs" using 4 u by (simp add: mem_write_def ctx_pending_def)
    have ld: "length ?d = 48" using 4 u by (simp add: mem_simps)
    obtain rest lines where e: "emit_lines (drop ?t xs) = (rest, lines)" by fastforce
    have r: "length rest < 48" "length lines \<le> 2 * length xs"
      using emit_lines_rest [OF e] emit_lines_length [OF e] by auto
    have "encode_lines 65 (drop ?t xs) = (lines, 65 + length lines, rest, False)"
      using len by (subst encode_lines_eq) (simp_all add: SIZE_LIMIT_def e)
    then have "ctx' = ctx\<lparr> ctx_data := mem_write ?d 0 rest, data_used := length rest \<rparr>" "out = base64_line ?d @ lines"
      using upd 4 r len ld
      by (auto simp: encode_update_def EVP_EncodeUpdate_def INT_MAX_def EVP_EncodeBlock_def length_line
         base64_line_def Let_def)
    moreover have "encode_spec ?p xs = (rest, base64_line ?d @ lines)"
      using 4 emit_lines_full [OF ld, of "drop ?t xs"] by (simp add: encode_spec_def d e)
    ultimately show ?thesis using ld r
      by (simp add: encode_ctx_ok_def ctx_pending_def mem_simps)
  qed
qed

interpretation b64_enc: chunked encode_spec encode_update encode_ctx_ok ctx_pending 1000000000
  by (intro chunked.intro chunked_axioms.intro splitting_encode encode_update_step)


section \<open>Streaming decoding\<close>

definition decode_spec :: "evp_encode_ctx \<Rightarrow> bytes \<Rightarrow> evp_encode_ctx \<times> bytes" where
  "decode_spec ctx xs = (if error_encountered ctx then (ctx, []) else decode_chars ctx xs)"

definition decode_update :: "evp_encode_ctx \<Rightarrow> bytes \<Rightarrow> evp_encode_ctx \<times> bytes" where
  "decode_update ctx inp = (case EVP_DecodeUpdate ctx inp of (ctx', r, out, n) \<Rightarrow> (ctx', out))"

lemma decode_chars_append:
  "\<not> error_encountered ctx \<Longrightarrow>
    decode_chars ctx (xs @ ys) = (case decode_chars ctx xs of (q, out) \<Rightarrow>
      case decode_spec q ys of (r, out') \<Rightarrow> (r, out @ out'))"
  by (induction ctx xs rule: decode_chars.induct)
    (auto simp: decode_spec_def Let_def split: prod.splits option.splits if_splits)

lemma splitting_decode: "splitting decode_spec"
  by standard (auto simp: decode_spec_def decode_chars_append split: prod.splits)

lemma length_decode_quad: "base64_decode_quad a b c d = Some out \<Longrightarrow> length out \<le> 3"
  by (auto simp: base64_decode_quad_def Let_def split: if_splits)

lemma length_decode_chars: "decode_chars ctx xs = (ctx', out) \<Longrightarrow> length out \<le> 3 * length xs"
proof (induction ctx xs arbitrary: ctx' out rule: decode_chars.induct)
  case (2 ctx c cs)
  then show ?case
    by (fastforce simp: Let_def dest: length_decode_quad split: prod.splits option.splits if_splits)
qed simp

lemma decode_update_step:
  assumes "length xs < 700000000" and "decode_update ctx xs = (ctx', out)"
  shows "decode_spec ctx xs = (ctx', out)"
  using assms length_decode_chars [of ctx xs]
  by (fastforce simp: decode_update_def EVP_DecodeUpdate_def decode_spec_def INT_MAX_def
      split: prod.splits if_splits)

interpretation b64_dec: chunked decode_spec decode_update "\<lambda>_. True" "\<lambda>ctx. ctx" 700000000
  by (intro chunked.intro chunked_axioms.intro splitting_decode) (simp add: decode_update_step)

text \<open>Between groups the context is ready for the next one.\<close>

definition at_group :: "evp_encode_ctx \<Rightarrow> bool" where
  "at_group ctx \<longleftrightarrow> data_used ctx = 0 \<and> length (ctx_data ctx) = 48 \<and> \<not> error_encountered ctx"

lemma decode_chars_group:
  assumes "at_group ctx" and "\<not> eof_seen ctx"
    and "\<not> is_base64_space a" "\<not> is_base64_space b" "\<not> is_base64_space c" "\<not> is_base64_space d"
    and "base64_decode_quad a b c d = Some out"
  shows "\<exists>ctx'. at_group ctx' \<and> (eof_seen ctx' \<longleftrightarrow> length out < 3) \<and>
    decode_chars ctx ([a, b, c, d] @ rest) = (case decode_chars ctx' rest of (r, out') \<Rightarrow> (r, out @ out'))"
proof -
  let ?q = "(ctx_data ctx)[0 := a, Suc 0 := b, 2 := c, 3 := d]"
  let ?c0 = "ctx\<lparr> ctx_data := ?q, data_used := 0 \<rparr>"
  let ?c = "if length out < 3 then ?c0\<lparr> eof_seen := True \<rparr> else ?c0"
  have q: "?q ! 0 = a" "?q ! Suc 0 = b" "?q ! 2 = c" "?q ! 3 = d" "length ?q = 48"
    using assms(1) by (simp_all add: at_group_def)
  have "at_group ?c" "eof_seen ?c \<longleftrightarrow> length out < 3" using assms(1,2) by (simp_all add: at_group_def)
  moreover have "decode_chars ctx ([a, b, c, d] @ rest) = (case decode_chars ?c rest of (r, out') \<Rightarrow> (r, out @ out'))"
    using assms q by (simp add: at_group_def Let_def numeral_2_eq_2 numeral_3_eq_3)
  ultimately show ?thesis by (intro exI [of _ ?c]) simp
qed


lemmas not_space_conv = ascii_to_bin_conv [THEN conjunct2, THEN conjunct2]

lemma not_space_equals: "\<not> is_base64_space 61"
  by (simp add: is_base64_space_def)

declare encode_groups.simps(1-3) [simp del] decode_chars.simps(2) [simp del]

lemma encoded_triple:
  "\<exists>w x y z. encode_groups (a # b # c # src) = conv_bin2ascii w # conv_bin2ascii x # conv_bin2ascii y #
      conv_bin2ascii z # encode_groups src \<and>
    base64_decode_quad (conv_bin2ascii w) (conv_bin2ascii x) (conv_bin2ascii y) (conv_bin2ascii z) = Some [a, b, c]"
  by (intro exI conjI, simp only: encode_groups.simps Let_def append.simps,
      simp only: decode_group Let_def)

lemma encoded_pair:
  "\<exists>w x y. encode_groups [a, b] = [conv_bin2ascii w, conv_bin2ascii x, conv_bin2ascii y, 61] \<and>
    base64_decode_quad (conv_bin2ascii w) (conv_bin2ascii x) (conv_bin2ascii y) 61 = Some [a, b]"
  by (intro exI conjI, simp only: encode_groups.simps Let_def append.simps,
      simp only: decode_group Let_def)

lemma encoded_one:
  "\<exists>w x. encode_groups [a] = [conv_bin2ascii w, conv_bin2ascii x, 61, 61] \<and>
    base64_decode_quad (conv_bin2ascii w) (conv_bin2ascii x) 61 61 = Some [a]"
  by (intro exI conjI, simp only: encode_groups.simps Let_def append.simps,
      simp only: decode_group Let_def)

lemma decode_chars_encoded:
  assumes "at_group ctx" and "\<not> eof_seen ctx"
  shows "\<exists>ctx'. at_group ctx' \<and> (eof_seen ctx' \<longleftrightarrow> length src mod 3 \<noteq> 0) \<and>
    decode_chars ctx (encode_groups src @ rest) = (case decode_chars ctx' rest of (r, out) \<Rightarrow> (r, src @ out))"
  using assms
proof (induction src arbitrary: ctx rule: encode_groups.induct)
  case (1 a b c src)
  obtain w x y z where t: "encode_groups (a # b # c # src) =
      [conv_bin2ascii w, conv_bin2ascii x, conv_bin2ascii y, conv_bin2ascii z] @ encode_groups src"
    and q: "base64_decode_quad (conv_bin2ascii w) (conv_bin2ascii x) (conv_bin2ascii y) (conv_bin2ascii z) = Some [a, b, c]"
    using encoded_triple [of a b c src] by auto
  obtain c1 where c1: "at_group c1" "\<not> eof_seen c1"
    and d: "decode_chars ctx (encode_groups (a # b # c # src) @ rest) =
      (case decode_chars c1 (encode_groups src @ rest) of (r, out) \<Rightarrow> (r, [a, b, c] @ out))"
    using decode_chars_group [OF "1.prems" not_space_conv not_space_conv not_space_conv not_space_conv q,
        of "encode_groups src @ rest"] by (auto simp: t)
  have m: "length (a # b # c # src) mod 3 = length src mod 3" using mod_add_self2 [of "length src" 3] by (simp only: list.size) (simp add: add.commute)
  obtain c2 where c2: "at_group c2" "eof_seen c2 \<longleftrightarrow> length src mod 3 \<noteq> 0"
    "decode_chars c1 (encode_groups src @ rest) = (case decode_chars c2 rest of (r, out) \<Rightarrow> (r, src @ out))"
    using "1.IH" [OF refl c1] by blast
  show ?case by (intro exI [of _ c2] conjI; simp only: c2 m d) (simp only: append.simps split: prod.splits, simp)
next
  case (2 a b)
  obtain w x y where t: "encode_groups [a, b] = [conv_bin2ascii w, conv_bin2ascii x, conv_bin2ascii y, 61]"
    and q: "base64_decode_quad (conv_bin2ascii w) (conv_bin2ascii x) (conv_bin2ascii y) 61 = Some [a, b]"
    using encoded_pair by blast
  show ?case using decode_chars_group [OF 2 not_space_conv not_space_conv not_space_conv not_space_equals q]
    by (simp add: t)
next
  case (3 a)
  obtain w x where t: "encode_groups [a] = [conv_bin2ascii w, conv_bin2ascii x, 61, 61]"
    and q: "base64_decode_quad (conv_bin2ascii w) (conv_bin2ascii x) 61 61 = Some [a]"
    using encoded_one by blast
  show ?case using decode_chars_group [OF 3 not_space_conv not_space_conv not_space_equals not_space_equals q]
    by (simp add: t)
next
  case 4
  then show ?case by (intro exI [of _ ctx]) auto
qed


lemma decode_chars_newline: "is_base64_space c \<Longrightarrow> decode_chars ctx (c # cs) = decode_chars ctx cs"
  by (simp add: decode_chars.simps(2))

lemma newline_space: "is_base64_space 10"
  by (simp add: is_base64_space_def)

lemma decode_line:
  assumes "at_group ctx" and "\<not> eof_seen ctx"
  shows "\<exists>ctx'. at_group ctx' \<and> (eof_seen ctx' \<longleftrightarrow> length l mod 3 \<noteq> 0) \<and>
    decode_chars ctx (base64_line l @ rest) = (case decode_chars ctx' rest of (r, out) \<Rightarrow> (r, l @ out))"
  using decode_chars_encoded [OF assms, of l "10 # rest"]
  by (simp add: base64_line_def decode_chars_newline newline_space)

lemma decode_lines:
  assumes "at_group ctx" and "\<not> eof_seen ctx" and "emit_lines bs = (rest, out)"
  shows "\<exists>ctx'. at_group ctx' \<and> (eof_seen ctx' \<longleftrightarrow> length rest mod 3 \<noteq> 0) \<and>
    decode_chars ctx (out @ (if rest = [] then [] else base64_line rest)) = (ctx', bs)"
  using assms
proof (induction bs arbitrary: ctx out rule: emit_lines.induct)
  case (1 bs)
  show ?case
  proof (cases "length bs < 48")
    case True
    then show ?thesis using 1 decode_line [OF 1(2,3), of bs "[]"] by (auto simp: emit_lines_short)
  next
    case False
    then have l: "length (take 48 bs) = 48" by simp
    obtain o1 where e: "emit_lines (drop 48 bs) = (rest, o1)" and out: "out = base64_line (take 48 bs) @ o1"
      using 1(4) False by (auto simp: emit_lines.simps [of bs] split: prod.splits)
    let ?tail = "o1 @ (if rest = [] then [] else base64_line rest)"
    obtain c1 where c1: "at_group c1" "\<not> eof_seen c1"
      "decode_chars ctx (base64_line (take 48 bs) @ ?tail) =
        (case decode_chars c1 ?tail of (r, out) \<Rightarrow> (r, take 48 bs @ out))"
      using decode_line [OF 1(2,3), of "take 48 bs" ?tail] l by auto
    show ?thesis using 1(1) [OF False c1(1,2) e] c1(3) by (auto simp: out)
  qed
qed

text \<open>C19. Streaming base64: however the input is cut into calls of \<open>EVP_EncodeUpdate\<close>, and however the
  text it and \<open>EVP_EncodeFinal\<close> write is cut into calls of \<open>EVP_DecodeUpdate\<close>, the decoder writes the
  input back and \<open>EVP_DecodeFinal\<close> accepts; no call may pass more than the \<open>int\<close> lengths allow.\<close>

theorem base64_stream_roundtrip:
  assumes "\<forall>xs\<in>set xss. length xs < 1000000000" and "\<forall>ys\<in>set yss. length ys < 700000000"
    and "feed encode_update EVP_EncodeInit xss = (enc, text)"
    and "EVP_EncodeFinal enc = (enc', tail, n)"
    and "concat yss = text @ take n tail"
    and "feed decode_update EVP_DecodeInit yss = (dec, out)"
  shows "out = concat xss \<and> EVP_DecodeFinal dec = (1, 0)"
proof -
  have "encode_ctx_ok EVP_EncodeInit" "ctx_pending EVP_EncodeInit = []"
    by (simp_all add: encode_ctx_ok_def EVP_EncodeInit_def ctx_pending_def)
  then have enc: "encode_ctx_ok enc" "encode_spec [] (concat xss) = (ctx_pending enc, text)"
    using b64_enc.feed_update [OF _ assms(1,3)] by simp_all
  then have e: "emit_lines (concat xss) = (ctx_pending enc, text)"
    by (cases "concat xss = []") (auto simp: encode_spec_def emit_lines_short simp del: concat_eq_Nil_conv)
  have u: "length (ctx_pending enc) = data_used enc"
    using enc(1) by (simp add: encode_ctx_ok_def ctx_pending_def)
  have t: "take n tail = (if ctx_pending enc = [] then [] else base64_line (ctx_pending enc))"
    using assms(4) u
    by (auto simp: EVP_EncodeFinal_def EVP_EncodeBlock_def ctx_pending_def base64_line_def Let_def split: if_splits)
  have d: "at_group EVP_DecodeInit" "\<not> eof_seen EVP_DecodeInit"
    by (simp_all add: at_group_def EVP_DecodeInit_def)
  then have "decode_spec EVP_DecodeInit (concat yss) = decode_chars EVP_DecodeInit (concat yss)"
    by (simp add: decode_spec_def at_group_def)
  then have "decode_chars EVP_DecodeInit (concat yss) = (dec, out)"
    using b64_dec.feed_update [OF _ assms(2,6)] by simp
  then show ?thesis using decode_lines [OF d e] assms(5)
    by (auto simp: t EVP_DecodeFinal_def at_group_def)
qed

lemma base64_stream_roundtrip_witness:
  "snd (feed decode_update EVP_DecodeInit [[65, 81], [73, 61, 10]]) = [1, 2]"
proof -
  have e: "feed encode_update EVP_EncodeInit [[1], [2]] =
      (EVP_EncodeInit\<lparr> ctx_data := [1, 2] @ replicate 46 0, data_used := 2 \<rparr>, [])"
    by (simp add: encode_update_def EVP_EncodeUpdate_def EVP_EncodeInit_def mem_write_def)
  have f: "EVP_EncodeFinal (EVP_EncodeInit\<lparr> ctx_data := [1, 2] @ replicate 46 0, data_used := 2 \<rparr>) =
      (EVP_EncodeInit\<lparr> ctx_data := [1, 2] @ replicate 46 0 \<rparr>, [65, 81, 73, 61, 10, 0], 5)"
    by code_simp
  show ?thesis
    using base64_stream_roundtrip [of "[[1], [2]]" "[[65, 81], [73, 61, 10]]", OF _ _ e f]
    by (cases "feed decode_update EVP_DecodeInit [[65, 81], [73, 61, 10]]") simp
qed

end
