(* ===== verification/Stack.thy ===== *)
theory Stack
  imports Comparator Mem
begin

text \<open>
  The pointer stacks of \<open>crypto/stack/stack.c\<close>.  Pointers are \<open>'p option\<close> with \<open>None\<close> for
  \<open>NULL\<close>; a comparison function pointer is an element of \<open>'c\<close>, and \<open>call_cmp_func\<close>, which the
  callers of \<open>sk_find\<close> pass in, is the parameter \<open>call\<close>.  The array \<open>sk_data\<close> has \<open>num_alloc\<close>
  slots, those from \<open>num\<close> on unused.  The allocator is a parameter too: whether it grants a
  request, and what a fresh slot contains.
\<close>

section \<open>Operations\<close>

record ('p, 'c) stack =
  num :: nat
  sk_data :: "'p option list"
  sk_sorted :: bool
  num_alloc :: nat
  sk_comp :: "'c option"

record 'p slots =
  grants :: "nat \<Rightarrow> bool"
  fresh_slot :: "nat \<Rightarrow> 'p option"

definition kMinSize :: nat where
  "kMinSize = 4"

definition sizeof_ptr :: nat where
  "sizeof_ptr = 8"

definition sizeof_STACK :: nat where
  "sizeof_STACK = 40"

text \<open>\<open>OPENSSL_realloc\<close> on the array: the old slots are kept as far as they fit.\<close>

definition realloc_slots :: "'p slots \<Rightarrow> 'p option list \<Rightarrow> nat \<Rightarrow> 'p option list option" where
  "realloc_slots env xs sz =
    (if grants env sz then
       Some (take (sz div sizeof_ptr) (xs @ map (fresh_slot env) [length xs..<sz div sizeof_ptr]))
     else None)"

definition sk_new :: "'p slots \<Rightarrow> 'c option \<Rightarrow> ('p, 'c) stack option" where
  "sk_new env cmp =
    (if \<not> grants env sizeof_STACK then None
     else if \<not> grants env (sizeof_ptr * kMinSize) then None
     else Some \<lparr> num = 0, sk_data = replicate kMinSize None, sk_sorted = False, num_alloc = kMinSize, sk_comp = cmp \<rparr>)"

definition sk_new_null :: "'p slots \<Rightarrow> ('p, 'c) stack option" where
  "sk_new_null env = sk_new env None"

fun sk_num :: "('p, 'c) stack option \<Rightarrow> nat" where
  "sk_num None = 0"
| "sk_num (Some sk) = num sk"

fun sk_zero :: "('p, 'c) stack option \<Rightarrow> ('p, 'c) stack option" where
  "sk_zero None = None"
| "sk_zero (Some sk) =
    (if num sk = 0 then Some sk
     else Some (sk\<lparr> sk_data := mem_write (sk_data sk) 0 (replicate (num sk) None), num := 0, sk_sorted := False \<rparr>))"

fun sk_value :: "('p, 'c) stack option \<Rightarrow> nat \<Rightarrow> 'p option" where
  "sk_value None i = None"
| "sk_value (Some sk) i = (if num sk \<le> i then None else sk_data sk ! i)"

fun sk_set :: "('p, 'c) stack option \<Rightarrow> nat \<Rightarrow> 'p option \<Rightarrow> ('p, 'c) stack option \<times> 'p option" where
  "sk_set None i v = (None, None)"
| "sk_set (Some sk) i v =
    (if num sk \<le> i then (Some sk, None) else (Some (sk\<lparr> sk_data := (sk_data sk)[i := v] \<rparr>), v))"

text \<open>Freeing with a destructor: the calls of the destructor, in order.\<close>

fun sk_pop_free :: "('p, 'c) stack option \<Rightarrow> 'p list" where
  "sk_pop_free None = []"
| "sk_pop_free (Some sk) = List.map_filter (\<lambda>p. p) (take (num sk) (sk_data sk))"

text \<open>The first part of \<open>sk_insert\<close>: growing the array when it is about to be full.\<close>

definition grown_slots :: "'p slots \<Rightarrow> ('p, 'c) stack \<Rightarrow> ('p, 'c) stack option" where
  "grown_slots env sk =
       (if num_alloc sk \<le> szadd (num sk) 1 then let
          new_alloc = szmul (num_alloc sk) 2;
          alloc_size = szmul new_alloc sizeof_ptr;
          overflow = (new_alloc < num_alloc sk \<or> alloc_size div sizeof_ptr \<noteq> new_alloc);
          new_alloc = (if overflow then szadd (num_alloc sk) 1 else new_alloc);
          alloc_size = (if overflow then szmul new_alloc sizeof_ptr else alloc_size)
        in if new_alloc < num_alloc sk \<or> alloc_size div sizeof_ptr \<noteq> new_alloc then None
           else case realloc_slots env (sk_data sk) alloc_size of
             None \<Rightarrow> None
           | Some data' \<Rightarrow> Some (sk\<lparr> sk_data := data', num_alloc := new_alloc \<rparr>)
        else Some sk)"

fun sk_insert :: "'p slots \<Rightarrow> ('p, 'c) stack option \<Rightarrow> 'p option \<Rightarrow> nat \<Rightarrow> ('p, 'c) stack option \<times> nat" where
  "sk_insert env None p wh = (None, 0)"
| "sk_insert env (Some sk) p wh =
    (case grown_slots env sk of
       None \<Rightarrow> (Some sk, 0)
     | Some sk \<Rightarrow> let
         d = (if num sk \<le> wh then (sk_data sk)[num sk := p]
              else (mem_write (sk_data sk) (wh + 1) (take (num sk - wh) (drop wh (sk_data sk))))[wh := p]);
         sk = sk\<lparr> sk_data := d, num := num sk + 1, sk_sorted := False \<rparr>
       in (Some sk, num sk))"

fun sk_delete :: "('p, 'c) stack option \<Rightarrow> nat \<Rightarrow> ('p, 'c) stack option \<times> 'p option" where
  "sk_delete None wh = (None, None)"
| "sk_delete (Some sk) wh =
    (if num sk \<le> wh then (Some sk, None)
     else let
       ret = sk_data sk ! wh;
       d = (if wh \<noteq> num sk - 1 then mem_write (sk_data sk) wh (take (num sk - wh - 1) (drop (wh + 1) (sk_data sk)))
            else sk_data sk)
     in (Some (sk\<lparr> sk_data := d, num := num sk - 1 \<rparr>), ret))"

text \<open>The loop over the elements that looks for the first one a test accepts.\<close>

fun first_index :: "('a \<Rightarrow> bool) \<Rightarrow> 'a list \<Rightarrow> nat option" where
  "first_index f [] = None"
| "first_index f (x # xs) = (if f x then Some 0 else map_option Suc (first_index f xs))"

fun sk_delete_ptr :: "('p, 'c) stack option \<Rightarrow> 'p option \<Rightarrow> ('p, 'c) stack option \<times> 'p option" where
  "sk_delete_ptr None p = (None, None)"
| "sk_delete_ptr (Some sk) p =
    (case first_index (\<lambda>e. e = p) (take (num sk) (sk_data sk)) of
       None \<Rightarrow> (Some sk, None)
     | Some i \<Rightarrow> sk_delete (Some sk) i)"

fun sk_is_sorted :: "('p, 'c) stack option \<Rightarrow> bool" where
  "sk_is_sorted None = True"
| "sk_is_sorted (Some sk) = sk_sorted sk"

text \<open>The binary search of \<open>sk_find\<close> on the half-open interval from \<open>lo\<close> to \<open>hi\<close>.\<close>

function find_between :: "('a \<Rightarrow> 'a \<Rightarrow> int) \<Rightarrow> 'a list \<Rightarrow> 'a \<Rightarrow> nat \<Rightarrow> nat \<Rightarrow> nat option" where
  "find_between cmp xs p lo hi =
    (if lo < hi then let
       mid = lo + (hi - lo - 1) div 2;
       r = cmp p (xs ! mid)
     in if 0 < r then find_between cmp xs p (mid + 1) hi
        else if r < 0 then find_between cmp xs p lo mid
        else if hi - lo = 1 then Some mid
        else find_between cmp xs p lo (mid + 1)
     else None)"
  by auto
termination by (relation "measure (\<lambda>(cmp, xs, p, lo, hi). hi - lo)") auto

declare find_between.simps [simp del]

fun sk_find :: "('c \<Rightarrow> 'p option \<Rightarrow> 'p option \<Rightarrow> int) \<Rightarrow> ('p, 'c) stack option \<Rightarrow> 'p option \<Rightarrow> nat option" where
  "sk_find call None p = None"
| "sk_find call (Some sk) p =
    (case sk_comp sk of
       None \<Rightarrow> first_index (\<lambda>e. e = p) (take (num sk) (sk_data sk))
     | Some c \<Rightarrow>
         if p = None then None
         else if \<not> sk_is_sorted (Some sk) then first_index (\<lambda>e. call c p e = 0) (take (num sk) (sk_data sk))
         else find_between (call c) (sk_data sk) p 0 (num sk))"

fun sk_shift :: "('p, 'c) stack option \<Rightarrow> ('p, 'c) stack option \<times> 'p option" where
  "sk_shift None = (None, None)"
| "sk_shift (Some sk) = (if num sk = 0 then (Some sk, None) else sk_delete (Some sk) 0)"

definition sk_push :: "'p slots \<Rightarrow> ('p, 'c) stack \<Rightarrow> 'p option \<Rightarrow> ('p, 'c) stack option \<times> nat" where
  "sk_push env sk p = sk_insert env (Some sk) p (num sk)"

fun sk_pop :: "('p, 'c) stack option \<Rightarrow> ('p, 'c) stack option \<times> 'p option" where
  "sk_pop None = (None, None)"
| "sk_pop (Some sk) = (if num sk = 0 then (Some sk, None) else sk_delete (Some sk) (num sk - 1))"

fun sk_dup :: "'p slots \<Rightarrow> ('p, 'c) stack option \<Rightarrow> ('p, 'c) stack option" where
  "sk_dup env None = None"
| "sk_dup env (Some sk) =
    (case sk_new env (sk_comp sk) of
       None \<Rightarrow> None
     | Some ret \<Rightarrow>
         case realloc_slots env (sk_data ret) (szmul sizeof_ptr (num_alloc sk)) of
           None \<Rightarrow> None
         | Some s \<Rightarrow> Some (ret\<lparr> sk_data := mem_write s 0 (take (num sk) (sk_data sk)), num := num sk,
             sk_sorted := sk_sorted sk, num_alloc := num_alloc sk, sk_comp := sk_comp sk \<rparr>))"

fun sk_sort :: "('c \<Rightarrow> 'p option \<Rightarrow> 'p option \<Rightarrow> int) \<Rightarrow> ('p, 'c) stack option \<Rightarrow> ('p, 'c) stack option" where
  "sk_sort call None = None"
| "sk_sort call (Some sk) =
    (case sk_comp sk of
       None \<Rightarrow> Some sk
     | Some c \<Rightarrow>
         if sk_sorted sk then Some sk
         else let d = (if 2 \<le> num sk then mem_write (sk_data sk) 0 (qsort (call c) (take (num sk) (sk_data sk)))
                       else sk_data sk)
           in Some (sk\<lparr> sk_data := d, sk_sorted := True \<rparr>))"

definition sk_set_cmp_func :: "('p, 'c) stack \<Rightarrow> 'c option \<Rightarrow> ('p, 'c) stack \<times> 'c option" where
  "sk_set_cmp_func sk cmp =
    (let sk' = (if sk_comp sk \<noteq> cmp then sk\<lparr> sk_sorted := False \<rparr> else sk) in (sk'\<lparr> sk_comp := cmp \<rparr>, sk_comp sk))"


text \<open>The loop of \<open>sk_deep_copy\<close>; when copying an element fails, the copies made so far are
  given to the destructor in order.\<close>

fun copy_slots :: "('p \<Rightarrow> 'p option) \<Rightarrow> 'p option list \<Rightarrow> 'p option list \<Rightarrow> 'p list + 'p option list" where
  "copy_slots copy dn [] = Inr dn"
| "copy_slots copy dn (None # xs) = copy_slots copy (dn @ [None]) xs"
| "copy_slots copy dn (Some p # xs) =
    (case copy p of
       None \<Rightarrow> Inl (List.map_filter (\<lambda>p. p) dn)
     | Some q \<Rightarrow> copy_slots copy (dn @ [Some q]) xs)"

definition sk_deep_copy ::
    "'p slots \<Rightarrow> ('p \<Rightarrow> 'p option) \<Rightarrow> ('p, 'c) stack option \<Rightarrow> ('p, 'c) stack option \<times> 'p list" where
  "sk_deep_copy env copy sk =
    (case sk_dup env sk of
       None \<Rightarrow> (None, [])
     | Some ret \<Rightarrow>
         case copy_slots copy [] (take (num ret) (sk_data ret)) of
           Inl freed \<Rightarrow> (None, freed)
         | Inr xs \<Rightarrow> (Some (ret\<lparr> sk_data := mem_write (sk_data ret) 0 xs \<rparr>), []))"

section \<open>Stacks as lists\<close>

definition stack_list :: "('p, 'c) stack \<Rightarrow> 'p option list" where
  "stack_list sk = take (num sk) (sk_data sk)"

definition sk_ok :: "('p, 'c) stack \<Rightarrow> bool" where
  "sk_ok sk \<longleftrightarrow> length (sk_data sk) = num_alloc sk \<and> num sk < num_alloc sk \<and> num_alloc sk * 8 < SIZE_LIMIT"

lemma length_stack_list: "sk_ok sk \<Longrightarrow> length (stack_list sk) = num sk"
  by (simp add: sk_ok_def stack_list_def)

lemma sk_new_ok: "sk_new env cmp = Some sk \<Longrightarrow> sk_ok sk \<and> stack_list sk = [] \<and> sk_comp sk = cmp \<and> \<not> sk_sorted sk"
  by (auto simp: sk_new_def sk_ok_def stack_list_def kMinSize_def SIZE_LIMIT_def split: if_splits)

lemma szmul_8_exact: "szmul n 8 div 8 = n \<longleftrightarrow> n * 8 < SIZE_LIMIT"
proof
  assume *: "szmul n 8 div 8 = n"
  have "n * 8 \<le> szmul n 8" using * div_times_less_eq_dividend [of "szmul n 8" 8] by simp
  also have "szmul n 8 < SIZE_LIMIT" by (simp add: szmul_def)
  finally show "n * 8 < SIZE_LIMIT" .
qed (simp add: size_simps)

lemma length_realloc_slots:
  "realloc_slots env xs sz = Some ys \<Longrightarrow> length ys = sz div 8 \<and> take (min (length xs) (sz div 8)) ys = take (sz div 8) xs"
  by (auto simp: realloc_slots_def sizeof_ptr_def min_def split: if_splits)

lemma grown_slots_Some:
  assumes ok: "sk_ok sk" and g: "grown_slots env sk = Some sk'"
  shows "sk_ok sk' \<and> num sk' = num sk \<and> num sk + 1 < num_alloc sk' \<and> stack_list sk' = stack_list sk \<and> sk_comp sk' = sk_comp sk"
proof (cases "num_alloc sk \<le> num sk + 1")
  case False
  then have "sk' = sk" using g ok
    by (simp add: grown_slots_def szadd_exact sk_ok_def)
  then show ?thesis using ok False by simp
next
  case True
  have n: "num sk + 1 = num_alloc sk" "num_alloc sk * 8 < SIZE_LIMIT" "length (sk_data sk) = num_alloc sk"
    using ok True by (auto simp: sk_ok_def)
  define a where "a = (if szmul (szmul (num_alloc sk) 2) 8 div 8 \<noteq> szmul (num_alloc sk) 2 then num_alloc sk + 1
     else num_alloc sk * 2)"
  have e: "szadd (num sk) 1 = num_alloc sk" "szmul (num_alloc sk) 2 = num_alloc sk * 2"
    "szadd (num_alloc sk) 1 = num_alloc sk + 1"
    using n by (simp_all add: szadd_exact szmul_exact SIZE_LIMIT_def)
  have "\<exists>d. a * 8 < SIZE_LIMIT \<and> realloc_slots env (sk_data sk) (a * 8) = Some d \<and> sk' = sk\<lparr> sk_data := d, num_alloc := a \<rparr>"
    using g unfolding grown_slots_def a_def e
    by (auto simp: e sizeof_ptr_def Let_def szmul_8_exact size_simps split: if_splits option.splits)
  then obtain d where d: "a * 8 < SIZE_LIMIT" "realloc_slots env (sk_data sk) (a * 8) = Some d"
    "sk' = sk\<lparr> sk_data := d, num_alloc := a \<rparr>" by blast
  have "num_alloc sk < a" using n by (auto simp: a_def)
  moreover have "length d = a" "take (num_alloc sk) d = sk_data sk"
    using length_realloc_slots [OF d(2)] n \<open>num_alloc sk < a\<close> by (auto simp: min_def)
  moreover have "take (num sk) d = take (num sk) (sk_data sk)"
    using calculation n by (metis add_leD1 min.absorb1 take_take le_refl)
  ultimately show ?thesis using n d by (simp add: sk_ok_def stack_list_def)
qed

definition list_insert :: "'a list \<Rightarrow> 'a \<Rightarrow> nat \<Rightarrow> 'a list" where
  "list_insert xs x k = take k xs @ [x] @ drop k xs"

lemma sk_insert_spec:
  assumes ok: "sk_ok sk" and ins: "sk_insert env (Some sk) p wh = (r, n)"
  shows "(n = 0 \<and> r = Some sk \<and> grown_slots env sk = None) \<or>
    (\<exists>sk'. r = Some sk' \<and> sk_ok sk' \<and> stack_list sk' = list_insert (stack_list sk) p wh \<and>
       n = num sk' \<and> num sk' = num sk + 1 \<and> \<not> sk_sorted sk' \<and> sk_comp sk' = sk_comp sk)"
proof (cases "grown_slots env sk")
  case None
  then show ?thesis using ins by simp
next
  case (Some s)
  note g = grown_slots_Some [OF ok Some]
  let ?xs = "sk_data s" and ?n = "num sk"
  have l: "stack_list sk = take ?n ?xs" "?n + 1 < length ?xs" "length ?xs = num_alloc s"
    using g by (auto simp: stack_list_def sk_ok_def)
  let ?d = "if ?n \<le> wh then ?xs[?n := p]
    else (mem_write ?xs (wh + 1) (take (?n - wh) (drop wh ?xs)))[wh := p]"
  have r: "r = Some (s\<lparr> sk_data := ?d, num := ?n + 1, sk_sorted := False \<rparr>)" "n = ?n + 1"
    using ins Some g by (auto simp: Let_def)
  have "length ?d = length ?xs" using l(2) by (simp add: mem_simps)
  moreover have "take (?n + 1) ?d = list_insert (take ?n ?xs) p wh"
  proof (cases "?n \<le> wh")
    case True
    then show ?thesis using l(2) by (simp add: list_insert_def take_Suc_conv_app_nth)
  next
    case False
    have "take wh ?xs @ drop wh (take ?n ?xs) = take ?n ?xs"
      using False by (metis append_take_drop_id linorder_not_le min.absorb2 min.commute nat_less_le take_take)
    moreover have "take (?n + 1) ((mem_write ?xs (wh + 1) (take (?n - wh) (drop wh ?xs)))[wh := p]) =
       (take (?n + 1) (mem_write ?xs (wh + 1) (take (?n - wh) (drop wh ?xs))))[wh := p]"
      by (simp add: take_update_swap)
    moreover have "take (?n + 1) (mem_write ?xs (wh + 1) (take (?n - wh) (drop wh ?xs))) =
       take (wh + 1) ?xs @ drop wh (take ?n ?xs)"
      using False l(2) by (simp add: mem_write_def drop_take)
    moreover have "take (wh + 1) ?xs = take wh ?xs @ [?xs ! wh]" "length (take wh ?xs) = wh"
      using False l(2) by (simp_all add: take_Suc_conv_app_nth)
    ultimately show ?thesis using False
      by (simp add: list_insert_def list_update_append min_def)
  qed
  ultimately show ?thesis using r g l by (auto simp: sk_ok_def stack_list_def)
qed

definition list_delete :: "'a list \<Rightarrow> nat \<Rightarrow> 'a list" where
  "list_delete xs k = take k xs @ drop (k + 1) xs"

lemma sk_delete_spec:
  assumes ok: "sk_ok sk" and wh: "wh < num sk"
  shows "\<exists>sk'. sk_delete (Some sk) wh = (Some sk', stack_list sk ! wh) \<and> sk_ok sk' \<and>
    stack_list sk' = list_delete (stack_list sk) wh \<and> num sk' = num sk - 1 \<and>
    sk_sorted sk' = sk_sorted sk \<and> sk_comp sk' = sk_comp sk"
proof -
  let ?xs = "sk_data sk" and ?n = "num sk"
  have n: "?n < length ?xs" using ok by (simp add: sk_ok_def)
  let ?d = "if wh \<noteq> ?n - 1 then mem_write ?xs wh (take (?n - wh - 1) (drop (wh + 1) ?xs)) else ?xs"
  have "length ?d = length ?xs" using n wh by (simp add: mem_simps)
  moreover have "take (?n - 1) ?d = list_delete (take ?n ?xs) wh"
    using n wh by (auto simp: list_delete_def mem_write_def min_def drop_take)
  moreover have "?n - 1 < num_alloc sk" using ok by (auto simp: sk_ok_def)
  ultimately show ?thesis using ok wh by (simp add: sk_ok_def stack_list_def Let_def)
qed


section \<open>Searching\<close>

text \<open>The first index a test accepts, as the loops report it.\<close>

lemma first_index_Some:
  "first_index f xs = Some i \<longleftrightarrow> i < length xs \<and> f (xs ! i) \<and> (\<forall>j<i. \<not> f (xs ! j))"
proof (induction xs arbitrary: i)
  case (Cons x xs)
  show ?case
  proof (cases i)
    case 0
    then show ?thesis by auto
  next
    case (Suc k)
    have "(\<forall>j<Suc k. \<not> f ((x # xs) ! j)) \<longleftrightarrow> \<not> f x \<and> (\<forall>j<k. \<not> f (xs ! j))"
      by (auto simp: less_Suc_eq_0_disj)
    then show ?thesis using Cons Suc by auto
  qed
qed simp

lemma first_index_None: "first_index f xs = None \<longleftrightarrow> (\<forall>x\<in>set xs. \<not> f x)"
  by (induction xs) auto

lemma first_index_cong_Some:
  assumes "i < length xs" "f (xs ! i)" "\<And>j. j < i \<Longrightarrow> \<not> f (xs ! j)"
  shows "first_index f xs = Some i"
  using assms by (simp add: first_index_Some)

context comparator begin

text \<open>The binary search finds the first match of an ordered list, as the linear one does.\<close>

lemma find_between_first:
  assumes "ordered cmp xs" and "lo \<le> hi" and "hi \<le> length xs"
    and "\<forall>i<lo. cmp p (xs ! i) \<noteq> 0"
    and "(\<exists>i<hi. cmp p (xs ! i) = 0) \<or> (\<forall>i<length xs. hi \<le> i \<longrightarrow> cmp p (xs ! i) \<noteq> 0)"
  shows "find_between cmp xs p lo hi = first_index (\<lambda>x. cmp p x = 0) xs"
  using assms(2-5)
proof (induction "hi - lo" arbitrary: lo hi rule: less_induct)
  case less
  let ?mid = "lo + (hi - lo - 1) div 2"
  show ?case
  proof (cases "lo < hi")
    case False
    then have "lo = hi" using less.prems(1) by simp
    then have "\<forall>i<length xs. cmp p (xs ! i) \<noteq> 0" using less.prems(3,4) by (metis linorder_not_le)
    then have "first_index (\<lambda>x. cmp p x = 0) xs = None" by (auto simp: first_index_None in_set_conv_nth)
    then show ?thesis using False by (simp add: find_between.simps [of cmp xs p lo hi])
  next
    case True
    have mid: "lo \<le> ?mid" "?mid < hi" "?mid < length xs" using True less.prems(2) by auto
    consider "0 < cmp p (xs ! ?mid)" | "cmp p (xs ! ?mid) < 0"
      | "cmp p (xs ! ?mid) = 0" "hi - lo = 1" | "cmp p (xs ! ?mid) = 0" "hi - lo \<noteq> 1" by linarith
    then show ?thesis
    proof cases
      case 1
      then have "\<forall>i<?mid + 1. cmp p (xs ! i) \<noteq> 0"
        using probe_above [OF assms(1) 1 _ mid(3)] by (metis Suc_eq_plus1 less_Suc_eq_le less_irrefl)
      then have "find_between cmp xs p (?mid + 1) hi = first_index (\<lambda>x. cmp p x = 0) xs"
        using less.prems mid by (intro less.hyps) auto
      then show ?thesis using 1 True by (simp add: find_between.simps [of cmp xs p lo hi] Let_def)
    next
      case 2
      then have "\<forall>i<length xs. ?mid \<le> i \<longrightarrow> cmp p (xs ! i) \<noteq> 0"
        using probe_below [OF assms(1) 2] by fastforce
      then have "find_between cmp xs p lo ?mid = first_index (\<lambda>x. cmp p x = 0) xs"
        using less.prems mid by (intro less.hyps) auto
      then show ?thesis using 2 True by (simp add: find_between.simps [of cmp xs p lo hi] Let_def)
    next
      case 3
      then have "first_index (\<lambda>x. cmp p x = 0) xs = Some ?mid"
        using less.prems mid by (intro first_index_cong_Some) auto
      then show ?thesis using 3 True by (simp add: find_between.simps [of cmp xs p lo hi] Let_def)
    next
      case 4
      have "find_between cmp xs p lo (?mid + 1) = first_index (\<lambda>x. cmp p x = 0) xs"
        using less.prems mid 4 by (intro less.hyps disjI1 exI [of _ ?mid]) auto
      then show ?thesis using 4 True by (simp add: find_between.simps [of cmp xs p lo hi] Let_def)
    qed
  qed
qed

end

lemma find_between_take:
  "hi \<le> n \<Longrightarrow> find_between cmp (take n xs) p lo hi = find_between cmp xs p lo hi"
proof (induction "hi - lo" arbitrary: lo hi rule: less_induct)
  case less
  let ?mid = "lo + (hi - lo - 1) div 2"
  show ?case
  proof (cases "lo < hi")
    case True
    have "find_between cmp (take n xs) p (?mid + 1) hi = find_between cmp xs p (?mid + 1) hi"
      using True less.prems by (intro less.hyps) auto
    moreover have "find_between cmp (take n xs) p lo ?mid = find_between cmp xs p lo ?mid"
      using True less.prems by (intro less.hyps) auto
    moreover have "hi - lo \<noteq> 1 \<Longrightarrow> find_between cmp (take n xs) p lo (?mid + 1) = find_between cmp xs p lo (?mid + 1)"
      using True less.prems by (intro less.hyps) auto
    moreover have "take n xs ! ?mid = xs ! ?mid"
      using True less.prems by (intro nth_take) auto
    ultimately show ?thesis
      by (simp only: find_between.simps [of cmp "take n xs" p lo hi] find_between.simps [of cmp xs p lo hi] Let_def)
        simp
  qed (simp add: find_between.simps)
qed

lemma find_between_linear:
  assumes "comparator cmp" and "ordered cmp (take n xs)" and "n \<le> length xs"
  shows "find_between cmp xs p 0 n = first_index (\<lambda>x. cmp p x = 0) (take n xs)"
  using comparator.find_between_first [OF assms(1,2), of 0 n p] assms(3)
  by (simp add: find_between_take)

text \<open>The stack is sorted when its flag says so.\<close>

definition sorted_ok :: "('c \<Rightarrow> 'p option \<Rightarrow> 'p option \<Rightarrow> int) \<Rightarrow> ('p, 'c) stack \<Rightarrow> bool" where
  "sorted_ok call sk \<longleftrightarrow> (sk_sorted sk \<longrightarrow> (\<exists>c. sk_comp sk = Some c \<and> ordered (call c) (stack_list sk)))"

lemma sk_find_linear:
  assumes "\<And>c. comparator (call c)" and "sk_ok sk" and "sorted_ok call sk"
  shows "sk_find call (Some sk) p =
    (case sk_comp sk of None \<Rightarrow> first_index (\<lambda>e. e = p) (stack_list sk)
     | Some c \<Rightarrow> if p = None then None else first_index (\<lambda>e. call c p e = 0) (stack_list sk))"
  using assms find_between_linear [OF assms(1), of _ "num sk" "sk_data sk"]
  by (auto simp: sorted_ok_def stack_list_def sk_ok_def split: option.splits)

lemma ordered_list_delete: "ordered cmp xs \<Longrightarrow> ordered cmp (list_delete xs k)"
proof -
  assume o: "ordered cmp xs"
  have "sorted_wrt (\<lambda>x y. cmp x y \<le> 0) (take k xs @ drop k xs)" using o by (simp add: ordered_def)
  moreover have "drop (k + 1) xs = drop 1 (drop k xs)" by simp
  ultimately show ?thesis unfolding list_delete_def ordered_def
    by (metis (no_types, lifting) in_set_dropD sorted_wrt_append sorted_wrt_drop)
qed

lemma sk_dup_spec:
  assumes "sk_ok sk" and "sk_dup env (Some sk) = Some sk'"
  shows "sk_ok sk' \<and> stack_list sk' = stack_list sk \<and> sk_sorted sk' = sk_sorted sk \<and> sk_comp sk' = sk_comp sk"
proof -
  obtain r d where r: "sk_new env (sk_comp sk) = Some r" "realloc_slots env (sk_data r) (szmul 8 (num_alloc sk)) = Some d"
    and sk': "sk' = r\<lparr> sk_data := mem_write d 0 (take (num sk) (sk_data sk)), num := num sk,
      sk_sorted := sk_sorted sk, num_alloc := num_alloc sk, sk_comp := sk_comp sk \<rparr>"
    using assms(2) by (auto simp: sizeof_ptr_def split: option.splits)
  have "length d = num_alloc sk" using length_realloc_slots [OF r(2)] assms(1)
    by (simp add: sk_ok_def szmul_exact mult.commute)
  then show ?thesis using assms(1) by (auto simp: sk' sk_ok_def stack_list_def mem_write_0)
qed

lemma copy_slots_spec:
  "case copy_slots copy dn xs of
     Inr ys \<Rightarrow> ys = dn @ map (\<lambda>p. Option.bind p copy) xs \<and> (\<forall>q. Some q \<in> set xs \<longrightarrow> copy q \<noteq> None)
   | Inl freed \<Rightarrow> \<exists>i q. i < length xs \<and> xs ! i = Some q \<and> copy q = None \<and>
       freed = List.map_filter (\<lambda>p. p) (dn @ map (\<lambda>p. Option.bind p copy) (take i xs))"
proof (induction copy dn xs rule: copy_slots.induct)
  case (2 copy dn xs)
  then show ?case by (fastforce split: sum.splits intro: exI [of _ "Suc _"])
next
  case (3 copy dn p xs)
  show ?case
  proof (cases "copy p")
    case None
    then show ?thesis by (auto intro!: exI [of _ 0])
  next
    case (Some q)
    then show ?thesis using 3 [OF Some]
      by (fastforce split: sum.splits intro: exI [of _ "Suc _"])
  qed
qed simp

lemma sk_deep_copy_spec:
  assumes "sk_ok sk" and "sk_deep_copy env copy (Some sk) = (Some sk', freed)"
  shows "sk_ok sk' \<and> stack_list sk' = map (\<lambda>p. Option.bind p copy) (stack_list sk) \<and> sk_sorted sk' = sk_sorted sk \<and> sk_comp sk' = sk_comp sk"
proof -
  obtain d where d: "sk_dup env (Some sk) = Some d" using assms(2) by (auto simp: sk_deep_copy_def split: option.splits)
  note dup = sk_dup_spec [OF assms(1) d]
  obtain ys where ys: "copy_slots copy [] (stack_list d) = Inr ys" and sk': "sk' = d\<lparr> sk_data := mem_write (sk_data d) 0 ys \<rparr>"
    using assms(2) d by (auto simp: sk_deep_copy_def stack_list_def split: sum.splits)
  have e: "ys = map (\<lambda>p. Option.bind p copy) (stack_list sk)"
    using ys copy_slots_spec [where copy = copy and dn = "[]" and xs = "stack_list d"] dup by auto
  have "length ys = num d" using e dup length_stack_list [of d] by simp
  then show ?thesis using dup e by (auto simp: sk' sk_ok_def stack_list_def mem_write_0 mem_simps)
qed

section \<open>Every sequence of calls\<close>

text \<open>The calls a program can make on a stack it created.  \<open>sk_set\<close> and \<open>sk_deep_copy\<close> leave the sorted flag as it is; a caller of
  \<open>sk_set\<close> has to keep a sorted stack in order, and copies have to compare as the originals do.\<close>

inductive sk_step :: "('c \<Rightarrow> 'p option \<Rightarrow> 'p option \<Rightarrow> int) \<Rightarrow> ('p, 'c) stack \<Rightarrow> ('p, 'c) stack \<Rightarrow> bool"
  for call where
  insert: "sk_insert env (Some sk) p wh = (Some sk', n) \<Longrightarrow> sk_step call sk sk'"
| delete: "sk_delete (Some sk) wh = (Some sk', p) \<Longrightarrow> sk_step call sk sk'"
| delete_ptr: "sk_delete_ptr (Some sk) q = (Some sk', p) \<Longrightarrow> sk_step call sk sk'"
| shift: "sk_shift (Some sk) = (Some sk', p) \<Longrightarrow> sk_step call sk sk'"
| push: "sk_push env sk q = (Some sk', n) \<Longrightarrow> sk_step call sk sk'"
| pop: "sk_pop (Some sk) = (Some sk', p) \<Longrightarrow> sk_step call sk sk'"
| zero: "sk_zero (Some sk) = Some sk' \<Longrightarrow> sk_step call sk sk'"
| sort: "sk_sort call (Some sk) = Some sk' \<Longrightarrow> sk_step call sk sk'"
| dup: "sk_dup env (Some sk) = Some sk' \<Longrightarrow> sk_step call sk sk'"
| set: "sk_set (Some sk) i v = (Some sk', r) \<Longrightarrow>
    (\<And>c. sk_sorted sk \<Longrightarrow> sk_comp sk = Some c \<Longrightarrow> ordered (call c) (stack_list sk')) \<Longrightarrow> sk_step call sk sk'"
| deep_copy: "sk_deep_copy env copy (Some sk) = (Some sk', freed) \<Longrightarrow>
    (\<And>c x y. x \<in> set (stack_list sk) \<Longrightarrow> y \<in> set (stack_list sk) \<Longrightarrow>
      call c (Option.bind x copy) (Option.bind y copy) = call c x y) \<Longrightarrow> sk_step call sk sk'"
| set_cmp: "sk_set_cmp_func sk c = (sk', old) \<Longrightarrow> sk_step call sk sk'"

inductive_cases sk_stepE: "sk_step call sk sk'"

definition sk_inv :: "('c \<Rightarrow> 'p option \<Rightarrow> 'p option \<Rightarrow> int) \<Rightarrow> ('p, 'c) stack \<Rightarrow> bool" where
  "sk_inv call sk \<longleftrightarrow> sk_ok sk \<and> sorted_ok call sk"

lemma delete_inv:
  assumes "sk_inv call sk" and "sk_delete (Some sk) wh = (r, p)"
  shows "\<exists>sk'. r = Some sk' \<and> sk_inv call sk'"
proof (cases "wh < num sk")
  case True
  then show ?thesis
    using sk_delete_spec [of sk wh] assms ordered_list_delete
    by (fastforce simp: sk_inv_def sorted_ok_def)
qed (use assms in auto)

lemma insert_inv:
  "sk_inv call sk \<Longrightarrow> sk_insert env (Some sk) p wh = (r, n) \<Longrightarrow> \<exists>sk'. r = Some sk' \<and> sk_inv call sk'"
  using sk_insert_spec [of sk env p wh r n] by (auto simp: sk_inv_def sorted_ok_def)

lemma stack_list_sorted:
  "sk_ok sk \<Longrightarrow> 2 \<le> num sk \<Longrightarrow>
    take (num sk) (mem_write (sk_data sk) 0 (qsort c (take (num sk) (sk_data sk)))) = qsort c (stack_list sk)"
  by (simp add: sk_ok_def stack_list_def mem_write_0 min_def)

lemma sort_inv:
  assumes c: "\<And>c. comparator (call c)" and inv: "sk_inv call sk" and s: "sk_sort call (Some sk) = Some sk'"
  shows "sk_inv call sk'"
proof (cases "sk_comp sk = None \<or> sk_sorted sk")
  case True
  then show ?thesis using inv s by (auto split: option.splits)
next
  case False
  then obtain f where f: "sk_comp sk = Some f" "\<not> sk_sorted sk" by auto
  have ok: "sk_ok sk" using inv by (simp add: sk_inv_def)
  show ?thesis
  proof (cases "2 \<le> num sk")
    case True
    have "ordered (call f) (qsort (call f) (stack_list sk))" by (rule comparator.ordered_qsort [OF c])
    then show ?thesis using s f True ok stack_list_sorted [OF ok True]
      by (auto simp: sk_inv_def sorted_ok_def sk_ok_def stack_list_def mem_simps min_def)
  next
    case two: False
    then have "ordered (call f) (stack_list sk)"
      using length_stack_list [OF ok] by (cases "stack_list sk" rule: remdups_adj.cases) (auto simp: ordered_def)
    then show ?thesis using s f two ok by (auto simp: sk_inv_def sorted_ok_def sk_ok_def stack_list_def)
  qed
qed


lemma zero_inv: "sk_inv call sk \<Longrightarrow> sk_zero (Some sk) = Some sk' \<Longrightarrow> sk_inv call sk'"
  by (auto simp: sk_inv_def sk_ok_def sorted_ok_def stack_list_def mem_simps split: if_splits)

lemma dup_inv: "sk_inv call sk \<Longrightarrow> sk_dup env (Some sk) = Some sk' \<Longrightarrow> sk_inv call sk'"
  using sk_dup_spec [of sk env sk'] by (simp add: sk_inv_def sorted_ok_def)

lemma set_cmp_inv: "sk_inv call sk \<Longrightarrow> sk_set_cmp_func sk c = (sk', old) \<Longrightarrow> sk_inv call sk'"
  by (auto simp: sk_inv_def sk_ok_def sorted_ok_def sk_set_cmp_func_def stack_list_def Let_def)

lemma delete_ptr_inv:
  assumes "sk_inv call sk" and "sk_delete_ptr (Some sk) q = (r, p)"
  shows "\<exists>sk'. r = Some sk' \<and> sk_inv call sk'"
  using assms delete_inv [OF assms(1)] by (auto split: option.splits simp del: sk_delete.simps)

lemma set_inv:
  assumes "sk_inv call sk" "sk_set (Some sk) i v = (Some sk', r)"
    and "\<And>c. sk_sorted sk \<Longrightarrow> sk_comp sk = Some c \<Longrightarrow> ordered (call c) (stack_list sk')"
  shows "sk_inv call sk'"
proof -
  have "sk_ok sk' \<and> sk_sorted sk' = sk_sorted sk \<and> sk_comp sk' = sk_comp sk"
    using assms(1,2) by (auto simp: sk_inv_def sk_ok_def split: if_splits)
  then show ?thesis using assms(1,3) by (auto simp: sk_inv_def sorted_ok_def)
qed

lemma deep_copy_inv:
  assumes inv: "sk_inv call sk" and run: "sk_deep_copy env copy (Some sk) = (Some sk', freed)"
    and alike: "\<And>c x y. x \<in> set (stack_list sk) \<Longrightarrow> y \<in> set (stack_list sk) \<Longrightarrow>
      call c (Option.bind x copy) (Option.bind y copy) = call c x y"
  shows "sk_inv call sk'"
proof -
  have spec: "sk_ok sk'" "stack_list sk' = map (\<lambda>p. Option.bind p copy) (stack_list sk)" "sk_sorted sk' = sk_sorted sk" "sk_comp sk' = sk_comp sk"
    using sk_deep_copy_spec [OF _ run] inv by (simp_all add: sk_inv_def)
  have "ordered (call c) (stack_list sk')" if "ordered (call c) (stack_list sk)" for c
    using that sorted_wrt_mono_rel [of "stack_list sk" "\<lambda>x y. call c x y \<le> 0" "\<lambda>x y. call c (Option.bind x copy) (Option.bind y copy) \<le> 0"] alike
    by (simp add: ordered_def spec(2) sorted_wrt_map)
  then show ?thesis using inv spec by (auto simp: sk_inv_def sorted_ok_def)
qed

lemma sk_step_inv:
  assumes "\<And>c. comparator (call c)" and "sk_inv call sk" and "sk_step call sk sk'"
  shows "sk_inv call sk'"
  using assms(3)
proof cases
  case (shift p)
  then show ?thesis using delete_inv [OF assms(2)] assms(2)
    by (auto split: if_splits simp del: sk_delete.simps)
next
  case (pop p)
  then show ?thesis using delete_inv [OF assms(2)] assms(2)
    by (auto split: if_splits simp del: sk_delete.simps)
next
  case (push env q n)
  then show ?thesis using insert_inv [OF assms(2)] unfolding sk_push_def by blast
next
  case (insert env p wh n)
  then show ?thesis using insert_inv [OF assms(2)] by blast
next
  case (delete wh p)
  then show ?thesis using delete_inv [OF assms(2)] by blast
next
  case (delete_ptr q p)
  then show ?thesis using delete_ptr_inv [OF assms(2)] by blast
next
  case (set i v r)
  then show ?thesis using set_inv [OF assms(2) set(1)] by blast
next
  case (deep_copy env copy freed)
  then show ?thesis using deep_copy_inv [OF assms(2) deep_copy(1)] by blast
qed (use assms zero_inv sort_inv dup_inv set_cmp_inv in blast)+

lemma sk_reachable_inv:
  assumes "\<And>c. comparator (call c)" and "sk_new env cmp = Some sk0" and "(sk_step call)\<^sup>*\<^sup>* sk0 sk"
  shows "sk_inv call sk"
  using assms(3)
proof (induction rule: rtranclp_induct)
  case base
  then show ?case using sk_new_ok [OF assms(2)] by (simp add: sk_inv_def sorted_ok_def)
next
  case (step sk sk')
  show ?case by (rule sk_step_inv [OF _ step.IH step.hyps(2)]) (rule assms(1))
qed

text \<open>C16. On a stack reached by any calls, in which \<open>sk_set\<close> keeps a sorted stack in order and copies compare as the originals,
  \<open>sk_find\<close> returns the earliest match, whether it searches linearly or, on a sorted stack, by bisection: the sorted flag is
  only ever set on data that is in order.  With a comparison function, \<open>NULL\<close> is never found.\<close>

theorem sk_find_earliest:
  assumes "\<And>c. comparator (call c)" and "sk_new env cmp = Some sk0" and "(sk_step call)\<^sup>*\<^sup>* sk0 sk"
  shows "sk_find call (Some sk) p =
    (case sk_comp sk of None \<Rightarrow> first_index (\<lambda>e. e = p) (stack_list sk)
     | Some c \<Rightarrow> if p = None then None else first_index (\<lambda>e. call c p e = 0) (stack_list sk))"
proof (rule sk_find_linear)
  have "sk_inv call sk" by (rule sk_reachable_inv [OF _ assms(2,3)]) (rule assms(1))
  then show "sk_ok sk" "sorted_ok call sk" by (simp_all add: sk_inv_def)
qed (rule assms(1))

text \<open>Pointers to numbers, compared by value, for the examples.\<close>

definition cmp_values :: "unit \<Rightarrow> int option \<Rightarrow> int option \<Rightarrow> int" where
  "cmp_values c p q = the p - the q"

lemma comparator_values: "comparator (cmp_values c)"
  by standard (auto simp: cmp_values_def sgn_if)

lemma sk_find_earliest_witness:
  "sk_find cmp_values (sk_sort cmp_values (fst (sk_push \<lparr> grants = \<lambda>_. True, fresh_slot = \<lambda>_. None \<rparr>
      \<lparr> num = 0, sk_data = replicate 4 None, sk_sorted = False, num_alloc = 4, sk_comp = Some () \<rparr> (Some 7)))) (Some 7) = Some 0"
proof -
  let ?env = "\<lparr> grants = \<lambda>_. True, fresh_slot = \<lambda>_. None \<rparr> :: int slots"
  let ?s0 = "\<lparr> num = 0, sk_data = replicate 4 None, sk_sorted = False, num_alloc = 4, sk_comp = Some () \<rparr>"
  let ?s1 = "?s0 \<lparr> num := 1, sk_data := [Some 7, None, None, None] \<rparr>"
  let ?s2 = "?s1 \<lparr> sk_sorted := True \<rparr>"
  have n: "sk_new ?env (Some ()) = Some ?s0" by (simp add: sk_new_def kMinSize_def)
  have "grown_slots ?env ?s0 = Some ?s0" by (simp add: grown_slots_def szadd_exact SIZE_LIMIT_def)
  then have p: "sk_push ?env ?s0 (Some 7) = (Some ?s1, 1)" by (simp add: sk_push_def eval_nat_numeral)
  have s: "sk_sort cmp_values (Some ?s1) = Some ?s2" by simp
  have "(sk_step cmp_values)\<^sup>*\<^sup>* ?s0 ?s2"
    using sk_step.push [OF p, of cmp_values] sk_step.sort [OF s] by (meson r_into_rtranclp rtranclp.rtrancl_into_rtrancl)
  from sk_find_earliest [OF comparator_values n this, of "Some 7"] show ?thesis
    by (simp add: p stack_list_def cmp_values_def)
qed


text \<open>C37. The stack operations implement the operations on the list of their elements: insertion
  shifts the tail up (and grows the array) or changes nothing when memory runs out, deletion
  closes the gap, popping and shifting take the ends, and indexing is bounded.\<close>

theorem stack_refines_lists:
  assumes "sk_ok sk"
  shows "(case sk_insert env (Some sk) p k of
       (Some sk', n) \<Rightarrow> (n = 0 \<and> sk' = sk) \<or> (sk_ok sk' \<and> stack_list sk' = list_insert (stack_list sk) p k \<and> n = num sk')
     | (None, n) \<Rightarrow> False) \<and>
    (case sk_delete (Some sk) k of
       (Some sk', q) \<Rightarrow> if k < num sk then stack_list sk' = list_delete (stack_list sk) k \<and> q = stack_list sk ! k
                        else sk' = sk \<and> q = None
     | (None, q) \<Rightarrow> False) \<and>
    (stack_list sk \<noteq> [] \<longrightarrow> (case sk_pop (Some sk) of
       (Some sk', q) \<Rightarrow> stack_list sk' = butlast (stack_list sk) \<and> q = last (stack_list sk) | _ \<Rightarrow> False)) \<and>
    (stack_list sk \<noteq> [] \<longrightarrow> (case sk_shift (Some sk) of
       (Some sk', q) \<Rightarrow> stack_list sk' = tl (stack_list sk) \<and> q = hd (stack_list sk) | _ \<Rightarrow> False)) \<and>
    sk_value (Some sk) k = (if k < length (stack_list sk) then stack_list sk ! k else None)"
proof (intro conjI)
  have len: "length (stack_list sk) = num sk" by (rule length_stack_list [OF assms])
  show "case sk_insert env (Some sk) p k of
       (Some sk', n) \<Rightarrow> (n = 0 \<and> sk' = sk) \<or> (sk_ok sk' \<and> stack_list sk' = list_insert (stack_list sk) p k \<and> n = num sk')
     | (None, n) \<Rightarrow> False"
    using sk_insert_spec [OF assms, of env p k] by (cases "sk_insert env (Some sk) p k") auto
  show "case sk_delete (Some sk) k of
       (Some sk', q) \<Rightarrow> if k < num sk then stack_list sk' = list_delete (stack_list sk) k \<and> q = stack_list sk ! k
                        else sk' = sk \<and> q = None
     | (None, q) \<Rightarrow> False"
  proof (cases "k < num sk")
    case True
    then show ?thesis using sk_delete_spec [OF assms True] by (auto simp del: sk_delete.simps)
  qed simp
  show "stack_list sk \<noteq> [] \<longrightarrow> (case sk_pop (Some sk) of
       (Some sk', q) \<Rightarrow> stack_list sk' = butlast (stack_list sk) \<and> q = last (stack_list sk) | _ \<Rightarrow> False)"
  proof
    assume ne: "stack_list sk \<noteq> []"
    then have n: "num sk - 1 < num sk" using len by (metis diff_less length_greater_0_conv zero_less_one)
    then obtain sk' where "sk_delete (Some sk) (num sk - 1) = (Some sk', stack_list sk ! (num sk - 1))"
      "stack_list sk' = list_delete (stack_list sk) (num sk - 1)"
      using sk_delete_spec [OF assms n] by blast
    moreover have "list_delete (stack_list sk) (num sk - 1) = butlast (stack_list sk)"
      using n by (simp add: list_delete_def butlast_conv_take len)
    ultimately show "case sk_pop (Some sk) of
       (Some sk', q) \<Rightarrow> stack_list sk' = butlast (stack_list sk) \<and> q = last (stack_list sk) | _ \<Rightarrow> False"
      using n ne by (simp add: last_conv_nth len del: sk_delete.simps)
  qed
  show "stack_list sk \<noteq> [] \<longrightarrow> (case sk_shift (Some sk) of
       (Some sk', q) \<Rightarrow> stack_list sk' = tl (stack_list sk) \<and> q = hd (stack_list sk) | _ \<Rightarrow> False)"
  proof
    assume ne: "stack_list sk \<noteq> []"
    then have n: "0 < num sk" using len by (metis length_greater_0_conv)
    then obtain sk' where "sk_delete (Some sk) 0 = (Some sk', stack_list sk ! 0)"
      "stack_list sk' = list_delete (stack_list sk) 0"
      using sk_delete_spec [OF assms n] by blast
    then show "case sk_shift (Some sk) of
       (Some sk', q) \<Rightarrow> stack_list sk' = tl (stack_list sk) \<and> q = hd (stack_list sk) | _ \<Rightarrow> False"
      using n ne by (simp add: list_delete_def hd_conv_nth drop_Suc del: sk_delete.simps)
  qed
  show "sk_value (Some sk) k = (if k < length (stack_list sk) then stack_list sk ! k else None)"
    using len by (simp add: stack_list_def)
qed

definition three_numbers :: "(int, unit) stack" where
  "three_numbers = \<lparr> num = 3, sk_data = [Some 1, Some 2, Some 3, None], sk_sorted = True,
     num_alloc = 4, sk_comp = Some () \<rparr>"

lemma stack_refines_lists_witness:
  "sk_ok three_numbers \<and> stack_list (the (fst (sk_pop (Some three_numbers)))) = [Some 1, Some 2]"
proof -
  have ok: "sk_ok three_numbers" by (simp add: three_numbers_def sk_ok_def SIZE_LIMIT_def)
  show ?thesis using stack_refines_lists [OF ok, where env = "\<lparr> grants = \<lambda>_. True, fresh_slot = \<lambda>_. None \<rparr>" and p = None and k = 0] ok
    by (simp add: three_numbers_def stack_list_def eval_nat_numeral)
qed

text \<open>\<open>sk_set\<close> does not clear the sorted flag: on a stack in order it can leave a stack on
  which \<open>sk_find\<close> does not find a value that \<open>sk_value\<close> returns.\<close>

theorem sk_set_hides_element:
  "sk_inv cmp_values three_numbers \<and>
   (case sk_set (Some three_numbers) 0 (Some 5) of
      (sk, _) \<Rightarrow> sk_value sk 0 = Some 5 \<and> sk_is_sorted sk \<and> sk_find cmp_values sk (Some 5) = None)"
  by (simp add: three_numbers_def sk_inv_def sk_ok_def sorted_ok_def stack_list_def ordered_def cmp_values_def
     SIZE_LIMIT_def find_between.simps)

section \<open>Deep copies\<close>

text \<open>C38. \<open>sk_deep_copy\<close> copies every non-null element and keeps the null ones; when copying an
  element fails, exactly the copies made before it are given to the destructor, each once.\<close>

theorem sk_deep_copy_outcomes:
  assumes "sk_ok sk" and "sk_deep_copy env copy (Some sk) = (r, freed)"
  shows "case r of
      Some sk' \<Rightarrow> freed = [] \<and> stack_list sk' = map (\<lambda>p. Option.bind p copy) (stack_list sk) \<and>
        (\<forall>q. Some q \<in> set (stack_list sk) \<longrightarrow> copy q \<noteq> None)
    | None \<Rightarrow> (sk_dup env (Some sk) = None \<and> freed = []) \<or>
        (\<exists>i q. i < num sk \<and> stack_list sk ! i = Some q \<and> copy q = None \<and>
          freed = List.map_filter (\<lambda>p. p) (map (\<lambda>p. Option.bind p copy) (take i (stack_list sk))))"
proof (cases "sk_dup env (Some sk)")
  case None
  then show ?thesis using assms(2) by (auto simp: sk_deep_copy_def)
next
  case (Some d)
  note dup = sk_dup_spec [OF assms(1) Some]
  have n: "num d = num sk" using dup length_stack_list assms(1) by metis
  show ?thesis
  proof (cases "copy_slots copy [] (stack_list d)")
    case (Inl fs)
    then have "r = None" "freed = fs"
      using assms(2) Some by (auto simp: sk_deep_copy_def stack_list_def)
    moreover have "\<exists>i q. i < length (stack_list d) \<and> stack_list d ! i = Some q \<and> copy q = None \<and>
        fs = List.map_filter (\<lambda>p. p) (map (\<lambda>p. Option.bind p copy) (take i (stack_list d)))"
      using Inl copy_slots_spec [where copy = copy and dn = "[]" and xs = "stack_list d"] by simp
    moreover have "stack_list d = stack_list sk" "length (stack_list d) = num sk"
      using dup length_stack_list [OF assms(1)] by simp_all
    ultimately show ?thesis by simp
  next
    case (Inr ys)
    then have ys: "ys = map (\<lambda>p. Option.bind p copy) (stack_list sk)" "\<forall>q. Some q \<in> set (stack_list sk) \<longrightarrow> copy q \<noteq> None"
      using copy_slots_spec [where copy = copy and dn = "[]" and xs = "stack_list d"] dup by auto
    then have "length ys = num d" using length_stack_list [OF assms(1)] n by simp
    then have "stack_list (d\<lparr> sk_data := mem_write (sk_data d) 0 ys \<rparr>) = ys"
      by (simp add: stack_list_def mem_write_0)
    moreover have "r = Some (d\<lparr> sk_data := mem_write (sk_data d) 0 ys \<rparr>)" "freed = []"
      using assms(2) Some Inr by (auto simp: sk_deep_copy_def stack_list_def)
    ultimately show ?thesis using ys by simp
  qed
qed

lemma sk_deep_copy_outcomes_witness:
  "sk_deep_copy \<lparr> grants = \<lambda>_. True, fresh_slot = \<lambda>_. None \<rparr> (\<lambda>n. if n = 3 then None else Some (n + 10)) (Some three_numbers)
     = (None, [11, 12])"
proof -
  let ?env = "\<lparr> grants = \<lambda>_. True, fresh_slot = \<lambda>_. None \<rparr> :: int slots"
  let ?copy = "\<lambda>n :: int. if n = 3 then None else Some (n + 10)"
  have ok: "sk_ok three_numbers" by (simp add: three_numbers_def sk_ok_def SIZE_LIMIT_def)
  obtain r freed where e: "sk_deep_copy ?env ?copy (Some three_numbers) = (r, freed)" by fastforce
  have l: "stack_list three_numbers = [Some 1, Some 2, Some 3]" by (simp add: three_numbers_def stack_list_def eval_nat_numeral)
  have d: "sk_dup ?env (Some three_numbers) \<noteq> None" by (simp add: three_numbers_def sk_new_def realloc_slots_def)
  have "r = None" using sk_deep_copy_outcomes [OF ok e] l by (auto split: option.splits)
  then obtain i q where i: "i < 3" "[Some 1, Some 2, Some 3] ! i = Some q" "?copy q = None"
      "freed = List.map_filter (\<lambda>p. p) (map (\<lambda>p. Option.bind p ?copy) (take i [Some 1, Some 2, Some 3]))"
    using sk_deep_copy_outcomes [OF ok e] d by (auto simp: l three_numbers_def [THEN arg_cong, of num] simp del: sk_dup.simps)
  then have "i = 0 \<or> i = 1 \<or> i = 2" by auto
  then have "freed = [11, 12]" using i by (auto simp: List.map_filter_simps)
  then show ?thesis using e \<open>r = None\<close> by simp
qed

end
