(* ===== verification/Lhash.thy ===== *)
theory Lhash
  imports Mem "HOL-Library.Multiset"
begin

text \<open>
  The chained hash table of \<open>crypto/lhash/lhash.c\<close>.  A chain is the list of its items; a
  pointer to a \<open>next\<close> field, which the C code uses as a position, is the number of items before
  it in its chain.  The hash and comparison functions are the table's fields; whether the allocator
  grants a request is a parameter of the operations that allocate.
\<close>

section \<open>Operations\<close>

record 'd lhash_item =
  item_data :: 'd
  item_hash :: u32

record 'd lhash =
  num_items :: nat
  buckets :: "'d lhash_item list list"
  num_buckets :: nat
  callback_depth :: u32
  lh_comp :: "'d \<Rightarrow> 'd \<Rightarrow> int"
  lh_hash :: "'d \<Rightarrow> u32"

definition kMinNumBuckets :: nat where
  "kMinNumBuckets = 16"

definition kMaxAverageChainLength :: nat where
  "kMaxAverageChainLength = 2"

definition kMinAverageChainLength :: nat where
  "kMinAverageChainLength = 1"

definition sizeof_LHASH :: nat where
  "sizeof_LHASH = 48"

definition sizeof_LHASH_ITEM :: nat where
  "sizeof_LHASH_ITEM = 24"

definition lh_new :: "(nat \<Rightarrow> bool) \<Rightarrow> ('d \<Rightarrow> u32) \<Rightarrow> ('d \<Rightarrow> 'd \<Rightarrow> int) \<Rightarrow> 'd lhash option" where
  "lh_new grants hash cmp =
    (if \<not> grants sizeof_LHASH then None
     else if \<not> grants (szmul 8 kMinNumBuckets) then None
     else Some \<lparr> num_items = 0, buckets = replicate kMinNumBuckets [], num_buckets = kMinNumBuckets,
       callback_depth = 0, lh_comp = cmp, lh_hash = hash \<rparr>)"

definition lh_num_items :: "'d lhash \<Rightarrow> nat" where
  "lh_num_items lh = num_items lh"

definition bucket_of :: "'d lhash \<Rightarrow> u32 \<Rightarrow> nat" where
  "bucket_of lh h = unat h mod num_buckets lh"

text \<open>The walk along a chain, up to the item the test accepts or to the end.\<close>

fun chain_walk :: "('d \<Rightarrow> bool) \<Rightarrow> 'd lhash_item list \<Rightarrow> nat" where
  "chain_walk f [] = 0"
| "chain_walk f (cur # rest) = (if f (item_data cur) then 0 else Suc (chain_walk f rest))"

definition get_next_ptr_and_hash :: "'d lhash \<Rightarrow> 'd \<Rightarrow> u32 \<times> nat \<times> nat" where
  "get_next_ptr_and_hash lh d =
    (let h = lh_hash lh d; b = bucket_of lh h
     in (h, b, chain_walk (\<lambda>cur. lh_comp lh cur d = 0) (buckets lh ! b)))"

definition get_next_ptr_by_key :: "'d lhash \<Rightarrow> 'k \<Rightarrow> u32 \<Rightarrow> ('k \<Rightarrow> 'd \<Rightarrow> int) \<Rightarrow> nat \<times> nat" where
  "get_next_ptr_by_key lh key key_hash cmp_key =
    (let b = bucket_of lh key_hash in (b, chain_walk (\<lambda>cur. cmp_key key cur = 0) (buckets lh ! b)))"

text \<open>Reading through a position: the end of the chain is a null pointer.\<close>

definition item_at :: "'d lhash \<Rightarrow> nat \<Rightarrow> nat \<Rightarrow> 'd lhash_item option" where
  "item_at lh b i = (if i < length (buckets lh ! b) then Some (buckets lh ! b ! i) else None)"

definition lh_retrieve :: "'d lhash \<Rightarrow> 'd \<Rightarrow> 'd option" where
  "lh_retrieve lh d = (case get_next_ptr_and_hash lh d of (h, b, i) \<Rightarrow> map_option item_data (item_at lh b i))"

definition lh_retrieve_key :: "'d lhash \<Rightarrow> 'k \<Rightarrow> u32 \<Rightarrow> ('k \<Rightarrow> 'd \<Rightarrow> int) \<Rightarrow> 'd option" where
  "lh_retrieve_key lh key key_hash cmp_key =
    (case get_next_ptr_by_key lh key key_hash cmp_key of (b, i) \<Rightarrow> map_option item_data (item_at lh b i))"

text \<open>The redistribution loop: every item goes to the head of its new chain.\<close>

fun relink :: "nat \<Rightarrow> 'd lhash_item list list \<Rightarrow> 'd lhash_item list \<Rightarrow> 'd lhash_item list list" where
  "relink n new_buckets [] = new_buckets"
| "relink n new_buckets (cur # rest) =
    (let b = unat (item_hash cur) mod n in relink n (new_buckets[b := cur # new_buckets ! b]) rest)"

definition lh_rebucket :: "(nat \<Rightarrow> bool) \<Rightarrow> 'd lhash \<Rightarrow> nat \<Rightarrow> 'd lhash" where
  "lh_rebucket grants lh new_num_buckets =
    (let alloc_size = szmul 8 new_num_buckets in
     if alloc_size div 8 \<noteq> new_num_buckets then lh
     else if \<not> grants alloc_size then lh
     else lh\<lparr> buckets := relink new_num_buckets (replicate new_num_buckets []) (concat (buckets lh)),
              num_buckets := new_num_buckets \<rparr>)"

definition lh_maybe_resize :: "(nat \<Rightarrow> bool) \<Rightarrow> 'd lhash \<Rightarrow> 'd lhash" where
  "lh_maybe_resize grants lh =
    (if 0 < callback_depth lh then lh
     else let avg_chain_length = num_items lh div num_buckets lh in
       if kMaxAverageChainLength < avg_chain_length then
         let new_num_buckets = szmul (num_buckets lh) 2 in
         if num_buckets lh < new_num_buckets then lh_rebucket grants lh new_num_buckets else lh
       else if avg_chain_length < kMinAverageChainLength \<and> kMinNumBuckets < num_buckets lh then
         let new_num_buckets = num_buckets lh div 2;
             new_num_buckets = (if new_num_buckets < kMinNumBuckets then kMinNumBuckets else new_num_buckets)
         in lh_rebucket grants lh new_num_buckets
       else lh)"

text \<open>The result of \<open>lh_insert\<close>: the table, the return value and \<open>*old_data\<close>.\<close>

definition lh_insert :: "(nat \<Rightarrow> bool) \<Rightarrow> 'd lhash \<Rightarrow> 'd \<Rightarrow> 'd lhash \<times> bool \<times> 'd option" where
  "lh_insert grants lh d =
    (case get_next_ptr_and_hash lh d of (h, b, i) \<Rightarrow>
      case item_at lh b i of
        Some it \<Rightarrow> (lh\<lparr> buckets := (buckets lh)[b := (buckets lh ! b)[i := it\<lparr> item_data := d \<rparr>]] \<rparr>,
                    True, Some (item_data it))
      | None \<Rightarrow>
          if \<not> grants sizeof_LHASH_ITEM then (lh, False, None)
          else let item = \<lparr> item_data = d, item_hash = h \<rparr>;
                   lh = lh\<lparr> buckets := (buckets lh)[b := buckets lh ! b @ [item]], num_items := num_items lh + 1 \<rparr>
            in (lh_maybe_resize grants lh, True, None))"

definition lh_delete :: "(nat \<Rightarrow> bool) \<Rightarrow> 'd lhash \<Rightarrow> 'd \<Rightarrow> 'd lhash \<times> 'd option" where
  "lh_delete grants lh d =
    (case get_next_ptr_and_hash lh d of (h, b, i) \<Rightarrow>
      case item_at lh b i of
        None \<Rightarrow> (lh, None)
      | Some it \<Rightarrow> let
          chain = buckets lh ! b;
          lh = lh\<lparr> buckets := (buckets lh)[b := take i chain @ drop (i + 1) chain], num_items := num_items lh - 1 \<rparr>
        in (lh_maybe_resize grants lh, Some (item_data it)))"

text \<open>Iteration, for callbacks that do not touch the table: \<open>func\<close> acts on a state of the caller's.\<close>

definition lh_doall_arg :: "(nat \<Rightarrow> bool) \<Rightarrow> 'd lhash option \<Rightarrow> ('d \<Rightarrow> 's \<Rightarrow> 's) \<Rightarrow> 's \<Rightarrow> 'd lhash option \<times> 's" where
  "lh_doall_arg grants lh func s =
    (case lh of
       None \<Rightarrow> (None, s)
     | Some lh \<Rightarrow> let
         lh = (if callback_depth lh < 0xffffffff then lh\<lparr> callback_depth := callback_depth lh + 1 \<rparr> else lh);
         s = foldl (\<lambda>s it. func (item_data it) s) s (concat (buckets lh));
         lh = (if callback_depth lh < 0xffffffff then lh\<lparr> callback_depth := callback_depth lh - 1 \<rparr> else lh)
       in (Some (lh_maybe_resize grants lh), s))"

definition lh_strhash :: "bytes option \<Rightarrow> u32" where
  "lh_strhash c = (case c of None \<Rightarrow> 0 | Some s \<Rightarrow> OPENSSL_hash32 (takeWhile (\<lambda>b. b \<noteq> 0) s))"

section \<open>The table as a set\<close>

text \<open>What the callers of \<open>lh_new\<close> promise: an equivalence, and a hash that respects it.\<close>

locale hashing =
  fixes cmp :: "'d \<Rightarrow> 'd \<Rightarrow> int" and hash :: "'d \<Rightarrow> u32"
  assumes same_refl: "cmp x x = 0"
    and same_sym: "cmp x y = 0 \<Longrightarrow> cmp y x = 0"
    and same_trans: "cmp x y = 0 \<Longrightarrow> cmp y z = 0 \<Longrightarrow> cmp x z = 0"
    and same_hash: "cmp x y = 0 \<Longrightarrow> hash x = hash y"

definition lh_items :: "'d lhash \<Rightarrow> 'd lhash_item multiset" where
  "lh_items lh = mset (concat (buckets lh))"

definition lh_elems :: "'d lhash \<Rightarrow> 'd set" where
  "lh_elems lh = item_data ` set_mset (lh_items lh)"

definition one_each :: "('d \<Rightarrow> 'd \<Rightarrow> int) \<Rightarrow> 'd lhash_item multiset \<Rightarrow> bool" where
  "one_each cmp M \<longleftrightarrow> (\<forall>d. size (filter_mset (\<lambda>it. cmp (item_data it) d = 0) M) \<le> 1)"

definition chains_ok :: "('d \<Rightarrow> u32) \<Rightarrow> nat \<Rightarrow> 'd lhash_item list list \<Rightarrow> bool" where
  "chains_ok hash n bs \<longleftrightarrow> length bs = n \<and>
    (\<forall>b<n. \<forall>it\<in>set (bs ! b). item_hash it = hash (item_data it) \<and> unat (item_hash it) mod n = b)"

definition lh_ok :: "'d lhash \<Rightarrow> bool" where
  "lh_ok lh \<longleftrightarrow> kMinNumBuckets \<le> num_buckets lh \<and> chains_ok (lh_hash lh) (num_buckets lh) (buckets lh) \<and>
    one_each (lh_comp lh) (lh_items lh) \<and> num_items lh = size (lh_items lh)"

lemma mset_concat_update:
  "b < length bs \<Longrightarrow> mset (concat (bs[b := c])) + mset (bs ! b) = mset (concat bs) + mset c"
proof (induction bs arbitrary: b)
  case (Cons x bs)
  then show ?case by (cases b) (auto simp: ac_simps)
qed simp

lemma chain_walk_found:
  "chain_walk f c < length c \<Longrightarrow> f (item_data (c ! chain_walk f c))"
  by (induction c) auto

lemma chain_walk_le: "chain_walk f c \<le> length c"
  by (induction c) auto

lemma chain_walk_end: "chain_walk f c = length c \<longleftrightarrow> (\<forall>it\<in>set c. \<not> f (item_data it))"
  by (induction c) auto

lemma chains_okI:
  "length bs = n \<Longrightarrow> (\<And>b it. b < n \<Longrightarrow> it \<in> set (bs ! b) \<Longrightarrow>
     item_hash it = hash (item_data it) \<and> unat (item_hash it) mod n = b) \<Longrightarrow> chains_ok hash n bs"
  unfolding chains_ok_def by blast

lemma chains_okD:
  "chains_ok hash n bs \<Longrightarrow> b < n \<Longrightarrow> it \<in> set (bs ! b) \<Longrightarrow>
     item_hash it = hash (item_data it) \<and> unat (item_hash it) mod n = b"
  unfolding chains_ok_def by blast

lemma chains_ok_length: "chains_ok hash n bs \<Longrightarrow> length bs = n"
  by (simp add: chains_ok_def)

lemma chains_ok_update:
  assumes "chains_ok hash n bs"
    and "\<And>it. it \<in> set c \<Longrightarrow> item_hash it = hash (item_data it) \<and> unat (item_hash it) mod n = b"
  shows "chains_ok hash n (bs[b := c])"
proof (rule chains_okI)
  fix k it
  assume "k < n" and it: "it \<in> set (bs[b := c] ! k)"
  then show "item_hash it = hash (item_data it) \<and> unat (item_hash it) mod n = k"
    using assms(2) chains_okD [OF assms(1)] chains_ok_length [OF assms(1)]
    by (metis nth_list_update_eq nth_list_update_neq)
qed (simp add: chains_ok_length [OF assms(1)])

lemma relink_spec:
  assumes "chains_ok hash n bs" and "0 < n" and "\<forall>it\<in>set its. item_hash it = hash (item_data it)"
  shows "chains_ok hash n (relink n bs its) \<and> mset (concat (relink n bs its)) = mset (concat bs) + mset its"
  using assms(1,3)
proof (induction its arbitrary: bs)
  case (Cons cur its)
  let ?b = "unat (item_hash cur) mod n"
  let ?bs = "bs[?b := cur # bs ! ?b]"
  have b: "?b < n" using assms(2) by simp
  have ok: "chains_ok hash n ?bs"
  proof (rule chains_ok_update [OF Cons.prems(1)])
    fix it assume "it \<in> set (cur # bs ! ?b)"
    then show "item_hash it = hash (item_data it) \<and> unat (item_hash it) mod n = ?b"
      using Cons.prems(2) chains_okD [OF Cons.prems(1) b, of it] by fastforce
  qed
  have m: "mset (concat ?bs) = add_mset cur (mset (concat bs))"
    using mset_concat_update [of ?b bs "cur # bs ! ?b"] b chains_ok_length [OF Cons.prems(1)] by simp
  have "\<forall>it\<in>set its. item_hash it = hash (item_data it)" using Cons.prems(2) by simp
  note ih = Cons.IH [OF ok this]
  have r: "relink n bs (cur # its) = relink n ?bs its" by (simp only: relink.simps Let_def)
  show ?case unfolding r using ih
    by (simp only: m mset.simps union_mset_add_mset_left union_mset_add_mset_right simp_thms)
qed simp

lemma chains_ok_hash:
  assumes "chains_ok hash n bs" and "it \<in> set (concat bs)"
  shows "item_hash it = hash (item_data it) \<and> it \<in> set (bs ! (unat (item_hash it) mod n)) \<and> unat (item_hash it) mod n < n"
proof -
  obtain c where "c \<in> set bs" "it \<in> set c" using assms(2) by auto
  then obtain b where "b < length bs" "c = bs ! b" by (metis in_set_conv_nth)
  moreover from this have "item_hash it = hash (item_data it) \<and> unat (item_hash it) mod n = b \<and> b < n"
    using assms(1) \<open>it \<in> set c\<close> chains_okD chains_ok_length by metis
  ultimately show ?thesis using \<open>it \<in> set c\<close> by metis
qed


text \<open>The part of the invariant that does not mention the size of the array.\<close>

lemma rebucket_ok:
  assumes "lh_ok lh" and "kMinNumBuckets \<le> n"
  shows "lh_ok (lh_rebucket grants lh n) \<and> lh_items (lh_rebucket grants lh n) = lh_items lh \<and>
    lh_comp (lh_rebucket grants lh n) = lh_comp lh \<and> lh_hash (lh_rebucket grants lh n) = lh_hash lh"
proof -
  have n: "0 < n" using assms(2) by (simp add: kMinNumBuckets_def)
  have ok: "chains_ok (lh_hash lh) (num_buckets lh) (buckets lh)" using assms(1) by (simp add: lh_ok_def)
  have e: "chains_ok (lh_hash lh) n (replicate n [])" by (simp add: chains_ok_def)
  have "\<forall>it\<in>set (concat (buckets lh)). item_hash it = lh_hash lh (item_data it)"
    using chains_ok_hash [OF ok] by blast
  then have r: "chains_ok (lh_hash lh) n (relink n (replicate n []) (concat (buckets lh)))"
      "mset (concat (relink n (replicate n []) (concat (buckets lh)))) = lh_items lh"
    using relink_spec [OF e n] by (simp_all add: lh_items_def)
  let ?lh = "lh\<lparr> buckets := relink n (replicate n []) (concat (buckets lh)), num_buckets := n \<rparr>"
  have items: "lh_items ?lh = lh_items lh" using r(2) by (simp add: lh_items_def)
  then have "lh_ok ?lh" using r(1) assms by (simp add: lh_ok_def)
  then show ?thesis using items assms(1) by (simp add: lh_rebucket_def Let_def)
qed

lemma maybe_resize_ok:
  assumes "lh_ok lh"
  shows "lh_ok (lh_maybe_resize grants lh) \<and> lh_items (lh_maybe_resize grants lh) = lh_items lh \<and>
    lh_comp (lh_maybe_resize grants lh) = lh_comp lh \<and> lh_hash (lh_maybe_resize grants lh) = lh_hash lh"
proof -
  have "kMinNumBuckets \<le> num_buckets lh" using assms by (simp add: lh_ok_def)
  then show ?thesis
    using rebucket_ok [OF assms, of "szmul (num_buckets lh) 2" grants]
      rebucket_ok [OF assms, of "max (num_buckets lh div 2) kMinNumBuckets" grants] assms
    by (auto simp: lh_maybe_resize_def Let_def max_def)
qed

lemma lh_new_ok: "lh_new grants hash cmp = Some lh \<Longrightarrow>
    lh_ok lh \<and> lh_elems lh = {} \<and> lh_comp lh = cmp \<and> lh_hash lh = hash \<and> num_items lh = 0"
  by (auto simp: lh_new_def lh_ok_def chains_ok_def one_each_def lh_items_def lh_elems_def split: if_splits)

lemma filter_size_1_eq:
  assumes "size (filter_mset P M) \<le> 1" "a \<in># M" "b \<in># M" "P a" "P b"
  shows "a = b"
proof (rule ccontr)
  assume "a \<noteq> b"
  moreover obtain N where "M = add_mset a N" using assms(2) by (meson multi_member_split)
  ultimately obtain N' where "M = add_mset a (add_mset b N')"
    using assms(3) by (metis insert_noteq_member multi_member_split)
  then show False using assms by simp
qed

lemma filter_mset_empty_iff: "filter_mset P M = {#} \<longleftrightarrow> (\<forall>x\<in>#M. \<not> P x)"
  by (induction M) auto

lemma items_replaced:
  assumes "b < length (buckets lh)" and "i < length (buckets lh ! b)"
  shows "\<exists>M. lh_items lh = add_mset (buckets lh ! b ! i) M \<and>
    mset (concat ((buckets lh)[b := (buckets lh ! b)[i := it]])) = add_mset it M \<and>
    mset (concat ((buckets lh)[b := take i (buckets lh ! b) @ drop (i + 1) (buckets lh ! b)])) = M"
proof -
  let ?bs = "buckets lh" and ?c = "buckets lh ! b"
  define C where "C = mset (take i ?c) + mset (drop (i + 1) ?c)"
  have "?c = take i ?c @ ?c ! i # drop (i + 1) ?c" using assms(2) by (simp add: id_take_nth_drop)
  then have c: "mset ?c = add_mset (?c ! i) C" unfolding C_def
    by (metis mset.simps(2) mset_append union_mset_add_mset_right)
  have c': "mset (?c[i := it]) = add_mset it C"
    using assms(2) by (simp add: upd_conv_take_nth_drop C_def)
  define M where "M = mset (concat (?bs[b := take i ?c @ drop (i + 1) ?c]))"
  have m: "M + mset ?c = mset (concat ?bs) + C"
    using mset_concat_update [OF assms(1), of "take i ?c @ drop (i + 1) ?c"] by (simp add: M_def C_def)
  then have 1: "lh_items lh = add_mset (?c ! i) M" by (simp add: lh_items_def c)
  have "mset (concat (?bs[b := ?c[i := it]])) + mset ?c = mset (concat ?bs) + mset (?c[i := it])"
    by (rule mset_concat_update [OF assms(1)])
  then have "mset (concat (?bs[b := ?c[i := it]])) = add_mset it M"
    using 1 by (simp add: c c' lh_items_def)
  then show ?thesis using 1 M_def by blast
qed

lemma option_eqI: "(\<And>z. a = Some z \<longleftrightarrow> b = Some z) \<Longrightarrow> a = b"
  by (cases a) (metis not_Some_eq, metis)

context hashing begin

lemma position:
  assumes ok: "lh_ok lh" and c: "lh_comp lh = cmp" and h: "lh_hash lh = hash"
    and p: "get_next_ptr_and_hash lh d = (hs, b, i)"
  shows "hs = hash d \<and> b = unat (hash d) mod num_buckets lh \<and> b < length (buckets lh) \<and>
    (item_at lh b i = None \<longleftrightarrow> (\<forall>x\<in>lh_elems lh. cmp x d \<noteq> 0)) \<and>
    (\<forall>it. item_at lh b i = Some it \<longrightarrow> i < length (buckets lh ! b) \<and> buckets lh ! b ! i = it \<and>
       it \<in># lh_items lh \<and> cmp (item_data it) d = 0 \<and> item_hash it = hash (item_data it))"
proof -
  let ?c = "buckets lh ! b"
  have n: "0 < num_buckets lh" "length (buckets lh) = num_buckets lh"
    and ch: "chains_ok hash (num_buckets lh) (buckets lh)"
    using ok h by (auto simp: lh_ok_def kMinNumBuckets_def chains_ok_length)
  have b: "hs = hash d" "b = unat (hash d) mod num_buckets lh" "i = chain_walk (\<lambda>x. cmp x d = 0) ?c"
    using p by (auto simp: get_next_ptr_and_hash_def bucket_of_def c h Let_def)
  then have bl: "b < length (buckets lh)" using n by simp
  then have sub: "set ?c \<subseteq> set (concat (buckets lh))" by (auto intro: nth_mem)
  have here: "it \<in> set ?c" if "it \<in># lh_items lh" "cmp (item_data it) d = 0" for it
  proof -
    have "it \<in> set (concat (buckets lh))" using that(1) by (simp add: lh_items_def)
    moreover have "hash (item_data it) = hash d" using that(2) by (rule same_hash)
    ultimately show ?thesis using chains_ok_hash [OF ch] b(2) by metis
  qed
  have "item_at lh b i = None \<longleftrightarrow> (\<forall>it\<in>set ?c. cmp (item_data it) d \<noteq> 0)"
    using chain_walk_end [of "\<lambda>x. cmp x d = 0" ?c] chain_walk_le [of "\<lambda>x. cmp x d = 0" ?c]
    by (auto simp: item_at_def b(3))
  moreover have "(\<forall>it\<in>set ?c. cmp (item_data it) d \<noteq> 0) \<longleftrightarrow> (\<forall>x\<in>lh_elems lh. cmp x d \<noteq> 0)"
    using sub here by (auto simp: lh_elems_def lh_items_def)
  moreover have "i < length ?c \<and> ?c ! i = it \<and> it \<in># lh_items lh \<and> cmp (item_data it) d = 0 \<and>
      item_hash it = hash (item_data it)" if "item_at lh b i = Some it" for it
  proof -
    have i: "i < length ?c" "?c ! i = it" using that by (auto simp: item_at_def split: if_splits)
    then have "it \<in> set (concat (buckets lh))" using sub nth_mem by blast
    then show ?thesis
      using i chain_walk_found [of "\<lambda>x. cmp x d = 0" ?c] chains_ok_hash [OF ch] b(3) by (auto simp: lh_items_def)
  qed
  ultimately show ?thesis using b bl by blast
qed

lemma retrieve_iff:
  assumes "lh_ok lh" and "lh_comp lh = cmp" and "lh_hash lh = hash"
  shows "lh_retrieve lh d = Some x \<longleftrightarrow> x \<in> lh_elems lh \<and> cmp x d = 0"
proof -
  obtain hs b i where p: "get_next_ptr_and_hash lh d = (hs, b, i)" by (metis prod_cases3)
  note pos = position [OF assms p]
  have one: "size (filter_mset (\<lambda>it. cmp (item_data it) d = 0) (lh_items lh)) \<le> 1"
    using assms by (simp add: lh_ok_def one_each_def)
  have r: "lh_retrieve lh d = map_option item_data (item_at lh b i)" by (simp add: lh_retrieve_def p)
  show ?thesis
  proof (cases "item_at lh b i")
    case None
    then show ?thesis using pos r by auto
  next
    case (Some it)
    then have it: "it \<in># lh_items lh" "cmp (item_data it) d = 0" using pos by auto
    show ?thesis
    proof
      assume "lh_retrieve lh d = Some x"
      then show "x \<in> lh_elems lh \<and> cmp x d = 0" using it r Some by (auto simp: lh_elems_def)
    next
      assume x: "x \<in> lh_elems lh \<and> cmp x d = 0"
      then obtain it' where "it' \<in># lh_items lh" "item_data it' = x" by (auto simp: lh_elems_def)
      then have "it' = it" using filter_size_1_eq [OF one] it x by blast
      then show "lh_retrieve lh d = Some x" using r Some \<open>item_data it' = x\<close> by simp
    qed
  qed
qed

lemma same_class: "cmp x y = 0 \<Longrightarrow> cmp x d = 0 \<longleftrightarrow> cmp y d = 0"
  using same_sym same_trans by blast

text \<open>Changes to the collection of items that keep one item for each class.\<close>

lemma one_each_replace:
  assumes "one_each cmp (add_mset it M)" and "cmp (item_data it) x = 0"
  shows "one_each cmp (add_mset (it\<lparr> item_data := x \<rparr>) M) \<and>
    item_data ` set_mset M = {y \<in> item_data ` set_mset (add_mset it M). cmp y x \<noteq> 0}"
proof -
  have "size (filter_mset (\<lambda>j. cmp (item_data j) x = 0) (add_mset it M)) \<le> 1"
    using assms(1) unfolding one_each_def by blast
  then have "filter_mset (\<lambda>j. cmp (item_data j) x = 0) M = {#}" using assms(2) by simp
  then have "\<forall>j\<in>#M. cmp (item_data j) x \<noteq> 0" by (simp add: filter_mset_empty_iff)
  moreover have "one_each cmp (add_mset (it\<lparr> item_data := x \<rparr>) M)"
    unfolding one_each_def
  proof
    fix d
    have "size (filter_mset (\<lambda>j. cmp (item_data j) d = 0) (add_mset it M)) \<le> 1"
      using assms(1) unfolding one_each_def by blast
    then show "size (filter_mset (\<lambda>j. cmp (item_data j) d = 0) (add_mset (it\<lparr> item_data := x \<rparr>) M)) \<le> 1"
      using same_class [OF assms(2), of d] by (cases "cmp x d = 0") simp_all
  qed
  ultimately show ?thesis using assms(2) by auto
qed

lemma one_each_add:
  assumes "one_each cmp M" and "\<forall>y\<in>item_data ` set_mset M. cmp y x \<noteq> 0" and "item_data it = x"
  shows "one_each cmp (add_mset it M)"
  unfolding one_each_def
proof
  fix d
  have "filter_mset (\<lambda>j. cmp (item_data j) d = 0) M = {#}" if "cmp x d = 0"
    unfolding filter_mset_empty_iff
  proof
    fix j assume "j \<in># M"
    then have "cmp (item_data j) x \<noteq> 0" using assms(2) by blast
    then show "\<not> cmp (item_data j) d = 0" using that same_sym same_trans by blast
  qed
  moreover have "size (filter_mset (\<lambda>j. cmp (item_data j) d = 0) M) \<le> 1"
    using assms(1) unfolding one_each_def by blast
  ultimately show "size (filter_mset (\<lambda>j. cmp (item_data j) d = 0) (add_mset it M)) \<le> 1"
    by (cases "cmp x d = 0") (simp_all add: assms(3))
qed

lemma one_each_remove:
  assumes "one_each cmp (add_mset it M)"
  shows "one_each cmp M"
  unfolding one_each_def
proof
  fix d
  have "size (filter_mset (\<lambda>j. cmp (item_data j) d = 0) M) \<le> size (filter_mset (\<lambda>j. cmp (item_data j) d = 0) (add_mset it M))"
    by (intro size_mset_mono multiset_filter_mono) simp
  also have "\<dots> \<le> 1" using assms unfolding one_each_def by blast
  finally show "size (filter_mset (\<lambda>j. cmp (item_data j) d = 0) M) \<le> 1" .
qed

lemma insert_spec:
  assumes ok: "lh_ok lh" and c: "lh_comp lh = cmp" and h: "lh_hash lh = hash"
    and ins: "lh_insert grants lh x = (lh', stored, old)"
  shows "lh_ok lh' \<and> lh_comp lh' = cmp \<and> lh_hash lh' = hash \<and> old = lh_retrieve lh x \<and>
    (if stored then lh_elems lh' = insert x {y \<in> lh_elems lh. cmp y x \<noteq> 0} else lh' = lh \<and> old = None)"
proof -
  obtain hs b i where p: "get_next_ptr_and_hash lh x = (hs, b, i)" by (metis prod_cases3)
  note pos = position [OF ok c h p]
  have b: "b < length (buckets lh)" "hs = hash x" "b = unat (hash x) mod num_buckets lh" using pos by auto
  have inv: "chains_ok hash (num_buckets lh) (buckets lh)" "one_each cmp (lh_items lh)"
      "kMinNumBuckets \<le> num_buckets lh" "num_items lh = size (lh_items lh)"
    using ok c h by (auto simp: lh_ok_def)
  have old: "lh_retrieve lh x = map_option item_data (item_at lh b i)" by (simp add: lh_retrieve_def p)
  show ?thesis
  proof (cases "item_at lh b i")
    case (Some it)
    let ?it = "it\<lparr> item_data := x \<rparr>"
    let ?lh = "lh\<lparr> buckets := (buckets lh)[b := (buckets lh ! b)[i := ?it]] \<rparr>"
    have it: "i < length (buckets lh ! b)" "buckets lh ! b ! i = it" "cmp (item_data it) x = 0"
      "item_hash it = hash (item_data it)" using pos Some by auto
    obtain M where M: "lh_items lh = add_mset it M" "lh_items ?lh = add_mset ?it M"
      using items_replaced [OF b(1) it(1), of ?it] it(2) by (auto simp: lh_items_def)
    note repl = one_each_replace [of it M x] 
    have "chains_ok hash (num_buckets lh) ((buckets lh)[b := (buckets lh ! b)[i := ?it]])"
    proof (rule chains_ok_update [OF inv(1)])
      fix j assume "j \<in> set ((buckets lh ! b)[i := ?it])"
      then have "j = ?it \<or> j \<in> set (buckets lh ! b)" by (meson set_update_subset_insert insertE subsetD)
      then show "item_hash j = hash (item_data j) \<and> unat (item_hash j) mod num_buckets lh = b"
        using chains_okD [OF inv(1), of b] b chains_ok_length [OF inv(1)] it same_hash by auto
    qed
    then have "lh_ok ?lh" using inv M repl it(3) c h by (simp add: lh_ok_def)
    moreover have "lh_elems ?lh = insert x {y \<in> lh_elems lh. cmp y x \<noteq> 0}"
      using repl it(3) inv(2) M by (simp add: lh_elems_def)
    ultimately show ?thesis using ins Some old c h by (auto simp: lh_insert_def p)
  next
    case None
    then have new: "\<forall>y\<in>lh_elems lh. cmp y x \<noteq> 0" using pos by blast
    let ?it = "\<lparr> item_data = x, item_hash = hs \<rparr>"
    let ?lh = "lh\<lparr> buckets := (buckets lh)[b := buckets lh ! b @ [?it]], num_items := num_items lh + 1 \<rparr>"
    have items: "lh_items ?lh = add_mset ?it (lh_items lh)"
      using mset_concat_update [OF b(1), of "buckets lh ! b @ [?it]"] by (simp add: lh_items_def)
    have "chains_ok hash (num_buckets lh) ((buckets lh)[b := buckets lh ! b @ [?it]])"
      using chains_okD [OF inv(1), of b] b chains_ok_length [OF inv(1)]
      by (intro chains_ok_update [OF inv(1)]) auto
    moreover have "one_each cmp (add_mset ?it (lh_items lh))"
      using one_each_add [OF inv(2)] new by (simp add: lh_elems_def)
    ultimately have ok': "lh_ok ?lh" using inv items c h by (simp add: lh_ok_def)
    have "{y \<in> lh_elems lh. cmp y x \<noteq> 0} = lh_elems lh" using new by auto
    then have "lh_elems ?lh = insert x {y \<in> lh_elems lh. cmp y x \<noteq> 0}"
      using items by (simp add: lh_elems_def)
    then show ?thesis using ins None old c h ok maybe_resize_ok [OF ok', of grants]
      by (auto simp: lh_insert_def p lh_elems_def Let_def split: if_splits)
  qed
qed

lemma delete_spec:
  assumes ok: "lh_ok lh" and c: "lh_comp lh = cmp" and h: "lh_hash lh = hash"
    and del: "lh_delete grants lh x = (lh', old)"
  shows "lh_ok lh' \<and> lh_comp lh' = cmp \<and> lh_hash lh' = hash \<and> old = lh_retrieve lh x \<and>
    lh_elems lh' = {y \<in> lh_elems lh. cmp y x \<noteq> 0}"
proof -
  obtain hs b i where p: "get_next_ptr_and_hash lh x = (hs, b, i)" by (metis prod_cases3)
  note pos = position [OF ok c h p]
  have b: "b < length (buckets lh)" using pos by auto
  have inv: "chains_ok hash (num_buckets lh) (buckets lh)" "one_each cmp (lh_items lh)"
      "kMinNumBuckets \<le> num_buckets lh" "num_items lh = size (lh_items lh)"
    using ok c h by (auto simp: lh_ok_def)
  have old: "lh_retrieve lh x = map_option item_data (item_at lh b i)" by (simp add: lh_retrieve_def p)
  show ?thesis
  proof (cases "item_at lh b i")
    case None
    then have "{y \<in> lh_elems lh. cmp y x \<noteq> 0} = lh_elems lh" using pos by auto
    then show ?thesis using None del ok c h old by (auto simp: lh_delete_def p)
  next
    case (Some it)
    let ?c = "buckets lh ! b"
    let ?lh = "lh\<lparr> buckets := (buckets lh)[b := take i ?c @ drop (i + 1) ?c], num_items := num_items lh - 1 \<rparr>"
    have it: "i < length ?c" "?c ! i = it" "cmp (item_data it) x = 0" using pos Some by auto
    obtain M where M: "lh_items lh = add_mset it M" "lh_items ?lh = M"
      using items_replaced [OF b it(1), of it] it(2) by (auto simp: lh_items_def)
    have "set (take i ?c @ drop (i + 1) ?c) \<subseteq> set ?c" by (auto dest: in_set_takeD in_set_dropD)
    then have "chains_ok hash (num_buckets lh) ((buckets lh)[b := take i ?c @ drop (i + 1) ?c])"
      using chains_okD [OF inv(1), of b] b chains_ok_length [OF inv(1)]
      by (intro chains_ok_update [OF inv(1)]) auto
    then have ok': "lh_ok ?lh" using inv M c h one_each_remove [of it M] by (simp add: lh_ok_def)
    have "lh_elems ?lh = {y \<in> lh_elems lh. cmp y x \<noteq> 0}"
      using one_each_replace [of it M x] inv(2) M it(3) by (simp add: lh_elems_def)
    then show ?thesis using Some del c h old maybe_resize_ok [OF ok', of grants]
      by (auto simp: lh_delete_def p lh_elems_def Let_def)
  qed
qed

lemma retrieve_insert:
  assumes "lh_ok lh" and "lh_comp lh = cmp" and "lh_hash lh = hash"
    and ins: "lh_insert grants lh x = (lh', stored, old)"
  shows "lh_retrieve lh' y = (if stored \<and> cmp x y = 0 then Some x else lh_retrieve lh y)"
proof (cases "stored")
  case True
  note spec = insert_spec [OF assms]
  have "lh_retrieve lh' y = Some z \<longleftrightarrow> (if cmp x y = 0 then z = x else lh_retrieve lh y = Some z)" for z
  proof -
    have "lh_retrieve lh' y = Some z \<longleftrightarrow> (z = x \<or> z \<in> lh_elems lh \<and> cmp z x \<noteq> 0) \<and> cmp z y = 0"
      using spec True retrieve_iff [of lh' y z] by simp
    also have "\<dots> \<longleftrightarrow> (if cmp x y = 0 then z = x else z \<in> lh_elems lh \<and> cmp z y = 0)"
      using same_sym same_trans by (smt (verit))
    finally show ?thesis by (simp only: retrieve_iff [OF assms(1-3)])
  qed
  then show ?thesis using True by (intro option_eqI) auto
next
  case False
  then show ?thesis using insert_spec [OF assms] by simp
qed

lemma retrieve_delete:
  assumes "lh_ok lh" and "lh_comp lh = cmp" and "lh_hash lh = hash"
    and del: "lh_delete grants lh x = (lh', old)"
  shows "lh_retrieve lh' y = (if cmp x y = 0 then None else lh_retrieve lh y)"
proof -
  note spec = delete_spec [OF assms]
  have "lh_retrieve lh' y = Some z \<longleftrightarrow> cmp x y \<noteq> 0 \<and> lh_retrieve lh y = Some z" for z
  proof -
    have "lh_retrieve lh' y = Some z \<longleftrightarrow> z \<in> lh_elems lh \<and> cmp z x \<noteq> 0 \<and> cmp z y = 0"
      using spec retrieve_iff [of lh' y z] by simp
    also have "\<dots> \<longleftrightarrow> cmp x y \<noteq> 0 \<and> z \<in> lh_elems lh \<and> cmp z y = 0"
      using same_sym same_trans by blast
    finally show ?thesis by (simp only: retrieve_iff [OF assms(1-3)])
  qed
  then show ?thesis by (intro option_eqI) simp
qed

end

section \<open>Laws of the table\<close>

text \<open>C20. A hash table behaves as a set with one element for each class of equal elements: after
  \<open>lh_insert\<close> of \<open>x\<close> everything equal to \<open>x\<close> is found as \<open>x\<close>, after \<open>lh_delete\<close> it is not found,
  and nothing else changes, whatever rebucketing the calls trigger; both report what was there
  before, and a failed insertion changes nothing.\<close>

theorem lhash_map_laws:
  assumes "hashing (lh_comp lh) (lh_hash lh)" and "lh_ok lh"
  shows "(case lh_insert grants lh x of (lh', stored, old) \<Rightarrow>
      lh_ok lh' \<and> lh_comp lh' = lh_comp lh \<and> lh_hash lh' = lh_hash lh \<and> old = lh_retrieve lh x \<and>
      (\<forall>y. lh_retrieve lh' y = (if stored \<and> lh_comp lh x y = 0 then Some x else lh_retrieve lh y))) \<and>
    (case lh_delete grants lh x of (lh', old) \<Rightarrow>
      lh_ok lh' \<and> lh_comp lh' = lh_comp lh \<and> lh_hash lh' = lh_hash lh \<and> old = lh_retrieve lh x \<and>
      (\<forall>y. lh_retrieve lh' y = (if lh_comp lh x y = 0 then None else lh_retrieve lh y)))"
proof (intro conjI)
  obtain lh' stored old where i: "lh_insert grants lh x = (lh', stored, old)" by (metis prod_cases3)
  show "case lh_insert grants lh x of (lh', stored, old) \<Rightarrow>
      lh_ok lh' \<and> lh_comp lh' = lh_comp lh \<and> lh_hash lh' = lh_hash lh \<and> old = lh_retrieve lh x \<and>
      (\<forall>y. lh_retrieve lh' y = (if stored \<and> lh_comp lh x y = 0 then Some x else lh_retrieve lh y))"
    unfolding i prod.case
    using hashing.insert_spec [OF assms refl refl i] hashing.retrieve_insert [OF assms refl refl i] by blast
  obtain lh' old where d: "lh_delete grants lh x = (lh', old)" by fastforce
  show "case lh_delete grants lh x of (lh', old) \<Rightarrow>
      lh_ok lh' \<and> lh_comp lh' = lh_comp lh \<and> lh_hash lh' = lh_hash lh \<and> old = lh_retrieve lh x \<and>
      (\<forall>y. lh_retrieve lh' y = (if lh_comp lh x y = 0 then None else lh_retrieve lh y))"
    unfolding d prod.case
    using hashing.delete_spec [OF assms refl refl d] hashing.retrieve_delete [OF assms refl refl d] by blast
qed

text \<open>Bytes as elements, hashed and compared as the pool of buffers does.\<close>

definition bytes_cmp :: "bytes \<Rightarrow> bytes \<Rightarrow> int" where
  "bytes_cmp a b = (if length a \<noteq> length b then 1 else OPENSSL_memcmp a b (length a))"

lemma memcmp_0_iff: "n \<le> length a \<Longrightarrow> n \<le> length b \<Longrightarrow> memcmp a b n = 0 \<longleftrightarrow> take n a = take n b"
  by (induction a b n rule: memcmp.induct) (auto simp: word_uint_eq_iff)

lemma bytes_cmp_0: "bytes_cmp a b = 0 \<longleftrightarrow> a = b"
  using memcmp_0_iff [of "length a" a b] by (auto simp: bytes_cmp_def OPENSSL_memcmp_def)

lemma hashing_bytes: "hashing bytes_cmp OPENSSL_hash32"
  by standard (auto simp: bytes_cmp_0)

lemma lhash_map_laws_witness:
  "\<exists>lh. lh_new (\<lambda>_. True) OPENSSL_hash32 bytes_cmp = Some lh \<and>
    lh_retrieve (fst (lh_insert (\<lambda>_. True) lh [1, 2])) [3] = None"
proof -
  obtain lh where lh: "lh_new (\<lambda>_. True) OPENSSL_hash32 bytes_cmp = Some lh" by (simp add: lh_new_def)
  note ok = lh_new_ok [OF lh]
  have h: "hashing (lh_comp lh) (lh_hash lh)" using ok hashing_bytes by simp
  obtain lh' stored old where i: "lh_insert (\<lambda>_. True) lh [1, 2] = (lh', stored, old)" by (metis prod_cases3)
  have "lh_retrieve lh' [3] = lh_retrieve lh [3]"
    using lhash_map_laws [OF h, where grants = "\<lambda>_. True" and x = "[1, 2]"] ok i by (simp add: bytes_cmp_0)
  moreover have "lh_retrieve lh [3] = None"
    using hashing.retrieve_iff [OF h, of lh "[3]"] ok by (cases "lh_retrieve lh [3]") auto
  ultimately show ?thesis using lh i by (intro exI [of _ lh]) simp
qed

text \<open>\<open>lh_doall_arg\<close> visits every item once, in some order, and leaves the same items behind.\<close>

theorem lh_doall_visits:
  assumes "lh_ok lh" and "lh_doall_arg grants (Some lh) func s = (r, s')"
  shows "\<exists>lh' its. r = Some lh' \<and> lh_ok lh' \<and> lh_items lh' = lh_items lh \<and>
    mset its = lh_items lh \<and> s' = foldl (\<lambda>s it. func (item_data it) s) s its"
proof -
  have ok: "lh_ok (lh\<lparr> callback_depth := d \<rparr>)" "lh_items (lh\<lparr> callback_depth := d \<rparr>) = lh_items lh" for d
    using assms(1) by (simp_all add: lh_ok_def lh_items_def)
  define d where "d = (let d = (if callback_depth lh < 0xffffffff then callback_depth lh + 1 else callback_depth lh)
    in if d < 0xffffffff then d - 1 else d)"
  have "r = Some (lh_maybe_resize grants (lh\<lparr> callback_depth := d \<rparr>))"
      "s' = foldl (\<lambda>s it. func (item_data it) s) s (concat (buckets lh))"
    using assms(2) by (auto simp: lh_doall_arg_def d_def Let_def split: if_splits)
  then show ?thesis using maybe_resize_ok [OF ok(1)] ok(2)
    by (intro exI [of _ "lh_maybe_resize grants (lh\<lparr> callback_depth := d \<rparr>)"]
        exI [of _ "concat (buckets lh)"]) (simp add: lh_items_def)
qed

lemma lh_doall_visits_witness:
  "\<exists>lh. lh_new (\<lambda>_. True) OPENSSL_hash32 bytes_cmp = Some lh \<and>
    snd (lh_doall_arg (\<lambda>_. True) (Some (fst (lh_insert (\<lambda>_. True) lh [1, 2]))) (\<lambda>d ds. insert d ds) {}) = {[1, 2]}"
proof -
  obtain lh where lh: "lh_new (\<lambda>_. True) OPENSSL_hash32 bytes_cmp = Some lh" by (simp add: lh_new_def)
  note new = lh_new_ok [OF lh]
  have h: "hashing (lh_comp lh) (lh_hash lh)" using new hashing_bytes by simp
  have "lh_retrieve lh [1, 2] = None"
    using hashing.retrieve_iff [OF h, of lh "[1, 2]"] new by (cases "lh_retrieve lh [1, 2]") auto
  then have "item_at lh b i = None" if "get_next_ptr_and_hash lh [1, 2] = (hs, b, i)" for hs b i
    using that by (simp add: lh_retrieve_def)
  then obtain lh' old where i: "lh_insert (\<lambda>_. True) lh [1, 2] = (lh', True, old)"
    by (cases "get_next_ptr_and_hash lh [1, 2]") (auto simp: lh_insert_def Let_def)
  have ok: "lh_ok lh'" "lh_elems lh' = {[1, 2]}"
    using hashing.insert_spec [OF h _ refl refl i] new by auto
  obtain r s' where d: "lh_doall_arg (\<lambda>_. True) (Some lh') (\<lambda>d ds. insert d ds) {} = (r, s')" by fastforce
  obtain its where its: "mset its = lh_items lh'" "s' = foldl (\<lambda>s it. insert (item_data it) s) {} its"
    using lh_doall_visits [OF ok(1) d] by blast
  have fold: "foldl (\<lambda>s it. insert (item_data it) s) S its = S \<union> item_data ` set its" for S
    by (induction its arbitrary: S) auto
  have "s' = lh_elems lh'"
    using its fold [of "{}"] by (simp add: lh_elems_def flip: its(1))
  then show ?thesis using lh i d ok(2) by (intro exI [of _ lh]) simp
qed

end
