(* ===== verification/Pool.thy ===== *)
theory Pool
  imports Lhash
begin

text \<open>
  The pool of shared buffers (\<open>crypto/pool/pool.c\<close>) and the reference counts it relies on
  (\<open>crypto/refcount_lock.c\<close>).  A buffer's address and contents never change and are the
  \<open>crypto_buffer\<close> record; its count lives in the state.  \<open>CRYPTO_BUFFER_new\<close> takes the pool's
  lock twice, so it is two atomic steps here, and other threads may run between them.
\<close>

section \<open>Reference counts\<close>

definition CRYPTO_REFCOUNT_MAX :: u32 where
  "CRYPTO_REFCOUNT_MAX = 0xffffffff"

definition CRYPTO_refcount_inc :: "u32 \<Rightarrow> u32" where
  "CRYPTO_refcount_inc n = (if n < CRYPTO_REFCOUNT_MAX then n + 1 else n)"

text \<open>\<open>None\<close> is the call to \<open>abort\<close>.\<close>

definition CRYPTO_refcount_dec_and_test_zero :: "u32 \<Rightarrow> (u32 \<times> bool) option" where
  "CRYPTO_refcount_dec_and_test_zero n =
    (if n = 0 then None
     else let n = (if n < CRYPTO_REFCOUNT_MAX then n - 1 else n) in Some (n, n = 0))"

section \<open>Buffers and pools\<close>

record crypto_buffer =
  buf_ptr :: nat
  buf_data :: bytes

record pool =
  bufs :: "crypto_buffer lhash"
  references :: "nat \<Rightarrow> u32 option"
  next_ptr :: nat

definition sizeof_CRYPTO_BUFFER :: nat where
  "sizeof_CRYPTO_BUFFER = 32"

definition sizeof_CRYPTO_BUFFER_POOL :: nat where
  "sizeof_CRYPTO_BUFFER_POOL = 64"

definition CRYPTO_BUFFER_hash :: "crypto_buffer \<Rightarrow> u32" where
  "CRYPTO_BUFFER_hash buf = OPENSSL_hash32 (buf_data buf)"

definition CRYPTO_BUFFER_cmp :: "crypto_buffer \<Rightarrow> crypto_buffer \<Rightarrow> int" where
  "CRYPTO_BUFFER_cmp a b =
    (if length (buf_data a) \<noteq> length (buf_data b) then 1
     else OPENSSL_memcmp (buf_data a) (buf_data b) (length (buf_data a)))"

definition CRYPTO_BUFFER_POOL_new :: "(nat \<Rightarrow> bool) \<Rightarrow> pool option" where
  "CRYPTO_BUFFER_POOL_new grants =
    (if \<not> grants sizeof_CRYPTO_BUFFER_POOL then None
     else case lh_new grants CRYPTO_BUFFER_hash CRYPTO_BUFFER_cmp of
       None \<Rightarrow> None
     | Some lh \<Rightarrow> Some \<lparr> bufs = lh, references = Map.empty, next_ptr = 1 \<rparr>)"

definition inc_reference :: "pool \<Rightarrow> crypto_buffer \<Rightarrow> pool" where
  "inc_reference pool b =
    pool\<lparr> references := (references pool)(buf_ptr b := map_option CRYPTO_refcount_inc (references pool (buf_ptr b))) \<rparr>"

text \<open>\<open>CRYPTO_BUFFER_new\<close> up to the first unlock: a buffer with the same contents is shared.  The
  address of the temporary on the stack is 0, which no allocated buffer has.\<close>

definition buffer_new_lookup :: "pool \<Rightarrow> bytes \<Rightarrow> pool \<times> crypto_buffer option" where
  "buffer_new_lookup pool d =
    (case lh_retrieve (bufs pool) \<lparr> buf_ptr = 0, buf_data = d \<rparr> of
       Some duplicate \<Rightarrow> (inc_reference pool duplicate, Some duplicate)
     | None \<Rightarrow> (pool, None))"

text \<open>The allocation between the two critical sections.\<close>

definition buffer_new_alloc :: "(nat \<Rightarrow> bool) \<Rightarrow> pool \<Rightarrow> bytes \<Rightarrow> pool \<times> crypto_buffer option" where
  "buffer_new_alloc grants pool d =
    (if \<not> grants sizeof_CRYPTO_BUFFER then (pool, None)
     else if d \<noteq> [] \<and> \<not> grants (length d) then (pool, None)
     else (pool\<lparr> references := (references pool)(next_ptr pool \<mapsto> 1), next_ptr := next_ptr pool + 1 \<rparr>,
           Some \<lparr> buf_ptr = next_ptr pool, buf_data = d \<rparr>))"

text \<open>The second critical section: insert, or drop the new buffer and share the one that won.  The
  outer option is the assertion that \<open>old\<close> is null.\<close>

definition buffer_new_insert :: "(nat \<Rightarrow> bool) \<Rightarrow> pool \<Rightarrow> crypto_buffer \<Rightarrow> (pool \<times> crypto_buffer option) option" where
  "buffer_new_insert grants pool buf =
    (case lh_retrieve (bufs pool) buf of
       None \<Rightarrow>
         (case lh_insert grants (bufs pool) buf of (bufs', inserted, old) \<Rightarrow>
           if old \<noteq> None then None
           else if inserted then Some (pool\<lparr> bufs := bufs' \<rparr>, Some buf)
           else Some (pool\<lparr> bufs := bufs', references := (references pool)(buf_ptr buf := None) \<rparr>, None))
     | Some duplicate \<Rightarrow>
         let pool = inc_reference pool duplicate
         in Some (pool\<lparr> references := (references pool)(buf_ptr buf := None) \<rparr>, Some duplicate))"

text \<open>\<open>CRYPTO_BUFFER_new\<close> when no other thread runs in between.\<close>

definition CRYPTO_BUFFER_new :: "(nat \<Rightarrow> bool) \<Rightarrow> pool \<Rightarrow> bytes \<Rightarrow> (pool \<times> crypto_buffer option) option" where
  "CRYPTO_BUFFER_new grants pool d =
    (case buffer_new_lookup pool d of
       (pool, Some duplicate) \<Rightarrow> Some (pool, Some duplicate)
     | (pool, None) \<Rightarrow>
         case buffer_new_alloc grants pool d of
           (pool, None) \<Rightarrow> Some (pool, None)
         | (pool, Some buf) \<Rightarrow> buffer_new_insert grants pool buf)"

text \<open>\<open>CRYPTO_BUFFER_free\<close> of a pooled buffer; \<open>None\<close> is an abort or a failed assertion.\<close>

definition CRYPTO_BUFFER_free :: "(nat \<Rightarrow> bool) \<Rightarrow> pool \<Rightarrow> crypto_buffer \<Rightarrow> pool option" where
  "CRYPTO_BUFFER_free grants pool buf =
    (case references pool (buf_ptr buf) of
       None \<Rightarrow> None
     | Some n \<Rightarrow>
         case CRYPTO_refcount_dec_and_test_zero n of
           None \<Rightarrow> None
         | Some (n', zero) \<Rightarrow>
             if \<not> zero then Some (pool\<lparr> references := (references pool)(buf_ptr buf \<mapsto> n') \<rparr>)
             else case lh_delete grants (bufs pool) buf of (bufs', found) \<Rightarrow>
               if found \<noteq> Some buf then None
               else Some (pool\<lparr> bufs := bufs', references := (references pool)(buf_ptr buf := None) \<rparr>))"

definition CRYPTO_BUFFER_up_ref :: "pool \<Rightarrow> crypto_buffer \<Rightarrow> pool" where
  "CRYPTO_BUFFER_up_ref pool buf = inc_reference pool buf"

section \<open>The hash table of buffers\<close>

lemma CRYPTO_BUFFER_cmp_0: "CRYPTO_BUFFER_cmp a b = 0 \<longleftrightarrow> buf_data a = buf_data b"
  using bytes_cmp_0 [of "buf_data a" "buf_data b"] by (simp add: CRYPTO_BUFFER_cmp_def bytes_cmp_def)

interpretation buffers: hashing CRYPTO_BUFFER_cmp CRYPTO_BUFFER_hash
  by standard (auto simp: CRYPTO_BUFFER_cmp_0 CRYPTO_BUFFER_hash_def)

section \<open>All interleavings\<close>

text \<open>The steps threads can take, on the pool, the list of buffers that were allocated and not
  yet inserted, and the references that the threads own: \<open>CRYPTO_BUFFER_new\<close> gives its caller one, \<open>CRYPTO_BUFFER_up_ref\<close>
  gives the owner of one another, and only the owner of a reference may give it up.  What a thread may do
  thus depends on the references handed out, not on the state of the pool.\<close>

fun handed_out :: "crypto_buffer option \<Rightarrow> crypto_buffer multiset" where
  "handed_out None = {#}"
| "handed_out (Some b) = {#b#}"

type_synonym pool_state = "pool \<times> crypto_buffer list \<times> crypto_buffer multiset"

inductive pool_step :: "pool_state \<Rightarrow> pool_state \<Rightarrow> bool" where
  lookup: "buffer_new_lookup pool d = (pool', r) \<Longrightarrow> pool_step (pool, pend, held) (pool', pend, handed_out r + held)"
| alloc: "buffer_new_alloc grants pool d = (pool', Some buf) \<Longrightarrow> pool_step (pool, pend, held) (pool', buf # pend, held)"
| insert: "buf \<in> set pend \<Longrightarrow> buffer_new_insert grants pool buf = Some (pool', r) \<Longrightarrow>
    pool_step (pool, pend, held) (pool', remove1 buf pend, handed_out r + held)"
| up_ref: "buf \<in># held \<Longrightarrow> pool_step (pool, pend, held) (CRYPTO_BUFFER_up_ref pool buf, pend, add_mset buf held)"
| release: "buf \<in># held \<Longrightarrow> CRYPTO_BUFFER_free grants pool buf = Some pool' \<Longrightarrow>
    pool_step (pool, pend, held) (pool', pend, held - {#buf#})"

definition pool_ok :: "pool \<times> crypto_buffer list \<Rightarrow> bool" where
  "pool_ok = (\<lambda>(pool, pend).
    lh_ok (bufs pool) \<and> lh_comp (bufs pool) = CRYPTO_BUFFER_cmp \<and> lh_hash (bufs pool) = CRYPTO_BUFFER_hash \<and>
    distinct (map buf_ptr pend) \<and>
    inj_on buf_ptr (lh_elems (bufs pool)) \<and>
    buf_ptr ` lh_elems (bufs pool) \<inter> buf_ptr ` set pend = {} \<and>
    (\<forall>b\<in>lh_elems (bufs pool) \<union> set pend. buf_ptr b < next_ptr pool \<and>
       (\<exists>n. references pool (buf_ptr b) = Some n \<and> n \<noteq> 0)))"

lemma pool_okD:
  assumes "pool_ok (pool, pend)"
  shows "lh_ok (bufs pool)" "lh_comp (bufs pool) = CRYPTO_BUFFER_cmp" "lh_hash (bufs pool) = CRYPTO_BUFFER_hash"
    "distinct (map buf_ptr pend)" "inj_on buf_ptr (lh_elems (bufs pool))"
    "buf_ptr ` lh_elems (bufs pool) \<inter> buf_ptr ` set pend = {}"
    "b \<in> lh_elems (bufs pool) \<union> set pend \<Longrightarrow> buf_ptr b < next_ptr pool"
    "b \<in> lh_elems (bufs pool) \<union> set pend \<Longrightarrow> \<exists>n. references pool (buf_ptr b) = Some n \<and> n \<noteq> 0"
  using assms by (auto simp: pool_ok_def)

lemma pool_okI:
  assumes "lh_ok (bufs pool)" "lh_comp (bufs pool) = CRYPTO_BUFFER_cmp" "lh_hash (bufs pool) = CRYPTO_BUFFER_hash"
    "distinct (map buf_ptr pend)" "inj_on buf_ptr (lh_elems (bufs pool))"
    "buf_ptr ` lh_elems (bufs pool) \<inter> buf_ptr ` set pend = {}"
    "\<And>b. b \<in> lh_elems (bufs pool) \<union> set pend \<Longrightarrow> buf_ptr b < next_ptr pool"
    "\<And>b. b \<in> lh_elems (bufs pool) \<union> set pend \<Longrightarrow> \<exists>n. references pool (buf_ptr b) = Some n \<and> n \<noteq> 0"
  shows "pool_ok (pool, pend)"
  using assms unfolding pool_ok_def by blast

lemma inc_not_0: "n \<noteq> 0 \<Longrightarrow> CRYPTO_refcount_inc n \<noteq> 0"
proof -
  assume "n \<noteq> 0"
  have "n + 1 \<noteq> 0" if "n < CRYPTO_REFCOUNT_MAX"
  proof -
    have "unat n + 1 < 2 ^ 32" using that by (simp add: CRYPTO_REFCOUNT_MAX_def word_less_nat_alt)
    then have "unat (n + 1) = unat n + 1" by (simp add: unat_word_ariths)
    then show ?thesis by (metis Suc_eq_plus1 nat.distinct(1) unat_0)
  qed
  then show ?thesis using \<open>n \<noteq> 0\<close> by (simp add: CRYPTO_refcount_inc_def)
qed

lemma inc_reference_simps [simp]:
  "bufs (inc_reference pool b) = bufs pool" "next_ptr (inc_reference pool b) = next_ptr pool"
  by (simp_all add: inc_reference_def)

lemma inc_reference_ok:
  assumes "pool_ok (pool, pend)"
  shows "pool_ok (inc_reference pool b, pend)"
proof (rule pool_okI)
  fix x assume "x \<in> lh_elems (bufs (inc_reference pool b)) \<union> set pend"
  then obtain n where n: "references pool (buf_ptr x) = Some n" "n \<noteq> 0"
    using pool_okD(8) [OF assms, of x] by auto
  then show "\<exists>n. references (inc_reference pool b) (buf_ptr x) = Some n \<and> n \<noteq> 0"
    using inc_not_0 by (cases "buf_ptr x = buf_ptr b") (simp_all add: inc_reference_def)
qed (use pool_okD [OF assms] in simp_all)

lemma pool_ok_lookup: "pool_ok (pool, pend) \<Longrightarrow> buffer_new_lookup pool d = (pool', r) \<Longrightarrow> pool_ok (pool', pend)"
  by (auto simp: buffer_new_lookup_def inc_reference_ok split: option.splits)

lemma pool_ok_alloc:
  assumes ok: "pool_ok (pool, pend)" and a: "buffer_new_alloc grants pool d = (pool', Some buf)"
  shows "pool_ok (pool', buf # pend)"
proof -
  have p: "pool' = pool\<lparr> references := (references pool)(next_ptr pool \<mapsto> 1), next_ptr := next_ptr pool + 1 \<rparr>"
    "buf = \<lparr> buf_ptr = next_ptr pool, buf_data = d \<rparr>"
    using a by (auto simp: buffer_new_alloc_def split: if_splits)
  have "buf_ptr b \<noteq> next_ptr pool" if "b \<in> lh_elems (bufs pool) \<union> set pend" for b
    using pool_okD(7) [OF ok that] by simp
  then show ?thesis using pool_okD [OF ok]
    unfolding pool_ok_def prod.case p by (force simp: less_Suc_eq)
qed

lemma pending_removed:
  assumes "distinct (map buf_ptr pend)" and "buf \<in> set pend"
  shows "distinct (map buf_ptr (remove1 buf pend))" "set (remove1 buf pend) = set pend - {buf}"
    "b \<in> set pend - {buf} \<Longrightarrow> buf_ptr b \<noteq> buf_ptr buf"
  using assms by (auto simp: distinct_map distinct_remove1 inj_on_def)

text \<open>Removing a pending buffer together with its reference.\<close>

lemma pool_ok_drop:
  assumes ok: "pool_ok (pool, pend)" and b: "buf \<in> set pend"
  shows "pool_ok (pool\<lparr> references := (references pool)(buf_ptr buf := None) \<rparr>, remove1 buf pend)"
proof -
  note rem = pending_removed [OF pool_okD(4) [OF ok] b]
  have "buf_ptr x \<noteq> buf_ptr buf" if "x \<in> lh_elems (bufs pool) \<union> set (remove1 buf pend)" for x
    using that pool_okD(6) [OF ok] b rem by (metis IntI UnE empty_iff image_eqI)
  then show ?thesis using pool_okD [OF ok] rem(1,2)
    unfolding pool_ok_def prod.case by (auto simp: inj_on_def)
qed

lemma retrieve_buffer:
  assumes "pool_ok (pool, pend)"
  shows "lh_retrieve (bufs pool) b = Some x \<longleftrightarrow> x \<in> lh_elems (bufs pool) \<and> buf_data x = buf_data b"
  using buffers.retrieve_iff [OF pool_okD(1-3) [OF assms]] by (simp add: CRYPTO_BUFFER_cmp_0)

lemma pool_ok_insert:
  assumes ok: "pool_ok (pool, pend)" and b: "buf \<in> set pend"
  shows "\<exists>pool' r. buffer_new_insert grants pool buf = Some (pool', r) \<and> pool_ok (pool', remove1 buf pend) \<and>
    (\<forall>x. r = Some x \<longrightarrow> buf_data x = buf_data buf \<and> x \<in> lh_elems (bufs pool'))"
proof (cases "lh_retrieve (bufs pool) buf")
  case (Some x)
  then show ?thesis
    using pool_ok_drop [OF inc_reference_ok [OF ok, of x] b] retrieve_buffer [OF ok, of buf x]
    by (simp add: buffer_new_insert_def Let_def)
next
  case None
  obtain bufs' stored old where i: "lh_insert grants (bufs pool) buf = (bufs', stored, old)" by (metis prod_cases3)
  note spec = buffers.insert_spec [OF pool_okD(1-3) [OF ok] i]
  have old: "old = None" using spec None by simp
  show ?thesis
  proof (cases stored)
    case False
    then show ?thesis using spec None old i pool_ok_drop [OF ok b] by (simp add: buffer_new_insert_def)
  next
    case True
    have "\<forall>y\<in>lh_elems (bufs pool). CRYPTO_BUFFER_cmp y buf \<noteq> 0"
      using None retrieve_buffer [OF ok, of buf] by (auto simp: CRYPTO_BUFFER_cmp_0)
    then have "{y \<in> lh_elems (bufs pool). CRYPTO_BUFFER_cmp y buf \<noteq> 0} = lh_elems (bufs pool)" by auto
    then have e: "lh_elems bufs' = insert buf (lh_elems (bufs pool))" using spec True by simp
    note rem = pending_removed [OF pool_okD(4) [OF ok] b]
    have "buf_ptr buf \<notin> buf_ptr ` lh_elems (bufs pool)" using pool_okD(6) [OF ok] b by blast
    then have fresh: "buf_ptr buf \<notin> buf_ptr ` (lh_elems (bufs pool) - {buf})" by blast
    have sub: "lh_elems bufs' \<union> set (remove1 buf pend) = lh_elems (bufs pool) \<union> set pend" using e rem(2) b by auto
    have "pool_ok (pool\<lparr> bufs := bufs' \<rparr>, remove1 buf pend)"
    proof (rule pool_okI)
      show "inj_on buf_ptr (lh_elems (bufs (pool\<lparr> bufs := bufs' \<rparr>)))"
        using pool_okD(5) [OF ok] fresh e by simp
      show "buf_ptr ` lh_elems (bufs (pool\<lparr> bufs := bufs' \<rparr>)) \<inter> buf_ptr ` set (remove1 buf pend) = {}"
        using pool_okD(6) [OF ok] e rem(2,3) by (auto, metis)
    qed (use spec rem(1) sub pool_okD(7,8) [OF ok] in simp_all)
    then show ?thesis using None i old True e by (simp add: buffer_new_insert_def)
  qed
qed

lemma pool_ok_free:
  assumes ok: "pool_ok (pool, pend)" and b: "buf \<in> lh_elems (bufs pool)"
  shows "\<exists>pool'. CRYPTO_BUFFER_free grants pool buf = Some pool' \<and> pool_ok (pool', pend)"
proof -
  obtain n where n: "references pool (buf_ptr buf) = Some n" "n \<noteq> 0" using pool_okD(8) [OF ok, of buf] b by blast
  then obtain n' where d: "CRYPTO_refcount_dec_and_test_zero n = Some (n', n' = 0)"
    by (simp add: CRYPTO_refcount_dec_and_test_zero_def Let_def)
  show ?thesis
  proof (cases "n' = 0")
    case False
    have "pool_ok (pool\<lparr> references := (references pool)(buf_ptr buf \<mapsto> n') \<rparr>, pend)"
      using ok False unfolding pool_ok_def prod.case by simp
    then show ?thesis using n d False by (simp add: CRYPTO_BUFFER_free_def)
  next
    case True
    obtain bufs' found where del: "lh_delete grants (bufs pool) buf = (bufs', found)" by fastforce
    note spec = buffers.delete_spec [OF pool_okD(1-3) [OF ok] del]
    have "found = Some buf" using spec retrieve_buffer [OF ok, of buf buf] b by simp
    moreover have "pool_ok (pool\<lparr> bufs := bufs', references := (references pool)(buf_ptr buf := None) \<rparr>, pend)"
    proof -
      have e: "lh_elems bufs' \<subseteq> lh_elems (bufs pool) - {buf}" using spec buffers.same_refl by auto
      have "buf_ptr x \<noteq> buf_ptr buf" if "x \<in> lh_elems bufs' \<union> set pend" for x
        using that e b pool_okD(5,6) [OF ok] unfolding inj_on_def by blast
      note ne = this
      show ?thesis
      proof (rule pool_okI)
        show "inj_on buf_ptr (lh_elems (bufs (pool\<lparr> bufs := bufs', references := (references pool)(buf_ptr buf := None) \<rparr>)))"
          using inj_on_subset [OF pool_okD(5) [OF ok]] e by auto
        show "buf_ptr ` lh_elems (bufs (pool\<lparr> bufs := bufs', references := (references pool)(buf_ptr buf := None) \<rparr>)) \<inter>
            buf_ptr ` set pend = {}"
          using pool_okD(6) [OF ok] e by auto
        fix x assume x: "x \<in> lh_elems (bufs (pool\<lparr> bufs := bufs', references := (references pool)(buf_ptr buf := None) \<rparr>)) \<union> set pend"
        then have "x \<in> lh_elems (bufs pool) \<union> set pend" using e by auto
        then show "\<exists>n. references (pool\<lparr> bufs := bufs', references := (references pool)(buf_ptr buf := None) \<rparr>) (buf_ptr x) = Some n \<and> n \<noteq> 0"
          and "buf_ptr x < next_ptr (pool\<lparr> bufs := bufs', references := (references pool)(buf_ptr buf := None) \<rparr>)"
          using pool_okD(7,8) [OF ok] ne x by simp_all
      qed (use spec pool_okD(4) [OF ok] in simp_all)
    qed
    ultimately show ?thesis using n d True del by (simp add: CRYPTO_BUFFER_free_def)
  qed
qed

lemma same_data_same_buffer:
  assumes "pool_ok (pool, pend)" and "a \<in> lh_elems (bufs pool)" "b \<in> lh_elems (bufs pool)" "buf_data a = buf_data b"
  shows "a = b"
  using retrieve_buffer [OF assms(1), of a a] retrieve_buffer [OF assms(1), of a b] assms(2-4) by simp

text \<open>A buffer to which someone owns a reference is in the pool, and its count is the number of references to it that are owned, as
  long as it has not reached the maximum, where it stays.\<close>

definition counted :: "u32 \<Rightarrow> nat \<Rightarrow> bool" where
  "counted n k \<longleftrightarrow> n = CRYPTO_REFCOUNT_MAX \<or> unat n = k"

definition owned_ok :: "pool_state \<Rightarrow> bool" where
  "owned_ok = (\<lambda>(pool, pend, held). set_mset held \<subseteq> lh_elems (bufs pool) \<and>
     (\<forall>b\<in>lh_elems (bufs pool). \<exists>n. references pool (buf_ptr b) = Some n \<and> counted n (count held b)) \<and>
     (\<forall>b\<in>set pend. references pool (buf_ptr b) = Some 1))"

lemma owned_okD:
  assumes "owned_ok (pool, pend, held)"
  shows "b \<in># held \<Longrightarrow> b \<in> lh_elems (bufs pool)"
    "b \<in> lh_elems (bufs pool) \<Longrightarrow> \<exists>n. references pool (buf_ptr b) = Some n \<and> counted n (count held b)"
    "b \<in> set pend \<Longrightarrow> references pool (buf_ptr b) = Some 1"
  using assms by (auto simp: owned_ok_def)

lemma refcount_max: "n \<le> CRYPTO_REFCOUNT_MAX"
  using uint_bounded [of n] by (simp add: word_le_def CRYPTO_REFCOUNT_MAX_def)

lemma counted_inc: "counted n k \<Longrightarrow> counted (CRYPTO_refcount_inc n) (Suc k)"
proof (cases "n < CRYPTO_REFCOUNT_MAX")
  case True
  then have "unat n + 1 < 2 ^ 32" by (simp add: CRYPTO_REFCOUNT_MAX_def word_less_nat_alt)
  then have "unat (n + 1) = unat n + 1" by (simp add: unat_word_ariths)
  then show "counted n k \<Longrightarrow> ?thesis" using True by (auto simp: counted_def CRYPTO_refcount_inc_def)
next
  case False
  have "n \<le> CRYPTO_REFCOUNT_MAX" by (rule refcount_max)
  then show ?thesis using False by (auto simp: counted_def CRYPTO_refcount_inc_def)
qed

lemma counted_dec:
  assumes "counted n k" "n \<noteq> 0" "k \<noteq> 0"
  shows "CRYPTO_refcount_dec_and_test_zero n = Some (if n < CRYPTO_REFCOUNT_MAX then n - 1 else n, n \<noteq> CRYPTO_REFCOUNT_MAX \<and> k = 1)"
    and "counted (if n < CRYPTO_REFCOUNT_MAX then n - 1 else n) (k - 1)"
proof -
  have le: "n \<le> CRYPTO_REFCOUNT_MAX" by (rule refcount_max)
  then have lt: "n < CRYPTO_REFCOUNT_MAX \<longleftrightarrow> n \<noteq> CRYPTO_REFCOUNT_MAX" by auto
  have u: "unat (n - 1) = unat n - 1" using assms(2) by (simp add: unat_minus_one)
  have z: "n - 1 = 0 \<longleftrightarrow> unat n = 1" using u assms(2) unat_eq_0 [of "n - 1"] unat_eq_0 [of n] by linarith
  have "CRYPTO_REFCOUNT_MAX \<noteq> 0" by (simp add: CRYPTO_REFCOUNT_MAX_def)
  then show "CRYPTO_refcount_dec_and_test_zero n = Some (if n < CRYPTO_REFCOUNT_MAX then n - 1 else n, n \<noteq> CRYPTO_REFCOUNT_MAX \<and> k = 1)"
    using assms z by (auto simp: CRYPTO_refcount_dec_and_test_zero_def Let_def lt counted_def)
  show "counted (if n < CRYPTO_REFCOUNT_MAX then n - 1 else n) (k - 1)"
    using assms u by (auto simp: counted_def lt)
qed

lemma owned_inc:
  assumes ok: "pool_ok (pool, pend)" and own: "owned_ok (pool, pend, held)" and b: "b \<in> lh_elems (bufs pool)"
  shows "owned_ok (inc_reference pool b, pend, add_mset b held)"
proof -
  have ptr: "buf_ptr x = buf_ptr b \<longleftrightarrow> x = b" if "x \<in> lh_elems (bufs pool)" for x
    using pool_okD(5) [OF ok] that b by (auto simp: inj_on_def)
  have pend: "buf_ptr x \<noteq> buf_ptr b" if "x \<in> set pend" for x using pool_okD(6) [OF ok] that b by (metis IntI empty_iff image_eqI)
  have "\<exists>n. references (inc_reference pool b) (buf_ptr x) = Some n \<and> counted n (count (add_mset b held) x)"
    if x: "x \<in> lh_elems (bufs pool)" for x
  proof -
    obtain n where n: "references pool (buf_ptr x) = Some n" "counted n (count held x)" using owned_okD(2) [OF own x] by blast
    then show ?thesis using ptr [OF x] counted_inc [OF n(2)] by (cases "x = b") (simp_all add: inc_reference_def)
  qed
  moreover have "references (inc_reference pool b) (buf_ptr x) = Some 1" if "x \<in> set pend" for x
    using owned_okD(3) [OF own that] pend [OF that] by (simp add: inc_reference_def)
  ultimately show ?thesis using own b by (simp add: owned_ok_def)
qed

lemma owned_lookup:
  assumes "pool_ok (pool, pend)" "owned_ok (pool, pend, held)" "buffer_new_lookup pool d = (pool', r)"
  shows "owned_ok (pool', pend, handed_out r + held)"
proof (cases "lh_retrieve (bufs pool) \<lparr> buf_ptr = 0, buf_data = d \<rparr>")
  case None
  then have "pool' = pool" "r = None" using assms(3) by (simp_all add: buffer_new_lookup_def)
  then show ?thesis using assms(2) by simp
next
  case (Some x)
  then have "pool' = inc_reference pool x" "r = Some x" using assms(3) by (simp_all add: buffer_new_lookup_def)
  moreover have "x \<in> lh_elems (bufs pool)" using Some retrieve_buffer [OF assms(1)] by simp
  ultimately show ?thesis using owned_inc [OF assms(1,2)] by simp
qed

lemma owned_alloc:
  assumes ok: "pool_ok (pool, pend)" and own: "owned_ok (pool, pend, held)" and a: "buffer_new_alloc grants pool d = (pool', Some buf)"
  shows "owned_ok (pool', buf # pend, held)"
proof -
  have p: "pool' = pool\<lparr> references := (references pool)(next_ptr pool \<mapsto> 1), next_ptr := next_ptr pool + 1 \<rparr>"
    "buf = \<lparr> buf_ptr = next_ptr pool, buf_data = d \<rparr>"
    using a by (auto simp: buffer_new_alloc_def split: if_splits)
  have "buf_ptr b \<noteq> next_ptr pool" if "b \<in> lh_elems (bufs pool) \<union> set pend" for b
    using pool_okD(7) [OF ok that] by simp
  then show ?thesis using own by (auto simp: owned_ok_def p)
qed

text \<open>Giving up a buffer that is not in the pool.\<close>

lemma owned_drop:
  assumes ok: "pool_ok (pool, pend)" and own: "owned_ok (pool, pend, held)" and b: "buf \<in> set pend"
  shows "owned_ok (pool\<lparr> references := (references pool)(buf_ptr buf := None) \<rparr>, remove1 buf pend, held)"
proof -
  note rem = pending_removed [OF pool_okD(4) [OF ok] b]
  have "buf_ptr x \<noteq> buf_ptr buf" if "x \<in> lh_elems (bufs pool) \<union> set (remove1 buf pend)" for x
    using that pool_okD(6) [OF ok] b rem by (metis IntI UnE empty_iff image_eqI)
  then show ?thesis using own rem(2) by (auto simp: owned_ok_def)
qed

lemma owned_insert:
  assumes ok: "pool_ok (pool, pend)" and own: "owned_ok (pool, pend, held)" and b: "buf \<in> set pend"
    and i: "buffer_new_insert grants pool buf = Some (pool', r)"
  shows "owned_ok (pool', remove1 buf pend, handed_out r + held)"
proof (cases "lh_retrieve (bufs pool) buf")
  case (Some x)
  then have x: "x \<in> lh_elems (bufs pool)" using retrieve_buffer [OF ok, of buf x] by simp
  have "pool' = inc_reference pool x \<lparr> references := (references (inc_reference pool x))(buf_ptr buf := None) \<rparr>" "r = Some x"
    using i Some by (simp_all add: buffer_new_insert_def Let_def)
  then show ?thesis using owned_drop [OF inc_reference_ok [OF ok] owned_inc [OF ok own x] b] by simp
next
  case None
  obtain bufs' stored old where l: "lh_insert grants (bufs pool) buf = (bufs', stored, old)" by (metis prod_cases3)
  note spec = buffers.insert_spec [OF pool_okD(1-3) [OF ok] l]
  have old: "old = None" using spec None by simp
  show ?thesis
  proof (cases stored)
    case False
    then have "bufs' = bufs pool" using spec by simp
    then show ?thesis using i None l old False owned_drop [OF ok own b] by (auto simp: buffer_new_insert_def)
  next
    case True
    have "\<forall>y\<in>lh_elems (bufs pool). CRYPTO_BUFFER_cmp y buf \<noteq> 0"
      using None retrieve_buffer [OF ok, of buf] by (auto simp: CRYPTO_BUFFER_cmp_0)
    then have "{y \<in> lh_elems (bufs pool). CRYPTO_BUFFER_cmp y buf \<noteq> 0} = lh_elems (bufs pool)" by auto
    then have e: "lh_elems bufs' = insert buf (lh_elems (bufs pool))" using spec True by simp
    have "buf \<notin> lh_elems (bufs pool)" using pool_okD(6) [OF ok] b by (metis IntI empty_iff image_eqI)
    then have "count held buf = 0" using owned_okD(1) [OF own] by (metis count_eq_zero_iff)
    moreover have "counted 1 1" by (simp add: counted_def)
    moreover have "count (add_mset buf held) x = count held x" if "x \<in> lh_elems (bufs pool)" for x
      using that \<open>buf \<notin> lh_elems (bufs pool)\<close> by auto
    moreover have "set (remove1 buf pend) \<subseteq> set pend" by (rule set_remove1_subset)
    moreover have "pool' = pool\<lparr> bufs := bufs' \<rparr>" "r = Some buf"
      using i None l old True by (simp_all add: buffer_new_insert_def)
    ultimately show ?thesis using own e owned_okD(3) [OF own b] by (auto simp: owned_ok_def)
  qed
qed

text \<open>Giving up an owned reference: nothing aborts, and the buffer leaves the pool with the last reference, unless its
  count is at the maximum.\<close>

lemma owned_free:
  assumes ok: "pool_ok (pool, pend)" and own: "owned_ok (pool, pend, held)" and b: "b \<in># held"
  shows "\<exists>pool'. CRYPTO_BUFFER_free grants pool b = Some pool' \<and> owned_ok (pool', pend, held - {#b#}) \<and>
    (b \<in> lh_elems (bufs pool') \<longleftrightarrow> 1 < count held b \<or> references pool (buf_ptr b) = Some CRYPTO_REFCOUNT_MAX)"
proof -
  have be: "b \<in> lh_elems (bufs pool)" using owned_okD(1) [OF own b] .
  obtain n where n: "references pool (buf_ptr b) = Some n" "counted n (count held b)" using owned_okD(2) [OF own be] by blast
  have n0: "n \<noteq> 0" using pool_okD(8) [OF ok, of b] be n by auto
  have k0: "count held b \<noteq> 0" using b by simp
  note dec = counted_dec [OF n(2) n0 k0]
  let ?n = "if n < CRYPTO_REFCOUNT_MAX then n - 1 else n"
  have ptr: "buf_ptr x = buf_ptr b \<longleftrightarrow> x = b" if "x \<in> lh_elems (bufs pool)" for x
    using pool_okD(5) [OF ok] that be by (auto simp: inj_on_def)
  have pend: "buf_ptr x \<noteq> buf_ptr b" if "x \<in> set pend" for x using pool_okD(6) [OF ok] that be by (metis IntI empty_iff image_eqI)
  have kept: "\<exists>m. references pool (buf_ptr x) = Some m \<and> counted m (count (held - {#b#}) x)" if "x \<in> lh_elems (bufs pool)" "x \<noteq> b" for x
    using owned_okD(2) [OF own that(1)] that(2) by simp
  have sub: "set_mset (held - {#b#}) \<subseteq> lh_elems (bufs pool)" using owned_okD(1) [OF own] by (meson in_diffD subsetI)
  show ?thesis
  proof (cases "n \<noteq> CRYPTO_REFCOUNT_MAX \<and> count held b = 1")
    case False
    let ?pool = "pool\<lparr> references := (references pool)(buf_ptr b \<mapsto> ?n) \<rparr>"
    have "\<exists>m. references ?pool (buf_ptr x) = Some m \<and> counted m (count (held - {#b#}) x)" if x: "x \<in> lh_elems (bufs pool)" for x
      using kept [OF x] dec(2) ptr [OF x] by (cases "x = b") simp_all
    then have "owned_ok (?pool, pend, held - {#b#})" using sub pend owned_okD(3) [OF own] by (auto simp: owned_ok_def)
    moreover have "CRYPTO_BUFFER_free grants pool b = Some ?pool" using n(1) dec(1) False by (simp add: CRYPTO_BUFFER_free_def)
    moreover have "1 < count held b \<or> n = CRYPTO_REFCOUNT_MAX" using False k0 by linarith
    ultimately show ?thesis using be n(1) by (intro exI [of _ ?pool]) simp
  next
    case True
    obtain bufs' found where del: "lh_delete grants (bufs pool) b = (bufs', found)" by fastforce
    note spec = buffers.delete_spec [OF pool_okD(1-3) [OF ok] del]
    have found: "found = Some b" using spec retrieve_buffer [OF ok, of b b] be by simp
    have e: "lh_elems bufs' = lh_elems (bufs pool) - {b}"
      using spec same_data_same_buffer [OF ok] be by (auto simp: CRYPTO_BUFFER_cmp_0)
    let ?pool = "pool\<lparr> bufs := bufs', references := (references pool)(buf_ptr b := None) \<rparr>"
    have "count (held - {#b#}) b = 0" using True by simp
    then have "b \<notin># held - {#b#}" by (simp add: not_in_iff)
    then have "set_mset (held - {#b#}) \<subseteq> lh_elems bufs'" using sub e by auto
    moreover have "\<exists>m. references ?pool (buf_ptr x) = Some m \<and> counted m (count (held - {#b#}) x)" if "x \<in> lh_elems bufs'" for x
      using kept [of x] ptr [of x] that e by auto
    ultimately have "owned_ok (?pool, pend, held - {#b#})" using pend owned_okD(3) [OF own] by (auto simp: owned_ok_def)
    moreover have "CRYPTO_BUFFER_free grants pool b = Some ?pool" using n(1) dec(1) True del found by (simp add: CRYPTO_BUFFER_free_def)
    ultimately show ?thesis using True n(1) e by (intro exI [of _ ?pool]) simp
  qed
qed

definition pool_inv :: "pool_state \<Rightarrow> bool" where
  "pool_inv st \<longleftrightarrow> pool_ok (fst st, fst (snd st)) \<and> owned_ok st"

lemma pool_inv_step: "pool_step st st' \<Longrightarrow> pool_inv st \<Longrightarrow> pool_inv st'"
proof (induction rule: pool_step.induct)
  case (lookup pool d pool' r pend held)
  then have ok: "pool_ok (pool, pend)" "owned_ok (pool, pend, held)" by (simp_all add: pool_inv_def)
  show ?case using pool_ok_lookup [OF ok(1) lookup(1)] owned_lookup [OF ok lookup(1)] by (simp add: pool_inv_def)
next
  case (alloc grants pool d pool' buf pend held)
  then have ok: "pool_ok (pool, pend)" "owned_ok (pool, pend, held)" by (simp_all add: pool_inv_def)
  show ?case using pool_ok_alloc [OF ok(1) alloc(1)] owned_alloc [OF ok alloc(1)] by (simp add: pool_inv_def)
next
  case (insert buf pend grants pool pool' r held)
  then have ok: "pool_ok (pool, pend)" "owned_ok (pool, pend, held)" by (simp_all add: pool_inv_def)
  have "pool_ok (pool', remove1 buf pend)" using pool_ok_insert [OF ok(1) insert(1), of grants] insert(2) by auto
  then show ?case using owned_insert [OF ok insert(1,2)] by (simp add: pool_inv_def)
next
  case (up_ref buf held pool pend)
  then have "pool_ok (pool, pend)" "owned_ok (pool, pend, held)" "buf \<in> lh_elems (bufs pool)" by (auto simp: pool_inv_def owned_ok_def)
  then show ?case using inc_reference_ok owned_inc by (simp add: pool_inv_def CRYPTO_BUFFER_up_ref_def)
next
  case (release buf held grants pool pool' pend)
  then have ok: "pool_ok (pool, pend)" "owned_ok (pool, pend, held)" by (simp_all add: pool_inv_def)
  have "buf \<in> lh_elems (bufs pool)" using owned_okD(1) [OF ok(2) release(1)] .
  then have "pool_ok (pool', pend)" using pool_ok_free [OF ok(1), of buf grants] release(2) by auto
  then show ?case using owned_free [OF ok release(1), of grants] release(2) by (auto simp: pool_inv_def)
qed

lemma pool_new_ok: "CRYPTO_BUFFER_POOL_new grants = Some pool \<Longrightarrow> pool_ok (pool, [])"
  by (auto simp: CRYPTO_BUFFER_POOL_new_def pool_ok_def dest!: lh_new_ok split: if_splits option.splits)

lemma pool_reachable:
  assumes "CRYPTO_BUFFER_POOL_new grants = Some pool0" and "pool_step\<^sup>*\<^sup>* (pool0, [], {#}) st"
  shows "pool_inv st"
  using assms(2)
proof (induction rule: rtranclp_induct)
  case base
  have "lh_elems (bufs pool0) = {}"
    using assms(1) by (auto simp: CRYPTO_BUFFER_POOL_new_def dest!: lh_new_ok split: if_splits option.splits)
  then show ?case using pool_new_ok [OF assms(1)] by (simp add: pool_inv_def owned_ok_def)
qed (rule pool_inv_step)

lemma pool_new_empty: "CRYPTO_BUFFER_POOL_new grants = Some pool \<Longrightarrow> lh_elems (bufs pool) = {}"
  by (auto simp: CRYPTO_BUFFER_POOL_new_def dest!: lh_new_ok split: if_splits option.splits)

text \<open>The first buffer that goes into a pool, with memory at hand.\<close>

lemma first_insert:
  assumes ok: "pool_ok (pool, pend)" and b: "buf \<in> set pend" and e: "lh_elems (bufs pool) = {}"
  shows "\<exists>bufs'. buffer_new_insert (\<lambda>_. True) pool buf = Some (pool\<lparr> bufs := bufs' \<rparr>, Some buf) \<and> lh_elems bufs' = {buf}"
proof -
  have none: "lh_retrieve (bufs pool) buf = None"
    using retrieve_buffer [OF ok, of buf] e by (cases "lh_retrieve (bufs pool) buf") auto
  obtain h k j where g: "get_next_ptr_and_hash (bufs pool) buf = (h, k, j)" by (metis prod_cases3)
  then have "item_at (bufs pool) k j = None" using none by (simp add: lh_retrieve_def)
  then obtain bufs' old where l: "lh_insert (\<lambda>_. True) (bufs pool) buf = (bufs', True, old)"
    by (simp add: lh_insert_def g Let_def)
  note spec = buffers.insert_spec [OF pool_okD(1-3) [OF ok] l]
  have "old = None" "lh_elems bufs' = {buf}" using spec none e by simp_all
  then show ?thesis using none l by (intro exI [of _ bufs']) (simp add: buffer_new_insert_def)
qed

text \<open>C12. Whatever the interleaving of lookups, insertions, sharing and releases by any number of
  threads, each of which releases only references it owns: no two pooled buffers have the same contents; a buffer
  to which a reference is owned is in the pool, so that it has not been freed; the count of a pooled buffer is positive and, until
  it saturates, the number of references owned; giving up a reference never aborts or
  fails an assertion, and takes the buffer out of the pool exactly with the last one; and neither does inserting a buffer that was allocated.\<close>

theorem pool_interleavings_safe:
  assumes "CRYPTO_BUFFER_POOL_new grants = Some pool0" and "pool_step\<^sup>*\<^sup>* (pool0, [], {#}) (pool, pend, held)"
  shows "inj_on buf_data (lh_elems (bufs pool)) \<and> set_mset held \<subseteq> lh_elems (bufs pool) \<and>
    (\<forall>b\<in>lh_elems (bufs pool). \<exists>n. references pool (buf_ptr b) = Some n \<and> 0 < n \<and> (n = CRYPTO_REFCOUNT_MAX \<or> unat n = count held b)) \<and>
    (\<forall>b\<in>set_mset held. \<exists>pool'. CRYPTO_BUFFER_free grants' pool b = Some pool' \<and>
       (b \<in> lh_elems (bufs pool') \<longleftrightarrow> 1 < count held b \<or> references pool (buf_ptr b) = Some CRYPTO_REFCOUNT_MAX)) \<and>
    (\<forall>b\<in>set pend. buffer_new_insert grants' pool b \<noteq> None)"
proof (intro conjI ballI)
  have ok: "pool_ok (pool, pend)" "owned_ok (pool, pend, held)" using pool_reachable [OF assms] by (simp_all add: pool_inv_def)
  show "inj_on buf_data (lh_elems (bufs pool))"
    by (rule inj_onI) (rule same_data_same_buffer [OF ok(1)])
  show "set_mset held \<subseteq> lh_elems (bufs pool)" using owned_okD(1) [OF ok(2)] by blast
  show "\<exists>n. references pool (buf_ptr b) = Some n \<and> 0 < n \<and> (n = CRYPTO_REFCOUNT_MAX \<or> unat n = count held b)"
    if "b \<in> lh_elems (bufs pool)" for b
    using pool_okD(8) [OF ok(1), of b] owned_okD(2) [OF ok(2) that] that by (auto simp: word_gt_0 counted_def)
  show "\<exists>pool'. CRYPTO_BUFFER_free grants' pool b = Some pool' \<and>
       (b \<in> lh_elems (bufs pool') \<longleftrightarrow> 1 < count held b \<or> references pool (buf_ptr b) = Some CRYPTO_REFCOUNT_MAX)"
    if "b \<in># held" for b
    using owned_free [OF ok that, of grants'] by blast
  show "buffer_new_insert grants' pool b \<noteq> None" if "b \<in> set pend" for b
    using pool_ok_insert [OF ok(1) that, of grants'] by auto
qed

text \<open>A buffer is made, found by a second thread, and released by the first.\<close>

lemma pool_interleavings_safe_witness:
  "\<exists>pool0 pool b. CRYPTO_BUFFER_POOL_new (\<lambda>_. True) = Some pool0 \<and> pool_step\<^sup>*\<^sup>* (pool0, [], {#}) (pool, [], {#b, b#}) \<and>
    buf_data b = [7] \<and> references pool (buf_ptr b) = Some 2 \<and>
    (\<exists>pool'. CRYPTO_BUFFER_free (\<lambda>_. True) pool b = Some pool' \<and> b \<in> lh_elems (bufs pool'))"
proof -
  obtain pool0 where p: "CRYPTO_BUFFER_POOL_new (\<lambda>_. True) = Some pool0"
    by (simp add: CRYPTO_BUFFER_POOL_new_def lh_new_def)
  note ok = pool_new_ok [OF p] and e = pool_new_empty [OF p]
  obtain p1 b where a: "buffer_new_alloc (\<lambda>_. True) pool0 [7] = (p1, Some b)"
    and b: "bufs p1 = bufs pool0" "references p1 (buf_ptr b) = Some 1" "buf_data b = [7]"
    by (simp add: buffer_new_alloc_def)
  note ok1 = pool_ok_alloc [OF ok a]
  obtain bufs' where i: "buffer_new_insert (\<lambda>_. True) p1 b = Some (p1\<lparr> bufs := bufs' \<rparr>, Some b)" and e': "lh_elems bufs' = {b}"
    using first_insert [OF ok1, of b] e b(1) by auto
  let ?p2 = "p1\<lparr> bufs := bufs' \<rparr>"
  have ok2: "pool_ok (?p2, [])" using pool_ok_insert [OF ok1, of b "\<lambda>_. True"] i by auto
  have "lh_retrieve (bufs ?p2) \<lparr> buf_ptr = 0, buf_data = [7] \<rparr> = Some b"
    using retrieve_buffer [OF ok2, of _ b] e' b(3) by simp
  then have l: "buffer_new_lookup ?p2 [7] = (inc_reference ?p2 b, Some b)" by (simp add: buffer_new_lookup_def)
  have "pool_step (pool0, [], {#}) (p1, [b], {#})" by (rule pool_step.alloc [OF a])
  moreover have "pool_step (p1, [b], {#}) (?p2, [], {#b#})" using pool_step.insert [OF _ i, of "[b]" "{#}"] by simp
  moreover have "pool_step (?p2, [], {#b#}) (inc_reference ?p2 b, [], {#b, b#})" using pool_step.lookup [OF l, of "[]" "{#b#}"] by simp
  ultimately have s: "pool_step\<^sup>*\<^sup>* (pool0, [], {#}) (inc_reference ?p2 b, [], {#b, b#})"
    by (meson r_into_rtranclp rtranclp_trans)
  have n: "references (inc_reference ?p2 b) (buf_ptr b) = Some 2"
    using b(2) by (simp add: inc_reference_def CRYPTO_refcount_inc_def CRYPTO_REFCOUNT_MAX_def)
  obtain pool' where "CRYPTO_BUFFER_free (\<lambda>_. True) (inc_reference ?p2 b) b = Some pool'" "b \<in> lh_elems (bufs pool')"
    using pool_interleavings_safe [OF p s, of "\<lambda>_. True"] by auto
  then show ?thesis using p s n b(3) by blast
qed

text \<open>\<open>CRYPTO_BUFFER_new\<close> returns a pooled buffer with the requested contents; when the pool has one,
  that very buffer is returned and its count goes up by one.\<close>

theorem CRYPTO_BUFFER_new_shares:
  assumes "pool_ok (pool, pend)" and "CRYPTO_BUFFER_new grants pool d = Some (pool', Some b)"
  shows "buf_data b = d \<and> b \<in> lh_elems (bufs pool') \<and> pool_ok (pool', pend) \<and>
    (\<forall>a\<in>lh_elems (bufs pool). buf_data a = d \<longrightarrow>
       b = a \<and> references pool' (buf_ptr b) = map_option CRYPTO_refcount_inc (references pool (buf_ptr b)))"
proof (cases "lh_retrieve (bufs pool) \<lparr> buf_ptr = 0, buf_data = d \<rparr>")
  case (Some x)
  then have x: "x \<in> lh_elems (bufs pool)" "buf_data x = d" using retrieve_buffer [OF assms(1)] by auto
  have r: "b = x" "pool' = inc_reference pool x"
    using assms(2) Some by (auto simp: CRYPTO_BUFFER_new_def buffer_new_lookup_def)
  have "\<forall>a\<in>lh_elems (bufs pool). buf_data a = d \<longrightarrow> x = a"
    using x same_data_same_buffer [OF assms(1) x(1)] by simp
  moreover have "references pool' (buf_ptr x) = map_option CRYPTO_refcount_inc (references pool (buf_ptr x))"
    by (simp add: r inc_reference_def)
  moreover have "pool_ok (pool', pend)" using inc_reference_ok [OF assms(1), of x] r by simp
  moreover have "x \<in> lh_elems (bufs pool')" using x r by simp
  ultimately show ?thesis unfolding r(1) using x(2) by blast
next
  case None
  then have new: "\<forall>a\<in>lh_elems (bufs pool). buf_data a \<noteq> d"
    using retrieve_buffer [OF assms(1), of "\<lparr> buf_ptr = 0, buf_data = d \<rparr>"] by auto
  have l: "buffer_new_lookup pool d = (pool, None)" using None by (simp add: buffer_new_lookup_def)
  obtain p1 o1 where a1: "buffer_new_alloc grants pool d = (p1, o1)" by fastforce
  have c: "CRYPTO_BUFFER_new grants pool d =
      (case o1 of None \<Rightarrow> Some (p1, None) | Some buf \<Rightarrow> buffer_new_insert grants p1 buf)"
    by (simp add: CRYPTO_BUFFER_new_def l a1)
  then obtain buf where a: "buffer_new_alloc grants pool d = (p1, Some buf)"
    and i: "buffer_new_insert grants p1 buf = Some (pool', Some b)"
    using assms(2) a1 by (cases o1) simp_all
  have "buf_data buf = d" using a by (auto simp: buffer_new_alloc_def split: if_splits)
  then show ?thesis
    using new pool_ok_insert [OF pool_ok_alloc [OF assms(1) a], of buf grants] i by fastforce
qed

lemma CRYPTO_BUFFER_new_shares_witness:
  "\<exists>pool pool' b. CRYPTO_BUFFER_new (\<lambda>_. True) pool [7] = Some (pool', Some b) \<and> buf_data b = [7]"
proof -
  obtain pool where p: "CRYPTO_BUFFER_POOL_new (\<lambda>_. True) = Some pool"
    by (simp add: CRYPTO_BUFFER_POOL_new_def lh_new_def)
  note ok = pool_new_ok [OF p] and e = pool_new_empty [OF p]
  have "lh_retrieve (bufs pool) x = None" for x
    using retrieve_buffer [OF ok, of x] e by (cases "lh_retrieve (bufs pool) x") auto
  moreover obtain p1 buf where a: "buffer_new_alloc (\<lambda>_. True) pool [7] = (p1, Some buf)" "bufs p1 = bufs pool"
    by (simp add: buffer_new_alloc_def)
  moreover obtain bufs' where "buffer_new_insert (\<lambda>_. True) p1 buf = Some (p1\<lparr> bufs := bufs' \<rparr>, Some buf)"
    using first_insert [OF pool_ok_alloc [OF ok a(1)], of buf] a(2) e by auto
  ultimately have "CRYPTO_BUFFER_new (\<lambda>_. True) pool [7] = Some (p1\<lparr> bufs := bufs' \<rparr>, Some buf)"
    by (simp add: CRYPTO_BUFFER_new_def buffer_new_lookup_def)
  then show ?thesis using CRYPTO_BUFFER_new_shares [OF ok] by blast
qed

end
