(* ===== verification/Buf.thy ===== *)
theory Buf
  imports Mem
begin

text \<open>
  The growing buffer of \<open>crypto/buf/buf.c\<close>.  A pointer into memory is the block it points into with
  its offset there.  Operations that the C standard leaves undefined (a access outside the block, a
  pointer handed to the allocator that it has not returned) and failed assertions have the value
  \<open>None\<close>; every other outcome is \<open>Some\<close>, so that a property which says that an operation yields
  \<open>Some\<close> also says that it is memory safe.
\<close>

section \<open>Pointers\<close>

type_synonym data_ptr = "(bytes \<times> nat) option"

definition load :: "data_ptr \<Rightarrow> nat \<Rightarrow> nat \<Rightarrow> bytes option" where
  "load p off n =
     (case p of
        None \<Rightarrow> if n = 0 then Some [] else None
      | Some (blk, pos) \<Rightarrow> if pos + off + n \<le> length blk then Some (take n (drop (pos + off) blk)) else None)"

definition store :: "data_ptr \<Rightarrow> nat \<Rightarrow> bytes \<Rightarrow> data_ptr option" where
  "store p off bs =
     (case p of
        None \<Rightarrow> if bs = [] then Some None else None
      | Some (blk, pos) \<Rightarrow>
          if pos + off + length bs \<le> length blk then Some (Some (mem_write blk (pos + off) bs, pos)) else None)"

definition heap_realloc :: "heap_env \<Rightarrow> data_ptr \<Rightarrow> nat \<Rightarrow> bytes option option" where
  "heap_realloc env p n =
     (case p of
        None \<Rightarrow> Some (heap_new env n)
      | Some (blk, pos) \<Rightarrow> if pos = 0 then Some (heap_resize env blk n) else None)"

section \<open>Buffers\<close>

record buf_mem =
  bm_length :: nat
  bm_data :: data_ptr
  bm_max :: nat

definition sizeof_BUF_MEM :: nat where
  "sizeof_BUF_MEM = 24"

definition BUF_MEM_new :: "heap_env \<Rightarrow> buf_mem option" where
  "BUF_MEM_new env =
     (case heap_new env sizeof_BUF_MEM of
        None \<Rightarrow> None
      | Some _ \<Rightarrow> Some \<lparr>bm_length = 0, bm_data = None, bm_max = 0\<rparr>)"

definition BUF_MEM_reserve :: "heap_env \<Rightarrow> buf_mem \<Rightarrow> nat \<Rightarrow> (bool \<times> buf_mem) option" where
  "BUF_MEM_reserve env b cap =
     (if bm_max b \<ge> cap then Some (True, b)
      else
        let n = szadd cap 3 in
        if n < cap then Some (False, b)
        else
          let n = n div 3; alloc_size = szmul n 4 in
          if alloc_size div 4 \<noteq> n then Some (False, b)
          else do {
            new_buf \<leftarrow> heap_realloc env (bm_data b) alloc_size;
            case new_buf of
              None \<Rightarrow> Some (False, b)
            | Some blk \<Rightarrow> Some (True, b\<lparr>bm_data := Some (blk, 0), bm_max := alloc_size\<rparr>)
          })"

definition BUF_MEM_grow :: "heap_env \<Rightarrow> buf_mem \<Rightarrow> nat \<Rightarrow> (nat \<times> buf_mem) option" where
  "BUF_MEM_grow env b len = do {
     (ok, b) \<leftarrow> BUF_MEM_reserve env b len;
     if \<not> ok then Some (0, b)
     else do {
       data \<leftarrow> (if bm_length b < len then store (bm_data b) (bm_length b) (replicate (len - bm_length b) 0)
                 else Some (bm_data b));
       Some (len, b\<lparr>bm_data := data, bm_length := len\<rparr>)
     }
   }"

definition BUF_MEM_grow_clean :: "heap_env \<Rightarrow> buf_mem \<Rightarrow> nat \<Rightarrow> (nat \<times> buf_mem) option" where
  "BUF_MEM_grow_clean env b len = BUF_MEM_grow env b len"

definition BUF_MEM_append :: "heap_env \<Rightarrow> buf_mem \<Rightarrow> bytes \<Rightarrow> (bool \<times> buf_mem) option" where
  "BUF_MEM_append env b inp =
     (if length inp = 0 then Some (True, b)
      else
        let new_len = szadd (bm_length b) (length inp) in
        if new_len < length inp then Some (False, b)
        else do {
          (ok, b) \<leftarrow> BUF_MEM_reserve env b new_len;
          if \<not> ok then Some (False, b)
          else do {
            data \<leftarrow> store (bm_data b) (bm_length b) inp;
            Some (True, b\<lparr>bm_data := data, bm_length := new_len\<rparr>)
          }
        })"

section \<open>The invariant\<close>

definition buf_mem_ok :: "buf_mem \<Rightarrow> bool" where
  "buf_mem_ok b \<longleftrightarrow>
     (case bm_data b of
        None \<Rightarrow> bm_max b = 0
      | Some (blk, pos) \<Rightarrow> pos = 0 \<and> length blk = bm_max b \<and> bm_max b + 8 < SIZE_LIMIT) \<and>
     bm_length b \<le> bm_max b"

definition buf_contents :: "buf_mem \<Rightarrow> bytes" where
  "buf_contents b = (case bm_data b of None \<Rightarrow> [] | Some (blk, pos) \<Rightarrow> take (bm_length b) (drop pos blk))"

lemma buf_mem_okE:
  assumes "buf_mem_ok b"
  obtains (empty) "bm_data b = None" "bm_max b = 0" "bm_length b = 0" "buf_contents b = []"
  | (block) blk where "bm_data b = Some (blk, 0)" "length blk = bm_max b" "bm_max b + 8 < SIZE_LIMIT"
      "bm_length b \<le> bm_max b" "buf_contents b = take (bm_length b) blk"
  using assms by (cases "bm_data b") (auto simp: buf_mem_ok_def buf_contents_def)

lemma length_buf_contents: "buf_mem_ok b \<Longrightarrow> length (buf_contents b) = bm_length b"
  by (erule buf_mem_okE) auto

lemma BUF_MEM_new_ok: "BUF_MEM_new env = Some b \<Longrightarrow> buf_mem_ok b \<and> buf_contents b = []"
  by (auto simp: BUF_MEM_new_def buf_mem_ok_def buf_contents_def split: option.splits)

lemma round_up_4_3:
  assumes "szadd cap 3 \<ge> cap" and "cap < SIZE_LIMIT" and "szmul (szadd cap 3 div 3) 4 div 4 = szadd cap 3 div 3"
  shows "cap \<le> szmul (szadd cap 3 div 3) 4"
proof -
  have "szadd cap 3 = cap + 3" using assms(1,2) szadd_overflow_iff [of cap 3] by (auto simp: SIZE_LIMIT_def szadd_def)
  then show ?thesis using assms(3) by linarith
qed

lemma BUF_MEM_reserve_outcome:
  assumes "buf_mem_ok b" and "cap < SIZE_LIMIT"
  obtains (full) "BUF_MEM_reserve env b cap = Some (False, b)" "\<not> ((\<forall>n. heap_ok env n) \<and> cap \<le> 2 ^ 62)"
  | (room) b' where "BUF_MEM_reserve env b cap = Some (True, b')" "buf_mem_ok b'" "cap \<le> bm_max b'"
      "buf_contents b' = buf_contents b" "bm_length b' = bm_length b"
proof (cases "bm_max b \<ge> cap")
  case True
  then show ?thesis using assms room by (simp add: BUF_MEM_reserve_def)
next
  case False
  let ?n = "szadd cap 3 div 3" and ?a = "szmul (szadd cap 3 div 3) 4"
  show ?thesis
  proof (cases "szadd cap 3 < cap \<or> ?a div 4 \<noteq> ?n")
    case True
    then have "\<not> cap \<le> 2 ^ 62" by (auto simp: szadd_def szmul_def SIZE_LIMIT_def)
    then show ?thesis using True False full by (auto simp: BUF_MEM_reserve_def Let_def)
  next
    case False
    then have "cap \<le> ?a" using round_up_4_3 [of cap] assms(2) by simp
    have "?a < SIZE_LIMIT" by (simp add: szmul_def)
    have small: "?a + 8 < SIZE_LIMIT" if "cap \<le> 2 ^ 62"
      using that by (simp add: szadd_def szmul_def SIZE_LIMIT_def)
    show ?thesis using assms(1)
    proof (cases rule: buf_mem_okE)
      case empty
      show ?thesis
      proof (cases "heap_new env ?a")
        case None
        then have "\<not> ((\<forall>n. heap_ok env n) \<and> cap \<le> 2 ^ 62)" using heap_new_succeeds [of env ?a] small by auto
        then show ?thesis using full None empty False \<open>\<not> bm_max b \<ge> cap\<close>
          by (simp add: BUF_MEM_reserve_def Let_def heap_realloc_def)
      next
        case (Some blk)
        then have "length blk = ?a \<and> ?a + 8 < SIZE_LIMIT" using heap_new_Some \<open>?a < SIZE_LIMIT\<close> by blast
        then show ?thesis using Some empty False \<open>\<not> bm_max b \<ge> cap\<close> \<open>cap \<le> ?a\<close>
          by (intro room [of "b\<lparr>bm_data := Some (blk, 0), bm_max := ?a\<rparr>"])
            (auto simp: BUF_MEM_reserve_def Let_def heap_realloc_def buf_mem_ok_def buf_contents_def)
      qed
    next
      case (block blk0)
      show ?thesis
      proof (cases "heap_resize env blk0 ?a")
        case None
        then have "\<not> ((\<forall>n. heap_ok env n) \<and> cap \<le> 2 ^ 62)" using heap_resize_succeeds [of env ?a blk0] small by auto
        then show ?thesis using full None block False \<open>\<not> bm_max b \<ge> cap\<close>
          by (simp add: BUF_MEM_reserve_def Let_def heap_realloc_def)
      next
        case (Some blk)
        have le: "length blk0 \<le> ?a" using block \<open>\<not> bm_max b \<ge> cap\<close> \<open>cap \<le> ?a\<close> by simp
        note r = heap_resize_Some [OF Some _ \<open>?a < SIZE_LIMIT\<close> le]
        have "take (bm_length b) blk = take (bm_length b) blk0"
          using r(2) block by (metis min.absorb1 take_take)
        then show ?thesis using Some block False \<open>\<not> bm_max b \<ge> cap\<close> \<open>cap \<le> ?a\<close> r
          by (intro room [of "b\<lparr>bm_data := Some (blk, 0), bm_max := ?a\<rparr>"])
            (auto simp: BUF_MEM_reserve_def Let_def heap_realloc_def buf_mem_ok_def buf_contents_def)
      qed
    qed
  qed
qed

text \<open>What a writer into the reserved part of a buffer does to it.\<close>

lemma store_at_end:
  assumes "buf_mem_ok b" and "bm_length b + length bs \<le> bm_max b"
  shows "\<exists>d. store (bm_data b) (bm_length b) bs = Some d \<and>
    buf_mem_ok (b\<lparr>bm_data := d, bm_length := bm_length b + length bs\<rparr>) \<and>
    buf_contents (b\<lparr>bm_data := d, bm_length := bm_length b + length bs\<rparr>) = buf_contents b @ bs"
  using assms(1)
proof (cases rule: buf_mem_okE)
  case empty
  then show ?thesis using assms by (simp add: store_def buf_mem_ok_def buf_contents_def)
next
  case (block blk)
  then show ?thesis using assms
    by (simp add: store_def buf_mem_ok_def buf_contents_def mem_simps)
qed

lemma truncated_ok:
  "buf_mem_ok b \<Longrightarrow> n \<le> bm_length b \<Longrightarrow>
    buf_mem_ok (b\<lparr>bm_length := n\<rparr>) \<and> buf_contents (b\<lparr>bm_length := n\<rparr>) = take n (buf_contents b)"
  by (erule buf_mem_okE) (auto simp: buf_mem_ok_def buf_contents_def)

lemma BUF_MEM_grow_outcome:
  assumes "buf_mem_ok b" and "len < SIZE_LIMIT"
  obtains (full) "BUF_MEM_grow env b len = Some (0, b)" "\<not> ((\<forall>n. heap_ok env n) \<and> len \<le> 2 ^ 62)"
  | (grown) b' where "BUF_MEM_grow env b len = Some (len, b')" "buf_mem_ok b'"
      "buf_contents b' = take len (buf_contents b) @ replicate (len - bm_length b) 0" "bm_length b' = len"
  using assms
proof (cases rule: BUF_MEM_reserve_outcome [of b len env])
  case full
  then show ?thesis using that(1) by (simp add: BUF_MEM_grow_def)
next
  case (room b')
  show ?thesis
  proof (cases "bm_length b < len")
    case True
    let ?z = "replicate (len - bm_length b) (0 :: u8)"
    obtain d where "store (bm_data b') (bm_length b') ?z = Some d"
        "buf_mem_ok (b'\<lparr>bm_data := d, bm_length := len\<rparr>)"
        "buf_contents (b'\<lparr>bm_data := d, bm_length := len\<rparr>) = buf_contents b @ ?z"
      using store_at_end [OF room(2), of ?z] room True by auto
    then show ?thesis using room True length_buf_contents [OF assms(1)]
      by (intro grown [of "b'\<lparr>bm_data := d, bm_length := len\<rparr>"]) (auto simp: BUF_MEM_grow_def)
  next
    case False
    then show ?thesis using room truncated_ok [OF room(2), of len]
      by (intro grown [of "b'\<lparr>bm_length := len\<rparr>"]) (auto simp: BUF_MEM_grow_def)
  qed
qed

lemma BUF_MEM_append_outcome:
  assumes "buf_mem_ok b" and "length inp < SIZE_LIMIT"
  obtains (full) "BUF_MEM_append env b inp = Some (False, b)"
      "\<not> ((\<forall>n. heap_ok env n) \<and> bm_length b + length inp \<le> 2 ^ 62)"
  | (added) b' where "BUF_MEM_append env b inp = Some (True, b')" "buf_mem_ok b'"
      "buf_contents b' = buf_contents b @ inp"
proof (cases "length inp = 0")
  case True
  then show ?thesis using assms added by (simp add: BUF_MEM_append_def)
next
  case False
  let ?n = "szadd (bm_length b) (length inp)"
  have bl: "bm_length b < SIZE_LIMIT" using assms(1) by (auto elim!: buf_mem_okE)
  show ?thesis
  proof (cases "?n < length inp")
    case True
    then have "SIZE_LIMIT \<le> bm_length b + length inp"
      using szadd_overflow_iff [OF assms(2) bl] by (simp add: szadd_def add.commute)
    then show ?thesis using True False full by (simp add: BUF_MEM_append_def SIZE_LIMIT_def)
  next
    case no: False
    then have n: "?n = bm_length b + length inp"
      using szadd_overflow_iff [OF assms(2) bl] by (simp add: szadd_def add.commute)
    have "?n < SIZE_LIMIT" by (simp add: szadd_def)
    with assms(1) show ?thesis
    proof (cases rule: BUF_MEM_reserve_outcome [of b ?n env])
      case full
      then show ?thesis using that(1) False no n by (simp add: BUF_MEM_append_def Let_def)
    next
      case (room b')
      obtain d where "store (bm_data b') (bm_length b') inp = Some d"
          "buf_mem_ok (b'\<lparr>bm_data := d, bm_length := ?n\<rparr>)"
          "buf_contents (b'\<lparr>bm_data := d, bm_length := ?n\<rparr>) = buf_contents b @ inp"
        using store_at_end [OF room(2), of inp] room n by auto
      then show ?thesis using room False no
        by (intro added [of "b'\<lparr>bm_data := d, bm_length := ?n\<rparr>"]) (auto simp: BUF_MEM_append_def Let_def)
    qed
  qed
qed

end
