(* ===== verification/Bio.thy ===== *)
theory Bio
  imports Buf Pool
begin

text \<open>
  BIOs, the streams of \<open>crypto/bio/bio.c\<close>: the object every stream consists of, its flags, and the
  chains that filters form.  BIOs point to each other, so they live in a store, a map from
  addresses to objects.  The two methods modelled are memory buffers and BIO pairs; \<open>bptr\<close> is
  the private data either keeps in the object.
\<close>

section \<open>The objects\<close>

datatype bio_method = mem_method | methods_biop

record bio_bio =
  peer :: "nat option"
  closed :: bool
  ring_len :: nat
  ring_offset :: nat
  ring_size :: nat
  ring_buf :: "bytes option"
  request :: nat

datatype bio_data = NoData | MemBuf buf_mem | PairHalf bio_bio

record bio =
  bmethod :: bio_method
  init :: bool
  shutdown :: int
  flags :: u32
  retry_reason :: int
  num :: int
  refs :: u32
  bptr :: bio_data
  next_bio :: "nat option"
  num_read :: nat
  num_write :: nat

type_synonym bios = "nat \<Rightarrow> bio option"

definition sizeof_BIO :: nat where
  "sizeof_BIO = 64"

section \<open>Flags\<close>

definition BIO_FLAGS_READ :: u32 where
  "BIO_FLAGS_READ = 0x01"

definition BIO_FLAGS_WRITE :: u32 where
  "BIO_FLAGS_WRITE = 0x02"

definition BIO_FLAGS_IO_SPECIAL :: u32 where
  "BIO_FLAGS_IO_SPECIAL = 0x04"

definition BIO_FLAGS_RWS :: u32 where
  "BIO_FLAGS_RWS = BIO_FLAGS_READ OR BIO_FLAGS_WRITE OR BIO_FLAGS_IO_SPECIAL"

definition BIO_FLAGS_SHOULD_RETRY :: u32 where
  "BIO_FLAGS_SHOULD_RETRY = 0x08"

definition BIO_FLAGS_MEM_RDONLY :: u32 where
  "BIO_FLAGS_MEM_RDONLY = 0x200"

definition kRetryFlags :: u32 where
  "kRetryFlags = BIO_FLAGS_RWS OR BIO_FLAGS_SHOULD_RETRY"

lemmas flag_defs = BIO_FLAGS_READ_def BIO_FLAGS_WRITE_def BIO_FLAGS_IO_SPECIAL_def BIO_FLAGS_RWS_def
  BIO_FLAGS_SHOULD_RETRY_def BIO_FLAGS_MEM_RDONLY_def kRetryFlags_def

definition BIO_set_flags :: "bio \<Rightarrow> u32 \<Rightarrow> bio" where
  "BIO_set_flags bio f = bio\<lparr>flags := flags bio OR f\<rparr>"

definition BIO_test_flags :: "bio \<Rightarrow> u32 \<Rightarrow> u32" where
  "BIO_test_flags bio f = flags bio AND f"

definition BIO_should_read :: "bio \<Rightarrow> u32" where
  "BIO_should_read bio = BIO_test_flags bio BIO_FLAGS_READ"

definition BIO_should_write :: "bio \<Rightarrow> u32" where
  "BIO_should_write bio = BIO_test_flags bio BIO_FLAGS_WRITE"

definition BIO_should_retry :: "bio \<Rightarrow> u32" where
  "BIO_should_retry bio = BIO_test_flags bio BIO_FLAGS_SHOULD_RETRY"

definition BIO_should_io_special :: "bio \<Rightarrow> u32" where
  "BIO_should_io_special bio = BIO_test_flags bio BIO_FLAGS_IO_SPECIAL"

definition BIO_clear_flags :: "bio \<Rightarrow> u32 \<Rightarrow> bio" where
  "BIO_clear_flags bio f = bio\<lparr>flags := flags bio AND NOT f\<rparr>"

definition BIO_set_retry_read :: "bio \<Rightarrow> bio" where
  "BIO_set_retry_read bio = bio\<lparr>flags := flags bio OR (BIO_FLAGS_READ OR BIO_FLAGS_SHOULD_RETRY)\<rparr>"

definition BIO_set_retry_write :: "bio \<Rightarrow> bio" where
  "BIO_set_retry_write bio = bio\<lparr>flags := flags bio OR (BIO_FLAGS_WRITE OR BIO_FLAGS_SHOULD_RETRY)\<rparr>"

definition BIO_set_retry_special :: "bio \<Rightarrow> bio" where
  "BIO_set_retry_special bio = bio\<lparr>flags := flags bio OR (BIO_FLAGS_READ OR BIO_FLAGS_IO_SPECIAL)\<rparr>"

definition BIO_get_retry_flags :: "bio \<Rightarrow> u32" where
  "BIO_get_retry_flags bio = flags bio AND kRetryFlags"

definition BIO_clear_retry_flags :: "bio \<Rightarrow> bio" where
  "BIO_clear_retry_flags bio = bio\<lparr>flags := flags bio AND NOT kRetryFlags, retry_reason := 0\<rparr>"

definition BIO_copy_next_retry :: "bio \<Rightarrow> bio \<Rightarrow> bio" where
  "BIO_copy_next_retry bio nxt =
     (BIO_set_flags (BIO_clear_retry_flags bio) (BIO_get_retry_flags nxt))\<lparr>retry_reason := retry_reason nxt\<rparr>"

lemma flag_update_select [simp]:
  "bptr (BIO_clear_retry_flags bio) = bptr bio" "bptr (BIO_set_retry_read bio) = bptr bio"
  "bptr (BIO_set_retry_write bio) = bptr bio"
  "init (BIO_clear_retry_flags bio) = init bio" "init (BIO_set_retry_read bio) = init bio"
  "init (BIO_set_retry_write bio) = init bio"
  "num (BIO_clear_retry_flags bio) = num bio" "num (BIO_set_retry_read bio) = num bio"
  "num (BIO_set_retry_write bio) = num bio"
  "bmethod (BIO_clear_retry_flags bio) = bmethod bio" "bmethod (BIO_set_retry_read bio) = bmethod bio"
  "bmethod (BIO_set_retry_write bio) = bmethod bio"
  "refs (BIO_clear_retry_flags bio) = refs bio" "refs (BIO_set_retry_read bio) = refs bio"
  "refs (BIO_set_retry_write bio) = refs bio"
  "next_bio (BIO_clear_retry_flags bio) = next_bio bio" "next_bio (BIO_set_retry_read bio) = next_bio bio"
  "next_bio (BIO_set_retry_write bio) = next_bio bio"
  "flags (BIO_set_retry_read bio) = flags bio OR 9" "flags (BIO_set_retry_write bio) = flags bio OR 10"
  "flags (BIO_clear_retry_flags bio) = flags bio AND NOT 15"
  by (simp_all add: BIO_clear_retry_flags_def BIO_set_retry_read_def BIO_set_retry_write_def flag_defs)

lemma flag_bits [simp]:
  fixes x :: u32
  shows "(x AND - 16) AND 0x200 = x AND 0x200" "(x OR 9) AND 0x200 = x AND 0x200" "(x OR 10) AND 0x200 = x AND 0x200"
    "(x AND - 16) AND 8 = 0" "(x OR 9) AND 8 = 8" "(x OR 10) AND 8 = 8"
    "(x AND - 16) AND 1 = 0" "(x OR 9) AND 1 = 1" "(x AND - 16) AND 2 = 0" "(x OR 10) AND 2 = 2"
  by (simp_all add: and.assoc bit.conj_disj_distrib2 word_ao_absorbs)

section \<open>Chains\<close>

definition BIO_pop :: "bios \<Rightarrow> nat option \<Rightarrow> (nat option \<times> bios) option" where
  "BIO_pop s x =
     (case x of
        None \<Rightarrow> Some (None, s)
      | Some a \<Rightarrow> do {
          bio \<leftarrow> s a;
          Some (next_bio bio, s(a \<mapsto> bio\<lparr>next_bio := None\<rparr>))
        })"

definition BIO_next :: "bios \<Rightarrow> nat option \<Rightarrow> nat option option" where
  "BIO_next s x =
     (case x of
        None \<Rightarrow> Some None
      | Some a \<Rightarrow> do { bio \<leftarrow> s a; Some (next_bio bio) })"

text \<open>The loops follow \<open>next_bio\<close> for as long as it leads; on a cyclic chain they do not return.\<close>

partial_function (option) last_of_chain :: "bios \<Rightarrow> nat \<Rightarrow> nat option" where
  "last_of_chain s a = do {
     bio \<leftarrow> s a;
     case next_bio bio of None \<Rightarrow> Some a | Some b \<Rightarrow> last_of_chain s b
   }"

definition BIO_push :: "bios \<Rightarrow> nat option \<Rightarrow> nat option \<Rightarrow> (nat option \<times> bios) option" where
  "BIO_push s x appended =
     (case x of
        None \<Rightarrow> Some (None, s)
      | Some a \<Rightarrow> do {
          l \<leftarrow> last_of_chain s a;
          last_bio \<leftarrow> s l;
          Some (Some a, s(l \<mapsto> last_bio\<lparr>next_bio := appended\<rparr>))
        })"

definition method_type :: "bio_method \<Rightarrow> u32" where
  "method_type m = (case m of mem_method \<Rightarrow> 1 OR 0x0400 | methods_biop \<Rightarrow> 19 OR 0x0400)"

definition BIO_method_type :: "bio \<Rightarrow> u32" where
  "BIO_method_type bio = method_type (bmethod bio)"

partial_function (option) find_in_chain :: "bios \<Rightarrow> u32 \<Rightarrow> u32 \<Rightarrow> nat \<Rightarrow> nat option option" where
  "find_in_chain s type msk a = do {
     bio \<leftarrow> s a;
     let method_type = method_type (bmethod bio);
     if (if msk = 0 then method_type AND type \<noteq> 0 else method_type = type) then Some (Some a)
     else (case next_bio bio of None \<Rightarrow> Some None | Some b \<Rightarrow> find_in_chain s type msk b)
   }"

definition BIO_find_type :: "bios \<Rightarrow> nat option \<Rightarrow> u32 \<Rightarrow> nat option option" where
  "BIO_find_type s x type =
     (case x of
        None \<Rightarrow> Some None
      | Some a \<Rightarrow> find_in_chain s type (type AND 0xff) a)"

text \<open>A chain as the list of its objects.\<close>

fun chain_from :: "bios \<Rightarrow> nat list \<Rightarrow> bool" where
  "chain_from s [] \<longleftrightarrow> False"
| "chain_from s [a] \<longleftrightarrow> (\<exists>bio. s a = Some bio \<and> next_bio bio = None)"
| "chain_from s (a # b # as) \<longleftrightarrow> (\<exists>bio. s a = Some bio \<and> next_bio bio = Some b) \<and> chain_from s (b # as)"

lemma chain_from_other: "chain_from s as \<Longrightarrow> a \<notin> set as \<Longrightarrow> chain_from (s(a := v)) as"
  by (induction s as rule: chain_from.induct) auto

lemma last_of_chain_eq: "chain_from s as \<Longrightarrow> last_of_chain s (hd as) = Some (last as)"
  by (induction s as rule: chain_from.induct) (auto simp: last_of_chain.simps)

lemma chain_from_joined:
  "chain_from s as \<Longrightarrow> chain_from s bs \<Longrightarrow> distinct (as @ bs) \<Longrightarrow>
   s (last as) = Some l \<Longrightarrow> chain_from (s(last as \<mapsto> l\<lparr>next_bio := Some (hd bs)\<rparr>)) (as @ bs)"
proof (induction s as rule: chain_from.induct)
  case (2 s a)
  then have "chain_from (s(a \<mapsto> l\<lparr>next_bio := Some (hd bs)\<rparr>)) bs" by (auto intro: chain_from_other)
  then show ?case by (cases bs) (simp_all del: fun_upd_apply add: fun_upd_same)
next
  case (3 s a b as)
  then show ?case by auto
qed simp

end
