(* ===== verification/BioMem.thy ===== *)
theory BioMem
  imports Bio
begin

text \<open>
  Memory BIOs (\<open>crypto/bio/bio_mem.c\<close>): a BIO over a \<open>BUF_MEM\<close> it may write to, or over static data
  that it only reads.  In the second case reading moves the data pointer along, so that resetting can
  move it back.  Each operation acts on one object and returns the C result, the bytes it copies
  out and the object.
\<close>

section \<open>Operations\<close>

definition BIO_C_SET_BUF_MEM :: nat where
  "BIO_C_SET_BUF_MEM = 114"

definition BIO_C_GET_BUF_MEM_PTR :: nat where
  "BIO_C_GET_BUF_MEM_PTR = 115"

definition BIO_C_SET_BUF_MEM_EOF_RETURN :: nat where
  "BIO_C_SET_BUF_MEM_EOF_RETURN = 130"

definition BIO_CTRL_RESET :: nat where
  "BIO_CTRL_RESET = 1"

definition BIO_CTRL_EOF :: nat where
  "BIO_CTRL_EOF = 2"

definition BIO_CTRL_INFO :: nat where
  "BIO_CTRL_INFO = 3"

definition BIO_CTRL_GET_CLOSE :: nat where
  "BIO_CTRL_GET_CLOSE = 8"

definition BIO_CTRL_SET_CLOSE :: nat where
  "BIO_CTRL_SET_CLOSE = 9"

definition BIO_CTRL_PENDING :: nat where
  "BIO_CTRL_PENDING = 10"

definition BIO_CTRL_FLUSH :: nat where
  "BIO_CTRL_FLUSH = 11"

definition BIO_CTRL_WPENDING :: nat where
  "BIO_CTRL_WPENDING = 13"

lemmas ctrl_defs = BIO_C_SET_BUF_MEM_def BIO_C_GET_BUF_MEM_PTR_def BIO_C_SET_BUF_MEM_EOF_RETURN_def
  BIO_CTRL_RESET_def BIO_CTRL_EOF_def BIO_CTRL_INFO_def BIO_CTRL_GET_CLOSE_def BIO_CTRL_SET_CLOSE_def
  BIO_CTRL_PENDING_def BIO_CTRL_FLUSH_def BIO_CTRL_WPENDING_def

definition mem_buf :: "bio \<Rightarrow> buf_mem option" where
  "mem_buf bio = (case bptr bio of MemBuf b \<Rightarrow> Some b | _ \<Rightarrow> None)"

definition mem_new :: "heap_env \<Rightarrow> bio \<Rightarrow> bool \<times> bio" where
  "mem_new env bio =
     (case BUF_MEM_new env of
        None \<Rightarrow> (False, bio)
      | Some b \<Rightarrow> (True, bio\<lparr>shutdown := 1, init := True, num := - 1, bptr := MemBuf b\<rparr>))"

text \<open>The buffer itself ends with the object's claim to it; static data stays where it is.\<close>

definition mem_free :: "bio \<Rightarrow> bio" where
  "mem_free bio =
     (if shutdown bio = 0 \<or> \<not> init bio \<or> bptr bio = NoData then bio else bio\<lparr>bptr := NoData\<rparr>)"

definition rdonly :: "bio \<Rightarrow> bool" where
  "rdonly bio \<longleftrightarrow> flags bio AND BIO_FLAGS_MEM_RDONLY \<noteq> 0"

definition mem_read :: "bio \<Rightarrow> int \<Rightarrow> (int \<times> bytes \<times> bio) option" where
  "mem_read bio outl = do {
     b \<leftarrow> mem_buf bio;
     let bio = BIO_clear_retry_flags bio;
     let ret = (if bm_length b < INT_MAX \<and> outl > int_of_size (bm_length b) then int_of_size (bm_length b) else outl);
     if ret > 0 then do {
       out \<leftarrow> load (bm_data b) 0 (nat ret);
       let b = b\<lparr>bm_length := bm_length b - nat ret\<rparr>;
       if rdonly bio then
         Some (ret, out, bio\<lparr>bptr := MemBuf (b\<lparr>bm_data := map_option (\<lambda>(blk, pos). (blk, pos + nat ret)) (bm_data b)\<rparr>)\<rparr>)
       else do {
         rest \<leftarrow> load (bm_data b) (nat ret) (bm_length b);
         data \<leftarrow> store (bm_data b) 0 rest;
         Some (ret, out, bio\<lparr>bptr := MemBuf (b\<lparr>bm_data := data\<rparr>)\<rparr>)
       }
     }
     else if bm_length b = 0 then
       Some (num bio, [], if num bio \<noteq> 0 then BIO_set_retry_read bio else bio)
     else Some (ret, [], bio)
   }"

text \<open>In \<open>INT_MAX - blen\<close> a negative \<open>blen\<close> would overflow.\<close>

definition mem_write_bio :: "heap_env \<Rightarrow> bio \<Rightarrow> bytes \<Rightarrow> (int \<times> bio) option" where
  "mem_write_bio env bio inp = do {
     b \<leftarrow> mem_buf bio;
     let inl = int (length inp);
     if rdonly bio then Some (- 1, bio)
     else do {
       let bio = BIO_clear_retry_flags bio;
       let blen = int_of_size (bm_length b);
       check (0 \<le> blen);
       if int INT_MAX - blen < inl then Some (- 1, bio)
       else do {
         (n, b) \<leftarrow> BUF_MEM_grow_clean env b (size_of_int (blen + inl));
         let bio = bio\<lparr>bptr := MemBuf b\<rparr>;
         if n \<noteq> szadd (size_of_int blen) (size_of_int inl) then Some (- 1, bio)
         else do {
           data \<leftarrow> store (bm_data b) (nat blen) inp;
           Some (inl, bio\<lparr>bptr := MemBuf (b\<lparr>bm_data := data\<rparr>)\<rparr>)
         }
       }
     }
   }"

text \<open>The number of bytes up to and including the first newline.\<close>

fun line_length :: "bytes \<Rightarrow> nat" where
  "line_length [] = 0"
| "line_length (c # cs) = (if c = 10 then 1 else Suc (line_length cs))"

text \<open>The bytes copied out include the terminating zero.\<close>

definition mem_gets :: "bio \<Rightarrow> int \<Rightarrow> (int \<times> bytes \<times> bio) option" where
  "mem_gets bio sz = do {
     b \<leftarrow> mem_buf bio;
     let bio = BIO_clear_retry_flags bio;
     let j = int_of_size (bm_length b);
     let j = (if sz - 1 < j then sz - 1 else j);
     if j \<le> 0 then Some (0, if sz > 0 then [0] else [], bio)
     else do {
       p \<leftarrow> load (bm_data b) 0 (nat j);
       (i, out, bio) \<leftarrow> mem_read bio (int (line_length p));
       Some (i, if i > 0 then out @ [0] else out, bio)
     }
   }"

definition mem_ctrl :: "bio \<Rightarrow> nat \<Rightarrow> int \<Rightarrow> buf_mem option \<Rightarrow> (int \<times> bio) option" where
  "mem_ctrl bio cmd arg p = do {
     b \<leftarrow> mem_buf bio;
     if cmd = BIO_CTRL_RESET then
       (case bm_data b of
          None \<Rightarrow> Some (1, bio)
        | Some (blk, pos) \<Rightarrow>
            if rdonly bio then do {
              check (bm_max b - bm_length b \<le> pos);
              Some (1, bio\<lparr>bptr := MemBuf (b\<lparr>bm_data := Some (blk, pos - (bm_max b - bm_length b)), bm_length := bm_max b\<rparr>)\<rparr>)
            }
            else do {
              data \<leftarrow> store (bm_data b) 0 (replicate (bm_max b) 0);
              Some (1, bio\<lparr>bptr := MemBuf (b\<lparr>bm_data := data, bm_length := 0\<rparr>)\<rparr>)
            })
     else if cmd = BIO_CTRL_EOF then Some (if bm_length b = 0 then 1 else 0, bio)
     else if cmd = BIO_C_SET_BUF_MEM_EOF_RETURN then Some (1, bio\<lparr>num := signed_take_bit 31 arg\<rparr>)
     else if cmd = BIO_CTRL_INFO then Some (long_of_size (bm_length b), bio)
     else if cmd = BIO_C_SET_BUF_MEM then
       Some (1, (mem_free bio)\<lparr>shutdown := signed_take_bit 31 arg,
         bptr := (case p of None \<Rightarrow> NoData | Some b' \<Rightarrow> MemBuf b')\<rparr>)
     else if cmd = BIO_C_GET_BUF_MEM_PTR then Some (1, bio)
     else if cmd = BIO_CTRL_GET_CLOSE then Some (shutdown bio, bio)
     else if cmd = BIO_CTRL_SET_CLOSE then Some (1, bio\<lparr>shutdown := signed_take_bit 31 arg\<rparr>)
     else if cmd = BIO_CTRL_WPENDING then Some (0, bio)
     else if cmd = BIO_CTRL_PENDING then Some (long_of_size (bm_length b), bio)
     else if cmd = BIO_CTRL_FLUSH then Some (1, bio)
     else Some (0, bio)
   }"

definition BIO_mem_contents :: "bio \<Rightarrow> bytes option option" where
  "BIO_mem_contents bio =
     (if bmethod bio \<noteq> mem_method then Some None
      else do {
        b \<leftarrow> mem_buf bio;
        out \<leftarrow> load (bm_data b) 0 (bm_length b);
        Some (Some out)
      })"

section \<open>Contents\<close>

text \<open>A memory BIO is well formed if its buffer is, or if it reads static data and the pointer is as
  far along as bytes have been read.\<close>

definition mem_ok :: "bio \<Rightarrow> bool" where
  "mem_ok bio \<longleftrightarrow> init bio \<and>
     (case mem_buf bio of
        None \<Rightarrow> False
      | Some b \<Rightarrow>
          if rdonly bio then
            bm_length b \<le> bm_max b \<and> bm_max b < 2 ^ 63 \<and>
            (case bm_data b of
               None \<Rightarrow> bm_max b = 0
             | Some (blk, pos) \<Rightarrow> bm_max b - bm_length b \<le> pos \<and> pos + bm_length b \<le> length blk)
          else buf_mem_ok b \<and> bm_length b \<le> INT_MAX)"

definition mem_contents :: "bio \<Rightarrow> bytes" where
  "mem_contents bio = (case mem_buf bio of None \<Rightarrow> [] | Some b \<Rightarrow> buf_contents b)"

lemma mem_buf_update [simp]:
  "mem_buf (bio\<lparr>bptr := MemBuf b\<rparr>) = Some b"
  "mem_buf (BIO_clear_retry_flags bio) = mem_buf bio"
  "mem_buf (BIO_set_retry_read bio) = mem_buf bio"
  by (simp_all add: mem_buf_def)

lemma rdonly_update [simp]:
  "rdonly (bio\<lparr>bptr := p\<rparr>) = rdonly bio"
  "rdonly (BIO_clear_retry_flags bio) = rdonly bio"
  "rdonly (BIO_set_retry_read bio) = rdonly bio"
  by (simp_all add: rdonly_def BIO_FLAGS_MEM_RDONLY_def)

lemma mem_contents_update [simp]:
  "mem_contents (bio\<lparr>bptr := MemBuf b\<rparr>) = buf_contents b"
  "mem_contents (BIO_clear_retry_flags bio) = mem_contents bio"
  "mem_contents (BIO_set_retry_read bio) = mem_contents bio"
  by (simp_all add: mem_contents_def)

lemma mem_ok_update [simp]:
  "mem_ok (BIO_clear_retry_flags bio) = mem_ok bio" "mem_ok (BIO_set_retry_read bio) = mem_ok bio"
  unfolding mem_ok_def rdonly_update mem_buf_update flag_update_select by (rule refl)+

lemma mem_okE:
  assumes "mem_ok bio"
  obtains b where "mem_buf bio = Some b" "init bio" "length (mem_contents bio) = bm_length b"
      "bm_length b \<le> bm_max b" "mem_contents bio = buf_contents b" "bm_length b < 2 ^ 63"
      "load (bm_data b) 0 (bm_length b) = Some (mem_contents bio)"
proof -
  obtain b where b: "mem_buf bio = Some b" "init bio" using assms by (auto simp: mem_ok_def split: option.splits)
  show ?thesis
  proof (cases "rdonly bio")
    case True
    then show ?thesis using assms b
      by (intro that [of b]) (auto simp: mem_ok_def mem_contents_def buf_contents_def load_def split: option.splits)
  next
    case False
    then have ok: "buf_mem_ok b" "bm_length b \<le> INT_MAX" using assms b by (auto simp: mem_ok_def)
    from ok(1) show ?thesis
      by (cases rule: buf_mem_okE)
        (use ok b in \<open>auto intro!: that [of b] simp: mem_contents_def load_def SIZE_LIMIT_def INT_MAX_def\<close>)
  qed
qed

lemma load_prefix: "load p 0 n = Some bs \<Longrightarrow> m \<le> n \<Longrightarrow> load p 0 m = Some (take m bs)"
  by (cases p) (auto simp: load_def split: if_splits)

section \<open>Reading and writing\<close>

lemma mem_read_outcome:
  assumes ok: "mem_ok bio" and n: "0 < n" "n \<le> int INT_MAX"
  obtains (eof) bio' where "mem_contents bio = []" "mem_read bio n = Some (num bio, [], bio')" "mem_ok bio'"
      "mem_contents bio' = []" "num bio' = num bio" "rdonly bio' = rdonly bio" "bmethod bio' = bmethod bio"
      "BIO_should_retry bio' \<noteq> 0 \<longleftrightarrow> num bio \<noteq> 0"
  | (data) k bio' where "k = min (nat n) (length (mem_contents bio))" "0 < k"
      "mem_read bio n = Some (int k, take k (mem_contents bio), bio')" "mem_ok bio'"
      "mem_contents bio' = drop k (mem_contents bio)" "num bio' = num bio" "rdonly bio' = rdonly bio" "bmethod bio' = bmethod bio"
      "BIO_should_retry bio' = 0"
proof -
  obtain b where b: "mem_buf bio = Some b" "length (mem_contents bio) = bm_length b" "mem_contents bio = buf_contents b"
      "load (bm_data b) 0 (bm_length b) = Some (mem_contents bio)" "bm_length b \<le> bm_max b"
    using ok by (auto elim: mem_okE)
  define k where "k = min (nat n) (bm_length b)"
  have ret: "(if bm_length b < INT_MAX \<and> n > int_of_size (bm_length b) then int_of_size (bm_length b) else n) = int k"
    using n by (auto simp: k_def int_of_size_exact min_def)
  show ?thesis
  proof (cases "bm_length b = 0")
    case True
    then show ?thesis using b ok n ret
      by (intro eof [of "if num bio \<noteq> 0 then BIO_set_retry_read (BIO_clear_retry_flags bio) else BIO_clear_retry_flags bio"])
        (auto simp: mem_read_def k_def BIO_should_retry_def BIO_test_flags_def BIO_FLAGS_SHOULD_RETRY_def)
  next
    case False
    then have k: "0 < k" "k \<le> bm_length b" using n by (auto simp: k_def)
    have out: "load (bm_data b) 0 k = Some (take k (mem_contents bio))" using load_prefix b(4) k(2) by blast
    obtain blk pos where d: "bm_data b = Some (blk, pos)"
      using b(4) False by (cases "bm_data b") (auto simp: load_def)
    note step = mem_read_def b(1) ret k(1) out Let_def
    show ?thesis
    proof (cases "rdonly bio")
      case True
      let ?b = "b\<lparr>bm_length := bm_length b - k, bm_data := Some (blk, pos + k)\<rparr>"
      have "mem_read bio n = Some (int k, take k (mem_contents bio), (BIO_clear_retry_flags bio)\<lparr>bptr := MemBuf ?b\<rparr>)"
        using True k out [unfolded d] by (simp add: step d)
      moreover have "mem_ok ((BIO_clear_retry_flags bio)\<lparr>bptr := MemBuf ?b\<rparr>)"
        using ok True b(1) d k by (auto simp: mem_ok_def)
      moreover have "buf_contents ?b = drop k (buf_contents b)"
        by (simp add: buf_contents_def d drop_take add.commute)
      ultimately show ?thesis using True k b
        by (intro data [of k "(BIO_clear_retry_flags bio)\<lparr>bptr := MemBuf ?b\<rparr>"]) (auto simp: k_def BIO_should_retry_def BIO_test_flags_def BIO_FLAGS_SHOULD_RETRY_def)
    next
      case False
      then have w: "buf_mem_ok b" "bm_length b \<le> INT_MAX" using ok b(1) by (auto simp: mem_ok_def)
      then have blk: "pos = 0" "length blk = bm_max b" by (auto simp: buf_mem_ok_def d)
      let ?rest = "take (bm_length b - k) (drop k blk)"
      let ?b = "b\<lparr>bm_length := bm_length b - k, bm_data := Some (?rest @ drop (bm_length b - k) blk, 0)\<rparr>"
      have "mem_read bio n = Some (int k, take k (mem_contents bio), (BIO_clear_retry_flags bio)\<lparr>bptr := MemBuf ?b\<rparr>)"
        using False k blk b(3,5) by (simp add: step d load_def store_def mem_simps buf_contents_def)
      moreover have "mem_ok ((BIO_clear_retry_flags bio)\<lparr>bptr := MemBuf ?b\<rparr>)"
        using ok False b(1) d k w blk b(5) by (auto simp: mem_ok_def buf_mem_ok_def)
      moreover have "buf_contents ?b = drop k (buf_contents b)"
        using blk b(5) k by (simp add: buf_contents_def d drop_take)
      ultimately show ?thesis using False k b
        by (intro data [of k "(BIO_clear_retry_flags bio)\<lparr>bptr := MemBuf ?b\<rparr>"]) (auto simp: k_def BIO_should_retry_def BIO_test_flags_def BIO_FLAGS_SHOULD_RETRY_def)
    qed
  qed
qed

lemma mem_write_outcome:
  assumes ok: "mem_ok bio" and n: "inp \<noteq> []" "length inp \<le> INT_MAX" and w: "\<not> rdonly bio"
  obtains (full) bio' where "mem_write_bio env bio inp = Some (- 1, bio')" "mem_ok bio'" "mem_contents bio' = mem_contents bio"
      "\<not> ((\<forall>n. heap_ok env n) \<and> length (mem_contents bio) + length inp \<le> INT_MAX)" "\<not> rdonly bio'"
  | (added) bio' where "mem_write_bio env bio inp = Some (int (length inp), bio')" "mem_ok bio'"
      "mem_contents bio' = mem_contents bio @ inp" "\<not> rdonly bio'" "num bio' = num bio" "bmethod bio' = bmethod bio"
proof -
  obtain b where b: "mem_buf bio = Some b" "length (mem_contents bio) = bm_length b" "mem_contents bio = buf_contents b"
    using ok by (auto elim: mem_okE)
  have bok: "buf_mem_ok b" "bm_length b \<le> INT_MAX" "init bio" using ok w b(1) by (auto simp: mem_ok_def)
  let ?bio = "BIO_clear_retry_flags bio"
  have len: "int_of_size (bm_length b) = int (bm_length b)" using bok(2) by (rule int_of_size_exact)
  show ?thesis
  proof (cases "int INT_MAX - int (bm_length b) < int (length inp)")
    case True
    then show ?thesis using b w ok len by (intro full [of ?bio]) (auto simp: mem_write_bio_def Let_def)
  next
    case False
    let ?n = "bm_length b + length inp"
    have fit: "?n \<le> INT_MAX" using False by linarith
    then have small: "?n < SIZE_LIMIT" "size_of_int (int (bm_length b) + int (length inp)) = ?n"
        "szadd (size_of_int (int (bm_length b))) (size_of_int (int (length inp))) = ?n" "?n \<le> 2 ^ 62"
      by (auto simp: INT_MAX_def SIZE_LIMIT_def size_of_int_def szadd_def nat_add_distrib)
    note step = mem_write_bio_def b(1) len Let_def small(2,3) BUF_MEM_grow_clean_def
    from bok(1) small(1) show ?thesis
    proof (cases rule: BUF_MEM_grow_outcome [of b ?n env])
      case full
      then show ?thesis using that(1) [of "?bio\<lparr>bptr := MemBuf b\<rparr>"] False w n b ok small(4)
        by (simp add: step mem_ok_def)
    next
      case (grown b')
      have "length (buf_contents b) = bm_length b" using length_buf_contents bok(1) by blast
      let ?t = "b'\<lparr>bm_length := bm_length b\<rparr>"
      have t: "buf_mem_ok ?t" "buf_contents ?t = buf_contents b"
        using truncated_ok [OF grown(2), of "bm_length b"] grown \<open>length (buf_contents b) = bm_length b\<close> by auto
      have "?n \<le> bm_max b'" using grown(2,4) by (auto elim: buf_mem_okE)
      then obtain d where d: "store (bm_data b') (bm_length b) inp = Some d"
          "buf_mem_ok (b'\<lparr>bm_data := d, bm_length := ?n\<rparr>)" "buf_contents (b'\<lparr>bm_data := d, bm_length := ?n\<rparr>) = buf_contents b @ inp"
        using store_at_end [OF t(1), of inp] t by auto
      have e: "b'\<lparr>bm_data := d, bm_length := ?n\<rparr> = b'\<lparr>bm_data := d\<rparr>" using grown(4) by simp
      have "mem_write_bio env bio inp = Some (int (length inp), ?bio\<lparr>bptr := MemBuf (b'\<lparr>bm_data := d\<rparr>)\<rparr>)"
        using w False grown d(1) by (simp add: step)
      then show ?thesis using d(2,3) e w fit bok(3) b grown(4)
        by (intro added [of "?bio\<lparr>bptr := MemBuf (b'\<lparr>bm_data := d\<rparr>)\<rparr>"]) (auto simp: mem_ok_def)
    qed
  qed
qed

end
