(* ===== verification/BioPair.thy ===== *)
theory BioPair
  imports BioMem
begin

text \<open>
  BIO pairs (\<open>crypto/bio/pair.c\<close>): two BIOs, each with a ring buffer for what is written to it, which
  the other one reads.  Both are objects of the store and point to each other, so every
  operation acts on the store.  Failed assertions have the value \<open>None\<close>.
\<close>

section \<open>Operations\<close>

definition BIO_C_GET_WRITE_BUF_SIZE :: nat where
  "BIO_C_GET_WRITE_BUF_SIZE = 137"

definition BIO_C_GET_WRITE_GUARANTEE :: nat where
  "BIO_C_GET_WRITE_GUARANTEE = 140"

definition BIO_C_GET_READ_REQUEST :: nat where
  "BIO_C_GET_READ_REQUEST = 141"

definition BIO_C_SHUTDOWN_WR :: nat where
  "BIO_C_SHUTDOWN_WR = 142"

definition BIO_C_RESET_READ_REQUEST :: nat where
  "BIO_C_RESET_READ_REQUEST = 147"

lemmas pair_ctrl_defs = BIO_C_GET_WRITE_BUF_SIZE_def BIO_C_GET_WRITE_GUARANTEE_def BIO_C_GET_READ_REQUEST_def
  BIO_C_SHUTDOWN_WR_def BIO_C_RESET_READ_REQUEST_def

definition half :: "bios \<Rightarrow> nat \<Rightarrow> bio_bio option" where
  "half s a = do { bio \<leftarrow> s a; case bptr bio of PairHalf b \<Rightarrow> Some b | _ \<Rightarrow> None }"

definition put_half :: "bios \<Rightarrow> nat \<Rightarrow> bio_bio \<Rightarrow> bios" where
  "put_half s a b = s(a := map_option (\<lambda>bio. bio\<lparr>bptr := PairHalf b\<rparr>) (s a))"

definition sizeof_bio_bio_st :: nat where
  "sizeof_bio_bio_st = 56"

definition bio_new :: "heap_env \<Rightarrow> bio \<Rightarrow> bool \<times> bio" where
  "bio_new env bio =
     (case heap_new env sizeof_bio_bio_st of
        None \<Rightarrow> (False, bio)
      | Some _ \<Rightarrow>
          (True, bio\<lparr>bptr := PairHalf \<lparr>peer = None, closed = False, ring_len = 0, ring_offset = 0,
            ring_size = 17 * 1024, ring_buf = None, request = 0\<rparr>\<rparr>))"

definition bio_destroy_pair :: "bios \<Rightarrow> nat \<Rightarrow> bios option" where
  "bio_destroy_pair s a = do {
     bio \<leftarrow> s a;
     if bptr bio = NoData then Some s
     else do {
       b \<leftarrow> half s a;
       case peer b of
         None \<Rightarrow> Some s
       | Some p \<Rightarrow> do {
           peer_bio \<leftarrow> s p;
           peer_b \<leftarrow> half s p;
           check (peer peer_b = Some a);
           check (ring_buf peer_b \<noteq> None);
           let s = s(p \<mapsto> peer_bio\<lparr>init := False,
             bptr := PairHalf (peer_b\<lparr>peer := None, ring_len := 0, ring_offset := 0\<rparr>)\<rparr>);
           check (ring_buf b \<noteq> None);
           Some (s(a \<mapsto> bio\<lparr>init := False, bptr := PairHalf (b\<lparr>peer := None, ring_len := 0, ring_offset := 0\<rparr>)\<rparr>))
         }
     }
   }"

text \<open>The ring buffer and the \<open>bio_bio_st\<close> are freed.\<close>

definition bio_free :: "bios \<Rightarrow> nat \<Rightarrow> bios option" where
  "bio_free s a = do {
     b \<leftarrow> half s a;
     s \<leftarrow> (if peer b \<noteq> None then bio_destroy_pair s a else Some s);
     Some (s(a := map_option (\<lambda>bio. bio\<lparr>bptr := NoData\<rparr>) (s a)))
   }"

partial_function (option) read_loop :: "bytes \<Rightarrow> bio_bio \<Rightarrow> nat \<Rightarrow> bytes \<Rightarrow> (bytes \<times> bio_bio) option" where
  "read_loop buf peer_b rest out = do {
     check (rest \<le> ring_len peer_b);
     let chunk = (if szadd (ring_offset peer_b) rest \<le> ring_size peer_b then rest
       else ring_size peer_b - ring_offset peer_b);
     check (szadd (ring_offset peer_b) chunk \<le> ring_size peer_b);
     bs \<leftarrow> load (Some (buf, 0)) (ring_offset peer_b) chunk;
     let peer_b = peer_b\<lparr>ring_len := ring_len peer_b - chunk\<rparr>;
     peer_b \<leftarrow> (if ring_len peer_b \<noteq> 0 then
         let ofs = ring_offset peer_b + chunk
         in Some (peer_b\<lparr>ring_offset := if ofs = ring_size peer_b then 0 else ofs\<rparr>)
       else do {
         check (chunk = rest);
         Some (peer_b\<lparr>ring_offset := 0\<rparr>)
       });
     if rest - chunk \<noteq> 0 then read_loop buf peer_b (rest - chunk) (out @ bs)
     else Some (out @ bs, peer_b)
   }"

definition bio_read :: "bios \<Rightarrow> nat \<Rightarrow> int \<Rightarrow> (int \<times> bytes \<times> bios) option" where
  "bio_read s a n = do {
     bio \<leftarrow> s a;
     let s = s(a \<mapsto> BIO_clear_retry_flags bio);
     if \<not> init bio then Some (0, [], s)
     else do {
       b \<leftarrow> half s a;
       p \<leftarrow> peer b;
       peer_b \<leftarrow> half s p;
       buf \<leftarrow> ring_buf peer_b;
       let peer_b = peer_b\<lparr>request := 0\<rparr>;
       let s = put_half s p peer_b;
       let sz = size_of_int n;
       if sz = 0 then Some (0, [], s)
       else if ring_len peer_b = 0 then
         if closed peer_b then Some (0, [], s)
         else
           let req = (if sz \<le> ring_size peer_b then sz else ring_size peer_b);
               s = s(a := map_option BIO_set_retry_read (s a))
           in Some (- 1, [], put_half s p (peer_b\<lparr>request := req\<rparr>))
       else do {
         let sz = (if ring_len peer_b < sz then ring_len peer_b else sz);
         check (sz > 0);
         (out, peer_b) \<leftarrow> read_loop buf peer_b sz [];
         Some (int_of_size sz, out, put_half s p peer_b)
       }
     }
   }"

partial_function (option) write_loop :: "bio_bio \<Rightarrow> bytes \<Rightarrow> nat \<Rightarrow> bio_bio option" where
  "write_loop b inp rest = do {
     check (szadd (ring_len b) rest \<le> ring_size b);
     let write_offset = szadd (ring_offset b) (ring_len b);
     let write_offset = (if write_offset \<ge> ring_size b then write_offset - ring_size b else write_offset);
     let chunk = (if szadd write_offset rest \<le> ring_size b then rest else ring_size b - write_offset);
     buf \<leftarrow> ring_buf b;
     data \<leftarrow> store (Some (buf, 0)) write_offset (take chunk inp);
     let b = b\<lparr>ring_len := ring_len b + chunk, ring_buf := map_option fst data\<rparr>;
     check (ring_len b \<le> ring_size b);
     if rest - chunk \<noteq> 0 then write_loop b (drop chunk inp) (rest - chunk) else Some b
   }"

definition bio_write :: "bios \<Rightarrow> nat \<Rightarrow> bytes \<Rightarrow> (int \<times> bios) option" where
  "bio_write s a inp = do {
     bio \<leftarrow> s a;
     let n = length inp;
     let s = s(a \<mapsto> BIO_clear_retry_flags bio);
     if \<not> init bio \<or> n = 0 then Some (0, s)
     else do {
       b \<leftarrow> half s a;
       check (peer b \<noteq> None);
       check (ring_buf b \<noteq> None);
       let b = b\<lparr>request := 0\<rparr>;
       let s = put_half s a b;
       if closed b then Some (- 1, s)
       else do {
         check (ring_len b \<le> ring_size b);
         if ring_len b = ring_size b then Some (- 1, s(a := map_option BIO_set_retry_write (s a)))
         else do {
           let n = (if n > ring_size b - ring_len b then ring_size b - ring_len b else n);
           check (n > 0);
           b \<leftarrow> write_loop b inp n;
           Some (int_of_size n, put_half s a b)
         }
       }
     }
   }"

text \<open>The part of \<open>bio_make_pair\<close> that gives one half its buffer.\<close>

definition make_half :: "heap_env \<Rightarrow> bio_bio \<Rightarrow> nat \<Rightarrow> bool \<times> bio_bio" where
  "make_half env b writebuf_len =
     (if ring_buf b = None then
        let b = (if writebuf_len \<noteq> 0 then b\<lparr>ring_size := writebuf_len\<rparr> else b) in
        (case heap_new env (ring_size b) of
           None \<Rightarrow> (False, b)
         | Some blk \<Rightarrow> (True, b\<lparr>ring_buf := Some blk, ring_len := 0, ring_offset := 0\<rparr>))
      else (True, b))"

definition bio_make_pair :: "heap_env \<Rightarrow> bios \<Rightarrow> nat \<Rightarrow> nat \<Rightarrow> nat \<Rightarrow> nat \<Rightarrow> (bool \<times> bios) option" where
  "bio_make_pair env s x y writebuf1_len writebuf2_len = do {
     b1 \<leftarrow> half s x;
     b2 \<leftarrow> half s y;
     if peer b1 \<noteq> None \<or> peer b2 \<noteq> None then Some (False, s)
     else (case make_half env b1 writebuf1_len of
       (False, b1) \<Rightarrow> Some (False, put_half s x b1)
     | (True, b1) \<Rightarrow> do {
         let s = put_half s x b1;
         b2 \<leftarrow> half s y;
         case make_half env b2 writebuf2_len of
           (False, b2) \<Rightarrow> Some (False, put_half s y b2)
         | (True, b2) \<Rightarrow> do {
             let s = put_half s y b2;
             b1 \<leftarrow> half s x;
             let s = put_half s x (b1\<lparr>peer := Some y, closed := False, request := 0\<rparr>);
             b2 \<leftarrow> half s y;
             let s = put_half s y (b2\<lparr>peer := Some x, closed := False, request := 0\<rparr>);
             let s = s(x := map_option (\<lambda>bio. bio\<lparr>init := True\<rparr>) (s x));
             Some (True, s(y := map_option (\<lambda>bio. bio\<lparr>init := True\<rparr>) (s y)))
           }
       })
   }"

definition bio_ctrl :: "bios \<Rightarrow> nat \<Rightarrow> nat \<Rightarrow> int \<Rightarrow> nat option \<Rightarrow> (int \<times> bios) option" where
  "bio_ctrl s a cmd arg p = do {
     bio \<leftarrow> s a;
     b \<leftarrow> half s a;
     if cmd = BIO_C_GET_WRITE_BUF_SIZE then Some (long_of_size (ring_size b), s)
     else if cmd = BIO_C_GET_WRITE_GUARANTEE then
       Some (if peer b = None \<or> closed b then 0 else signed_take_bit 63 (int (ring_size b) - int (ring_len b)), s)
     else if cmd = BIO_C_GET_READ_REQUEST then Some (long_of_size (request b), s)
     else if cmd = BIO_C_RESET_READ_REQUEST then Some (1, put_half s a (b\<lparr>request := 0\<rparr>))
     else if cmd = BIO_C_SHUTDOWN_WR then Some (1, put_half s a (b\<lparr>closed := True\<rparr>))
     else if cmd = BIO_CTRL_GET_CLOSE then Some (shutdown bio, s)
     else if cmd = BIO_CTRL_SET_CLOSE then Some (1, s(a \<mapsto> bio\<lparr>shutdown := signed_take_bit 31 arg\<rparr>))
     else if cmd = BIO_CTRL_PENDING then
       (case peer b of
          None \<Rightarrow> Some (0, s)
        | Some q \<Rightarrow> do { peer_b \<leftarrow> half s q; Some (long_of_size (ring_len peer_b), s) })
     else if cmd = BIO_CTRL_WPENDING then Some (if ring_buf b \<noteq> None then long_of_size (ring_len b) else 0, s)
     else if cmd = BIO_CTRL_FLUSH then Some (1, s)
     else if cmd = BIO_CTRL_EOF then
       (case p of
          None \<Rightarrow> Some (1, s)
        | Some q \<Rightarrow> do {
            other_b \<leftarrow> half s q;
            Some (if ring_len other_b = 0 \<and> closed other_b then 1 else 0, s)
          })
     else Some (0, s)
   }"

section \<open>The ring as a queue\<close>

definition ring :: "bio_bio \<Rightarrow> bytes" where
  "ring b = (case ring_buf b of
     None \<Rightarrow> []
   | Some buf \<Rightarrow> map (\<lambda>i. buf ! ((ring_offset b + i) mod ring_size b)) [0..<ring_len b])"

definition half_ok :: "bio_bio \<Rightarrow> bool" where
  "half_ok b \<longleftrightarrow>
     (\<exists>buf. ring_buf b = Some buf \<and> length buf = ring_size b) \<and> 0 < ring_size b \<and> ring_size b \<le> 2 ^ 62 \<and>
     ring_len b \<le> ring_size b \<and> ring_offset b < ring_size b \<and> (ring_len b = 0 \<longrightarrow> ring_offset b = 0) \<and>
     request b \<le> ring_size b \<and> (ring_len b \<noteq> 0 \<longrightarrow> request b = 0)"

lemma length_ring [simp]: "half_ok b \<Longrightarrow> length (ring b) = ring_len b"
  by (auto simp: half_ok_def ring_def)

lemma ring_update [simp]:
  "ring (b\<lparr>request := r\<rparr>) = ring b" "ring (b\<lparr>closed := c\<rparr>) = ring b" "ring (b\<lparr>peer := p\<rparr>) = ring b"
  by (simp_all add: ring_def split: option.splits)

lemma add_mod_if: "a < n \<Longrightarrow> i < n \<Longrightarrow> (a + i) mod n = (if a + i < n then a + i else a + i - n)" for n :: nat
  by (simp add: mod_if)

text \<open>What the reader leaves behind.\<close>

definition ring_drop :: "bio_bio \<Rightarrow> nat \<Rightarrow> bio_bio" where
  "ring_drop b n = b\<lparr>ring_len := ring_len b - n,
     ring_offset := if ring_len b = n then 0 else (ring_offset b + n) mod ring_size b\<rparr>"

lemma ring_drop_ok: "half_ok b \<Longrightarrow> request b = 0 \<Longrightarrow> n \<le> ring_len b \<Longrightarrow> half_ok (ring_drop b n)"
  by (auto simp: half_ok_def ring_drop_def)

lemma ring_ring_drop: "half_ok b \<Longrightarrow> n \<le> ring_len b \<Longrightarrow> ring (ring_drop b n) = drop n (ring b)"
proof (cases "ring_len b = n")
  case False
  assume "half_ok b" "n \<le> ring_len b"
  then show ?thesis using False
    by (auto simp: half_ok_def ring_def ring_drop_def drop_map intro!: nth_equalityI) (simp add: mod_simps add.assoc)
qed (auto simp: half_ok_def ring_def ring_drop_def)

lemma read_once:
  assumes b: "half_ok b" "ring_buf b = Some buf" and n: "0 < n" "n \<le> ring_len b" "ring_offset b + n \<le> ring_size b"
  shows "read_loop buf b n out = Some (out @ take n (ring b), ring_drop b n)"
proof -
  have "szadd (ring_offset b) n = ring_offset b + n"
    using b n(3) by (intro szadd_exact) (auto simp: half_ok_def SIZE_LIMIT_def)
  moreover have "take n (drop (ring_offset b) buf) = take n (ring b)"
    using b n by (auto simp: ring_def half_ok_def take_map intro!: nth_equalityI)
  moreover have "ring_offset b + n = ring_size b \<or> (ring_offset b + n) mod ring_size b = ring_offset b + n"
    using n(3) by (cases "ring_offset b + n = ring_size b") auto
  ultimately show ?thesis using b n
    by (subst read_loop.simps) (auto simp: load_def half_ok_def ring_drop_def Let_def)
qed

lemma read_loop_ring:
  assumes b: "half_ok b" "ring_buf b = Some buf" "request b = 0" and n: "0 < n" "n \<le> ring_len b"
  shows "read_loop buf b n [] = Some (take n (ring b), ring_drop b n)"
proof (cases "ring_offset b + n \<le> ring_size b")
  case True
  then show ?thesis using read_once [OF b(1,2) n True] by simp
next
  case False
  let ?c = "ring_size b - ring_offset b"
  have h: "ring_offset b < ring_size b" "ring_len b \<le> ring_size b" "length buf = ring_size b" using b by (auto simp: half_ok_def)
  then have c: "0 < ?c" "?c < n" "ring_offset b + ?c = ring_size b" using False by auto
  have sz: "szadd (ring_offset b) n = ring_offset b + n" "szadd (ring_offset b) ?c = ring_size b"
    using b n h c by (auto simp: half_ok_def SIZE_LIMIT_def szadd_def)
  have first: "take ?c (drop (ring_offset b) buf) = take ?c (ring b)"
    using b n h c by (auto simp: ring_def half_ok_def take_map intro!: nth_equalityI)
  let ?b = "ring_drop b ?c"
  have b': "?b = b\<lparr>ring_len := ring_len b - ?c, ring_offset := 0\<rparr>" using c n by (auto simp: ring_drop_def)
  have ok': "half_ok ?b" "ring_buf ?b = Some buf" using ring_drop_ok [OF b(1,3), of ?c] b(2) c n by (simp_all add: b')
  have "ring_drop ?b (n - ?c) = ring_drop b n"
  proof -
    have "(ring_offset b + n) mod ring_size b = (n - ?c + ring_size b) mod ring_size b" using c h by (intro arg_cong2 [where f = "(mod)"]) linarith+
    moreover have "ring_len b - ?c - (n - ?c) = ring_len b - n" "ring_len b - ?c = n - ?c \<longleftrightarrow> ring_len b = n" using c n by linarith+
    ultimately show ?thesis unfolding b' by (simp add: ring_drop_def)
  qed
  moreover have "take ?c (ring b) @ take (n - ?c) (ring ?b) = take n (ring b)"
    using ring_ring_drop [OF b(1)] c n by (simp flip: take_add)
  moreover have "read_loop buf ?b (n - ?c) (take ?c (ring b)) = Some (take ?c (ring b) @ take (n - ?c) (ring ?b), ring_drop ?b (n - ?c))"
    using c n h by (intro read_once [OF ok']) (auto simp: b')
  moreover have "read_loop buf b n [] = read_loop buf ?b (n - ?c) (take ?c (ring b))"
  proof -
    have ck: "(if ring_offset b + n \<le> ring_size b then n else ?c) = ?c" using False by simp
    have ld: "load (Some (buf, 0)) (ring_offset b) ?c = Some (take ?c (ring b))" using h first by (simp add: load_def)
    have ne: "ring_len b - ?c \<noteq> 0" "n - ?c \<noteq> 0" "ring_offset b + ?c = ring_size b" using c n by linarith+
    show ?thesis
      unfolding read_loop.simps [of buf b n] Let_def sz ck b'
      using n ne by (simp add: ld)
  qed
  ultimately show ?thesis by simp
qed

text \<open>What the writer leaves behind.\<close>

lemma nth_mem_write: "off + length bs \<le> length m \<Longrightarrow> j < length m \<Longrightarrow>
   mem_write m off bs ! j = (if off \<le> j \<and> j < off + length bs then bs ! (j - off) else m ! j)"
  by (auto simp: mem_write_def nth_append)

lemma write_first:
  assumes b: "half_ok b" "ring_buf b = Some buf" "request b = 0" and n: "0 < n" "n \<le> length inp" "ring_len b + n \<le> ring_size b"
  defines "w \<equiv> (ring_offset b + ring_len b) mod ring_size b"
  defines "c \<equiv> if w + n \<le> ring_size b then n else ring_size b - w"
  defines "b' \<equiv> b\<lparr>ring_len := ring_len b + c, ring_buf := Some (mem_write buf w (take c inp))\<rparr>"
  shows "0 < c" "c \<le> n" "half_ok b'" "ring b' = ring b @ take c inp"
    "write_loop b inp n = (if n - c \<noteq> 0 then write_loop b' (drop c inp) (n - c) else Some b')"
proof -
  have h: "ring_offset b < ring_size b" "ring_len b \<le> ring_size b" "length buf = ring_size b" "ring_size b \<le> 2 ^ 62" "0 < ring_size b"
    using b by (auto simp: half_ok_def)
  have lt: "w < ring_size b" using h by (simp add: w_def)
  then show c: "0 < c" "c \<le> n" using n by (auto simp: c_def)
  have fit: "w + c \<le> ring_size b" using lt by (auto simp: c_def)
  have sz: "szadd (ring_len b) n = ring_len b + n" "szadd (ring_offset b) (ring_len b) = ring_offset b + ring_len b" "szadd w n = w + n"
    using h n lt by (auto simp: SIZE_LIMIT_def szadd_def)
  have w: "(if ring_offset b + ring_len b \<ge> ring_size b then ring_offset b + ring_len b - ring_size b else ring_offset b + ring_len b) = w"
    unfolding w_def using h by (cases "ring_len b = ring_size b") (auto simp: add_mod_if)
  let ?buf = "mem_write buf w (take c inp)"
  have tk: "length (take c inp) = c" using n c by simp
  have len: "length ?buf = ring_size b" using h fit tk by (simp add: length_mem_write)
  have b': "ring_buf b' = Some ?buf" "ring_len b' = ring_len b + c" "ring_offset b' = ring_offset b" "ring_size b' = ring_size b"
      "request b' = request b"
    by (simp_all add: b'_def)
  show "half_ok b'" using b n c len by (auto simp: half_ok_def b')
  show "write_loop b inp n = (if n - c \<noteq> 0 then write_loop b' (drop c inp) (n - c) else Some b')"
  proof -
    have ck: "(if w + n \<le> ring_size b then n else ring_size b - w) = c" by (simp add: c_def)
    have st: "store (Some (buf, 0)) w (take c inp) = Some (Some (?buf, 0))" using h fit tk by (simp add: store_def)
    show ?thesis
      unfolding write_loop.simps [of b inp n] Let_def sz w ck
      using n c by (simp add: b(2) st b'_def)
  qed
  show "ring b' = ring b @ take c inp"
  proof (rule nth_equalityI)
    show "length (ring b') = length (ring b @ take c inp)" using b tk by (simp add: ring_def b')
    fix i assume "i < length (ring b')"
    then have i: "i < ring_len b + c" by (simp add: ring_def b')
    have j: "(ring_offset b + i) mod ring_size b < length buf" using h by simp
    have "?buf ! ((ring_offset b + i) mod ring_size b) = (if i < ring_len b then buf ! ((ring_offset b + i) mod ring_size b) else take c inp ! (i - ring_len b))"
    proof (cases "i < ring_len b")
      case True
      then have "\<not> (w \<le> (ring_offset b + i) mod ring_size b \<and> (ring_offset b + i) mod ring_size b < w + c)"
        unfolding w_def using h n c i by (cases "ring_len b = ring_size b") (auto simp: add_mod_if split: if_splits)
      then show ?thesis using True tk fit h by (subst nth_mem_write [OF _ j]) auto
    next
      case False
      have "(ring_offset b + i) mod ring_size b = (w + (i - ring_len b)) mod ring_size b"
      proof -
        obtain d where "i = ring_len b + d" using False by (metis le_add_diff_inverse not_less)
        then show ?thesis by (simp add: w_def mod_simps add.assoc)
      qed
      also have "\<dots> = w + (i - ring_len b)" using i fit False by simp
      finally show ?thesis using False i tk fit h by (subst nth_mem_write [OF _ j]) auto
    qed
    then show "ring b' ! i = (ring b @ take c inp) ! i"
      using i b tk by (simp add: ring_def b' nth_append)
  qed
qed

lemma write_loop_ring:
  assumes b: "half_ok b" "ring_buf b = Some buf" "request b = 0" and n: "0 < n" "n \<le> length inp" "ring_len b + n \<le> ring_size b"
  shows "\<exists>buf'. write_loop b inp n = Some (b\<lparr>ring_len := ring_len b + n, ring_buf := Some buf'\<rparr>) \<and>
    half_ok (b\<lparr>ring_len := ring_len b + n, ring_buf := Some buf'\<rparr>) \<and>
    ring (b\<lparr>ring_len := ring_len b + n, ring_buf := Some buf'\<rparr>) = ring b @ take n inp"
proof -
  let ?w = "(ring_offset b + ring_len b) mod ring_size b"
  define c where "c = (if ?w + n \<le> ring_size b then n else ring_size b - ?w)"
  define b1 where "b1 = b\<lparr>ring_len := ring_len b + c, ring_buf := Some (mem_write buf ?w (take c inp))\<rparr>"
  note one = write_first [OF b n, folded c_def, folded b1_def]
  show ?thesis
  proof (cases "n = c")
    case True
    then show ?thesis using one(3-5) unfolding b1_def by auto
  next
    case False
    let ?k = "n - c"
    have k: "0 < ?k" "?k \<le> length (drop c inp)" "ring_len b1 + ?k \<le> ring_size b1" using one(1,2) n False by (auto simp: b1_def)
    have b1: "ring_buf b1 = Some (mem_write buf ?w (take c inp))" "request b1 = 0" using b by (auto simp: b1_def)
    have lt: "?w < ring_size b" using b by (auto simp: half_ok_def)
    have "(ring_offset b1 + ring_len b1) mod ring_size b1 = (?w + c) mod ring_size b" by (simp add: b1_def mod_simps add.assoc)
    also have "\<dots> = 0" using False lt by (auto simp: c_def)
    finally have "(if (ring_offset b1 + ring_len b1) mod ring_size b1 + ?k \<le> ring_size b1 then ?k
        else ring_size b1 - (ring_offset b1 + ring_len b1) mod ring_size b1) = ?k"
      using k(3) by simp
    note two = write_first [OF one(3) b1 k, unfolded this]
    have "b1\<lparr>ring_len := ring_len b1 + ?k, ring_buf := Some buf'\<rparr> = b\<lparr>ring_len := ring_len b + n, ring_buf := Some buf'\<rparr>" for buf'
      using one(2) by (simp add: b1_def)
    moreover have "take c inp @ take ?k (drop c inp) = take n inp" using one(2) by (simp flip: take_add)
    ultimately show ?thesis using two(3-5) one(4,5) k(1) by auto
  qed
qed

section \<open>Pairs\<close>

text \<open>The object at \<open>a\<close> is one half of a pair whose other half is at \<open>c\<close>.\<close>

definition half_of :: "bios \<Rightarrow> nat \<Rightarrow> nat \<Rightarrow> bool" where
  "half_of s a c \<longleftrightarrow> (\<exists>bio b. s a = Some bio \<and> init bio \<and> bmethod bio = methods_biop \<and> bptr bio = PairHalf b \<and>
     peer b = Some c \<and> half_ok b)"

definition paired :: "bios \<Rightarrow> nat \<Rightarrow> nat \<Rightarrow> bool" where
  "paired s a c \<longleftrightarrow> a \<noteq> c \<and> half_of s a c \<and> half_of s c a"

text \<open>What was written to \<open>a\<close> and not yet read, the capacity and whether writing has been shut down.\<close>

definition chan :: "bios \<Rightarrow> nat \<Rightarrow> bytes \<times> nat \<times> bool" where
  "chan s a = (case half s a of None \<Rightarrow> ([], 0, True) | Some b \<Rightarrow> (ring b, ring_size b, closed b))"

definition retries :: "bios \<Rightarrow> nat \<Rightarrow> u32 \<Rightarrow> bool" where
  "retries s a f \<longleftrightarrow> (\<exists>bio. s a = Some bio \<and> BIO_should_retry bio \<noteq> 0 \<and> BIO_test_flags bio f \<noteq> 0)"

fun chan_write :: "bytes \<times> nat \<times> bool \<Rightarrow> bytes \<Rightarrow> int \<times> bytes" where
  "chan_write (q, m, cl) inp =
     (if cl \<or> length q = m then (- 1, q)
      else let n = min (length inp) (m - length q) in (int n, q @ take n inp))"

fun chan_read :: "bytes \<times> nat \<times> bool \<Rightarrow> nat \<Rightarrow> int \<times> bytes \<times> bytes" where
  "chan_read (q, m, cl) n =
     (if q = [] then (if cl then 0 else - 1, [], [])
      else let k = min n (length q) in (int k, take k q, drop k q))"

lemma pairedE:
  assumes "paired s a c"
  obtains bio b bio' b' where "a \<noteq> c" "s a = Some bio" "init bio" "bmethod bio = methods_biop" "bptr bio = PairHalf b"
    "peer b = Some c" "half_ok b" "half s a = Some b"
    "s c = Some bio'" "init bio'" "bmethod bio' = methods_biop" "bptr bio' = PairHalf b'"
    "peer b' = Some a" "half_ok b'" "half s c = Some b'"
  using assms by (auto simp: paired_def half_of_def half_def)

lemma half_upd [simp]:
  "half (s(a \<mapsto> bio)) a = (case bptr bio of PairHalf b \<Rightarrow> Some b | _ \<Rightarrow> None)"
  "a \<noteq> c \<Longrightarrow> half (s(a := v)) c = half s c"
  by (simp_all add: half_def)

lemma half_of_upd [simp]: "a \<noteq> c \<Longrightarrow> half_of (s(a := v)) c x = half_of s c x"
  by (simp add: half_of_def)

lemma chan_upd [simp]: "a \<noteq> c \<Longrightarrow> chan (s(a := v)) c = chan s c"
  by (simp add: chan_def)

lemma int_of_small: "n \<le> length inp \<Longrightarrow> length inp \<le> INT_MAX \<Longrightarrow> int_of_size n = int n"
  by (rule int_of_size_exact) simp

lemma ex2I: "P x y \<Longrightarrow> \<exists>x y. P x y"
  by blast

lemma bio_write_paired:
  assumes p: "paired s a c" and inp: "inp \<noteq> []" "length inp \<le> INT_MAX"
  shows "\<exists>bio. bio_write s a inp = Some (fst (chan_write (chan s a) inp), s(a \<mapsto> bio)) \<and>
    paired (s(a \<mapsto> bio)) a c \<and>
    chan (s(a \<mapsto> bio)) a = (snd (chan_write (chan s a) inp), snd (chan s a)) \<and>
    (retries (s(a \<mapsto> bio)) a BIO_FLAGS_WRITE \<longleftrightarrow> \<not> snd (snd (chan s a)) \<and> length (fst (chan s a)) = fst (snd (chan s a)))"
  using p
proof (cases rule: pairedE)
  case (1 bio b bio' b')
  let ?b = "b\<lparr>request := 0\<rparr>" and ?bio = "BIO_clear_retry_flags bio"
  have b: "half_ok ?b" "request ?b = 0" using 1(7) by (auto simp: half_ok_def)
  obtain buf where buf: "ring_buf ?b = Some buf" using b(1) by (auto simp: half_ok_def)
  have le: "ring_len b \<le> ring_size b" using b(1) by (auto simp: half_ok_def)
  have ch: "chan s a = (ring b, ring_size b, closed b)" using 1 by (simp add: chan_def)
  have len: "length (ring b) = ring_len b" using 1(7) by simp
  have ok: "paired (s(a \<mapsto> x)) a c" if "bptr x = PairHalf y" "init x" "bmethod x = methods_biop" "peer y = Some c" "half_ok y" for x y
    using that 1 by (auto simp: paired_def half_of_def)
  note rdefs = retries_def BIO_should_retry_def BIO_test_flags_def BIO_FLAGS_SHOULD_RETRY_def BIO_FLAGS_WRITE_def
  note defs = bio_write_def put_half_def rdefs
  consider "closed b" | "\<not> closed b" "ring_len b = ring_size b" | "\<not> closed b" "ring_len b \<noteq> ring_size b" by blast
  then show ?thesis
  proof cases
    case c: 1
    show ?thesis
      using c 1 inp buf b by (intro exI [of _ "?bio\<lparr>bptr := PairHalf ?b\<rparr>"] conjI ok [where y = "?b"]) (auto simp: defs ch chan_def)
  next
    case c: 2
    show ?thesis
      using c 1 inp buf b len
      by (intro exI [of _ "BIO_set_retry_write (?bio\<lparr>bptr := PairHalf ?b\<rparr>)"] conjI ok [where y = "?b"]) (auto simp: defs ch chan_def)
  next
    case c: 3
    define n where "n = (if length inp > ring_size b - ring_len b then ring_size b - ring_len b else length inp)"
    have n: "0 < n" "n \<le> length inp" "ring_len ?b + n \<le> ring_size ?b" "n = min (length inp) (ring_size b - ring_len b)"
      using c le inp by (auto simp: n_def)
    obtain buf' where w: "write_loop ?b inp n = Some (?b\<lparr>ring_len := ring_len b + n, ring_buf := Some buf'\<rparr>)"
        "half_ok (?b\<lparr>ring_len := ring_len b + n, ring_buf := Some buf'\<rparr>)"
        "ring (?b\<lparr>ring_len := ring_len b + n, ring_buf := Some buf'\<rparr>) = ring b @ take n inp"
      using write_loop_ring [OF b(1) buf b(2) n(1-3)] by auto
    let ?y = "?b\<lparr>ring_len := ring_len b + n, ring_buf := Some buf'\<rparr>"
    have "bio_write s a inp = Some (int n, s(a \<mapsto> ?bio\<lparr>bptr := PairHalf ?y\<rparr>))"
      using c 1 inp buf le n(1-3) w(1) int_of_small [OF n(2) inp(2)]
      by (simp add: bio_write_def put_half_def Let_def cong: if_cong flip: n_def)
    then show ?thesis
      using c 1 w(2,3) len n(4)
      by (intro exI [of _ "?bio\<lparr>bptr := PairHalf ?y\<rparr>"] conjI ok [where y = "?y"])
        (auto simp: rdefs ch chan_def Let_def)
  qed
qed

lemma bio_read_paired:
  assumes p: "paired s a c" and n: "0 < n" "n \<le> int INT_MAX"
  shows "\<exists>bio bio'. bio_read s a n = Some (fst (chan_read (chan s c) (nat n)), fst (snd (chan_read (chan s c) (nat n))), s(a \<mapsto> bio, c \<mapsto> bio')) \<and>
    paired (s(a \<mapsto> bio, c \<mapsto> bio')) a c \<and>
    chan (s(a \<mapsto> bio, c \<mapsto> bio')) c = (snd (snd (chan_read (chan s c) (nat n))), snd (chan s c)) \<and>
    chan (s(a \<mapsto> bio, c \<mapsto> bio')) a = chan s a \<and>
    (retries (s(a \<mapsto> bio, c \<mapsto> bio')) a BIO_FLAGS_READ \<longleftrightarrow> \<not> snd (snd (chan s c)) \<and> fst (chan s c) = [])"
  using p
proof (cases rule: pairedE)
  case (1 bio b bio' b')
  let ?b = "b'\<lparr>request := 0\<rparr>" and ?bio = "BIO_clear_retry_flags bio"
  have b: "half_ok ?b" "request ?b = 0" using 1(14) by (auto simp: half_ok_def)
  obtain buf where buf: "ring_buf ?b = Some buf" using b(1) by (auto simp: half_ok_def)
  have ch: "chan s c = (ring b', ring_size b', closed b')" "chan s a = (ring b, ring_size b, closed b)" using 1 by (simp_all add: chan_def)
  have len: "length (ring b') = ring_len b'" using 1(14) by simp
  then have nil: "ring_len b' = 0 \<longleftrightarrow> ring b' = []" by (metis length_0_conv)
  have sz: "size_of_int n = nat n" "nat n \<noteq> 0" using n by (simp_all add: size_of_int_exact INT_MAX_def)
  have ok: "paired (s(a \<mapsto> x, c \<mapsto> x')) a c"
    if "bptr x = PairHalf b" "init x" "bmethod x = methods_biop" "bptr x' = PairHalf y" "init x'" "bmethod x' = methods_biop" "peer y = Some a" "half_ok y"
    for x x' y
    using that 1 by (auto simp: paired_def half_of_def)
  note rdefs = retries_def BIO_should_retry_def BIO_test_flags_def BIO_FLAGS_SHOULD_RETRY_def BIO_FLAGS_READ_def
  note defs = bio_read_def put_half_def rdefs
  consider "ring_len b' = 0" "closed b'" | "ring_len b' = 0" "\<not> closed b'" | "ring_len b' \<noteq> 0" by blast
  then show ?thesis
  proof cases
    case c: 1
    show ?thesis
      using c 1 n buf b len sz nil
      by (intro ex2I [where x = ?bio and y = "bio'\<lparr>bptr := PairHalf ?b\<rparr>"] conjI ok [where y = "?b"]) (auto simp: defs ch chan_def)
  next
    case c: 2
    let ?y = "?b\<lparr>request := if nat n \<le> ring_size b' then nat n else ring_size b'\<rparr>"
    have "half_ok ?y" using b(1) c by (auto simp: half_ok_def)
    then show ?thesis
      using c 1 n buf b len sz nil
      by (intro ex2I [where x = "BIO_set_retry_read ?bio" and y = "bio'\<lparr>bptr := PairHalf ?y\<rparr>"] conjI ok [where y = "?y"])
        (auto simp: defs ch chan_def Let_def fun_upd_twist)
  next
    case c: 3
    define k where "k = (if ring_len b' < nat n then ring_len b' else nat n)"
    have k: "0 < k" "k \<le> ring_len ?b" "k = min (nat n) (ring_len b')" "k \<le> INT_MAX" using c n sz by (auto simp: k_def)
    note r = read_loop_ring [OF b(1) buf b(2) k(1,2)]
    let ?y = "ring_drop ?b k"
    have y: "half_ok ?y" "ring ?y = drop k (ring b')" "peer ?y = Some a" "closed ?y = closed b'" "ring_size ?y = ring_size b'"
      using ring_drop_ok [OF b k(2)] ring_ring_drop [OF b(1) k(2)] 1 by (auto simp: ring_drop_def)
    have "bio_read s a n = Some (int k, take k (ring b'), s(a \<mapsto> ?bio, c \<mapsto> bio'\<lparr>bptr := PairHalf ?y\<rparr>))"
      using c 1 buf sz k(1) r int_of_size_exact [OF k(4)]
      by (simp add: bio_read_def put_half_def Let_def cong: if_cong flip: k_def)
    moreover have "ring b' \<noteq> []" using c len by auto
    ultimately show ?thesis
      using c 1 y len k(3)
      by (intro ex2I [where x = ?bio and y = "bio'\<lparr>bptr := PairHalf ?y\<rparr>"] conjI ok [where y = "?y"])
        (auto simp: rdefs ch chan_def Let_def)
  qed
qed

end
