(* ===== verification/BioIo.thy ===== *)
theory BioIo
  imports BioPair
begin

text \<open>
  Input and output through a BIO's method (\<open>crypto/bio/bio.c\<close>): creation, reference counting,
  reading, writing and control, and the loops on top of them.  A method is one of the two tables
  \<open>mem_method\<close> and \<open>methods_biop\<close>; an entry that is NULL there is a method that is not supported
  here.  Results of C functions come with the bytes they store and the store they leave.
\<close>

section \<open>Creation and release\<close>

definition create :: "heap_env \<Rightarrow> bio_method \<Rightarrow> bio \<Rightarrow> bool \<times> bio" where
  "create env m bio = (case m of mem_method \<Rightarrow> mem_new env bio | methods_biop \<Rightarrow> bio_new env bio)"

definition zero_bio :: "bio_method \<Rightarrow> bio" where
  "zero_bio m = \<lparr>bmethod = m, init = False, shutdown = 1, flags = 0, retry_reason = 0, num = 0, refs = 1,
     bptr = NoData, next_bio = None, num_read = 0, num_write = 0\<rparr>"

text \<open>The object is placed at the free address \<open>a\<close>.\<close>

definition BIO_new :: "heap_env \<Rightarrow> bios \<Rightarrow> nat \<Rightarrow> bio_method \<Rightarrow> nat option \<times> bios" where
  "BIO_new env s a m =
     (case heap_new env sizeof_BIO of
        None \<Rightarrow> (None, s)
      | Some _ \<Rightarrow>
          (case create env m (zero_bio m) of
             (False, _) \<Rightarrow> (None, s)
           | (True, bio) \<Rightarrow> (Some a, s(a \<mapsto> bio))))"

definition BIO_new_mem_buf :: "heap_env \<Rightarrow> bios \<Rightarrow> nat \<Rightarrow> bytes option \<Rightarrow> int \<Rightarrow> (nat option \<times> bios) option" where
  "BIO_new_mem_buf env s a buf len = do {
     sz \<leftarrow> (if len < 0 then map_option length buf else Some (nat len));
     if buf = None \<and> len \<noteq> 0 then Some (None, s)
     else (case BIO_new env s a mem_method of
         (None, s) \<Rightarrow> Some (None, s)
       | (Some r, s) \<Rightarrow> do {
           bio \<leftarrow> s r;
           b \<leftarrow> mem_buf bio;
           Some (Some r, s(r \<mapsto> bio\<lparr>bptr := MemBuf (b\<lparr>bm_data := map_option (\<lambda>d. (d, 0)) buf, bm_length := sz, bm_max := sz\<rparr>),
             flags := flags bio OR BIO_FLAGS_MEM_RDONLY, num := 0\<rparr>))
         })
   }"

definition destroy :: "bios \<Rightarrow> nat \<Rightarrow> bios option" where
  "destroy s a = do {
     bio \<leftarrow> s a;
     case bmethod bio of
       mem_method \<Rightarrow> Some (s(a \<mapsto> mem_free bio))
     | methods_biop \<Rightarrow> bio_free s a
   }"

partial_function (option) BIO_free :: "bios \<Rightarrow> nat option \<Rightarrow> (bool \<times> bios) option" where
  "BIO_free s x =
     (case x of
        None \<Rightarrow> Some (True, s)
      | Some a \<Rightarrow> do {
          bio \<leftarrow> s a;
          (n, zero) \<leftarrow> CRYPTO_refcount_dec_and_test_zero (refs bio);
          let s = s(a \<mapsto> bio\<lparr>refs := n\<rparr>);
          if \<not> zero then Some (False, s)
          else do {
            (nxt, s) \<leftarrow> BIO_pop s (Some a);
            s \<leftarrow> destroy s a;
            BIO_free (s(a := None)) nxt
          }
        })"

definition BIO_up_ref :: "bios \<Rightarrow> nat \<Rightarrow> bios option" where
  "BIO_up_ref s a = do { bio \<leftarrow> s a; Some (s(a \<mapsto> bio\<lparr>refs := CRYPTO_refcount_inc (refs bio)\<rparr>)) }"

definition BIO_new_bio_pair :: "heap_env \<Rightarrow> bios \<Rightarrow> nat \<Rightarrow> nat \<Rightarrow> nat \<Rightarrow> nat \<Rightarrow> ((nat \<times> nat) option \<times> bios) option" where
  "BIO_new_bio_pair env s a1 writebuf1_len a2 writebuf2_len =
     (case BIO_new env s a1 methods_biop of (bio1, s) \<Rightarrow>
        (case BIO_new env s a2 methods_biop of (bio2, s) \<Rightarrow> do {
           (ok, s) \<leftarrow> (case (bio1, bio2) of
               (Some x, Some y) \<Rightarrow> bio_make_pair env s x y writebuf1_len writebuf2_len
             | _ \<Rightarrow> Some (False, s));
           if ok then Some (Some (the bio1, the bio2), s)
           else do {
             (_, s) \<leftarrow> BIO_free s bio1;
             (_, s) \<leftarrow> BIO_free s bio2;
             Some (None, s)
           }
         }))"

section \<open>Reading and writing\<close>

definition bread :: "bios \<Rightarrow> nat \<Rightarrow> int \<Rightarrow> (int \<times> bytes \<times> bios) option" where
  "bread s a len = do {
     bio \<leftarrow> s a;
     case bmethod bio of
       mem_method \<Rightarrow> do { (ret, out, bio) \<leftarrow> mem_read bio len; Some (ret, out, s(a \<mapsto> bio)) }
     | methods_biop \<Rightarrow> bio_read s a len
   }"

definition bwrite :: "heap_env \<Rightarrow> bios \<Rightarrow> nat \<Rightarrow> bytes \<Rightarrow> (int \<times> bios) option" where
  "bwrite env s a inp = do {
     bio \<leftarrow> s a;
     case bmethod bio of
       mem_method \<Rightarrow> do { (ret, bio) \<leftarrow> mem_write_bio env bio inp; Some (ret, s(a \<mapsto> bio)) }
     | methods_biop \<Rightarrow> bio_write s a inp
   }"

definition BIO_read :: "bios \<Rightarrow> nat option \<Rightarrow> int \<Rightarrow> (int \<times> bytes \<times> bios) option" where
  "BIO_read s x len =
     (case x of
        None \<Rightarrow> Some (- 2, [], s)
      | Some a \<Rightarrow> do {
          bio \<leftarrow> s a;
          if \<not> init bio then Some (- 2, [], s)
          else if len \<le> 0 then Some (0, [], s)
          else do {
            (ret, out, s) \<leftarrow> bread s a len;
            if ret > 0 then do {
              bio \<leftarrow> s a;
              Some (ret, out, s(a \<mapsto> bio\<lparr>num_read := szadd (num_read bio) (size_of_int ret)\<rparr>))
            }
            else Some (ret, out, s)
          }
        })"

definition BIO_gets :: "bios \<Rightarrow> nat option \<Rightarrow> int \<Rightarrow> (int \<times> bytes \<times> bios) option" where
  "BIO_gets s x len =
     (case x of
        None \<Rightarrow> Some (- 2, [], s)
      | Some a \<Rightarrow> do {
          bio \<leftarrow> s a;
          if bmethod bio = methods_biop \<or> \<not> init bio then Some (- 2, [], s)
          else if len \<le> 0 then Some (0, [], s)
          else do {
            (ret, out, bio) \<leftarrow> mem_gets bio len;
            Some (ret, out, s(a \<mapsto> if ret > 0 then bio\<lparr>num_read := szadd (num_read bio) (size_of_int ret)\<rparr> else bio))
          }
        })"

definition BIO_write :: "heap_env \<Rightarrow> bios \<Rightarrow> nat option \<Rightarrow> bytes \<Rightarrow> int \<Rightarrow> (int \<times> bios) option" where
  "BIO_write env s x inp inl =
     (case x of
        None \<Rightarrow> Some (- 2, s)
      | Some a \<Rightarrow> do {
          bio \<leftarrow> s a;
          if \<not> init bio then Some (- 2, s)
          else if inl \<le> 0 then Some (0, s)
          else do {
            check (nat inl \<le> length inp);
            (ret, s) \<leftarrow> bwrite env s a (take (nat inl) inp);
            if ret > 0 then do {
              bio \<leftarrow> s a;
              Some (ret, s(a \<mapsto> bio\<lparr>num_write := szadd (num_write bio) (size_of_int ret)\<rparr>))
            }
            else Some (ret, s)
          }
        })"

function BIO_write_all :: "heap_env \<Rightarrow> bios \<Rightarrow> nat option \<Rightarrow> bytes \<Rightarrow> (bool \<times> bios) option" where
  "BIO_write_all env s x data =
     (if data = [] then Some (True, s)
      else do {
        (ret, s) \<leftarrow> BIO_write env s x data (if length data > INT_MAX then int INT_MAX else int (length data));
        if ret \<le> 0 then Some (False, s) else BIO_write_all env s x (drop (nat ret) data)
      })"
  by pat_completeness auto
termination by (relation "measure (\<lambda>(_, _, _, data). length data)") auto

definition BIO_puts :: "heap_env \<Rightarrow> bios \<Rightarrow> nat option \<Rightarrow> bytes \<Rightarrow> (int \<times> bios) option" where
  "BIO_puts env s x str = BIO_write env s x str (int_of_size (length str))"

fun indent_loop :: "heap_env \<Rightarrow> bios \<Rightarrow> nat option \<Rightarrow> nat \<Rightarrow> (bool \<times> bios) option" where
  "indent_loop env s x 0 = Some (True, s)"
| "indent_loop env s x (Suc n) = do {
     (r, s) \<leftarrow> BIO_puts env s x [32];
     if r \<noteq> 1 then Some (False, s) else indent_loop env s x n
   }"

definition BIO_indent :: "heap_env \<Rightarrow> bios \<Rightarrow> nat option \<Rightarrow> nat \<Rightarrow> nat \<Rightarrow> (bool \<times> bios) option" where
  "BIO_indent env s x ind max_indent = indent_loop env s x (if ind > max_indent then max_indent else ind)"

section \<open>Control\<close>

datatype ctrl_arg = NullArg | BufArg buf_mem | BioArg nat

definition BIO_ctrl :: "bios \<Rightarrow> nat option \<Rightarrow> nat \<Rightarrow> int \<Rightarrow> ctrl_arg \<Rightarrow> (int \<times> bios) option" where
  "BIO_ctrl s x cmd larg parg =
     (case x of
        None \<Rightarrow> Some (0, s)
      | Some a \<Rightarrow> do {
          bio \<leftarrow> s a;
          case bmethod bio of
            mem_method \<Rightarrow> do {
              (ret, bio) \<leftarrow> mem_ctrl bio cmd larg (case parg of BufArg b \<Rightarrow> Some b | _ \<Rightarrow> None);
              Some (ret, s(a \<mapsto> bio))
            }
          | methods_biop \<Rightarrow> bio_ctrl s a cmd larg (case parg of BioArg q \<Rightarrow> Some q | _ \<Rightarrow> None)
        })"

definition BIO_reset :: "bios \<Rightarrow> nat option \<Rightarrow> (int \<times> bios) option" where
  "BIO_reset s x = BIO_ctrl s x BIO_CTRL_RESET 0 NullArg"

definition BIO_eof :: "bios \<Rightarrow> nat option \<Rightarrow> (int \<times> bios) option" where
  "BIO_eof s x = BIO_ctrl s x BIO_CTRL_EOF 0 NullArg"

definition BIO_flush :: "bios \<Rightarrow> nat option \<Rightarrow> (int \<times> bios) option" where
  "BIO_flush s x = BIO_ctrl s x BIO_CTRL_FLUSH 0 NullArg"

definition BIO_pending :: "bios \<Rightarrow> nat option \<Rightarrow> nat option" where
  "BIO_pending s x = do { (r, _) \<leftarrow> BIO_ctrl s x BIO_CTRL_PENDING 0 NullArg; check (r \<ge> 0); Some (size_of_int r) }"

definition BIO_wpending :: "bios \<Rightarrow> nat option \<Rightarrow> nat option" where
  "BIO_wpending s x = do { (r, _) \<leftarrow> BIO_ctrl s x BIO_CTRL_WPENDING 0 NullArg; check (r \<ge> 0); Some (size_of_int r) }"

definition BIO_set_close :: "bios \<Rightarrow> nat option \<Rightarrow> int \<Rightarrow> (int \<times> bios) option" where
  "BIO_set_close s x close_flag = BIO_ctrl s x BIO_CTRL_SET_CLOSE close_flag NullArg"

definition BIO_set_mem_buf :: "bios \<Rightarrow> nat option \<Rightarrow> buf_mem \<Rightarrow> int \<Rightarrow> (int \<times> bios) option" where
  "BIO_set_mem_buf s x b take_ownership = BIO_ctrl s x BIO_C_SET_BUF_MEM take_ownership (BufArg b)"

definition BIO_set_mem_eof_return :: "bios \<Rightarrow> nat option \<Rightarrow> int \<Rightarrow> (int \<times> bios) option" where
  "BIO_set_mem_eof_return s x eof_value = BIO_ctrl s x BIO_C_SET_BUF_MEM_EOF_RETURN eof_value NullArg"

definition BIO_ctrl_get_read_request :: "bios \<Rightarrow> nat option \<Rightarrow> nat option" where
  "BIO_ctrl_get_read_request s x = map_option (\<lambda>(r, _). size_of_int r) (BIO_ctrl s x BIO_C_GET_READ_REQUEST 0 NullArg)"

definition BIO_ctrl_get_write_guarantee :: "bios \<Rightarrow> nat option \<Rightarrow> nat option" where
  "BIO_ctrl_get_write_guarantee s x = map_option (\<lambda>(r, _). size_of_int r) (BIO_ctrl s x BIO_C_GET_WRITE_GUARANTEE 0 NullArg)"

definition BIO_shutdown_wr :: "bios \<Rightarrow> nat option \<Rightarrow> (int \<times> bios) option" where
  "BIO_shutdown_wr s x = BIO_ctrl s x BIO_C_SHUTDOWN_WR 0 NullArg"

section \<open>Reading a whole ASN.1 element\<close>

text \<open>\<open>bio_read_full\<close> takes partial reads in its stride.  The result is whether all bytes came, the
  bytes that did, and whether the first read returned zero.  It asks for at most what is left
  and stops at a result of zero or less, so what is left shrinks.\<close>

function read_full :: "('s \<Rightarrow> int \<Rightarrow> (int \<times> bytes \<times> 's) option) \<Rightarrow> 's \<Rightarrow> bool \<Rightarrow> nat \<Rightarrow> (bool \<times> bytes \<times> bool \<times> 's) option" where
  "read_full rd s first_read len =
     (if len = 0 then Some (True, [], False, s)
      else do {
        (ret, out, s) \<leftarrow> rd s (if len \<le> INT_MAX then int len else int INT_MAX);
        if ret \<le> 0 then Some (False, out, first_read \<and> ret = 0, s)
        else do {
          (ok, out', eof, s) \<leftarrow> read_full rd s False (len - nat ret);
          Some (ok, out @ out', eof, s)
        }
      })"
  by pat_completeness auto
termination by (relation "measure (\<lambda>(_, _, _, len). len)") auto

definition bio_read_full :: "bios \<Rightarrow> nat option \<Rightarrow> nat \<Rightarrow> (bool \<times> bytes \<times> bool \<times> bios) option" where
  "bio_read_full s x len = read_full (\<lambda>s. BIO_read s x) s True len"

definition kChunkSize :: nat where
  "kChunkSize = 4096"

text \<open>\<open>blk\<close> is the block allocated so far, \<open>len\<close> bytes long.\<close>

partial_function (option) read_all_loop ::
    "('s \<Rightarrow> int \<Rightarrow> (int \<times> bytes \<times> 's) option) \<Rightarrow> heap_env \<Rightarrow> nat \<Rightarrow> 's \<Rightarrow> bytes \<Rightarrow> nat \<Rightarrow> nat \<Rightarrow> (bytes option \<times> 's) option" where
  "read_all_loop rd env max_len s blk len pos =
     (if pos = len then Some (None, s)
      else do {
        check (pos < len);
        let todo = len - pos;
        check (todo < INT_MAX);
        (n, out, s) \<leftarrow> rd s (int todo);
        check (length out \<le> todo);
        let blk = mem_write blk pos out;
        if n = 0 then Some (Some (take pos blk), s)
        else if n = - 1 then Some (None, s)
        else do {
          let pos = szadd pos (size_of_int n);
          if len < max_len \<and> (len + SIZE_LIMIT - pos) mod SIZE_LIMIT < kChunkSize div 2 then do {
            let len = szadd len kChunkSize;
            let len = (if len < kChunkSize \<or> len > max_len then max_len else len);
            case heap_resize env blk len of
              None \<Rightarrow> Some (None, s)
            | Some blk \<Rightarrow> read_all_loop rd env max_len s blk len pos
          }
          else read_all_loop rd env max_len s blk len pos
        }
      })"

definition read_all_from ::
    "('s \<Rightarrow> int \<Rightarrow> (int \<times> bytes \<times> 's) option) \<Rightarrow> heap_env \<Rightarrow> 's \<Rightarrow> bytes \<Rightarrow> nat \<Rightarrow> (bytes option \<times> 's) option" where
  "read_all_from rd env s prefix max_len =
     (let len = szadd (length prefix) kChunkSize;
          len = (if len > max_len then max_len else len)
      in if len < length prefix then Some (None, s)
         else (case heap_new env len of
             None \<Rightarrow> Some (None, s)
           | Some blk \<Rightarrow> read_all_loop rd env max_len s (mem_write blk 0 prefix) len (length prefix)))"

definition bio_read_all :: "heap_env \<Rightarrow> bios \<Rightarrow> nat option \<Rightarrow> bytes \<Rightarrow> nat \<Rightarrow> (bytes option \<times> bios) option" where
  "bio_read_all env s x prefix max_len = read_all_from (\<lambda>s. BIO_read s x) env s prefix max_len"

text \<open>What \<open>BIO_read_asn1\<close> does once the header is known: the header's bytes and the length of the contents.\<close>

definition read_contents ::
    "('s \<Rightarrow> int \<Rightarrow> (int \<times> bytes \<times> 's) option) \<Rightarrow> heap_env \<Rightarrow> 's \<Rightarrow> bytes \<Rightarrow> nat \<Rightarrow> nat \<Rightarrow> (bytes option \<times> 's) option" where
  "read_contents rd env s header len max_len =
     (let header_len = length header in
      if szadd len header_len < len \<or> szadd len header_len > max_len \<or> len > INT_MAX then Some (None, s)
      else (case heap_new env (szadd len header_len) of
          None \<Rightarrow> Some (None, s)
        | Some _ \<Rightarrow> do {
            (ok, bs, _, s) \<leftarrow> read_full rd s True (szadd len header_len - header_len);
            Some (if ok then Some (header @ bs) else None, s)
          }))"

definition read_asn1 ::
    "('s \<Rightarrow> int \<Rightarrow> (int \<times> bytes \<times> 's) option) \<Rightarrow> heap_env \<Rightarrow> 's \<Rightarrow> nat \<Rightarrow> (bytes option \<times> 's) option" where
  "read_asn1 rd env s max_len = do {
     (ok, header, _, s) \<leftarrow> read_full rd s True 2;
     if \<not> ok then Some (None, s)
     else do {
       let tag = header ! 0;
       let length_byte = header ! 1;
       if tag AND 0x1f = 0x1f then Some (None, s)
       else if length_byte AND 0x80 = 0 then read_contents rd env s header (unat length_byte) max_len
       else do {
         let num_bytes = unat (length_byte AND 0x7f);
         if tag AND 0x20 \<noteq> 0 \<and> num_bytes = 0 then read_all_from rd env s header max_len
         else if num_bytes = 0 \<or> num_bytes > 4 then Some (None, s)
         else do {
           (ok, bs, _, s) \<leftarrow> read_full rd s True num_bytes;
           if \<not> ok then Some (None, s)
           else do {
             let len32 = foldl (\<lambda>v b. push_bit 8 v OR ucast b) (0 :: u32) bs;
             if len32 < 128 \<or> drop_bit ((num_bytes - 1) * 8) len32 = 0 then Some (None, s)
             else read_contents rd env s (header @ bs) (unat len32) max_len
           }
         }
       }
     }
   }"

definition BIO_read_asn1 :: "heap_env \<Rightarrow> bios \<Rightarrow> nat option \<Rightarrow> nat \<Rightarrow> (bytes option \<times> bios) option" where
  "BIO_read_asn1 env s x max_len = read_asn1 (\<lambda>s. BIO_read s x) env s max_len"

end
