(* ===== verification/BioChannel.thy ===== *)
theory BioChannel
  imports BioIo
begin

text \<open>
  What a BIO pair promises: each half accepts bytes into a queue that the other half reads, in
  order, without loss or duplication, whatever the order in which the owners of the two halves
  call it.
\<close>

section \<open>Operations through the method table\<close>

text \<open>The counters of an object do not matter.\<close>

lemma same_view:
  assumes "s a = Some bio" and "init x = init bio" "bmethod x = bmethod bio" "bptr x = bptr bio" "flags x = flags bio"
  shows "paired (s(a \<mapsto> x)) b c = paired s b c" "chan (s(a \<mapsto> x)) z = chan s z" "retries (s(a \<mapsto> x)) z f = retries s z f"
proof -
  have "half (s(a \<mapsto> x)) y = half s y" for y using assms by (cases "y = a") (auto simp: half_def)
  then show "chan (s(a \<mapsto> x)) z = chan s z" by (simp add: chan_def)
  have "half_of (s(a \<mapsto> x)) y w = half_of s y w" for y w using assms by (cases "y = a") (auto simp: half_of_def)
  then show "paired (s(a \<mapsto> x)) b c = paired s b c" by (simp add: paired_def)
  show "retries (s(a \<mapsto> x)) z f = retries s z f"
    using assms by (cases "z = a") (auto simp: retries_def BIO_should_retry_def BIO_test_flags_def)
qed

lemma paired_sym: "paired s a c \<Longrightarrow> paired s c a"
  by (auto simp: paired_def)

text \<open>The queue never exceeds its capacity.\<close>

lemma chan_ok:
  assumes "paired s a c"
  obtains q m cl where "chan s a = (q, m, cl)" "length q \<le> m" "0 < m" "m \<le> 2 ^ 62"
  using assms by (cases rule: pairedE) (auto simp: chan_def half_ok_def)

lemma BIO_write_paired:
  assumes p: "paired s a c" and inp: "inp \<noteq> []" "length inp \<le> INT_MAX"
  shows "\<exists>s'. BIO_write env s (Some a) inp (int (length inp)) = Some (fst (chan_write (chan s a) inp), s') \<and> paired s' a c \<and>
    chan s' a = (snd (chan_write (chan s a) inp), snd (chan s a)) \<and> chan s' c = chan s c \<and>
    (retries s' a BIO_FLAGS_WRITE \<longleftrightarrow> \<not> snd (snd (chan s a)) \<and> length (fst (chan s a)) = fst (snd (chan s a))) \<and>
    (\<forall>z. z \<noteq> a \<longrightarrow> s' z = s z)"
proof -
  from bio_write_paired [OF assms] obtain bio where
    w: "bio_write s a inp = Some (fst (chan_write (chan s a) inp), s(a \<mapsto> bio))" and
    p': "paired (s(a \<mapsto> bio)) a c" and
    ch: "chan (s(a \<mapsto> bio)) a = (snd (chan_write (chan s a) inp), snd (chan s a))" and
    rt: "retries (s(a \<mapsto> bio)) a BIO_FLAGS_WRITE \<longleftrightarrow> \<not> snd (snd (chan s a)) \<and> length (fst (chan s a)) = fst (snd (chan s a))"
    by blast
  obtain bio0 where b0: "s a = Some bio0" "init bio0" "bmethod bio0 = methods_biop" "a \<noteq> c" using p by (auto elim: pairedE)
  let ?r = "fst (chan_write (chan s a) inp)"
  define s1 where "s1 = s(a \<mapsto> bio)"
  have s1: "s1 a = Some bio" "\<forall>z. z \<noteq> a \<longrightarrow> s1 z = s z" "chan s1 c = chan s c" using b0 by (simp_all add: s1_def)
  let ?bio = "if ?r > 0 then bio\<lparr>num_write := szadd (num_write bio) (size_of_int ?r)\<rparr> else bio"
  have "BIO_write env s (Some a) inp (int (length inp)) = Some (?r, s1(a \<mapsto> ?bio))"
    using w b0 inp(1) s1(1) by (simp add: BIO_write_def bwrite_def s1_def)
  moreover note same_view [where s = s1 and a = a and bio = bio and x = ?bio, OF s1(1)]
  ultimately show ?thesis using p' ch rt s1(2,3) unfolding s1_def [symmetric]
    by (intro exI [of _ "s1(a \<mapsto> ?bio)"]) auto
qed

lemma BIO_read_paired:
  assumes p: "paired s a c" and n: "0 < n" "n \<le> int INT_MAX"
  shows "\<exists>s'. BIO_read s (Some a) n = Some (fst (chan_read (chan s c) (nat n)), fst (snd (chan_read (chan s c) (nat n))), s') \<and>
    paired s' a c \<and> chan s' c = (snd (snd (chan_read (chan s c) (nat n))), snd (chan s c)) \<and> chan s' a = chan s a \<and>
    (retries s' a BIO_FLAGS_READ \<longleftrightarrow> \<not> snd (snd (chan s c)) \<and> fst (chan s c) = []) \<and>
    (\<forall>z. z \<noteq> a \<and> z \<noteq> c \<longrightarrow> s' z = s z)"
proof -
  let ?r = "fst (chan_read (chan s c) (nat n))" and ?out = "fst (snd (chan_read (chan s c) (nat n)))"
  from bio_read_paired [OF assms] obtain bio bio' where
    r: "bio_read s a n = Some (?r, ?out, s(a \<mapsto> bio, c \<mapsto> bio'))" and
    p': "paired (s(a \<mapsto> bio, c \<mapsto> bio')) a c" and
    ch: "chan (s(a \<mapsto> bio, c \<mapsto> bio')) c = (snd (snd (chan_read (chan s c) (nat n))), snd (chan s c))"
      "chan (s(a \<mapsto> bio, c \<mapsto> bio')) a = chan s a" and
    rt: "retries (s(a \<mapsto> bio, c \<mapsto> bio')) a BIO_FLAGS_READ \<longleftrightarrow> \<not> snd (snd (chan s c)) \<and> fst (chan s c) = []"
    by blast
  obtain bio0 where b0: "s a = Some bio0" "init bio0" "bmethod bio0 = methods_biop" "a \<noteq> c" using p by (auto elim: pairedE)
  define s1 where "s1 = s(a \<mapsto> bio, c \<mapsto> bio')"
  have s1: "s1 a = Some bio" "\<forall>z. z \<noteq> a \<and> z \<noteq> c \<longrightarrow> s1 z = s z" using b0 by (simp_all add: s1_def)
  let ?bio = "if ?r > 0 then bio\<lparr>num_read := szadd (num_read bio) (size_of_int ?r)\<rparr> else bio"
  have "BIO_read s (Some a) n = Some (?r, ?out, s1(a \<mapsto> ?bio))"
    using r b0 n(1) s1(1) unfolding s1_def [symmetric] by (simp add: BIO_read_def bread_def fun_upd_idem)
  moreover note same_view [where s = s1 and a = a and bio = bio and x = ?bio, OF s1(1)]
  ultimately show ?thesis using p' ch rt s1(2) unfolding s1_def [symmetric]
    by (intro exI [of _ "s1(a \<mapsto> ?bio)"]) auto
qed

lemma BIO_shutdown_wr_paired:
  assumes p: "paired s a c"
  shows "\<exists>s'. BIO_shutdown_wr s (Some a) = Some (1, s') \<and> paired s' a c \<and> chan s' c = chan s c \<and>
    chan s' a = (fst (chan s a), fst (snd (chan s a)), True)"
  using p
proof (cases rule: pairedE)
  case (1 bio b bio' b')
  have "half_ok (b\<lparr>closed := True\<rparr>)" using 1(7) by (simp add: half_ok_def)
  then have "paired (put_half s a (b\<lparr>closed := True\<rparr>)) a c" using 1 by (auto simp: paired_def half_of_def put_half_def)
  moreover have "BIO_shutdown_wr s (Some a) = Some (1, put_half s a (b\<lparr>closed := True\<rparr>))"
    using 1 by (simp add: BIO_shutdown_wr_def BIO_ctrl_def bio_ctrl_def pair_ctrl_defs)
  ultimately show ?thesis using 1 by (auto simp: chan_def put_half_def)
qed

text \<open>What \<open>BIO_ctrl\<close> reports of a pair.\<close>

lemma pair_reports:
  assumes p: "paired s a c"
  shows "BIO_pending s (Some a) = Some (length (fst (chan s c))) \<and>
    BIO_wpending s (Some a) = Some (length (fst (chan s a))) \<and>
    BIO_ctrl_get_write_guarantee s (Some a) =
      Some (if snd (snd (chan s a)) then 0 else fst (snd (chan s a)) - length (fst (chan s a))) \<and>
    BIO_ctrl_get_read_request s (Some a) = map_option request (half s a)"
  using p
proof (cases rule: pairedE)
  case (1 bio b bio' b')
  have h: "ring_len b \<le> ring_size b" "ring_size b \<le> 2 ^ 62" "ring_len b' \<le> ring_size b'" "ring_size b' \<le> 2 ^ 62" "request b \<le> ring_size b"
    "length (ring b) = ring_len b" "length (ring b') = ring_len b'"
    using 1 by (auto simp: half_ok_def)
  then have l: "long_of_size (ring_len b) = int (ring_len b)" "long_of_size (ring_len b') = int (ring_len b')"
    "long_of_size (request b) = int (request b)"
    by (auto intro!: long_of_size_exact)
  have d: "signed_take_bit 63 (int (ring_size b) - int (ring_len b)) = int (ring_size b - ring_len b)"
    using h long_of_size_exact [of "ring_size b - ring_len b"] by (simp add: long_of_size_def of_nat_diff)
  have i: "size_of_int (int n) = n" if "n \<le> 2 ^ 62" for n using that by (simp add: size_of_int_exact)
  have e: "size_of_int (int (ring_size b) - int (ring_len b)) = ring_size b - ring_len b" "size_of_int 0 = 0"
    using i [of "ring_size b - ring_len b"] h by (simp_all add: of_nat_diff size_of_int_def)
  have c: "chan s a = (ring b, ring_size b, closed b)" "chan s c = (ring b', ring_size b', closed b')"
    using 1 by (simp_all add: chan_def)
  have n: "ring_buf b \<noteq> None" using 1(7) by (auto simp: half_ok_def)
  show ?thesis
    using 1 h l d e n
    by (auto simp: BIO_pending_def BIO_wpending_def BIO_ctrl_get_write_guarantee_def BIO_ctrl_get_read_request_def
        BIO_ctrl_def bio_ctrl_def pair_ctrl_defs ctrl_defs c i)
qed

section \<open>Creation\<close>

lemma make_half_fresh:
  assumes "ring_buf b = None" and "w \<le> 2 ^ 62" and "ring_size b = 17 * 1024"
  obtains (fail) b' where "make_half env b w = (False, b')" "peer b' = peer b" "\<not> (\<forall>n. heap_ok env n)"
  | (ok) blk m where "make_half env b w = (True, b\<lparr>ring_size := m, ring_buf := Some blk, ring_len := 0, ring_offset := 0\<rparr>)"
      "m = (if w = 0 then 17 * 1024 else w)" "length blk = m"
proof (cases "heap_new env (if w = 0 then 17 * 1024 else w)")
  case None
  have "\<not> (\<forall>n. heap_ok env n)"
  proof
    assume "\<forall>n. heap_ok env n"
    from heap_new_succeeds [where n = "if w = 0 then 17 * 1024 else w", OF this] None show False
      using assms(2) by (auto simp: SIZE_LIMIT_def split: if_splits)
  qed
  then show ?thesis using None assms
    by (intro fail [of "if w = 0 then b else b\<lparr>ring_size := w\<rparr>"]) (auto simp: make_half_def Let_def)
next
  case (Some blk)
  then have "length blk = (if w = 0 then 17 * 1024 else w)"
    using heap_new_Some [OF Some] assms(2) by (auto simp: SIZE_LIMIT_def)
  then show ?thesis using Some assms
    by (intro ok [of blk "if w = 0 then 17 * 1024 else w"]) (auto simp: make_half_def Let_def)
qed

definition fresh_half :: bio where
  "fresh_half = (zero_bio methods_biop)\<lparr>bptr := PairHalf \<lparr>peer = None, closed = False, ring_len = 0, ring_offset = 0,
     ring_size = 17 * 1024, ring_buf = None, request = 0\<rparr>\<rparr>"

lemma BIO_new_half:
  "BIO_new env s a methods_biop = (Some a, s(a \<mapsto> fresh_half)) \<or>
   BIO_new env s a methods_biop = (None, s) \<and> \<not> (\<forall>n. heap_ok env n)"
proof -
  have "(\<exists>x. heap_new env sizeof_BIO = Some x) \<and> (\<exists>x. heap_new env sizeof_bio_bio_st = Some x)" if "\<forall>n. heap_ok env n"
    using heap_new_succeeds [OF that, of sizeof_BIO] heap_new_succeeds [OF that, of sizeof_bio_bio_st]
    by (simp add: sizeof_BIO_def sizeof_bio_bio_st_def SIZE_LIMIT_def)
  then show ?thesis
    by (cases "heap_new env sizeof_BIO"; cases "heap_new env sizeof_bio_bio_st")
      (auto simp: BIO_new_def create_def bio_new_def fresh_half_def)
qed

text \<open>Releasing a half that was never linked.\<close>

lemma BIO_free_unlinked:
  assumes "s a = Some bio" "refs bio = 1" "next_bio bio = None" "bmethod bio = methods_biop" "bptr bio = PairHalf b" "peer b = None"
  shows "BIO_free s (Some a) = Some (True, s(a := None))"
  using assms
  by (simp add: BIO_free.simps CRYPTO_refcount_dec_and_test_zero_def CRYPTO_REFCOUNT_MAX_def BIO_pop_def destroy_def bio_free_def half_def
      fun_upd_def [symmetric])

lemma BIO_free_NULL [simp]: "BIO_free s None = Some (True, s)"
  by (simp add: BIO_free.simps)

text \<open>A pair comes into being whole or not at all.\<close>

lemma bio_make_pair_fresh:
  assumes "s x = Some fresh_half" "s y = Some fresh_half" "x \<noteq> y" "w1 \<le> 2 ^ 62" "w2 \<le> 2 ^ 62"
  obtains (fail) s' b1 b2 where "bio_make_pair env s x y w1 w2 = Some (False, s')" "\<not> (\<forall>n. heap_ok env n)"
      "s' = s(x \<mapsto> fresh_half\<lparr>bptr := PairHalf b1\<rparr>, y \<mapsto> fresh_half\<lparr>bptr := PairHalf b2\<rparr>)" "peer b1 = None" "peer b2 = None"
  | (ok) s' where "bio_make_pair env s x y w1 w2 = Some (True, s')" "paired s' x y" "\<forall>z. z \<noteq> x \<and> z \<noteq> y \<longrightarrow> s' z = s z"
      "chan s' x = ([], if w1 = 0 then 17 * 1024 else w1, False)" "chan s' y = ([], if w2 = 0 then 17 * 1024 else w2, False)"
proof -
  define b where "b = \<lparr>peer = None, closed = False, ring_len = 0, ring_offset = 0, ring_size = 17 * 1024, ring_buf = None, request = 0\<rparr>"
  have b: "ring_buf b = None" "ring_size b = 17 * 1024" "peer b = None" "request b = 0" by (simp_all add: b_def)
  have f: "bptr fresh_half = PairHalf b" "fresh_half\<lparr>bptr := PairHalf b\<rparr> = fresh_half" "bmethod fresh_half = methods_biop"
    by (simp_all add: fresh_half_def zero_bio_def b_def)
  have h: "half s x = Some b" "half s y = Some b" using assms f by (simp_all add: half_def)
  note defs = bio_make_pair_def h b put_half_def assms(1-3) f
  from b(1) assms(4) b(2) show ?thesis
  proof (cases rule: make_half_fresh [where env = env])
    case f: (fail b1)
    let ?s = "s(x \<mapsto> fresh_half\<lparr>bptr := PairHalf b1\<rparr>)"
    have "?s = ?s(y \<mapsto> fresh_half\<lparr>bptr := PairHalf b\<rparr>)"
      using assms \<open>fresh_half\<lparr>bptr := PairHalf b\<rparr> = fresh_half\<close> by (simp add: fun_upd_idem)
    moreover have "bio_make_pair env s x y w1 w2 = Some (False, ?s)" using f(1) by (simp add: defs)
    ultimately show ?thesis using fail f(2,3) b(3) by metis
  next
    case one: (ok blk1 m1)
    let ?b1 = "b\<lparr>ring_size := m1, ring_buf := Some blk1, ring_len := 0, ring_offset := 0\<rparr>"
    from b(1) assms(5) b(2) show ?thesis
    proof (cases rule: make_half_fresh [where env = env])
      case f: (fail b2)
      let ?s = "s(x \<mapsto> fresh_half\<lparr>bptr := PairHalf ?b1\<rparr>, y \<mapsto> fresh_half\<lparr>bptr := PairHalf b2\<rparr>)"
      have "bio_make_pair env s x y w1 w2 = Some (False, ?s)" using f(1) one(1) by (simp add: defs)
      then show ?thesis using fail [of ?s ?b1 b2] f(2,3) b(3) by simp
    next
      case two: (ok blk2 m2)
      let ?b2 = "b\<lparr>ring_size := m2, ring_buf := Some blk2, ring_len := 0, ring_offset := 0\<rparr>"
      let ?f1 = "fresh_half\<lparr>bptr := PairHalf (?b1\<lparr>peer := Some y, closed := False, request := 0\<rparr>), init := True\<rparr>"
      let ?f2 = "fresh_half\<lparr>bptr := PairHalf (?b2\<lparr>peer := Some x, closed := False, request := 0\<rparr>), init := True\<rparr>"
      let ?s = "s(x \<mapsto> ?f1, y \<mapsto> ?f2)"
      have ok: "half_ok (?b1\<lparr>peer := Some y, closed := False, request := 0\<rparr>)" "half_ok (?b2\<lparr>peer := Some x, closed := False, request := 0\<rparr>)"
        using one two assms(4,5) b by (auto simp: half_ok_def)
      have "bio_make_pair env s x y w1 w2 = Some (True, ?s)"
        using one(1) two(1) by (simp add: defs fun_upd_twist [OF assms(3) [symmetric]])
      moreover have "paired ?s x y" using ok assms(3) f by (auto simp: paired_def half_of_def)
      moreover have "chan ?s x = ([], m1, False)" "chan ?s y = ([], m2, False)"
        using assms(3) by (simp_all add: chan_def ring_def)
      ultimately show ?thesis using that(2) [of ?s] one(2) two(2) by simp
    qed
  qed
qed

lemma bio_pair_created:
  assumes "s x = None" "s y = None" "x \<noteq> y" "w1 \<le> 2 ^ 62" "w2 \<le> 2 ^ 62"
  obtains (fail) "BIO_new_bio_pair env s x w1 y w2 = Some (None, s)" "\<not> (\<forall>n. heap_ok env n)"
  | (ok) s' where "BIO_new_bio_pair env s x w1 y w2 = Some (Some (x, y), s')" "paired s' x y"
      "\<forall>z. z \<noteq> x \<and> z \<noteq> y \<longrightarrow> s' z = s z"
      "chan s' x = ([], if w1 = 0 then 17 * 1024 else w1, False)" "chan s' y = ([], if w2 = 0 then 17 * 1024 else w2, False)"
proof -
  define b where "b = \<lparr>peer = None, closed = False, ring_len = 0, ring_offset = 0, ring_size = 17 * 1024, ring_buf = None, request = 0\<rparr>"
  have f: "refs fresh_half = 1" "next_bio fresh_half = None" "bmethod fresh_half = methods_biop" "bptr fresh_half = PairHalf b" "peer b = None"
    by (simp_all add: fresh_half_def zero_bio_def b_def)
  have gone: "(s(x \<mapsto> v))(x := None) = s" "(s(y \<mapsto> v))(y := None) = s" for v using assms by (simp_all add: fun_upd_idem)
  note release = BIO_free_unlinked [OF _ f(1-3)]
  consider "BIO_new env s x methods_biop = (None, s)" "BIO_new env s y methods_biop = (None, s)" "\<not> (\<forall>n. heap_ok env n)"
    | "BIO_new env s x methods_biop = (None, s)" "BIO_new env s y methods_biop = (Some y, s(y \<mapsto> fresh_half))" "\<not> (\<forall>n. heap_ok env n)"
    | "BIO_new env s x methods_biop = (Some x, s(x \<mapsto> fresh_half))"
        "BIO_new env (s(x \<mapsto> fresh_half)) y methods_biop = (None, s(x \<mapsto> fresh_half))" "\<not> (\<forall>n. heap_ok env n)"
    | "BIO_new env s x methods_biop = (Some x, s(x \<mapsto> fresh_half))"
        "BIO_new env (s(x \<mapsto> fresh_half)) y methods_biop = (Some y, s(x \<mapsto> fresh_half, y \<mapsto> fresh_half))"
    using BIO_new_half [of env s x] BIO_new_half [of env s y] BIO_new_half [of env "s(x \<mapsto> fresh_half)" y] by blast
  then show ?thesis
  proof cases
    case 1
    then show ?thesis using fail by (simp add: BIO_new_bio_pair_def)
  next
    case 2
    then show ?thesis using fail f gone by (simp add: BIO_new_bio_pair_def BIO_free_unlinked)
  next
    case 3
    then show ?thesis using fail f gone by (simp add: BIO_new_bio_pair_def BIO_free_unlinked)
  next
    case 4
    let ?s = "s(x \<mapsto> fresh_half, y \<mapsto> fresh_half)"
    have at: "?s x = Some fresh_half" "?s y = Some fresh_half" using assms(3) by simp_all
    from at assms(3-5) show ?thesis
    proof (cases rule: bio_make_pair_fresh [where env = env])
      case g: (fail s' b1 b2)
      have s': "s' = s(x \<mapsto> fresh_half\<lparr>bptr := PairHalf b1\<rparr>, y \<mapsto> fresh_half\<lparr>bptr := PairHalf b2\<rparr>)"
        unfolding g(3) using assms(3) by (intro ext) simp
      have "BIO_free s' (Some x) = Some (True, s'(x := None))"
        using f g(4) assms(3)
        by (intro BIO_free_unlinked [where bio = "fresh_half\<lparr>bptr := PairHalf b1\<rparr>" and b = b1]) (simp_all add: s')
      moreover have "s'(x := None) = s(y \<mapsto> fresh_half\<lparr>bptr := PairHalf b2\<rparr>)"
        unfolding s' using assms by (intro ext) auto
      moreover have "BIO_free (s(y \<mapsto> fresh_half\<lparr>bptr := PairHalf b2\<rparr>)) (Some y) = Some (True, s)"
        using f g(5) gone by (subst BIO_free_unlinked [where bio = "fresh_half\<lparr>bptr := PairHalf b2\<rparr>" and b = b2]) simp_all
      ultimately show ?thesis using fail g(1,2) 4 by (simp add: BIO_new_bio_pair_def)
    next
      case g: (ok s')
      have "BIO_new_bio_pair env s x w1 y w2 = Some (Some (x, y), s')" using g(1) 4 by (simp add: BIO_new_bio_pair_def del: fun_upd_apply)
      then show ?thesis using ok g(2-5) by simp
    qed
  qed
qed

section \<open>Both owners at work\<close>

text \<open>A state of the system is the store and, for each half, the bytes accepted from its owner and
  the bytes its owner has read.\<close>

type_synonym traffic = "bios \<times> (nat \<Rightarrow> bytes) \<times> (nat \<Rightarrow> bytes)"

inductive pair_step :: "heap_env \<Rightarrow> nat \<Rightarrow> nat \<Rightarrow> traffic \<Rightarrow> traffic \<Rightarrow> bool" for env x y where
  send: "a \<in> {x, y} \<Longrightarrow> BIO_write env s (Some a) inp n = Some (r, s') \<Longrightarrow> n \<le> int INT_MAX \<Longrightarrow>
     pair_step env x y (s, sent, got) (s', sent(a := sent a @ take (nat r) inp), got)"
| receive: "a \<in> {x, y} \<Longrightarrow> BIO_read s (Some a) n = Some (r, out, s') \<Longrightarrow> n \<le> int INT_MAX \<Longrightarrow>
     pair_step env x y (s, sent, got) (s', sent, got(a := got a @ out))"
| shut: "a \<in> {x, y} \<Longrightarrow> BIO_shutdown_wr s (Some a) = Some (r, s') \<Longrightarrow>
     pair_step env x y (s, sent, got) (s', sent, got)"

definition traffic_ok :: "nat \<Rightarrow> nat \<Rightarrow> nat \<Rightarrow> nat \<Rightarrow> traffic \<Rightarrow> bool" where
  "traffic_ok x m1 y m2 = (\<lambda>(s, sent, got). paired s x y \<and>
     sent x = got y @ fst (chan s x) \<and> fst (snd (chan s x)) = m1 \<and>
     sent y = got x @ fst (chan s y) \<and> fst (snd (chan s y)) = m2)"

lemma BIO_write_nothing: "paired s a c \<Longrightarrow> n \<le> 0 \<Longrightarrow> BIO_write env s (Some a) inp n = Some (0, s)"
  by (erule pairedE) (simp add: BIO_write_def)

lemma BIO_read_nothing: "paired s a c \<Longrightarrow> n \<le> 0 \<Longrightarrow> BIO_read s (Some a) n = Some (0, [], s)"
  by (erule pairedE) (simp add: BIO_read_def)

lemma BIO_write_prefix: "0 \<le> n \<Longrightarrow> nat n \<le> length inp \<Longrightarrow>
   BIO_write env s x inp n = BIO_write env s x (take (nat n) inp) (int (length (take (nat n) inp)))"
  by (cases x) (simp_all add: BIO_write_def min_def cong: if_cong)

lemma write_keeps:
  assumes "paired s a c" "BIO_write env s (Some a) inp n = Some (r, s')" "n \<le> int INT_MAX"
  shows "paired s' a c \<and> fst (chan s' a) = fst (chan s a) @ take (nat r) inp \<and> snd (chan s' a) = snd (chan s a) \<and> chan s' c = chan s c \<or> r = - 1 \<and> paired s' a c \<and> chan s' a = chan s a \<and> chan s' c = chan s c"
proof (cases "n \<le> 0")
  case True
  then show ?thesis using assms BIO_write_nothing [OF assms(1)] by simp
next
  case False
  then have le: "nat n \<le> length inp" using assms(1,2) by (auto simp: BIO_write_def elim: pairedE split: if_splits)
  let ?i = "take (nat n) inp"
  have i: "?i \<noteq> []" "length ?i = nat n" "length ?i \<le> INT_MAX" using False le assms(3) by auto
  obtain q m cl where ch: "chan s a = (q, m, cl)" "length q \<le> m" using chan_ok [OF assms(1)] by metis
  from BIO_write_paired [OF assms(1) i(1,3), of env] assms(2) have
    "r = fst (chan_write (chan s a) ?i)" "paired s' a c" "chan s' a = (snd (chan_write (chan s a) ?i), snd (chan s a))" "chan s' c = chan s c"
    using BIO_write_prefix [of n inp env s "Some a"] False le by auto
  then show ?thesis using ch i(2) False by (auto simp: Let_def min_def)
qed

lemma read_keeps:
  assumes "paired s a c" "BIO_read s (Some a) n = Some (r, out, s')" "n \<le> int INT_MAX"
  shows "paired s' a c \<and> fst (chan s c) = out @ fst (chan s' c) \<and> snd (chan s' c) = snd (chan s c) \<and> chan s' a = chan s a"
proof (cases "n \<le> 0")
  case True
  then show ?thesis using assms BIO_read_nothing [OF assms(1)] by simp
next
  case False
  obtain q m cl where ch: "chan s c = (q, m, cl)" using chan_ok [OF paired_sym [OF assms(1)]] by metis
  show ?thesis using BIO_read_paired [OF assms(1), of n] assms(2,3) False ch by (auto simp: Let_def split: if_splits)
qed

inductive_cases pair_stepE: "pair_step env x y st st'"

lemma traffic_ok_sym: "traffic_ok x m1 y m2 st \<longleftrightarrow> traffic_ok y m2 x m1 st"
  by (auto simp: traffic_ok_def paired_sym)

lemma traffic_ok_step: "pair_step env x y st st' \<Longrightarrow> traffic_ok x m1 y m2 st \<Longrightarrow> traffic_ok x m1 y m2 st'"
proof (induction rule: pair_step.induct)
  case (send a s inp n r s' sent got)
  have *: "traffic_ok a m c m' (s', sent(a := sent a @ take (nat r) inp), got)" if "traffic_ok a m c m' (s, sent, got)" for c m m'
  proof -
    have p: "paired s a c" and "a \<noteq> c" using that by (auto simp: traffic_ok_def paired_def)
    from write_keeps [OF p send(2,3)] show ?thesis using that \<open>a \<noteq> c\<close> by (auto simp: traffic_ok_def)
  qed
  show ?case using send(1,4) * traffic_ok_sym by (metis insert_iff singletonD)
next
  case (receive a s n r out s' sent got)
  have *: "traffic_ok a m c m' (s', sent, got(a := got a @ out))" if "traffic_ok a m c m' (s, sent, got)" for c m m'
  proof -
    have p: "paired s a c" and "a \<noteq> c" using that by (auto simp: traffic_ok_def paired_def)
    from read_keeps [OF p receive(2,3)] show ?thesis using that \<open>a \<noteq> c\<close> by (auto simp: traffic_ok_def)
  qed
  show ?case using receive(1,4) * traffic_ok_sym by (metis insert_iff singletonD)
next
  case (shut a s r s' sent got)
  have *: "traffic_ok a m c m' (s', sent, got)" if "traffic_ok a m c m' (s, sent, got)" for c m m'
    using BIO_shutdown_wr_paired [of s a c] shut(2) that by (auto simp: traffic_ok_def)
  show ?case using shut(1,3) * traffic_ok_sym by (metis insert_iff singletonD)
qed

text \<open>The capacity of a half that is created with \<open>writebuf_len = w\<close>.\<close>

definition pair_size :: "nat \<Rightarrow> nat" where
  "pair_size w = (if w = 0 then 17 * 1024 else w)"

definition pair_reachable :: "heap_env \<Rightarrow> nat \<Rightarrow> nat \<Rightarrow> nat \<Rightarrow> nat \<Rightarrow> traffic \<Rightarrow> bool" where
  "pair_reachable env x w1 y w2 st \<longleftrightarrow> (\<exists>s0 s1. s0 x = None \<and> s0 y = None \<and> x \<noteq> y \<and> w1 \<le> 2 ^ 62 \<and> w2 \<le> 2 ^ 62 \<and>
     BIO_new_bio_pair env s0 x w1 y w2 = Some (Some (x, y), s1) \<and>
     (pair_step env x y)\<^sup>*\<^sup>* (s1, \<lambda>_. [], \<lambda>_. []) st)"

lemma reachable_ok: "pair_reachable env x w1 y w2 st \<Longrightarrow> traffic_ok x (pair_size w1) y (pair_size w2) st"
proof -
  assume "pair_reachable env x w1 y w2 st"
  then obtain s0 s1 where s: "s0 x = None" "s0 y = None" "x \<noteq> y" "w1 \<le> 2 ^ 62" "w2 \<le> 2 ^ 62"
      "BIO_new_bio_pair env s0 x w1 y w2 = Some (Some (x, y), s1)"
      "(pair_step env x y)\<^sup>*\<^sup>* (s1, \<lambda>_. [], \<lambda>_. []) st"
    unfolding pair_reachable_def by blast
  from s(1-5) have "traffic_ok x (pair_size w1) y (pair_size w2) (s1, \<lambda>_. [], \<lambda>_. [])"
    by (cases rule: bio_pair_created [where env = env]) (use s(6) in \<open>auto simp: traffic_ok_def pair_size_def\<close>)
  with s(7) show ?thesis by (induction rule: rtranclp_induct) (auto intro: traffic_ok_step)
qed

lemma chan_length: "paired s a c \<Longrightarrow> length (fst (chan s a)) \<le> fst (snd (chan s a))"
  by (elim chan_ok) simp

lemma paired_defined:
  assumes p: "paired s a c" and n: "n \<le> int INT_MAX"
  shows "\<exists>r out s'. BIO_read s (Some a) n = Some (r, out, s')"
    and "n \<le> int (length inp) \<Longrightarrow> \<exists>r s'. BIO_write env s (Some a) inp n = Some (r, s')"
proof -
  show "\<exists>r out s'. BIO_read s (Some a) n = Some (r, out, s')"
    using BIO_read_nothing [OF p, of n] BIO_read_paired [OF p _ n] by (cases "n \<le> 0") (simp, force)
  show "\<exists>r s'. BIO_write env s (Some a) inp n = Some (r, s')" if le: "n \<le> int (length inp)"
  proof (cases "n \<le> 0")
    case True
    then show ?thesis using BIO_write_nothing [OF p] by auto
  next
    case False
    then have "take (nat n) inp \<noteq> []" "length (take (nat n) inp) \<le> INT_MAX" using le n by auto
    from BIO_write_paired [OF p this, of env] show ?thesis
      using BIO_write_prefix [of n inp env s "Some a"] False le by (auto simp: nat_le_iff)
  qed
qed

text \<open>A pair with the default sizes, for concrete instances.\<close>

lemma fresh_pair:
  obtains s where "pair_reachable generous_env 0 0 1 0 (s, \<lambda>_. [], \<lambda>_. [])" "paired s 0 1"
    "chan s 0 = ([], 17408, False)" "chan s 1 = ([], 17408, False)"
proof -
  have e: "(\<lambda>_. None) 0 = (None :: bio option)" "(\<lambda>_. None) 1 = (None :: bio option)" "(0 :: nat) \<noteq> 1" "(0 :: nat) \<le> 2 ^ 62" by simp_all
  from e(1-4) e(4) obtain s1 where s1: "BIO_new_bio_pair generous_env (\<lambda>_. None) 0 0 1 0 = Some (Some (0, 1), s1)" "paired s1 0 1"
      "chan s1 0 = ([], 17408, False)" "chan s1 1 = ([], 17408, False)"
    by (cases rule: bio_pair_created [where env = generous_env]) (simp_all add: generous_env_def)
  then have "pair_reachable generous_env 0 0 1 0 (s1, \<lambda>_. [], \<lambda>_. [])"
    unfolding pair_reachable_def by (intro exI [of _ "\<lambda>_. None"] exI [of _ s1]) simp
  with s1 that show thesis by blast
qed

section \<open>Properties\<close>

text \<open>C17. In every state that the owners of the two halves of a new pair can reach by writing, reading and shutting down
  in any order, what was accepted at one end is what has been read at the other end followed by the pending bytes;
  there are never more of those than the buffer has room for; and every further read or write
  returns, without failing an assertion.\<close>

theorem pair_delivers:
  assumes "pair_reachable env x w1 y w2 (s, sent, got)"
  shows "(\<exists>q. sent x = got y @ q \<and> BIO_pending s (Some y) = Some (length q) \<and> length q \<le> pair_size w1) \<and>
    (\<exists>q. sent y = got x @ q \<and> BIO_pending s (Some x) = Some (length q) \<and> length q \<le> pair_size w2) \<and>
    (\<forall>a\<in>{x, y}. \<forall>n \<le> int INT_MAX. (\<exists>r out s'. BIO_read s (Some a) n = Some (r, out, s')) \<and>
      (\<forall>inp. n \<le> int (length inp) \<longrightarrow> (\<exists>r s'. BIO_write env s (Some a) inp n = Some (r, s'))))"
proof -
  have ok: "traffic_ok x (pair_size w1) y (pair_size w2) (s, sent, got)" by (rule reachable_ok [OF assms])
  then have p: "paired s x y" "paired s y x" by (auto simp: traffic_ok_def paired_sym)
  have "length (fst (chan s x)) \<le> pair_size w1" "length (fst (chan s y)) \<le> pair_size w2"
    using chan_length [OF p(1)] chan_length [OF p(2)] ok by (auto simp: traffic_ok_def)
  moreover have "BIO_pending s (Some y) = Some (length (fst (chan s x)))" "BIO_pending s (Some x) = Some (length (fst (chan s y)))"
    using pair_reports [OF p(1)] pair_reports [OF p(2)] by auto
  moreover have "\<forall>a\<in>{x, y}. \<forall>n \<le> int INT_MAX. (\<exists>r out s'. BIO_read s (Some a) n = Some (r, out, s')) \<and>
      (\<forall>inp. n \<le> int (length inp) \<longrightarrow> (\<exists>r s'. BIO_write env s (Some a) inp n = Some (r, s')))"
    using paired_defined [OF p(1)] paired_defined [OF p(2)] by blast
  ultimately show ?thesis using ok by (auto simp: traffic_ok_def)
qed

lemma pair_delivers_witness:
  "\<exists>st. pair_reachable generous_env 0 0 1 0 st \<and>
     (\<exists>q. fst (snd st) 0 = snd (snd st) 1 @ q \<and> BIO_pending (fst st) (Some 1) = Some (length q))"
proof -
  obtain s where "pair_reachable generous_env 0 0 1 0 (s, \<lambda>_. [], \<lambda>_. [])" by (rule fresh_pair)
  with pair_delivers [OF this] show ?thesis by (intro exI [of _ "(s, \<lambda>_. [], \<lambda>_. [])"]) auto
qed

text \<open>C7. On a pair, \<open>BIO_write\<close> appends to a bounded queue as much as fits, and \<open>BIO_read\<close> takes from the
  other half's queue: the ring buffers with their wrap-around refine the queues \<open>chan_write\<close> and
  \<open>chan_read\<close>, results, retry flags and the untouched other direction included.\<close>

theorem pair_refines_queues:
  assumes "paired s a c"
  shows "(\<forall>inp. inp \<noteq> [] \<and> length inp \<le> INT_MAX \<longrightarrow>
      (\<exists>s'. BIO_write env s (Some a) inp (int (length inp)) = Some (fst (chan_write (chan s a) inp), s') \<and> paired s' a c \<and>
        chan s' a = (snd (chan_write (chan s a) inp), snd (chan s a)) \<and> chan s' c = chan s c \<and>
        (retries s' a BIO_FLAGS_WRITE \<longleftrightarrow> \<not> snd (snd (chan s a)) \<and> length (fst (chan s a)) = fst (snd (chan s a))) \<and>
        (\<forall>z. z \<noteq> a \<longrightarrow> s' z = s z))) \<and>
    (\<forall>n. 0 < n \<and> n \<le> int INT_MAX \<longrightarrow>
      (\<exists>s'. BIO_read s (Some a) n = Some (fst (chan_read (chan s c) (nat n)), fst (snd (chan_read (chan s c) (nat n))), s') \<and>
        paired s' a c \<and> chan s' c = (snd (snd (chan_read (chan s c) (nat n))), snd (chan s c)) \<and> chan s' a = chan s a \<and>
        (retries s' a BIO_FLAGS_READ \<longleftrightarrow> \<not> snd (snd (chan s c)) \<and> fst (chan s c) = []) \<and>
        (\<forall>z. z \<noteq> a \<and> z \<noteq> c \<longrightarrow> s' z = s z)))"
  using BIO_write_paired [OF assms] BIO_read_paired [OF assms] by blast

text \<open>One round of a transfer: the writer offers what is left, the reader asks for up to \<open>n\<close> bytes.\<close>

fun pump :: "heap_env \<Rightarrow> nat \<Rightarrow> nat \<Rightarrow> int \<Rightarrow> nat \<Rightarrow> bios \<Rightarrow> bytes \<Rightarrow> bytes \<Rightarrow> (bios \<times> bytes \<times> bytes) option" where
  "pump env x y n 0 s data got = Some (s, data, got)"
| "pump env x y n (Suc k) s data got = do {
     (r, s) \<leftarrow> BIO_write env s (Some x) data (int (length data));
     (_, out, s) \<leftarrow> BIO_read s (Some y) n;
     pump env x y n k s (drop (nat r) data) (got @ out)
   }"

lemma pump_completes:
  assumes "paired s x y" "chan s x = (q, m, False)" "length data \<le> INT_MAX" "0 < n" "n \<le> int INT_MAX" "length data + length q \<le> k"
  shows "\<exists>s'. pump env x y n k s data got = Some (s', [], got @ q @ data) \<and> paired s' x y \<and> chan s' x = ([], m, False) \<and> chan s' y = chan s y"
  using assms
proof (induction k arbitrary: s q data got)
  case 0
  then show ?case by simp
next
  case (Suc k)
  note p = Suc.prems(1)
  have q: "length q \<le> m" "0 < m" using chan_ok [OF p] Suc.prems(2) by auto
  define j where "j = min (length data) (m - length q)"
  obtain s1 r where w: "BIO_write env s (Some x) data (int (length data)) = Some (r, s1)" "nat r = j"
      "paired s1 x y" "chan s1 x = (q @ take j data, m, False)" "chan s1 y = chan s y"
  proof (cases "data = []")
    case True
    then show ?thesis using that [of 0 s] BIO_write_nothing [OF p] Suc.prems by (simp add: j_def)
  next
    case False
    from BIO_write_paired [OF p this Suc.prems(3), of env] that show ?thesis
      using Suc.prems(2) by (auto simp: j_def Let_def split: if_splits)
  qed
  let ?q1 = "q @ take j data"
  define i where "i = min (nat n) (length ?q1)"
  have j: "j \<le> length data" by (simp add: j_def)
  obtain r' s2 where r: "BIO_read s1 (Some y) n = Some (r', take i ?q1, s2)" "paired s2 x y" "chan s2 x = (drop i ?q1, m, False)" "chan s2 y = chan s y"
    using BIO_read_paired [OF paired_sym [OF w(3)] Suc.prems(4,5)] w(4,5)
    by (cases "?q1 = []") (auto simp: i_def Let_def paired_sym)
  have "length (drop j data) + length (drop i ?q1) \<le> k"
  proof (cases "length data + length q = 0")
    case False
    then have "?q1 \<noteq> []" using q by (auto simp: j_def)
    then have "0 < i" using Suc.prems(4) by (auto simp: i_def)
    moreover have "i \<le> length ?q1" by (simp add: i_def)
    ultimately show ?thesis using Suc.prems(6) j by simp
  qed (simp add: j_def)
  moreover have "length (drop j data) \<le> INT_MAX" using Suc.prems(3) by simp
  ultimately obtain s' where
    "pump env x y n k s2 (drop j data) (got @ take i ?q1) = Some (s', [], (got @ take i ?q1) @ drop i ?q1 @ drop j data)"
    "paired s' x y" "chan s' x = ([], m, False)" "chan s' y = chan s2 y"
    using Suc.IH [OF r(2,3) _ Suc.prems(4,5), of "drop j data" "got @ take i ?q1"] by blast
  moreover have "(got @ take i ?q1) @ drop i ?q1 @ drop j data = got @ q @ data"
    by (metis append.assoc append_take_drop_id)
  ultimately show ?case using w r by auto
qed

text \<open>C24. A transfer makes progress whatever the buffer's size: as long as the writing end has not been shut
  down, offering the rest and reading in turns delivers everything, behind the bytes that were
  pending before, in at most as many rounds as there are bytes.\<close>

theorem pair_transfer_completes:
  assumes "pair_reachable env x w1 y w2 (s, sent, got)" and "\<not> snd (snd (chan s x))"
    and "length data \<le> INT_MAX" and "0 < n" and "n \<le> int INT_MAX" and "length data + length (fst (chan s x)) \<le> k"
  shows "\<exists>s'. pump env x y n k s data [] = Some (s', [], fst (chan s x) @ data) \<and> BIO_pending s' (Some y) = Some 0"
proof -
  have p: "paired s x y" using reachable_ok [OF assms(1)] by (simp add: traffic_ok_def)
  obtain q m where q: "chan s x = (q, m, False)" using assms(2) by (cases "chan s x") auto
  from pump_completes [OF p q assms(3-5), of k env "[]"] assms(6) q obtain s' where
    "pump env x y n k s data [] = Some (s', [], q @ data)" "paired s' x y" "chan s' x = ([], m, False)" by auto
  then show ?thesis using pair_reports [OF paired_sym] q by fastforce
qed

lemma pair_transfer_completes_witness:
  "\<exists>s s'. pump generous_env 0 1 1 3 s [7, 8, 9] [] = Some (s', [], [7, 8, 9]) \<and> BIO_pending s' (Some 1) = Some 0"
proof -
  obtain s where s: "pair_reachable generous_env 0 0 1 0 (s, \<lambda>_. [], \<lambda>_. [])" "chan s 0 = ([], 17408, False)"
    by (rule fresh_pair)
  then show ?thesis using pair_transfer_completes [OF s(1), of "[7, 8, 9]" 1 3] by (auto simp: INT_MAX_def)
qed

lemma pair_refines_queues_witness:
  "\<exists>s s'. BIO_write generous_env s (Some 0) [7, 8, 9] 3 = Some (3, s') \<and> fst (chan s' 0) = [7, 8, 9] \<and>
     (\<exists>s''. BIO_read s' (Some 1) 2 = Some (2, [7, 8], s''))"
proof -
  obtain s where s: "paired s 0 1" "chan s 0 = ([], 17408, False)" by (rule fresh_pair)
  from pair_refines_queues [OF s(1), of generous_env, THEN conjunct1, THEN spec, of "[7, 8, 9]"] s(2) obtain s' where
    s': "BIO_write generous_env s (Some 0) [7, 8, 9] 3 = Some (3, s')" "paired s' 0 1" "chan s' 0 = ([7, 8, 9], 17408, False)"
    by (auto simp: INT_MAX_def)
  from pair_refines_queues [OF paired_sym [OF s'(2)], THEN conjunct2, THEN spec, of 2] s'(3)
  have "\<exists>s''. BIO_read s' (Some 1) 2 = Some (2, [7, 8], s'')" by (auto simp: INT_MAX_def)
  moreover have "fst (chan s' 0) = [7, 8, 9]" using s'(3) by simp
  ultimately show ?thesis using s'(1) by blast
qed

text \<open>The number of bytes a reader that has to wait asks for.\<close>

lemma read_request:
  assumes p: "paired s c a" and n: "0 < n" "n \<le> int INT_MAX" and ch: "chan s a = ([], m, False)"
  shows "\<exists>s'. BIO_read s (Some c) n = Some (- 1, [], s') \<and> paired s' a c \<and> chan s' a = ([], m, False) \<and>
    BIO_ctrl_get_read_request s' (Some a) = Some (min (nat n) m)"
proof -
  obtain s' where r: "BIO_read s (Some c) n = Some (- 1, [], s')" "paired s' a c" "chan s' a = ([], m, False)"
    using BIO_read_paired [OF p n] ch by (auto simp: paired_sym)
  have "half s' a = map_option (\<lambda>b. b\<lparr>request := min (nat n) m\<rparr>) (half s a)"
    using p
  proof (cases rule: pairedE)
    case (1 bio b bio' b')
    then obtain buf where e: "ring b' = []" "\<not> closed b'" "ring_size b' = m" "ring_len b' = 0" "ring_buf b' = Some buf"
      using ch length_ring [of b'] by (auto simp: chan_def half_ok_def simp del: length_ring)
    have sz: "size_of_int n = nat n" "nat n \<noteq> 0" using n by (simp_all add: size_of_int_exact INT_MAX_def)
    let ?cl = "BIO_clear_retry_flags bio"
    have "BIO_read s (Some c) n = Some (- 1, [], s(c \<mapsto> BIO_set_retry_read ?cl, a \<mapsto> bio'\<lparr>bptr := PairHalf (b'\<lparr>request := min (nat n) m\<rparr>)\<rparr>))"
      using 1 n(1) e sz
      by (simp add: BIO_read_def bread_def bio_read_def put_half_def Let_def min_def fun_upd_twist [OF 1(1)] del: fun_upd_apply
          cong: if_cong) (simp add: fun_upd_def)
    then show ?thesis using r(1) 1 by (auto simp: half_def)
  qed
  then have "BIO_ctrl_get_read_request s' (Some a) = Some (min (nat n) m)"
    using pair_reports [OF r(2)] p by (auto elim!: pairedE)
  then show ?thesis using r by blast
qed

text \<open>C27. Flow control: \<open>BIO_ctrl_get_write_guarantee\<close> is exactly the number of bytes the next
  \<open>BIO_write\<close> accepts, no more and no less; and what \<open>BIO_ctrl_get_read_request\<close> reports after the
  other side has tried to read in vain is what was asked for, cut down to what can be written at once.\<close>

theorem pair_flow_control:
  assumes "paired s a c" and "\<not> snd (snd (chan s a))"
  shows "\<exists>g \<le> 2 ^ 62. BIO_ctrl_get_write_guarantee s (Some a) = Some g \<and>
    (\<forall>inp. inp \<noteq> [] \<and> length inp \<le> INT_MAX \<longrightarrow>
      (\<exists>s'. BIO_write env s (Some a) inp (int (length inp)) = Some (if g = 0 then - 1 else int (min (length inp) g), s'))) \<and>
    (\<forall>n. 0 < n \<and> n \<le> int INT_MAX \<and> BIO_pending s (Some c) = Some 0 \<longrightarrow>
      (\<exists>s'. BIO_read s (Some c) n = Some (- 1, [], s') \<and> BIO_ctrl_get_read_request s' (Some a) = Some (min (nat n) g) \<and>
        BIO_ctrl_get_write_guarantee s' (Some a) = Some g))"
proof -
  obtain q m where ch: "chan s a = (q, m, False)" "length q \<le> m" "0 < m" "m \<le> 2 ^ 62"
    using assms(1) by (rule chan_ok) (use assms(2) that in auto)
  let ?g = "m - length q"
  have g: "BIO_ctrl_get_write_guarantee s (Some a) = Some ?g" using pair_reports [OF assms(1)] ch by simp
  have "\<exists>s'. BIO_write env s (Some a) inp (int (length inp)) = Some (if ?g = 0 then - 1 else int (min (length inp) ?g), s')"
    if "inp \<noteq> []" "length inp \<le> INT_MAX" for inp
    using BIO_write_paired [OF assms(1) that, of env] ch by (auto simp: Let_def)
  moreover have "\<exists>s'. BIO_read s (Some c) n = Some (- 1, [], s') \<and> BIO_ctrl_get_read_request s' (Some a) = Some (min (nat n) ?g) \<and>
      BIO_ctrl_get_write_guarantee s' (Some a) = Some ?g"
    if "0 < n" "n \<le> int INT_MAX" "BIO_pending s (Some c) = Some 0" for n
  proof -
    have "q = []" using that(3) pair_reports [OF paired_sym [OF assms(1)]] ch(1) by simp
    with ch(1) read_request [OF paired_sym [OF assms(1)] that(1,2), of m] obtain s' where
      "BIO_read s (Some c) n = Some (- 1, [], s')" "paired s' a c" "chan s' a = ([], m, False)"
      "BIO_ctrl_get_read_request s' (Some a) = Some (min (nat n) m)" by auto
    then show ?thesis using pair_reports [of s' a c] \<open>q = []\<close> by auto
  qed
  ultimately show ?thesis using g ch(4) by (intro exI [of _ ?g]) auto
qed

lemma pair_flow_control_witness:
  "\<exists>s. BIO_ctrl_get_write_guarantee s (Some 0) = Some 17408 \<and>
     (\<exists>s'. BIO_read s (Some 1) 20000 = Some (- 1, [], s') \<and> BIO_ctrl_get_read_request s' (Some 0) = Some 17408)"
proof -
  obtain s where s: "paired s 0 1" "chan s 0 = ([], 17408, False)" by (rule fresh_pair)
  have "\<not> snd (snd (chan s 0))" using s(2) by simp
  with pair_flow_control [OF s(1)] obtain g where g: "BIO_ctrl_get_write_guarantee s (Some 0) = Some g"
    "\<forall>n. 0 < n \<and> n \<le> int INT_MAX \<and> BIO_pending s (Some 1) = Some 0 \<longrightarrow>
      (\<exists>s'. BIO_read s (Some 1) n = Some (- 1, [], s') \<and> BIO_ctrl_get_read_request s' (Some 0) = Some (min (nat n) g) \<and>
        BIO_ctrl_get_write_guarantee s' (Some 0) = Some g)" by blast
  have "g = 17408" using g(1) pair_reports [OF s(1)] s(2) by simp
  moreover have "BIO_pending s (Some 1) = Some 0" using pair_reports [OF paired_sym [OF s(1)]] s(2) by simp
  ultimately show ?thesis using g(1) g(2) [THEN spec, of 20000] by (auto simp: INT_MAX_def)
qed

end
