(* ===== verification/BioAsn1.thy ===== *)
theory BioAsn1
  imports BioChannel Der
begin

text \<open>
  Reading a whole ASN.1 element from a BIO (\<open>BIO_read_asn1\<close> and its helpers in \<open>crypto/bio/bio.c\<close>).
  The client's reasoning needs only what every well-behaved BIO promises about
  \<open>BIO_read\<close>: the locale \<open>byte_source\<close>.  It is interpreted on memory BIOs and on BIO pairs.
\<close>

declare read_full.simps [simp del]

section \<open>Byte sources\<close>

locale byte_source =
  fixes rd :: "'s \<Rightarrow> int \<Rightarrow> (int \<times> bytes \<times> 's) option"
    and pend :: "'s \<Rightarrow> bytes"
    and ok :: "'s \<Rightarrow> bool"
  assumes rd_data: "ok s \<Longrightarrow> pend s \<noteq> [] \<Longrightarrow> 0 < n \<Longrightarrow> n \<le> int INT_MAX \<Longrightarrow>
      \<exists>k s'. 0 < k \<and> int k \<le> n \<and> k \<le> length (pend s) \<and> rd s n = Some (int k, take k (pend s), s') \<and> ok s' \<and> pend s' = drop k (pend s)"
    and rd_empty: "ok s \<Longrightarrow> pend s = [] \<Longrightarrow> 0 < n \<Longrightarrow> n \<le> int INT_MAX \<Longrightarrow>
      \<exists>r s'. r \<le> 0 \<and> rd s n = Some (r, [], s') \<and> ok s' \<and> pend s' = []"
begin

lemma read_full_enough:
  "ok s \<Longrightarrow> len \<le> length (pend s) \<Longrightarrow>
   \<exists>eof s'. read_full rd s f len = Some (True, take len (pend s), eof, s') \<and> ok s' \<and> pend s' = drop len (pend s)"
proof (induction len arbitrary: s f rule: less_induct)
  case (less len)
  show ?case
  proof (cases "len = 0")
    case True
    then show ?thesis using less.prems by (auto simp: read_full.simps [of rd s])
  next
    case False
    let ?n = "if len \<le> INT_MAX then int len else int INT_MAX"
    have "pend s \<noteq> []" "0 < ?n" "?n \<le> int INT_MAX" using less.prems False by (auto simp: INT_MAX_def)
    from rd_data [OF less.prems(1) this] obtain k s1 where k: "0 < k" "int k \<le> ?n"
        "rd s ?n = Some (int k, take k (pend s), s1)" "ok s1" "pend s1 = drop k (pend s)" by blast
    then have "k \<le> len" "len - k < len" "len - k \<le> length (pend s1)" using False less.prems by (auto split: if_splits)
    with less.IH [OF this(2) k(4) this(3), of False] obtain eof s' where
      "read_full rd s1 False (len - k) = Some (True, take (len - k) (pend s1), eof, s')" "ok s'" "pend s' = drop (len - k) (pend s1)"
      by blast
    moreover have "take k (pend s) @ take (len - k) (drop k (pend s)) = take len (pend s)"
      using \<open>k \<le> len\<close> by (simp flip: take_add)
    ultimately show ?thesis using k False \<open>k \<le> len\<close> by (simp add: read_full.simps [of rd s])
  qed
qed

lemma read_full_short:
  "ok s \<Longrightarrow> length (pend s) < len \<Longrightarrow>
   \<exists>eof s'. read_full rd s f len = Some (False, pend s, eof, s') \<and> ok s' \<and> pend s' = []"
proof (induction len arbitrary: s f rule: less_induct)
  case (less len)
  let ?n = "if len \<le> INT_MAX then int len else int INT_MAX"
  have n: "0 < ?n" "?n \<le> int INT_MAX" "len \<noteq> 0" using less.prems by (auto simp: INT_MAX_def)
  show ?case
  proof (cases "pend s = []")
    case True
    from rd_empty [OF less.prems(1) this n(1,2)] obtain r s' where
      "r \<le> 0" "rd s ?n = Some (r, [], s')" "ok s'" "pend s' = []" by blast
    then show ?thesis using True n(3) by (simp add: read_full.simps [of rd s])
  next
    case False
    from rd_data [OF less.prems(1) this n(1,2)] obtain k s1 where k: "0 < k" "int k \<le> ?n" "k \<le> length (pend s)"
        "rd s ?n = Some (int k, take k (pend s), s1)" "ok s1" "pend s1 = drop k (pend s)" by blast
    then have "len - k < len" "length (pend s1) < len - k" using less.prems by auto
    with less.IH [OF this(1) k(5) this(2), of False] obtain eof s' where
      "read_full rd s1 False (len - k) = Some (False, pend s1, eof, s')" "ok s'" "pend s' = []" by blast
    then show ?thesis using k n(3) by (simp add: read_full.simps [of rd s])
  qed
qed

lemma read_contents_outcome:
  assumes "ok s" and "\<forall>n. heap_ok env n" and "length header \<le> 6" and "len < 2 ^ 32"
  shows "\<exists>r s'. read_contents rd env s header len max_len = Some (r, s') \<and> ok s' \<and>
    (if len + length header \<le> max_len \<and> len \<le> INT_MAX \<and> len \<le> length (pend s)
     then r = Some (header @ take len (pend s)) \<and> pend s' = drop len (pend s) else r = None)"
proof -
  have sz: "szadd len (length header) = len + length header" "\<not> len + length header < len"
    using assms(3,4) by (auto simp: SIZE_LIMIT_def intro!: szadd_exact)
  obtain blk where blk: "heap_new env (len + length header) = Some blk"
    using heap_new_succeeds [where n = "len + length header", OF assms(2)] assms(3,4) by (auto simp: SIZE_LIMIT_def)
  let ?fits = "len + length header \<le> max_len \<and> len \<le> INT_MAX"
  have run: "read_contents rd env s header len max_len =
      (if ?fits then do { (ok, bs, _, s) \<leftarrow> read_full rd s True len; Some (if ok then Some (header @ bs) else None, s) }
       else Some (None, s))"
    using blk sz by (simp add: read_contents_def Let_def not_le)
  show ?thesis
  proof (cases "len \<le> length (pend s)")
    case True
    from read_full_enough [OF assms(1) this, of True] True assms(1) show ?thesis unfolding run by (cases ?fits) auto
  next
    case False
    then have "length (pend s) < len" by simp
    from read_full_short [OF assms(1) this, of True] False assms(1) show ?thesis unfolding run by (cases ?fits) auto
  qed
qed

end

section \<open>Headers\<close>

definition low_tag :: "u32 \<Rightarrow> bool" where
  "low_tag t \<longleftrightarrow> unat t mod 2 ^ 29 < 31"

lemma low_tag_byte:
  assumes "low_tag t"
  obtains b where "der_tag t = [b]" "unat b mod 32 \<noteq> 31"
proof -
  let ?c = "unat t div 2 ^ 29" and ?n = "unat t mod 2 ^ 29"
  have "?c < 8" "?n < 32" using der_tag_parts(1) [of t] assms by (auto simp: low_tag_def)
  from der_first_byte [OF this] that [of "word_of_nat (?c * 32 + ?n)"] show ?thesis
    using assms by (simp add: low_tag_def der_tag_def Let_def del: of_nat_add of_nat_mult)
qed

lemma byte_low_tag:
  assumes "unat b mod 32 \<noteq> 31"
  obtains t where "low_tag t" "der_tag t = [b :: u8]"
proof -
  let ?c = "unat b div 32" and ?n = "unat b mod 32"
  have c: "?c < 8" using unat_byte_less [of b] by (simp add: less_mult_imp_div_less)
  have "?n < 32" by (rule mod_less_divisor) simp
  then have "?n < 31" using assms by linarith
  then have p: "?c < 8" "?n < 2 ^ 29" "?n < 31" using c by simp_all
  have b: "word_of_nat (?c * 32 + ?n) = b" by (simp only: div_mult_mod_eq of_nat_unat ucast_id)
  have "?c * 2 ^ 29 + ?n < 2 ^ 32" using p by simp
  then have "unat (word_of_nat (?c * 2 ^ 29 + ?n) :: u32) = ?c * 2 ^ 29 + ?n" by (simp add: unat_of_nat del: of_nat_add of_nat_mult)
  then have "low_tag (word_of_nat (?c * 2 ^ 29 + ?n))" using p by (simp add: low_tag_def del: of_nat_add of_nat_mult)
  then show ?thesis using that der_tag_of_parts [OF p(1,2)] p(3) b by simp
qed

lemma byte_masks:
  fixes b :: u8
  shows "b AND 0x1f = 0x1f \<longleftrightarrow> unat b mod 32 = 31" "unat (b AND 0x7f) = unat b mod 128" "b AND 0x80 = 0 \<longleftrightarrow> unat b < 128"
proof -
  have m: "(0x1f :: u8) = mask 5" "(0x7f :: u8) = mask 7" by (simp_all add: mask_eq_exp_minus_1)
  show "unat (b AND 0x7f) = unat b mod 128" unfolding m using unat_and_mask [of b 7] by simp
  have "unat (b AND 0x1f) = unat b mod 32" unfolding m using unat_and_mask [of b 5] by simp
  then show "b AND 0x1f = 0x1f \<longleftrightarrow> unat b mod 32 = 31" by (simp add: word_unat_eq_iff)
  show "b AND 0x80 = 0 \<longleftrightarrow> unat b < 128" by (rule byte_and_128)
qed

text \<open>Reading a length, as the code does it.\<close>

lemma der_len_parse:
  assumes "n < 2 ^ 32"
  shows "b # p = der_len n @ q \<longleftrightarrow>
    (if unat b < 128 then n = unat b \<and> p = q
     else unat b - 128 \<noteq> 0 \<and> unat b - 128 \<le> 4 \<and> unat b - 128 \<le> length p \<and> n = be_val (take (unat b - 128) p) \<and>
       128 \<le> n \<and> n div 256 ^ (unat b - 128 - 1) \<noteq> 0 \<and> q = drop (unat b - 128) p)" (is "?L \<longleftrightarrow> ?R")
proof
  assume l: ?L
  show ?R
  proof (cases "n < 128")
    case True
    then have "b = word_of_nat n" "p = q" using l by (auto simp: der_len_def)
    then show ?R using True by simp
  next
    case False
    then obtain k where k: "k \<noteq> 0" "k \<le> 4" "n < 256 ^ k" "n div 256 ^ (k - 1) \<noteq> 0" "der_len n = word_of_nat (128 + k) # be_bytes k n"
      using der_len_long [OF _ assms] by (metis not_less)
    then have "unat b = 128 + k" "p = be_bytes k n @ q" using l by (auto simp: unat_byte_of_nat simp del: of_nat_add)
    then show ?R using k False by (simp add: be_val_be_bytes)
  qed
next
  assume r: ?R
  show ?L
  proof (cases "unat b < 128")
    case True
    then show ?L using r by (simp add: der_len_def)
  next
    case False
    let ?k = "unat b - 128"
    have k: "?k \<noteq> 0" "?k \<le> 4" "?k \<le> length p" "n = be_val (take ?k p)" "128 \<le> n" "n div 256 ^ (?k - 1) \<noteq> 0" "q = drop ?k p"
      using r False by auto
    have "n < 256 ^ ?k" using be_val_less [of "take ?k p"] k(3,4) by simp
    note d = der_len_of_octets [OF k(5,1,2) this k(6)]
    have "be_bytes ?k n = take ?k p" using be_bytes_be_val [of "take ?k p"] k(3,4) by simp
    moreover have "word_of_nat (128 + ?k) = b" using False by simp
    ultimately show ?L using d(1) k(7) by simp
  qed
qed

lemma der_len_append_eq:
  assumes "n < 2 ^ 32" "m < 2 ^ 32"
  shows "der_len n @ q = der_len m @ r \<longleftrightarrow> n = m \<and> q = r"
proof
  assume eq: "der_len n @ q = der_len m @ r"
  have "der_len n \<noteq> []" by (simp add: der_len_def Let_def)
  then obtain b p where b: "der_len n @ q = b # p" by (cases "der_len n") auto
  show "n = m \<and> q = r"
    using der_len_parse [OF assms(1), of b p q] der_len_parse [OF assms(2), of b p r] b eq by (auto split: if_splits)
qed simp

lemma low_tlv_eq:
  assumes "low_tag t" "low_tag t0" "der_tag t0 = [b]" "length c < 2 ^ 32" "n < 2 ^ 32"
  shows "b # der_len n @ p = der_tlv t c @ rest \<longleftrightarrow> t = t0 \<and> n = length c \<and> p = c @ rest"
proof -
  obtain b' where b': "der_tag t = [b']" using low_tag_byte [OF assms(1)] .
  have "b = b' \<longleftrightarrow> t = t0" using parse_der_tag [of t "[]"] parse_der_tag [of t0 "[]"] b' assms(3) by auto
  then show ?thesis using b' der_len_append_eq [OF assms(5,4), of p "c @ rest"] by (auto simp: der_tlv_def)
qed

text \<open>What a reader of elements is to do with the bytes of a source: it returns the element they start with, if there is
  one within the limits, and leaves what follows.\<close>

definition reads_element :: "('s \<Rightarrow> bytes) \<Rightarrow> ('s \<Rightarrow> bool) \<Rightarrow> 's \<Rightarrow> nat \<Rightarrow> (bytes option \<times> 's) option \<Rightarrow> bool" where
  "reads_element pend ok s max_len res \<longleftrightarrow> (\<exists>r s'. res = Some (r, s') \<and> ok s' \<and>
    (\<forall>out. r = Some out \<longrightarrow> (\<exists>t c. low_tag t \<and> out = der_tlv t c \<and> length c \<le> INT_MAX \<and> length out \<le> max_len \<and> pend s = out @ pend s')) \<and>
    (\<forall>t c rest. low_tag t \<and> length c \<le> INT_MAX \<and> length (der_tlv t c) \<le> max_len \<and> pend s = der_tlv t c @ rest \<longrightarrow>
      r = Some (der_tlv t c)))"

context byte_source
begin

lemma reads_nothing:
  "ok s' \<Longrightarrow> (\<And>t c rest. low_tag t \<Longrightarrow> length c \<le> INT_MAX \<Longrightarrow> pend s \<noteq> der_tlv t c @ rest) \<Longrightarrow>
   reads_element pend ok s max_len (Some (None, s'))"
  by (auto simp: reads_element_def)

lemma read_contents_finishes:
  assumes "ok s2" and heap: "\<forall>n. heap_ok env n" and t0: "low_tag t0" "der_tag t0 = [b]" and len: "len < 2 ^ 32"
    and p: "pend s = b # der_len len @ pend s2"
  shows "reads_element pend ok s max_len (read_contents rd env s2 (b # der_len len) len max_len)"
proof -
  have h: "length (b # der_len len) \<le> 6" using length_der_len [of len] by simp
  have tl: "der_tlv t0 c = b # der_len (length c) @ c" for c by (simp add: der_tlv_def t0)
  have small: "length c < 2 ^ 32" if "length c \<le> INT_MAX" for c :: bytes using that by (simp add: INT_MAX_def)
  obtain r s' where r: "read_contents rd env s2 (b # der_len len) len max_len = Some (r, s')" "ok s'"
    "if len + length (b # der_len len) \<le> max_len \<and> len \<le> INT_MAX \<and> len \<le> length (pend s2)
     then r = Some ((b # der_len len) @ take len (pend s2)) \<and> pend s' = drop len (pend s2) else r = None"
    using read_contents_outcome [OF assms(1,2) h len, of max_len] by blast
  show ?thesis unfolding reads_element_def r(1)
  proof (rule exI [of _ r], rule exI [of _ s'], intro conjI allI impI, rule refl, rule r(2))
    fix out assume "r = Some out"
    then have c: "len + length (b # der_len len) \<le> max_len" "len \<le> INT_MAX" "len \<le> length (pend s2)"
        "out = (b # der_len len) @ take len (pend s2)" "pend s' = drop len (pend s2)"
      using r(3) by (auto split: if_splits)
    then have "out = der_tlv t0 (take len (pend s2))" by (simp add: tl)
    moreover have "pend s = out @ pend s'" using c p by simp
    moreover have "length out \<le> max_len" "length (take len (pend s2)) \<le> INT_MAX" using c by simp_all
    ultimately show "\<exists>t c. low_tag t \<and> out = der_tlv t c \<and> length c \<le> INT_MAX \<and> length out \<le> max_len \<and> pend s = out @ pend s'"
      using t0(1) by blast
  next
    fix t c rest
    assume a: "low_tag t \<and> length c \<le> INT_MAX \<and> length (der_tlv t c) \<le> max_len \<and> pend s = der_tlv t c @ rest"
    then have e: "t = t0" "len = length c" "pend s2 = c @ rest"
      using low_tlv_eq [OF _ t0 small len, of t c "pend s2" rest] p by auto
    then show "r = Some (der_tlv t c)" using r(3) a by (simp add: tl split: if_splits)
  qed
qed

text \<open>What \<open>BIO_read_asn1\<close> does with bytes that do not announce an indefinite length.\<close>

lemma read_asn1_outcome:
  assumes ok: "ok s" and heap: "\<forall>n. heap_ok env n"
    and definite: "\<nexists>b r. pend s = b # 0x80 # r \<and> b AND 0x20 \<noteq> 0 \<and> b AND 0x1f \<noteq> 0x1f"
  shows "reads_element pend ok s max_len (read_asn1 rd env s max_len)"
proof (cases "length (pend s) < 2")
  case True
  from read_full_short [OF ok this, of True] obtain eof s' where
    "read_full rd s True 2 = Some (False, pend s, eof, s')" "ok s'" by blast
  moreover have "pend s \<noteq> der_tlv t c @ rest" for t c rest
    using True by (auto simp: der_tlv_def der_tag_def der_len_def Let_def)
  ultimately show ?thesis by (simp add: read_asn1_def reads_nothing)
next
  case False
  then obtain b0 b1 p where p: "pend s = b0 # b1 # p" by (cases "pend s"; cases "tl (pend s)") auto
  from read_full_enough [OF ok, of 2 True] False obtain eof s1 where
    s1: "read_full rd s True 2 = Some (True, [b0, b1], eof, s1)" "ok s1" "pend s1 = p" by (auto simp: p)
  let ?run = "read_asn1 rd env s max_len"
  show ?thesis
  proof (cases "unat b0 mod 32 = 31")
    case True
    then have "?run = Some (None, s1)" by (simp add: read_asn1_def s1 byte_masks)
    moreover have "pend s \<noteq> der_tlv t c @ rest" if t: "low_tag t" for t c rest
    proof -
      obtain b where "der_tag t = [b]" "unat b mod 32 \<noteq> 31" using low_tag_byte [OF t] .
      then show ?thesis using True by (auto simp: der_tlv_def p)
    qed
    ultimately show ?thesis using s1(2) by (simp add: reads_nothing)
  next
    case low: False
    obtain t0 where t0: "low_tag t0" "der_tag t0 = [b0]" using byte_low_tag [OF low] .
    have parsed: "b1 # p = der_len (length c) @ c @ rest" "length c < 2 ^ 32"
      if t: "low_tag t" "length c \<le> INT_MAX" "pend s = der_tlv t c @ rest" for t c rest
    proof -
      obtain b where "der_tag t = [b]" using low_tag_byte [OF t(1)] by metis
      then show "b1 # p = der_len (length c) @ c @ rest" "length c < 2 ^ 32"
        using t by (auto simp: p der_tlv_def INT_MAX_def)
    qed
    show ?thesis
    proof (cases "unat b1 < 128")
      case True
      then have "?run = read_contents rd env s1 (b0 # der_len (unat b1)) (unat b1) max_len"
        using low by (simp add: read_asn1_def s1 byte_masks der_len_def)
      then show ?thesis
        using True read_contents_finishes [OF s1(2) heap t0, of "unat b1" s max_len] by (simp add: p s1(3) der_len_def)
    next
      case long: False
      let ?k = "unat b1 - 128"
      have k: "unat (b1 AND 0x7f) = ?k"
        using nat_high_bit [of "unat b1"] long unat_byte_less [of b1] unfolding byte_masks(2) by linarith
      have none: "?k \<noteq> 0 \<and> ?k \<le> 4 \<and> ?k \<le> length p \<and> 128 \<le> be_val (take ?k p) \<and> be_val (take ?k p) div 256 ^ (?k - 1) \<noteq> 0"
        if "low_tag t" "length c \<le> INT_MAX" "pend s = der_tlv t c @ rest" for t c rest
        using iffD1 [OF der_len_parse [OF parsed(2) [OF that], of b1 p "c @ rest"] parsed(1) [OF that]] long by (metis (no_types, lifting))
      consider "?k = 0" | "?k > 4" | "?k \<noteq> 0" "?k \<le> 4" "length p < ?k" | "?k \<noteq> 0" "?k \<le> 4" "?k \<le> length p" by linarith
      then show ?thesis
      proof cases
        case 1
        then have "b1 = 0x80" using long by (simp add: word_unat_eq_iff)
        then have "b0 AND 0x20 = 0" using definite p low by (auto simp: byte_masks)
        then have "?run = Some (None, s1)" using low long 1 k by (simp add: read_asn1_def s1 byte_masks)
        moreover have "pend s \<noteq> der_tlv t c @ rest" if "low_tag t" "length c \<le> INT_MAX" for t c rest
          using none [OF that] 1 by blast
        ultimately show ?thesis using s1(2) by (simp add: reads_nothing)
      next
        case 2
        then have "?run = Some (None, s1)" using low long k by (auto simp: read_asn1_def s1 byte_masks Let_def)
        moreover have "pend s \<noteq> der_tlv t c @ rest" if "low_tag t" "length c \<le> INT_MAX" for t c rest
          using none [OF that] 2 by (meson not_less)
        ultimately show ?thesis using s1(2) by (simp add: reads_nothing)
      next
        case 3
        from read_full_short [OF s1(2), of ?k True] s1(3) 3 obtain eof s2 where
          "read_full rd s1 True ?k = Some (False, p, eof, s2)" "ok s2" by auto
        then have "?run = Some (None, s2)" using low long k 3 by (simp add: read_asn1_def s1 byte_masks Let_def)
        moreover have "pend s \<noteq> der_tlv t c @ rest" if "low_tag t" "length c \<le> INT_MAX" for t c rest
          using none [OF that] 3(3) by (meson not_less)
        ultimately show ?thesis using \<open>ok s2\<close> by (simp add: reads_nothing)
      next
        case 4
        let ?bs = "take ?k p"
        from read_full_enough [OF s1(2), of ?k True] s1(3) 4 obtain eof s2 where
          s2: "read_full rd s1 True ?k = Some (True, ?bs, eof, s2)" "ok s2" "pend s2 = drop ?k p" by auto
        let ?n = "be_val ?bs"
        have lt: "?n < 2 ^ 32"
        proof -
          have "?n < 256 ^ ?k" using be_val_less [of ?bs] 4 by simp
          also have "\<dots> \<le> 256 ^ 4" using 4 by (intro power_increasing) auto
          finally show ?thesis by simp
        qed
        define len32 where "len32 = foldl (\<lambda>v b. push_bit 8 v OR ucast b) (0 :: u32) ?bs"
        have l: "unat len32 = ?n" unfolding len32_def using lt by (simp add: foldl_push_or unat_of_nat)
        have d: "drop_bit ((?k - 1) * 8) len32 = 0 \<longleftrightarrow> ?n div 256 ^ (?k - 1) = 0"
          using unat_drop [of "(?k - 1) * 8" len32] by (simp add: l word_unat_eq_iff power_mult mult.commute)
        have run: "?run = (if ?n < 128 \<or> ?n div 256 ^ (?k - 1) = 0 then Some (None, s2)
            else read_contents rd env s2 (b0 # b1 # ?bs) ?n max_len)"
          using low long 4 k s2(1) d l
          by (simp add: read_asn1_def s1 byte_masks word_less_nat_alt Let_def flip: len32_def)
        show ?thesis
        proof (cases "?n < 128 \<or> ?n div 256 ^ (?k - 1) = 0")
          case True
          then have "?run = Some (None, s2)" using run by simp
          moreover have "pend s \<noteq> der_tlv t c @ rest" if "low_tag t" "length c \<le> INT_MAX" for t c rest
            using none [OF that] True by (meson not_less)
          ultimately show ?thesis using s2(2) by (simp add: reads_nothing)
        next
          case False
          have dl: "b1 # p = der_len ?n @ drop ?k p" using False 4 long lt by (subst der_len_parse) auto
          then have "b1 # ?bs = der_len ?n" by (metis append_Cons append_same_eq append_take_drop_id)
          with False run dl read_contents_finishes [OF s2(2) heap t0 lt, of s max_len] show ?thesis by (simp add: p s2(3))
        qed
      qed
    qed
  qed
qed

end

section \<open>The BIOs are byte sources\<close>

text \<open>A memory BIO, as long as what it returns at the end is no positive number; one half of a pair.\<close>

definition mem_source :: "nat \<Rightarrow> bios \<Rightarrow> bool" where
  "mem_source a s \<longleftrightarrow> (\<exists>bio. s a = Some bio \<and> bmethod bio = mem_method \<and> mem_ok bio \<and> num bio \<le> 0)"

definition mem_bytes :: "nat \<Rightarrow> bios \<Rightarrow> bytes" where
  "mem_bytes a s = (case s a of None \<Rightarrow> [] | Some bio \<Rightarrow> mem_contents bio)"

lemma mem_ok_counter [simp]:
  "mem_ok (bio\<lparr>num_read := n\<rparr>) = mem_ok bio" "mem_contents (bio\<lparr>num_read := n\<rparr>) = mem_contents bio"
proof -
  have e: "rdonly (bio\<lparr>num_read := n\<rparr>) = rdonly bio" "mem_buf (bio\<lparr>num_read := n\<rparr>) = mem_buf bio" "init (bio\<lparr>num_read := n\<rparr>) = init bio"
    by (simp_all add: mem_buf_def rdonly_def)
  show "mem_ok (bio\<lparr>num_read := n\<rparr>) = mem_ok bio" "mem_contents (bio\<lparr>num_read := n\<rparr>) = mem_contents bio"
    unfolding mem_ok_def mem_contents_def e by (rule refl)+
qed

lemma BIO_read_mem:
  assumes "mem_source a s" "0 < n" "n \<le> int INT_MAX"
  shows "mem_bytes a s \<noteq> [] \<Longrightarrow> \<exists>k s'. 0 < k \<and> int k \<le> n \<and> k \<le> length (mem_bytes a s) \<and>
      BIO_read s (Some a) n = Some (int k, take k (mem_bytes a s), s') \<and> mem_source a s' \<and> mem_bytes a s' = drop k (mem_bytes a s)"
    and "mem_bytes a s = [] \<Longrightarrow> \<exists>r s'. r \<le> 0 \<and> BIO_read s (Some a) n = Some (r, [], s') \<and> mem_source a s' \<and> mem_bytes a s' = []"
proof -
  obtain bio where bio: "s a = Some bio" "bmethod bio = mem_method" "mem_ok bio" "num bio \<le> 0" "init bio"
    using assms(1) by (auto simp: mem_source_def mem_ok_def)
  show "\<exists>k s'. 0 < k \<and> int k \<le> n \<and> k \<le> length (mem_bytes a s) \<and>
      BIO_read s (Some a) n = Some (int k, take k (mem_bytes a s), s') \<and> mem_source a s' \<and> mem_bytes a s' = drop k (mem_bytes a s)"
    if ne: "mem_bytes a s \<noteq> []"
    using bio(3) assms(2,3)
  proof (cases rule: mem_read_outcome)
    case (data k bio')
    let ?b = "bio'\<lparr>num_read := szadd (num_read bio') (size_of_int (int k))\<rparr>"
    have "BIO_read s (Some a) n = Some (int k, take k (mem_contents bio), s(a \<mapsto> ?b))"
      using bio data assms(2) by (simp add: BIO_read_def bread_def)
    moreover have "mem_source a (s(a \<mapsto> ?b))" using data bio(4) bio(2) by (simp add: mem_source_def)
    ultimately show ?thesis using data bio(1) assms(2)
      by (intro exI [of _ k] exI [of _ "s(a \<mapsto> ?b)"]) (simp add: mem_bytes_def)
  qed (use ne bio(1) in \<open>simp add: mem_bytes_def\<close>)
  show "\<exists>r s'. r \<le> 0 \<and> BIO_read s (Some a) n = Some (r, [], s') \<and> mem_source a s' \<and> mem_bytes a s' = []"
    if e: "mem_bytes a s = []"
    using bio(3) assms(2,3)
  proof (cases rule: mem_read_outcome)
    case (eof bio')
    have "BIO_read s (Some a) n = Some (num bio, [], s(a \<mapsto> bio'))"
      using bio eof assms(2) by (simp add: BIO_read_def bread_def)
    moreover have "mem_source a (s(a \<mapsto> bio'))" using eof bio(4) bio(2) by (simp add: mem_source_def)
    ultimately show ?thesis using eof bio(4)
      by (intro exI [of _ "num bio"] exI [of _ "s(a \<mapsto> bio')"]) (simp add: mem_bytes_def)
  qed (use e bio(1) in \<open>simp add: mem_bytes_def\<close>)
qed

interpretation mem: byte_source "\<lambda>s. BIO_read s (Some a)" "mem_bytes a" "mem_source a" for a
  by unfold_locales (rule BIO_read_mem; assumption)+

lemma BIO_read_half:
  assumes "paired s a c" "0 < n" "n \<le> int INT_MAX"
  shows "fst (chan s c) \<noteq> [] \<Longrightarrow> \<exists>k s'. 0 < k \<and> int k \<le> n \<and> k \<le> length (fst (chan s c)) \<and>
      BIO_read s (Some a) n = Some (int k, take k (fst (chan s c)), s') \<and> paired s' a c \<and> fst (chan s' c) = drop k (fst (chan s c))"
    and "fst (chan s c) = [] \<Longrightarrow> \<exists>r s'. r \<le> 0 \<and> BIO_read s (Some a) n = Some (r, [], s') \<and> paired s' a c \<and> fst (chan s' c) = []"
proof -
  obtain q m cl where ch: "chan s c = (q, m, cl)" by (cases "chan s c") auto
  note r = BIO_read_paired [OF assms]
  show "\<exists>k s'. 0 < k \<and> int k \<le> n \<and> k \<le> length (fst (chan s c)) \<and>
      BIO_read s (Some a) n = Some (int k, take k (fst (chan s c)), s') \<and> paired s' a c \<and> fst (chan s' c) = drop k (fst (chan s c))"
    if "fst (chan s c) \<noteq> []"
    using r that ch assms(2) by (intro exI [of _ "min (nat n) (length q)"]) (auto simp: Let_def)
  show "\<exists>r s'. r \<le> 0 \<and> BIO_read s (Some a) n = Some (r, [], s') \<and> paired s' a c \<and> fst (chan s' c) = []" if "fst (chan s c) = []"
    using r that ch by (intro exI [of _ "if cl then 0 else - 1"]) auto
qed

interpretation pair: byte_source "\<lambda>s. BIO_read s (Some a)" "\<lambda>s. fst (chan s c)" "\<lambda>s. paired s a c" for a c
  by unfold_locales (rule BIO_read_half; assumption)+

section \<open>Properties\<close>

text \<open>C18. \<open>BIO_read_asn1\<close> on a BIO pair, with memory available, unless the first two bytes announce an indefinite length (which
  it reads to the end of the channel instead): it returns the DER
  element with a single-byte tag that the pending bytes start with, consuming exactly that, whenever
  there is one within the limits, and it fails on everything else.\<close>

theorem BIO_read_asn1_element:
  assumes "paired s a c" and "\<forall>n. heap_ok env n"
    and "\<nexists>b r. fst (chan s c) = b # 0x80 # r \<and> b AND 0x20 \<noteq> 0 \<and> b AND 0x1f \<noteq> 0x1f"
  shows "\<exists>r s'. BIO_read_asn1 env s (Some a) max_len = Some (r, s') \<and> paired s' a c \<and>
    (\<forall>out. r = Some out \<longleftrightarrow> (\<exists>t ct. out = der_tlv t ct \<and> unat t mod 2 ^ 29 < 31 \<and> length ct \<le> INT_MAX \<and> length out \<le> max_len \<and>
       (\<exists>rest. fst (chan s c) = out @ rest))) \<and>
    (\<forall>out. r = Some out \<longrightarrow> fst (chan s c) = out @ fst (chan s' c))"
proof -
  from pair.read_asn1_outcome [OF assms, of max_len] obtain r s' where
    r: "BIO_read_asn1 env s (Some a) max_len = Some (r, s')" "paired s' a c" and
    a: "\<forall>out. r = Some out \<longrightarrow> (\<exists>t ct. low_tag t \<and> out = der_tlv t ct \<and> length ct \<le> INT_MAX \<and> length out \<le> max_len \<and>
       fst (chan s c) = out @ fst (chan s' c))" and
    b: "\<forall>t ct rest. low_tag t \<and> length ct \<le> INT_MAX \<and> length (der_tlv t ct) \<le> max_len \<and> fst (chan s c) = der_tlv t ct @ rest \<longrightarrow>
      r = Some (der_tlv t ct)"
    unfolding reads_element_def BIO_read_asn1_def by blast
  show ?thesis
  proof (rule exI [of _ r], rule exI [of _ s'], intro conjI allI impI iffI)
    fix out assume "r = Some out"
    with a show "\<exists>t ct. out = der_tlv t ct \<and> unat t mod 2 ^ 29 < 31 \<and> length ct \<le> INT_MAX \<and> length out \<le> max_len \<and>
        (\<exists>rest. fst (chan s c) = out @ rest)"
      unfolding low_tag_def by blast
  next
    fix out assume "\<exists>t ct. out = der_tlv t ct \<and> unat t mod 2 ^ 29 < 31 \<and> length ct \<le> INT_MAX \<and> length out \<le> max_len \<and>
        (\<exists>rest. fst (chan s c) = out @ rest)"
    with b show "r = Some out" unfolding low_tag_def by blast
  qed (use r a in blast)+
qed

lemma BIO_read_asn1_element_witness:
  "\<exists>s r s'. BIO_read_asn1 generous_env s (Some 1) 10 = Some (r, s') \<and> r = Some [4, 1, 7] \<and> fst (chan s' 0) = [5]"
proof -
  have tlv: "der_tlv 4 [7] = [4, 1, 7]" by (simp add: der_tlv_def der_tag_def der_len_def)
  obtain s0 where s0: "paired s0 0 1" "chan s0 0 = ([], 17408, False)" by (rule fresh_pair)
  have "[4, 1, 7, 5] \<noteq> ([] :: bytes)" "length [4, 1, 7, 5 :: u8] \<le> INT_MAX" by (simp_all add: INT_MAX_def)
  from BIO_write_paired [OF s0(1) this, of generous_env] s0(2) obtain s where "paired s 0 1" "fst (chan s 0) = [4, 1, 7, 5]" by auto
  then have s: "paired s 1 0" "fst (chan s 0) = [4, 1, 7, 5]" by (simp_all add: paired_sym)
  have "\<forall>n. heap_ok generous_env n" by (simp add: generous_env_def)
  moreover have "\<nexists>b r. fst (chan s 0) = b # 0x80 # r \<and> b AND 0x20 \<noteq> 0 \<and> b AND 0x1f \<noteq> 0x1f" using s(2) by simp
  ultimately have "\<exists>r s'. BIO_read_asn1 generous_env s (Some 1) 10 = Some (r, s') \<and> paired s' 1 0 \<and>
      (\<forall>out. r = Some out \<longleftrightarrow> (\<exists>t ct. out = der_tlv t ct \<and> unat t mod 2 ^ 29 < 31 \<and> length ct \<le> INT_MAX \<and> length out \<le> 10 \<and>
         (\<exists>rest. fst (chan s 0) = out @ rest))) \<and>
      (\<forall>out. r = Some out \<longrightarrow> fst (chan s 0) = out @ fst (chan s' 0))"
    by (rule BIO_read_asn1_element [OF s(1)])
  then obtain r s' where r: "BIO_read_asn1 generous_env s (Some 1) 10 = Some (r, s')"
      and iff: "\<forall>out. r = Some out \<longleftrightarrow> (\<exists>t ct. out = der_tlv t ct \<and> unat t mod 2 ^ 29 < 31 \<and> length ct \<le> INT_MAX \<and> length out \<le> 10 \<and>
         (\<exists>rest. fst (chan s 0) = out @ rest))"
      and rest: "\<forall>out. r = Some out \<longrightarrow> fst (chan s 0) = out @ fst (chan s' 0)"
    by (elim exE conjE)
  have "[4, 1, 7] = der_tlv 4 [7] \<and> unat (4 :: u32) mod 2 ^ 29 < 31 \<and> length [7 :: u8] \<le> INT_MAX \<and> length [4, 1, 7 :: u8] \<le> 10 \<and>
      fst (chan s 0) = [4, 1, 7] @ [5]"
    using tlv s(2) by (simp add: INT_MAX_def)
  then have out: "r = Some [4, 1, 7]" by (intro iff [THEN spec, THEN iffD2]) (rule exI [of _ 4], rule exI [of _ "[7]"], blast)
  then have "fst (chan s' 0) = [5]" using rest [THEN spec, of "[4, 1, 7]"] s(2) by simp
  with r out show ?thesis by blast
qed

text \<open>A memory BIO that is at its end.\<close>

definition at_end :: "nat \<Rightarrow> int \<Rightarrow> bios \<Rightarrow> bool" where
  "at_end a v s \<longleftrightarrow> (\<exists>bio. s a = Some bio \<and> bmethod bio = mem_method \<and> mem_ok bio \<and> mem_contents bio = [] \<and> num bio = v)"

lemma BIO_read_at_end:
  assumes "at_end a v s" "v \<le> 0" "0 < n" "n \<le> int INT_MAX"
  shows "\<exists>s'. BIO_read s (Some a) n = Some (v, [], s') \<and> at_end a v s'"
proof -
  obtain bio where bio: "s a = Some bio" "bmethod bio = mem_method" "mem_ok bio" "mem_contents bio = []" "num bio = v" "init bio"
    using assms(1) by (auto simp: at_end_def mem_ok_def)
  from bio(3) assms(3,4) show ?thesis
  proof (cases rule: mem_read_outcome)
    case (eof bio')
    then show ?thesis using bio assms(2,3)
      by (intro exI [of _ "s(a \<mapsto> bio')"]) (simp add: BIO_read_def bread_def at_end_def)
  qed (use bio in simp)
qed

lemma read_all_loop_at_end:
  assumes "at_end a v s" "2 < len" "len \<le> 4098" "len \<noteq> 4098 \<longrightarrow> max_len = len"
  shows "v = - 1 \<Longrightarrow> \<exists>s'. read_all_loop (\<lambda>s. BIO_read s (Some a)) env max_len s blk len 2 = Some (None, s')"
    and "v < - 1 \<Longrightarrow> - (2 ^ 31) \<le> v \<Longrightarrow> read_all_loop (\<lambda>s. BIO_read s (Some a)) env max_len s blk len 2 = None"
proof -
  let ?loop = "\<lambda>s p. read_all_loop (\<lambda>s. BIO_read s (Some a)) env max_len s blk len p"
  have id: "mem_write blk p [] = blk" for p :: nat by (simp add: mem_write_def)
  have fits: "0 < int (len - p)" "int (len - p) \<le> int INT_MAX" "len - p < INT_MAX" if "p \<le> 2" for p
    using that assms(2,3) by (auto simp: INT_MAX_def)
  show "\<exists>s'. ?loop s 2 = Some (None, s')" if v: "v = - 1"
  proof -
    obtain s' where "BIO_read s (Some a) (int (len - 2)) = Some (- 1, [], s')"
      using BIO_read_at_end [OF assms(1) _ fits(1,2) [of 2]] v by auto
    then show ?thesis using assms(2) fits(3) [of 2] by (simp add: read_all_loop.simps [of _ _ _ s] id)
  qed
  have two: "?loop s 2 = None" if v: "v = - 2"
  proof -
    obtain s1 where s1: "BIO_read s (Some a) (int (len - 2)) = Some (- 2, [], s1)" "at_end a v s1"
      using BIO_read_at_end [OF assms(1) _ fits(1,2) [of 2]] v by auto
    obtain s2 where s2: "BIO_read s1 (Some a) (int len) = Some (- 2, [], s2)" "at_end a v s2"
      using BIO_read_at_end [OF s1(2) _ fits(1,2) [of 0]] v by auto
    have grow: "\<not> (len < max_len \<and> (len + SIZE_LIMIT - p) mod SIZE_LIMIT < kChunkSize div 2)" if "p = 0 \<or> p = SIZE_LIMIT - 2" for p
      using assms(3,4) that by (auto simp: kChunkSize_def SIZE_LIMIT_def)
    have sz: "szadd 2 (size_of_int (- 2)) = 0" "szadd 0 (size_of_int (- 2)) = SIZE_LIMIT - 2"
      by (simp_all add: szadd_def size_of_int_def SIZE_LIMIT_def)
    have "?loop s2 (SIZE_LIMIT - 2) = None"
      using assms(3) by (simp add: read_all_loop.simps [of _ _ _ s2] SIZE_LIMIT_def)
    moreover have "?loop s1 0 = ?loop s2 (SIZE_LIMIT - 2)"
      using s2(1) assms(2) fits(3) [of 0] grow [of "SIZE_LIMIT - 2"] by (auto simp: read_all_loop.simps [of _ _ _ s1] id sz Let_def)
    moreover have "?loop s 2 = ?loop s1 0"
      using s1(1) assms(2) fits(3) [of 2] grow [of 0] by (auto simp: read_all_loop.simps [of _ _ _ s] id sz Let_def)
    ultimately show ?thesis by simp
  qed
  have less: "?loop s 2 = None" if v: "v < - 2" "- (2 ^ 31) \<le> v"
  proof -
    obtain s1 where s1: "BIO_read s (Some a) (int (len - 2)) = Some (v, [], s1)"
      using BIO_read_at_end [OF assms(1) _ fits(1,2) [of 2]] v by auto
    define p where "p = szadd 2 (size_of_int v)"
    have p: "int p = 2 ^ 64 + 2 + v"
    proof -
      have "(2 + v mod 2 ^ 64) mod 2 ^ 64 = (2 ^ 64 + 2 + v :: int)"
        using v mod_add_self1 [of "2 ^ 64" "2 + v"] mod_pos_pos_trivial [of "2 ^ 64 + (2 + v)" "2 ^ 64"] by (simp add: mod_simps)
      then show ?thesis by (simp add: p_def szadd_def size_of_int_def SIZE_LIMIT_def zmod_int)
    qed
    have "int ((len + SIZE_LIMIT - p) mod SIZE_LIMIT) = (int len + 2 ^ 64 - int p) mod 2 ^ 64"
      using p v by (simp add: SIZE_LIMIT_def zmod_int of_nat_diff)
    also have "\<dots> = int len - 2 - v" using p v assms(3) by (simp add: mod_pos_pos_trivial)
    finally have "\<not> (len < max_len \<and> (len + SIZE_LIMIT - p) mod SIZE_LIMIT < kChunkSize div 2)"
      using assms(4) v by (auto simp: kChunkSize_def)
    moreover have "?loop s1 p = None"
    proof -
      have "int len < int p" unfolding p using v assms(3) by simp
      then have "len < p" by simp
      then show ?thesis by (simp add: read_all_loop.simps [of _ _ _ s1])
    qed
    ultimately show ?thesis
      using s1 assms(2) fits(3) [of 2] v by (auto simp: read_all_loop.simps [of _ _ _ s] id Let_def simp flip: p_def)
  qed
  show "?loop s 2 = None" if "v < - 1" "- (2 ^ 31) \<le> v"
    using two less that by (cases "v = - 2") auto
qed

text \<open>C40. The bytes \<open>30 80\<close> announce a constructed element of indefinite length, which \<open>BIO_read_asn1\<close> reads
  to the end of the BIO.  At the end of a memory BIO that has been told to return -1 it fails, as it should.  If the BIO
  returns another negative number, which \<open>BIO_set_mem_eof_return\<close> allows, \<open>bio_read_all\<close> takes it for a
  number of bytes and moves its position out of the buffer: there is no defined result.\<close>

theorem bio_read_all_other_errors:
  assumes "s a = Some bio" "bmethod bio = mem_method" "mem_ok bio" "mem_contents bio = [0x30, 0x80]"
    and "\<forall>n. heap_ok env n" and "2 < max_len"
  shows "(num bio = - 1 \<longrightarrow> (\<exists>s'. BIO_read_asn1 env s (Some a) max_len = Some (None, s'))) \<and>
    (num bio < - 1 \<and> - (2 ^ 31) \<le> num bio \<longrightarrow> BIO_read_asn1 env s (Some a) max_len = None)"
proof (cases "num bio \<le> - 1")
  case True
  then have src: "mem_source a s" "mem_bytes a s = [0x30, 0x80]" using assms(1-4) by (auto simp: mem_source_def mem_bytes_def)
  let ?rd = "\<lambda>s. BIO_read s (Some a)"
  have one: "read_full ?rd s True 2 = Some (True, [0x30, 0x80], False, s1)"
    if "BIO_read s (Some a) 2 = Some (2, [0x30, 0x80], s1)" for s1
    using that by (simp add: read_full.simps [of ?rd s] read_full.simps [of ?rd s1] INT_MAX_def)
  obtain s1 where s1: "BIO_read s (Some a) 2 = Some (2, [0x30, 0x80], s1)" "at_end a (num bio) s1"
  proof -
    have init: "init bio" using assms(3) by (rule mem_okE)
    have "0 < (2 :: int)" "(2 :: int) \<le> int INT_MAX" by (simp_all add: INT_MAX_def)
    from assms(3) this show ?thesis
    proof (cases rule: mem_read_outcome)
      case (data k bio')
      then have "k = 2" using assms(4) by simp
      then show ?thesis
        using data assms(1-4)
        by (intro that [of "s(a \<mapsto> bio'\<lparr>num_read := szadd (num_read bio') (size_of_int 2)\<rparr>)"])
          (use init in \<open>auto simp: BIO_read_def bread_def at_end_def\<close>)
    qed (use assms(4) in simp)
  qed
  let ?len = "if 4098 > max_len then max_len else 4098"
  have "?len + 8 < SIZE_LIMIT" by (auto simp: SIZE_LIMIT_def)
  from heap_new_succeeds [OF assms(5) this] obtain blk where "heap_new env ?len = Some blk" ..
  then have run: "BIO_read_asn1 env s (Some a) max_len = read_all_loop ?rd env max_len s1 (mem_write blk 0 [0x30, 0x80]) ?len (length [0x30, 0x80 :: u8])"
    using one [OF s1(1)] assms(6)
    by (simp add: BIO_read_asn1_def read_asn1_def byte_masks read_all_from_def kChunkSize_def szadd_def SIZE_LIMIT_def Let_def)
  have len: "2 < ?len" "?len \<le> 4098" "?len \<noteq> 4098 \<longrightarrow> max_len = ?len" using assms(6) by auto
  have two: "length [0x30, 0x80 :: u8] = 2" by simp
  show ?thesis unfolding run two using read_all_loop_at_end [OF s1(2) len] by blast
qed auto

definition two_bytes_bio :: "int \<Rightarrow> bio" where
  "two_bytes_bio v = \<lparr>bmethod = mem_method, init = True, shutdown = 1, flags = 0, retry_reason = 0, num = v, refs = 1,
     bptr = MemBuf \<lparr>bm_length = 2, bm_data = Some ([0x30, 0x80], 0), bm_max = 2\<rparr>, next_bio = None, num_read = 0, num_write = 0\<rparr>"

lemma bio_read_all_other_errors_witness:
  "(\<exists>s'. BIO_read_asn1 generous_env [0 \<mapsto> two_bytes_bio (- 1)] (Some 0) 100 = Some (None, s')) \<and>
   BIO_read_asn1 generous_env [0 \<mapsto> two_bytes_bio (- 2)] (Some 0) 100 = None \<and>
   BIO_read_asn1 generous_env [0 \<mapsto> two_bytes_bio (- 5)] (Some 0) 100 = None"
proof -
  have b: "mem_contents (two_bytes_bio v) = [0x30, 0x80]" "mem_ok (two_bytes_bio v)" "bmethod (two_bytes_bio v) = mem_method" for v
    by (simp_all add: two_bytes_bio_def mem_contents_def mem_buf_def buf_contents_def load_def mem_ok_def rdonly_def buf_mem_ok_def flag_defs
      BIO_test_flags_def INT_MAX_def SIZE_LIMIT_def)
  have g: "\<forall>n. heap_ok generous_env n" by (simp add: generous_env_def)
  have "(num (two_bytes_bio v) = - 1 \<longrightarrow> (\<exists>s'. BIO_read_asn1 generous_env [0 \<mapsto> two_bytes_bio v] (Some 0) 100 = Some (None, s'))) \<and>
    (num (two_bytes_bio v) < - 1 \<and> - (2 ^ 31) \<le> num (two_bytes_bio v) \<longrightarrow>
      BIO_read_asn1 generous_env [0 \<mapsto> two_bytes_bio v] (Some 0) 100 = None)" for v
    by (rule bio_read_all_other_errors [OF _ b(3,2,1) g]) simp_all
  from this [of "- 1"] this [of "- 2"] this [of "- 5"] show ?thesis by (simp add: two_bytes_bio_def)
qed

end
