(* ===== verification/BioChain.thy ===== *)
theory BioChain
  imports BioChannel
begin

text \<open>
  The loops of \<open>crypto/bio/bio.c\<close> that follow a chain of BIOs: when they return, what they find, and
  which objects \<open>BIO_free\<close> releases.
\<close>

section \<open>Chains are finite and without repetition\<close>

lemma chain_from_not_Nil: "chain_from s as \<Longrightarrow> as \<noteq> []"
  by auto

lemma chain_from_unique: "chain_from s as \<Longrightarrow> chain_from s bs \<Longrightarrow> hd as = hd bs \<Longrightarrow> as = bs"
proof (induction s as arbitrary: bs rule: chain_from.induct)
  case (2 s a)
  then show ?case by (cases "(s, bs)" rule: chain_from.cases) auto
next
  case (3 s a b as)
  then obtain cs where bs: "bs = a # b # cs" "chain_from s (b # cs)" by (cases "(s, bs)" rule: chain_from.cases) auto
  have "b # as = b # cs" using 3(1) [OF _ bs(2)] 3(2) by simp
  then show ?case using bs(1) by simp
qed simp

lemma chain_from_suffix: "chain_from s (xs @ y # ys) \<Longrightarrow> chain_from s (y # ys)"
proof (induction xs)
  case (Cons x xs)
  then show ?case by (cases "xs @ y # ys") auto
qed simp

lemma chain_from_distinct: "chain_from s as \<Longrightarrow> distinct as"
proof (rule ccontr)
  assume c: "chain_from s as" and "\<not> distinct as"
  then obtain xs y ys zs where "as = xs @ [y] @ ys @ [y] @ zs" using not_distinct_decomp by blast
  with c have "chain_from s (y # ys @ y # zs)" "chain_from s (y # zs)"
    using chain_from_suffix [of s xs y "ys @ y # zs"] chain_from_suffix [of s "xs @ y # ys" y zs] by simp_all
  then show False using chain_from_unique by fastforce
qed

lemma chain_from_Cons:
  "s a = Some bio \<Longrightarrow> chain_from s (a # as) \<longleftrightarrow> (if as = [] then next_bio bio = None else next_bio bio = Some (hd as) \<and> chain_from s as)"
  by (cases as) auto

lemma chain_from_last: "chain_from s as \<Longrightarrow> \<exists>l. s (last as) = Some l"
  by (induction s as rule: chain_from.induct) auto

text \<open>Walking to the last object returns exactly on a chain.\<close>

lemma last_of_chain_chain:
  assumes "last_of_chain s a = Some l"
  shows "\<exists>as. chain_from s as \<and> hd as = a \<and> last as = l"
proof (rule last_of_chain.raw_induct [OF _ assms])
  fix loop s a l
  assume IH: "\<And>s a l. loop s a = Some l \<Longrightarrow> \<exists>as. chain_from s as \<and> hd as = a \<and> last as = l"
    and run: "s a \<bind> (\<lambda>bio. case next_bio bio of None \<Rightarrow> Some a | Some b \<Rightarrow> loop s b) = Some l"
  from run obtain bio where bio: "s a = Some bio" "(case next_bio bio of None \<Rightarrow> Some a | Some b \<Rightarrow> loop s b) = Some l"
    by (auto simp: bind_eq_Some)
  show "\<exists>as. chain_from s as \<and> hd as = a \<and> last as = l"
  proof (cases "next_bio bio")
    case None
    then show ?thesis using bio by (intro exI [of _ "[a]"]) simp
  next
    case (Some b)
    with bio have "loop s b = Some l" by simp
    from IH [OF this] obtain as where "chain_from s as" "hd as = b" "last as = l" by blast
    then show ?thesis using bio(1) Some chain_from_not_Nil [of s as]
      by (intro exI [of _ "a # as"]) (simp add: chain_from_Cons)
  qed
qed

definition has_type :: "bios \<Rightarrow> u32 \<Rightarrow> nat \<Rightarrow> bool" where
  "has_type s type a = (case s a of
     None \<Rightarrow> False
   | Some bio \<Rightarrow> if type AND 0xff = 0 then BIO_method_type bio AND type \<noteq> 0 else BIO_method_type bio = type)"

lemma has_type_at:
  "s a = Some bio \<Longrightarrow>
   has_type s type a = (if type AND 0xff = 0 then method_type (bmethod bio) AND type \<noteq> 0 else method_type (bmethod bio) = type)"
  by (simp add: has_type_def BIO_method_type_def)

lemma find_in_chain_eq:
  "chain_from s as \<Longrightarrow> find_in_chain s type (type AND 0xff) (hd as) = Some (find (has_type s type) as)"
proof (induction s as rule: chain_from.induct)
  case (2 s a)
  then show ?case by (subst find_in_chain.simps) (auto simp: has_type_at Let_def)
next
  case (3 s a b as)
  then show ?case by (subst find_in_chain.simps) (auto simp: has_type_at Let_def)
qed simp

section \<open>Releasing a chain of memory BIOs\<close>

definition mem_refs :: "bios \<Rightarrow> nat \<Rightarrow> u32 \<Rightarrow> bool" where
  "mem_refs s a n \<longleftrightarrow> (\<exists>bio. s a = Some bio \<and> bmethod bio = mem_method \<and> refs bio = n)"

definition unref :: "bio \<Rightarrow> bio" where
  "unref bio = bio\<lparr>refs := if refs bio < CRYPTO_REFCOUNT_MAX then refs bio - 1 else refs bio\<rparr>"

lemma refcount_dec:
  "n \<noteq> 0 \<Longrightarrow> CRYPTO_refcount_dec_and_test_zero n = Some (if n < CRYPTO_REFCOUNT_MAX then n - 1 else n, n = 1)"
  by (auto simp: CRYPTO_refcount_dec_and_test_zero_def CRYPTO_REFCOUNT_MAX_def Let_def)

lemma BIO_free_mem_last:
  assumes "s a = Some bio" "bmethod bio = mem_method" "refs bio = 1"
  shows "BIO_free s (Some a) = BIO_free (s(a := None)) (next_bio bio)"
  using assms by (subst BIO_free.simps) (simp add: refcount_dec BIO_pop_def destroy_def CRYPTO_REFCOUNT_MAX_def)

lemma BIO_free_shared:
  assumes "s a = Some bio" "refs bio \<noteq> 0" "refs bio \<noteq> 1"
  shows "BIO_free s (Some a) = Some (False, s(a \<mapsto> unref bio))"
  using assms by (subst BIO_free.simps) (simp add: refcount_dec unref_def)

lemma BIO_free_run:
  assumes "chain_from s as" and "\<forall>a\<in>set as. \<exists>n. n \<noteq> 0 \<and> mem_refs s a n"
  defines "gone \<equiv> takeWhile (\<lambda>a. mem_refs s a 1) as"
  shows "BIO_free s (Some (hd as)) = Some (gone = as, \<lambda>z. if z \<in> set gone then None
     else if gone \<noteq> as \<and> z = as ! length gone then map_option unref (s z) else s z)"
  using assms(1,2) unfolding gone_def
proof (induction as arbitrary: s)
  case (Cons a as)
  obtain bio where bio: "s a = Some bio" "bmethod bio = mem_method" "refs bio \<noteq> 0" using Cons.prems(2) by (auto simp: mem_refs_def)
  show ?case
  proof (cases "refs bio = 1")
    case False
    then have "\<not> mem_refs s a 1" using bio(1) by (simp add: mem_refs_def)
    then show ?thesis using BIO_free_shared [where s = s and a = a, OF bio(1,3) False] bio(1) by (auto simp: fun_eq_iff)
  next
    case True
    then have one: "mem_refs s a 1" using bio by (simp add: mem_refs_def)
    have new: "a \<notin> set as" using chain_from_distinct [OF Cons.prems(1)] by simp
    note step = BIO_free_mem_last [where s = s and a = a, OF bio(1,2) True]
    show ?thesis
    proof (cases as)
      case Nil
      then show ?thesis using step Cons.prems(1) one bio(1) by (auto simp: BIO_free.simps [of _ None] fun_eq_iff)
    next
      case (Cons b bs)
      let ?s = "s(a := None)" and ?g = "takeWhile (\<lambda>z. mem_refs s z 1) as"
      have ch: "chain_from ?s as" using Cons.prems(1) new bio(1) chain_from_other [of s as a None] Cons by simp
      have same: "mem_refs ?s z n = mem_refs s z n" if "z \<in> set as" for z n using that new by (auto simp: mem_refs_def)
      have rf: "\<forall>z\<in>set as. \<exists>n. n \<noteq> 0 \<and> mem_refs ?s z n" using Cons.prems(2) same by simp
      have tw: "takeWhile (\<lambda>z. mem_refs ?s z 1) as = ?g"
        using same by (intro takeWhile_cong) auto
      have IH: "BIO_free ?s (Some (hd as)) = Some (?g = as, \<lambda>z. if z \<in> set ?g then None
          else if ?g \<noteq> as \<and> z = as ! length ?g then map_option unref (?s z) else ?s z)"
        using Cons.IH [OF ch rf] unfolding tw .
      have "BIO_free s (Some (hd (a # as))) = BIO_free ?s (Some (hd as))"
        using step Cons.prems(1) bio(1) Cons by simp
      moreover have "a \<notin> set ?g" using new by (auto dest: set_takeWhileD)
      moreover have "as ! length ?g \<noteq> a" if "?g \<noteq> as"
      proof -
        have "length ?g < length as" using that takeWhile_eq_take [of _ as] length_takeWhile_le [of _ as] by (metis le_neq_implies_less take_all_iff order_refl)
        then show ?thesis using new nth_mem by metis
      qed
      ultimately show ?thesis unfolding IH using one by (auto simp: fun_eq_iff)
    qed
  qed
qed simp


section \<open>Properties\<close>

text \<open>C25. \<open>BIO_push\<close> returns exactly when the BIO starts a finite chain, and then sets the last object's
  successor; joined to a disjoint chain, the result is the concatenation of the two.\<close>

theorem BIO_push_returns:
  "(BIO_push s (Some a) x = Some (r, s') \<longleftrightarrow>
     (\<exists>as l. chain_from s as \<and> hd as = a \<and> s (last as) = Some l \<and> r = Some a \<and> s' = s(last as \<mapsto> l\<lparr>next_bio := x\<rparr>))) \<and>
   (\<forall>as bs. chain_from s as \<and> chain_from s bs \<and> set as \<inter> set bs = {} \<longrightarrow>
     (\<exists>s'. BIO_push s (Some (hd as)) (Some (hd bs)) = Some (Some (hd as), s') \<and> chain_from s' (as @ bs))) \<and>
   (\<forall>as type. chain_from s as \<longrightarrow> BIO_find_type s (Some (hd as)) type = Some (find (has_type s type) as))"
proof (intro conjI allI impI iffI)
  assume "BIO_push s (Some a) x = Some (r, s')"
  then obtain l b where "last_of_chain s a = Some l" "s l = Some b" "r = Some a" "s' = s(l \<mapsto> b\<lparr>next_bio := x\<rparr>)"
    by (auto simp: BIO_push_def bind_eq_Some)
  then show "\<exists>as l. chain_from s as \<and> hd as = a \<and> s (last as) = Some l \<and> r = Some a \<and> s' = s(last as \<mapsto> l\<lparr>next_bio := x\<rparr>)"
    using last_of_chain_chain by blast
next
  assume "\<exists>as l. chain_from s as \<and> hd as = a \<and> s (last as) = Some l \<and> r = Some a \<and> s' = s(last as \<mapsto> l\<lparr>next_bio := x\<rparr>)"
  then show "BIO_push s (Some a) x = Some (r, s')" using last_of_chain_eq by (auto simp: BIO_push_def)
next
  fix as bs assume c: "chain_from s as \<and> chain_from s bs \<and> set as \<inter> set bs = {}"
  then have "distinct (as @ bs)" by (auto dest: chain_from_distinct)
  moreover obtain l where l: "s (last as) = Some l" using chain_from_last c by blast
  ultimately have "chain_from (s(last as \<mapsto> l\<lparr>next_bio := Some (hd bs)\<rparr>)) (as @ bs)" using c chain_from_joined by blast
  then show "\<exists>s'. BIO_push s (Some (hd as)) (Some (hd bs)) = Some (Some (hd as), s') \<and> chain_from s' (as @ bs)"
    using c l by (simp add: BIO_push_def last_of_chain_eq)
next
  fix as type assume "chain_from s as"
  then show "BIO_find_type s (Some (hd as)) type = Some (find (has_type s type) as)"
    using find_in_chain_eq by (simp add: BIO_find_type_def)
qed

lemma BIO_push_returns_witness:
  "\<exists>s. BIO_push (s :: bios) (Some 0) (Some 1) \<noteq> None"
proof -
  let ?s = "(\<lambda>_. None)(0 \<mapsto> zero_bio mem_method, 1 \<mapsto> zero_bio mem_method)"
  have "chain_from ?s [0]" "chain_from ?s [1]" by (simp_all add: zero_bio_def)
  with BIO_push_returns [of ?s 0 None None ?s, THEN conjunct2, THEN conjunct1, THEN spec, THEN spec, of "[0]" "[1]"]
  have "BIO_push ?s (Some 0) (Some 1) \<noteq> None" by auto
  then show ?thesis by (rule exI [of _ ?s])
qed

text \<open>C26. \<open>BIO_free\<close> on a chain of memory BIOs returns: it releases the objects from the front on whose last
  reference it drops, stops at the first shared one, whose count it decrements unless that is saturated,
  leaves the rest alone and reports whether nothing is left.\<close>

theorem BIO_free_chain:
  assumes "chain_from s as" and "\<forall>a\<in>set as. \<exists>n. n \<noteq> 0 \<and> mem_refs s a n"
  defines "gone \<equiv> takeWhile (\<lambda>a. mem_refs s a 1) as"
  shows "BIO_free s (Some (hd as)) = Some (gone = as, \<lambda>z. if z \<in> set gone then None
     else if gone \<noteq> as \<and> z = as ! length gone then map_option unref (s z) else s z)"
  unfolding gone_def using assms(1,2) by (rule BIO_free_run)

lemma BIO_free_chain_witness:
  "\<exists>s s'. BIO_free (s :: bios) (Some 0) = Some (False, s') \<and> s' 0 = None \<and> map_option refs (s' 1) = Some 1"
proof -
  let ?b = "(zero_bio mem_method)\<lparr>next_bio := Some 1\<rparr>" and ?c = "(zero_bio mem_method)\<lparr>refs := 2\<rparr>"
  let ?s = "(\<lambda>_. None)(0 \<mapsto> ?b, 1 \<mapsto> ?c)"
  have c: "chain_from ?s [0, 1]" by (simp add: zero_bio_def)
  have r: "mem_refs ?s 0 n \<longleftrightarrow> n = 1" "mem_refs ?s 1 n \<longleftrightarrow> n = 2" for n by (auto simp: mem_refs_def zero_bio_def)
  then have "\<forall>a\<in>set [0, 1]. \<exists>n. n \<noteq> 0 \<and> mem_refs ?s a n" by auto
  note run = BIO_free_chain [OF c this]
  have tw: "takeWhile (\<lambda>a. mem_refs ?s a 1) [0, 1] = [0]" using r by simp
  have "map_option refs (map_option unref (?s 1)) = Some 1" by (simp add: unref_def CRYPTO_REFCOUNT_MAX_def)
  with run [unfolded tw] have "\<exists>s'. BIO_free ?s (Some 0) = Some (False, s') \<and> s' 0 = None \<and> map_option refs (s' 1) = Some 1"
    by (simp only: list.sel) simp
  then show ?thesis by (rule exI [of _ ?s])
qed

text \<open>Either half of a pair can be released first: that leaves the other half alone, uninitialised
  and without a peer, so that reading and writing are refused, and it can then be released as well.\<close>

theorem pair_release:
  assumes "paired s a c" and "s a = Some bio" "s c = Some bio'"
    and "refs bio = 1" "refs bio' = 1" "next_bio bio = None" "next_bio bio' = None"
  shows "\<exists>s'. BIO_free s (Some a) = Some (True, s') \<and> s' a = None \<and> (\<forall>z. z \<notin> {a, c} \<longrightarrow> s' z = s z) \<and>
    BIO_read s' (Some c) n = Some (- 2, [], s') \<and> BIO_write env s' (Some c) inp n = Some (- 2, s') \<and>
    BIO_free s' (Some c) = Some (True, s(a := None, c := None))"
proof -
  obtain b b' where b: "bptr bio = PairHalf b" "peer b = Some c" "half_ok b" "bmethod bio = methods_biop" "a \<noteq> c"
    and b': "bptr bio' = PairHalf b'" "peer b' = Some a" "half_ok b'" "bmethod bio' = methods_biop"
    using assms(1-3) by (auto simp: paired_def half_of_def)
  have bufs: "ring_buf b \<noteq> None" "ring_buf b' \<noteq> None" using b(3) b'(3) by (auto simp: half_ok_def)
  let ?orphan = "bio'\<lparr>init := False, bptr := PairHalf (b'\<lparr>peer := None, ring_len := 0, ring_offset := 0\<rparr>)\<rparr>"
  let ?s = "s(a := None, c \<mapsto> ?orphan)"
  have "BIO_free s (Some a) = BIO_free ?s None"
    using assms(2-7) b b' bufs
    by (subst BIO_free.simps)
      (simp add: refcount_dec CRYPTO_REFCOUNT_MAX_def BIO_pop_def destroy_def bio_free_def bio_destroy_pair_def half_def Let_def fun_upd_twist)
  moreover have "BIO_free ?s None = Some (True, ?s)" by (simp add: BIO_free.simps)
  moreover have "BIO_free ?s (Some c) = BIO_free (s(a := None, c := None)) None"
    using assms(2-7) b b'
    by (subst BIO_free.simps)
      (simp add: refcount_dec CRYPTO_REFCOUNT_MAX_def BIO_pop_def destroy_def bio_free_def half_def Let_def)
  ultimately show ?thesis using b(5)
    by (intro exI [of _ ?s]) (simp add: BIO_free.simps [of _ None] BIO_read_def BIO_write_def)
qed

lemma pair_release_witness:
  "\<exists>s s'. BIO_free (s :: bios) (Some 0) = Some (True, s') \<and> BIO_read s' (Some 1) 5 = Some (- 2, [], s')"
proof -
  let ?b = "\<lambda>a. \<lparr>peer = Some a, closed = False, ring_len = 0, ring_offset = 0, ring_size = 1, ring_buf = Some [0], request = 0\<rparr>"
  let ?h = "\<lambda>a. (zero_bio methods_biop)\<lparr>init := True, bptr := PairHalf (?b a)\<rparr>"
  let ?s = "(\<lambda>_. None)(0 \<mapsto> ?h 1, 1 \<mapsto> ?h 0)"
  have "paired ?s 0 1" by (simp add: paired_def half_of_def half_ok_def zero_bio_def)
  then have "\<exists>s'. BIO_free ?s (Some 0) = Some (True, s') \<and> BIO_read s' (Some 1) 5 = Some (- 2, [], s')"
    using pair_release [of ?s 0 1 "?h 1" "?h 0" 5 generous_env "[]"] by (auto simp: zero_bio_def)
  then show ?thesis by (rule exI [of _ ?s])
qed

end
