(* ===== verification/PbDecode.thy ===== *)
theory PbDecode
  imports Codec
begin

text \<open>
  The stream and wire level of nanopb's decoder (\<open>pb_decode.c\<close>), configured as the project builds
  it: with 32-bit sizes, \<open>malloc\<close> and 64-bit integers, and with \<open>uint_fast8_t\<close> of 8 bits.
  A stream reads from memory: what follows the state pointer, and the number of bytes that may
  still be read.  A failing call returns its message with the stream as it left it.
\<close>

section \<open>Streams\<close>

record pb_istream =
  state :: bytes
  bytes_left :: nat

type_synonym 'a pb_result = "(string + 'a) \<times> pb_istream"

definition and_then :: "(string + 'a) \<times> 's \<Rightarrow> ('a \<Rightarrow> 's \<Rightarrow> (string + 'b) \<times> 's) \<Rightarrow> (string + 'b) \<times> 's" where
  "and_then r f = (case r of (Inl e, s) \<Rightarrow> (Inl e, s) | (Inr x, s) \<Rightarrow> f x s)"

definition pb_istream_from_buffer :: "bytes \<Rightarrow> nat \<Rightarrow> pb_istream" where
  "pb_istream_from_buffer buf bufsize = \<lparr> state = buf, bytes_left = bufsize \<rparr>"

definition buf_read :: "pb_istream \<Rightarrow> nat \<Rightarrow> bytes \<times> pb_istream" where
  "buf_read s n = (take n (state s), s\<lparr> state := drop n (state s) \<rparr>)"

definition pb_read :: "pb_istream \<Rightarrow> nat \<Rightarrow> bytes pb_result" where
  "pb_read s n =
    (if n = 0 then (Inr [], s)
     else if bytes_left s < n then (Inl ''end-of-stream'', s)
     else case buf_read s n of (buf, s) \<Rightarrow> (Inr buf, s\<lparr> bytes_left := bytes_left s - n \<rparr>))"

definition pb_readbyte :: "pb_istream \<Rightarrow> u8 pb_result" where
  "pb_readbyte s =
    (if bytes_left s = 0 then (Inl ''end-of-stream'', s)
     else case buf_read s 1 of (buf, s) \<Rightarrow> (Inr (hd buf), s\<lparr> bytes_left := bytes_left s - 1 \<rparr>))"

section \<open>Varints\<close>

text \<open>The loop of \<open>pb_decode_varint32_eof\<close>; \<open>bitpos\<close> is a \<open>uint_fast8_t\<close> and wraps around.  The
  result comes with the final \<open>bitpos\<close> and the last byte.\<close>

function varint32_loop :: "u32 \<Rightarrow> u8 \<Rightarrow> pb_istream \<Rightarrow> (u32 \<times> u8 \<times> u8) pb_result" where
  "varint32_loop result bitpos s =
    (case pb_readbyte s of
       (Inl e, s') \<Rightarrow> (Inl e, s')
     | (Inr byte, s') \<Rightarrow>
         if 32 \<le> bitpos \<and> byte AND 0x7F \<noteq> 0 \<and>
            (drop_bit 31 result = 0 \<or> byte \<noteq> (if bitpos < 63 then 0xFF else 0x01)) then
           (Inl ''varint overflow'', s')
         else let
           result = (if 32 \<le> bitpos then result else result OR push_bit (unat bitpos) (ucast (byte AND 0x7F)));
           bitpos = bitpos + 7
         in if byte AND 0x80 \<noteq> 0 then varint32_loop result bitpos s' else (Inr (result, bitpos, byte), s'))"
  by pat_completeness auto
termination
  by (relation "measure (\<lambda>(result, bitpos, s). bytes_left s)") (auto simp: pb_readbyte_def buf_read_def split: if_splits)

declare varint32_loop.simps [simp del]

text \<open>The second component is \<open>*eof\<close>.\<close>

definition pb_decode_varint32_eof :: "pb_istream \<Rightarrow> u32 pb_result \<times> bool" where
  "pb_decode_varint32_eof s =
    (case pb_readbyte s of
       (Inl e, s) \<Rightarrow> ((Inl e, s), bytes_left s = 0)
     | (Inr byte, s) \<Rightarrow>
         if byte AND 0x80 = 0 then ((Inr (ucast byte), s), False)
         else (and_then (varint32_loop (ucast (byte AND 0x7F)) 7 s) (\<lambda>(result, bitpos, byte) s.
           if bitpos = 35 \<and> byte AND 0x70 \<noteq> 0 then (Inl ''varint overflow'', s) else (Inr result, s)), False))"

definition pb_decode_varint32 :: "pb_istream \<Rightarrow> u32 pb_result" where
  "pb_decode_varint32 s = fst (pb_decode_varint32_eof s)"

function varint_loop :: "u64 \<Rightarrow> u8 \<Rightarrow> pb_istream \<Rightarrow> u64 pb_result" where
  "varint_loop result bitpos s =
    (if 64 \<le> bitpos then (Inl ''varint overflow'', s)
     else case pb_readbyte s of
       (Inl e, s') \<Rightarrow> (Inl e, s')
     | (Inr byte, s') \<Rightarrow> let
         result = result OR push_bit (unat bitpos) (ucast (byte AND 0x7F));
         bitpos = bitpos + 7
       in if byte AND 0x80 \<noteq> 0 then varint_loop result bitpos s' else (Inr result, s'))"
  by pat_completeness auto
termination
  by (relation "measure (\<lambda>(result, bitpos, s). bytes_left s)") (auto simp: pb_readbyte_def buf_read_def split: if_splits)

declare varint_loop.simps [simp del]

definition pb_decode_varint :: "pb_istream \<Rightarrow> u64 pb_result" where
  "pb_decode_varint s = varint_loop 0 0 s"

function pb_skip_varint :: "pb_istream \<Rightarrow> unit pb_result" where
  "pb_skip_varint s =
    (case pb_read s 1 of
       (Inl e, s') \<Rightarrow> (Inl e, s')
     | (Inr buf, s') \<Rightarrow> if hd buf AND 0x80 \<noteq> 0 then pb_skip_varint s' else (Inr (), s'))"
  by pat_completeness auto
termination
  by (relation "measure bytes_left") (auto simp: pb_read_def buf_read_def split: if_splits)

declare pb_skip_varint.simps [simp del]

definition pb_skip_string :: "pb_istream \<Rightarrow> unit pb_result" where
  "pb_skip_string s = and_then (pb_decode_varint32 s) (\<lambda>len s. and_then (pb_read s (unat len)) (\<lambda>_ s. (Inr (), s)))"

section \<open>Tags and fields\<close>

datatype pb_wire_type = PB_WT_VARINT | PB_WT_64BIT | PB_WT_STRING | PB_WT_32BIT | PB_WT_OTHER nat

text \<open>The three bits of the wire type; the enumeration's other values are kept apart by their number.\<close>

definition wire_type_of :: "nat \<Rightarrow> pb_wire_type" where
  "wire_type_of n = (if n = 0 then PB_WT_VARINT else if n = 1 then PB_WT_64BIT else if n = 2 then PB_WT_STRING
     else if n = 5 then PB_WT_32BIT else PB_WT_OTHER n)"

text \<open>The wire type and the tag, and \<open>*eof\<close>; a failure without a message is the empty one.\<close>

definition pb_decode_tag :: "pb_istream \<Rightarrow> (pb_wire_type \<times> u32) pb_result \<times> bool" where
  "pb_decode_tag s =
    (case pb_decode_varint32_eof s of
       ((Inl e, s), eof) \<Rightarrow> ((Inl e, s), eof)
     | ((Inr temp, s), eof) \<Rightarrow>
         if temp = 0 then ((Inl '''', s), True)
         else ((Inr (wire_type_of (unat (temp AND 7)), drop_bit 3 temp), s), eof))"

definition ignore_result :: "'a pb_result \<Rightarrow> unit pb_result" where
  "ignore_result r = and_then r (\<lambda>_ s. (Inr (), s))"

fun pb_skip_field :: "pb_istream \<Rightarrow> pb_wire_type \<Rightarrow> unit pb_result" where
  "pb_skip_field s PB_WT_VARINT = pb_skip_varint s"
| "pb_skip_field s PB_WT_64BIT = ignore_result (pb_read s 8)"
| "pb_skip_field s PB_WT_STRING = pb_skip_string s"
| "pb_skip_field s PB_WT_32BIT = ignore_result (pb_read s 4)"
| "pb_skip_field s (PB_WT_OTHER n) = (Inl ''invalid wire_type'', s)"

text \<open>The varint case of \<open>read_raw_value\<close>: the bytes read so far are counted against the maximum.\<close>

function raw_varint :: "nat \<Rightarrow> nat \<Rightarrow> pb_istream \<Rightarrow> bytes pb_result" where
  "raw_varint max_size n s =
    (if max_size < n + 1 then (Inl '''', s)
     else case pb_read s 1 of
       (Inl e, s') \<Rightarrow> (Inl e, s')
     | (Inr buf, s') \<Rightarrow>
         if hd buf AND 0x80 \<noteq> 0 then and_then (raw_varint max_size (n + 1) s') (\<lambda>bs s. (Inr (hd buf # bs), s))
         else (Inr [hd buf], s'))"
  by pat_completeness auto
termination
  by (relation "measure (\<lambda>(m, n, s). bytes_left s)") (auto simp: pb_read_def buf_read_def split: if_splits)

declare raw_varint.simps [simp del]

fun read_raw_value :: "pb_istream \<Rightarrow> pb_wire_type \<Rightarrow> nat \<Rightarrow> bytes pb_result" where
  "read_raw_value s PB_WT_VARINT max_size = raw_varint max_size 0 s"
| "read_raw_value s PB_WT_64BIT max_size = pb_read s 8"
| "read_raw_value s PB_WT_32BIT max_size = pb_read s 4"
| "read_raw_value s wt max_size = (Inl ''invalid wire_type'', s)"

definition pb_make_string_substream :: "pb_istream \<Rightarrow> pb_istream pb_result" where
  "pb_make_string_substream s = and_then (pb_decode_varint32 s) (\<lambda>sz s.
     if bytes_left s < unat sz then (Inl ''parent stream too short'', s)
     else (Inr (s\<lparr> bytes_left := unat sz \<rparr>), s\<lparr> bytes_left := bytes_left s - unat sz \<rparr>))"

text \<open>A failing read leaves its message with the substream.\<close>

definition pb_close_string_substream :: "pb_istream \<Rightarrow> pb_istream \<Rightarrow> unit pb_result" where
  "pb_close_string_substream s sub =
    (case (if bytes_left sub \<noteq> 0 then pb_read sub (bytes_left sub) else (Inr [], sub)) of
       (Inl e, sub) \<Rightarrow> (Inl '''', s)
     | (Inr _, sub) \<Rightarrow> (Inr (), s\<lparr> state := state sub \<rparr>))"

section \<open>Values\<close>

definition pb_decode_svarint :: "pb_istream \<Rightarrow> u64 pb_result" where
  "pb_decode_svarint s = and_then (pb_decode_varint s) (\<lambda>v s.
     (Inr (if v AND 1 \<noteq> 0 then NOT (drop_bit 1 v) else drop_bit 1 v), s))"

definition pb_decode_fixed32 :: "pb_istream \<Rightarrow> u32 pb_result" where
  "pb_decode_fixed32 s = and_then (pb_read s 4) (\<lambda>b s.
     (Inr (ucast (b ! 0) OR push_bit 8 (ucast (b ! 1)) OR push_bit 16 (ucast (b ! 2)) OR push_bit 24 (ucast (b ! 3))), s))"

definition pb_decode_fixed64 :: "pb_istream \<Rightarrow> u64 pb_result" where
  "pb_decode_fixed64 s = and_then (pb_read s 8) (\<lambda>b s.
     (Inr (ucast (b ! 0) OR push_bit 8 (ucast (b ! 1)) OR push_bit 16 (ucast (b ! 2)) OR push_bit 24 (ucast (b ! 3)) OR
           push_bit 32 (ucast (b ! 4)) OR push_bit 40 (ucast (b ! 5)) OR push_bit 48 (ucast (b ! 6)) OR
           push_bit 56 (ucast (b ! 7))), s))"

datatype pb_ltype = PB_LTYPE_BOOL | PB_LTYPE_VARINT | PB_LTYPE_UVARINT | PB_LTYPE_SVARINT | PB_LTYPE_FIXED32
  | PB_LTYPE_FIXED64 | PB_LTYPE_BYTES | PB_LTYPE_STRING | PB_LTYPE_SUBMESSAGE | PB_LTYPE_EXTENSION
  | PB_LTYPE_FIXED_LENGTH_BYTES

datatype pb_htype = PB_HTYPE_REQUIRED | PB_HTYPE_OPTIONAL | PB_HTYPE_REPEATED | PB_HTYPE_ONEOF

datatype pb_atype = PB_ATYPE_STATIC | PB_ATYPE_POINTER | PB_ATYPE_CALLBACK

text \<open>What a descriptor's \<open>ptr\<close> points to: a default value, or the descriptors of a submessage, an array
  given by its address.\<close>

datatype pb_field_ptr = NoPtr | DefaultValue bytes | Submessage nat

record pb_field =
  field_tag :: u32
  ltype :: pb_ltype
  htype :: pb_htype
  atype :: pb_atype
  data_offset :: nat
  size_offset :: int
  data_size :: nat
  array_size :: nat
  ptr :: pb_field_ptr

text \<open>The descriptor of a field that follows the one before it and has no default: required, or an array of
  \<open>n\<close> entries.\<close>

definition static_field :: "u32 \<Rightarrow> pb_ltype \<Rightarrow> nat \<Rightarrow> nat \<Rightarrow> pb_field" where
  "static_field tag t sz n = \<lparr> field_tag = tag, ltype = t, htype = (if n = 0 then PB_HTYPE_REQUIRED else PB_HTYPE_REPEATED),
     atype = PB_ATYPE_STATIC, data_offset = 0, size_offset = 0, data_size = sz, array_size = n, ptr = NoPtr \<rparr>"

lemma static_field_simps [simp]:
  "field_tag (static_field tag t sz n) = tag" "ltype (static_field tag t sz n) = t"
  "htype (static_field tag t sz n) = (if n = 0 then PB_HTYPE_REQUIRED else PB_HTYPE_REPEATED)"
  "atype (static_field tag t sz n) = PB_ATYPE_STATIC" "data_offset (static_field tag t sz n) = 0"
  "size_offset (static_field tag t sz n) = 0" "data_size (static_field tag t sz n) = sz"
  "array_size (static_field tag t sz n) = n" "ptr (static_field tag t sz n) = NoPtr"
  by (simp_all add: static_field_def)

text \<open>A field's memory is the list of its bytes, least significant first.  What the functions below
  return is what they store at \<open>dest\<close>.\<close>

definition pb_dec_bool :: "pb_istream \<Rightarrow> pb_field \<Rightarrow> bytes pb_result" where
  "pb_dec_bool s field = and_then (pb_decode_varint32 s) (\<lambda>v s. (Inr [if v \<noteq> 0 then 1 else 0], s))"

text \<open>The final casts of the three integer decoders: the value is stored at the field's size and must
  survive it.\<close>

definition store_signed :: "nat \<Rightarrow> u64 \<Rightarrow> pb_istream \<Rightarrow> bytes pb_result" where
  "store_signed sz svalue s =
    (if sz \<notin> {1, 2, 4, 8} then (Inl ''invalid data_size'', s)
     else let
       clamped = (if sz = 8 then svalue else if sz = 4 then scast (ucast svalue :: 32 word)
         else if sz = 2 then scast (ucast svalue :: 16 word) else scast (ucast svalue :: 8 word))
     in if clamped \<noteq> svalue then (Inl ''integer too large'', s)
        else (Inr (le_bytes sz (unat svalue)), s))"

definition pb_dec_varint :: "pb_istream \<Rightarrow> pb_field \<Rightarrow> bytes pb_result" where
  "pb_dec_varint s field = and_then (pb_decode_varint s) (\<lambda>v s.
     store_signed (data_size field) (if data_size field = 8 then v else scast (ucast v :: 32 word)) s)"

definition pb_dec_uvarint :: "pb_istream \<Rightarrow> pb_field \<Rightarrow> bytes pb_result" where
  "pb_dec_uvarint s field = and_then (pb_decode_varint s) (\<lambda>v s.
    if data_size field \<notin> {1, 2, 4, 8} then (Inl ''invalid data_size'', s)
    else let
      clamped = (if data_size field = 8 then v else if data_size field = 4 then ucast (ucast v :: 32 word)
        else if data_size field = 2 then ucast (ucast v :: 16 word) else ucast (ucast v :: 8 word))
    in if clamped \<noteq> v then (Inl ''integer too large'', s) else (Inr (le_bytes (data_size field) (unat v)), s))"

definition pb_dec_svarint :: "pb_istream \<Rightarrow> pb_field \<Rightarrow> bytes pb_result" where
  "pb_dec_svarint s field = and_then (pb_decode_svarint s) (\<lambda>v s. store_signed (data_size field) v s)"

definition pb_dec_fixed32 :: "pb_istream \<Rightarrow> pb_field \<Rightarrow> bytes pb_result" where
  "pb_dec_fixed32 s field = and_then (pb_decode_fixed32 s) (\<lambda>v s. (Inr (le_bytes 4 (unat v)), s))"

definition pb_dec_fixed64 :: "pb_istream \<Rightarrow> pb_field \<Rightarrow> bytes pb_result" where
  "pb_dec_fixed64 s field = and_then (pb_decode_fixed64 s) (\<lambda>v s. (Inr (le_bytes 8 (unat v)), s))"

text \<open>\<open>allocate_field\<close> for a fresh pointer: whether \<open>pb_realloc\<close> grants a size is a parameter.\<close>

definition allocate_field :: "(nat \<Rightarrow> bool) \<Rightarrow> nat \<Rightarrow> nat \<Rightarrow> pb_istream \<Rightarrow> unit pb_result" where
  "allocate_field grants dsize asize s =
    (if dsize = 0 \<or> asize = 0 then (Inl ''invalid size'', s)
     else if (2 ^ 32 \<le> dsize \<or> 2 ^ 32 \<le> asize) \<and> (SIZE_LIMIT - 1) div asize < dsize then (Inl ''size too large'', s)
     else if \<not> grants (szmul asize dsize) then (Inl ''realloc failed'', s)
     else (Inr (), s))"

definition PB_BYTES_ARRAY_T_ALLOCSIZE :: "nat \<Rightarrow> nat" where
  "PB_BYTES_ARRAY_T_ALLOCSIZE n = szadd n 4"

definition pb_dec_bytes :: "(nat \<Rightarrow> bool) \<Rightarrow> pb_istream \<Rightarrow> pb_field \<Rightarrow> bytes pb_result" where
  "pb_dec_bytes grants s field = and_then (pb_decode_varint32 s) (\<lambda>sz s.
    let alloc_size = PB_BYTES_ARRAY_T_ALLOCSIZE (unat sz) in
    if alloc_size < unat sz then (Inl ''size too large'', s)
    else and_then
      (if atype field = PB_ATYPE_POINTER then allocate_field grants alloc_size 1 s
       else if data_size field < alloc_size then (Inl ''bytes overflow'', s) else (Inr (), s))
      (\<lambda>_ s. and_then (pb_read s (unat sz)) (\<lambda>bs s. (Inr (le_bytes 4 (unat sz) @ bs), s))))"

definition pb_dec_string :: "(nat \<Rightarrow> bool) \<Rightarrow> pb_istream \<Rightarrow> pb_field \<Rightarrow> bytes pb_result" where
  "pb_dec_string grants s field = and_then (pb_decode_varint32 s) (\<lambda>sz s.
    let alloc_size = sz + 1 in
    if alloc_size < sz then (Inl ''size too large'', s)
    else and_then
      (if atype field = PB_ATYPE_POINTER then allocate_field grants (unat alloc_size) 1 s
       else if data_size field < unat alloc_size then (Inl ''string overflow'', s) else (Inr (), s))
      (\<lambda>_ s. and_then (pb_read s (unat sz)) (\<lambda>bs s. (Inr (bs @ [0]), s))))"

definition pb_dec_fixed_length_bytes :: "pb_istream \<Rightarrow> pb_field \<Rightarrow> bytes pb_result" where
  "pb_dec_fixed_length_bytes s field = and_then (pb_decode_varint32 s) (\<lambda>sz s.
    if sz = 0 then (Inr (replicate (data_size field) 0), s)
    else if unat sz \<noteq> data_size field then (Inl ''incorrect fixed length bytes size'', s)
    else pb_read s (data_size field))"

end
