(* ===== verification/PbEncode.thy ===== *)
theory PbEncode
  imports PbDecode
begin

text \<open>
  The stream and wire level of nanopb's encoder (\<open>pb_encode.c\<close>).  A stream without a callback
  only counts the bytes; the other streams write to memory.
\<close>

section \<open>Streams\<close>

record pb_ostream =
  has_callback :: bool
  written :: bytes
  max_size :: nat
  bytes_written :: nat

type_synonym pb_status = "(string + unit) \<times> pb_ostream"

definition pb_ostream_from_buffer :: "nat \<Rightarrow> pb_ostream" where
  "pb_ostream_from_buffer bufsize = \<lparr> has_callback = True, written = [], max_size = bufsize, bytes_written = 0 \<rparr>"

definition PB_OSTREAM_SIZING :: pb_ostream where
  "PB_OSTREAM_SIZING = \<lparr> has_callback = False, written = [], max_size = 0, bytes_written = 0 \<rparr>"

definition buf_write :: "pb_ostream \<Rightarrow> bytes \<Rightarrow> pb_ostream" where
  "buf_write s buf = s\<lparr> written := written s @ buf \<rparr>"

definition pb_write :: "pb_ostream \<Rightarrow> bytes \<Rightarrow> pb_status" where
  "pb_write s buf =
    (let n = length buf in
     if 0 < n \<and> has_callback s \<and>
        (szadd (bytes_written s) n < bytes_written s \<or> max_size s < szadd (bytes_written s) n) then
       (Inl ''stream full'', s)
     else let s = (if 0 < n \<and> has_callback s then buf_write s buf else s)
       in (Inr (), s\<lparr> bytes_written := szadd (bytes_written s) n \<rparr>))"

section \<open>Wire format\<close>

text \<open>The loop of \<open>pb_encode_varint\<close>: the bytes put in the buffer, continuation bits all set.\<close>

function varint_buffer :: "u64 \<Rightarrow> bytes" where
  "varint_buffer v = (if v = 0 then [] else (ucast (v AND 0x7F) OR 0x80) # varint_buffer (drop_bit 7 v))"
  by auto
termination
proof (relation "measure unat")
  fix v :: u64
  assume "v \<noteq> 0"
  then have "0 < unat v" by (simp add: unat_gt_0)
  then have "unat v div 2 ^ 7 < unat v" by (intro div_less_dividend) simp_all
  then show "(drop_bit 7 v, v) \<in> measure unat" by (simp only: in_measure unat_drop)
qed simp

declare varint_buffer.simps [simp del]

definition pb_encode_varint :: "pb_ostream \<Rightarrow> u64 \<Rightarrow> pb_status" where
  "pb_encode_varint s v =
    (if v \<le> 0x7F then pb_write s [ucast v]
     else let buf = varint_buffer v in pb_write s (butlast buf @ [last buf AND 0x7F]))"

definition pb_encode_svarint :: "pb_ostream \<Rightarrow> u64 \<Rightarrow> pb_status" where
  "pb_encode_svarint s v =
    (let zigzagged = (if v <s 0 then NOT (push_bit 1 v) else push_bit 1 v) in pb_encode_varint s zigzagged)"

definition pb_encode_fixed32 :: "pb_ostream \<Rightarrow> u32 \<Rightarrow> pb_status" where
  "pb_encode_fixed32 s v = pb_write s
    [ucast (v AND 0xFF), ucast (drop_bit 8 v AND 0xFF), ucast (drop_bit 16 v AND 0xFF), ucast (drop_bit 24 v AND 0xFF)]"

definition pb_encode_fixed64 :: "pb_ostream \<Rightarrow> u64 \<Rightarrow> pb_status" where
  "pb_encode_fixed64 s v = pb_write s
    [ucast (v AND 0xFF), ucast (drop_bit 8 v AND 0xFF), ucast (drop_bit 16 v AND 0xFF), ucast (drop_bit 24 v AND 0xFF),
     ucast (drop_bit 32 v AND 0xFF), ucast (drop_bit 40 v AND 0xFF), ucast (drop_bit 48 v AND 0xFF),
     ucast (drop_bit 56 v AND 0xFF)]"

fun wire_type_number :: "pb_wire_type \<Rightarrow> nat" where
  "wire_type_number PB_WT_VARINT = 0"
| "wire_type_number PB_WT_64BIT = 1"
| "wire_type_number PB_WT_STRING = 2"
| "wire_type_number PB_WT_32BIT = 5"
| "wire_type_number (PB_WT_OTHER n) = n"

definition pb_encode_tag :: "pb_ostream \<Rightarrow> pb_wire_type \<Rightarrow> u32 \<Rightarrow> pb_status" where
  "pb_encode_tag s wiretype field_number =
    pb_encode_varint s (push_bit 3 (ucast field_number) OR word_of_nat (wire_type_number wiretype))"

definition pb_encode_tag_for_field :: "pb_ostream \<Rightarrow> pb_field \<Rightarrow> pb_status" where
  "pb_encode_tag_for_field s field =
    (if ltype field \<in> {PB_LTYPE_BOOL, PB_LTYPE_VARINT, PB_LTYPE_UVARINT, PB_LTYPE_SVARINT} then
       pb_encode_tag s PB_WT_VARINT (field_tag field)
     else if ltype field = PB_LTYPE_FIXED32 then pb_encode_tag s PB_WT_32BIT (field_tag field)
     else if ltype field = PB_LTYPE_FIXED64 then pb_encode_tag s PB_WT_64BIT (field_tag field)
     else if ltype field \<in> {PB_LTYPE_BYTES, PB_LTYPE_STRING, PB_LTYPE_SUBMESSAGE, PB_LTYPE_FIXED_LENGTH_BYTES} then
       pb_encode_tag s PB_WT_STRING (field_tag field)
     else (Inl ''invalid field type'', s))"

definition pb_encode_string :: "pb_ostream \<Rightarrow> bytes \<Rightarrow> pb_status" where
  "pb_encode_string s buf =
    (case pb_encode_varint s (word_of_nat (length buf)) of
       (Inl e, s) \<Rightarrow> (Inl e, s)
     | (Inr _, s) \<Rightarrow> pb_write s buf)"

section \<open>Values\<close>

text \<open>\<open>src\<close> is the field's memory, least significant byte first.\<close>

definition safe_read_bool :: "bytes \<Rightarrow> bool" where
  "safe_read_bool p \<longleftrightarrow> (\<exists>b\<in>set (take 1 p). b \<noteq> 0)"

definition pb_enc_bool :: "pb_ostream \<Rightarrow> pb_field \<Rightarrow> bytes \<Rightarrow> pb_status" where
  "pb_enc_bool s field src = pb_encode_varint s (if safe_read_bool src then 1 else 0)"

text \<open>Reading an integer of the field's size; \<open>None\<close> is an invalid size.\<close>

definition load_signed :: "nat \<Rightarrow> bytes \<Rightarrow> u64 option" where
  "load_signed sz src =
    (if sz = 1 then Some (scast (word_of_nat (le_val (take 1 src)) :: 8 word))
     else if sz = 2 then Some (scast (word_of_nat (le_val (take 2 src)) :: 16 word))
     else if sz = 4 then Some (scast (word_of_nat (le_val (take 4 src)) :: 32 word))
     else if sz = 8 then Some (word_of_nat (le_val (take 8 src))) else None)"

definition load_unsigned :: "nat \<Rightarrow> bytes \<Rightarrow> u64 option" where
  "load_unsigned sz src =
    (if sz \<in> {1, 2, 4, 8} then Some (word_of_nat (le_val (take sz src))) else None)"

definition pb_enc_varint :: "pb_ostream \<Rightarrow> pb_field \<Rightarrow> bytes \<Rightarrow> pb_status" where
  "pb_enc_varint s field src =
    (case load_signed (data_size field) src of
       None \<Rightarrow> (Inl ''invalid data_size'', s) | Some v \<Rightarrow> pb_encode_varint s v)"

definition pb_enc_uvarint :: "pb_ostream \<Rightarrow> pb_field \<Rightarrow> bytes \<Rightarrow> pb_status" where
  "pb_enc_uvarint s field src =
    (case load_unsigned (data_size field) src of
       None \<Rightarrow> (Inl ''invalid data_size'', s) | Some v \<Rightarrow> pb_encode_varint s v)"

definition pb_enc_svarint :: "pb_ostream \<Rightarrow> pb_field \<Rightarrow> bytes \<Rightarrow> pb_status" where
  "pb_enc_svarint s field src =
    (case load_signed (data_size field) src of
       None \<Rightarrow> (Inl ''invalid data_size'', s) | Some v \<Rightarrow> pb_encode_svarint s v)"

definition pb_enc_fixed32 :: "pb_ostream \<Rightarrow> pb_field \<Rightarrow> bytes \<Rightarrow> pb_status" where
  "pb_enc_fixed32 s field src = pb_encode_fixed32 s (word_of_nat (le_val (take 4 src)))"

definition pb_enc_fixed64 :: "pb_ostream \<Rightarrow> pb_field \<Rightarrow> bytes \<Rightarrow> pb_status" where
  "pb_enc_fixed64 s field src = pb_encode_fixed64 s (word_of_nat (le_val (take 8 src)))"

text \<open>A null pointer as \<open>src\<close> is \<open>None\<close>.\<close>

definition pb_enc_bytes :: "pb_ostream \<Rightarrow> pb_field \<Rightarrow> bytes option \<Rightarrow> pb_status" where
  "pb_enc_bytes s field src =
    (case src of
       None \<Rightarrow> pb_encode_string s []
     | Some mem \<Rightarrow> let sz = le_val (take 4 mem); allocsize = PB_BYTES_ARRAY_T_ALLOCSIZE sz in
         if allocsize < sz \<or> (atype field = PB_ATYPE_STATIC \<and> data_size field < allocsize) then
           (Inl ''bytes size exceeded'', s)
         else pb_encode_string s (take sz (drop 4 mem)))"

definition pb_enc_string :: "pb_ostream \<Rightarrow> pb_field \<Rightarrow> bytes option \<Rightarrow> pb_status" where
  "pb_enc_string s field src =
    (case src of
       None \<Rightarrow> pb_encode_string s []
     | Some mem \<Rightarrow> let max_size = (if atype field = PB_ATYPE_POINTER then SIZE_LIMIT - 1 else data_size field)
         in pb_encode_string s (takeWhile (\<lambda>c. c \<noteq> 0) (take max_size mem)))"

definition pb_enc_fixed_length_bytes :: "pb_ostream \<Rightarrow> pb_field \<Rightarrow> bytes \<Rightarrow> pb_status" where
  "pb_enc_fixed_length_bytes s field src = pb_encode_string s (take (data_size field) src)"

end
