(* ===== verification/PbSpec.thy ===== *)
theory PbSpec
  imports PbEncode
begin

text \<open>
  What nanopb's writers and readers agree on: the bytes a writer emits on any stream that has
  room, sizing streams included, and the readers that take exactly those bytes back.
\<close>

section \<open>Base 128\<close>

fun leb :: "nat \<Rightarrow> bytes" where
  "leb n = (if n < 128 then [word_of_nat n] else word_of_nat (128 + n mod 128) # leb (n div 128))"

declare leb.simps [simp del]

lemma leb_small: "n < 128 \<Longrightarrow> leb n = [word_of_nat n]"
  by (simp add: leb.simps)

lemma leb_large: "128 \<le> n \<Longrightarrow> leb n = word_of_nat (128 + n mod 128) # leb (n div 128)"
  by (simp add: leb.simps)

lemma leb_not_Nil [simp]: "leb n \<noteq> []"
  by (subst leb.simps) simp

lemma low7_word: "unat (v AND 0x7F :: u64) = unat v mod 128"
  using unat_and_mask [of v 7] by (simp add: mask_eq_decr_exp)

lemma low7_byte: "unat (b AND 0x7F :: u8) = unat b mod 128"
  using unat_and_mask [of b 7] by (simp add: mask_eq_decr_exp)

lemma continuation_byte: "(ucast (v AND 0x7F :: u64) OR 0x80 :: u8) = word_of_nat (128 + unat v mod 128)"
proof -
  have u: "unat (ucast (v AND 0x7F) :: u8) = unat v mod 128"
    by (simp only: unsigned_ucast_eq low7_word) (simp add: take_bit_nat_eq_self)
  have "(0x80 :: u8) = push_bit 7 1" by simp
  then have "unat (ucast (v AND 0x7F) OR 0x80 :: u8) = 128 + unat v mod 128"
    using unat_push_or [of "ucast (v AND 0x7F) :: u8" 7 1] u by (simp add: or.commute)
  then show ?thesis by (rule word_of_unat)
qed

lemma last_varint_buffer: "v \<noteq> 0 \<Longrightarrow>
    butlast (varint_buffer v) @ [last (varint_buffer v) AND 0x7F] = leb (unat v) \<and> varint_buffer v \<noteq> []"
proof (induction v rule: varint_buffer.induct)
  case (1 v)
  have b: "varint_buffer v = word_of_nat (128 + unat v mod 128) # varint_buffer (drop_bit 7 v)"
    using 1(2) by (simp add: varint_buffer.simps [of v] continuation_byte del: of_nat_add)
  have d: "unat (drop_bit 7 v) = unat v div 128" by (simp add: unat_drop)
  show ?case
  proof (cases "drop_bit 7 v = 0")
    case True
    then have lt: "unat v < 128" using d by (simp add: div_eq_0_iff)
    have "unat (word_of_nat (128 + unat v mod 128) AND 0x7F :: u8) = unat v"
      using lt by (simp only: low7_byte unat_byte_of_nat) simp
    then have "(word_of_nat (128 + unat v mod 128) AND 0x7F :: u8) = word_of_nat (unat v)" by (rule word_of_unat)
    then show ?thesis using lt True b by (simp add: leb_small varint_buffer.simps [of 0] del: of_nat_add)
  next
    case False
    then have "128 \<le> unat v" using d by (metis div_less linorder_not_le unat_eq_0)
    then show ?thesis using 1(1) [OF 1(2) False] b d by (simp add: leb_large del: of_nat_add)
  qed
qed

lemma pb_encode_varint_eq: "pb_encode_varint s v = pb_write s (leb (unat v))"
proof (cases "v \<le> 0x7F")
  case True
  then have "unat v < 128" by (simp add: word_le_nat_alt)
  then show ?thesis using True by (simp add: pb_encode_varint_def leb_small)
next
  case False
  then have "v \<noteq> 0" by auto
  then show ?thesis using False last_varint_buffer [of v] by (simp add: pb_encode_varint_def Let_def)
qed


lemma length_leb: "n < 128 ^ Suc k \<Longrightarrow> length (leb n) \<le> Suc k"
proof (induction n arbitrary: k rule: leb.induct)
  case (1 n)
  show ?case
  proof (cases "n < 128")
    case False
    then obtain j where k: "k = Suc j" using 1(2) by (cases k) auto
    have "n div 128 < 128 ^ Suc j" using 1(2) k by (simp add: less_mult_imp_div_less mult.commute)
    then show ?thesis using 1(1) False k by (simp add: leb_large)
  qed (simp add: leb_small)
qed

lemma length_leb_64: "n < 2 ^ 64 \<Longrightarrow> length (leb n) \<le> 10"
  using length_leb [of n 9] by simp

section \<open>Writers\<close>

definition emit :: "pb_ostream \<Rightarrow> bytes \<Rightarrow> pb_ostream" where
  "emit s bs = s\<lparr> written := (if has_callback s then written s @ bs else written s),
                 bytes_written := bytes_written s + length bs \<rparr>"

text \<open>A writer emits \<open>bs\<close>: on a sizing stream and on a stream with room it does, otherwise the
  stream is full.\<close>

definition emits :: "(pb_ostream \<Rightarrow> pb_status) \<Rightarrow> bytes \<Rightarrow> bool" where
  "emits f bs \<longleftrightarrow> (\<forall>s. (has_callback s \<longrightarrow> bytes_written s \<le> max_size s) \<longrightarrow> bytes_written s + length bs < SIZE_LIMIT \<longrightarrow>
     (if has_callback s \<and> max_size s < bytes_written s + length bs then fst (f s) = Inl ''stream full''
      else f s = (Inr (), emit s bs)))"

lemma emitsD:
  fixes s :: pb_ostream
  assumes "emits f bs" and "has_callback s \<Longrightarrow> bytes_written s \<le> max_size s" and "bytes_written s + length bs < SIZE_LIMIT"
  shows "has_callback s \<Longrightarrow> max_size s < bytes_written s + length bs \<Longrightarrow> fst (f s) = Inl ''stream full''"
    and "\<not> (has_callback s \<and> max_size s < bytes_written s + length bs) \<Longrightarrow> f s = (Inr (), emit s bs)"
  using assms unfolding emits_def by auto

lemma emit_simps [simp]:
  "has_callback (emit s bs) = has_callback s" "max_size (emit s bs) = max_size s"
  "bytes_written (emit s bs) = bytes_written s + length bs" "emit s [] = s"
  "emit (emit s as) bs = emit s (as @ bs)"
  by (simp_all add: emit_def)

lemma emits_write: "emits (\<lambda>s. pb_write s bs) bs"
  by (auto simp: emits_def pb_write_def emit_def buf_write_def szadd_exact Let_def)

lemma emits_varint: "emits (\<lambda>s. pb_encode_varint s v) (leb (unat v))"
  unfolding pb_encode_varint_eq by (rule emits_write)

lemma emits_return: "emits (\<lambda>s. (Inr (), s)) []"
  by (simp add: emits_def)

lemma emits_then:
  assumes f: "emits f as" and g: "emits g bs"
  shows "emits (\<lambda>s. case f s of (Inl e, s) \<Rightarrow> (Inl e, s) | (Inr _, s) \<Rightarrow> g s) (as @ bs)"
  unfolding emits_def
proof (intro allI impI)
  fix s :: pb_ostream
  let ?b = "bytes_written s"
  assume ok: "has_callback s \<longrightarrow> ?b \<le> max_size s" and lim: "?b + length (as @ bs) < SIZE_LIMIT"
  let ?r = "case f s of (Inl e, s) \<Rightarrow> (Inl e, s) | (Inr _, s) \<Rightarrow> g s"
  show "if has_callback s \<and> max_size s < ?b + length (as @ bs) then fst ?r = Inl ''stream full'' else ?r = (Inr (), emit s (as @ bs))"
  proof (cases "has_callback s \<and> max_size s < ?b + length as")
    case True
    then have "fst (f s) = Inl ''stream full''" using emitsD(1) [OF f, of s] ok lim by simp
    then show ?thesis using True by (cases "f s") auto
  next
    case False
    then have fs: "f s = (Inr (), emit s as)" using emitsD(2) [OF f, of s] ok lim by simp
    then show ?thesis using emitsD [OF g, of "emit s as"] False lim by (auto simp: add.assoc)
  qed
qed

lemma emits_string: "length bs < 2 ^ 64 \<Longrightarrow> emits (\<lambda>s. pb_encode_string s bs) (leb (length bs) @ bs)"
  using emits_then [OF emits_varint [of "word_of_nat (length bs)"] emits_write [of bs]]
  by (simp add: pb_encode_string_def unat_of_nat)

section \<open>Readers\<close>

definition at :: "bytes \<Rightarrow> nat \<Rightarrow> pb_istream" where
  "at bs n = \<lparr> state = bs, bytes_left = n \<rparr>"

text \<open>A reader takes \<open>bs\<close> as \<open>x\<close>, whatever follows in the memory and may be read.\<close>

definition takes :: "(pb_istream \<Rightarrow> 'a pb_result) \<Rightarrow> bytes \<Rightarrow> 'a \<Rightarrow> bool" where
  "takes f bs x \<longleftrightarrow> (\<forall>r k. f (at (bs @ r) (length bs + k)) = (Inr x, at r k))"

lemma takesD: "takes f bs x \<Longrightarrow> f (at (bs @ r) (length bs + k)) = (Inr x, at r k)"
  by (simp add: takes_def)

lemma takes_then:
  assumes "takes f as x" and "takes (g x) bs y"
  shows "takes (\<lambda>s. and_then (f s) g) (as @ bs) y"
  unfolding takes_def
proof (intro allI)
  fix r k
  show "and_then (f (at ((as @ bs) @ r) (length (as @ bs) + k))) g = (Inr y, at r k)"
    using takesD [OF assms(1), of "bs @ r" "length bs + k"] takesD [OF assms(2), of r k]
    by (simp add: and_then_def ac_simps)
qed

lemma takes_return: "takes (\<lambda>s. (Inr x, s)) [] x"
  by (simp add: takes_def)

lemma takes_map: "takes f as x \<Longrightarrow> takes (\<lambda>s. and_then (f s) (\<lambda>x s. (Inr (g x), s))) as (g x)"
  by (simp add: takes_def and_then_def)

lemma takes_read: "takes (\<lambda>s. pb_read s (length bs)) bs bs"
  by (auto simp: takes_def pb_read_def buf_read_def at_def)

lemma readbyte_at: "pb_readbyte (at (b # r) (Suc k)) = (Inr b, at r k)"
  by (simp add: pb_readbyte_def buf_read_def at_def)


text \<open>One step of a varint loop, in numbers.\<close>

lemma low7_next:
  assumes "n mod 128 = unat (x AND 0x7F :: u8)" and "unat (r :: 'a::len word) < 2 ^ p"
    and "8 \<le> LENGTH('a)" and "unat r + n mod 128 * 2 ^ p < 2 ^ LENGTH('a)" and "p < LENGTH('a)"
  shows "unat (r OR push_bit p (ucast (x AND 0x7F))) = unat r + n mod 128 * 2 ^ p"
proof -
  have u: "unat (ucast (x AND 0x7F) :: 'a word) = n mod 128" using assms(1,3) by (simp add: unat_ucast_byte)
  have pow: "(2::nat) ^ (LENGTH('a) - p) * 2 ^ p = 2 ^ LENGTH('a)" using assms(5) by (simp flip: power_add)
  have "n mod 128 * 2 ^ p < 2 ^ (LENGTH('a) - p) * 2 ^ p" using assms(4) pow by linarith
  then have "n mod 128 < 2 ^ (LENGTH('a) - p)" by simp
  then show ?thesis
    using unat_push_or [OF assms(2), of "ucast (x AND 0x7F)"] u assms(5) by (simp add: or.commute)
qed

lemma leb_digit:
  "leb n = b # bs \<Longrightarrow> unat (b AND 0x7F) = n mod 128 \<and> (b AND 0x80 = 0 \<longleftrightarrow> n < 128) \<and>
    (if n < 128 then bs = [] else bs = leb (n div 128))"
proof (cases "n < 128")
  case False
  assume "leb n = b # bs"
  then have b: "b = word_of_nat (128 + n mod 128)" "bs = leb (n div 128)"
    using False by (simp_all add: leb_large del: of_nat_add)
  have "n mod 128 < 128" by simp
  then have u: "unat b = 128 + n mod 128"
    unfolding b(1) unat_byte_of_nat by (intro mod_less) linarith
  have "unat b mod 128 = n mod 128" unfolding u by simp
  moreover have "\<not> unat b < 128" unfolding u by simp
  ultimately show ?thesis using False b(2) by (simp only: low7_byte byte_and_128) simp
next
  case True
  assume "leb n = b # bs"
  then have b: "b = word_of_nat n" "bs = []" using True by (simp_all add: leb_small)
  moreover have "unat b = n" using b True by (simp add: unat_of_nat)
  ultimately show ?thesis using True by (simp only: low7_byte byte_and_128) simp
qed

lemma split_digit: "(n :: nat) mod 128 * 2 ^ p + n div 128 * 2 ^ (p + 7) = n * 2 ^ p"
proof -
  have "n div 128 * 2 ^ (p + 7) = n div 128 * 128 * 2 ^ p" by (simp add: power_add)
  then show ?thesis by (metis add_mult_distrib mod_div_mult_eq)
qed

lemma next_digit_bounds:
  fixes n r p w :: nat
  assumes "128 \<le> n" and "r + n * 2 ^ p < 2 ^ w" and "r < 2 ^ p"
  shows "p + 7 < w" "r + n mod 128 * 2 ^ p < 2 ^ (p + 7)" "r + n mod 128 * 2 ^ p < 2 ^ w"
proof -
  have "2 ^ (p + 7) \<le> n * 2 ^ p" using assms(1) by (simp add: power_add mult.commute)
  then have "(2::nat) ^ (p + 7) < 2 ^ w" using assms(2) by linarith
  then show "p + 7 < w" by simp
  have "n mod 128 * 2 ^ p \<le> 127 * 2 ^ p" by (intro mult_le_mono1) (simp add: less_Suc_eq_le [symmetric])
  moreover have "(2::nat) ^ (p + 7) = 2 ^ p + 127 * 2 ^ p" by (simp add: power_add)
  ultimately show "r + n mod 128 * 2 ^ p < 2 ^ (p + 7)" using assms(3) by linarith
  have "n mod 128 * 2 ^ p \<le> n * 2 ^ p" by simp
  then show "r + n mod 128 * 2 ^ p < 2 ^ w" using assms(2) by linarith
qed

lemma varint_loop_leb:
  assumes "unat r < 2 ^ p" and "p < 64" and "unat r + n * 2 ^ p < 2 ^ 64"
  shows "varint_loop r (word_of_nat p) (at (leb n @ rest) (length (leb n) + k)) =
    (Inr (word_of_nat (unat r + n * 2 ^ p)), at rest k)"
  using assms
proof (induction n arbitrary: r p rule: leb.induct)
  case (1 n)
  obtain b bs where l: "leb n = b # bs" by (cases "leb n") auto
  note d = leb_digit [OF l]
  have p: "unat (word_of_nat p :: u8) = p" "p mod 256 = p" using 1(3) by (simp_all add: unat_of_nat)
  then have p64: "\<not> 64 \<le> (word_of_nat p :: u8)" using 1(3) p by (simp add: word_le_nat_alt)
  define r' where "r' = r OR push_bit p (ucast (b AND 0x7F))"
  have "n mod 128 * 2 ^ p \<le> n * 2 ^ p" by simp
  then have lt: "unat r + n mod 128 * 2 ^ p < 2 ^ 64" using 1(4) by linarith
  have r': "unat r' = unat r + n mod 128 * 2 ^ p"
    unfolding r'_def using d lt 1(2,3) by (intro low7_next) auto
  have step: "varint_loop r (word_of_nat p) (at (leb n @ rest) (length (leb n) + k)) =
      (if n < 128 then (Inr r', at rest k)
       else varint_loop r' (word_of_nat p + 7) (at (leb (n div 128) @ rest) (length (leb (n div 128)) + k)))"
    using d p64 by (subst varint_loop.simps) (auto simp: l p readbyte_at r'_def Let_def)
  show ?case
  proof (cases "n < 128")
    case True
    then have "r' = word_of_nat (unat r + n * 2 ^ p)" using r' by (intro word_of_unat) simp
    then show ?thesis using step True by simp
  next
    case False
    then have nb: "p + 7 < 64" "unat r' < 2 ^ (p + 7)"
      using next_digit_bounds [OF _ 1(4,2)] r' by simp_all
    have sum: "unat r' + n div 128 * 2 ^ (p + 7) = unat r + n * 2 ^ p"
      unfolding r' using split_digit [of n p] by linarith
    have "varint_loop r' (word_of_nat (p + 7)) (at (leb (n div 128) @ rest) (length (leb (n div 128)) + k)) =
        (Inr (word_of_nat (unat r' + n div 128 * 2 ^ (p + 7))), at rest k)"
      using 1(4) sum by (intro 1(1) [OF False nb(2,1)]) simp
    then show ?thesis using step False by (simp add: sum)
  qed
qed

lemma takes_varint: "takes pb_decode_varint (leb (unat v)) v"
  using varint_loop_leb [of 0 0 "unat v"] unat_u64_less [of v]
  by (simp add: takes_def pb_decode_varint_def)


lemma small_byte_and: "unat (b :: u8) < 16 \<Longrightarrow> b AND 0x70 = 0"
proof -
  assume "unat b < 16"
  then have "unat (b AND mask 4) = unat b" by (simp only: unat_and_mask) simp
  then have "b = b AND 0x0F" by (simp add: word_unat_eq_iff mask_eq_decr_exp)
  then have "b AND 0x70 = b AND (0x0F AND 0x70)" by (metis and.assoc)
  then show ?thesis by simp
qed

lemma varint32_loop_leb:
  assumes "unat r < 2 ^ p" and "p < 32" and "unat r + n * 2 ^ p < 2 ^ 32"
  shows "\<exists>bp b. varint32_loop r (word_of_nat p) (at (leb n @ rest) (length (leb n) + k)) =
    (Inr (word_of_nat (unat r + n * 2 ^ p), bp, b), at rest k) \<and> (bp = 35 \<longrightarrow> b AND 0x70 = 0)"
  using assms
proof (induction n arbitrary: r p rule: leb.induct)
  case (1 n)
  obtain b bs where l: "leb n = b # bs" by (cases "leb n") auto
  note d = leb_digit [OF l]
  have p: "unat (word_of_nat p :: u8) = p" "p mod 256 = p" using 1(3) by (simp_all add: unat_of_nat)
  then have p32: "\<not> 32 \<le> (word_of_nat p :: u8)" using 1(3) by (simp add: word_le_nat_alt)
  define r' where "r' = r OR push_bit p (ucast (b AND 0x7F))"
  have "n mod 128 * 2 ^ p \<le> n * 2 ^ p" by simp
  then have lt: "unat r + n mod 128 * 2 ^ p < 2 ^ 32" using 1(4) by linarith
  have r': "unat r' = unat r + n mod 128 * 2 ^ p"
    unfolding r'_def using d lt 1(2,3) by (intro low7_next) auto
  have step: "varint32_loop r (word_of_nat p) (at (leb n @ rest) (length (leb n) + k)) =
      (if n < 128 then (Inr (r', word_of_nat p + 7, b), at rest k)
       else varint32_loop r' (word_of_nat p + 7) (at (leb (n div 128) @ rest) (length (leb (n div 128)) + k)))"
    using d p32 by (subst varint32_loop.simps) (auto simp: l p readbyte_at r'_def Let_def)
  show ?case
  proof (cases "n < 128")
    case True
    then have v: "r' = word_of_nat (unat r + n * 2 ^ p)" using r' by (intro word_of_unat) simp
    have "b AND 0x70 = 0" if "(word_of_nat p + 7 :: u8) = 35"
    proof -
      have "unat (word_of_nat p + 7 :: u8) = p + 7" using 1(3) by (simp add: unat_word_ariths unat_of_nat)
      then have "p = 28" using that by simp
      then have "n < 16" using 1(4) by simp
      moreover have "b = word_of_nat n" using l True by (simp add: leb_small)
      ultimately show ?thesis by (intro small_byte_and) (simp add: unat_of_nat)
    qed
    then show ?thesis using step True v by auto
  next
    case False
    then have nb: "p + 7 < 32" "unat r' < 2 ^ (p + 7)"
      using next_digit_bounds [OF _ 1(4,2)] r' by simp_all
    have sum: "unat r' + n div 128 * 2 ^ (p + 7) = unat r + n * 2 ^ p"
      unfolding r' using split_digit [of n p] by linarith
    have "unat r' + n div 128 * 2 ^ (p + 7) < 2 ^ 32" using 1(4) sum by simp
    from 1(1) [OF False nb(2,1) this] show ?thesis using step False by (simp add: sum)
  qed
qed

lemma varint32_eof_at: "pb_decode_varint32_eof (at (leb (unat v) @ r) (length (leb (unat v)) + k)) = ((Inr v, at r k), False)"
proof -
  obtain b bs where l: "leb (unat v) = b # bs" by (cases "leb (unat v)") auto
  note d = leb_digit [OF l]
  show ?thesis
  proof (cases "unat v < 128")
    case True
    then have "b = word_of_nat (unat v)" using l by (simp add: leb_small)
    then have "unat b = unat v" using True by (simp only: unat_byte_of_nat) simp
    then have "unat (ucast b :: u32) = unat v" by (simp only: unat_ucast_byte [where ?'a = 32, simplified])
    then have "ucast b = v" by (simp only: word_unat_eq_iff)
    then show ?thesis using d True by (simp add: pb_decode_varint32_eof_def l readbyte_at)
  next
    case False
    let ?r = "ucast (b AND 0x7F) :: u32"
    have r: "unat ?r = unat v mod 128" using d by (simp add: unat_ucast_byte)
    have sum: "unat ?r + unat v div 128 * 2 ^ 7 = unat v" unfolding r by (simp add: mod_div_mult_eq [symmetric])
    have "\<exists>bp c. varint32_loop ?r (word_of_nat 7) (at (leb (unat v div 128) @ r) (length (leb (unat v div 128)) + k)) =
        (Inr (word_of_nat (unat ?r + unat v div 128 * 2 ^ 7), bp, c), at r k) \<and> (bp = 35 \<longrightarrow> c AND 0x70 = 0)"
      using r sum unat_u32_less [of v] by (intro varint32_loop_leb) simp_all
    then show ?thesis using d False sum
      by (auto simp: pb_decode_varint32_eof_def l readbyte_at and_then_def simp del: of_nat_add)
  qed
qed

lemma takes_varint32: "takes pb_decode_varint32 (leb (unat v)) v"
  by (simp add: takes_def pb_decode_varint32_def varint32_eof_at)


section \<open>Values\<close>

lemma emits_svarint: "emits (\<lambda>s. pb_encode_svarint s v) (leb (unat (if v <s 0 then NOT (push_bit 1 v) else push_bit 1 v)))"
  unfolding pb_encode_svarint_def Let_def by (rule emits_varint)

lemma bit_msb_neg: "v <s 0 \<longleftrightarrow> bit v 63" for v :: u64
  by (simp add: word_sless_alt sint_uint signed_take_bit_eq_if_positive signed_take_bit_eq_if_negative bit_uint_iff)

lemma zigzag: "(let z = (if v <s 0 then NOT (push_bit 1 v) else push_bit 1 v)
    in if z AND 1 \<noteq> 0 then NOT (drop_bit 1 z) else drop_bit 1 z) = v" for v :: u64
proof -
  have e: "push_bit 1 v AND 1 = 0"
    by (rule bit_word_eqI) (simp only: bit_and_iff bit_push_bit_iff bit_1_iff, simp)
  have "bit (NOT (push_bit 1 v) AND 1) 0"
    by (simp only: bit_and_iff bit_not_iff bit_push_bit_iff bit_1_iff) simp
  then have o: "NOT (push_bit 1 v) AND 1 \<noteq> 0" by (metis bit_0_eq bot_bool_def bot_fun_def)
  show ?thesis
  proof (cases "v <s 0")
    case True
    have "NOT (drop_bit 1 (NOT (push_bit 1 v))) = v"
    proof (rule bit_word_eqI)
      fix n assume "n < LENGTH(64)"
      then have "n = 63 \<or> n < 63" by auto
      then show "bit (NOT (drop_bit 1 (NOT (push_bit 1 v)))) n \<longleftrightarrow> bit v n"
        using True unfolding bit_msb_neg
        by (simp only: bit_not_iff bit_drop_bit_eq o_apply bit_push_bit_iff) auto
    qed
    then show ?thesis using True o by (simp add: Let_def)
  next
    case False
    have "drop_bit 1 (push_bit 1 v) = v"
    proof (rule bit_word_eqI)
      fix n assume "n < LENGTH(64)"
      then have "n = 63 \<or> n < 63" by auto
      then show "bit (drop_bit 1 (push_bit 1 v)) n \<longleftrightarrow> bit v n"
        using False unfolding bit_msb_neg
        by (simp only: bit_drop_bit_eq o_apply bit_push_bit_iff) auto
    qed
    then show ?thesis using False e by (simp add: Let_def)
  qed
qed


definition zigzag_octets :: "u64 \<Rightarrow> bytes" where
  "zigzag_octets v = leb (unat (if v <s 0 then NOT (push_bit 1 v) else push_bit 1 v))"

lemma takes_svarint: "takes pb_decode_svarint (zigzag_octets v) v"
proof -
  let ?z = "if v <s 0 then NOT (push_bit 1 v) else push_bit 1 v"
  have "takes (\<lambda>s. and_then (pb_decode_varint s) (\<lambda>z s. (Inr (if z AND 1 \<noteq> 0 then NOT (drop_bit 1 z) else drop_bit 1 z), s)))
      (leb (unat ?z)) (if ?z AND 1 \<noteq> 0 then NOT (drop_bit 1 ?z) else drop_bit 1 ?z)"
    by (rule takes_map [OF takes_varint])
  moreover have "(if ?z AND 1 \<noteq> 0 then NOT (drop_bit 1 ?z) else drop_bit 1 ?z) = v" using zigzag [of v] by (simp only: Let_def)
  ultimately show ?thesis by (simp only: zigzag_octets_def pb_decode_svarint_def [abs_def])
qed

lemma byte_of_word:
  assumes "8 \<le> LENGTH('a::len)"
  shows "(ucast (v AND 0xFF :: 'a word) :: u8) = word_of_nat (unat v)"
proof -
  have "(0xFF :: 'a word) = mask 8" by (simp add: mask_eq_decr_exp)
  then have "unat (v AND 0xFF) = unat v mod 256" using unat_and_mask [of v 8] by simp
  then have "unat (ucast (v AND 0xFF) :: u8) = unat v mod 256"
    by (simp only: unsigned_ucast_eq) (simp add: take_bit_nat_eq_self)
  then show ?thesis by (simp only: word_unat_eq_iff unat_byte_of_nat)
qed

lemma fixed32_bytes: "pb_encode_fixed32 s v = pb_write s (le_bytes 4 (unat v))"
  unfolding pb_encode_fixed32_def
  by (simp add: byte_of_word le_bytes_numeral unat_drop div_mult2_eq [symmetric])

lemma fixed64_bytes: "pb_encode_fixed64 s v = pb_write s (le_bytes 8 (unat v))"
  unfolding pb_encode_fixed64_def
  by (simp add: byte_of_word le_bytes_numeral unat_drop div_mult2_eq [symmetric])

lemma or_next_byte:
  assumes "unat (y :: 'a::len word) < 2 ^ n" and "n + 8 \<le> LENGTH('a)"
  shows "unat (y OR push_bit n (ucast (b :: u8))) = unat y + unat b * 2 ^ n"
    and "unat (y OR push_bit n (ucast (b :: u8))) < 2 ^ (n + 8)"
proof -
  have u: "unat (ucast b :: 'a word) = unat b" using assms(2) by (intro unat_ucast_byte) simp
  have "(2::nat) ^ 8 \<le> 2 ^ (LENGTH('a) - n)" using assms(2) by (intro power_increasing) auto
  then have "unat b < 2 ^ (LENGTH('a) - n)" using unat_byte_less [of b] by (simp del: unat_byte_less)
  then show e: "unat (y OR push_bit n (ucast b)) = unat y + unat b * 2 ^ n"
    using unat_push_or [OF assms(1), of "ucast b"] u assms(2) by (simp add: or.commute)
  have "unat b * 2 ^ n \<le> 255 * 2 ^ n" using unat_byte_less [of b] by (intro mult_le_mono1) (simp del: unat_byte_less)
  moreover have "(2::nat) ^ (n + 8) = 2 ^ n + 255 * 2 ^ n" by (simp add: power_add)
  ultimately show "unat (y OR push_bit n (ucast b)) < 2 ^ (n + 8)" using e assms(1) by linarith
qed

lemma list_of_4: "length bs = 4 \<Longrightarrow> \<exists>a b c d. bs = [a, b, c, d]"
  by (auto simp: numeral_eq_Suc length_Suc_conv)

lemma list_of_8: "length bs = 8 \<Longrightarrow> \<exists>a b c d e f g h. bs = [a, b, c, d, e, f, g, h]"
  by (auto simp: numeral_eq_Suc length_Suc_conv)

lemma join_4:
  fixes w :: "'a::len word"
  assumes "32 \<le> LENGTH('a)"
    and w: "w = ((ucast a OR push_bit 8 (ucast b)) OR push_bit 16 (ucast c)) OR push_bit 24 (ucast d)"
  shows "unat w = le_val [a, b, c, d]" and "unat w < 2 ^ 32"
proof -
  let ?a = "ucast a :: 'a word"
  have a: "unat ?a = unat a" "unat ?a < 2 ^ 8" using assms by (simp_all add: unat_ucast_byte)
  have 1: "unat (?a OR push_bit 8 (ucast b)) = unat a + unat b * 2 ^ 8" "unat (?a OR push_bit 8 (ucast b)) < 2 ^ (8 + 8)"
    using or_next_byte [OF a(2), of b] a(1) assms by auto
  have 2: "unat ((?a OR push_bit 8 (ucast b)) OR push_bit 16 (ucast c)) = unat a + unat b * 2 ^ 8 + unat c * 2 ^ 16"
    "unat ((?a OR push_bit 8 (ucast b)) OR push_bit 16 (ucast c)) < 2 ^ (16 + 8)"
    using or_next_byte [of "?a OR push_bit 8 (ucast b)" 16 c] 1 assms by auto
  have 3: "unat w = unat a + unat b * 2 ^ 8 + unat c * 2 ^ 16 + unat d * 2 ^ 24" "unat w < 2 ^ (24 + 8)"
    unfolding w using or_next_byte [of "(?a OR push_bit 8 (ucast b)) OR push_bit 16 (ucast c)" 24 d] 2 assms(1) by auto
  show "unat w = le_val [a, b, c, d]" "unat w < 2 ^ 32" using 3 by simp_all
qed

lemma takes_fixed32:
  assumes "length bs = 4"
  shows "takes pb_decode_fixed32 bs (word_of_nat (le_val bs))"
proof -
  obtain a b c d where bs: "bs = [a, b, c, d]" using list_of_4 [OF assms] by auto
  have v: "((ucast a OR push_bit 8 (ucast b)) OR push_bit 16 (ucast c)) OR push_bit 24 (ucast d) = (word_of_nat (le_val bs) :: u32)"
    unfolding bs by (rule word_of_unat) (rule join_4(1) [OF _ refl], simp)
  have "takes (\<lambda>s. pb_read s 4) bs bs" using takes_read [of bs] assms by simp
  from takes_map [OF this, of "\<lambda>b. ucast (b ! 0) OR push_bit 8 (ucast (b ! 1)) OR push_bit 16 (ucast (b ! 2)) OR
      push_bit 24 (ucast (b ! 3)) :: u32"]
  show ?thesis unfolding pb_decode_fixed32_def [abs_def] v [symmetric] by (simp add: bs or.assoc)
qed

lemma takes_fixed64:
  assumes "length bs = 8"
  shows "takes pb_decode_fixed64 bs (word_of_nat (le_val bs))"
proof -
  obtain a b c d e f g h where bs: "bs = [a, b, c, d, e, f, g, h]" using list_of_8 [OF assms] by auto
  let ?l = "((ucast a OR push_bit 8 (ucast b)) OR push_bit 16 (ucast c)) OR push_bit 24 (ucast d) :: u64"
  have l: "unat ?l = le_val [a, b, c, d]" "unat ?l < 2 ^ 32" by (rule join_4 [OF _ refl], simp)+
  have 5: "unat (?l OR push_bit 32 (ucast e)) = unat ?l + unat e * 2 ^ 32" "unat (?l OR push_bit 32 (ucast e)) < 2 ^ (32 + 8)"
    using or_next_byte [OF l(2), of e] by auto
  have 6: "unat ((?l OR push_bit 32 (ucast e)) OR push_bit 40 (ucast f)) = unat ?l + unat e * 2 ^ 32 + unat f * 2 ^ 40"
    "unat ((?l OR push_bit 32 (ucast e)) OR push_bit 40 (ucast f)) < 2 ^ (40 + 8)"
    using or_next_byte [of "?l OR push_bit 32 (ucast e)" 40 f] 5 by auto
  have 7: "unat (((?l OR push_bit 32 (ucast e)) OR push_bit 40 (ucast f)) OR push_bit 48 (ucast g)) =
      unat ?l + unat e * 2 ^ 32 + unat f * 2 ^ 40 + unat g * 2 ^ 48"
    "unat (((?l OR push_bit 32 (ucast e)) OR push_bit 40 (ucast f)) OR push_bit 48 (ucast g)) < 2 ^ (48 + 8)"
    using or_next_byte [of "(?l OR push_bit 32 (ucast e)) OR push_bit 40 (ucast f)" 48 g] 6 by auto
  have "unat ((((?l OR push_bit 32 (ucast e)) OR push_bit 40 (ucast f)) OR push_bit 48 (ucast g)) OR push_bit 56 (ucast h)) =
      le_val bs"
    using or_next_byte [of "((?l OR push_bit 32 (ucast e)) OR push_bit 40 (ucast f)) OR push_bit 48 (ucast g)" 56 h] 7 l(1)
    by (simp add: bs)
  then have v: "(((?l OR push_bit 32 (ucast e)) OR push_bit 40 (ucast f)) OR push_bit 48 (ucast g)) OR push_bit 56 (ucast h) =
      word_of_nat (le_val bs)" by (rule word_of_unat)
  have "takes (\<lambda>s. pb_read s 8) bs bs" using takes_read [of bs] assms by simp
  from takes_map [OF this, of "\<lambda>b. ucast (b ! 0) OR push_bit 8 (ucast (b ! 1)) OR push_bit 16 (ucast (b ! 2)) OR
      push_bit 24 (ucast (b ! 3)) OR push_bit 32 (ucast (b ! 4)) OR push_bit 40 (ucast (b ! 5)) OR
      push_bit 48 (ucast (b ! 6)) OR push_bit 56 (ucast (b ! 7)) :: u64"]
  show ?thesis unfolding pb_decode_fixed64_def [abs_def] v [symmetric] by (simp add: bs or.assoc)
qed

end
