(* ===== verification/PbArray.thy ===== *)
theory PbArray
  imports PbSpec
begin

text \<open>
  Arrays and submessages of nanopb: \<open>encode_array\<close>, the repeated cases of
  \<open>decode_static_field\<close>, \<open>pb_encode_submessage\<close>.  The element coder \<open>func\<close> is an argument, as
  the function pointer is in the code; so is \<open>pb_encode\<close> of the submessage.  An array's memory is
  the list of its entries.
\<close>

section \<open>Encoding\<close>

definition packable :: "pb_field \<Rightarrow> bool" where
  "packable field \<longleftrightarrow> ltype field \<in> {PB_LTYPE_BOOL, PB_LTYPE_VARINT, PB_LTYPE_UVARINT, PB_LTYPE_SVARINT,
     PB_LTYPE_FIXED32, PB_LTYPE_FIXED64}"

type_synonym pb_encoder = "pb_ostream \<Rightarrow> pb_field \<Rightarrow> bytes option \<Rightarrow> pb_status"

text \<open>The loops over the entries, without and with a tag before each entry.\<close>

fun encode_items :: "pb_encoder \<Rightarrow> pb_field \<Rightarrow> bytes option list \<Rightarrow> pb_ostream \<Rightarrow> pb_status" where
  "encode_items func field [] s = (Inr (), s)"
| "encode_items func field (p # ps) s =
    (case func s field p of
       (Inl e, s) \<Rightarrow> (Inl e, s)
     | (Inr _, s) \<Rightarrow> encode_items func field ps s)"

fun encode_tagged_items :: "pb_encoder \<Rightarrow> pb_field \<Rightarrow> bytes option list \<Rightarrow> pb_ostream \<Rightarrow> pb_status" where
  "encode_tagged_items func field [] s = (Inr (), s)"
| "encode_tagged_items func field (p # ps) s =
    (case pb_encode_tag_for_field s field of
       (Inl e, s) \<Rightarrow> (Inl e, s)
     | (Inr _, s) \<Rightarrow>
         (case func s field p of
            (Inl e, s) \<Rightarrow> (Inl e, s)
          | (Inr _, s) \<Rightarrow> encode_tagged_items func field ps s))"

text \<open>\<open>pb_write(stream, NULL, size)\<close>, called on sizing streams only.\<close>

definition pb_write_null :: "pb_ostream \<Rightarrow> nat \<Rightarrow> pb_status" where
  "pb_write_null s n = (Inr (), s\<lparr> bytes_written := szadd (bytes_written s) n \<rparr>)"

text \<open>The size of a packed array; \<open>None\<close> when sizing an entry fails.\<close>

definition packed_size :: "pb_encoder \<Rightarrow> pb_field \<Rightarrow> bytes option list \<Rightarrow> nat option" where
  "packed_size func field ps =
    (if ltype field = PB_LTYPE_FIXED32 then Some (szmul 4 (length ps))
     else if ltype field = PB_LTYPE_FIXED64 then Some (szmul 8 (length ps))
     else case encode_items func field ps PB_OSTREAM_SIZING of
       (Inl e, _) \<Rightarrow> None
     | (Inr _, sizestream) \<Rightarrow> Some (bytes_written sizestream))"

text \<open>The entries of \<open>pData\<close> are \<open>count\<close> many; a pointer entry of a string or bytes field that is
  null is \<open>None\<close>.\<close>

definition encode_array :: "pb_encoder \<Rightarrow> pb_field \<Rightarrow> bytes option list \<Rightarrow> pb_ostream \<Rightarrow> pb_status" where
  "encode_array func field pData s =
    (if pData = [] then (Inr (), s)
     else if atype field \<noteq> PB_ATYPE_POINTER \<and> array_size field < length pData then
       (Inl ''array max size exceeded'', s)
     else if packable field then
       (case pb_encode_tag s PB_WT_STRING (field_tag field) of
          (Inl e, s) \<Rightarrow> (Inl e, s)
        | (Inr _, s) \<Rightarrow>
            (case packed_size func field pData of
               None \<Rightarrow> (Inl '''', s)
             | Some sz \<Rightarrow>
                 (case pb_encode_varint s (word_of_nat sz) of
                    (Inl e, s) \<Rightarrow> (Inl e, s)
                  | (Inr _, s) \<Rightarrow>
                      if \<not> has_callback s then pb_write_null s sz else encode_items func field pData s)))
     else encode_tagged_items func field pData s)"

definition pb_encode_submessage :: "(pb_ostream \<Rightarrow> pb_status) \<Rightarrow> pb_ostream \<Rightarrow> pb_status" where
  "pb_encode_submessage pb_encode s =
    (case pb_encode PB_OSTREAM_SIZING of
       (Inl e, _) \<Rightarrow> (Inl e, s)
     | (Inr _, sub) \<Rightarrow> let sz = bytes_written sub in
         (case pb_encode_varint s (word_of_nat sz) of
            (Inl e, s) \<Rightarrow> (Inl e, s)
          | (Inr _, s) \<Rightarrow>
              if \<not> has_callback s then pb_write_null s sz
              else if max_size s < szadd (bytes_written s) sz then (Inl ''stream full'', s)
              else
                (case pb_encode \<lparr> has_callback = has_callback s, written = written s, max_size = sz, bytes_written = 0 \<rparr> of
                   (status, sub) \<Rightarrow>
                     let s = s\<lparr> bytes_written := szadd (bytes_written s) (bytes_written sub), written := written sub \<rparr> in
                     if bytes_written sub \<noteq> sz then
                       (Inl (case status of Inl e \<Rightarrow> e | Inr _ \<Rightarrow> ''submsg size changed''), s)
                     else (status, s))))"

section \<open>Decoding\<close>

text \<open>The loop over a packed array: the entries stored so far are counted in \<open>*size\<close>.  A failing
  entry ends it, as a full array does; what is left in the substream decides.\<close>

function packed_loop :: "(pb_istream \<Rightarrow> pb_field \<Rightarrow> bytes pb_result) \<Rightarrow> pb_field \<Rightarrow> bytes list \<Rightarrow> pb_istream \<Rightarrow>
    (string option \<times> bytes list) \<times> pb_istream" where
  "packed_loop func field stored sub =
    (if bytes_left sub = 0 \<or> array_size field \<le> length stored then ((None, stored), sub)
     else case func sub field of
       (Inl e, sub) \<Rightarrow> ((Some e, stored), sub)
     | (Inr x, sub) \<Rightarrow> packed_loop func field (stored @ [x]) sub)"
  by pat_completeness auto
termination
  by (relation "measure (\<lambda>(func, field, stored, sub). array_size field - length stored)") auto

declare packed_loop.simps [simp del]

definition decode_packed :: "(pb_istream \<Rightarrow> pb_field \<Rightarrow> bytes pb_result) \<Rightarrow> pb_field \<Rightarrow> bytes list \<Rightarrow> pb_istream \<Rightarrow>
    (string + unit) \<times> pb_istream \<times> bytes list" where
  "decode_packed func field stored s =
    (case pb_make_string_substream s of
       (Inl e, s) \<Rightarrow> (Inl e, s, stored)
     | (Inr sub, s) \<Rightarrow>
         (case packed_loop func field stored sub of
            ((status, stored), sub) \<Rightarrow>
              if bytes_left sub \<noteq> 0 then (Inl ''array overflow'', s, stored)
              else (case pb_close_string_substream s sub of
                 (Inl e, s) \<Rightarrow> (Inl e, s, stored)
               | (Inr _, s) \<Rightarrow> (case status of Some e \<Rightarrow> (Inl e, s, stored) | None \<Rightarrow> (Inr (), s, stored)))))"

text \<open>One entry of an array that is not packed, stored at index \<open>*size\<close>; the new \<open>*size\<close> comes
  last, and is counted up even when the array is full.\<close>

definition decode_repeated :: "(pb_istream \<Rightarrow> pb_field \<Rightarrow> bytes pb_result) \<Rightarrow> pb_field \<Rightarrow> nat \<Rightarrow> pb_istream \<Rightarrow>
    bytes pb_result \<times> nat" where
  "decode_repeated func field sz s =
    (if array_size field \<le> sz then (Inl ''array overflow'', s) else func s field, (sz + 1) mod 2 ^ 32)"

section \<open>Arrays and submessages as written and read\<close>

lemma emits_items:
  assumes "\<forall>p\<in>set ps. emits (\<lambda>s. func s field p) (enc p)"
  shows "emits (encode_items func field ps) (concat (map enc ps))"
  using assms
proof (induction ps)
  case Nil
  have "encode_items func field [] = (\<lambda>s. (Inr (), s))" by (rule ext) simp
  then show ?case using emits_return by simp
next
  case (Cons p ps)
  have "encode_items func field (p # ps) =
      (\<lambda>s. case func s field p of (Inl e, s) \<Rightarrow> (Inl e, s) | (Inr _, s) \<Rightarrow> encode_items func field ps s)"
    by (rule ext) simp
  then show ?case using Cons by (simp add: emits_then)
qed

lemma emits_tagged_items:
  assumes "\<forall>p\<in>set ps. emits (\<lambda>s. func s field p) (enc p)" and "emits (\<lambda>s. pb_encode_tag_for_field s field) tag"
  shows "emits (encode_tagged_items func field ps) (concat (map (\<lambda>p. tag @ enc p) ps))"
  using assms(1)
proof (induction ps)
  case Nil
  have "encode_tagged_items func field [] = (\<lambda>s. (Inr (), s))" by (rule ext) simp
  then show ?case using emits_return by simp
next
  case (Cons p ps)
  have "encode_tagged_items func field (p # ps) =
      (\<lambda>s. case pb_encode_tag_for_field s field of (Inl e, s) \<Rightarrow> (Inl e, s) | (Inr _, s) \<Rightarrow>
        (case func s field p of (Inl e, s) \<Rightarrow> (Inl e, s) | (Inr _, s) \<Rightarrow> encode_tagged_items func field ps s))"
    by (rule ext) simp
  then show ?case using Cons assms(2) by (simp add: emits_then)
qed

lemma emits_sizing:
  "emits f bs \<Longrightarrow> length bs < SIZE_LIMIT \<Longrightarrow> f PB_OSTREAM_SIZING = (Inr (), emit PB_OSTREAM_SIZING bs)"
  using emitsD(2) [of f bs PB_OSTREAM_SIZING] by (simp add: PB_OSTREAM_SIZING_def)

lemma bytes_written_sizing [simp]: "bytes_written PB_OSTREAM_SIZING = 0"
  by (simp add: PB_OSTREAM_SIZING_def)

lemma length_concat_const: "\<forall>p\<in>set ps. length (enc p) = n \<Longrightarrow> length (concat (map enc ps)) = n * length ps"
  by (induction ps) auto

lemma packed_size_eq:
  assumes "\<forall>p\<in>set ps. emits (\<lambda>s. func s field p) (enc p)" and "length (concat (map enc ps)) < SIZE_LIMIT"
    and "ltype field = PB_LTYPE_FIXED32 \<Longrightarrow> \<forall>p\<in>set ps. length (enc p) = 4"
    and "ltype field = PB_LTYPE_FIXED64 \<Longrightarrow> \<forall>p\<in>set ps. length (enc p) = 8"
  shows "packed_size func field ps = Some (length (concat (map enc ps)))"
proof -
  have "encode_items func field ps PB_OSTREAM_SIZING = (Inr (), emit PB_OSTREAM_SIZING (concat (map enc ps)))"
    using assms(1,2) by (intro emits_sizing emits_items)
  moreover have "ltype field = PB_LTYPE_FIXED32 \<Longrightarrow> length (concat (map enc ps)) = 4 * length ps"
    using assms(3) by (intro length_concat_const)
  moreover have "ltype field = PB_LTYPE_FIXED64 \<Longrightarrow> length (concat (map enc ps)) = 8 * length ps"
    using assms(4) by (intro length_concat_const)
  ultimately show ?thesis using assms(2) by (auto simp: packed_size_def szmul_exact simp del: length_concat)
qed

lemma emits_or_null:
  assumes "emits f bs"
  shows "emits (\<lambda>s. if \<not> has_callback s then pb_write_null s (length bs) else f s) bs"
  using assms by (auto simp: emits_def pb_write_null_def emit_def szadd_exact)

lemma emits_tag: "emits (\<lambda>s. pb_encode_tag s wt n) (leb (unat (push_bit 3 (ucast n) OR word_of_nat (wire_type_number wt) :: u64)))"
  unfolding pb_encode_tag_def by (rule emits_varint)

lemma emits_array:
  assumes items: "\<forall>p\<in>set ps. emits (\<lambda>s. func s field p) (enc p)" and lim: "length (concat (map enc ps)) < SIZE_LIMIT"
    and fixed: "ltype field = PB_LTYPE_FIXED32 \<Longrightarrow> \<forall>p\<in>set ps. length (enc p) = 4"
      "ltype field = PB_LTYPE_FIXED64 \<Longrightarrow> \<forall>p\<in>set ps. length (enc p) = 8"
    and arr: "ps \<noteq> []" "atype field = PB_ATYPE_POINTER \<or> length ps \<le> array_size field" "packable field"
  shows "emits (encode_array func field ps)
    (leb (unat (push_bit 3 (ucast (field_tag field)) OR word_of_nat 2 :: u64)) @ leb (length (concat (map enc ps))) @ concat (map enc ps))"
proof -
  let ?n = "length (concat (map enc ps))"
  have "?n < 2 ^ 64" using lim by (simp add: SIZE_LIMIT_def del: length_concat)
  then have n: "unat (word_of_nat ?n :: u64) = ?n" by (simp add: unat_of_nat del: length_concat)
  have it: "emits (encode_items func field ps) (concat (map enc ps))" using items by (rule emits_items)
  have size: "packed_size func field ps = Some ?n" using items lim fixed by (rule packed_size_eq)
  have eq: "encode_array func field ps = (\<lambda>s. case pb_encode_tag s PB_WT_STRING (field_tag field) of
      (Inl e, s) \<Rightarrow> (Inl e, s)
    | (Inr _, s) \<Rightarrow> (case pb_encode_varint s (word_of_nat ?n) of
        (Inl e, s) \<Rightarrow> (Inl e, s)
      | (Inr _, s) \<Rightarrow> if \<not> has_callback s then pb_write_null s ?n else encode_items func field ps s))"
    unfolding encode_array_def size using arr by (intro ext) (auto simp only: option.case if_False if_True not_less, auto)
  show ?thesis unfolding eq
    using emits_then [OF emits_tag [of PB_WT_STRING "field_tag field"]
        emits_then [OF emits_varint [of "word_of_nat ?n"] emits_or_null [OF it]]]
    by (simp only: n wire_type_number.simps)
qed

lemma emits_submessage:
  assumes f: "emits f bs" and lim: "length bs < SIZE_LIMIT"
  shows "emits (pb_encode_submessage f) (leb (length bs) @ bs)"
proof -
  let ?n = "length bs"
  let ?g = "\<lambda>s. if \<not> has_callback s then pb_write_null s ?n
    else if max_size s < szadd (bytes_written s) ?n then (Inl ''stream full'', s)
    else (case f \<lparr> has_callback = has_callback s, written = written s, max_size = ?n, bytes_written = 0 \<rparr> of
       (status, sub) \<Rightarrow>
         let s = s\<lparr> bytes_written := szadd (bytes_written s) (bytes_written sub), written := written sub \<rparr> in
         if bytes_written sub \<noteq> ?n then (Inl (case status of Inl e \<Rightarrow> e | Inr _ \<Rightarrow> ''submsg size changed''), s)
         else (status, s))"
  have "?n < 2 ^ 64" using lim by (simp add: SIZE_LIMIT_def)
  then have n: "unat (word_of_nat ?n :: u64) = ?n" by (simp add: unat_of_nat)
  have eq: "pb_encode_submessage f = (\<lambda>s. case pb_encode_varint s (word_of_nat ?n) of (Inl e, s) \<Rightarrow> (Inl e, s) | (Inr _, s) \<Rightarrow> ?g s)"
    by (simp only: pb_encode_submessage_def [abs_def] emits_sizing [OF f lim] prod.case sum.case Let_def
      emit_simps bytes_written_sizing add_0)
  have sub: "f \<lparr> has_callback = True, written = w, max_size = ?n, bytes_written = 0 \<rparr> =
      (Inr (), \<lparr> has_callback = True, written = w @ bs, max_size = ?n, bytes_written = ?n \<rparr>)" for w
    using emitsD(2) [OF f, of "\<lparr> has_callback = True, written = w, max_size = ?n, bytes_written = 0 \<rparr>"] lim
    by (simp add: emit_def)
  have "emits ?g bs"
    by (auto simp: emits_def pb_write_null_def emit_def szadd_exact sub Let_def)
  then show ?thesis unfolding eq using emits_then [OF emits_varint [of "word_of_nat ?n"], of ?g bs] by (simp only: n)
qed

lemma packed_loop_takes:
  assumes "\<forall>p\<in>set ps. takes (\<lambda>s. func s field) (enc p) (val p) \<and> enc p \<noteq> []"
    and "length stored + length ps \<le> array_size field"
  shows "packed_loop func field stored (at (concat (map enc ps) @ r) (length (concat (map enc ps)))) =
    ((None, stored @ map val ps), at r 0)"
  using assms
proof (induction ps arbitrary: stored)
  case Nil
  then show ?case by (simp add: packed_loop.simps at_def)
next
  case (Cons p ps)
  have ne: "enc p \<noteq> []" using Cons.prems by simp
  have f: "func (at (enc p @ concat (map enc ps) @ r) (length (enc p) + length (concat (map enc ps)))) field =
      (Inr (val p), at (concat (map enc ps) @ r) (length (concat (map enc ps))))"
    using Cons.prems(1) by (intro takesD) simp
  have "packed_loop func field (stored @ [val p]) (at (concat (map enc ps) @ r) (length (concat (map enc ps)))) =
      ((None, (stored @ [val p]) @ map val ps), at r 0)"
    using Cons.prems by (intro Cons.IH) auto
  then show ?case using f ne Cons.prems(2)
    by (subst packed_loop.simps) (simp add: at_def del: length_concat)
qed

lemma decode_packed_takes:
  assumes "\<forall>p\<in>set ps. takes (\<lambda>s. func s field) (enc p) (val p) \<and> enc p \<noteq> []"
    and "length ps \<le> array_size field" and "length (concat (map enc ps)) < 2 ^ 32"
  defines "bs \<equiv> concat (map enc ps)"
  shows "decode_packed func field [] (at (leb (length bs) @ bs @ r) (length (leb (length bs)) + length bs + k)) =
    (Inr (), at r k, map val ps)"
proof -
  let ?n = "length bs"
  have n: "unat (word_of_nat ?n :: u32) = ?n" using assms(3) unfolding bs_def by (simp add: unat_of_nat del: length_concat)
  have v: "pb_decode_varint32 (at (leb ?n @ bs @ r) (length (leb ?n) + (?n + k))) = (Inr (word_of_nat ?n), at (bs @ r) (?n + k))"
    using takesD [OF takes_varint32 [of "word_of_nat ?n"], of "bs @ r" "?n + k"] by (simp only: n)
  have l: "packed_loop func field [] (at (bs @ r) ?n) = ((None, map val ps), at r 0)"
    using packed_loop_takes [where ps = ps and enc = enc and val = val and func = func and field = field and stored = "[]" and r = r]
      assms(1,2) by (simp add: bs_def)
  have m: "pb_make_string_substream (at (leb ?n @ bs @ r) (length (leb ?n) + (?n + k))) = (Inr (at (bs @ r) ?n), at (bs @ r) k)"
    by (simp add: pb_make_string_substream_def v and_then_def n) (simp add: at_def)
  show ?thesis
    by (simp add: decode_packed_def m l add.assoc pb_close_string_substream_def) (simp add: at_def)
qed

end
