(* ===== verification/PbValue.thy ===== *)
theory PbValue
  imports PbArray
begin

text \<open>
  The tables of value coders, and what a value written by its coder is read back as.
\<close>

section \<open>The tables\<close>

text \<open>The memory behind a pointer that is not null.\<close>

definition pointed :: "bytes option \<Rightarrow> bytes" where
  "pointed p = (case p of Some mem \<Rightarrow> mem | None \<Rightarrow> [])"

primrec PB_ENCODERS :: "pb_encoder \<Rightarrow> pb_ltype \<Rightarrow> pb_encoder option" where
  "PB_ENCODERS submessage PB_LTYPE_BOOL = Some (\<lambda>s field p. pb_enc_bool s field (pointed p))"
| "PB_ENCODERS submessage PB_LTYPE_VARINT = Some (\<lambda>s field p. pb_enc_varint s field (pointed p))"
| "PB_ENCODERS submessage PB_LTYPE_UVARINT = Some (\<lambda>s field p. pb_enc_uvarint s field (pointed p))"
| "PB_ENCODERS submessage PB_LTYPE_SVARINT = Some (\<lambda>s field p. pb_enc_svarint s field (pointed p))"
| "PB_ENCODERS submessage PB_LTYPE_FIXED32 = Some (\<lambda>s field p. pb_enc_fixed32 s field (pointed p))"
| "PB_ENCODERS submessage PB_LTYPE_FIXED64 = Some (\<lambda>s field p. pb_enc_fixed64 s field (pointed p))"
| "PB_ENCODERS submessage PB_LTYPE_BYTES = Some pb_enc_bytes"
| "PB_ENCODERS submessage PB_LTYPE_STRING = Some pb_enc_string"
| "PB_ENCODERS submessage PB_LTYPE_SUBMESSAGE = Some submessage"
| "PB_ENCODERS submessage PB_LTYPE_EXTENSION = None"
| "PB_ENCODERS submessage PB_LTYPE_FIXED_LENGTH_BYTES = Some (\<lambda>s field p. pb_enc_fixed_length_bytes s field (pointed p))"

type_synonym pb_decoder = "pb_istream \<Rightarrow> pb_field \<Rightarrow> bytes pb_result"

primrec PB_DECODERS :: "(nat \<Rightarrow> bool) \<Rightarrow> pb_decoder \<Rightarrow> pb_ltype \<Rightarrow> pb_decoder option" where
  "PB_DECODERS grants submessage PB_LTYPE_BOOL = Some pb_dec_bool"
| "PB_DECODERS grants submessage PB_LTYPE_VARINT = Some pb_dec_varint"
| "PB_DECODERS grants submessage PB_LTYPE_UVARINT = Some pb_dec_uvarint"
| "PB_DECODERS grants submessage PB_LTYPE_SVARINT = Some pb_dec_svarint"
| "PB_DECODERS grants submessage PB_LTYPE_FIXED32 = Some pb_dec_fixed32"
| "PB_DECODERS grants submessage PB_LTYPE_FIXED64 = Some pb_dec_fixed64"
| "PB_DECODERS grants submessage PB_LTYPE_BYTES = Some (pb_dec_bytes grants)"
| "PB_DECODERS grants submessage PB_LTYPE_STRING = Some (pb_dec_string grants)"
| "PB_DECODERS grants submessage PB_LTYPE_SUBMESSAGE = Some submessage"
| "PB_DECODERS grants submessage PB_LTYPE_EXTENSION = None"
| "PB_DECODERS grants submessage PB_LTYPE_FIXED_LENGTH_BYTES = Some pb_dec_fixed_length_bytes"

section \<open>Integers at the width of the field\<close>

lemma scast_scast_up:
  "LENGTH('a) \<le> LENGTH('b) \<Longrightarrow> scast (scast (x :: 'a::len word) :: 'b::len word) = (scast x :: 'c::len word)"
  by (rule scast_up_scast) (simp add: is_up)

lemma ucast_scast:
  assumes "LENGTH('a) \<le> LENGTH('b)" and "LENGTH('c) \<le> LENGTH('b)"
  shows "ucast (scast (x :: 'a::len word) :: 'b::len word) = (scast x :: 'c::len word)"
proof -
  have "ucast (scast x :: 'b word) = (scast (scast x :: 'b word) :: 'c word)"
    using down_cast_same [where ?'a = 'b and ?'b = 'c] assms(2) by (simp add: is_down)
  then show ?thesis using assms(1) by (simp add: scast_scast_up)
qed

lemma ucast_scast_up: "LENGTH('a) \<le> LENGTH('b) \<Longrightarrow> ucast (scast (x :: 'a::len word) :: 'b::len word) = x"
  by (simp add: ucast_scast)

lemma unat_scast_mod:
  "LENGTH('a) \<le> LENGTH('b) \<Longrightarrow> unat (scast (x :: 'a::len word) :: 'b::len word) mod 2 ^ LENGTH('a) = unat x"
proof -
  assume "LENGTH('a) \<le> LENGTH('b)"
  then have "unat (ucast (scast x :: 'b word) :: 'a word) = unat x" by (simp add: ucast_scast_up)
  then show ?thesis by (simp add: unsigned_ucast_eq take_bit_eq_mod)
qed

text \<open>A field's memory holds a value of its type.\<close>

definition value_ok :: "pb_field \<Rightarrow> bytes \<Rightarrow> bool" where
  "value_ok field mem \<longleftrightarrow>
    (case ltype field of
       PB_LTYPE_BOOL \<Rightarrow> mem = [0] \<or> mem = [1]
     | PB_LTYPE_FIXED32 \<Rightarrow> length mem = 4
     | PB_LTYPE_FIXED64 \<Rightarrow> length mem = 8
     | PB_LTYPE_BYTES \<Rightarrow> (\<exists>bs. mem = le_bytes 4 (length bs) @ bs \<and> length bs + 4 \<le> data_size field)
     | PB_LTYPE_STRING \<Rightarrow> (\<exists>bs. mem = bs @ [0] \<and> 0 \<notin> set bs \<and> length bs + 1 \<le> data_size field)
     | PB_LTYPE_FIXED_LENGTH_BYTES \<Rightarrow> length mem = data_size field \<and> 0 < data_size field
     | PB_LTYPE_SUBMESSAGE \<Rightarrow> False
     | PB_LTYPE_EXTENSION \<Rightarrow> False
     | _ \<Rightarrow> length mem = data_size field \<and> data_size field \<in> {1, 2, 4, 8})"

lemma le_bytes_mem:
  assumes "length mem = sz" and "n mod 256 ^ sz = le_val mem"
  shows "le_bytes sz n = mem"
proof -
  have "le_val (le_bytes sz n) = le_val mem" using assms(2) by (simp add: le_val_le_bytes)
  then show ?thesis using le_bytes_le_val [of "le_bytes sz n"] le_bytes_le_val [of mem] assms(1) by simp
qed

lemma load_store_signed:
  assumes "sz \<in> {1, 2, 4, 8}" and "length mem = sz"
  obtains v where "load_signed sz mem = Some v" and "\<And>s. store_signed sz v s = (Inr mem, s)"
    and "sz \<noteq> 8 \<Longrightarrow> scast (ucast v :: 32 word) = v"
proof -
  have lt: "le_val mem < 256 ^ sz" using le_val_less [of mem] assms(2) by simp
  consider "sz = 1" | "sz = 2" | "sz = 4" | "sz = 8" using assms(1) by auto
  then show ?thesis
  proof cases
    case 1
    let ?x = "word_of_nat (le_val mem) :: 8 word"
    have "unat (scast ?x :: u64) mod 256 ^ sz = le_val mem"
      using unat_scast_mod [of ?x, where ?'b = 64] lt 1 by (simp add: unat_of_nat)
    then show ?thesis using 1 assms(2) le_bytes_mem [of mem 1]
      by (intro that [of "scast ?x"]) (simp_all add: load_signed_def store_signed_def ucast_scast scast_scast_up)
  next
    case 2
    let ?x = "word_of_nat (le_val mem) :: 16 word"
    have "unat (scast ?x :: u64) mod 256 ^ sz = le_val mem"
      using unat_scast_mod [of ?x, where ?'b = 64] lt 2 by (simp add: unat_of_nat)
    then show ?thesis using 2 assms(2) le_bytes_mem [of mem 2]
      by (intro that [of "scast ?x"]) (simp_all add: load_signed_def store_signed_def ucast_scast scast_scast_up)
  next
    case 3
    let ?x = "word_of_nat (le_val mem) :: 32 word"
    have "unat (scast ?x :: u64) mod 256 ^ sz = le_val mem"
      using unat_scast_mod [of ?x, where ?'b = 64] lt 3 by (simp add: unat_of_nat)
    then show ?thesis using 3 assms(2) le_bytes_mem [of mem 4]
      by (intro that [of "scast ?x"]) (simp_all add: load_signed_def store_signed_def ucast_scast scast_scast_up)
  next
    case 4
    let ?x = "word_of_nat (le_val mem) :: u64"
    have "unat ?x = le_val mem" using lt 4 by (simp add: unat_of_nat)
    then show ?thesis using 4 assms(2) le_bytes_mem [of mem 8 "le_val mem"] lt
      by (intro that [of ?x]) (simp_all add: load_signed_def store_signed_def)
  qed
qed

section \<open>Round trips\<close>

lemma takes_value:
  assumes "takes f bs x" and "\<And>s. g x s = (Inr y, s)"
  shows "takes (\<lambda>s. and_then (f s) g) bs y"
proof -
  have "takes (g x) [] y" using assms(2) by (simp add: takes_def)
  with takes_then [OF assms(1), where g = g and bs = "[]" and y = y] show ?thesis by simp
qed

lemma bool_coded:
  assumes "mem = [0] \<or> mem = [1]"
  shows "\<exists>n<2 ^ 64. emits (\<lambda>s. pb_enc_bool s field mem) (leb n) \<and> takes (\<lambda>s. pb_dec_bool s field) (leb n) mem"
proof -
  define v :: u32 where "v = (if mem = [0] then 0 else 1)"
  have e: "(if safe_read_bool mem then 1 else 0) = (ucast v :: u64)" "mem = [if v \<noteq> 0 then 1 else 0]"
    using assms by (auto simp: safe_read_bool_def v_def)
  have "unat (ucast v :: u64) = unat v" by (simp add: v_def)
  then have "emits (\<lambda>s. pb_enc_bool s field mem) (leb (unat v))"
    unfolding pb_enc_bool_def e(1) using emits_varint [of "ucast v"] by simp
  moreover have "takes (\<lambda>s. pb_dec_bool s field) (leb (unat v)) mem"
    unfolding pb_dec_bool_def using e(2) by (intro takes_value [OF takes_varint32]) simp
  ultimately show ?thesis using unat_u32_less [of v] by (intro exI [of _ "unat v"]) simp
qed

lemma varint_coded:
  assumes "length mem = data_size field" and "data_size field \<in> {1, 2, 4, 8}"
  shows "\<exists>n<2 ^ 64. emits (\<lambda>s. pb_enc_varint s field mem) (leb n) \<and> takes (\<lambda>s. pb_dec_varint s field) (leb n) mem"
proof -
  obtain v where v: "load_signed (data_size field) mem = Some v" "\<And>s. store_signed (data_size field) v s = (Inr mem, s)"
    "data_size field \<noteq> 8 \<Longrightarrow> scast (ucast v :: 32 word) = v"
    using load_store_signed [OF assms(2,1)] by metis
  have "emits (\<lambda>s. pb_enc_varint s field mem) (leb (unat v))"
    unfolding pb_enc_varint_def v(1) using emits_varint [of v] by simp
  moreover have "takes (\<lambda>s. pb_dec_varint s field) (leb (unat v)) mem"
    unfolding pb_dec_varint_def using v(2,3) by (intro takes_value [OF takes_varint]) auto
  ultimately show ?thesis using unat_u64_less by blast
qed

lemma svarint_coded:
  assumes "length mem = data_size field" and "data_size field \<in> {1, 2, 4, 8}"
  shows "\<exists>n<2 ^ 64. emits (\<lambda>s. pb_enc_svarint s field mem) (leb n) \<and> takes (\<lambda>s. pb_dec_svarint s field) (leb n) mem"
proof -
  obtain v where v: "load_signed (data_size field) mem = Some v" "\<And>s. store_signed (data_size field) v s = (Inr mem, s)"
    using load_store_signed [OF assms(2,1)] by metis
  have "emits (\<lambda>s. pb_enc_svarint s field mem) (zigzag_octets v)"
    unfolding pb_enc_svarint_def v(1) zigzag_octets_def using emits_svarint [of v] by simp
  moreover have "takes (\<lambda>s. pb_dec_svarint s field) (zigzag_octets v) mem"
    unfolding pb_dec_svarint_def using v(2) by (intro takes_value [OF takes_svarint]) auto
  ultimately show ?thesis unfolding zigzag_octets_def using unat_u64_less by blast
qed

lemma ucast_ucast_u64:
  "n < 2 ^ LENGTH('a) \<Longrightarrow> LENGTH('a::len) \<le> 64 \<Longrightarrow> ucast (ucast (word_of_nat n :: u64) :: 'a word) = (word_of_nat n :: u64)"
proof -
  assume n: "n < 2 ^ LENGTH('a)" and w: "LENGTH('a) \<le> 64"
  have "(2::nat) ^ LENGTH('a) \<le> 2 ^ 64" using w by (intro power_increasing) auto
  then have u: "unat (word_of_nat n :: u64) = n" using n by (simp add: unat_of_nat)
  then have "unat (ucast (word_of_nat n :: u64) :: 'a word) = n"
    using n by (simp only: unsigned_ucast_eq) (simp add: take_bit_nat_eq_self)
  moreover have "unat (ucast x :: u64) = n" if "unat x = n" for x :: "'a word"
    using that \<open>(2::nat) ^ LENGTH('a) \<le> 2 ^ 64\<close> n by (simp only: unsigned_ucast_eq) (simp add: take_bit_nat_eq_self)
  ultimately have "unat (ucast (ucast (word_of_nat n :: u64) :: 'a word) :: u64) = n" by blast
  then show ?thesis by (rule word_of_unat)
qed

lemma uvarint_coded:
  assumes "length mem = data_size field" and "data_size field \<in> {1, 2, 4, 8}"
  shows "\<exists>n<2 ^ 64. emits (\<lambda>s. pb_enc_uvarint s field mem) (leb n) \<and> takes (\<lambda>s. pb_dec_uvarint s field) (leb n) mem"
proof -
  let ?v = "word_of_nat (le_val mem) :: u64"
  have lt: "le_val mem < 256 ^ data_size field" using le_val_less [of mem] assms(1) by simp
  also have "(256::nat) ^ data_size field \<le> 256 ^ 8" using assms(2) by (intro power_increasing) auto
  finally have u: "unat ?v = le_val mem" by (simp add: unat_of_nat)
  have m: "le_bytes (data_size field) (unat ?v) = mem" using le_bytes_mem [OF assms(1)] lt u by simp
  have "emits (\<lambda>s. pb_enc_uvarint s field mem) (leb (unat ?v))"
    unfolding pb_enc_uvarint_def load_unsigned_def using emits_varint [of ?v] assms by simp
  moreover have "takes (\<lambda>s. pb_dec_uvarint s field) (leb (unat ?v)) mem"
    unfolding pb_dec_uvarint_def
    using assms(2) m lt by (intro takes_value [OF takes_varint]) (auto simp: Let_def ucast_ucast_u64)
  ultimately show ?thesis using unat_u64_less by blast
qed

lemma fixed32_coded:
  "length mem = 4 \<Longrightarrow> emits (\<lambda>s. pb_enc_fixed32 s field mem) mem \<and> takes (\<lambda>s. pb_dec_fixed32 s field) mem mem"
proof -
  assume l: "length mem = 4"
  let ?v = "word_of_nat (le_val mem) :: u32"
  have "le_val mem < 2 ^ 32" using le_val_less [of mem] l by simp
  then have "unat ?v = le_val mem" by (simp add: unat_of_nat)
  then have m: "le_bytes 4 (unat ?v) = mem" using le_bytes_le_val [of mem] l by simp
  then show ?thesis
    using emits_write [of mem] takes_value [OF takes_fixed32 [OF l], of _ mem] l
    by (auto simp: pb_enc_fixed32_def fixed32_bytes pb_dec_fixed32_def)
qed

lemma fixed64_coded:
  "length mem = 8 \<Longrightarrow> emits (\<lambda>s. pb_enc_fixed64 s field mem) mem \<and> takes (\<lambda>s. pb_dec_fixed64 s field) mem mem"
proof -
  assume l: "length mem = 8"
  let ?v = "word_of_nat (le_val mem) :: u64"
  have "le_val mem < 2 ^ 64" using le_val_less [of mem] l by simp
  then have "unat ?v = le_val mem" by (simp add: unat_of_nat)
  then have m: "le_bytes 8 (unat ?v) = mem" using le_bytes_le_val [of mem] l by simp
  then show ?thesis
    using emits_write [of mem] takes_value [OF takes_fixed64 [OF l], of _ mem] l
    by (auto simp: pb_enc_fixed64_def fixed64_bytes pb_dec_fixed64_def)
qed

lemma takes_length: "n < 2 ^ 32 \<Longrightarrow> takes pb_decode_varint32 (leb n) (word_of_nat n)"
  using takes_varint32 [of "word_of_nat n"] by (simp add: unat_of_nat)

lemma bytes_coded:
  assumes "atype field = PB_ATYPE_STATIC" and "length bs + 4 \<le> data_size field" and "data_size field < 2 ^ 32"
  defines "mem \<equiv> le_bytes 4 (length bs) @ bs"
  shows "emits (\<lambda>s. pb_enc_bytes s field (Some mem)) (leb (length bs) @ bs)"
    and "takes (\<lambda>s. pb_dec_bytes grants s field) (leb (length bs) @ bs) mem"
proof -
  let ?n = "length bs"
  have n: "?n < 2 ^ 32" "?n < 2 ^ 64" "unat (word_of_nat ?n :: u32) = ?n" using assms(2,3) by (simp_all add: unat_of_nat)
  have v: "le_val (take 4 mem) = ?n" using n(1) by (simp add: mem_def le_val_le_bytes)
  have a: "PB_BYTES_ARRAY_T_ALLOCSIZE ?n = ?n + 4"
    using n(1) unfolding PB_BYTES_ARRAY_T_ALLOCSIZE_def by (intro szadd_exact) (simp add: SIZE_LIMIT_def)
  have "pb_enc_bytes s field (Some mem) = pb_encode_string s bs" for s
    using a v assms(1,2) by (simp add: pb_enc_bytes_def Let_def mem_def)
  then show "emits (\<lambda>s. pb_enc_bytes s field (Some mem)) (leb ?n @ bs)" using emits_string [OF n(2)] by simp
  have "takes (\<lambda>s. and_then (pb_read s ?n) (\<lambda>bs s. (Inr (le_bytes 4 ?n @ bs), s))) bs mem"
    unfolding mem_def by (rule takes_value [OF takes_read]) simp
  then show "takes (\<lambda>s. pb_dec_bytes grants s field) (leb ?n @ bs) mem"
    unfolding pb_dec_bytes_def using a n(3) assms(1,2)
    by (intro takes_then [OF takes_length [OF n(1)]]) (simp add: Let_def and_then_def)
qed

lemma string_coded:
  assumes "atype field = PB_ATYPE_STATIC" and "length bs + 1 \<le> data_size field" and "data_size field < 2 ^ 32" and "0 \<notin> set bs"
  shows "emits (\<lambda>s. pb_enc_string s field (Some (bs @ [0]))) (leb (length bs) @ bs)"
    and "takes (\<lambda>s. pb_dec_string grants s field) (leb (length bs) @ bs) (bs @ [0])"
proof -
  let ?n = "length bs" and ?w = "word_of_nat (length bs) :: u32"
  have n: "?n < 2 ^ 32" "?n < 2 ^ 64" "unat ?w = ?n" "unat (?w + 1) = ?n + 1"
    using assms(2,3) by (simp_all add: unat_of_nat unat_word_ariths)
  have tw: "takeWhile (\<lambda>c. c \<noteq> 0) (bs @ [0]) = bs" using assms(4) by (induction bs) auto
  have "take (data_size field) (bs @ [0]) = bs @ [0]" using assms(2) by simp
  then have "pb_enc_string s field (Some (bs @ [0])) = pb_encode_string s bs" for s
    using tw assms(1) by (simp add: pb_enc_string_def Let_def)
  then show "emits (\<lambda>s. pb_enc_string s field (Some (bs @ [0]))) (leb ?n @ bs)" using emits_string [OF n(2)] by simp
  have "takes (\<lambda>s. and_then (pb_read s ?n) (\<lambda>bs s. (Inr (bs @ [0]), s))) bs (bs @ [0])"
    by (rule takes_value [OF takes_read]) simp
  moreover have "\<not> ?w + 1 < ?w" by (simp only: word_less_nat_alt n)
  ultimately show "takes (\<lambda>s. pb_dec_string grants s field) (leb ?n @ bs) (bs @ [0])"
    unfolding pb_dec_string_def using n(3,4) assms(1,2)
    by (intro takes_then [OF takes_length [OF n(1)]]) (simp add: Let_def and_then_def)
qed

lemma fixed_length_bytes_coded:
  assumes "length mem = data_size field" and "0 < data_size field" and "data_size field < 2 ^ 32"
  shows "emits (\<lambda>s. pb_enc_fixed_length_bytes s field mem) (leb (length mem) @ mem)"
    and "takes (\<lambda>s. pb_dec_fixed_length_bytes s field) (leb (length mem) @ mem) mem"
proof -
  have n: "length mem < 2 ^ 32" "length mem < 2 ^ 64" "unat (word_of_nat (length mem) :: u32) = length mem"
    using assms by (simp_all add: unat_of_nat)
  show "emits (\<lambda>s. pb_enc_fixed_length_bytes s field mem) (leb (length mem) @ mem)"
    using emits_string [OF n(2)] assms(1) by (simp add: pb_enc_fixed_length_bytes_def)
  have "(word_of_nat (length mem) :: u32) \<noteq> 0" using n(3) assms by auto
  then show "takes (\<lambda>s. pb_dec_fixed_length_bytes s field) (leb (length mem) @ mem) mem"
    unfolding pb_dec_fixed_length_bytes_def using n(3) assms takes_read [of mem]
    by (intro takes_then [OF takes_length [OF n(1)]]) simp
qed

end
