(* ===== verification/PbIter.thy ===== *)
theory PbIter
  imports PbValue
begin

text \<open>
  The memory that messages live in, and the iterator over the fields of a message
  (\<open>pb_common.c\<close>).  Memory is a map from addresses to the blocks that \<open>malloc\<close> has handed out and the
  structures the caller owns; a location is a block with an offset in it.  A pointer
  stored in a structure takes eight bytes, the address of the block it points to, least
  significant byte first; NULL is zero.  An access outside a block and a pointer that the
  allocator has not returned are undefined behaviour, which is the value \<open>None\<close>.
\<close>

section \<open>Memory\<close>

type_synonym pb_loc = "nat \<times> int"

text \<open>Besides the blocks, the local variable \<open>fixed_count_size\<close> of the innermost \<open>pb_decode_noinit\<close>, to which
  an iterator's \<open>pSize\<close> may point.\<close>

record pb_memory =
  blocks :: "nat \<Rightarrow> bytes option"
  fixed_count_size :: nat

definition load_at :: "pb_memory \<Rightarrow> pb_loc \<Rightarrow> nat \<Rightarrow> bytes option" where
  "load_at m l n = do {
     blk \<leftarrow> blocks m (fst l);
     check (0 \<le> snd l \<and> nat (snd l) + n \<le> length blk);
     Some (take n (drop (nat (snd l)) blk))
   }"

definition store_at :: "pb_memory \<Rightarrow> pb_loc \<Rightarrow> bytes \<Rightarrow> pb_memory option" where
  "store_at m l bs = do {
     blk \<leftarrow> blocks m (fst l);
     check (0 \<le> snd l \<and> nat (snd l) + length bs \<le> length blk);
     Some (m\<lparr>blocks := (blocks m)(fst l \<mapsto> mem_write blk (nat (snd l)) bs)\<rparr>)
   }"

definition loc_add :: "pb_loc \<Rightarrow> int \<Rightarrow> pb_loc" where
  "loc_add l n = (fst l, snd l + n)"

definition load_ptr :: "pb_memory \<Rightarrow> pb_loc \<Rightarrow> nat option" where
  "load_ptr m l = map_option le_val (load_at m l 8)"

definition store_ptr :: "pb_memory \<Rightarrow> pb_loc \<Rightarrow> nat \<Rightarrow> pb_memory option" where
  "store_ptr m l p = store_at m l (le_bytes 8 p)"

datatype pb_size_ptr = SizeAt pb_loc | FixedCountSize

definition load_size :: "pb_memory \<Rightarrow> pb_size_ptr \<Rightarrow> nat option" where
  "load_size m p = (case p of
     SizeAt l \<Rightarrow> map_option le_val (load_at m l 4)
   | FixedCountSize \<Rightarrow> Some (fixed_count_size m))"

definition store_size :: "pb_memory \<Rightarrow> pb_size_ptr \<Rightarrow> nat \<Rightarrow> pb_memory option" where
  "store_size m p n = (case p of
     SizeAt l \<Rightarrow> store_at m l (le_bytes 4 n)
   | FixedCountSize \<Rightarrow> Some (m\<lparr>fixed_count_size := n mod 2 ^ 32\<rparr>))"

definition store_bool :: "pb_memory \<Rightarrow> pb_size_ptr \<Rightarrow> bool \<Rightarrow> pb_memory option" where
  "store_bool m p b = (case p of
     SizeAt l \<Rightarrow> store_at m l [if b then 1 else 0]
   | FixedCountSize \<Rightarrow> None)"

text \<open>The allocator: where it places a block of a given size, and what that contains.  \<open>pb_realloc\<close> yields
  NULL when it fails, and then leaves the old block alone.\<close>

type_synonym pb_alloc = "(nat \<Rightarrow> bytes option) \<Rightarrow> nat \<Rightarrow> (nat \<times> bytes) option"

definition pb_realloc :: "pb_alloc \<Rightarrow> pb_memory \<Rightarrow> nat \<Rightarrow> nat \<Rightarrow> (nat \<times> pb_memory) option" where
  "pb_realloc alloc m p n = do {
     old \<leftarrow> (if p = 0 then Some [] else blocks m p);
     case alloc ((blocks m)(p := None)) n of
       None \<Rightarrow> Some (0, m)
     | Some (q, bs) \<Rightarrow> Some (q, m\<lparr>blocks := (blocks m)(p := None, q \<mapsto> take n (old @ drop (length old) bs))\<rparr>)
   }"

definition pb_free :: "pb_memory \<Rightarrow> nat \<Rightarrow> pb_memory option" where
  "pb_free m p =
     (if p = 0 then Some m
      else do { _ \<leftarrow> blocks m p; Some (m\<lparr>blocks := (blocks m)(p := None)\<rparr>) })"

section \<open>The iterator\<close>

text \<open>The descriptors of a message end with one of tag 0, which is not an element of the list.\<close>

definition PB_LAST_FIELD :: pb_field where
  "PB_LAST_FIELD = \<lparr> field_tag = 0, ltype = PB_LTYPE_BOOL, htype = PB_HTYPE_REQUIRED, atype = PB_ATYPE_STATIC,
     data_offset = 0, size_offset = 0, data_size = 0, array_size = 0, ptr = NoPtr \<rparr>"

record pb_field_iter =
  start :: "pb_field list"
  pos :: nat
  required_field_index :: nat
  dest_struct :: pb_loc
  pData :: pb_loc
  pSize :: pb_size_ptr

definition PB_SIZE_MAX :: nat where
  "PB_SIZE_MAX = 2 ^ 32 - 1"

definition field_at :: "pb_field list \<Rightarrow> nat \<Rightarrow> pb_field" where
  "field_at fs i = (if i < length fs then fs ! i else PB_LAST_FIELD)"

definition pos_field :: "pb_field_iter \<Rightarrow> pb_field" where
  "pos_field iter = field_at (start iter) (pos iter)"

definition pb_field_iter_begin :: "pb_field list \<Rightarrow> pb_loc \<Rightarrow> bool \<times> pb_field_iter" where
  "pb_field_iter_begin fs dest =
     (let first = field_at fs 0;
          data = loc_add dest (int (data_offset first))
      in (field_tag first \<noteq> 0,
          \<lparr> start = fs, pos = 0, required_field_index = 0, dest_struct = dest, pData = data,
            pSize = SizeAt (loc_add data (size_offset first)) \<rparr>))"

definition pb_field_iter_next :: "pb_field_iter \<Rightarrow> bool \<times> pb_field_iter" where
  "pb_field_iter_next iter =
     (let prev = pos_field iter in
      if field_tag prev = 0 then (False, iter)
      else let next = field_at (start iter) (pos iter + 1) in
        if field_tag next = 0 then (False, snd (pb_field_iter_begin (start iter) (dest_struct iter)))
        else if htype prev = PB_HTYPE_ONEOF \<and> htype next = PB_HTYPE_ONEOF \<and> data_offset next = PB_SIZE_MAX then
          (True, iter\<lparr> pos := pos iter + 1 \<rparr>)
        else let
          prev_size = (if atype prev = PB_ATYPE_STATIC \<and> htype prev = PB_HTYPE_REPEATED then
              data_size prev * array_size prev
            else if atype prev = PB_ATYPE_POINTER then 8 else data_size prev);
          data = loc_add (pData iter) (int (prev_size + data_offset next))
        in (True, iter\<lparr> pos := pos iter + 1,
              required_field_index := (if htype prev = PB_HTYPE_REQUIRED then required_field_index iter + 1
                else required_field_index iter),
              pData := data, pSize := SizeAt (loc_add data (size_offset next)) \<rparr>))"

text \<open>The loop returns to the field it started from; on descriptors it never meets again it does not return.\<close>

partial_function (option) find_loop :: "nat \<Rightarrow> u32 \<Rightarrow> pb_field_iter \<Rightarrow> (bool \<times> pb_field_iter) option" where
  "find_loop first tag iter =
     (if field_tag (pos_field iter) = tag \<and> ltype (pos_field iter) \<noteq> PB_LTYPE_EXTENSION then Some (True, iter)
      else let iter = snd (pb_field_iter_next iter) in
        if pos iter \<noteq> first then find_loop first tag iter else Some (False, iter))"

declare find_loop.simps [code]

definition pb_field_iter_find :: "pb_field_iter \<Rightarrow> u32 \<Rightarrow> (bool \<times> pb_field_iter) option" where
  "pb_field_iter_find iter tag = find_loop (pos iter) tag iter"

lemma next_advances:
  "pb_field_iter_next iter = (True, iter') \<Longrightarrow> start iter' = start iter \<and> pos iter' = pos iter + 1 \<and> pos iter' < length (start iter)"
  by (auto simp: pb_field_iter_next_def Let_def field_at_def PB_LAST_FIELD_def split: if_splits)

text \<open>The loop \<open>do body while (pb_field_iter_next (&iter))\<close>.\<close>

function do_fields :: "(pb_field_iter \<Rightarrow> 's \<Rightarrow> 's option) \<Rightarrow> pb_field_iter \<Rightarrow> 's \<Rightarrow> 's option" where
  "do_fields body iter s = do {
     s \<leftarrow> body iter s;
     case pb_field_iter_next iter of
       (True, iter) \<Rightarrow> do_fields body iter s
     | (False, _) \<Rightarrow> Some s
   }"
  by pat_completeness auto

termination
  by (relation "measure (\<lambda>(body, iter, s). length (start iter) - pos iter)") (auto dest!: next_advances [OF sym])

declare do_fields.simps [simp del]

lemma do_fields_mono [partial_function_mono]:
  assumes "\<And>iter s. mono_option (\<lambda>f. body f iter s)"
  shows "mono_option (\<lambda>f. do_fields (body f) iter s)"
proof (induction "length (start iter) - pos iter" arbitrary: iter s rule: less_induct)
  case less
  have "mono_option (\<lambda>f. case pb_field_iter_next iter of (True, iter) \<Rightarrow> do_fields (body f) iter s | (False, _) \<Rightarrow> Some s)" for s
  proof (cases "pb_field_iter_next iter")
    case (Pair more iter')
    show ?thesis
    proof (cases more)
      case True
      then have "length (start iter') - pos iter' < length (start iter) - pos iter" using Pair next_advances [of iter iter'] by auto
      then show ?thesis using less True Pair by simp
    next
      case False
      then show ?thesis using Pair by (simp add: partial_function_mono)
    qed
  qed
  then show ?case by (subst do_fields.simps) (intro partial_function_mono assms)
qed

end
