(* ===== verification/PbDefaults.thy ===== *)
theory PbDefaults
  imports PbIter
begin

text \<open>
  Setting a message to its defaults and releasing what it points to (\<open>pb_decode.c\<close>).  Extensions are
  user-supplied lists: an extension field is expected to hold NULL, and anything else has no value.
\<close>

text \<open>The descriptors in the program: each array of them by its address.\<close>

type_synonym pb_tables = "nat \<Rightarrow> pb_field list"

definition submsg_fields :: "pb_tables \<Rightarrow> pb_field \<Rightarrow> pb_field list option" where
  "submsg_fields tabs f = (case ptr f of Submessage a \<Rightarrow> Some (tabs a) | _ \<Rightarrow> None)"

definition no_extensions :: "pb_memory \<Rightarrow> pb_loc \<Rightarrow> pb_memory option" where
  "no_extensions m l = do { ext \<leftarrow> load_ptr m l; check (ext = 0); Some m }"

section \<open>Defaults\<close>

type_synonym pb_visit = "pb_field list \<Rightarrow> pb_loc \<Rightarrow> pb_memory \<Rightarrow> pb_memory option"

definition pb_field_set_to_default :: "pb_visit \<Rightarrow> pb_tables \<Rightarrow> pb_field_iter \<Rightarrow> pb_memory \<Rightarrow> pb_memory option" where
  "pb_field_set_to_default set_message tabs iter m =
     (let f = pos_field iter in
      if ltype f = PB_LTYPE_EXTENSION then no_extensions m (pData iter)
      else case atype f of
        PB_ATYPE_STATIC \<Rightarrow>
          if htype f = PB_HTYPE_REPEATED \<or> htype f = PB_HTYPE_ONEOF then store_size m (pSize iter) 0
          else do {
            m \<leftarrow> (if htype f = PB_HTYPE_OPTIONAL \<and> pSize iter \<noteq> SizeAt (pData iter)
              then store_bool m (pSize iter) False else Some m);
            if ltype f = PB_LTYPE_SUBMESSAGE then do {
              fs \<leftarrow> submsg_fields tabs f;
              set_message fs (pData iter) m
            }
            else (case ptr f of
                DefaultValue v \<Rightarrow> do { check (data_size f \<le> length v); store_at m (pData iter) (take (data_size f) v) }
              | NoPtr \<Rightarrow> store_at m (pData iter) (replicate (data_size f) 0)
              | Submessage a \<Rightarrow> None)
          }
      | PB_ATYPE_POINTER \<Rightarrow> do {
          m \<leftarrow> store_ptr m (pData iter) 0;
          if htype f = PB_HTYPE_REPEATED \<or> htype f = PB_HTYPE_ONEOF then store_size m (pSize iter) 0 else Some m
        }
      | PB_ATYPE_CALLBACK \<Rightarrow> Some m)"

lemma pb_field_set_to_default_mono [partial_function_mono]:
  assumes "\<And>fs l m. mono_option (\<lambda>f. g f fs l m)"
  shows "mono_option (\<lambda>f. pb_field_set_to_default (g f) tabs iter m)"
  unfolding pb_field_set_to_default_def Let_def
  by (cases "atype (pos_field iter)") (auto intro!: partial_function_mono assms)

text \<open>Submessages that are part of the structure are initialised with it.\<close>

partial_function (option) pb_message_set_to_defaults :: "pb_tables \<Rightarrow> pb_field list \<Rightarrow> pb_loc \<Rightarrow> pb_memory \<Rightarrow> pb_memory option" where
  "pb_message_set_to_defaults tabs fs dest m =
     (case pb_field_iter_begin fs dest of (nonempty, iter) \<Rightarrow>
        if \<not> nonempty then Some m
        else do_fields (pb_field_set_to_default (pb_message_set_to_defaults tabs) tabs) iter m)"

declare pb_message_set_to_defaults.simps [code]

section \<open>Release\<close>

primrec release_items :: "(pb_loc \<Rightarrow> pb_memory \<Rightarrow> pb_memory option) \<Rightarrow> nat \<Rightarrow> nat \<Rightarrow> pb_loc \<Rightarrow> pb_memory \<Rightarrow> pb_memory option" where
  "release_items release sz 0 l m = Some m"
| "release_items release sz (Suc n) l m = do { m \<leftarrow> release l m; release_items release sz n (loc_add l (int sz)) m }"

lemma release_items_mono [partial_function_mono]:
  assumes "\<And>l m. mono_option (\<lambda>f. g f l m)"
  shows "mono_option (\<lambda>f. release_items (g f) sz n l m)"
proof (induction n arbitrary: l m)
  case (Suc n)
  show ?case unfolding release_items.simps by (intro partial_function_mono assms Suc)
qed (simp add: partial_function_mono)

primrec free_entries :: "nat \<Rightarrow> pb_loc \<Rightarrow> pb_memory \<Rightarrow> pb_memory option" where
  "free_entries 0 l m = Some m"
| "free_entries (Suc n) l m = do {
     p \<leftarrow> load_ptr m l;
     m \<leftarrow> pb_free m p;
     m \<leftarrow> store_ptr m l 0;
     free_entries n (loc_add l 8) m
   }"

definition release_submessages :: "pb_visit \<Rightarrow> pb_tables \<Rightarrow> pb_field_iter \<Rightarrow> pb_memory \<Rightarrow> pb_memory option" where
  "release_submessages release tabs iter m =
     (let f = pos_field iter in do {
        item \<leftarrow> (if atype f = PB_ATYPE_POINTER then map_option (\<lambda>p. (p, 0)) (load_ptr m (pData iter)) else Some (pData iter));
        count \<leftarrow> (if htype f = PB_HTYPE_REPEATED then
            (if atype f = PB_ATYPE_STATIC \<and> pSize iter = SizeAt (pData iter) then Some (array_size f)
             else map_option (\<lambda>n. if atype f = PB_ATYPE_STATIC \<and> n > array_size f then array_size f else n) (load_size m (pSize iter)))
          else Some 1);
        if fst item = 0 then Some m
        else release_items (\<lambda>l m. do { fs \<leftarrow> submsg_fields tabs f; release fs l m }) (data_size f) count item m
      })"

definition release_pointer :: "pb_field_iter \<Rightarrow> pb_memory \<Rightarrow> pb_memory option" where
  "release_pointer iter m =
     (let f = pos_field iter in do {
        m \<leftarrow> (if htype f = PB_HTYPE_REPEATED \<and> (ltype f = PB_LTYPE_STRING \<or> ltype f = PB_LTYPE_BYTES) then do {
            p \<leftarrow> load_ptr m (pData iter);
            count \<leftarrow> load_size m (pSize iter);
            free_entries count (p, 0) m
          } else Some m);
        m \<leftarrow> (if htype f = PB_HTYPE_REPEATED then store_size m (pSize iter) 0 else Some m);
        p \<leftarrow> load_ptr m (pData iter);
        m \<leftarrow> pb_free m p;
        store_ptr m (pData iter) 0
      })"

definition pb_release_single_field :: "pb_visit \<Rightarrow> pb_tables \<Rightarrow> pb_field_iter \<Rightarrow> pb_memory \<Rightarrow> pb_memory option" where
  "pb_release_single_field release tabs iter m =
     (let f = pos_field iter in do {
        which \<leftarrow> (if htype f = PB_HTYPE_ONEOF then load_size m (pSize iter) else Some (unat (field_tag f)));
        if which \<noteq> unat (field_tag f) then Some m
        else do {
          m \<leftarrow> (if ltype f = PB_LTYPE_EXTENSION then no_extensions m (pData iter)
            else if ltype f = PB_LTYPE_SUBMESSAGE \<and> atype f \<noteq> PB_ATYPE_CALLBACK then release_submessages release tabs iter m
            else Some m);
          if atype f = PB_ATYPE_POINTER then release_pointer iter m else Some m
        }
      })"

lemma pb_release_single_field_mono [partial_function_mono]:
  assumes "\<And>fs l m. mono_option (\<lambda>f. g f fs l m)"
  shows "mono_option (\<lambda>f. pb_release_single_field (g f) tabs iter m)"
  unfolding pb_release_single_field_def release_submessages_def Let_def
  by (intro partial_function_mono assms)

text \<open>A null structure is ignored.\<close>

partial_function (option) pb_release :: "pb_tables \<Rightarrow> pb_field list \<Rightarrow> pb_loc \<Rightarrow> pb_memory \<Rightarrow> pb_memory option" where
  "pb_release tabs fs dest m =
     (if fst dest = 0 then Some m
      else case pb_field_iter_begin fs dest of (nonempty, iter) \<Rightarrow>
        if \<not> nonempty then Some m
        else do_fields (pb_release_single_field (pb_release tabs) tabs) iter m)"

declare pb_release.simps [code]

end
