(* ===== verification/PbMessage.thy ===== *)
theory PbMessage
  imports PbDefaults
begin

text \<open>
  Decoding a message (\<open>pb_decode.c\<close>): the fields by allocation and repetition, submessages, and the loop over
  the stream.  A run yields the result with the stream and the memory it leaves; undefined behaviour is
  \<open>None\<close>.  A decoder of fixed-size values that refuses a number as too large has already stored
  its truncation, which is left out here: the field is that of a message that has failed to decode.
\<close>

type_synonym 'a pb_run = "((string + 'a) \<times> pb_istream \<times> pb_memory) option"

definition run_then :: "'a pb_run \<Rightarrow> ('a \<Rightarrow> pb_istream \<Rightarrow> pb_memory \<Rightarrow> 'b pb_run) \<Rightarrow> 'b pb_run" where
  "run_then r f = (case r of
     None \<Rightarrow> None
   | Some (Inl e, s, m) \<Rightarrow> Some (Inl e, s, m)
   | Some (Inr x, s, m) \<Rightarrow> f x s m)"

lemma run_then_bind:
  "run_then r g = r \<bind> (\<lambda>p. case p of (res, s, m) \<Rightarrow> (case res of Inl e \<Rightarrow> Some (Inl e, s, m) | Inr x \<Rightarrow> g x s m))"
  by (cases r) (auto simp: run_then_def split: sum.splits)

lemma run_then_mono [partial_function_mono]:
  assumes "mono_option r" and "\<And>x s m. mono_option (\<lambda>f. g f x s m)"
  shows "mono_option (\<lambda>f. run_then (r f) (g f))"
proof -
  have "mono_option (\<lambda>f. case p of (res, s, m) \<Rightarrow> (case res of Inl e \<Rightarrow> Some (Inl e, s, m) | Inr x \<Rightarrow> g f x s m))" for p
    by (cases p; cases "fst p") (auto intro!: partial_function_mono assms)
  then show ?thesis unfolding run_then_bind by (intro partial_function_mono assms)
qed

definition on_stream :: "'a pb_result \<Rightarrow> pb_memory \<Rightarrow> 'a pb_run" where
  "on_stream r m = (case r of (x, s) \<Rightarrow> Some (x, s, m))"

definition return_with :: "pb_memory option \<Rightarrow> pb_istream \<Rightarrow> unit pb_run" where
  "return_with r s = map_option (\<lambda>m. (Inr (), s, m)) r"

abbreviation fail_with :: "string \<Rightarrow> pb_istream \<Rightarrow> pb_memory \<Rightarrow> 'a pb_run" where
  "fail_with e s m \<equiv> Some (Inl e, s, m)"

type_synonym pb_field_decoder = "pb_istream \<Rightarrow> pb_field \<Rightarrow> pb_loc \<Rightarrow> pb_memory \<Rightarrow> unit pb_run"

text \<open>What is not part of the library: the descriptors, the allocator, and the callbacks by their address.\<close>

record pb_env =
  tables :: pb_tables
  allocator :: pb_alloc
  callback :: "nat \<Rightarrow> pb_istream \<Rightarrow> pb_field \<Rightarrow> pb_loc \<Rightarrow> pb_memory \<Rightarrow> (bool \<times> pb_istream \<times> pb_memory) option"

section \<open>Storage for pointers\<close>

definition allocate_at :: "pb_env \<Rightarrow> pb_istream \<Rightarrow> pb_memory \<Rightarrow> pb_loc \<Rightarrow> nat \<Rightarrow> nat \<Rightarrow> unit pb_run" where
  "allocate_at env s m dest dsize asize = do {
     p \<leftarrow> load_ptr m dest;
     if dsize = 0 \<or> asize = 0 then fail_with ''invalid size'' s m
     else if (2 ^ 32 \<le> dsize \<or> 2 ^ 32 \<le> asize) \<and> (SIZE_LIMIT - 1) div asize < dsize then fail_with ''size too large'' s m
     else do {
       (q, m) \<leftarrow> pb_realloc (allocator env) m p (szmul asize dsize);
       if q = 0 then fail_with ''realloc failed'' s m
       else return_with (store_ptr m dest q) s
     }
   }"

definition initialize_pointer_field :: "pb_env \<Rightarrow> pb_loc \<Rightarrow> pb_field \<Rightarrow> pb_memory \<Rightarrow> pb_memory option" where
  "initialize_pointer_field env item f m =
     (if ltype f = PB_LTYPE_STRING \<or> ltype f = PB_LTYPE_BYTES then store_ptr m item 0
      else if ltype f = PB_LTYPE_SUBMESSAGE then do {
        m \<leftarrow> store_at m item (replicate (data_size f) 0);
        fs \<leftarrow> submsg_fields (tables env) f;
        pb_message_set_to_defaults (tables env) fs item m
      }
      else Some m)"

section \<open>Values\<close>

text \<open>A value decoder that has read the whole value before it stores it.\<close>

definition store_result :: "bytes pb_result \<Rightarrow> pb_loc \<Rightarrow> pb_memory \<Rightarrow> unit pb_run" where
  "store_result r l m = run_then (on_stream r m) (\<lambda>v s m. return_with (store_at m l v) s)"

text \<open>Where a string or byte array goes: to new storage when \<open>dest\<close> is a pointer, otherwise to \<open>dest\<close>.\<close>

definition string_dest :: "pb_env \<Rightarrow> string \<Rightarrow> pb_istream \<Rightarrow> pb_field \<Rightarrow> pb_loc \<Rightarrow> nat \<Rightarrow> pb_memory \<Rightarrow> pb_loc pb_run" where
  "string_dest env overflow s f dest alloc_size m =
     (if atype f = PB_ATYPE_POINTER then
        run_then (allocate_at env s m dest alloc_size 1) (\<lambda>_ s m. do { p \<leftarrow> load_ptr m dest; Some (Inr (p, 0), s, m) })
      else if alloc_size > data_size f then fail_with overflow s m
      else Some (Inr dest, s, m))"

definition dec_bytes_at :: "pb_env \<Rightarrow> pb_field_decoder" where
  "dec_bytes_at env s f dest m = run_then (on_stream (pb_decode_varint32 s) m) (\<lambda>sz s m.
     let alloc_size = PB_BYTES_ARRAY_T_ALLOCSIZE (unat sz) in
     if unat sz > alloc_size then fail_with ''size too large'' s m
     else run_then (string_dest env ''bytes overflow'' s f dest alloc_size m) (\<lambda>l s m. do {
       m \<leftarrow> store_at m l (le_bytes 4 (unat sz));
       store_result (pb_read s (unat sz)) (loc_add l 4) m
     }))"

definition dec_string_at :: "pb_env \<Rightarrow> pb_field_decoder" where
  "dec_string_at env s f dest m = run_then (on_stream (pb_decode_varint32 s) m) (\<lambda>sz s m.
     let alloc_size = sz + 1 in
     if alloc_size < sz then fail_with ''size too large'' s m
     else run_then (string_dest env ''string overflow'' s f dest (unat alloc_size) m) (\<lambda>l s m. do {
       (status, s, m) \<leftarrow> store_result (pb_read s (unat sz)) l m;
       m \<leftarrow> store_at m (loc_add l (int (unat sz))) [0];
       Some (status, s, m)
     }))"

primrec FIELD_DECODERS :: "pb_env \<Rightarrow> pb_field_decoder \<Rightarrow> pb_ltype \<Rightarrow> pb_field_decoder option" where
  "FIELD_DECODERS env submessage PB_LTYPE_BOOL = Some (\<lambda>s f l m. store_result (pb_dec_bool s f) l m)"
| "FIELD_DECODERS env submessage PB_LTYPE_VARINT = Some (\<lambda>s f l m. store_result (pb_dec_varint s f) l m)"
| "FIELD_DECODERS env submessage PB_LTYPE_UVARINT = Some (\<lambda>s f l m. store_result (pb_dec_uvarint s f) l m)"
| "FIELD_DECODERS env submessage PB_LTYPE_SVARINT = Some (\<lambda>s f l m. store_result (pb_dec_svarint s f) l m)"
| "FIELD_DECODERS env submessage PB_LTYPE_FIXED32 = Some (\<lambda>s f l m. store_result (pb_dec_fixed32 s f) l m)"
| "FIELD_DECODERS env submessage PB_LTYPE_FIXED64 = Some (\<lambda>s f l m. store_result (pb_dec_fixed64 s f) l m)"
| "FIELD_DECODERS env submessage PB_LTYPE_BYTES = Some (dec_bytes_at env)"
| "FIELD_DECODERS env submessage PB_LTYPE_STRING = Some (dec_string_at env)"
| "FIELD_DECODERS env submessage PB_LTYPE_SUBMESSAGE = Some submessage"
| "FIELD_DECODERS env submessage PB_LTYPE_EXTENSION = None"
| "FIELD_DECODERS env submessage PB_LTYPE_FIXED_LENGTH_BYTES = Some (\<lambda>s f l m. store_result (pb_dec_fixed_length_bytes s f) l m)"

section \<open>Fields by allocation\<close>

text \<open>\<open>PB_LTYPE (type) <= PB_LTYPE_LAST_PACKABLE\<close> is \<open>packable\<close>.  The loop over a packed array counts its
  entries in memory.\<close>

partial_function (option) static_items :: "pb_field_decoder \<Rightarrow> pb_field_iter \<Rightarrow> pb_istream \<Rightarrow> pb_memory \<Rightarrow> unit pb_run" where
  "static_items func iter sub m = do {
     sz \<leftarrow> load_size m (pSize iter);
     if bytes_left sub > 0 \<and> sz < array_size (pos_field iter) then
       run_then (func sub (pos_field iter) (loc_add (pData iter) (int (data_size (pos_field iter) * sz))) m) (\<lambda>_ sub m. do {
         sz \<leftarrow> load_size m (pSize iter);
         m \<leftarrow> store_size m (pSize iter) (sz + 1);
         static_items func iter sub m
       })
     else Some (Inr (), sub, m)
   }"

declare static_items.simps [code]

text \<open>Closing the substream; the status of what read it is returned when that succeeds.\<close>

definition close_with :: "pb_istream \<Rightarrow> unit pb_run \<Rightarrow> unit pb_run" where
  "close_with s r = do {
     (status, sub, m) \<leftarrow> r;
     run_then (on_stream (pb_close_string_substream s sub) m) (\<lambda>_ s m. Some (status, s, m))
   }"

definition decode_static_field :: "pb_env \<Rightarrow> pb_field_decoder \<Rightarrow> pb_istream \<Rightarrow> pb_wire_type \<Rightarrow> pb_field_iter \<Rightarrow> pb_memory \<Rightarrow> unit pb_run" where
  "decode_static_field env submessage s wire_type iter m =
     (let f = pos_field iter in do {
        func \<leftarrow> FIELD_DECODERS env submessage (ltype f);
        case htype f of
          PB_HTYPE_REQUIRED \<Rightarrow> func s f (pData iter) m
        | PB_HTYPE_OPTIONAL \<Rightarrow> do {
            m \<leftarrow> (if pSize iter \<noteq> SizeAt (pData iter) then store_bool m (pSize iter) True else Some m);
            func s f (pData iter) m
          }
        | PB_HTYPE_REPEATED \<Rightarrow>
            if wire_type = PB_WT_STRING \<and> packable f then
              run_then (on_stream (pb_make_string_substream s) m) (\<lambda>sub s m. do {
                (status, sub, m) \<leftarrow> static_items func iter sub m;
                if bytes_left sub \<noteq> 0 then fail_with ''array overflow'' s m
                else close_with s (Some (status, sub, m))
              })
            else do {
              sz \<leftarrow> load_size m (pSize iter);
              m \<leftarrow> store_size m (pSize iter) (sz + 1);
              if sz \<ge> array_size f then fail_with ''array overflow'' s m
              else func s f (loc_add (pData iter) (int (data_size f * sz))) m
            }
        | PB_HTYPE_ONEOF \<Rightarrow> do {
            which \<leftarrow> load_size m (pSize iter);
            m \<leftarrow> (if ltype f = PB_LTYPE_SUBMESSAGE \<and> which \<noteq> unat (field_tag f) then do {
                m \<leftarrow> store_at m (pData iter) (replicate (data_size f) 0);
                fs \<leftarrow> submsg_fields (tables env) f;
                pb_message_set_to_defaults (tables env) fs (pData iter) m
              } else Some m);
            m \<leftarrow> store_size m (pSize iter) (unat (field_tag f));
            func s f (pData iter) m
          }
      })"

text \<open>The loop over a packed array with growing storage, of which \<open>allocated_size\<close> entries are allocated.\<close>

partial_function (option) pointer_items :: "pb_env \<Rightarrow> pb_field_decoder \<Rightarrow> pb_field_iter \<Rightarrow> nat \<Rightarrow> pb_istream \<Rightarrow> pb_memory \<Rightarrow> unit pb_run" where
  "pointer_items env func iter allocated_size sub m =
     (let f = pos_field iter in
      if bytes_left sub = 0 then Some (Inr (), sub, m)
      else do {
        sz \<leftarrow> load_size m (pSize iter);
        if sz = PB_SIZE_MAX then fail_with ''too many array entries'' sub m
        else do {
          check (sz + 1 > allocated_size \<longrightarrow> data_size f \<noteq> 0);
          let remain = (bytes_left sub - 1) div data_size f + 1;
          let new_size = (if sz + 1 > allocated_size then
              (if remain < PB_SIZE_MAX - allocated_size then allocated_size + remain else allocated_size + 1)
            else allocated_size);
          run_then (if sz + 1 > allocated_size then allocate_at env sub m (pData iter) (data_size f) new_size
              else Some (Inr (), sub, m)) (\<lambda>_ sub m. do {
            p \<leftarrow> load_ptr m (pData iter);
            let item = (p, int (data_size f * sz));
            m \<leftarrow> initialize_pointer_field env item f m;
            run_then (func sub f item m) (\<lambda>_ sub m. do {
              sz \<leftarrow> load_size m (pSize iter);
              m \<leftarrow> store_size m (pSize iter) (sz + 1);
              pointer_items env func iter new_size sub m
            })
          })
        }
      })"

declare pointer_items.simps [code]

definition decode_pointer_field :: "pb_env \<Rightarrow> pb_field_decoder \<Rightarrow> pb_istream \<Rightarrow> pb_wire_type \<Rightarrow> pb_field_iter \<Rightarrow> pb_memory \<Rightarrow> unit pb_run" where
  "decode_pointer_field env submessage s wire_type iter m =
     (let f = pos_field iter in do {
        func \<leftarrow> FIELD_DECODERS env submessage (ltype f);
        if htype f \<noteq> PB_HTYPE_REPEATED then do {
          old \<leftarrow> load_ptr m (pData iter);
          m \<leftarrow> (if ltype f = PB_LTYPE_SUBMESSAGE \<and> old \<noteq> 0
            then pb_release_single_field (pb_release (tables env)) (tables env) iter m else Some m);
          m \<leftarrow> (if htype f = PB_HTYPE_ONEOF then store_size m (pSize iter) (unat (field_tag f)) else Some m);
          if ltype f = PB_LTYPE_STRING \<or> ltype f = PB_LTYPE_BYTES then func s f (pData iter) m
          else run_then (allocate_at env s m (pData iter) (data_size f) 1) (\<lambda>_ s m. do {
            p \<leftarrow> load_ptr m (pData iter);
            m \<leftarrow> initialize_pointer_field env (p, 0) f m;
            func s f (p, 0) m
          })
        }
        else if wire_type = PB_WT_STRING \<and> packable f then
          run_then (on_stream (pb_make_string_substream s) m) (\<lambda>sub s m. do {
            sz \<leftarrow> load_size m (pSize iter);
            close_with s (pointer_items env func iter sz sub m)
          })
        else do {
          sz \<leftarrow> load_size m (pSize iter);
          if sz = PB_SIZE_MAX then fail_with ''too many array entries'' s m
          else run_then (allocate_at env s m (pData iter) (data_size f) (sz + 1)) (\<lambda>_ s m. do {
            p \<leftarrow> load_ptr m (pData iter);
            let item = (p, int (data_size f * sz));
            m \<leftarrow> store_size m (pSize iter) (sz + 1);
            m \<leftarrow> initialize_pointer_field env item f m;
            func s f item m
          })
        }
      })"

text \<open>A callback is the pair of a function pointer and an argument, which the function may change.\<close>

partial_function (option) callback_loop :: "(pb_istream \<Rightarrow> pb_memory \<Rightarrow> (bool \<times> pb_istream \<times> pb_memory) option) \<Rightarrow> pb_istream \<Rightarrow> pb_memory \<Rightarrow>
    (bool \<times> pb_istream \<times> pb_memory) option" where
  "callback_loop fn sub m = do {
     (ok, sub, m) \<leftarrow> fn sub m;
     if ok \<and> bytes_left sub \<noteq> 0 then callback_loop fn sub m else Some (ok, sub, m)
   }"

declare callback_loop.simps [code]

definition decode_callback_field :: "pb_env \<Rightarrow> pb_istream \<Rightarrow> pb_wire_type \<Rightarrow> pb_field_iter \<Rightarrow> pb_memory \<Rightarrow> unit pb_run" where
  "decode_callback_field env s wire_type iter m =
     (let f = pos_field iter; arg = loc_add (pData iter) 8 in do {
        fn \<leftarrow> load_ptr m (pData iter);
        if fn = 0 then on_stream (pb_skip_field s wire_type) m
        else if wire_type = PB_WT_STRING then
          run_then (on_stream (pb_make_string_substream s) m) (\<lambda>sub s m. do {
            (ok, sub, m) \<leftarrow> callback_loop (\<lambda>sub m. callback env fn sub f arg m) sub m;
            if \<not> ok then fail_with ''callback failed'' s m
            else on_stream (pb_close_string_substream s sub) m
          })
        else run_then (on_stream (read_raw_value s wire_type 10) m) (\<lambda>buffer s m. do {
            (ok, _, m) \<leftarrow> callback env fn (pb_istream_from_buffer buffer (length buffer)) f arg m;
            Some (if ok then Inr () else Inl [], s, m)
          })
      })"

text \<open>Releasing another member of the union moves the iterator there and back.\<close>

definition pb_release_union_field :: "pb_env \<Rightarrow> pb_istream \<Rightarrow> pb_field_iter \<Rightarrow> pb_memory \<Rightarrow> pb_field_iter pb_run" where
  "pb_release_union_field env s iter m = do {
     old_tag \<leftarrow> load_size m (pSize iter);
     let new_tag = field_tag (pos_field iter);
     if old_tag = 0 \<or> old_tag = unat new_tag then Some (Inr iter, s, m)
     else do {
       (found, iter) \<leftarrow> pb_field_iter_find iter (word_of_nat old_tag);
       if \<not> found then fail_with ''invalid union tag'' s m
       else do {
         m \<leftarrow> pb_release_single_field (pb_release (tables env)) (tables env) iter m;
         (found, iter) \<leftarrow> pb_field_iter_find iter new_tag;
         if \<not> found then fail_with ''iterator error'' s m else Some (Inr iter, s, m)
       }
     }
   }"

text \<open>The iterator is returned, since the release of a union may have moved it.\<close>

definition decode_field :: "pb_env \<Rightarrow> pb_field_decoder \<Rightarrow> pb_istream \<Rightarrow> pb_wire_type \<Rightarrow> pb_field_iter \<Rightarrow> pb_memory \<Rightarrow> pb_field_iter pb_run" where
  "decode_field env submessage s wire_type iter m =
     run_then (if htype (pos_field iter) = PB_HTYPE_ONEOF then pb_release_union_field env s iter m else Some (Inr iter, s, m))
       (\<lambda>iter s m. run_then (case atype (pos_field iter) of
            PB_ATYPE_STATIC \<Rightarrow> decode_static_field env submessage s wire_type iter m
          | PB_ATYPE_POINTER \<Rightarrow> decode_pointer_field env submessage s wire_type iter m
          | PB_ATYPE_CALLBACK \<Rightarrow> decode_callback_field env s wire_type iter m)
        (\<lambda>_ s m. Some (Inr iter, s, m)))"

section \<open>Messages\<close>

definition PB_MAX_REQUIRED_FIELDS :: nat where
  "PB_MAX_REQUIRED_FIELDS = 64"

partial_function (option) find_extension_loop :: "nat \<Rightarrow> pb_field_iter \<Rightarrow> (bool \<times> pb_field_iter) option" where
  "find_extension_loop first iter =
     (if ltype (pos_field iter) = PB_LTYPE_EXTENSION then Some (True, iter)
      else let iter = snd (pb_field_iter_next iter) in
        if pos iter \<noteq> first then find_extension_loop first iter else Some (False, iter))"

declare find_extension_loop.simps [code]

definition find_extension_field :: "pb_field_iter \<Rightarrow> (bool \<times> pb_field_iter) option" where
  "find_extension_field iter = find_extension_loop (pos iter) iter"

text \<open>The local variables of \<open>pb_decode_noinit\<close>; \<open>fixed_count_field\<close> by its position.\<close>

record pb_decode_state =
  iterator :: pb_field_iter
  fields_seen :: "u32 list"
  fixed_count_field :: "nat option"
  extension_range_start :: u32

definition fixed_count_ok :: "pb_decode_state \<Rightarrow> pb_memory \<Rightarrow> bool" where
  "fixed_count_ok st m = (case fixed_count_field st of
     None \<Rightarrow> True
   | Some i \<Rightarrow> fixed_count_size m = array_size (field_at (start (iterator st)) i))"

text \<open>A field that is not in the message: extension or unknown.  The lists of extensions are empty here.\<close>

definition decode_unknown :: "pb_istream \<Rightarrow> pb_wire_type \<Rightarrow> u32 \<Rightarrow> pb_decode_state \<Rightarrow> pb_memory \<Rightarrow> pb_decode_state pb_run" where
  "decode_unknown s wire_type tag st m = do {
     (st, m) \<leftarrow> (if tag \<ge> extension_range_start st then do {
         (found, iter) \<leftarrow> find_extension_field (iterator st);
         let st = st\<lparr> iterator := iter, extension_range_start := (if \<not> found then - 1 else field_tag (pos_field iter)) \<rparr>;
         m \<leftarrow> (if tag \<ge> extension_range_start st then no_extensions m (pData iter) else Some m);
         Some (st, m)
       }
       else Some (st, m));
     run_then (on_stream (pb_skip_field s wire_type) m) (\<lambda>_ s m. Some (Inr st, s, m))
   }"

text \<open>What precedes \<open>decode_field\<close> for a field that was found.\<close>

definition note_field :: "pb_istream \<Rightarrow> pb_decode_state \<Rightarrow> pb_memory \<Rightarrow> pb_decode_state pb_run" where
  "note_field s st m =
     (let iter = iterator st; f = pos_field iter in
      run_then (if htype f = PB_HTYPE_REPEATED \<and> pSize iter = SizeAt (pData iter) then
          (if fixed_count_field st \<noteq> Some (pos iter) then
             if \<not> fixed_count_ok st m then fail_with ''wrong size for fixed count field'' s m
             else Some (Inr (st\<lparr> fixed_count_field := Some (pos iter), iterator := iter\<lparr> pSize := FixedCountSize \<rparr> \<rparr>),
               s, m\<lparr> fixed_count_size := 0 \<rparr>)
           else Some (Inr (st\<lparr> iterator := iter\<lparr> pSize := FixedCountSize \<rparr> \<rparr>), s, m))
        else Some (Inr st, s, m))
        (\<lambda>st s m. let i = required_field_index iter in
           Some (Inr (if htype f = PB_HTYPE_REQUIRED \<and> i < PB_MAX_REQUIRED_FIELDS then
               st\<lparr> fields_seen := (fields_seen st)[i div 32 := fields_seen st ! (i div 32) OR push_bit (i mod 32) 1] \<rparr>
             else st), s, m)))"

partial_function (option) decode_loop :: "pb_env \<Rightarrow> pb_field_decoder \<Rightarrow> pb_decode_state \<Rightarrow> pb_istream \<Rightarrow> pb_memory \<Rightarrow> pb_decode_state pb_run" where
  "decode_loop env submessage st s m =
     (if bytes_left s = 0 then Some (Inr st, s, m)
      else case pb_decode_tag s of
        ((Inl e, s), eof) \<Rightarrow> if eof then Some (Inr st, s, m) else fail_with e s m
      | ((Inr (wire_type, tag), s), eof) \<Rightarrow> do {
          (found, iter) \<leftarrow> pb_field_iter_find (iterator st) tag;
          let st = st\<lparr> iterator := iter \<rparr>;
          run_then (if \<not> found then decode_unknown s wire_type tag st m
            else run_then (note_field s st m) (\<lambda>st s m.
              run_then (decode_field env submessage s wire_type (iterator st) m) (\<lambda>iter s m.
                Some (Inr (st\<lparr> iterator := iter \<rparr>), s, m))))
            (\<lambda>st s m. decode_loop env submessage st s m)
        })"

declare decode_loop.simps [code]

text \<open>The number of required fields, by seeking to the end of the descriptors.\<close>

function seek_end :: "pb_field_iter \<Rightarrow> nat \<times> pb_htype \<times> pb_field_iter" where
  "seek_end iter =
     (case pb_field_iter_next iter of
        (True, iter') \<Rightarrow> seek_end iter'
      | (False, iter') \<Rightarrow> (required_field_index iter, htype (pos_field iter), iter'))"
  by pat_completeness auto
termination
  by (relation "measure (\<lambda>iter. length (start iter) - pos iter)") (auto dest!: next_advances [OF sym])

declare seek_end.simps [simp del]

definition required_count :: "pb_field_iter \<Rightarrow> nat" where
  "required_count iter =
     (case seek_end iter of (req_field_count, last_type, iter) \<Rightarrow>
        let n = (if last_type = PB_HTYPE_REQUIRED \<and> field_tag (pos_field iter) \<noteq> 0 then req_field_count + 1 else req_field_count)
        in if n > PB_MAX_REQUIRED_FIELDS then PB_MAX_REQUIRED_FIELDS else n)"

definition required_present :: "u32 list \<Rightarrow> nat \<Rightarrow> bool" where
  "required_present seen req_field_count \<longleftrightarrow>
     (\<forall>i<req_field_count div 32. seen ! i = - 1) \<and>
     (req_field_count mod 32 \<noteq> 0 \<longrightarrow> seen ! (req_field_count div 32) = drop_bit (32 - req_field_count mod 32) (- 1))"

text \<open>\<open>pb_decode_noinit\<close> with the decoder of submessages as an argument.  The caller's
  \<open>fixed_count_size\<close> is another variable than this one's.\<close>

definition decode_noinit :: "pb_env \<Rightarrow> pb_field_decoder \<Rightarrow> pb_istream \<Rightarrow> pb_field list \<Rightarrow> pb_loc \<Rightarrow> pb_memory \<Rightarrow> unit pb_run" where
  "decode_noinit env submessage s fs dest m =
     map_option (\<lambda>(status, s, m'). (status, s, m'\<lparr> fixed_count_size := fixed_count_size m \<rparr>))
       (run_then (decode_loop env submessage
            \<lparr> iterator = snd (pb_field_iter_begin fs dest), fields_seen = [0, 0], fixed_count_field = None, extension_range_start = 0 \<rparr>
            s (m\<lparr> fixed_count_size := 0 \<rparr>))
         (\<lambda>st s m.
            if \<not> fixed_count_ok st m then fail_with ''wrong size for fixed count field'' s m
            else if \<not> required_present (fields_seen st) (required_count (iterator st)) then fail_with ''missing required field'' s m
            else Some (Inr (), s, m)))"

definition decode_init :: "pb_env \<Rightarrow> pb_field_decoder \<Rightarrow> pb_istream \<Rightarrow> pb_field list \<Rightarrow> pb_loc \<Rightarrow> pb_memory \<Rightarrow> unit pb_run" where
  "decode_init env submessage s fs dest m = do {
     m \<leftarrow> pb_message_set_to_defaults (tables env) fs dest m;
     (status, s, m) \<leftarrow> decode_noinit env submessage s fs dest m;
     m \<leftarrow> (case status of Inl _ \<Rightarrow> pb_release (tables env) fs dest m | Inr _ \<Rightarrow> Some m);
     Some (status, s, m)
   }"

text \<open>A submessage is decoded from a stream that is shorter than the one it is in, so the
  length of the stream bounds the depth of the calls.\<close>

primrec dec_submessage :: "nat \<Rightarrow> pb_env \<Rightarrow> pb_field_decoder" where
  "dec_submessage 0 env s f l m = None"
| "dec_submessage (Suc n) env s f l m =
     run_then (on_stream (pb_make_string_substream s) m) (\<lambda>sub s m.
       if ptr f = NoPtr then fail_with ''invalid field descriptor'' s m
       else do {
         fs \<leftarrow> submsg_fields (tables env) f;
         close_with s (if htype f = PB_HTYPE_REPEATED then decode_init env (dec_submessage n env) sub fs l m
           else decode_noinit env (dec_submessage n env) sub fs l m)
       })"

definition pb_dec_submessage :: "pb_env \<Rightarrow> pb_field_decoder" where
  "pb_dec_submessage env s f l m = dec_submessage (bytes_left s + 1) env s f l m"

definition pb_decode_noinit :: "pb_env \<Rightarrow> pb_istream \<Rightarrow> pb_field list \<Rightarrow> pb_loc \<Rightarrow> pb_memory \<Rightarrow> unit pb_run" where
  "pb_decode_noinit env s fs dest m = decode_noinit env (dec_submessage (bytes_left s) env) s fs dest m"

definition pb_decode :: "pb_env \<Rightarrow> pb_istream \<Rightarrow> pb_field list \<Rightarrow> pb_loc \<Rightarrow> pb_memory \<Rightarrow> unit pb_run" where
  "pb_decode env s fs dest m = decode_init env (dec_submessage (bytes_left s) env) s fs dest m"

definition pb_decode_delimited_noinit :: "pb_env \<Rightarrow> pb_istream \<Rightarrow> pb_field list \<Rightarrow> pb_loc \<Rightarrow> pb_memory \<Rightarrow> unit pb_run" where
  "pb_decode_delimited_noinit env s fs dest m =
     run_then (on_stream (pb_make_string_substream s) m) (\<lambda>sub s m. close_with s (pb_decode_noinit env sub fs dest m))"

definition pb_decode_delimited :: "pb_env \<Rightarrow> pb_istream \<Rightarrow> pb_field list \<Rightarrow> pb_loc \<Rightarrow> pb_memory \<Rightarrow> unit pb_run" where
  "pb_decode_delimited env s fs dest m =
     run_then (on_stream (pb_make_string_substream s) m) (\<lambda>sub s m. close_with s (pb_decode env sub fs dest m))"

definition pb_decode_nullterminated :: "pb_env \<Rightarrow> pb_istream \<Rightarrow> pb_field list \<Rightarrow> pb_loc \<Rightarrow> pb_memory \<Rightarrow> unit pb_run" where
  "pb_decode_nullterminated env s fs dest m = pb_decode env s fs dest m"

end
