(* ===== verification/PbWriteMessage.thy ===== *)
theory PbWriteMessage
  imports PbMessage
begin

text \<open>
  Encoding a message (\<open>pb_encode.c\<close>): the fields by allocation and repetition, submessages, and the loop over
  the fields.  The message is read from memory, which encoding does not change; undefined behaviour is
  \<open>None\<close>.  A callback of the user writes to the stream and may read the memory.  What is written to a stream that
  only counts is not read; elsewhere it is read before the stream is found to be full.
\<close>

type_synonym pb_enc_run = "pb_status option"

definition enc_then :: "pb_enc_run \<Rightarrow> (pb_ostream \<Rightarrow> pb_enc_run) \<Rightarrow> pb_enc_run" where
  "enc_then r f = (case r of
     None \<Rightarrow> None
   | Some (Inl e, s) \<Rightarrow> Some (Inl e, s)
   | Some (Inr _, s) \<Rightarrow> f s)"

lemma enc_then_bind: "enc_then r g = r \<bind> (\<lambda>p. case p of (res, s) \<Rightarrow> (case res of Inl e \<Rightarrow> Some (Inl e, s) | Inr _ \<Rightarrow> g s))"
  by (cases r) (auto simp: enc_then_def split: sum.splits)

lemma enc_then_mono [partial_function_mono]:
  assumes "mono_option r" and "\<And>s. mono_option (\<lambda>f. g f s)"
  shows "mono_option (\<lambda>f. enc_then (r f) (g f))"
proof -
  have "mono_option (\<lambda>f. case p of (res, s) \<Rightarrow> (case res of Inl e \<Rightarrow> Some (Inl e, s) | Inr _ \<Rightarrow> g f s))" for p
    by (cases p; cases "fst p") (auto intro!: partial_function_mono assms)
  then show ?thesis unfolding enc_then_bind by (intro partial_function_mono assms)
qed

record pb_enc_env =
  enc_tables :: pb_tables
  enc_callback :: "nat \<Rightarrow> pb_ostream \<Rightarrow> pb_field \<Rightarrow> pb_loc \<Rightarrow> pb_memory \<Rightarrow> (bool \<times> pb_ostream) option"

text \<open>\<open>pb_encode\<close>, as far as the functions it calls are concerned: descriptors, structure, stream.\<close>

type_synonym pb_encode_fn = "pb_field list \<Rightarrow> pb_loc \<Rightarrow> pb_ostream \<Rightarrow> pb_enc_run"

section \<open>Values\<close>

text \<open>The bytes that \<open>pb_write\<close> is given.\<close>

definition load_for :: "pb_ostream \<Rightarrow> pb_memory \<Rightarrow> pb_loc \<Rightarrow> nat \<Rightarrow> bytes option" where
  "load_for s m l n = (if has_callback s then load_at m l n else Some (replicate n 0))"

text \<open>A C string of at most \<open>lim\<close> characters.\<close>

definition c_string :: "pb_memory \<Rightarrow> pb_loc \<Rightarrow> nat \<Rightarrow> bytes option" where
  "c_string m l lim = do {
     blk \<leftarrow> blocks m (fst l);
     check (0 \<le> snd l \<and> nat (snd l) \<le> length blk);
     let rest = drop (nat (snd l)) blk;
     let str = takeWhile (\<lambda>c. c \<noteq> 0) (take lim rest);
     check (length str < length rest \<or> length str = lim);
     Some str
   }"

definition enc_bytes_at :: "pb_memory \<Rightarrow> pb_ostream \<Rightarrow> pb_field \<Rightarrow> pb_loc \<Rightarrow> pb_enc_run" where
  "enc_bytes_at m s f src =
     (if fst src = 0 then Some (pb_encode_string s [])
      else do {
        head \<leftarrow> load_at m src 4;
        let sz = le_val head;
        let allocsize = PB_BYTES_ARRAY_T_ALLOCSIZE sz;
        if allocsize < sz \<or> atype f = PB_ATYPE_STATIC \<and> data_size f < allocsize then Some (Inl ''bytes size exceeded'', s)
        else map_option (pb_encode_string s) (load_for s m (loc_add src 4) sz)
      })"

definition enc_string_at :: "pb_memory \<Rightarrow> pb_ostream \<Rightarrow> pb_field \<Rightarrow> pb_loc \<Rightarrow> pb_enc_run" where
  "enc_string_at m s f src =
     (let lim = (if atype f = PB_ATYPE_POINTER then SIZE_LIMIT - 1 else data_size f) in
      if fst src = 0 then Some (pb_encode_string s []) else map_option (pb_encode_string s) (c_string m src lim))"

definition encode_submessage_at :: "(pb_ostream \<Rightarrow> pb_enc_run) \<Rightarrow> pb_ostream \<Rightarrow> pb_enc_run" where
  "encode_submessage_at encode s = do {
     (status, sub) \<leftarrow> encode PB_OSTREAM_SIZING;
     case status of Inl e \<Rightarrow> Some (Inl e, s)
     | Inr _ \<Rightarrow> let sz = bytes_written sub in
         enc_then (Some (pb_encode_varint s (word_of_nat sz))) (\<lambda>s.
           if \<not> has_callback s then Some (pb_write_null s sz)
           else if max_size s < szadd (bytes_written s) sz then Some (Inl ''stream full'', s)
           else do {
             (status, sub) \<leftarrow> encode \<lparr> has_callback = has_callback s, written = written s, max_size = sz, bytes_written = 0 \<rparr>;
             let s = s\<lparr> bytes_written := szadd (bytes_written s) (bytes_written sub), written := written sub \<rparr>;
             Some (if bytes_written sub \<noteq> sz then (Inl (case status of Inl e \<Rightarrow> e | Inr _ \<Rightarrow> ''submsg size changed''), s)
               else (status, s))
           })
   }"

definition enc_submessage_at :: "pb_encode_fn \<Rightarrow> pb_tables \<Rightarrow> pb_ostream \<Rightarrow> pb_field \<Rightarrow> pb_loc \<Rightarrow> pb_enc_run" where
  "enc_submessage_at encode tabs s f src =
     (if ptr f = NoPtr then Some (Inl ''invalid field descriptor'', s)
      else do { fs \<leftarrow> submsg_fields tabs f; encode_submessage_at (encode fs src) s })"

text \<open>The encoders by type, as in the table \<open>PB_ENCODERS\<close>.  An integer of an invalid size is refused before it is read.\<close>

definition encode_value :: "pb_encode_fn \<Rightarrow> pb_tables \<Rightarrow> pb_memory \<Rightarrow> pb_ostream \<Rightarrow> pb_field \<Rightarrow> pb_loc \<Rightarrow> pb_enc_run" where
  "encode_value encode tabs m s f src =
     (let load_int = (if data_size f \<in> {1, 2, 4, 8} then load_at m src (data_size f) else Some []) in
      case ltype f of
        PB_LTYPE_BOOL \<Rightarrow> map_option (pb_enc_bool s f) (load_at m src 1)
      | PB_LTYPE_VARINT \<Rightarrow> map_option (pb_enc_varint s f) load_int
      | PB_LTYPE_UVARINT \<Rightarrow> map_option (pb_enc_uvarint s f) load_int
      | PB_LTYPE_SVARINT \<Rightarrow> map_option (pb_enc_svarint s f) load_int
      | PB_LTYPE_FIXED32 \<Rightarrow> map_option (pb_enc_fixed32 s f) (load_at m src 4)
      | PB_LTYPE_FIXED64 \<Rightarrow> map_option (pb_enc_fixed64 s f) (load_at m src 8)
      | PB_LTYPE_BYTES \<Rightarrow> enc_bytes_at m s f src
      | PB_LTYPE_STRING \<Rightarrow> enc_string_at m s f src
      | PB_LTYPE_SUBMESSAGE \<Rightarrow> enc_submessage_at encode tabs s f src
      | PB_LTYPE_EXTENSION \<Rightarrow> None
      | PB_LTYPE_FIXED_LENGTH_BYTES \<Rightarrow> map_option (pb_enc_fixed_length_bytes s f) (load_for s m src (data_size f)))"

section \<open>Arrays\<close>

primrec encode_entries :: "(pb_ostream \<Rightarrow> pb_loc \<Rightarrow> pb_enc_run) \<Rightarrow> nat \<Rightarrow> nat \<Rightarrow> pb_loc \<Rightarrow> pb_ostream \<Rightarrow> pb_enc_run" where
  "encode_entries func sz 0 p s = Some (Inr (), s)"
| "encode_entries func sz (Suc n) p s = enc_then (func s p) (encode_entries func sz n (loc_add p (int sz)))"

text \<open>Strings and byte arrays behind a pointer are pointers themselves.\<close>

definition encode_tagged :: "(pb_ostream \<Rightarrow> pb_loc \<Rightarrow> pb_enc_run) \<Rightarrow> pb_memory \<Rightarrow> pb_field \<Rightarrow> pb_ostream \<Rightarrow> pb_loc \<Rightarrow> pb_enc_run" where
  "encode_tagged func m f s p = enc_then (Some (pb_encode_tag_for_field s f)) (\<lambda>s.
     if atype f = PB_ATYPE_POINTER \<and> (ltype f = PB_LTYPE_STRING \<or> ltype f = PB_LTYPE_BYTES) then do {
       q \<leftarrow> load_ptr m p;
       func s (q, 0)
     } else func s p)"

definition encode_array_at :: "(pb_ostream \<Rightarrow> pb_loc \<Rightarrow> pb_enc_run) \<Rightarrow> pb_memory \<Rightarrow> pb_field \<Rightarrow> pb_loc \<Rightarrow> nat \<Rightarrow> pb_ostream \<Rightarrow> pb_enc_run" where
  "encode_array_at func m f p count s =
     (if count = 0 then Some (Inr (), s)
      else if atype f \<noteq> PB_ATYPE_POINTER \<and> count > array_size f then Some (Inl ''array max size exceeded'', s)
      else if packable f then
        enc_then (Some (pb_encode_tag s PB_WT_STRING (field_tag f))) (\<lambda>s. do {
          (status, sizestream) \<leftarrow> (if ltype f = PB_LTYPE_FIXED32 \<or> ltype f = PB_LTYPE_FIXED64 then Some (Inr (), PB_OSTREAM_SIZING)
            else encode_entries func (data_size f) count p PB_OSTREAM_SIZING);
          let sz = (if ltype f = PB_LTYPE_FIXED32 then szmul 4 count else if ltype f = PB_LTYPE_FIXED64 then szmul 8 count
            else bytes_written sizestream);
          if status \<noteq> Inr () then Some (Inl '''', s)
          else enc_then (Some (pb_encode_varint s (word_of_nat sz))) (\<lambda>s.
            if \<not> has_callback s then Some (pb_write_null s sz) else encode_entries func (data_size f) count p s)
        })
      else encode_entries (encode_tagged func m f) (data_size f) count p s)"

section \<open>Fields\<close>

text \<open>Whether a field without a presence flag has its default value and is left out.\<close>

partial_function (option) pb_check_proto3_default_value :: "pb_tables \<Rightarrow> pb_memory \<Rightarrow> pb_field \<Rightarrow> pb_loc \<Rightarrow> bool option" where
  "pb_check_proto3_default_value tabs m f data =
     (let size_loc = loc_add data (size_offset f); static = (atype f = PB_ATYPE_STATIC) in
      if htype f = PB_HTYPE_REQUIRED then Some False
      else if htype f = PB_HTYPE_REPEATED \<and> size_offset f \<noteq> 0 then map_option (\<lambda>n. n = 0) (load_size m (SizeAt size_loc))
      else if htype f = PB_HTYPE_REPEATED \<and> static then Some False
      else if htype f = PB_HTYPE_ONEOF then map_option (\<lambda>n. n = 0) (load_size m (SizeAt size_loc))
      else if htype f = PB_HTYPE_OPTIONAL \<and> size_offset f \<noteq> 0 then map_option (\<lambda>b. \<not> safe_read_bool b) (load_at m size_loc 1)
      else if static \<and> ltype f = PB_LTYPE_BYTES then map_option (\<lambda>n. n = 0) (load_size m (SizeAt data))
      else if static \<and> ltype f = PB_LTYPE_STRING then map_option (\<lambda>b. b = [0]) (load_at m data 1)
      else if static \<and> ltype f = PB_LTYPE_FIXED_LENGTH_BYTES then Some (data_size f = 0)
      else if static \<and> ltype f = PB_LTYPE_SUBMESSAGE then do {
        fs \<leftarrow> submsg_fields tabs f;
        let (nonempty, iter) = pb_field_iter_begin fs data;
        if nonempty then do_fields (\<lambda>iter default. if \<not> default then Some False
            else pb_check_proto3_default_value tabs m (pos_field iter) (pData iter)) iter True
        else Some True
      }
      else if atype f = PB_ATYPE_POINTER \<and> \<not> packable f then map_option (\<lambda>p. p = 0) (load_ptr m data)
      else map_option (\<lambda>bs. \<forall>b\<in>set bs. b = 0) (load_at m data (data_size f)))"

declare pb_check_proto3_default_value.simps [code]

text \<open>A field that is stored in the structure or behind a pointer in it.  \<open>implicit_has\<close> stands for the flag of a field that
  has none in the structure.\<close>

definition encode_basic_field :: "pb_encode_fn \<Rightarrow> pb_tables \<Rightarrow> pb_memory \<Rightarrow> pb_ostream \<Rightarrow> pb_field \<Rightarrow> pb_loc \<Rightarrow> pb_enc_run" where
  "encode_basic_field encode tabs m s f data =
     (let size_loc = loc_add data (size_offset f); func = (\<lambda>s. encode_value encode tabs m s f) in do {
        implicit_has \<leftarrow> (if size_offset f = 0 \<and> htype f = PB_HTYPE_OPTIONAL
          then map_option Not (pb_check_proto3_default_value tabs m f data) else Some True);
        src \<leftarrow> (if atype f = PB_ATYPE_POINTER then map_option (\<lambda>p. (p, 0)) (load_ptr m data) else Some data);
        let implicit_has = (if atype f = PB_ATYPE_POINTER then fst src \<noteq> 0 else implicit_has);
        case htype f of
          PB_HTYPE_REQUIRED \<Rightarrow>
            if fst src = 0 then Some (Inl ''missing required field'', s)
            else enc_then (Some (pb_encode_tag_for_field s f)) (\<lambda>s. func s src)
        | PB_HTYPE_OPTIONAL \<Rightarrow> do {
            has \<leftarrow> (if size_offset f \<noteq> 0 then map_option safe_read_bool (load_at m size_loc 1) else Some implicit_has);
            if has then enc_then (Some (pb_encode_tag_for_field s f)) (\<lambda>s. func s src) else Some (Inr (), s)
          }
        | PB_HTYPE_REPEATED \<Rightarrow> do {
            count \<leftarrow> (if size_offset f \<noteq> 0 then load_size m (SizeAt size_loc) else Some (array_size f));
            encode_array_at func m f src count s
          }
        | PB_HTYPE_ONEOF \<Rightarrow> do {
            which \<leftarrow> (if size_offset f \<noteq> 0 then load_size m (SizeAt size_loc) else None);
            if which = unat (field_tag f) then enc_then (Some (pb_encode_tag_for_field s f)) (\<lambda>s. func s src)
            else Some (Inr (), s)
          }
      })"

definition encode_callback_field :: "pb_enc_env \<Rightarrow> pb_memory \<Rightarrow> pb_ostream \<Rightarrow> pb_field \<Rightarrow> pb_loc \<Rightarrow> pb_enc_run" where
  "encode_callback_field env m s f data = do {
     fn \<leftarrow> load_ptr m data;
     if fn = 0 then Some (Inr (), s)
     else do {
       (ok, s) \<leftarrow> enc_callback env fn s f (loc_add data 8) m;
       Some (if ok then Inr () else Inl ''callback error'', s)
     }
   }"

definition encode_field :: "pb_encode_fn \<Rightarrow> pb_enc_env \<Rightarrow> pb_memory \<Rightarrow> pb_ostream \<Rightarrow> pb_field \<Rightarrow> pb_loc \<Rightarrow> pb_enc_run" where
  "encode_field encode env m s f data =
     (case atype f of
        PB_ATYPE_CALLBACK \<Rightarrow> encode_callback_field env m s f data
      | _ \<Rightarrow> encode_basic_field encode (enc_tables env) m s f data)"

section \<open>Messages\<close>

text \<open>One round of the loop over the fields; the rounds after a failure do nothing.\<close>

definition encode_step :: "pb_encode_fn \<Rightarrow> pb_enc_env \<Rightarrow> pb_memory \<Rightarrow> pb_field_iter \<Rightarrow> pb_status \<Rightarrow> pb_enc_run" where
  "encode_step encode env m iter r = enc_then (Some r) (\<lambda>s.
     if ltype (pos_field iter) = PB_LTYPE_EXTENSION then do { _ \<leftarrow> no_extensions m (pData iter); Some (Inr (), s) }
     else encode_field encode env m s (pos_field iter) (pData iter))"

lemma encode_entries_mono [partial_function_mono]:
  assumes "\<And>s p. mono_option (\<lambda>f. g f s p)"
  shows "mono_option (\<lambda>f. encode_entries (g f) sz n p s)"
proof (induction n arbitrary: p s)
  case (Suc n)
  show ?case unfolding encode_entries.simps by (intro partial_function_mono assms Suc)
qed (simp add: partial_function_mono)

lemma encode_submessage_at_mono [partial_function_mono]:
  assumes "\<And>s. mono_option (\<lambda>f. g f s)"
  shows "mono_option (\<lambda>f. encode_submessage_at (g f) s)"
proof -
  have "mono_option (\<lambda>f. case y of (Inl e, sub) \<Rightarrow> Some (Inl e, s)
     | (Inr u, sub) \<Rightarrow> enc_then (Some (pb_encode_varint s (word_of_nat (bytes_written sub)))) (\<lambda>s.
           if \<not> has_callback s then Some (pb_write_null s (bytes_written sub))
           else if max_size s < szadd (bytes_written s) (bytes_written sub) then Some (Inl ''stream full'', s)
           else g f \<lparr> has_callback = has_callback s, written = written s, max_size = bytes_written sub, bytes_written = 0 \<rparr> \<bind>
             (\<lambda>(status, sub'). Some (h s sub status sub'))))" for y :: pb_status and h
    by (cases y; cases "fst y") (auto intro!: partial_function_mono assms)
  then show ?thesis unfolding encode_submessage_at_def Let_def by (intro partial_function_mono assms)
qed

lemma encode_step_mono [partial_function_mono]:
  assumes "\<And>fs l s. mono_option (\<lambda>f. g f fs l s)"
  shows "mono_option (\<lambda>f. encode_step (g f) env m iter r)"
proof -
  have val: "mono_option (\<lambda>f. encode_value (g f) tabs m s fld src)" for tabs s fld src
    unfolding encode_value_def enc_submessage_at_def Let_def by (cases "ltype fld") (auto intro!: partial_function_mono assms)
  have array: "mono_option (\<lambda>f. encode_array_at (\<lambda>s. encode_value (g f) tabs m s fld) m fld p count s)" for tabs fld p count s
    unfolding encode_array_at_def encode_tagged_def Let_def
    apply (intro partial_function_mono val)
    subgoal for s y by (cases y) (auto intro!: partial_function_mono val)
    done
  have basic: "mono_option (\<lambda>f. encode_basic_field (g f) tabs m s fld p)" for tabs s fld p
    unfolding encode_basic_field_def Let_def by (cases "htype fld") (auto intro!: partial_function_mono val array)
  have field: "mono_option (\<lambda>f. encode_field (g f) env m s fld p)" for s fld p
    unfolding encode_field_def by (cases "atype fld") (auto intro!: partial_function_mono basic)
  show ?thesis unfolding encode_step_def by (intro partial_function_mono field)
qed

partial_function (option) pb_encode :: "pb_enc_env \<Rightarrow> pb_memory \<Rightarrow> pb_field list \<Rightarrow> pb_loc \<Rightarrow> pb_ostream \<Rightarrow> pb_enc_run" where
  "pb_encode env m fs src s =
     (case pb_field_iter_begin fs src of (nonempty, iter) \<Rightarrow>
        if \<not> nonempty then Some (Inr (), s)
        else do_fields (encode_step (\<lambda>fs src s. pb_encode env m fs src s) env m) iter (Inr (), s))"

declare pb_encode.simps [code]

definition pb_encode_delimited :: "pb_enc_env \<Rightarrow> pb_memory \<Rightarrow> pb_field list \<Rightarrow> pb_loc \<Rightarrow> pb_ostream \<Rightarrow> pb_enc_run" where
  "pb_encode_delimited env m fs src s = encode_submessage_at (pb_encode env m fs src) s"

definition pb_encode_nullterminated :: "pb_enc_env \<Rightarrow> pb_memory \<Rightarrow> pb_field list \<Rightarrow> pb_loc \<Rightarrow> pb_ostream \<Rightarrow> pb_enc_run" where
  "pb_encode_nullterminated env m fs src s = enc_then (pb_encode env m fs src s) (\<lambda>s. Some (pb_write s [0]))"

text \<open>The size, or the error.\<close>

definition pb_get_encoded_size :: "pb_enc_env \<Rightarrow> pb_memory \<Rightarrow> pb_field list \<Rightarrow> pb_loc \<Rightarrow> (string + nat) option" where
  "pb_get_encoded_size env m fs src =
     map_option (\<lambda>(status, s). case status of Inl e \<Rightarrow> Inl e | Inr _ \<Rightarrow> Inr (bytes_written s)) (pb_encode env m fs src PB_OSTREAM_SIZING)"

end
