(* ===== verification/PbLayout.thy ===== *)
theory PbLayout
  imports PbMessage
begin

text \<open>
  What the iterator does on a well-formed array of descriptors, and what it means that a structure in
  memory has room for the message.
\<close>

section \<open>The iterator, position by position\<close>

primrec iter_nth :: "pb_field list \<Rightarrow> pb_loc \<Rightarrow> nat \<Rightarrow> pb_field_iter" where
  "iter_nth fs dest 0 = snd (pb_field_iter_begin fs dest)"
| "iter_nth fs dest (Suc i) = snd (pb_field_iter_next (iter_nth fs dest i))"

definition tags_ok :: "pb_field list \<Rightarrow> bool" where
  "tags_ok fs \<longleftrightarrow> (\<forall>f\<in>set fs. field_tag f \<noteq> 0)"

lemma begin_simps [simp]:
  "start (snd (pb_field_iter_begin fs dest)) = fs" "pos (snd (pb_field_iter_begin fs dest)) = 0"
  "dest_struct (snd (pb_field_iter_begin fs dest)) = dest"
  by (simp_all add: pb_field_iter_begin_def Let_def)

lemma tags_ok_nth: "tags_ok fs \<Longrightarrow> i < length fs \<Longrightarrow> field_tag (fs ! i) \<noteq> 0"
  by (simp add: tags_ok_def)

lemma iter_next_at:
  assumes "tags_ok fs" and "start iter = fs" and "pos iter = i" and "dest_struct iter = dest" and "i < length fs"
  shows "fst (pb_field_iter_next iter) \<longleftrightarrow> Suc i < length fs"
    and "Suc i < length fs \<Longrightarrow> start (snd (pb_field_iter_next iter)) = fs \<and> pos (snd (pb_field_iter_next iter)) = Suc i \<and>
      dest_struct (snd (pb_field_iter_next iter)) = dest"
    and "\<not> Suc i < length fs \<Longrightarrow> snd (pb_field_iter_next iter) = iter_nth fs dest 0"
  using assms tags_ok_nth [OF assms(1), of i] tags_ok_nth [OF assms(1), of "Suc i"]
  by (auto simp: pb_field_iter_next_def pos_field_def field_at_def PB_LAST_FIELD_def Let_def)

lemma iter_nth_simps:
  assumes "tags_ok fs" and "i < length fs"
  shows "start (iter_nth fs dest i) = fs \<and> pos (iter_nth fs dest i) = i \<and> dest_struct (iter_nth fs dest i) = dest"
  using assms(2)
proof (induction i)
  case (Suc i)
  then show ?case using iter_next_at(2) [OF assms(1), of "iter_nth fs dest i" i dest] by simp
qed simp

lemma iter_nth_pos: "tags_ok fs \<Longrightarrow> i < length fs \<Longrightarrow> pos (iter_nth fs dest i) = i"
  and iter_nth_start: "tags_ok fs \<Longrightarrow> i < length fs \<Longrightarrow> start (iter_nth fs dest i) = fs"
  and iter_nth_field: "tags_ok fs \<Longrightarrow> i < length fs \<Longrightarrow> pos_field (iter_nth fs dest i) = fs ! i"
  using iter_nth_simps by (simp_all add: pos_field_def field_at_def)

lemma next_iter_nth:
  assumes "tags_ok fs" "i < length fs"
  shows "pb_field_iter_next (iter_nth fs dest i) = (Suc i < length fs, iter_nth fs dest (if Suc i < length fs then Suc i else 0))"
  using iter_next_at(1,3) [OF assms(1) _ _ _ assms(2), of "iter_nth fs dest i" dest] iter_nth_simps [OF assms, of dest]
  by (auto simp: prod_eq_iff)

text \<open>Only a member of a union passes its \<open>pSize\<close> on.\<close>

lemma next_pSize:
  "htype (pos_field iter) \<noteq> PB_HTYPE_ONEOF \<Longrightarrow> pb_field_iter_next (iter\<lparr>pSize := p\<rparr>) =
     (fst (pb_field_iter_next iter), if field_tag (pos_field iter) = 0 then iter\<lparr>pSize := p\<rparr> else snd (pb_field_iter_next iter))"
  by (simp add: pb_field_iter_next_def pos_field_def Let_def)

section \<open>Finding a field\<close>

definition matches :: "u32 \<Rightarrow> pb_field \<Rightarrow> bool" where
  "matches tag f \<longleftrightarrow> field_tag f = tag \<and> ltype f \<noteq> PB_LTYPE_EXTENSION"

text \<open>The first match, in the order in which the search visits the fields.\<close>

definition search_order :: "nat \<Rightarrow> nat \<Rightarrow> nat list" where
  "search_order n j = [j..<n] @ [0..<j]"

lemma find_loop_before:
  assumes "tags_ok fs" "k < first" "first < length fs"
  shows "find_loop first tag (iter_nth fs dest k) = Some
    (case find (\<lambda>i. matches tag (fs ! i)) [k..<first] of Some i \<Rightarrow> (True, iter_nth fs dest i) | None \<Rightarrow> (False, iter_nth fs dest first))"
  using assms(2)
proof (induction "first - k" arbitrary: k)
  case (Suc d)
  have k: "k < length fs" "Suc k < length fs" using Suc.prems assms(3) by simp_all
  have order: "[k..<first] = k # [Suc k..<first]" using Suc.prems by (rule upt_conv_Cons)
  show ?case
  proof (cases "matches tag (fs ! k)")
    case True
    then show ?thesis using k by (subst find_loop.simps) (simp add: order iter_nth_field assms(1) matches_def)
  next
    case False
    have "find_loop first tag (iter_nth fs dest k) = (if Suc k \<noteq> first then find_loop first tag (iter_nth fs dest (Suc k)) else Some (False, iter_nth fs dest (Suc k)))"
      using False k by (subst find_loop.simps) (auto simp: iter_nth_field iter_nth_pos next_iter_nth assms(1) matches_def Let_def simp del: iter_nth.simps)
    then show ?thesis using Suc False by (cases "Suc k = first") (simp_all add: order del: iter_nth.simps)
  qed
qed simp

lemma find_loop_after:
  assumes "tags_ok fs" "first \<le> k" "k < length fs"
  shows "find_loop first tag (iter_nth fs dest k) = Some
    (case find (\<lambda>i. matches tag (fs ! i)) ([k..<length fs] @ [0..<first]) of Some i \<Rightarrow> (True, iter_nth fs dest i) | None \<Rightarrow> (False, iter_nth fs dest first))"
  using assms(2,3)
proof (induction "length fs - k" arbitrary: k)
  case (Suc d)
  have order: "[k..<length fs] = k # [Suc k..<length fs]" using Suc.prems(2) by (rule upt_conv_Cons)
  show ?case
  proof (cases "matches tag (fs ! k)")
    case True
    then show ?thesis using Suc.prems by (subst find_loop.simps) (simp add: order iter_nth_field assms(1) matches_def)
  next
    case False
    have unmatched: "\<not> (field_tag (pos_field (iter_nth fs dest k)) = tag \<and> ltype (pos_field (iter_nth fs dest k)) \<noteq> PB_LTYPE_EXTENSION)"
      using False Suc.prems by (simp add: iter_nth_field assms(1) matches_def)
    note next_k = next_iter_nth [OF assms(1) Suc.prems(2), of dest]
    show ?thesis
    proof (cases "Suc k < length fs")
      case True
      then have "find_loop first tag (iter_nth fs dest k) = find_loop first tag (iter_nth fs dest (Suc k))"
        using Suc.prems next_k
        by (subst find_loop.simps, subst if_not_P [OF unmatched]) (simp add: Let_def iter_nth_pos assms(1) del: iter_nth.simps)
      then show ?thesis using True Suc False by (simp add: order del: iter_nth.simps)
    next
      case last: False
      then have step: "find_loop first tag (iter_nth fs dest k) =
          (if 0 \<noteq> first then find_loop first tag (iter_nth fs dest 0) else Some (False, iter_nth fs dest 0))"
        using Suc.prems next_k by (subst find_loop.simps, subst if_not_P [OF unmatched]) (simp add: Let_def)
      have order': "find (\<lambda>i. matches tag (fs ! i)) ([k..<length fs] @ [0..<first]) = find (\<lambda>i. matches tag (fs ! i)) [0..<first]"
        using False last by (simp add: order not_less)
      have "find_loop first tag (iter_nth fs dest k) = Some
          (case find (\<lambda>i. matches tag (fs ! i)) [0..<first] of Some i \<Rightarrow> (True, iter_nth fs dest i) | None \<Rightarrow> (False, iter_nth fs dest first))"
      proof (cases "first = 0")
        case True
        then show ?thesis unfolding step using last by simp
      next
        case False
        then show ?thesis unfolding step using last find_loop_before [OF assms(1), of 0 first tag dest] Suc.prems by simp
      qed
      then show ?thesis unfolding order' .
    qed
  qed
qed simp

lemma iter_find_nth:
  assumes "tags_ok fs" "j < length fs"
  shows "pb_field_iter_find (iter_nth fs dest j) tag = Some (case find (\<lambda>i. matches tag (fs ! i)) (search_order (length fs) j) of
      Some i \<Rightarrow> (True, iter_nth fs dest i) | None \<Rightarrow> (False, iter_nth fs dest j))"
  using assms find_loop_after [of fs j j tag dest] by (simp add: pb_field_iter_find_def search_order_def iter_nth_pos del: iter_nth.simps)

section \<open>Locations in the structure\<close>

definition data_pos :: "pb_field list \<Rightarrow> nat \<Rightarrow> int" where
  "data_pos fs i = snd (pData (iter_nth fs (0, 0) i))"

definition size_pos :: "pb_field list \<Rightarrow> nat \<Rightarrow> int" where
  "size_pos fs i = (case pSize (iter_nth fs (0, 0) i) of SizeAt l \<Rightarrow> snd l | FixedCountSize \<Rightarrow> 0)"

lemma loc_add_simps [simp]: "fst (loc_add l n) = fst l" "snd (loc_add l n) = snd l + n" "loc_add l 0 = l"
  "loc_add (loc_add l n) k = loc_add l (n + k)"
  by (simp_all add: loc_add_def add.assoc)

lemma iter_nth_shift:
  assumes "tags_ok fs" "i < length fs"
  shows "pData (iter_nth fs dest i) = loc_add dest (snd (pData (iter_nth fs (0, 0) i))) \<and>
    fst (pData (iter_nth fs (0, 0) i)) = 0 \<and> (\<exists>p. pSize (iter_nth fs dest i) = SizeAt (loc_add dest p) \<and> pSize (iter_nth fs (0, 0) i) = SizeAt (0, p))"
  using assms(2)
proof (induction i)
  case 0
  then show ?case by (simp add: pb_field_iter_begin_def Let_def loc_add_def)
next
  case (Suc i)
  then have i: "i < length fs" by simp
  note ih = Suc.IH [OF i]
  have st: "pos_field (iter_nth fs dest i) = fs ! i" "pos_field (iter_nth fs (0, 0) i) = fs ! i"
      "start (iter_nth fs dest i) = fs" "start (iter_nth fs (0, 0) i) = fs" "pos (iter_nth fs dest i) = i" "pos (iter_nth fs (0, 0) i) = i"
    using iter_nth_simps [OF assms(1) i] iter_nth_field [OF assms(1) i] by simp_all
  have ft: "field_at fs (Suc i) = fs ! Suc i" "field_tag (fs ! i) \<noteq> 0" "field_tag (fs ! Suc i) \<noteq> 0"
    using Suc.prems tags_ok_nth [OF assms(1)] by (simp_all add: field_at_def)
  show ?case
    using ih ft by (auto simp: pb_field_iter_next_def st Let_def loc_add_def add.assoc)
qed

lemma iter_nth_loc:
  assumes "tags_ok fs" "i < length fs"
  shows "pData (iter_nth fs dest i) = loc_add dest (data_pos fs i)" "pSize (iter_nth fs dest i) = SizeAt (loc_add dest (size_pos fs i))"
  using iter_nth_shift [OF assms, of dest] by (auto simp: data_pos_def size_pos_def)

section \<open>Room for a message\<close>

text \<open>Room for one value of the field's type.\<close>

definition value_room :: "pb_field \<Rightarrow> bool" where
  "value_room f \<longleftrightarrow> (case ltype f of
     PB_LTYPE_BOOL \<Rightarrow> 1 \<le> data_size f
   | PB_LTYPE_FIXED32 \<Rightarrow> 4 \<le> data_size f
   | PB_LTYPE_FIXED64 \<Rightarrow> 8 \<le> data_size f
   | PB_LTYPE_BYTES \<Rightarrow> 4 \<le> data_size f
   | PB_LTYPE_STRING \<Rightarrow> 1 \<le> data_size f
   | PB_LTYPE_EXTENSION \<Rightarrow> False
   | _ \<Rightarrow> True)"

definition entries :: "pb_field \<Rightarrow> nat" where
  "entries f = (if htype f = PB_HTYPE_REPEATED then array_size f else 1)"

text \<open>Room for a statically allocated field whose data are \<open>d\<close> bytes and whose count or presence flag is \<open>p\<close> bytes into a
  structure of size \<open>sz\<close>, where the iterator and the descriptor agree on it.  A count takes four bytes; also where there is none (\<open>p = d\<close>), since the
  initialisation of a message clears it all the same.\<close>

definition field_room :: "pb_field \<Rightarrow> int \<Rightarrow> int \<Rightarrow> nat \<Rightarrow> bool" where
  "field_room f d p sz \<longleftrightarrow> atype f = PB_ATYPE_STATIC \<and> value_room f \<and> 0 \<le> d \<and> d + int (data_size f * entries f) \<le> int sz \<and>
     (case htype f of
        PB_HTYPE_REQUIRED \<Rightarrow> True
      | PB_HTYPE_OPTIONAL \<Rightarrow> p = d \<or> 0 \<le> p \<and> p + 1 \<le> int sz
      | PB_HTYPE_REPEATED \<Rightarrow> 0 \<le> p \<and> p + 4 \<le> int sz
      | PB_HTYPE_ONEOF \<Rightarrow> p \<noteq> d \<and> 0 \<le> p \<and> p + 4 \<le> int sz) \<and>
     p = d + size_offset f \<and> data_size f < 2 ^ 32 \<and> array_size f < 2 ^ 32 \<and>
     (ltype f \<noteq> PB_LTYPE_SUBMESSAGE \<longrightarrow> (case ptr f of NoPtr \<Rightarrow> True | DefaultValue v \<Rightarrow> data_size f \<le> length v | Submessage a \<Rightarrow> False))"

inductive static_layout :: "pb_tables \<Rightarrow> pb_field list \<Rightarrow> nat \<Rightarrow> bool" for tabs where
  layout: "fs \<noteq> [] \<Longrightarrow> tags_ok fs \<Longrightarrow>
    (\<And>i. i < length fs \<Longrightarrow> field_room (fs ! i) (data_pos fs i) (size_pos fs i) sz) \<Longrightarrow>
    (\<And>f. f \<in> set fs \<Longrightarrow> ltype f = PB_LTYPE_SUBMESSAGE \<Longrightarrow> \<exists>a. ptr f = Submessage a \<and> static_layout tabs (tabs a) (data_size f)) \<Longrightarrow>
    static_layout tabs fs sz"

end
