(* ===== verification/PbMacros.thy ===== *)
theory PbMacros
  imports PbLayout
begin

text \<open>
  The macros of \<open>pb.h\<close> by which generated code describes the members of a structure, and what the
  iterator makes of the descriptors: it arrives at each member's offset.
\<close>

section \<open>Descriptors from members\<close>

text \<open>Of a member \<open>m\<close>: \<open>offsetof\<close>, \<open>sizeof\<close>, the size of \<open>m[0]\<close>, and the offset of the member \<open>has_m\<close>,
  \<open>m_count\<close> or \<open>which_u\<close> that goes with it.\<close>

record pb_member =
  offset :: nat
  membersize :: nat
  itemsize :: nat
  companion :: nat

definition pb_arraysize :: "pb_member \<Rightarrow> nat" where
  "pb_arraysize m = membersize m div itemsize m"

definition pb_delta :: "pb_member \<Rightarrow> int" where
  "pb_delta m = int (companion m) - int (offset m)"

datatype pb_placement = FIRST | OTHER pb_member | UNION

text \<open>The subtraction is that of \<open>size_t\<close>, its result a \<open>pb_size_t\<close>.\<close>

definition PB_DATAOFFSET :: "pb_placement \<Rightarrow> pb_member \<Rightarrow> nat" where
  "PB_DATAOFFSET placement m = (case placement of
     FIRST \<Rightarrow> offset m
   | OTHER prev \<Rightarrow> nat ((int (offset m) - int (offset prev) - int (membersize prev)) mod 2 ^ 32)
   | UNION \<Rightarrow> PB_SIZE_MAX)"

definition descriptor :: "u32 \<Rightarrow> pb_ltype \<Rightarrow> pb_htype \<Rightarrow> pb_atype \<Rightarrow> nat \<Rightarrow> int \<Rightarrow> nat \<Rightarrow> nat \<Rightarrow> pb_field_ptr \<Rightarrow> pb_field" where
  "descriptor tag lt ht al fd so ds n p = \<lparr> field_tag = tag, ltype = lt, htype = ht, atype = al, data_offset = fd,
     size_offset = so, data_size = ds, array_size = n, ptr = p \<rparr>"

lemma descriptor_simps [simp]:
  "field_tag (descriptor tag lt ht al fd so ds n p) = tag" "ltype (descriptor tag lt ht al fd so ds n p) = lt"
  "htype (descriptor tag lt ht al fd so ds n p) = ht" "atype (descriptor tag lt ht al fd so ds n p) = al"
  "data_offset (descriptor tag lt ht al fd so ds n p) = fd" "size_offset (descriptor tag lt ht al fd so ds n p) = so"
  "data_size (descriptor tag lt ht al fd so ds n p) = ds" "array_size (descriptor tag lt ht al fd so ds n p) = n"
  "ptr (descriptor tag lt ht al fd so ds n p) = p"
  by (simp_all add: descriptor_def)

text \<open>The rule of a field; \<open>FIXED_COUNT\<close> is \<open>PB_REPEATED_FIXED_COUNT\<close>.\<close>

datatype pb_rules = REQUIRED | OPTIONAL | SINGULAR | REPEATED | FIXED_COUNT | ONEOF

fun rules_htype :: "pb_rules \<Rightarrow> pb_htype" where
  "rules_htype REQUIRED = PB_HTYPE_REQUIRED"
| "rules_htype OPTIONAL = PB_HTYPE_OPTIONAL"
| "rules_htype SINGULAR = PB_HTYPE_OPTIONAL"
| "rules_htype REPEATED = PB_HTYPE_REPEATED"
| "rules_htype FIXED_COUNT = PB_HTYPE_REPEATED"
| "rules_htype ONEOF = PB_HTYPE_ONEOF"

text \<open>A member of a union \<open>u\<close> is \<open>u.m\<close>, and its companion \<open>which_u\<close>; the macros for anonymous unions differ only in how the
  member is written.  There is no macro for a union member handled by a callback.\<close>

definition PB_ONEOF_STATIC :: "u32 \<Rightarrow> pb_member \<Rightarrow> nat \<Rightarrow> pb_ltype \<Rightarrow> pb_field_ptr \<Rightarrow> pb_field" where
  "PB_ONEOF_STATIC tag m fd lt p = descriptor tag lt PB_HTYPE_ONEOF PB_ATYPE_STATIC fd (pb_delta m) (membersize m) 0 p"

definition PB_ONEOF_POINTER :: "u32 \<Rightarrow> pb_member \<Rightarrow> nat \<Rightarrow> pb_ltype \<Rightarrow> pb_field_ptr \<Rightarrow> pb_field" where
  "PB_ONEOF_POINTER tag m fd lt p = descriptor tag lt PB_HTYPE_ONEOF PB_ATYPE_POINTER fd (pb_delta m) (itemsize m) 0 p"

fun PB_STATIC :: "pb_rules \<Rightarrow> u32 \<Rightarrow> pb_member \<Rightarrow> nat \<Rightarrow> pb_ltype \<Rightarrow> pb_field_ptr \<Rightarrow> pb_field" where
  "PB_STATIC REQUIRED tag m fd lt p = descriptor tag lt PB_HTYPE_REQUIRED PB_ATYPE_STATIC fd 0 (membersize m) 0 p"
| "PB_STATIC OPTIONAL tag m fd lt p = descriptor tag lt PB_HTYPE_OPTIONAL PB_ATYPE_STATIC fd (pb_delta m) (membersize m) 0 p"
| "PB_STATIC SINGULAR tag m fd lt p = descriptor tag lt PB_HTYPE_OPTIONAL PB_ATYPE_STATIC fd 0 (membersize m) 0 p"
| "PB_STATIC REPEATED tag m fd lt p = descriptor tag lt PB_HTYPE_REPEATED PB_ATYPE_STATIC fd (pb_delta m) (itemsize m) (pb_arraysize m) p"
| "PB_STATIC FIXED_COUNT tag m fd lt p = descriptor tag lt PB_HTYPE_REPEATED PB_ATYPE_STATIC fd 0 (itemsize m) (pb_arraysize m) p"
| "PB_STATIC ONEOF tag m fd lt p = PB_ONEOF_STATIC tag m fd lt p"

definition PB_POINTER :: "pb_rules \<Rightarrow> u32 \<Rightarrow> pb_member \<Rightarrow> nat \<Rightarrow> pb_ltype \<Rightarrow> pb_field_ptr \<Rightarrow> pb_field" where
  "PB_POINTER rules tag m fd lt p =
     (if rules = ONEOF then PB_ONEOF_POINTER tag m fd lt p
      else descriptor tag lt (rules_htype rules) PB_ATYPE_POINTER fd (if rules = REPEATED then pb_delta m else 0) (itemsize m) 0 p)"

definition PB_CALLBACK :: "pb_rules \<Rightarrow> u32 \<Rightarrow> pb_member \<Rightarrow> nat \<Rightarrow> pb_ltype \<Rightarrow> pb_field_ptr \<Rightarrow> pb_field" where
  "PB_CALLBACK rules tag m fd lt p = descriptor tag lt (rules_htype rules) PB_ATYPE_CALLBACK fd 0 (membersize m) 0 p"

datatype pb_proto_type = T_BOOL | T_BYTES | T_DOUBLE | T_ENUM | T_UENUM | T_FIXED32 | T_FIXED64 | T_FLOAT | T_INT32 | T_INT64 |
  T_MESSAGE | T_SFIXED32 | T_SFIXED64 | T_SINT32 | T_SINT64 | T_STRING | T_UINT32 | T_UINT64 | T_EXTENSION | T_FIXED_LENGTH_BYTES

fun PB_LTYPE_MAP :: "pb_proto_type \<Rightarrow> pb_ltype" where
  "PB_LTYPE_MAP T_BOOL = PB_LTYPE_BOOL"
| "PB_LTYPE_MAP T_BYTES = PB_LTYPE_BYTES"
| "PB_LTYPE_MAP T_DOUBLE = PB_LTYPE_FIXED64"
| "PB_LTYPE_MAP T_ENUM = PB_LTYPE_VARINT"
| "PB_LTYPE_MAP T_UENUM = PB_LTYPE_UVARINT"
| "PB_LTYPE_MAP T_FIXED32 = PB_LTYPE_FIXED32"
| "PB_LTYPE_MAP T_FIXED64 = PB_LTYPE_FIXED64"
| "PB_LTYPE_MAP T_FLOAT = PB_LTYPE_FIXED32"
| "PB_LTYPE_MAP T_INT32 = PB_LTYPE_VARINT"
| "PB_LTYPE_MAP T_INT64 = PB_LTYPE_VARINT"
| "PB_LTYPE_MAP T_MESSAGE = PB_LTYPE_SUBMESSAGE"
| "PB_LTYPE_MAP T_SFIXED32 = PB_LTYPE_FIXED32"
| "PB_LTYPE_MAP T_SFIXED64 = PB_LTYPE_FIXED64"
| "PB_LTYPE_MAP T_SINT32 = PB_LTYPE_SVARINT"
| "PB_LTYPE_MAP T_SINT64 = PB_LTYPE_SVARINT"
| "PB_LTYPE_MAP T_STRING = PB_LTYPE_STRING"
| "PB_LTYPE_MAP T_UINT32 = PB_LTYPE_UVARINT"
| "PB_LTYPE_MAP T_UINT64 = PB_LTYPE_UVARINT"
| "PB_LTYPE_MAP T_EXTENSION = PB_LTYPE_EXTENSION"
| "PB_LTYPE_MAP T_FIXED_LENGTH_BYTES = PB_LTYPE_FIXED_LENGTH_BYTES"

definition PB_FIELD :: "u32 \<Rightarrow> pb_proto_type \<Rightarrow> pb_rules \<Rightarrow> pb_atype \<Rightarrow> pb_placement \<Rightarrow> pb_member \<Rightarrow> pb_field_ptr \<Rightarrow> pb_field" where
  "PB_FIELD tag type rules allocation placement m p =
     (let fd = PB_DATAOFFSET placement m; lt = PB_LTYPE_MAP type in case allocation of
        PB_ATYPE_STATIC \<Rightarrow> PB_STATIC rules tag m fd lt p
      | PB_ATYPE_POINTER \<Rightarrow> PB_POINTER rules tag m fd lt p
      | PB_ATYPE_CALLBACK \<Rightarrow> PB_CALLBACK rules tag m fd lt p)"

section \<open>Messages\<close>

text \<open>The members of a structure as its descriptors name them, in order.\<close>

record pb_decl =
  decl_tag :: u32
  decl_type :: pb_proto_type
  decl_rules :: pb_rules
  decl_alloc :: pb_atype
  decl_member :: pb_member
  decl_ptr :: pb_field_ptr

definition declare_field :: "pb_placement \<Rightarrow> pb_decl \<Rightarrow> pb_field" where
  "declare_field placement d = PB_FIELD (decl_tag d) (decl_type d) (decl_rules d) (decl_alloc d) placement (decl_member d) (decl_ptr d)"

text \<open>The members of one union have the same \<open>which_u\<close>.  The generator marks all of them but the first as \<open>UNION\<close>.\<close>

definition same_union :: "pb_decl \<Rightarrow> pb_decl \<Rightarrow> bool" where
  "same_union prev d \<longleftrightarrow> decl_rules prev = ONEOF \<and> decl_rules d = ONEOF \<and> companion (decl_member prev) = companion (decl_member d)"

definition placement_after :: "pb_decl \<Rightarrow> pb_decl \<Rightarrow> pb_placement" where
  "placement_after prev d = (if same_union prev d then UNION else OTHER (decl_member prev))"

fun declare_after :: "pb_decl \<Rightarrow> pb_decl list \<Rightarrow> pb_field list" where
  "declare_after prev [] = []"
| "declare_after prev (d # ds) = declare_field (placement_after prev d) d # declare_after d ds"

fun declare_fields :: "pb_decl list \<Rightarrow> pb_field list" where
  "declare_fields [] = []"
| "declare_fields (d # ds) = declare_field FIRST d # declare_after d ds"

text \<open>What the compiler and the generator ensure: members are in order and do not overlap, except that those of
  a union begin at the same place; a pointer takes eight
  bytes, an array is made of its items.\<close>

definition decl_ok :: "pb_decl \<Rightarrow> bool" where
  "decl_ok d \<longleftrightarrow> decl_tag d \<noteq> 0 \<and> offset (decl_member d) + membersize (decl_member d) < 2 ^ 32 \<and>
     (decl_rules d = ONEOF \<longrightarrow> decl_alloc d \<noteq> PB_ATYPE_CALLBACK \<and> membersize (decl_member d) \<noteq> 0) \<and>
     (decl_alloc d = PB_ATYPE_POINTER \<longrightarrow> membersize (decl_member d) = 8) \<and>
     (decl_alloc d = PB_ATYPE_STATIC \<longrightarrow> decl_rules d = REPEATED \<or> decl_rules d = FIXED_COUNT \<longrightarrow>
        itemsize (decl_member d) dvd membersize (decl_member d))"

definition follows :: "pb_decl \<Rightarrow> pb_decl \<Rightarrow> bool" where
  "follows prev d \<longleftrightarrow> (if same_union prev d then offset (decl_member d) = offset (decl_member prev)
     else offset (decl_member prev) + membersize (decl_member prev) \<le> offset (decl_member d))"

fun decls_ok :: "pb_decl list \<Rightarrow> bool" where
  "decls_ok [] \<longleftrightarrow> True"
| "decls_ok [d] \<longleftrightarrow> decl_ok d"
| "decls_ok (d # e # ds) \<longleftrightarrow> decl_ok d \<and> follows d e \<and> decls_ok (e # ds)"

definition has_companion :: "pb_decl \<Rightarrow> bool" where
  "has_companion d \<longleftrightarrow> decl_rules d = ONEOF \<or> decl_rules d = OPTIONAL \<and> decl_alloc d = PB_ATYPE_STATIC \<or> decl_rules d = REPEATED \<and> decl_alloc d \<noteq> PB_ATYPE_CALLBACK"

lemmas oneof_defs = PB_ONEOF_STATIC_def PB_ONEOF_POINTER_def

lemma declare_field_simps [simp]:
  "field_tag (declare_field pl d) = decl_tag d" "ltype (declare_field pl d) = PB_LTYPE_MAP (decl_type d)"
  "htype (declare_field pl d) = rules_htype (decl_rules d)" "atype (declare_field pl d) = decl_alloc d"
  "data_offset (declare_field pl d) = PB_DATAOFFSET pl (decl_member d)" "ptr (declare_field pl d) = decl_ptr d"
  by (cases "decl_alloc d"; cases "decl_rules d"; simp add: declare_field_def PB_FIELD_def PB_POINTER_def PB_CALLBACK_def oneof_defs Let_def)+

lemma declare_size_offset:
  "decl_ok d \<Longrightarrow> size_offset (declare_field pl d) = (if has_companion d then pb_delta (decl_member d) else 0)"
  by (cases "decl_alloc d"; cases "decl_rules d")
    (simp_all add: declare_field_def PB_FIELD_def PB_POINTER_def PB_CALLBACK_def oneof_defs has_companion_def decl_ok_def Let_def)

text \<open>The size by which the iterator steps over a field is the member's.\<close>

lemma declare_step:
  assumes "decl_ok d"
  shows "(if atype (declare_field pl d) = PB_ATYPE_STATIC \<and> htype (declare_field pl d) = PB_HTYPE_REPEATED then
      data_size (declare_field pl d) * array_size (declare_field pl d)
    else if atype (declare_field pl d) = PB_ATYPE_POINTER then 8 else data_size (declare_field pl d)) = membersize (decl_member d)"
  using assms
  by (cases "decl_alloc d"; cases "decl_rules d")
    (simp_all add: declare_field_def PB_FIELD_def PB_POINTER_def PB_CALLBACK_def oneof_defs decl_ok_def pb_arraysize_def Let_def)

lemma declare_fields_nth:
  assumes "i < length ds"
  shows "length (declare_fields ds) = length ds"
    and "declare_fields ds ! i = declare_field (if i = 0 then FIRST else placement_after (ds ! (i - 1)) (ds ! i)) (ds ! i)"
proof -
  have len: "length (declare_after prev ds) = length ds" for prev ds by (induction ds arbitrary: prev) simp_all
  have after: "i < length ds \<Longrightarrow> declare_after prev ds ! i =
      declare_field (placement_after (if i = 0 then prev else ds ! (i - 1)) (ds ! i)) (ds ! i)" for prev ds i
  proof (induction ds arbitrary: prev i)
    case (Cons d ds)
    then show ?case by (cases i) (simp_all add: nth_Cons split: nat.splits)
  qed simp
  show "length (declare_fields ds) = length ds" by (cases ds) (simp_all add: len)
  show "declare_fields ds ! i = declare_field (if i = 0 then FIRST else placement_after (ds ! (i - 1)) (ds ! i)) (ds ! i)"
    using assms by (cases ds; cases i) (auto simp: after nth_Cons split: nat.splits)
qed

lemma decls_ok_nth:
  "decls_ok ds \<Longrightarrow> i < length ds \<Longrightarrow> decl_ok (ds ! i) \<and> (Suc i < length ds \<longrightarrow> follows (ds ! i) (ds ! Suc i))"
proof (induction ds arbitrary: i rule: decls_ok.induct)
  case (3 d e ds)
  then show ?case by (cases i) auto
qed simp_all

lemma declare_tags_ok: "decls_ok ds \<Longrightarrow> tags_ok (declare_fields ds)"
proof (unfold tags_ok_def, intro ballI)
  fix f
  assume ok: "decls_ok ds" and f: "f \<in> set (declare_fields ds)"
  obtain i where "i < length (declare_fields ds)" "f = declare_fields ds ! i" using f by (auto simp: in_set_conv_nth)
  moreover have "length (declare_fields ds) = length ds" using declare_fields_nth(1) [of 0 ds] by (cases ds) simp_all
  ultimately show "field_tag f \<noteq> 0" using declare_fields_nth(2) [of i ds] decls_ok_nth [OF ok, of i] by (simp add: decl_ok_def)
qed

text \<open>The iterator stays where it is on another member of a union, and steps over any other field.\<close>

definition inside_union :: "pb_field \<Rightarrow> pb_field \<Rightarrow> bool" where
  "inside_union prev f \<longleftrightarrow> htype prev = PB_HTYPE_ONEOF \<and> htype f = PB_HTYPE_ONEOF \<and> data_offset f = PB_SIZE_MAX"

lemma placement_union:
  assumes "decl_ok prev" "decl_ok d" "follows prev d"
  shows "inside_union (declare_field pl prev) (declare_field (placement_after prev d) d) \<longleftrightarrow> same_union prev d"
    and "\<not> same_union prev d \<Longrightarrow> data_offset (declare_field (placement_after prev d) d) =
      offset (decl_member d) - offset (decl_member prev) - membersize (decl_member prev)"
proof -
  have oneof: "rules_htype r = PB_HTYPE_ONEOF \<longleftrightarrow> r = ONEOF" for r by (cases r) simp_all
  have gap: "data_offset (declare_field (placement_after prev d) d) =
      offset (decl_member d) - offset (decl_member prev) - membersize (decl_member prev)" if "\<not> same_union prev d"
    using assms that by (simp add: follows_def placement_after_def PB_DATAOFFSET_def decl_ok_def nat_mod_distrib)
  then show "\<not> same_union prev d \<Longrightarrow> data_offset (declare_field (placement_after prev d) d) =
      offset (decl_member d) - offset (decl_member prev) - membersize (decl_member prev)" .
  show "inside_union (declare_field pl prev) (declare_field (placement_after prev d) d) \<longleftrightarrow> same_union prev d"
  proof (cases "same_union prev d")
    case True
    then show ?thesis by (simp add: inside_union_def oneof same_union_def placement_after_def PB_DATAOFFSET_def)
  next
    case False
    have "decl_rules d = ONEOF \<Longrightarrow> offset (decl_member d) - offset (decl_member prev) - membersize (decl_member prev) < PB_SIZE_MAX"
      using assms(2) by (auto simp: decl_ok_def PB_SIZE_MAX_def)
    then show ?thesis using False gap [OF False] by (auto simp: inside_union_def oneof)
  qed
qed

lemma next_location:
  assumes "tags_ok fs" "Suc i < length fs"
  shows "inside_union (fs ! i) (fs ! Suc i) \<Longrightarrow> pData (iter_nth fs dest (Suc i)) = pData (iter_nth fs dest i) \<and>
      pSize (iter_nth fs dest (Suc i)) = pSize (iter_nth fs dest i)"
    and "\<not> inside_union (fs ! i) (fs ! Suc i) \<Longrightarrow> pData (iter_nth fs dest (Suc i)) = loc_add (pData (iter_nth fs dest i)) (int ((if atype (fs ! i) = PB_ATYPE_STATIC \<and> htype (fs ! i) = PB_HTYPE_REPEATED
      then data_size (fs ! i) * array_size (fs ! i) else if atype (fs ! i) = PB_ATYPE_POINTER then 8 else data_size (fs ! i)) + data_offset (fs ! Suc i)))"
    and "\<not> inside_union (fs ! i) (fs ! Suc i) \<Longrightarrow> pSize (iter_nth fs dest (Suc i)) = SizeAt (loc_add (pData (iter_nth fs dest (Suc i))) (size_offset (fs ! Suc i)))"
proof -
  have i: "i < length fs" using assms(2) by simp
  have f: "pos_field (iter_nth fs dest i) = fs ! i" "field_at (start (iter_nth fs dest i)) (pos (iter_nth fs dest i) + 1) = fs ! Suc i"
    using iter_nth_field [OF assms(1) i] iter_nth_simps [OF assms(1) i] assms(2) by (simp_all add: field_at_def)
  have t: "field_tag (fs ! i) \<noteq> 0" "field_tag (fs ! Suc i) \<noteq> 0" using tags_ok_nth [OF assms(1)] assms(2) by simp_all
  show "inside_union (fs ! i) (fs ! Suc i) \<Longrightarrow> pData (iter_nth fs dest (Suc i)) = pData (iter_nth fs dest i) \<and>
      pSize (iter_nth fs dest (Suc i)) = pSize (iter_nth fs dest i)"
    "\<not> inside_union (fs ! i) (fs ! Suc i) \<Longrightarrow> pData (iter_nth fs dest (Suc i)) = loc_add (pData (iter_nth fs dest i)) (int ((if atype (fs ! i) = PB_ATYPE_STATIC \<and> htype (fs ! i) = PB_HTYPE_REPEATED
      then data_size (fs ! i) * array_size (fs ! i) else if atype (fs ! i) = PB_ATYPE_POINTER then 8 else data_size (fs ! i)) + data_offset (fs ! Suc i)))"
    "\<not> inside_union (fs ! i) (fs ! Suc i) \<Longrightarrow> pSize (iter_nth fs dest (Suc i)) = SizeAt (loc_add (pData (iter_nth fs dest (Suc i))) (size_offset (fs ! Suc i)))"
    unfolding iter_nth.simps pb_field_iter_next_def Let_def f inside_union_def using t by auto
qed

lemma iter_at_member:
  assumes ok: "decls_ok ds" and i: "i < length ds"
  shows "pData (iter_nth (declare_fields ds) dest i) = loc_add dest (int (offset (decl_member (ds ! i))))"
    and "pSize (iter_nth (declare_fields ds) dest i) =
      SizeAt (loc_add dest (int (if has_companion (ds ! i) then companion (decl_member (ds ! i)) else offset (decl_member (ds ! i)))))"
proof -
  let ?fs = "declare_fields ds"
  let ?size = "\<lambda>i. SizeAt (loc_add dest (int (if has_companion (ds ! i) then companion (decl_member (ds ! i)) else offset (decl_member (ds ! i)))))"
  note tags = declare_tags_ok [OF ok]
  have len: "length ?fs = length ds" using declare_fields_nth(1) i by blast
  have size: "loc_add (loc_add dest (int (offset (decl_member (ds ! i))))) (size_offset (?fs ! i)) =
      loc_add dest (int (if has_companion (ds ! i) then companion (decl_member (ds ! i)) else offset (decl_member (ds ! i))))"
    if "i < length ds" for i
    using declare_fields_nth(2) [OF that] declare_size_offset decls_ok_nth [OF ok that] by (simp add: pb_delta_def)
  have "pData (iter_nth ?fs dest i) = loc_add dest (int (offset (decl_member (ds ! i)))) \<and> pSize (iter_nth ?fs dest i) = ?size i"
    if "i < length ds" for i
    using that
  proof (induction i)
    case 0
    then show ?case using declare_fields_nth(2) [of 0 ds] size [of 0]
      by (simp add: pb_field_iter_begin_def field_at_def len Let_def PB_DATAOFFSET_def)
  next
    case (Suc i)
    then have i: "i < length ds" "Suc i < length ?fs" by (simp_all add: len)
    note di = declare_fields_nth(2) [OF i(1)] and dsi = declare_fields_nth(2) [OF Suc.prems, simplified]
    have okd: "decl_ok (ds ! i)" "decl_ok (ds ! Suc i)" "follows (ds ! i) (ds ! Suc i)"
      using decls_ok_nth [OF ok] i Suc.prems by simp_all
    have un: "inside_union (?fs ! i) (?fs ! Suc i) \<longleftrightarrow> same_union (ds ! i) (ds ! Suc i)"
      unfolding di dsi by (rule placement_union(1) [OF okd])
    show ?case
    proof (cases "same_union (ds ! i) (ds ! Suc i)")
      case True
      then have "offset (decl_member (ds ! Suc i)) = offset (decl_member (ds ! i))"
        "companion (decl_member (ds ! Suc i)) = companion (decl_member (ds ! i))" "has_companion (ds ! i)" "has_companion (ds ! Suc i)"
        using okd(3) by (simp_all add: follows_def same_union_def has_companion_def)
      then show ?thesis using Suc.IH [OF i(1)] next_location(1) [OF tags i(2)] un True by (simp del: iter_nth.simps)
    next
      case False
      have gap: "data_offset (?fs ! Suc i) = offset (decl_member (ds ! Suc i)) - offset (decl_member (ds ! i)) - membersize (decl_member (ds ! i))"
        unfolding dsi by (rule placement_union(2) [OF okd False])
      have "pData (iter_nth ?fs dest (Suc i)) = loc_add (pData (iter_nth ?fs dest i)) (int (membersize (decl_member (ds ! i)) + data_offset (?fs ! Suc i)))"
        using next_location(2) [OF tags i(2), of dest] un False unfolding di declare_step [OF okd(1)] by blast
      then have "pData (iter_nth ?fs dest (Suc i)) = loc_add dest (int (offset (decl_member (ds ! Suc i))))"
        using Suc.IH [OF i(1)] gap okd(3) False by (simp add: follows_def del: iter_nth.simps)
      then show ?thesis using next_location(3) [OF tags i(2), of dest] un False size [OF Suc.prems] by (simp del: iter_nth.simps)
    qed
  qed
  then show "pData (iter_nth ?fs dest i) = loc_add dest (int (offset (decl_member (ds ! i))))" "pSize (iter_nth ?fs dest i) = ?size i"
    using i by blast+
qed

end
