(* ===== verification/PbWire.thy ===== *)
theory PbWire
  imports PbValue
begin

text \<open>
  What is written is read, at the level of messages' fields: tags, values of every type, packed
  arrays and submessages, and what a decoder that does not know a field skips.
\<close>

section \<open>Tags\<close>

lemma tag_number: "w < 8 \<Longrightarrow> unat (push_bit 3 (ucast (n :: u32)) OR word_of_nat w :: u64) = 8 * unat n + w"
proof -
  assume w: "w < 8"
  have u: "unat (ucast n :: u64) = unat n"
    using unat_u32_less [of n] by (simp only: unsigned_ucast_eq) (simp add: take_bit_nat_eq_self)
  have "unat (word_of_nat w :: u64) = w" using w by (simp add: unat_of_nat)
  then show ?thesis
    using unat_push_or [of "word_of_nat w :: u64" 3 "ucast n"] w u unat_u32_less [of n] by simp
qed

lemma tag_read:
  assumes "w < 8" and "0 < unat n" and "unat n < 2 ^ 29"
  shows "pb_decode_tag (at (leb (8 * unat n + w) @ r) (length (leb (8 * unat n + w)) + k)) = ((Inr (wire_type_of w, n), at r k), False)"
proof -
  let ?t = "word_of_nat (8 * unat n + w) :: u32"
  have t: "unat ?t = 8 * unat n + w" using assms(1,3) by (simp add: unat_of_nat del: of_nat_add of_nat_mult)
  have "unat (?t AND mask 3) = unat ?t mod 2 ^ 3" by (rule unat_and_mask)
  then have "unat (?t AND 7) = w" using assms(1) unfolding t by (simp add: mask_eq_decr_exp)
  moreover have "unat (drop_bit 3 ?t) = unat n" using assms(1) unfolding unat_drop t by simp
  then have "drop_bit 3 ?t = n" by (simp only: word_unat_eq_iff)
  moreover have "?t \<noteq> 0" using t assms(2) by (metis add_gr_0 nat_0_less_mult_iff unat_0 less_irrefl zero_less_numeral)
  ultimately show ?thesis
    using varint32_eof_at [of ?t r k] unfolding pb_decode_tag_def t by (simp del: of_nat_add of_nat_mult)
qed

primrec wire_type :: "pb_ltype \<Rightarrow> pb_wire_type" where
  "wire_type PB_LTYPE_BOOL = PB_WT_VARINT"
| "wire_type PB_LTYPE_VARINT = PB_WT_VARINT"
| "wire_type PB_LTYPE_UVARINT = PB_WT_VARINT"
| "wire_type PB_LTYPE_SVARINT = PB_WT_VARINT"
| "wire_type PB_LTYPE_FIXED32 = PB_WT_32BIT"
| "wire_type PB_LTYPE_FIXED64 = PB_WT_64BIT"
| "wire_type PB_LTYPE_BYTES = PB_WT_STRING"
| "wire_type PB_LTYPE_STRING = PB_WT_STRING"
| "wire_type PB_LTYPE_SUBMESSAGE = PB_WT_STRING"
| "wire_type PB_LTYPE_EXTENSION = PB_WT_STRING"
| "wire_type PB_LTYPE_FIXED_LENGTH_BYTES = PB_WT_STRING"

lemma wire_type_number_less: "wire_type_number (wire_type t) < 8" "wire_type_of (wire_type_number (wire_type t)) = wire_type t"
  by (cases t; simp add: wire_type_of_def)+

definition tag_octets :: "u32 \<Rightarrow> pb_wire_type \<Rightarrow> bytes" where
  "tag_octets n wt = leb (8 * unat n + wire_type_number wt)"

lemma emits_tag_octets: "wire_type_number wt < 8 \<Longrightarrow> emits (\<lambda>s. pb_encode_tag s wt n) (tag_octets n wt)"
  using emits_tag [of wt n] by (simp add: tag_octets_def tag_number)

lemma encode_tag_for_field: "ltype field \<noteq> PB_LTYPE_EXTENSION \<Longrightarrow>
    pb_encode_tag_for_field s field = pb_encode_tag s (wire_type (ltype field)) (field_tag field)"
  by (cases "ltype field") (simp_all add: pb_encode_tag_for_field_def)

section \<open>Skipping\<close>

lemma takes_skip_varint: "takes pb_skip_varint (leb n) ()"
proof (induction n rule: leb.induct)
  case (1 n)
  obtain b bs where l: "leb n = b # bs" by (cases "leb n") auto
  note d = leb_digit [OF l]
  show ?case
    unfolding takes_def
  proof (intro allI)
    fix r k
    have "pb_read (at (leb n @ r) (length (leb n) + k)) 1 = (Inr [b], at (bs @ r) (length bs + k))"
      by (simp add: l pb_read_def buf_read_def at_def)
    then show "pb_skip_varint (at (leb n @ r) (length (leb n) + k)) = (Inr (), at r k)"
      using d takesD [OF 1] by (subst pb_skip_varint.simps) (auto simp: at_def)
  qed
qed

lemma takes_skip_string: "length bs < 2 ^ 32 \<Longrightarrow> takes pb_skip_string (leb (length bs) @ bs) ()"
  unfolding pb_skip_string_def
  by (intro takes_then [OF takes_length] takes_value [OF takes_read]) (simp_all add: unat_of_nat takes_value [OF takes_read])

lemma takes_ignore: "takes f bs x \<Longrightarrow> takes (\<lambda>s. ignore_result (f s)) bs ()"
  unfolding ignore_result_def by (rule takes_value) auto

lemma takes_skip_fixed:
  "length bs = 8 \<Longrightarrow> takes (\<lambda>s. pb_skip_field s PB_WT_64BIT) bs ()"
  "length bs = 4 \<Longrightarrow> takes (\<lambda>s. pb_skip_field s PB_WT_32BIT) bs ()"
  using takes_ignore [OF takes_read [of bs]] by simp_all

section \<open>Values\<close>

lemma value_coded:
  assumes "value_ok field mem" and "atype field = PB_ATYPE_STATIC" and "data_size field < 2 ^ 32"
    and "PB_ENCODERS se (ltype field) = Some enc" and "PB_DECODERS grants sd (ltype field) = Some dec"
  shows "\<exists>bs. bs \<noteq> [] \<and> emits (\<lambda>s. enc s field (Some mem)) bs \<and> takes (\<lambda>s. dec s field) bs mem \<and>
     takes (\<lambda>s. pb_skip_field s (wire_type (ltype field))) bs () \<and>
     (ltype field = PB_LTYPE_FIXED32 \<longrightarrow> length bs = 4) \<and> (ltype field = PB_LTYPE_FIXED64 \<longrightarrow> length bs = 8) \<and>
     (packable field \<longrightarrow> length bs \<le> 10)"
proof (cases "ltype field")
  case PB_LTYPE_BOOL
  then obtain n where "n < 2 ^ 64" "emits (\<lambda>s. pb_enc_bool s field mem) (leb n)" "takes (\<lambda>s. pb_dec_bool s field) (leb n) mem"
    using bool_coded assms(1) by (auto simp: value_ok_def)
  then show ?thesis using assms(4,5) PB_LTYPE_BOOL takes_skip_varint [of n] length_leb_64 [of n]
    by (intro exI [of _ "leb n"]) (auto simp: pointed_def)
next
  case PB_LTYPE_VARINT
  then obtain n where "n < 2 ^ 64" "emits (\<lambda>s. pb_enc_varint s field mem) (leb n)" "takes (\<lambda>s. pb_dec_varint s field) (leb n) mem"
    using varint_coded [of mem field] assms(1) by (auto simp: value_ok_def)
  then show ?thesis using assms(4,5) PB_LTYPE_VARINT takes_skip_varint [of n] length_leb_64 [of n]
    by (intro exI [of _ "leb n"]) (auto simp: pointed_def)
next
  case PB_LTYPE_UVARINT
  then obtain n where "n < 2 ^ 64" "emits (\<lambda>s. pb_enc_uvarint s field mem) (leb n)" "takes (\<lambda>s. pb_dec_uvarint s field) (leb n) mem"
    using uvarint_coded [of mem field] assms(1) by (auto simp: value_ok_def)
  then show ?thesis using assms(4,5) PB_LTYPE_UVARINT takes_skip_varint [of n] length_leb_64 [of n]
    by (intro exI [of _ "leb n"]) (auto simp: pointed_def)
next
  case PB_LTYPE_SVARINT
  then obtain n where "n < 2 ^ 64" "emits (\<lambda>s. pb_enc_svarint s field mem) (leb n)" "takes (\<lambda>s. pb_dec_svarint s field) (leb n) mem"
    using svarint_coded [of mem field] assms(1) by (auto simp: value_ok_def)
  then show ?thesis using assms(4,5) PB_LTYPE_SVARINT takes_skip_varint [of n] length_leb_64 [of n]
    by (intro exI [of _ "leb n"]) (auto simp: pointed_def)
next
  case PB_LTYPE_FIXED32
  then have "length mem = 4" using assms(1) by (simp add: value_ok_def)
  then show ?thesis using assms(4,5) PB_LTYPE_FIXED32 fixed32_coded [of mem field] takes_skip_fixed(2) [of mem]
    by (intro exI [of _ mem]) (auto simp: pointed_def)
next
  case PB_LTYPE_FIXED64
  then have "length mem = 8" using assms(1) by (simp add: value_ok_def)
  then show ?thesis using assms(4,5) PB_LTYPE_FIXED64 fixed64_coded [of mem field] takes_skip_fixed(1) [of mem]
    by (intro exI [of _ mem]) (auto simp: pointed_def)
next
  case PB_LTYPE_BYTES
  then obtain bs where bs: "mem = le_bytes 4 (length bs) @ bs" "length bs + 4 \<le> data_size field"
    using assms(1) by (auto simp: value_ok_def)
  then show ?thesis
    using assms(2-5) PB_LTYPE_BYTES bytes_coded [OF assms(2) bs(2) assms(3)] takes_skip_string [of bs]
    by (intro exI [of _ "leb (length bs) @ bs"]) (auto simp: packable_def)
next
  case PB_LTYPE_STRING
  then obtain bs where bs: "mem = bs @ [0]" "length bs + 1 \<le> data_size field" "0 \<notin> set bs"
    using assms(1) by (auto simp: value_ok_def)
  then show ?thesis
    using assms(2-5) PB_LTYPE_STRING string_coded [OF assms(2) bs(2) assms(3) bs(3)] takes_skip_string [of bs]
    by (intro exI [of _ "leb (length bs) @ bs"]) (auto simp: packable_def)
next
  case PB_LTYPE_FIXED_LENGTH_BYTES
  then have l: "length mem = data_size field" "0 < data_size field" using assms(1) by (auto simp: value_ok_def)
  then show ?thesis
    using assms(2-5) PB_LTYPE_FIXED_LENGTH_BYTES fixed_length_bytes_coded [OF l assms(3)] takes_skip_string [of mem]
    by (intro exI [of _ "leb (length mem) @ mem"]) (auto simp: pointed_def packable_def)
qed (use assms(1) in \<open>simp_all add: value_ok_def\<close>)

section \<open>Readers stay inside their stream\<close>

text \<open>A reader moves the state and the count together, and never past the bytes it may read.\<close>

definition advances :: "pb_istream \<Rightarrow> pb_istream \<Rightarrow> bool" where
  "advances s s' \<longleftrightarrow> (\<exists>n\<le>bytes_left s. state s' = drop n (state s) \<and> bytes_left s' = bytes_left s - n)"

definition confined :: "(pb_istream \<Rightarrow> 'a pb_result) \<Rightarrow> bool" where
  "confined f \<longleftrightarrow> (\<forall>s. advances s (snd (f s)))"

lemma advances_refl [simp]: "advances s s"
  by (auto simp: advances_def intro: exI [of _ 0])

lemma advances_trans:
  assumes "advances s t" and "advances t u"
  shows "advances s u"
proof -
  obtain n m where "n \<le> bytes_left s" "state t = drop n (state s)" "bytes_left t = bytes_left s - n"
    "m \<le> bytes_left t" "state u = drop m (state t)" "bytes_left u = bytes_left t - m"
    using assms unfolding advances_def by blast
  then show ?thesis unfolding advances_def by (intro exI [of _ "n + m"]) (simp add: add.commute)
qed

lemma confined_return [simp]: "confined (\<lambda>s. (x, s))"
  by (simp add: confined_def)

lemma confined_then:
  assumes "confined f" and "\<And>x. confined (g x)"
  shows "confined (\<lambda>s. and_then (f s) g)"
  unfolding confined_def
proof
  fix s
  obtain x t where f: "f s = (x, t)" by (cases "f s")
  then have "advances s t" using assms(1) unfolding confined_def by (metis snd_conv)
  moreover have "advances t (snd (g y t))" for y using assms(2) unfolding confined_def by blast
  ultimately show "advances s (snd (and_then (f s) g))"
    using advances_trans by (cases x) (simp_all add: f and_then_def)
qed

lemma confined_if: "confined f \<Longrightarrow> confined g \<Longrightarrow> confined (\<lambda>s. if b then f s else g s)"
  by (cases b) simp_all

lemma confined_read: "confined (\<lambda>s. pb_read s n)"
  by (auto simp: confined_def pb_read_def buf_read_def advances_def intro: exI [of _ 0] exI [of _ n])

lemma confined_readbyte: "confined pb_readbyte"
  by (auto simp: confined_def pb_readbyte_def buf_read_def advances_def intro: exI [of _ 0] exI [of _ 1])

lemma readbyteD: "pb_readbyte s = (x, t) \<Longrightarrow> advances s t"
  using confined_readbyte unfolding confined_def by (metis snd_conv)

lemma readD: "pb_read s n = (x, t) \<Longrightarrow> advances s t"
  using confined_read [of n] unfolding confined_def by (metis snd_conv)

lemma varint_loop_advances: "advances s (snd (varint_loop r b s))"
proof (induction r b s rule: varint_loop.induct)
  case (1 r b s)
  show ?case
  proof (cases "pb_readbyte s")
    case (Pair x t)
    then show ?thesis using 1 readbyteD [OF Pair]
      by (subst varint_loop.simps) (auto simp: Let_def split: sum.splits intro: advances_trans)
  qed
qed

lemma varint32_loop_advances: "advances s (snd (varint32_loop r b s))"
proof (induction r b s rule: varint32_loop.induct)
  case (1 r b s)
  show ?case
  proof (cases "pb_readbyte s")
    case (Pair x t)
    then show ?thesis using 1 readbyteD [OF Pair]
      by (subst varint32_loop.simps) (auto simp: Let_def split: sum.splits intro: advances_trans)
  qed
qed

lemma skip_varint_advances: "advances s (snd (pb_skip_varint s))"
proof (induction s rule: pb_skip_varint.induct)
  case (1 s)
  show ?case
  proof (cases "pb_read s 1")
    case (Pair x t)
    then show ?thesis using 1 readD [OF Pair]
      by (subst pb_skip_varint.simps) (auto split: sum.splits intro: advances_trans)
  qed
qed

lemma confined_varint: "confined pb_decode_varint"
  by (simp add: confined_def pb_decode_varint_def varint_loop_advances)

lemma confined_varint32_eof: "confined (\<lambda>s. fst (pb_decode_varint32_eof s))"
proof -
  have "confined (\<lambda>s. and_then (varint32_loop r 7 s) (\<lambda>(result, bitpos, byte) s.
      if bitpos = 35 \<and> byte AND 0x70 \<noteq> 0 then (Inl ''varint overflow'', s) else (Inr result, s)))" for r
    by (intro confined_then) (auto simp: confined_def varint32_loop_advances split: prod.splits)
  then have m: "advances t (snd (and_then (varint32_loop r 7 t) (\<lambda>(result, bitpos, byte) s.
      if bitpos = 35 \<and> byte AND 0x70 \<noteq> 0 then (Inl ''varint overflow'', s) else (Inr result, s))))" for r t
    by (simp add: confined_def)
  show ?thesis
    unfolding confined_def
  proof
    fix s
    show "advances s (snd (fst (pb_decode_varint32_eof s)))"
    proof (cases "pb_readbyte s")
      case (Pair x t)
      then show ?thesis using readbyteD [OF Pair] advances_trans [OF _ m]
        by (auto simp: pb_decode_varint32_eof_def split: sum.splits)
    qed
  qed
qed

lemma confined_varint32: "confined pb_decode_varint32"
  using confined_varint32_eof by (simp add: pb_decode_varint32_def [abs_def])

lemmas confined_intros = confined_then confined_if confined_return confined_read confined_varint confined_varint32

lemma confined_svarint: "confined pb_decode_svarint"
  unfolding pb_decode_svarint_def [abs_def] by (intro confined_intros)

lemma confined_fixed32: "confined pb_decode_fixed32"
  unfolding pb_decode_fixed32_def [abs_def] by (intro confined_intros)

lemma confined_fixed64: "confined pb_decode_fixed64"
  unfolding pb_decode_fixed64_def [abs_def] by (intro confined_intros)

lemma confined_skip_field: "confined (\<lambda>s. pb_skip_field s wt)"
proof -
  have "confined (\<lambda>s. ignore_result (pb_read s n))" for n
    unfolding ignore_result_def by (intro confined_intros)
  moreover have "confined pb_skip_string"
    unfolding pb_skip_string_def [abs_def] by (intro confined_intros)
  moreover have "confined pb_skip_varint" by (simp add: confined_def skip_varint_advances)
  ultimately show ?thesis by (cases wt) simp_all
qed

lemma confined_store_signed: "confined (store_signed sz v)"
  by (simp add: confined_def store_signed_def Let_def)

lemma confined_allocate: "confined (allocate_field grants n m)"
  by (simp add: confined_def allocate_field_def)

lemma confined_values:
  "confined (\<lambda>s. pb_dec_bool s field)" "confined (\<lambda>s. pb_dec_varint s field)" "confined (\<lambda>s. pb_dec_uvarint s field)"
  "confined (\<lambda>s. pb_dec_svarint s field)" "confined (\<lambda>s. pb_dec_fixed32 s field)" "confined (\<lambda>s. pb_dec_fixed64 s field)"
  unfolding pb_dec_bool_def pb_dec_varint_def pb_dec_uvarint_def pb_dec_svarint_def pb_dec_fixed32_def pb_dec_fixed64_def Let_def
  by (intro confined_intros confined_svarint confined_fixed32 confined_fixed64 confined_store_signed)+

lemma confined_strings:
  "confined (\<lambda>s. pb_dec_bytes grants s field)" "confined (\<lambda>s. pb_dec_string grants s field)"
  "confined (\<lambda>s. pb_dec_fixed_length_bytes s field)"
  unfolding pb_dec_bytes_def pb_dec_string_def pb_dec_fixed_length_bytes_def Let_def
  by (intro confined_intros confined_allocate)+

lemma confined_decoder:
  assumes "PB_DECODERS grants sub t = Some dec" and "t \<noteq> PB_LTYPE_SUBMESSAGE"
  shows "confined (\<lambda>s. dec s field)"
  using assms confined_values confined_strings by (cases t) auto

lemma length_concat_le: "\<forall>p\<in>set ps. length (enc p) \<le> n \<Longrightarrow> length (concat (map enc ps)) \<le> n * length ps"
  by (induction ps) auto

lemma varint_loop_bound:
  "unat b = 7 * j \<Longrightarrow> j \<le> 10 \<Longrightarrow> bytes_left s \<le> bytes_left (snd (varint_loop r b s)) + (10 - j)"
proof (induction r b s arbitrary: j rule: varint_loop.induct)
  case (1 r b s)
  show ?case
  proof (cases "64 \<le> b")
    case True
    then show ?thesis by (simp add: varint_loop.simps)
  next
    case False
    then have j: "j < 10" using 1(2) by (simp add: word_le_nat_alt)
    then have b7: "unat (b + 7) = 7 * Suc j" using 1(2) by (simp add: unat_word_ariths)
    show ?thesis
    proof (cases "pb_readbyte s")
      case (Pair x t)
      then have t: "bytes_left s \<le> bytes_left t + 1"
        by (auto simp: pb_readbyte_def buf_read_def split: if_splits)
      show ?thesis
      proof (cases x)
        case (Inl e)
        then show ?thesis using False Pair t j by (subst varint_loop.simps) simp
      next
        case (Inr c)
        let ?r = "r OR push_bit (unat b) (ucast (c AND 0x7F))"
        have "c AND 0x80 \<noteq> 0 \<Longrightarrow> bytes_left t \<le> bytes_left (snd (varint_loop ?r (b + 7) t)) + (10 - Suc j)"
          using 1(1) [OF False Pair [symmetric] Inr refl refl _ b7] j by simp
        then show ?thesis using False Pair Inr t j by (subst varint_loop.simps) (auto simp: Let_def)
      qed
    qed
  qed
qed

section \<open>The format\<close>

definition run_reader :: "(pb_istream \<Rightarrow> 'a pb_result) \<Rightarrow> bytes \<Rightarrow> 'a option \<times> bytes" where
  "run_reader f bs = (case f (pb_istream_from_buffer bs (length bs)) of
     (Inl e, s) \<Rightarrow> (None, state s) | (Inr x, s) \<Rightarrow> (Some x, state s))"

lemma run_reader_takes: "takes f bs x \<Longrightarrow> run_reader f (bs @ r) = (Some x, r)"
  using takesD [of f bs x r "length r"] by (simp add: run_reader_def pb_istream_from_buffer_def at_def)

interpretation varints: codec "\<lambda>v. leb (unat v)" "run_reader pb_decode_varint" "\<lambda>_. True"
  by unfold_locales (simp add: run_reader_takes takes_varint)

text \<open>A varint is written in at most ten bytes, the same on a sizing stream as on a stream that
  stores them; the 64-bit reader takes exactly these bytes, the 32-bit reader does when the number
  fits, and a reader that goes on until the stream is empty gets back every sequence of numbers.\<close>

theorem pb_varint_written_is_read:
  "emits (\<lambda>s. pb_encode_varint s v) (leb (unat v)) \<and> length (leb (unat v)) \<le> 10 \<and>
   takes pb_decode_varint (leb (unat v)) v \<and> takes pb_decode_varint32 (leb (unat w)) w \<and>
   read_all (run_reader pb_decode_varint) (concat (map (\<lambda>v. leb (unat v)) vs)) = Some vs"
  using emits_varint length_leb_64 [OF unat_u64_less] takes_varint takes_varint32 varints.read_all_enc [of vs] by auto

text \<open>C8. A field whose memory holds a value of its type: its tag and value are written as some
  octets, the tag reader gets back the field's number and wire type, the value reader stores the
  same memory again, and a decoder that does not know the field skips exactly the value.\<close>

theorem pb_field_written_is_read:
  assumes "value_ok field mem" and "atype field = PB_ATYPE_STATIC" and "data_size field < 2 ^ 32"
    and "PB_ENCODERS se (ltype field) = Some enc" and "PB_DECODERS grants sd (ltype field) = Some dec"
    and "0 < unat (field_tag field)" and "unat (field_tag field) < 2 ^ 29"
  shows "\<exists>tag val. emits (\<lambda>s. case pb_encode_tag_for_field s field of
         (Inl e, s) \<Rightarrow> (Inl e, s) | (Inr _, s) \<Rightarrow> enc s field (Some mem)) (tag @ val) \<and>
     (\<forall>r k. pb_decode_tag (at (tag @ r) (length tag + k)) =
        ((Inr (wire_type (ltype field), field_tag field), at r k), False)) \<and>
     takes (\<lambda>s. dec s field) val mem \<and> takes (\<lambda>s. pb_skip_field s (wire_type (ltype field))) val ()"
proof -
  obtain val where v: "emits (\<lambda>s. enc s field (Some mem)) val" "takes (\<lambda>s. dec s field) val mem"
    "takes (\<lambda>s. pb_skip_field s (wire_type (ltype field))) val ()"
    using value_coded [OF assms(1-5)] by blast
  let ?t = "tag_octets (field_tag field) (wire_type (ltype field))"
  have ext: "ltype field \<noteq> PB_LTYPE_EXTENSION" using assms(4) by auto
  have "emits (\<lambda>s. pb_encode_tag_for_field s field) ?t"
    unfolding encode_tag_for_field [OF ext] by (rule emits_tag_octets) (rule wire_type_number_less)
  from emits_then [OF this v(1)]
  show ?thesis
    using v(2,3) tag_read [OF wire_type_number_less(1) assms(6,7)] wire_type_number_less(2)
    by (intro exI [of _ ?t] exI [of _ val]) (simp add: tag_octets_def)
qed

lemma pb_field_written_is_read_witness:
  "\<exists>tag val. emits (\<lambda>s. case pb_encode_tag_for_field s (static_field 3 PB_LTYPE_SVARINT 2 0) of
         (Inl e, s) \<Rightarrow> (Inl e, s) | (Inr _, s) \<Rightarrow> pb_enc_svarint s (static_field 3 PB_LTYPE_SVARINT 2 0) (pointed (Some [0xFE, 0xFF]))) (tag @ val) \<and>
     takes (\<lambda>s. pb_dec_svarint s (static_field 3 PB_LTYPE_SVARINT 2 0)) val [0xFE, 0xFF]"
  using pb_field_written_is_read [where field = "(static_field 3 PB_LTYPE_SVARINT 2 0)"
      and mem = "[0xFE, 0xFF]" and se = "\<lambda>s _ _. (Inr (), s)" and grants = "\<lambda>_. True" and sd = "\<lambda>s _. (Inr [], s)",
      simplified, simplified value_ok_def, simplified, OF refl refl]
  by auto

text \<open>C21. A packed array of a packable type, every entry of which holds a value: \<open>encode_array\<close>
  writes a tag of wire type 2 and a body, and \<open>decode_static_field\<close>'s loop takes exactly that body
  and stores the same entries, provided they fit the array.\<close>

theorem pb_packed_written_is_read:
  assumes "\<forall>mem\<in>set mems. value_ok field mem" and "mems \<noteq> []" and "length mems \<le> array_size field"
    and "packable field" and "atype field = PB_ATYPE_STATIC" and "data_size field < 2 ^ 32" and "10 * length mems < 2 ^ 32"
    and "PB_ENCODERS se (ltype field) = Some enc" and "PB_DECODERS grants sd (ltype field) = Some dec"
  shows "\<exists>body. emits (encode_array enc field (map Some mems)) (tag_octets (field_tag field) PB_WT_STRING @ body) \<and>
     (\<forall>r k. decode_packed dec field [] (at (body @ r) (length body + k)) = (Inr (), at r k, mems))"
proof -
  have "\<forall>mem\<in>set mems. \<exists>bs. bs \<noteq> [] \<and> emits (\<lambda>s. enc s field (Some mem)) bs \<and> takes (\<lambda>s. dec s field) bs mem \<and>
      (ltype field = PB_LTYPE_FIXED32 \<longrightarrow> length bs = 4) \<and> (ltype field = PB_LTYPE_FIXED64 \<longrightarrow> length bs = 8) \<and> length bs \<le> 10"
    using value_coded [OF _ assms(5,6,8,9)] assms(1,4) by blast
  then obtain oct where o: "\<And>mem. mem \<in> set mems \<Longrightarrow> oct mem \<noteq> [] \<and> emits (\<lambda>s. enc s field (Some mem)) (oct mem) \<and>
      takes (\<lambda>s. dec s field) (oct mem) mem \<and> (ltype field = PB_LTYPE_FIXED32 \<longrightarrow> length (oct mem) = 4) \<and>
      (ltype field = PB_LTYPE_FIXED64 \<longrightarrow> length (oct mem) = 8) \<and> length (oct mem) \<le> 10"
    by metis
  let ?all = "concat (map oct mems)"
  have "length ?all \<le> 10 * length mems" using o by (intro length_concat_le) auto
  then have len: "length ?all < 2 ^ 32" using assms(7) by linarith
  have m: "map (\<lambda>p. oct (the p)) (map Some mems) = map oct mems" by simp
  have e: "emits (encode_array enc field (map Some mems))
      (tag_octets (field_tag field) PB_WT_STRING @ leb (length ?all) @ ?all)"
    using emits_array [where ps = "map Some mems" and func = enc and field = field and enc = "\<lambda>p. oct (the p)"]
      o len assms(2,3,4) tag_number [of 2 "field_tag field"]
    unfolding m by (auto simp: tag_octets_def SIZE_LIMIT_def simp del: length_concat)
  have "decode_packed dec field [] (at (leb (length ?all) @ ?all @ r) (length (leb (length ?all)) + length ?all + k)) =
      (Inr (), at r k, mems)" for r k
    using decode_packed_takes [where ps = mems and func = dec and field = field and enc = oct and val = "\<lambda>m. m" and r = r and k = k]
      o len assms(3) by (simp del: length_concat)
  then show ?thesis using e by (intro exI [of _ "leb (length ?all) @ ?all"]) (simp del: length_concat)
qed

lemma pb_packed_written_is_read_witness:
  "\<exists>body. emits (encode_array (\<lambda>s field p. pb_enc_uvarint s field (pointed p))
       (static_field 4 PB_LTYPE_UVARINT 1 3) [Some [7], Some [200]])
       (tag_octets 4 PB_WT_STRING @ body) \<and>
     (\<forall>r k. decode_packed pb_dec_uvarint (static_field 4 PB_LTYPE_UVARINT 1 3)
       [] (at (body @ r) (length body + k)) = (Inr (), at r k, [[7], [200]]))"
  using pb_packed_written_is_read [where field = "(static_field 4 PB_LTYPE_UVARINT 1 3)"
      and mems = "[[7], [200]]" and se = "\<lambda>s _ _. (Inr (), s)" and grants = "\<lambda>_. True" and sd = "\<lambda>s _. (Inr [], s)"]
  by (simp add: value_ok_def packable_def)

text \<open>A submessage whose encoder emits the octets \<open>bs\<close> is written with their number in front,
  although its encoder runs twice; the reader opens a substream of exactly these octets, and
  however many of them the substream's reader took, closing it leaves the parent behind them.\<close>

theorem pb_submessage_written_is_read:
  assumes "emits encode bs" and "length bs < 2 ^ 32"
  shows "emits (pb_encode_submessage encode) (leb (length bs) @ bs) \<and>
     (\<forall>r k. pb_make_string_substream (at (leb (length bs) @ bs @ r) (length (leb (length bs)) + length bs + k)) =
       (Inr (at (bs @ r) (length bs)), at (bs @ r) k)) \<and>
     (\<forall>r k. \<forall>n\<le>length bs. pb_close_string_substream (at (bs @ r) k) (at (drop n bs @ r) (length bs - n)) = (Inr (), at r k))"
proof (intro conjI allI impI)
  show "emits (pb_encode_submessage encode) (leb (length bs) @ bs)"
    using assms(2) by (intro emits_submessage [OF assms(1)]) (simp add: SIZE_LIMIT_def)
  have "unat (word_of_nat (length bs) :: u32) = length bs" using assms(2) by (simp add: unat_of_nat)
  then show "pb_make_string_substream (at (leb (length bs) @ bs @ r) (length (leb (length bs)) + length bs + k)) =
      (Inr (at (bs @ r) (length bs)), at (bs @ r) k)" for r k
    using takesD [OF takes_length [OF assms(2)], of "bs @ r" "length bs + k"]
    by (simp add: pb_make_string_substream_def and_then_def add.assoc) (simp add: at_def)
  show "n \<le> length bs \<Longrightarrow> pb_close_string_substream (at (bs @ r) k) (at (drop n bs @ r) (length bs - n)) = (Inr (), at r k)" for r k n
    by (auto simp: pb_close_string_substream_def pb_read_def buf_read_def at_def)
qed

lemma pb_submessage_written_is_read_witness:
  "emits (pb_encode_submessage (\<lambda>s. pb_write s [8, 1])) (leb (length [8, 1 :: u8]) @ [8, 1])"
  using pb_submessage_written_is_read [OF emits_write [of "[8, 1]"]] by simp

text \<open>No reader leaves its stream: tags, skipped fields and values of every type advance
  within the bytes that may be read, whether they succeed or fail, and the 64-bit varint reader
  takes at most ten bytes.\<close>

theorem pb_readers_confined:
  assumes "PB_DECODERS grants sub t = Some dec" and "t \<noteq> PB_LTYPE_SUBMESSAGE"
  shows "advances s (snd (dec s field)) \<and> advances s (snd (pb_skip_field s wt)) \<and> advances s (snd (fst (pb_decode_tag s))) \<and>
     bytes_left s \<le> bytes_left (snd (pb_decode_varint s)) + 10"
proof (intro conjI)
  show "advances s (snd (dec s field))" using confined_decoder [OF assms] by (simp add: confined_def)
  show "advances s (snd (pb_skip_field s wt))" using confined_skip_field by (simp add: confined_def)
  have "advances s (snd (fst (pb_decode_varint32_eof s)))" using confined_varint32_eof by (simp add: confined_def)
  then show "advances s (snd (fst (pb_decode_tag s)))"
    by (cases "pb_decode_varint32_eof s") (auto simp: pb_decode_tag_def split: sum.splits)
  show "bytes_left s \<le> bytes_left (snd (pb_decode_varint s)) + 10"
    using varint_loop_bound [of 0 0 s 0] by (simp add: pb_decode_varint_def)
qed

lemma pb_readers_confined_witness:
  "advances (at [0x80, 0x80] 1) (snd (pb_dec_varint (at [0x80, 0x80] 1) (static_field 1 PB_LTYPE_VARINT 4 0)))"
  using pb_readers_confined [where t = PB_LTYPE_VARINT and dec = pb_dec_varint] by simp

text \<open>The 32-bit reader counts bit positions in eight bits, which wrap around after 37 bytes:
  an overlong varint of 38 bytes, which the 64-bit reader refuses as an overflow, is read as 8.\<close>

theorem pb_varint32_accepts_overlong:
  "fst (pb_decode_varint32 (pb_istream_from_buffer (replicate 37 0x80 @ [1]) 38)) = Inr 8 \<and>
   fst (pb_decode_varint (pb_istream_from_buffer (replicate 37 0x80 @ [1]) 38)) = Inl ''varint overflow''"
  by code_simp

end
