(* ===== verification/PbSafe.thy ===== *)
theory PbSafe
  imports PbLayout PbWire
begin

text \<open>
  Decoding into a structure that has room for the message is defined: no access leaves the structure,
  all loops return, and nothing but the structure changes.
\<close>

section \<open>What a run may change\<close>

definition within :: "pb_istream \<Rightarrow> pb_istream \<Rightarrow> bool" where
  "within s s' \<longleftrightarrow> (\<exists>k\<le>bytes_left s. state s' = drop k (state s) \<and> bytes_left s' \<le> bytes_left s - k)"

lemma within_refl [simp]: "within s s"
  by (auto simp: within_def intro: exI [of _ 0])

lemma within_trans: "within s t \<Longrightarrow> within t u \<Longrightarrow> within s u"
proof -
  assume "within s t" "within t u"
  then obtain k l where "k \<le> bytes_left s" "state t = drop k (state s)" "bytes_left t \<le> bytes_left s - k"
      "l \<le> bytes_left t" "state u = drop l (state t)" "bytes_left u \<le> bytes_left t - l"
    unfolding within_def by blast
  then show "within s u" unfolding within_def by (intro exI [of _ "k + l"]) (auto simp: add.commute)
qed

lemma within_left: "within s t \<Longrightarrow> bytes_left t \<le> bytes_left s"
  by (auto simp: within_def)

lemma advances_within: "advances s t \<Longrightarrow> within s t"
  by (auto simp: advances_def within_def)

definition in_block :: "pb_memory \<Rightarrow> nat \<Rightarrow> int \<Rightarrow> int \<Rightarrow> bool" where
  "in_block m b lo hi \<longleftrightarrow> (\<exists>blk. blocks m b = Some blk \<and> 0 \<le> lo \<and> hi \<le> int (length blk))"

text \<open>At most the bytes from \<open>lo\<close> up to \<open>hi\<close> of block \<open>b\<close> differ.\<close>

definition changes_only :: "nat \<Rightarrow> int \<Rightarrow> int \<Rightarrow> pb_memory \<Rightarrow> pb_memory \<Rightarrow> bool" where
  "changes_only b lo hi m m' \<longleftrightarrow> (\<forall>z. z \<noteq> b \<longrightarrow> blocks m' z = blocks m z) \<and>
     (\<exists>blk blk'. blocks m b = Some blk \<and> blocks m' b = Some blk' \<and> length blk' = length blk \<and>
       (\<forall>i<length blk. int i < lo \<or> hi \<le> int i \<longrightarrow> blk' ! i = blk ! i))"

lemma changes_refl: "in_block m b l h \<Longrightarrow> changes_only b lo hi m m"
  by (auto simp: changes_only_def in_block_def)

lemma changes_trans: "changes_only b lo hi m m' \<Longrightarrow> changes_only b lo hi m' m'' \<Longrightarrow> changes_only b lo hi m m''"
  unfolding changes_only_def by (elim conjE exE, intro conjI) (simp, simp)

lemma changes_mono: "changes_only b lo hi m m' \<Longrightarrow> lo' \<le> lo \<Longrightarrow> hi \<le> hi' \<Longrightarrow> changes_only b lo' hi' m m'"
  by (fastforce simp: changes_only_def)

lemma in_block_changes: "changes_only b lo hi m m' \<Longrightarrow> in_block m b l h \<Longrightarrow> in_block m' b l h"
  by (auto simp: changes_only_def in_block_def)

lemma in_block_mono: "in_block m b lo hi \<Longrightarrow> lo \<le> lo' \<Longrightarrow> hi' \<le> hi \<Longrightarrow> in_block m b lo' hi'"
  by (auto simp: in_block_def)

lemma counter_irrelevant [simp]:
  "changes_only b lo hi m (m'\<lparr>fixed_count_size := n\<rparr>) = changes_only b lo hi m m'"
  "changes_only b lo hi (m\<lparr>fixed_count_size := n\<rparr>) m' = changes_only b lo hi m m'"
  "in_block (m\<lparr>fixed_count_size := n\<rparr>) b lo hi = in_block m b lo hi"
  by (simp_all add: changes_only_def in_block_def)

lemma load_in_block:
  assumes "in_block m b lo hi" "lo \<le> off" "off + int n \<le> hi"
  shows "\<exists>bs. load_at m (b, off) n = Some bs \<and> length bs = n"
proof -
  obtain blk where blk: "blocks m b = Some blk" "0 \<le> lo" "hi \<le> int (length blk)" using assms(1) by (auto simp: in_block_def)
  then have "nat off + n \<le> length blk" "0 \<le> off" using assms(2,3) by linarith+
  then show ?thesis using blk by (simp add: load_at_def)
qed

lemma store_in_block:
  assumes "in_block m b lo hi" "lo \<le> off" "off + int (length bs) \<le> hi"
  shows "\<exists>m'. store_at m (b, off) bs = Some m' \<and> changes_only b lo hi m m'"
proof -
  obtain blk where blk: "blocks m b = Some blk" "0 \<le> lo" "hi \<le> int (length blk)" using assms(1) by (auto simp: in_block_def)
  then have "nat off + length bs \<le> length blk" "0 \<le> off" using assms(2,3) by linarith+
  moreover have "mem_write blk (nat off) bs ! i = blk ! i" if "i < length blk" "int i < lo \<or> hi \<le> int i" for i
    using that blk assms(2,3) calculation by (auto simp: mem_write_def nth_append)
  ultimately show ?thesis using blk by (auto simp: store_at_def changes_only_def mem_simps)
qed

lemma store_size_in_block:
  "in_block m b lo hi \<Longrightarrow> lo \<le> off \<Longrightarrow> off + 4 \<le> hi \<Longrightarrow> \<exists>m'. store_size m (SizeAt (b, off)) n = Some m' \<and> changes_only b lo hi m m'"
  using store_in_block [of m b lo hi off "le_bytes 4 n"] by (simp add: store_size_def)

lemma load_size_in_block:
  "in_block m b lo hi \<Longrightarrow> lo \<le> off \<Longrightarrow> off + 4 \<le> hi \<Longrightarrow> \<exists>n. load_size m (SizeAt (b, off)) = Some n"
  using load_in_block [of m b lo hi off 4] by (auto simp: load_size_def)

lemma store_bool_in_block:
  "in_block m b lo hi \<Longrightarrow> lo \<le> off \<Longrightarrow> off + 1 \<le> hi \<Longrightarrow> \<exists>m'. store_bool m (SizeAt (b, off)) x = Some m' \<and> changes_only b lo hi m m'"
  using store_in_block [of m b lo hi off "[if x then 1 else 0]"] by (simp add: store_bool_def)

section \<open>Safe runs\<close>

definition safe_run :: "nat \<Rightarrow> int \<Rightarrow> int \<Rightarrow> pb_istream \<Rightarrow> pb_memory \<Rightarrow> 'a pb_run \<Rightarrow> bool" where
  "safe_run b lo hi s m r \<longleftrightarrow> (\<exists>x s' m'. r = Some (x, s', m') \<and> within s s' \<and> changes_only b lo hi m m')"

lemma safe_value: "within s s' \<Longrightarrow> changes_only b lo hi m m' \<Longrightarrow> safe_run b lo hi s m (Some (x, s', m'))"
  by (auto simp: safe_run_def)

lemma safe_then:
  assumes "safe_run b lo hi s m r"
    and "\<And>x s' m'. r = Some (Inr x, s', m') \<Longrightarrow> within s s' \<Longrightarrow> changes_only b lo hi m m' \<Longrightarrow> safe_run b lo hi s' m' (f x s' m')"
  shows "safe_run b lo hi s m (run_then r f)"
proof -
  obtain x s' m' where r: "r = Some (x, s', m')" "within s s'" "changes_only b lo hi m m'" using assms(1) by (auto simp: safe_run_def)
  show ?thesis
  proof (cases x)
    case (Inl e)
    then show ?thesis using r by (simp add: run_then_def safe_run_def)
  next
    case (Inr y)
    then have "safe_run b lo hi s' m' (f y s' m')" using assms(2) r by simp
    then obtain y' s'' m'' where "f y s' m' = Some (y', s'', m'')" "within s' s''" "changes_only b lo hi m' m''" by (auto simp: safe_run_def)
    then show ?thesis using r Inr within_trans [OF r(2)] changes_trans [OF r(3)] by (simp add: run_then_def safe_run_def)
  qed
qed

lemma safe_mono: "safe_run b lo hi s m r \<Longrightarrow> lo' \<le> lo \<Longrightarrow> hi \<le> hi' \<Longrightarrow> safe_run b lo' hi' s m r"
  unfolding safe_run_def using changes_mono by blast

lemma safe_from: "within s s' \<Longrightarrow> changes_only b lo hi m m' \<Longrightarrow> safe_run b lo hi s' m' r \<Longrightarrow> safe_run b lo hi s m r"
  unfolding safe_run_def using within_trans changes_trans by blast

lemma safe_stream:
  "confined f \<Longrightarrow> in_block m b l h \<Longrightarrow> safe_run b lo hi s m (on_stream (f s) m)"
  by (auto simp: safe_run_def on_stream_def confined_def changes_refl split: prod.splits intro: advances_within)
    (metis advances_within snd_conv)

section \<open>Value decoders\<close>

lemma store_result_safe:
  assumes "confined f" and "in_block m b lo hi" and "lo \<le> off"
    and "\<And>v s'. f s = (Inr v, s') \<Longrightarrow> off + int (length v) \<le> hi"
  shows "safe_run b lo hi s m (store_result (f s) (b, off) m)"
  unfolding store_result_def
proof (rule safe_then)
  show "safe_run b lo hi s m (on_stream (f s) m)" by (rule safe_stream [OF assms(1,2)])
next
  fix v s' m'
  assume r: "on_stream (f s) m = Some (Inr v, s', m')"
  then have "f s = (Inr v, s')" "m' = m" by (auto simp: on_stream_def split: prod.splits)
  then obtain m'' where "store_at m (b, off) v = Some m''" "changes_only b lo hi m m''"
    using store_in_block [OF assms(2,3)] assms(4) by blast
  then show "safe_run b lo hi s' m' (return_with (store_at m' (b, off) v) s')"
    using \<open>m' = m\<close> by (simp add: return_with_def safe_value)
qed

lemma and_then_Inr: "and_then r f = (Inr y, s') \<longleftrightarrow> (\<exists>x s. r = (Inr x, s) \<and> f x s = (Inr y, s'))"
  by (auto simp: and_then_def split: prod.splits sum.splits)

lemma store_signed_length: "store_signed sz v s = (Inr bs, s') \<Longrightarrow> length bs = sz"
  by (auto simp: store_signed_def Let_def split: if_splits)

lemma value_lengths:
  "pb_dec_bool s f = (Inr v, s') \<Longrightarrow> length v = 1"
  "pb_dec_varint s f = (Inr v, s') \<Longrightarrow> length v = data_size f"
  "pb_dec_uvarint s f = (Inr v, s') \<Longrightarrow> length v = data_size f"
  "pb_dec_svarint s f = (Inr v, s') \<Longrightarrow> length v = data_size f"
  "pb_dec_fixed32 s f = (Inr v, s') \<Longrightarrow> length v = 4"
  "pb_dec_fixed64 s f = (Inr v, s') \<Longrightarrow> length v = 8"
  by (auto simp: pb_dec_bool_def pb_dec_varint_def pb_dec_uvarint_def pb_dec_svarint_def pb_dec_fixed32_def pb_dec_fixed64_def
      and_then_Inr Let_def dest: store_signed_length split: if_splits)

lemma read_length: "pb_read s n = (Inr v, s') \<Longrightarrow> length v \<le> n"
  by (auto simp: pb_read_def buf_read_def split: if_splits)

lemma fixed_length_bytes_length: "pb_dec_fixed_length_bytes s f = (Inr v, s') \<Longrightarrow> length v \<le> data_size f"
  by (auto simp: pb_dec_fixed_length_bytes_def and_then_Inr dest: read_length split: if_splits)

lemma confined_fixed_length_bytes: "confined (\<lambda>s. pb_dec_fixed_length_bytes s f)"
  unfolding pb_dec_fixed_length_bytes_def by (intro confined_intros)

text \<open>A decoder that is safe for a field: given room for one value, it stays in that room.\<close>

definition safe_decoder :: "pb_field_decoder \<Rightarrow> pb_field \<Rightarrow> pb_istream \<Rightarrow> bool" where
  "safe_decoder func f s \<longleftrightarrow> (\<forall>b off m. in_block m b off (off + int (data_size f)) \<longrightarrow>
     safe_run b off (off + int (data_size f)) s m (func s f (b, off) m))"

lemma alloc_size_exact: "PB_BYTES_ARRAY_T_ALLOCSIZE (unat (sz :: u32)) = unat sz + 4"
proof -
  have "unat sz < 2 ^ 32" using unsigned_less [of sz] by simp
  then show ?thesis by (simp add: PB_BYTES_ARRAY_T_ALLOCSIZE_def szadd_exact SIZE_LIMIT_def)
qed

lemma dec_bytes_safe: "atype f = PB_ATYPE_STATIC \<Longrightarrow> safe_decoder (dec_bytes_at env) f s"
  unfolding safe_decoder_def
proof (intro allI impI)
  fix b off m
  let ?hi = "off + int (data_size f)"
  assume st: "atype f = PB_ATYPE_STATIC" and blk: "in_block m b off ?hi"
  show "safe_run b off ?hi s m (dec_bytes_at env s f (b, off) m)"
    unfolding dec_bytes_at_def
  proof (rule safe_then [OF safe_stream [OF confined_varint32 blk]])
    fix sz :: u32 and s' m'
    assume "changes_only b off ?hi m m'"
    with blk have blk': "in_block m' b off ?hi" by (simp add: in_block_changes)
    show "safe_run b off ?hi s' m' (let alloc_size = PB_BYTES_ARRAY_T_ALLOCSIZE (unat sz)
        in if alloc_size < unat sz then fail_with ''size too large'' s' m'
           else run_then (string_dest env ''bytes overflow'' s' f (b, off) alloc_size m') (\<lambda>l s m. do {
             m \<leftarrow> store_at m l (le_bytes 4 (unat sz));
             store_result (pb_read s (unat sz)) (loc_add l 4) m }))"
    proof (cases "unat sz + 4 \<le> data_size f")
      case True
      then obtain m'' where m'': "store_at m' (b, off) (le_bytes 4 (unat sz)) = Some m''" "changes_only b off ?hi m' m''"
        using store_in_block [OF blk', of off "le_bytes 4 (unat sz)"] by auto
      then have "in_block m'' b off ?hi" using blk' by (simp add: in_block_changes)
      then have "safe_run b off ?hi s' m'' (store_result (pb_read s' (unat sz)) (b, off + 4) m'')"
        using True by (intro store_result_safe confined_read) (auto dest!: read_length)
      then have "safe_run b off ?hi s' m' (store_result (pb_read s' (unat sz)) (b, off + 4) m'')"
        by (rule safe_from [OF within_refl m''(2)])
      then show ?thesis using True m''(1) st by (simp add: alloc_size_exact string_dest_def run_then_def loc_add_def Let_def)
    next
      case False
      then show ?thesis using st changes_refl [OF blk'] by (simp add: alloc_size_exact string_dest_def run_then_def Let_def safe_value)
    qed
  qed
qed

lemma dec_string_safe: "atype f = PB_ATYPE_STATIC \<Longrightarrow> safe_decoder (dec_string_at env) f s"
  unfolding safe_decoder_def
proof (intro allI impI)
  fix b off m
  let ?hi = "off + int (data_size f)"
  assume st: "atype f = PB_ATYPE_STATIC" and blk: "in_block m b off ?hi"
  show "safe_run b off ?hi s m (dec_string_at env s f (b, off) m)"
    unfolding dec_string_at_def
  proof (rule safe_then [OF safe_stream [OF confined_varint32 blk]])
    fix sz :: u32 and s' m'
    assume "changes_only b off ?hi m m'"
    with blk have blk': "in_block m' b off ?hi" by (simp add: in_block_changes)
    let ?run = "do {
             (status, s, m) \<leftarrow> store_result (pb_read s' (unat sz)) (b, off) m';
             m \<leftarrow> store_at m (b, off + int (unat sz)) [0];
             Some (status, s, m) }"
    have run: "safe_run b off ?hi s' m' ?run" if sz: "unat sz + 1 \<le> data_size f"
    proof -
      have "safe_run b off ?hi s' m' (store_result (pb_read s' (unat sz)) (b, off) m')"
        using sz blk' by (intro store_result_safe confined_read) (auto dest!: read_length)
      then obtain x s'' m'' where r: "store_result (pb_read s' (unat sz)) (b, off) m' = Some (x, s'', m'')" "within s' s''"
          "changes_only b off ?hi m' m''" by (auto simp: safe_run_def)
      then have "in_block m'' b off ?hi" using blk' by (simp add: in_block_changes)
      moreover have "off + int (unat sz) + int (length [0 :: u8]) \<le> ?hi" using sz by (simp only: list.size)
      moreover have "off \<le> off + int (unat sz)" by linarith
      ultimately obtain m3 where "store_at m'' (b, off + int (unat sz)) [0] = Some m3" "changes_only b off ?hi m'' m3"
        using store_in_block [of m'' b off ?hi "off + int (unat sz)" "[0]"] by blast
      then show ?thesis using r changes_trans [OF r(3)] by (simp add: safe_value)
    qed
    have up: "unat (sz + 1) = unat sz + 1" if "\<not> sz + 1 < sz"
    proof -
      have "unat (sz + 1) = (unat sz + 1) mod 2 ^ 32" by (simp add: unat_word_ariths)
      moreover have "unat sz < 2 ^ 32" using unsigned_less [of sz] by simp
      moreover have "unat sz \<le> unat (sz + 1)" using that by (simp add: word_less_nat_alt)
      ultimately show ?thesis by (cases "unat sz + 1 = 2 ^ 32") simp_all
    qed
    show "safe_run b off ?hi s' m' (let alloc_size = sz + 1
        in if alloc_size < sz then fail_with ''size too large'' s' m'
           else run_then (string_dest env ''string overflow'' s' f (b, off) (unat alloc_size) m') (\<lambda>l s m. do {
             (status, s, m) \<leftarrow> store_result (pb_read s (unat sz)) l m;
             m \<leftarrow> store_at m (loc_add l (int (unat sz))) [0];
             Some (status, s, m) }))"
      using st run up changes_refl [OF blk']
      by (auto simp: string_dest_def run_then_def loc_add_def Let_def safe_value not_less)
  qed
qed

section \<open>Defaults and release\<close>

lemma do_fields_rule:
  assumes "tags_ok fs" "i < length fs" "P m"
    and "\<And>j m. i \<le> j \<Longrightarrow> j < length fs \<Longrightarrow> P m \<Longrightarrow> \<exists>m'. body (iter_nth fs dest j) m = Some m' \<and> P m'"
  shows "\<exists>m'. do_fields body (iter_nth fs dest i) m = Some m' \<and> P m'"
  using assms(2-4)
proof (induction "length fs - i" arbitrary: i m)
  case (Suc d)
  obtain m1 where m1: "body (iter_nth fs dest i) m = Some m1" "P m1" using Suc.prems by blast
  show ?case
  proof (cases "Suc i < length fs")
    case True
    have "\<exists>m'. do_fields body (iter_nth fs dest (Suc i)) m1 = Some m' \<and> P m'"
      using Suc True m1(2) by (intro Suc.hyps(1)) auto
    moreover have "do_fields body (iter_nth fs dest i) m = do_fields body (iter_nth fs dest (Suc i)) m1"
      using m1 next_iter_nth [OF assms(1) Suc.prems(1), of dest] True by (subst do_fields.simps) (simp del: iter_nth.simps)
    ultimately show ?thesis by simp
  next
    case False
    then show ?thesis using m1 next_iter_nth [OF assms(1) Suc.prems(1), of dest] by (subst do_fields.simps) (simp del: iter_nth.simps)
  qed
qed simp

text \<open>An iterator at a field of a structure at offset \<open>off\<close> of block \<open>b\<close>.\<close>

definition at_field :: "nat \<Rightarrow> int \<Rightarrow> pb_field \<Rightarrow> int \<Rightarrow> int \<Rightarrow> pb_field_iter \<Rightarrow> bool" where
  "at_field b off f d p iter \<longleftrightarrow> pos_field iter = f \<and> pData iter = (b, off + d) \<and> pSize iter = SizeAt (b, off + p)"

lemma at_field_nth: "tags_ok fs \<Longrightarrow> i < length fs \<Longrightarrow> at_field b off (fs ! i) (data_pos fs i) (size_pos fs i) (iter_nth fs (b, off) i)"
  by (simp add: at_field_def iter_nth_field iter_nth_loc loc_add_def)

text \<open>What is shown of a function that visits a structure of size \<open>sz\<close>.\<close>

definition visits :: "(pb_loc \<Rightarrow> pb_memory \<Rightarrow> pb_memory option) \<Rightarrow> nat \<Rightarrow> bool" where
  "visits v sz \<longleftrightarrow> (\<forall>b off m. in_block m b off (off + int sz) \<longrightarrow> (\<exists>m'. v (b, off) m = Some m' \<and> changes_only b off (off + int sz) m m'))"

lemma visitsD: "visits v sz \<Longrightarrow> in_block m b off (off + int sz) \<Longrightarrow> \<exists>m'. v (b, off) m = Some m' \<and> changes_only b off (off + int sz) m m'"
  by (simp add: visits_def)

lemma set_to_default_safe:
  assumes at: "at_field b off f d p iter" and room: "field_room f d p sz" and blk: "in_block m b off (off + int sz)"
    and sub: "ltype f = PB_LTYPE_SUBMESSAGE \<Longrightarrow> \<exists>a. ptr f = Submessage a \<and> visits (set_message (tabs a)) (data_size f)"
  shows "\<exists>m'. pb_field_set_to_default set_message tabs iter m = Some m' \<and> changes_only b off (off + int sz) m m'"
proof -
  have it: "pos_field iter = f" "pData iter = (b, off + d)" "pSize iter = SizeAt (b, off + p)" using at by (auto simp: at_field_def)
  have st: "atype f = PB_ATYPE_STATIC" "ltype f \<noteq> PB_LTYPE_EXTENSION" "0 \<le> d" "d + int (data_size f * entries f) \<le> int sz"
    using room by (auto simp: field_room_def value_room_def)
  let ?clear = "htype f = PB_HTYPE_REPEATED \<or> htype f = PB_HTYPE_ONEOF"
  show ?thesis
  proof (cases ?clear)
    case True
    then have p: "0 \<le> p" "p + 4 \<le> int sz" using room by (auto simp: field_room_def)
    then have "\<exists>m'. store_size m (SizeAt (b, off + p)) 0 = Some m' \<and> changes_only b off (off + int sz) m m'"
      using blk by (intro store_size_in_block) auto
    then show ?thesis using True st by (auto simp: pb_field_set_to_default_def it Let_def)
  next
    case False
    then have d: "d + int (data_size f) \<le> int sz" using st by (cases "htype f") (auto simp: entries_def)
    have "\<exists>m1. (if htype f = PB_HTYPE_OPTIONAL \<and> pSize iter \<noteq> SizeAt (pData iter) then store_bool m (pSize iter) False else Some m) = Some m1 \<and>
        changes_only b off (off + int sz) m m1"
    proof (cases "htype f = PB_HTYPE_OPTIONAL \<and> p \<noteq> d")
      case True
      then have "0 \<le> p" "p + 1 \<le> int sz" using room by (auto simp: field_room_def)
      then show ?thesis using True blk store_bool_in_block [of m b off "off + int sz" "off + p" False] by (auto simp: it)
    next
      case False
      then show ?thesis using changes_refl [OF blk] by (auto simp: it)
    qed
    then obtain m1 where m1: "(if htype f = PB_HTYPE_OPTIONAL \<and> pSize iter \<noteq> SizeAt (pData iter) then store_bool m (pSize iter) False else Some m) = Some m1"
      "changes_only b off (off + int sz) m m1" by blast
    have blk1: "in_block m1 b off (off + int sz)" using in_block_changes [OF m1(2) blk] .
    have "\<exists>m'. (if ltype f = PB_LTYPE_SUBMESSAGE then do { fs \<leftarrow> submsg_fields tabs f; set_message fs (pData iter) m1 }
        else (case ptr f of
            DefaultValue v \<Rightarrow> do { check (data_size f \<le> length v); store_at m1 (pData iter) (take (data_size f) v) }
          | NoPtr \<Rightarrow> store_at m1 (pData iter) (replicate (data_size f) 0)
          | Submessage a \<Rightarrow> None)) = Some m' \<and> changes_only b off (off + int sz) m1 m'"
    proof (cases "ltype f = PB_LTYPE_SUBMESSAGE")
      case True
      then obtain a where a: "ptr f = Submessage a" "visits (set_message (tabs a)) (data_size f)" using sub by blast
      have "in_block m1 b (off + d) (off + d + int (data_size f))" using in_block_mono [OF blk1] d st(3) by simp
      from visitsD [OF a(2) this] obtain m' where "set_message (tabs a) (b, off + d) m1 = Some m'"
          "changes_only b (off + d) (off + d + int (data_size f)) m1 m'" by blast
      then show ?thesis using True a d st(3) by (auto simp: submsg_fields_def it elim!: changes_mono)
    next
      case False
      then have "ptr f = NoPtr \<or> (\<exists>v. ptr f = DefaultValue v \<and> data_size f \<le> length v)" using room by (auto simp: field_room_def split: pb_field_ptr.splits)
      moreover have "\<exists>m'. store_at m1 (b, off + d) v = Some m' \<and> changes_only b off (off + int sz) m1 m'" if "length v = data_size f" for v
        using that blk1 d st(3) by (intro store_in_block) auto
      ultimately show ?thesis using False by (auto simp: it)
    qed
    then show ?thesis using m1 False st changes_trans [OF m1(2)] by (auto simp: pb_field_set_to_default_def it Let_def)
  qed
qed

lemma set_to_defaults_safe: "static_layout tabs fs sz \<Longrightarrow> visits (pb_message_set_to_defaults tabs fs) sz"
proof (induction rule: static_layout.induct)
  case (layout fs sz)
  have tags: "tags_ok fs" "0 < length fs" using layout by simp_all
  show ?case
    unfolding visits_def
  proof (intro allI impI)
    fix b off m
    assume blk: "in_block m b off (off + int sz)"
    have "\<exists>m'. do_fields (pb_field_set_to_default (pb_message_set_to_defaults tabs) tabs) (iter_nth fs (b, off) 0) m = Some m' \<and>
        changes_only b off (off + int sz) m m'"
    proof (rule do_fields_rule [where P = "changes_only b off (off + int sz) m", OF tags changes_refl [OF blk]])
      fix j m1
      assume j: "j < length fs" and ch: "changes_only b off (off + int sz) m m1"
      have "\<exists>m'. pb_field_set_to_default (pb_message_set_to_defaults tabs) tabs (iter_nth fs (b, off) j) m1 = Some m' \<and>
          changes_only b off (off + int sz) m1 m'"
        by (rule set_to_default_safe [OF at_field_nth [OF tags(1) j] layout(3) [OF j] in_block_changes [OF ch blk]])
          (use layout(4) [of "fs ! j"] j in auto)
      then show "\<exists>m'. pb_field_set_to_default (pb_message_set_to_defaults tabs) tabs (iter_nth fs (b, off) j) m1 = Some m' \<and>
          changes_only b off (off + int sz) m m'"
        using changes_trans [OF ch] by blast
    qed
    moreover have "fst (pb_field_iter_begin fs (b, off))"
      using tags tags_ok_nth [of fs 0] by (simp add: pb_field_iter_begin_def field_at_def Let_def)
    ultimately show "\<exists>m'. pb_message_set_to_defaults tabs fs (b, off) m = Some m' \<and> changes_only b off (off + int sz) m m'"
      by (subst (1) pb_message_set_to_defaults.simps) (auto simp: case_prod_beta)
  qed
qed

text \<open>A structure without pointers has nothing to release.\<close>

definition leaves :: "(pb_loc \<Rightarrow> pb_memory \<Rightarrow> pb_memory option) \<Rightarrow> nat \<Rightarrow> bool" where
  "leaves v sz \<longleftrightarrow> (\<forall>b off m. in_block m b off (off + int sz) \<longrightarrow> v (b, off) m = Some m)"

lemma release_items_leaves:
  assumes "leaves release sz" "in_block m b off (off + int (sz * n))"
  shows "release_items release sz n (b, off) m = Some m"
  using assms(2)
proof (induction n arbitrary: off)
  case (Suc n)
  have "in_block m b off (off + int sz)" by (rule in_block_mono [OF Suc.prems]) simp_all
  moreover have "in_block m b (off + int sz) (off + int sz + int (sz * n))"
    by (rule in_block_mono [OF Suc.prems]) (simp_all add: algebra_simps)
  ultimately show ?case using assms(1) Suc.IH by (simp add: leaves_def loc_add_def)
qed simp

lemma release_field_leaves:
  assumes at: "at_field b off f d p iter" and room: "field_room f d p sz" and blk: "in_block m b off (off + int sz)"
    and sub: "ltype f = PB_LTYPE_SUBMESSAGE \<Longrightarrow> \<exists>a. ptr f = Submessage a \<and> leaves (release (tabs a)) (data_size f)"
  shows "pb_release_single_field release tabs iter m = Some m"
proof -
  have it: "pos_field iter = f" "pData iter = (b, off + d)" "pSize iter = SizeAt (b, off + p)" using at by (auto simp: at_field_def)
  have st: "atype f = PB_ATYPE_STATIC" "ltype f \<noteq> PB_LTYPE_EXTENSION" "0 \<le> d" "d + int (data_size f * entries f) \<le> int sz"
    using room by (auto simp: field_room_def value_room_def)
  have sz: "\<exists>n. load_size m (SizeAt (b, off + p)) = Some n" if "htype f = PB_HTYPE_REPEATED \<or> htype f = PB_HTYPE_ONEOF"
    using that room blk by (intro load_size_in_block) (auto simp: field_room_def)
  then obtain which where which: "(if htype f = PB_HTYPE_ONEOF then load_size m (pSize iter) else Some (unat (field_tag f))) = Some which"
    by (cases "htype f = PB_HTYPE_ONEOF") (auto simp: it)
  have items: "release_submessages release tabs iter m = Some m" if lt: "ltype f = PB_LTYPE_SUBMESSAGE"
  proof -
    obtain a where a: "ptr f = Submessage a" "leaves (release (tabs a)) (data_size f)" using sub [OF lt] by blast
    obtain count where count: "(if htype f = PB_HTYPE_REPEATED then
            (if atype f = PB_ATYPE_STATIC \<and> pSize iter = SizeAt (pData iter) then Some (array_size f)
             else map_option (\<lambda>n. if atype f = PB_ATYPE_STATIC \<and> n > array_size f then array_size f else n) (load_size m (pSize iter)))
          else Some 1) = Some count" "count \<le> entries f"
    proof (cases "htype f = PB_HTYPE_REPEATED")
      case True
      then obtain n where "load_size m (SizeAt (b, off + p)) = Some n" using sz by blast
      then show ?thesis using True st(1)
        by (intro that [of "if p = d then array_size f else min n (array_size f)"]) (auto simp: it entries_def min_def)
    next
      case False
      then show ?thesis by (intro that [of 1]) (simp_all add: entries_def)
    qed
    have "data_size f * count \<le> data_size f * entries f" using count(2) by simp
    then have "d + int (data_size f * count) \<le> int sz" using st(4) by linarith
    then have "in_block m b (off + d) (off + d + int (data_size f * count))" using blk st(3) by (intro in_block_mono [OF blk]) auto
    from release_items_leaves [OF a(2) this] show ?thesis
      using count(1) st(1) a(1) by (simp add: release_submessages_def it Let_def submsg_fields_def)
  qed
  show ?thesis using which items st(1,2) by (simp add: pb_release_single_field_def it Let_def)
qed

lemma release_leaves: "static_layout tabs fs sz \<Longrightarrow> leaves (pb_release tabs fs) sz"
proof (induction rule: static_layout.induct)
  case (layout fs sz)
  have tags: "tags_ok fs" "0 < length fs" using layout by simp_all
  show ?case
    unfolding leaves_def
  proof (intro allI impI)
    fix b off m
    assume blk: "in_block m b off (off + int sz)"
    have "\<exists>m'. do_fields (pb_release_single_field (pb_release tabs) tabs) (iter_nth fs (b, off) 0) m = Some m' \<and> m' = m"
    proof (rule do_fields_rule [where P = "\<lambda>m'. m' = m", OF tags refl])
      fix j m1
      assume j: "j < length fs" and m1: "m1 = m"
      have "pb_release_single_field (pb_release tabs) tabs (iter_nth fs (b, off) j) m = Some m"
        by (rule release_field_leaves [OF at_field_nth [OF tags(1) j] layout(3) [OF j] blk])
          (use layout(4) [of "fs ! j"] j in auto)
      then show "\<exists>m'. pb_release_single_field (pb_release tabs) tabs (iter_nth fs (b, off) j) m1 = Some m' \<and> m' = m"
        using m1 by simp
    qed
    then show "pb_release tabs fs (b, off) m = Some m"
      by (subst pb_release.simps) (auto simp: case_prod_beta)
  qed
qed

end
