(* ===== verification/PbSafeField.thy ===== *)
theory PbSafeField
  imports PbSafe
begin

text \<open>
  Safety of the field decoders: each stays in the room the layout gives its field, and returns.
\<close>

section \<open>Readers that consume\<close>

definition consumes :: "(pb_istream \<Rightarrow> 'a pb_result) \<Rightarrow> bool" where
  "consumes f \<longleftrightarrow> (\<forall>s x s'. f s = (Inr x, s') \<longrightarrow> bytes_left s' < bytes_left s)"

lemma confined_left: "confined f \<Longrightarrow> f s = (x, s') \<Longrightarrow> bytes_left s' \<le> bytes_left s"
  unfolding confined_def advances_def by (metis diff_le_self snd_conv)

lemma consumes_then:
  assumes "consumes f" "\<And>x. confined (g x)"
  shows "consumes (\<lambda>s. and_then (f s) g)"
  unfolding consumes_def
proof (intro allI impI)
  fix s x s'
  assume "and_then (f s) g = (Inr x, s')"
  then obtain y t where "f s = (Inr y, t)" "g y t = (Inr x, s')" by (auto simp: and_then_Inr)
  then show "bytes_left s' < bytes_left s" using assms(1) confined_left [OF assms(2)] unfolding consumes_def by (meson order_le_less_trans)
qed

lemma readbyte_left: "pb_readbyte s = (Inr x, s') \<Longrightarrow> bytes_left s' < bytes_left s"
  by (auto simp: pb_readbyte_def buf_read_def split: if_splits)

lemma advances_left: "advances s t \<Longrightarrow> bytes_left t \<le> bytes_left s"
  by (auto simp: advances_def)

lemma consumes_read: "0 < n \<Longrightarrow> consumes (\<lambda>s. pb_read s n)"
  by (auto simp: consumes_def pb_read_def buf_read_def split: if_splits)

lemma consumes_varint: "consumes pb_decode_varint"
  unfolding consumes_def pb_decode_varint_def
proof (intro allI impI)
  fix s x s'
  assume r: "varint_loop 0 0 s = (Inr x, s')"
  show "bytes_left s' < bytes_left s"
  proof (cases "pb_readbyte s")
    case (Pair y t)
    show ?thesis
    proof (cases y)
      case (Inl e)
      then show ?thesis using r Pair by (subst (asm) varint_loop.simps) simp
    next
      case (Inr byte)
      then have lt: "bytes_left t < bytes_left s" using Pair readbyte_left by simp
      have "bytes_left s' \<le> bytes_left t"
      proof (cases "byte AND 0x80 \<noteq> 0")
        case True
        then have "varint_loop (ucast (byte AND 0x7F)) 7 t = (Inr x, s')"
          using r Pair Inr by (subst (asm) varint_loop.simps) (simp add: Let_def)
        then show ?thesis using varint_loop_advances [of t "ucast (byte AND 0x7F)" 7] advances_left by simp
      next
        case False
        then show ?thesis using r Pair Inr by (subst (asm) varint_loop.simps) (simp add: Let_def)
      qed
      then show ?thesis using lt by simp
    qed
  qed
qed

lemma varint32_eof_left: "fst (pb_decode_varint32_eof s) = (Inr x, s') \<Longrightarrow> bytes_left s' < bytes_left s"
proof -
  assume r: "fst (pb_decode_varint32_eof s) = (Inr x, s')"
  obtain y t where t: "pb_readbyte s = (y, t)" by (cases "pb_readbyte s")
  then obtain byte where byte: "y = Inr byte" using r by (cases y) (auto simp: pb_decode_varint32_eof_def)
  then have lt: "bytes_left t < bytes_left s" using t readbyte_left by simp
  show ?thesis
  proof (cases "byte AND 0x80 = 0")
    case True
    then show ?thesis using r t byte lt by (simp add: pb_decode_varint32_eof_def)
  next
    case False
    then obtain z where "varint32_loop (ucast (byte AND 0x7F)) 7 t = (Inr z, s')"
      using r t byte by (auto simp: pb_decode_varint32_eof_def and_then_Inr split: if_splits prod.splits)
    then show ?thesis using varint32_loop_advances [of t "ucast (byte AND 0x7F)" 7] advances_left [of t s'] lt by simp
  qed
qed

lemma consumes_varint32: "consumes pb_decode_varint32"
  unfolding consumes_def pb_decode_varint32_def using varint32_eof_left by blast

lemma consumes_value:
  "consumes (\<lambda>s. pb_dec_bool s f)" "consumes (\<lambda>s. pb_dec_varint s f)" "consumes (\<lambda>s. pb_dec_uvarint s f)"
  "consumes (\<lambda>s. pb_dec_svarint s f)" "consumes (\<lambda>s. pb_dec_fixed32 s f)" "consumes (\<lambda>s. pb_dec_fixed64 s f)"
  unfolding pb_dec_bool_def pb_dec_varint_def pb_dec_uvarint_def pb_dec_svarint_def pb_dec_fixed32_def pb_dec_fixed64_def
    pb_decode_svarint_def pb_decode_fixed32_def pb_decode_fixed64_def Let_def
  by (intro consumes_then consumes_varint consumes_varint32 consumes_read confined_intros confined_store_signed; simp)+

lemma store_result_left:
  assumes "consumes f" "store_result (f s) l m = Some (Inr (), s', m')"
  shows "bytes_left s' < bytes_left s"
proof -
  obtain v t where "f s = (Inr v, t)" "t = s'"
    using assms(2) by (auto simp: store_result_def on_stream_def run_then_def return_with_def split: prod.splits sum.splits)
  then show ?thesis using assms(1) by (auto simp: consumes_def)
qed

lemma packable_consumes:
  assumes "packable f" "FIELD_DECODERS env submessage (ltype f) = Some func" "func s f l m = Some (Inr (), s', m')"
  shows "bytes_left s' < bytes_left s"
  using assms by (cases "ltype f") (auto simp: packable_def intro: store_result_left consumes_value)

section \<open>The table of decoders\<close>

lemma store_result_decoder:
  assumes "confined (\<lambda>s. dec s f)" "\<And>s v s'. dec s f = (Inr v, s') \<Longrightarrow> length v \<le> data_size f"
  shows "safe_decoder (\<lambda>s f l m. store_result (dec s f) l m) f s"
  unfolding safe_decoder_def using store_result_safe [OF assms(1)] assms(2) by simp

lemma decoder_safe:
  assumes "FIELD_DECODERS env submessage (ltype f) = Some func" "atype f = PB_ATYPE_STATIC" "value_room f"
    and "ltype f = PB_LTYPE_SUBMESSAGE \<Longrightarrow> safe_decoder submessage f s"
  shows "safe_decoder func f s"
  using assms
  by (cases "ltype f")
    (auto simp: value_room_def intro!: store_result_decoder confined_values confined_fixed_length_bytes dec_bytes_safe dec_string_safe
      dest: value_lengths fixed_length_bytes_length)

lemma decoder_exists: "value_room f \<Longrightarrow> \<exists>func. FIELD_DECODERS env submessage (ltype f) = Some func"
  by (cases "ltype f") (auto simp: value_room_def)

section \<open>Substreams\<close>

lemma substream_left:
  assumes "pb_make_string_substream s = (Inr sub, s1)"
  shows "bytes_left sub < bytes_left s" "within s sub" "within s s1"
    and "within sub sub' \<Longrightarrow> pb_close_string_substream s1 sub' = (x, s2) \<Longrightarrow> within s s2"
proof -
  obtain sz t where t: "pb_decode_varint32 s = (Inr sz, t)" "unat sz \<le> bytes_left t" "sub = t\<lparr>bytes_left := unat sz\<rparr>"
      "s1 = t\<lparr>bytes_left := bytes_left t - unat sz\<rparr>"
    using assms by (auto simp: pb_make_string_substream_def and_then_Inr split: if_splits)
  then have lt: "bytes_left t < bytes_left s" using consumes_varint32 by (auto simp: consumes_def)
  have st: "within s t" using t(1) confined_varint32 advances_within unfolding confined_def by (metis snd_conv)
  have shrink: "within t (t\<lparr>bytes_left := n\<rparr>)" if "n \<le> bytes_left t" for n using that by (auto simp: within_def intro: exI [of _ 0])
  show "bytes_left sub < bytes_left s" using t lt by simp
  show "within s sub" using within_trans [OF st shrink] t by simp
  show "within s s1" using within_trans [OF st shrink] t by simp
  show "within s s2" if w: "within sub sub'" and close: "pb_close_string_substream s1 sub' = (x, s2)"
  proof -
    obtain k where k: "k \<le> unat sz" "state sub' = drop k (state t)" "bytes_left sub' \<le> unat sz - k" using w t(3) by (auto simp: within_def)
    have "within t s2"
    proof (cases "bytes_left sub' = 0")
      case True
      then show ?thesis using close k t by (auto simp: pb_close_string_substream_def within_def intro!: exI [of _ k])
    next
      case False
      then have "s2 = s1\<lparr>state := drop (bytes_left sub') (state sub')\<rparr>"
        using close by (auto simp: pb_close_string_substream_def pb_read_def buf_read_def split: if_splits)
      then show ?thesis using k t by (auto simp: within_def intro!: exI [of _ "bytes_left sub' + k"])
    qed
    then show ?thesis using st within_trans by blast
  qed
qed

lemma confined_substream: "pb_make_string_substream s = (Inl e, s1) \<Longrightarrow> within s s1"
proof -
  assume r: "pb_make_string_substream s = (Inl e, s1)"
  obtain x t where t: "pb_decode_varint32 s = (x, t)" by (cases "pb_decode_varint32 s")
  then have "within s t" using confined_varint32 advances_within unfolding confined_def by (metis snd_conv)
  then show ?thesis using r t by (auto simp: pb_make_string_substream_def and_then_def split: sum.splits if_splits)
qed

text \<open>What is done with a substream and then closes it, or gives up.\<close>

lemma safe_substream:
  assumes "in_block m b l h"
    and "\<And>sub s1. pb_make_string_substream s = (Inr sub, s1) \<Longrightarrow> safe_run b lo hi sub m (r sub)"
    and "\<And>sub s1 x sub' m'. k s1 x sub' m' = close_with s1 (Some (x, sub', m')) \<or> (\<exists>e. k s1 x sub' m' = fail_with e s1 m')"
  shows "safe_run b lo hi s m (run_then (on_stream (pb_make_string_substream s) m) (\<lambda>sub s1 m1. do { (x, sub', m') \<leftarrow> r sub; k s1 x sub' m' }))"
proof (cases "pb_make_string_substream s")
  case (Pair y s1)
  show ?thesis
  proof (cases y)
    case (Inl e)
    then show ?thesis using Pair confined_substream [of s e s1] changes_refl [OF assms(1)]
      by (simp add: on_stream_def run_then_def safe_value)
  next
    case (Inr sub)
    note sub = substream_left [OF Pair [unfolded Inr]]
    obtain x sub' m' where r: "r sub = Some (x, sub', m')" "within sub sub'" "changes_only b lo hi m m'"
      using assms(2) [OF Pair [unfolded Inr]] by (auto simp: safe_run_def)
    obtain z s2 where close: "pb_close_string_substream s1 sub' = (z, s2)" by (cases "pb_close_string_substream s1 sub'")
    have "safe_run b lo hi s m (close_with s1 (Some (x, sub', m')))"
      using sub(4) [OF r(2) close] r(3) close
      by (cases z) (auto simp: close_with_def on_stream_def run_then_def intro!: safe_value)
    moreover have "safe_run b lo hi s m (fail_with e s1 m')" for e using sub(3) r(3) by (rule safe_value)
    ultimately have "safe_run b lo hi s m (k s1 x sub' m')" using assms(3) [of s1 x sub' m'] by auto
    then show ?thesis using Pair Inr r(1) by (simp add: on_stream_def run_then_def)
  qed
qed

section \<open>Static fields\<close>

text \<open>As \<open>at_field\<close>, but the count of an array may be the local variable of the decoder.\<close>

definition on_field :: "nat \<Rightarrow> int \<Rightarrow> pb_field \<Rightarrow> int \<Rightarrow> int \<Rightarrow> pb_field_iter \<Rightarrow> bool" where
  "on_field b off f d p iter \<longleftrightarrow> pos_field iter = f \<and> pData iter = (b, off + d) \<and>
     (pSize iter = SizeAt (b, off + p) \<or> htype f = PB_HTYPE_REPEATED \<and> pSize iter = FixedCountSize)"

definition size_room :: "nat \<Rightarrow> int \<Rightarrow> nat \<Rightarrow> pb_size_ptr \<Rightarrow> bool" where
  "size_room b off sz p \<longleftrightarrow> (case p of SizeAt l \<Rightarrow> fst l = b \<and> off \<le> snd l \<and> snd l + 4 \<le> off + int sz | FixedCountSize \<Rightarrow> True)"

lemma size_room_load: "size_room b off sz p \<Longrightarrow> in_block m b off (off + int sz) \<Longrightarrow> \<exists>n. load_size m p = Some n"
  using load_size_in_block [of m b off "off + int sz"] by (cases p) (auto simp: size_room_def load_size_def)

lemma size_room_store:
  "size_room b off sz p \<Longrightarrow> in_block m b off (off + int sz) \<Longrightarrow> \<exists>m'. store_size m p n = Some m' \<and> changes_only b off (off + int sz) m m'"
  using store_size_in_block [of m b off "off + int sz"] changes_refl [of m b off "off + int sz"]
  by (cases p) (auto simp: size_room_def store_size_def)

lemma on_field_size_room:
  "on_field b off f d p iter \<Longrightarrow> field_room f d p sz \<Longrightarrow> htype f = PB_HTYPE_REPEATED \<or> htype f = PB_HTYPE_ONEOF \<Longrightarrow> size_room b off sz (pSize iter)"
  by (auto simp: on_field_def field_room_def size_room_def)

lemma safe_at_entry:
  assumes "safe_decoder func f s" "in_block m b off (off + int sz)" "0 \<le> d" "d + int (data_size f) \<le> int sz"
  shows "safe_run b off (off + int sz) s m (func s f (b, off + d) m)"
proof -
  have "in_block m b (off + d) (off + d + int (data_size f))" using assms(3,4) by (intro in_block_mono [OF assms(2)]) auto
  then have "safe_run b (off + d) (off + d + int (data_size f)) s m (func s f (b, off + d) m)"
    using assms(1) by (simp add: safe_decoder_def)
  then show ?thesis using assms(3,4) by (rule_tac safe_mono) auto
qed

lemma entry_in_field:
  assumes "d + int (data_size f * n) \<le> int sz" "i < n"
  shows "d + int (data_size f * i) + int (data_size f) \<le> int sz"
proof -
  have "data_size f * i + data_size f = data_size f * Suc i" by simp
  also have "\<dots> \<le> data_size f * n" using assms(2) by (intro mult_le_mono) auto
  finally show ?thesis using assms(1) by linarith
qed

lemma static_items_safe:
  assumes it: "pos_field iter = f" "pData iter = (b, off + d)" "size_room b off sz (pSize iter)"
    and room: "0 \<le> d" "d + int (data_size f * array_size f) \<le> int sz"
    and dec: "\<And>s. safe_decoder func f s"
    and left: "\<And>s l m s' m'. func s f l m = Some (Inr (), s', m') \<Longrightarrow> bytes_left s' < bytes_left s"
  shows "in_block m b off (off + int sz) \<Longrightarrow> safe_run b off (off + int sz) sub m (static_items func iter sub m)"
proof (induction "bytes_left sub" arbitrary: sub m rule: less_induct)
  case less
  obtain n where n: "load_size m (pSize iter) = Some n" using size_room_load [OF it(3) less.prems] ..
  show ?case
  proof (cases "bytes_left sub > 0 \<and> n < array_size f")
    case True
    let ?cont = "\<lambda>_ sub m. do {
         sz \<leftarrow> load_size m (pSize iter);
         m \<leftarrow> store_size m (pSize iter) (sz + 1);
         static_items func iter sub m }"
    have "safe_run b off (off + int sz) sub m (run_then (func sub f (b, off + d + int (data_size f * n)) m) ?cont)"
    proof (rule safe_then)
      have "0 \<le> d + int (data_size f * n)" using room(1) by simp
      moreover have "d + int (data_size f * n) + int (data_size f) \<le> int sz" using entry_in_field [OF room(2)] True by simp
      ultimately show "safe_run b off (off + int sz) sub m (func sub f (b, off + d + int (data_size f * n)) m)"
        using safe_at_entry [OF dec less.prems, of "d + int (data_size f * n)"] by (simp add: add.assoc)
    next
      fix x sub' m'
      assume r: "func sub f (b, off + d + int (data_size f * n)) m = Some (Inr x, sub', m')" "changes_only b off (off + int sz) m m'"
      have lt: "bytes_left sub' < bytes_left sub" using left r(1) by simp
      have blk: "in_block m' b off (off + int sz)" using in_block_changes [OF r(2) less.prems] .
      then obtain k where k: "load_size m' (pSize iter) = Some k" using size_room_load [OF it(3)] by blast
      obtain m2 where m2: "store_size m' (pSize iter) (k + 1) = Some m2" "changes_only b off (off + int sz) m' m2"
        using size_room_store [OF it(3) blk] by blast
      have "safe_run b off (off + int sz) sub' m2 (static_items func iter sub' m2)"
        by (rule less.hyps [OF lt in_block_changes [OF m2(2) blk]])
      then show "safe_run b off (off + int sz) sub' m' (?cont x sub' m')"
        using k m2 safe_from [OF within_refl m2(2)] by simp
    qed
    then show ?thesis using True n it(1,2) by (subst static_items.simps) (simp add: loc_add_def)
  next
    case False
    then show ?thesis using n it(1) changes_refl [OF less.prems]
      by (subst static_items.simps) (auto simp: safe_value)
  qed
qed

text \<open>What is known of a field of a structure of size \<open>sz\<close>, its submessage included.\<close>

definition field_ok :: "pb_env \<Rightarrow> pb_field \<Rightarrow> int \<Rightarrow> int \<Rightarrow> nat \<Rightarrow> bool" where
  "field_ok env f d p sz \<longleftrightarrow> field_room f d p sz \<and>
     (ltype f = PB_LTYPE_SUBMESSAGE \<longrightarrow> (\<exists>a. ptr f = Submessage a \<and> static_layout (tables env) (tables env a) (data_size f)))"

lemma decode_static_safe:
  assumes at: "on_field b off f d p iter" and ok: "field_ok env f d p sz" and blk: "in_block m b off (off + int sz)"
    and sub: "ltype f = PB_LTYPE_SUBMESSAGE \<Longrightarrow> safe_decoder submessage f s"
  shows "safe_run b off (off + int sz) s m (decode_static_field env submessage s wt iter m)"
proof -
  let ?safe = "\<lambda>s m r. safe_run b off (off + int sz) s m r"
  have room: "field_room f d p sz" using ok by (simp add: field_ok_def)
  have st: "atype f = PB_ATYPE_STATIC" "value_room f" "0 \<le> d" "d + int (data_size f * entries f) \<le> int sz"
    using room by (auto simp: field_room_def)
  have it: "pos_field iter = f" "pData iter = (b, off + d)" using at by (auto simp: on_field_def)
  obtain func where func: "FIELD_DECODERS env submessage (ltype f) = Some func" using decoder_exists [OF st(2)] by blast
  have dec: "safe_decoder func f s" using decoder_safe [OF func st(1,2)] sub by blast
  have one: "?safe s m' (func s f (pData iter) m')" if "in_block m' b off (off + int sz)" "htype f \<noteq> PB_HTYPE_REPEATED" for m'
    using safe_at_entry [OF dec that(1) st(3)] st(4) that(2) by (simp add: entries_def it)
  show ?thesis
  proof (cases "htype f")
    case PB_HTYPE_REQUIRED
    then show ?thesis using one [OF blk] func by (simp add: decode_static_field_def it Let_def)
  next
    case PB_HTYPE_OPTIONAL
    then have p: "pSize iter = SizeAt (b, off + p)" "p = d \<or> 0 \<le> p \<and> p + 1 \<le> int sz" using at room by (auto simp: on_field_def field_room_def)
    have "\<exists>m1. (if pSize iter \<noteq> SizeAt (pData iter) then store_bool m (pSize iter) True else Some m) = Some m1 \<and>
        changes_only b off (off + int sz) m m1"
      using p store_bool_in_block [OF blk, of "off + p" True] changes_refl [OF blk] by (auto simp: it)
    then obtain m1 where m1: "(if pSize iter \<noteq> SizeAt (pData iter) then store_bool m (pSize iter) True else Some m) = Some m1"
      "changes_only b off (off + int sz) m m1" by blast
    have "?safe s m (func s f (pData iter) m1)"
      using safe_from [OF within_refl m1(2) one [OF in_block_changes [OF m1(2) blk]]] PB_HTYPE_OPTIONAL by simp
    then show ?thesis using m1(1) func PB_HTYPE_OPTIONAL by (simp add: decode_static_field_def it Let_def)
  next
    case PB_HTYPE_ONEOF
    then have sr: "size_room b off sz (pSize iter)" using on_field_size_room [OF at room] by blast
    obtain which where which: "load_size m (pSize iter) = Some which" using size_room_load [OF sr blk] ..
    have d: "d + int (data_size f) \<le> int sz" using st(4) PB_HTYPE_ONEOF by (simp add: entries_def)
    let ?fresh = "ltype f = PB_LTYPE_SUBMESSAGE \<and> which \<noteq> unat (field_tag f)"
    let ?prep = "if ?fresh then do {
                m \<leftarrow> store_at m (pData iter) (replicate (data_size f) 0);
                fs \<leftarrow> submsg_fields (tables env) f;
                pb_message_set_to_defaults (tables env) fs (pData iter) m } else Some m"
    have "\<exists>m1. ?prep = Some m1 \<and> changes_only b off (off + int sz) m m1"
    proof (cases ?fresh)
      case True
      then obtain a where a: "ptr f = Submessage a" "static_layout (tables env) (tables env a) (data_size f)" using ok by (auto simp: field_ok_def)
      obtain m0 where m0: "store_at m (b, off + d) (replicate (data_size f) 0) = Some m0" "changes_only b off (off + int sz) m m0"
        using store_in_block [OF blk, of "off + d" "replicate (data_size f) 0"] d st(3) by auto
      have "in_block m0 b (off + d) (off + d + int (data_size f))"
        using d st(3) by (intro in_block_mono [OF in_block_changes [OF m0(2) blk]]) auto
      from visitsD [OF set_to_defaults_safe [OF a(2)] this] obtain m1 where
        m1: "pb_message_set_to_defaults (tables env) (tables env a) (b, off + d) m0 = Some m1"
          "changes_only b (off + d) (off + d + int (data_size f)) m0 m1" by blast
      have "changes_only b off (off + int sz) m0 m1" using m1(2) d st(3) by (rule_tac changes_mono) auto
      then show ?thesis using True m0 m1 a(1) changes_trans [OF m0(2)] by (simp add: it submsg_fields_def)
    next
      case False
      then show ?thesis using changes_refl [OF blk] by (simp only: if_False) blast
    qed
    then obtain m1 where m1: "?prep = Some m1" "changes_only b off (off + int sz) m m1" by blast
    have blk1: "in_block m1 b off (off + int sz)" using in_block_changes [OF m1(2) blk] .
    obtain m2 where m2: "store_size m1 (pSize iter) (unat (field_tag f)) = Some m2" "changes_only b off (off + int sz) m1 m2"
      using size_room_store [OF sr blk1] by blast
    have "?safe s m (func s f (pData iter) m2)"
      using safe_from [OF within_refl changes_trans [OF m1(2) m2(2)] one [OF in_block_changes [OF m2(2) blk1]]] PB_HTYPE_ONEOF by simp
    then show ?thesis using which m1(1) m2(1) func PB_HTYPE_ONEOF by (simp only: decode_static_field_def it Let_def pb_htype.case bind.bind_lunit)
  next
    case PB_HTYPE_REPEATED
    then have sr: "size_room b off sz (pSize iter)" and e: "d + int (data_size f * array_size f) \<le> int sz"
      using on_field_size_room [OF at room] st(4) by (auto simp: entries_def)
    show ?thesis
    proof (cases "wt = PB_WT_STRING \<and> packable f")
      case True
      then have "ltype f \<noteq> PB_LTYPE_SUBMESSAGE" by (auto simp: packable_def)
      then have "safe_decoder func f s'" for s' using decoder_safe [OF func st(1,2)] by blast
      moreover have "bytes_left s'' < bytes_left s'" if "func s' f l m' = Some (Inr (), s'', m'')" for s' l m' s'' m''
        using packable_consumes [OF _ func that] True by blast
      ultimately have items: "?safe sub' m (static_items func iter sub' m)" for sub'
        using static_items_safe [OF it sr st(3) e _ _ blk] by blast
      have "?safe s m (run_then (on_stream (pb_make_string_substream s) m) (\<lambda>sub s1 m1. do {
          (x, sub', m') \<leftarrow> static_items func iter sub m;
          if bytes_left sub' \<noteq> 0 then fail_with ''array overflow'' s1 m' else close_with s1 (Some (x, sub', m')) }))"
        by (rule safe_substream [OF blk]) (auto intro: items)
      moreover have "run_then (on_stream (pb_make_string_substream s) m) (\<lambda>sub s1 m1. do {
          (x, sub', m') \<leftarrow> static_items func iter sub m1;
          if bytes_left sub' \<noteq> 0 then fail_with ''array overflow'' s1 m' else close_with s1 (Some (x, sub', m')) }) =
        run_then (on_stream (pb_make_string_substream s) m) (\<lambda>sub s1 m1. do {
          (x, sub', m') \<leftarrow> static_items func iter sub m;
          if bytes_left sub' \<noteq> 0 then fail_with ''array overflow'' s1 m' else close_with s1 (Some (x, sub', m')) })"
        by (cases "pb_make_string_substream s"; cases "fst (pb_make_string_substream s)") (auto simp: on_stream_def run_then_def)
      ultimately show ?thesis using True func PB_HTYPE_REPEATED by (simp add: decode_static_field_def it Let_def)
    next
      case False
      obtain n where n: "load_size m (pSize iter) = Some n" using size_room_load [OF sr blk] ..
      obtain m1 where m1: "store_size m (pSize iter) (n + 1) = Some m1" "changes_only b off (off + int sz) m m1"
        using size_room_store [OF sr blk] by blast
      have blk1: "in_block m1 b off (off + int sz)" using in_block_changes [OF m1(2) blk] .
      have "?safe s m1 (if n \<ge> array_size f then fail_with ''array overflow'' s m1 else func s f (b, off + d + int (data_size f * n)) m1)"
      proof (cases "n \<ge> array_size f")
        case True
        then show ?thesis using changes_refl [OF blk1] by (simp add: safe_value)
      next
        case False
        then have "d + int (data_size f * n) + int (data_size f) \<le> int sz" using entry_in_field [OF e] by simp
        then show ?thesis using False safe_at_entry [OF dec blk1, of "d + int (data_size f * n)"] st(3) by (simp add: add.assoc)
      qed
      from safe_from [OF within_refl m1(2) this] show ?thesis
        using False func n m1(1) PB_HTYPE_REPEATED by (auto simp: decode_static_field_def it Let_def loc_add_def)
    qed
  qed
qed

end
