(* ===== verification/PbSafeMessage.thy ===== *)
theory PbSafeMessage
  imports PbSafeField
begin

text \<open>
  Safety of \<open>pb_decode\<close> on messages whose fields are all allocated statically.
\<close>

section \<open>Iterators on a structure\<close>

definition iter_ok :: "pb_field list \<Rightarrow> pb_loc \<Rightarrow> pb_field_iter \<Rightarrow> bool" where
  "iter_ok fs dest iter \<longleftrightarrow> (\<exists>i<length fs. iter = iter_nth fs dest i \<or>
     htype (fs ! i) = PB_HTYPE_REPEATED \<and> iter = (iter_nth fs dest i)\<lparr>pSize := FixedCountSize\<rparr>)"

lemma iter_okI: "i < length fs \<Longrightarrow> iter_ok fs dest (iter_nth fs dest i)"
  by (auto simp: iter_ok_def)

lemma iter_ok_on_field:
  assumes "iter_ok fs (b, off) iter" "tags_ok fs"
  obtains i where "i < length fs" "pos_field iter = fs ! i" "on_field b off (fs ! i) (data_pos fs i) (size_pos fs i) iter"
    "start iter = fs" "pos iter = i"
proof -
  obtain i where i: "i < length fs" "iter = iter_nth fs (b, off) i \<or>
     htype (fs ! i) = PB_HTYPE_REPEATED \<and> iter = (iter_nth fs (b, off) i)\<lparr>pSize := FixedCountSize\<rparr>"
    using assms(1) by (auto simp: iter_ok_def)
  have f: "pos_field (x\<lparr>pSize := p\<rparr>) = pos_field x" for x p by (simp add: pos_field_def)
  show ?thesis
    using i at_field_nth [OF assms(2) i(1), of b off] iter_nth_simps [OF assms(2) i(1), of "(b, off)"]
    by (intro that [of i]) (auto simp: on_field_def at_field_def f)
qed

lemma iter_find_plain:
  assumes "tags_ok fs" "i < length fs"
  shows "\<exists>found j. pb_field_iter_find (iter_nth fs dest i) tag = Some (found, iter_nth fs dest j) \<and> j < length fs"
proof (cases "find (\<lambda>i. matches tag (fs ! i)) (search_order (length fs) i)")
  case None
  then show ?thesis using iter_find_nth [OF assms] assms(2) by auto
next
  case (Some j)
  then have "j \<in> set (search_order (length fs) i)" by (auto simp: find_Some_iff)
  then have "j < length fs" using assms(2) by (auto simp: search_order_def)
  then show ?thesis using iter_find_nth [OF assms] Some by auto
qed

lemma iter_find_ok:
  assumes "tags_ok fs" "iter_ok fs dest iter"
  obtains found iter' where "pb_field_iter_find iter tag = Some (found, iter')" "iter_ok fs dest iter'"
proof -
  obtain i where i: "i < length fs" and alt: "iter = iter_nth fs dest i \<or>
     htype (fs ! i) = PB_HTYPE_REPEATED \<and> iter = (iter_nth fs dest i)\<lparr>pSize := FixedCountSize\<rparr>"
    using assms(2) by (auto simp: iter_ok_def)
  let ?it = "iter_nth fs dest i"
  have plain: "\<exists>found iter'. pb_field_iter_find ?it tag = Some (found, iter') \<and> iter_ok fs dest iter'"
    using iter_find_plain [OF assms(1) i] iter_okI by blast
  show ?thesis
  proof (cases "iter = ?it")
    case True
    then show ?thesis using plain that by blast
  next
    case False
    then have it: "iter = ?it\<lparr>pSize := FixedCountSize\<rparr>" "htype (fs ! i) = PB_HTYPE_REPEATED" using alt by auto
    have pf: "pos_field iter = pos_field ?it" "pos iter = pos ?it" by (simp_all add: it pos_field_def)
    have f: "pos_field ?it = fs ! i" using iter_nth_field [OF assms(1) i] .
    show ?thesis
    proof (cases "field_tag (pos_field ?it) = tag \<and> ltype (pos_field ?it) \<noteq> PB_LTYPE_EXTENSION")
      case True
      then have "pb_field_iter_find iter tag = Some (True, iter)"
        unfolding pb_field_iter_find_def by (subst find_loop.simps) (simp only: pf, simp)
      then show ?thesis using that assms(2) by blast
    next
      case no: False
      have "snd (pb_field_iter_next iter) = snd (pb_field_iter_next ?it)"
        using next_pSize [of ?it FixedCountSize] tags_ok_nth [OF assms(1) i] it f by simp
      then have "pb_field_iter_find iter tag = pb_field_iter_find ?it tag"
        unfolding pb_field_iter_find_def pf(2)
        by (subst (1 2) find_loop.simps) (simp only: pf if_not_P [OF no])
      then show ?thesis using plain that by auto
    qed
  qed
qed

text \<open>A search that matches nothing goes round once.\<close>

lemma full_circle:
  assumes "tags_ok fs" "first < length fs"
    and step: "\<And>k. k < length fs \<Longrightarrow> L (iter_nth fs dest k) = (if pos (snd (pb_field_iter_next (iter_nth fs dest k))) \<noteq> first
      then L (snd (pb_field_iter_next (iter_nth fs dest k))) else R (snd (pb_field_iter_next (iter_nth fs dest k))))"
    and "k < length fs"
  shows "L (iter_nth fs dest k) = R (iter_nth fs dest first)"
proof -
  have next_k: "pb_field_iter_next (iter_nth fs dest k) = (Suc k < length fs, iter_nth fs dest (if Suc k < length fs then Suc k else 0))"
    if "k < length fs" for k using next_iter_nth [OF assms(1) that] .
  have before: "k < first \<Longrightarrow> L (iter_nth fs dest k) = R (iter_nth fs dest first)" for k
  proof (induction "first - k" arbitrary: k)
    case (Suc d)
    then have k: "Suc k < length fs" using assms(2) by simp
    then show ?case using Suc step [of k] next_k [of k] iter_nth_pos [OF assms(1) k]
      by (cases "Suc k = first") (simp_all del: iter_nth.simps)
  qed simp
  have "first \<le> k \<Longrightarrow> k < length fs \<Longrightarrow> L (iter_nth fs dest k) = R (iter_nth fs dest first)" for k
  proof (induction "length fs - k" arbitrary: k)
    case (Suc d)
    show ?case
    proof (cases "Suc k < length fs")
      case True
      then show ?thesis using Suc step [of k] next_k [of k] iter_nth_pos [OF assms(1) True] by (simp del: iter_nth.simps)
    next
      case False
      have "pos (iter_nth fs dest 0) = 0" by simp
      then show ?thesis using False Suc.prems step [of k] next_k [of k] before [of 0] by (cases "first = 0") simp_all
    qed
  qed simp
  then show ?thesis using before assms(4) by (cases "k < first") auto
qed

lemma find_extension_ok:
  assumes "tags_ok fs" "iter_ok fs dest iter" and none: "\<forall>f\<in>set fs. ltype f \<noteq> PB_LTYPE_EXTENSION"
  obtains iter' where "find_extension_field iter = Some (False, iter')" "iter_ok fs dest iter'"
proof -
  obtain i where i: "i < length fs" and alt: "iter = iter_nth fs dest i \<or>
     htype (fs ! i) = PB_HTYPE_REPEATED \<and> iter = (iter_nth fs dest i)\<lparr>pSize := FixedCountSize\<rparr>"
    using assms(2) by (auto simp: iter_ok_def)
  let ?it = "iter_nth fs dest i"
  have none_at: "ltype (pos_field (iter_nth fs dest k)) \<noteq> PB_LTYPE_EXTENSION" if "k < length fs" for k
    using none that iter_nth_field [OF assms(1) that] by simp
  have "find_extension_loop i ?it = Some (False, ?it)"
  proof (rule full_circle [where R = "\<lambda>it. Some (False, it)", OF assms(1) i _ i])
    fix k
    assume "k < length fs"
    then show "find_extension_loop i (iter_nth fs dest k) = (if pos (snd (pb_field_iter_next (iter_nth fs dest k))) \<noteq> i
        then find_extension_loop i (snd (pb_field_iter_next (iter_nth fs dest k))) else Some (False, snd (pb_field_iter_next (iter_nth fs dest k))))"
      by (subst find_extension_loop.simps, subst if_not_P [OF none_at]) (simp_all add: Let_def)
  qed
  moreover have "find_extension_loop i iter = find_extension_loop i ?it"
  proof (cases "iter = ?it")
    case False
    then have it: "iter = ?it\<lparr>pSize := FixedCountSize\<rparr>" "htype (fs ! i) = PB_HTYPE_REPEATED" using alt by auto
    have pf: "pos_field iter = pos_field ?it" by (simp add: it pos_field_def)
    have f: "pos_field ?it = fs ! i" using iter_nth_field [OF assms(1) i] .
    have "snd (pb_field_iter_next iter) = snd (pb_field_iter_next ?it)"
      using next_pSize [of ?it FixedCountSize] tags_ok_nth [OF assms(1) i] it f by simp
    then show ?thesis
      by (subst (1 2) find_extension_loop.simps) (simp only: pf if_not_P [OF none_at [OF i]])
  qed simp
  moreover have "pos iter = i" using alt iter_nth_pos [OF assms(1) i, of dest] by auto
  ultimately show ?thesis using that iter_okI [OF i] by (simp add: find_extension_field_def)
qed

section \<open>Runs with a result\<close>

definition safe_with :: "('a \<Rightarrow> bool) \<Rightarrow> nat \<Rightarrow> int \<Rightarrow> int \<Rightarrow> pb_istream \<Rightarrow> pb_memory \<Rightarrow> 'a pb_run \<Rightarrow> bool" where
  "safe_with Q b lo hi s m r \<longleftrightarrow> safe_run b lo hi s m r \<and> (\<forall>x s' m'. r = Some (Inr x, s', m') \<longrightarrow> Q x)"

lemma safe_with_run: "safe_with Q b lo hi s m r \<Longrightarrow> safe_run b lo hi s m r"
  by (simp add: safe_with_def)

lemma safe_with_value: "within s s' \<Longrightarrow> changes_only b lo hi m m' \<Longrightarrow> (\<And>y. x = Inr y \<Longrightarrow> Q y) \<Longrightarrow> safe_with Q b lo hi s m (Some (x, s', m'))"
  by (simp add: safe_with_def safe_value)

lemma run_then_Inr: "run_then r f = Some (Inr y, s', m') \<longleftrightarrow> (\<exists>x s m. r = Some (Inr x, s, m) \<and> f x s m = Some (Inr y, s', m'))"
  by (auto simp: run_then_def split: option.splits sum.splits)

lemma safe_with_then:
  assumes "safe_with P b lo hi s m r"
    and "\<And>x s' m'. r = Some (Inr x, s', m') \<Longrightarrow> P x \<Longrightarrow> within s s' \<Longrightarrow> changes_only b lo hi m m' \<Longrightarrow> safe_with Q b lo hi s' m' (f x s' m')"
  shows "safe_with Q b lo hi s m (run_then r f)"
proof -
  have st: "within s s' \<and> changes_only b lo hi m m'" if "r = Some (Inr x, s', m')" for x s' m'
    using assms(1) that by (auto simp: safe_with_def safe_run_def)
  have "safe_run b lo hi s m (run_then r f)"
    by (rule safe_then [OF safe_with_run [OF assms(1)]]) (use assms in \<open>auto simp: safe_with_def\<close>)
  moreover have "Q y" if "run_then r f = Some (Inr y, s', m')" for y s' m'
  proof -
    obtain x t k where r: "r = Some (Inr x, t, k)" and y: "f x t k = Some (Inr y, s', m')" using \<open>run_then r f = _\<close> by (auto simp: run_then_Inr)
    then have "safe_with Q b lo hi t k (f x t k)" using assms(1) assms(2) [OF r] st [OF r] by (simp add: safe_with_def)
    then show ?thesis using y by (simp add: safe_with_def)
  qed
  ultimately show ?thesis by (simp add: safe_with_def)
qed

lemma safe_with_from: "within s s' \<Longrightarrow> changes_only b lo hi m m' \<Longrightarrow> safe_with Q b lo hi s' m' r \<Longrightarrow> safe_with Q b lo hi s m r"
  unfolding safe_with_def using safe_from by blast

end
