(* ===== verification/PbSafeLoop.thy ===== *)
theory PbSafeLoop
  imports PbSafeMessage
begin

text \<open>
  Safety of the loop over the fields of a message, and of \<open>pb_decode\<close>.
\<close>

section \<open>Fields\<close>

text \<open>What is known of the descriptors of a structure of size \<open>sz\<close>.\<close>

definition fields_ok :: "pb_env \<Rightarrow> pb_field list \<Rightarrow> nat \<Rightarrow> bool" where
  "fields_ok env fs sz \<longleftrightarrow> fs \<noteq> [] \<and> tags_ok fs \<and> (\<forall>i<length fs. field_ok env (fs ! i) (data_pos fs i) (size_pos fs i) sz)"

lemma layout_fields: "static_layout (tables env) fs sz \<Longrightarrow> fields_ok env fs sz"
proof (induction rule: static_layout.cases)
  case (layout fs sz)
  then show ?case by (auto simp: fields_ok_def field_ok_def)
qed

lemma fields_okD:
  assumes "fields_ok env fs sz"
  shows "tags_ok fs" "i < length fs \<Longrightarrow> field_ok env (fs ! i) (data_pos fs i) (size_pos fs i) sz" "0 < length fs"
  using assms by (auto simp: fields_ok_def)

lemma fields_no_extension: "fields_ok env fs sz \<Longrightarrow> \<forall>f\<in>set fs. ltype f \<noteq> PB_LTYPE_EXTENSION"
proof
  fix f
  assume "fields_ok env fs sz" "f \<in> set fs"
  then obtain i where "f = fs ! i" "field_ok env f (data_pos fs i) (size_pos fs i) sz" by (auto simp: in_set_conv_nth fields_ok_def)
  then show "ltype f \<noteq> PB_LTYPE_EXTENSION" by (auto simp: field_ok_def field_room_def value_room_def)
qed

text \<open>The decoder of submessages, on streams with fewer than \<open>n\<close> bytes left.\<close>

definition submessages_safe :: "pb_field_decoder \<Rightarrow> pb_field list \<Rightarrow> nat \<Rightarrow> bool" where
  "submessages_safe submessage fs n \<longleftrightarrow>
     (\<forall>f\<in>set fs. ltype f = PB_LTYPE_SUBMESSAGE \<longrightarrow> (\<forall>s. bytes_left s < n \<longrightarrow> safe_decoder submessage f s))"

lemma release_union_safe:
  assumes ok: "fields_ok env fs sz" and it: "iter_ok fs (b, off) iter" "htype (pos_field iter) = PB_HTYPE_ONEOF"
    and blk: "in_block m b off (off + int sz)"
  shows "safe_with (iter_ok fs (b, off)) b off (off + int sz) s m (pb_release_union_field env s iter m)"
proof -
  note tags = fields_okD(1) [OF ok]
  obtain i where i: "i < length fs" "iter = iter_nth fs (b, off) i"
    using it iter_nth_field [OF tags] by (fastforce simp: iter_ok_def pos_field_def)
  have at: "at_field b off (fs ! k) (data_pos fs k) (size_pos fs k) (iter_nth fs (b, off) k)" if "k < length fs" for k
    using at_field_nth [OF tags that] .
  have f: "htype (fs ! i) = PB_HTYPE_ONEOF" "pos_field iter = fs ! i" using it(2) i iter_nth_field [OF tags i(1)] by auto
  have room: "field_room (fs ! k) (data_pos fs k) (size_pos fs k) sz" if "k < length fs" for k
    using fields_okD(2) [OF ok that] by (simp add: field_ok_def)
  have "size_room b off sz (pSize iter)"
    using on_field_size_room [OF _ room [OF i(1)]] at [OF i(1)] i(2) f(1) by (simp add: at_field_def on_field_def)
  then obtain old where old: "load_size m (pSize iter) = Some old" using size_room_load [OF _ blk] by blast
  obtain found j where j: "pb_field_iter_find iter (word_of_nat old) = Some (found, iter_nth fs (b, off) j)" "j < length fs"
    using iter_find_plain [OF tags i(1)] i(2) by blast
  have free: "pb_release_single_field (pb_release (tables env)) (tables env) (iter_nth fs (b, off) j) m = Some m"
  proof (rule release_field_leaves [OF at [OF j(2)] room [OF j(2)] blk])
    assume "ltype (fs ! j) = PB_LTYPE_SUBMESSAGE"
    then show "\<exists>a. ptr (fs ! j) = Submessage a \<and> leaves (pb_release (tables env) (tables env a)) (data_size (fs ! j))"
      using fields_okD(2) [OF ok j(2)] release_leaves by (auto simp: field_ok_def)
  qed
  obtain found' k where k: "pb_field_iter_find (iter_nth fs (b, off) j) (field_tag (fs ! i)) = Some (found', iter_nth fs (b, off) k)" "k < length fs"
    using iter_find_plain [OF tags j(2)] by blast
  have refl: "changes_only b off (off + int sz) m m" using changes_refl [OF blk] .
  show ?thesis
    unfolding pb_release_union_field_def using old j k free f(2) refl it(1) iter_okI [OF k(2)]
    by (auto simp: Let_def intro!: safe_with_value)
qed

lemma decode_field_safe:
  assumes ok: "fields_ok env fs sz" and it: "iter_ok fs (b, off) iter" and blk: "in_block m b off (off + int sz)"
    and sub: "submessages_safe submessage fs n" "bytes_left s < n"
  shows "safe_with (iter_ok fs (b, off)) b off (off + int sz) s m (decode_field env submessage s wt iter m)"
  unfolding decode_field_def
proof (rule safe_with_then [where P = "iter_ok fs (b, off)"])
  show "safe_with (iter_ok fs (b, off)) b off (off + int sz) s m
      (if htype (pos_field iter) = PB_HTYPE_ONEOF then pb_release_union_field env s iter m else Some (Inr iter, s, m))"
    using release_union_safe [OF ok it _ blk] it changes_refl [OF blk] by (auto intro!: safe_with_value)
next
  fix iter' s' m'
  assume it': "iter_ok fs (b, off) iter'" and w: "within s s'" and ch: "changes_only b off (off + int sz) m m'"
  have blk': "in_block m' b off (off + int sz)" using in_block_changes [OF ch blk] .
  obtain i where i: "i < length fs" "pos_field iter' = fs ! i" "on_field b off (fs ! i) (data_pos fs i) (size_pos fs i) iter'"
    using iter_ok_on_field [OF it' fields_okD(1) [OF ok]] by metis
  have "safe_decoder submessage (fs ! i) s'" if "ltype (fs ! i) = PB_LTYPE_SUBMESSAGE"
    using sub i(1) that within_left [OF w] unfolding submessages_safe_def by (meson nth_mem order_le_less_trans)
  then have "safe_run b off (off + int sz) s' m' (decode_static_field env submessage s' wt iter' m')"
    by (rule decode_static_safe [OF i(3) fields_okD(2) [OF ok i(1)] blk'])
  then have "safe_with (iter_ok fs (b, off)) b off (off + int sz) s' m'
      (run_then (decode_static_field env submessage s' wt iter' m') (\<lambda>_ s m. Some (Inr iter', s, m)))"
    by (intro safe_with_then [where P = "\<lambda>_. True"])
      (auto simp: safe_with_def it' intro!: safe_value changes_refl in_block_changes [OF _ blk'])
  moreover have "atype (fs ! i) = PB_ATYPE_STATIC" using fields_okD(2) [OF ok i(1)] by (simp add: field_ok_def field_room_def)
  ultimately show "safe_with (iter_ok fs (b, off)) b off (off + int sz) s' m' (run_then (case atype (pos_field iter') of
            PB_ATYPE_STATIC \<Rightarrow> decode_static_field env submessage s' wt iter' m'
          | PB_ATYPE_POINTER \<Rightarrow> decode_pointer_field env submessage s' wt iter' m'
          | PB_ATYPE_CALLBACK \<Rightarrow> decode_callback_field env s' wt iter' m')
        (\<lambda>_ s m. Some (Inr iter', s, m)))"
    using i(2) by simp
qed

lemma note_field_safe:
  assumes "tags_ok fs" "iter_ok fs (b, off) (iterator st)" "in_block m b off (off + int sz)"
  shows "safe_with (\<lambda>st :: pb_decode_state. iter_ok fs (b, off) (iterator st)) b off (off + int sz) s m (note_field s st m)"
proof -
  obtain i where i: "i < length fs" and alt: "iterator st = iter_nth fs (b, off) i \<or>
     htype (fs ! i) = PB_HTYPE_REPEATED \<and> iterator st = (iter_nth fs (b, off) i)\<lparr>pSize := FixedCountSize\<rparr>"
    using assms(2) by (auto simp: iter_ok_def)
  have fixed: "iter_ok fs (b, off) ((iterator st)\<lparr>pSize := FixedCountSize\<rparr>)" if "htype (pos_field (iterator st)) = PB_HTYPE_REPEATED"
    using i alt that iter_nth_field [OF assms(1) i, of "(b, off)"] by (auto simp: iter_ok_def)
  show ?thesis
    unfolding note_field_def Let_def
    by (rule safe_with_then [where P = "\<lambda>st :: pb_decode_state. iter_ok fs (b, off) (iterator st)"])
      (auto simp: assms(2) fixed intro!: safe_with_value changes_refl [OF assms(3)] changes_refl in_block_changes [OF _ assms(3)])
qed

section \<open>The loop\<close>

lemma decode_tag_left: "pb_decode_tag s = ((Inr x, s'), eof) \<Longrightarrow> bytes_left s' < bytes_left s"
  by (auto simp: pb_decode_tag_def split: prod.splits sum.splits if_splits dest: varint32_eof_left [of s, simplified fst_eqD])
    (metis fst_conv varint32_eof_left)+

lemma decode_tag_within: "pb_decode_tag s = ((x, s'), eof) \<Longrightarrow> within s s'"
proof -
  assume r: "pb_decode_tag s = ((x, s'), eof)"
  obtain y t e where e: "pb_decode_varint32_eof s = ((y, t), e)" by (metis prod.exhaust)
  then have "within s t" using confined_varint32 advances_within unfolding confined_def pb_decode_varint32_def by (metis fst_conv snd_conv)
  then show ?thesis using r e by (auto simp: pb_decode_tag_def split: sum.splits if_splits)
qed

lemma decode_tag_small: "pb_decode_tag s = ((Inr (wt, tag), s'), eof) \<Longrightarrow> tag < - 1"
proof -
  assume "pb_decode_tag s = ((Inr (wt, tag), s'), eof)"
  then obtain x :: u32 where tag: "tag = drop_bit 3 x" by (auto simp: pb_decode_tag_def split: prod.splits sum.splits if_splits)
  have "unat (drop_bit 3 x) = unat x div 2 ^ 3" by (simp add: unat_drop_bit_eq drop_bit_eq_div unat_div)
  moreover have "unat x < 2 ^ 32" using unsigned_less [of x] by simp
  ultimately have "unat tag < 2 ^ 29" by (simp add: tag)
  moreover have "unat (- 1 :: u32) = 2 ^ 32 - 1" by (simp add: unsigned_minus_1_eq_mask mask_eq_exp_minus_1)
  moreover have "(2 :: nat) ^ 29 < 2 ^ 32 - 1" by simp
  ultimately show ?thesis unfolding word_less_nat_alt by linarith
qed

lemma decode_unknown_safe:
  assumes ok: "fields_ok env fs sz" and it: "iter_ok fs (b, off) (iterator st)" and blk: "in_block m b off (off + int sz)"
    and tag: "tag < - 1"
  shows "safe_with (\<lambda>st :: pb_decode_state. iter_ok fs (b, off) (iterator st)) b off (off + int sz) s m (decode_unknown s wt tag st m)"
proof -
  obtain iter' where ext: "find_extension_field (iterator st) = Some (False, iter')" "iter_ok fs (b, off) iter'"
    using find_extension_ok [OF fields_okD(1) [OF ok] it fields_no_extension [OF ok]] .
  have skip: "safe_with (\<lambda>st :: pb_decode_state. iter_ok fs (b, off) (iterator st)) b off (off + int sz) s m
      (run_then (on_stream (pb_skip_field s wt) m) (\<lambda>_ s m. Some (Inr st', s, m)))" if "iter_ok fs (b, off) (iterator st')" for st'
    by (rule safe_with_then [where P = "\<lambda>_. True"])
      (auto simp: safe_with_def that intro!: safe_stream [OF confined_skip_field blk] safe_value changes_refl in_block_changes [OF _ blk])
  show ?thesis
  proof (cases "tag \<ge> extension_range_start st")
    case True
    have "\<not> tag \<ge> - 1" using tag by simp
    then show ?thesis using True ext skip [of "st\<lparr>iterator := iter', extension_range_start := - 1\<rparr>"]
      by (simp add: decode_unknown_def Let_def)
  next
    case False
    then show ?thesis using skip [OF it] by (simp add: decode_unknown_def)
  qed
qed

lemma decode_loop_safe:
  assumes ok: "fields_ok env fs sz"
  shows "iter_ok fs (b, off) (iterator st) \<Longrightarrow> in_block m b off (off + int sz) \<Longrightarrow> submessages_safe submessage fs n \<Longrightarrow> bytes_left s \<le> n \<Longrightarrow>
    safe_with (\<lambda>st :: pb_decode_state. iter_ok fs (b, off) (iterator st)) b off (off + int sz) s m (decode_loop env submessage st s m)"
proof (induction "bytes_left s" arbitrary: s st m rule: less_induct)
  case less
  note tags = fields_okD(1) [OF ok]
  let ?Q = "\<lambda>st :: pb_decode_state. iter_ok fs (b, off) (iterator st)"
  have refl: "changes_only b off (off + int sz) m m" using changes_refl [OF less.prems(2)] .
  show ?case
  proof (cases "bytes_left s = 0")
    case True
    then show ?thesis using refl less.prems(1) by (subst decode_loop.simps) (auto intro!: safe_with_value)
  next
    case False
    obtain x t eof where tag: "pb_decode_tag s = ((x, t), eof)" by (metis prod.exhaust)
    have w: "within s t" using decode_tag_within [OF tag] .
    show ?thesis
    proof (cases x)
      case (Inl e)
      then show ?thesis using False tag w refl less.prems(1) by (subst decode_loop.simps) (auto intro!: safe_with_value)
    next
      case (Inr y)
      obtain wt tg where y: "y = (wt, tg)" by (cases y)
      have lt: "bytes_left t < bytes_left s" using decode_tag_left tag Inr by blast
      have small: "tg < - 1" using decode_tag_small tag Inr y by blast
      obtain found iter where find: "pb_field_iter_find (iterator st) tg = Some (found, iter)" "iter_ok fs (b, off) iter"
        using iter_find_ok [OF tags less.prems(1)] .
      let ?st = "st\<lparr>iterator := iter\<rparr>"
      let ?one = "if \<not> found then decode_unknown t wt tg ?st m
            else run_then (note_field t ?st m) (\<lambda>st s m.
              run_then (decode_field env submessage s wt (iterator st) m) (\<lambda>iter s m. Some (Inr (st\<lparr> iterator := iter \<rparr>), s, m)))"
      have one: "safe_with ?Q b off (off + int sz) t m ?one"
      proof (cases found)
        case True
        have "safe_with ?Q b off (off + int sz) t m (run_then (note_field t ?st m) (\<lambda>st s m.
              run_then (decode_field env submessage s wt (iterator st) m) (\<lambda>iter s m. Some (Inr (st\<lparr> iterator := iter \<rparr>), s, m))))"
        proof (rule safe_with_then [where P = ?Q])
          show "safe_with ?Q b off (off + int sz) t m (note_field t ?st m)"
            using note_field_safe [OF tags _ less.prems(2)] find(2) by simp
        next
          fix st1 s1 m1
          assume st1: "?Q st1" "within t s1" "changes_only b off (off + int sz) m m1"
          have blk1: "in_block m1 b off (off + int sz)" using in_block_changes [OF st1(3) less.prems(2)] .
          have n: "bytes_left s1 < n" using within_left [OF st1(2)] lt less.prems(4) by simp
          then show "safe_with ?Q b off (off + int sz) s1 m1
              (run_then (decode_field env submessage s1 wt (iterator st1) m1) (\<lambda>iter s m. Some (Inr (st1\<lparr> iterator := iter \<rparr>), s, m)))"
            by (intro safe_with_then [where P = "iter_ok fs (b, off)"] decode_field_safe [OF ok st1(1) blk1 less.prems(3) n])
              (auto intro!: safe_with_value changes_refl in_block_changes [OF _ blk1])
        qed
        then show ?thesis using True by simp
      next
        case False
        then show ?thesis using decode_unknown_safe [OF ok _ less.prems(2) small, of ?st] find(2) by simp
      qed
      have "safe_with ?Q b off (off + int sz) t m (run_then ?one (\<lambda>st s m. decode_loop env submessage st s m))"
      proof (rule safe_with_then [OF one])
        fix st1 s1 m1
        assume st1: "?Q st1" "within t s1" "changes_only b off (off + int sz) m m1"
        have "bytes_left s1 < bytes_left s" using within_left [OF st1(2)] lt by simp
        then show "safe_with ?Q b off (off + int sz) s1 m1 (decode_loop env submessage st1 s1 m1)"
          using less.hyps [OF _ st1(1) in_block_changes [OF st1(3) less.prems(2)] less.prems(3)] less.prems(4) by simp
      qed
      then have "safe_with ?Q b off (off + int sz) s m (run_then ?one (\<lambda>st s m. decode_loop env submessage st s m))"
        by (rule safe_with_from [OF w refl])
      then show ?thesis using False tag Inr y find(1) by (subst decode_loop.simps) (simp add: Let_def)
    qed
  qed
qed

section \<open>Messages\<close>

lemma decode_noinit_safe:
  assumes lay: "static_layout (tables env) fs sz" and blk: "in_block m b off (off + int sz)" and sub: "submessages_safe submessage fs n" "bytes_left s \<le> n"
  shows "safe_run b off (off + int sz) s m (decode_noinit env submessage s fs (b, off) m)"
proof -
  note ok = layout_fields [OF lay]
  let ?st = "\<lparr> iterator = snd (pb_field_iter_begin fs (b, off)), fields_seen = [0, 0], fixed_count_field = None, extension_range_start = 0 \<rparr>"
  let ?last = "\<lambda>st s m. if \<not> fixed_count_ok st m then fail_with ''wrong size for fixed count field'' s m
            else if \<not> required_present (fields_seen st) (required_count (iterator st)) then fail_with ''missing required field'' s m
            else Some (Inr (), s, m)"
  have blk0: "in_block (m\<lparr>fixed_count_size := 0\<rparr>) b off (off + int sz)" using blk by simp
  have "safe_with (\<lambda>st :: pb_decode_state. iter_ok fs (b, off) (iterator st)) b off (off + int sz) s (m\<lparr>fixed_count_size := 0\<rparr>)
      (decode_loop env submessage ?st s (m\<lparr>fixed_count_size := 0\<rparr>))"
    using iter_okI [OF fields_okD(3) [OF ok], of "(b, off)"] by (intro decode_loop_safe [OF ok _ blk0 sub]) simp
  then have "safe_with (\<lambda>_. True) b off (off + int sz) s (m\<lparr>fixed_count_size := 0\<rparr>)
      (run_then (decode_loop env submessage ?st s (m\<lparr>fixed_count_size := 0\<rparr>)) ?last)"
  proof (rule safe_with_then)
    fix st s1 m1
    assume "changes_only b off (off + int sz) (m\<lparr>fixed_count_size := 0\<rparr>) m1"
    from in_block_changes [OF this blk0] have "changes_only b off (off + int sz) m1 m1" by (rule changes_refl)
    then show "safe_with (\<lambda>_. True) b off (off + int sz) s1 m1 (?last st s1 m1)" by (auto intro: safe_with_value)
  qed
  then obtain x s' m' where "run_then (decode_loop env submessage ?st s (m\<lparr>fixed_count_size := 0\<rparr>)) ?last = Some (x, s', m')"
      "within s s'" "changes_only b off (off + int sz) m m'" by (auto simp: safe_with_def safe_run_def)
  then show ?thesis unfolding decode_noinit_def by (simp add: safe_value)
qed

lemma decode_init_safe:
  assumes lay: "static_layout (tables env) fs sz" and blk: "in_block m b off (off + int sz)" and sub: "submessages_safe submessage fs n" "bytes_left s \<le> n"
  shows "safe_run b off (off + int sz) s m (decode_init env submessage s fs (b, off) m)"
proof -
  obtain m1 where m1: "pb_message_set_to_defaults (tables env) fs (b, off) m = Some m1" "changes_only b off (off + int sz) m m1"
    using visitsD [OF set_to_defaults_safe [OF lay] blk] by blast
  have blk1: "in_block m1 b off (off + int sz)" using in_block_changes [OF m1(2) blk] .
  obtain x s' m2 where r: "decode_noinit env submessage s fs (b, off) m1 = Some (x, s', m2)" "within s s'" "changes_only b off (off + int sz) m1 m2"
    using decode_noinit_safe [OF lay blk1 sub] by (auto simp: safe_run_def)
  have "pb_release (tables env) fs (b, off) m2 = Some m2"
    using release_leaves [OF lay] in_block_changes [OF r(3) blk1] by (simp add: leaves_def)
  then have "decode_init env submessage s fs (b, off) m = Some (x, s', m2)" using m1(1) r(1) by (cases x) (simp_all add: decode_init_def)
  then show ?thesis using r(2) changes_trans [OF m1(2) r(3)] by (simp add: safe_value)
qed

lemma layout_submessage:
  assumes "static_layout tabs fs sz" "f \<in> set fs" "ltype f = PB_LTYPE_SUBMESSAGE"
  shows "\<exists>a. ptr f = Submessage a \<and> static_layout tabs (tabs a) (data_size f)"
  using assms by (cases rule: static_layout.cases) blast

lemma close_with_bind: "close_with s r = do { (x, sub, m) \<leftarrow> r; close_with s (Some (x, sub, m)) }"
  by (cases r) (auto simp: close_with_def)

lemma dec_submessage_safe:
  "bytes_left s < n \<Longrightarrow> ptr f = Submessage a \<Longrightarrow> static_layout (tables env) (tables env a) (data_size f) \<Longrightarrow>
    safe_decoder (dec_submessage n env) f s"
proof (induction n arbitrary: s f a)
  case (Suc n)
  note lay = Suc.prems(3)
  show ?case
    unfolding safe_decoder_def
  proof (intro allI impI)
    fix b off m
    assume blk: "in_block m b off (off + int (data_size f))"
    let ?read = "\<lambda>sub m. if htype f = PB_HTYPE_REPEATED then decode_init env (dec_submessage n env) sub (tables env a) (b, off) m
        else decode_noinit env (dec_submessage n env) sub (tables env a) (b, off) m"
    have "safe_run b off (off + int (data_size f)) s m (run_then (on_stream (pb_make_string_substream s) m)
        (\<lambda>sub s1 m1. do { (x, sub', m') \<leftarrow> ?read sub m; close_with s1 (Some (x, sub', m')) }))"
    proof (rule safe_substream [OF blk])
      fix sub s1
      assume "pb_make_string_substream s = (Inr sub, s1)"
      then have lt: "bytes_left sub < n" using substream_left(1) Suc.prems(1) by fastforce
      have "submessages_safe (dec_submessage n env) (tables env a) n"
        unfolding submessages_safe_def using layout_submessage [OF lay] Suc.IH by blast
      then show "safe_run b off (off + int (data_size f)) sub m (?read sub m)"
        using decode_init_safe [OF lay blk] decode_noinit_safe [OF lay blk] lt by simp
    qed simp
    moreover have "dec_submessage (Suc n) env s f (b, off) m = run_then (on_stream (pb_make_string_substream s) m)
        (\<lambda>sub s1 m1. do { (x, sub', m') \<leftarrow> ?read sub m; close_with s1 (Some (x, sub', m')) })"
      using Suc.prems(2)
      by (cases "pb_make_string_substream s"; cases "fst (pb_make_string_substream s)")
        (auto simp: on_stream_def run_then_def submsg_fields_def close_with_bind [of _ "_ \<bind> _"] close_with_bind [of _ "decode_init _ _ _ _ _ _"]
          close_with_bind [of _ "decode_noinit _ _ _ _ _ _"])
    ultimately show "safe_run b off (off + int (data_size f)) s m (dec_submessage (Suc n) env s f (b, off) m)" by simp
  qed
qed simp

lemma message_submessages_safe:
  "static_layout (tables env) fs sz \<Longrightarrow> submessages_safe (dec_submessage n env) fs n"
  unfolding submessages_safe_def using layout_submessage dec_submessage_safe by blast

end
