(* ===== verification/PbCct.thy ===== *)
theory PbCct
  imports PbMacros PbSafeLoop
begin

text \<open>
  The messages of the data transport library (\<open>cct.nanopb.c\<close>), the generated code through which this
  application uses nanopb, and the theorems on decoding applied to them.
\<close>

section \<open>Descriptors\<close>

text \<open>A member by its offset, its size, the size of an item and the offset of its companion, in the structures of
  \<open>cct.nanopb.h\<close> as an LP64 compiler lays them out.\<close>

definition member :: "nat \<Rightarrow> nat \<Rightarrow> nat \<Rightarrow> nat \<Rightarrow> pb_member" where
  "member off sz item other = \<lparr> offset = off, membersize = sz, itemsize = item, companion = other \<rparr>"

definition cct_decl :: "u32 \<Rightarrow> pb_proto_type \<Rightarrow> pb_rules \<Rightarrow> pb_atype \<Rightarrow> pb_member \<Rightarrow> pb_field_ptr \<Rightarrow> pb_decl" where
  "cct_decl tag type rules allocation m p = \<lparr> decl_tag = tag, decl_type = type, decl_rules = rules, decl_alloc = allocation,
     decl_member = m, decl_ptr = p \<rparr>"

definition gdt_cct_LogEvent_decls :: "pb_decl list" where
  "gdt_cct_LogEvent_decls = [
     cct_decl 1 T_INT64 OPTIONAL PB_ATYPE_STATIC (member 8 8 8 0) NoPtr,
     cct_decl 6 T_BYTES OPTIONAL PB_ATYPE_POINTER (member 16 8 8 16) NoPtr,
     cct_decl 11 T_INT32 OPTIONAL PB_ATYPE_STATIC (member 28 4 4 24) NoPtr,
     cct_decl 15 T_SINT64 OPTIONAL PB_ATYPE_STATIC (member 40 8 8 32) NoPtr,
     cct_decl 17 T_INT64 OPTIONAL PB_ATYPE_STATIC (member 56 8 8 48) NoPtr,
     cct_decl 23 T_MESSAGE OPTIONAL PB_ATYPE_STATIC (member 68 16 16 64) (Submessage 2)]"

definition gdt_cct_NetworkConnectionInfo_decls :: "pb_decl list" where
  "gdt_cct_NetworkConnectionInfo_decls = [
     cct_decl 1 T_ENUM OPTIONAL PB_ATYPE_STATIC (member 4 4 4 0) (DefaultValue (le_bytes 4 (2 ^ 32 - 1))),
     cct_decl 2 T_UENUM OPTIONAL PB_ATYPE_STATIC (member 12 4 4 8) (DefaultValue (le_bytes 4 0))]"

definition gdt_cct_IosClientInfo_decls :: "pb_decl list" where
  "gdt_cct_IosClientInfo_decls = [
     cct_decl 3 T_BYTES OPTIONAL PB_ATYPE_POINTER (member 0 8 8 0) NoPtr,
     cct_decl 4 T_BYTES OPTIONAL PB_ATYPE_POINTER (member 8 8 8 8) NoPtr,
     cct_decl 5 T_BYTES OPTIONAL PB_ATYPE_POINTER (member 16 8 8 16) NoPtr,
     cct_decl 6 T_BYTES OPTIONAL PB_ATYPE_POINTER (member 24 8 8 24) NoPtr,
     cct_decl 7 T_BYTES OPTIONAL PB_ATYPE_POINTER (member 32 8 8 32) NoPtr,
     cct_decl 8 T_BYTES OPTIONAL PB_ATYPE_POINTER (member 40 8 8 40) NoPtr,
     cct_decl 11 T_BYTES OPTIONAL PB_ATYPE_POINTER (member 48 8 8 48) NoPtr]"

definition gdt_cct_ClientInfo_decls :: "pb_decl list" where
  "gdt_cct_ClientInfo_decls = [
     cct_decl 1 T_UENUM OPTIONAL PB_ATYPE_STATIC (member 4 4 4 0) NoPtr,
     cct_decl 4 T_MESSAGE OPTIONAL PB_ATYPE_STATIC (member 16 56 56 8) (Submessage 3)]"

definition gdt_cct_BatchedLogRequest_decls :: "pb_decl list" where
  "gdt_cct_BatchedLogRequest_decls = [
     cct_decl 1 T_MESSAGE REPEATED PB_ATYPE_POINTER (member 8 8 144 0) (Submessage 6)]"

definition gdt_cct_LogRequest_decls :: "pb_decl list" where
  "gdt_cct_LogRequest_decls = [
     cct_decl 1 T_MESSAGE OPTIONAL PB_ATYPE_STATIC (member 8 72 72 0) (Submessage 4),
     cct_decl 2 T_INT32 OPTIONAL PB_ATYPE_STATIC (member 84 4 4 80) NoPtr,
     cct_decl 3 T_MESSAGE REPEATED PB_ATYPE_POINTER (member 96 8 88 88) (Submessage 1),
     cct_decl 4 T_INT64 OPTIONAL PB_ATYPE_STATIC (member 112 8 8 104) NoPtr,
     cct_decl 8 T_INT64 OPTIONAL PB_ATYPE_STATIC (member 128 8 8 120) NoPtr,
     cct_decl 9 T_UENUM OPTIONAL PB_ATYPE_STATIC (member 140 4 4 136) (DefaultValue (le_bytes 4 0))]"

definition gdt_cct_QosTierConfiguration_decls :: "pb_decl list" where
  "gdt_cct_QosTierConfiguration_decls = [
     cct_decl 2 T_UENUM OPTIONAL PB_ATYPE_STATIC (member 4 4 4 0) NoPtr,
     cct_decl 3 T_INT32 OPTIONAL PB_ATYPE_STATIC (member 12 4 4 8) (DefaultValue (le_bytes 4 0))]"

definition gdt_cct_QosTiersOverride_decls :: "pb_decl list" where
  "gdt_cct_QosTiersOverride_decls = [
     cct_decl 1 T_MESSAGE REPEATED PB_ATYPE_POINTER (member 8 8 16 0) (Submessage 7),
     cct_decl 2 T_INT64 OPTIONAL PB_ATYPE_STATIC (member 24 8 8 16) NoPtr]"

definition gdt_cct_LogResponse_decls :: "pb_decl list" where
  "gdt_cct_LogResponse_decls = [
     cct_decl 1 T_INT64 OPTIONAL PB_ATYPE_STATIC (member 8 8 8 0) NoPtr,
     cct_decl 3 T_MESSAGE OPTIONAL PB_ATYPE_STATIC (member 24 32 32 16) (Submessage 8)]"

text \<open>The arrays of descriptors by their number in the file, which stands for their address.\<close>

definition cct_messages :: "nat \<Rightarrow> pb_decl list" where
  "cct_messages a = (if a = 1 then gdt_cct_LogEvent_decls else if a = 2 then gdt_cct_NetworkConnectionInfo_decls
     else if a = 3 then gdt_cct_IosClientInfo_decls else if a = 4 then gdt_cct_ClientInfo_decls
     else if a = 5 then gdt_cct_BatchedLogRequest_decls else if a = 6 then gdt_cct_LogRequest_decls
     else if a = 7 then gdt_cct_QosTierConfiguration_decls else if a = 8 then gdt_cct_QosTiersOverride_decls
     else if a = 9 then gdt_cct_LogResponse_decls else [])"

definition cct_tables :: pb_tables where
  "cct_tables a = declare_fields (cct_messages a)"

lemmas cct_defs = gdt_cct_LogEvent_decls_def gdt_cct_NetworkConnectionInfo_decls_def gdt_cct_IosClientInfo_decls_def
  gdt_cct_ClientInfo_decls_def gdt_cct_BatchedLogRequest_decls_def gdt_cct_LogRequest_decls_def
  gdt_cct_QosTierConfiguration_decls_def gdt_cct_QosTiersOverride_decls_def gdt_cct_LogResponse_decls_def
  cct_decl_def member_def

lemma cct_decls_ok: "decls_ok (cct_messages a)"
  by (simp add: cct_messages_def cct_defs decl_ok_def follows_def same_union_def)

text \<open>C32. The iterator reaches every member of a structure: the differences of offsets that the macros of \<open>pb.h\<close>
  store in the descriptors add up to \<open>offsetof\<close> of the member and of its count, presence flag or \<open>which_u\<close>, whatever mix of
  static, pointer, callback and array members and of members of unions comes before it.\<close>

theorem iterator_reaches_members:
  assumes "decls_ok ds" and "i < length ds"
  shows "pData (iter_nth (declare_fields ds) dest i) = loc_add dest (int (offset (decl_member (ds ! i)))) \<and>
    pSize (iter_nth (declare_fields ds) dest i) =
      SizeAt (loc_add dest (int (if has_companion (ds ! i) then companion (decl_member (ds ! i)) else offset (decl_member (ds ! i)))))"
  using iter_at_member [OF assms] by blast

text \<open>An integer, a union of a pointer, an integer and a submessage, a union of one integer, and a flag.\<close>

definition union_decls :: "pb_decl list" where
  "union_decls = [
     cct_decl 1 T_INT32 REQUIRED PB_ATYPE_STATIC (member 0 4 4 0) NoPtr,
     cct_decl 2 T_BYTES ONEOF PB_ATYPE_POINTER (member 8 8 8 4) NoPtr,
     cct_decl 3 T_INT32 ONEOF PB_ATYPE_STATIC (member 8 4 4 4) NoPtr,
     cct_decl 4 T_MESSAGE ONEOF PB_ATYPE_STATIC (member 8 16 16 4) (Submessage 2),
     cct_decl 5 T_INT64 ONEOF PB_ATYPE_STATIC (member 32 8 8 24) NoPtr,
     cct_decl 6 T_BOOL SINGULAR PB_ATYPE_STATIC (member 40 1 1 0) NoPtr]"

lemma union_decls_ok: "decls_ok union_decls"
  by (simp add: union_decls_def cct_decl_def member_def decl_ok_def follows_def same_union_def)

text \<open>The last member of the first union, with its \<open>which_u\<close>, the second union, and what comes after it.\<close>

lemma iterator_reaches_members_witness:
  "pData (iter_nth (declare_fields union_decls) (7, 1000) 3) = (7, 1008) \<and>
   pSize (iter_nth (declare_fields union_decls) (7, 1000) 3) = SizeAt (7, 1004) \<and>
   pData (iter_nth (declare_fields union_decls) (7, 1000) 4) = (7, 1032) \<and>
   pData (iter_nth (declare_fields union_decls) (7, 1000) 5) = (7, 1040)"
  using iterator_reaches_members [OF union_decls_ok, of 3 "(7, 1000)"] iterator_reaches_members [OF union_decls_ok, of 4 "(7, 1000)"]
    iterator_reaches_members [OF union_decls_ok, of 5 "(7, 1000)"]
  by (simp add: union_decls_def cct_decl_def member_def has_companion_def loc_add_def del: iter_nth.simps)

section \<open>Messages without pointers\<close>

lemma cct_room:
  assumes "i < length (cct_messages a)"
  shows "data_pos (cct_tables a) i = int (offset (decl_member (cct_messages a ! i)))"
    and "size_pos (cct_tables a) i = int (if has_companion (cct_messages a ! i) then companion (decl_member (cct_messages a ! i))
      else offset (decl_member (cct_messages a ! i)))"
  using iter_at_member [OF cct_decls_ok assms, of "(0, 0)"] by (simp_all add: data_pos_def size_pos_def cct_tables_def loc_add_def)

lemma cct_table_pairs:
  "cct_tables 2 = [descriptor 1 PB_LTYPE_VARINT PB_HTYPE_OPTIONAL PB_ATYPE_STATIC 4 (- 4) 4 0 (DefaultValue (le_bytes 4 (2 ^ 32 - 1))),
     descriptor 2 PB_LTYPE_UVARINT PB_HTYPE_OPTIONAL PB_ATYPE_STATIC 4 (- 4) 4 0 (DefaultValue (le_bytes 4 0))]"
  "cct_tables 7 = [descriptor 2 PB_LTYPE_UVARINT PB_HTYPE_OPTIONAL PB_ATYPE_STATIC 4 (- 4) 4 0 NoPtr,
     descriptor 3 PB_LTYPE_VARINT PB_HTYPE_OPTIONAL PB_ATYPE_STATIC 4 (- 4) 4 0 (DefaultValue (le_bytes 4 0))]"
  by (simp_all add: cct_tables_def cct_messages_def cct_defs declare_field_def PB_FIELD_def PB_DATAOFFSET_def placement_after_def same_union_def pb_delta_def)

lemma cct_pair_positions:
  assumes "a = 2 \<or> a = 7"
  shows "data_pos (cct_tables a) 0 = 4" "size_pos (cct_tables a) 0 = 0" "data_pos (cct_tables a) 1 = 12" "size_pos (cct_tables a) 1 = 8"
  using cct_room [of 0 a] cct_room [of 1 a] assms by (auto simp: cct_messages_def cct_defs has_companion_def)

lemma cct_static_layout: "a = 2 \<or> a = 7 \<Longrightarrow> static_layout cct_tables (cct_tables a) 16"
proof (rule layout)
  assume a: "a = 2 \<or> a = 7"
  then show "cct_tables a \<noteq> []" using cct_table_pairs by auto
  show "tags_ok (cct_tables a)" unfolding cct_tables_def by (rule declare_tags_ok [OF cct_decls_ok])
  fix i
  assume "i < length (cct_tables a)"
  then have "i = 0 \<or> i = 1" using a cct_table_pairs by auto
  moreover have "field_room (cct_tables a ! 0) 4 0 16" "field_room (cct_tables a ! 1) 12 8 16"
    using a by (auto simp: cct_table_pairs field_room_def value_room_def entries_def)
  ultimately show "field_room (cct_tables a ! i) (data_pos (cct_tables a) i) (size_pos (cct_tables a) i) 16"
    using cct_pair_positions [OF a] by auto
next
  fix f
  assume "a = 2 \<or> a = 7" "f \<in> set (cct_tables a)" "ltype f = PB_LTYPE_SUBMESSAGE"
  then show "\<exists>a. ptr f = Submessage a \<and> static_layout cct_tables (cct_tables a) (data_size f)"
    by (auto simp: cct_table_pairs)
qed

text \<open>C10. Decoding into a structure of which every field is held statically, in its submessages too (\<open>static_layout\<close>): required,
  optional and repeated fields and members of unions, each within the structure, default values of the fields' size, four bytes
  of the structure for the count of a repeated field, which the code clears even where a fixed count has none, and for a \<open>which_u\<close>; no
  pointers, callbacks or extensions.  Decoding such a message is defined for every input: all the
  loops and nested calls return, every access is to the structure, and afterwards the stream has at most been read
  to its end and nothing outside the structure has changed.\<close>

theorem pb_decode_stays_in_message:
  assumes "static_layout (tables env) fs sz" and "in_block m b off (off + int sz)"
  shows "\<exists>status s' m'. pb_decode env s fs (b, off) m = Some (status, s', m') \<and> within s s' \<and> changes_only b off (off + int sz) m m'"
  using decode_init_safe [OF assms message_submessages_safe [OF assms(1)] order_refl] by (simp add: pb_decode_def safe_run_def)

theorem pb_decode_stays_in_message_witness:
  "\<exists>status s' m'. pb_decode \<lparr> tables = cct_tables, allocator = (\<lambda>_ _. None), callback = (\<lambda>_ _ _ _ _. None) \<rparr>
     (pb_istream_from_buffer [0x08, 1, 0xFF] 3) (cct_tables 2) (1, 4)
     \<lparr> blocks = (\<lambda>_. None)(1 \<mapsto> replicate 20 0), fixed_count_size = 0 \<rparr> = Some (status, s', m')"
proof -
  let ?m = "\<lparr> blocks = (\<lambda>_. None)(1 \<mapsto> replicate 20 0), fixed_count_size = 0 \<rparr>"
  have "static_layout (tables \<lparr> tables = cct_tables, allocator = (\<lambda>_ _. None), callback = (\<lambda>_ _ _ _ _. None) \<rparr>) (cct_tables 2) 16"
    using cct_static_layout [of 2] by simp
  moreover have "in_block ?m 1 4 (4 + int 16)" by (simp add: in_block_def)
  ultimately show ?thesis using pb_decode_stays_in_message by blast
qed

end
