(* ===== verification/PbWriteSafe.thy ===== *)
theory PbWriteSafe
  imports PbWriteMessage PbCct
begin

text \<open>
  Encoding a message from a structure that has the layout of its descriptors: every run is defined, and what
  is written depends on the structure alone, so that the pass that only counts predicts the pass that writes.
\<close>

section \<open>Settled writers\<close>

definition fails :: "pb_enc_run \<Rightarrow> bool" where
  "fails r \<longleftrightarrow> (\<exists>e s. r = Some (Inl e, s))"

text \<open>A stream on which \<open>n\<close> more bytes do not wrap around.\<close>

definition stream_ok :: "nat \<Rightarrow> pb_ostream \<Rightarrow> bool" where
  "stream_ok n s \<longleftrightarrow> (if has_callback s then bytes_written s \<le> max_size s \<and> max_size s < 2 ^ 63 else bytes_written s + n < SIZE_LIMIT)"

definition delivers :: "nat \<Rightarrow> (pb_ostream \<Rightarrow> pb_enc_run) \<Rightarrow> bytes \<Rightarrow> bool" where
  "delivers n f bs \<longleftrightarrow> length bs \<le> n \<and> (\<forall>s. stream_ok n s \<longrightarrow>
     (if has_callback s \<and> max_size s < bytes_written s + length bs then fails (f s) else f s = Some (Inr (), emit s bs)))"

definition refuses :: "nat \<Rightarrow> (pb_ostream \<Rightarrow> pb_enc_run) \<Rightarrow> bool" where
  "refuses n f \<longleftrightarrow> (\<forall>s. stream_ok n s \<longrightarrow> fails (f s))"

text \<open>A writer of at most \<open>n\<close> bytes that writes the same bytes to every stream with room for them, or fails on
  every stream.\<close>

definition settled :: "nat \<Rightarrow> (pb_ostream \<Rightarrow> pb_enc_run) \<Rightarrow> bool" where
  "settled n f \<longleftrightarrow> n < 2 ^ 63 \<longrightarrow> (\<exists>bs. delivers n f bs) \<or> refuses n f"

lemma stream_ok_mono: "stream_ok n s \<Longrightarrow> m \<le> n \<Longrightarrow> stream_ok m s"
  by (auto simp: stream_ok_def split: if_splits)

lemma stream_ok_emit:
  "stream_ok (m + n) s \<Longrightarrow> length as \<le> m \<Longrightarrow> \<not> (has_callback s \<and> max_size s < bytes_written s + length as) \<Longrightarrow> stream_ok n (emit s as)"
  by (auto simp: stream_ok_def split: if_splits)

lemma fails_then: "fails r \<Longrightarrow> fails (enc_then r g)"
  by (auto simp: fails_def enc_then_def)

lemma enc_then_Inr [simp]: "enc_then (Some (Inr u, s)) g = g s"
  by (simp add: enc_then_def)

lemma enc_then_Inl [simp]: "enc_then (Some (Inl e, s)) g = Some (Inl e, s)"
  by (simp add: enc_then_def)

lemma delivers_mono: "delivers m f bs \<Longrightarrow> m \<le> n \<Longrightarrow> delivers n f bs"
  unfolding delivers_def using stream_ok_mono by (meson order_trans)

lemma refuses_mono: "refuses m f \<Longrightarrow> m \<le> n \<Longrightarrow> refuses n f"
  unfolding refuses_def using stream_ok_mono by blast

lemma settled_mono: "settled m f \<Longrightarrow> m \<le> n \<Longrightarrow> settled n f"
  unfolding settled_def using delivers_mono refuses_mono by (meson order_le_less_trans)

lemma delivers_then:
  assumes "delivers m f as" and "delivers n g bs"
  shows "delivers (m + n) (\<lambda>s. enc_then (f s) g) (as @ bs)"
  unfolding delivers_def
proof (intro conjI allI impI)
  show "length (as @ bs) \<le> m + n" using assms by (simp add: delivers_def)
  fix s
  assume ok: "stream_ok (m + n) s"
  then have f: "if has_callback s \<and> max_size s < bytes_written s + length as then fails (f s) else f s = Some (Inr (), emit s as)"
    using assms(1) stream_ok_mono [of "m + n" s m] by (simp add: delivers_def)
  show "if has_callback s \<and> max_size s < bytes_written s + length (as @ bs) then fails (enc_then (f s) g)
    else enc_then (f s) g = Some (Inr (), emit s (as @ bs))"
  proof (cases "has_callback s \<and> max_size s < bytes_written s + length as")
    case True
    then show ?thesis using f fails_then by auto
  next
    case False
    moreover have "stream_ok n (emit s as)" using stream_ok_emit [OF ok] False assms(1) by (simp add: delivers_def)
    ultimately show ?thesis using f assms(2) by (auto simp: delivers_def)
  qed
qed

lemma settled_then:
  assumes "settled m f" and "settled n g"
  shows "settled (m + n) (\<lambda>s. enc_then (f s) g)"
  unfolding settled_def
proof
  assume lim: "m + n < 2 ^ 63"
  consider (both) as bs where "delivers m f as" "delivers n g bs" | (first) "refuses m f" | (second) as where "delivers m f as" "refuses n g"
    using assms lim by (auto simp: settled_def)
  then show "(\<exists>bs. delivers (m + n) (\<lambda>s. enc_then (f s) g) bs) \<or> refuses (m + n) (\<lambda>s. enc_then (f s) g)"
  proof cases
    case both
    then show ?thesis using delivers_then by blast
  next
    case first
    then show ?thesis unfolding refuses_def using fails_then stream_ok_mono [of "m + n" _ m] by auto
  next
    case second
    have "fails (enc_then (f s) g)" if ok: "stream_ok (m + n) s" for s
    proof (cases "has_callback s \<and> max_size s < bytes_written s + length as")
      case True
      then show ?thesis using second(1) stream_ok_mono [OF ok, of m] fails_then by (auto simp: delivers_def)
    next
      case False
      then have "f s = Some (Inr (), emit s as)" using second(1) stream_ok_mono [OF ok, of m] by (auto simp: delivers_def)
      moreover have "stream_ok n (emit s as)" using stream_ok_emit [OF ok] False second(1) by (simp add: delivers_def)
      ultimately show ?thesis using second(2) by (simp add: refuses_def)
    qed
    then show ?thesis unfolding refuses_def by blast
  qed
qed

lemma settled_return: "settled n (\<lambda>s. Some (Inr (), s))"
  unfolding settled_def delivers_def by (auto intro!: exI [of _ "[]"] simp: stream_ok_def)

lemma settled_fail: "settled n (\<lambda>s. Some (Inl e, s))"
  by (simp add: settled_def refuses_def fails_def)

lemma delivers_write: "length bs \<le> n \<Longrightarrow> n < 2 ^ 63 \<Longrightarrow> delivers n (\<lambda>s. Some (pb_write s bs)) bs"
proof (unfold delivers_def, intro conjI allI impI)
  fix s :: pb_ostream
  assume n: "length bs \<le> n" "n < 2 ^ 63" and ok: "stream_ok n s"
  then have lim: "bytes_written s + length bs < SIZE_LIMIT" by (auto simp: stream_ok_def SIZE_LIMIT_def split: if_splits)
  show "if has_callback s \<and> max_size s < bytes_written s + length bs then fails (Some (pb_write s bs))
    else Some (pb_write s bs) = Some (Inr (), emit s bs)"
    using ok by (auto simp: pb_write_def fails_def szadd_exact [OF lim] emit_def buf_write_def stream_ok_def Let_def split: if_splits)
qed

lemma settled_write: "length bs \<le> n \<Longrightarrow> settled n (\<lambda>s. Some (pb_write s bs))"
  unfolding settled_def using delivers_write by blast

lemma delivers_varint: "delivers 10 (\<lambda>s. Some (pb_encode_varint s v)) (leb (unat v))"
  unfolding pb_encode_varint_eq by (rule delivers_write [OF length_leb_64 [OF unat_u64_less]]) simp

lemma settled_varint: "settled 10 (\<lambda>s. Some (pb_encode_varint s v))"
  unfolding settled_def using delivers_varint by blast

lemma encode_string_then: "Some (pb_encode_string s bs) =
    enc_then (Some (pb_encode_varint s (word_of_nat (length bs)))) (\<lambda>s. Some (pb_write s bs))"
  by (auto simp: pb_encode_string_def enc_then_def split: prod.splits sum.splits)

lemma settled_string: "length bs \<le> n \<Longrightarrow> settled (10 + n) (\<lambda>s. Some (pb_encode_string s bs))"
  unfolding encode_string_then by (intro settled_then settled_varint settled_write)

text \<open>On a stream that counts, only the length matters.\<close>

lemma string_counts: "\<not> has_callback s \<Longrightarrow> length as = length bs \<Longrightarrow> pb_encode_string s as = pb_encode_string s bs"
proof -
  assume c: "\<not> has_callback s" "length as = length bs"
  obtain r t where v: "pb_encode_varint s (word_of_nat (length bs)) = (r, t)" by (cases "pb_encode_varint s (word_of_nat (length bs))")
  then have "\<not> has_callback t" using c(1) by (auto simp: pb_encode_varint_eq pb_write_def Let_def)
  then show ?thesis using c(2) v by (simp add: pb_encode_string_def pb_write_def Let_def split: sum.split)
qed

lemma settled_string_loaded:
  assumes "load_at m l k = Some bs" "length bs = k"
  shows "settled (10 + k) (\<lambda>s. map_option (pb_encode_string s) (load_for s m l k))"
proof -
  have "map_option (pb_encode_string s) (load_for s m l k) = Some (pb_encode_string s bs)" for s
    using assms string_counts [of s "replicate k 0" bs] by (simp add: load_for_def)
  moreover have "settled (10 + k) (\<lambda>s. Some (pb_encode_string s bs))" using settled_string [of bs k] assms(2) by simp
  ultimately show ?thesis by presburger
qed

section \<open>Values\<close>

text \<open>The most bytes that a value of a type with \<open>sub\<close> bytes for a submessage takes, its length in front included.\<close>

definition value_bound :: "pb_field \<Rightarrow> nat \<Rightarrow> nat" where
  "value_bound f sub = (case ltype f of
     PB_LTYPE_BYTES \<Rightarrow> 10 + data_size f
   | PB_LTYPE_STRING \<Rightarrow> 10 + data_size f
   | PB_LTYPE_FIXED_LENGTH_BYTES \<Rightarrow> 10 + data_size f
   | PB_LTYPE_SUBMESSAGE \<Rightarrow> 10 + sub
   | _ \<Rightarrow> 10)"

lemma settled_int:
  "settled 10 (\<lambda>s. Some (pb_enc_bool s f bs))" "settled 10 (\<lambda>s. Some (pb_enc_varint s f bs))"
  "settled 10 (\<lambda>s. Some (pb_enc_uvarint s f bs))" "settled 10 (\<lambda>s. Some (pb_enc_svarint s f bs))"
  unfolding pb_enc_bool_def pb_enc_varint_def pb_enc_uvarint_def pb_enc_svarint_def pb_encode_svarint_def Let_def
  by (rule settled_varint; cases "load_signed (data_size f) bs"; cases "load_unsigned (data_size f) bs"; simp add: settled_varint settled_fail)
    (cases "load_signed (data_size f) bs"; cases "load_unsigned (data_size f) bs"; simp add: settled_varint settled_fail)+

lemma settled_fixed: "settled 10 (\<lambda>s. Some (pb_enc_fixed32 s f bs))" "settled 10 (\<lambda>s. Some (pb_enc_fixed64 s f bs))"
  by (simp_all add: pb_enc_fixed32_def pb_enc_fixed64_def fixed32_bytes fixed64_bytes settled_write)

lemma settled_tag: "settled 10 (\<lambda>s. Some (pb_encode_tag_for_field s f))"
  by (cases "ltype f") (simp_all add: pb_encode_tag_for_field_def pb_encode_tag_def settled_varint settled_fail)

lemma load_whole: "in_block m b off (off + int n) \<Longrightarrow> k \<le> n \<Longrightarrow> \<exists>bs. load_at m (b, off) k = Some bs \<and> length bs = k"
  by (rule load_in_block) auto

lemma settled_bytes:
  assumes blk: "in_block m b off (off + int (data_size f))" and sz: "4 \<le> data_size f" and st: "atype f = PB_ATYPE_STATIC"
  shows "settled (10 + data_size f) (\<lambda>s. enc_bytes_at m s f (b, off))"
proof (cases "b = 0")
  case True
  then show ?thesis using settled_string [of "[]" "data_size f"] by (simp add: enc_bytes_at_def)
next
  case False
  obtain head where head: "load_at m (b, off) 4 = Some head" using load_whole [OF blk sz] by blast
  let ?sz = "le_val head" let ?alloc = "PB_BYTES_ARRAY_T_ALLOCSIZE ?sz"
  show ?thesis
  proof (cases "?alloc < ?sz \<or> data_size f < ?alloc")
    case True
    then show ?thesis using \<open>b \<noteq> 0\<close> head st by (simp add: enc_bytes_at_def settled_fail)
  next
    case fits: False
    have "length head = 4" using load_whole [OF blk sz] head by auto
    then have "?sz < 2 ^ 32" using le_val_less [of head] by simp
    then have "?alloc = ?sz + 4" by (simp add: PB_BYTES_ARRAY_T_ALLOCSIZE_def szadd_exact SIZE_LIMIT_def)
    then have "4 + ?sz \<le> data_size f" using fits by simp
    then obtain bs where "load_at m (b, off + 4) ?sz = Some bs" "length bs = ?sz" using load_in_block [OF blk, of "off + 4" ?sz] by auto
    then have "settled (10 + ?sz) (\<lambda>s. map_option (pb_encode_string s) (load_for s m (b, off + 4) ?sz))" by (rule settled_string_loaded)
    then have "settled (10 + data_size f) (\<lambda>s. map_option (pb_encode_string s) (load_for s m (b, off + 4) ?sz))"
      by (rule settled_mono) (use \<open>4 + ?sz \<le> data_size f\<close> in simp)
    moreover have "enc_bytes_at m s f (b, off) = map_option (pb_encode_string s) (load_for s m (b, off + 4) ?sz)" for s
      using \<open>b \<noteq> 0\<close> head st fits by (auto simp: enc_bytes_at_def loc_add_def)
    ultimately show ?thesis by simp
  qed
qed

lemma settled_c_string:
  assumes blk: "in_block m b off (off + int (data_size f))" and st: "atype f = PB_ATYPE_STATIC"
  shows "settled (10 + data_size f) (\<lambda>s. enc_string_at m s f (b, off))"
proof (cases "b = 0")
  case True
  then show ?thesis using settled_string [of "[]" "data_size f"] by (simp add: enc_string_at_def)
next
  case False
  obtain blk where b: "blocks m b = Some blk" "0 \<le> off" "off + int (data_size f) \<le> int (length blk)" using assms(1) by (auto simp: in_block_def)
  let ?rest = "drop (nat off) blk"
  let ?str = "takeWhile (\<lambda>c. c \<noteq> 0) (take (data_size f) ?rest)"
  have off: "nat off + data_size f \<le> length blk" using b(2,3) by linarith
  have le: "length ?str \<le> data_size f" using length_takeWhile_le [of "\<lambda>c. c \<noteq> 0" "take (data_size f) ?rest"] by simp
  have "length ?str < length ?rest \<or> length ?str = data_size f"
  proof (cases "length ?str = data_size f")
    case False
    then show ?thesis using le off by simp
  qed simp
  then have "c_string m (b, off) (data_size f) = Some ?str" using b off by (simp add: c_string_def Let_def)
  then have "enc_string_at m s f (b, off) = Some (pb_encode_string s ?str)" for s
    using \<open>b \<noteq> 0\<close> st by (simp add: enc_string_at_def)
  then show ?thesis using settled_string [OF le] by simp
qed

section \<open>Lengths in front\<close>

lemma ok_sizing: "n < 2 ^ 63 \<Longrightarrow> stream_ok n PB_OSTREAM_SIZING"
  by (simp add: stream_ok_def PB_OSTREAM_SIZING_def SIZE_LIMIT_def)

lemma sizing_delivers:
  assumes "delivers n f bs" "n < 2 ^ 63"
  shows "f PB_OSTREAM_SIZING = Some (Inr (), emit PB_OSTREAM_SIZING bs)" "bytes_written (emit PB_OSTREAM_SIZING bs) = length bs"
proof -
  show "f PB_OSTREAM_SIZING = Some (Inr (), emit PB_OSTREAM_SIZING bs)"
    using assms ok_sizing [OF assms(2)] by (auto simp: delivers_def PB_OSTREAM_SIZING_def)
  show "bytes_written (emit PB_OSTREAM_SIZING bs) = length bs" by (simp add: PB_OSTREAM_SIZING_def)
qed

lemma varint_of_length: "n < 2 ^ 63 \<Longrightarrow> delivers 10 (\<lambda>s. Some (pb_encode_varint s (word_of_nat n))) (leb n)"
  using delivers_varint [of "word_of_nat n"] by (simp add: unat_of_nat)

lemma settled_submessage:
  assumes "settled n f"
  shows "settled (10 + n) (encode_submessage_at f)"
  unfolding settled_def
proof
  assume lim: "10 + n < 2 ^ 63"
  then have n: "n < 2 ^ 63" by simp
  consider (some) bs where "delivers n f bs" | (none) "refuses n f" using assms n by (auto simp: settled_def)
  then show "(\<exists>bs. delivers (10 + n) (encode_submessage_at f) bs) \<or> refuses (10 + n) (encode_submessage_at f)"
  proof cases
    case none
    then have "fails (f PB_OSTREAM_SIZING)" using ok_sizing [OF n] by (simp add: refuses_def)
    then show ?thesis by (auto simp: refuses_def fails_def encode_submessage_at_def)
  next
    case some
    have len: "length bs \<le> n" using some by (simp add: delivers_def)
    let ?rest = "\<lambda>s. if \<not> has_callback s then Some (pb_write_null s (length bs))
           else if max_size s < szadd (bytes_written s) (length bs) then Some (Inl ''stream full'', s)
           else do {
             (status, sub) \<leftarrow> f \<lparr> has_callback = has_callback s, written = written s, max_size = length bs, bytes_written = 0 \<rparr>;
             let s = s\<lparr> bytes_written := szadd (bytes_written s) (bytes_written sub), written := written sub \<rparr>;
             Some (if bytes_written sub \<noteq> length bs then (Inl (case status of Inl e \<Rightarrow> e | Inr _ \<Rightarrow> ''submsg size changed''), s)
               else (status, s))
           }"
    have "delivers n ?rest bs"
      unfolding delivers_def
    proof (intro conjI allI impI len)
      fix s :: pb_ostream
      assume ok: "stream_ok n s"
      then have add: "szadd (bytes_written s) (length bs) = bytes_written s + length bs"
        using len n by (intro szadd_exact) (auto simp: stream_ok_def SIZE_LIMIT_def split: if_splits)
      let ?sub = "\<lparr> has_callback = True, written = written s, max_size = length bs, bytes_written = 0 \<rparr>"
      have "stream_ok n ?sub" using len n by (simp add: stream_ok_def)
      then have "f ?sub = Some (Inr (), emit ?sub bs)" using some by (simp add: delivers_def)
      then show "if has_callback s \<and> max_size s < bytes_written s + length bs then fails (?rest s) else ?rest s = Some (Inr (), emit s bs)"
        by (auto simp: add pb_write_null_def fails_def emit_def)
    qed
    then have "delivers (10 + n) (\<lambda>s. enc_then (Some (pb_encode_varint s (word_of_nat (length bs)))) ?rest) (leb (length bs) @ bs)"
      by (intro delivers_then varint_of_length) (use len n in auto)
    moreover have "encode_submessage_at f s = enc_then (Some (pb_encode_varint s (word_of_nat (length bs)))) ?rest" for s
      unfolding encode_submessage_at_def sizing_delivers(1) [OF some n] bind.bind_lunit prod.case sum.case Let_def
        sizing_delivers(2) [OF some n] ..
    ultimately show ?thesis by (metis (no_types, lifting) ext)
  qed
qed

section \<open>Arrays\<close>

lemma settled_entries:
  assumes "\<And>i. i < k \<Longrightarrow> settled n (\<lambda>s. func s (loc_add p (int (sz * i))))"
  shows "settled (k * n) (encode_entries func sz k p)"
  using assms
proof (induction k arbitrary: p)
  case 0
  have "encode_entries func sz 0 p = (\<lambda>s. Some (Inr (), s))" by (rule ext) simp
  then show ?case using settled_return by simp
next
  case (Suc k)
  have "settled (k * n) (encode_entries func sz k (loc_add p (int sz)))"
  proof (rule Suc.IH)
    fix i
    assume "i < k"
    then have "settled n (\<lambda>s. func s (loc_add p (int (sz * Suc i))))" by (intro Suc.prems) simp
    moreover have "loc_add p (int (sz * Suc i)) = loc_add (loc_add p (int sz)) (int (sz * i))" by simp
    ultimately show "settled n (\<lambda>s. func s (loc_add (loc_add p (int sz)) (int (sz * i))))" by simp
  qed
  moreover have "settled n (\<lambda>s. func s p)" using Suc.prems [of 0] by simp
  ultimately have "settled (n + k * n) (\<lambda>s. enc_then (func s p) (encode_entries func sz k (loc_add p (int sz))))" by (rule settled_then [rotated])
  moreover have "encode_entries func sz (Suc k) p = (\<lambda>s. enc_then (func s p) (encode_entries func sz k (loc_add p (int sz))))" by (rule ext) simp
  ultimately show ?case by simp
qed

lemma delivers_entries:
  assumes "\<And>i. i < k \<Longrightarrow> \<exists>bs. length bs = n \<and> delivers n (\<lambda>s. func s (loc_add p (int (sz * i)))) bs"
  shows "\<exists>bs. length bs = k * n \<and> delivers (k * n) (encode_entries func sz k p) bs"
  using assms
proof (induction k arbitrary: p)
  case 0
  have "encode_entries func sz 0 p = (\<lambda>s. Some (Inr (), s))" by (rule ext) simp
  then show ?case by (auto simp: delivers_def stream_ok_def)
next
  case (Suc k)
  have "\<exists>bs. length bs = k * n \<and> delivers (k * n) (encode_entries func sz k (loc_add p (int sz))) bs"
  proof (rule Suc.IH)
    fix i
    assume "i < k"
    then have "\<exists>bs. length bs = n \<and> delivers n (\<lambda>s. func s (loc_add p (int (sz * Suc i)))) bs" by (intro Suc.prems) simp
    moreover have "loc_add p (int (sz * Suc i)) = loc_add (loc_add p (int sz)) (int (sz * i))" by simp
    ultimately show "\<exists>bs. length bs = n \<and> delivers n (\<lambda>s. func s (loc_add (loc_add p (int sz)) (int (sz * i)))) bs" by simp
  qed
  then obtain bs where bs: "length bs = k * n" "delivers (k * n) (encode_entries func sz k (loc_add p (int sz))) bs" by blast
  obtain as where as: "length as = n" "delivers n (\<lambda>s. func s p) as" using Suc.prems [of 0] by auto
  have "delivers (n + k * n) (\<lambda>s. enc_then (func s p) (encode_entries func sz k (loc_add p (int sz)))) (as @ bs)"
    by (rule delivers_then [OF as(2) bs(2)])
  moreover have "encode_entries func sz (Suc k) p = (\<lambda>s. enc_then (func s p) (encode_entries func sz k (loc_add p (int sz))))" by (rule ext) simp
  ultimately show ?case using as bs by (intro exI [of _ "as @ bs"]) simp
qed

text \<open>A packed array: the length by one pass or by multiplication, then the entries.\<close>

lemma delivers_packed:
  assumes f: "delivers n f bs" and n: "n < 2 ^ 63"
  shows "delivers (10 + n) (\<lambda>s. enc_then (Some (pb_encode_varint s (word_of_nat (length bs)))) (\<lambda>s.
      if \<not> has_callback s then Some (pb_write_null s (length bs)) else f s)) (leb (length bs) @ bs)"
proof (rule delivers_then)
  have len: "length bs \<le> n" using f by (simp add: delivers_def)
  then show "delivers 10 (\<lambda>s. Some (pb_encode_varint s (word_of_nat (length bs)))) (leb (length bs))" using n by (intro varint_of_length) simp
  show "delivers n (\<lambda>s. if \<not> has_callback s then Some (pb_write_null s (length bs)) else f s) bs"
    unfolding delivers_def
  proof (intro conjI allI impI len)
    fix s :: pb_ostream
    assume ok: "stream_ok n s"
    have "szadd (bytes_written s) (length bs) = bytes_written s + length bs" if "\<not> has_callback s"
      using ok len that by (intro szadd_exact) (simp add: stream_ok_def)
    then show "if has_callback s \<and> max_size s < bytes_written s + length bs then fails (if \<not> has_callback s then Some (pb_write_null s (length bs)) else f s)
      else (if \<not> has_callback s then Some (pb_write_null s (length bs)) else f s) = Some (Inr (), emit s bs)"
      using f ok by (auto simp: delivers_def pb_write_null_def emit_def)
  qed
qed

lemma settled_value:
  assumes blk: "in_block m b off (off + int (data_size f))" and room: "value_room f" and st: "atype f = PB_ATYPE_STATIC"
    and sub: "ltype f = PB_LTYPE_SUBMESSAGE \<Longrightarrow> \<exists>a. ptr f = Submessage a \<and> settled k (encode (tabs a) (b, off))"
  shows "settled (value_bound f k) (\<lambda>s. encode_value encode tabs m s f (b, off))"
proof -
  have int: "\<exists>bs. (if data_size f \<in> {1, 2, 4, 8} then load_at m (b, off) (data_size f) else Some []) = Some bs"
    using load_whole [OF blk] by (cases "data_size f \<in> {1, 2, 4, 8}") auto
  have load: "\<exists>bs. load_at m (b, off) n = Some bs" if "n \<le> data_size f" for n using load_whole [OF blk that] by blast
  show ?thesis
  proof (cases "ltype f")
    case PB_LTYPE_BOOL
    then show ?thesis using load [of 1] room settled_int by (auto simp: encode_value_def value_bound_def value_room_def)
  next
    case PB_LTYPE_FIXED32
    then show ?thesis using load [of 4] room settled_fixed by (auto simp: encode_value_def value_bound_def value_room_def)
  next
    case PB_LTYPE_FIXED64
    then show ?thesis using load [of 8] room settled_fixed by (auto simp: encode_value_def value_bound_def value_room_def)
  next
    case PB_LTYPE_BYTES
    then show ?thesis using settled_bytes [OF blk _ st] room by (simp add: encode_value_def value_bound_def value_room_def)
  next
    case PB_LTYPE_STRING
    then show ?thesis using settled_c_string [OF blk st] by (simp add: encode_value_def value_bound_def)
  next
    case PB_LTYPE_FIXED_LENGTH_BYTES
    obtain bs where bs: "load_at m (b, off) (data_size f) = Some bs" "length bs = data_size f" using load_whole [OF blk order_refl] by blast
    have "take (data_size f) x = x" if "load_for s m (b, off) (data_size f) = Some x" for s x
      using that bs by (auto simp: load_for_def split: if_splits)
    then have "map_option (pb_enc_fixed_length_bytes s f) (load_for s m (b, off) (data_size f)) =
        map_option (pb_encode_string s) (load_for s m (b, off) (data_size f))" for s
      by (cases "load_for s m (b, off) (data_size f)") (simp_all add: pb_enc_fixed_length_bytes_def)
    then show ?thesis using PB_LTYPE_FIXED_LENGTH_BYTES settled_string_loaded [OF bs] by (simp add: encode_value_def value_bound_def)
  next
    case PB_LTYPE_SUBMESSAGE
    then obtain a where a: "ptr f = Submessage a" "settled k (encode (tabs a) (b, off))" using sub by blast
    have "encode_value encode tabs m s f (b, off) = encode_submessage_at (encode (tabs a) (b, off)) s" for s
      using PB_LTYPE_SUBMESSAGE a(1) by (simp add: encode_value_def enc_submessage_at_def submsg_fields_def)
    then show ?thesis using settled_submessage [OF a(2)] PB_LTYPE_SUBMESSAGE by (simp add: value_bound_def)
  next
    case PB_LTYPE_EXTENSION
    then show ?thesis using room by (simp add: value_room_def)
  qed (use int settled_int in \<open>auto simp: encode_value_def value_bound_def Let_def\<close>)
qed

lemma fixed_entry:
  assumes blk: "in_block m b off (off + int (data_size f))" and room: "value_room f"
  shows "ltype f = PB_LTYPE_FIXED32 \<Longrightarrow> \<exists>bs. length bs = 4 \<and> delivers 4 (\<lambda>s. encode_value encode tabs m s f (b, off)) bs"
    and "ltype f = PB_LTYPE_FIXED64 \<Longrightarrow> \<exists>bs. length bs = 8 \<and> delivers 8 (\<lambda>s. encode_value encode tabs m s f (b, off)) bs"
proof -
  show "\<exists>bs. length bs = 4 \<and> delivers 4 (\<lambda>s. encode_value encode tabs m s f (b, off)) bs" if lt: "ltype f = PB_LTYPE_FIXED32"
  proof -
    obtain bs where bs: "load_at m (b, off) 4 = Some bs" using load_whole [OF blk, of 4] lt room by (auto simp: value_room_def)
    have "delivers 4 (\<lambda>s. Some (pb_write s (le_bytes 4 (unat (word_of_nat (le_val (take 4 bs)) :: u32)))))
        (le_bytes 4 (unat (word_of_nat (le_val (take 4 bs)) :: u32)))" by (rule delivers_write) simp_all
    then show ?thesis using bs lt
      by (intro exI [of _ "le_bytes 4 (unat (word_of_nat (le_val (take 4 bs)) :: u32))"]) (simp add: encode_value_def pb_enc_fixed32_def fixed32_bytes)
  qed
  show "\<exists>bs. length bs = 8 \<and> delivers 8 (\<lambda>s. encode_value encode tabs m s f (b, off)) bs" if lt: "ltype f = PB_LTYPE_FIXED64"
  proof -
    obtain bs where bs: "load_at m (b, off) 8 = Some bs" using load_whole [OF blk, of 8] lt room by (auto simp: value_room_def)
    have "delivers 8 (\<lambda>s. Some (pb_write s (le_bytes 8 (unat (word_of_nat (le_val (take 8 bs)) :: u64)))))
        (le_bytes 8 (unat (word_of_nat (le_val (take 8 bs)) :: u64)))" by (rule delivers_write) simp_all
    then show ?thesis using bs lt
      by (intro exI [of _ "le_bytes 8 (unat (word_of_nat (le_val (take 8 bs)) :: u64))"]) (simp add: encode_value_def pb_enc_fixed64_def fixed64_bytes)
  qed
qed

definition array_bound :: "pb_field \<Rightarrow> nat \<Rightarrow> nat" where
  "array_bound f n = 20 + array_size f * (10 + n)"

lemma settled_array:
  assumes entry: "\<And>i. i < array_size f \<Longrightarrow> settled n (\<lambda>s. func s (loc_add p (int (data_size f * i))))"
    and fixed: "\<And>i. i < array_size f \<Longrightarrow> ltype f = PB_LTYPE_FIXED32 \<Longrightarrow> \<exists>bs. length bs = 4 \<and> delivers 4 (\<lambda>s. func s (loc_add p (int (data_size f * i)))) bs"
      "\<And>i. i < array_size f \<Longrightarrow> ltype f = PB_LTYPE_FIXED64 \<Longrightarrow> \<exists>bs. length bs = 8 \<and> delivers 8 (\<lambda>s. func s (loc_add p (int (data_size f * i)))) bs"
    and st: "atype f = PB_ATYPE_STATIC" and sz: "array_size f < 2 ^ 32" and n: "8 \<le> n"
  shows "settled (array_bound f n) (encode_array_at func m f p count)"
proof -
  consider (none) "count = 0" | (many) "count \<noteq> 0" "count > array_size f" | (tagged) "count \<noteq> 0" "count \<le> array_size f" "\<not> packable f"
    | (packed) "count \<noteq> 0" "count \<le> array_size f" "packable f" by linarith
  then show ?thesis
  proof cases
    case none
    then show ?thesis using settled_return by (simp add: encode_array_at_def [abs_def])
  next
    case many
    then show ?thesis using settled_fail st by (simp add: encode_array_at_def [abs_def])
  next
    case tagged
    have "settled (10 + n) (\<lambda>s. encode_tagged func m f s (loc_add p (int (data_size f * i))))" if "i < count" for i
      unfolding encode_tagged_def using st that tagged entry [of i] by (intro settled_then settled_tag) simp
    then have "settled (count * (10 + n)) (encode_entries (encode_tagged func m f) (data_size f) count p)" by (rule settled_entries)
    moreover have "count * (10 + n) \<le> array_bound f n" unfolding array_bound_def using tagged(2) by (intro trans_le_add2 mult_le_mono1)
    ultimately have "settled (array_bound f n) (encode_entries (encode_tagged func m f) (data_size f) count p)" by (rule settled_mono)
    then show ?thesis using tagged st by (simp add: encode_array_at_def [abs_def])
  next
    case packed
    let ?items = "encode_entries func (data_size f) count p"
    let ?run = "\<lambda>sz s. enc_then (Some (pb_encode_varint s (word_of_nat sz))) (\<lambda>s. if \<not> has_callback s then Some (pb_write_null s sz) else ?items s)"
    let ?body = "\<lambda>s. do {
          (status, sizestream) \<leftarrow> (if ltype f = PB_LTYPE_FIXED32 \<or> ltype f = PB_LTYPE_FIXED64 then Some (Inr (), PB_OSTREAM_SIZING)
            else ?items PB_OSTREAM_SIZING);
          let sz = (if ltype f = PB_LTYPE_FIXED32 then szmul 4 count else if ltype f = PB_LTYPE_FIXED64 then szmul 8 count
            else bytes_written sizestream);
          if status \<noteq> Inr () then Some (Inl '''', s) else ?run sz s }"
    have tag: "settled 10 (\<lambda>s. Some (pb_encode_tag s PB_WT_STRING (field_tag f)))" by (simp add: pb_encode_tag_def settled_varint)
    have small: "count < 2 ^ 32" using packed(2) sz by simp
    have "settled (10 + count * n) ?body"
    proof (cases "ltype f = PB_LTYPE_FIXED32 \<or> ltype f = PB_LTYPE_FIXED64")
      case True
      define w where "w = (if ltype f = PB_LTYPE_FIXED32 then 4 else 8 :: nat)"
      have "\<exists>bs. length bs = count * w \<and> delivers (count * w) ?items bs"
        using True fixed packed(2) by (intro delivers_entries) (auto simp: w_def)
      then obtain bs where bs: "length bs = count * w" "delivers (count * w) ?items bs" by blast
      have w: "w \<le> n" "count * w < 2 ^ 63" "szmul w count = length bs" using n small by (auto simp: w_def szmul_def SIZE_LIMIT_def bs(1))
      have "?body = ?run (length bs)" using True w(3) by (intro ext) (auto simp: w_def Let_def cong: if_cong)
      moreover have "settled (10 + count * w) (?run (length bs))" using delivers_packed [OF bs(2) w(2)] by (auto simp: settled_def)
      ultimately show ?thesis using w(1) by (auto intro: settled_mono)
    next
      case False
      have items: "settled (count * n) ?items" using entry packed(2) by (intro settled_entries) simp
      show ?thesis
        unfolding settled_def
      proof
        assume "10 + count * n < 2 ^ 63"
        then have lim: "count * n < 2 ^ 63" by simp
        consider (some) bs where "delivers (count * n) ?items bs" | (none) "refuses (count * n) ?items" using items lim by (auto simp: settled_def)
        then show "(\<exists>bs. delivers (10 + count * n) ?body bs) \<or> refuses (10 + count * n) ?body"
        proof cases
          case some
          have "?body = ?run (length bs)" using False sizing_delivers [OF some lim] by (intro ext) (simp add: Let_def del: emit_simps cong: if_cong)
          then show ?thesis using delivers_packed [OF some lim] by auto
        next
          case none
          then have "fails (?items PB_OSTREAM_SIZING)" using ok_sizing [OF lim] by (simp add: refuses_def)
          then show ?thesis using False by (auto simp: refuses_def fails_def)
        qed
      qed
    qed
    from settled_then [OF tag this]
    have "settled (10 + (10 + count * n)) (encode_array_at func m f p count)"
      using packed st by (simp add: encode_array_at_def [abs_def] cong: if_cong)
    moreover have "10 + (10 + count * n) \<le> array_bound f n" using mult_le_mono [OF packed(2), of n "10 + n"] by (simp add: array_bound_def)
    ultimately show ?thesis by (rule settled_mono)
  qed
qed

section \<open>Fields and messages\<close>

lemma default_defined:
  assumes room: "field_room f d p sz" and blk: "in_block m b off (off + int sz)"
    and sub: "ltype f = PB_LTYPE_SUBMESSAGE \<Longrightarrow> htype f = PB_HTYPE_OPTIONAL \<Longrightarrow> \<exists>a. ptr f = Submessage a \<and> tabs a \<noteq> [] \<and> tags_ok (tabs a) \<and>
      (\<forall>i<length (tabs a). \<exists>x. pb_check_proto3_default_value tabs m (tabs a ! i) (b, off + d + data_pos (tabs a) i) = Some x)"
  shows "\<exists>x. pb_check_proto3_default_value tabs m f (b, off + d) = Some x"
proof -
  have st: "atype f = PB_ATYPE_STATIC" "value_room f" "0 \<le> d" "d + int (data_size f * entries f) \<le> int sz" "p = d + size_offset f"
    using room by (auto simp: field_room_def)
  have count: "\<exists>n. load_size m (SizeAt (b, off + d + size_offset f)) = Some n" if "htype f = PB_HTYPE_REPEATED \<or> htype f = PB_HTYPE_ONEOF"
    using that room blk load_size_in_block [OF blk, of "off + p"] by (auto simp: field_room_def st(5) add.assoc)
  show ?thesis
  proof (cases "htype f = PB_HTYPE_OPTIONAL")
    case False
    then show ?thesis using count st(1)
      by (subst pb_check_proto3_default_value.simps) (cases "htype f"; auto simp: loc_add_def Let_def)
  next
    case opt: True
    show ?thesis
    proof (cases "size_offset f = 0")
      case False
      then have "p \<noteq> d" "0 \<le> p" "p + 1 \<le> int sz" using room opt by (auto simp: field_room_def)
      then obtain bs where "load_at m (b, off + d + size_offset f) 1 = Some bs"
        using load_in_block [OF blk, of "off + p" 1] st(5) by (auto simp: add.assoc)
      then show ?thesis using False opt by (subst pb_check_proto3_default_value.simps) (simp add: loc_add_def Let_def)
    next
      case True
      have whole: "in_block m b (off + d) (off + d + int (data_size f))"
        using st(3,4) opt by (intro in_block_mono [OF blk]) (auto simp: entries_def)
      show ?thesis
      proof (cases "ltype f = PB_LTYPE_SUBMESSAGE")
        case lt: True
        then obtain a where a: "ptr f = Submessage a" "tabs a \<noteq> []" "tags_ok (tabs a)"
          "\<And>i. i < length (tabs a) \<Longrightarrow> \<exists>x. pb_check_proto3_default_value tabs m (tabs a ! i) (b, off + d + data_pos (tabs a) i) = Some x"
          using sub opt by blast
        let ?body = "\<lambda>iter default. if \<not> default then Some False else pb_check_proto3_default_value tabs m (pos_field iter) (pData iter)"
        have "\<exists>x. do_fields ?body (iter_nth (tabs a) (b, off + d) 0) True = Some x \<and> True"
        proof (rule do_fields_rule [where P = "\<lambda>_. True", OF a(3)])
          fix j default
          assume "j < length (tabs a)"
          then show "\<exists>x. ?body (iter_nth (tabs a) (b, off + d) j) default = Some x \<and> True"
            using a(4) [of j] by (cases default) (auto simp: iter_nth_field iter_nth_loc a(3) loc_add_def simp del: iter_nth.simps)
        qed (use a(2) in simp_all)
        moreover have "fst (pb_field_iter_begin (tabs a) (b, off + d))"
          using a(2) tags_ok_nth [OF a(3), of 0] by (simp add: pb_field_iter_begin_def field_at_def Let_def)
        ultimately show ?thesis using opt True lt a(1) st(1)
          by (subst pb_check_proto3_default_value.simps) (auto simp: submsg_fields_def case_prod_beta Let_def)
      next
        case False
        have size: "\<exists>n. load_size m (SizeAt (b, off + d)) = Some n" if "ltype f = PB_LTYPE_BYTES"
          using load_size_in_block [OF whole order_refl] that st(2) by (auto simp: value_room_def)
        have str: "\<exists>bs. load_at m (b, off + d) 1 = Some bs" if "ltype f = PB_LTYPE_STRING"
          using load_whole [OF whole, of 1] that st(2) by (auto simp: value_room_def)
        obtain bs where "load_at m (b, off + d) (data_size f) = Some bs" using load_whole [OF whole order_refl] by blast
        then show ?thesis using opt True False size str st(1)
          by (subst pb_check_proto3_default_value.simps) (auto simp: loc_add_def Let_def)
      qed
    qed
  qed
qed

lemma defaults_defined:
  "static_layout tabs fs sz \<Longrightarrow> in_block m b off (off + int sz) \<Longrightarrow> i < length fs \<Longrightarrow>
    \<exists>x. pb_check_proto3_default_value tabs m (fs ! i) (b, off + data_pos fs i) = Some x"
proof (induction arbitrary: off i rule: static_layout.induct)
  case (layout fs sz)
  note room = layout(3) [OF layout.prems(2)]
  show ?case
  proof (rule default_defined [OF room layout.prems(1)])
    assume lt: "ltype (fs ! i) = PB_LTYPE_SUBMESSAGE" and opt: "htype (fs ! i) = PB_HTYPE_OPTIONAL"
    then obtain a where a: "ptr (fs ! i) = Submessage a" "static_layout tabs (tabs a) (data_size (fs ! i))"
      "\<And>off k. in_block m b off (off + int (data_size (fs ! i))) \<Longrightarrow> k < length (tabs a) \<Longrightarrow>
        \<exists>x. pb_check_proto3_default_value tabs m (tabs a ! k) (b, off + data_pos (tabs a) k) = Some x"
      using layout(4) [of "fs ! i"] layout.prems(2) by auto
    have "in_block m b (off + data_pos fs i) (off + data_pos fs i + int (data_size (fs ! i)))"
      using room opt by (intro in_block_mono [OF layout.prems(1)]) (auto simp: field_room_def entries_def)
    moreover have "tabs a \<noteq> []" "tags_ok (tabs a)" using a(2) by (auto elim: static_layout.cases)
    ultimately show "\<exists>a. ptr (fs ! i) = Submessage a \<and> tabs a \<noteq> [] \<and> tags_ok (tabs a) \<and>
      (\<forall>k<length (tabs a). \<exists>x. pb_check_proto3_default_value tabs m (tabs a ! k) (b, off + data_pos fs i + data_pos (tabs a) k) = Some x)"
      using a(1,3) by blast
  qed
qed

definition field_bound :: "pb_field \<Rightarrow> nat \<Rightarrow> nat" where
  "field_bound f sub = (if htype f = PB_HTYPE_REPEATED then array_bound f (value_bound f sub) else 10 + value_bound f sub)"

lemma settled_basic:
  assumes room: "field_room f d p sz" and blk: "in_block m b off (off + int sz)"
    and sub: "ltype f = PB_LTYPE_SUBMESSAGE \<Longrightarrow> \<exists>a. ptr f = Submessage a \<and>
      (\<forall>q. in_block m b q (q + int (data_size f)) \<longrightarrow> settled k (encode (tabs a) (b, q)))"
    and default: "\<exists>x. pb_check_proto3_default_value tabs m f (b, off + d) = Some x"
  shows "settled (field_bound f k) (\<lambda>s. encode_basic_field encode tabs m s f (b, off + d))"
proof -
  have st: "atype f = PB_ATYPE_STATIC" "value_room f" "0 \<le> d" "d + int (data_size f * entries f) \<le> int sz" "p = d + size_offset f" "array_size f < 2 ^ 32"
    using room by (auto simp: field_room_def)
  let ?func = "\<lambda>s. encode_value encode tabs m s f"
  have entry: "settled (value_bound f k) (\<lambda>s. ?func s (b, off + d + int (data_size f * i)))"
    "in_block m b (off + d + int (data_size f * i)) (off + d + int (data_size f * i) + int (data_size f))" if "i < entries f" for i
  proof -
    have "d + int (data_size f * i) + int (data_size f) \<le> int sz" using entry_in_field [OF st(4) that] .
    moreover have "0 \<le> int (data_size f * i)" by simp
    ultimately show blk': "in_block m b (off + d + int (data_size f * i)) (off + d + int (data_size f * i) + int (data_size f))"
      using st(3) by (intro in_block_mono [OF blk]) linarith+
    show "settled (value_bound f k) (\<lambda>s. ?func s (b, off + d + int (data_size f * i)))"
      using sub blk' by (intro settled_value [OF blk' st(2,1)]) blast
  qed
  have one: "settled (value_bound f k) (\<lambda>s. ?func s (b, off + d))" if "htype f \<noteq> PB_HTYPE_REPEATED"
    using entry(1) [of 0] that by (simp add: entries_def)
  have tagged: "settled (10 + value_bound f k) (\<lambda>s. enc_then (Some (pb_encode_tag_for_field s f)) (\<lambda>s. ?func s (b, off + d)))"
    if "htype f \<noteq> PB_HTYPE_REPEATED" using settled_then [OF settled_tag one [OF that]] .
  obtain x where x: "(if size_offset f = 0 \<and> htype f = PB_HTYPE_OPTIONAL
      then map_option Not (pb_check_proto3_default_value tabs m f (b, off + d)) else Some True) = Some x"
    using default by (cases "size_offset f = 0 \<and> htype f = PB_HTYPE_OPTIONAL") auto
  have count: "\<exists>n. load_size m (SizeAt (b, off + d + size_offset f)) = Some n" if "htype f = PB_HTYPE_REPEATED \<or> htype f = PB_HTYPE_ONEOF"
    using that room blk load_size_in_block [OF blk, of "off + p"] by (auto simp: field_room_def st(5) add.assoc)
  note unfold = encode_basic_field_def Let_def loc_add_def fst_conv snd_conv st(1)
  show ?thesis
  proof (cases "htype f")
    case PB_HTYPE_REQUIRED
    then show ?thesis using x tagged settled_fail by (cases "b = 0") (simp_all add: unfold field_bound_def)
  next
    case PB_HTYPE_OPTIONAL
    have "\<exists>y. (if size_offset f \<noteq> 0 then map_option safe_read_bool (load_at m (b, off + d + size_offset f) 1) else Some x) = Some y"
    proof (cases "size_offset f = 0")
      case False
      then have "0 \<le> p" "p + 1 \<le> int sz" using room PB_HTYPE_OPTIONAL st(5) by (auto simp: field_room_def)
      then show ?thesis using False load_in_block [OF blk, of "off + p" 1] st(5) by (auto simp: add.assoc)
    qed simp
    then obtain y where "(if size_offset f \<noteq> 0 then map_option safe_read_bool (load_at m (b, off + d + size_offset f) 1) else Some x) = Some y" ..
    then show ?thesis using x tagged settled_return PB_HTYPE_OPTIONAL
      by (cases y) (simp_all add: unfold field_bound_def cong: if_cong)
  next
    case PB_HTYPE_ONEOF
    show ?thesis
    proof (cases "size_offset f = 0")
      case True
      then show ?thesis using room st(5) PB_HTYPE_ONEOF by (simp add: field_room_def)
    next
      case False
      obtain n where "load_size m (SizeAt (b, off + d + size_offset f)) = Some n" using count PB_HTYPE_ONEOF by blast
      then show ?thesis using x tagged settled_return PB_HTYPE_ONEOF False
        by (cases "n = unat (field_tag f)") (simp_all add: unfold field_bound_def)
    qed
  next
    case PB_HTYPE_REPEATED
    obtain n where n: "(if size_offset f \<noteq> 0 then load_size m (SizeAt (b, off + d + size_offset f)) else Some (array_size f)) = Some n"
      using count PB_HTYPE_REPEATED by (cases "size_offset f = 0") auto
    have "settled (array_bound f (value_bound f k)) (encode_array_at ?func m f (b, off + d) n)"
      using entry fixed_entry [OF entry(2) st(2)] st PB_HTYPE_REPEATED
      by (intro settled_array) (auto simp: loc_add_def entries_def value_bound_def split: pb_ltype.split)
    then show ?thesis using x n PB_HTYPE_REPEATED by (simp add: unfold field_bound_def)
  qed
qed

text \<open>A bound on the size of an encoded message, from its descriptors.\<close>

inductive message_bound :: "pb_tables \<Rightarrow> pb_field list \<Rightarrow> nat \<Rightarrow> bool" for tabs where
  bound: "(\<And>f. f \<in> set fs \<Longrightarrow> ltype f = PB_LTYPE_SUBMESSAGE \<Longrightarrow> \<exists>a. ptr f = Submessage a \<and> message_bound tabs (tabs a) (sub f)) \<Longrightarrow>
    message_bound tabs fs (\<Sum>f\<leftarrow>fs. field_bound f (sub f))"

lemma encode_after_failure:
  assumes "tags_ok fs" "i < length fs"
  shows "do_fields (encode_step encode env m) (iter_nth fs dest i) (Inl e, s) = Some (Inl e, s)"
  using assms(2)
proof (induction "length fs - i" arbitrary: i)
  case (Suc d)
  then show ?case using next_iter_nth [OF assms(1) Suc.prems, of dest]
    by (subst do_fields.simps) (auto simp: encode_step_def simp del: iter_nth.simps)
qed simp

lemma encode_next:
  assumes "tags_ok fs" "i < length fs" "ltype (fs ! i) \<noteq> PB_LTYPE_EXTENSION"
  shows "do_fields (encode_step encode env m) (iter_nth fs dest i) (Inr (), s) =
    enc_then (encode_field encode env m s (fs ! i) (loc_add dest (data_pos fs i))) (\<lambda>s.
      if Suc i < length fs then do_fields (encode_step encode env m) (iter_nth fs dest (Suc i)) (Inr (), s) else Some (Inr (), s))"
proof -
  let ?r = "encode_field encode env m s (fs ! i) (loc_add dest (data_pos fs i))"
  have step: "encode_step encode env m (iter_nth fs dest i) (Inr (), s) = ?r"
    using assms(3) by (simp add: encode_step_def iter_nth_field iter_nth_loc assms(1,2) del: iter_nth.simps)
  note next_i = next_iter_nth [OF assms(1,2), of dest]
  show ?thesis
  proof (cases ?r)
    case None
    then show ?thesis using step by (subst do_fields.simps) (simp add: enc_then_def del: iter_nth.simps)
  next
    case (Some p)
    obtain x t where p: "p = (x, t)" by (cases p)
    show ?thesis
    proof (cases x)
      case (Inl e)
      then show ?thesis using step Some p next_i encode_after_failure [OF assms(1), of "Suc i"]
        by (subst do_fields.simps) (auto simp: enc_then_def simp del: iter_nth.simps)
    next
      case (Inr u)
      then show ?thesis using step Some p next_i
        by (subst do_fields.simps) (auto simp: enc_then_def simp del: iter_nth.simps)
    qed
  qed
qed

lemma settled_loop:
  assumes tags: "tags_ok fs" and i: "i < length fs"
    and field: "\<And>j. j < length fs \<Longrightarrow> ltype (fs ! j) \<noteq> PB_LTYPE_EXTENSION \<and>
      settled (n (fs ! j)) (\<lambda>s. encode_field encode env m s (fs ! j) (loc_add dest (data_pos fs j)))"
  shows "settled (\<Sum>f\<leftarrow>drop i fs. n f) (\<lambda>s. do_fields (encode_step encode env m) (iter_nth fs dest i) (Inr (), s))"
  using i
proof (induction "length fs - i" arbitrary: i)
  case (Suc d)
  note fi = field [OF Suc.prems]
  have rest: "settled (\<Sum>f\<leftarrow>drop (Suc i) fs. n f) (\<lambda>s. if Suc i < length fs
      then do_fields (encode_step encode env m) (iter_nth fs dest (Suc i)) (Inr (), s) else Some (Inr (), s))"
    using Suc.hyps(1) [of "Suc i"] Suc.hyps(2) settled_return by (cases "Suc i < length fs") (simp_all del: iter_nth.simps)
  have "drop i fs = fs ! i # drop (Suc i) fs" using Suc.prems by (simp add: Cons_nth_drop_Suc)
  then show ?case
    unfolding encode_next [OF tags Suc.prems conjunct1 [OF fi]] using settled_then [OF conjunct2 [OF fi] rest] by simp
qed simp

lemma encode_begin:
  assumes "tags_ok fs" "fs \<noteq> []"
  shows "pb_encode env m fs dest s = do_fields (encode_step (pb_encode env m) env m) (iter_nth fs dest 0) (Inr (), s)"
proof -
  have "fst (pb_field_iter_begin fs dest)" using assms tags_ok_nth [of fs 0] by (simp add: pb_field_iter_begin_def field_at_def Let_def)
  then show ?thesis by (subst pb_encode.simps) (simp add: case_prod_beta)
qed

lemma settled_message:
  "static_layout (enc_tables env) fs sz \<Longrightarrow> in_block m b off (off + int sz) \<Longrightarrow> message_bound (enc_tables env) fs n \<Longrightarrow>
    settled n (pb_encode env m fs (b, off))"
proof (induction arbitrary: off n rule: static_layout.induct)
  case (layout fs sz)
  have whole: "static_layout (enc_tables env) fs sz" using layout.hyps(1,2,3) layout.IH by (intro static_layout.layout) blast+
  obtain sub where n: "n = (\<Sum>f\<leftarrow>fs. field_bound f (sub f))"
    and bound: "\<And>f. f \<in> set fs \<Longrightarrow> ltype f = PB_LTYPE_SUBMESSAGE \<Longrightarrow> \<exists>a. ptr f = Submessage a \<and> message_bound (enc_tables env) (enc_tables env a) (sub f)"
    using layout.prems(2) by (cases rule: message_bound.cases) auto
  have "ltype (fs ! j) \<noteq> PB_LTYPE_EXTENSION \<and>
      settled (field_bound (fs ! j) (sub (fs ! j))) (\<lambda>s. encode_field (pb_encode env m) env m s (fs ! j) (loc_add (b, off) (data_pos fs j)))"
    if j: "j < length fs" for j
  proof
    note room = layout.hyps(3) [OF j]
    show "ltype (fs ! j) \<noteq> PB_LTYPE_EXTENSION" using room by (auto simp: field_room_def value_room_def)
    have "settled (field_bound (fs ! j) (sub (fs ! j))) (\<lambda>s. encode_basic_field (pb_encode env m) (enc_tables env) m s (fs ! j) (b, off + data_pos fs j))"
    proof (rule settled_basic [OF room layout.prems(1)])
      show "\<exists>x. pb_check_proto3_default_value (enc_tables env) m (fs ! j) (b, off + data_pos fs j) = Some x"
        by (rule defaults_defined [OF whole layout.prems(1) j])
      assume lt: "ltype (fs ! j) = PB_LTYPE_SUBMESSAGE"
      then show "\<exists>a. ptr (fs ! j) = Submessage a \<and>
          (\<forall>q. in_block m b q (q + int (data_size (fs ! j))) \<longrightarrow> settled (sub (fs ! j)) (pb_encode env m (enc_tables env a) (b, q)))"
        using layout.IH [of "fs ! j"] bound [of "fs ! j"] j by auto
    qed
    moreover have "atype (fs ! j) = PB_ATYPE_STATIC" using room by (simp add: field_room_def)
    ultimately show "settled (field_bound (fs ! j) (sub (fs ! j))) (\<lambda>s. encode_field (pb_encode env m) env m s (fs ! j) (loc_add (b, off) (data_pos fs j)))"
      by (simp add: encode_field_def loc_add_def)
  qed
  from settled_loop [OF layout.hyps(2) _ this, of 0] layout.hyps(1) n
  have "settled n (\<lambda>s. do_fields (encode_step (pb_encode env m) env m) (iter_nth fs (b, off) 0) (Inr (), s))" by simp
  then show ?case using encode_begin [OF layout.hyps(2,1), of env m "(b, off)"] by simp
qed

text \<open>C11. The size that \<open>pb_get_encoded_size\<close> computes is exact, for a message in a structure of which every field is held statically, in
  its submessages too (\<open>static_layout\<close>: no pointers, callbacks or extensions), and whose descriptors bound the size of its encoding below \<open>2^63\<close>.  Either there
  is an error, whatever the stream, or there is a string of bytes of that size,
  which \<open>pb_encode\<close> writes to every buffer that has room for it and which makes it fail on a smaller one.  So for such messages the
  two passes over a submessage never disagree; a callback, which may give different data on each pass, is what the check of them is for.\<close>

theorem pb_encode_settled:
  assumes "static_layout (enc_tables env) fs sz" and "in_block m b off (off + int sz)"
    and "message_bound (enc_tables env) fs n" and "n < 2 ^ 63"
  shows "(\<exists>e. pb_get_encoded_size env m fs (b, off) = Some (Inl e)) \<and>
      (\<forall>cap. cap < 2 ^ 63 \<longrightarrow> (\<exists>e s. pb_encode env m fs (b, off) (pb_ostream_from_buffer cap) = Some (Inl e, s))) \<or>
    (\<exists>bs. length bs \<le> n \<and> pb_get_encoded_size env m fs (b, off) = Some (Inr (length bs)) \<and>
      (\<forall>cap. cap < 2 ^ 63 \<longrightarrow>
        (if length bs \<le> cap then pb_encode env m fs (b, off) (pb_ostream_from_buffer cap) =
            Some (Inr (), \<lparr> has_callback = True, written = bs, max_size = cap, bytes_written = length bs \<rparr>)
         else \<exists>e s. pb_encode env m fs (b, off) (pb_ostream_from_buffer cap) = Some (Inl e, s))))"
proof -
  have buf: "stream_ok n (pb_ostream_from_buffer cap)" if "cap < 2 ^ 63" for cap
    using that by (simp add: stream_ok_def pb_ostream_from_buffer_def)
  from settled_message [OF assms(1-3)] assms(4)
  consider (some) bs where "delivers n (pb_encode env m fs (b, off)) bs" | (none) "refuses n (pb_encode env m fs (b, off))"
    by (auto simp: settled_def)
  then show ?thesis
  proof cases
    case none
    then have "fails (pb_encode env m fs (b, off) PB_OSTREAM_SIZING)" using ok_sizing [OF assms(4)] by (simp add: refuses_def)
    moreover have "fails (pb_encode env m fs (b, off) (pb_ostream_from_buffer cap))" if "cap < 2 ^ 63" for cap
      using none buf [OF that] by (simp add: refuses_def)
    ultimately show ?thesis by (auto simp: fails_def pb_get_encoded_size_def)
  next
    case some
    have "pb_get_encoded_size env m fs (b, off) = Some (Inr (length bs))"
      using sizing_delivers [OF some assms(4)] by (simp add: pb_get_encoded_size_def del: emit_simps)
    moreover have "if length bs \<le> cap then pb_encode env m fs (b, off) (pb_ostream_from_buffer cap) =
            Some (Inr (), \<lparr> has_callback = True, written = bs, max_size = cap, bytes_written = length bs \<rparr>)
         else \<exists>e s. pb_encode env m fs (b, off) (pb_ostream_from_buffer cap) = Some (Inl e, s)" if "cap < 2 ^ 63" for cap
      using some buf [OF that] by (auto simp: delivers_def fails_def pb_ostream_from_buffer_def emit_def)
    moreover have "length bs \<le> n" using some by (simp add: delivers_def)
    ultimately show ?thesis by blast
  qed
qed

theorem pb_encode_settled_witness:
  "\<exists>r. pb_get_encoded_size \<lparr> enc_tables = cct_tables, enc_callback = (\<lambda>_ _ _ _ _. None) \<rparr>
     \<lparr> blocks = (\<lambda>_. None)(1 \<mapsto> replicate 20 1), fixed_count_size = 0 \<rparr> (cct_tables 2) (1, 4) = Some r"
proof -
  let ?env = "\<lparr> enc_tables = cct_tables, enc_callback = (\<lambda>_ _ _ _ _. None) \<rparr>"
  let ?m = "\<lparr> blocks = (\<lambda>_. None)(1 \<mapsto> replicate 20 1), fixed_count_size = 0 \<rparr>"
  have "static_layout (enc_tables ?env) (cct_tables 2) 16" using cct_static_layout [of 2] by simp
  moreover have "in_block ?m 1 4 (4 + int 16)" by (simp add: in_block_def)
  moreover have "message_bound (enc_tables ?env) (cct_tables 2) (\<Sum>f\<leftarrow>cct_tables 2. field_bound f 0)"
    by (rule bound) (auto simp: cct_table_pairs)
  moreover have "(\<Sum>f\<leftarrow>cct_tables 2. field_bound f 0) < 2 ^ 63"
    by (simp add: cct_table_pairs field_bound_def value_bound_def)
  ultimately show ?thesis using pb_encode_settled by blast
qed

end
