(* ===== verification/PbUnion.thy ===== *)
theory PbUnion
  imports PbCct
begin

text \<open>
  A message that \<open>pb_decode\<close> does not handle: a union of a number and of a pointer.
\<close>

section \<open>Loading what was stored\<close>

lemma load_store_same: "store_at m l bs = Some m' \<Longrightarrow> load_at m' l (length bs) = Some bs"
  by (auto simp: store_at_def load_at_def mem_write_def bind_eq_Some check_def split: if_splits)

lemma drop_take_write:
  assumes "j + n \<le> off \<or> off + length bs \<le> j" "off + length bs \<le> length blk"
  shows "take n (drop j (mem_write blk off bs)) = take n (drop j blk)"
proof (rule nth_equalityI)
  show "length (take n (drop j (mem_write blk off bs))) = length (take n (drop j blk))"
    using assms(2) by (simp add: mem_simps)
  fix i
  assume "i < length (take n (drop j (mem_write blk off bs)))"
  then show "take n (drop j (mem_write blk off bs)) ! i = take n (drop j blk) ! i"
    using assms by (auto simp: mem_write_def nth_append mem_simps)
qed

lemma load_store_other:
  assumes "store_at m (b, k) bs = Some m'" and "j + int n \<le> k \<or> k + int (length bs) \<le> j"
  shows "load_at m' (b, j) n = load_at m (b, j) n"
proof -
  obtain blk where blk: "blocks m b = Some blk" "0 \<le> k" "nat k + length bs \<le> length blk"
      "m' = m\<lparr>blocks := (blocks m)(b \<mapsto> mem_write blk (nat k) bs)\<rparr>"
    using assms(1) by (auto simp: store_at_def bind_eq_Some check_def split: if_splits)
  have "take n (drop (nat j) (mem_write blk (nat k) bs)) = take n (drop (nat j) blk)" if "0 \<le> j"
  proof (rule drop_take_write)
    show "nat j + n \<le> nat k \<or> nat k + length bs \<le> nat j" using assms(2) that blk(2) by linarith
  qed (rule blk(3))
  then show ?thesis using blk by (auto simp: load_at_def mem_simps)
qed

lemma store_blocks: "store_at m (b, k) bs = Some m' \<Longrightarrow> z \<noteq> b \<Longrightarrow> blocks m' z = blocks m z"
  by (auto simp: store_at_def bind_eq_Some check_def split: if_splits)

section \<open>A number and a string in a union\<close>

text \<open>\<open>oneof\<close> with a \<open>uint64\<close> of tag 1 stored in place and a \<open>string\<close> of tag 2 stored through a pointer, as the
  macros of \<open>pb.h\<close> describe it: \<open>which_u\<close> at offset 0, the union at offset 8.\<close>

definition union_fields :: "pb_field list" where
  "union_fields = [
     PB_FIELD 1 T_UINT64 ONEOF PB_ATYPE_STATIC FIRST (member 8 8 8 0) NoPtr,
     PB_FIELD 2 T_STRING ONEOF PB_ATYPE_POINTER UNION (member 8 8 1 0) NoPtr]"

lemma union_fields_eq: "union_fields = [descriptor 1 PB_LTYPE_UVARINT PB_HTYPE_ONEOF PB_ATYPE_STATIC 8 (- 8) 8 0 NoPtr,
    descriptor 2 PB_LTYPE_STRING PB_HTYPE_ONEOF PB_ATYPE_POINTER PB_SIZE_MAX (- 8) 1 0 NoPtr]"
  by (simp add: union_fields_def PB_FIELD_def PB_POINTER_def oneof_defs PB_DATAOFFSET_def pb_delta_def member_def)

lemma union_tags: "tags_ok union_fields" "length union_fields = 2"
  by (simp_all add: tags_ok_def union_fields_eq)

lemma union_iter:
  "pData (iter_nth union_fields (b, off) 0) = (b, off + 8)" "pSize (iter_nth union_fields (b, off) 0) = SizeAt (b, off)"
  "pData (iter_nth union_fields (b, off) 1) = (b, off + 8)" "pSize (iter_nth union_fields (b, off) 1) = SizeAt (b, off)"
  by (simp_all add: union_fields_eq pb_field_iter_begin_def pb_field_iter_next_def field_at_def pos_field_def Let_def loc_add_def)

lemma union_field:
  "pos_field (iter_nth union_fields dest 0) = descriptor 1 PB_LTYPE_UVARINT PB_HTYPE_ONEOF PB_ATYPE_STATIC 8 (- 8) 8 0 NoPtr"
  "pos_field (iter_nth union_fields dest 1) = descriptor 2 PB_LTYPE_STRING PB_HTYPE_ONEOF PB_ATYPE_POINTER PB_SIZE_MAX (- 8) 1 0 NoPtr"
  using iter_nth_field [OF union_tags(1), of 0 dest] iter_nth_field [OF union_tags(1), of 1 dest] union_tags(2)
  by (simp_all add: union_fields_eq del: iter_nth.simps)

lemma union_find:
  "pb_field_iter_find (iter_nth union_fields dest 0) 1 = Some (True, iter_nth union_fields dest 0)"
  "pb_field_iter_find (iter_nth union_fields dest 0) 2 = Some (True, iter_nth union_fields dest 1)"
  "pb_field_iter_find (iter_nth union_fields dest 1) 1 = Some (True, iter_nth union_fields dest 0)"
  "pb_field_iter_find (iter_nth union_fields dest 1) 2 = Some (True, iter_nth union_fields dest 1)"
proof -
  note find = iter_find_nth [OF union_tags(1), of _ dest]
  have ord: "search_order 2 0 = [0, 1]" "search_order 2 1 = [1, 0]" by (simp_all add: search_order_def upt_rec)
  have f: "union_fields ! 0 = descriptor 1 PB_LTYPE_UVARINT PB_HTYPE_ONEOF PB_ATYPE_STATIC 8 (- 8) 8 0 NoPtr"
    "union_fields ! 1 = descriptor 2 PB_LTYPE_STRING PB_HTYPE_ONEOF PB_ATYPE_POINTER PB_SIZE_MAX (- 8) 1 0 NoPtr"
    by (simp_all add: union_fields_eq)
  show "pb_field_iter_find (iter_nth union_fields dest 0) 1 = Some (True, iter_nth union_fields dest 0)"
    "pb_field_iter_find (iter_nth union_fields dest 0) 2 = Some (True, iter_nth union_fields dest 1)"
    "pb_field_iter_find (iter_nth union_fields dest 1) 1 = Some (True, iter_nth union_fields dest 0)"
    "pb_field_iter_find (iter_nth union_fields dest 1) 2 = Some (True, iter_nth union_fields dest 1)"
    using find [of 0 1] find [of 0 2] find [of 1 1] find [of 1 2]
    by (simp_all only: union_tags(2) ord) (simp_all add: f matches_def del: iter_nth.simps One_nat_def)
qed

lemma at_left [simp]: "bytes_left (at bs n) = n"
  by (simp add: at_def)

lemma tag_at: "t \<noteq> 0 \<Longrightarrow>
  pb_decode_tag (at (leb (unat t) @ r) (length (leb (unat t)) + k)) = ((Inr (wire_type_of (unat (t AND 7)), drop_bit 3 t), at r k), False)"
  using varint32_eof_at [of t r k] by (auto simp: pb_decode_tag_def)

lemma union_tag_at:
  "pb_decode_tag (at (0x08 # r) (Suc k)) = ((Inr (PB_WT_VARINT, 1), at r k), False)"
  "pb_decode_tag (at (0x12 # r) (Suc k)) = ((Inr (PB_WT_STRING, 2), at r k), False)"
  using tag_at [where t = "0x08" and r = r and k = k] tag_at [where t = "0x12" and r = r and k = k] by (simp_all add: leb_small wire_type_of_def)

lemma load_size_store: "store_size m (SizeAt (b, off)) n = Some m' \<Longrightarrow> load_size m' (SizeAt (b, off)) = Some (n mod 2 ^ 32)"
  using load_store_same [of m "(b, off)" "le_bytes 4 n" m'] by (simp add: store_size_def load_size_def le_val_le_bytes)

lemma union_defaults:
  assumes "in_block m b off (off + 16)"
  obtains m' where "pb_message_set_to_defaults tabs union_fields (b, off) m = Some m'" "changes_only b off (off + 16) m m'"
    "load_size m' (SizeAt (b, off)) = Some 0"
proof -
  note tags = union_tags(1)
  let ?P = "\<lambda>j m'. changes_only b off (off + 16) m m' \<and> (0 < j \<longrightarrow> load_size m' (SizeAt (b, off)) = Some 0)"
  obtain m1 where m1: "store_size m (SizeAt (b, off)) 0 = Some m1" "changes_only b off (off + 16) m m1"
    using store_size_in_block [OF assms, of off 0] by auto
  have blk1: "in_block m1 b off (off + 16)" using in_block_changes [OF m1(2) assms] .
  obtain m2 where m2: "store_ptr m1 (b, off + 8) 0 = Some m2" "changes_only b off (off + 16) m1 m2"
    using store_in_block [OF blk1, of "off + 8" "le_bytes 8 0"] by (auto simp: store_ptr_def)
  obtain m3 where m3: "store_size m2 (SizeAt (b, off)) 0 = Some m3" "changes_only b off (off + 16) m2 m3"
    using store_size_in_block [OF in_block_changes [OF m2(2) blk1], of off 0] by auto
  have "do_fields (pb_field_set_to_default (pb_message_set_to_defaults tabs) tabs) (iter_nth union_fields (b, off) 1) m1 = Some m3"
    using next_iter_nth [OF tags, of 1 "(b, off)"] m2(1) m3(1)
    by (subst do_fields.simps) (simp add: pb_field_set_to_default_def union_field union_iter union_tags Let_def del: iter_nth.simps One_nat_def)
  then have "do_fields (pb_field_set_to_default (pb_message_set_to_defaults tabs) tabs) (iter_nth union_fields (b, off) 0) m = Some m3"
    using next_iter_nth [OF tags, of 0 "(b, off)"] m1(1)
    by (subst do_fields.simps) (simp add: pb_field_set_to_default_def union_field union_iter union_tags Let_def del: iter_nth.simps)
  then have "pb_message_set_to_defaults tabs union_fields (b, off) m = Some m3"
    by (subst pb_message_set_to_defaults.simps) (simp add: case_prod_beta pb_field_iter_begin_def union_fields_eq field_at_def Let_def)
  then show ?thesis
    using that changes_trans [OF changes_trans [OF m1(2) m2(2)] m3(2)] load_size_store [OF m3(1)] by simp
qed

text \<open>Decoding the number: it is stored in the union, and \<open>which_u\<close> becomes 1.\<close>

lemma union_number:
  fixes v :: u64
  assumes blk: "in_block m b off (off + 16)" and which: "load_size m (SizeAt (b, off)) = Some 0"
  obtains m' where "decode_field env submessage (at (leb (unat v) @ r) (length (leb (unat v)) + k)) PB_WT_VARINT (iter_nth union_fields (b, off) 0) m =
      Some (Inr (iter_nth union_fields (b, off) 0), at r k, m')"
    "changes_only b off (off + 16) m m'" "load_size m' (SizeAt (b, off)) = Some 1" "load_ptr m' (b, off + 8) = Some (unat v)"
proof -
  let ?s = "at (leb (unat v) @ r) (length (leb (unat v)) + k)"
  let ?f = "descriptor 1 PB_LTYPE_UVARINT PB_HTYPE_ONEOF PB_ATYPE_STATIC 8 (- 8) 8 0 NoPtr"
  obtain m1 where m1: "store_size m (SizeAt (b, off)) 1 = Some m1" "changes_only b off (off + 16) m m1"
    using store_size_in_block [OF blk, of off 1] by auto
  obtain m2 where m2: "store_at m1 (b, off + 8) (le_bytes 8 (unat v)) = Some m2" "changes_only b off (off + 16) m1 m2"
    using store_in_block [OF in_block_changes [OF m1(2) blk], of "off + 8" "le_bytes 8 (unat v)"] by auto
  have "pb_dec_uvarint ?s ?f = (Inr (le_bytes 8 (unat v)), at r k)"
    using takesD [OF takes_varint [of v], of r k] by (simp add: pb_dec_uvarint_def and_then_def)
  then have "store_result (pb_dec_uvarint ?s ?f) (b, off + 8) m1 = Some (Inr (), at r k, m2)"
    using m2(1) by (simp add: store_result_def on_stream_def run_then_def return_with_def)
  then have "decode_field env submessage ?s PB_WT_VARINT (iter_nth union_fields (b, off) 0) m =
      Some (Inr (iter_nth union_fields (b, off) 0), at r k, m2)"
    using which m1(1)
    by (simp add: decode_field_def union_field union_iter pb_release_union_field_def decode_static_field_def run_then_def Let_def
      del: iter_nth.simps)
  moreover have "load_size m2 (SizeAt (b, off)) = Some 1"
    using load_size_store [OF m1(1)] load_store_other [OF m2(1), of off 4] by (simp add: load_size_def)
  moreover have "load_ptr m2 (b, off + 8) = Some (unat v)"
    using load_store_same [OF m2(1)] unat_u64_less [of v] by (simp add: load_ptr_def le_val_le_bytes)
  ultimately show ?thesis using that changes_trans [OF m1(2) m2(2)] by blast
qed

text \<open>Decoding the string then takes the number for the address of a block.\<close>

lemma union_string:
  assumes blk: "in_block m b off (off + 16)" and which: "load_size m (SizeAt (b, off)) = Some 1"
    and p: "load_ptr m (b, off + 8) = Some p" "p \<noteq> 0" "blocks m p = None" and n: "n \<noteq> (- 1 :: u32)"
  shows "decode_field env submessage (at (leb (unat n) @ r) (length (leb (unat n)) + k)) PB_WT_STRING (iter_nth union_fields (b, off) 1) m = None"
proof -
  let ?s = "at (leb (unat n) @ r) (length (leb (unat n)) + k)"
  let ?f = "descriptor 2 PB_LTYPE_STRING PB_HTYPE_ONEOF PB_ATYPE_POINTER PB_SIZE_MAX (- 8) 1 0 NoPtr"
  obtain m1 where m1: "store_size m (SizeAt (b, off)) 2 = Some m1" "changes_only b off (off + 16) m m1"
    using store_size_in_block [OF blk, of off 2] by auto
  have "p \<noteq> b" using p(3) blk by (auto simp: in_block_def)
  then have gone: "blocks m1 p = None" "load_ptr m1 (b, off + 8) = Some p"
    using m1 p load_store_other [of m b off "le_bytes 4 2" m1 "off + 8" 8] by (auto simp: changes_only_def store_size_def load_ptr_def)
  have "n + 1 \<noteq> 0" using n by (simp add: eq_neg_iff_add_eq_0)
  then have "unat (n + 1) \<noteq> 0" by (simp add: unat_eq_0)
  then have "(unat n + 1) mod 2 ^ 32 \<noteq> 0" by (simp add: unat_word_ariths)
  then have len: "unat (n + 1) = Suc (unat n)"
    using unat_u32_less [of n] by (cases "unat n + 1 = 2 ^ 32") (simp_all add: unat_word_ariths)
  then have big: "\<not> n + 1 < n" by (simp add: word_less_nat_alt)
  have "\<not> SIZE_LIMIT - Suc 0 < Suc (unat n)" using unat_u32_less [of n] by (simp add: SIZE_LIMIT_def)
  then have "allocate_at env s m1 (b, off + 8) (unat (n + 1)) 1 = None" for s
    using gone p(2) unfolding len by (simp add: allocate_at_def pb_realloc_def)
  then have "dec_string_at env ?s ?f (b, off + 8) m1 = None"
    using takesD [OF takes_varint32 [of n], of r k] big
    by (simp add: dec_string_at_def on_stream_def run_then_def string_dest_def Let_def)
  moreover have "pb_release_single_field (pb_release (tables env)) (tables env) (iter_nth union_fields (b, off) 0) m = Some m"
    using which by (simp add: pb_release_single_field_def union_field union_iter Let_def del: iter_nth.simps)
  ultimately show ?thesis
    using which m1(1) p(1) union_find
    by (simp add: decode_field_def union_field union_iter pb_release_union_field_def decode_pointer_field_def run_then_def Let_def
      del: iter_nth.simps One_nat_def)
qed

lemma union_runs_into_number:
  assumes "in_block m b off (off + 16)" and "v \<noteq> (0 :: u64)" and "blocks m (unat v) = None" and "n \<noteq> (- 1 :: u32)"
  shows "pb_decode env (at (0x08 # leb (unat v) @ 0x12 # leb (unat n) @ r) (length (leb (unat v)) + length (leb (unat n)) + 2 + k))
    union_fields (b, off) m = None"
proof -
  define sub where "sub = dec_submessage (length (leb (unat v)) + length (leb (unat n)) + 2 + k) env"
  let ?it = "iter_nth union_fields (b, off)"
  let ?st = "\<lparr> iterator = ?it 0, fields_seen = [0, 0], fixed_count_field = None, extension_range_start = 0 \<rparr>"
  obtain m1 where m1: "pb_message_set_to_defaults (tables env) union_fields (b, off) m = Some m1" "changes_only b off (off + 16) m m1"
    "load_size m1 (SizeAt (b, off)) = Some 0" using union_defaults [OF assms(1)] .
  let ?m = "m1\<lparr>fixed_count_size := 0\<rparr>"
  have blk: "in_block ?m b off (off + 16)" using in_block_changes [OF m1(2) assms(1)] by simp
  have "load_size ?m (SizeAt (b, off)) = Some 0" using m1(3) by (simp add: load_size_def load_at_def)
  from union_number [OF blk this, of env sub v "0x12 # leb (unat n) @ r" "Suc (length (leb (unat n)) + k)"]
  obtain m2 where m2: "decode_field env sub (at (leb (unat v) @ 0x12 # leb (unat n) @ r) (length (leb (unat v)) + Suc (length (leb (unat n)) + k)))
        PB_WT_VARINT (?it 0) ?m = Some (Inr (?it 0), at (0x12 # leb (unat n) @ r) (Suc (length (leb (unat n)) + k)), m2)"
      "changes_only b off (off + 16) ?m m2" "load_size m2 (SizeAt (b, off)) = Some 1" "load_ptr m2 (b, off + 8) = Some (unat v)" .
  have blk2: "in_block m2 b off (off + 16)" using in_block_changes [OF m2(2) blk] .
  have "unat v \<noteq> b" using assms(1,3) by (auto simp: in_block_def)
  then have "blocks m2 (unat v) = None" using m1(2) m2(2) assms(3) by (simp add: changes_only_def)
  moreover have "unat v \<noteq> 0" using assms(2) by (simp add: unat_eq_0)
  ultimately have no: "decode_field env sub (at (leb (unat n) @ r) (length (leb (unat n)) + k)) PB_WT_STRING (?it 1) m2 = None"
    by (intro union_string [OF blk2 m2(3,4) _ _ assms(4)])
  have second: "decode_loop env sub ?st (at (0x12 # leb (unat n) @ r) (Suc (length (leb (unat n)) + k))) m2 = None"
    by (subst decode_loop.simps) (simp add: union_tag_at union_find note_field_def union_field run_then_def no Let_def
      del: iter_nth.simps One_nat_def)
  have "decode_loop env sub ?st (at (0x08 # leb (unat v) @ 0x12 # leb (unat n) @ r) (Suc (length (leb (unat v)) + Suc (length (leb (unat n)) + k)))) ?m = None"
    using second
    by (subst decode_loop.simps) (simp add: union_tag_at union_find note_field_def union_field run_then_def m2(1) [unfolded add_Suc_right] Let_def
      del: iter_nth.simps One_nat_def)
  then show ?thesis
    using m1(1) by (simp add: pb_decode_def sub_def add.assoc decode_init_def decode_noinit_def run_then_def at_def)
qed

text \<open>C33. A message whose union has a number and a pointer: when the number is present and then the pointer, \<open>pb_decode\<close>
  takes the number, which the sender chooses freely, for the address of a block to resize.  Unless there
  happens to be one, the behaviour is undefined: the pointer of the union is not cleared when the
  union changes from a static member to a pointer member.\<close>

theorem union_reuses_number_as_pointer:
  assumes "in_block m b off (off + 16)" and "v \<noteq> (0 :: u64)" and "blocks m (unat v) = None" and "n \<noteq> (- 1 :: u32)"
    and "message = 0x08 # leb (unat v) @ 0x12 # leb (unat n) @ rest"
  shows "pb_decode env (pb_istream_from_buffer message (length message)) union_fields (b, off) m = None"
  using union_runs_into_number [OF assms(1-4), of env rest "length rest"]
  by (simp add: assms(5) pb_istream_from_buffer_def at_def add.assoc)

theorem union_reuses_number_as_pointer_witness:
  "pb_decode \<lparr> tables = cct_tables, allocator = (\<lambda>_ _. None), callback = (\<lambda>_ _ _ _ _. None) \<rparr>
     (pb_istream_from_buffer [0x08, 5, 0x12, 1, 65] 5) union_fields (1, 0)
     \<lparr> blocks = (\<lambda>_. None)(1 \<mapsto> replicate 16 0), fixed_count_size = 0 \<rparr> = None"
proof -
  have len: "(5 :: nat) = length [0x08 :: u8, 5, 0x12, 1, 65]" by simp
  show ?thesis unfolding len
    by (rule union_reuses_number_as_pointer [where v = 5 and n = 1 and rest = "[65]"]) (simp_all add: in_block_def leb_small)
qed

section \<open>A short array of fixed length\<close>

text \<open>C34. A structure whose last member is an array of fixed length of fewer than four bytes: setting the message to its
  defaults clears a count that the array does not have, four bytes at its start, beyond the end of the
  structure.  No decoding of the message is defined, whatever the input.\<close>

theorem fixed_array_cleared_past_end:
  assumes "decls_ok [d]" and "decl_rules d = FIXED_COUNT" and "decl_alloc d = PB_ATYPE_STATIC" and "decl_type d \<noteq> T_EXTENSION"
    and "blocks m b = Some blk" and "length blk < offset (decl_member d) + 4"
  shows "pb_decode env s (declare_fields [d]) (b, 0) m = None"
proof -
  let ?fs = "declare_fields [d]"
  have it: "iter_nth ?fs (b, 0) 0 = snd (pb_field_iter_begin ?fs (b, 0))" by simp
  have f: "pos_field (iter_nth ?fs (b, 0) 0) = declare_field FIRST d"
    using iter_nth_field [OF declare_tags_ok [OF assms(1)], of 0 "(b, 0)"] by simp
  have "store_size m (SizeAt (b, int (offset (decl_member d)))) 0 = None"
    using assms(5,6) by (auto simp: store_size_def store_at_def)
  moreover have "pSize (iter_nth ?fs (b, 0) 0) = SizeAt (b, int (offset (decl_member d)))"
    using iter_at_member(2) [OF assms(1), of 0 "(b, 0)"] assms(2) by (simp add: has_companion_def loc_add_def)
  moreover have "PB_LTYPE_MAP (decl_type d) \<noteq> PB_LTYPE_EXTENSION" using assms(4) by (cases "decl_type d") simp_all
  ultimately have "pb_field_set_to_default set_message tabs (iter_nth ?fs (b, 0) 0) m = None" for set_message tabs
    using f assms(2,3) by (simp add: pb_field_set_to_default_def Let_def del: iter_nth.simps)
  then have "do_fields (pb_field_set_to_default set_message tabs) (iter_nth ?fs (b, 0) 0) m = None" for set_message tabs
    by (subst do_fields.simps) (simp del: iter_nth.simps)
  moreover have "fst (pb_field_iter_begin ?fs (b, 0))"
    using assms(1) by (simp add: pb_field_iter_begin_def field_at_def Let_def decl_ok_def)
  ultimately have "pb_message_set_to_defaults tabs ?fs (b, 0) m = None" for tabs
    by (subst pb_message_set_to_defaults.simps) (simp add: case_prod_beta)
  then show ?thesis by (simp add: pb_decode_def decode_init_def)
qed

theorem fixed_array_cleared_past_end_witness:
  "pb_decode \<lparr> tables = cct_tables, allocator = (\<lambda>_ _. None), callback = (\<lambda>_ _ _ _ _. None) \<rparr> (pb_istream_from_buffer [] 0)
     (declare_fields [cct_decl 1 T_BOOL FIXED_COUNT PB_ATYPE_STATIC (member 0 2 1 0) NoPtr]) (1, 0)
     \<lparr> blocks = (\<lambda>_. None)(1 \<mapsto> [0, 0]), fixed_count_size = 0 \<rparr> = None"
  by (rule fixed_array_cleared_past_end [where blk = "[0, 0]"]) (simp_all add: cct_decl_def member_def decl_ok_def)

end
