(* ===== verification/PbRoundTrip.thy ===== *)
theory PbRoundTrip
  imports PbWriteSafe PbUnion
begin

text \<open>
  What \<open>pb_encode\<close> writes, \<open>pb_decode\<close> reads: messages whose fields are numbers, booleans and byte
  arrays of fixed length, required or with a presence flag.
\<close>

section \<open>Fields of plain values\<close>

definition plain :: "pb_field \<Rightarrow> bool" where
  "plain f \<longleftrightarrow> (packable f \<or> ltype f = PB_LTYPE_FIXED_LENGTH_BYTES) \<and>
     (htype f = PB_HTYPE_REQUIRED \<or> htype f = PB_HTYPE_OPTIONAL \<and> size_offset f \<noteq> 0) \<and> unat (field_tag f) < 2 ^ 29"

text \<open>The length of a value in memory.\<close>

definition value_len :: "pb_field \<Rightarrow> nat" where
  "value_len f = (case ltype f of PB_LTYPE_BOOL \<Rightarrow> 1 | PB_LTYPE_FIXED32 \<Rightarrow> 4 | PB_LTYPE_FIXED64 \<Rightarrow> 8 | _ \<Rightarrow> data_size f)"

definition field_value :: "pb_memory \<Rightarrow> pb_loc \<Rightarrow> pb_field list \<Rightarrow> nat \<Rightarrow> bytes option" where
  "field_value m l fs i = load_at m (loc_add l (data_pos fs i)) (value_len (fs ! i))"

definition present :: "pb_memory \<Rightarrow> pb_loc \<Rightarrow> pb_field list \<Rightarrow> nat \<Rightarrow> bool" where
  "present m l fs i \<longleftrightarrow> htype (fs ! i) = PB_HTYPE_REQUIRED \<or>
     (case load_at m (loc_add l (size_pos fs i)) 1 of Some b \<Rightarrow> safe_read_bool b | None \<Rightarrow> False)"

lemma plain_coders:
  assumes "plain f"
  obtains enc dec where "\<And>se. PB_ENCODERS se (ltype f) = Some enc" "\<And>grants sd. PB_DECODERS grants sd (ltype f) = Some dec"
    "\<And>env sub. FIELD_DECODERS env sub (ltype f) = Some (\<lambda>s f l m. store_result (dec s f) l m)"
    "\<And>encode tabs m s l mem. has_callback s \<Longrightarrow> load_at m l (value_len f) = Some mem \<Longrightarrow> value_ok f mem \<Longrightarrow>
       encode_value encode tabs m s f l = Some (enc s f (Some mem))"
  using assms
  by (cases "ltype f")
    (auto simp: plain_def packable_def encode_value_def value_len_def value_ok_def pointed_def load_for_def intro: that)

lemma plain_coded:
  assumes f: "plain f" and mem: "value_ok f mem" and st: "atype f = PB_ATYPE_STATIC" "data_size f < 2 ^ 32"
    and coders: "PB_ENCODERS se (ltype f) = Some enc" "PB_DECODERS grants sd (ltype f) = Some dec"
  shows "\<exists>bs. emits (\<lambda>s. enc s f (Some mem)) bs \<and> takes (\<lambda>s. dec s f) bs mem \<and> length bs < 2 ^ 63"
proof (cases "packable f")
  case True
  then show ?thesis using value_coded [OF mem st coders] by fastforce
next
  case False
  then have lt: "ltype f = PB_LTYPE_FIXED_LENGTH_BYTES" using f by (simp add: plain_def)
  then have m: "length mem = data_size f" "0 < data_size f" using mem by (simp_all add: value_ok_def)
  have "length (leb (length mem)) \<le> 10" using m st(2) by (intro length_leb_64) simp
  then have "length (leb (length mem) @ mem) < 2 ^ 63" using m st(2) by simp
  then show ?thesis using fixed_length_bytes_coded [OF m st(2)] coders lt by (intro exI [of _ "leb (length mem) @ mem"]) (auto simp: pointed_def)
qed

text \<open>A settled writer that emits some bytes on some stream with enough room delivers these.\<close>

lemma settled_emits:
  assumes "settled n f" "n < 2 ^ 63" "emits F bs" "\<And>s. has_callback s \<Longrightarrow> f s = Some (F s)" "length bs < 2 ^ 63"
  shows "delivers n f bs"
proof -
  let ?s = "pb_ostream_from_buffer (2 ^ 63 - 1)"
  have ok: "stream_ok n ?s" by (simp add: stream_ok_def pb_ostream_from_buffer_def)
  have F: "f ?s = Some (Inr (), emit ?s bs)"
    using emitsD(2) [OF assms(3), of ?s] assms(4) [of ?s] assms(5) by (simp add: pb_ostream_from_buffer_def SIZE_LIMIT_def)
  then have "\<not> refuses n f" using ok by (auto simp: refuses_def fails_def)
  then obtain as where as: "delivers n f as" using assms(1,2) by (auto simp: settled_def)
  then have "length as \<le> n" by (simp add: delivers_def)
  then have "f ?s = Some (Inr (), emit ?s as)" using as ok assms(2) by (auto simp: delivers_def pb_ostream_from_buffer_def)
  then have "as = bs" using F by (simp add: emit_def pb_ostream_from_buffer_def)
  then show ?thesis using as by simp
qed

lemma tag_delivers:
  assumes "ltype f \<noteq> PB_LTYPE_EXTENSION"
  shows "delivers 10 (\<lambda>s. Some (pb_encode_tag_for_field s f)) (tag_octets (field_tag f) (wire_type (ltype f)))"
  unfolding encode_tag_for_field [OF assms] pb_encode_tag_def
  using delivers_varint [of "push_bit 3 (ucast (field_tag f)) OR word_of_nat (wire_type_number (wire_type (ltype f)))"]
  by (simp add: tag_octets_def tag_number [OF wire_type_number_less(1)])

lemma tag_octets_read:
  assumes "plain f" "field_tag f \<noteq> 0"
  shows "pb_decode_tag (at (tag_octets (field_tag f) (wire_type (ltype f)) @ r) (length (tag_octets (field_tag f) (wire_type (ltype f))) + k)) =
    ((Inr (wire_type (ltype f), field_tag f), at r k), False)"
  using tag_read [OF wire_type_number_less(1) _ _, of "field_tag f" "ltype f" r k] assms wire_type_number_less(2)
  by (simp add: tag_octets_def plain_def unat_gt_0)

section \<open>Writing\<close>

lemma delivers_loop:
  assumes tags: "tags_ok fs" and i: "i < length fs"
    and field: "\<And>j. j < length fs \<Longrightarrow> ltype (fs ! j) \<noteq> PB_LTYPE_EXTENSION \<and>
      delivers n (\<lambda>s. encode_field encode env m s (fs ! j) (loc_add dest (data_pos fs j))) (oct j)"
  shows "delivers (n * (length fs - i)) (\<lambda>s. do_fields (encode_step encode env m) (iter_nth fs dest i) (Inr (), s)) (concat (map oct [i..<length fs]))"
  using i
proof (induction "length fs - i" arbitrary: i)
  case (Suc d)
  note fi = field [OF Suc.prems]
  have rest: "delivers (n * (length fs - Suc i)) (\<lambda>s. if Suc i < length fs
      then do_fields (encode_step encode env m) (iter_nth fs dest (Suc i)) (Inr (), s) else Some (Inr (), s)) (concat (map oct [Suc i..<length fs]))"
  proof (cases "Suc i < length fs")
    case True
    then show ?thesis using Suc.hyps(1) [of "Suc i"] Suc.hyps(2) by (simp del: iter_nth.simps)
  next
    case False
    then show ?thesis by (auto simp: delivers_def stream_ok_def)
  qed
  have "[i..<length fs] = i # [Suc i..<length fs]" using Suc.prems by (rule upt_conv_Cons)
  moreover have "n + n * (length fs - Suc i) = n * (length fs - i)" using Suc.prems by (simp add: Suc_diff_Suc [symmetric])
  ultimately show ?case
    unfolding encode_next [OF tags Suc.prems conjunct1 [OF fi]] using delivers_then [OF conjunct2 [OF fi] rest] by simp
qed simp

text \<open>What a field contributes.\<close>

lemma plain_field_written:
  assumes room: "field_room f d p sz" and blk: "in_block m b off (off + int sz)" and f: "plain f"
    and val: "htype f = PB_HTYPE_REQUIRED \<or> safe_read_bool flag \<Longrightarrow>
      \<exists>mem. load_at m (b, off + d) (value_len f) = Some mem \<and> value_ok f mem"
    and flag: "htype f = PB_HTYPE_OPTIONAL \<Longrightarrow> load_at m (b, off + p) 1 = Some flag" and b: "b \<noteq> 0"
  obtains val where "delivers (20 + data_size f) (\<lambda>s. encode_basic_field encode tabs m s f (b, off + d))
      (if htype f = PB_HTYPE_REQUIRED \<or> safe_read_bool flag then tag_octets (field_tag f) (wire_type (ltype f)) @ val else [])"
    "\<And>dec mem grants sd. PB_DECODERS grants sd (ltype f) = Some dec \<Longrightarrow> load_at m (b, off + d) (value_len f) = Some mem \<Longrightarrow>
      htype f = PB_HTYPE_REQUIRED \<or> safe_read_bool flag \<Longrightarrow> takes (\<lambda>s. dec s f) val mem"
proof -
  have st: "atype f = PB_ATYPE_STATIC" "value_room f" "0 \<le> d" "d + int (data_size f * entries f) \<le> int sz" "p = d + size_offset f" "data_size f < 2 ^ 32"
    using room by (auto simp: field_room_def)
  let ?func = "\<lambda>s. encode_value encode tabs m s f (b, off + d)"
  have opt: "encode_basic_field encode tabs m s f (b, off + d) =
      (if htype f = PB_HTYPE_REQUIRED \<or> safe_read_bool flag then enc_then (Some (pb_encode_tag_for_field s f)) (\<lambda>s. ?func s) else Some (Inr (), s))" for s
    using f flag b st(1,5) by (auto simp: plain_def encode_basic_field_def loc_add_def add.assoc Let_def)
  show ?thesis
  proof (cases "htype f = PB_HTYPE_REQUIRED \<or> safe_read_bool flag")
    case False
    have "delivers (20 + data_size f) (\<lambda>s. Some (Inr (), s)) []" by (auto simp: delivers_def stream_ok_def)
    then show ?thesis using that [of "[]"] False by (simp add: opt)
  next
    case True
    then obtain mem where mem: "load_at m (b, off + d) (value_len f) = Some mem" "value_ok f mem" using val by blast
    obtain enc dec where coders: "\<And>se. PB_ENCODERS se (ltype f) = Some enc" "\<And>grants sd. PB_DECODERS grants sd (ltype f) = Some dec"
      "\<And>encode tabs m s l mem. has_callback s \<Longrightarrow> load_at m l (value_len f) = Some mem \<Longrightarrow> value_ok f mem \<Longrightarrow>
       encode_value encode tabs m s f l = Some (enc s f (Some mem))" using plain_coders [OF f] by metis
    from plain_coded [OF f mem(2) st(1,6) coders(1,2)] obtain bs where
      bs: "emits (\<lambda>s. enc s f (Some mem)) bs" "takes (\<lambda>s. dec s f) bs mem" "length bs < 2 ^ 63" by blast
    have e: "entries f = 1" using f by (auto simp: plain_def entries_def)
    have "in_block m b (off + d) (off + d + int (data_size f))" using st(3,4) e by (intro in_block_mono [OF blk]) auto
    then have "settled (value_bound f 0) ?func" using f by (intro settled_value st(1,2)) (auto simp: plain_def packable_def)
    moreover have "value_bound f 0 \<le> 10 + data_size f" using f by (auto simp: plain_def packable_def value_bound_def split: pb_ltype.split)
    ultimately have "settled (10 + data_size f) ?func" by (rule settled_mono)
    then have "delivers (10 + data_size f) ?func bs"
    proof (rule settled_emits [OF _ _ bs(1)])
      show "10 + data_size f < 2 ^ 63" using st(6) by simp
      show "?func s = Some (enc s f (Some mem))" if "has_callback s" for s using coders(3) [OF that mem] .
      show "length bs < 2 ^ 63" by (rule bs(3))
    qed
    moreover have "ltype f \<noteq> PB_LTYPE_EXTENSION" using f by (auto simp: plain_def packable_def)
    ultimately have "delivers (10 + (10 + data_size f)) (\<lambda>s. enc_then (Some (pb_encode_tag_for_field s f)) ?func) (tag_octets (field_tag f) (wire_type (ltype f)) @ bs)"
      by (intro delivers_then tag_delivers)
    moreover have "takes (\<lambda>s. dec' s f) bs mem'" if "PB_DECODERS grants sd (ltype f) = Some dec'" "load_at m (b, off + d) (value_len f) = Some mem'"
      for grants sd dec' mem' using that coders(2) [of grants sd] mem(1) bs(2) by simp
    ultimately show ?thesis using that [of bs] True by (simp add: opt)
  qed
qed

section \<open>Reading\<close>

text \<open>The cells of a message, the values and the flags, do not overlap.\<close>

definition apart :: "int \<Rightarrow> nat \<Rightarrow> int \<Rightarrow> nat \<Rightarrow> bool" where
  "apart x n y k \<longleftrightarrow> x + int n \<le> y \<or> y + int k \<le> x"

definition fields_apart :: "pb_field list \<Rightarrow> bool" where
  "fields_apart fs \<longleftrightarrow> (\<forall>i<length fs. \<forall>j<length fs.
     (i \<noteq> j \<longrightarrow> apart (data_pos fs i) (data_size (fs ! i)) (data_pos fs j) (data_size (fs ! j))) \<and>
     (htype (fs ! i) = PB_HTYPE_OPTIONAL \<longrightarrow> apart (size_pos fs i) 1 (data_pos fs j) (data_size (fs ! j)) \<and>
        (i \<noteq> j \<and> htype (fs ! j) = PB_HTYPE_OPTIONAL \<longrightarrow> apart (size_pos fs i) 1 (size_pos fs j) 1)))"

text \<open>A message of plain fields in a structure that fits it.\<close>

definition plain_message :: "pb_tables \<Rightarrow> pb_field list \<Rightarrow> nat \<Rightarrow> bool" where
  "plain_message tabs fs sz \<longleftrightarrow> static_layout tabs fs sz \<and> (\<forall>f\<in>set fs. plain f) \<and> distinct (map field_tag fs) \<and> fields_apart fs"

lemma find_tag:
  assumes tags: "tags_ok fs" and dist: "distinct (map field_tag fs)" and i: "i < length fs" "ltype (fs ! i) \<noteq> PB_LTYPE_EXTENSION"
    and k: "k < length fs"
  shows "pb_field_iter_find (iter_nth fs dest k) (field_tag (fs ! i)) = Some (True, iter_nth fs dest i)"
proof -
  have only: "matches (field_tag (fs ! i)) (fs ! j) \<longleftrightarrow> j = i" if "j < length fs" for j
    using that i dist nth_eq_iff_index_eq [OF dist, of j i] by (auto simp: matches_def)
  have "find (\<lambda>j. matches (field_tag (fs ! i)) (fs ! j)) (search_order (length fs) k) = Some i"
  proof (cases "find (\<lambda>j. matches (field_tag (fs ! i)) (fs ! j)) (search_order (length fs) k)")
    case None
    then show ?thesis using i k only by (auto simp: find_None_iff search_order_def)
  next
    case (Some j)
    then have "j \<in> set (search_order (length fs) k)" "matches (field_tag (fs ! i)) (fs ! j)" by (auto simp: find_Some_iff)
    then show ?thesis using Some only k by (auto simp: search_order_def)
  qed
  then show ?thesis using iter_find_nth [OF tags k] by simp
qed

text \<open>Required fields in front of a position.\<close>

definition required_before :: "pb_field list \<Rightarrow> nat \<Rightarrow> nat" where
  "required_before fs i = length (filter (\<lambda>f. htype f = PB_HTYPE_REQUIRED) (take i fs))"

lemma required_before_Suc:
  "i < length fs \<Longrightarrow> required_before fs (Suc i) = required_before fs i + (if htype (fs ! i) = PB_HTYPE_REQUIRED then 1 else 0)"
  by (simp add: required_before_def take_Suc_conv_app_nth)

lemma required_index:
  assumes "tags_ok fs" "\<forall>f\<in>set fs. htype f \<noteq> PB_HTYPE_ONEOF" "i < length fs"
  shows "required_field_index (iter_nth fs dest i) = required_before fs i"
  using assms(3)
proof (induction i)
  case 0
  then show ?case by (simp add: pb_field_iter_begin_def required_before_def Let_def)
next
  case (Suc i)
  then have i: "i < length fs" by simp
  have f: "pos_field (iter_nth fs dest i) = fs ! i" "field_at (start (iter_nth fs dest i)) (Suc (pos (iter_nth fs dest i))) = fs ! Suc i"
    using iter_nth_field [OF assms(1) i] iter_nth_simps [OF assms(1) i] Suc.prems by (simp_all add: field_at_def)
  have t: "field_tag (fs ! i) \<noteq> 0" "field_tag (fs ! Suc i) \<noteq> 0" "htype (fs ! i) \<noteq> PB_HTYPE_ONEOF"
    using tags_ok_nth [OF assms(1)] assms(2) Suc.prems by simp_all
  show ?case
    using Suc.IH [OF i] t by (simp add: pb_field_iter_next_def f required_before_Suc [OF i] Let_def)
qed

lemma seek_end_nth:
  assumes "tags_ok fs" "i < length fs"
  shows "seek_end (iter_nth fs dest i) = (required_field_index (iter_nth fs dest (length fs - 1)), htype (fs ! (length fs - 1)), iter_nth fs dest 0)"
  using assms(2)
proof (induction "length fs - i" arbitrary: i)
  case (Suc d)
  note next_i = next_iter_nth [OF assms(1) Suc.prems, of dest]
  show ?case
  proof (cases "Suc i < length fs")
    case True
    then show ?thesis using Suc next_i by (subst seek_end.simps) (simp del: iter_nth.simps)
  next
    case False
    then have "i = length fs - 1" using Suc.prems by simp
    then show ?thesis using next_i False iter_nth_field [OF assms(1) Suc.prems, of dest]
      by (subst seek_end.simps) (simp del: iter_nth.simps)
  qed
qed simp

lemma required_count_nth:
  assumes "tags_ok fs" "\<forall>f\<in>set fs. htype f \<noteq> PB_HTYPE_ONEOF" "i < length fs"
  shows "required_count (iter_nth fs dest i) = min PB_MAX_REQUIRED_FIELDS (required_before fs (length fs))"
proof -
  have ne: "length fs - 1 < length fs" "0 < length fs" "fs \<noteq> []" using assms(3) by auto
  have "required_before fs (Suc (length fs - 1)) = required_before fs (length fs - 1) + (if htype (fs ! (length fs - 1)) = PB_HTYPE_REQUIRED then 1 else 0)"
    by (rule required_before_Suc [OF ne(1)])
  moreover have "field_tag (pos_field (iter_nth fs dest 0)) \<noteq> 0"
    using iter_nth_field [OF assms(1) ne(2), of dest] tags_ok_nth [OF assms(1) ne(2)] by simp
  ultimately show ?thesis
    using seek_end_nth [OF assms(1,3), of dest] required_index [OF assms(1,2) ne(1), of dest] ne
    by (simp add: required_count_def Let_def min_def del: iter_nth.simps)
qed

text \<open>The bit for a required field.\<close>

definition seen_bit :: "u32 list \<Rightarrow> nat \<Rightarrow> bool" where
  "seen_bit seen k \<longleftrightarrow> bit (seen ! (k div 32)) (k mod 32)"

lemma seen_bit_set:
  assumes "length seen = 2" "k < 64" "j < 64"
  shows "seen_bit (seen[k div 32 := seen ! (k div 32) OR push_bit (k mod 32) 1]) j \<longleftrightarrow> j = k \<or> seen_bit seen j"
proof -
  have "k div 32 < 2" "j mod 32 < 32" "k mod 32 < 32" using assms(2) by simp_all
  moreover have "j = k \<longleftrightarrow> j div 32 = k div 32 \<and> j mod 32 = k mod 32" by (metis div_mult_mod_eq)
  ultimately show ?thesis using assms(1)
    by (cases "j div 32 = k div 32") (auto simp: seen_bit_def bit_or_iff bit_push_bit_iff bit_1_iff nth_list_update simp del: push_bit_of_1)
qed

lemma all_seen:
  assumes "length seen = 2" "n \<le> 64" and bits: "\<And>k. k < 64 \<Longrightarrow> seen_bit seen k \<longleftrightarrow> k < n"
  shows "required_present seen n"
proof -
  have word: "seen ! i = - 1" if "i < n div 32" for i
  proof (rule bit_word_eqI)
    fix k
    assume k: "k < LENGTH(32)"
    then have "32 * i + k < n" "32 * i + k < 64" using that assms(2) by auto
    then show "bit (seen ! i) k \<longleftrightarrow> bit (- 1 :: u32) k" using bits [of "32 * i + k"] k by (simp add: seen_bit_def)
  qed
  have "seen ! (n div 32) = drop_bit (32 - n mod 32) (- 1)" if "n mod 32 \<noteq> 0"
  proof (rule bit_word_eqI)
    fix k
    assume k: "k < LENGTH(32)"
    have "n < 64" using that assms(2) by (cases "n = 64") auto
    then have "n div 32 < 2" by auto
    then have "32 * (n div 32) + k < 64" using k by auto
    then have "bit (seen ! (n div 32)) k \<longleftrightarrow> 32 * (n div 32) + k < n"
      using bits [of "32 * (n div 32) + k"] k by (simp add: seen_bit_def)
    moreover have "32 * (n div 32) + k < n \<longleftrightarrow> k < n mod 32" by presburger
    ultimately show "bit (seen ! (n div 32)) k \<longleftrightarrow> bit (drop_bit (32 - n mod 32) (- 1 :: u32)) k"
      using k by (auto simp: bit_mask_iff)
  qed
  then show ?thesis using word by (simp add: required_present_def)
qed

text \<open>A structure in which the fields \<open>want\<close> of the first \<open>k\<close> have the values \<open>val\<close>, and no others are present.\<close>

definition filled :: "pb_field list \<Rightarrow> nat \<Rightarrow> int \<Rightarrow> (nat \<Rightarrow> bool) \<Rightarrow> (nat \<Rightarrow> bytes) \<Rightarrow> nat \<Rightarrow> pb_memory \<Rightarrow> bool" where
  "filled fs b off want val k m \<longleftrightarrow> (\<forall>i<length fs.
     (htype (fs ! i) = PB_HTYPE_OPTIONAL \<longrightarrow> load_at m (b, off + size_pos fs i) 1 = Some [if i < k \<and> want i then 1 else 0]) \<and>
     (i < k \<longrightarrow> want i \<longrightarrow> load_at m (b, off + data_pos fs i) (length (val i)) = Some (val i)))"

lemma plain_messageD:
  assumes "plain_message tabs fs sz"
  shows "tags_ok fs" "fs \<noteq> []" "distinct (map field_tag fs)" "i < length fs \<Longrightarrow> plain (fs ! i)"
    "i < length fs \<Longrightarrow> field_room (fs ! i) (data_pos fs i) (size_pos fs i) sz"
proof -
  have lay: "static_layout tabs fs sz" using assms by (simp add: plain_message_def)
  then show "tags_ok fs" "fs \<noteq> []" "i < length fs \<Longrightarrow> field_room (fs ! i) (data_pos fs i) (size_pos fs i) sz"
    by (auto elim: static_layout.cases)
qed (use assms in \<open>simp_all add: plain_message_def\<close>)

text \<open>What a store into the cell of one field leaves alone.\<close>

lemma value_store_keeps:
  assumes "fields_apart fs" "k < length fs" "length bs \<le> data_size (fs ! k)" "store_at m (b, off + data_pos fs k) bs = Some m'" "i < length fs"
  shows "htype (fs ! i) = PB_HTYPE_OPTIONAL \<Longrightarrow> load_at m' (b, off + size_pos fs i) 1 = load_at m (b, off + size_pos fs i) 1"
    and "i \<noteq> k \<Longrightarrow> n \<le> data_size (fs ! i) \<Longrightarrow> load_at m' (b, off + data_pos fs i) n = load_at m (b, off + data_pos fs i) n"
proof -
  show "load_at m' (b, off + size_pos fs i) 1 = load_at m (b, off + size_pos fs i) 1" if "htype (fs ! i) = PB_HTYPE_OPTIONAL"
    using assms that by (intro load_store_other [OF assms(4)]) (fastforce simp: fields_apart_def apart_def)
  show "load_at m' (b, off + data_pos fs i) n = load_at m (b, off + data_pos fs i) n" if "i \<noteq> k" "n \<le> data_size (fs ! i)"
    using assms that by (intro load_store_other [OF assms(4)]) (fastforce simp: fields_apart_def apart_def)
qed

lemma flag_store_keeps:
  assumes "fields_apart fs" "k < length fs" "htype (fs ! k) = PB_HTYPE_OPTIONAL" "store_at m (b, off + size_pos fs k) [x] = Some m'" "i < length fs"
  shows "i \<noteq> k \<Longrightarrow> htype (fs ! i) = PB_HTYPE_OPTIONAL \<Longrightarrow> load_at m' (b, off + size_pos fs i) 1 = load_at m (b, off + size_pos fs i) 1"
    and "n \<le> data_size (fs ! i) \<Longrightarrow> load_at m' (b, off + data_pos fs i) n = load_at m (b, off + data_pos fs i) n"
proof -
  show "load_at m' (b, off + size_pos fs i) 1 = load_at m (b, off + size_pos fs i) 1" if "i \<noteq> k" "htype (fs ! i) = PB_HTYPE_OPTIONAL"
    using assms that by (intro load_store_other [OF assms(4)]) (fastforce simp: fields_apart_def apart_def)
  show "load_at m' (b, off + data_pos fs i) n = load_at m (b, off + data_pos fs i) n" if "n \<le> data_size (fs ! i)"
    using assms that by (intro load_store_other [OF assms(4)]) (fastforce simp: fields_apart_def apart_def)
qed

text \<open>Storing the flag of a field and then its value.\<close>

lemma fill_field:
  assumes msg: "plain_message tabs fs sz" and k: "k < length fs" and blk: "in_block m b off (off + int sz)"
    and filled: "filled fs b off want val k m" and want: "want k" "length (val k) \<le> data_size (fs ! k)"
    and lens: "\<And>i. i < k \<Longrightarrow> want i \<Longrightarrow> length (val i) \<le> data_size (fs ! i)"
  obtains m1 m2 where "if htype (fs ! k) = PB_HTYPE_OPTIONAL then store_at m (b, off + size_pos fs k) [1] = Some m1 else m1 = m"
    "store_at m1 (b, off + data_pos fs k) (val k) = Some m2" "filled fs b off want val (Suc k) m2" "in_block m2 b off (off + int sz)"
proof -
  have ap: "fields_apart fs" using msg by (simp add: plain_message_def)
  have room: "0 \<le> data_pos fs k" "data_pos fs k + int (data_size (fs ! k)) \<le> int sz"
    "htype (fs ! k) = PB_HTYPE_OPTIONAL \<Longrightarrow> 0 \<le> size_pos fs k \<and> size_pos fs k + 1 \<le> int sz"
    using plain_messageD(4,5) [OF msg k] by (auto simp: field_room_def plain_def entries_def)
  have "\<exists>m1. (if htype (fs ! k) = PB_HTYPE_OPTIONAL then store_at m (b, off + size_pos fs k) [1] = Some m1 else m1 = m) \<and> changes_only b off (off + int sz) m m1"
    using store_in_block [OF blk, of "off + size_pos fs k" "[1]"] room(3) changes_refl [OF blk] by auto
  then obtain m1 where m1: "if htype (fs ! k) = PB_HTYPE_OPTIONAL then store_at m (b, off + size_pos fs k) [1] = Some m1 else m1 = m"
    "changes_only b off (off + int sz) m m1" by blast
  have blk1: "in_block m1 b off (off + int sz)" using in_block_changes [OF m1(2) blk] .
  obtain m2 where m2: "store_at m1 (b, off + data_pos fs k) (val k) = Some m2" "changes_only b off (off + int sz) m1 m2"
    using store_in_block [OF blk1, of "off + data_pos fs k" "val k"] room want(2) by auto
  have flag1: "load_at m1 (b, off + size_pos fs i) 1 = Some [if i < Suc k \<and> want i then 1 else 0]"
    if i: "i < length fs" "htype (fs ! i) = PB_HTYPE_OPTIONAL" for i
  proof (cases "i = k")
    case True
    then show ?thesis using m1(1) i want(1) load_store_same [of m "(b, off + size_pos fs k)" "[1]" m1] by simp
  next
    case False
    then show ?thesis using m1(1) i filled flag_store_keeps(1) [OF ap k _ _ i(1), of m b off 1 m1]
      by (auto simp: filled_def less_Suc_eq split: if_splits)
  qed
  have val1: "load_at m1 (b, off + data_pos fs i) (length (val i)) = Some (val i)" if i: "i < k" "want i" for i
    using m1(1) i k filled flag_store_keeps(2) [OF ap k _ _ _ lens [OF i], of m b off 1 m1]
    by (auto simp: filled_def split: if_splits)
  have "filled fs b off want val (Suc k) m2"
    unfolding filled_def
  proof (intro allI impI conjI)
    fix i
    assume i: "i < length fs"
    show "load_at m2 (b, off + size_pos fs i) 1 = Some [if i < Suc k \<and> want i then 1 else 0]" if "htype (fs ! i) = PB_HTYPE_OPTIONAL"
      using value_store_keeps(1) [OF ap k want(2) m2(1) i that] flag1 [OF i that] by simp
    show "load_at m2 (b, off + data_pos fs i) (length (val i)) = Some (val i)" if "i < Suc k" "want i"
    proof (cases "i = k")
      case True
      then show ?thesis using load_store_same [OF m2(1)] by simp
    next
      case False
      then have "i < k" using that(1) by simp
      then show ?thesis using value_store_keeps(2) [OF ap k want(2) m2(1) i False lens] val1 that(2) by simp
    qed
  qed
  then show ?thesis using that m1(1) m2(1) in_block_changes [OF m2(2) blk1] by blast
qed

lemma filled_skip:
  assumes "filled fs b off want val k m" "\<not> want k"
  shows "filled fs b off want val (Suc k) m"
  using assms by (auto simp: filled_def less_Suc_eq)

section \<open>Defaults\<close>

lemma plain_default:
  assumes msg: "plain_message tabs fs sz" and k: "k < length fs" and blk: "in_block m b off (off + int sz)"
    and flags: "\<forall>i<k. htype (fs ! i) = PB_HTYPE_OPTIONAL \<longrightarrow> load_at m (b, off + size_pos fs i) 1 = Some [0]"
  obtains m' where "pb_field_set_to_default visit tabs (iter_nth fs (b, off) k) m = Some m'" "in_block m' b off (off + int sz)"
    "\<forall>i<Suc k. htype (fs ! i) = PB_HTYPE_OPTIONAL \<longrightarrow> load_at m' (b, off + size_pos fs i) 1 = Some [0]"
proof -
  let ?f = "fs ! k"
  have ap: "fields_apart fs" using msg by (simp add: plain_message_def)
  note tags = plain_messageD(1) [OF msg] and plain = plain_messageD(4) [OF msg k]
  note full = plain_messageD(5) [OF msg k]
  have lt: "ltype ?f \<noteq> PB_LTYPE_SUBMESSAGE" "ltype ?f \<noteq> PB_LTYPE_EXTENSION" using plain by (auto simp: plain_def packable_def)
  define bs where "bs = (case ptr ?f of DefaultValue v \<Rightarrow> take (data_size ?f) v | _ \<Rightarrow> replicate (data_size ?f) 0)"
  have room: "atype ?f = PB_ATYPE_STATIC" "0 \<le> data_pos fs k" "data_pos fs k + int (data_size ?f) \<le> int sz"
    "htype ?f = PB_HTYPE_OPTIONAL \<Longrightarrow> 0 \<le> size_pos fs k \<and> size_pos fs k + 1 \<le> int sz \<and> size_pos fs k \<noteq> data_pos fs k"
    "length bs = data_size ?f" "\<And>a. ptr ?f \<noteq> Submessage a" "\<And>v. ptr ?f = DefaultValue v \<Longrightarrow> data_size ?f \<le> length v"
    using plain full lt by (auto simp: field_room_def plain_def entries_def bs_def split: pb_field_ptr.splits)
  have "\<exists>m1. (if htype ?f = PB_HTYPE_OPTIONAL then store_at m (b, off + size_pos fs k) [0] = Some m1 else m1 = m) \<and> changes_only b off (off + int sz) m m1"
    using store_in_block [OF blk, of "off + size_pos fs k" "[0]"] room(4) changes_refl [OF blk] by auto
  then obtain m1 where m1: "if htype ?f = PB_HTYPE_OPTIONAL then store_at m (b, off + size_pos fs k) [0] = Some m1 else m1 = m"
    "changes_only b off (off + int sz) m m1" by blast
  have blk1: "in_block m1 b off (off + int sz)" using in_block_changes [OF m1(2) blk] .
  obtain m2 where m2: "store_at m1 (b, off + data_pos fs k) bs = Some m2" "changes_only b off (off + int sz) m1 m2"
    using store_in_block [OF blk1, of "off + data_pos fs k" bs] room by auto
  have "pb_field_set_to_default visit tabs (iter_nth fs (b, off) k) m = Some m2"
    using m1(1) m2(1) lt room plain
    by (auto simp: pb_field_set_to_default_def iter_nth_field iter_nth_loc tags k loc_add_def store_bool_def Let_def plain_def bs_def
      simp del: iter_nth.simps split: pb_field_ptr.splits if_splits)
  moreover have "load_at m2 (b, off + size_pos fs i) 1 = Some [0]" if i: "i < Suc k" "htype (fs ! i) = PB_HTYPE_OPTIONAL" for i
  proof -
    have il: "i < length fs" using i k by simp
    have "load_at m1 (b, off + size_pos fs i) 1 = Some [0]"
    proof (cases "i = k")
      case True
      then show ?thesis using m1(1) i load_store_same [of m "(b, off + size_pos fs k)" "[0]" m1] by simp
    next
      case False
      then show ?thesis using m1(1) i il flags flag_store_keeps(1) [OF ap k _ _ il, of m b off 0 m1] by (auto split: if_splits)
    qed
    then show ?thesis using value_store_keeps(1) [OF ap k _ m2(1) il i(2)] room(5) by simp
  qed
  ultimately show ?thesis using that in_block_changes [OF m2(2) blk1] by blast
qed

lemma plain_defaults_from:
  assumes msg: "plain_message tabs fs sz" and k: "k < length fs"
  shows "in_block m b off (off + int sz) \<Longrightarrow>
    (\<forall>i<k. htype (fs ! i) = PB_HTYPE_OPTIONAL \<longrightarrow> load_at m (b, off + size_pos fs i) 1 = Some [0]) \<Longrightarrow>
    \<exists>m'. do_fields (pb_field_set_to_default visit tabs) (iter_nth fs (b, off) k) m = Some m' \<and> in_block m' b off (off + int sz) \<and>
      (\<forall>i<length fs. htype (fs ! i) = PB_HTYPE_OPTIONAL \<longrightarrow> load_at m' (b, off + size_pos fs i) 1 = Some [0])"
  using k
proof (induction "length fs - k" arbitrary: k m)
  case (Suc d)
  obtain m1 where m1: "pb_field_set_to_default visit tabs (iter_nth fs (b, off) k) m = Some m1" "in_block m1 b off (off + int sz)"
    "\<forall>i<Suc k. htype (fs ! i) = PB_HTYPE_OPTIONAL \<longrightarrow> load_at m1 (b, off + size_pos fs i) 1 = Some [0]"
    using plain_default [OF msg Suc.prems(3,1,2)] .
  note next_k = next_iter_nth [OF plain_messageD(1) [OF msg] Suc.prems(3), of "(b, off)"]
  show ?case
  proof (cases "Suc k < length fs")
    case True
    then show ?thesis using Suc.hyps(1) [OF _ m1(2,3) True] Suc.hyps(2) m1(1) next_k
      by (subst do_fields.simps) (simp del: iter_nth.simps)
  next
    case False
    then have "Suc k = length fs" using Suc.prems(3) by simp
    then show ?thesis using m1 next_k False by (subst do_fields.simps) (simp del: iter_nth.simps)
  qed
qed simp

lemma plain_defaults:
  assumes msg: "plain_message tabs fs sz" and blk: "in_block m b off (off + int sz)"
  obtains m' where "pb_message_set_to_defaults tabs fs (b, off) m = Some m'" "in_block m' b off (off + int sz)" "filled fs b off want val 0 m'"
proof -
  have "0 < length fs" using plain_messageD(2) [OF msg] by simp
  with plain_defaults_from [OF msg this blk, of "pb_message_set_to_defaults tabs"] obtain m' where
    m': "do_fields (pb_field_set_to_default (pb_message_set_to_defaults tabs) tabs) (iter_nth fs (b, off) 0) m = Some m'"
    "in_block m' b off (off + int sz)" "filled fs b off want val 0 m'" by (auto simp: filled_def)
  have "fst (pb_field_iter_begin fs (b, off))"
    using plain_messageD(1,2) [OF msg] tags_ok_nth [of fs 0] by (simp add: pb_field_iter_begin_def field_at_def Let_def)
  then have "pb_message_set_to_defaults tabs fs (b, off) m = Some m'"
    using m'(1) by (subst pb_message_set_to_defaults.simps) (simp add: case_prod_beta)
  then show ?thesis using that m'(2,3) by blast
qed

section \<open>One field of the stream\<close>

definition seen_next :: "pb_field list \<Rightarrow> nat \<Rightarrow> u32 list \<Rightarrow> u32 list" where
  "seen_next fs k seen = (let i = required_before fs k in
     if htype (fs ! k) = PB_HTYPE_REQUIRED \<and> i < PB_MAX_REQUIRED_FIELDS then seen[i div 32 := seen ! (i div 32) OR push_bit (i mod 32) 1] else seen)"

text \<open>The fields \<open>want\<close>, with the required ones among them, and for each its value and the bytes that encode it.\<close>

definition coded :: "pb_field list \<Rightarrow> (nat \<Rightarrow> bool) \<Rightarrow> (nat \<Rightarrow> bytes) \<Rightarrow> (nat \<Rightarrow> bytes) \<Rightarrow> bool" where
  "coded fs want val bs \<longleftrightarrow> (\<forall>i<length fs. (htype (fs ! i) = PB_HTYPE_REQUIRED \<longrightarrow> want i) \<and>
     (want i \<longrightarrow> length (val i) \<le> data_size (fs ! i) \<and>
       (\<forall>grants sd dec. PB_DECODERS grants sd (ltype (fs ! i)) = Some dec \<longrightarrow> takes (\<lambda>s. dec s (fs ! i)) (bs i) (val i))))"

lemma plain_field_read:
  fixes st :: pb_decode_state
  assumes msg: "plain_message (tables env) fs sz" and k: "k < length fs" and blk: "in_block m b off (off + int sz)"
    and filled: "filled fs b off want val k m" and want: "want k" and coded: "coded fs want val bs"
    and st: "iterator st = iter_nth fs (b, off) j" "j < length fs" "fixed_count_field st = None"
  obtains m' where "decode_loop env submessage st (at (tag_octets (field_tag (fs ! k)) (wire_type (ltype (fs ! k))) @ bs k @ r)
        (length (tag_octets (field_tag (fs ! k)) (wire_type (ltype (fs ! k)))) + (length (bs k) + n))) m =
      decode_loop env submessage (st\<lparr>iterator := iter_nth fs (b, off) k, fields_seen := seen_next fs k (fields_seen st)\<rparr>) (at r n) m'"
    "filled fs b off want val (Suc k) m'" "in_block m' b off (off + int sz)"
proof -
  let ?f = "fs ! k"
  have lens: "length (val k) \<le> data_size ?f" "i < k \<Longrightarrow> want i \<Longrightarrow> length (val i) \<le> data_size (fs ! i)" for i
    using coded k want by (auto simp: coded_def)
  let ?tag = "tag_octets (field_tag ?f) (wire_type (ltype ?f))"
  let ?it = "iter_nth fs (b, off) k"
  let ?st = "st\<lparr>iterator := ?it, fields_seen := seen_next fs k (fields_seen st)\<rparr>"
  note tags = plain_messageD(1) [OF msg] and plain = plain_messageD(4) [OF msg k]
  have only: "\<forall>f\<in>set fs. htype f \<noteq> PB_HTYPE_ONEOF" using plain_messageD(4) [OF msg] by (fastforce simp: in_set_conv_nth plain_def)
  have lt: "ltype ?f \<noteq> PB_LTYPE_EXTENSION" using plain by (auto simp: plain_def packable_def)
  have ht: "htype ?f = PB_HTYPE_REQUIRED \<or> htype ?f = PB_HTYPE_OPTIONAL" "atype ?f = PB_ATYPE_STATIC"
    "htype ?f = PB_HTYPE_OPTIONAL \<Longrightarrow> size_pos fs k \<noteq> data_pos fs k"
    using plain plain_messageD(5) [OF msg k] by (auto simp: plain_def field_room_def)
  from fill_field [OF msg k blk filled want lens(1) lens(2)] obtain m1 m2 where
    m1: "if htype ?f = PB_HTYPE_OPTIONAL then store_at m (b, off + size_pos fs k) [1] = Some m1 else m1 = m"
    and m2: "store_at m1 (b, off + data_pos fs k) (val k) = Some m2" "filled fs b off want val (Suc k) m2" "in_block m2 b off (off + int sz)"
    by blast
  obtain enc dec where dec: "\<And>grants sd. PB_DECODERS grants sd (ltype ?f) = Some dec"
    "\<And>env sub. FIELD_DECODERS env sub (ltype ?f) = Some (\<lambda>s f l m. store_result (dec s f) l m)" using plain_coders [OF plain] by metis
  have read: "takes (\<lambda>s. dec s ?f) (bs k) (val k)" using coded k want dec(1) by (auto simp: coded_def)
  have stored: "store_result (dec (at (bs k @ r) (length (bs k) + n)) ?f) (b, off + data_pos fs k) m1 = Some (Inr (), at r n, m2)"
    using takesD [OF read, of r n] m2(1) by (simp add: store_result_def on_stream_def run_then_def return_with_def)
  have field: "pos_field ?it = ?f" "pData ?it = (b, off + data_pos fs k)" "pSize ?it = SizeAt (b, off + size_pos fs k)"
    using iter_nth_field [OF tags k] iter_nth_loc [OF tags k] by (simp_all add: loc_add_def del: iter_nth.simps)
  have static: "decode_field env submessage (at (bs k @ r) (length (bs k) + n)) wt ?it m = Some (Inr ?it, at r n, m2)" for wt
    using ht m1 stored dec(2)
    by (auto simp: decode_field_def decode_static_field_def field run_then_def store_bool_def Let_def simp del: iter_nth.simps)
  have noted: "note_field s (st\<lparr>iterator := ?it\<rparr>) m = Some (Inr ?st, s, m)" for s
    using ht(1) required_index [OF tags only k, of "(b, off)"]
    by (auto simp: note_field_def seen_next_def field run_then_def Let_def simp del: iter_nth.simps)
  have find: "pb_field_iter_find (iterator st) (field_tag ?f) = Some (True, ?it)"
    unfolding st(1) by (rule find_tag [OF tags plain_messageD(3) [OF msg] k lt st(2)])
  have pos: "bytes_left (at (?tag @ bs k @ r) (length ?tag + (length (bs k) + n))) \<noteq> 0"
    using decode_tag_left [of "at (?tag @ bs k @ r) (length ?tag + (length (bs k) + n))"] tag_octets_read [OF plain tags_ok_nth [OF tags k], of "bs k @ r" "length (bs k) + n"]
    by fastforce
  have "decode_loop env submessage st (at (?tag @ bs k @ r) (length ?tag + (length (bs k) + n))) m = decode_loop env submessage ?st (at r n) m2"
    using tag_octets_read [OF plain tags_ok_nth [OF tags k], of "bs k @ r" "length (bs k) + n"] find static noted
    by (subst decode_loop.simps, subst if_not_P [OF pos]) (cases st, simp add: run_then_def Let_def del: iter_nth.simps)
  then show ?thesis using that m2(2,3) by blast
qed

definition seen_upto :: "pb_field list \<Rightarrow> nat \<Rightarrow> u32 list \<Rightarrow> bool" where
  "seen_upto fs k seen \<longleftrightarrow> length seen = 2 \<and> (\<forall>b<64. seen_bit seen b \<longleftrightarrow> b < required_before fs k)"

lemma seen_upto_next:
  assumes "seen_upto fs k seen" "k < length fs"
  shows "seen_upto fs (Suc k) (seen_next fs k seen)"
proof (cases "htype (fs ! k) = PB_HTYPE_REQUIRED \<and> required_before fs k < 64")
  case True
  then have "seen_next fs k seen = seen[required_before fs k div 32 := seen ! (required_before fs k div 32) OR push_bit (required_before fs k mod 32) 1]"
    by (simp add: seen_next_def PB_MAX_REQUIRED_FIELDS_def Let_def)
  then show ?thesis using True assms seen_bit_set [of seen "required_before fs k"] required_before_Suc [OF assms(2)]
    by (auto simp: seen_upto_def)
next
  case False
  then have "seen_next fs k seen = seen" by (auto simp: seen_next_def PB_MAX_REQUIRED_FIELDS_def Let_def)
  then show ?thesis using False assms required_before_Suc [OF assms(2)] by (auto simp: seen_upto_def)
qed

definition field_octets :: "pb_field list \<Rightarrow> (nat \<Rightarrow> bool) \<Rightarrow> (nat \<Rightarrow> bytes) \<Rightarrow> nat \<Rightarrow> bytes" where
  "field_octets fs want val i = (if want i then tag_octets (field_tag (fs ! i)) (wire_type (ltype (fs ! i))) @ val i else [])"

lemma plain_fields_read:
  fixes st :: pb_decode_state
  assumes msg: "plain_message (tables env) fs sz"
    and coded: "coded fs want val bs"
  shows "k \<le> length fs \<Longrightarrow> in_block m b off (off + int sz) \<Longrightarrow> filled fs b off want val k m \<Longrightarrow> seen_upto fs k (fields_seen st) \<Longrightarrow>
    iterator st = iter_nth fs (b, off) j \<Longrightarrow> j < length fs \<Longrightarrow> fixed_count_field st = None \<Longrightarrow>
    \<exists>st' m' j'. decode_loop env submessage st (at (concat (map (field_octets fs want bs) [k..<length fs]))
        (length (concat (map (field_octets fs want bs) [k..<length fs])))) m = Some (Inr (st' :: pb_decode_state), at [] 0, m') \<and>
      filled fs b off want val (length fs) m' \<and> seen_upto fs (length fs) (fields_seen st') \<and>
      iterator st' = iter_nth fs (b, off) j' \<and> j' < length fs \<and> fixed_count_field st' = None"
proof (induction "length fs - k" arbitrary: k m st j)
  case 0
  then show ?case by (subst decode_loop.simps) auto
next
  case (Suc d)
  then have k: "k < length fs" by simp
  let ?rest = "concat (map (field_octets fs want bs) [Suc k..<length fs])"
  have order: "concat (map (field_octets fs want bs) [k..<length fs]) = field_octets fs want bs k @ ?rest" using k by (simp add: upt_conv_Cons)
  note step = Suc.hyps(1) [of "Suc k"]
  show ?case
  proof (cases "want k")
    case False
    then have "htype (fs ! k) \<noteq> PB_HTYPE_REQUIRED" using coded k by (auto simp: coded_def)
    then have "seen_upto fs (Suc k) (fields_seen st)" using Suc.prems(4) required_before_Suc [OF k] by (simp add: seen_upto_def)
    then show ?thesis using step [OF _ _ Suc.prems(2) filled_skip [OF Suc.prems(3) False] _ Suc.prems(5-7)] Suc.hyps(2) k False
      by (simp add: order field_octets_def del: iter_nth.simps)
  next
    case True
    from plain_field_read [OF msg k Suc.prems(2,3) True coded Suc.prems(5-7), where r = "?rest" and n = "length ?rest" and submessage = submessage]
    obtain m' where m': "decode_loop env submessage st (at (tag_octets (field_tag (fs ! k)) (wire_type (ltype (fs ! k))) @ bs k @ ?rest)
        (length (tag_octets (field_tag (fs ! k)) (wire_type (ltype (fs ! k)))) + (length (bs k) + length ?rest))) m =
      decode_loop env submessage (st\<lparr>iterator := iter_nth fs (b, off) k, fields_seen := seen_next fs k (fields_seen st)\<rparr>) (at ?rest (length ?rest)) m'"
      "filled fs b off want val (Suc k) m'" "in_block m' b off (off + int sz)" by blast
    show ?thesis
      using m'(1) step [OF _ _ m'(3,2), of "st\<lparr>iterator := iter_nth fs (b, off) k, fields_seen := seen_next fs k (fields_seen st)\<rparr>" k]
        seen_upto_next [OF Suc.prems(4) k] Suc.hyps(2) Suc.prems(7) k True
      by (simp add: order field_octets_def add.assoc del: iter_nth.simps)
  qed
qed

lemma plain_message_read:
  assumes msg: "plain_message (tables env) fs sz" and blk: "in_block m b off (off + int sz)"
    and coded: "coded fs want val bs"
  shows "\<exists>m'. pb_decode env (at (concat (map (field_octets fs want bs) [0..<length fs]))
        (length (concat (map (field_octets fs want bs) [0..<length fs])))) fs (b, off) m = Some (Inr (), at [] 0, m') \<and>
      filled fs b off want val (length fs) m'"
proof -
  let ?octets = "concat (map (field_octets fs want bs) [0..<length fs])"
  let ?sub = "dec_submessage (length ?octets) env"
  let ?st = "\<lparr> iterator = iter_nth fs (b, off) 0, fields_seen = [0, 0], fixed_count_field = None, extension_range_start = 0 \<rparr>"
  note tags = plain_messageD(1) [OF msg]
  have ne: "0 < length fs" using plain_messageD(2) [OF msg] by simp
  have only: "\<forall>f\<in>set fs. htype f \<noteq> PB_HTYPE_ONEOF" using plain_messageD(4) [OF msg] by (fastforce simp: in_set_conv_nth plain_def)
  obtain m1 where m1: "pb_message_set_to_defaults (tables env) fs (b, off) m = Some m1" "in_block m1 b off (off + int sz)" "filled fs b off want val 0 m1"
    using plain_defaults [OF msg blk] .
  have seen0: "seen_upto fs 0 (fields_seen ?st)"
    by (auto simp: seen_upto_def seen_bit_def required_before_def nth_Cons split: nat.split)
  have "filled fs b off want val 0 (m1\<lparr>fixed_count_size := 0\<rparr>)" using m1(3) by (simp add: filled_def load_at_def)
  from plain_fields_read [where k = 0 and j = 0 and st = ?st and submessage = ?sub, OF msg coded _ _ this seen0] m1(2) ne
  obtain st' m' j' where loop: "decode_loop env ?sub ?st (at ?octets (length ?octets)) (m1\<lparr>fixed_count_size := 0\<rparr>) = Some (Inr st', at [] 0, m')"
    and end_state: "filled fs b off want val (length fs) m'" "seen_upto fs (length fs) (fields_seen st')"
      "iterator st' = iter_nth fs (b, off) j'" "j' < length fs" "fixed_count_field st' = None"
    by auto
  have "required_present (fields_seen st') (required_count (iterator st'))"
    unfolding end_state(3) required_count_nth [OF tags only end_state(4)] using end_state(2)
    by (intro all_seen) (auto simp: seen_upto_def PB_MAX_REQUIRED_FIELDS_def)
  then have "decode_noinit env ?sub (at ?octets (length ?octets)) fs (b, off) m1 = Some (Inr (), at [] 0, m'\<lparr>fixed_count_size := fixed_count_size m1\<rparr>)"
    using loop end_state(5) by (simp add: decode_noinit_def run_then_def fixed_count_ok_def)
  moreover have "filled fs b off want val (length fs) (m'\<lparr>fixed_count_size := fixed_count_size m1\<rparr>)"
    using end_state(1) by (simp add: filled_def load_at_def)
  ultimately show ?thesis using m1(1) by (simp add: pb_decode_def decode_init_def)
qed

section \<open>Messages\<close>

lemma value_ok_len: "plain f \<Longrightarrow> value_ok f mem \<Longrightarrow> length mem = value_len f"
  by (cases "ltype f") (auto simp: plain_def packable_def value_ok_def value_len_def)

lemma value_len_room: "plain f \<Longrightarrow> value_room f \<Longrightarrow> value_len f \<le> data_size f"
  by (cases "ltype f") (auto simp: value_room_def value_len_def)

text \<open>There are fewer than \<open>2 ^ 29\<close> tags.\<close>

lemma plain_message_length:
  assumes "plain_message tabs fs sz"
  shows "length fs \<le> 2 ^ 29"
proof -
  have "distinct (map unat (map field_tag fs))"
    using plain_messageD(3) [OF assms] by (subst distinct_map) (auto simp: inj_on_def word_unat_eq_iff)
  then have "length fs = card (set (map unat (map field_tag fs)))" by (subst distinct_card) (simp_all del: map_map set_map)
  also have "\<dots> \<le> card {..<2 ^ 29 :: nat}"
    using plain_messageD(4) [OF assms] by (intro card_mono) (auto simp: in_set_conv_nth plain_def)
  finally show ?thesis by simp
qed

text \<open>The bytes of each field of a message in memory.\<close>

lemma plain_message_written:
  assumes msg: "plain_message (enc_tables eenv) fs sz" and blk: "in_block m b off (off + int sz)" "b \<noteq> 0"
    and vals: "\<And>i. i < length fs \<Longrightarrow> present m (b, off) fs i \<Longrightarrow> \<exists>mem. field_value m (b, off) fs i = Some mem \<and> value_ok (fs ! i) mem"
  defines "want \<equiv> present m (b, off) fs" and "val \<equiv> (\<lambda>i. the (field_value m (b, off) fs i))"
  obtains bs n where "coded fs want val bs" "n < 2 ^ 63"
    "delivers n (pb_encode eenv m fs (b, off)) (concat (map (field_octets fs want bs) [0..<length fs]))"
proof -
  note tags = plain_messageD(1) [OF msg]
  have "\<exists>bs. delivers (20 + data_size (fs ! i)) (\<lambda>s. encode_basic_field (pb_encode eenv m) (enc_tables eenv) m s (fs ! i) (b, off + data_pos fs i))
        (if want i then tag_octets (field_tag (fs ! i)) (wire_type (ltype (fs ! i))) @ bs else []) \<and>
      (\<forall>grants sd dec. PB_DECODERS grants sd (ltype (fs ! i)) = Some dec \<longrightarrow> want i \<longrightarrow> takes (\<lambda>s. dec s (fs ! i)) bs (val i))"
    if i: "i < length fs" for i
  proof -
    note room = plain_messageD(5) [OF msg i] and plain = plain_messageD(4) [OF msg i]
    define flag where "flag = the (load_at m (b, off + size_pos fs i) 1)"
    have flag: "load_at m (b, off + size_pos fs i) 1 = Some flag" if "htype (fs ! i) = PB_HTYPE_OPTIONAL"
    proof -
      have "0 \<le> size_pos fs i" "size_pos fs i + 1 \<le> int sz" using room plain that by (auto simp: field_room_def plain_def)
      then show ?thesis using load_in_block [OF blk(1), of "off + size_pos fs i" 1] by (auto simp: flag_def)
    qed
    have want: "want i \<longleftrightarrow> htype (fs ! i) = PB_HTYPE_REQUIRED \<or> safe_read_bool flag"
      using flag plain by (auto simp: want_def present_def plain_def loc_add_def)
    then have "\<exists>mem. load_at m (b, off + data_pos fs i) (value_len (fs ! i)) = Some mem \<and> value_ok (fs ! i) mem"
      if "htype (fs ! i) = PB_HTYPE_REQUIRED \<or> safe_read_bool flag"
      using vals [OF i] that by (simp add: want_def field_value_def loc_add_def)
    from plain_field_written [OF room blk(1) plain this flag blk(2), of "pb_encode eenv m" "enc_tables eenv"] obtain bs where
      bs: "delivers (20 + data_size (fs ! i)) (\<lambda>s. encode_basic_field (pb_encode eenv m) (enc_tables eenv) m s (fs ! i) (b, off + data_pos fs i))
        (if want i then tag_octets (field_tag (fs ! i)) (wire_type (ltype (fs ! i))) @ bs else [])"
      and dec: "\<And>dec mem grants sd. PB_DECODERS grants sd (ltype (fs ! i)) = Some dec \<Longrightarrow>
        load_at m (b, off + data_pos fs i) (value_len (fs ! i)) = Some mem \<Longrightarrow> want i \<Longrightarrow> takes (\<lambda>s. dec s (fs ! i)) bs mem"
      unfolding want by blast
    have "field_value m (b, off) fs i = Some (val i)" if "want i"
      using vals [OF i] that by (auto simp: want_def val_def)
    then show ?thesis using bs dec by (auto simp: field_value_def loc_add_def)
  qed
  then obtain bs where bs: "\<And>i. i < length fs \<Longrightarrow> delivers (20 + data_size (fs ! i))
        (\<lambda>s. encode_basic_field (pb_encode eenv m) (enc_tables eenv) m s (fs ! i) (b, off + data_pos fs i)) (field_octets fs want bs i) \<and>
      (\<forall>grants sd dec. PB_DECODERS grants sd (ltype (fs ! i)) = Some dec \<longrightarrow> want i \<longrightarrow> takes (\<lambda>s. dec s (fs ! i)) (bs i) (val i))"
    unfolding field_octets_def by metis
  have "coded fs want val bs"
    unfolding coded_def
  proof (intro allI impI conjI)
    fix i
    assume i: "i < length fs"
    note room = plain_messageD(5) [OF msg i] and plain = plain_messageD(4) [OF msg i]
    show "want i" if "htype (fs ! i) = PB_HTYPE_REQUIRED" using that by (simp add: want_def present_def)
    show "length (val i) \<le> data_size (fs ! i)" if "want i"
      using vals [OF i] that value_ok_len [OF plain] value_len_room [OF plain] room by (auto simp: want_def val_def field_room_def)
    show "takes (\<lambda>s. dec s (fs ! i)) (bs i) (val i)" if "want i" "PB_DECODERS grants sd (ltype (fs ! i)) = Some dec" for grants sd dec
      using bs [OF i] that by blast
  qed
  moreover have "ltype (fs ! i) \<noteq> PB_LTYPE_EXTENSION \<and> delivers (20 + 2 ^ 32)
      (\<lambda>s. encode_field (pb_encode eenv m) eenv m s (fs ! i) (loc_add (b, off) (data_pos fs i))) (field_octets fs want bs i)"
    if i: "i < length fs" for i
  proof
    note room = plain_messageD(5) [OF msg i] and plain = plain_messageD(4) [OF msg i]
    show "ltype (fs ! i) \<noteq> PB_LTYPE_EXTENSION" using plain by (auto simp: plain_def packable_def)
    have "atype (fs ! i) = PB_ATYPE_STATIC" "20 + data_size (fs ! i) \<le> 20 + 2 ^ 32" using room by (simp_all add: field_room_def)
    then show "delivers (20 + 2 ^ 32) (\<lambda>s. encode_field (pb_encode eenv m) eenv m s (fs ! i) (loc_add (b, off) (data_pos fs i))) (field_octets fs want bs i)"
      using delivers_mono [OF conjunct1 [OF bs [OF i]]] by (simp add: encode_field_def loc_add_def)
  qed
  from delivers_loop [OF tags _ this, of 0] plain_messageD(2) [OF msg]
  have "delivers ((20 + 2 ^ 32) * length fs) (\<lambda>s. pb_encode eenv m fs (b, off) s) (concat (map (field_octets fs want bs) [0..<length fs]))"
    unfolding encode_begin [OF tags plain_messageD(2) [OF msg]] by simp
  moreover have "(20 + 2 ^ 32) * length fs < 2 ^ 63" using plain_message_length [OF msg] by simp
  ultimately show ?thesis using that by blast
qed

text \<open>C9. What \<open>pb_encode\<close> writes, \<open>pb_decode\<close> reads: a message of numbers, booleans and byte arrays of fixed length, required or
  with a presence flag, is written to every buffer with room for it; the bytes, decoded into any structure of its
  type, whatever that contains, leave there the same fields present with the same values and nothing in the stream.  No
  required field is found missing, and the descriptors may come in any order of tags.\<close>

theorem plain_message_roundtrip:
  assumes "plain_message (enc_tables eenv) fs sz" and "tables env = enc_tables eenv"
    and "in_block m b off (off + int sz)" and "b \<noteq> 0" and "in_block m' b' off' (off' + int sz)"
    and "\<forall>i<length fs. present m (b, off) fs i \<longrightarrow> (\<exists>mem. field_value m (b, off) fs i = Some mem \<and> value_ok (fs ! i) mem)"
  shows "\<exists>octets. length octets < 2 ^ 63 \<and> pb_get_encoded_size eenv m fs (b, off) = Some (Inr (length octets)) \<and>
    (\<forall>cap. length octets \<le> cap \<longrightarrow> cap < 2 ^ 63 \<longrightarrow> pb_encode eenv m fs (b, off) (pb_ostream_from_buffer cap) =
      Some (Inr (), \<lparr> has_callback = True, written = octets, max_size = cap, bytes_written = length octets \<rparr>)) \<and>
    (\<exists>m''. pb_decode env (pb_istream_from_buffer octets (length octets)) fs (b', off') m' = Some (Inr (), pb_istream_from_buffer [] 0, m'') \<and>
      (\<forall>i<length fs. present m'' (b', off') fs i = present m (b, off) fs i \<and>
        (present m (b, off) fs i \<longrightarrow> field_value m'' (b', off') fs i = field_value m (b, off) fs i)))"
proof -
  note msg = assms(1)
  let ?want = "present m (b, off) fs"
  let ?val = "\<lambda>i. the (field_value m (b, off) fs i)"
  from plain_message_written [OF msg assms(3,4)] assms(6) obtain bs n where
    coded: "coded fs ?want ?val bs" and n: "n < 2 ^ 63"
    and del: "delivers n (pb_encode eenv m fs (b, off)) (concat (map (field_octets fs ?want bs) [0..<length fs]))" by blast
  let ?octets = "concat (map (field_octets fs ?want bs) [0..<length fs])"
  have "pb_encode eenv m fs (b, off) (pb_ostream_from_buffer cap) =
      Some (Inr (), \<lparr> has_callback = True, written = ?octets, max_size = cap, bytes_written = length ?octets \<rparr>)"
    if "length ?octets \<le> cap" "cap < 2 ^ 63" for cap
  proof -
    have "stream_ok n (pb_ostream_from_buffer cap)" using that(2) by (simp add: stream_ok_def pb_ostream_from_buffer_def)
    then show ?thesis using del that(1) by (simp add: delivers_def pb_ostream_from_buffer_def emit_def)
  qed
  moreover have "length ?octets < 2 ^ 63" using del n by (simp add: delivers_def)
  moreover have "pb_get_encoded_size eenv m fs (b, off) = Some (Inr (length ?octets))"
    using sizing_delivers [OF del n] by (simp add: pb_get_encoded_size_def del: emit_simps)
  moreover obtain m'' where m'': "pb_decode env (at ?octets (length ?octets)) fs (b', off') m' = Some (Inr (), at [] 0, m'')"
      "filled fs b' off' ?want ?val (length fs) m''"
    using plain_message_read [OF _ assms(5) coded, of env] msg assms(2) by auto
  moreover have "present m'' (b', off') fs i = ?want i \<and> (?want i \<longrightarrow> field_value m'' (b', off') fs i = field_value m (b, off) fs i)"
    if i: "i < length fs" for i
  proof
    note plain = plain_messageD(4) [OF msg i]
    show "present m'' (b', off') fs i = ?want i"
      using m''(2) i plain by (auto simp: present_def filled_def plain_def loc_add_def safe_read_bool_def)
    show "?want i \<longrightarrow> field_value m'' (b', off') fs i = field_value m (b, off) fs i"
    proof
      assume want: "?want i"
      then obtain mem where mem: "field_value m (b, off) fs i = Some mem" "value_ok (fs ! i) mem" using assms(6) i by blast
      then show "field_value m'' (b', off') fs i = field_value m (b, off) fs i"
        using m''(2) i want value_ok_len [OF plain mem(2)] by (auto simp: filled_def field_value_def loc_add_def)
    qed
  qed
  ultimately show ?thesis by (intro exI [of _ ?octets]) (auto simp: at_def pb_istream_from_buffer_def)
qed

theorem plain_message_roundtrip_witness:
  "\<exists>octets m''. pb_encode \<lparr> enc_tables = cct_tables, enc_callback = (\<lambda>_ _ _ _ _. None) \<rparr>
      \<lparr> blocks = [1 \<mapsto> [1, 0, 0, 0, 5, 0, 0, 0, 0, 0, 0, 0, 7, 0, 0, 0]], fixed_count_size = 0 \<rparr> (cct_tables 2) (1, 0) (pb_ostream_from_buffer (length octets)) =
      Some (Inr (), \<lparr> has_callback = True, written = octets, max_size = length octets, bytes_written = length octets \<rparr>) \<and>
    pb_decode \<lparr> tables = cct_tables, allocator = (\<lambda>_ _. None), callback = (\<lambda>_ _ _ _ _. None) \<rparr> (pb_istream_from_buffer octets (length octets))
      (cct_tables 2) (2, 4) \<lparr> blocks = [2 \<mapsto> replicate 20 9], fixed_count_size = 0 \<rparr> = Some (Inr (), pb_istream_from_buffer [] 0, m'') \<and>
    present m'' (2, 4) (cct_tables 2) 0 \<and> field_value m'' (2, 4) (cct_tables 2) 0 = Some [5, 0, 0, 0] \<and> \<not> present m'' (2, 4) (cct_tables 2) 1"
proof -
  let ?e = "\<lparr> enc_tables = cct_tables, enc_callback = (\<lambda>_ _ _ _ _. None) \<rparr>"
  let ?d = "\<lparr> tables = cct_tables, allocator = (\<lambda>_ _. None), callback = (\<lambda>_ _ _ _ _. None) \<rparr>"
  let ?m = "\<lparr> blocks = [1 \<mapsto> [1, 0, 0, 0, 5, 0, 0, 0, 0, 0, 0, 0, 7, 0, 0, 0]], fixed_count_size = 0 \<rparr> :: pb_memory"
  let ?m' = "\<lparr> blocks = [2 \<mapsto> replicate 20 9], fixed_count_size = 0 \<rparr> :: pb_memory"
  have two: "i < length (cct_tables 2) \<longleftrightarrow> i = 0 \<or> i = 1" for i by (auto simp: cct_table_pairs)
  have at: "cct_tables 2 ! 0 = descriptor 1 PB_LTYPE_VARINT PB_HTYPE_OPTIONAL PB_ATYPE_STATIC 4 (- 4) 4 0 (DefaultValue (le_bytes 4 (2 ^ 32 - 1)))"
    "cct_tables 2 ! Suc 0 = descriptor 2 PB_LTYPE_UVARINT PB_HTYPE_OPTIONAL PB_ATYPE_STATIC 4 (- 4) 4 0 (DefaultValue (le_bytes 4 0))"
    by (simp_all add: cct_table_pairs)
  note pos = cct_pair_positions [of 2, simplified] at
  have "fields_apart (cct_tables 2)"
    unfolding fields_apart_def two by (auto simp: pos apart_def)
  then have msg: "plain_message (enc_tables ?e) (cct_tables 2) 16"
    using cct_static_layout [of 2] by (auto simp: plain_message_def cct_table_pairs plain_def packable_def)
  have first: "present ?m (1, 0) (cct_tables 2) 0" "field_value ?m (1, 0) (cct_tables 2) 0 = Some [5, 0, 0, 0]"
    and second: "\<not> present ?m (1, 0) (cct_tables 2) 1"
    by (simp_all add: present_def field_value_def value_len_def pos load_at_def loc_add_def safe_read_bool_def)
  have "value_ok (cct_tables 2 ! 0) [5, 0, 0, 0]" by (simp add: value_ok_def pos)
  then have vals: "\<forall>i<length (cct_tables 2). present ?m (1, 0) (cct_tables 2) i \<longrightarrow>
      (\<exists>mem. field_value ?m (1, 0) (cct_tables 2) i = Some mem \<and> value_ok (cct_tables 2 ! i) mem)"
    unfolding two using first second by auto
  have "in_block ?m 1 0 (0 + int 16)" "in_block ?m' 2 4 (4 + int 16)" by (simp_all add: in_block_def)
  from plain_message_roundtrip [OF msg _ this(1) _ this(2) vals, of ?d] obtain octets m'' where r: "length octets < 2 ^ 63"
    "\<forall>cap. length octets \<le> cap \<longrightarrow> cap < 2 ^ 63 \<longrightarrow> pb_encode ?e ?m (cct_tables 2) (1, 0) (pb_ostream_from_buffer cap) =
      Some (Inr (), \<lparr> has_callback = True, written = octets, max_size = cap, bytes_written = length octets \<rparr>)"
    "pb_decode ?d (pb_istream_from_buffer octets (length octets)) (cct_tables 2) (2, 4) ?m' = Some (Inr (), pb_istream_from_buffer [] 0, m'')"
    "\<forall>i<length (cct_tables 2). present m'' (2, 4) (cct_tables 2) i = present ?m (1, 0) (cct_tables 2) i \<and>
      (present ?m (1, 0) (cct_tables 2) i \<longrightarrow> field_value m'' (2, 4) (cct_tables 2) i = field_value ?m (1, 0) (cct_tables 2) i)"
    by auto
  show ?thesis
    using r(1) r(2) [rule_format, of "length octets"] r(3) r(4) [rule_format, unfolded two, of 0] r(4) [rule_format, unfolded two, of 1] first second
    by (intro exI [of _ octets] exI [of _ m'']) simp
qed

end
