(* ===== verification/BnWords.thy ===== *)
theory BnWords
  imports ConstTime
begin

text \<open>
  Arrays of 64-bit words and the loops of \<open>crypto/fipsmodule/bn/generic.c\<close> over them.  The memory maps each array to its
  words; a pointer is an array with an index into it, so that arguments may be the same array or overlap.  An access
  outside an array is undefined behaviour, the value \<open>None\<close>.  \<open>BN_ULLONG\<close> is available (\<open>uint128_t\<close>).
\<close>

section \<open>Memory\<close>

type_synonym u128 = "128 word"
type_synonym bn_mem = "nat \<Rightarrow> u64 list option"
type_synonym bn_ptr = "nat \<times> nat"

definition padd :: "bn_ptr \<Rightarrow> nat \<Rightarrow> bn_ptr" where
  "padd p n = (fst p, snd p + n)"

definition rd :: "bn_mem \<Rightarrow> bn_ptr \<Rightarrow> nat \<Rightarrow> u64 option" where
  "rd m p i = do { ws \<leftarrow> m (fst p); check (snd p + i < length ws); Some (ws ! (snd p + i)) }"

definition wr :: "bn_mem \<Rightarrow> bn_ptr \<Rightarrow> nat \<Rightarrow> u64 \<Rightarrow> bn_mem option" where
  "wr m p i w = do { ws \<leftarrow> m (fst p); check (snd p + i < length ws); Some (m(fst p \<mapsto> ws[snd p + i := w])) }"

text \<open>The \<open>n\<close> words at a pointer, and their replacement (\<open>memcpy\<close>, \<open>memset\<close>).\<close>

definition words_at :: "bn_mem \<Rightarrow> bn_ptr \<Rightarrow> nat \<Rightarrow> u64 list option" where
  "words_at m p n = do { ws \<leftarrow> m (fst p); check (snd p + n \<le> length ws); Some (take n (drop (snd p) ws)) }"

definition put :: "bn_mem \<Rightarrow> bn_ptr \<Rightarrow> u64 list \<Rightarrow> bn_mem option" where
  "put m p ws = do { old \<leftarrow> m (fst p); check (snd p + length ws \<le> length old); Some (m(fst p \<mapsto> mem_write old (snd p) ws)) }"

section \<open>Unrolled loops\<close>

text \<open>The loops run over the index; four times without a test while four words are left (\<open>n & ~3\<close>), then one by one.\<close>

type_synonym 'c bn_step = "nat \<Rightarrow> 'c \<Rightarrow> bn_mem \<Rightarrow> ('c \<times> bn_mem) option"

primrec steps :: "'c bn_step \<Rightarrow> nat \<Rightarrow> 'c bn_step" where
  "steps step 0 i c m = Some (c, m)"
| "steps step (Suc n) i c m = do { (c, m) \<leftarrow> step i c m; steps step n (i + 1) c m }"

fun unrolled :: "'c bn_step \<Rightarrow> nat \<Rightarrow> 'c bn_step" where
  "unrolled step n i c m =
     (if n \<ge> 4 then do {
        (c, m) \<leftarrow> step i c m;
        (c, m) \<leftarrow> step (i + 1) c m;
        (c, m) \<leftarrow> step (i + 2) c m;
        (c, m) \<leftarrow> step (i + 3) c m;
        unrolled step (n - 4) (i + 4) c m
      }
      else steps step n i c m)"

declare unrolled.simps [simp del]

section \<open>Words\<close>

text \<open>\<open>Lw (t)\<close> and \<open>Hw (t)\<close>, the halves of a double word.\<close>

definition Lw :: "u128 \<Rightarrow> u64" where
  "Lw t = ucast t"

definition Hw :: "u128 \<Rightarrow> u64" where
  "Hw t = ucast (drop_bit 64 t)"

definition mul_add :: "bn_ptr \<Rightarrow> bn_ptr \<Rightarrow> u64 \<Rightarrow> u64 bn_step" where
  "mul_add rp ap w i c m = do {
     a \<leftarrow> rd m ap i;
     r \<leftarrow> rd m rp i;
     let t = ucast w * ucast a + ucast r + (ucast c :: u128);
     m \<leftarrow> wr m rp i (Lw t);
     Some (Hw t, m)
   }"

definition mul_step :: "bn_ptr \<Rightarrow> bn_ptr \<Rightarrow> u64 \<Rightarrow> u64 bn_step" where
  "mul_step rp ap w i c m = do {
     a \<leftarrow> rd m ap i;
     let t = ucast w * ucast a + (ucast c :: u128);
     m \<leftarrow> wr m rp i (Lw t);
     Some (Hw t, m)
   }"

definition sqr_step :: "bn_ptr \<Rightarrow> bn_ptr \<Rightarrow> unit bn_step" where
  "sqr_step r a i c m = do {
     x \<leftarrow> rd m a i;
     let t = ucast x * (ucast x :: u128);
     m \<leftarrow> wr m r (2 * i) (Lw t);
     m \<leftarrow> wr m r (2 * i + 1) (Hw t);
     Some ((), m)
   }"

definition bn_mul_add_words :: "bn_mem \<Rightarrow> bn_ptr \<Rightarrow> bn_ptr \<Rightarrow> nat \<Rightarrow> u64 \<Rightarrow> (u64 \<times> bn_mem) option" where
  "bn_mul_add_words m rp ap num w = (if num = 0 then Some (0, m) else unrolled (mul_add rp ap w) num 0 0 m)"

definition bn_mul_words :: "bn_mem \<Rightarrow> bn_ptr \<Rightarrow> bn_ptr \<Rightarrow> nat \<Rightarrow> u64 \<Rightarrow> (u64 \<times> bn_mem) option" where
  "bn_mul_words m rp ap num w = (if num = 0 then Some (0, m) else unrolled (mul_step rp ap w) num 0 0 m)"

definition bn_sqr_words :: "bn_mem \<Rightarrow> bn_ptr \<Rightarrow> bn_ptr \<Rightarrow> nat \<Rightarrow> bn_mem option" where
  "bn_sqr_words m r a n = (if n = 0 then Some m else map_option snd (unrolled (sqr_step r a) n 0 () m))"

definition add_step :: "bn_ptr \<Rightarrow> bn_ptr \<Rightarrow> bn_ptr \<Rightarrow> u128 bn_step" where
  "add_step r a b i ll m = do {
     x \<leftarrow> rd m a i;
     y \<leftarrow> rd m b i;
     let ll = ll + (ucast x + ucast y);
     m \<leftarrow> wr m r i (ucast ll);
     Some (drop_bit 64 ll, m)
   }"

definition bn_add_words :: "bn_mem \<Rightarrow> bn_ptr \<Rightarrow> bn_ptr \<Rightarrow> bn_ptr \<Rightarrow> nat \<Rightarrow> (u64 \<times> bn_mem) option" where
  "bn_add_words m r a b n =
     (if n = 0 then Some (0, m) else map_option (\<lambda>(ll, m). (ucast ll, m)) (unrolled (add_step r a b) n 0 0 m))"

definition sub_step :: "bn_ptr \<Rightarrow> bn_ptr \<Rightarrow> bn_ptr \<Rightarrow> bool bn_step" where
  "sub_step r a b i c m = do {
     t1 \<leftarrow> rd m a i;
     t2 \<leftarrow> rd m b i;
     m \<leftarrow> wr m r i (t1 - t2 - of_bool c);
     Some (if t1 \<noteq> t2 then t1 < t2 else c, m)
   }"

definition bn_sub_words :: "bn_mem \<Rightarrow> bn_ptr \<Rightarrow> bn_ptr \<Rightarrow> bn_ptr \<Rightarrow> nat \<Rightarrow> (u64 \<times> bn_mem) option" where
  "bn_sub_words m r a b n =
     (if n = 0 then Some (0, m) else map_option (\<lambda>(c, m). (of_bool c, m)) (unrolled (sub_step r a b) n 0 False m))"

text \<open>\<open>bn_select_words\<close> of \<open>bn.c\<close>.\<close>

definition select_step :: "bn_ptr \<Rightarrow> u64 \<Rightarrow> bn_ptr \<Rightarrow> bn_ptr \<Rightarrow> unit bn_step" where
  "select_step r msk a b i c m = do {
     x \<leftarrow> rd m a i;
     y \<leftarrow> rd m b i;
     m \<leftarrow> wr m r i (constant_time_select_w msk x y);
     Some ((), m)
   }"

definition bn_select_words :: "bn_mem \<Rightarrow> bn_ptr \<Rightarrow> u64 \<Rightarrow> bn_ptr \<Rightarrow> bn_ptr \<Rightarrow> nat \<Rightarrow> bn_mem option" where
  "bn_select_words m r msk a b num = map_option snd (steps (select_step r msk a b) num 0 () m)"

section \<open>The loops as one\<close>

lemma steps_add: "steps step (n + k) i c m = do { (c, m) \<leftarrow> steps step n i c m; steps step k (i + n) c m }"
proof (induction n arbitrary: i c m)
  case (Suc n)
  then show ?case by (cases "step i c m") auto
qed simp

lemma unrolled_steps: "unrolled step n i c m = steps step n i c m"
proof (induction n arbitrary: i c m rule: less_induct)
  case (less n)
  show ?case
  proof (cases "n \<ge> 4")
    case True
    then have ih: "unrolled step (n - 4) i = steps step (n - 4) i" for i by (intro ext less.IH) simp
    have plus: "k + 3 = Suc (Suc (Suc k))" "k + 4 = Suc (Suc (Suc (Suc k)))" for k :: nat by simp_all
    have "steps step (Suc (Suc (Suc (Suc (n - 4))))) i c m = unrolled step n i c m"
      using True by (subst unrolled.simps) (simp add: ih plus)
    moreover have "Suc (Suc (Suc (Suc (n - 4)))) = n" using True by simp
    ultimately show ?thesis by simp
  qed (simp add: unrolled.simps)
qed

section \<open>Arrays as numbers\<close>

primrec wval :: "u64 list \<Rightarrow> nat" where
  "wval [] = 0"
| "wval (w # ws) = unat w + 2 ^ 64 * wval ws"

primrec wlist :: "nat \<Rightarrow> nat \<Rightarrow> u64 list" where
  "wlist 0 v = []"
| "wlist (Suc n) v = word_of_nat v # wlist n (v div 2 ^ 64)"

lemma length_wlist [simp]: "length (wlist n v) = n"
  by (induction n arbitrary: v) auto

lemma unat_u64_of_nat [simp]: "unat (word_of_nat v :: u64) = v mod 2 ^ 64"
  by (simp add: unat_of_nat)

lemma wval_append: "wval (xs @ ys) = wval xs + 2 ^ (64 * length xs) * wval ys"
  by (induction xs) (simp_all add: algebra_simps power_add)

lemma wval_snoc [simp]: "wval (xs @ [w]) = wval xs + 2 ^ (64 * length xs) * unat w"
  by (simp add: wval_append)

lemma wval_less: "wval ws < 2 ^ (64 * length ws)"
proof (induction ws)
  case (Cons w ws)
  have "unat w + 2 ^ 64 * wval ws < 2 ^ 64 * (wval ws + 1)" using unat_u64_less [of w] by simp
  also have "\<dots> \<le> 2 ^ 64 * 2 ^ (64 * length ws)" using Cons by (intro mult_le_mono2) simp
  finally show ?case by (simp add: power_add)
qed simp

lemma wval_wlist: "wval (wlist n v) = v mod 2 ^ (64 * n)"
proof (induction n arbitrary: v)
  case (Suc n)
  have "v mod (2 ^ 64 * 2 ^ (64 * n)) = 2 ^ 64 * (v div 2 ^ 64 mod 2 ^ (64 * n)) + v mod 2 ^ 64" by (rule mod_mult2_eq)
  then show ?case using Suc by (simp add: power_add)
qed simp

lemma wval_inj: "length xs = length ys \<Longrightarrow> wval xs = wval ys \<Longrightarrow> xs = ys"
proof (induction xs ys rule: list_induct2)
  case (Cons x xs y ys)
  have "unat x = (unat x + 2 ^ 64 * wval xs) mod 2 ^ 64" using unat_u64_less [of x] by simp
  also have "\<dots> = unat y" using Cons.prems unat_u64_less [of y] by simp
  finally have "unat x = unat y" .
  then show ?case using Cons by (simp add: word_unat_eq_iff)
qed simp

lemma wlist_wval [simp]: "wlist (length ws) (wval ws) = ws"
  by (rule wval_inj) (simp_all add: wval_wlist wval_less)

lemma wlist_eqI: "length ws = n \<Longrightarrow> wval ws = v mod 2 ^ (64 * n) \<Longrightarrow> ws = wlist n v"
  by (rule wval_inj) (simp_all add: wval_wlist)

lemma wval_replicate_0 [simp]: "wval (replicate n 0) = 0"
  by (induction n) auto

section \<open>Reading and replacing words\<close>

definition upd :: "bn_mem \<Rightarrow> bn_ptr \<Rightarrow> u64 list \<Rightarrow> bn_mem" where
  "upd m p ws = (case m (fst p) of None \<Rightarrow> m | Some old \<Rightarrow> m(fst p \<mapsto> mem_write old (snd p) ws))"

definition room :: "bn_mem \<Rightarrow> bn_ptr \<Rightarrow> nat \<Rightarrow> bool" where
  "room m p n \<longleftrightarrow> (\<exists>ws. m (fst p) = Some ws \<and> snd p + n \<le> length ws)"

text \<open>The cells at \<open>p\<close> and \<open>q\<close> do not overlap; a loop upwards that writes at \<open>r\<close> does not disturb what it still reads at \<open>p\<close>.\<close>

definition clear_of :: "bn_ptr \<Rightarrow> nat \<Rightarrow> bn_ptr \<Rightarrow> nat \<Rightarrow> bool" where
  "clear_of p n q k \<longleftrightarrow> fst p \<noteq> fst q \<or> snd p + n \<le> snd q \<or> snd q + k \<le> snd p"

definition undisturbed :: "bn_ptr \<Rightarrow> bn_ptr \<Rightarrow> nat \<Rightarrow> bool" where
  "undisturbed r p n \<longleftrightarrow> clear_of r n p n \<or> fst p = fst r \<and> snd r \<le> snd p"

named_theorems at_simps \<open>words at a pointer after an update\<close>

lemma room_words: "room m p n \<longleftrightarrow> (\<exists>ws. words_at m p n = Some ws \<and> length ws = n)"
  by (cases "m (fst p)") (auto simp: room_def words_at_def)

lemma words_at_room: "words_at m p n = Some ws \<Longrightarrow> room m p n \<and> length ws = n"
  by (auto simp: room_def words_at_def bind_eq_Some check_def split: if_splits)

lemma put_upd: "put m p ws = (if room m p (length ws) then Some (upd m p ws) else None)"
  by (cases "m (fst p)") (auto simp: put_def upd_def room_def)

lemma upd_Nil [simp]: "upd m p [] = m"
  by (auto simp: upd_def mem_write_def split: option.split)

lemma room_0_mono: "room m p n \<Longrightarrow> k \<le> n \<Longrightarrow> room m p k"
  by (auto simp: room_def)

lemma padd_simps [simp]: "padd p 0 = p" "padd (padd p n) k = padd p (n + k)" "fst (padd p n) = fst p" "snd (padd p n) = snd p + n"
  by (simp_all add: padd_def add.assoc)

lemma rd_words: "words_at m p n = Some ws \<Longrightarrow> i < n \<Longrightarrow> rd m p i = Some (ws ! i)"
  by (auto simp: words_at_def rd_def bind_eq_Some check_def split: if_splits)

lemma room_upd [at_simps]: "room m p (length ws) \<Longrightarrow> room (upd m p ws) q k = room m q k"
  by (cases "fst q = fst p") (auto simp: room_def upd_def mem_simps)

lemma words_at_upd_same [at_simps]: "room m p (length ws) \<Longrightarrow> words_at (upd m p ws) p (length ws) = Some ws"
  by (auto simp: room_def upd_def words_at_def mem_write_def)

lemma take_drop_write:
  assumes "i + k \<le> j \<or> j + length ws \<le> i" "j + length ws \<le> length old"
  shows "take k (drop i (mem_write old j ws)) = take k (drop i old)"
  by (rule nth_equalityI) (use assms in \<open>auto simp: mem_write_def nth_append\<close>)

lemma words_at_upd_other [at_simps]:
  assumes "room m p (length ws)" "clear_of p (length ws) q k"
  shows "words_at (upd m p ws) q k = words_at m q k"
proof (cases "fst p = fst q")
  case False
  then show ?thesis by (auto simp: words_at_def upd_def split: option.split)
next
  case True
  obtain old where old: "m (fst q) = Some old" "snd p + length ws \<le> length old" using assms(1) True by (auto simp: room_def)
  then have "take k (drop (snd q) (mem_write old (snd p) ws)) = take k (drop (snd q) old)"
    using assms(2) True by (intro take_drop_write) (auto simp: clear_of_def)
  then show ?thesis using old True by (simp add: words_at_def upd_def mem_simps)
qed

lemma words_at_append:
  "words_at m p (n + k) = Some ws \<longleftrightarrow> words_at m p n = Some (take n ws) \<and> words_at m (padd p n) k = Some (drop n ws) \<and> length ws = n + k"
proof (cases "m (fst p)")
  case (Some old)
  show ?thesis
  proof
    assume "words_at m p (n + k) = Some ws"
    then have "snd p + (n + k) \<le> length old" "ws = take (n + k) (drop (snd p) old)"
      using Some by (auto simp: words_at_def check_def split: if_splits)
    then show "words_at m p n = Some (take n ws) \<and> words_at m (padd p n) k = Some (drop n ws) \<and> length ws = n + k"
      using Some by (simp add: words_at_def drop_take add.commute)
  next
    assume "words_at m p n = Some (take n ws) \<and> words_at m (padd p n) k = Some (drop n ws) \<and> length ws = n + k"
    then have "snd p + (n + k) \<le> length old" "take n (drop (snd p) old) = take n ws" "take k (drop (snd p + n) old) = drop n ws"
      using Some by (auto simp: words_at_def check_def split: if_splits)
    moreover have "take (n + k) (drop (snd p) old) = take n (drop (snd p) old) @ take k (drop (snd p + n) old)"
      by (simp only: take_add drop_drop) (simp add: add.commute)
    ultimately have "take (n + k) (drop (snd p) old) = ws" by (metis append_take_drop_id)
    then show "words_at m p (n + k) = Some ws" using Some \<open>snd p + (n + k) \<le> length old\<close> by (simp add: words_at_def)
  qed
qed (simp add: words_at_def)

lemma upd_append: "room m p (length xs + length ys) \<Longrightarrow> upd m p (xs @ ys) = upd (upd m p xs) (padd p (length xs)) ys"
  by (auto simp: room_def upd_def mem_write_def padd_def ac_simps)

lemma wr_upd:
  assumes "room m r (Suc (length ws))"
  shows "wr (upd m r ws) r (length ws) w = Some (upd m r (ws @ [w]))"
proof -
  obtain old where old: "m (fst r) = Some old" "snd r + Suc (length ws) \<le> length old" using assms by (auto simp: room_def)
  then have "(mem_write old (snd r) ws)[snd r + length ws := w] = mem_write old (snd r) (ws @ [w])"
    by (simp add: mem_write_def list_update_append Cons_nth_drop_Suc [symmetric])
  then show ?thesis using old by (simp add: wr_def upd_def mem_simps)
qed

lemma rd_upd_undisturbed:
  assumes "words_at m p n = Some xs" "undisturbed r p n" "length ws < n" "room m r n"
  shows "rd (upd m r ws) p (length ws) = Some (xs ! length ws)"
proof -
  obtain rs where rs: "m (fst r) = Some rs" "snd r + n \<le> length rs" using assms(4) by (auto simp: room_def)
  have "room m (padd p (length ws)) 1" "words_at m (padd p (length ws)) 1 = Some [xs ! length ws]"
  proof -
    obtain ps where ps: "m (fst p) = Some ps" "snd p + n \<le> length ps" "xs = take n (drop (snd p) ps)"
      using assms(1) by (auto simp: words_at_def bind_eq_Some check_def split: if_splits)
    then show "room m (padd p (length ws)) 1" "words_at m (padd p (length ws)) 1 = Some [xs ! length ws]"
      using assms(3) by (auto simp: room_def words_at_def take_Suc_conv_app_nth)
  qed
  moreover have "clear_of r (length ws) (padd p (length ws)) 1" using assms(2,3) by (auto simp: undisturbed_def clear_of_def)
  ultimately have "words_at (upd m r ws) (padd p (length ws)) 1 = Some [xs ! length ws]"
    using words_at_upd_other [of m r ws "padd p (length ws)" 1] room_0_mono [OF assms(4)] assms(3) by simp
  then show ?thesis using rd_words [of "upd m r ws" "padd p (length ws)" 1 _ 0] by (simp add: rd_def)
qed

section \<open>Loops with a carry\<close>

text \<open>A loop that reads at \<open>a\<close> and \<open>b\<close>, writes at \<open>r\<close> and passes a carry on.\<close>

definition limb_step :: "(u64 \<Rightarrow> u64 \<Rightarrow> 'c \<Rightarrow> u64 \<times> 'c) \<Rightarrow> bn_ptr \<Rightarrow> bn_ptr \<Rightarrow> bn_ptr \<Rightarrow> 'c bn_step" where
  "limb_step g r a b i c m = do {
     x \<leftarrow> rd m a i;
     y \<leftarrow> rd m b i;
     let (w, c) = g x y c;
     m \<leftarrow> wr m r i w;
     Some (c, m)
   }"

primrec limbs :: "(u64 \<Rightarrow> u64 \<Rightarrow> 'c \<Rightarrow> u64 \<times> 'c) \<Rightarrow> u64 list \<Rightarrow> u64 list \<Rightarrow> 'c \<Rightarrow> nat \<Rightarrow> u64 list \<times> 'c" where
  "limbs g xs ys c 0 = ([], c)"
| "limbs g xs ys c (Suc n) = (let (ws, c) = limbs g xs ys c n; (w, c) = g (xs ! n) (ys ! n) c in (ws @ [w], c))"

lemma length_limbs [simp]: "length (fst (limbs g xs ys c n)) = n"
  by (induction n) (auto simp: Let_def case_prod_beta)

lemma limb_loop:
  assumes "words_at m a n = Some xs" "words_at m b n = Some ys" "room m r n" "undisturbed r a n" "undisturbed r b n" "k \<le> n"
  shows "steps (limb_step g r a b) k 0 c m = Some (snd (limbs g xs ys c k), upd m r (fst (limbs g xs ys c k)))"
  using assms(6)
proof (induction k)
  case (Suc k)
  let ?ws = "fst (limbs g xs ys c k)"
  have len: "length ?ws = k" by simp
  have "rd (upd m r ?ws) a k = Some (xs ! k)" "rd (upd m r ?ws) b k = Some (ys ! k)"
    using rd_upd_undisturbed [OF assms(1,4) _ assms(3), of ?ws] rd_upd_undisturbed [OF assms(2,5) _ assms(3), of ?ws] Suc.prems len by simp_all
  moreover have "wr (upd m r ?ws) r k w = Some (upd m r (?ws @ [w]))" for w
    using wr_upd [of m r ?ws w] room_0_mono [OF assms(3)] Suc.prems len by simp
  ultimately have "limb_step g r a b k (snd (limbs g xs ys c k)) (upd m r ?ws) =
      Some (snd (limbs g xs ys c (Suc k)), upd m r (fst (limbs g xs ys c (Suc k))))"
    by (simp add: limb_step_def Let_def case_prod_beta)
  then show ?case using steps_add [of "limb_step g r a b" k 1 0 c m] Suc by simp
qed simp

lemma wval_take_Suc: "n < length xs \<Longrightarrow> wval (take (Suc n) xs) = wval (take n xs) + 2 ^ (64 * n) * unat (xs ! n)"
  by (simp add: take_Suc_conv_app_nth min_def)

text \<open>The general law: when each step adds \<open>f x y\<close> to the carry, splits the sum, and the carry stays below a bound.\<close>

lemma limbs_sum:
  assumes step: "\<And>x y c. ok c \<Longrightarrow> (case g x y c of (w, c') \<Rightarrow> unat w + 2 ^ 64 * num c' = f x y + num c \<and> ok c')"
    and "ok c" "n \<le> length xs" "n \<le> length ys"
  shows "ok (snd (limbs g xs ys c n)) \<and>
    wval (fst (limbs g xs ys c n)) + 2 ^ (64 * n) * num (snd (limbs g xs ys c n)) = (\<Sum>i<n. 2 ^ (64 * i) * f (xs ! i) (ys ! i)) + num c"
  using assms(3,4)
proof (induction n)
  case 0
  then show ?case using assms(2) by simp
next
  case (Suc n)
  then have ih: "ok (snd (limbs g xs ys c n))"
      "wval (fst (limbs g xs ys c n)) + 2 ^ (64 * n) * num (snd (limbs g xs ys c n)) = (\<Sum>i<n. 2 ^ (64 * i) * f (xs ! i) (ys ! i)) + num c" by simp_all
  obtain w c' where g: "g (xs ! n) (ys ! n) (snd (limbs g xs ys c n)) = (w, c')" by (cases "g (xs ! n) (ys ! n) (snd (limbs g xs ys c n))")
  then have s: "unat w + 2 ^ 64 * num c' = f (xs ! n) (ys ! n) + num (snd (limbs g xs ys c n))" "ok c'" using step [OF ih(1), of "xs ! n" "ys ! n"] by simp_all
  have "2 ^ (64 * n) * (unat w + 2 ^ 64 * num c') = 2 ^ (64 * n) * (f (xs ! n) (ys ! n) + num (snd (limbs g xs ys c n)))" using s(1) by simp
  then have "2 ^ (64 * n) * unat w + 2 ^ (64 * Suc n) * num c' = 2 ^ (64 * n) * f (xs ! n) (ys ! n) + 2 ^ (64 * n) * num (snd (limbs g xs ys c n))"
    by (simp add: algebra_simps power_add)
  then show ?case using ih(2) s(2) g by (simp add: Let_def case_prod_beta)
qed

lemma sum_limbs: "n \<le> length xs \<Longrightarrow> (\<Sum>i<n. 2 ^ (64 * i) * unat (xs ! i)) = wval (take n xs)"
  by (induction n) (simp_all add: wval_take_Suc)

section \<open>What the loops compute\<close>

lemma unat_double: "unat (ucast (x :: u64) :: u128) = unat x"
  using unat_u64_less [of x] by (simp add: unsigned_ucast_eq take_bit_nat_eq_self)

lemma unat_Lw: "unat (Lw t) = unat t mod 2 ^ 64"
  by (simp add: Lw_def unsigned_ucast_eq take_bit_nat_def)

lemma unat_u128_less: "unat (t :: u128) < 2 ^ 128"
  using unsigned_less [of t] by simp

lemma unat_Hw: "unat (Hw t) = unat t div 2 ^ 64"
proof -
  have "unat t div 2 ^ 64 < 2 ^ 64" using unat_u128_less [of t] by (simp add: less_mult_imp_div_less)
  then show ?thesis by (simp add: Hw_def unsigned_ucast_eq unat_drop take_bit_nat_eq_self)
qed

lemma halves: "unat (Lw t) + 2 ^ 64 * unat (Hw t) = unat t"
  by (simp add: unat_Lw unat_Hw)

text \<open>A product of two words leaves room for two more.\<close>

lemma mul_double:
  fixes a w r c :: u64
  shows "unat (ucast w * ucast a + ucast r + ucast c :: u128) = unat w * unat a + unat r + unat c"
proof -
  have "unat w * unat a \<le> (2 ^ 64 - 1) * (2 ^ 64 - 1)" using unat_u64_less [of w] unat_u64_less [of a] by (intro mult_le_mono) auto
  then have lt: "unat w * unat a + unat r + unat c < 2 ^ 128" using unat_u64_less [of r] unat_u64_less [of c] by simp
  have "ucast w * ucast a + ucast r + ucast c = (word_of_nat (unat w * unat a + unat r + unat c) :: u128)"
    by (simp add: word_unat_eq_iff unat_word_ariths unat_double unat_of_nat)
  then show ?thesis using lt by (simp add: unat_of_nat del: of_nat_add of_nat_mult)
qed

text \<open>A number below \<open>B * k\<close> in \<open>n\<close> words with what is carried out.\<close>

lemma limbs_wlist:
  assumes "length ws = n" "wval ws + 2 ^ (64 * n) * c = v"
  shows "ws = wlist n v" "c = v div 2 ^ (64 * n)"
proof -
  have "wval ws < 2 ^ (64 * n)" using wval_less [of ws] assms(1) by simp
  then show "ws = wlist n v" "c = v div 2 ^ (64 * n)" using assms by (auto intro!: wlist_eqI)
qed

text \<open>What is read and written: \<open>n\<close> words at \<open>a\<close> and \<open>b\<close>, and room at \<open>r\<close> for the result.\<close>

definition operands :: "bn_mem \<Rightarrow> bn_ptr \<Rightarrow> bn_ptr \<Rightarrow> u64 list \<Rightarrow> bn_ptr \<Rightarrow> u64 list \<Rightarrow> nat \<Rightarrow> bool" where
  "operands m r a xs b ys n \<longleftrightarrow> words_at m a n = Some xs \<and> words_at m b n = Some ys \<and> room m r n \<and> undisturbed r a n \<and> undisturbed r b n"

lemma operands_loop:
  assumes "operands m r a xs b ys n"
  shows "steps (limb_step g r a b) n 0 c m = Some (snd (limbs g xs ys c n), upd m r (fst (limbs g xs ys c n)))"
  using assms limb_loop [of m a n xs b ys r n g c] by (simp add: operands_def)

lemma operands_length: "operands m r a xs b ys n \<Longrightarrow> length xs = n \<and> length ys = n"
  by (auto simp: operands_def dest: words_at_room)

lemma bn_add_words:
  assumes "operands m r a xs b ys n"
  shows "bn_add_words m r a b n = Some (word_of_nat ((wval xs + wval ys) div 2 ^ (64 * n)), upd m r (wlist n (wval xs + wval ys)))"
proof -
  define g :: "u64 \<Rightarrow> u64 \<Rightarrow> u128 \<Rightarrow> u64 \<times> u128" where "g = (\<lambda>x y ll. let ll = ll + (ucast x + ucast y) in (ucast ll, drop_bit 64 ll))"
  have st: "add_step r a b = limb_step g r a b" by (auto simp: add_step_def limb_step_def g_def Let_def fun_eq_iff)
  have len: "n \<le> length xs" "n \<le> length ys" "length xs = n" "length ys = n" using operands_length [OF assms] by simp_all
  have "unat (snd (limbs g xs ys 0 n)) \<le> 1 \<and> wval (fst (limbs g xs ys 0 n)) + 2 ^ (64 * n) * unat (snd (limbs g xs ys 0 n)) =
      (\<Sum>i<n. 2 ^ (64 * i) * (unat (xs ! i) + unat (ys ! i))) + unat (0 :: u128)"
  proof (rule limbs_sum [where ok = "\<lambda>c. unat c \<le> 1", OF _ _ len(1,2)])
    fix x y :: u64 and c :: u128
    assume c: "unat c \<le> 1"
    have lt: "unat x + unat y + unat c < 2 ^ 128" using c unat_u64_less [of x] unat_u64_less [of y] by simp
    have "c + (ucast x + ucast y) = word_of_nat (unat x + unat y + unat c)"
      by (simp add: word_unat_eq_iff unat_word_ariths unat_double unat_of_nat ac_simps)
    then have t: "unat (c + (ucast x + ucast y)) = unat x + unat y + unat c" using lt by (simp add: unat_of_nat del: of_nat_add)
    have "unat (ucast (c + (ucast x + ucast y)) :: u64) = (unat x + unat y + unat c) mod 2 ^ 64"
      using unat_Lw [of "c + (ucast x + ucast y)"] t by (simp add: Lw_def)
    moreover have "(unat x + unat y + unat c) div 2 ^ 64 \<le> 1"
      using c unat_u64_less [of x] unat_u64_less [of y] by simp
    ultimately show "case g x y c of (w, c') \<Rightarrow> unat w + 2 ^ 64 * unat c' = unat x + unat y + unat c \<and> unat c' \<le> 1"
      by (simp add: g_def Let_def unat_drop t)
  qed simp
  then have v: "unat (snd (limbs g xs ys 0 n)) \<le> 1" "wval (fst (limbs g xs ys 0 n)) + 2 ^ (64 * n) * unat (snd (limbs g xs ys 0 n)) = wval xs + wval ys"
    using sum_limbs [of n xs] sum_limbs [of n ys] len by (simp_all add: distrib_left sum.distrib)
  have c: "(ucast (snd (limbs g xs ys 0 n)) :: u64) = word_of_nat ((wval xs + wval ys) div 2 ^ (64 * n))"
    using limbs_wlist(2) [OF length_limbs v(2)] v(1) unat_Lw [of "snd (limbs g xs ys 0 n)"] by (simp add: word_unat_eq_iff Lw_def)
  show ?thesis
  proof (cases "n = 0")
    case True
    then show ?thesis using len by (simp add: bn_add_words_def)
  next
    case False
    then show ?thesis using limbs_wlist(1) [OF length_limbs v(2)] c
      by (simp add: bn_add_words_def unrolled_steps st operands_loop [OF assms])
  qed
qed

lemma bn_sub_words:
  assumes "operands m r a xs b ys n"
  shows "bn_sub_words m r a b n = Some (of_bool (wval xs < wval ys), upd m r (wlist n (wval xs + 2 ^ (64 * n) - wval ys)))"
proof -
  define g :: "u64 \<Rightarrow> u64 \<Rightarrow> bool \<Rightarrow> u64 \<times> bool" where "g = (\<lambda>x y c. (x - y - of_bool c, if x \<noteq> y then x < y else c))"
  have st: "sub_step r a b = limb_step g r a b" by (auto simp: sub_step_def limb_step_def g_def Let_def fun_eq_iff)
  have len: "length xs = n" "length ys = n" using operands_length [OF assms] by simp_all
  have one: "unat (x - y - of_bool c) + unat y + of_bool c = unat x + 2 ^ 64 * of_bool (if x \<noteq> y then x < y else c)" for x y :: u64 and c
  proof (cases c)
    case True
    have "unat (x - y - 1) + unat y + 1 = unat x + 2 ^ 64 * of_bool (x \<le> y)"
      using unat_u64_less [of x] unat_u64_less [of y] by (auto simp: word_le_nat_alt unat_sub_if')
    then show ?thesis using True by (auto simp: le_less)
  next
    case False
    then show ?thesis using unat_u64_less [of x] unat_u64_less [of y] by (auto simp: word_less_nat_alt unat_sub_if')
  qed
  have "k \<le> n \<Longrightarrow> wval (fst (limbs g xs ys False k)) + wval (take k ys) = wval (take k xs) + 2 ^ (64 * k) * of_bool (snd (limbs g xs ys False k))" for k
  proof (induction k)
    case (Suc k)
    obtain ws c where l: "limbs g xs ys False k = (ws, c)" by (cases "limbs g xs ys False k")
    obtain w c' where wc: "g (xs ! k) (ys ! k) c = (w, c')" by (cases "g (xs ! k) (ys ! k) c")
    then have "unat w + unat (ys ! k) + of_bool c = unat (xs ! k) + 2 ^ 64 * of_bool c'" using one [of "xs ! k" "ys ! k" c] by (simp only: g_def prod.inject)
    then have "2 ^ (64 * k) * (unat w + unat (ys ! k) + of_bool c) = 2 ^ (64 * k) * (unat (xs ! k) + 2 ^ 64 * of_bool c')" by (simp only:)
    moreover have "length ws = k" using length_limbs [of g xs ys False k] l by simp
    moreover have "limbs g xs ys False (Suc k) = (ws @ [w], c')" using l wc by simp
    ultimately show ?case using Suc len l by (simp add: wval_take_Suc power_add distrib_left)
  qed simp
  from this [of n] len have v: "wval (fst (limbs g xs ys False n)) + wval ys = wval xs + 2 ^ (64 * n) * of_bool (snd (limbs g xs ys False n))" by simp
  have lt: "wval (fst (limbs g xs ys False n)) < 2 ^ (64 * n)" "wval xs < 2 ^ (64 * n)" "wval ys < 2 ^ (64 * n)"
    using wval_less [of "fst (limbs g xs ys False n)"] wval_less [of xs] wval_less [of ys] len by simp_all
  have c: "snd (limbs g xs ys False n) \<longleftrightarrow> wval xs < wval ys"
    using v lt by (cases "snd (limbs g xs ys False n)") simp_all
  have ws: "fst (limbs g xs ys False n) = wlist n (wval xs + 2 ^ (64 * n) - wval ys)"
  proof (rule wlist_eqI)
    show "wval (fst (limbs g xs ys False n)) = (wval xs + 2 ^ (64 * n) - wval ys) mod 2 ^ (64 * n)"
    proof (cases "wval xs < wval ys")
      case True
      then have "wval (fst (limbs g xs ys False n)) = wval xs + 2 ^ (64 * n) - wval ys" using v c by simp
      then show ?thesis using lt(1) by simp
    next
      case False
      then have "wval xs + 2 ^ (64 * n) - wval ys = wval (fst (limbs g xs ys False n)) + 2 ^ (64 * n)" using v c by simp
      then show ?thesis using lt(1) by simp
    qed
  qed simp
  show ?thesis
  proof (cases "n = 0")
    case True
    then show ?thesis using len by (simp add: bn_sub_words_def)
  next
    case False
    then show ?thesis using c ws by (simp add: bn_sub_words_def unrolled_steps st operands_loop [OF assms])
  qed
qed

lemma bn_mul_add_words:
  assumes "operands m rp ap xs rp ys n"
  shows "bn_mul_add_words m rp ap n w = Some (word_of_nat ((wval ys + unat w * wval xs) div 2 ^ (64 * n)), upd m rp (wlist n (wval ys + unat w * wval xs)))"
proof -
  define g :: "u64 \<Rightarrow> u64 \<Rightarrow> u64 \<Rightarrow> u64 \<times> u64" where "g = (\<lambda>x y c. let t = ucast w * ucast x + ucast y + (ucast c :: u128) in (Lw t, Hw t))"
  have st: "mul_add rp ap w = limb_step g rp ap rp" by (auto simp: mul_add_def limb_step_def g_def Let_def fun_eq_iff)
  have len: "n \<le> length xs" "n \<le> length ys" "length xs = n" "length ys = n" using operands_length [OF assms] by simp_all
  have "wval (fst (limbs g xs ys 0 n)) + 2 ^ (64 * n) * unat (snd (limbs g xs ys 0 n)) =
      (\<Sum>i<n. 2 ^ (64 * i) * (unat w * unat (xs ! i) + unat (ys ! i))) + unat (0 :: u64)"
  proof (rule conjunct2, rule limbs_sum [where ok = "\<lambda>_. True", OF _ _ len(1,2)])
    show "case g x y c of (v, c') \<Rightarrow> unat v + 2 ^ 64 * unat c' = unat w * unat x + unat y + unat c \<and> True" for x y c
      by (simp only: g_def Let_def prod.case halves mul_double)
  qed simp
  then have v: "wval (fst (limbs g xs ys 0 n)) + 2 ^ (64 * n) * unat (snd (limbs g xs ys 0 n)) = wval ys + unat w * wval xs"
    using sum_limbs [of n xs] sum_limbs [of n ys] len by (simp add: distrib_left sum.distrib sum_distrib_left [symmetric] mult.left_commute)
  have "snd (limbs g xs ys 0 n) = word_of_nat ((wval ys + unat w * wval xs) div 2 ^ (64 * n))"
    using limbs_wlist(2) [OF length_limbs v] by (intro word_of_unat)
  then show ?thesis using limbs_wlist(1) [OF length_limbs v] len
    by (cases "n = 0") (simp_all add: bn_mul_add_words_def unrolled_steps st operands_loop [OF assms])
qed

lemma bn_mul_words:
  assumes "operands m rp ap xs ap xs n"
  shows "bn_mul_words m rp ap n w = Some (word_of_nat (unat w * wval xs div 2 ^ (64 * n)), upd m rp (wlist n (unat w * wval xs)))"
proof -
  define g :: "u64 \<Rightarrow> u64 \<Rightarrow> u64 \<Rightarrow> u64 \<times> u64" where "g = (\<lambda>x y c. let t = ucast w * ucast x + (ucast c :: u128) in (Lw t, Hw t))"
  have st: "mul_step rp ap w = limb_step g rp ap ap" 
  proof (intro ext)
    fix i c m
    show "mul_step rp ap w i c m = limb_step g rp ap ap i c m" by (cases "rd m ap i") (simp_all add: mul_step_def limb_step_def g_def Let_def)
  qed
  have len: "n \<le> length xs" "length xs = n" using operands_length [OF assms] by simp_all
  have "wval (fst (limbs g xs xs 0 n)) + 2 ^ (64 * n) * unat (snd (limbs g xs xs 0 n)) =
      (\<Sum>i<n. 2 ^ (64 * i) * (unat w * unat (xs ! i))) + unat (0 :: u64)"
  proof (rule conjunct2, rule limbs_sum [where ok = "\<lambda>_. True" and f = "\<lambda>x y. unat w * unat x", OF _ _ len(1,1)])
    show "case g x y c of (v, c') \<Rightarrow> unat v + 2 ^ 64 * unat c' = unat w * unat x + unat c \<and> True" for x y c
      using halves [of "ucast w * ucast x + ucast c"] mul_double [of w x 0 c] by (simp add: g_def Let_def)
  qed simp
  then have v: "wval (fst (limbs g xs xs 0 n)) + 2 ^ (64 * n) * unat (snd (limbs g xs xs 0 n)) = unat w * wval xs"
    using sum_limbs [of n xs] len by (simp add: sum_distrib_left [symmetric] mult.left_commute)
  have "snd (limbs g xs xs 0 n) = word_of_nat (unat w * wval xs div 2 ^ (64 * n))"
    using limbs_wlist(2) [OF length_limbs v] by (intro word_of_unat)
  then show ?thesis using limbs_wlist(1) [OF length_limbs v] len
    by (cases "n = 0") (simp_all add: bn_mul_words_def unrolled_steps st operands_loop [OF assms])
qed

lemma bn_select_words:
  assumes "operands m r a xs b ys n"
  shows "bn_select_words m r (if c then - 1 else 0) a b n = Some (upd m r (if c then xs else ys))"
proof -
  define g :: "u64 \<Rightarrow> u64 \<Rightarrow> unit \<Rightarrow> u64 \<times> unit" where "g = (\<lambda>x y u. (if c then x else y, ()))"
  have st: "select_step r (if c then - 1 else 0) a b = limb_step g r a b"
    by (auto simp: select_step_def limb_step_def g_def select_w fun_eq_iff)
  have "k \<le> n \<Longrightarrow> fst (limbs g xs ys () k) = take k (if c then xs else ys)" for k
    using operands_length [OF assms] by (induction k) (auto simp: g_def Let_def case_prod_beta take_Suc_conv_app_nth)
  then show ?thesis using operands_length [OF assms] by (simp add: bn_select_words_def st operands_loop [OF assms])
qed


section \<open>Loops from an index on\<close>

lemma rd_padd: "rd m p (i + j) = rd m (padd p i) j" "wr m p (i + j) w = wr m (padd p i) j w"
  by (simp_all add: rd_def wr_def add.assoc)

lemma steps_from: "steps step n (i + k) c m = steps (\<lambda>j. step (i + j)) n k c m"
proof (induction n arbitrary: k c m)
  case (Suc n)
  show ?case using Suc.IH [of "Suc k"] by (cases "step (i + k) c m") simp_all
qed simp

lemma limb_loop_from:
  assumes "operands m (padd r i) (padd a i) xs (padd b i) ys n"
  shows "steps (limb_step g r a b) n i c m = Some (snd (limbs g xs ys c n), upd m (padd r i) (fst (limbs g xs ys c n)))"
proof -
  have "(\<lambda>j. limb_step g r a b (i + j)) = limb_step g (padd r i) (padd a i) (padd b i)"
    by (auto simp: limb_step_def rd_padd fun_eq_iff)
  then show ?thesis using steps_from [of "limb_step g r a b" n i 0 c m] operands_loop [OF assms] by simp
qed

lemma wlist_append: "wlist (n + k) v = wlist n v @ wlist k (v div 2 ^ (64 * n))"
proof (induction n arbitrary: v)
  case (Suc n)
  show ?case using Suc by (simp add: div_mult2_eq [symmetric] power_add)
qed simp

lemma wlist_mod: "wlist n (v mod 2 ^ (64 * n)) = wlist n v"
  by (rule wval_inj) (simp_all add: wval_wlist)

lemma wlist_1: "wlist (Suc 0) v = [word_of_nat v]"
  by simp

text \<open>A sum of two numbers, the low words first.\<close>

lemma sum_split: "wlist (n + k) (x + 2 ^ (64 * n) * y) = wlist n x @ wlist k (y + x div 2 ^ (64 * n))"
proof -
  have "(x + 2 ^ (64 * n) * y) div 2 ^ (64 * n) = y + x div 2 ^ (64 * n)" by simp
  moreover have "wlist n (x + 2 ^ (64 * n) * y) = wlist n x" using wlist_mod [of n "x + 2 ^ (64 * n) * y"] wlist_mod [of n x] by simp
  ultimately show ?thesis by (simp add: wlist_append)
qed

lemma undisturbed_padd: "undisturbed r p (n + k) \<Longrightarrow> undisturbed (padd r n) (padd p n) k"
  by (auto simp: undisturbed_def clear_of_def)

lemma undisturbed_mono: "undisturbed r p n \<Longrightarrow> k \<le> n \<Longrightarrow> undisturbed r p k"
  by (auto simp: undisturbed_def clear_of_def)

lemma room_padd: "room m p (n + k) \<Longrightarrow> room m (padd p n) k"
  by (auto simp: room_def)

lemma wr_upd_padd: "room m r (Suc n) \<Longrightarrow> wr m r n w = Some (upd m (padd r n) [w])"
  by (auto simp: room_def wr_def upd_def mem_write_def upd_conv_take_nth_drop)

text \<open>Words of \<open>p\<close> behind what the loop has written.\<close>

lemma words_at_behind:
  assumes "words_at m p (n + k) = Some xs" "undisturbed r p (n + k)" "length ws = n" "room m r n"
  shows "words_at (upd m r ws) (padd p n) k = Some (drop n xs)"
proof -
  have "words_at m (padd p n) k = Some (drop n xs)" using assms(1) by (simp add: words_at_append)
  moreover have "clear_of r (length ws) (padd p n) k" using assms(2,3) by (auto simp: undisturbed_def clear_of_def)
  ultimately show ?thesis using assms(3,4) by (simp add: words_at_upd_other)
qed

end
