(* ===== verification/BnCore.thy ===== *)
theory BnCore
  imports BnWords
begin

text \<open>
  \<open>BIGNUM\<close>s (\<open>crypto/fipsmodule/bn/bn.c\<close>): their representation and storage.  The state has the arrays of words and the
  \<open>BIGNUM\<close>s by address; NULL is the array 0, which has no words.  The caller's pointers may be the same \<open>BIGNUM\<close>.
\<close>

section \<open>The state\<close>

record bignum =
  limb_array :: nat
  width :: nat
  dmax :: nat
  neg :: bool
  static_data :: bool

record bn_state =
  arrays :: bn_mem
  nums :: "nat \<Rightarrow> bignum option"

text \<open>\<open>malloc\<close> of an array: where it places the words, and what these contain.\<close>

type_synonym bn_alloc = "bn_mem \<Rightarrow> nat \<Rightarrow> (nat \<times> u64 list) option"

definition grants_arrays :: "bn_alloc \<Rightarrow> bool" where
  "grants_arrays alloc \<longleftrightarrow> (\<forall>m n a ws. alloc m n = Some (a, ws) \<longrightarrow> a \<noteq> 0 \<and> m a = None \<and> length ws = n)"

text \<open>The words in use, and updates of a \<open>BIGNUM\<close>'s fields.\<close>

definition limbs_of :: "bn_state \<Rightarrow> nat \<Rightarrow> u64 list option" where
  "limbs_of s x = do { bn \<leftarrow> nums s x; words_at (arrays s) (limb_array bn, 0) (width bn) }"

definition set_num :: "bn_state \<Rightarrow> nat \<Rightarrow> (bignum \<Rightarrow> bignum) \<Rightarrow> bn_state option" where
  "set_num s x f = do { bn \<leftarrow> nums s x; Some (s\<lparr>nums := (nums s)(x \<mapsto> f bn)\<rparr>) }"

text \<open>The array of a \<open>BIGNUM\<close>.\<close>

definition d_of :: "bn_state \<Rightarrow> nat \<Rightarrow> bn_ptr option" where
  "d_of s x = map_option (\<lambda>bn. (limb_array bn, 0)) (nums s x)"

section \<open>Storage\<close>

definition bn_wexpand :: "bn_alloc \<Rightarrow> bn_state \<Rightarrow> nat \<Rightarrow> nat \<Rightarrow> (bool \<times> bn_state) option" where
  "bn_wexpand alloc s x words = do {
     bn \<leftarrow> nums s x;
     if words \<le> dmax bn then Some (True, s)
     else if words > INT_MAX div (4 * 64) then Some (False, s)
     else if static_data bn then Some (False, s)
     else case alloc (arrays s) words of
       None \<Rightarrow> Some (False, s)
     | Some (a, fresh) \<Rightarrow> do {
         ws \<leftarrow> limbs_of s x;
         m \<leftarrow> put ((arrays s)(a \<mapsto> fresh)) (a, 0) ws;
         let m = (if limb_array bn = 0 then m else m(limb_array bn := None));
         Some (True, s\<lparr>arrays := m, nums := (nums s)(x \<mapsto> bn\<lparr>limb_array := a, dmax := words\<rparr>)\<rparr>)
       }
   }"

definition bn_expand :: "bn_alloc \<Rightarrow> bn_state \<Rightarrow> nat \<Rightarrow> nat \<Rightarrow> (bool \<times> bn_state) option" where
  "bn_expand alloc s x bits =
     (if szadd bits 63 < bits then Some (False, s) else bn_wexpand alloc s x (szadd bits 63 div 64))"

text \<open>Code that goes on when storage has been made.\<close>

definition on_room :: "(bool \<times> bn_state) option \<Rightarrow> (bn_state \<Rightarrow> (bool \<times> bn_state) option) \<Rightarrow> (bool \<times> bn_state) option" where
  "on_room r f = do { (ok, s) \<leftarrow> r; if ok then f s else Some (False, s) }"

definition BN_copy :: "bn_alloc \<Rightarrow> bn_state \<Rightarrow> nat \<Rightarrow> nat \<Rightarrow> (bool \<times> bn_state) option" where
  "BN_copy alloc s dest src =
     (if src = dest then Some (True, s)
      else do {
        src_bn \<leftarrow> nums s src;
        on_room (bn_wexpand alloc s dest (width src_bn)) (\<lambda>s. do {
          ws \<leftarrow> limbs_of s src;
          d \<leftarrow> d_of s dest;
          m \<leftarrow> put (arrays s) d ws;
          s \<leftarrow> set_num (s\<lparr>arrays := m\<rparr>) dest (\<lambda>bn. bn\<lparr>width := width src_bn, neg := neg src_bn\<rparr>);
          Some (True, s)
        })
      })"

definition BN_clear :: "bn_state \<Rightarrow> nat \<Rightarrow> bn_state option" where
  "BN_clear s x = do {
     bn \<leftarrow> nums s x;
     m \<leftarrow> (if limb_array bn \<noteq> 0 then put (arrays s) (limb_array bn, 0) (replicate (dmax bn) 0) else Some (arrays s));
     set_num (s\<lparr>arrays := m\<rparr>) x (\<lambda>bn. bn\<lparr>width := 0, neg := False\<rparr>)
   }"

definition BN_zero :: "bn_state \<Rightarrow> nat \<Rightarrow> bn_state option" where
  "BN_zero s x = set_num s x (\<lambda>bn. bn\<lparr>width := 0, neg := False\<rparr>)"

definition bn_set_words :: "bn_alloc \<Rightarrow> bn_state \<Rightarrow> nat \<Rightarrow> u64 list \<Rightarrow> (bool \<times> bn_state) option" where
  "bn_set_words alloc s x words = on_room (bn_wexpand alloc s x (length words)) (\<lambda>s. do {
     d \<leftarrow> d_of s x;
     m \<leftarrow> put (arrays s) d words;
     s \<leftarrow> set_num (s\<lparr>arrays := m\<rparr>) x (\<lambda>bn. bn\<lparr>width := length words, neg := False\<rparr>);
     Some (True, s)
   })"

definition BN_set_word :: "bn_alloc \<Rightarrow> bn_state \<Rightarrow> nat \<Rightarrow> u64 \<Rightarrow> (bool \<times> bn_state) option" where
  "BN_set_word alloc s x v =
     (if v = 0 then map_option (\<lambda>s. (True, s)) (BN_zero s x)
      else on_room (bn_wexpand alloc s x 1) (\<lambda>s. do {
        s \<leftarrow> set_num s x (\<lambda>bn. bn\<lparr>neg := False\<rparr>);
        d \<leftarrow> d_of s x;
        m \<leftarrow> wr (arrays s) d 0 v;
        s \<leftarrow> set_num (s\<lparr>arrays := m\<rparr>) x (\<lambda>bn. bn\<lparr>width := 1\<rparr>);
        Some (True, s)
      }))"

definition BN_one :: "bn_alloc \<Rightarrow> bn_state \<Rightarrow> nat \<Rightarrow> (bool \<times> bn_state) option" where
  "BN_one alloc s x = BN_set_word alloc s x 1"

definition BN_set_u64 :: "bn_alloc \<Rightarrow> bn_state \<Rightarrow> nat \<Rightarrow> u64 \<Rightarrow> (bool \<times> bn_state) option" where
  "BN_set_u64 alloc s x v = BN_set_word alloc s x v"

section \<open>Widths\<close>

text \<open>Functions that only read a \<open>BIGNUM\<close> are given its words.\<close>

definition or_words :: "u64 list \<Rightarrow> u64" where
  "or_words ws = foldl (\<lambda>msk w. msk OR w) 0 ws"

definition bn_fits_in_words :: "u64 list \<Rightarrow> nat \<Rightarrow> bool" where
  "bn_fits_in_words ws num \<longleftrightarrow> or_words (drop num ws) = 0"

definition BN_is_zero :: "u64 list \<Rightarrow> bool" where
  "BN_is_zero ws \<longleftrightarrow> bn_fits_in_words ws 0"

fun minimal_width_loop :: "u64 list \<Rightarrow> nat \<Rightarrow> nat" where
  "minimal_width_loop ws ret = (if ret > 0 \<and> ws ! (ret - 1) = 0 then minimal_width_loop ws (ret - 1) else ret)"

declare minimal_width_loop.simps [simp del]

definition bn_minimal_width :: "u64 list \<Rightarrow> nat" where
  "bn_minimal_width ws = minimal_width_loop ws (length ws)"

definition bn_set_minimal_width :: "bn_state \<Rightarrow> nat \<Rightarrow> bn_state option" where
  "bn_set_minimal_width s x = do {
     ws \<leftarrow> limbs_of s x;
     set_num s x (\<lambda>bn. bn\<lparr>width := bn_minimal_width ws, neg := neg bn \<and> bn_minimal_width ws \<noteq> 0\<rparr>)
   }"

definition BN_set_negative :: "bn_state \<Rightarrow> nat \<Rightarrow> bool \<Rightarrow> bn_state option" where
  "BN_set_negative s x sign = do {
     ws \<leftarrow> limbs_of s x;
     set_num s x (\<lambda>bn. bn\<lparr>neg := sign \<and> \<not> BN_is_zero ws\<rparr>)
   }"

definition bn_resize_words :: "bn_alloc \<Rightarrow> bn_state \<Rightarrow> nat \<Rightarrow> nat \<Rightarrow> (bool \<times> bn_state) option" where
  "bn_resize_words alloc s x words = do {
     bn \<leftarrow> nums s x;
     if width bn \<le> words then on_room (bn_wexpand alloc s x words) (\<lambda>s. do {
       d \<leftarrow> d_of s x;
       m \<leftarrow> put (arrays s) (padd d (width bn)) (replicate (words - width bn) 0);
       s \<leftarrow> set_num (s\<lparr>arrays := m\<rparr>) x (\<lambda>bn. bn\<lparr>width := words\<rparr>);
       Some (True, s)
     })
     else do {
       ws \<leftarrow> limbs_of s x;
       if \<not> bn_fits_in_words ws words then Some (False, s)
       else map_option (\<lambda>s. (True, s)) (set_num s x (\<lambda>bn. bn\<lparr>width := words\<rparr>))
     }
   }"

text \<open>The words to be copied out, padded with zeroes.\<close>

definition bn_copy_words :: "nat \<Rightarrow> bool \<Rightarrow> u64 list \<Rightarrow> u64 list option" where
  "bn_copy_words num negative ws =
     (if negative then None
      else if length ws > num \<and> \<not> bn_fits_in_words ws num then None
      else Some (take num ws @ replicate (num - length ws) 0))"

section \<open>Bits\<close>

definition bits_step :: "nat \<Rightarrow> nat \<times> u64 \<Rightarrow> nat \<times> u64" where
  "bits_step k = (\<lambda>(bits, l).
     let x = drop_bit k l; msk = 0 - x; msk = 0 - drop_bit 63 msk
     in (bits + unat (word_of_nat k AND msk), l XOR ((x XOR l) AND msk)))"

definition BN_num_bits_word :: "u64 \<Rightarrow> nat" where
  "BN_num_bits_word l = fst (bits_step 1 (bits_step 2 (bits_step 4 (bits_step 8 (bits_step 16 (bits_step 32 (of_bool (l \<noteq> 0), l)))))))"

definition BN_num_bits :: "u64 list \<Rightarrow> nat" where
  "BN_num_bits ws =
     (let w = bn_minimal_width ws
      in if w = 0 then 0 else (w - 1) * 64 + BN_num_bits_word (ws ! (w - 1)))"

definition BN_num_bytes :: "u64 list \<Rightarrow> nat" where
  "BN_num_bytes ws = (BN_num_bits ws + 7) div 8"

end
