(* ===== verification/BnLimbs.thy ===== *)
theory BnLimbs
  imports BnCore
begin

text \<open>
  What a \<open>BIGNUM\<close> means, the invariant of the state, and the effect of storing words.
\<close>

section \<open>Meaning and invariant\<close>

definition bn_mag :: "bn_state \<Rightarrow> nat \<Rightarrow> nat" where
  "bn_mag s x = (case limbs_of s x of Some ws \<Rightarrow> wval ws | None \<Rightarrow> 0)"

definition bn_sign :: "bn_state \<Rightarrow> nat \<Rightarrow> bool" where
  "bn_sign s x = (case nums s x of Some bn \<Rightarrow> neg bn | None \<Rightarrow> False)"

definition bn_int :: "bn_state \<Rightarrow> nat \<Rightarrow> int" where
  "bn_int s x = (if bn_sign s x then - int (bn_mag s x) else int (bn_mag s x))"

text \<open>Every \<open>BIGNUM\<close> has an array of its own with \<open>dmax\<close> words, of which \<open>width\<close> are in use.\<close>

definition bn_inv :: "bn_state \<Rightarrow> bool" where
  "bn_inv s \<longleftrightarrow> arrays s 0 = Some [] \<and>
     (\<forall>x bn. nums s x = Some bn \<longrightarrow> (\<exists>ws. arrays s (limb_array bn) = Some ws \<and> length ws = dmax bn) \<and> width bn \<le> dmax bn) \<and>
     (\<forall>x y bx by'. nums s x = Some bx \<longrightarrow> nums s y = Some by' \<longrightarrow> x \<noteq> y \<longrightarrow> limb_array bx \<noteq> limb_array by' \<or> limb_array bx = 0)"

text \<open>Only \<open>r\<close> has changed.\<close>

definition only_changes :: "nat \<Rightarrow> bn_state \<Rightarrow> bn_state \<Rightarrow> bool" where
  "only_changes r s s' \<longleftrightarrow> (\<forall>x. x \<noteq> r \<longrightarrow> nums s' x = nums s x \<and> limbs_of s' x = limbs_of s x) \<and> (nums s' r = None \<longleftrightarrow> nums s r = None)"

lemma only_changes_refl [simp]: "only_changes r s s"
  by (simp add: only_changes_def)

lemma only_changes_trans: "only_changes r s s' \<Longrightarrow> only_changes r s' s'' \<Longrightarrow> only_changes r s s''"
  by (simp add: only_changes_def)

lemma only_changes_int: "only_changes r s s' \<Longrightarrow> x \<noteq> r \<Longrightarrow> bn_int s' x = bn_int s x \<and> bn_mag s' x = bn_mag s x"
  by (simp add: only_changes_def bn_int_def bn_sign_def bn_mag_def)

text \<open>Facts about one \<open>BIGNUM\<close> of a good state.\<close>

lemma inv_array:
  assumes "bn_inv s" "nums s x = Some bn"
  obtains ws where "arrays s (limb_array bn) = Some ws" "length ws = dmax bn"
  using assms unfolding bn_inv_def by blast

lemma inv_limbs:
  assumes "bn_inv s" "nums s x = Some bn"
  obtains ws where "limbs_of s x = Some ws" "length ws = width bn" "room (arrays s) (limb_array bn, 0) (dmax bn)" "width bn \<le> dmax bn"
    "words_at (arrays s) (limb_array bn, 0) (width bn) = Some ws"
  using assms by (fastforce simp: bn_inv_def limbs_of_def words_at_def room_def)

lemma mag_limbs: "limbs_of s x = Some ws \<Longrightarrow> bn_mag s x = wval ws"
  by (simp add: bn_mag_def)

lemma limbs_words: "nums s x = Some bn \<Longrightarrow> limbs_of s x = words_at (arrays s) (limb_array bn, 0) (width bn)"
  by (simp add: limbs_of_def)

text \<open>Words stored at the start of \<open>r\<close>'s array, with a new width and sign.\<close>

definition stored :: "bn_state \<Rightarrow> nat \<Rightarrow> u64 list \<Rightarrow> bool \<Rightarrow> bn_state" where
  "stored s r ws sg = (case nums s r of None \<Rightarrow> s
     | Some bn \<Rightarrow> s\<lparr>arrays := upd (arrays s) (limb_array bn, 0) ws, nums := (nums s)(r \<mapsto> bn\<lparr>width := length ws, neg := sg\<rparr>)\<rparr>)"

lemma stored_simps:
  assumes "nums s r = Some bn"
  shows "nums (stored s r ws sg) = (nums s)(r \<mapsto> bn\<lparr>width := length ws, neg := sg\<rparr>)"
    "arrays (stored s r ws sg) = upd (arrays s) (limb_array bn, 0) ws"
  using assms by (simp_all add: stored_def)

text \<open>What is done to the words of \<open>r\<close>'s array leaves the others alone.\<close>

lemma inv_arrays:
  assumes "bn_inv s" "nums s r = Some bn" "snd p + length ws \<le> dmax bn" "fst p = limb_array bn"
  shows "bn_inv (s\<lparr>arrays := upd (arrays s) p ws\<rparr>)" and "x \<noteq> r \<Longrightarrow> limbs_of (s\<lparr>arrays := upd (arrays s) p ws\<rparr>) x = limbs_of s x"
proof -
  obtain old where old: "arrays s (limb_array bn) = Some old" "length old = dmax bn" using inv_array [OF assms(1,2)] .
  have other: "upd (arrays s) p ws (limb_array by') = arrays s (limb_array by')" if "nums s y = Some by'" "y \<noteq> r" for y by'
  proof (cases "limb_array by' = limb_array bn")
    case True
    then have "limb_array bn = 0" using assms(1,2) that by (auto simp: bn_inv_def)
    then have "old = []" using assms(1) old by (simp add: bn_inv_def)
    then have "ws = []" using old assms(3) by simp
    then show ?thesis by simp
  next
    case False
    then show ?thesis using assms(4) by (simp add: upd_def split: option.split)
  qed
  have same: "upd (arrays s) p ws (limb_array bn) = Some (mem_write old (snd p) ws)" using old assms(4) by (simp add: upd_def)
  have len: "length (mem_write old (snd p) ws) = dmax bn" using old assms(3) by (simp add: mem_simps)
  have zero: "upd (arrays s) p ws 0 = Some []"
  proof (cases "limb_array bn = 0")
    case True
    then have "old = []" using assms(1) old by (simp add: bn_inv_def)
    then have "ws = []" using old assms(3) by simp
    then show ?thesis using assms(1) by (simp add: bn_inv_def)
  next
    case False
    then show ?thesis using assms(1,4) by (simp add: bn_inv_def upd_def split: option.split)
  qed
  have each: "\<exists>ws'. upd (arrays s) p ws (limb_array by') = Some ws' \<and> length ws' = dmax by'" if "nums s y = Some by'" for y by'
  proof (cases "y = r")
    case True
    then show ?thesis using that assms(2) same len by simp
  next
    case False
    then show ?thesis using other [OF that] assms(1) that by (simp add: bn_inv_def)
  qed
  show "bn_inv (s\<lparr>arrays := upd (arrays s) p ws\<rparr>)"
    using assms(1) each zero by (simp add: bn_inv_def)
  show "limbs_of (s\<lparr>arrays := upd (arrays s) p ws\<rparr>) x = limbs_of s x" if "x \<noteq> r"
    using that other by (cases "nums s x") (simp_all add: limbs_of_def words_at_def)
qed

lemma inv_fields:
  assumes "bn_inv s" "nums s r = Some bn" "width bn' \<le> dmax bn" "limb_array bn' = limb_array bn" "dmax bn' = dmax bn"
  shows "bn_inv (s\<lparr>nums := (nums s)(r \<mapsto> bn')\<rparr>)"
  using assms unfolding bn_inv_def by (auto split: if_splits)

lemma stored_spec:
  assumes "bn_inv s" "nums s r = Some bn" "length ws \<le> dmax bn"
  shows "bn_inv (stored s r ws sg)" "only_changes r s (stored s r ws sg)" "limbs_of (stored s r ws sg) r = Some ws"
proof -
  let ?s = "s\<lparr>arrays := upd (arrays s) (limb_array bn, 0) ws\<rparr>"
  have inv: "bn_inv ?s" using inv_arrays(1) [OF assms(1,2)] assms(3) by simp
  have eq: "stored s r ws sg = ?s\<lparr>nums := (nums ?s)(r \<mapsto> bn\<lparr>width := length ws, neg := sg\<rparr>)\<rparr>" using assms(2) by (simp add: stored_def)
  show "bn_inv (stored s r ws sg)" unfolding eq using assms(2,3) inv_fields [OF inv, of r bn "bn\<lparr>width := length ws, neg := sg\<rparr>"] by simp
  have "limbs_of (stored s r ws sg) x = limbs_of s x" if "x \<noteq> r" for x
    using inv_arrays(2) [OF assms(1,2), of "(limb_array bn, 0)" ws x] assms(3) that by (simp add: eq limbs_of_def)
  then show "only_changes r s (stored s r ws sg)" using assms(2) by (simp add: only_changes_def stored_simps)
  have "room (arrays s) (limb_array bn, 0) (length ws)"
    using inv_limbs [OF assms(1,2)] room_0_mono assms(3) by metis
  then show "limbs_of (stored s r ws sg) r = Some ws" using assms(2) by (simp add: limbs_of_def stored_simps at_simps)
qed

lemma stored_int: "bn_inv s \<Longrightarrow> nums s r = Some bn \<Longrightarrow> length ws \<le> dmax bn \<Longrightarrow>
    bn_int (stored s r ws sg) r = (if sg then - int (wval ws) else int (wval ws)) \<and> bn_mag (stored s r ws sg) r = wval ws"
  using stored_spec(3) [of s r bn ws] by (cases sg) (simp_all add: bn_int_def bn_sign_def bn_mag_def stored_simps)

text \<open>Growing the array.\<close>

definition can_expand :: "bn_alloc \<Rightarrow> bn_state \<Rightarrow> nat \<Rightarrow> nat \<Rightarrow> bool" where
  "can_expand alloc s x n \<longleftrightarrow> (\<exists>bn. nums s x = Some bn \<and>
     (n \<le> dmax bn \<or> n \<le> INT_MAX div (4 * 64) \<and> \<not> static_data bn \<and> alloc (arrays s) n \<noteq> None))"

lemma wexpand:
  assumes "bn_inv s" "grants_arrays alloc" "nums s x = Some bn"
  obtains ok s' bn' where "bn_wexpand alloc s x n = Some (ok, s')" "bn_inv s'" "only_changes x s s'" "limbs_of s' x = limbs_of s x"
    "nums s' x = Some bn'" "width bn' = width bn" "neg bn' = neg bn" "ok \<Longrightarrow> n \<le> dmax bn'" "ok \<longleftrightarrow> can_expand alloc s x n"
proof -
  obtain ws where ws: "limbs_of s x = Some ws" "length ws = width bn" "width bn \<le> dmax bn" using inv_limbs [OF assms(1,3)] by metis
  consider (enough) "n \<le> dmax bn" | (fail) "bn_wexpand alloc s x n = Some (False, s)" "\<not> can_expand alloc s x n"
    | (grow) a fresh where "dmax bn < n" "alloc (arrays s) n = Some (a, fresh)" "\<not> n > INT_MAX div (4 * 64)" "\<not> static_data bn"
  proof (cases "can_expand alloc s x n")
    case True
    then show ?thesis using that(1,3) assms(3) by (cases "n \<le> dmax bn") (auto simp: can_expand_def not_le not_less)
  next
    case False
    then have "bn_wexpand alloc s x n = Some (False, s)" using assms(3) by (auto simp: bn_wexpand_def can_expand_def not_less split: option.split)
    then show ?thesis using that(2) False by blast
  qed
  then show ?thesis
  proof cases
    case enough
    then show ?thesis using that [of True s bn] assms by (simp add: bn_wexpand_def can_expand_def)
  next
    case fail
    then show ?thesis using that [of False s bn] assms by simp
  next
    case grow
    have a: "a \<noteq> 0" "arrays s a = None" "length fresh = n" using assms(2) grow(2) by (auto simp: grants_arrays_def)
    then have ne: "limb_array by' \<noteq> a" if "nums s y = Some by'" for y by'
      using inv_array [OF assms(1) that] a(2) by (metis option.distinct(1))
    let ?bn = "bn\<lparr>limb_array := a, dmax := n\<rparr>"
    let ?m = "if limb_array bn = 0 then (arrays s)(a \<mapsto> mem_write fresh 0 ws) else (arrays s)(a \<mapsto> mem_write fresh 0 ws, limb_array bn := None)"
    let ?s = "s\<lparr>arrays := ?m, nums := (nums s)(x \<mapsto> ?bn)\<rparr>"
    have len: "length ws \<le> n" using ws grow(1) by simp
    have run: "bn_wexpand alloc s x n = Some (True, ?s)"
      using assms(3) grow ws(1) a len by (simp add: bn_wexpand_def put_def fun_upd_twist)
    have other: "?m (limb_array by') = arrays s (limb_array by')" if "nums s y = Some by'" "y \<noteq> x" for y by'
    proof -
      have "limb_array by' \<noteq> limb_array bn \<or> limb_array bn = 0" using assms(1,3) that unfolding bn_inv_def by metis
      then show ?thesis using ne [OF that(1)] by auto
    qed
    have na: "limb_array bn \<noteq> a" using ne [OF assms(3)] .
    have "bn_inv ?s"
      unfolding bn_inv_def
    proof (intro conjI allI impI)
      show "arrays ?s 0 = Some []" using assms(1) a by (simp add: bn_inv_def)
    next
      fix y by'
      assume y: "nums ?s y = Some by'"
      show "\<exists>ws'. arrays ?s (limb_array by') = Some ws' \<and> length ws' = dmax by'"
      proof (cases "y = x")
        case True
        then show ?thesis using y na a len by (auto simp: mem_simps)
      next
        case False
        then show ?thesis using y other [of y by'] assms(1) by (simp add: bn_inv_def)
      qed
      show "width by' \<le> dmax by'"
        using y assms(1) ws grow(1) by (cases "y = x") (auto simp: bn_inv_def)
    next
      fix y z b1 b2
      assume "nums ?s y = Some b1" "nums ?s z = Some b2" "y \<noteq> z"
      then show "limb_array b1 \<noteq> limb_array b2 \<or> limb_array b1 = 0"
        using assms(1) ne [of z b2] ne [of y b1] by (auto simp: bn_inv_def split: if_splits)
    qed
    moreover have "limbs_of ?s y = limbs_of s y" if "y \<noteq> x" for y
      using that other by (cases "nums s y") (simp_all add: limbs_of_def words_at_def)
    moreover have "limbs_of ?s x = limbs_of s x"
      using ws na a len by (simp add: limbs_of_def words_at_def mem_write_def)
    ultimately show ?thesis using that [of True ?s ?bn] run assms(3) grow by (simp add: only_changes_def can_expand_def)
  qed
qed

section \<open>Outcomes\<close>

text \<open>The operations that write to \<open>r\<close>: they return, keep the invariant and the other numbers, succeed when
  \<open>granted\<close>, and then have the effect \<open>Q\<close>.\<close>

definition outcome :: "nat \<Rightarrow> bn_state \<Rightarrow> (bool \<times> bn_state) option \<Rightarrow> bool \<Rightarrow> (bn_state \<Rightarrow> bool) \<Rightarrow> bool" where
  "outcome r s run granted Q \<longleftrightarrow> (\<exists>ok s'. run = Some (ok, s') \<and> bn_inv s' \<and> only_changes r s s' \<and> (granted \<longrightarrow> ok) \<and> (ok \<longrightarrow> Q s'))"

lemma outcomeI: "run = Some (ok, s') \<Longrightarrow> bn_inv s' \<Longrightarrow> only_changes r s s' \<Longrightarrow> (granted \<Longrightarrow> ok) \<Longrightarrow> (ok \<Longrightarrow> Q s') \<Longrightarrow> outcome r s run granted Q"
  by (auto simp: outcome_def)

lemma outcome_weaken: "outcome r s run granted Q \<Longrightarrow> (\<And>s'. bn_inv s' \<Longrightarrow> only_changes r s s' \<Longrightarrow> Q s' \<Longrightarrow> R s') \<Longrightarrow> outcome r s run granted R"
  unfolding outcome_def by blast

lemma outcome_less: "outcome r s run granted Q \<Longrightarrow> (granted' \<Longrightarrow> granted) \<Longrightarrow> outcome r s run granted' Q"
  unfolding outcome_def by blast

lemma outcome_room:
  assumes "outcome r s run granted P" and "\<And>s'. bn_inv s' \<Longrightarrow> only_changes r s s' \<Longrightarrow> P s' \<Longrightarrow> outcome r s' (f s') granted Q"
  shows "outcome r s (on_room run f) granted Q"
proof -
  obtain ok s' where run: "run = Some (ok, s')" "bn_inv s'" "only_changes r s s'" "granted \<longrightarrow> ok" "ok \<longrightarrow> P s'" using assms(1) by (auto simp: outcome_def)
  show ?thesis
  proof (cases ok)
    case True
    then show ?thesis using run assms(2) [of s'] by (auto simp: outcome_def on_room_def intro: only_changes_trans)
  next
    case False
    then show ?thesis using run by (auto simp: outcome_def on_room_def)
  qed
qed

text \<open>The array of \<open>x\<close> after the array of \<open>r\<close> has grown.\<close>

lemma outcome_expand_if:
  assumes "bn_inv s" "grants_arrays alloc" "nums s r = Some bn" "granted \<Longrightarrow> can_expand alloc s r n"
    and "\<And>s' bn'. bn_inv s' \<Longrightarrow> only_changes r s s' \<Longrightarrow> nums s' r = Some bn' \<Longrightarrow> width bn' = width bn \<Longrightarrow> neg bn' = neg bn \<Longrightarrow> n \<le> dmax bn' \<Longrightarrow>
      (\<And>x. limbs_of s' x = limbs_of s x) \<Longrightarrow> outcome r s' (f s') granted Q"
  shows "outcome r s (on_room (bn_wexpand alloc s r n) f) granted Q"
proof -
  obtain ok s' bn' where e: "bn_wexpand alloc s r n = Some (ok, s')" "bn_inv s'" "only_changes r s s'" "limbs_of s' r = limbs_of s r"
    "nums s' r = Some bn'" "width bn' = width bn" "neg bn' = neg bn" "ok \<Longrightarrow> n \<le> dmax bn'" "ok \<longleftrightarrow> can_expand alloc s r n"
    using wexpand [OF assms(1-3)] by metis
  have limbs: "limbs_of s' x = limbs_of s x" for x
  proof (cases "x = r")
    case False
    then show ?thesis using e(3) unfolding only_changes_def by blast
  qed (use e(4) in simp)
  show ?thesis
  proof (cases ok)
    case True
    have "outcome r s' (f s') granted Q"
      by (rule assms(5) [OF e(2,3,5,6,7)]) (use e(8) True limbs in simp_all)
    then obtain ok2 s2 where r: "f s' = Some (ok2, s2)" "bn_inv s2" "only_changes r s' s2" "granted \<Longrightarrow> ok2" "ok2 \<Longrightarrow> Q s2"
      unfolding outcome_def by blast
    have "on_room (bn_wexpand alloc s r n) f = Some (ok2, s2)" using e(1) True r(1) by (simp add: on_room_def)
    then show ?thesis using r(2) only_changes_trans [OF e(3) r(3)] r(4,5) by (rule outcomeI)
  next
    case False
    then have "on_room (bn_wexpand alloc s r n) f = Some (False, s')" using e(1) by (simp add: on_room_def)
    then show ?thesis using e(2,3) by (rule outcomeI) (use False e(9) assms(4) in simp_all)
  qed
qed

lemmas outcome_expand = outcome_expand_if [where granted = "can_expand alloc s r n" and alloc = alloc and s = s and r = r and n = n for alloc s r n, OF _ _ _ asm_rl]

lemma limbs_pointer:
  assumes "bn_inv s" "limbs_of s x = Some xs"
  obtains bn where "nums s x = Some bn" "d_of s x = Some (limb_array bn, 0)" "words_at (arrays s) (limb_array bn, 0) (length xs) = Some xs" "width bn = length xs"
proof -
  obtain bn where bn: "nums s x = Some bn" using assms(2) by (cases "nums s x") (auto simp: limbs_of_def)
  obtain ws where ws: "limbs_of s x = Some ws" "length ws = width bn" "words_at (arrays s) (limb_array bn, 0) (width bn) = Some ws"
    using inv_limbs [OF assms(1) bn] by metis
  have xs: "xs = ws" using assms(2) ws(1) by simp
  have "d_of s x = Some (limb_array bn, 0)" using bn by (simp add: d_of_def)
  moreover have "words_at (arrays s) (limb_array bn, 0) (length xs) = Some xs" unfolding xs ws(2) by (rule ws(3))
  ultimately show ?thesis using bn ws(2) [symmetric] by (intro that) (simp_all add: xs)
qed

lemma pointers_undisturbed [simp]: "undisturbed (x, 0) (y, 0) n"
  by (auto simp: undisturbed_def clear_of_def)

section \<open>Widths and bits\<close>

lemma or_words_zero: "or_words ws = 0 \<longleftrightarrow> wval ws = 0"
proof -
  have "foldl (\<lambda>msk w. msk OR w) a ws = 0 \<longleftrightarrow> a = 0 \<and> (\<forall>w\<in>set ws. w = 0)" for a :: u64
    by (induction ws arbitrary: a) (auto simp: or_eq_0_iff)
  moreover have "wval ws = 0 \<longleftrightarrow> (\<forall>w\<in>set ws. w = 0)" by (induction ws) (auto simp: unat_eq_0)
  ultimately show ?thesis by (simp add: or_words_def)
qed

lemma wval_take_drop: "wval ws = wval (take n ws) + 2 ^ (64 * min n (length ws)) * wval (drop n ws)"
  using wval_append [of "take n ws" "drop n ws"] by (simp add: min.commute)

lemma fits_in_words: "bn_fits_in_words ws n \<longleftrightarrow> wval ws < 2 ^ (64 * n)"
proof (cases "length ws \<le> n")
  case True
  then have "wval ws < 2 ^ (64 * n)"
    using wval_less [of ws] by (metis le_less_trans less_le_trans mult_le_mono2 one_le_numeral power_increasing le_refl)
  then show ?thesis using True by (simp add: bn_fits_in_words_def or_words_def)
next
  case False
  have v: "wval ws = wval (take n ws) + 2 ^ (64 * n) * wval (drop n ws)" using wval_take_drop [of ws n] False by simp
  have "wval (take n ws) < 2 ^ (64 * n)" using wval_less [of "take n ws"] False by simp
  then have "wval ws < 2 ^ (64 * n) \<longleftrightarrow> wval (drop n ws) = 0"
    unfolding v by (cases "wval (drop n ws)") auto
  then show ?thesis by (simp add: bn_fits_in_words_def or_words_zero)
qed

lemma is_zero: "BN_is_zero ws \<longleftrightarrow> wval ws = 0"
  by (simp add: BN_is_zero_def fits_in_words)

lemma minimal_width:
  shows "bn_minimal_width ws \<le> length ws" "wval (take (bn_minimal_width ws) ws) = wval ws"
    "bn_minimal_width ws \<noteq> 0 \<Longrightarrow> ws ! (bn_minimal_width ws - 1) \<noteq> 0"
proof -
  have "n \<le> length ws \<Longrightarrow> minimal_width_loop ws n \<le> n \<and> wval (take (minimal_width_loop ws n) ws) = wval (take n ws) \<and>
      (minimal_width_loop ws n \<noteq> 0 \<longrightarrow> ws ! (minimal_width_loop ws n - 1) \<noteq> 0)" for n
  proof (induction n)
    case 0
    then show ?case by (subst minimal_width_loop.simps) (simp add: minimal_width_loop.simps)
  next
    case (Suc n)
    show ?case
    proof (cases "ws ! n = 0")
      case True
      then have "minimal_width_loop ws (Suc n) = minimal_width_loop ws n" by (subst minimal_width_loop.simps) simp
      then show ?thesis using Suc True by (auto simp: wval_take_Suc)
    next
      case False
      then have "minimal_width_loop ws (Suc n) = Suc n" by (subst minimal_width_loop.simps) simp
      then show ?thesis using False by simp
    qed
  qed
  from this [of "length ws"] show "bn_minimal_width ws \<le> length ws" "wval (take (bn_minimal_width ws) ws) = wval ws"
    "bn_minimal_width ws \<noteq> 0 \<Longrightarrow> ws ! (bn_minimal_width ws - 1) \<noteq> 0" by (simp_all add: bn_minimal_width_def)
qed

text \<open>The minimal width of a number depends on its value only.\<close>

lemma minimal_width_bounds:
  "wval ws < 2 ^ (64 * bn_minimal_width ws)" "bn_minimal_width ws \<noteq> 0 \<Longrightarrow> 2 ^ (64 * (bn_minimal_width ws - 1)) \<le> wval ws"
proof -
  let ?w = "bn_minimal_width ws"
  note m = minimal_width [of ws]
  show "wval ws < 2 ^ (64 * ?w)" using wval_less [of "take ?w ws"] m(1,2) by simp
  assume w: "?w \<noteq> 0"
  then obtain k where k: "?w = Suc k" by (cases ?w) auto
  then have "unat (ws ! k) \<noteq> 0" using m(3) by (simp add: unat_eq_0)
  then have "2 ^ (64 * k) \<le> 2 ^ (64 * k) * unat (ws ! k)" by simp
  also have "\<dots> \<le> wval ws" using m(1,2) k wval_take_Suc [of k ws] by simp
  finally show "2 ^ (64 * (?w - 1)) \<le> wval ws" using k by simp
qed

lemma minimal_width_zero: "bn_minimal_width ws = 0 \<longleftrightarrow> wval ws = 0"
proof (cases "bn_minimal_width ws = 0")
  case True
  then show ?thesis using minimal_width_bounds(1) [of ws] by simp
next
  case False
  have "(0 :: nat) < 2 ^ (64 * (bn_minimal_width ws - 1))" by simp
  also have "\<dots> \<le> wval ws" using minimal_width_bounds(2) [OF False] .
  finally show ?thesis using False by simp
qed

text \<open>\<open>n\<close> is the length of \<open>v\<close> in binary.\<close>

definition bit_length :: "nat \<Rightarrow> nat \<Rightarrow> bool" where
  "bit_length v n \<longleftrightarrow> v < 2 ^ n \<and> (n \<noteq> 0 \<longrightarrow> 2 ^ (n - 1) \<le> v)"

lemma bits_step_eq:
  assumes "k < 64" "unat l < 2 ^ (2 * k)" "k \<le> 32"
  shows "bits_step k (b, l) = (if 2 ^ k \<le> unat l then (b + k, drop_bit k l) else (b, l))"
proof -
  let ?x = "drop_bit k l"
  have x: "unat ?x = unat l div 2 ^ k" by (rule unat_drop)
  have "unat l div 2 ^ k < 2 ^ k" using assms(2) by (simp add: less_mult_imp_div_less power_add mult_2)
  then have small: "unat ?x < 2 ^ 32" using x assms(3) power_increasing [of k 32 "2 :: nat"] by (simp add: less_le_trans)
  have "bit (0 - ?x) 63 \<longleftrightarrow> ?x \<noteq> 0"
    using bit_63_diff [of 0 ?x] small by (auto simp: word_unat_eq_iff)
  then have msk: "0 - drop_bit 63 (0 - ?x) = (if ?x \<noteq> 0 then - 1 else 0)"
    using msb_w [of "0 - ?x"] by (simp add: constant_time_msb_w_def)
  have nz: "?x \<noteq> 0 \<longleftrightarrow> 2 ^ k \<le> unat l"
    using x by (auto simp: word_unat_eq_iff div_eq_0_iff not_less)
  have xl: "l XOR (x XOR l) = x" for x by (rule bit_word_eqI) (auto simp: bit_xor_iff)
  have k: "unat (word_of_nat k :: u64) = k" using assms(1) by simp
  show ?thesis
    using k xl [of ?x] by (cases "?x = 0") (simp_all add: bits_step_def msk [simplified] Let_def nz [symmetric])
qed

lemma bit_length_step: "bit_length (v div 2 ^ k) n \<Longrightarrow> 2 ^ k \<le> v \<Longrightarrow> bit_length v (k + n)"
proof -
  assume a: "bit_length (v div 2 ^ k) n" "2 ^ k \<le> v"
  then have n: "n \<noteq> 0" by (cases n) (auto simp: bit_length_def div_eq_0_iff)
  have "v < 2 ^ k * (v div 2 ^ k + 1)" by (metis add.commute dividend_less_times_div mult.commute mult_Suc Suc_eq_plus1 zero_less_numeral zero_less_power)
  also have "\<dots> \<le> 2 ^ k * 2 ^ n" using a(1) by (intro mult_le_mono2) (simp add: bit_length_def)
  finally have "v < 2 ^ (k + n)" by (simp add: power_add)
  moreover have "2 ^ (k + n - 1) \<le> v"
  proof -
    have "2 ^ k * 2 ^ (n - 1) \<le> 2 ^ k * (v div 2 ^ k)" using a(1) n by (intro mult_le_mono2) (simp add: bit_length_def)
    also have "\<dots> \<le> v" by simp
    finally show ?thesis using n by (simp add: power_add [symmetric])
  qed
  ultimately show ?thesis by (simp add: bit_length_def)
qed

text \<open>Each step halves the number of bits that are left.\<close>

definition halved :: "nat \<Rightarrow> nat \<Rightarrow> u64 \<Rightarrow> nat \<Rightarrow> u64 \<Rightarrow> bool" where
  "halved k b l j l' \<longleftrightarrow> bits_step k (b, l) = (b + j, l') \<and> unat l' < 2 ^ k \<and>
     (\<forall>n. bit_length (unat l') n \<longrightarrow> l \<noteq> 0 \<longrightarrow> bit_length (unat l) (j + n)) \<and> (l' = 0 \<longleftrightarrow> l = 0) \<and> (l = 0 \<longrightarrow> j = 0)"

lemma bits_step_halves:
  assumes "unat l < 2 ^ (2 * k)" "k \<le> 32"
  shows "\<exists>j l'. halved k b l j l'"
proof (cases "2 ^ k \<le> unat l")
  case True
  have "unat (drop_bit k l) < 2 ^ k" using assms(1) by (simp add: unat_drop less_mult_imp_div_less power_add mult_2)
  moreover have "bit_length (unat l) (k + n)" if "bit_length (unat (drop_bit k l)) n" for n
    using bit_length_step that True by (simp add: unat_drop)
  moreover have "unat l div 2 ^ k \<noteq> 0" using True by (simp add: div_eq_0_iff)
  then have "drop_bit k l \<noteq> 0" by (auto simp: word_unat_eq_iff unat_drop)
  moreover from this have "l \<noteq> 0" by auto
  ultimately have "halved k b l k (drop_bit k l)" using bits_step_eq [OF _ assms] True assms(2) by (simp add: halved_def)
  then show ?thesis by blast
next
  case False
  then have "halved k b l 0 l" using bits_step_eq [OF _ assms] assms(2) by (simp add: halved_def)
  then show ?thesis by blast
qed

lemma num_bits_word: "bit_length (unat l) (BN_num_bits_word l)"
proof -
  have "unat l < 2 ^ (2 * 32)" using unat_u64_less [of l] by simp
  from bits_step_halves [OF this, of "of_bool (l \<noteq> 0)"] obtain j1 l1 where h1: "halved 32 (of_bool (l \<noteq> 0)) l j1 l1" by auto
  have "unat l1 < 2 ^ (2 * 16)" using h1 by (simp add: halved_def)
  from bits_step_halves [OF this, of "of_bool (l \<noteq> 0) + j1"] obtain j2 l2 where h2: "halved 16 (of_bool (l \<noteq> 0) + j1) l1 j2 l2" by auto
  have "unat l2 < 2 ^ (2 * 8)" using h2 by (simp add: halved_def)
  from bits_step_halves [OF this, of "of_bool (l \<noteq> 0) + j1 + j2"] obtain j3 l3 where h3: "halved 8 (of_bool (l \<noteq> 0) + j1 + j2) l2 j3 l3" by auto
  have "unat l3 < 2 ^ (2 * 4)" using h3 by (simp add: halved_def)
  from bits_step_halves [OF this, of "of_bool (l \<noteq> 0) + j1 + j2 + j3"] obtain j4 l4 where h4: "halved 4 (of_bool (l \<noteq> 0) + j1 + j2 + j3) l3 j4 l4" by auto
  have "unat l4 < 2 ^ (2 * 2)" using h4 by (simp add: halved_def)
  from bits_step_halves [OF this, of "of_bool (l \<noteq> 0) + j1 + j2 + j3 + j4"] obtain j5 l5 where h5: "halved 2 (of_bool (l \<noteq> 0) + j1 + j2 + j3 + j4) l4 j5 l5" by auto
  have "unat l5 < 2 ^ (2 * 1)" using h5 by (simp add: halved_def)
  from bits_step_halves [OF this, of "of_bool (l \<noteq> 0) + j1 + j2 + j3 + j4 + j5"] obtain j6 l6 where h6: "halved 1 (of_bool (l \<noteq> 0) + j1 + j2 + j3 + j4 + j5) l5 j6 l6" by auto
  note h = h1 h2 h3 h4 h5 h6
  have n: "BN_num_bits_word l = of_bool (l \<noteq> 0) + j1 + j2 + j3 + j4 + j5 + j6" using h by (simp add: BN_num_bits_word_def halved_def)
  show ?thesis
  proof (cases "l = 0")
    case True
    then show ?thesis using n h by (simp add: halved_def bit_length_def)
  next
    case False
    then have "unat l6 \<noteq> 0" "unat l6 < 2" using h by (simp_all add: halved_def unat_eq_0)
    then have "bit_length (unat l6) 1" by (simp add: bit_length_def)
    then have "bit_length (unat l) (j1 + (j2 + (j3 + (j4 + (j5 + (j6 + 1))))))" using False h unfolding halved_def by blast
    then show ?thesis using n False by (simp add: ac_simps)
  qed
qed

lemma num_bits: "bit_length (wval ws) (BN_num_bits ws)"
proof (cases "bn_minimal_width ws")
  case 0
  then show ?thesis using minimal_width_zero [of ws] by (simp add: BN_num_bits_def bit_length_def)
next
  case (Suc k)
  note m = minimal_width [of ws]
  have "wval ws = wval (take (Suc k) ws)" using m(2) Suc by simp
  also have "\<dots> = wval (take k ws) + 2 ^ (64 * k) * unat (ws ! k)" using m(1) Suc by (simp add: wval_take_Suc)
  finally have v: "wval ws = wval (take k ws) + 2 ^ (64 * k) * unat (ws ! k)" .
  have "wval (take k ws) < 2 ^ (64 * k)" using wval_less [of "take k ws"] m(1) Suc by simp
  then have "wval ws div 2 ^ (64 * k) = unat (ws ! k)" using v by simp
  moreover have "unat (ws ! k) \<noteq> 0" using m(3) Suc by (simp add: unat_eq_0)
  then have "2 ^ (64 * k) \<le> wval ws" using v by (simp add: trans_le_add2)
  ultimately have "bit_length (wval ws) (64 * k + BN_num_bits_word (ws ! k))"
    using bit_length_step num_bits_word [of "ws ! k"] by simp
  then show ?thesis using Suc by (simp add: BN_num_bits_def mult.commute)
qed

end
