(* ===== verification/BnAdd.thy ===== *)
theory BnAdd
  imports BnLimbs
begin

text \<open>
  Comparison, addition and subtraction (\<open>cmp.c\<close>, \<open>add.c\<close>).  The operands and the result may be the same \<open>BIGNUM\<close>.
\<close>

section \<open>Comparison\<close>

definition constant_time_select_int :: "u64 \<Rightarrow> int \<Rightarrow> int \<Rightarrow> int" where
  "constant_time_select_int msk a b = sint (ucast (constant_time_select_w msk (word_of_int a) (word_of_int b)) :: u32)"

definition bn_cmp_words_consttime :: "u64 list \<Rightarrow> u64 list \<Rightarrow> int" where
  "bn_cmp_words_consttime a b =
     (let ret = foldl (\<lambda>ret (x, y). constant_time_select_int (constant_time_eq_w x y) ret
            (constant_time_select_int (constant_time_lt_w x y) (- 1) 1)) 0 (zip a b)
      in if length a < length b then
           constant_time_select_int (constant_time_is_zero_w (or_words (drop (length a) b))) ret (- 1)
         else if length b < length a then
           constant_time_select_int (constant_time_is_zero_w (or_words (drop (length b) a))) ret 1
         else ret)"

definition BN_ucmp :: "u64 list \<Rightarrow> u64 list \<Rightarrow> int" where
  "BN_ucmp a b = bn_cmp_words_consttime a b"

definition BN_cmp :: "bn_state \<Rightarrow> nat option \<Rightarrow> nat option \<Rightarrow> int option" where
  "BN_cmp s a b = (case (a, b) of
     (Some a, None) \<Rightarrow> Some (- 1)
   | (None, Some b) \<Rightarrow> Some 1
   | (None, None) \<Rightarrow> Some 0
   | (Some a, Some b) \<Rightarrow> do {
       a_bn \<leftarrow> nums s a;
       b_bn \<leftarrow> nums s b;
       if neg a_bn \<noteq> neg b_bn then Some (if neg a_bn then - 1 else 1)
       else do {
         xs \<leftarrow> limbs_of s a;
         ys \<leftarrow> limbs_of s b;
         let ret = BN_ucmp xs ys;
         Some (if neg a_bn then - ret else ret)
       }
     })"

definition bn_less_than_words :: "u64 list \<Rightarrow> u64 list \<Rightarrow> bool" where
  "bn_less_than_words a b \<longleftrightarrow> bn_cmp_words_consttime a b < 0"

definition BN_abs_is_word :: "u64 list \<Rightarrow> u64 \<Rightarrow> bool" where
  "BN_abs_is_word ws w =
     (if ws = [] then w = 0 else foldl (\<lambda>msk x. msk OR x) (hd ws XOR w) (tl ws) = 0)"

definition BN_is_one :: "bool \<Rightarrow> u64 list \<Rightarrow> bool" where
  "BN_is_one negative ws \<longleftrightarrow> \<not> negative \<and> BN_abs_is_word ws 1"

definition BN_is_word :: "bool \<Rightarrow> u64 list \<Rightarrow> u64 \<Rightarrow> bool" where
  "BN_is_word negative ws w \<longleftrightarrow> BN_abs_is_word ws w \<and> (w = 0 \<or> \<not> negative)"

definition BN_is_odd :: "u64 list \<Rightarrow> bool" where
  "BN_is_odd ws \<longleftrightarrow> length ws > 0 \<and> ws ! 0 AND 1 = 1"

definition BN_is_pow2 :: "bool \<Rightarrow> u64 list \<Rightarrow> bool" where
  "BN_is_pow2 negative ws \<longleftrightarrow>
     (let w = bn_minimal_width ws
      in \<not> (w = 0 \<or> negative) \<and> (\<forall>x\<in>set (take (w - 1) ws). x = 0) \<and> ws ! (w - 1) AND (ws ! (w - 1) - 1) = 0)"

definition BN_equal_consttime :: "bool \<Rightarrow> u64 list \<Rightarrow> bool \<Rightarrow> u64 list \<Rightarrow> bool" where
  "BN_equal_consttime a_neg a b_neg b \<longleftrightarrow>
     (let msk = or_words (drop (length a) b) OR or_words (drop (length b) a);
          msk = foldl (\<lambda>msk (x, y). msk OR (x XOR y)) msk (zip a b);
          msk = msk OR of_bool (a_neg \<noteq> b_neg)
      in msk = 0)"

section \<open>Addition and subtraction of magnitudes\<close>

definition carry_step :: "bn_ptr \<Rightarrow> bn_ptr \<Rightarrow> u64 bn_step" where
  "carry_step r a i carry m = do {
     x \<leftarrow> rd m a i;
     let tmp = carry + x;
     m \<leftarrow> wr m r i tmp;
     Some (of_bool (tmp < x), m)
   }"

definition bn_uadd_consttime :: "bn_alloc \<Rightarrow> bn_state \<Rightarrow> nat \<Rightarrow> nat \<Rightarrow> nat \<Rightarrow> (bool \<times> bn_state) option" where
  "bn_uadd_consttime alloc s r a b = do {
     a_bn \<leftarrow> nums s a;
     b_bn \<leftarrow> nums s b;
     let (a, b) = (if width a_bn < width b_bn then (b, a) else (a, b));
     a_bn \<leftarrow> nums s a;
     b_bn \<leftarrow> nums s b;
     let mx = width a_bn;
     let mn = width b_bn;
     on_room (bn_wexpand alloc s r (mx + 1)) (\<lambda>s. do {
       s \<leftarrow> set_num s r (\<lambda>bn. bn\<lparr>width := mx + 1\<rparr>);
       rp \<leftarrow> d_of s r;
       ap \<leftarrow> d_of s a;
       bp \<leftarrow> d_of s b;
       (carry, m) \<leftarrow> bn_add_words (arrays s) rp ap bp mn;
       (carry, m) \<leftarrow> steps (carry_step rp ap) (mx - mn) mn carry m;
       m \<leftarrow> wr m rp mx carry;
       Some (True, s\<lparr>arrays := m\<rparr>)
     })
   }"

definition BN_uadd :: "bn_alloc \<Rightarrow> bn_state \<Rightarrow> nat \<Rightarrow> nat \<Rightarrow> nat \<Rightarrow> (bool \<times> bn_state) option" where
  "BN_uadd alloc s r a b =
     on_room (bn_uadd_consttime alloc s r a b) (\<lambda>s. map_option (\<lambda>s. (True, s)) (bn_set_minimal_width s r))"

definition borrow_step :: "bn_ptr \<Rightarrow> bn_ptr \<Rightarrow> u64 bn_step" where
  "borrow_step r a i borrow m = do {
     tmp \<leftarrow> rd m a i;
     m \<leftarrow> wr m r i (tmp - borrow);
     Some (of_bool (tmp < tmp - borrow), m)
   }"

definition bn_usub_consttime :: "bn_alloc \<Rightarrow> bn_state \<Rightarrow> nat \<Rightarrow> nat \<Rightarrow> nat \<Rightarrow> (bool \<times> bn_state) option" where
  "bn_usub_consttime alloc s r a b = do {
     a_bn \<leftarrow> nums s a;
     b_bn \<leftarrow> nums s b;
     ys \<leftarrow> limbs_of s b;
     if width b_bn > width a_bn \<and> \<not> bn_fits_in_words ys (width a_bn) then Some (False, s)
     else do {
       let b_width = (if width b_bn > width a_bn then width a_bn else width b_bn);
       on_room (bn_wexpand alloc s r (width a_bn)) (\<lambda>s. do {
         rp \<leftarrow> d_of s r;
         ap \<leftarrow> d_of s a;
         bp \<leftarrow> d_of s b;
         (borrow, m) \<leftarrow> bn_sub_words (arrays s) rp ap bp b_width;
         (borrow, m) \<leftarrow> steps (borrow_step rp ap) (width a_bn - b_width) b_width borrow m;
         let s = s\<lparr>arrays := m\<rparr>;
         if borrow \<noteq> 0 then Some (False, s)
         else do {
           s \<leftarrow> set_num s r (\<lambda>bn. bn\<lparr>width := width a_bn, neg := False\<rparr>);
           Some (True, s)
         }
       })
     }
   }"

definition BN_usub :: "bn_alloc \<Rightarrow> bn_state \<Rightarrow> nat \<Rightarrow> nat \<Rightarrow> nat \<Rightarrow> (bool \<times> bn_state) option" where
  "BN_usub alloc s r a b =
     on_room (bn_usub_consttime alloc s r a b) (\<lambda>s. map_option (\<lambda>s. (True, s)) (bn_set_minimal_width s r))"

section \<open>Signed addition and subtraction\<close>

definition with_sign :: "bool \<Rightarrow> nat \<Rightarrow> bn_state \<Rightarrow> (bool \<times> bn_state) option" where
  "with_sign sg r s = map_option (\<lambda>s. (True, s)) (set_num s r (\<lambda>bn. bn\<lparr>neg := sg\<rparr>))"

text \<open>\<open>a - b\<close> for numbers of the same sign, by the larger of the magnitudes.\<close>

definition usub_signed :: "bn_alloc \<Rightarrow> bn_state \<Rightarrow> nat \<Rightarrow> nat \<Rightarrow> nat \<Rightarrow> (bool \<times> bn_state) option" where
  "usub_signed alloc s r a b = do {
     xs \<leftarrow> limbs_of s a;
     ys \<leftarrow> limbs_of s b;
     if BN_ucmp xs ys < 0 then on_room (BN_usub alloc s r b a) (with_sign True r)
     else on_room (BN_usub alloc s r a b) (with_sign False r)
   }"

definition BN_add :: "bn_alloc \<Rightarrow> bn_state \<Rightarrow> nat \<Rightarrow> nat \<Rightarrow> nat \<Rightarrow> (bool \<times> bn_state) option" where
  "BN_add alloc s r a b = do {
     a_bn \<leftarrow> nums s a;
     b_bn \<leftarrow> nums s b;
     if neg a_bn \<noteq> neg b_bn then
       (if neg a_bn then usub_signed alloc s r b a else usub_signed alloc s r a b)
     else do {
       (ret, s) \<leftarrow> BN_uadd alloc s r a b;
       s \<leftarrow> set_num s r (\<lambda>bn. bn\<lparr>neg := neg a_bn\<rparr>);
       Some (ret, s)
     }
   }"

definition BN_sub :: "bn_alloc \<Rightarrow> bn_state \<Rightarrow> nat \<Rightarrow> nat \<Rightarrow> nat \<Rightarrow> (bool \<times> bn_state) option" where
  "BN_sub alloc s r a b = do {
     a_bn \<leftarrow> nums s a;
     b_bn \<leftarrow> nums s b;
     if neg a_bn \<noteq> neg b_bn then on_room (BN_uadd alloc s r a b) (with_sign (neg a_bn) r)
     else if neg a_bn then usub_signed alloc s r b a
     else usub_signed alloc s r a b
   }"

section \<open>What comparison decides\<close>

lemma select_int_small:
  assumes "a \<in> {- 1, 0, 1}" "b \<in> {- 1, 0, 1}"
  shows "constant_time_select_int (if c then - 1 else 0) a b = (if c then a else b)"
proof -
  have "ucast (- 1 :: u64) = (- 1 :: u32)" by (rule bit_word_eqI) (simp add: bit_simps)
  then have "sint (ucast (word_of_int x :: u64) :: u32) = x" if "x \<in> {- 1, 0, 1}" for x using that by auto
  then show ?thesis using assms by (simp only: constant_time_select_int_def select_w split: if_split) simp
qed

lemma sgn_cases: "sgn (x :: int) \<in> {- 1, 0, 1}"
  by (auto simp: sgn_if)

lemma sgn_top:
  fixes x y a b n :: nat
  assumes "a < n" "b < n"
  shows "sgn (int (a + n * x) - int (b + n * y)) = (if x = y then sgn (int a - int b) else if x < y then - 1 else 1)"
proof -
  consider "x = y" | "x < y" | "y < x" by linarith
  then show ?thesis
  proof cases
    case 2
    then have "n * (x + 1) \<le> n * y" by (intro mult_le_mono2) simp
    then have "a + n * x < b + n * y" using assms by simp
    then have "int (a + n * x) - int (b + n * y) < 0" by linarith
    from sgn_neg [OF this] 2 show ?thesis by (simp del: of_nat_add of_nat_mult)
  next
    case 3
    then have "n * (y + 1) \<le> n * x" by (intro mult_le_mono2) simp
    then have "b + n * y < a + n * x" using assms by simp
    then have "0 < int (a + n * x) - int (b + n * y)" by linarith
    from sgn_pos [OF this] 3 show ?thesis by (simp del: of_nat_add of_nat_mult)
  qed simp
qed

lemma cmp_same_length:
  assumes "length a = length b"
  shows "foldl (\<lambda>ret (x, y). constant_time_select_int (constant_time_eq_w x y) ret
      (constant_time_select_int (constant_time_lt_w x y) (- 1) 1)) 0 (zip a b) = sgn (int (wval a) - int (wval b))"
  using assms
proof (induction a arbitrary: b rule: rev_induct)
  case (snoc x xs)
  then obtain y ys where b: "b = ys @ [y]" by (cases b rule: rev_exhaust) auto
  then have len: "length xs = length ys" using snoc.prems by simp
  have "sgn (int (wval (xs @ [x])) - int (wval (ys @ [y]))) =
      (if unat x = unat y then sgn (int (wval xs) - int (wval ys)) else if unat x < unat y then - 1 else 1)"
    using sgn_top [of "wval xs" "2 ^ (64 * length xs)" "wval ys" "unat x" "unat y"] wval_less [of xs] wval_less [of ys] len by simp
  then show ?case using snoc.IH [OF len] len sgn_cases [of "int (wval xs) - int (wval ys)"]
    by (simp add: b eq_w lt_w select_int_small word_unat_eq_iff word_less_nat_alt)
qed simp

lemma cmp_words: "bn_cmp_words_consttime a b = sgn (int (wval a) - int (wval b))"
proof -
  let ?n = "min (length a) (length b)"
  have z: "zip a b = zip (take ?n a) (take ?n b)" using take_zip [of ?n a b] by simp
  have low: "foldl (\<lambda>ret (x, y). constant_time_select_int (constant_time_eq_w x y) ret
      (constant_time_select_int (constant_time_lt_w x y) (- 1) 1)) 0 (zip a b) = sgn (int (wval (take ?n a)) - int (wval (take ?n b)))"
    unfolding z by (rule cmp_same_length) simp
  have lt: "wval (take ?n a) < 2 ^ (64 * ?n)" "wval (take ?n b) < 2 ^ (64 * ?n)" using wval_less [of "take ?n a"] wval_less [of "take ?n b"] by simp_all
  have "wval a = wval (take ?n a) + 2 ^ (64 * ?n) * wval (drop ?n a)" "wval b = wval (take ?n b) + 2 ^ (64 * ?n) * wval (drop ?n b)"
    using wval_take_drop [of a ?n] wval_take_drop [of b ?n] by simp_all
  then have top: "sgn (int (wval a) - int (wval b)) = (if wval (drop ?n a) = wval (drop ?n b) then sgn (int (wval (take ?n a)) - int (wval (take ?n b)))
      else if wval (drop ?n a) < wval (drop ?n b) then - 1 else 1)"
    using sgn_top [OF lt] by metis
  define v where "v = sgn (int (wval (take ?n a)) - int (wval (take ?n b)))"
  have v: "v \<in> {- 1, 0, 1}" unfolding v_def by (rule sgn_cases)
  have zero: "constant_time_is_zero_w (or_words ws) = (if wval ws = 0 then - 1 else 0)" for ws by (simp add: is_zero_w or_words_zero)
  consider "length a < length b" | "length b < length a" | "length a = length b" by linarith
  then show ?thesis
  proof cases
    case 1
    then show ?thesis
      unfolding bn_cmp_words_consttime_def low Let_def top v_def [symmetric] zero using v by (simp add: select_int_small)
  next
    case 2
    then show ?thesis
      unfolding bn_cmp_words_consttime_def low Let_def top v_def [symmetric] zero using v by (simp add: select_int_small)
  next
    case 3
    then show ?thesis
      unfolding bn_cmp_words_consttime_def low Let_def top v_def [symmetric] by simp
  qed
qed

lemma BN_ucmp: "BN_ucmp a b = sgn (int (wval a) - int (wval b))"
  by (simp add: BN_ucmp_def cmp_words)

section \<open>The carry and the borrow through the rest of a number\<close>

lemma carry_loop:
  assumes "operands m (padd r i) (padd a i) xs (padd a i) xs n"
  shows "steps (carry_step r a) n i c m =
    Some (word_of_nat ((wval xs + unat c) div 2 ^ (64 * n)), upd m (padd r i) (wlist n (wval xs + unat c)))"
proof -
  define g :: "u64 \<Rightarrow> u64 \<Rightarrow> u64 \<Rightarrow> u64 \<times> u64" where "g = (\<lambda>x y c. (c + x, of_bool (c + x < x)))"
  have st: "carry_step r a = limb_step g r a a"
  proof (intro ext)
    fix i c m
    show "carry_step r a i c m = limb_step g r a a i c m" by (cases "rd m a i") (simp_all add: carry_step_def limb_step_def g_def Let_def)
  qed
  have len: "n \<le> length xs" "length xs = n" using operands_length [OF assms] by simp_all
  have "wval (fst (limbs g xs xs c n)) + 2 ^ (64 * n) * unat (snd (limbs g xs xs c n)) = (\<Sum>i<n. 2 ^ (64 * i) * unat (xs ! i)) + unat c"
  proof (rule conjunct2, rule limbs_sum [where ok = "\<lambda>_. True" and f = "\<lambda>x y. unat x", OF _ _ len(1,1)])
    show "case g x y c of (w, c') \<Rightarrow> unat w + 2 ^ 64 * unat c' = unat x + unat c \<and> True" for x y c
    proof (cases "unat c + unat x < 2 ^ 64")
      case True
      then show ?thesis by (simp add: g_def word_less_nat_alt unat_word_ariths)
    next
      case False
      have "unat c + unat x - 2 ^ 64 < 2 ^ 64" using unat_u64_less [of x] unat_u64_less [of c] by linarith
      then have "(unat c + unat x) mod 2 ^ 64 = unat c + unat x - 2 ^ 64" using False le_mod_geq [of "2 ^ 64" "unat c + unat x"] by simp
      then have "unat (c + x) + 2 ^ 64 = unat c + unat x" using False by (simp add: unat_word_ariths)
      moreover from this have "unat (c + x) < unat x" using unat_u64_less [of c] by linarith
      ultimately show ?thesis by (simp add: g_def word_less_nat_alt)
    qed
  qed simp
  then have v: "wval (fst (limbs g xs xs c n)) + 2 ^ (64 * n) * unat (snd (limbs g xs xs c n)) = wval xs + unat c"
    using sum_limbs [of n xs] len by simp
  have "snd (limbs g xs xs c n) = word_of_nat ((wval xs + unat c) div 2 ^ (64 * n))"
    using limbs_wlist(2) [OF length_limbs v] by (intro word_of_unat)
  then show ?thesis using limbs_wlist(1) [OF length_limbs v] by (simp add: st limb_loop_from [OF assms])
qed

lemma borrow_loop:
  assumes "operands m (padd r i) (padd a i) xs (padd a i) xs n" "unat c \<le> 1"
  shows "steps (borrow_step r a) n i c m =
    Some (of_bool (wval xs < unat c), upd m (padd r i) (wlist n (wval xs + 2 ^ (64 * n) - unat c)))"
proof -
  define g :: "u64 \<Rightarrow> u64 \<Rightarrow> u64 \<Rightarrow> u64 \<times> u64" where "g = (\<lambda>x y c. (x - c, of_bool (x < x - c)))"
  have st: "borrow_step r a = limb_step g r a a"
  proof (intro ext)
    fix i c m
    show "borrow_step r a i c m = limb_step g r a a i c m" by (cases "rd m a i") (simp_all add: borrow_step_def limb_step_def g_def Let_def)
  qed
  have len: "length xs = n" using operands_length [OF assms(1)] by simp
  have "k \<le> n \<Longrightarrow> unat (snd (limbs g xs xs c k)) \<le> 1 \<and>
      wval (fst (limbs g xs xs c k)) + unat c = wval (take k xs) + 2 ^ (64 * k) * unat (snd (limbs g xs xs c k))" for k
  proof (induction k)
    case 0
    then show ?case using assms(2) by simp
  next
    case (Suc k)
    obtain ws b where l: "limbs g xs xs c k = (ws, b)" by (cases "limbs g xs xs c k")
    then have b: "unat b \<le> 1" using Suc by simp
    obtain w b' where g: "g (xs ! k) (xs ! k) b = (w, b')" by (cases "g (xs ! k) (xs ! k) b")
    then have "unat w + unat b = unat (xs ! k) + 2 ^ 64 * unat b'" "unat b' \<le> 1"
      using b unat_u64_less [of "xs ! k"] by (auto simp: g_def word_less_nat_alt unat_sub_if')
    then have "2 ^ (64 * k) * (unat w + unat b) = 2 ^ (64 * k) * (unat (xs ! k) + 2 ^ 64 * unat b')" "unat b' \<le> 1" by (simp_all only:)
    moreover have "length ws = k" using length_limbs [of g xs xs c k] l by simp
    moreover have "limbs g xs xs c (Suc k) = (ws @ [w], b')" using l g by simp
    ultimately show ?case using Suc len l by (simp add: wval_take_Suc power_add distrib_left)
  qed
  from this [of n] len have v: "unat (snd (limbs g xs xs c n)) \<le> 1"
    "wval (fst (limbs g xs xs c n)) + unat c = wval xs + 2 ^ (64 * n) * unat (snd (limbs g xs xs c n))" by simp_all
  have lt: "wval (fst (limbs g xs xs c n)) < 2 ^ (64 * n)" using wval_less [of "fst (limbs g xs xs c n)"] by simp
  have c: "snd (limbs g xs xs c n) = of_bool (wval xs < unat c)"
  proof (cases "unat (snd (limbs g xs xs c n)) = 0")
    case True
    then show ?thesis using v by (simp add: unat_eq_0)
  next
    case False
    then have "unat (snd (limbs g xs xs c n)) = 1" using v(1) by simp
    then show ?thesis using v(2) lt by (auto simp: word_unat_eq_iff)
  qed
  have "fst (limbs g xs xs c n) = wlist n (wval xs + 2 ^ (64 * n) - unat c)"
  proof (rule wlist_eqI)
    show "wval (fst (limbs g xs xs c n)) = (wval xs + 2 ^ (64 * n) - unat c) mod 2 ^ (64 * n)"
    proof (cases "wval xs < unat c")
      case True
      then have "wval (fst (limbs g xs xs c n)) = wval xs + 2 ^ (64 * n) - unat c" using v c by simp
      then show ?thesis using lt by simp
    next
      case False
      then have "wval xs + 2 ^ (64 * n) - unat c = wval (fst (limbs g xs xs c n)) + 2 ^ (64 * n)" using v c by simp
      then show ?thesis using lt by simp
    qed
  qed simp
  then show ?thesis using c by (simp add: st limb_loop_from [OF assms(1)])
qed

section \<open>Sums and differences in memory\<close>

lemma add_loops:
  assumes a: "words_at m a mx = Some xs" "undisturbed r a mx" and b: "words_at m b mn = Some ys" "undisturbed r b mn"
    and "mn \<le> mx" "room m r (Suc mx)"
  shows "do { (carry, m) \<leftarrow> bn_add_words m r a b mn; (carry, m) \<leftarrow> steps (carry_step r a) (mx - mn) mn carry m; wr m r mx carry } =
    Some (upd m r (wlist (Suc mx) (wval xs + wval ys)))"
proof -
  let ?lo = "wval (take mn xs) + wval ys"
  let ?hi = "wval (drop mn xs) + ?lo div 2 ^ (64 * mn)"
  let ?w1 = "wlist mn ?lo" and ?w2 = "wlist (mx - mn) ?hi"
  have mx: "mx = mn + (mx - mn)" using assms(5) by simp
  have len: "length xs = mx" "length ys = mn" using words_at_room [OF a(1)] words_at_room [OF b(1)] by simp_all
  have first: "operands m r a (take mn xs) b ys mn"
    using a b assms(5) room_0_mono [OF assms(6), of mn] words_at_append [of m a mn "mx - mn" xs] undisturbed_mono [OF a(2)]
    by (simp add: operands_def)
  have room: "room m r mn" using room_0_mono [OF assms(6)] assms(5) by simp
  let ?m1 = "upd m r ?w1"
  have "words_at ?m1 (padd a mn) (mx - mn) = Some (drop mn xs)"
    using a assms(5) room by (intro words_at_behind) simp_all
  then have second: "operands ?m1 (padd r mn) (padd a mn) (drop mn xs) (padd a mn) (drop mn xs) (mx - mn)"
    using a(2) assms(5) room_padd [of m r mn "mx - mn"] room_0_mono [OF assms(6), of mx] room undisturbed_padd [of r a mn "mx - mn"]
    by (simp add: operands_def at_simps)
  have c: "unat (word_of_nat (?lo div 2 ^ (64 * mn)) :: u64) = ?lo div 2 ^ (64 * mn)"
  proof -
    have "wval (take mn xs) < 2 ^ (64 * mn)" "wval ys < 2 ^ (64 * mn)" using wval_less [of "take mn xs"] wval_less [of ys] len assms(5) by simp_all
    then have "?lo div 2 ^ (64 * mn) < 2" by (intro less_mult_imp_div_less) simp
    then show ?thesis by simp
  qed
  have v: "wval xs + wval ys = ?lo + 2 ^ (64 * mn) * wval (drop mn xs)" using wval_take_drop [of xs mn] len assms(5) by simp
  have split: "wlist (Suc mx) (wval xs + wval ys) = ?w1 @ ?w2 @ [word_of_nat (?hi div 2 ^ (64 * (mx - mn)))]"
  proof -
    have "wlist (mn + Suc (mx - mn)) (wval xs + wval ys) = ?w1 @ wlist (Suc (mx - mn)) ?hi" unfolding v by (rule sum_split)
    moreover have "wlist (mx - mn + 1) ?hi = ?w2 @ wlist 1 (?hi div 2 ^ (64 * (mx - mn)))" by (rule wlist_append)
    ultimately show ?thesis using assms(5) by simp
  qed
  have rm: "room m r (length ?w1 + length (?w2 @ [w]))" "room ?m1 (padd r mn) (length ?w2 + length [w])" for w :: u64
  proof -
    show "room m r (length ?w1 + length (?w2 @ [w]))" using assms(5,6) by simp
    show "room ?m1 (padd r mn) (length ?w2 + length [w])"
      using room_padd [of m r mn "Suc (mx - mn)"] assms(5,6) room by (simp add: at_simps)
  qed
  have "upd m r (wlist (Suc mx) (wval xs + wval ys)) = upd (upd ?m1 (padd r mn) ?w2) (padd r mx) [word_of_nat (?hi div 2 ^ (64 * (mx - mn)))]"
    unfolding split upd_append [OF rm(1)] using upd_append [OF rm(2)] assms(5) by simp
  moreover have "wr (upd ?m1 (padd r mn) ?w2) r mx w = Some (upd (upd ?m1 (padd r mn) ?w2) (padd r mx) [w])" for w
    using assms(5,6) rm(2) room room_0_mono [OF rm(2)] by (intro wr_upd_padd) (simp add: at_simps)
  ultimately show ?thesis using bn_add_words [OF first] carry_loop [OF second] c by simp
qed

lemma sub_loops:
  assumes a: "words_at m a mx = Some xs" "undisturbed r a mx" and b: "words_at m b mn = Some ys" "undisturbed r b mn"
    and "mn \<le> mx" "room m r mx"
  shows "do { (borrow, m) \<leftarrow> bn_sub_words m r a b mn; steps (borrow_step r a) (mx - mn) mn borrow m } =
    Some (of_bool (wval xs < wval ys), upd m r (wlist mx (wval xs + 2 ^ (64 * mx) - wval ys)))"
proof -
  let ?B = "2 ^ (64 * mn) :: nat" and ?C = "2 ^ (64 * (mx - mn)) :: nat"
  let ?x = "wval (take mn xs)" and ?y = "wval ys" and ?h = "wval (drop mn xs)"
  let ?c = "of_bool (?x < ?y) :: u64"
  let ?w1 = "wlist mn (?x + ?B - ?y)" and ?w2 = "wlist (mx - mn) (?h + ?C - unat ?c)"
  have len: "length xs = mx" "length ys = mn" using words_at_room [OF a(1)] words_at_room [OF b(1)] by simp_all
  have room: "room m r mn" using room_0_mono [OF assms(6)] assms(5) by simp
  have first: "operands m r a (take mn xs) b ys mn"
    using a b assms(5) room words_at_append [of m a mn "mx - mn" xs] undisturbed_mono [OF a(2)] by (simp add: operands_def)
  let ?m1 = "upd m r ?w1"
  have "words_at ?m1 (padd a mn) (mx - mn) = Some (drop mn xs)"
    using a assms(5) room by (intro words_at_behind) simp_all
  then have second: "operands ?m1 (padd r mn) (padd a mn) (drop mn xs) (padd a mn) (drop mn xs) (mx - mn)"
    using a(2) assms(5,6) room_padd [of m r mn "mx - mn"] room undisturbed_padd [of r a mn "mx - mn"]
    by (simp add: operands_def at_simps)
  have lt: "?x < ?B" "?y < ?B" "?h < ?C" using wval_less [of "take mn xs"] wval_less [of ys] wval_less [of "drop mn xs"] len assms(5) by simp_all
  have v: "wval xs = ?x + ?B * ?h" using wval_take_drop [of xs mn] len assms(5) by simp
  have pw: "2 ^ (64 * mx) = ?B * ?C" using assms(5) by (simp add: power_add [symmetric] distrib_left [symmetric])
  have borrow: "?h < unat ?c \<longleftrightarrow> wval xs < ?y"
  proof (cases "?h = 0")
    case True
    then show ?thesis using v by simp
  next
    case False
    then have "?B \<le> ?B * ?h" by simp
    then have "?y \<le> wval xs" using v lt(2) by linarith
    moreover have "unat ?c \<le> 1" by simp
    ultimately show ?thesis using False by simp
  qed
  have split: "wlist mx (wval xs + 2 ^ (64 * mx) - ?y) = ?w1 @ ?w2"
  proof -
    let ?d = "?x + ?B - ?y"
    have "?d < 2 * ?B" using lt(1) by simp
    have dd: "?d div ?B = (if ?x < ?y then 0 else 1)" using lt by (auto simp: div_nat_eqI)
    have "wval xs + 2 ^ (64 * mx) - ?y = ?d + ?B * (?h + ?C - 1)"
    proof -
      have "?B * (?h + ?C - 1) = ?B * ?h + ?B * ?C - ?B" by (simp add: diff_mult_distrib2 distrib_left)
      moreover have "?B \<le> ?B * ?C" by simp
      ultimately show ?thesis using lt v pw by linarith
    qed
    then have "wlist (mn + (mx - mn)) (wval xs + 2 ^ (64 * mx) - ?y) = ?w1 @ wlist (mx - mn) (?h + ?C - 1 + ?d div ?B)"
      by (simp only: sum_split)
    moreover have "?h + ?C - 1 + ?d div ?B = ?h + ?C - unat ?c" using dd by simp
    ultimately show ?thesis using assms(5) by simp
  qed
  have "upd m r (wlist mx (wval xs + 2 ^ (64 * mx) - ?y)) = upd ?m1 (padd r mn) ?w2"
    unfolding split using upd_append [of m r ?w1 ?w2] assms(5,6) by simp
  then show ?thesis using bn_sub_words [OF first] borrow_loop [OF second, of ?c] borrow by simp
qed

section \<open>Addition and subtraction of \<open>BIGNUM\<close>s\<close>

lemma add_into:
  assumes inv: "bn_inv s" and a: "limbs_of s a = Some xs" and b: "limbs_of s b = Some ys" and le: "length ys \<le> length xs"
    and r: "nums s r = Some rb" "Suc (length xs) \<le> dmax rb"
  shows "do {
       s \<leftarrow> set_num s r (\<lambda>bn. bn\<lparr>width := length xs + 1\<rparr>);
       rp \<leftarrow> d_of s r;
       ap \<leftarrow> d_of s a;
       bp \<leftarrow> d_of s b;
       (carry, m) \<leftarrow> bn_add_words (arrays s) rp ap bp (length ys);
       (carry, m) \<leftarrow> steps (carry_step rp ap) (length xs - length ys) (length ys) carry m;
       m \<leftarrow> wr m rp (length xs) carry;
       Some (True, s\<lparr>arrays := m\<rparr>)
     } = Some (True, stored s r (wlist (Suc (length xs)) (wval xs + wval ys)) (neg rb))"
proof -
  obtain an where an: "nums s a = Some an" "words_at (arrays s) (limb_array an, 0) (length xs) = Some xs" using limbs_pointer [OF inv a] by metis
  obtain bn where bn: "nums s b = Some bn" "words_at (arrays s) (limb_array bn, 0) (length ys) = Some ys" using limbs_pointer [OF inv b] by metis
  obtain ws where "room (arrays s) (limb_array rb, 0) (dmax rb)" using inv_limbs [OF inv r(1)] by metis
  then have room: "room (arrays s) (limb_array rb, 0) (Suc (length xs))" using r(2) by (rule room_0_mono)
  let ?s = "s\<lparr>nums := (nums s)(r \<mapsto> rb\<lparr>width := length xs + 1\<rparr>)\<rparr>"
  have d: "d_of ?s x = d_of s x" for x using r(1) by (simp add: d_of_def)
  have st: "set_num s r (\<lambda>bn. bn\<lparr>width := length xs + 1\<rparr>) = Some ?s" using r(1) by (simp add: set_num_def)
  have p: "d_of s r = Some (limb_array rb, 0)" "d_of s a = Some (limb_array an, 0)" "d_of s b = Some (limb_array bn, 0)"
    using r(1) an(1) bn(1) by (simp_all add: d_of_def)
  obtain c1 m1 c2 m2 where l: "bn_add_words (arrays s) (limb_array rb, 0) (limb_array an, 0) (limb_array bn, 0) (length ys) = Some (c1, m1)"
    "steps (carry_step (limb_array rb, 0) (limb_array an, 0)) (length xs - length ys) (length ys) c1 m1 = Some (c2, m2)"
    "wr m2 (limb_array rb, 0) (length xs) c2 = Some (upd (arrays s) (limb_array rb, 0) (wlist (Suc (length xs)) (wval xs + wval ys)))"
    using add_loops [OF an(2) pointers_undisturbed bn(2) pointers_undisturbed le room] by (auto simp: bind_eq_Some)
  have "?s\<lparr>arrays := upd (arrays s) (limb_array rb, 0) (wlist (Suc (length xs)) (wval xs + wval ys))\<rparr> =
      stored s r (wlist (Suc (length xs)) (wval xs + wval ys)) (neg rb)"
    using r(1) by (simp add: stored_def del: wlist.simps)
  then show ?thesis using l by (simp add: st [unfolded Suc_eq_plus1 [symmetric]] d [unfolded Suc_eq_plus1 [symmetric]] p del: wlist.simps)
qed

lemma uadd_consttime:
  assumes inv: "bn_inv s" and g: "grants_arrays alloc" and a: "limbs_of s a = Some xs" and b: "limbs_of s b = Some ys" and r: "nums s r = Some rb"
  shows "outcome r s (bn_uadd_consttime alloc s r a b) (can_expand alloc s r (Suc (max (length xs) (length ys))))
    (\<lambda>s'. limbs_of s' r = Some (wlist (Suc (max (length xs) (length ys))) (wval xs + wval ys)) \<and> bn_sign s' r = neg rb)"
proof -
  have core: "outcome r s (on_room (bn_wexpand alloc s r (length xs + 1)) (\<lambda>s. do {
       s \<leftarrow> set_num s r (\<lambda>bn. bn\<lparr>width := length xs + 1\<rparr>);
       rp \<leftarrow> d_of s r;
       ap \<leftarrow> d_of s a;
       bp \<leftarrow> d_of s b;
       (carry, m) \<leftarrow> bn_add_words (arrays s) rp ap bp (length ys);
       (carry, m) \<leftarrow> steps (carry_step rp ap) (length xs - length ys) (length ys) carry m;
       m \<leftarrow> wr m rp (length xs) carry;
       Some (True, s\<lparr>arrays := m\<rparr>)
     })) (can_expand alloc s r (length xs + 1)) (\<lambda>s'. limbs_of s' r = Some (wlist (Suc (length xs)) (wval xs + wval ys)) \<and> bn_sign s' r = neg rb)"
    if a: "limbs_of s a = Some xs" and b: "limbs_of s b = Some ys" and le: "length ys \<le> length xs" for a b xs ys
  proof (rule outcome_expand [OF inv g r])
    fix s' bn'
    assume s': "bn_inv s'" "only_changes r s s'" "nums s' r = Some bn'" "neg bn' = neg rb" "length xs + 1 \<le> dmax bn'" and limbs: "\<And>x. limbs_of s' x = limbs_of s x"
    let ?t = "stored s' r (wlist (Suc (length xs)) (wval xs + wval ys)) (neg bn')"
    have len: "length (wlist (Suc (length xs)) (wval xs + wval ys)) \<le> dmax bn'" using s'(5) by simp
    note st = stored_spec [OF s'(1,3) len]
    show "outcome r s' (do {
       s \<leftarrow> set_num s' r (\<lambda>bn. bn\<lparr>width := length xs + 1\<rparr>);
       rp \<leftarrow> d_of s r;
       ap \<leftarrow> d_of s a;
       bp \<leftarrow> d_of s b;
       (carry, m) \<leftarrow> bn_add_words (arrays s) rp ap bp (length ys);
       (carry, m) \<leftarrow> steps (carry_step rp ap) (length xs - length ys) (length ys) carry m;
       m \<leftarrow> wr m rp (length xs) carry;
       Some (True, s\<lparr>arrays := m\<rparr>)
     }) (can_expand alloc s r (length xs + 1)) (\<lambda>s'. limbs_of s' r = Some (wlist (Suc (length xs)) (wval xs + wval ys)) \<and> bn_sign s' r = neg rb)"
    proof (rule outcomeI [of _ True ?t])
      show "do {
       s \<leftarrow> set_num s' r (\<lambda>bn. bn\<lparr>width := length xs + 1\<rparr>);
       rp \<leftarrow> d_of s r;
       ap \<leftarrow> d_of s a;
       bp \<leftarrow> d_of s b;
       (carry, m) \<leftarrow> bn_add_words (arrays s) rp ap bp (length ys);
       (carry, m) \<leftarrow> steps (carry_step rp ap) (length xs - length ys) (length ys) carry m;
       m \<leftarrow> wr m rp (length xs) carry;
       Some (True, s\<lparr>arrays := m\<rparr>)
     } = Some (True, ?t)"
        by (rule add_into [OF s'(1) _ _ le s'(3)]) (use a b limbs s'(5) in simp_all)
      show "limbs_of ?t r = Some (wlist (Suc (length xs)) (wval xs + wval ys)) \<and> bn_sign ?t r = neg rb"
        using st(3) s'(3,4) by (simp add: bn_sign_def stored_simps)
    qed (use st(1,2) in simp_all)
  qed
  obtain an where an: "nums s a = Some an" "width an = length xs" using limbs_pointer [OF inv a] by metis
  obtain bn where bn: "nums s b = Some bn" "width bn = length ys" using limbs_pointer [OF inv b] by metis
  show ?thesis
  proof (cases "length xs < length ys")
    case True
    then show ?thesis using core [OF b a] an bn by (simp add: bn_uadd_consttime_def Let_def max_def add.commute)
  next
    case False
    then show ?thesis using core [OF a b] an bn by (simp add: bn_uadd_consttime_def Let_def max_def)
  qed
qed

lemma set_minimal_width:
  assumes "bn_inv s" "limbs_of s r = Some ws"
  shows "\<exists>s'. bn_set_minimal_width s r = Some s' \<and> bn_inv s' \<and> only_changes r s s' \<and> limbs_of s' r = Some (take (bn_minimal_width ws) ws) \<and>
    bn_sign s' r = (bn_sign s r \<and> wval ws \<noteq> 0)"
proof -
  obtain bn where bn: "nums s r = Some bn" "words_at (arrays s) (limb_array bn, 0) (length ws) = Some ws" "width bn = length ws"
    using limbs_pointer [OF assms] by metis
  let ?w = "bn_minimal_width ws"
  let ?bn = "bn\<lparr>width := ?w, neg := neg bn \<and> ?w \<noteq> 0\<rparr>"
  let ?s = "s\<lparr>nums := (nums s)(r \<mapsto> ?bn)\<rparr>"
  have le: "?w \<le> length ws" by (rule minimal_width)
  have "width bn \<le> dmax bn" using inv_limbs [OF assms(1) bn(1)] by metis
  then have "bn_inv ?s" using inv_fields [OF assms(1) bn(1), of ?bn] bn(3) le by simp
  moreover have "limbs_of ?s x = limbs_of s x" if "x \<noteq> r" for x using that by (simp add: limbs_of_def)
  moreover have "limbs_of ?s r = Some (take ?w ws)"
    using bn(2) le words_at_append [of "arrays s" "(limb_array bn, 0)" ?w "length ws - ?w" ws] by (simp add: limbs_of_def)
  moreover have "bn_set_minimal_width s r = Some ?s"
    using assms(2) bn(1) by (simp add: bn_set_minimal_width_def set_num_def)
  moreover have "bn_sign ?s r = (bn_sign s r \<and> wval ws \<noteq> 0)"
    using bn(1) minimal_width_zero [of ws] by (auto simp: bn_sign_def)
  ultimately show ?thesis using bn(1) by (intro exI [of _ ?s]) (simp add: only_changes_def)
qed

text \<open>A number in its least width; a negative zero.\<close>

definition bn_minimal :: "bn_state \<Rightarrow> nat \<Rightarrow> bool" where
  "bn_minimal s x \<longleftrightarrow> (\<exists>ws. limbs_of s x = Some ws \<and> bn_minimal_width ws = length ws)"

definition negative_zero :: "bn_state \<Rightarrow> nat \<Rightarrow> bool" where
  "negative_zero s x \<longleftrightarrow> bn_sign s x \<and> bn_mag s x = 0"

lemma minimal_width_take: "bn_minimal_width (take (bn_minimal_width ws) ws) = bn_minimal_width ws"
proof -
  let ?w = "bn_minimal_width ws" and ?ws = "take (bn_minimal_width ws) ws"
  have v: "wval ?ws = wval ws" and le: "?w \<le> length ws" by (rule minimal_width)+
  have "bn_minimal_width ?ws \<le> ?w" using minimal_width(1) [of ?ws] le by simp
  moreover have "?w \<le> bn_minimal_width ?ws"
  proof (rule ccontr)
    assume n: "\<not> ?w \<le> bn_minimal_width ?ws"
    then have "(2 :: nat) ^ (64 * bn_minimal_width ?ws) \<le> 2 ^ (64 * (?w - 1))" by (intro power_increasing) auto
    also have "\<dots> \<le> wval ws" using n by (intro minimal_width_bounds) simp
    finally show False using minimal_width_bounds(1) [of ?ws] v by simp
  qed
  ultimately show ?thesis by simp
qed

lemma outcome_minimal:
  assumes "outcome r s run granted (\<lambda>s'. \<exists>ws. limbs_of s' r = Some ws \<and> wval ws = v \<and> bn_sign s' r = sg)"
  shows "outcome r s (on_room run (\<lambda>s. map_option (\<lambda>s. (True, s)) (bn_set_minimal_width s r))) granted
    (\<lambda>s'. bn_mag s' r = v \<and> bn_minimal s' r \<and> bn_sign s' r = (sg \<and> v \<noteq> 0))"
proof (rule outcome_room [OF assms])
  fix s'
  assume "bn_inv s'" "only_changes r s s'" "\<exists>ws. limbs_of s' r = Some ws \<and> wval ws = v \<and> bn_sign s' r = sg"
  then obtain ws t where "limbs_of s' r = Some ws" "wval ws = v" "bn_sign s' r = sg" "bn_set_minimal_width s' r = Some t" "bn_inv t" "only_changes r s' t"
    "limbs_of t r = Some (take (bn_minimal_width ws) ws)" "bn_sign t r = (bn_sign s' r \<and> wval ws \<noteq> 0)" using set_minimal_width by metis
  then show "outcome r s' (map_option (\<lambda>s. (True, s)) (bn_set_minimal_width s' r)) granted
      (\<lambda>s'. bn_mag s' r = v \<and> bn_minimal s' r \<and> bn_sign s' r = (sg \<and> v \<noteq> 0))"
    using minimal_width [of ws] minimal_width_take [of ws]
    by (intro outcomeI [of _ True t]) (auto simp: bn_mag_def bn_minimal_def)
qed

lemma BN_uadd:
  assumes "bn_inv s" "grants_arrays alloc" "limbs_of s a = Some xs" "limbs_of s b = Some ys" "nums s r = Some rb"
  shows "outcome r s (BN_uadd alloc s r a b) (can_expand alloc s r (Suc (max (length xs) (length ys))))
    (\<lambda>s'. bn_mag s' r = bn_mag s a + bn_mag s b \<and> bn_minimal s' r)"
proof -
  have "wval xs + wval ys < 2 ^ (64 * Suc (max (length xs) (length ys)))"
  proof -
    have "wval xs < 2 ^ (64 * max (length xs) (length ys))" "wval ys < 2 ^ (64 * max (length xs) (length ys))"
      using wval_less [of xs] wval_less [of ys] by (metis less_le_trans max.cobounded1 max.cobounded2 mult_le_mono2 one_le_numeral power_increasing)+
    then show ?thesis by (simp add: power_add)
  qed
  then have "outcome r s (bn_uadd_consttime alloc s r a b) (can_expand alloc s r (Suc (max (length xs) (length ys))))
    (\<lambda>s'. \<exists>ws. limbs_of s' r = Some ws \<and> wval ws = wval xs + wval ys \<and> bn_sign s' r = neg rb)"
    by (intro outcome_weaken [OF uadd_consttime [OF assms]]) (auto simp: wval_wlist simp del: wlist.simps)
  from outcome_weaken [OF outcome_minimal [OF this]] show ?thesis
    using assms(3,4) by (simp add: BN_uadd_def bn_mag_def)
qed

text \<open>The loops of a subtraction, run on the state.\<close>

lemma limbs_of_arrays: "limbs_of (s\<lparr>nums := (nums s)(r \<mapsto> bn)\<rparr>) x = (if x = r then words_at (arrays s) (limb_array bn, 0) (width bn) else limbs_of s x)"
  by (simp add: limbs_of_def)

lemma sub_into:
  assumes inv: "bn_inv s" and a: "limbs_of s a = Some xs" and b: "limbs_of s b = Some ys"
    and w: "mn = min (length ys) (length xs)" and r: "nums s r = Some rb" "length xs \<le> dmax rb"
  shows "do {
       rp \<leftarrow> d_of s r;
       ap \<leftarrow> d_of s a;
       bp \<leftarrow> d_of s b;
       (borrow, m) \<leftarrow> bn_sub_words (arrays s) rp ap bp mn;
       steps (borrow_step rp ap) (length xs - mn) mn borrow m
     } = Some (of_bool (wval xs < wval (take mn ys)),
           upd (arrays s) (limb_array rb, 0) (wlist (length xs) (wval xs + 2 ^ (64 * length xs) - wval (take mn ys))))"
proof -
  obtain an where an: "nums s a = Some an" "words_at (arrays s) (limb_array an, 0) (length xs) = Some xs" using limbs_pointer [OF inv a] by metis
  obtain bn where bn: "nums s b = Some bn" "words_at (arrays s) (limb_array bn, 0) (length ys) = Some ys" using limbs_pointer [OF inv b] by metis
  obtain ws where "room (arrays s) (limb_array rb, 0) (dmax rb)" using inv_limbs [OF inv r(1)] by metis
  then have room: "room (arrays s) (limb_array rb, 0) (length xs)" using r(2) by (rule room_0_mono)
  have p: "d_of s r = Some (limb_array rb, 0)" "d_of s a = Some (limb_array an, 0)" "d_of s b = Some (limb_array bn, 0)"
    using r(1) an(1) bn(1) by (simp_all add: d_of_def)
  have ty: "words_at (arrays s) (limb_array bn, 0) mn = Some (take mn ys)"
    using bn(2) w words_at_append [of "arrays s" "(limb_array bn, 0)" mn "length ys - mn" ys] by simp
  show ?thesis
    using sub_loops [OF an(2) pointers_undisturbed ty pointers_undisturbed _ room] w by (simp add: p)
qed

lemma usub_consttime:
  assumes inv: "bn_inv s" and g: "grants_arrays alloc" and a: "limbs_of s a = Some xs" and b: "limbs_of s b = Some ys" and r: "nums s r = Some rb"
  shows "outcome r s (bn_usub_consttime alloc s r a b) (wval ys \<le> wval xs \<and> can_expand alloc s r (length xs))
    (\<lambda>s'. wval ys \<le> wval xs \<and> limbs_of s' r = Some (wlist (length xs) (wval xs - wval ys)) \<and> \<not> bn_sign s' r)"
    (is "outcome r s _ ?granted ?Q")
proof -
  obtain an where an: "nums s a = Some an" "width an = length xs" using limbs_pointer [OF inv a] by metis
  obtain bn where bn: "nums s b = Some bn" "width bn = length ys" using limbs_pointer [OF inv b] by metis
  let ?mn = "min (length ys) (length xs)"
  show ?thesis
  proof (cases "length ys > length xs \<and> \<not> bn_fits_in_words ys (length xs)")
    case True
    then have "wval xs < wval ys" using wval_less [of xs] fits_in_words [of ys "length xs"] by linarith
    then show ?thesis using True an bn b inv by (auto simp: bn_usub_consttime_def outcome_def)
  next
    case False
    then have v: "wval (take ?mn ys) = wval ys"
      using wval_take_drop [of ys "length xs"] by (cases "length ys > length xs") (simp_all add: min_def bn_fits_in_words_def or_words_zero)
    let ?granted = "wval ys \<le> wval xs \<and> can_expand alloc s r (length xs)"
    have "outcome r s (on_room (bn_wexpand alloc s r (length xs)) (\<lambda>s. do {
         rp \<leftarrow> d_of s r;
         ap \<leftarrow> d_of s a;
         bp \<leftarrow> d_of s b;
         (borrow, m) \<leftarrow> bn_sub_words (arrays s) rp ap bp ?mn;
         (borrow, m) \<leftarrow> steps (borrow_step rp ap) (length xs - ?mn) ?mn borrow m;
         if borrow \<noteq> 0 then Some (False, s\<lparr>arrays := m\<rparr>)
         else do {
           s \<leftarrow> set_num (s\<lparr>arrays := m\<rparr>) r (\<lambda>bn. bn\<lparr>width := length xs, neg := False\<rparr>);
           Some (True, s)
         }
       })) ?granted ?Q"
    proof (rule outcome_expand_if [OF inv g r])
      fix s' bn'
      assume s': "bn_inv s'" "only_changes r s s'" "nums s' r = Some bn'" "length xs \<le> dmax bn'" and limbs: "\<And>x. limbs_of s' x = limbs_of s x"
      let ?v = "wlist (length xs) (wval xs + 2 ^ (64 * length xs) - wval ys)"
      let ?m = "upd (arrays s') (limb_array bn', 0) ?v"
      note into = sub_into [OF s'(1) _ _ refl s'(3,4), of a b ys, unfolded limbs, OF a b, unfolded v]
      obtain rp ap bp c m where l: "d_of s' r = Some rp" "d_of s' a = Some ap" "d_of s' b = Some bp"
        "bn_sub_words (arrays s') rp ap bp ?mn = Some (c, m)"
        "steps (borrow_step rp ap) (length xs - ?mn) ?mn c m = Some (of_bool (wval xs < wval ys), ?m)"
        using into by (auto simp: bind_eq_Some)
      show "outcome r s' (do {
         rp \<leftarrow> d_of s' r;
         ap \<leftarrow> d_of s' a;
         bp \<leftarrow> d_of s' b;
         (borrow, m) \<leftarrow> bn_sub_words (arrays s') rp ap bp ?mn;
         (borrow, m) \<leftarrow> steps (borrow_step rp ap) (length xs - ?mn) ?mn borrow m;
         if borrow \<noteq> 0 then Some (False, s'\<lparr>arrays := m\<rparr>)
         else do {
           s \<leftarrow> set_num (s'\<lparr>arrays := m\<rparr>) r (\<lambda>bn. bn\<lparr>width := length xs, neg := False\<rparr>);
           Some (True, s)
         }
       }) ?granted ?Q"
      proof (cases "wval xs < wval ys")
        case True
        have "bn_inv (s'\<lparr>arrays := ?m\<rparr>)" using s'(4) by (intro inv_arrays(1) [OF s'(1,3)]) simp_all
        moreover have "only_changes r s' (s'\<lparr>arrays := ?m\<rparr>)"
          using inv_arrays(2) [OF s'(1,3), of "(limb_array bn', 0)" ?v] s'(4) by (simp add: only_changes_def)
        ultimately show ?thesis using l True by (intro outcomeI [of _ False]) simp_all
      next
        case False
        have "wval xs + 2 ^ (64 * length xs) - wval ys = (wval xs - wval ys) + 2 ^ (64 * length xs)" using False by simp
        then have v: "?v = wlist (length xs) (wval xs - wval ys)" by (intro wlist_eqI) (simp_all add: wval_wlist)
        let ?t = "stored s' r ?v False"
        have "length ?v \<le> dmax bn'" using s'(4) by simp
        note st = stored_spec [OF s'(1,3) this, of False]
        have "?t = s'\<lparr>arrays := ?m, nums := (nums s')(r \<mapsto> bn'\<lparr>width := length xs, neg := False\<rparr>)\<rparr>" using s'(3) by (simp add: stored_def)
        moreover have "\<not> bn_sign ?t r" using s'(3) by (simp add: bn_sign_def stored_simps)
        ultimately show ?thesis using l False st s'(3) v by (intro outcomeI [of _ True ?t]) (simp_all add: set_num_def)
      qed
    qed simp
    then show ?thesis using False an bn b by (cases "length xs < length ys") (simp_all add: bn_usub_consttime_def Let_def min_def cong: if_cong)
  qed
qed

lemma BN_usub:
  assumes "bn_inv s" "grants_arrays alloc" "limbs_of s a = Some xs" "limbs_of s b = Some ys" "nums s r = Some rb"
  shows "outcome r s (BN_usub alloc s r a b) (bn_mag s b \<le> bn_mag s a \<and> can_expand alloc s r (length xs))
    (\<lambda>s'. bn_mag s b \<le> bn_mag s a \<and> bn_mag s' r = bn_mag s a - bn_mag s b \<and> bn_minimal s' r)"
proof -
  have mag: "bn_mag s a = wval xs" "bn_mag s b = wval ys" using assms(3,4) by (simp_all add: bn_mag_def)
  have "wval xs < 2 ^ (64 * length xs)" by (rule wval_less)
  then have "wval xs - wval ys < 2 ^ (64 * length xs)" by simp
  then have sub: "outcome r s (bn_usub_consttime alloc s r a b) (wval ys \<le> wval xs \<and> can_expand alloc s r (length xs))
    (\<lambda>s'. \<exists>ws. limbs_of s' r = Some ws \<and> wval ws = wval xs - wval ys \<and> bn_sign s' r = False)"
    by (intro outcome_weaken [OF usub_consttime [OF assms]]) (auto simp: wval_wlist)
  show ?thesis
  proof (cases "wval ys \<le> wval xs")
    case True
    from outcome_weaken [OF outcome_minimal [OF sub]] True show ?thesis by (simp add: BN_usub_def mag)
  next
    case False
    have "outcome r s (bn_usub_consttime alloc s r a b) False (\<lambda>s'. False)"
      using outcome_weaken [OF outcome_less [OF usub_consttime [OF assms], of False], of "\<lambda>s'. False"] False by simp
    then have "outcome r s (BN_usub alloc s r a b) False (\<lambda>s'. False)"
      unfolding BN_usub_def by (rule outcome_room) simp
    then show ?thesis using False by (simp add: mag outcome_def)
  qed
qed

lemma set_sign:
  assumes "bn_inv s" "nums s r = Some rb"
  shows "\<exists>s'. set_num s r (\<lambda>bn. bn\<lparr>neg := sg\<rparr>) = Some s' \<and> bn_inv s' \<and> only_changes r s s' \<and> limbs_of s' r = limbs_of s r \<and> bn_sign s' r = sg"
proof -
  let ?s = "s\<lparr>nums := (nums s)(r \<mapsto> rb\<lparr>neg := sg\<rparr>)\<rparr>"
  obtain ws where "width rb \<le> dmax rb" using inv_limbs [OF assms] by metis
  then have "bn_inv ?s" using inv_fields [OF assms, of "rb\<lparr>neg := sg\<rparr>"] by simp
  then show ?thesis using assms(2) by (intro exI [of _ ?s]) (simp add: set_num_def only_changes_def limbs_of_def bn_sign_def)
qed

lemma outcome_with_sign:
  assumes "outcome r s run granted (\<lambda>s'. P \<and> bn_mag s' r = v \<and> bn_minimal s' r)" "nums s r = Some rb"
  shows "outcome r s (on_room run (with_sign sg r)) granted (\<lambda>s'. P \<and> bn_mag s' r = v \<and> bn_minimal s' r \<and> bn_sign s' r = sg)"
proof (rule outcome_room [OF assms(1)])
  fix s'
  assume s': "bn_inv s'" "only_changes r s s'" "P \<and> bn_mag s' r = v \<and> bn_minimal s' r"
  then obtain rb' where "nums s' r = Some rb'" using assms(2) by (auto simp: only_changes_def)
  from set_sign [OF s'(1) this, of sg] obtain t where t: "set_num s' r (\<lambda>bn. bn\<lparr>neg := sg\<rparr>) = Some t" "bn_inv t" "only_changes r s' t"
    "limbs_of t r = limbs_of s' r" "bn_sign t r = sg" by blast
  then show "outcome r s' (with_sign sg r s') granted (\<lambda>s'. P \<and> bn_mag s' r = v \<and> bn_minimal s' r \<and> bn_sign s' r = sg)"
    using s'(3) by (intro outcomeI [of _ True t]) (simp_all add: with_sign_def bn_mag_def bn_minimal_def)
qed

text \<open>Room for \<open>n\<close> words or fewer.\<close>

definition can_hold :: "bn_alloc \<Rightarrow> bn_state \<Rightarrow> nat \<Rightarrow> nat \<Rightarrow> bool" where
  "can_hold alloc s x n \<longleftrightarrow> (\<forall>k\<le>n. can_expand alloc s x k)"

lemma usub_signed:
  assumes "bn_inv s" "grants_arrays alloc" "limbs_of s a = Some xs" "limbs_of s b = Some ys" "nums s r = Some rb"
  shows "outcome r s (usub_signed alloc s r a b) (can_hold alloc s r (max (length xs) (length ys)))
    (\<lambda>s'. bn_int s' r = int (bn_mag s a) - int (bn_mag s b) \<and> bn_minimal s' r \<and> \<not> negative_zero s' r)"
proof -
  have mag: "bn_mag s a = wval xs" "bn_mag s b = wval ys" using assms(3,4) by (simp_all add: bn_mag_def)
  show ?thesis
  proof (cases "wval xs < wval ys")
    case True
    have "outcome r s (on_room (BN_usub alloc s r b a) (with_sign True r)) (can_hold alloc s r (max (length xs) (length ys)))
      (\<lambda>s'. bn_mag s a \<le> bn_mag s b \<and> bn_mag s' r = bn_mag s b - bn_mag s a \<and> bn_minimal s' r \<and> bn_sign s' r = True)"
      by (rule outcome_less [OF outcome_with_sign [OF BN_usub [OF assms(1,2,4,3,5)] assms(5)]]) (use True mag in \<open>simp add: can_hold_def\<close>)
    then have "outcome r s (on_room (BN_usub alloc s r b a) (with_sign True r)) (can_hold alloc s r (max (length xs) (length ys)))
      (\<lambda>s'. bn_int s' r = int (bn_mag s a) - int (bn_mag s b) \<and> bn_minimal s' r \<and> \<not> negative_zero s' r)"
      by (rule outcome_weaken) (use True mag in \<open>simp add: bn_int_def negative_zero_def of_nat_diff\<close>)
    then show ?thesis using True assms(3,4) by (simp add: usub_signed_def BN_ucmp)
  next
    case False
    have "outcome r s (on_room (BN_usub alloc s r a b) (with_sign False r)) (can_hold alloc s r (max (length xs) (length ys)))
      (\<lambda>s'. bn_mag s b \<le> bn_mag s a \<and> bn_mag s' r = bn_mag s a - bn_mag s b \<and> bn_minimal s' r \<and> bn_sign s' r = False)"
      by (rule outcome_less [OF outcome_with_sign [OF BN_usub [OF assms(1,2,3,4,5)] assms(5)]]) (use False mag in \<open>simp add: can_hold_def\<close>)
    then have "outcome r s (on_room (BN_usub alloc s r a b) (with_sign False r)) (can_hold alloc s r (max (length xs) (length ys)))
      (\<lambda>s'. bn_int s' r = int (bn_mag s a) - int (bn_mag s b) \<and> bn_minimal s' r \<and> \<not> negative_zero s' r)"
      by (rule outcome_weaken) (use False mag in \<open>simp add: bn_int_def negative_zero_def of_nat_diff\<close>)
    then show ?thesis using False assms(3,4) by (simp add: usub_signed_def BN_ucmp)
  qed
qed

lemma int_signed: "bn_int s x = (if bn_sign s x then - int (bn_mag s x) else int (bn_mag s x))"
  by (simp add: bn_int_def)

text \<open>Neither the sum nor the difference depends on which of \<open>r\<close>, \<open>a\<close> and \<open>b\<close> are the same \<open>BIGNUM\<close>.\<close>

definition sum_outcome :: "bn_alloc \<Rightarrow> bn_state \<Rightarrow> nat \<Rightarrow> nat \<Rightarrow> nat \<Rightarrow> int \<Rightarrow> (bool \<times> bn_state) option \<Rightarrow> bool" where
  "sum_outcome alloc s r a b v run \<longleftrightarrow>
     outcome r s run (can_hold alloc s r (Suc (max (length (the (limbs_of s a))) (length (the (limbs_of s b))))))
       (\<lambda>s'. bn_int s' r = v \<and> bn_minimal s' r \<and> (negative_zero s' r \<longrightarrow> negative_zero s a))"

lemma signed_uadd:
  assumes "bn_inv s" "grants_arrays alloc" "limbs_of s a = Some xs" "limbs_of s b = Some ys" "nums s r = Some rb"
  shows "outcome r s (on_room (BN_uadd alloc s r a b) (with_sign sg r)) (can_hold alloc s r (Suc (max (length xs) (length ys))))
      (\<lambda>s'. bn_int s' r = (if sg then - (int (bn_mag s a) + int (bn_mag s b)) else int (bn_mag s a) + int (bn_mag s b)) \<and> bn_minimal s' r \<and>
        (negative_zero s' r \<longrightarrow> sg \<and> bn_mag s a = 0))"
proof -
  have "outcome r s (BN_uadd alloc s r a b) (can_hold alloc s r (Suc (max (length xs) (length ys))))
      (\<lambda>s'. True \<and> bn_mag s' r = bn_mag s a + bn_mag s b \<and> bn_minimal s' r)"
    using outcome_less [OF BN_uadd [OF assms]] by (simp add: can_hold_def)
  from outcome_with_sign [OF this assms(5), of sg] show ?thesis
    by (rule outcome_weaken) (auto simp: bn_int_def negative_zero_def)
qed

lemma uadd_then_sign:
  assumes "outcome r s (on_room run (with_sign sg r)) granted Q" "outcome r s run granted P" "nums s r = Some rb"
  shows "outcome r s (do { (ret, s) \<leftarrow> run; s \<leftarrow> set_num s r (\<lambda>bn. bn\<lparr>neg := sg\<rparr>); Some (ret, s) }) granted Q"
proof -
  obtain ok s' where run: "run = Some (ok, s')" "bn_inv s'" "only_changes r s s'" "granted \<longrightarrow> ok" using assms(2) by (auto simp: outcome_def)
  then obtain rb' where "nums s' r = Some rb'" using assms(3) by (auto simp: only_changes_def)
  from set_sign [OF run(2) this, of sg] obtain t where t: "set_num s' r (\<lambda>bn. bn\<lparr>neg := sg\<rparr>) = Some t" "bn_inv t" "only_changes r s' t" by blast
  show ?thesis
  proof (cases ok)
    case True
    then show ?thesis using assms(1) run(1) t(1) by (simp add: on_room_def with_sign_def)
  next
    case False
    then show ?thesis using run t only_changes_trans [OF run(3) t(3)] by (intro outcomeI [of _ False t]) simp_all
  qed
qed

lemma usub_outcome:
  assumes "bn_inv s" "grants_arrays alloc" "limbs_of s a = Some xs" "limbs_of s b = Some ys" "nums s r = Some rb"
    and "int (bn_mag s a) - int (bn_mag s b) = v" "n = Suc (max (length xs) (length ys))"
  shows "outcome r s (usub_signed alloc s r a b) (can_hold alloc s r n)
       (\<lambda>s'. bn_int s' r = v \<and> bn_minimal s' r \<and> (negative_zero s' r \<longrightarrow> P))"
proof -
  have "outcome r s (usub_signed alloc s r a b) (can_hold alloc s r n)
    (\<lambda>s'. bn_int s' r = int (bn_mag s a) - int (bn_mag s b) \<and> bn_minimal s' r \<and> \<not> negative_zero s' r)"
    by (rule outcome_less [OF usub_signed [OF assms(1-5)]]) (use assms(7) in \<open>simp add: can_hold_def\<close>)
  then show ?thesis by (rule outcome_weaken) (use assms(6) in simp)
qed

lemma BN_add:
  assumes "bn_inv s" "grants_arrays alloc" "limbs_of s a = Some xs" "limbs_of s b = Some ys" "nums s r = Some rb"
  shows "sum_outcome alloc s r a b (bn_int s a + bn_int s b) (BN_add alloc s r a b)"
proof -
  obtain an where an: "nums s a = Some an" using limbs_pointer [OF assms(1,3)] by metis
  obtain bn where bn: "nums s b = Some bn" using limbs_pointer [OF assms(1,4)] by metis
  have sg: "bn_sign s a = neg an" "bn_sign s b = neg bn" using an bn by (simp_all add: bn_sign_def)
  consider (minus) "neg an" "\<not> neg bn" | (plus) "\<not> neg an" "neg bn" | (same) "neg an = neg bn" by blast
  then show ?thesis
  proof cases
    case minus
    show ?thesis
      unfolding sum_outcome_def
      using usub_outcome [OF assms(1,2,4,3,5) _ refl, of "bn_int s a + bn_int s b" "negative_zero s a"] minus an bn sg assms(3,4)
      by (simp add: BN_add_def int_signed max.commute)
  next
    case plus
    show ?thesis
      unfolding sum_outcome_def
      using usub_outcome [OF assms(1,2,3,4,5) _ refl, of "bn_int s a + bn_int s b" "negative_zero s a"] plus an bn sg assms(3,4)
      by (simp add: BN_add_def int_signed)
  next
    case same
    have "outcome r s (BN_uadd alloc s r a b) (can_hold alloc s r (Suc (max (length xs) (length ys)))) (\<lambda>s'. bn_mag s' r = bn_mag s a + bn_mag s b \<and> bn_minimal s' r)"
      using outcome_less [OF BN_uadd [OF assms]] by (simp add: can_hold_def)
    from uadd_then_sign [OF signed_uadd [OF assms, of "neg an"] this assms(5)]
    have "outcome r s (BN_add alloc s r a b) (can_hold alloc s r (Suc (max (length xs) (length ys))))
      (\<lambda>s'. bn_int s' r = (if neg an then - (int (bn_mag s a) + int (bn_mag s b)) else int (bn_mag s a) + int (bn_mag s b)) \<and> bn_minimal s' r \<and>
        (negative_zero s' r \<longrightarrow> neg an \<and> bn_mag s a = 0))"
      using same an bn by (simp add: BN_add_def)
    then show ?thesis
      unfolding sum_outcome_def assms(3,4) option.sel
      by (rule outcome_weaken) (use same sg in \<open>auto simp: int_signed negative_zero_def split: if_splits\<close>)
  qed
qed

lemma BN_sub:
  assumes "bn_inv s" "grants_arrays alloc" "limbs_of s a = Some xs" "limbs_of s b = Some ys" "nums s r = Some rb"
  shows "sum_outcome alloc s r a b (bn_int s a - bn_int s b) (BN_sub alloc s r a b)"
proof -
  obtain an where an: "nums s a = Some an" using limbs_pointer [OF assms(1,3)] by metis
  obtain bn where bn: "nums s b = Some bn" using limbs_pointer [OF assms(1,4)] by metis
  have sg: "bn_sign s a = neg an" "bn_sign s b = neg bn" using an bn by (simp_all add: bn_sign_def)
  consider (minus) "neg an" "neg bn" | (plus) "\<not> neg an" "\<not> neg bn" | (differ) "neg an \<noteq> neg bn" by blast
  then show ?thesis
  proof cases
    case minus
    show ?thesis
      unfolding sum_outcome_def
      using usub_outcome [OF assms(1,2,4,3,5) _ refl, of "bn_int s a - bn_int s b" "negative_zero s a"] minus an bn sg assms(3,4)
      by (simp add: BN_sub_def int_signed max.commute)
  next
    case plus
    show ?thesis
      unfolding sum_outcome_def
      using usub_outcome [OF assms(1,2,3,4,5) _ refl, of "bn_int s a - bn_int s b" "negative_zero s a"] plus an bn sg assms(3,4)
      by (simp add: BN_sub_def int_signed)
  next
    case differ
    have "outcome r s (BN_sub alloc s r a b) (can_hold alloc s r (Suc (max (length xs) (length ys))))
      (\<lambda>s'. bn_int s' r = (if neg an then - (int (bn_mag s a) + int (bn_mag s b)) else int (bn_mag s a) + int (bn_mag s b)) \<and> bn_minimal s' r \<and>
        (negative_zero s' r \<longrightarrow> neg an \<and> bn_mag s a = 0))"
      using signed_uadd [OF assms, of "neg an"] differ an bn by (simp add: BN_sub_def)
    then show ?thesis
      unfolding sum_outcome_def assms(3,4) option.sel
      by (rule outcome_weaken) (use differ sg in \<open>auto simp: int_signed negative_zero_def split: if_splits\<close>)
  qed
qed

end
