(* ===== verification/BnSum.thy ===== *)
theory BnSum
  imports BnAdd
begin

text \<open>
  What the comparison, the sum and the difference of \<open>BIGNUM\<close>s are, in terms of the integers that they stand for.
\<close>

lemma inv_int:
  assumes "bn_inv s" "nums s x \<noteq> None"
  obtains bn xs where "nums s x = Some bn" "limbs_of s x = Some xs" "length xs = width bn" "bn_mag s x = wval xs" "bn_sign s x = neg bn"
proof -
  obtain bn where bn: "nums s x = Some bn" using assms(2) by auto
  obtain xs where "limbs_of s x = Some xs" "length xs = width bn" using inv_limbs [OF assms(1) bn] .
  then show ?thesis using bn by (intro that) (simp_all add: mag_limbs bn_sign_def)
qed

lemma bit_length_unique:
  assumes "bit_length v m" "bit_length v n"
  shows "m = n"
proof -
  have "\<not> m < n" if "bit_length v m" "bit_length v n" for m n
  proof
    assume "m < n"
    then have "(2 :: nat) ^ m \<le> 2 ^ (n - 1)" by (intro power_increasing) auto
    also have "\<dots> \<le> v" using that(2) \<open>m < n\<close> by (simp add: bit_length_def)
    finally show False using that(1) by (simp add: bit_length_def)
  qed
  then show ?thesis using assms by (meson linorder_neqE_nat)
qed

text \<open>C13. \<open>BN_add\<close> and \<open>BN_sub\<close> leave in \<open>r\<close> the sum and the difference of the values that \<open>a\<close> and \<open>b\<close> had before the call, also when
  some or all of the three are the same \<open>BIGNUM\<close>.  They return for every state in which each number has its array, change no other
  number, succeed whenever \<open>r\<close> can have one word more than the longer operand, and report failure otherwise.  The result
  has its least width, and is not a negative zero unless \<open>a\<close> was.
\<close>

theorem BN_add_sub_exact:
  assumes "bn_inv s" "grants_arrays alloc" "nums s a = Some an" "nums s b = Some bn" "nums s r = Some rn"
  shows "outcome r s (BN_add alloc s r a b) (can_hold alloc s r (max (width an) (width bn) + 1))
      (\<lambda>s'. bn_int s' r = bn_int s a + bn_int s b \<and> bn_minimal s' r \<and> (negative_zero s' r \<longrightarrow> negative_zero s a)) \<and>
    outcome r s (BN_sub alloc s r a b) (can_hold alloc s r (max (width an) (width bn) + 1))
      (\<lambda>s'. bn_int s' r = bn_int s a - bn_int s b \<and> bn_minimal s' r \<and> (negative_zero s' r \<longrightarrow> negative_zero s a))"
proof -
  obtain xs where xs: "limbs_of s a = Some xs" "length xs = width an" using inv_limbs [OF assms(1,3)] by metis
  obtain ys where ys: "limbs_of s b = Some ys" "length ys = width bn" using inv_limbs [OF assms(1,4)] by metis
  show ?thesis
    using BN_add [OF assms(1,2) xs(1) ys(1) assms(5)] BN_sub [OF assms(1,2) xs(1) ys(1) assms(5)] xs ys by (simp add: sum_outcome_def)
qed

text \<open>Two numbers, 5 and -7, the first with an array of two words; memory for more is refused.\<close>

definition two_nums :: bn_state where
  "two_nums = \<lparr>arrays = [0 \<mapsto> [], 4 \<mapsto> [5, 0], 5 \<mapsto> [7]],
     nums = [2 \<mapsto> \<lparr>limb_array = 4, width = 1, dmax = 2, neg = False, static_data = False\<rparr>,
             3 \<mapsto> \<lparr>limb_array = 5, width = 1, dmax = 1, neg = True, static_data = False\<rparr>]\<rparr>"

lemma two_nums:
  shows "bn_inv two_nums" "bn_int two_nums 2 = 5" "bn_int two_nums 3 = - 7"
  by (auto simp: two_nums_def bn_inv_def bn_int_def bn_sign_def bn_mag_def limbs_of_def words_at_def check_def split: if_splits)

theorem BN_add_sub_exact_witness:
  "\<exists>s' s''. BN_add (\<lambda>_ _. None) two_nums 2 2 3 = Some (True, s') \<and> bn_int s' 2 = - 2 \<and>
     BN_sub (\<lambda>_ _. None) two_nums 2 2 3 = Some (True, s'') \<and> bn_int s'' 2 = 12"
proof -
  note n = two_nums(1)
  have "nums two_nums 2 = Some \<lparr>limb_array = 4, width = 1, dmax = 2, neg = False, static_data = False\<rparr>"
    "nums two_nums 3 = Some \<lparr>limb_array = 5, width = 1, dmax = 1, neg = True, static_data = False\<rparr>" by (simp_all add: two_nums_def)
  from BN_add_sub_exact [OF n _ this this(1), of "\<lambda>_ _. None"] this show ?thesis
    by (auto simp: outcome_def grants_arrays_def can_hold_def can_expand_def two_nums(2,3))
qed

text \<open>C14. \<open>BN_cmp\<close> gives the sign of the difference of two numbers that are not negative zeros, whatever their widths, although it
  compares words with masks and reads all of them; \<open>NULL\<close> comes after every number.
\<close>

theorem BN_cmp_exact:
  assumes "bn_inv s" "nums s a \<noteq> None" "nums s b \<noteq> None" "\<not> negative_zero s a" "\<not> negative_zero s b"
  shows "BN_cmp s (Some a) (Some b) = Some (sgn (bn_int s a - bn_int s b)) \<and>
    BN_cmp s (Some a) None = Some (- 1) \<and> BN_cmp s None (Some b) = Some 1 \<and> BN_cmp s None None = Some 0"
proof -
  obtain an xs where a: "nums s a = Some an" "limbs_of s a = Some xs" "bn_mag s a = wval xs" "bn_sign s a = neg an" using inv_int [OF assms(1,2)] by metis
  obtain bn ys where b: "nums s b = Some bn" "limbs_of s b = Some ys" "bn_mag s b = wval ys" "bn_sign s b = neg bn" using inv_int [OF assms(1,3)] by metis
  have "neg an \<Longrightarrow> wval xs > 0" "neg bn \<Longrightarrow> wval ys > 0" using assms(4,5) a b by (simp_all add: negative_zero_def)
  then have "BN_cmp s (Some a) (Some b) = Some (sgn (bn_int s a - bn_int s b))"
    using a b by (cases "neg an"; cases "neg bn") (auto simp: BN_cmp_def BN_ucmp bn_int_def sgn_if)
  then show ?thesis by (simp add: BN_cmp_def)
qed

theorem BN_cmp_exact_witness: "BN_cmp two_nums (Some 3) (Some 2) = Some (- 1)"
proof -
  have "nums two_nums 2 \<noteq> None" "nums two_nums 3 \<noteq> None" by (simp_all add: two_nums_def)
  moreover have "\<not> negative_zero two_nums 2" "\<not> negative_zero two_nums 3"
    using two_nums(2,3) by (auto simp: negative_zero_def bn_int_def split: if_splits)
  ultimately show ?thesis using BN_cmp_exact [OF two_nums(1), of 3 2] by (simp add: two_nums(2,3))
qed

text \<open>C15. \<open>BN_num_bits\<close>, computed without a branch on the top word, is the length of the number in binary, and \<open>BN_num_bytes\<close> its length
  in bytes; zero words above the number do not count.
\<close>

theorem BN_num_bits_exact:
  "wval ws < 2 ^ BN_num_bits ws \<and> (BN_num_bits ws = 0 \<or> 2 ^ (BN_num_bits ws - 1) \<le> wval ws) \<and>
   wval ws < 256 ^ BN_num_bytes ws \<and> (BN_num_bytes ws = 0 \<or> 256 ^ (BN_num_bytes ws - 1) \<le> wval ws) \<and>
   BN_num_bits (ws @ replicate k 0) = BN_num_bits ws"
proof -
  let ?n = "BN_num_bits ws" and ?k = "BN_num_bytes ws"
  have n: "wval ws < 2 ^ ?n" "?n \<noteq> 0 \<Longrightarrow> 2 ^ (?n - 1) \<le> wval ws" using num_bits [of ws] by (simp_all add: bit_length_def)
  have p: "(256 :: nat) ^ k = 2 ^ (8 * k)" for k by (simp add: power_mult)
  have "wval ws < 2 ^ (8 * ?k)"
    using n(1) power_increasing [of ?n "8 * ?k" "2 :: nat"] by (simp add: BN_num_bytes_def less_le_trans)
  moreover have "2 ^ (8 * (?k - 1)) \<le> wval ws" if "?k \<noteq> 0"
  proof -
    have "?n \<noteq> 0" "8 * (?k - 1) \<le> ?n - 1" using that by (auto simp: BN_num_bytes_def)
    then show ?thesis using n(2) power_increasing [of "8 * (?k - 1)" "?n - 1" "2 :: nat"] by linarith
  qed
  moreover have "BN_num_bits (ws @ replicate k 0) = ?n"
    using bit_length_unique [OF _ num_bits [of ws]] num_bits [of "ws @ replicate k 0"] by (simp add: wval_append)
  ultimately show ?thesis using n by (auto simp: p)
qed

end
