(* ===== verification/Spec2Isabelle.thy ===== *)
theory Spec2Isabelle
  imports Mem ConstTime Asn1Int CbbSpec Oid SetOf Unicode Ber Base64 Stack Pool BioAsn1 BioChain PbRoundTrip BnSum
begin

text \<open>
  The C core of the repository.  The application is written in Swift; the C code it is built from is
  vendored under \<open>src/Traveller/Pods\<close>.  Modelled here are the support library of BoringSSL
  (\<open>BoringSSL-GRPC/src/crypto\<close>: memory, byte strings and ASN.1, base64, containers, shared buffers, streams, big numbers),
  through which everything the application receives over TLS is parsed, and nanopb
  (\<open>nanopb/pb_decode.c\<close>, \<open>pb_encode.c\<close>), which reads and writes the messages of the Firebase
  clients.

  \<^bold>\<open>Foundations.\<close>
  \<open>Prelude\<close> has the types (\<open>u8\<close> to \<open>u64\<close>, \<open>bytes\<close>), \<open>size_t\<close> arithmetic with its wrap-around
  (\<open>szadd\<close>, \<open>szmul\<close>, \<open>SIZE_LIMIT = 2 ^ 64\<close>), big- and little-endian numbers, and the collections
  of simplification rules.  Three theories hold interfaces as locales: \<open>Comparator\<close> (the contract of
  comparison functions), \<open>Codec\<close> (writers and readers of a format; \<open>read_all\<close> is the loop that reads
  to the end of its input) and \<open>Chunked\<close> (streaming operations that are fed their input in pieces).
  \<open>Lhash\<close> adds \<open>hashing\<close>, what a hash table asks of its two callbacks.  They are interpreted on the
  code's own functions: DER elements, OID components, UTF-8 characters and varints are codecs, the SET OF order
  and pointer order are comparators, the base64 encoder and decoder are chunked, the pool's buffers
  are hashing.

  \<^bold>\<open>Memory.\<close>
  \<open>Mem\<close> models \<open>crypto/mem.c\<close>.  A block is the list of its bytes, size header included; whether and with
  what contents the system allocator answers is a parameter.  Shown: what \<open>OPENSSL_malloc\<close> returns for
  every size, that \<open>OPENSSL_free\<close> and \<open>OPENSSL_realloc\<close> wipe what they give back, and the
  behaviour of the string functions.  \<open>ConstTime\<close> models the masks of \<open>crypto/internal.h\<close> and \<open>base64.c\<close>
  and shows that they are the comparisons and selections they stand for.

  \<^bold>\<open>Byte strings.\<close>
  \<open>Cbs\<close> and \<open>CbsAsn1\<close> model \<open>crypto/bytestring/cbs.c\<close>: a \<open>CBS\<close> is the list of the bytes that
  remain, a reader returns its result with the remaining bytes, also when it fails.  \<open>Der\<close>,
  \<open>CbsInt\<close> and \<open>Asn1Int\<close> characterise the accepted inputs exactly: elements by an abstract datatype of
  DER elements, integers by shortest two's complement, bit strings by the list of their bits.
  \<open>Cbb\<close> models \<open>crypto/bytestring/cbb.c\<close>: a buffer with its capacity, its growth through \<open>OPENSSL_realloc\<close>,
  its sticky error, and the chain of open children with their pending lengths.  \<open>CbbSpec\<close> refines it
  to an abstract writer, a stack of open frames whose length octets are only chosen when a frame
  is closed, and proves the round trips with the readers.  \<open>Oid\<close> (dotted decimal),
  \<open>SetOf\<close> (\<open>CBB_flush_asn1_set_of\<close>) and \<open>Unicode\<close> (\<open>crypto/bytestring/unicode.c\<close>) build on it.
  \<open>Ber\<close> models \<open>crypto/bytestring/ber.c\<close>: an abstract datatype of BER values, their octets, and the DER form
  to which \<open>CBS_asn1_ber_to_der\<close> converts them; the nesting bound of 2048 is the code's, and \<open>ber_walk\<close> describes what its search for something to convert finds.

  \<^bold>\<open>Base64.\<close>
  \<open>Base64\<close> models \<open>crypto/base64/base64.c\<close>, one-shot and streaming, with the context of 48 or 4 buffered
  bytes as a record.  Encoding and decoding are inverse, and cutting the input into pieces, of any
  sizes, changes nothing.

  \<^bold>\<open>Containers.\<close>
  \<open>Stack\<close> models \<open>crypto/stack/stack.c\<close>: the array with its unused slots and its capacity, refined to lists;
  the sorted flag is an invariant of stacks reached by calls that keep a sorted stack in order (\<open>sk_set\<close> does not see to that itself),
  under which the binary search of \<open>sk_find\<close> agrees with a linear one.  \<open>Lhash\<close> models \<open>crypto/lhash/lhash.c\<close>: chains of items, growing
  and shrinking, traversal; every operation keeps the invariant and acts on the set of elements as a
  finite map does.  \<open>Pool\<close> models \<open>crypto/pool/pool.c\<close> with the reference counts of
  \<open>crypto/refcount_lock.c\<close>.  \<open>CRYPTO_BUFFER_new\<close> takes the pool's lock twice, so it is two steps of a
  transition relation in which threads interleave; the state has the references that threads own besides the pool.  No reachable
  state has two pooled buffers with equal contents, and counts are the references owned, so that a buffer
  leaves the pool exactly with the last of them.

  \<^bold>\<open>Streams.\<close>
  \<open>Buf\<close> models \<open>crypto/buf/buf.c\<close>.  \<open>Bio\<close> has the objects of \<open>crypto/bio/bio.c\<close>, their flags and their chains; they
  live in a store, a map from addresses, because they point to each other.  \<open>BioMem\<close> is the method of
  memory BIOs (\<open>bio_mem.c\<close>), \<open>BioPair\<close> that of BIO pairs (\<open>pair.c\<close>), two ring buffers; \<open>BioIo\<close> has the
  operations that call them (\<open>BIO_read\<close>, \<open>BIO_write\<close>, \<open>BIO_free\<close>, \<open>BIO_ctrl\<close>, \<open>BIO_read_asn1\<close>).  Here a failed
  assertion, an access outside a block and a loop that does not return are the value \<open>None\<close>, so every
  theorem with a result \<open>Some\<close> also says that there are none.  \<open>BioChannel\<close> shows that a pair is two bounded
  queues, that what is read is what was written, and that a transfer completes.  \<open>BioChain\<close> shows on
  which chains the loops return and which objects \<open>BIO_free\<close> releases.  \<open>BioAsn1\<close> states as a locale,
  \<open>byte_source\<close>, what reading an element needs of \<open>BIO_read\<close>, and interprets it on memory BIOs and on pairs.

  \<^bold>\<open>Big numbers.\<close>
  \<open>BnWords\<close> has arrays of 64-bit words, with pointers into them that may overlap, and the unrolled loops of
  \<open>crypto/fipsmodule/bn/generic.c\<close>; an access outside an array is the value \<open>None\<close>.  The loops are shown to compute the
  sum, difference and product of the numbers that the words stand for (\<open>wval\<close>), also in place.  \<open>BnCore\<close> models the
  \<open>BIGNUM\<close>s of \<open>bn.c\<close>, their growth, widths and lengths, and \<open>BnAdd\<close> \<open>cmp.c\<close> and \<open>add.c\<close>; the allocator is a parameter.
  \<open>BnLimbs\<close> has the invariant of the state and the integer that a \<open>BIGNUM\<close> stands for, \<open>BnSum\<close> the theorems about
  comparison, addition, subtraction and length.

  \<^bold>\<open>nanopb.\<close>
  \<open>PbDecode\<close> and \<open>PbEncode\<close> model the streams, the wire format and the coders of values, as configured
  by the project (\<open>PB_FIELD_32BIT\<close>, \<open>PB_ENABLE_MALLOC\<close>, 64-bit integers; \<open>uint_fast8_t\<close> has 8 bits and
  \<open>PB_SIZE_MAX\<close> is \<open>2 ^ 32 - 1\<close>, so that the tests of a 32-bit size against it are left out).  Streams are
  the built-in ones on memory, and the sizing stream.  \<open>PbArray\<close> has arrays and submessages with
  the element coder as an argument, as in the code; \<open>PbValue\<close> the two tables of coders.  \<open>PbSpec\<close>
  defines \<open>emits\<close> (a writer appends given octets on every stream that has room, and counts them on a
  sizing stream) and \<open>takes\<close> (a reader consumes exactly given octets); \<open>PbWire\<close> proves that what the
  coders emit is what they take, and that no reader leaves its stream.

  \<^bold>\<open>nanopb messages.\<close>
  Messages are C structures, and here the memory is explicit: \<open>PbIter\<close> has a map from addresses to blocks of bytes, \<open>malloc\<close>
  and \<open>free\<close> on it, and the field iterator of \<open>pb_common.c\<close>; an access outside a block, a pointer that was not
  allocated and a loop that does not return are the value \<open>None\<close>.  \<open>PbDefaults\<close> sets messages to their defaults and
  releases them, \<open>PbMessage\<close> decodes them (static, pointer and callback fields, unions, fixed-count arrays, submessages,
  required fields), \<open>PbWriteMessage\<close> encodes them.  \<open>PbMacros\<close> has the macros of \<open>pb.h\<close> that describe the
  members of a structure, those of unions among them, \<open>PbCct\<close> the messages of \<open>cct.nanopb.c\<close>, through which the application uses nanopb.
  \<open>PbLayout\<close> characterises the iterator by positions and says when a structure has room for a message
  of statically held fields (\<open>static_layout\<close>, by rule induction over submessages).  \<open>PbSafe\<close>, \<open>PbSafeField\<close>, \<open>PbSafeMessage\<close> and \<open>PbSafeLoop\<close> prove
  that decoding into such a structure is defined for every input and changes nothing else, from the
  stores up to the loop (\<open>safe_run\<close>, \<open>safe_then\<close>).  \<open>PbWriteSafe\<close> proves that what \<open>pb_encode\<close> writes is settled by the structure alone,
  so that sizes computed in advance are right, and \<open>PbRoundTrip\<close> that \<open>pb_decode\<close> reads back a message of plain fields from the
  bytes that \<open>pb_encode\<close> writes for it.  \<open>PbUnion\<close> has two messages on which \<open>pb_decode\<close> is not defined.

  \<^bold>\<open>Termination, bounds.\<close>
  Each loop recurses on what it consumes.  The loops that may not return (chains of
  BIOs, the ring buffers of a pair, reading a BIO to its end, nanopb's searches and its recursion over descriptors) are partial
  functions with the value \<open>None\<close> for a run that does not, and their theorems show \<open>Some\<close>.  One definition uses fuel: \<open>dec_submessage\<close>,
  the decoder of nested messages, whose depth is at most the number of bytes in the stream, since each level reads
  a length; \<open>dec_submessage_safe\<close> shows that this is enough.  Machine integers have their
  width; \<open>size_t\<close> values are natural numbers reduced modulo \<open>2 ^ 64\<close> where the code adds or multiplies.
  Lengths in hypotheses are bounded by what the C type can hold.

  \<^bold>\<open>Not modelled.\<close>
  Undefined behaviour other than by absence, outside the memory of nanopb's messages and the arrays of big numbers; formatted output; error queues
  (\<open>OPENSSL_PUT_ERROR\<close>).  Of the modelled files: nanopb's lists of extensions, which are user data with user callbacks, and its streams with
  a user callback; user-defined BIO
  methods, and the BIOs over files and sockets, which are system input and output.  The other parts of BoringSSL (multiplication and division of big numbers, curves, ciphers and digests, X.509, EVP, TLS), the C++ pods
  and the Swift application are listed in the manifest.
\<close>

end
